(* ===== verification/Prelude.thy ===== *)
theory Prelude
  imports Main "HOL-Library.Word"
begin

text \<open>
  Shared vocabulary of the development: the machine types of
  \<^verbatim>\<open>kernel/include/types.h\<close>, byte buffers as lists, the little- and big-endian views of a
  buffer, and the lemma collections the component theories extend.

  \<^item> \<open>slice i n xs\<close> is what a read of \<open>n\<close> cells at offset \<open>i\<close> sees; \<open>blit i ys xs\<close> is the
    buffer after a \<^verbatim>\<open>memcpy(xs + i, ys, n)\<close> that stays inside it.
  \<^item> \<open>be_nat\<close> and \<open>le_nat\<close> read a big- or little-endian byte string as a number; \<open>le_bytes\<close> writes one.
  \<^item> the \<open>named_theorems\<close> collections are filled by the components: \<open>buf_simps\<close> for buffers and
    slices, \<open>heap_simps\<close> for the allocator, \<open>vfs_simps\<close> for the file system.
\<close>

unbundle bit_operations_syntax

named_theorems buf_simps \<open>facts about byte buffers, slices and blits\<close>
named_theorems heap_simps \<open>facts about the allocator's block list\<close>
named_theorems vfs_simps \<open>facts about the inode table\<close>

section \<open>Machine types\<close>

type_synonym byte = "8 word"
type_synonym u16 = "16 word"
type_synonym u32 = "32 word"
type_synonym u64 = "64 word"
type_synonym bytes = "byte list"

section \<open>Slices and blits\<close>

definition slice :: "nat \<Rightarrow> nat \<Rightarrow> 'a list \<Rightarrow> 'a list" where
  "slice i n xs = take n (drop i xs)"

definition blit :: "nat \<Rightarrow> 'a list \<Rightarrow> 'a list \<Rightarrow> 'a list" where
  "blit i ys xs = take i xs @ ys @ drop (i + length ys) xs"

lemma length_slice [simp, buf_simps]: "i + n \<le> length xs \<Longrightarrow> length (slice i n xs) = n"
  by (simp add: slice_def)

lemma length_slice_le: "length (slice i n xs) \<le> n"
  by (simp add: slice_def)

lemma length_blit [simp, buf_simps]: "i + length ys \<le> length xs \<Longrightarrow> length (blit i ys xs) = length xs"
  by (simp add: blit_def)

lemma nth_slice [buf_simps]: "i + n \<le> length xs \<Longrightarrow> k < n \<Longrightarrow> slice i n xs ! k = xs ! (i + k)"
  by (simp add: slice_def)

lemma nth_blit [buf_simps]:
  assumes "i + length ys \<le> length xs" "k < length xs"
  shows "blit i ys xs ! k = (if i \<le> k \<and> k < i + length ys then ys ! (k - i) else xs ! k)"
  using assms by (auto simp: blit_def nth_append)

lemma slice_blit_same [simp, buf_simps]:
  "i + length ys \<le> length xs \<Longrightarrow> n = length ys \<Longrightarrow> slice i n (blit i ys xs) = ys"
  by (simp add: slice_def blit_def)

lemma slice_blit_other [buf_simps]:
  assumes "i + length ys \<le> length xs" "j + n \<le> i \<or> i + length ys \<le> j"
  shows "slice j n (blit i ys xs) = slice j n xs"
proof (cases "j + n \<le> i")
  case True
  then show ?thesis using assms(1) by (simp add: slice_def blit_def take_drop)
next
  case False
  with assms have "i + length ys \<le> j" by simp
  moreover have "min (length xs) i = i" using assms(1) by simp
  ultimately show ?thesis using assms(1) by (simp add: slice_def blit_def drop_append drop_drop)
qed

lemma blit_full [simp]: "length ys = length xs \<Longrightarrow> blit 0 ys xs = ys"
  by (simp add: blit_def)

lemma slice_0 [simp]: "slice 0 n xs = take n xs"
  by (simp add: slice_def)

lemma shift_index: "Suc d \<le> a \<Longrightarrow> Suc (s + a - Suc d) = s + a - d"
  by arith

section \<open>Big-endian numbers\<close>

definition be_nat :: "bytes \<Rightarrow> nat" where
  "be_nat bs = foldl (\<lambda>acc b. acc * 256 + unat b) 0 bs"

lemma foldl_be_nat: "foldl (\<lambda>acc b. acc * 256 + unat (b :: byte)) a bs = a * 256 ^ length bs + be_nat bs"
proof (induction bs arbitrary: a)
  case Nil
  then show ?case by (simp add: be_nat_def)
next
  case (Cons b bs)
  have "be_nat (b # bs) = unat b * 256 ^ length bs + be_nat bs"
    using Cons.IH [of "unat b"] by (simp add: be_nat_def)
  then show ?case using Cons.IH [of "a * 256 + unat b"] by (simp add: algebra_simps)
qed

lemma be_nat_Nil [simp]: "be_nat [] = 0"
  by (simp add: be_nat_def)

lemma be_nat_Cons: "be_nat (b # bs) = unat b * 256 ^ length bs + be_nat bs"
  using foldl_be_nat [of "unat b" bs] by (simp add: be_nat_def)

lemma be_nat_append: "be_nat (xs @ ys) = be_nat xs * 256 ^ length ys + be_nat ys"
  using foldl_be_nat [of "be_nat xs" ys] by (simp add: be_nat_def)

lemma be_nat_snoc: "be_nat (xs @ [b]) = be_nat xs * 256 + unat b"
  by (simp add: be_nat_def)

lemma unat_byte_less [simp]: "unat (b :: byte) < 256"
  using unsigned_less [of b, where ?'a = nat] by simp

lemma be_nat_less: "be_nat bs < 256 ^ length bs"
proof (induction bs)
  case Nil
  then show ?case by simp
next
  case (Cons b bs)
  have "unat b * 256 ^ length bs + be_nat bs < unat b * 256 ^ length bs + 256 ^ length bs"
    using Cons.IH by simp
  also have "\<dots> = (unat b + 1) * 256 ^ length bs" by (simp add: algebra_simps)
  also have "\<dots> \<le> 256 * 256 ^ length bs"
    using unat_byte_less [of b] by (intro mult_le_mono1) linarith
  finally show ?case by (simp add: be_nat_Cons)
qed

lemma be_nat_replicate_0 [simp]: "be_nat (replicate n 0) = 0"
  by (induction n) (simp_all add: be_nat_Cons)

lemma be_nat_inject: "length xs = length ys \<Longrightarrow> be_nat xs = be_nat ys \<longleftrightarrow> xs = ys"
proof (induction xs ys rule: list_induct2)
  case Nil
  then show ?case by simp
next
  case (Cons x xs y ys)
  have lx: "be_nat xs < 256 ^ length ys" and ly: "be_nat ys < 256 ^ length ys"
    using be_nat_less [of xs] be_nat_less [of ys] Cons.hyps by simp_all
  have "unat x = unat y" if eq: "be_nat (x # xs) = be_nat (y # ys)"
  proof -
    have "(unat x * 256 ^ length ys + be_nat xs) div 256 ^ length ys
      = (unat y * 256 ^ length ys + be_nat ys) div 256 ^ length ys"
      using eq Cons.hyps by (simp add: be_nat_Cons)
    then show ?thesis using lx ly by simp
  qed
  then show ?case using Cons by (auto simp: be_nat_Cons word_unat_eq_iff)
qed

section \<open>Little-endian numbers\<close>

definition le_nat :: "bytes \<Rightarrow> nat" where
  "le_nat bs = be_nat (rev bs)"

primrec le_bytes :: "nat \<Rightarrow> nat \<Rightarrow> bytes" where
  "le_bytes 0 v = []"
| "le_bytes (Suc n) v = of_nat (v mod 256) # le_bytes n (v div 256)"

lemma le_nat_Nil [simp]: "le_nat [] = 0"
  by (simp add: le_nat_def)

lemma le_nat_Cons: "le_nat (b # bs) = unat b + 256 * le_nat bs"
  by (simp add: le_nat_def be_nat_snoc)

lemma le_nat_append: "le_nat (xs @ ys) = le_nat xs + 256 ^ length xs * le_nat ys"
  by (simp add: le_nat_def be_nat_append)

lemma le_nat_less: "le_nat bs < 256 ^ length bs"
  using be_nat_less [of "rev bs"] by (simp add: le_nat_def)

lemma length_le_bytes [simp]: "length (le_bytes n v) = n"
  by (induction n arbitrary: v) simp_all

lemma le_nat_le_bytes: "v < 256 ^ n \<Longrightarrow> le_nat (le_bytes n v) = v"
proof (induction n arbitrary: v)
  case (Suc n)
  have "unat (of_nat (v mod 256) :: byte) = v mod 256" by (simp add: unsigned_of_nat take_bit_eq_mod)
  moreover have "v div 256 < 256 ^ n" using Suc.prems by (simp add: div_less_iff_less_mult mult.commute)
  ultimately show ?case using Suc.IH by (simp add: le_nat_Cons)
qed simp

lemma le_bytes_le_nat: "length bs = n \<Longrightarrow> le_bytes n (le_nat bs) = bs"
proof -
  assume n: "length bs = n"
  then have "be_nat (rev (le_bytes n (le_nat bs))) = be_nat (rev bs)"
    using le_nat_le_bytes [of "le_nat bs" n] le_nat_less [of bs] by (simp add: le_nat_def)
  then show ?thesis using n be_nat_inject [of "rev (le_bytes n (le_nat bs))" "rev bs"] by simp
qed

lemma le_nat_div_mod: "k + n \<le> length bs \<Longrightarrow> le_nat bs div 256 ^ k mod 256 ^ n = le_nat (take n (drop k bs))"
proof -
  assume k: "k + n \<le> length bs"
  have "le_nat bs = le_nat (take k bs) + 256 ^ k * le_nat (drop k bs)"
    using le_nat_append [of "take k bs" "drop k bs"] k by simp
  moreover have "le_nat (take k bs) < 256 ^ k" using le_nat_less [of "take k bs"] k by simp
  ultimately have d: "le_nat bs div 256 ^ k = le_nat (drop k bs)" by simp
  have "le_nat (drop k bs) = le_nat (take n (drop k bs)) + 256 ^ n * le_nat (drop n (drop k bs))"
    using le_nat_append [of "take n (drop k bs)" "drop n (drop k bs)"] k by (simp del: drop_drop)
  moreover have "le_nat (take n (drop k bs)) < 256 ^ n" using le_nat_less [of "take n (drop k bs)"] k by simp
  ultimately show ?thesis unfolding d by simp
qed

lemma bit_le_nat: "bit (le_nat bs) n \<longleftrightarrow> n < 8 * length bs \<and> bit (bs ! (n div 8)) (n mod 8)"
proof (induction bs arbitrary: n)
  case (Cons b bs)
  have e: "le_nat (b # bs) = unat b + 2 ^ 8 * le_nat bs" by (simp add: le_nat_Cons)
  have s: "le_nat (b # bs) mod 2 ^ 8 = unat b" "le_nat (b # bs) div 2 ^ 8 = le_nat bs" unfolding e by simp_all
  show ?case
  proof (cases "n < 8")
    case True
    have "bit (le_nat (b # bs)) n = bit (take_bit 8 (le_nat (b # bs))) n" using True by (simp add: bit_take_bit_iff)
    also have "\<dots> = bit b n" unfolding take_bit_eq_mod s(1) using True by (simp add: bit_unsigned_iff)
    finally show ?thesis using True by simp
  next
    case False
    have "bit (le_nat (b # bs)) n = bit (drop_bit 8 (le_nat (b # bs))) (n - 8)" using False by (simp add: bit_drop_bit_eq)
    also have "\<dots> = bit (le_nat bs) (n - 8)" unfolding drop_bit_eq_div s(2) ..
    also have "\<dots> \<longleftrightarrow> n < 8 * length (b # bs) \<and> bit ((b # bs) ! (n div 8)) (n mod 8)"
      using Cons.IH [of "n - 8"] False by (auto simp: le_div_geq le_mod_geq)
    finally show ?thesis .
  qed
qed simp

section \<open>Words\<close>

lemma or_push_nat: "a < 2 ^ n \<Longrightarrow> a OR push_bit n b = a + 2 ^ n * (b :: nat)"
proof -
  assume "a < 2 ^ n"
  then have t: "take_bit n a = a" by (rule take_bit_nat_eq_self)
  have na: "\<not> bit a i" if "n \<le> i" for i using that bit_take_bit_iff [of n a i] t by simp
  have "a OR push_bit n b = a + push_bit n b"
    by (rule disjunctive_add_eq_or [symmetric], rule bit_eqI) (auto simp: bit_simps na)
  then show ?thesis by (simp add: push_bit_eq_mult mult.commute)
qed

lemma unat_u32_less: "unat (w :: u32) < 4294967296"
  using unsigned_less [of w, where ?'a = nat] by simp

lemma unat_ucast_byte [simp]: "unat (ucast (x :: byte) :: u32) = unat x"
  by (simp only: unsigned_ucast_eq) (rule take_bit_nat_eq_self, rule less_trans [OF unat_byte_less], simp)

lemma unat_ucast_u16 [simp]: "unat (ucast (x :: byte) :: u16) = unat x"
  by (simp only: unsigned_ucast_eq) (rule take_bit_nat_eq_self, rule less_trans [OF unat_byte_less], simp)

lemma ucast_low_byte:
  "(ucast ((v :: u32) AND 0xff) :: byte) = ucast v" "(ucast ((w :: u16) AND 0xff) :: byte) = ucast w"
proof -
  have m: "(0xff :: u32) = mask 8" "(0xff :: u16) = mask 8" by (simp_all add: mask_eq_exp_minus_1)
  show "(ucast (v AND 0xff) :: byte) = ucast v" unfolding m by (rule bit_word_eqI) (simp add: bit_simps)
  show "(ucast (w AND 0xff) :: byte) = ucast w" unfolding m by (rule bit_word_eqI) (simp add: bit_simps)
qed

section \<open>Lists\<close>

lemma xor_cancel_list:
  "length xs \<le> length ks \<Longrightarrow> map2 (XOR) (map2 (XOR) xs ks) ks = (xs :: 'a :: len word list)"
proof (induction xs arbitrary: ks)
  case (Cons x xs)
  then obtain k ks' where "ks = k # ks'" by (cases ks) auto
  with Cons show ?case by (simp add: xor.assoc)
qed simp

end
