(* ===== verification/Cstring.thy ===== *)
theory Cstring
  imports Prelude
begin

text \<open>
  \<^verbatim>\<open>kernel/lib/string.c\<close>. The memory functions run on an explicit byte memory \<open>mem\<close>
  (address to byte), so overlapping operands are visible; a scan for a NUL byte that may never
  come is a \<^theory_text>\<open>partial_function (option)\<close>, with \<open>None\<close> for "does not return".
  The number conversions and \<^verbatim>\<open>snprintf\<close> produce the text that the C code writes before its
  terminating NUL. In \<^verbatim>\<open>snprintf\<close> the value \<open>None\<close> stands for undefined behaviour: a variadic
  argument of another type than the conversion reads, or a read past the end of the format.
\<close>

section \<open>Memory functions\<close>

type_synonym mem = "nat \<Rightarrow> byte"

primrec memset_loop :: "mem \<Rightarrow> nat \<Rightarrow> byte \<Rightarrow> nat \<Rightarrow> mem" where
  "memset_loop m p c 0 = m"
| "memset_loop m p c (Suc n) = memset_loop (m(p := c)) (Suc p) c n"

definition memset :: "mem \<Rightarrow> nat \<Rightarrow> int \<Rightarrow> nat \<Rightarrow> mem" where
  "memset m s c n = memset_loop m s (word_of_int c) n"

primrec memcpy :: "mem \<Rightarrow> nat \<Rightarrow> nat \<Rightarrow> nat \<Rightarrow> mem" where
  "memcpy m d s 0 = m"
| "memcpy m d s (Suc n) = memcpy (m(d := m s)) (Suc d) (Suc s) n"

primrec memcpy_down :: "mem \<Rightarrow> nat \<Rightarrow> nat \<Rightarrow> nat \<Rightarrow> mem" where
  "memcpy_down m d s 0 = m"
| "memcpy_down m d s (Suc n) = memcpy_down (m(d + n := m (s + n))) d s n"

definition memmove :: "mem \<Rightarrow> nat \<Rightarrow> nat \<Rightarrow> nat \<Rightarrow> mem" where
  "memmove m d s n = (if d < s then memcpy m d s n else memcpy_down m d s n)"

primrec memcmp :: "mem \<Rightarrow> nat \<Rightarrow> nat \<Rightarrow> nat \<Rightarrow> int" where
  "memcmp m p q 0 = 0"
| "memcmp m p q (Suc n) =
     (if m p \<noteq> m q then uint (m p) - uint (m q) else memcmp m (Suc p) (Suc q) n)"

section \<open>String functions\<close>

partial_function (option) strlen_loop :: "mem \<Rightarrow> nat \<Rightarrow> nat \<Rightarrow> nat option" where
  "strlen_loop m s len = (if m s = 0 then Some len else strlen_loop m (Suc s) (Suc len))"

definition strlen :: "mem \<Rightarrow> nat \<Rightarrow> nat option" where
  "strlen m s = strlen_loop m s 0"

partial_function (option) strcmp :: "mem \<Rightarrow> nat \<Rightarrow> nat \<Rightarrow> int option" where
  "strcmp m s1 s2 =
     (if m s1 \<noteq> 0 \<and> m s1 = m s2 then strcmp m (Suc s1) (Suc s2)
      else Some (uint (m s1) - uint (m s2)))"

primrec strncmp :: "mem \<Rightarrow> nat \<Rightarrow> nat \<Rightarrow> nat \<Rightarrow> int" where
  "strncmp m s1 s2 0 = 0"
| "strncmp m s1 s2 (Suc n) =
     (if m s1 \<noteq> 0 \<and> m s1 = m s2 then strncmp m (Suc s1) (Suc s2) n
      else uint (m s1) - uint (m s2))"

partial_function (option) strcpy :: "mem \<Rightarrow> nat \<Rightarrow> nat \<Rightarrow> mem option" where
  "strcpy m d s =
     (let m' = m(d := m s) in if m' d \<noteq> 0 then strcpy m' (Suc d) (Suc s) else Some m')"

text \<open>
  The first loop of \<^verbatim>\<open>strncpy\<close> leaves \<open>n\<close> alone on the iteration that copies the NUL, and the
  second loop then stores \<open>n\<close> more zeros.
\<close>

primrec strncpy :: "mem \<Rightarrow> nat \<Rightarrow> nat \<Rightarrow> nat \<Rightarrow> mem" where
  "strncpy m d s 0 = m"
| "strncpy m d s (Suc n) =
     (let m' = m(d := m s)
      in if m' d \<noteq> 0 then strncpy m' (Suc d) (Suc s) n
         else memset_loop m' (Suc d) 0 (Suc n))"

partial_function (option) skip_to_nul :: "mem \<Rightarrow> nat \<Rightarrow> nat option" where
  "skip_to_nul m d = (if m d \<noteq> 0 then skip_to_nul m (Suc d) else Some d)"

definition strcat :: "mem \<Rightarrow> nat \<Rightarrow> nat \<Rightarrow> mem option" where
  "strcat m d s = Option.bind (skip_to_nul m d) (\<lambda>e. strcpy m e s)"

section \<open>Number conversion\<close>

definition digit_char :: "nat \<Rightarrow> char" where
  "digit_char d = (if d < 10 then char_of (48 + d) else char_of (97 + d - 10))"

partial_function (option) utoa_loop :: "nat \<Rightarrow> nat \<Rightarrow> string \<Rightarrow> string option" where
  "utoa_loop v base p =
     (if base = 0 then None
      else let p' = p @ [digit_char (v mod base)]; v' = v div base
           in if v' \<noteq> 0 then utoa_loop v' base p' else Some p')"

function reverse_loop :: "'a list \<Rightarrow> nat \<Rightarrow> nat \<Rightarrow> 'a list" where
  "reverse_loop xs p1 p2 =
     (if p1 < p2 then reverse_loop (xs[p1 := xs ! p2, p2 := xs ! p1]) (Suc p1) (p2 - 1) else xs)"
  by pat_completeness auto
termination
  by (relation "measure (\<lambda>(xs, p1, p2). p2 - p1)") auto

declare reverse_loop.simps [simp del]

definition utoa :: "nat \<Rightarrow> nat \<Rightarrow> string option" where
  "utoa value base =
     Option.bind (utoa_loop value base [])
       (\<lambda>p. Some (reverse_loop p 0 (length p - 1)))"

text \<open>
  \<^verbatim>\<open>itoa\<close> takes a signed 32-bit value. Negating \<^verbatim>\<open>INT_MIN\<close> overflows, which C leaves undefined.
\<close>

definition itoa :: "int \<Rightarrow> nat \<Rightarrow> string option" where
  "itoa value base =
     (if value < 0 \<and> base = 10 then
        (if value = - (2 ^ 31) then None
         else Option.bind (utoa_loop (nat (- value)) base [])
                (\<lambda>p. let p' = p @ ''-'' in Some (reverse_loop p' 0 (length p' - 1))))
      else Option.bind (utoa_loop (nat (value mod 2 ^ 32)) base [])
             (\<lambda>p. Some (reverse_loop p 0 (length p - 1))))"

section \<open>Substring search\<close>

text \<open>Strings without their NUL; the result is the suffix the returned pointer designates.\<close>

fun strstr_match :: "string \<Rightarrow> string \<Rightarrow> bool" where
  "strstr_match h [] = True"
| "strstr_match [] (n # ns) = False"
| "strstr_match (h # hs) (n # ns) = (h = n \<and> strstr_match hs ns)"

fun strstr_loop :: "string \<Rightarrow> string \<Rightarrow> string option" where
  "strstr_loop [] needle = None"
| "strstr_loop (h # hs) needle =
     (if strstr_match (h # hs) needle then Some (h # hs) else strstr_loop hs needle)"

definition strstr :: "string \<Rightarrow> string \<Rightarrow> string option" where
  "strstr haystack needle = (if needle = [] then Some haystack else strstr_loop haystack needle)"

section \<open>Formatted output\<close>

text \<open>A variadic argument: a 32-bit or 64-bit integer as passed, or a \<^verbatim>\<open>char *\<close> (\<open>None\<close> for NULL).\<close>

datatype va = VInt u32 | VLong u64 | VPtr "string option"

fun skip_flags :: "string \<Rightarrow> bool \<Rightarrow> bool \<Rightarrow> string \<times> bool \<times> bool" where
  "skip_flags [] left zero = ([], left, zero)"
| "skip_flags (c # f) left zero =
     (if c = CHR ''-'' then skip_flags f True zero
      else if c = CHR ''0'' then skip_flags f left True
      else (c # f, left, zero))"

definition is_digit :: "char \<Rightarrow> bool" where
  "is_digit c \<longleftrightarrow> of_char c \<ge> (48 :: nat) \<and> of_char c \<le> (57 :: nat)"

fun scan_width :: "string \<Rightarrow> nat \<Rightarrow> string \<times> nat" where
  "scan_width [] w = ([], w)"
| "scan_width (c # f) w =
     (if is_digit c then scan_width f (w * 10 + (of_char c - 48)) else (c # f, w))"

fun scan_length :: "string \<Rightarrow> string \<times> bool" where
  "scan_length (c # f) =
     (if c = CHR ''l'' then
        (case f of d # g \<Rightarrow> if d = CHR ''l'' then (g, True) else (f, True) | [] \<Rightarrow> (f, True))
      else (c # f, False))"
| "scan_length [] = ([], False)"

definition conv_unsigned :: "bool \<Rightarrow> va list \<Rightarrow> nat \<Rightarrow> (string \<times> va list) option" where
  "conv_unsigned is_long args base =
     (case args of
        VInt v # rest \<Rightarrow> if is_long then None else map_option (\<lambda>s. (s, rest)) (utoa (unat v) base)
      | VLong v # rest \<Rightarrow> if is_long then map_option (\<lambda>s. (s, rest)) (utoa (unat v) base) else None
      | _ \<Rightarrow> None)"

definition conv_signed :: "bool \<Rightarrow> va list \<Rightarrow> (string \<times> va list) option" where
  "conv_signed is_long args =
     (case args of
        VInt v # rest \<Rightarrow> if is_long then None else map_option (\<lambda>s. (s, rest)) (itoa (sint v) 10)
      | VLong v # rest \<Rightarrow>
          if is_long then map_option (\<lambda>s. (s, rest)) (itoa (sint (ucast v :: u32)) 10) else None
      | _ \<Rightarrow> None)"

definition until_nul :: "string \<Rightarrow> string" where
  "until_nul s = takeWhile (\<lambda>c. c \<noteq> CHR 0x00) s"

definition convert :: "char \<Rightarrow> bool \<Rightarrow> va list \<Rightarrow> (string \<times> va list) option" where
  "convert c is_long args =
     (if c = CHR ''d'' \<or> c = CHR ''i'' then conv_signed is_long args
      else if c = CHR ''u'' then conv_unsigned is_long args 10
      else if c = CHR ''x'' \<or> c = CHR ''X'' then conv_unsigned is_long args 16
      else if c = CHR ''s'' then
        (case args of
           VPtr None # rest \<Rightarrow> Some (''(null)'', rest)
         | VPtr (Some s) # rest \<Rightarrow> Some (s, rest)
         | _ \<Rightarrow> None)
      else if c = CHR ''c'' then
        (case args of VInt v # rest \<Rightarrow> Some (until_nul [char_of (unat v mod 256)], rest) | _ \<Rightarrow> None)
      else if c = CHR ''%'' then Some (''%'', args)
      else Some (until_nul [CHR ''%'', c], args))"

text \<open>Everything one conversion stores, cut where \<^verbatim>\<open>out\<close> meets \<^verbatim>\<open>end\<close> (\<open>room\<close> cells left).\<close>

definition padded :: "bool \<Rightarrow> bool \<Rightarrow> nat \<Rightarrow> string \<Rightarrow> string" where
  "padded left zero width s =
     (if left then s @ replicate (width - length s) CHR '' ''
      else replicate (width - length s) (if zero then CHR ''0'' else CHR '' '') @ s)"

lemma skip_flags_length: "(f', r) = skip_flags f l z \<Longrightarrow> length f' \<le> length f"
  by (induction f l z rule: skip_flags.induct) (auto split: if_splits)

lemma scan_width_length: "(f', w') = scan_width f w \<Longrightarrow> length f' \<le> length f"
  by (induction f w rule: scan_width.induct) (auto split: if_splits)

lemma scan_length_length: "(f', l) = scan_length f \<Longrightarrow> length f' \<le> length f"
  by (induction f rule: scan_length.induct) (auto split: list.splits if_splits)

function snprintf_loop :: "nat \<Rightarrow> string \<Rightarrow> va list \<Rightarrow> string \<Rightarrow> string option" where
  "snprintf_loop lim [] args out = Some out"
| "snprintf_loop lim (c # f) args out =
     (if length out < lim then
        (if c = CHR ''%'' then
           (let (f1, left, zero0) = skip_flags f False False;
                zero = (zero0 \<and> \<not> left);
                (f2, width) = scan_width f1 0;
                (f3, is_long) = scan_length f2
            in case f3 of
                 [] \<Rightarrow> None
               | k # f4 \<Rightarrow>
                   (case convert k is_long args of
                      None \<Rightarrow> None
                    | Some (s, args') \<Rightarrow>
                        snprintf_loop lim f4 args'
                          (out @ take (lim - length out) (padded left zero width s))))
         else snprintf_loop lim f args (out @ [c]))
      else Some out)"
  by pat_completeness auto
termination
  by (relation "measure (\<lambda>(e, f, a, out). length f)")
    (auto dest!: skip_flags_length scan_width_length scan_length_length)

text \<open>
  The text stored before the NUL; its length is the returned value. A zero size returns 0 and
  stores nothing.
\<close>

definition snprintf :: "nat \<Rightarrow> string \<Rightarrow> va list \<Rightarrow> string option" where
  "snprintf sz format args = (if sz = 0 then Some [] else snprintf_loop (sz - 1) format args [])"

section \<open>Memory functions are what their names say\<close>

lemma memset_loop_at: "memset_loop m p c n a = (if p \<le> a \<and> a < p + n then c else m a)"
  by (induction n arbitrary: m p) auto

lemma memcpy_disjoint:
  "d + n \<le> s \<or> s + n \<le> d \<or> d < s \<Longrightarrow>
   memcpy m d s n a = (if d \<le> a \<and> a < d + n then m (s + (a - d)) else m a)"
proof (induction n arbitrary: m d s)
  case 0
  then show ?case by auto
next
  case (Suc n)
  have "memcpy (m(d := m s)) (Suc d) (Suc s) n a =
    (if Suc d \<le> a \<and> a < Suc d + n then (m(d := m s)) (Suc s + (a - Suc d)) else (m(d := m s)) a)"
    using Suc.prems by (intro Suc.IH) auto
  also have "\<dots> = (if d \<le> a \<and> a < d + Suc n then m (s + (a - d)) else m a)"
    using Suc.prems by (auto simp: shift_index)
  finally show ?case by simp
qed

lemma memcpy_down_at:
  "s \<le> d \<Longrightarrow> memcpy_down m d s n a = (if d \<le> a \<and> a < d + n then m (s + (a - d)) else m a)"
proof (induction n arbitrary: m)
  case 0
  then show ?case by auto
next
  case (Suc n)
  have "memcpy_down (m(d + n := m (s + n))) d s n a =
    (if d \<le> a \<and> a < d + n then (m(d + n := m (s + n))) (s + (a - d))
     else (m(d + n := m (s + n))) a)"
    using Suc by blast
  also have "\<dots> = (if d \<le> a \<and> a < d + Suc n then m (s + (a - d)) else m a)"
    using Suc.prems by (auto simp: shift_index)
  finally show ?case by simp
qed

lemma memcmp_0_iff: "memcmp m p q n = 0 \<longleftrightarrow> (\<forall>i<n. m (p + i) = m (q + i))"
proof (induction n arbitrary: p q)
  case 0
  then show ?case by simp
next
  case (Suc n)
  have "(\<forall>i<Suc n. m (p + i) = m (q + i)) \<longleftrightarrow>
    m p = m q \<and> (\<forall>i<n. m (Suc p + i) = m (Suc q + i))"
    by (subst All_less_Suc2) simp
  moreover have "uint (m p) \<noteq> uint (m q)" if "m p \<noteq> m q" using that by (simp add: word_uint_eq_iff)
  ultimately show ?case using Suc.IH by simp
qed

section \<open>NUL-terminated strings in memory\<close>

definition cstr :: "mem \<Rightarrow> nat \<Rightarrow> bytes \<Rightarrow> bool" where
  "cstr m p bs \<longleftrightarrow> (\<forall>i<length bs. m (p + i) = bs ! i) \<and> 0 \<notin> set bs \<and> m (p + length bs) = 0"

lemma cstr_Nil [simp]: "cstr m p [] \<longleftrightarrow> m p = 0"
  by (simp add: cstr_def)

lemma cstr_Cons [simp]: "cstr m p (b # bs) \<longleftrightarrow> m p = b \<and> b \<noteq> 0 \<and> cstr m (Suc p) bs"
  by (auto simp: cstr_def All_less_Suc2)

lemma strlen_loop_cstr: "cstr m p bs \<Longrightarrow> strlen_loop m p k = Some (k + length bs)"
  by (induction bs arbitrary: p k) (subst strlen_loop.simps; simp)+

lemma skip_to_nul_cstr: "cstr m p bs \<Longrightarrow> skip_to_nul m p = Some (p + length bs)"
  by (induction bs arbitrary: p) (subst skip_to_nul.simps; simp)+

lemma strcmp_cstr:
  "cstr m p as \<Longrightarrow> cstr m q bs \<Longrightarrow> \<exists>r. strcmp m p q = Some r \<and> (r = 0 \<longleftrightarrow> as = bs)"
proof (induction as arbitrary: p q bs)
  case Nil
  then show ?case by (cases bs) (subst strcmp.simps; auto simp: word_uint_eq_iff)+
next
  case (Cons a as)
  show ?case
  proof (cases "m q = a")
    case True
    with Cons.prems obtain bs' where "bs = a # bs'" "cstr m (Suc q) bs'" by (cases bs) auto
    with Cons show ?thesis by (subst strcmp.simps) auto
  next
    case False
    with Cons.prems have "bs \<noteq> a # as" by auto
    with False Cons.prems show ?thesis by (subst strcmp.simps) (auto simp: word_uint_eq_iff)
  qed
qed

lemma cstr_upd_other:
  assumes "a < p \<or> p + length bs < a"
  shows "cstr (m(a := v)) p bs = cstr m p bs"
proof -
  have "p + i \<noteq> a" if "i \<le> length bs" for i using assms that by auto
  then show ?thesis by (simp add: cstr_def)
qed

lemma strcpy_cstr:
  assumes "cstr m s bs" "d + length bs < s \<or> s + length bs < d"
  shows "strcpy m d s = Some (\<lambda>a. if d \<le> a \<and> a \<le> d + length bs then m (s + (a - d)) else m a)"
  using assms
proof (induction bs arbitrary: m d s)
  case Nil
  then have "strcpy m d s = Some (m(d := m s))" by (subst strcpy.simps) simp
  then show ?case using Nil by (auto simp: fun_eq_iff)
next
  case (Cons b bs)
  let ?m = "m(d := m s)"
  have c: "cstr ?m (Suc s) bs" using Cons.prems by (subst cstr_upd_other) auto
  have "strcpy m d s = strcpy ?m (Suc d) (Suc s)"
    using Cons.prems by (subst strcpy.simps) (simp add: Let_def)
  also have "\<dots> = Some (\<lambda>a. if Suc d \<le> a \<and> a \<le> Suc d + length bs then ?m (Suc s + (a - Suc d)) else ?m a)"
    using Cons.prems by (intro Cons.IH [OF c]) auto
  also have "\<dots> = Some (\<lambda>a. if d \<le> a \<and> a \<le> d + length (b # bs) then m (s + (a - d)) else m a)"
    using Cons.prems by (auto simp: fun_eq_iff shift_index)
  finally show ?case .
qed

lemma strncpy_short:
  assumes "cstr m s bs" "length bs < n" "d + n < s \<or> s + length bs < d"
  shows "strncpy m d s n = (\<lambda>a. if d \<le> a \<and> a < d + length bs then m (s + (a - d))
                               else if d + length bs \<le> a \<and> a \<le> d + n then 0 else m a)"
  using assms
proof (induction bs arbitrary: m d s n)
  case Nil
  then obtain k where "n = Suc k" by (cases n) auto
  with Nil show ?case by (auto simp: fun_eq_iff memset_loop_at)
next
  case (Cons b bs)
  from Cons.prems obtain k where n: "n = Suc k" by (cases n) auto
  let ?m = "m(d := m s)"
  have c: "cstr ?m (Suc s) bs" using Cons.prems by (subst cstr_upd_other) auto
  have "strncpy m d s n = strncpy ?m (Suc d) (Suc s) k" using Cons.prems n by simp
  also have "\<dots> = (\<lambda>a. if Suc d \<le> a \<and> a < Suc d + length bs then ?m (Suc s + (a - Suc d))
      else if Suc d + length bs \<le> a \<and> a \<le> Suc d + k then 0 else ?m a)"
    using Cons.prems n by (intro Cons.IH [OF c]) auto
  finally show ?case using Cons.prems n by (auto simp: fun_eq_iff shift_index)
qed

section \<open>Number conversion\<close>

definition digit_val :: "char \<Rightarrow> nat" where
  "digit_val c = (if is_digit c then of_char c - 48 else of_char c - 87)"

definition digits_val :: "nat \<Rightarrow> string \<Rightarrow> nat" where
  "digits_val base s = foldl (\<lambda>acc c. acc * base + digit_val c) 0 s"

lemma digit_val_char: "d < 36 \<Longrightarrow> digit_val (digit_char d) = d"
  by (auto simp: digit_val_def digit_char_def is_digit_def)

lemma digits_val_snoc: "digits_val b (s @ [c]) = digits_val b s * b + digit_val c"
  by (simp add: digits_val_def)

lemma length_reverse_loop [simp]: "length (reverse_loop xs i j) = length xs"
  by (induction xs i j rule: reverse_loop.induct) (subst reverse_loop.simps, simp)

lemma reverse_loop_nth:
  "i + j + 1 = length xs \<Longrightarrow> k < length xs \<Longrightarrow>
   reverse_loop xs i j ! k = (if i \<le> k \<and> k \<le> j then xs ! (length xs - 1 - k) else xs ! k)"
proof (induction xs i j rule: reverse_loop.induct)
  case (1 xs i j)
  show ?case
  proof (cases "i < j")
    case True
    let ?ys = "xs[i := xs ! j, j := xs ! i]"
    have "reverse_loop xs i j = reverse_loop ?ys (Suc i) (j - 1)"
      using True by (subst reverse_loop.simps) simp
    moreover have "reverse_loop ?ys (Suc i) (j - 1) ! k =
      (if Suc i \<le> k \<and> k \<le> j - 1 then ?ys ! (length xs - 1 - k) else ?ys ! k)"
      using "1.IH" [OF True] "1.prems" True by simp
    moreover have "length xs - 1 - k = i + j - k" using "1.prems" by simp
    ultimately show ?thesis using True "1.prems" by (auto simp: nth_list_update)
  next
    case False
    then have "reverse_loop xs i j = xs" by (subst reverse_loop.simps) simp
    moreover have "length xs - 1 - k = k" if "i \<le> k" "k \<le> j" using False "1.prems" that by linarith
    ultimately show ?thesis by simp
  qed
qed

lemma reverse_loop_rev: "xs \<noteq> [] \<Longrightarrow> reverse_loop xs 0 (length xs - 1) = rev xs"
  by (rule nth_equalityI) (auto simp: reverse_loop_nth rev_nth)

lemma utoa_loop_digits:
  assumes "2 \<le> b" "b \<le> 36"
  shows "\<exists>ds. utoa_loop v b p = Some (p @ ds) \<and> ds \<noteq> [] \<and> digits_val b (rev ds) = v \<and>
              b ^ (length ds - 1) \<le> max 1 v"
proof (induction v arbitrary: p rule: less_induct)
  case (less v)
  have d: "digit_val (digit_char (v mod b)) = v mod b"
    using assms mod_less_divisor [of b v] by (intro digit_val_char) linarith
  show ?case
  proof (cases "v div b = 0")
    case True
    then have "utoa_loop v b p = Some (p @ [digit_char (v mod b)])"
      using assms by (subst utoa_loop.simps) (simp add: Let_def)
    moreover have "v mod b = v" using True by (metis div_mult_mod_eq mult_0 add_0)
    ultimately show ?thesis using d by (intro exI [of _ "[digit_char (v mod b)]"]) (simp add: digits_val_def)
  next
    case False
    have "v \<noteq> 0" using False by (cases "v = 0") simp_all
    then have "v div b < v" using assms by (intro div_less_dividend) auto
    from less.IH [OF this, of "p @ [digit_char (v mod b)]"] obtain ds where
      ds: "utoa_loop (v div b) b (p @ [digit_char (v mod b)]) = Some ((p @ [digit_char (v mod b)]) @ ds)"
        "ds \<noteq> []" "digits_val b (rev ds) = v div b" "b ^ (length ds - 1) \<le> max 1 (v div b)"
      by blast
    let ?ds = "digit_char (v mod b) # ds"
    have "utoa_loop v b p = Some (p @ ?ds)"
      using ds(1) False assms by (subst utoa_loop.simps) (simp add: Let_def)
    moreover have "digits_val b (rev ?ds) = v" using ds(3) d by (simp add: digits_val_snoc)
    moreover have "b ^ (length ?ds - 1) \<le> max 1 v"
    proof -
      have "b ^ length ds = b * b ^ (length ds - 1)" using ds(2) by (cases ds) simp_all
      also have "\<dots> \<le> b * (v div b)" using ds(4) False by (intro mult_le_mono2) simp
      also have "\<dots> \<le> v" by simp
      finally show ?thesis by simp
    qed
    ultimately show ?thesis by (intro exI [of _ ?ds]) simp
  qed
qed

lemma utoa_value:
  assumes "2 \<le> b" "b \<le> 36"
  shows "\<exists>s. utoa v b = Some s \<and> s \<noteq> [] \<and> digits_val b s = v \<and> b ^ (length s - 1) \<le> max 1 v"
proof -
  obtain ds where "utoa_loop v b [] = Some ds" "ds \<noteq> []" "digits_val b (rev ds) = v"
    "b ^ (length ds - 1) \<le> max 1 v"
    using utoa_loop_digits [OF assms, of v "[]"] by auto
  then show ?thesis
    by (intro exI [of _ "rev ds"]) (simp add: utoa_def reverse_loop_rev del: One_nat_def)
qed

section \<open>snprintf stays inside its buffer\<close>

lemma snprintf_loop_prefix:
  "snprintf_loop n f args out = Some s \<Longrightarrow> length out \<le> n \<Longrightarrow>
   length s \<le> n \<and> take (length out) s = out"
proof (induction n f args out rule: snprintf_loop.induct)
  case (1 n args out)
  then show ?case by simp
next
  case (2 n c f args out)
  show ?case
  proof (cases "length out < n \<and> c = CHR ''%''")
    case True
    obtain f1 left zero0 where e1: "skip_flags f False False = (f1, left, zero0)"
      by (cases "skip_flags f False False")
    obtain f2 width where e2: "scan_width f1 0 = (f2, width)" by (cases "scan_width f1 0")
    obtain f3 is_long where e3: "scan_length f2 = (f3, is_long)" by (cases "scan_length f2")
    from "2.prems" True e1 e2 e3 obtain k f4 s' args' where
      e4: "f3 = k # f4" "convert k is_long args = Some (s', args')"
      by (auto simp: Let_def split: list.splits option.splits)
    let ?out = "out @ take (n - length out) (padded left (zero0 \<and> \<not> left) width s')"
    from "2.prems" True e1 e2 e3 e4 have eq: "snprintf_loop n f4 args' ?out = Some s"
      by (simp add: Let_def)
    have len: "length ?out \<le> n" using True by (simp add: min_def) linarith
    have "length s \<le> n \<and> take (length ?out) s = ?out"
      by (rule "2.IH"(1) [OF _ _ e1 [symmetric] refl refl _ e2 [symmetric] refl e3 [symmetric] refl e4(1) e4(2)])
        (use True eq len in simp_all)
    then have "length s \<le> n" "take (length out) (take (length ?out) s) = take (length out) ?out" by simp_all
    then show ?thesis by (simp add: min_def split: if_splits)
  next
    case False
    show ?thesis
    proof (cases "length out < n")
      case True
      with False have c: "c \<noteq> CHR ''%''" by simp
      have "length s \<le> n \<and> take (length (out @ [c])) s = out @ [c]"
        by (rule "2.IH"(2)) (use "2.prems" True c in simp_all)
      then have "length s \<le> n" "take (length out) (take (length (out @ [c])) s) = take (length out) (out @ [c])"
        by simp_all
      then show ?thesis by (simp add: min_def)
    next
      case False
      with "2.prems" show ?thesis by simp
    qed
  qed
qed

lemma snprintf_percent_s:
  "0 < n \<Longrightarrow> snprintf n ''%s'' [VPtr (Some s)] = Some (take (n - 1) s)"
  by (cases "n = 1") (auto simp: snprintf_def convert_def padded_def is_digit_def)

section \<open>snprintf is defined on well-typed formats\<close>

text \<open>The argument a conversion consumes has the type it reads, and is not \<^verbatim>\<open>INT_MIN\<close> for \<^verbatim>\<open>%d\<close>.\<close>

definition take_arg :: "char \<Rightarrow> bool \<Rightarrow> va list \<Rightarrow> va list option" where
  "take_arg c is_long args =
     (if c = CHR ''d'' \<or> c = CHR ''i'' then
        (case args of
           VInt v # rest \<Rightarrow> if \<not> is_long \<and> sint v \<noteq> - (2 ^ 31) then Some rest else None
         | _ \<Rightarrow> None)
      else if c = CHR ''u'' \<or> c = CHR ''x'' \<or> c = CHR ''X'' then
        (case args of
           VInt v # rest \<Rightarrow> if is_long then None else Some rest
         | VLong v # rest \<Rightarrow> if is_long then Some rest else None
         | _ \<Rightarrow> None)
      else if c = CHR ''s'' then (case args of VPtr p # rest \<Rightarrow> Some rest | _ \<Rightarrow> None)
      else if c = CHR ''c'' then (case args of VInt v # rest \<Rightarrow> Some rest | _ \<Rightarrow> None)
      else Some args)"

function fmt_ok :: "string \<Rightarrow> va list \<Rightarrow> bool" where
  "fmt_ok [] args = True"
| "fmt_ok (c # f) args =
     (if c = CHR ''%'' then
        (let (f1, l, z) = skip_flags f False False; (f2, w) = scan_width f1 0; (f3, is_long) = scan_length f2
         in case f3 of
              [] \<Rightarrow> False
            | k # f4 \<Rightarrow> (case take_arg k is_long args of None \<Rightarrow> False | Some args' \<Rightarrow> fmt_ok f4 args'))
      else fmt_ok f args)"
  by pat_completeness auto
termination
  by (relation "measure (\<lambda>(f, a). length f)")
    (auto dest!: skip_flags_length scan_width_length scan_length_length)

lemma itoa_10_defined: "v \<noteq> - (2 ^ 31) \<Longrightarrow> \<exists>s. itoa v 10 = Some s"
  using utoa_loop_digits [of 10 "nat (- v)" "[]"] utoa_loop_digits [of 10 "nat (v mod 2 ^ 32)" "[]"]
  by (auto simp: itoa_def Let_def)

lemma take_arg_convert:
  assumes "take_arg c is_long args = Some rest"
  shows "\<exists>s. convert c is_long args = Some (s, rest)"
proof -
  have u: "\<exists>s. utoa v b = Some s" if "b = 10 \<or> b = 16" for v b
    using that utoa_value [of b v] by auto
  show ?thesis
    using assms u itoa_10_defined
    by (auto simp: take_arg_def convert_def conv_signed_def conv_unsigned_def
        split: if_splits list.splits va.splits option.splits)
qed

lemma snprintf_loop_defined: "fmt_ok f args \<Longrightarrow> \<exists>s. snprintf_loop lim f args out = Some s"
proof (induction "length f" arbitrary: f args out rule: less_induct)
  case less
  show ?case
  proof (cases f)
    case (Cons c g)
    show ?thesis
    proof (cases "length out < lim \<and> c = CHR ''%''")
      case True
      obtain f1 l z f2 w f3 is_long where f: "skip_flags g False False = (f1, l, z)" "scan_width f1 0 = (f2, w)"
        "scan_length f2 = (f3, is_long)" by (metis prod_cases3 surj_pair)
      from less.prems True f Cons obtain k f4 args' where
        k: "f3 = k # f4" "take_arg k is_long args = Some args'" "fmt_ok f4 args'"
        by (auto split: list.splits option.splits)
      from take_arg_convert [OF k(2)] obtain t where t: "convert k is_long args = Some (t, args')" by blast
      have "length f4 < length f"
        using skip_flags_length [OF f(1) [symmetric]] scan_width_length [OF f(2) [symmetric]]
          scan_length_length [OF f(3) [symmetric]] k(1) Cons by simp
      then show ?thesis using less.hyps [OF _ k(3)] True f k(1) t Cons by simp
    next
      case False
      then show ?thesis using less Cons by auto
    qed
  qed simp
qed

lemma snprintf_defined: "fmt_ok f args \<Longrightarrow> \<exists>s. snprintf n f args = Some s"
  using snprintf_loop_defined [of f args "n - 1" "[]"] by (simp add: snprintf_def)

section \<open>Properties\<close>

text \<open>\<^verbatim>\<open>memmove\<close> copies correctly for every overlap of source and destination: afterwards the
  destination range holds the bytes the source range held before, and nothing else changed.\<close>

theorem memmove_correct:
  "memmove m d s n = (\<lambda>a. if d \<le> a \<and> a < d + n then m (s + (a - d)) else m a)"
  by (auto simp: memmove_def fun_eq_iff memcpy_disjoint memcpy_down_at)

text \<open>\<^verbatim>\<open>utoa\<close> returns for every base from 2 to 36, the digits it writes read back as the value, and
  there is no leading zero beyond a single digit, so at most 20 decimal digits for 64 bits.\<close>

theorem utoa_roundtrip:
  assumes "2 \<le> b" "b \<le> 36"
  shows "\<exists>s. utoa v b = Some s \<and> s \<noteq> [] \<and> digits_val b s = v \<and> b ^ (length s - 1) \<le> max 1 v"
  using assms by (rule utoa_value)

theorem utoa_roundtrip_witness:
  "\<exists>s. utoa 65535 16 = Some s \<and> digits_val 16 s = 65535"
  using utoa_roundtrip [of 16 65535] by auto

text \<open>\<^verbatim>\<open>snprintf\<close> never stores more than \<open>sz - 1\<close> characters, for every format and argument list, so
  the terminating NUL always fits; and \<^verbatim>\<open>"%s"\<close> stores the longest prefix of its argument that fits.\<close>

theorem snprintf_bounded:
  assumes "0 < sz"
  shows "(snprintf sz f args = Some out \<longrightarrow> length out < sz) \<and>
         snprintf sz ''%s'' [VPtr (Some t)] = Some (take (sz - 1) t)"
proof -
  have "length out \<le> sz - 1" if "snprintf sz f args = Some out"
    using that assms snprintf_loop_prefix [of "sz - 1" f args "[]" out] by (simp add: snprintf_def)
  then show ?thesis using assms snprintf_percent_s [OF assms, of t] by fastforce
qed

theorem snprintf_bounded_witness:
  "snprintf 6 ''%s'' [VPtr (Some ''orizon-os'')] = Some ''orizo''"
  using snprintf_bounded [of 6 "[]" "[]" "[]" "''orizon-os''"] by (simp add: eval_nat_numeral)

text \<open>\<^verbatim>\<open>strncpy(d, s, n)\<close> with a source shorter than \<open>n\<close> writes \<open>n + 1\<close> bytes: the cell \<open>d + n\<close>,
  which lies outside the \<open>n\<close>-byte destination, is always zeroed.\<close>

theorem strncpy_writes_past_n:
  assumes "cstr m s bs" "length bs < n" "d + n < s \<or> s + length bs < d"
  shows "strncpy m d s n (d + n) = 0 \<and> (\<forall>i<length bs. strncpy m d s n (d + i) = bs ! i)"
  using assms strncpy_short [OF assms] by (auto simp: cstr_def)

theorem strncpy_writes_past_n_witness:
  "\<exists>m. m 4 = (0xaa :: byte) \<and> cstr m 100 [65] \<and> strncpy m 0 100 4 4 = 0"
proof -
  let ?m = "((\<lambda>_. 0)(4 := 0xaa, 100 := 65)) :: mem"
  have "cstr ?m 100 [65]" by simp
  from strncpy_writes_past_n [OF this, of 4 0] show ?thesis by (intro exI [of _ ?m]) simp
qed

end
