(* ===== verification/Kmalloc.thy ===== *)
theory Kmalloc
  imports Cstring
begin

text \<open>
  \<^verbatim>\<open>kernel/mm/kmalloc.c\<close>: the first-fit allocator over a static 64 MiB heap. Addresses are offsets
  into \<^verbatim>\<open>heap_memory\<close>, \<open>None\<close> is NULL. Headers and payload live in the same C array; the model
  keeps them as two maps, \<open>heap_blocks\<close> (the header stored at an offset) and \<open>heap_bytes\<close> (the byte
  at an offset), so it describes callers that stay inside the payload they were given.
  \<^verbatim>\<open>size_t\<close> arithmetic is reduced modulo \<open>2 ^ 64\<close> and the stored sizes modulo \<open>2 ^ 32\<close>, as in the
  code. Walks of the block list return \<open>None\<close> when they do not end.

  The theory proves that the block list always tiles the heap, that it implements an allocator on a
  plain list of blocks, and the contract (\<open>allocator\<close>) the file system relies on.
\<close>

section \<open>State\<close>

definition HEAP_SIZE :: nat where "HEAP_SIZE = 64 * 1024 * 1024"
definition MIN_BLOCK_SIZE :: nat where "MIN_BLOCK_SIZE = 64"
definition BLOCK_MAGIC :: u32 where "BLOCK_MAGIC = 0xDEADBEEF"

text \<open>\<^verbatim>\<open>sizeof(block_t)\<close>: three 32-bit fields, four bytes of padding, two pointers.\<close>

definition SIZEOF_BLOCK :: nat where "SIZEOF_BLOCK = 32"

record block =
  blk_magic :: u32
  blk_size :: nat
  blk_free :: bool
  blk_next :: "nat option"
  blk_prev :: "nat option"

record kheap =
  heap_blocks :: "nat \<Rightarrow> block"
  heap_bytes :: mem
  free_list :: "nat option"
  heap_initialized :: bool

definition add64 :: "nat \<Rightarrow> nat \<Rightarrow> nat" where "add64 a b = (a + b) mod 2 ^ 64"
definition sub64 :: "nat \<Rightarrow> nat \<Rightarrow> nat" where "sub64 a b = (a + (2 ^ 64 - b)) mod 2 ^ 64"

definition upd_block :: "nat \<Rightarrow> (block \<Rightarrow> block) \<Rightarrow> kheap \<Rightarrow> kheap" where
  "upd_block a f h = h\<lparr>heap_blocks := (heap_blocks h)(a := f (heap_blocks h a))\<rparr>"

text \<open>The static heap before \<^verbatim>\<open>kmalloc_init\<close>: zeroed memory, no list.\<close>

definition kheap_boot :: kheap where
  "kheap_boot =
     \<lparr>heap_blocks = (\<lambda>_. \<lparr>blk_magic = 0, blk_size = 0, blk_free = False, blk_next = None, blk_prev = None\<rparr>),
      heap_bytes = (\<lambda>_. 0), free_list = None, heap_initialized = False\<rparr>"

section \<open>Operations\<close>

definition kmalloc_init :: "kheap \<Rightarrow> kheap" where
  "kmalloc_init h =
     (if heap_initialized h then h
      else h\<lparr>free_list := Some 0,
             heap_blocks := (heap_blocks h)(0 :=
               \<lparr>blk_magic = BLOCK_MAGIC, blk_size = HEAP_SIZE, blk_free = True,
                blk_next = None, blk_prev = None\<rparr>),
             heap_initialized := True\<rparr>)"

partial_function (option) find_free_loop :: "kheap \<Rightarrow> nat option \<Rightarrow> nat \<Rightarrow> nat option option" where
  "find_free_loop h block n =
     (case block of
        None \<Rightarrow> Some None
      | Some a \<Rightarrow>
          if blk_free (heap_blocks h a) \<and> blk_size (heap_blocks h a) \<ge> add64 n SIZEOF_BLOCK
          then Some (Some a)
          else find_free_loop h (blk_next (heap_blocks h a)) n)"

definition find_free_block :: "kheap \<Rightarrow> nat \<Rightarrow> nat option option" where
  "find_free_block h n = find_free_loop h (free_list h) n"

definition split_block :: "kheap \<Rightarrow> nat \<Rightarrow> nat \<Rightarrow> kheap" where
  "split_block h a n =
     (let total_needed = add64 n SIZEOF_BLOCK; b = heap_blocks h a in
      if blk_size b \<ge> add64 (add64 total_needed MIN_BLOCK_SIZE) SIZEOF_BLOCK then
        let new_block = add64 a total_needed;
            h1 = upd_block new_block
                   (\<lambda>_. \<lparr>blk_magic = BLOCK_MAGIC,
                         blk_size = sub64 (blk_size b) total_needed mod 2 ^ 32,
                         blk_free = True, blk_next = blk_next b, blk_prev = Some a\<rparr>) h;
            h2 = (case blk_next (heap_blocks h1 a) of
                    None \<Rightarrow> h1
                  | Some nx \<Rightarrow> upd_block nx (blk_prev_update (\<lambda>_. Some new_block)) h1)
        in upd_block a (blk_size_update (\<lambda>_. total_needed mod 2 ^ 32) \<circ>
                        blk_next_update (\<lambda>_. Some new_block)) h2
      else h)"

definition coalesce_next :: "kheap \<Rightarrow> nat \<Rightarrow> kheap" where
  "coalesce_next h a =
     (case blk_next (heap_blocks h a) of
        None \<Rightarrow> h
      | Some nx \<Rightarrow>
          if blk_free (heap_blocks h nx) then
            let s1 = upd_block a
                       (\<lambda>b. b\<lparr>blk_size := (blk_size b + blk_size (heap_blocks h nx)) mod 2 ^ 32\<rparr>) h;
                s2 = upd_block a (\<lambda>b. b\<lparr>blk_next := blk_next (heap_blocks s1 nx)\<rparr>) s1
            in (case blk_next (heap_blocks s2 a) of
                  None \<Rightarrow> s2
                | Some nn \<Rightarrow> upd_block nn (blk_prev_update (\<lambda>_. Some a)) s2)
          else h)"

definition coalesce_prev :: "kheap \<Rightarrow> nat \<Rightarrow> kheap" where
  "coalesce_prev h a =
     (case blk_prev (heap_blocks h a) of
        None \<Rightarrow> h
      | Some pv \<Rightarrow>
          if blk_free (heap_blocks h pv) then
            let s1 = upd_block pv
                       (\<lambda>b. b\<lparr>blk_size := (blk_size b + blk_size (heap_blocks h a)) mod 2 ^ 32\<rparr>) h;
                s2 = upd_block pv (\<lambda>b. b\<lparr>blk_next := blk_next (heap_blocks s1 a)\<rparr>) s1
            in (case blk_next (heap_blocks s2 a) of
                  None \<Rightarrow> s2
                | Some nn \<Rightarrow>
                    upd_block nn (blk_prev_update (\<lambda>_. blk_prev (heap_blocks s2 a))) s2)
          else h)"

definition coalesce :: "kheap \<Rightarrow> nat \<Rightarrow> kheap" where
  "coalesce h a = coalesce_prev (coalesce_next h a) a"

text \<open>\<^verbatim>\<open>(size + 15) & ~15\<close> in 64 bits.\<close>

definition align16 :: "nat \<Rightarrow> nat" where
  "align16 n = add64 n 15 div 16 * 16"

definition kmalloc :: "kheap \<Rightarrow> nat \<Rightarrow> (nat option \<times> kheap) option" where
  "kmalloc h0 n =
     (let h = (if heap_initialized h0 then h0 else kmalloc_init h0) in
      if n = 0 then Some (None, h)
      else let sz = align16 n in
        (case find_free_block h sz of
           None \<Rightarrow> None
         | Some None \<Rightarrow> Some (None, h)
         | Some (Some a) \<Rightarrow>
             Some (Some (add64 a SIZEOF_BLOCK),
                   upd_block a (blk_free_update (\<lambda>_. False)) (split_block h a sz))))"

definition kzalloc :: "kheap \<Rightarrow> nat \<Rightarrow> (nat option \<times> kheap) option" where
  "kzalloc h n =
     (case kmalloc h n of
        None \<Rightarrow> None
      | Some (None, h') \<Rightarrow> Some (None, h')
      | Some (Some p, h') \<Rightarrow> Some (Some p, h'\<lparr>heap_bytes := memset (heap_bytes h') p 0 n\<rparr>))"

definition kfree :: "kheap \<Rightarrow> nat option \<Rightarrow> kheap" where
  "kfree h ptr =
     (case ptr of
        None \<Rightarrow> h
      | Some p \<Rightarrow>
          let a = sub64 p SIZEOF_BLOCK in
          if blk_magic (heap_blocks h a) \<noteq> BLOCK_MAGIC then h
          else coalesce (upd_block a (blk_free_update (\<lambda>_. True)) h) a)"

definition krealloc :: "kheap \<Rightarrow> nat option \<Rightarrow> nat \<Rightarrow> (nat option \<times> kheap) option" where
  "krealloc h ptr n =
     (case ptr of
        None \<Rightarrow> kmalloc h n
      | Some p \<Rightarrow>
          if n = 0 then Some (None, kfree h ptr)
          else
            let a = sub64 p SIZEOF_BLOCK;
                old_size = sub64 (blk_size (heap_blocks h a)) SIZEOF_BLOCK
            in if n \<le> old_size then Some (ptr, h)
               else (case kmalloc h n of
                       None \<Rightarrow> None
                     | Some (None, h') \<Rightarrow> Some (None, h')
                     | Some (Some q, h') \<Rightarrow>
                         Some (Some q,
                               kfree (h'\<lparr>heap_bytes := memcpy (heap_bytes h') q p old_size\<rparr>) ptr)))"

record kmalloc_stats =
  st_total :: nat
  st_used :: nat
  st_free :: nat
  st_largest_free :: nat
  st_blocks :: nat
  st_free_blocks :: nat
  st_used_blocks :: nat

definition stats_add :: "nat \<Rightarrow> bool \<Rightarrow> kmalloc_stats \<Rightarrow> kmalloc_stats" where
  "stats_add sz is_free st0 =
     (let payload = (if sz > SIZEOF_BLOCK then sz - SIZEOF_BLOCK else 0);
          st = st0\<lparr>st_blocks := st_blocks st0 + 1\<rparr>
      in if is_free then
           let st' = st\<lparr>st_free := st_free st + payload, st_free_blocks := st_free_blocks st + 1\<rparr>
           in if payload > st_largest_free st' then st'\<lparr>st_largest_free := payload\<rparr> else st'
         else st\<lparr>st_used := st_used st + payload, st_used_blocks := st_used_blocks st + 1\<rparr>)"

partial_function (option) stats_loop ::
  "kheap \<Rightarrow> nat option \<Rightarrow> kmalloc_stats \<Rightarrow> kmalloc_stats option" where
  "stats_loop h block st =
     (case block of
        None \<Rightarrow> Some st
      | Some a \<Rightarrow>
          stats_loop h (blk_next (heap_blocks h a))
            (stats_add (blk_size (heap_blocks h a)) (blk_free (heap_blocks h a)) st))"

definition stats_zero :: kmalloc_stats where
  "stats_zero = \<lparr>st_total = HEAP_SIZE, st_used = 0, st_free = 0, st_largest_free = 0, st_blocks = 0,
                 st_free_blocks = 0, st_used_blocks = 0\<rparr>"

definition kmalloc_get_stats :: "kheap \<Rightarrow> (kmalloc_stats \<times> kheap) option" where
  "kmalloc_get_stats h0 =
     (let h = (if heap_initialized h0 then h0 else kmalloc_init h0)
      in map_option (\<lambda>st. (st, h)) (stats_loop h (free_list h) stats_zero))"

definition kmalloc_get_total :: nat where
  "kmalloc_get_total = HEAP_SIZE"

definition kmalloc_get_used :: "kheap \<Rightarrow> nat option" where
  "kmalloc_get_used h = map_option (\<lambda>r. st_used (fst r)) (kmalloc_get_stats h)"

definition kmalloc_get_free :: "kheap \<Rightarrow> nat option" where
  "kmalloc_get_free h = map_option (\<lambda>r. st_free (fst r)) (kmalloc_get_stats h)"

definition kmalloc_get_largest_free :: "kheap \<Rightarrow> nat option" where
  "kmalloc_get_largest_free h = map_option (\<lambda>r. st_largest_free (fst r)) (kmalloc_get_stats h)"

section \<open>The block list as a list of blocks\<close>

text \<open>
  The abstract heap is a list of (size, free) pairs in address order. \<open>seg B pv a bs nx\<close> says that
  the headers of \<open>bs\<close> are laid out from address \<open>a\<close> with correct links, where \<open>pv\<close> is the
  predecessor of the first block and \<open>nx\<close> the successor of the last.
\<close>

type_synonym ablk = "nat \<times> bool"

abbreviation tot :: "ablk list \<Rightarrow> nat" where
  "tot bs \<equiv> sum_list (map fst bs)"

definition hdr :: "nat \<Rightarrow> bool \<Rightarrow> nat option \<Rightarrow> nat option \<Rightarrow> block" where
  "hdr n f nx pv = \<lparr>blk_magic = BLOCK_MAGIC, blk_size = n, blk_free = f, blk_next = nx, blk_prev = pv\<rparr>"

lemma hdr_sel [simp, heap_simps]:
  "blk_magic (hdr n f nx pv) = BLOCK_MAGIC" "blk_size (hdr n f nx pv) = n"
  "blk_free (hdr n f nx pv) = f" "blk_next (hdr n f nx pv) = nx" "blk_prev (hdr n f nx pv) = pv"
  by (simp_all add: hdr_def)

lemma hdr_upd [simp, heap_simps]:
  "(hdr n f nx pv)\<lparr>blk_size := n'\<rparr> = hdr n' f nx pv" "(hdr n f nx pv)\<lparr>blk_free := f'\<rparr> = hdr n f' nx pv"
  "(hdr n f nx pv)\<lparr>blk_next := nx'\<rparr> = hdr n f nx' pv" "(hdr n f nx pv)\<lparr>blk_prev := pv'\<rparr> = hdr n f nx pv'"
  by (simp_all add: hdr_def)

lemma hdr_eq [simp]: "hdr n f nx pv = hdr n' f' nx' pv' \<longleftrightarrow> n = n' \<and> f = f' \<and> nx = nx' \<and> pv = pv'"
  by (auto simp: hdr_def)

fun seg :: "(nat \<Rightarrow> block) \<Rightarrow> nat option \<Rightarrow> nat \<Rightarrow> ablk list \<Rightarrow> nat option \<Rightarrow> bool" where
  "seg B pv a [] nx \<longleftrightarrow> True"
| "seg B pv a ((n, f) # bs) nx \<longleftrightarrow>
     B a = hdr n f (if bs = [] then nx else Some (a + n)) pv \<and> seg B (Some a) (a + n) bs nx"

definition lasta :: "nat option \<Rightarrow> nat \<Rightarrow> ablk list \<Rightarrow> nat option" where
  "lasta pv a bs = (if bs = [] then pv else Some (a + tot (butlast bs)))"

lemma lasta_simps [simp]:
  "lasta pv a [] = pv" "lasta pv a ((n, f) # bs) = lasta (Some a) (a + n) bs"
  by (auto simp: lasta_def)

lemma seg_append:
  "seg B pv a (xs @ ys) nx \<longleftrightarrow>
     seg B pv a xs (if ys = [] then nx else Some (a + tot xs)) \<and>
     seg B (lasta pv a xs) (a + tot xs) ys nx"
proof (induction xs arbitrary: pv a)
  case Nil
  then show ?case by simp
next
  case (Cons b xs)
  obtain n f where b: "b = (n, f)" by (cases b)
  show ?case by (cases "xs = []"; cases "ys = []") (simp_all add: b Cons.IH add.assoc)
qed

lemma seg_cong:
  assumes "seg B pv a bs nx" "\<forall>b\<in>set bs. 0 < fst b" "\<And>x. a \<le> x \<Longrightarrow> x < a + tot bs \<Longrightarrow> B' x = B x"
  shows "seg B' pv a bs nx"
  using assms
proof (induction bs arbitrary: pv a)
  case Nil
  then show ?case by simp
next
  case (Cons b bs)
  obtain n f where b: "b = (n, f)" by (cases b)
  have "seg B' (Some a) (a + n) bs nx"
    using Cons.prems b by (intro Cons.IH) auto
  moreover have "B' a = B a" using Cons.prems b by simp
  ultimately show ?case using Cons.prems b by simp
qed

lemma seg_prev:
  assumes "seg B pv a bs nx" "\<forall>b\<in>set bs. 0 < fst b" "bs \<noteq> []"
    and "B' a = (B a)\<lparr>blk_prev := pv'\<rparr>" "\<And>x. a < x \<Longrightarrow> x < a + tot bs \<Longrightarrow> B' x = B x"
  shows "seg B' pv' a bs nx"
proof -
  obtain n f bs' where bs: "bs = (n, f) # bs'" using assms(3) by (cases bs) auto
  have "seg B' (Some a) (a + n) bs' nx"
    by (rule seg_cong [of B]) (use assms bs in auto)
  then show ?thesis using assms bs by simp
qed

lemma seg_unique:
  "seg B pv a bs nx \<Longrightarrow> seg B pv' a bs' nx' \<Longrightarrow> tot bs = tot bs' \<Longrightarrow>
   \<forall>b\<in>set bs. 0 < fst b \<Longrightarrow> \<forall>b\<in>set bs'. 0 < fst b \<Longrightarrow> bs = bs'"
proof (induction bs arbitrary: pv pv' a bs')
  case Nil
  then show ?case by (cases bs') auto
next
  case (Cons b bs)
  obtain n f where b: "b = (n, f)" by (cases b)
  from Cons.prems b obtain bs'' where bs': "bs' = (n, f) # bs''" by (cases bs') auto
  have "bs = bs''" using Cons.prems b bs' by (intro Cons.IH) auto
  then show ?case using b bs' by simp
qed

fun no_adj :: "ablk list \<Rightarrow> bool" where
  "no_adj [] \<longleftrightarrow> True"
| "no_adj [x] \<longleftrightarrow> True"
| "no_adj (x # y # bs) \<longleftrightarrow> \<not> (snd x \<and> snd y) \<and> no_adj (y # bs)"

lemma no_adj_append:
  "no_adj (xs @ ys) \<longleftrightarrow> no_adj xs \<and> no_adj ys \<and>
     (xs = [] \<or> ys = [] \<or> \<not> (snd (last xs) \<and> snd (hd ys)))"
proof (induction xs rule: no_adj.induct)
  case (2 v)
  then show ?case by (cases ys) auto
qed auto

lemma no_adj_Cons: "no_adj (x # bs) \<longleftrightarrow> no_adj bs \<and> (bs = [] \<or> \<not> (snd x \<and> snd (hd bs)))"
  by (cases bs) auto

definition block_ok :: "ablk \<Rightarrow> bool" where
  "block_ok b \<longleftrightarrow> SIZEOF_BLOCK \<le> fst b \<and> 16 dvd fst b"

definition blocks_ok :: "ablk list \<Rightarrow> bool" where
  "blocks_ok bs \<longleftrightarrow> list_all block_ok bs \<and> tot bs = HEAP_SIZE \<and> no_adj bs"

definition heap_abs :: "kheap \<Rightarrow> ablk list \<Rightarrow> bool" where
  "heap_abs h bs \<longleftrightarrow> heap_initialized h \<and> free_list h = Some 0 \<and>
     seg (heap_blocks h) None 0 bs None \<and> blocks_ok bs"

definition heap_ok :: "kheap \<Rightarrow> bool" where
  "heap_ok h \<longleftrightarrow> (\<exists>bs. heap_abs h bs)"

lemma block_ok_pos: "list_all block_ok bs \<Longrightarrow> \<forall>b\<in>set bs. 0 < fst b"
  by (auto simp: block_ok_def SIZEOF_BLOCK_def list_all_iff)

lemma blocks_ok_pos: "blocks_ok bs \<Longrightarrow> \<forall>b\<in>set bs. 0 < fst b"
  unfolding blocks_ok_def using block_ok_pos by blast

lemma heap_abs_unique: "heap_abs h bs \<Longrightarrow> heap_abs h bs' \<Longrightarrow> bs = bs'"
  by (rule seg_unique [of "heap_blocks h" None 0 _ None None _ None])
    (auto simp: heap_abs_def blocks_ok_def dest: block_ok_pos)

section \<open>The abstract allocator\<close>

fun first_fit :: "nat \<Rightarrow> nat \<Rightarrow> ablk list \<Rightarrow> nat option" where
  "first_fit k a [] = None"
| "first_fit k a ((n, f) # bs) = (if f \<and> k \<le> n then Some a else first_fit k (a + n) bs)"

text \<open>Allocation of \<open>k\<close> bytes (header included), and release of the block at an address.\<close>

fun a_alloc :: "nat \<Rightarrow> ablk list \<Rightarrow> ablk list option" where
  "a_alloc k [] = None"
| "a_alloc k ((n, f) # bs) =
     (if f \<and> k \<le> n then
        Some (if k + MIN_BLOCK_SIZE + SIZEOF_BLOCK \<le> n then (k, False) # (n - k, True) # bs
              else (n, False) # bs)
      else map_option (Cons (n, f)) (a_alloc k bs))"

definition cons_merge :: "ablk \<Rightarrow> ablk list \<Rightarrow> ablk list" where
  "cons_merge b bs =
     (case bs of [] \<Rightarrow> [b]
      | c # r \<Rightarrow> if snd b \<and> snd c then (fst b + fst c, True) # r else b # bs)"

fun compact :: "ablk list \<Rightarrow> ablk list" where
  "compact [] = []"
| "compact (b # bs) = cons_merge b (compact bs)"

fun mark_free :: "nat \<Rightarrow> nat \<Rightarrow> ablk list \<Rightarrow> ablk list" where
  "mark_free p a [] = []"
| "mark_free p a ((n, f) # bs) =
     (if p = a then (n, True) # bs else (n, f) # mark_free p (a + n) bs)"

definition a_free :: "nat \<Rightarrow> ablk list \<Rightarrow> ablk list" where
  "a_free p bs = compact (mark_free p 0 bs)"

text \<open>The live allocations of a block list: payload address to payload size.\<close>

fun live_at :: "nat \<Rightarrow> ablk list \<Rightarrow> nat \<rightharpoonup> nat" where
  "live_at a [] = Map.empty"
| "live_at a ((n, f) # bs) =
     (if f then live_at (a + n) bs
      else (live_at (a + n) bs)(a + SIZEOF_BLOCK \<mapsto> n - SIZEOF_BLOCK))"

lemma tot_cons_merge [simp]: "tot (cons_merge b bs) = fst b + tot bs"
  by (cases bs) (auto simp: cons_merge_def)

lemma compact_no_adj_id: "no_adj bs \<Longrightarrow> compact bs = bs"
  by (induction bs rule: no_adj.induct) (auto simp: cons_merge_def)

lemma compact_append: "compact (xs @ ys) = foldr cons_merge xs (compact ys)"
  by (induction xs) auto

lemma foldr_cons_merge_id:
  "no_adj (xs @ ys) \<Longrightarrow> foldr cons_merge xs ys = xs @ ys"
proof (induction xs)
  case (Cons x xs)
  then have "no_adj (xs @ ys)" "xs @ ys = [] \<or> \<not> (snd x \<and> snd (hd (xs @ ys)))"
    by (simp_all add: no_adj_Cons)
  with Cons.IH show ?case by (auto simp: cons_merge_def split: list.splits)
qed simp

lemma mark_free_append:
  "\<forall>b\<in>set xs. 0 < fst b \<Longrightarrow> mark_free (a + tot xs) a (xs @ (n, f) # ys) = xs @ (n, True) # ys"
proof (induction xs arbitrary: a)
  case (Cons x xs)
  then show ?case using Cons.IH [of "a + fst x"] by (cases x) (simp add: add.assoc)
qed simp

lemma first_fit_Some:
  "first_fit k a bs = Some p \<Longrightarrow>
   \<exists>pre n post. bs = pre @ (n, True) # post \<and> p = a + tot pre \<and> k \<le> n \<and>
     a_alloc k bs = Some (pre @ (if k + MIN_BLOCK_SIZE + SIZEOF_BLOCK \<le> n
                                 then (k, False) # (n - k, True) # post else (n, False) # post))"
proof (induction bs arbitrary: a)
  case (Cons b bs)
  obtain n f where b: "b = (n, f)" by (cases b)
  show ?case
  proof (cases "f \<and> k \<le> n")
    case True
    with Cons.prems b show ?thesis by (intro exI [of _ "[]"] exI [of _ n] exI [of _ bs]) simp
  next
    case False
    with Cons.prems b have "first_fit k (a + n) bs = Some p" by auto
    from Cons.IH [OF this] obtain pre m post where
      IH: "bs = pre @ (m, True) # post" "p = a + n + tot pre" "k \<le> m"
      "a_alloc k bs = Some (pre @ (if k + MIN_BLOCK_SIZE + SIZEOF_BLOCK \<le> m
         then (k, False) # (m - k, True) # post else (m, False) # post))"
      by blast
    show ?thesis
      by (rule exI [of _ "b # pre"], rule exI [of _ m], rule exI [of _ post])
        (use IH b False in auto)
  qed
qed simp

lemma first_fit_None: "first_fit k a bs = None \<Longrightarrow> a_alloc k bs = None"
  by (induction bs arbitrary: a) (auto split: if_splits)

lemma find_free_seg:
  "seg (heap_blocks h) pv a bs None \<Longrightarrow>
   find_free_loop h (if bs = [] then None else Some a) n = Some (first_fit (add64 n SIZEOF_BLOCK) a bs)"
proof (induction bs arbitrary: pv a)
  case Nil
  then show ?case by (subst find_free_loop.simps) simp
next
  case (Cons b bs)
  obtain m f where b: "b = (m, f)" by (cases b)
  show ?case using Cons.prems Cons.IH [of "Some a" "a + m"] b
    by (subst find_free_loop.simps) auto
qed

lemma a_alloc_ok:
  assumes "a_alloc k bs = Some bs'" "blocks_ok bs" "16 dvd k" "SIZEOF_BLOCK \<le> k"
  shows "blocks_ok bs'"
proof -
  have "list_all block_ok bs \<Longrightarrow> a_alloc k bs = Some bs' \<Longrightarrow> list_all block_ok bs' \<and> tot bs' = tot bs"
    using assms(3,4)
  proof (induction bs arbitrary: bs')
    case (Cons b bs)
    then show ?case
      by (cases b) (auto simp: block_ok_def MIN_BLOCK_SIZE_def SIZEOF_BLOCK_def dvd_diff_nat split: if_splits)
  qed simp
  moreover have "no_adj bs \<Longrightarrow> a_alloc k bs = Some bs' \<Longrightarrow>
      no_adj bs' \<and> (bs' \<noteq> [] \<and> bs \<noteq> [] \<and> (snd (hd bs') \<longrightarrow> snd (hd bs)))"
  proof (induction bs arbitrary: bs')
    case (Cons b bs)
    then show ?case
      by (cases b) (fastforce simp: no_adj_Cons split: if_splits)
  qed simp
  ultimately show ?thesis using assms by (auto simp: blocks_ok_def)
qed

section \<open>The operations keep the block list\<close>

lemma upd_block_sel [simp, heap_simps]:
  "heap_blocks (upd_block a f h) = (heap_blocks h)(a := f (heap_blocks h a))"
  "heap_bytes (upd_block a f h) = heap_bytes h"
  "free_list (upd_block a f h) = free_list h"
  "heap_initialized (upd_block a f h) = heap_initialized h"
  by (simp_all add: upd_block_def)

lemma add64_simp: "a + b < 2 ^ 64 \<Longrightarrow> add64 a b = a + b"
  by (simp add: add64_def)

lemma sub64_simp: "b \<le> a \<Longrightarrow> a < 2 ^ 64 \<Longrightarrow> sub64 a b = a - b"
proof -
  assume "b \<le> a" "a < 2 ^ 64"
  then have "a + (2 ^ 64 - b) = (a - b) + 2 ^ 64" by simp
  then show ?thesis using \<open>a < 2 ^ 64\<close> by (simp only: sub64_def mod_add_self2) simp
qed

text \<open>Replacing the middle of a segment by one of the same extent.\<close>

lemma seg_replace:
  assumes "seg B pv a (pre @ mid @ post) nx" "\<forall>b\<in>set (pre @ post). 0 < fst b" "mid \<noteq> []"
    and mid': "seg B' (lasta pv a pre) (a + tot pre) mid' (if post = [] then nx else Some (a + tot pre + tot mid))"
      "tot mid' = tot mid" "mid' \<noteq> []"
    and pre: "\<And>x. a \<le> x \<Longrightarrow> x < a + tot pre \<Longrightarrow> B' x = B x"
    and post: "\<And>x. a + tot pre + tot mid < x \<Longrightarrow> x < a + tot pre + tot mid + tot post \<Longrightarrow> B' x = B x"
      "post \<noteq> [] \<Longrightarrow> B' (a + tot pre + tot mid) =
         (B (a + tot pre + tot mid))\<lparr>blk_prev := lasta (lasta pv a pre) (a + tot pre) mid'\<rparr>"
  shows "seg B' pv a (pre @ mid' @ post) nx"
proof -
  have 1: "seg B pv a pre (Some (a + tot pre))"
    and 3: "seg B (lasta (lasta pv a pre) (a + tot pre) mid) (a + tot pre + tot mid) post nx"
    using assms(1,3) by (auto simp: seg_append add.assoc)
  have "seg B' pv a pre (Some (a + tot pre))"
    by (rule seg_cong [OF 1]) (use assms(2) pre in auto)
  moreover have "seg B' (lasta (lasta pv a pre) (a + tot pre) mid') (a + tot pre + tot mid) post nx"
  proof (cases "post = []")
    case False
    show ?thesis by (rule seg_prev [OF 3]) (use assms(2) False post in auto)
  qed simp
  ultimately show ?thesis using mid' by (cases "post = []") (simp_all add: seg_append add.assoc)
qed

lemma seg_at:
  "seg B pv a (pre @ (m, f) # post) nx \<Longrightarrow>
   B (a + tot pre) = hdr m f (if post = [] then nx else Some (a + tot pre + m)) (lasta pv a pre)"
  by (simp add: seg_append)

lemma seg_after:
  "seg B pv a (pre @ (m, f) # (m2, f2) # post) nx \<Longrightarrow>
   B (a + tot pre + m) =
     hdr m2 f2 (if post = [] then nx else Some (a + tot pre + m + m2)) (Some (a + tot pre))"
  by (simp add: seg_append)

lemma upd_prev_id: "blk_prev b = x \<Longrightarrow> b\<lparr>blk_prev := x\<rparr> = b"
  by (cases b) auto

lemma seg_next_prev:
  "seg B pv a (pre @ (m, f) # post) nx \<Longrightarrow> post \<noteq> [] \<Longrightarrow>
   blk_prev (B (a + tot pre + m)) = Some (a + tot pre)"
  by (cases post) (auto simp: seg_append)

lemma tot_le_HEAP: "blocks_ok (pre @ bs) \<Longrightarrow> tot pre + tot bs \<le> HEAP_SIZE"
  by (simp add: blocks_ok_def)

lemma HEAP_SIZE_less: "n \<le> HEAP_SIZE \<Longrightarrow> n mod 2 ^ 32 = n" "n \<le> HEAP_SIZE \<Longrightarrow> n mod 2 ^ 64 = n"
  by (simp_all add: HEAP_SIZE_def)

lemma split_block_seg:
  assumes abs: "heap_abs h (pre @ (m, True) # post)" and k: "k = n + SIZEOF_BLOCK" "n < 2 ^ 63"
    and "k \<le> m"
  shows "seg (heap_blocks (upd_block (tot pre) (blk_free_update (\<lambda>_. False)) (split_block h (tot pre) n))) None 0
           (pre @ (if k + MIN_BLOCK_SIZE + SIZEOF_BLOCK \<le> m then [(k, False), (m - k, True)] else [(m, False)])
            @ post) None"
proof -
  let ?B = "heap_blocks h" and ?p = "tot pre"
  let ?B' = "heap_blocks (upd_block ?p (blk_free_update (\<lambda>_. False)) (split_block h ?p n))"
  from abs have sg: "seg ?B None 0 (pre @ [(m, True)] @ post) None"
    and ok: "blocks_ok (pre @ (m, True) # post)" by (simp_all add: heap_abs_def)
  have pos: "\<forall>b\<in>set (pre @ post). 0 < fst b" using blocks_ok_pos [OF ok] by auto
  have le: "?p + m + tot post \<le> HEAP_SIZE" using ok by (simp add: blocks_ok_def)
  have Bp: "?B ?p = hdr m True (if post = [] then None else Some (?p + m)) (lasta None 0 pre)"
    using seg_at [of ?B None 0 pre m True post None] sg by simp
  have m0: "0 < m" using blocks_ok_pos [OF ok] by simp
  have nxt: "post \<noteq> [] \<Longrightarrow> blk_prev (?B (?p + m)) = Some ?p"
    using seg_next_prev [of ?B None 0 pre m True post None] sg by simp
  have add: "add64 n SIZEOF_BLOCK = k" "add64 (add64 k MIN_BLOCK_SIZE) SIZEOF_BLOCK = k + MIN_BLOCK_SIZE + SIZEOF_BLOCK"
    using k by (simp_all add: add64_def SIZEOF_BLOCK_def MIN_BLOCK_SIZE_def)
  show ?thesis
  proof (cases "k + MIN_BLOCK_SIZE + SIZEOF_BLOCK \<le> m")
    case True
    have k0: "0 < k" "k < m" using k True by (simp_all add: SIZEOF_BLOCK_def)
    have sub: "sub64 m k = m - k" "(m - k) mod 4294967296 = m - k" "k mod 4294967296 = k" "add64 ?p k = ?p + k"
      using le k0 by (simp_all add: sub64_simp add64_simp HEAP_SIZE_def)
    show ?thesis
      using True
      apply (simp only: if_True)
      by (rule seg_replace [OF sg pos])
        (use k0 in \<open>auto simp: split_block_def Let_def Bp add sub True hdr_def [symmetric] split: option.splits\<close>)
  next
    case False
    show ?thesis
      using False
      apply (simp only: if_False)
      by (rule seg_replace [OF sg pos])
        (use m0 nxt in \<open>auto simp: split_block_def Let_def Bp add False upd_prev_id\<close>)
  qed
qed

lemma align16_simp:
  assumes "n < 2 ^ 63"
  shows "n \<le> align16 n" "16 dvd align16 n" "align16 n < n + 16"
proof -
  have "align16 n = (n + 15) div 16 * 16" using assms by (simp add: align16_def add64_simp)
  then show "n \<le> align16 n" "16 dvd align16 n" "align16 n < n + 16" by simp_all
qed

lemma split_block_frame [simp]:
  "heap_bytes (split_block h a n) = heap_bytes h" "free_list (split_block h a n) = free_list h"
  "heap_initialized (split_block h a n) = heap_initialized h"
  by (simp_all add: split_block_def Let_def split: option.splits)

theorem kmalloc_refines_a_alloc:
  assumes abs: "heap_abs h bs" and n: "0 < n" "n < 2 ^ 62"
  shows "case a_alloc (align16 n + SIZEOF_BLOCK) bs of
           None \<Rightarrow> kmalloc h n = Some (None, h)
         | Some bs' \<Rightarrow> \<exists>p h'. kmalloc h n = Some (Some (p + SIZEOF_BLOCK), h') \<and>
             first_fit (align16 n + SIZEOF_BLOCK) 0 bs = Some p \<and>
             heap_abs h' bs' \<and> heap_bytes h' = heap_bytes h"
proof -
  let ?sz = "align16 n" let ?k = "?sz + SIZEOF_BLOCK"
  have sz: "?sz < 2 ^ 63" "16 dvd ?sz" using align16_simp [of n] n by auto
  have k: "add64 ?sz SIZEOF_BLOCK = ?k" using sz by (simp add: add64_simp SIZEOF_BLOCK_def)
  from abs have init: "heap_initialized h" "free_list h = Some 0" "blocks_ok bs" "bs \<noteq> []"
    and sg: "seg (heap_blocks h) None 0 bs None"
    by (auto simp: heap_abs_def blocks_ok_def HEAP_SIZE_def)
  have find: "find_free_block h ?sz = Some (first_fit ?k 0 bs)"
    using find_free_seg [OF sg, of ?sz] init k by (simp add: find_free_block_def)
  show ?thesis
  proof (cases "first_fit ?k 0 bs")
    case None
    then show ?thesis using first_fit_None [OF None] find n init by (simp add: kmalloc_def)
  next
    case (Some p)
    from first_fit_Some [OF Some] obtain pre m post where
      bs: "bs = pre @ (m, True) # post" and p: "p = tot pre" and km: "?k \<le> m"
      and al: "a_alloc ?k bs = Some (pre @ (if ?k + MIN_BLOCK_SIZE + SIZEOF_BLOCK \<le> m
                                 then (?k, False) # (m - ?k, True) # post else (m, False) # post))"
      by auto
    let ?h = "upd_block p (blk_free_update (\<lambda>_. False)) (split_block h p ?sz)"
    let ?bs = "pre @ (if ?k + MIN_BLOCK_SIZE + SIZEOF_BLOCK \<le> m
                  then (?k, False) # (m - ?k, True) # post else (m, False) # post)"
    have "p + m \<le> HEAP_SIZE" using init bs p by (simp add: blocks_ok_def)
    then have p64: "add64 p SIZEOF_BLOCK = p + SIZEOF_BLOCK"
      using km by (intro add64_simp) (simp add: HEAP_SIZE_def)
    have "seg (heap_blocks ?h) None 0 ?bs None"
      using split_block_seg [of h pre m post ?k ?sz] abs bs km sz p by (simp split: if_splits)
    moreover have "blocks_ok ?bs"
      by (rule a_alloc_ok [OF al init(3)]) (use sz in \<open>simp_all add: SIZEOF_BLOCK_def\<close>)
    ultimately have "heap_abs ?h ?bs" using init by (simp add: heap_abs_def)
    moreover have "kmalloc h n = Some (Some (p + SIZEOF_BLOCK), ?h)"
      using find Some n init p64 by (simp add: kmalloc_def)
    ultimately show ?thesis using al Some by auto
  qed
qed

lemma coalesce_next_seg:
  assumes sg: "seg (heap_blocks h) None 0 (pre @ (m, True) # post) None"
    and ok: "\<forall>b\<in>set (pre @ (m, True) # post). 0 < fst b" "tot pre + m + tot post \<le> HEAP_SIZE"
  shows "seg (heap_blocks (coalesce_next h (tot pre))) None 0 (pre @ cons_merge (m, True) post) None"
proof (cases "post \<noteq> [] \<and> snd (hd post)")
  case False
  have "heap_blocks h (tot pre) = hdr m True (if post = [] then None else Some (tot pre + m)) (lasta None 0 pre)"
    using seg_at [OF sg] by simp
  moreover have "\<not> blk_free (heap_blocks h (tot pre + m))" if "post \<noteq> []"
    using sg False that by (cases post) (auto simp: seg_append)
  ultimately have "coalesce_next h (tot pre) = h" by (auto simp: coalesce_next_def)
  moreover have "cons_merge (m, True) post = (m, True) # post"
    using False by (cases post) (auto simp: cons_merge_def)
  ultimately show ?thesis using sg by simp
next
  case True
  then obtain m2 r where post: "post = (m2, True) # r" by (cases post) auto
  have sg': "seg (heap_blocks h) None 0 (pre @ [(m, True), (m2, True)] @ r) None" using sg post by simp
  have Bp: "heap_blocks h (tot pre) = hdr m True (Some (tot pre + m)) (lasta None 0 pre)"
    using seg_at [OF sg] post by simp
  have Bq: "heap_blocks h (tot pre + m) = hdr m2 True (if r = [] then None else Some (tot pre + m + m2)) (Some (tot pre))"
    using seg_after [of "heap_blocks h" None 0 pre m True m2 True r None] sg' by simp
  have m: "(m + m2) mod 4294967296 = m + m2" "0 < m" "0 < m2"
    using ok post by (simp_all add: HEAP_SIZE_def)
  have "seg (heap_blocks (coalesce_next h (tot pre))) None 0 (pre @ [(m + m2, True)] @ r) None"
    by (rule seg_replace [OF sg'])
      (use ok m in \<open>auto simp: post coalesce_next_def Let_def Bp Bq add.assoc split: option.splits\<close>)
  then show ?thesis using post by (simp add: cons_merge_def)
qed

lemma coalesce_prev_seg:
  assumes sg: "seg (heap_blocks h) None 0 (pre @ (m, True) # post) None"
    and ok: "\<forall>b\<in>set (pre @ (m, True) # post). 0 < fst b" "tot pre + m + tot post \<le> HEAP_SIZE"
  shows "seg (heap_blocks (coalesce_prev h (tot pre))) None 0
           (if pre \<noteq> [] \<and> snd (last pre) then butlast pre @ (fst (last pre) + m, True) # post
            else pre @ (m, True) # post) None"
proof (cases "pre = []")
  case True
  then show ?thesis using seg_at [OF sg] sg by (simp add: coalesce_prev_def)
next
  case False
  then obtain pre' m0 f0 where pre: "pre = pre' @ [(m0, f0)]" by (cases pre rule: rev_cases) auto
  have Bp: "heap_blocks h (tot pre' + m0) = hdr m True (if post = [] then None else Some (tot pre' + m0 + m)) (Some (tot pre'))"
    using seg_after [of "heap_blocks h" None 0 pre' m0 f0 m True post None] sg pre by simp
  have Bq: "heap_blocks h (tot pre') = hdr m0 f0 (Some (tot pre' + m0)) (lasta None 0 pre')"
    using seg_at [of "heap_blocks h" None 0 pre' m0 f0 "(m, True) # post" None] sg pre by simp
  show ?thesis
  proof (cases f0)
    case f0: True
    have sg': "seg (heap_blocks h) None 0 (pre' @ [(m0, True), (m, True)] @ post) None" using sg pre f0 by simp
    have m: "(m0 + m) mod 4294967296 = m0 + m" "0 < m" "0 < m0"
      using ok pre by (simp_all add: HEAP_SIZE_def)
    have "seg (heap_blocks (coalesce_prev h (tot pre))) None 0 (pre' @ [(m0 + m, True)] @ post) None"
      by (rule seg_replace [OF sg'])
        (use ok m in \<open>auto simp: pre f0 coalesce_prev_def Let_def Bp Bq add.assoc split: option.splits\<close>)
    then show ?thesis using pre f0 by simp
  next
    case f0: False
    then have "coalesce_prev h (tot pre) = h" using pre Bp Bq by (simp add: coalesce_prev_def)
    then show ?thesis using pre f0 sg by simp
  qed
qed

lemma coalesce_frame [simp]:
  "heap_bytes (coalesce h a) = heap_bytes h" "free_list (coalesce h a) = free_list h"
  "heap_initialized (coalesce h a) = heap_initialized h"
  by (simp_all add: coalesce_def coalesce_next_def coalesce_prev_def Let_def split: option.splits)

lemma no_adj_cons_merge: "no_adj bs \<Longrightarrow> no_adj (cons_merge b bs)"
  by (cases bs) (auto simp: cons_merge_def no_adj_Cons)

lemma no_adj_compact: "no_adj (compact bs)"
  by (induction bs) (auto intro: no_adj_cons_merge)

lemma cons_merge_ok: "block_ok b \<Longrightarrow> list_all block_ok bs \<Longrightarrow> list_all block_ok (cons_merge b bs)"
  by (cases bs) (simp_all add: cons_merge_def block_ok_def)

lemma compact_ok: "list_all block_ok bs \<Longrightarrow> list_all block_ok (compact bs) \<and> tot (compact bs) = tot bs"
  by (induction bs) (simp_all add: cons_merge_ok)

lemma cons_merge_True: "\<exists>mm r. cons_merge (m, True) post = (mm, True) # r"
  by (cases post) (simp_all add: cons_merge_def)

lemma compact_release:
  assumes "no_adj pre" "no_adj post"
  shows "compact (pre @ (m, True) # post) =
    (let c = cons_merge (m, True) post in
     if pre \<noteq> [] \<and> snd (last pre) then butlast pre @ (fst (last pre) + fst (hd c), True) # tl c else pre @ c)"
proof -
  let ?c = "cons_merge (m, True) post"
  obtain mm r where c: "?c = (mm, True) # r" using cons_merge_True [of m post] by blast
  have nc: "no_adj ?c" by (rule no_adj_cons_merge [OF assms(2)])
  have eq: "compact (pre @ (m, True) # post) = foldr cons_merge pre ?c"
    by (simp add: compact_append compact_no_adj_id [OF assms(2)])
  show ?thesis
  proof (cases "pre \<noteq> [] \<and> snd (last pre)")
    case True
    then obtain pre' m0 where pre: "pre = pre' @ [(m0, True)]" by (cases pre rule: rev_cases) auto
    have "no_adj (pre' @ (m0 + mm, True) # r)"
      using assms(1) nc pre c by (auto simp: no_adj_append no_adj_Cons)
    from foldr_cons_merge_id [OF this] show ?thesis
      using eq pre c by (simp add: cons_merge_def)
  next
    case False
    have "no_adj (pre @ ?c)" using assms(1) nc False c by (auto simp: no_adj_append)
    from foldr_cons_merge_id [OF this] show ?thesis using eq False by (auto simp: Let_def)
  qed
qed

theorem kfree_refines_a_free:
  assumes abs: "heap_abs h bs" and bs: "bs = pre @ (m, False) # post"
  shows "heap_abs (kfree h (Some (tot pre + SIZEOF_BLOCK))) (a_free (tot pre) bs)"
    and "heap_bytes (kfree h (Some (tot pre + SIZEOF_BLOCK))) = heap_bytes h"
proof -
  let ?a = "tot pre"
  let ?h = "upd_block ?a (blk_free_update (\<lambda>_. True)) h"
  let ?c = "cons_merge (m, True) post"
  from abs bs have sg: "seg (heap_blocks h) None 0 (pre @ [(m, False)] @ post) None"
    and ok: "blocks_ok (pre @ (m, False) # post)" by (simp_all add: heap_abs_def)
  have pos: "\<forall>b\<in>set (pre @ (m, True) # post). 0 < fst b" "\<forall>b\<in>set (pre @ post). 0 < fst b"
    using blocks_ok_pos [OF ok] by auto
  have le: "?a + m + tot post \<le> HEAP_SIZE" and na: "no_adj pre" "no_adj post"
    using ok by (simp_all add: blocks_ok_def no_adj_append no_adj_Cons)
  have m32: "SIZEOF_BLOCK \<le> m" using ok by (simp add: blocks_ok_def block_ok_def)
  have Bp: "heap_blocks h ?a = hdr m False (if post = [] then None else Some (?a + m)) (lasta None 0 pre)"
    using seg_at [of "heap_blocks h" None 0 pre m False post None] sg by simp
  have nxt: "post \<noteq> [] \<Longrightarrow> blk_prev (heap_blocks h (?a + m)) = Some ?a"
    using seg_next_prev [of "heap_blocks h" None 0 pre m False post None] sg by simp
  have "seg (heap_blocks ?h) None 0 (pre @ [(m, True)] @ post) None"
    by (rule seg_replace [OF sg pos(2)]) (use pos nxt in \<open>auto simp: Bp upd_prev_id\<close>)
  then have sg1: "seg (heap_blocks (coalesce_next ?h ?a)) None 0 (pre @ ?c) None"
    using coalesce_next_seg [of ?h pre m post] pos(1) le by simp
  obtain mm r where c: "?c = (mm, True) # r" using cons_merge_True [of m post] by blast
  have "\<forall>b\<in>set (pre @ (mm, True) # r). 0 < fst b" "mm + tot r = m + tot post"
    using pos(1) c tot_cons_merge [of "(m, True)" post] by (cases post; auto simp: cons_merge_def split: if_splits)+
  with sg1 c le have sg2: "seg (heap_blocks (coalesce ?h ?a)) None 0
      (if pre \<noteq> [] \<and> snd (last pre) then butlast pre @ (fst (last pre) + mm, True) # r
       else pre @ (mm, True) # r) None"
    using coalesce_prev_seg [of "coalesce_next ?h ?a" pre mm r] by (simp add: coalesce_def)
  have fr: "a_free ?a bs = compact (pre @ (m, True) # post)"
    using mark_free_append [of pre 0 m False post] pos bs by (simp add: a_free_def)
  have sg3: "seg (heap_blocks (coalesce ?h ?a)) None 0 (a_free ?a bs) None"
    using sg2 fr compact_release [OF na, of m] c by (auto simp: Let_def split: if_splits)
  have "blocks_ok (a_free ?a bs)"
    using compact_ok [of "pre @ (m, True) # post"] no_adj_compact ok fr
    by (simp add: blocks_ok_def block_ok_def)
  moreover have kf: "kfree h (Some (?a + SIZEOF_BLOCK)) = coalesce ?h ?a"
    using Bp le m32 by (simp add: kfree_def Let_def sub64_simp HEAP_SIZE_def)
  ultimately show "heap_abs (kfree h (Some (?a + SIZEOF_BLOCK))) (a_free ?a bs)"
    using sg3 abs by (simp add: heap_abs_def)
  show "heap_bytes (kfree h (Some (?a + SIZEOF_BLOCK))) = heap_bytes h" using kf by simp
qed

section \<open>Live allocations\<close>

definition heap_owns :: "kheap \<Rightarrow> nat \<Rightarrow> nat \<Rightarrow> bool" where
  "heap_owns h p m \<longleftrightarrow> (\<exists>bs. heap_abs h bs \<and> live_at 0 bs p = Some m)"

lemma heap_owns_iff: "heap_abs h bs \<Longrightarrow> heap_owns h p m \<longleftrightarrow> live_at 0 bs p = Some m"
  using heap_abs_unique by (auto simp: heap_owns_def)

lemma live_at_append:
  "live_at a (xs @ ys) p =
     (case live_at a xs p of Some m \<Rightarrow> Some m | None \<Rightarrow> live_at (a + tot xs) ys p)"
proof (induction xs arbitrary: a)
  case (Cons x xs)
  obtain n f where x: "x = (n, f)" by (cases x)
  show ?case
    using Cons.IH [of "a + n"]
    by (cases f; cases "p = a + SIZEOF_BLOCK") (simp_all add: x add.assoc split: option.split)
qed simp

lemma live_at_decomp:
  "live_at a bs p = Some m \<Longrightarrow> list_all block_ok bs \<Longrightarrow>
   \<exists>pre post. bs = pre @ (m + SIZEOF_BLOCK, False) # post \<and> p = a + tot pre + SIZEOF_BLOCK"
proof (induction bs arbitrary: a)
  case (Cons b bs)
  obtain n f where b: "b = (n, f)" by (cases b)
  show ?case
  proof (cases "\<not> f \<and> p = a + SIZEOF_BLOCK")
    case True
    with Cons.prems b have "n = m + SIZEOF_BLOCK" by (auto simp: block_ok_def)
    with True b show ?thesis by (intro exI [of _ "[]"] exI [of _ bs]) simp
  next
    case False
    with Cons.prems b have "live_at (a + n) bs p = Some m" "list_all block_ok bs"
      by (auto split: if_splits)
    from Cons.IH [OF this] obtain pre post where
      "bs = pre @ (m + SIZEOF_BLOCK, False) # post" "p = a + n + tot pre + SIZEOF_BLOCK" by blast
    with b show ?thesis by (intro exI [of _ "b # pre"] exI [of _ post]) simp
  qed
qed simp

lemma live_at_range:
  assumes "live_at a bs p = Some m" "list_all block_ok bs"
  shows "a + SIZEOF_BLOCK \<le> p \<and> p + m \<le> a + tot bs"
proof -
  obtain pre post where "bs = pre @ (m + SIZEOF_BLOCK, False) # post" "p = a + tot pre + SIZEOF_BLOCK"
    using live_at_decomp [OF assms] by blast
  then show ?thesis by simp
qed

lemma live_at_disjoint:
  "live_at a bs p = Some m \<Longrightarrow> live_at a bs q = Some k \<Longrightarrow> list_all block_ok bs \<Longrightarrow> p \<noteq> q \<Longrightarrow>
   p + m \<le> q \<or> q + k \<le> p"
proof (induction bs arbitrary: a)
  case (Cons b bs)
  obtain n f where b: "b = (n, f)" by (cases b)
  have rest: "live_at (a + n) bs x = Some j \<Longrightarrow> a + n + SIZEOF_BLOCK \<le> x" for x j
    using live_at_range [of "a + n" bs x j] Cons.prems(3) by simp
  have n: "SIZEOF_BLOCK \<le> n" using Cons.prems(3) b by (simp add: block_ok_def)
  have cs: "live_at (a + n) bs x = Some j \<or> x = a + SIZEOF_BLOCK \<and> j = n - SIZEOF_BLOCK"
    if "live_at a (b # bs) x = Some j" for x j
    using that by (simp add: b split: if_splits)
  consider "live_at (a + n) bs p = Some m" "live_at (a + n) bs q = Some k"
    | "p = a + SIZEOF_BLOCK" "m = n - SIZEOF_BLOCK" "live_at (a + n) bs q = Some k"
    | "q = a + SIZEOF_BLOCK" "k = n - SIZEOF_BLOCK" "live_at (a + n) bs p = Some m"
    using cs [OF Cons.prems(1)] cs [OF Cons.prems(2)] Cons.prems(4) by blast
  then show ?case
  proof cases
    case 1
    then show ?thesis using Cons by (intro Cons.IH [of "a + n"]) simp_all
  next
    case 2
    then show ?thesis using rest [of q k] n by simp
  next
    case 3
    then show ?thesis using rest [of p m] n by simp
  qed
qed simp

lemma live_at_cons_merge: "live_at a (cons_merge b bs) = live_at a (b # bs)"
  by (cases b; cases bs) (auto simp: cons_merge_def add.assoc)

lemma live_at_compact: "live_at a (compact bs) = live_at a bs"
proof (induction bs arbitrary: a)
  case (Cons b bs)
  then show ?case by (cases b) (auto simp: live_at_cons_merge fun_eq_iff)
qed simp

lemma live_at_alloc:
  assumes ok: "list_all block_ok (pre @ (m, True) # post)" and k: "SIZEOF_BLOCK \<le> k" "k \<le> m"
    and bs': "bs' = pre @ (if big then (k, False) # (m - k, True) # post else (m, False) # post)"
  shows "live_at 0 (pre @ (m, True) # post) (tot pre + SIZEOF_BLOCK) = None"
    and "live_at 0 bs' = (live_at 0 (pre @ (m, True) # post))
           (tot pre + SIZEOF_BLOCK \<mapsto> (if big then k else m) - SIZEOF_BLOCK)"
proof -
  let ?p = "tot pre + SIZEOF_BLOCK"
  have 1: "live_at 0 pre ?p = None"
  proof (cases "live_at 0 pre ?p")
    case (Some j)
    from live_at_range [OF Some] ok show ?thesis by (simp add: SIZEOF_BLOCK_def)
  qed simp
  have 2: "live_at (tot pre + m) post ?p = None"
  proof (cases "live_at (tot pre + m) post ?p")
    case (Some j)
    from live_at_range [OF Some] ok show ?thesis by (simp add: block_ok_def SIZEOF_BLOCK_def)
  qed simp
  show "live_at 0 (pre @ (m, True) # post) ?p = None" using 1 2 by (simp add: live_at_append)
  show "live_at 0 bs' = (live_at 0 (pre @ (m, True) # post))(?p \<mapsto> (if big then k else m) - SIZEOF_BLOCK)"
  proof
    fix x
    show "live_at 0 bs' x = ((live_at 0 (pre @ (m, True) # post))(?p \<mapsto> (if big then k else m) - SIZEOF_BLOCK)) x"
      using 1 k by (cases "x = ?p") (auto simp: bs' live_at_append add.assoc split: option.splits)
  qed
qed

lemma live_at_mark_free:
  assumes ok: "list_all block_ok (pre @ (m, False) # post)"
  shows "live_at 0 (a_free (tot pre) (pre @ (m, False) # post)) =
         (live_at 0 (pre @ (m, False) # post))(tot pre + SIZEOF_BLOCK := None)"
proof -
  have fr: "a_free (tot pre) (pre @ (m, False) # post) = compact (pre @ (m, True) # post)"
    using mark_free_append [of pre 0 m False post] block_ok_pos [OF ok] by (simp add: a_free_def)
  have ok': "list_all block_ok (pre @ (m, True) # post)" using ok by (simp add: block_ok_def)
  have m: "SIZEOF_BLOCK \<le> m" using ok by (simp add: block_ok_def)
  have "live_at 0 (pre @ (m, False) # post) =
      (live_at 0 (pre @ (m, True) # post))(tot pre + SIZEOF_BLOCK \<mapsto> m - SIZEOF_BLOCK)"
    using live_at_alloc(2) [OF ok' m order_refl refl, of False] by simp
  moreover have "live_at 0 (pre @ (m, True) # post) (tot pre + SIZEOF_BLOCK) = None"
    using live_at_alloc(1) [OF ok' m order_refl refl] .
  ultimately show ?thesis by (auto simp: fr live_at_compact fun_eq_iff)
qed

section \<open>The contract clients rely on\<close>

text \<open>
  What a client of the allocator may assume: a request returns; a new allocation is fresh, large
  enough and disjoint from the others; releasing one removes exactly that one; and neither touches
  the bytes of the payloads. \<open>store\<close> is the client writing through its pointers.
\<close>

locale allocator =
  fixes ok :: "'h \<Rightarrow> bool"
    and owns :: "'h \<Rightarrow> nat \<Rightarrow> nat \<Rightarrow> bool"
    and contents :: "'h \<Rightarrow> mem"
    and alloc :: "'h \<Rightarrow> nat \<Rightarrow> (nat option \<times> 'h) option"
    and release :: "'h \<Rightarrow> nat option \<Rightarrow> 'h"
    and store :: "mem \<Rightarrow> 'h \<Rightarrow> 'h"
  assumes alloc_returns: "ok h \<Longrightarrow> 0 < n \<Longrightarrow> n < 2 ^ 62 \<Longrightarrow> \<exists>r. alloc h n = Some r"
    and alloc_null: "ok h \<Longrightarrow> 0 < n \<Longrightarrow> n < 2 ^ 62 \<Longrightarrow> alloc h n = Some (None, h') \<Longrightarrow> h' = h"
    and alloc_new: "ok h \<Longrightarrow> 0 < n \<Longrightarrow> n < 2 ^ 62 \<Longrightarrow> alloc h n = Some (Some p, h') \<Longrightarrow>
      ok h' \<and> contents h' = contents h \<and> (\<nexists>k. owns h p k) \<and>
      (\<exists>m\<ge>n. \<forall>q k. owns h' q k \<longleftrightarrow> owns h q k \<or> q = p \<and> k = m)"
    and release_live: "ok h \<Longrightarrow> owns h p m \<Longrightarrow>
      ok (release h (Some p)) \<and> contents (release h (Some p)) = contents h \<and>
      (\<forall>q k. owns (release h (Some p)) q k \<longleftrightarrow> owns h q k \<and> q \<noteq> p)"
    and release_null: "release h None = h"
    and owns_disjoint: "owns h p m \<Longrightarrow> owns h q k \<Longrightarrow> p \<noteq> q \<Longrightarrow> p + m \<le> q \<or> q + k \<le> p"
    and owns_fun: "owns h p m \<Longrightarrow> owns h p k \<Longrightarrow> m = k"
    and store_ok: "ok (store b h) \<longleftrightarrow> ok h"
    and store_owns: "owns (store b h) p m \<longleftrightarrow> owns h p m"
    and store_contents: "contents (store b h) = b"
begin

text \<open>Filling a fresh allocation leaves every other live payload as it was.\<close>

lemma fresh_write_frame:
  assumes "ok h" "0 < n" "n < 2 ^ 62" "alloc h n = Some (Some p, h')"
    and "owns h q k" "i < k" "\<And>a. a < p \<or> p + n \<le> a \<Longrightarrow> b a = contents h' a"
  shows "contents (store b h') (q + i) = contents h (q + i)"
proof -
  from alloc_new [OF assms(1-4)] obtain m where m: "n \<le> m" "owns h' p m" "owns h' q k"
    "contents h' = contents h" "p \<noteq> q"
    using assms(5) by blast
  from owns_disjoint [OF m(2,3,5)] have "q + i < p \<or> p + n \<le> q + i" using assms(6) m(1) by auto
  then show ?thesis using assms(7) m(4) store_contents by simp
qed

lemma alloc_owns:
  assumes "ok h" "0 < n" "n < 2 ^ 62" "alloc h n = Some (Some p, h')"
  obtains m where "n \<le> m" "owns h' p m" "ok h'" "contents h' = contents h" "\<nexists>k. owns h p k"
    "\<And>q k. owns h' q k \<longleftrightarrow> owns h q k \<or> q = p \<and> k = m"
  using alloc_new [OF assms] by blast

end

lemma heap_abs_bytes [simp]: "heap_abs (h\<lparr>heap_bytes := b\<rparr>) bs = heap_abs h bs"
  by (simp add: heap_abs_def)

lemma kmalloc_new:
  assumes "heap_abs h bs" "0 < n" "n < 2 ^ 62" "kmalloc h n = Some (Some p, h')"
  obtains bs' m where "heap_abs h' bs'" "heap_bytes h' = heap_bytes h" "live_at 0 bs p = None" "n \<le> m"
    "live_at 0 bs' = (live_at 0 bs)(p \<mapsto> m)"
proof -
  let ?k = "align16 n + SIZEOF_BLOCK"
  have n63: "n < 2 ^ 63" using assms(3) by simp
  obtain bs' p0 where al: "a_alloc ?k bs = Some bs'" and p: "p = p0 + SIZEOF_BLOCK"
    and ff: "first_fit ?k 0 bs = Some p0" and abs': "heap_abs h' bs'" "heap_bytes h' = heap_bytes h"
    using kmalloc_refines_a_alloc [OF assms(1-3)] assms(4) by (cases "a_alloc ?k bs") auto
  from first_fit_Some [OF ff] al obtain pre m post where bs: "bs = pre @ (m, True) # post"
    and p0: "p0 = tot pre" and km: "?k \<le> m"
    and bs': "bs' = pre @ (if ?k + MIN_BLOCK_SIZE + SIZEOF_BLOCK \<le> m
                then (?k, False) # (m - ?k, True) # post else (m, False) # post)"
    by auto
  have ok: "list_all block_ok (pre @ (m, True) # post)"
    using assms(1) bs by (simp add: heap_abs_def blocks_ok_def)
  have le: "SIZEOF_BLOCK \<le> ?k" by simp
  show thesis
    by (rule that [OF abs'])
      (use live_at_alloc [OF ok le km bs'] align16_simp [OF n63] km bs p p0 in \<open>auto split: if_splits\<close>)
qed

lemma kfree_live:
  assumes "heap_abs h bs" "live_at 0 bs p = Some m"
  obtains bs' where "heap_abs (kfree h (Some p)) bs'" "heap_bytes (kfree h (Some p)) = heap_bytes h"
    "live_at 0 bs' = (live_at 0 bs)(p := None)"
proof -
  have ok: "list_all block_ok bs" using assms(1) by (simp add: heap_abs_def blocks_ok_def)
  from live_at_decomp [OF assms(2) ok] obtain pre post where
    bs: "bs = pre @ (m + SIZEOF_BLOCK, False) # post" and p: "p = tot pre + SIZEOF_BLOCK" by auto
  from kfree_refines_a_free [OF assms(1) bs] live_at_mark_free [of pre "m + SIZEOF_BLOCK" post] ok bs p
  show thesis by (intro that [of "a_free (tot pre) bs"]) simp_all
qed

interpretation km: allocator heap_ok heap_owns heap_bytes kmalloc kfree "\<lambda>b h. h\<lparr>heap_bytes := b\<rparr>"
proof unfold_locales
  fix h :: kheap and n :: nat
  assume "heap_ok h" "0 < n" "n < 2 ^ 62"
  then show "\<exists>r. kmalloc h n = Some r"
    by (auto simp: heap_ok_def dest!: kmalloc_refines_a_alloc split: option.splits)
next
  fix h h' :: kheap and n :: nat
  assume a: "heap_ok h" "0 < n" "n < 2 ^ 62" "kmalloc h n = Some (None, h')"
  from a(1) obtain bs where "heap_abs h bs" by (auto simp: heap_ok_def)
  from kmalloc_refines_a_alloc [OF this a(2,3)] a(4) show "h' = h" by (auto split: option.splits)
next
  fix h h' :: kheap and n p :: nat
  assume a: "heap_ok h" "0 < n" "n < 2 ^ 62" "kmalloc h n = Some (Some p, h')"
  from a(1) obtain bs where bs: "heap_abs h bs" by (auto simp: heap_ok_def)
  obtain bs' m where m: "heap_abs h' bs'" "heap_bytes h' = heap_bytes h" "live_at 0 bs p = None" "n \<le> m"
    "live_at 0 bs' = (live_at 0 bs)(p \<mapsto> m)" by (rule kmalloc_new [OF bs a(2-4)])
  then show "heap_ok h' \<and> heap_bytes h' = heap_bytes h \<and> (\<nexists>k. heap_owns h p k) \<and>
      (\<exists>m\<ge>n. \<forall>q k. heap_owns h' q k \<longleftrightarrow> heap_owns h q k \<or> q = p \<and> k = m)"
    by (auto simp: heap_owns_iff [OF bs] heap_owns_iff [OF m(1)] heap_ok_def intro!: exI [of _ m])
next
  fix h :: kheap and p m :: nat
  assume a: "heap_ok h" "heap_owns h p m"
  then obtain bs where bs: "heap_abs h bs" "live_at 0 bs p = Some m" by (auto simp: heap_owns_def)
  obtain bs' where bs': "heap_abs (kfree h (Some p)) bs'" "heap_bytes (kfree h (Some p)) = heap_bytes h"
    "live_at 0 bs' = (live_at 0 bs)(p := None)" by (rule kfree_live [OF bs])
  then show "heap_ok (kfree h (Some p)) \<and> heap_bytes (kfree h (Some p)) = heap_bytes h \<and>
      (\<forall>q k. heap_owns (kfree h (Some p)) q k \<longleftrightarrow> heap_owns h q k \<and> q \<noteq> p)"
    by (auto simp: heap_owns_iff [OF bs(1)] heap_owns_iff [OF bs'(1)] heap_ok_def split: if_splits)
next
  fix h :: kheap
  show "kfree h None = h" by (simp add: kfree_def)
next
  fix h :: kheap and p m q k :: nat
  assume a: "heap_owns h p m" "heap_owns h q k" "p \<noteq> q"
  then obtain bs where bs: "heap_abs h bs" by (auto simp: heap_owns_def)
  then have "list_all block_ok bs" by (simp add: heap_abs_def blocks_ok_def)
  with a bs show "p + m \<le> q \<or> q + k \<le> p"
    using live_at_disjoint [of 0 bs p m q k] by (simp add: heap_owns_iff)
next
  fix h :: kheap and p m k :: nat
  assume "heap_owns h p m" "heap_owns h p k"
  then show "m = k" using heap_owns_iff by (auto simp: heap_owns_def dest: heap_abs_unique)
qed (simp_all add: heap_ok_def heap_owns_def)

section \<open>Initialisation, statistics, reallocation\<close>

lemma kmalloc_init_abs: "\<not> heap_initialized h \<Longrightarrow> heap_abs (kmalloc_init h) [(HEAP_SIZE, True)]"
  by (simp add: heap_abs_def kmalloc_init_def blocks_ok_def block_ok_def hdr_def HEAP_SIZE_def SIZEOF_BLOCK_def)

lemma heap_ok_init: "heap_initialized h \<Longrightarrow> heap_ok h \<Longrightarrow> kmalloc_init h = h"
  by (simp add: kmalloc_init_def)

definition payload :: "ablk \<Rightarrow> nat" where
  "payload b = fst b - SIZEOF_BLOCK"

lemma stats_loop_seg:
  "seg (heap_blocks h) pv a bs None \<Longrightarrow>
   stats_loop h (if bs = [] then None else Some a) st = Some (foldl (\<lambda>s b. stats_add (fst b) (snd b) s) st bs)"
proof (induction bs arbitrary: pv a st)
  case Nil
  then show ?case by (subst stats_loop.simps) simp
next
  case (Cons b bs)
  obtain m f where b: "b = (m, f)" by (cases b)
  show ?case using Cons.prems Cons.IH [of "Some a" "a + m"] b
    by (subst stats_loop.simps) auto
qed

lemma stats_add_sel:
  assumes "SIZEOF_BLOCK \<le> n"
  shows "st_used (stats_add n f st) = st_used st + (if f then 0 else n - SIZEOF_BLOCK)"
    "st_free (stats_add n f st) = st_free st + (if f then n - SIZEOF_BLOCK else 0)"
    "st_blocks (stats_add n f st) = Suc (st_blocks st)"
    "st_largest_free (stats_add n f st) =
       (if f then max (n - SIZEOF_BLOCK) (st_largest_free st) else st_largest_free st)"
  using assms by (auto simp: stats_add_def Let_def max_def)

lemma stats_fold:
  assumes "list_all block_ok bs"
  shows "st_used (foldl (\<lambda>s b. stats_add (fst b) (snd b) s) st bs) =
           st_used st + sum_list (map payload (filter (\<lambda>b. \<not> snd b) bs))"
    "st_free (foldl (\<lambda>s b. stats_add (fst b) (snd b) s) st bs) =
           st_free st + sum_list (map payload (filter snd bs))"
    "st_blocks (foldl (\<lambda>s b. stats_add (fst b) (snd b) s) st bs) = st_blocks st + length bs"
    "st_largest_free (foldl (\<lambda>s b. stats_add (fst b) (snd b) s) st bs) =
           fold max (map payload (filter snd bs)) (st_largest_free st)"
  using assms
  by (induction bs arbitrary: st) (simp_all add: stats_add_sel payload_def block_ok_def)

lemma fold_max_le: "k \<le> fold max xs (z :: nat) \<longleftrightarrow> k \<le> z \<or> (\<exists>x\<in>set xs. k \<le> x)"
  by (induction xs arbitrary: z) (auto simp: max_def)

lemma a_alloc_iff: "a_alloc k bs \<noteq> None \<longleftrightarrow> (\<exists>b\<in>set bs. snd b \<and> k \<le> fst b)"
  by (induction bs) auto

lemma tot_payload: "list_all block_ok bs \<Longrightarrow>
  tot bs = sum_list (map payload (filter (\<lambda>b. \<not> snd b) bs)) + sum_list (map payload (filter snd bs))
           + SIZEOF_BLOCK * length bs"
  by (induction bs) (auto simp: payload_def block_ok_def)

lemma get_stats_abs:
  assumes "heap_abs h bs"
  obtains st where "kmalloc_get_stats h = Some (st, h)"
    "st_used st = sum_list (map payload (filter (\<lambda>b. \<not> snd b) bs))"
    "st_free st = sum_list (map payload (filter snd bs))"
    "st_blocks st = length bs"
    "st_largest_free st = fold max (map payload (filter snd bs)) 0"
proof -
  from assms have a: "heap_initialized h" "free_list h = Some 0" "seg (heap_blocks h) None 0 bs None"
    "list_all block_ok bs" "bs \<noteq> []"
    by (auto simp: heap_abs_def blocks_ok_def HEAP_SIZE_def)
  let ?st = "foldl (\<lambda>s b. stats_add (fst b) (snd b) s) stats_zero bs"
  have "kmalloc_get_stats h = Some (?st, h)"
    using stats_loop_seg [OF a(3), of stats_zero] a by (simp add: kmalloc_get_stats_def)
  with stats_fold [OF a(4), of stats_zero] show thesis
    by (intro that [of ?st]) (simp_all add: stats_zero_def)
qed

text \<open>The header in front of a live payload.\<close>

lemma owns_header:
  assumes "heap_owns h p m"
  shows "blk_size (heap_blocks h (p - SIZEOF_BLOCK)) = m + SIZEOF_BLOCK" "sub64 p SIZEOF_BLOCK = p - SIZEOF_BLOCK"
    "sub64 (m + SIZEOF_BLOCK) SIZEOF_BLOCK = m" "SIZEOF_BLOCK \<le> p" "p + m \<le> HEAP_SIZE" "heap_ok h"
proof -
  from assms obtain bs where bs: "heap_abs h bs" "live_at 0 bs p = Some m" by (auto simp: heap_owns_def)
  then have ok: "list_all block_ok bs" "tot bs = HEAP_SIZE" "seg (heap_blocks h) None 0 bs None"
    by (simp_all add: heap_abs_def blocks_ok_def)
  from live_at_decomp [OF bs(2) ok(1)] obtain pre post where
    d: "bs = pre @ (m + SIZEOF_BLOCK, False) # post" "p = tot pre + SIZEOF_BLOCK" by auto
  show "blk_size (heap_blocks h (p - SIZEOF_BLOCK)) = m + SIZEOF_BLOCK"
    using seg_at [of "heap_blocks h" None 0 pre "m + SIZEOF_BLOCK" False post None] ok(3) d by simp
  show "SIZEOF_BLOCK \<le> p" "p + m \<le> HEAP_SIZE" using d ok(2) by simp_all
  then show "sub64 p SIZEOF_BLOCK = p - SIZEOF_BLOCK" "sub64 (m + SIZEOF_BLOCK) SIZEOF_BLOCK = m"
    by (simp_all add: sub64_simp HEAP_SIZE_def)
  show "heap_ok h" using bs(1) by (auto simp: heap_ok_def)
qed

lemma krealloc_moves:
  assumes own: "heap_owns h p m" and n: "m < n" "n < 2 ^ 62"
    and re: "krealloc h (Some p) n = Some (Some q, h')"
  shows "\<exists>k\<ge>n. heap_owns h' q k \<and> (\<forall>i<m. heap_bytes h' (q + i) = heap_bytes h (p + i)) \<and>
           (\<forall>r j. heap_owns h' r j \<longleftrightarrow> (heap_owns h r j \<and> r \<noteq> p) \<or> (r = q \<and> j = k))"
proof -
  note hd = owns_header [OF own]
  have n0: "0 < n" using n by simp
  from re n hd obtain h1 where al: "kmalloc h n = Some (Some q, h1)"
    and h': "h' = kfree (h1\<lparr>heap_bytes := memcpy (heap_bytes h1) q p m\<rparr>) (Some p)"
    by (auto simp: krealloc_def Let_def split: option.splits prod.splits if_splits)
  obtain k where k: "n \<le> k" "heap_owns h1 q k" "heap_ok h1" "heap_bytes h1 = heap_bytes h"
    "\<nexists>k. heap_owns h q k" "\<And>r j. heap_owns h1 r j \<longleftrightarrow> heap_owns h r j \<or> r = q \<and> j = k"
    by (rule km.alloc_owns [OF hd(6) n0 n(2) al]) blast
  let ?h2 = "h1\<lparr>heap_bytes := memcpy (heap_bytes h1) q p m\<rparr>"
  have pq: "p \<noteq> q" using k(5) own by blast
  have own1: "heap_owns h1 p m" using k(6) own by blast
  have dis: "q + m \<le> p \<or> p + m \<le> q" using km.owns_disjoint [OF own1 k(2) pq] k(1) n(1) by auto
  have "heap_ok ?h2" "heap_owns ?h2 p m"
    using km.store_ok km.store_owns k(3) own1 by blast+
  from km.release_live [OF this] have fr: "heap_bytes h' = heap_bytes ?h2"
    "\<And>r j. heap_owns h' r j \<longleftrightarrow> heap_owns ?h2 r j \<and> r \<noteq> p"
    by (auto simp: h')
  have ow: "heap_owns h' r j \<longleftrightarrow> heap_owns h r j \<and> r \<noteq> p \<or> r = q \<and> j = k" for r j
    using fr(2) [of r j] k(6) [of r j] km.store_owns pq by auto
  moreover have "heap_bytes h' (q + i) = heap_bytes h (p + i)" if "i < m" for i
    using that dis fr(1) k(4) memcpy_disjoint [of q m p "heap_bytes h1" "q + i"] by auto
  ultimately show ?thesis using k(1) by blast
qed

section \<open>Properties\<close>

text \<open>The heaps the kernel can reach: initialise, then allocate, release what is live, write bytes.\<close>

inductive heap_reach :: "kheap \<Rightarrow> bool" where
  reach_init: "heap_reach (kmalloc_init kheap_boot)"
| reach_alloc: "heap_reach h \<Longrightarrow> n \<le> 2 ^ 64 - 48 \<Longrightarrow> kmalloc h n = Some (r, h') \<Longrightarrow> heap_reach h'"
| reach_free: "heap_reach h \<Longrightarrow> heap_owns h p m \<Longrightarrow> heap_reach (kfree h (Some p))"
| reach_store: "heap_reach h \<Longrightarrow> heap_reach (h\<lparr>heap_bytes := b\<rparr>)"

lemma heap_ok_initialized: "heap_ok h \<Longrightarrow> heap_initialized h"
  by (auto simp: heap_ok_def heap_abs_def)

text \<open>A request that is larger than the heap, up to where its alignment and header still fit 64 bits.\<close>

lemma kmalloc_big:
  assumes abs: "heap_abs h bs" and n: "2 ^ 62 \<le> n" "n \<le> 2 ^ 64 - 48"
  shows "a_alloc (align16 n + SIZEOF_BLOCK) bs = None" "kmalloc h n = Some (None, h)"
proof -
  let ?sz = "align16 n" let ?k = "?sz + SIZEOF_BLOCK"
  have al: "?sz = (n + 15) div 16 * 16" using n(2) by (simp add: align16_def add64_simp)
  have big: "HEAP_SIZE < ?k" using n(1) by (simp add: al HEAP_SIZE_def)
  have "?sz \<le> 2 ^ 64 - 48"
  proof -
    have "(n + 15) div 16 \<le> (2 ^ 64 - 33) div 16" using n(2) by (intro div_le_mono) simp
    then show ?thesis by (simp add: al)
  qed
  then have k: "add64 ?sz SIZEOF_BLOCK = ?k" by (simp add: add64_simp SIZEOF_BLOCK_def)
  from abs have init: "heap_initialized h" "free_list h = Some 0" "blocks_ok bs" "bs \<noteq> []"
    and sg: "seg (heap_blocks h) None 0 bs None"
    by (auto simp: heap_abs_def blocks_ok_def HEAP_SIZE_def)
  have none: "first_fit ?k 0 bs = None"
  proof (rule ccontr)
    assume "first_fit ?k 0 bs \<noteq> None"
    then obtain q where "first_fit ?k 0 bs = Some q" by blast
    from first_fit_Some [OF this] obtain pre m post where "bs = pre @ (m, True) # post" "?k \<le> m" by auto
    then show False using init(3) big by (simp add: blocks_ok_def)
  qed
  then show "a_alloc ?k bs = None" by (rule first_fit_None)
  have "find_free_block h ?sz = Some (first_fit ?k 0 bs)"
    using find_free_seg [OF sg, of ?sz] init k by (simp add: find_free_block_def)
  then show "kmalloc h n = Some (None, h)" using none n(1) init(1) by (simp add: kmalloc_def)
qed

lemma kmalloc_all_sizes:
  assumes "heap_abs h bs" "n \<le> 2 ^ 64 - 48"
  shows "if n = 0 then kmalloc h n = Some (None, h)
         else case a_alloc (align16 n + SIZEOF_BLOCK) bs of
           None \<Rightarrow> kmalloc h n = Some (None, h)
         | Some bs' \<Rightarrow> \<exists>p h'. kmalloc h n = Some (Some (p + SIZEOF_BLOCK), h') \<and>
             first_fit (align16 n + SIZEOF_BLOCK) 0 bs = Some p \<and>
             heap_abs h' bs' \<and> heap_bytes h' = heap_bytes h"
proof -
  consider "n = 0" | "0 < n" "n < 2 ^ 62" | "2 ^ 62 \<le> n" by linarith
  then show ?thesis
  proof cases
    case 1
    then show ?thesis using assms(1) by (simp add: kmalloc_def heap_abs_def Let_def)
  next
    case 2
    then show ?thesis using kmalloc_refines_a_alloc [OF assms(1) 2] by simp
  next
    case 3
    then show ?thesis using kmalloc_big [OF assms(1) 3 assms(2)] by simp
  qed
qed

lemma kmalloc_keeps_ok: "heap_ok h \<Longrightarrow> n \<le> 2 ^ 64 - 48 \<Longrightarrow> kmalloc h n = Some (r, h') \<Longrightarrow> heap_ok h'"
proof -
  assume a: "heap_ok h" "n \<le> 2 ^ 64 - 48" "kmalloc h n = Some (r, h')"
  then obtain bs where bs: "heap_abs h bs" by (auto simp: heap_ok_def)
  show "heap_ok h'"
    using kmalloc_all_sizes [OF bs a(2)] a(1,3) by (auto simp: heap_ok_def split: if_splits option.splits)
qed

lemma heap_reach_ok: "heap_reach h \<Longrightarrow> heap_ok h"
proof (induction rule: heap_reach.induct)
  case reach_init
  have "heap_abs (kmalloc_init kheap_boot) [(HEAP_SIZE, True)]"
    by (rule kmalloc_init_abs) (simp add: kheap_boot_def)
  then show ?case by (auto simp: heap_ok_def)
next
  case (reach_alloc h n r h')
  then show ?case by (blast intro: kmalloc_keeps_ok)
next
  case (reach_free h p m)
  then show ?case using km.release_live by blast
next
  case (reach_store h b)
  then show ?case using km.store_ok by blast
qed

text \<open>C34: On a heap whose block list is the abstract list \<open>bs\<close>, \<^verbatim>\<open>kmalloc(n)\<close> returns for every size up to
  2 to the 64 minus 48, the largest whose alignment and header do not wrap around. For size 0, and when
  first fit finds no block, it returns NULL and changes nothing; otherwise it returns the payload of the
  first block that fits, splitting it as the abstract allocator does and leaving all bytes alone.\<close>

theorem kmalloc_first_fit:
  assumes "heap_abs h bs" "n \<le> 2 ^ 64 - 48"
  shows "if n = 0 then kmalloc h n = Some (None, h)
         else case a_alloc (align16 n + SIZEOF_BLOCK) bs of
           None \<Rightarrow> kmalloc h n = Some (None, h)
         | Some bs' \<Rightarrow> \<exists>p h'. kmalloc h n = Some (Some (p + SIZEOF_BLOCK), h') \<and>
             first_fit (align16 n + SIZEOF_BLOCK) 0 bs = Some p \<and>
             heap_abs h' bs' \<and> heap_bytes h' = heap_bytes h"
  using assms by (rule kmalloc_all_sizes)

theorem kmalloc_first_fit_witness:
  "\<exists>h'. kmalloc (kmalloc_init kheap_boot) 100 = Some (Some 32, h') \<and>
        heap_abs h' [(144, False), (HEAP_SIZE - 144, True)]"
proof -
  have abs: "heap_abs (kmalloc_init kheap_boot) [(HEAP_SIZE, True)]"
    by (rule kmalloc_init_abs) (simp add: kheap_boot_def)
  show ?thesis
    using kmalloc_first_fit [OF abs, of 100]
    by (auto simp: align16_def add64_def SIZEOF_BLOCK_def MIN_BLOCK_SIZE_def HEAP_SIZE_def)
qed

text \<open>C35: Releasing a live block marks it free and merges it with free neighbours, so that the block
  list is the fully coalesced one; the bytes of the heap are untouched.\<close>

theorem kfree_coalesces:
  assumes "heap_abs h (pre @ (m, False) # post)"
  shows "heap_abs (kfree h (Some (tot pre + SIZEOF_BLOCK))) (a_free (tot pre) (pre @ (m, False) # post)) \<and>
         heap_bytes (kfree h (Some (tot pre + SIZEOF_BLOCK))) = heap_bytes h"
  using kfree_refines_a_free [OF assms refl] by blast

theorem kfree_coalesces_witness:
  "\<exists>h. heap_abs h [(144, False), (HEAP_SIZE - 144, True)] \<and>
       heap_abs (kfree h (Some 32)) [(HEAP_SIZE, True)]"
proof -
  have abs: "heap_abs (kmalloc_init kheap_boot) [(HEAP_SIZE, True)]"
    by (rule kmalloc_init_abs) (simp add: kheap_boot_def)
  obtain h' where h': "heap_abs h' [(144, False), (HEAP_SIZE - 144, True)]"
    using kmalloc_refines_a_alloc [OF abs, of 100]
    by (auto simp: align16_def add64_def SIZEOF_BLOCK_def MIN_BLOCK_SIZE_def HEAP_SIZE_def)
  with kfree_coalesces [of h' "[]" 144 "[(HEAP_SIZE - 144, True)]"] show ?thesis
    by (auto simp: a_free_def cons_merge_def SIZEOF_BLOCK_def HEAP_SIZE_def)
qed

text \<open>C3: After any sequence of allocations of at most 2 to the 64 minus 48 bytes each, releases of live blocks and
  payload writes, the block list tiles the whole heap with no two adjacent free blocks, and the live
  allocations lie inside the heap and never overlap. The 47 larger sizes are left out because the code does
  not survive them: alignment and header wrap around, and the request is met by a block that is too small
  (\<open>kmalloc_huge_request_wraps\<close>).\<close>

theorem heap_reach_invariant:
  assumes "heap_reach h"
  shows "(\<exists>bs. heap_abs h bs \<and> tot bs = HEAP_SIZE \<and> no_adj bs) \<and>
         (\<forall>p m. heap_owns h p m \<longrightarrow> SIZEOF_BLOCK \<le> p \<and> p + m \<le> HEAP_SIZE) \<and>
         (\<forall>p m q k. heap_owns h p m \<and> heap_owns h q k \<and> p \<noteq> q \<longrightarrow> p + m \<le> q \<or> q + k \<le> p)"
proof -
  from heap_reach_ok [OF assms] have "\<exists>bs. heap_abs h bs \<and> tot bs = HEAP_SIZE \<and> no_adj bs"
    by (auto simp: heap_ok_def heap_abs_def blocks_ok_def)
  then show ?thesis using owns_header(4,5) km.owns_disjoint by blast
qed

theorem heap_reach_invariant_witness:
  "\<exists>h h' p m q k. heap_reach h \<and> kmalloc h 40 = Some (Some q, h') \<and> heap_owns h' p m \<and> heap_owns h' q k \<and>
     p \<noteq> q \<and> (p + m \<le> q \<or> q + k \<le> p)"
proof -
  let ?h0 = "kmalloc_init kheap_boot"
  have r0: "heap_reach ?h0" by (rule heap_reach.reach_init)
  have abs0: "heap_abs ?h0 [(HEAP_SIZE, True)]" by (rule kmalloc_init_abs) (simp add: kheap_boot_def)
  obtain h1 where k1: "kmalloc ?h0 100 = Some (Some 32, h1)" and abs1: "heap_abs h1 [(144, False), (HEAP_SIZE - 144, True)]"
    using kmalloc_refines_a_alloc [OF abs0, of 100]
    by (auto simp: align16_def add64_def SIZEOF_BLOCK_def MIN_BLOCK_SIZE_def HEAP_SIZE_def)
  obtain h2 where k2: "kmalloc h1 40 = Some (Some 176, h2)"
    and abs2: "heap_abs h2 [(144, False), (80, False), (HEAP_SIZE - 224, True)]"
    using kmalloc_refines_a_alloc [OF abs1, of 40]
    by (auto simp: align16_def add64_def SIZEOF_BLOCK_def MIN_BLOCK_SIZE_def HEAP_SIZE_def)
  have r1: "heap_reach h1" by (rule heap_reach.reach_alloc [OF r0 _ k1]) simp
  have r2: "heap_reach h2" by (rule heap_reach.reach_alloc [OF r1 _ k2]) simp
  have "heap_owns h2 32 112" "heap_owns h2 176 48"
    using heap_owns_iff [OF abs2] by (simp_all add: SIZEOF_BLOCK_def)
  then show ?thesis using heap_reach_invariant [OF r2] r1 k2
    by (intro exI [of _ h1] exI [of _ h2] exI [of _ 32] exI [of _ 112] exI [of _ 176] exI [of _ 48]) simp
qed

text \<open>The reported statistics are exact: used and free payload plus one header per block add up to
  the heap, and a request succeeds exactly when its aligned size is at most \<^verbatim>\<open>largest_free\<close>.\<close>

theorem kmalloc_stats_exact:
  assumes "heap_ok h" "0 < n" "n < 2 ^ 62"
  shows "\<exists>st. kmalloc_get_stats h = Some (st, h) \<and>
           st_used st + st_free st + SIZEOF_BLOCK * st_blocks st = HEAP_SIZE \<and>
           ((\<exists>p h'. kmalloc h n = Some (Some p, h')) \<longleftrightarrow> align16 n \<le> st_largest_free st)"
proof -
  from assms(1) obtain bs where abs: "heap_abs h bs" by (auto simp: heap_ok_def)
  obtain st where st: "kmalloc_get_stats h = Some (st, h)"
    "st_used st = sum_list (map payload (filter (\<lambda>b. \<not> snd b) bs))"
    "st_free st = sum_list (map payload (filter snd bs))"
    "st_blocks st = length bs"
    "st_largest_free st = fold max (map payload (filter snd bs)) 0"
    by (rule get_stats_abs [OF abs])
  have ok: "list_all block_ok bs" "tot bs = HEAP_SIZE" using abs by (simp_all add: heap_abs_def blocks_ok_def)
  have n63: "n < 2 ^ 63" using assms(3) by simp
  have "\<not> align16 n \<le> 0" using align16_simp(1) [OF n63] assms(2) by linarith
  then have "align16 n \<le> st_largest_free st \<longleftrightarrow> (\<exists>b\<in>set bs. snd b \<and> align16 n \<le> payload b)"
    unfolding st(5) fold_max_le set_map set_filter by blast
  also have "\<dots> \<longleftrightarrow> a_alloc (align16 n + SIZEOF_BLOCK) bs \<noteq> None"
  proof -
    have "align16 n \<le> payload b \<longleftrightarrow> align16 n + SIZEOF_BLOCK \<le> fst b" if "b \<in> set bs" for b
    proof -
      have "SIZEOF_BLOCK \<le> fst b" using ok(1) that by (simp add: list_all_iff block_ok_def)
      then show ?thesis by (simp add: payload_def le_diff_conv2)
    qed
    then show ?thesis unfolding a_alloc_iff by blast
  qed
  also have "\<dots> \<longleftrightarrow> (\<exists>p h'. kmalloc h n = Some (Some p, h'))"
    using kmalloc_refines_a_alloc [OF abs assms(2,3)] by (auto split: option.splits)
  finally show ?thesis using st tot_payload [OF ok(1)] ok(2) by auto
qed

theorem kmalloc_stats_exact_witness:
  "heap_ok (kmalloc_init kheap_boot) \<and>
   (\<exists>st. kmalloc_get_stats (kmalloc_init kheap_boot) = Some (st, kmalloc_init kheap_boot) \<and>
         st_used st + st_free st + SIZEOF_BLOCK * st_blocks st = HEAP_SIZE)"
proof -
  have "heap_ok (kmalloc_init kheap_boot)" by (rule heap_reach_ok [OF heap_reach.reach_init])
  with kmalloc_stats_exact [OF this, of 1] show ?thesis by auto
qed

text \<open>When \<^verbatim>\<open>krealloc\<close> has to move a live block it yields a block of at least the requested size that
  starts with all bytes of the old payload, releases the old block and keeps every other one.\<close>

theorem krealloc_preserves:
  assumes "heap_owns h p m" "m < n" "n < 2 ^ 62" "krealloc h (Some p) n = Some (Some q, h')"
  shows "\<exists>k\<ge>n. heap_owns h' q k \<and> (\<forall>i<m. heap_bytes h' (q + i) = heap_bytes h (p + i)) \<and>
           (\<forall>r j. heap_owns h' r j \<longleftrightarrow> (heap_owns h r j \<and> r \<noteq> p) \<or> (r = q \<and> j = k))"
  using assms by (rule krealloc_moves)

theorem krealloc_preserves_witness:
  "\<exists>h h' q. heap_owns h 32 112 \<and> krealloc h (Some 32) 200 = Some (Some q, h') \<and>
     (\<forall>i<112. heap_bytes h' (q + i) = heap_bytes h (32 + i))"
proof -
  let ?h0 = "kmalloc_init kheap_boot"
  have abs0: "heap_abs ?h0 [(HEAP_SIZE, True)]" by (rule kmalloc_init_abs) (simp add: kheap_boot_def)
  obtain h1 where abs1: "heap_abs h1 [(144, False), (HEAP_SIZE - 144, True)]"
    using kmalloc_refines_a_alloc [OF abs0, of 100]
    by (auto simp: align16_def add64_def SIZEOF_BLOCK_def MIN_BLOCK_SIZE_def HEAP_SIZE_def)
  have own: "heap_owns h1 32 112" using heap_owns_iff [OF abs1] by (simp add: SIZEOF_BLOCK_def)
  obtain q h2 where "kmalloc h1 200 = Some (Some q, h2)"
    using kmalloc_refines_a_alloc [OF abs1, of 200]
    by (auto simp: align16_def add64_def SIZEOF_BLOCK_def MIN_BLOCK_SIZE_def HEAP_SIZE_def)
  then obtain h' where re: "krealloc h1 (Some 32) 200 = Some (Some q, h')"
    using owns_header [OF own] by (auto simp: krealloc_def Let_def)
  from krealloc_preserves [OF own _ _ re] have "\<forall>i<112. heap_bytes h' (q + i) = heap_bytes h1 (32 + i)"
    by auto
  with own re show ?thesis by blast
qed

text \<open>The 64-bit rounding of the request wraps: on the fresh heap \<^verbatim>\<open>kmalloc(SIZE_MAX)\<close> does not fail
  but returns a pointer whose payload is empty.\<close>

theorem kmalloc_huge_request_wraps:
  "\<exists>h'. kmalloc (kmalloc_init kheap_boot) (2 ^ 64 - 1) = Some (Some 32, h') \<and> heap_owns h' 32 0"
proof -
  let ?h = "kmalloc_init kheap_boot"
  have abs: "heap_abs ?h [(HEAP_SIZE, True)]" by (rule kmalloc_init_abs) (simp add: kheap_boot_def)
  have sz: "align16 (2 ^ 64 - 1) = 0" by (simp add: align16_def add64_def)
  have find: "find_free_block ?h 0 = Some (Some 0)"
    using find_free_seg [of ?h None 0 "[(HEAP_SIZE, True)]" 0] abs
    by (simp add: heap_abs_def find_free_block_def add64_def SIZEOF_BLOCK_def HEAP_SIZE_def)
  let ?h' = "upd_block 0 (blk_free_update (\<lambda>_. False)) (split_block ?h 0 0)"
  have "seg (heap_blocks ?h') None 0 [(32, False), (HEAP_SIZE - 32, True)] None"
    using split_block_seg [of ?h "[]" HEAP_SIZE "[]" 32 0] abs
    by (simp add: SIZEOF_BLOCK_def MIN_BLOCK_SIZE_def HEAP_SIZE_def)
  then have "heap_abs ?h' [(32, False), (HEAP_SIZE - 32, True)]"
    using abs by (simp add: heap_abs_def blocks_ok_def block_ok_def SIZEOF_BLOCK_def HEAP_SIZE_def)
  then have "heap_owns ?h' 32 0" by (simp add: heap_owns_iff SIZEOF_BLOCK_def)
  moreover have "kmalloc ?h (2 ^ 64 - 1) = Some (Some 32, ?h')"
    using find abs unfolding kmalloc_def sz
    by (simp add: heap_abs_def Let_def add64_def SIZEOF_BLOCK_def)
  ultimately show ?thesis by blast
qed

end
