(* ===== verification/HashStream.thy ===== *)
theory HashStream
  imports Prelude "HOL-Library.Monad_Syntax"
begin

text \<open>
  What the streaming hash contexts of \<^verbatim>\<open>sha256.c\<close> and \<^verbatim>\<open>sha1.c\<close> have in common: a 64-byte buffer
  filled by \<^verbatim>\<open>update\<close>, a compression of every full buffer, and a \<^verbatim>\<open>final\<close> that pads. The reference
  \<open>md_hash\<close> works on the whole message at once; the locale \<open>md_stream\<close> states what one round of the
  buffer loop does, and shows that any sequence of updates computes the reference.
\<close>

definition be64 :: "u64 \<Rightarrow> bytes" where
  "be64 v = map (\<lambda>i. ucast (drop_bit (i * 8) v)) (rev [0..<8])"

lemma length_be64 [simp]: "length (be64 v) = 8"
  by (simp add: be64_def)

definition be32 :: "u32 \<Rightarrow> bytes" where
  "be32 v = [ucast (drop_bit 24 v), ucast (drop_bit 16 v), ucast (drop_bit 8 v), ucast v]"

definition words_out :: "u32 list \<Rightarrow> bytes" where
  "words_out ws = concat (map be32 ws)"

lemma low_byte: "(ucast (v AND 0xff) :: byte) = ucast (v :: u32)"
proof -
  have "v AND 0xff = take_bit 8 v" by (simp add: take_bit_eq_mask mask_eq_exp_minus_1)
  then show ?thesis by (intro bit_word_eqI) (auto simp: bit_simps)
qed

lemma bytes_be_nat:
  assumes "i + 4 \<le> length p"
  shows "push_bit 24 (ucast (p ! i)) OR push_bit 16 (ucast (p ! (i + 1))) OR
         push_bit 8 (ucast (p ! (i + 2))) OR ucast (p ! (i + 3)) = (of_nat (be_nat (slice i 4 p)) :: u32)" (is "?l = _")
proof -
  have sl: "slice i 4 p = [p ! i, p ! (i + 1), p ! (i + 2), p ! (i + 3)]"
    using assms by (intro nth_equalityI) (auto simp: nth_slice less_Suc_eq eval_nat_numeral)
  let ?a = "ucast (p ! i) :: u32" and ?b = "ucast (p ! (i + 1)) :: u32"
  let ?c = "ucast (p ! (i + 2)) :: u32" and ?d = "ucast (p ! (i + 3)) :: u32"
  have lim: "\<not> bit (ucast (b :: byte) :: u32) n" if "8 \<le> n" for b n
    using that bit_imp_le_length [of b n] by (auto simp: bit_simps)
  have "push_bit 8 ?c OR ?d = push_bit 8 ?c + ?d"
    by (rule disjunctive_add [symmetric]) (use lim in \<open>auto simp: bit_simps not_le\<close>)
  moreover have "push_bit 16 ?b OR (push_bit 8 ?c OR ?d) = push_bit 16 ?b + (push_bit 8 ?c OR ?d)"
    by (rule disjunctive_add [symmetric]) (use lim in \<open>auto simp: bit_simps not_le\<close>)
  moreover have "push_bit 24 ?a OR (push_bit 16 ?b OR (push_bit 8 ?c OR ?d)) =
      push_bit 24 ?a + (push_bit 16 ?b OR (push_bit 8 ?c OR ?d))"
    by (rule disjunctive_add [symmetric]) (use lim in \<open>auto simp: bit_simps not_le\<close>)
  ultimately have "?l = push_bit 24 ?a + (push_bit 16 ?b + (push_bit 8 ?c + ?d))"
    by (simp only: or.assoc)
  also have "\<dots> = of_nat (be_nat (slice i 4 p))"
    by (simp add: sl be_nat_def push_bit_eq_mult unsigned_ucast_eq algebra_simps flip: unsigned_of_nat)
  finally show ?thesis .
qed

lemma blit_take: "i + length ys \<le> length xs \<Longrightarrow> take (i + length ys) (blit i ys xs) = take i xs @ ys"
  by (cases ys) (auto simp: blit_def)

lemma pad_byte: "i < length d \<Longrightarrow> take (Suc i) (d[i := x]) = take i d @ [x]"
  by (simp add: take_Suc_conv_app_nth)

text \<open>The zero-filling loops of both \<^verbatim>\<open>final\<close> functions, up to an index \<open>lim\<close> of the buffer.\<close>

function zero_fill :: "nat \<Rightarrow> bytes \<Rightarrow> nat \<Rightarrow> bytes \<times> nat" where
  "zero_fill lim d n = (if n < lim then zero_fill lim (d[n := 0]) (Suc n) else (d, n))"
  by pat_completeness auto
termination
  by (relation "measure (\<lambda>(lim, _, n). lim - n)") auto

declare zero_fill.simps [simp del]

lemma zero_fill_eq:
  "n \<le> lim \<Longrightarrow> lim \<le> length d \<Longrightarrow>
     zero_fill lim d n = (take n d @ replicate (lim - n) 0 @ drop lim d, lim)"
proof (induction lim d n rule: zero_fill.induct)
  case (1 lim d n)
  show ?case
  proof (cases "n < lim")
    case True
    have "zero_fill lim d n = zero_fill lim (d[n := 0]) (Suc n)" using True by (subst zero_fill.simps) simp
    also have "\<dots> = (take (Suc n) (d[n := 0]) @ replicate (lim - Suc n) 0 @ drop lim (d[n := 0]), lim)"
      using 1 True by simp
    also have "\<dots> = (take n d @ replicate (lim - n) 0 @ drop lim d, lim)"
    proof -
      have "take (Suc n) (d[n := 0]) = take n d @ [0]"
        using True 1(3) by (simp add: take_Suc_conv_app_nth)
      moreover have "replicate (lim - n) 0 = 0 # replicate (lim - Suc n) (0 :: byte)"
        using True by (simp add: Suc_diff_Suc flip: replicate_Suc)
      ultimately show ?thesis using True by simp
    qed
    finally show ?thesis .
  next
    case False
    with 1 show ?thesis by (subst zero_fill.simps) simp
  qed
qed

lemma write_bytes_blit:
  assumes "off + length ys \<le> length d"
  shows "foldl (\<lambda>d j. d[off + j := ys ! j]) d [0..<length ys] = blit off ys d"
proof -
  have "n \<le> length ys \<Longrightarrow> foldl (\<lambda>d j. d[off + j := ys ! j]) d [0..<n] = blit off (take n ys) d" for n
  proof (induction n)
    case (Suc n)
    then have "foldl (\<lambda>d j. d[off + j := ys ! j]) d [0..<Suc n] = (blit off (take n ys) d)[off + n := ys ! n]"
      by simp
    also have "\<dots> = blit off (take (Suc n) ys) d"
      using Suc.prems assms Cons_nth_drop_Suc [of "off + n" d]
      by (simp add: blit_def list_update_append take_Suc_conv_app_nth min_def flip: Cons_nth_drop_Suc)
    finally show ?case .
  qed (simp add: blit_def)
  from this [of "length ys"] show ?thesis by simp
qed

function blocks64 :: "bytes \<Rightarrow> bytes list" where
  "blocks64 xs = (if length xs < 64 then [] else take 64 xs # blocks64 (drop 64 xs))"
  by pat_completeness auto
termination
  by (relation "measure length") auto

declare blocks64.simps [simp del]

definition rest64 :: "bytes \<Rightarrow> bytes" where
  "rest64 xs = drop (64 * (length xs div 64)) xs"

definition md_pad :: "nat \<Rightarrow> bytes" where
  "md_pad n = [0x80] @ replicate ((119 - n mod 64) mod 64) 0 @ be64 (of_nat (8 * n))"

definition md_hash :: "('s \<Rightarrow> bytes \<Rightarrow> 's) \<Rightarrow> 's \<Rightarrow> bytes \<Rightarrow> 's" where
  "md_hash compr iv msg = foldl compr iv (blocks64 (msg @ md_pad (length msg)))"

text \<open>HMAC as RFC 2104 defines it over a hash \<open>H\<close> with 64-byte blocks.\<close>

definition hmac_key :: "(bytes \<Rightarrow> bytes) \<Rightarrow> bytes \<Rightarrow> bytes" where
  "hmac_key H key = (let K = (if 64 < length key then H key else key) in K @ replicate (64 - length K) 0)"

definition hmac_ref :: "(bytes \<Rightarrow> bytes) \<Rightarrow> bytes \<Rightarrow> bytes \<Rightarrow> bytes" where
  "hmac_ref H key msg =
    H (map (\<lambda>b. b XOR 0x5c) (hmac_key H key) @ H (map (\<lambda>b. b XOR 0x36) (hmac_key H key) @ msg))"

lemma blocks64_short: "length xs < 64 \<Longrightarrow> blocks64 xs = []"
  by (subst blocks64.simps) simp

lemma blocks64_block: "length x = 64 \<Longrightarrow> blocks64 (x @ xs) = x # blocks64 xs"
  by (subst blocks64.simps) simp

lemma rest64_short: "length xs < 64 \<Longrightarrow> rest64 xs = xs"
  by (simp add: rest64_def)

lemma rest64_block: "length x = 64 \<Longrightarrow> rest64 (x @ xs) = rest64 xs"
  by (simp add: rest64_def div_add_self1)

lemma length_rest64: "length (rest64 xs) = length xs mod 64"
  by (simp add: rest64_def minus_mult_div_eq_mod)

lemma blocks64_append: "blocks64 (xs @ ys) = blocks64 xs @ blocks64 (rest64 xs @ ys)"
proof (induction xs rule: blocks64.induct)
  case (1 xs)
  show ?case
  proof (cases "length xs < 64")
    case True
    then show ?thesis by (simp add: blocks64_short rest64_short)
  next
    case False
    let ?x = "take 64 xs" and ?y = "drop 64 xs"
    have l: "length ?x = 64" using False by simp
    have xs: "xs = ?x @ ?y" by simp
    have "blocks64 (xs @ ys) = ?x # blocks64 (?y @ ys)"
      by (subst xs) (simp only: append_assoc blocks64_block [OF l])
    also have "\<dots> = ?x # blocks64 ?y @ blocks64 (rest64 ?y @ ys)" using "1.IH" [OF False] by simp
    also have "\<dots> = blocks64 (?x @ ?y) @ blocks64 (rest64 (?x @ ?y) @ ys)"
      by (simp only: blocks64_block [OF l] rest64_block [OF l] append_Cons)
    finally show ?thesis by simp
  qed
qed

lemma rest64_append: "rest64 (rest64 xs @ ys) = rest64 (xs @ ys)"
proof (induction xs rule: blocks64.induct)
  case (1 xs)
  show ?case
  proof (cases "length xs < 64")
    case False
    let ?x = "take 64 xs" and ?y = "drop 64 xs"
    have l: "length ?x = 64" using False by simp
    have "rest64 (rest64 (?x @ ?y) @ ys) = rest64 ((?x @ ?y) @ ys)"
      using "1.IH" [OF False] by (simp only: append_assoc rest64_block [OF l])
    then show ?thesis by simp
  qed (simp add: rest64_short)
qed

lemma length_blocks64: "length (blocks64 xs) = length xs div 64"
proof (induction xs rule: blocks64.induct)
  case (1 xs)
  show ?case
  proof (cases "length xs < 64")
    case False
    then have "length (blocks64 (drop 64 xs)) = (length xs - 64) div 64" using "1.IH" by simp
    with False show ?thesis by (subst blocks64.simps) (simp add: le_div_geq)
  qed (simp add: blocks64_short)
qed

lemma blocks64_length: "b \<in> set (blocks64 xs) \<Longrightarrow> length b = 64"
proof (induction xs rule: blocks64.induct)
  case (1 xs)
  show ?case
  proof (cases "length xs < 64")
    case False
    then have "blocks64 xs = take 64 xs # blocks64 (drop 64 xs)" by (subst blocks64.simps) simp
    with 1 False show ?thesis by auto
  qed (use 1 in \<open>simp add: blocks64_short\<close>)
qed

lemma foldl_last_length:
  "(\<And>s b. length (f s b) = n) \<Longrightarrow> length iv = n \<Longrightarrow> length (foldl f iv bs) = n"
  by (induction bs arbitrary: iv) auto

lemma length_md_hash:
  "(\<And>s b. length (f s b) = n) \<Longrightarrow> length iv = n \<Longrightarrow> length (md_hash f iv m) = n"
  unfolding md_hash_def by (rule foldl_last_length)

lemma length_words_out [simp]: "length (words_out ws) = 4 * length ws"
  by (induction ws) (simp_all add: words_out_def be32_def)

text \<open>Two compression functions that agree on well-formed states and 64-byte blocks give the same hash.\<close>

lemma md_hash_cong:
  assumes "I iv" "\<And>s b. I s \<Longrightarrow> length b = 64 \<Longrightarrow> f s b = g s b \<and> I (f s b)"
  shows "md_hash f iv msg = md_hash g iv msg"
proof -
  have "I s \<Longrightarrow> (\<And>b. b \<in> set bs \<Longrightarrow> length b = 64) \<Longrightarrow> foldl f s bs = foldl g s bs" for s bs
  proof (induction bs arbitrary: s)
    case (Cons b bs)
    have "length b = 64" using Cons.prems(2) by simp
    with Cons.prems(1) assms(2) have "f s b = g s b" "I (f s b)" by blast+
    moreover have "foldl f (f s b) bs = foldl g (f s b) bs"
      using Cons.IH [OF \<open>I (f s b)\<close>] Cons.prems(2) by simp
    ultimately show ?case by simp
  qed simp
  then show ?thesis using assms(1) blocks64_length by (simp add: md_hash_def)
qed

text \<open>A growing message schedule computes the table of its recurrence.\<close>

lemma schedule_table:
  assumes "n0 \<le> n" "\<And>m i. n0 \<le> i \<Longrightarrow> m = map W [0..<i] \<Longrightarrow> step m i = m @ [W i]"
  shows "foldl step (map W [0..<n0]) [n0..<n] = map W [0..<n]"
  using assms(1)
proof (induction n rule: dec_induct)
  case (step i)
  then show ?case using assms(2) by simp
qed simp

locale md_stream =
  fixes compr :: "'s \<Rightarrow> bytes \<Rightarrow> 's"
    and iv :: 's
    and ok :: "'c \<Rightarrow> bool"
    and st :: "'c \<Rightarrow> 's"
    and buf :: "'c \<Rightarrow> bytes"
    and bits :: "'c \<Rightarrow> u64"
    and init :: 'c
    and update :: "'c \<Rightarrow> bytes \<Rightarrow> 'c option"
    and final :: "'c \<Rightarrow> 's"
  assumes init_laws: "ok init" "st init = iv" "buf init = []" "bits init = 0"
    and buf_len: "ok c \<Longrightarrow> length (buf c) < 64"
    and update_Nil: "update c [] = Some c"
    and update_step: "ok c \<Longrightarrow> p \<noteq> [] \<Longrightarrow> \<exists>c'. ok c' \<and>
      update c p = update c' (drop (64 - length (buf c)) p) \<and>
      (let d = buf c @ take (64 - length (buf c)) p in
       if length d = 64 then st c' = compr (st c) d \<and> buf c' = [] \<and> bits c' = bits c + 512
       else st c' = st c \<and> buf c' = d \<and> bits c' = bits c)"
    and final_short: "ok c \<Longrightarrow> length (buf c) < 56 \<Longrightarrow>
      final c = compr (st c) (buf c @ [0x80] @ replicate (55 - length (buf c)) 0 @
                             be64 (bits c + of_nat (length (buf c)) * 8))"
    and final_long: "ok c \<Longrightarrow> 56 \<le> length (buf c) \<Longrightarrow>
      final c = compr (compr (st c) (buf c @ [0x80] @ replicate (63 - length (buf c)) 0))
                     (replicate 56 0 @ be64 (bits c + of_nat (length (buf c)) * 8))"
begin

text \<open>The context after absorbing \<open>p\<close>: the compressed full blocks and the rest in the buffer.\<close>

lemma update_absorbs:
  "ok c \<Longrightarrow> \<exists>c'. update c p = Some c' \<and> ok c' \<and>
     st c' = foldl compr (st c) (blocks64 (buf c @ p)) \<and> buf c' = rest64 (buf c @ p) \<and>
     bits c' = bits c + of_nat (512 * length (blocks64 (buf c @ p)))"
proof (induction "length p" arbitrary: c p rule: less_induct)
  case less
  show ?case
  proof (cases "p = []")
    case True
    then show ?thesis using less.prems buf_len [of c]
      by (simp add: update_Nil blocks64_short rest64_short)
  next
    case False
    let ?n = "64 - length (buf c)" let ?d = "buf c @ take ?n p"
    have n: "0 < ?n" using buf_len [OF less.prems] by simp
    obtain c1 where c1: "ok c1" "update c p = update c1 (drop ?n p)"
      and eff: "if length ?d = 64 then st c1 = compr (st c) ?d \<and> buf c1 = [] \<and> bits c1 = bits c + 512
                else st c1 = st c \<and> buf c1 = ?d \<and> bits c1 = bits c"
      using update_step [OF less.prems False] by (auto simp: Let_def)
    have "0 < length p" using False by simp
    then have "length (drop ?n p) < length p" using n unfolding length_drop by linarith
    from less.hyps [OF this c1(1)] obtain c' where
      c': "update c1 (drop ?n p) = Some c'" "ok c'"
        "st c' = foldl compr (st c1) (blocks64 (buf c1 @ drop ?n p))"
        "buf c' = rest64 (buf c1 @ drop ?n p)"
        "bits c' = bits c1 + of_nat (512 * length (blocks64 (buf c1 @ drop ?n p)))"
      by blast
    have split: "buf c @ p = ?d @ drop ?n p" by simp
    show ?thesis
    proof (cases "length ?d = 64")
      case True
      with eff have e: "st c1 = compr (st c) ?d" "buf c1 = []" "bits c1 = bits c + 512" by auto
      have "blocks64 (buf c @ p) = ?d # blocks64 (drop ?n p)" "rest64 (buf c @ p) = rest64 (drop ?n p)"
        by (subst split, simp only: blocks64_block [OF True] rest64_block [OF True])+
      with c' c1 e show ?thesis by (simp add: algebra_simps)
    next
      case False
      with eff have e: "st c1 = st c" "buf c1 = ?d" "bits c1 = bits c" by auto
      with c' c1 show ?thesis by (simp add: split [symmetric])
    qed
  qed
qed

lemma final_pads:
  assumes "ok c"
  shows "final c = foldl compr (st c)
    (blocks64 (buf c @ [0x80] @ replicate ((119 - length (buf c) mod 64) mod 64) 0 @
               be64 (bits c + of_nat (length (buf c)) * 8)))"
proof (cases "length (buf c) < 56")
  case True
  let ?x = "buf c @ [0x80] @ replicate (55 - length (buf c)) 0 @ be64 (bits c + of_nat (length (buf c)) * 8)"
  have "119 - length (buf c) mod 64 = (55 - length (buf c)) + 64" using True by simp
  then have z: "(119 - length (buf c) mod 64) mod 64 = 55 - length (buf c)"
    using True by (simp only: mod_add_self2) simp
  have "blocks64 (?x @ []) = ?x # blocks64 []"
    using True by (intro blocks64_block) simp
  then have "blocks64 ?x = [?x]" by (simp only: append_Nil2) (simp add: blocks64_short)
  then show ?thesis by (simp only: z final_short [OF assms True] foldl.simps)
next
  case False
  have l: "length (buf c) < 64" by (rule buf_len [OF assms])
  let ?b = "be64 (bits c + of_nat (length (buf c)) * 8)"
  let ?x = "buf c @ [0x80] @ replicate (63 - length (buf c)) 0"
  have z: "(119 - length (buf c) mod 64) mod 64 = (63 - length (buf c)) + 56" using l False by simp
  have "blocks64 (?x @ (replicate 56 0 @ ?b)) = ?x # blocks64 ((replicate 56 0 @ ?b) @ [])"
    using l by (subst blocks64_block) simp_all
  also have "\<dots> = [?x, replicate 56 0 @ ?b]"
    by (subst blocks64_block) (simp_all add: blocks64_short)
  finally have "blocks64 (buf c @ [0x80] @ replicate ((119 - length (buf c) mod 64) mod 64) 0 @ ?b) =
      [?x, replicate 56 0 @ ?b]"
    by (simp only: z replicate_add append_assoc)
  with final_long [OF assms] False show ?thesis by simp
qed

definition absorb_all :: "'c \<Rightarrow> bytes list \<Rightarrow> 'c option" where
  "absorb_all c ps = foldl (\<lambda>r p. r \<bind> (\<lambda>c. update c p)) (Some c) ps"

lemma absorb_all_concat:
  "ok c \<Longrightarrow> \<exists>c'. absorb_all c ps = Some c' \<and> ok c' \<and>
     st c' = foldl compr (st c) (blocks64 (buf c @ concat ps)) \<and> buf c' = rest64 (buf c @ concat ps) \<and>
     bits c' = bits c + of_nat (512 * length (blocks64 (buf c @ concat ps)))"
proof (induction ps arbitrary: c)
  case Nil
  then show ?case using buf_len [of c] by (simp add: absorb_all_def blocks64_short rest64_short)
next
  case (Cons p ps)
  from update_absorbs [OF Cons.prems, of p] obtain c1 where c1: "update c p = Some c1" "ok c1"
    "st c1 = foldl compr (st c) (blocks64 (buf c @ p))" "buf c1 = rest64 (buf c @ p)"
    "bits c1 = bits c + of_nat (512 * length (blocks64 (buf c @ p)))" by blast
  from Cons.IH [OF c1(2)] obtain c' where c': "absorb_all c1 ps = Some c'" "ok c'"
    "st c' = foldl compr (st c1) (blocks64 (buf c1 @ concat ps))" "buf c' = rest64 (buf c1 @ concat ps)"
    "bits c' = bits c1 + of_nat (512 * length (blocks64 (buf c1 @ concat ps)))" by blast
  have b: "blocks64 (buf c @ p @ concat ps) = blocks64 (buf c @ p) @ blocks64 (rest64 (buf c @ p) @ concat ps)"
    using blocks64_append [of "buf c @ p" "concat ps"] by simp
  have r: "rest64 (rest64 (buf c @ p) @ concat ps) = rest64 (buf c @ p @ concat ps)"
    using rest64_append [of "buf c @ p" "concat ps"] by simp
  have "absorb_all c (p # ps) = absorb_all c1 ps" using c1(1) by (simp add: absorb_all_def)
  with c' c1 b r show ?case by (simp add: algebra_simps)
qed

theorem stream_hash:
  "\<exists>c. absorb_all init ps = Some c \<and> final c = md_hash compr iv (concat ps)"
proof -
  let ?m = "concat ps"
  from absorb_all_concat [OF init_laws(1), of ps] obtain c where c: "absorb_all init ps = Some c" "ok c"
    "st c = foldl compr iv (blocks64 ?m)" "buf c = rest64 ?m" "bits c = of_nat (512 * length (blocks64 ?m))"
    using init_laws by auto
  have lb: "length (buf c) = length ?m mod 64" by (simp add: c(4) length_rest64)
  have "length ?m = 64 * length (blocks64 ?m) + length (buf c)"
    by (simp add: lb length_blocks64 del: length_concat)
  then have n: "bits c + of_nat (length (buf c)) * 8 = of_nat (8 * length ?m)"
    by (simp add: c(5) algebra_simps del: length_concat)
  have "final c = foldl compr (st c) (blocks64 (buf c @ md_pad (length ?m)))"
    using final_pads [OF c(2)] n lb by (simp add: md_pad_def del: length_concat)
  also have "\<dots> = md_hash compr iv ?m"
    by (simp add: md_hash_def blocks64_append [of ?m] c(3,4) del: length_concat)
  finally show ?thesis using c(1) by blast
qed

end

end
