(* ===== verification/Sha256.thy ===== *)
theory Sha256
  imports HashStream
begin

text \<open>
  The SHA-256 and HMAC-SHA-256 routines of \<^verbatim>\<open>kernel/lib/sha256.c\<close>. The context is a record with the
  fields of \<^verbatim>\<open>sha256_ctx_t\<close>; \<open>sha256_update\<close> is the buffering loop with its internal jump back, so it
  is a \<^verbatim>\<open>partial_function\<close> whose \<open>None\<close> stands for a loop that never ends (a context whose
  \<open>data_len\<close> is 64 when it is called). The theory interprets \<open>md_stream\<close> on these definitions.
\<close>

section \<open>The code\<close>

definition k :: "u32 list" where
  "k = concat
    [[0x428a2f98, 0x71374491, 0xb5c0fbcf, 0xe9b5dba5],
     [0x3956c25b, 0x59f111f1, 0x923f82a4, 0xab1c5ed5],
     [0xd807aa98, 0x12835b01, 0x243185be, 0x550c7dc3],
     [0x72be5d74, 0x80deb1fe, 0x9bdc06a7, 0xc19bf174],
     [0xe49b69c1, 0xefbe4786, 0x0fc19dc6, 0x240ca1cc],
     [0x2de92c6f, 0x4a7484aa, 0x5cb0a9dc, 0x76f988da],
     [0x983e5152, 0xa831c66d, 0xb00327c8, 0xbf597fc7],
     [0xc6e00bf3, 0xd5a79147, 0x06ca6351, 0x14292967],
     [0x27b70a85, 0x2e1b2138, 0x4d2c6dfc, 0x53380d13],
     [0x650a7354, 0x766a0abb, 0x81c2c92e, 0x92722c85],
     [0xa2bfe8a1, 0xa81a664b, 0xc24b8b70, 0xc76c51a3],
     [0xd192e819, 0xd6990624, 0xf40e3585, 0x106aa070],
     [0x19a4c116, 0x1e376c08, 0x2748774c, 0x34b0bcb5],
     [0x391c0cb3, 0x4ed8aa4a, 0x5b9cca4f, 0x682e6ff3],
     [0x748f82ee, 0x78a5636f, 0x84c87814, 0x8cc70208],
     [0x90befffa, 0xa4506ceb, 0xbef9a3f7, 0xc67178f2]]"

definition rotr :: "u32 \<Rightarrow> nat \<Rightarrow> u32" where
  "rotr x n = drop_bit n x OR push_bit (32 - n) x"

definition read_be32 :: "bytes \<Rightarrow> nat \<Rightarrow> u32" where
  "read_be32 p i = push_bit 24 (ucast (p ! i)) OR push_bit 16 (ucast (p ! (i + 1))) OR
                   push_bit 8 (ucast (p ! (i + 2))) OR ucast (p ! (i + 3))"

definition write_be32 :: "u32 \<Rightarrow> bytes" where
  "write_be32 v = [ucast (drop_bit 24 v), ucast (drop_bit 16 v AND 0xff),
                   ucast (drop_bit 8 v AND 0xff), ucast (v AND 0xff)]"

definition write_be64 :: "nat \<Rightarrow> u64 \<Rightarrow> bytes \<Rightarrow> bytes" where
  "write_be64 off v p = foldl (\<lambda>p i. p[off + (7 - i) := ucast (drop_bit (i * 8) v)]) p (rev [0..<8])"

record sha256_ctx =
  state :: "u32 list"
  bit_len :: u64
  data :: bytes
  data_len :: nat

definition schedule_step :: "u32 list \<Rightarrow> nat \<Rightarrow> u32 list" where
  "schedule_step m i =
    (let s0 = rotr (m ! (i - 15)) 7 XOR rotr (m ! (i - 15)) 18 XOR drop_bit 3 (m ! (i - 15));
         s1 = rotr (m ! (i - 2)) 17 XOR rotr (m ! (i - 2)) 19 XOR drop_bit 10 (m ! (i - 2))
     in m @ [m ! (i - 16) + s0 + m ! (i - 7) + s1])"

definition schedule :: "bytes \<Rightarrow> u32 list" where
  "schedule blk = foldl schedule_step (map (\<lambda>i. read_be32 blk (i * 4)) [0..<16]) [16..<64]"

type_synonym regs = "u32 \<times> u32 \<times> u32 \<times> u32 \<times> u32 \<times> u32 \<times> u32 \<times> u32"

fun sha256_round :: "regs \<Rightarrow> u32 \<times> u32 \<Rightarrow> regs" where
  "sha256_round (a, b, c, d, e, f, g, h) (ki, mi) =
    (let s1 = rotr e 6 XOR rotr e 11 XOR rotr e 25;
         ch = (e AND f) XOR (NOT e AND g);
         temp1 = h + s1 + ch + ki + mi;
         s0 = rotr a 2 XOR rotr a 13 XOR rotr a 22;
         maj = (a AND b) XOR (a AND c) XOR (b AND c);
         temp2 = s0 + maj
     in (temp1 + temp2, a, b, c, d + temp1, e, f, g))"

definition sha256_block :: "u32 list \<Rightarrow> bytes \<Rightarrow> u32 list" where
  "sha256_block st blk =
    (let m = schedule blk;
         (a, b, c, d, e, f, g, h) =
           foldl (\<lambda>r i. sha256_round r (k ! i, m ! i))
             (st ! 0, st ! 1, st ! 2, st ! 3, st ! 4, st ! 5, st ! 6, st ! 7) [0..<64]
     in [st ! 0 + a, st ! 1 + b, st ! 2 + c, st ! 3 + d, st ! 4 + e, st ! 5 + f, st ! 6 + g, st ! 7 + h])"

definition sha256_transform :: "sha256_ctx \<Rightarrow> bytes \<Rightarrow> sha256_ctx" where
  "sha256_transform ctx blk = ctx\<lparr>state := sha256_block (state ctx) blk\<rparr>"

definition sha256_iv :: "u32 list" where
  "sha256_iv = [0x6a09e667, 0xbb67ae85, 0x3c6ef372, 0xa54ff53a, 0x510e527f, 0x9b05688c, 0x1f83d9ab, 0x5be0cd19]"

definition sha256_init :: sha256_ctx where
  "sha256_init = \<lparr>state = sha256_iv, bit_len = 0, data = replicate 64 0, data_len = 0\<rparr>"

partial_function (option) sha256_update :: "sha256_ctx \<Rightarrow> bytes \<Rightarrow> sha256_ctx option" where
  [code]: "sha256_update ctx p =
    (if p = [] then Some ctx
     else let n = min (length p) (64 - data_len ctx);
              ctx = ctx\<lparr>data := blit (data_len ctx) (take n p) (data ctx), data_len := data_len ctx + n\<rparr>;
              ctx = (if data_len ctx = 64
                     then (let ctx = sha256_transform ctx (data ctx)
                           in ctx\<lparr>bit_len := bit_len ctx + 512, data_len := 0\<rparr>)
                     else ctx)
          in sha256_update ctx (drop n p))"

definition sha256_final :: "sha256_ctx \<Rightarrow> bytes \<times> sha256_ctx" where
  "sha256_final ctx =
    (let total_bits = bit_len ctx + of_nat (data_len ctx) * 8;
         ctx = ctx\<lparr>data := (data ctx)[data_len ctx := 0x80], data_len := data_len ctx + 1\<rparr>;
         ctx = (if data_len ctx > 56
                then (let (d, n) = zero_fill 64 (data ctx) (data_len ctx);
                          ctx = sha256_transform (ctx\<lparr>data := d, data_len := n\<rparr>) d
                      in ctx\<lparr>data_len := 0\<rparr>)
                else ctx);
         (d, n) = zero_fill 56 (data ctx) (data_len ctx);
         ctx = ctx\<lparr>data := write_be64 56 total_bits d, data_len := n\<rparr>;
         ctx = sha256_transform ctx (data ctx)
     in (concat (map (\<lambda>i. write_be32 (state ctx ! i)) [0..<8]), ctx))"

definition hex_digits :: string where
  "hex_digits = ''0123456789abcdef''"

definition sha256_hex :: "bytes \<Rightarrow> string" where
  "sha256_hex digest =
    concat (map (\<lambda>i. [hex_digits ! unat (drop_bit 4 (digest ! i)), hex_digits ! unat (digest ! i AND 0x0f)]) [0..<32])
    @ [CHR 0x00]"

definition sha256_buffer :: "bytes \<Rightarrow> bytes option" where
  "sha256_buffer buf = do {
     ctx \<leftarrow> sha256_update sha256_init buf;
     Some (fst (sha256_final ctx))
   }"

definition sha256_buffer_hex :: "bytes \<Rightarrow> string option" where
  "sha256_buffer_hex buf = do {
     digest \<leftarrow> sha256_buffer buf;
     Some (sha256_hex digest)
   }"

definition hmac_sha256 :: "bytes \<Rightarrow> bytes \<Rightarrow> bytes option" where
  "hmac_sha256 key msg = do {
     let key_block = replicate 64 0;
     key_block \<leftarrow>
       (if length key > 64 then do { d \<leftarrow> sha256_buffer key; Some (blit 0 d key_block) }
        else Some (blit 0 key key_block));
     let inner_pad = map (\<lambda>b. b XOR 0x36) key_block;
     let outer_pad = map (\<lambda>b. b XOR 0x5c) key_block;
     ctx \<leftarrow> sha256_update sha256_init inner_pad;
     ctx \<leftarrow> sha256_update ctx msg;
     let inner_digest = fst (sha256_final ctx);
     ctx \<leftarrow> sha256_update sha256_init outer_pad;
     ctx \<leftarrow> sha256_update ctx inner_digest;
     Some (fst (sha256_final ctx))
   }"

section \<open>The context and its interpretation\<close>

definition ctx_ok :: "sha256_ctx \<Rightarrow> bool" where
  "ctx_ok c \<longleftrightarrow> length (data c) = 64 \<and> data_len c < 64"

definition ctx_buf :: "sha256_ctx \<Rightarrow> bytes" where
  "ctx_buf c = take (data_len c) (data c)"

text \<open>The compression function as FIPS 180-4 writes it: big-endian words, rotations, and the
  message schedule as a recurrence on its index.\<close>

fun fips256_W :: "bytes \<Rightarrow> nat \<Rightarrow> u32" where
  "fips256_W blk t =
    (if t < 16 then of_nat (be_nat (slice (4 * t) 4 blk))
     else (let x = fips256_W blk (t - 15); y = fips256_W blk (t - 2)
           in (word_rotr 17 y XOR word_rotr 19 y XOR drop_bit 10 y) + fips256_W blk (t - 7) +
              (word_rotr 7 x XOR word_rotr 18 x XOR drop_bit 3 x) + fips256_W blk (t - 16)))"

declare fips256_W.simps [simp del]

fun fips256_round :: "bytes \<Rightarrow> regs \<Rightarrow> nat \<Rightarrow> regs" where
  "fips256_round blk (a, b, c, d, e, f, g, h) t =
    (let T1 = h + (word_rotr 6 e XOR word_rotr 11 e XOR word_rotr 25 e) +
              ((e AND f) XOR (NOT e AND g)) + k ! t + fips256_W blk t;
         T2 = (word_rotr 2 a XOR word_rotr 13 a XOR word_rotr 22 a) + ((a AND b) XOR (a AND c) XOR (b AND c))
     in (T1 + T2, a, b, c, d + T1, e, f, g))"

definition fips256_block :: "u32 list \<Rightarrow> bytes \<Rightarrow> u32 list" where
  "fips256_block H blk =
    (case foldl (fips256_round blk) (H ! 0, H ! 1, H ! 2, H ! 3, H ! 4, H ! 5, H ! 6, H ! 7) [0..<64] of
      (a, b, c, d, e, f, g, h) \<Rightarrow> map2 (+) H [a, b, c, d, e, f, g, h])"

definition fips256 :: "bytes \<Rightarrow> bytes" where
  "fips256 msg = words_out (md_hash fips256_block sha256_iv msg)"

lemma rotr_word_rotr:
  assumes "0 < n" "n < 32"
  shows "rotr x n = word_rotr n x"
proof (rule bit_word_eqI)
  fix i assume "i < LENGTH(32)"
  then have "i < 32" by simp
  show "bit (rotr x n) i \<longleftrightarrow> bit (word_rotr n x) i"
  proof (cases "i + n < 32")
    case True
    then show ?thesis using \<open>i < 32\<close> by (auto simp: rotr_def bit_simps add.commute)
  next
    case False
    then have "\<not> bit x (n + i)" by (simp add: bit_imp_le_length impossible_bit)
    moreover have "(i + n) mod 32 = i - (32 - n)"
      using False \<open>i < 32\<close> assms by (simp add: mod_if)
    ultimately show ?thesis using \<open>i < 32\<close> False by (auto simp: rotr_def bit_simps)
  qed
qed

lemma read_be32_be_nat: "i + 4 \<le> length p \<Longrightarrow> read_be32 p i = of_nat (be_nat (slice i 4 p))"
  unfolding read_be32_def by (rule bytes_be_nat)

lemma write_be32_bytes: "write_be32 v = be32 v"
  by (simp add: write_be32_def be32_def low_byte)

lemma schedule_fips: "length blk = 64 \<Longrightarrow> schedule blk = map (fips256_W blk) [0..<64]"
proof -
  assume "length blk = 64"
  then have "map (\<lambda>i. read_be32 blk (i * 4)) [0..<16] = map (fips256_W blk) [0..<16]"
    by (simp add: fips256_W.simps read_be32_be_nat mult.commute)
  moreover have "schedule_step (map (fips256_W blk) [0..<i]) i = map (fips256_W blk) [0..<i] @ [fips256_W blk i]"
    if "16 \<le> i" for i
    using that by (simp add: schedule_step_def Let_def rotr_word_rotr fips256_W.simps [of blk i] ac_simps)
  ultimately show ?thesis
    unfolding schedule_def by (simp only:) (rule schedule_table, simp_all)
qed

lemma prod_cases8 [case_names fields]:
  obtains a b c d e f g h where "r = (a, b, c, d, e, f, g, h)"
  by (cases r) auto

lemma sha256_round_fips:
  "length blk = 64 \<Longrightarrow> t < 64 \<Longrightarrow> sha256_round r (k ! t, schedule blk ! t) = fips256_round blk r t"
  by (cases r rule: prod_cases8) (simp add: schedule_fips rotr_word_rotr Let_def ac_simps)

lemma sha256_block_fips:
  assumes "length blk = 64" "length H = 8"
  shows "sha256_block H blk = fips256_block H blk"
proof -
  have "foldl (\<lambda>r i. sha256_round r (k ! i, schedule blk ! i)) r [0..<64] = foldl (fips256_round blk) r [0..<64]" for r
    by (rule foldl_cong) (simp_all add: sha256_round_fips [OF assms(1)])
  moreover have "H = [H ! 0, H ! 1, H ! 2, H ! 3, H ! 4, H ! 5, H ! 6, H ! 7]"
    using assms(2) by (simp add: list_eq_iff_nth_eq less_Suc_eq eval_nat_numeral)
  then have "map2 (+) H ys = map2 (+) [H ! 0, H ! 1, H ! 2, H ! 3, H ! 4, H ! 5, H ! 6, H ! 7] ys" for ys
    by (rule arg_cong)
  ultimately show ?thesis
    by (simp add: sha256_block_def fips256_block_def Let_def split: prod.split)
qed

lemma write_be64_blit: "off + 8 \<le> length p \<Longrightarrow> write_be64 off v p = blit off (be64 v) p"
  using write_bytes_blit [of off "be64 v" p]
  by (simp add: write_be64_def be64_def upt_rec eval_nat_numeral)

lemma length_sha256_block [simp]: "length (sha256_block st blk) = 8"
  by (simp add: sha256_block_def Let_def split: prod.splits)

lemma fips256_block_md: "md_hash fips256_block sha256_iv msg = md_hash sha256_block sha256_iv msg"
  by (rule md_hash_cong [symmetric, where I = "\<lambda>s. length s = 8"])
    (simp_all add: sha256_block_fips sha256_iv_def flip: sha256_block_fips)

lemma length_fips256 [simp]: "length (fips256 msg) = 32"
  unfolding fips256_def fips256_block_md length_words_out
  by (subst length_md_hash [of _ 8]) (simp_all add: sha256_iv_def)

lemma sha256_init_laws:
  "ctx_ok sha256_init" "state sha256_init = sha256_iv" "ctx_buf sha256_init = []" "bit_len sha256_init = 0"
  by (simp_all add: sha256_init_def ctx_ok_def ctx_buf_def)

lemma sha256_update_Nil: "sha256_update c [] = Some c"
  by (subst sha256_update.simps) simp

lemma sha256_update_step:
  assumes ok: "ctx_ok c" and p: "p \<noteq> []"
  shows "\<exists>c'. ctx_ok c' \<and>
      sha256_update c p = sha256_update c' (drop (64 - length (ctx_buf c)) p) \<and>
      (let d = ctx_buf c @ take (64 - length (ctx_buf c)) p in
       if length d = 64 then state c' = sha256_block (state c) d \<and> ctx_buf c' = [] \<and> bit_len c' = bit_len c + 512
       else state c' = state c \<and> ctx_buf c' = d \<and> bit_len c' = bit_len c)"
proof -
  let ?n = "min (length p) (64 - data_len c)"
  let ?c = "c\<lparr>data := blit (data_len c) (take ?n p) (data c), data_len := data_len c + ?n\<rparr>"
  let ?t = "sha256_transform ?c (data ?c)"
  define c' where "c' = (if data_len ?c = 64 then ?t\<lparr>bit_len := bit_len ?t + 512, data_len := 0\<rparr> else ?c)"
  have l: "length (ctx_buf c) = data_len c" "length (data c) = 64" "data_len c < 64"
    using ok by (simp_all add: ctx_buf_def ctx_ok_def)
  have n: "data_len c + length (take ?n p) \<le> length (data c)" using l by simp
  have tk: "take ?n p = take (64 - data_len c) p" "drop ?n p = drop (64 - data_len c) p"
    by (simp_all add: min_def)
  have upd: "sha256_update c p = sha256_update c' (drop (64 - data_len c) p)"
    unfolding c'_def tk(2) [symmetric] by (subst sha256_update.simps) (simp add: p Let_def)
  have pre: "take (data_len c + ?n) (data ?c) = ctx_buf c @ take ?n p"
    using blit_take [OF n] by (simp add: ctx_buf_def)
  have len: "length (data ?c) = 64" using n l by simp
  have full: "data_len c + ?n = 64 \<longleftrightarrow> length (ctx_buf c @ take ?n p) = 64" by (simp add: l)
  show ?thesis
  proof (cases "data_len c + ?n = 64")
    case True
    have "data ?c = ctx_buf c @ take ?n p" using pre len True by simp
    then have "state c' = sha256_block (state c) (ctx_buf c @ take ?n p)" "ctx_buf c' = []"
      "bit_len c' = bit_len c + 512" "ctx_ok c'"
      using True len by (simp_all add: c'_def sha256_transform_def ctx_buf_def ctx_ok_def)
    with upd full True show ?thesis by (auto simp: l tk Let_def)
  next
    case False
    then have "data_len c + ?n < 64" using l by auto
    then have "state c' = state c" "ctx_buf c' = ctx_buf c @ take ?n p" "bit_len c' = bit_len c" "ctx_ok c'"
      using False len pre by (simp_all add: c'_def ctx_buf_def ctx_ok_def)
    with upd full False show ?thesis by (auto simp: l tk Let_def)
  qed
qed

lemma sha256_final_short:
  assumes "ctx_ok c" "length (ctx_buf c) < 56"
  shows "state (snd (sha256_final c)) =
    sha256_block (state c) (ctx_buf c @ [0x80] @ replicate (55 - length (ctx_buf c)) 0 @
      be64 (bit_len c + of_nat (length (ctx_buf c)) * 8))"
proof -
  have l: "length (ctx_buf c) = data_len c" "length (data c) = 64" "data_len c < 56"
    using assms by (simp_all add: ctx_buf_def ctx_ok_def)
  have z: "zero_fill 56 ((data c)[data_len c := 0x80]) (Suc (data_len c)) =
      (ctx_buf c @ [0x80] @ replicate (55 - data_len c) 0 @ drop 56 (data c), 56)"
    using l by (subst zero_fill_eq) (simp_all add: pad_byte ctx_buf_def Suc_le_eq)
  have t: "take (56 - data_len c) (0x80 # replicate (55 - data_len c) 0 @ xs) =
      0x80 # replicate (55 - data_len c) (0 :: byte)" for xs
  proof -
    have "56 - data_len c = Suc (55 - data_len c)" using l by simp
    then show ?thesis by simp
  qed
  show ?thesis using l
    by (simp add: sha256_final_def Let_def z t sha256_transform_def write_be64_blit blit_def)
qed

lemma sha256_final_long:
  assumes "ctx_ok c" "56 \<le> length (ctx_buf c)"
  shows "state (snd (sha256_final c)) =
    sha256_block (sha256_block (state c) (ctx_buf c @ [0x80] @ replicate (63 - length (ctx_buf c)) 0))
      (replicate 56 0 @ be64 (bit_len c + of_nat (length (ctx_buf c)) * 8))"
proof -
  have l: "length (ctx_buf c) = data_len c" "length (data c) = 64" "\<not> data_len c < 56" "data_len c < 64"
    using assms by (simp_all add: ctx_buf_def ctx_ok_def)
  have z: "zero_fill 64 ((data c)[data_len c := 0x80]) (Suc (data_len c)) =
      (ctx_buf c @ [0x80] @ replicate (63 - data_len c) 0, 64)"
    using l by (subst zero_fill_eq) (simp_all add: pad_byte ctx_buf_def Suc_le_eq)
  have len: "length (ctx_buf c @ [0x80] @ replicate (63 - data_len c) 0) = 64" using l by simp
  show ?thesis using l len
    by (simp add: sha256_final_def Let_def z zero_fill_eq sha256_transform_def write_be64_blit blit_def)
qed

interpretation sha2: md_stream sha256_block sha256_iv ctx_ok state ctx_buf bit_len sha256_init sha256_update
  "\<lambda>c. state (snd (sha256_final c))"
  by unfold_locales
    (use sha256_init_laws sha256_update_Nil sha256_update_step sha256_final_short sha256_final_long
     in \<open>auto simp: ctx_buf_def ctx_ok_def\<close>)

lemma sha256_final_digest:
  "length (state (snd (sha256_final c))) = 8 \<and> fst (sha256_final c) = words_out (state (snd (sha256_final c)))"
proof -
  have "concat (map (\<lambda>i. write_be32 (ws ! i)) [0..<8]) = words_out ws" if "length ws = 8" for ws
  proof -
    have "map (\<lambda>i. write_be32 (ws ! i)) [0..<8] = map be32 ws"
      by (rule nth_equalityI) (simp_all add: that write_be32_bytes)
    then show ?thesis by (simp add: words_out_def)
  qed
  then show ?thesis
    by (simp add: sha256_final_def Let_def sha256_transform_def split: prod.splits)
qed

lemma sha256_stream_digest:
  "\<exists>c. foldl (\<lambda>r p. r \<bind> (\<lambda>c. sha256_update c p)) (Some sha256_init) ps = Some c \<and>
       fst (sha256_final c) = fips256 (concat ps)"
proof -
  from sha2.stream_hash [of ps] obtain c where
    "foldl (\<lambda>r p. r \<bind> (\<lambda>c. sha256_update c p)) (Some sha256_init) ps = Some c"
    "state (snd (sha256_final c)) = md_hash sha256_block sha256_iv (concat ps)"
    unfolding sha2.absorb_all_def by blast
  then show ?thesis
    using sha256_final_digest [of c] by (simp add: fips256_def fips256_block_md)
qed

lemma sha256_two_updates:
  "(sha256_update sha256_init x \<bind> (\<lambda>c. sha256_update c y) \<bind> (\<lambda>c. Some (fst (sha256_final c)))) =
     Some (fips256 (x @ y))"
  using sha256_stream_digest [of "[x, y]"] by (auto simp: bind_eq_Some_conv)

lemma sha256_buffer_fips: "sha256_buffer m = Some (fips256 m)"
  using sha256_stream_digest [of "[m]"] by (auto simp: sha256_buffer_def)

definition unhex_digit :: "char \<Rightarrow> nat" where
  "unhex_digit c = (if of_char c \<le> (57 :: nat) then of_char c - 48 else of_char c - 87)"

fun unhex :: "string \<Rightarrow> bytes" where
  "unhex (a # b # s) = of_nat (16 * unhex_digit a + unhex_digit b) # unhex s"
| "unhex _ = []"

lemma unhex_hex_digit: "n < 16 \<Longrightarrow> unhex_digit (hex_digits ! n) = n"
proof -
  have "\<forall>n \<in> set [0..<16]. unhex_digit (hex_digits ! n) = n" by code_simp
  then show "n < 16 \<Longrightarrow> unhex_digit (hex_digits ! n) = n" by simp
qed

lemma nibble_values:
  "unat (drop_bit 4 (b :: byte)) = unat b div 16" "unat (b AND 0x0f) = unat b mod 16"
proof -
  show "unat (drop_bit 4 b) = unat b div 16" by (simp add: drop_bit_eq_div unat_div)
  have "b AND 0x0f = take_bit 4 b" by (simp add: take_bit_eq_mask mask_eq_exp_minus_1)
  then show "unat (b AND 0x0f) = unat b mod 16" by (simp add: take_bit_eq_mod unat_mod)
qed

lemma unhex_pair:
  "of_nat (16 * unhex_digit (hex_digits ! unat (drop_bit 4 b)) + unhex_digit (hex_digits ! unat (b AND 0x0f))) = (b :: byte)"
proof -
  have "unat b div 16 < 16" using unat_byte_less [of b] by (simp only: less_mult_imp_div_less)
  then have "16 * unhex_digit (hex_digits ! unat (drop_bit 4 b)) + unhex_digit (hex_digits ! unat (b AND 0x0f)) = unat b"
    by (simp only: nibble_values unhex_hex_digit mult_div_mod_eq mod_less_divisor zero_less_numeral)
  then show ?thesis by (simp only: of_nat_unat ucast_id)
qed

lemma unhex_pairs:
  "unhex (concat (map (\<lambda>i. [hex_digits ! unat (drop_bit 4 (d ! i)), hex_digits ! unat (d ! i AND 0x0f)]) is)) =
     map (\<lambda>i. d ! i) is"
proof (induction "is")
  case (Cons i "is")
  then show ?case using unhex_pair [of "d ! i"] by (simp only: list.map concat.simps append_Cons append_Nil unhex.simps)
qed simp

section \<open>Properties\<close>

text \<open>C39: However a message is cut into \<^verbatim>\<open>sha256_update\<close> calls, every call returns, and
  \<^verbatim>\<open>sha256_final\<close> writes the digest that FIPS 180-4 defines for the whole message: padded once,
  compressed block by block with the standard's schedule recurrence and rotations.\<close>

theorem sha256_streaming_fips:
  "\<exists>c. foldl (\<lambda>r p. r \<bind> (\<lambda>c. sha256_update c p)) (Some sha256_init) ps = Some c \<and>
       fst (sha256_final c) = fips256 (concat ps)"
  by (rule sha256_stream_digest)

text \<open>\<^verbatim>\<open>hmac_sha256\<close> returns for every key and message, and its digest is the HMAC of RFC 2104 over
  the FIPS 180-4 hash: long keys are hashed first, short ones zero-padded, and the two passes use the
  inner and the outer pad.\<close>

theorem hmac_sha256_rfc2104: "hmac_sha256 key msg = Some (hmac_ref fips256 key msg)"
proof -
  have "hmac_key fips256 key = blit 0 (if 64 < length key then fips256 key else key) (replicate 64 0)"
    by (simp add: hmac_key_def blit_def)
  then show ?thesis
    using sha256_two_updates [of "map (\<lambda>b. b XOR 0x36) (hmac_key fips256 key)" msg]
      sha256_two_updates [of "map (\<lambda>b. b XOR 0x5c) (hmac_key fips256 key)"
        "fips256 (map (\<lambda>b. b XOR 0x36) (hmac_key fips256 key) @ msg)"]
    by (auto simp: hmac_sha256_def hmac_ref_def Let_def sha256_buffer_fips bind_eq_Some_conv split: if_splits)
qed

text \<open>\<^verbatim>\<open>sha256_buffer_hex\<close> returns for every buffer a NUL-terminated string of 65 characters, and reading
  its hexadecimal digits back gives the digest of the buffer.\<close>

theorem sha256_buffer_hex_roundtrip:
  "\<exists>s. sha256_buffer_hex buf = Some (s @ [CHR 0x00]) \<and> length s = 64 \<and> unhex s = fips256 buf"
proof -
  let ?d = "fips256 buf"
  let ?s = "concat (map (\<lambda>i. [hex_digits ! unat (drop_bit 4 (?d ! i)), hex_digits ! unat (?d ! i AND 0x0f)]) [0..<32])"
  have "sha256_buffer_hex buf = Some (?s @ [CHR 0x00])"
    by (simp add: sha256_buffer_hex_def sha256_buffer_fips sha256_hex_def)
  moreover have "length ?s = 64" by (simp add: length_concat comp_def sum_list_triv)
  moreover have "unhex ?s = ?d" unfolding unhex_pairs by (rule nth_equalityI) simp_all
  ultimately show ?thesis by blast
qed

text \<open>The digest of \<^verbatim>\<open>"abc"\<close> given in FIPS 180-4, computed by the model.\<close>

lemma sha256_abc:
  "sha256_buffer [0x61, 0x62, 0x63] = Some
    [0xba, 0x78, 0x16, 0xbf, 0x8f, 0x01, 0xcf, 0xea, 0x41, 0x41, 0x40, 0xde, 0x5d, 0xae, 0x22, 0x23,
     0xb0, 0x03, 0x61, 0xa3, 0x96, 0x17, 0x7a, 0x9c, 0xb4, 0x10, 0xff, 0x61, 0xf2, 0x00, 0x15, 0xad]"
  by code_simp

end
