(* ===== verification/Sha1.thy ===== *)
theory Sha1
  imports HashStream Cstring
begin

text \<open>
  SHA-1, HMAC-SHA1 and PBKDF2-HMAC-SHA1 of \<^verbatim>\<open>kernel/lib/sha1.c\<close>. The context and its operations follow
  \<^verbatim>\<open>sha1_ctx_t\<close> and have the shape of the SHA-256 ones (the theory interprets the same locale
  \<open>md_stream\<close>); \<open>pbkdf2_hmac_sha1\<close> is its outer loop over \<^verbatim>\<open>produced\<close> and \<^verbatim>\<open>block_index\<close> and its inner
  loop over the iterations. A NULL pointer argument is \<open>None\<close>.
\<close>

section \<open>The code\<close>

definition sha1_rol :: "u32 \<Rightarrow> nat \<Rightarrow> u32" where
  "sha1_rol value bits = push_bit bits value OR drop_bit (32 - bits) value"

definition sha1_read_be32 :: "bytes \<Rightarrow> nat \<Rightarrow> u32" where
  "sha1_read_be32 p i = push_bit 24 (ucast (p ! i)) OR push_bit 16 (ucast (p ! (i + 1))) OR
                        push_bit 8 (ucast (p ! (i + 2))) OR ucast (p ! (i + 3))"

definition sha1_write_be32 :: "u32 \<Rightarrow> bytes" where
  "sha1_write_be32 v = [ucast (drop_bit 24 v), ucast (drop_bit 16 v AND 0xff),
                        ucast (drop_bit 8 v AND 0xff), ucast (v AND 0xff)]"

definition sha1_write_be64 :: "nat \<Rightarrow> u64 \<Rightarrow> bytes \<Rightarrow> bytes" where
  "sha1_write_be64 off v p = foldl (\<lambda>p i. p[off + (7 - i) := ucast (drop_bit (i * 8) v)]) p (rev [0..<8])"

record sha1_ctx =
  state :: "u32 list"
  bit_len :: u64
  data :: bytes
  data_len :: nat

definition sha1_expand :: "u32 list \<Rightarrow> nat \<Rightarrow> u32 list" where
  "sha1_expand w i =
    (let x = w ! (i - 3) XOR w ! (i - 8) XOR w ! (i - 14) XOR w ! (i - 16) in w @ [sha1_rol x 1])"

definition sha1_words :: "bytes \<Rightarrow> u32 list" where
  "sha1_words blk = foldl sha1_expand (map (\<lambda>i. sha1_read_be32 blk (i * 4)) [0..<16]) [16..<80]"

type_synonym regs = "u32 \<times> u32 \<times> u32 \<times> u32 \<times> u32"

fun sha1_round :: "u32 list \<Rightarrow> regs \<Rightarrow> nat \<Rightarrow> regs" where
  "sha1_round w (a, b, c, d, e) i =
    (let (f, k) =
       (if i < 20 then ((b AND c) OR (NOT b AND d), 0x5a827999)
        else if i < 40 then (b XOR c XOR d, 0x6ed9eba1)
        else if i < 60 then ((b AND c) OR (b AND d) OR (c AND d), 0x8f1bbcdc)
        else (b XOR c XOR d, 0xca62c1d6));
         temp = sha1_rol a 5 + f + e + k + w ! i
     in (temp, a, sha1_rol b 30, c, d))"

definition sha1_block :: "u32 list \<Rightarrow> bytes \<Rightarrow> u32 list" where
  "sha1_block st blk =
    (let w = sha1_words blk;
         (a, b, c, d, e) = foldl (sha1_round w) (st ! 0, st ! 1, st ! 2, st ! 3, st ! 4) [0..<80]
     in [st ! 0 + a, st ! 1 + b, st ! 2 + c, st ! 3 + d, st ! 4 + e])"

definition sha1_transform :: "sha1_ctx \<Rightarrow> bytes \<Rightarrow> sha1_ctx" where
  "sha1_transform ctx blk = ctx\<lparr>state := sha1_block (state ctx) blk\<rparr>"

definition sha1_iv :: "u32 list" where
  "sha1_iv = [0x67452301, 0xefcdab89, 0x98badcfe, 0x10325476, 0xc3d2e1f0]"

definition sha1_init :: sha1_ctx where
  "sha1_init = \<lparr>state = sha1_iv, bit_len = 0, data = replicate 64 0, data_len = 0\<rparr>"

partial_function (option) sha1_update :: "sha1_ctx \<Rightarrow> bytes \<Rightarrow> sha1_ctx option" where
  [code]: "sha1_update ctx p =
    (if p = [] then Some ctx
     else let n = min (length p) (64 - data_len ctx);
              ctx = ctx\<lparr>data := blit (data_len ctx) (take n p) (data ctx), data_len := data_len ctx + n\<rparr>;
              ctx = (if data_len ctx = 64
                     then (let ctx = sha1_transform ctx (data ctx)
                           in ctx\<lparr>bit_len := bit_len ctx + 512, data_len := 0\<rparr>)
                     else ctx)
          in sha1_update ctx (drop n p))"

definition sha1_final :: "sha1_ctx \<Rightarrow> bytes \<times> sha1_ctx" where
  "sha1_final ctx =
    (let total_bits = bit_len ctx + of_nat (data_len ctx) * 8;
         ctx = ctx\<lparr>data := (data ctx)[data_len ctx := 0x80], data_len := data_len ctx + 1\<rparr>;
         ctx = (if data_len ctx > 56
                then (let (d, n) = zero_fill 64 (data ctx) (data_len ctx);
                          ctx = sha1_transform (ctx\<lparr>data := d, data_len := n\<rparr>) d
                      in ctx\<lparr>data_len := 0\<rparr>)
                else ctx);
         (d, n) = zero_fill 56 (data ctx) (data_len ctx);
         ctx = ctx\<lparr>data := sha1_write_be64 56 total_bits d, data_len := n\<rparr>;
         ctx = sha1_transform ctx (data ctx)
     in (concat (map (\<lambda>i. sha1_write_be32 (state ctx ! i)) [0..<5]), ctx))"

definition hmac_sha1 :: "bytes \<Rightarrow> bytes \<Rightarrow> bytes option" where
  "hmac_sha1 key msg = do {
     let key_block = replicate 64 0;
     key_block \<leftarrow>
       (if length key > 64 then do {
          ctx \<leftarrow> sha1_update sha1_init key;
          let key_digest = fst (sha1_final ctx);
          Some (blit 0 key_digest key_block) }
        else Some (blit 0 key key_block));
     let inner_pad = map (\<lambda>b. b XOR 0x36) key_block;
     let outer_pad = map (\<lambda>b. b XOR 0x5c) key_block;
     ctx \<leftarrow> sha1_update sha1_init inner_pad;
     ctx \<leftarrow> sha1_update ctx msg;
     let inner_digest = fst (sha1_final ctx);
     ctx \<leftarrow> sha1_update sha1_init outer_pad;
     ctx \<leftarrow> sha1_update ctx inner_digest;
     Some (fst (sha1_final ctx))
   }"

text \<open>The loop over \<^verbatim>\<open>i < iterations\<close>, with \<open>u\<close> the last digest and \<open>t\<close> the running exclusive-or.\<close>

fun pbkdf2_iterate :: "bytes \<Rightarrow> nat \<Rightarrow> bytes \<Rightarrow> bytes \<Rightarrow> bytes option" where
  "pbkdf2_iterate password 0 u t = Some t"
| "pbkdf2_iterate password (Suc n) u t = do {
     u \<leftarrow> hmac_sha1 password u;
     pbkdf2_iterate password n u (map2 (XOR) t u)
   }"

function pbkdf2_blocks :: "bytes \<Rightarrow> bytes \<Rightarrow> nat \<Rightarrow> nat \<Rightarrow> u32 \<Rightarrow> nat \<Rightarrow> bytes \<Rightarrow> bytes option" where
  "pbkdf2_blocks password salt iterations out_len block_index produced buf =
    (if produced < out_len then do {
       let salt_block = salt @ sha1_write_be32 block_index;
       u \<leftarrow> hmac_sha1 password salt_block;
       t \<leftarrow> pbkdf2_iterate password (iterations - 1) u u;
       let n = min (out_len - produced) 20;
       pbkdf2_blocks password salt iterations out_len (block_index + 1) (produced + n)
         (blit produced (take n t) buf)
     } else Some buf)"
  by pat_completeness auto
termination
  by (relation "measure (\<lambda>(_, _, _, n, _, p, _). n - p)") auto

declare pbkdf2_blocks.simps [simp del]

definition pbkdf2_hmac_sha1 :: "bytes option \<Rightarrow> bytes option \<Rightarrow> u32 \<Rightarrow> bytes option \<Rightarrow> nat \<Rightarrow> (int \<times> bytes option) option" where
  "pbkdf2_hmac_sha1 password salt iterations buf out_len =
    (case (buf, password, salt) of
       (Some ob, Some pw, Some s) \<Rightarrow>
         if out_len = 0 \<or> iterations = 0 \<or> length s + 4 > 128 then Some (-1, buf)
         else do {
           res \<leftarrow> pbkdf2_blocks pw s (unat iterations) out_len 1 0 ob;
           Some (0, Some res)
         }
     | _ \<Rightarrow> Some (-1, buf))"

section \<open>The context and its interpretation\<close>

definition sha1_ok :: "sha1_ctx \<Rightarrow> bool" where
  "sha1_ok c \<longleftrightarrow> length (data c) = 64 \<and> data_len c < 64"

definition sha1_buf :: "sha1_ctx \<Rightarrow> bytes" where
  "sha1_buf c = take (data_len c) (data c)"

text \<open>The compression function as FIPS 180-4 writes it: big-endian words, rotations, and the
  message schedule as a recurrence on its index.\<close>

fun fips1_W :: "bytes \<Rightarrow> nat \<Rightarrow> u32" where
  "fips1_W blk t =
    (if t < 16 then of_nat (be_nat (slice (4 * t) 4 blk))
     else word_rotl 1 (fips1_W blk (t - 3) XOR fips1_W blk (t - 8) XOR fips1_W blk (t - 14) XOR fips1_W blk (t - 16)))"

declare fips1_W.simps [simp del]

definition fips1_f :: "nat \<Rightarrow> u32 \<Rightarrow> u32 \<Rightarrow> u32 \<Rightarrow> u32" where
  "fips1_f t x y z =
    (if t \<le> 19 then (x AND y) XOR (NOT x AND z)
     else if 40 \<le> t \<and> t \<le> 59 then (x AND y) XOR (x AND z) XOR (y AND z)
     else x XOR y XOR z)"

definition fips1_K :: "nat \<Rightarrow> u32" where
  "fips1_K t = (if t \<le> 19 then 0x5a827999 else if t \<le> 39 then 0x6ed9eba1
                else if t \<le> 59 then 0x8f1bbcdc else 0xca62c1d6)"

fun fips1_round :: "bytes \<Rightarrow> regs \<Rightarrow> nat \<Rightarrow> regs" where
  "fips1_round blk (a, b, c, d, e) t =
    (word_rotl 5 a + fips1_f t b c d + e + fips1_K t + fips1_W blk t, a, word_rotl 30 b, c, d)"

definition fips1_block :: "u32 list \<Rightarrow> bytes \<Rightarrow> u32 list" where
  "fips1_block H blk =
    (case foldl (fips1_round blk) (H ! 0, H ! 1, H ! 2, H ! 3, H ! 4) [0..<80] of
      (a, b, c, d, e) \<Rightarrow> map2 (+) H [a, b, c, d, e])"

definition fips1 :: "bytes \<Rightarrow> bytes" where
  "fips1 msg = words_out (md_hash fips1_block sha1_iv msg)"

lemma sha1_rol_word_rotl:
  assumes "0 < n" "n < 32"
  shows "sha1_rol x n = word_rotl n x"
proof (rule bit_word_eqI)
  fix i assume "i < LENGTH(32)"
  then have "i < 32" by simp
  show "bit (sha1_rol x n) i \<longleftrightarrow> bit (word_rotl n x) i"
  proof (cases "n \<le> i")
    case True
    then have "\<not> bit x (32 - n + i)" by (simp add: bit_imp_le_length impossible_bit)
    moreover have "(i + (32 - n)) mod 32 = i - n"
      using True \<open>i < 32\<close> assms by (simp add: mod_if)
    ultimately show ?thesis using True \<open>i < 32\<close> assms by (auto simp: sha1_rol_def bit_simps)
  next
    case False
    moreover have "(i + (32 - n)) mod 32 = 32 - n + i" using False assms by simp
    ultimately show ?thesis using \<open>i < 32\<close> assms by (simp add: sha1_rol_def bit_simps)
  qed
qed

lemma choose_or_xor: "(b AND c) OR (NOT b AND d) = (b AND c) XOR (NOT b AND d)" for b c d :: u32
  by (rule bit_word_eqI) (auto simp: bit_simps)

lemma majority_or_xor:
  "(b AND c) OR (b AND d) OR (c AND d) = (b AND c) XOR (b AND d) XOR (c AND d)" for b c d :: u32
  by (rule bit_word_eqI) (auto simp: bit_simps)

lemma sha1_read_be32_be_nat: "i + 4 \<le> length p \<Longrightarrow> sha1_read_be32 p i = of_nat (be_nat (slice i 4 p))"
  unfolding sha1_read_be32_def by (rule bytes_be_nat)

lemma sha1_write_be32_bytes: "sha1_write_be32 v = be32 v"
  by (simp add: sha1_write_be32_def be32_def low_byte)

lemma sha1_words_fips: "length blk = 64 \<Longrightarrow> sha1_words blk = map (fips1_W blk) [0..<80]"
proof -
  assume "length blk = 64"
  then have "map (\<lambda>i. sha1_read_be32 blk (i * 4)) [0..<16] = map (fips1_W blk) [0..<16]"
    by (simp add: fips1_W.simps sha1_read_be32_be_nat mult.commute)
  moreover have "sha1_expand (map (fips1_W blk) [0..<i]) i = map (fips1_W blk) [0..<i] @ [fips1_W blk i]"
    if "16 \<le> i" for i
    using that by (simp add: sha1_expand_def Let_def sha1_rol_word_rotl fips1_W.simps [of blk i] ac_simps)
  ultimately show ?thesis
    unfolding sha1_words_def by (simp only:) (rule schedule_table, simp_all)
qed

lemma sha1_round_fips:
  "length blk = 64 \<Longrightarrow> t < 80 \<Longrightarrow> sha1_round (sha1_words blk) r t = fips1_round blk r t"
  by (cases r rule: prod_cases5)
    (simp add: sha1_words_fips sha1_rol_word_rotl Let_def fips1_f_def fips1_K_def choose_or_xor majority_or_xor)

lemma sha1_block_fips:
  assumes "length blk = 64" "length H = 5"
  shows "sha1_block H blk = fips1_block H blk"
proof -
  have "foldl (sha1_round (sha1_words blk)) r [0..<80] = foldl (fips1_round blk) r [0..<80]" for r
    by (rule foldl_cong) (simp_all add: sha1_round_fips [OF assms(1)])
  moreover have "H = [H ! 0, H ! 1, H ! 2, H ! 3, H ! 4]"
    using assms(2) by (simp add: list_eq_iff_nth_eq less_Suc_eq eval_nat_numeral)
  then have "map2 (+) H ys = map2 (+) [H ! 0, H ! 1, H ! 2, H ! 3, H ! 4] ys" for ys
    by (rule arg_cong)
  ultimately show ?thesis
    by (simp add: sha1_block_def fips1_block_def Let_def split: prod.split)
qed

lemma sha1_write_be64_blit: "off + 8 \<le> length p \<Longrightarrow> sha1_write_be64 off v p = blit off (be64 v) p"
  using write_bytes_blit [of off "be64 v" p]
  by (simp add: sha1_write_be64_def be64_def upt_rec eval_nat_numeral)

lemma length_sha1_block [simp]: "length (sha1_block st blk) = 5"
  by (simp add: sha1_block_def Let_def split: prod.splits)

lemma fips1_block_md: "md_hash fips1_block sha1_iv msg = md_hash sha1_block sha1_iv msg"
  by (rule md_hash_cong [symmetric, where I = "\<lambda>s. length s = 5"])
    (simp_all add: sha1_block_fips sha1_iv_def flip: sha1_block_fips)

lemma length_fips1 [simp]: "length (fips1 msg) = 20"
  unfolding fips1_def fips1_block_md length_words_out
  by (subst length_md_hash [of _ 5]) (simp_all add: sha1_iv_def)

lemma sha1_init_laws:
  "sha1_ok sha1_init" "state sha1_init = sha1_iv" "sha1_buf sha1_init = []" "bit_len sha1_init = 0"
  by (simp_all add: sha1_init_def sha1_ok_def sha1_buf_def)

lemma sha1_update_Nil: "sha1_update c [] = Some c"
  by (subst sha1_update.simps) simp

lemma sha1_update_step:
  assumes ok: "sha1_ok c" and p: "p \<noteq> []"
  shows "\<exists>c'. sha1_ok c' \<and>
      sha1_update c p = sha1_update c' (drop (64 - length (sha1_buf c)) p) \<and>
      (let d = sha1_buf c @ take (64 - length (sha1_buf c)) p in
       if length d = 64 then state c' = sha1_block (state c) d \<and> sha1_buf c' = [] \<and> bit_len c' = bit_len c + 512
       else state c' = state c \<and> sha1_buf c' = d \<and> bit_len c' = bit_len c)"
proof -
  let ?n = "min (length p) (64 - data_len c)"
  let ?c = "c\<lparr>data := blit (data_len c) (take ?n p) (data c), data_len := data_len c + ?n\<rparr>"
  let ?t = "sha1_transform ?c (data ?c)"
  define c' where "c' = (if data_len ?c = 64 then ?t\<lparr>bit_len := bit_len ?t + 512, data_len := 0\<rparr> else ?c)"
  have l: "length (sha1_buf c) = data_len c" "length (data c) = 64" "data_len c < 64"
    using ok by (simp_all add: sha1_buf_def sha1_ok_def)
  have n: "data_len c + length (take ?n p) \<le> length (data c)" using l by simp
  have tk: "take ?n p = take (64 - data_len c) p" "drop ?n p = drop (64 - data_len c) p"
    by (simp_all add: min_def)
  have upd: "sha1_update c p = sha1_update c' (drop (64 - data_len c) p)"
    unfolding c'_def tk(2) [symmetric] by (subst sha1_update.simps) (simp add: p Let_def)
  have pre: "take (data_len c + ?n) (data ?c) = sha1_buf c @ take ?n p"
    using blit_take [OF n] by (simp add: sha1_buf_def)
  have len: "length (data ?c) = 64" using n l by simp
  have full: "data_len c + ?n = 64 \<longleftrightarrow> length (sha1_buf c @ take ?n p) = 64" by (simp add: l)
  show ?thesis
  proof (cases "data_len c + ?n = 64")
    case True
    have "data ?c = sha1_buf c @ take ?n p" using pre len True by simp
    then have "state c' = sha1_block (state c) (sha1_buf c @ take ?n p)" "sha1_buf c' = []"
      "bit_len c' = bit_len c + 512" "sha1_ok c'"
      using True len by (simp_all add: c'_def sha1_transform_def sha1_buf_def sha1_ok_def)
    with upd full True show ?thesis by (auto simp: l tk Let_def)
  next
    case False
    then have "data_len c + ?n < 64" using l by auto
    then have "state c' = state c" "sha1_buf c' = sha1_buf c @ take ?n p" "bit_len c' = bit_len c" "sha1_ok c'"
      using False len pre by (simp_all add: c'_def sha1_buf_def sha1_ok_def)
    with upd full False show ?thesis by (auto simp: l tk Let_def)
  qed
qed

lemma sha1_final_short:
  assumes "sha1_ok c" "length (sha1_buf c) < 56"
  shows "state (snd (sha1_final c)) =
    sha1_block (state c) (sha1_buf c @ [0x80] @ replicate (55 - length (sha1_buf c)) 0 @
      be64 (bit_len c + of_nat (length (sha1_buf c)) * 8))"
proof -
  have l: "length (sha1_buf c) = data_len c" "length (data c) = 64" "data_len c < 56"
    using assms by (simp_all add: sha1_buf_def sha1_ok_def)
  have z: "zero_fill 56 ((data c)[data_len c := 0x80]) (Suc (data_len c)) =
      (sha1_buf c @ [0x80] @ replicate (55 - data_len c) 0 @ drop 56 (data c), 56)"
    using l by (subst zero_fill_eq) (simp_all add: pad_byte sha1_buf_def Suc_le_eq)
  have t: "take (56 - data_len c) (0x80 # replicate (55 - data_len c) 0 @ xs) =
      0x80 # replicate (55 - data_len c) (0 :: byte)" for xs
  proof -
    have "56 - data_len c = Suc (55 - data_len c)" using l by simp
    then show ?thesis by simp
  qed
  show ?thesis using l
    by (simp add: sha1_final_def Let_def z t sha1_transform_def sha1_write_be64_blit blit_def)
qed

lemma sha1_final_long:
  assumes "sha1_ok c" "56 \<le> length (sha1_buf c)"
  shows "state (snd (sha1_final c)) =
    sha1_block (sha1_block (state c) (sha1_buf c @ [0x80] @ replicate (63 - length (sha1_buf c)) 0))
      (replicate 56 0 @ be64 (bit_len c + of_nat (length (sha1_buf c)) * 8))"
proof -
  have l: "length (sha1_buf c) = data_len c" "length (data c) = 64" "\<not> data_len c < 56" "data_len c < 64"
    using assms by (simp_all add: sha1_buf_def sha1_ok_def)
  have z: "zero_fill 64 ((data c)[data_len c := 0x80]) (Suc (data_len c)) =
      (sha1_buf c @ [0x80] @ replicate (63 - data_len c) 0, 64)"
    using l by (subst zero_fill_eq) (simp_all add: pad_byte sha1_buf_def Suc_le_eq)
  have len: "length (sha1_buf c @ [0x80] @ replicate (63 - data_len c) 0) = 64" using l by simp
  show ?thesis using l len
    by (simp add: sha1_final_def Let_def z zero_fill_eq sha1_transform_def sha1_write_be64_blit blit_def)
qed

interpretation sha1: md_stream sha1_block sha1_iv sha1_ok state sha1_buf bit_len sha1_init sha1_update
  "\<lambda>c. state (snd (sha1_final c))"
  by unfold_locales
    (use sha1_init_laws sha1_update_Nil sha1_update_step sha1_final_short sha1_final_long
     in \<open>auto simp: sha1_buf_def sha1_ok_def\<close>)

lemma sha1_final_digest:
  "length (state (snd (sha1_final c))) = 5 \<and> fst (sha1_final c) = words_out (state (snd (sha1_final c)))"
proof -
  have "concat (map (\<lambda>i. sha1_write_be32 (ws ! i)) [0..<5]) = words_out ws" if "length ws = 5" for ws
  proof -
    have "map (\<lambda>i. sha1_write_be32 (ws ! i)) [0..<5] = map be32 ws"
      by (rule nth_equalityI) (simp_all add: that sha1_write_be32_bytes)
    then show ?thesis by (simp add: words_out_def)
  qed
  then show ?thesis
    by (simp add: sha1_final_def Let_def sha1_transform_def split: prod.splits)
qed

lemma sha1_stream_digest:
  "\<exists>c. foldl (\<lambda>r p. r \<bind> (\<lambda>c. sha1_update c p)) (Some sha1_init) ps = Some c \<and>
       fst (sha1_final c) = fips1 (concat ps)"
proof -
  from sha1.stream_hash [of ps] obtain c where
    "foldl (\<lambda>r p. r \<bind> (\<lambda>c. sha1_update c p)) (Some sha1_init) ps = Some c"
    "state (snd (sha1_final c)) = md_hash sha1_block sha1_iv (concat ps)"
    unfolding sha1.absorb_all_def by blast
  then show ?thesis
    using sha1_final_digest [of c] by (simp add: fips1_def fips1_block_md)
qed

lemma sha1_two_updates:
  "(sha1_update sha1_init x \<bind> (\<lambda>c. sha1_update c y) \<bind> (\<lambda>c. Some (fst (sha1_final c)))) =
     Some (fips1 (x @ y))"
  using sha1_stream_digest [of "[x, y]"] by (auto simp: bind_eq_Some_conv)

lemma sha1_one_update:
  "(sha1_update sha1_init x \<bind> (\<lambda>c. Some (fst (sha1_final c)))) = Some (fips1 x)"
  using sha1_stream_digest [of "[x]"] by auto

lemma hmac_sha1_ref: "hmac_sha1 key msg = Some (hmac_ref fips1 key msg)"
proof -
  have "hmac_key fips1 key = blit 0 (if 64 < length key then fips1 key else key) (replicate 64 0)"
    by (simp add: hmac_key_def blit_def)
  then show ?thesis
    using sha1_two_updates [of "map (\<lambda>b. b XOR 0x36) (hmac_key fips1 key)" msg]
      sha1_two_updates [of "map (\<lambda>b. b XOR 0x5c) (hmac_key fips1 key)"
        "fips1 (map (\<lambda>b. b XOR 0x36) (hmac_key fips1 key) @ msg)"] sha1_one_update [of key]
    by (auto simp: hmac_sha1_def hmac_ref_def Let_def bind_eq_Some_conv split: if_splits)
qed

section \<open>PBKDF2\<close>

text \<open>RFC 2898: \<open>F\<close> is the exclusive-or of the first \<open>c\<close> iterates of the pseudo-random function, and the
  derived key is the concatenation of the \<open>F\<close> blocks, cut to length.\<close>

fun prf_iter :: "bytes \<Rightarrow> bytes \<Rightarrow> nat \<Rightarrow> bytes" where
  "prf_iter pw s 0 = hmac_ref fips1 pw s"
| "prf_iter pw s (Suc n) = hmac_ref fips1 pw (prf_iter pw s n)"

fun xor_iter :: "bytes \<Rightarrow> bytes \<Rightarrow> nat \<Rightarrow> bytes" where
  "xor_iter pw s 0 = prf_iter pw s 0"
| "xor_iter pw s (Suc n) = map2 (XOR) (xor_iter pw s n) (prf_iter pw s (Suc n))"

definition pbkdf2_F :: "bytes \<Rightarrow> bytes \<Rightarrow> nat \<Rightarrow> nat \<Rightarrow> bytes" where
  "pbkdf2_F pw s c i = xor_iter pw (s @ be32 (of_nat i)) (c - 1)"

definition pbkdf2_ref :: "bytes \<Rightarrow> bytes \<Rightarrow> nat \<Rightarrow> nat \<Rightarrow> bytes" where
  "pbkdf2_ref pw s c n = take n (concat (map (pbkdf2_F pw s c) [1..<n div 20 + 2]))"

lemma length_hmac_fips1 [simp]: "length (hmac_ref fips1 pw s) = 20"
  by (simp add: hmac_ref_def)

lemma length_prf_iter [simp]: "length (prf_iter pw s n) = 20"
  by (cases n) simp_all

lemma length_xor_iter [simp]: "length (xor_iter pw s n) = 20"
  by (induction n) simp_all

lemma pbkdf2_iterate_ref:
  "pbkdf2_iterate pw n (prf_iter pw s j) (xor_iter pw s j) = Some (xor_iter pw s (j + n))"
proof (induction n arbitrary: j)
  case (Suc n)
  show ?case using Suc.IH [of "Suc j"] by (simp add: hmac_sha1_ref)
qed simp

lemma pbkdf2_block_step:
  assumes "produced < n"
  shows "pbkdf2_blocks pw s c n (of_nat i) produced buf =
    pbkdf2_blocks pw s c n (of_nat (Suc i)) (produced + min (n - produced) 20)
      (blit produced (take (min (n - produced) 20) (pbkdf2_F pw s c i)) buf)"
proof -
  have "hmac_sha1 pw (s @ sha1_write_be32 (of_nat i)) = Some (prf_iter pw (s @ be32 (of_nat i)) 0)"
    by (simp add: hmac_sha1_ref sha1_write_be32_bytes)
  moreover have "pbkdf2_iterate pw (c - 1) (prf_iter pw s' 0) (prf_iter pw s' 0) = Some (xor_iter pw s' (c - 1))" for s'
    using pbkdf2_iterate_ref [of pw "c - 1" s' 0] by simp
  ultimately show ?thesis using assms
    by (subst pbkdf2_blocks.simps) (simp add: Let_def pbkdf2_F_def add.commute del: prf_iter.simps)
qed

lemma length_pbkdf2_F [simp]: "length (pbkdf2_F pw s c i) = 20"
  by (simp add: pbkdf2_F_def)

lemma pbkdf2_blocks_ref:
  assumes "n div 20 + 2 = m" "1 \<le> i" "produced = 20 * (i - 1)" "produced < n" "n \<le> length buf"
  shows "pbkdf2_blocks pw s c n (of_nat i) produced buf =
    Some (take produced buf @ take (n - produced) (concat (map (pbkdf2_F pw s c) [i..<m])) @ drop n buf)"
  using assms
proof (induction "n - produced" arbitrary: i produced buf rule: less_induct)
  case less
  let ?F = "pbkdf2_F pw s c" and ?T = "\<lambda>i. concat (map (pbkdf2_F pw s c) [i..<m])"
  have "i - 1 \<le> n div 20" using less.prems(3,4) by (simp add: less_eq_div_iff_mult_less_eq)
  then have "[i..<m] = i # [Suc i..<m]" using less.prems(1) by (intro upt_conv_Cons) linarith
  then have T: "?T i = ?F i @ ?T (Suc i)" by (simp only: list.map concat.simps)
  note step = pbkdf2_block_step [OF less.prems(4), of pw s c i buf]
  show ?case
  proof (cases "n - produced \<le> 20")
    case True
    then have "pbkdf2_blocks pw s c n (of_nat i) produced buf = Some (blit produced (take (n - produced) (?F i)) buf)"
      unfolding step using less.prems by (simp add: min_def) (subst pbkdf2_blocks.simps, simp)
    then show ?thesis using True less.prems by (simp add: T blit_def)
  next
    case False
    let ?b = "blit produced (?F i) buf"
    have "pbkdf2_blocks pw s c n (of_nat i) produced buf = pbkdf2_blocks pw s c n (of_nat (Suc i)) (produced + 20) ?b"
      unfolding step using False by simp
    also have "\<dots> = Some (take (produced + 20) ?b @ take (n - (produced + 20)) (?T (Suc i)) @ drop n ?b)"
      using False less.prems by (intro less.hyps) (auto simp: algebra_simps)
    also have "take (produced + 20) ?b = take produced buf @ ?F i"
      using blit_take [of produced "?F i" buf] False less.prems by simp
    also have "drop n ?b = drop n buf"
      using False less.prems by (simp add: blit_def)
    finally show ?thesis using False by (simp add: T)
  qed
qed

section \<open>Properties\<close>

text \<open>However a message is cut into \<^verbatim>\<open>sha1_update\<close> calls, every call returns, and \<^verbatim>\<open>sha1_final\<close> writes
  the FIPS 180-4 SHA-1 digest of the whole message; \<^verbatim>\<open>hmac_sha1\<close> likewise computes the RFC 2104 HMAC.\<close>

theorem sha1_streaming_fips:
  "(\<exists>c. foldl (\<lambda>r p. r \<bind> (\<lambda>c. sha1_update c p)) (Some sha1_init) ps = Some c \<and>
        fst (sha1_final c) = fips1 (concat ps)) \<and>
   hmac_sha1 key msg = Some (hmac_ref fips1 key msg)"
  by (simp add: sha1_stream_digest hmac_sha1_ref)

text \<open>C40: \<^verbatim>\<open>pbkdf2_hmac_sha1\<close> with valid arguments returns 0 and fills exactly the first \<^verbatim>\<open>out_len\<close> bytes of
  the output buffer with the RFC 2898 derived key: the concatenation of the blocks \<open>F\<close>, each the
  exclusive-or of all iterates of HMAC-SHA1, cut to the requested length.\<close>

theorem pbkdf2_rfc2898:
  assumes "0 < out_len" "out_len \<le> length buf" "iterations \<noteq> 0" "length salt \<le> 124"
  shows "pbkdf2_hmac_sha1 (Some password) (Some salt) iterations (Some buf) out_len =
    Some (0, Some (pbkdf2_ref password salt (unat iterations) out_len @ drop out_len buf))"
  using assms pbkdf2_blocks_ref [OF refl, of 1 0 out_len buf password salt "unat iterations"]
  by (simp add: pbkdf2_hmac_sha1_def pbkdf2_ref_def)

theorem pbkdf2_rfc2898_witness:
  "pbkdf2_hmac_sha1 (Some [0x70]) (Some [0x73]) 3 (Some (replicate 32 0)) 30 =
    Some (0, Some (pbkdf2_ref [0x70] [0x73] 3 30 @ replicate 2 0))"
  using pbkdf2_rfc2898 [of 30 "replicate 32 0" 3 "[0x73]" "[0x70]"] by simp

end
