(* ===== verification/VfsCore.thy ===== *)
theory VfsCore
  imports Kmalloc "HOL-Library.Monad_Syntax"
begin

text \<open>
  The inode table of \<^verbatim>\<open>kernel/fs/vfs.c\<close>: path helpers, lookup, creation, and the removal of an inode by
  moving the last one into its place. C strings are HOL strings without their NUL; \<open>str_cpy\<close> keeps
  what fits in the destination. An index is a \<open>nat\<close>, the index or pointer values \<open>-1\<close> and NULL are \<open>None\<close>,
  and a negative error code is a value of \<open>errno\<close>. File data lives in the kernel heap of \<^verbatim>\<open>kmalloc.c\<close>,
  so the state carries the allocator's state and an inode holds a heap address.
\<close>

section \<open>Data\<close>

datatype errno = ENOENT | EIO | EBADF | ENOMEM | EEXIST | ENOTDIR | EISDIR | EINVAL | ENOSPC | ENAMETOOLONG | ENOTEMPTY

definition MAX_PATH :: nat where "MAX_PATH = 256"
definition MAX_NAME :: nat where "MAX_NAME = 64"
definition MAX_FILES :: nat where "MAX_FILES = 256"
definition MAX_OPEN :: nat where "MAX_OPEN = 32"

record inode =
  node_name :: string
  node_path :: string
  node_type :: int
  node_data :: "nat option"
  node_size :: nat
  node_capacity :: nat
  node_parent :: "nat option"

record file_t =
  file_valid :: bool
  file_inode :: nat
  file_flags :: int
  file_pos :: nat

text \<open>The static variables of \<^verbatim>\<open>vfs.c\<close>, the heap, and the state \<open>'d\<close> of the storage device.\<close>

record 'd vfs =
  inodes :: "inode list"
  inode_count :: nat
  open_files :: "file_t list"
  vfs_initialized :: bool
  persist_ready :: bool
  persist_loading :: bool
  persist_status :: string
  persist_lba :: u64
  persist_data_sectors :: u64
  persist_slots_available :: u32
  persist_sequence :: u32
  persist_last_entry_count :: u32
  persist_last_payload_size :: u32
  persist_last_checksum :: u32
  persist_last_version :: u32
  persist_active_slot :: int
  persist_buf :: mem
  persist_sector :: mem
  heap :: kheap
  dev :: 'd

definition null_inode :: inode where
  "null_inode = \<lparr>node_name = [], node_path = [], node_type = 0, node_data = None, node_size = 0,
                 node_capacity = 0, node_parent = Some 0\<rparr>"

definition null_file :: file_t where
  "null_file = \<lparr>file_valid = False, file_inode = 0, file_flags = 0, file_pos = 0\<rparr>"

definition vfs_boot :: "'d \<Rightarrow> 'd vfs" where
  "vfs_boot d = \<lparr>inodes = replicate MAX_FILES null_inode, inode_count = 0,
     open_files = replicate MAX_OPEN null_file, vfs_initialized = False, persist_ready = False,
     persist_loading = False, persist_status = ''Orizon data persistence not loaded'',
     persist_lba = 1048576, persist_data_sectors = 0, persist_slots_available = 0,
     persist_sequence = 0, persist_last_entry_count = 0, persist_last_payload_size = 0,
     persist_last_checksum = 0, persist_last_version = 0, persist_active_slot = -1,
     persist_buf = (\<lambda>_. 0), persist_sector = (\<lambda>_. 0), heap = kheap_boot, dev = d\<rparr>"

section \<open>Paths\<close>

fun str_eq :: "string \<Rightarrow> string \<Rightarrow> bool" where
  "str_eq (a # as) (b # bs) = (if a \<noteq> b then False else str_eq as bs)"
| "str_eq [] bs = (bs = [])"
| "str_eq as [] = False"

definition str_cpy :: "string \<Rightarrow> nat \<Rightarrow> string" where
  "str_cpy src mx = take (mx - 1) src"

text \<open>The loop that remembers the last slash seen.\<close>

definition last_slash :: "string \<Rightarrow> nat option" where
  "last_slash s = foldl (\<lambda>r i. if s ! i = CHR ''/'' then Some i else r) None [0..<length s]"

definition get_parent_path :: "string \<Rightarrow> string" where
  "get_parent_path path =
    (let parent = str_cpy path MAX_PATH;
         parent = (if length parent > 1 \<and> parent ! (length parent - 1) = CHR ''/''
                   then take (length parent - 1) parent else parent)
     in case last_slash parent of
          None \<Rightarrow> ''/''
        | Some i \<Rightarrow> if i = 0 then ''/'' else take i parent)"

definition get_filename :: "string \<Rightarrow> string" where
  "get_filename path =
    (case last_slash path of
       None \<Rightarrow> str_cpy path MAX_NAME
     | Some i \<Rightarrow> str_cpy (drop (i + 1) path) MAX_NAME)"

definition path_is_inside :: "string \<Rightarrow> string \<Rightarrow> bool" where
  "path_is_inside path pre \<longleftrightarrow>
    (let len = length pre in
     take len path = pre \<and> (length path = len \<or> path ! len = CHR ''/''))"

definition path_should_persist :: "string \<Rightarrow> bool" where
  "path_should_persist path \<longleftrightarrow>
    path_is_inside path ''/workspace'' \<or> path_is_inside path ''/home'' \<or> path_is_inside path ''/system'' \<or>
    path_is_inside path ''/packages'' \<or> path_is_inside path ''/logs''"

definition path_is_persistent_root :: "string \<Rightarrow> bool" where
  "path_is_persistent_root path \<longleftrightarrow>
    str_eq path ''/workspace'' \<or> str_eq path ''/home'' \<or> str_eq path ''/system'' \<or>
    str_eq path ''/packages'' \<or> str_eq path ''/logs''"

text \<open>\<^verbatim>\<open>append_path_component\<close> writes into \<^verbatim>\<open>path\<close> as it goes, so its buffer is returned even on failure.\<close>

definition append_path_component :: "string \<Rightarrow> nat \<Rightarrow> string \<Rightarrow> bool \<times> string" where
  "append_path_component path sz component =
    (if component = [] then (True, path)
     else if length path > 1 \<and> length path + 1 \<ge> sz then (False, path)
     else let path = (if length path > 1 then path @ ''/'' else path)
          in if length path + length component \<ge> sz then (False, path)
             else (True, path @ component))"

section \<open>The inode table\<close>

definition find_inode :: "'d vfs \<Rightarrow> string \<Rightarrow> nat option" where
  "find_inode s path = find (\<lambda>i. str_eq (node_path (inodes s ! i)) path) [0..<inode_count s]"

definition find_child_inode :: "'d vfs \<Rightarrow> nat \<Rightarrow> nat option" where
  "find_child_inode s p = find (\<lambda>i. node_parent (inodes s ! i) = Some p) [0..<inode_count s]"

definition create_inode :: "'d vfs \<Rightarrow> string \<Rightarrow> int \<Rightarrow> (errno + nat) \<times> 'd vfs" where
  "create_inode s path ty =
    (if inode_count s \<ge> MAX_FILES then (Inl ENOSPC, s)
     else if find_inode s path \<noteq> None then (Inl EEXIST, s)
     else let parent = find_inode s (get_parent_path path)
          in if \<not> str_eq path ''/'' \<and> parent = None then (Inl ENOENT, s)
             else let idx = inode_count s;
                      node = \<lparr>node_name = get_filename path, node_path = str_cpy path MAX_PATH,
                              node_type = ty, node_data = None, node_size = 0, node_capacity = 0,
                              node_parent = parent\<rparr>
                  in (Inr idx, s\<lparr>inodes := (inodes s)[idx := node], inode_count := idx + 1\<rparr>))"

text \<open>Freeing the data of an inode and moving the last inode into its place, as \<^verbatim>\<open>delete_inode_index\<close> and
  \<^verbatim>\<open>vfs_delete\<close> both write it. The index may be stale: the count is whatever it is now.\<close>

definition remove_inode :: "'d vfs \<Rightarrow> nat \<Rightarrow> 'd vfs" where
  "remove_inode s idx =
    (let s = s\<lparr>heap := kfree (heap s) (node_data (inodes s ! idx))\<rparr>;
         lst = inode_count s - 1;
         tab = (if idx < lst
                then (let tab = (inodes s)[idx := inodes s ! lst]
                      in map (\<lambda>i. if i < lst \<and> node_parent (tab ! i) = Some lst
                                 then (tab ! i)\<lparr>node_parent := Some idx\<rparr> else tab ! i) [0..<length tab])
                else inodes s)
     in s\<lparr>inodes := tab, inode_count := lst\<rparr>)"

text \<open>The body of \<^verbatim>\<open>delete_inode_index\<close> after its range check: the loop over the children with its recursive
  call, then the removal. It is partial because a cycle of parents would make it run forever.\<close>

partial_function (option) delete_loop :: "'d vfs \<Rightarrow> nat \<Rightarrow> 'd vfs option" where
  [code]: "delete_loop s idx =
    (case find_child_inode s idx of
       None \<Rightarrow> Some (remove_inode s idx)
     | Some child \<Rightarrow> do {
         s \<leftarrow> (if child = 0 \<or> child \<ge> inode_count s then Some s else delete_loop s child);
         delete_loop s idx
       })"

definition delete_inode_index :: "'d vfs \<Rightarrow> nat \<Rightarrow> 'd vfs option" where
  "delete_inode_index s idx = (if idx = 0 \<or> idx \<ge> inode_count s then Some s else delete_loop s idx)"

partial_function (option) clear_loop :: "'d vfs \<Rightarrow> string \<Rightarrow> nat \<Rightarrow> 'd vfs option" where
  [code]: "clear_loop s path root =
    (case find_child_inode s root of
       None \<Rightarrow> Some s
     | Some child \<Rightarrow> do {
         s \<leftarrow> delete_inode_index s child;
         (case find_inode s path of
            None \<Rightarrow> Some s
          | Some root \<Rightarrow> clear_loop s path root)
       })"

definition clear_directory_contents :: "'d vfs \<Rightarrow> string \<Rightarrow> 'd vfs option" where
  "clear_directory_contents s path =
    (case find_inode s path of None \<Rightarrow> Some s | Some root \<Rightarrow> clear_loop s path root)"

lemma dropWhile_component_shorter:
  "c \<in> set p \<Longrightarrow> length (dropWhile (\<lambda>x. x = c) (dropWhile (\<lambda>x. x \<noteq> c) p)) < length p"
proof (induction p)
  case (Cons x p)
  then show ?case by (auto simp: le_imp_less_Suc length_dropWhile_le less_SucI)
qed simp

text \<open>The loop of \<^verbatim>\<open>ensure_parent_dirs\<close>: \<open>p\<close> is the rest of the path, \<open>cur\<close> the prefix built so far.\<close>

function ensure_loop :: "'d vfs \<Rightarrow> string \<Rightarrow> string \<Rightarrow> (errno + unit) \<times> 'd vfs" where
  "ensure_loop s cur p =
    (let comp0 = takeWhile (\<lambda>c. c \<noteq> CHR ''/'') p; rest = dropWhile (\<lambda>c. c \<noteq> CHR ''/'') p
     in if p = [] \<or> rest = [] then (Inr (), s)
        else case append_path_component cur MAX_PATH comp0 of
          (False, _) \<Rightarrow> (Inl ENAMETOOLONG, s)
        | (True, cur) \<Rightarrow>
            (case find_inode s cur of
               Some _ \<Rightarrow> ensure_loop s cur (dropWhile (\<lambda>c. c = CHR ''/'') rest)
             | None \<Rightarrow>
                 (case create_inode s cur 1 of
                    (Inl _, s) \<Rightarrow> (Inl ENOENT, s)
                  | (Inr _, s) \<Rightarrow> ensure_loop s cur (dropWhile (\<lambda>c. c = CHR ''/'') rest))))"
  by pat_completeness auto
termination
  by (relation "measure (\<lambda>(_, _, p). length p)") (auto simp: dropWhile_component_shorter)

declare ensure_loop.simps [simp del]

definition ensure_parent_dirs :: "'d vfs \<Rightarrow> string \<Rightarrow> (errno + unit) \<times> 'd vfs" where
  "ensure_parent_dirs s path =
    (case path of
       [] \<Rightarrow> (Inl EINVAL, s)
     | c # p \<Rightarrow> if c \<noteq> CHR ''/'' then (Inl EINVAL, s) else ensure_loop s ''/'' p)"

section \<open>Lookup\<close>

lemma str_eq_iff [simp, vfs_simps]: "str_eq a b \<longleftrightarrow> a = b"
  by (induction a b rule: str_eq.induct) auto

lemma find_inode_Some:
  "find_inode s p = Some i \<longleftrightarrow>
     i < inode_count s \<and> node_path (inodes s ! i) = p \<and> (\<forall>j<i. node_path (inodes s ! j) \<noteq> p)"
  by (auto simp: find_inode_def find_Some_iff)

lemma find_inode_None:
  "find_inode s p = None \<longleftrightarrow> (\<forall>i<inode_count s. node_path (inodes s ! i) \<noteq> p)"
  by (auto simp: find_inode_def find_None_iff)

lemma find_child_None:
  "find_child_inode s p = None \<longleftrightarrow> (\<forall>i<inode_count s. node_parent (inodes s ! i) \<noteq> Some p)"
  by (auto simp: find_child_inode_def find_None_iff)

lemma find_inode_cong:
  "inode_count s = inode_count t \<Longrightarrow> (\<And>i. i < inode_count s \<Longrightarrow> node_path (inodes s ! i) = node_path (inodes t ! i)) \<Longrightarrow>
     find_inode s = find_inode t"
  unfolding find_inode_def by (rule ext) (rule find_cong, simp_all)

section \<open>The invariant\<close>

text \<open>The table: inode 0 is the root directory and has no parent, every other inode has a parent in the
  table, stored paths fit their buffer, and no two inodes have the same path.\<close>

definition tab_ok :: "'d vfs \<Rightarrow> bool" where
  "tab_ok s \<longleftrightarrow>
     length (inodes s) = MAX_FILES \<and> 0 < inode_count s \<and> inode_count s \<le> MAX_FILES \<and>
     node_path (inodes s ! 0) = ''/'' \<and> node_type (inodes s ! 0) = 1 \<and> node_parent (inodes s ! 0) = None \<and>
     (\<forall>i<inode_count s. 0 < i \<longrightarrow> (\<exists>p<inode_count s. node_parent (inodes s ! i) = Some p)) \<and>
     (\<forall>i<inode_count s. length (node_path (inodes s ! i)) < MAX_PATH) \<and>
     (\<forall>i<inode_count s. \<forall>j<inode_count s. node_path (inodes s ! i) = node_path (inodes s ! j) \<longrightarrow> i = j)"

text \<open>The file data: a well-formed heap, a live allocation of at least \<^verbatim>\<open>capacity\<close> bytes behind every data
  pointer, and no allocation shared by two inodes.\<close>

definition node_ok :: "kheap \<Rightarrow> inode \<Rightarrow> bool" where
  "node_ok h n \<longleftrightarrow> node_size n \<le> node_capacity n \<and> node_capacity n < 2 ^ 62 \<and>
     (case node_data n of
        None \<Rightarrow> node_capacity n = 0
      | Some p \<Rightarrow> \<exists>m\<ge>node_capacity n. heap_owns h p m)"

definition data_ok :: "'d vfs \<Rightarrow> bool" where
  "data_ok s \<longleftrightarrow> heap_ok (heap s) \<and> (\<forall>i<inode_count s. node_ok (heap s) (inodes s ! i)) \<and>
     (\<forall>i<inode_count s. \<forall>j<inode_count s.
        node_data (inodes s ! i) \<noteq> None \<and> node_data (inodes s ! i) = node_data (inodes s ! j) \<longrightarrow> i = j)"

definition vfs_ok :: "'d vfs \<Rightarrow> bool" where
  "vfs_ok s \<longleftrightarrow> tab_ok s \<and> data_ok s"

section \<open>The abstract file system\<close>

text \<open>What the table means: a finite map from paths to directories and file contents.\<close>

datatype anode = ADir | AFile bytes

definition mem_read :: "mem \<Rightarrow> nat \<Rightarrow> nat \<Rightarrow> bytes" where
  "mem_read m a n = map m [a..<a + n]"

definition node_content :: "kheap \<Rightarrow> inode \<Rightarrow> bytes" where
  "node_content h n = (case node_data n of None \<Rightarrow> [] | Some p \<Rightarrow> mem_read (heap_bytes h) p (node_size n))"

definition node_abs :: "kheap \<Rightarrow> inode \<Rightarrow> anode" where
  "node_abs h n = (if node_type n = 1 then ADir else AFile (node_content h n))"

definition fs_abs :: "'d vfs \<Rightarrow> string \<rightharpoonup> anode" where
  "fs_abs s p = map_option (\<lambda>i. node_abs (heap s) (inodes s ! i)) (find_inode s p)"

lemma length_mem_read [simp]: "length (mem_read m a n) = n"
  by (simp add: mem_read_def)

lemma mem_read_cong: "(\<And>i. i < n \<Longrightarrow> m (a + i) = m' (a' + i)) \<Longrightarrow> mem_read m a n = mem_read m' a' n"
  unfolding mem_read_def by (rule nth_equalityI) simp_all

lemma tab_okD:
  assumes "tab_ok s"
  shows tab_ok_len: "length (inodes s) = MAX_FILES"
    and tab_ok_count: "0 < inode_count s" "inode_count s \<le> MAX_FILES"
    and tab_ok_root: "node_path (inodes s ! 0) = ''/''" "node_type (inodes s ! 0) = 1" "node_parent (inodes s ! 0) = None"
    and tab_ok_parent: "i < inode_count s \<Longrightarrow> 0 < i \<Longrightarrow> \<exists>p<inode_count s. node_parent (inodes s ! i) = Some p"
    and tab_ok_path: "i < inode_count s \<Longrightarrow> length (node_path (inodes s ! i)) < MAX_PATH"
    and tab_ok_inj: "i < inode_count s \<Longrightarrow> j < inode_count s \<Longrightarrow>
      node_path (inodes s ! i) = node_path (inodes s ! j) \<Longrightarrow> i = j"
  using assms unfolding tab_ok_def by blast+

lemma find_inode_unique:
  assumes "tab_ok s" "i < inode_count s"
  shows "find_inode s (node_path (inodes s ! i)) = Some i"
  unfolding find_inode_Some
proof (intro conjI allI impI)
  fix j assume "j < i"
  then have "j < inode_count s" "j \<noteq> i" using assms(2) by simp_all
  then show "node_path (inodes s ! j) \<noteq> node_path (inodes s ! i)"
    using tab_ok_inj [OF assms(1) _ assms(2)] by blast
qed (use assms in simp_all)

lemma fs_abs_nth:
  "tab_ok s \<Longrightarrow> i < inode_count s \<Longrightarrow> fs_abs s (node_path (inodes s ! i)) = Some (node_abs (heap s) (inodes s ! i))"
  by (simp add: fs_abs_def find_inode_unique)

lemma fs_abs_Some:
  assumes "tab_ok s"
  shows "fs_abs s p = Some a \<longleftrightarrow>
    (\<exists>i<inode_count s. node_path (inodes s ! i) = p \<and> a = node_abs (heap s) (inodes s ! i))"
proof
  assume "fs_abs s p = Some a"
  then obtain i where "find_inode s p = Some i" "a = node_abs (heap s) (inodes s ! i)"
    by (auto simp: fs_abs_def)
  then show "\<exists>i<inode_count s. node_path (inodes s ! i) = p \<and> a = node_abs (heap s) (inodes s ! i)"
    unfolding find_inode_Some by blast
next
  assume "\<exists>i<inode_count s. node_path (inodes s ! i) = p \<and> a = node_abs (heap s) (inodes s ! i)"
  then show "fs_abs s p = Some a" using fs_abs_nth [OF assms] by blast
qed

text \<open>Two states are the same file system when their nodes correspond.\<close>

lemma fs_abs_eqI:
  assumes "\<And>p a. f p = Some a \<longleftrightarrow> g p = Some a"
  shows "f = (g :: 'a \<rightharpoonup> 'b)"
  by (rule ext) (metis assms option.exhaust)

section \<open>Creation\<close>

lemma data_okD:
  assumes "data_ok s"
  shows data_ok_heap: "heap_ok (heap s)"
    and data_ok_node: "i < inode_count s \<Longrightarrow> node_ok (heap s) (inodes s ! i)"
    and data_ok_inj: "i < inode_count s \<Longrightarrow> j < inode_count s \<Longrightarrow> node_data (inodes s ! i) = Some p \<Longrightarrow>
      node_data (inodes s ! j) = Some p \<Longrightarrow> i = j"
  using assms unfolding data_ok_def by auto

lemma data_okI:
  assumes "heap_ok (heap s)" "\<And>i. i < inode_count s \<Longrightarrow> node_ok (heap s) (inodes s ! i)"
    and inj: "\<And>i j p. i < inode_count s \<Longrightarrow> j < inode_count s \<Longrightarrow> node_data (inodes s ! i) = Some p \<Longrightarrow>
      node_data (inodes s ! j) = Some p \<Longrightarrow> i = j"
  shows "data_ok s"
  unfolding data_ok_def
proof (intro conjI allI impI)
  fix i j
  assume a: "i < inode_count s" "j < inode_count s"
    "node_data (inodes s ! i) \<noteq> None \<and> node_data (inodes s ! i) = node_data (inodes s ! j)"
  then obtain p where "node_data (inodes s ! i) = Some p" by blast
  with a inj show "i = j" by metis
qed (use assms(1,2) in blast)+

lemma create_inode_cases:
  obtains (full) "MAX_FILES \<le> inode_count s" "create_inode s path ty = (Inl ENOSPC, s)"
  | (exists) "find_inode s path \<noteq> None" "create_inode s path ty = (Inl EEXIST, s)"
  | (orphan) "find_inode s (get_parent_path path) = None" "path \<noteq> ''/''" "create_inode s path ty = (Inl ENOENT, s)"
  | (made) node where "inode_count s < MAX_FILES" "find_inode s path = None"
      "path = ''/'' \<or> find_inode s (get_parent_path path) \<noteq> None"
      "node = \<lparr>node_name = get_filename path, node_path = str_cpy path MAX_PATH, node_type = ty, node_data = None,
               node_size = 0, node_capacity = 0, node_parent = find_inode s (get_parent_path path)\<rparr>"
      "create_inode s path ty = (Inr (inode_count s),
         s\<lparr>inodes := (inodes s)[inode_count s := node], inode_count := Suc (inode_count s)\<rparr>)"
  by (cases "MAX_FILES \<le> inode_count s"; cases "find_inode s path"; cases "find_inode s (get_parent_path path)";
      cases "path = ''/''") (auto simp: create_inode_def Let_def)

lemma str_cpy_id: "length p < n \<Longrightarrow> str_cpy p n = p"
  by (simp add: str_cpy_def)

lemma less_Suc_cases: "(\<forall>i<Suc n. P i) \<longleftrightarrow> P n \<and> (\<forall>i<n. P i)"
  by (auto simp: less_Suc_eq)

text \<open>Appending a node under an existing parent keeps the invariant and adds exactly its path.\<close>

lemma append_node_ok:
  assumes ok: "vfs_ok s" and room: "inode_count s < MAX_FILES"
    and new: "find_inode s (node_path node) = None" and par: "find_inode s q = Some pi" "node_parent node = Some pi"
    and node: "length (node_path node) < MAX_PATH" "node_data node = None" "node_size node = 0" "node_capacity node = 0"
    and s': "s' = s\<lparr>inodes := (inodes s)[inode_count s := node], inode_count := Suc (inode_count s)\<rparr>"
  shows "vfs_ok s' \<and> fs_abs s' = (fs_abs s)(node_path node \<mapsto> (if node_type node = 1 then ADir else AFile []))"
proof -
  let ?n = "inode_count s"
  have t: "tab_ok s" and d: "data_ok s" using ok by (simp_all add: vfs_ok_def)
  note tab = tab_okD [OF t] and dat = data_okD [OF d]
  have nth: "inodes s' ! i = (if i = ?n then node else inodes s ! i)" "inode_count s' = Suc ?n"
    "length (inodes s') = length (inodes s)" "heap s' = heap s" for i
    using room tab(1) by (simp_all add: s' nth_list_update)
  have pi: "pi < ?n" using par(1) by (simp add: find_inode_Some)
  have np: "node_path (inodes s ! i) \<noteq> node_path node" if "i < ?n" for i
    using new that by (simp add: find_inode_None)
  have parents: "\<exists>p<Suc ?n. node_parent (inodes s' ! i) = Some p" if "i < Suc ?n" "0 < i" for i
  proof (cases "i = ?n")
    case True
    then show ?thesis using par pi nth(1) less_SucI by auto
  next
    case False
    then show ?thesis using that tab(7) [of i] nth(1) less_SucI by auto
  qed
  have inj: "i = j" if "i < Suc ?n" "j < Suc ?n" "node_path (inodes s' ! i) = node_path (inodes s' ! j)" for i j
    using that np tab(9) [of i j] np [of i] np [of j] by (auto simp: nth(1) less_Suc_eq split: if_splits)
  have t': "tab_ok s'" unfolding tab_ok_def nth(2,3)
  proof (intro conjI allI impI)
    show "length (node_path (inodes s' ! i)) < MAX_PATH" if "i < Suc ?n" for i
      using that node(1) tab(8) [of i] by (auto simp: nth(1) less_Suc_eq)
    show "\<exists>p<Suc ?n. node_parent (inodes s' ! i) = Some p" if "i < Suc ?n" "0 < i" for i
      using that by (rule parents)
    show "i = j" if "i < Suc ?n" "j < Suc ?n" "node_path (inodes s' ! i) = node_path (inodes s' ! j)" for i j
      using that by (rule inj)
  qed (use tab(1,2,4-6) room in \<open>simp_all add: nth(1)\<close>)
  have "data_ok s'"
  proof (rule data_okI, unfold nth(2,4))
    show "node_ok (heap s) (inodes s' ! i)" if "i < Suc ?n" for i
      using that dat(2) [of i] node by (auto simp: nth(1) less_Suc_eq node_ok_def)
    show "i = j" if "i < Suc ?n" "j < Suc ?n" "node_data (inodes s' ! i) = Some p" "node_data (inodes s' ! j) = Some p" for i j p
      using that dat(3) [of i j p] node(2) by (auto simp: nth(1) less_Suc_eq split: if_splits)
  qed (rule dat(1))
  have "fs_abs s' p = Some a \<longleftrightarrow>
      ((fs_abs s)(node_path node \<mapsto> (if node_type node = 1 then ADir else AFile []))) p = Some a" for p a
  proof -
    have E: "(\<exists>i<Suc ?n. P (inodes s' ! i)) \<longleftrightarrow> P node \<or> (\<exists>i<?n. P (inodes s ! i))" for P
      using nth(1) by (metis less_Suc_eq less_irrefl)
    have "node_abs (heap s) node = (if node_type node = 1 then ADir else AFile [])"
      by (simp add: node_abs_def node_content_def node(2))
    then show ?thesis
      unfolding fs_abs_Some [OF t'] nth(2,4) E [of "\<lambda>n. node_path n = p \<and> a = node_abs (heap s) n"]
      using np fs_abs_Some [OF t, of p a] by auto
  qed
  then have "fs_abs s' = (fs_abs s)(node_path node \<mapsto> (if node_type node = 1 then ADir else AFile []))"
    by (rule fs_abs_eqI)
  then show ?thesis using t' \<open>data_ok s'\<close> by (simp add: vfs_ok_def)
qed

lemma create_inode_spec:
  assumes ok: "vfs_ok s" and len: "length path < MAX_PATH"
  shows "case create_inode s path ty of
      (Inr i, s') \<Rightarrow> i = inode_count s \<and> path \<notin> dom (fs_abs s) \<and> get_parent_path path \<in> dom (fs_abs s) \<and>
        vfs_ok s' \<and> fs_abs s' = (fs_abs s)(path \<mapsto> (if ty = 1 then ADir else AFile [])) \<and>
        open_files s' = open_files s \<and> node_path (inodes s' ! i) = path \<and> node_type (inodes s' ! i) = ty \<and>
        inode_count s' = Suc i
    | (Inl e, s') \<Rightarrow> s' = s \<and>
        (e = ENOSPC \<and> inode_count s = MAX_FILES \<or> e = EEXIST \<and> path \<in> dom (fs_abs s) \<or>
         e = ENOENT \<and> get_parent_path path \<notin> dom (fs_abs s))"
proof (cases rule: create_inode_cases [of s path ty])
  case full
  then show ?thesis using ok tab_ok_count(2) by (fastforce simp: vfs_ok_def)
next
  case (made node)
  have t: "tab_ok s" using ok by (simp add: vfs_ok_def)
  have "find_inode s ''/'' = Some 0"
    using find_inode_unique [OF t, of 0] tab_okD(2,4) [OF t] by simp
  with made(2,3) obtain pi where pi: "find_inode s (get_parent_path path) = Some pi" by auto
  have "vfs_ok (s\<lparr>inodes := (inodes s)[inode_count s := node], inode_count := Suc (inode_count s)\<rparr>) \<and>
     fs_abs (s\<lparr>inodes := (inodes s)[inode_count s := node], inode_count := Suc (inode_count s)\<rparr>) =
       (fs_abs s)(node_path node \<mapsto> (if node_type node = 1 then ADir else AFile []))"
    using made(1,2,4) len pi by (intro append_node_ok [OF ok _ _ pi _ _ _ _ _ refl]) (simp_all add: str_cpy_id)
  then show ?thesis using made len pi tab_okD(1) [OF t]
    by (auto simp: fs_abs_def str_cpy_id)
qed (auto simp: fs_abs_def)

section \<open>Removal\<close>

lemma remove_inode_nth:
  assumes "tab_ok s" "idx < inode_count s" "i < inode_count s - 1"
  shows "inodes (remove_inode s idx) ! i =
    (let n = inodes s ! (if i = idx then inode_count s - 1 else i)
     in if idx < inode_count s - 1 \<and> node_parent n = Some (inode_count s - 1) then n\<lparr>node_parent := Some idx\<rparr> else n)"
  using assms tab_okD(1,3) [OF assms(1)] by (auto simp: remove_inode_def Let_def nth_list_update)

lemma remove_inode_sel [simp]:
  "inode_count (remove_inode s idx) = inode_count s - 1" "length (inodes (remove_inode s idx)) = length (inodes s)"
  "heap (remove_inode s idx) = kfree (heap s) (node_data (inodes s ! idx))"
  "open_files (remove_inode s idx) = open_files s"
  by (simp_all add: remove_inode_def Let_def)

text \<open>Freeing one node's data leaves the other nodes' data live and their contents unchanged.\<close>

lemma kfree_node:
  assumes "data_ok s" "idx < inode_count s"
  shows "heap_ok (kfree (heap s) (node_data (inodes s ! idx)))" (is "heap_ok ?h")
    and "j < inode_count s \<Longrightarrow> j \<noteq> idx \<Longrightarrow> node_ok (kfree (heap s) (node_data (inodes s ! idx))) (inodes s ! j)"
    and "heap_bytes (kfree (heap s) (node_data (inodes s ! idx))) = heap_bytes (heap s)"
proof -
  note dat = data_okD [OF assms(1)]
  have "heap_ok ?h \<and> heap_bytes ?h = heap_bytes (heap s) \<and>
    (\<forall>j<inode_count s. j \<noteq> idx \<longrightarrow> node_ok ?h (inodes s ! j))"
  proof (cases "node_data (inodes s ! idx)")
    case None
    then show ?thesis using dat by (simp add: km.release_null)
  next
    case (Some p)
    then obtain m where "heap_owns (heap s) p m"
      using dat(2) [OF assms(2)] by (auto simp: node_ok_def)
    from km.release_live [OF dat(1) this] have k: "heap_ok (kfree (heap s) (Some p))"
      "heap_bytes (kfree (heap s) (Some p)) = heap_bytes (heap s)"
      "\<And>q k. heap_owns (kfree (heap s) (Some p)) q k \<longleftrightarrow> heap_owns (heap s) q k \<and> q \<noteq> p" by auto
    have "node_ok (kfree (heap s) (Some p)) (inodes s ! j)" if "j < inode_count s" "j \<noteq> idx" for j
      using dat(2) [OF that(1)] dat(3) [OF assms(2) that(1) Some] that(2)
      by (auto simp: node_ok_def k(3) split: option.splits)
    then show ?thesis using k Some by simp
  qed
  then show "heap_ok ?h" "j < inode_count s \<Longrightarrow> j \<noteq> idx \<Longrightarrow> node_ok ?h (inodes s ! j)"
    "heap_bytes ?h = heap_bytes (heap s)" by auto
qed

lemma node_abs_bytes: "heap_bytes h = heap_bytes h' \<Longrightarrow> node_abs h n = node_abs h' n"
  by (simp add: node_abs_def node_content_def split: option.splits)

lemma node_parent_irrelevant [simp]:
  "node_ok h (n\<lparr>node_parent := q\<rparr>) = node_ok h n" "node_abs h (n\<lparr>node_parent := q\<rparr>) = node_abs h n"
  by (simp_all add: node_ok_def node_abs_def node_content_def split: option.splits)

lemma remove_inode_ok:
  assumes ok: "vfs_ok s" and idx: "0 < idx" "idx < inode_count s"
    and leaf: "\<And>i. i < inode_count s \<Longrightarrow> node_parent (inodes s ! i) \<noteq> Some idx"
  shows "vfs_ok (remove_inode s idx) \<and> fs_abs (remove_inode s idx) = (fs_abs s)(node_path (inodes s ! idx) := None)"
proof -
  let ?s = "remove_inode s idx" and ?l = "inode_count s - 1"
  have t: "tab_ok s" and d: "data_ok s" using ok by (simp_all add: vfs_ok_def)
  note tab = tab_okD [OF t] and kf = kfree_node [OF d idx(2)]
  define src where "src i = (if i = idx then ?l else i)" for i
  have src: "src i < inode_count s" "src i \<noteq> idx" if "i < ?l" for i using that idx by (auto simp: src_def)
  have src_inj: "src i = src j \<Longrightarrow> i < ?l \<Longrightarrow> j < ?l \<Longrightarrow> i = j" for i j by (auto simp: src_def split: if_splits)
  have nth: "inodes ?s ! i = (if idx < ?l \<and> node_parent (inodes s ! src i) = Some ?l
      then (inodes s ! src i)\<lparr>node_parent := Some idx\<rparr> else inodes s ! src i)" if "i < ?l" for i
    using remove_inode_nth [OF t idx(2) that] by (simp add: src_def Let_def)
  have same: "node_path (inodes ?s ! i) = node_path (inodes s ! src i)" "node_data (inodes ?s ! i) = node_data (inodes s ! src i)"
    "node_ok h (inodes ?s ! i) = node_ok h (inodes s ! src i)" "node_abs h (inodes ?s ! i) = node_abs h (inodes s ! src i)"
    "node_type (inodes ?s ! i) = node_type (inodes s ! src i)" if "i < ?l" for i h
    by (simp_all add: nth [OF that])
  have root: "0 < ?l" "inodes ?s ! 0 = inodes s ! 0" using idx nth [of 0] tab(6) by (auto simp: src_def)
  have par: "\<exists>p<?l. node_parent (inodes ?s ! i) = Some p" if i: "i < ?l" "0 < i" for i
  proof -
    have "0 < src i" using i idx by (simp add: src_def)
    then obtain p where p: "p < inode_count s" "node_parent (inodes s ! src i) = Some p"
      using tab(7) src(1) [OF i(1)] by blast
    moreover have "p \<noteq> idx" using leaf [OF src(1) [OF i(1)]] p(2) by auto
    ultimately show ?thesis using nth [OF i(1)] idx by (cases "p = ?l") auto
  qed
  have t': "tab_ok ?s" unfolding tab_ok_def remove_inode_sel
  proof (intro conjI allI impI)
    show "i = j" if "i < ?l" "j < ?l" "node_path (inodes ?s ! i) = node_path (inodes ?s ! j)" for i j
      using tab(9) [OF src(1) [OF that(1)] src(1) [OF that(2)]] src_inj that by (simp add: same)
    show "\<exists>p<?l. node_parent (inodes ?s ! i) = Some p" if "i < ?l" "0 < i" for i
      using that by (rule par)
    show "length (node_path (inodes ?s ! i)) < MAX_PATH" if "i < ?l" for i
      using tab(8) src [OF that] by (simp add: same [OF that])
  qed (use tab(1,3-6) root in simp_all)
  have d': "data_ok ?s"
  proof (rule data_okI, unfold remove_inode_sel)
    show "node_ok (kfree (heap s) (node_data (inodes s ! idx))) (inodes ?s ! i)" if "i < ?l" for i
      using kf(2) src [OF that] by (simp add: same [OF that])
    show "i = j" if "i < ?l" "j < ?l" "node_data (inodes ?s ! i) = Some p" "node_data (inodes ?s ! j) = Some p" for i j p
      using data_okD(3) [OF d src(1) [OF that(1)] src(1) [OF that(2)]] src_inj that by (simp add: same)
  qed (rule kf(1))
  have "fs_abs ?s p = Some a \<longleftrightarrow> ((fs_abs s)(node_path (inodes s ! idx) := None)) p = Some a" for p a
  proof -
    have "(\<exists>i<?l. node_path (inodes ?s ! i) = p \<and> a = node_abs (heap ?s) (inodes ?s ! i)) \<longleftrightarrow>
      (\<exists>j<inode_count s. j \<noteq> idx \<and> node_path (inodes s ! j) = p \<and> a = node_abs (heap s) (inodes s ! j))"
      (is "?A \<longleftrightarrow> ?B")
    proof
      assume ?A
      then show ?B using src same node_abs_bytes [OF kf(3)] by (metis remove_inode_sel(3))
    next
      assume ?B
      then obtain j where j: "j < inode_count s" "j \<noteq> idx" "node_path (inodes s ! j) = p" "a = node_abs (heap s) (inodes s ! j)" by blast
      define i where "i = (if j = ?l then idx else j)"
      have "i < ?l" "src i = j" using j(1,2) idx by (auto simp: i_def src_def)
      then show ?A using j same node_abs_bytes [OF kf(3)] by (metis remove_inode_sel(3))
    qed
    moreover have "j \<noteq> idx \<longleftrightarrow> node_path (inodes s ! j) \<noteq> node_path (inodes s ! idx)" if "j < inode_count s" for j
      using tab(9) [OF that idx(2)] by blast
    ultimately show ?thesis unfolding fs_abs_Some [OF t'] remove_inode_sel(1)
      using fs_abs_Some [OF t] by auto
  qed
  then have "fs_abs ?s = (fs_abs s)(node_path (inodes s ! idx) := None)" by (rule fs_abs_eqI)
  then show ?thesis using t' d' by (simp add: vfs_ok_def)
qed

section \<open>Replacing the data of a node\<close>

text \<open>Whatever is done to one node's data, in a heap that keeps the others' allocations and contents, changes
  the abstract file system at that node's path only.\<close>

lemma update_node_ok:
  assumes ok: "vfs_ok s" and i: "i < inode_count s"
    and node: "node_path node = node_path (inodes s ! i)" "node_type node = node_type (inodes s ! i)"
      "node_parent node = node_parent (inodes s ! i)"
    and h: "heap_ok h" "node_ok h node"
    and frame: "\<And>j. j < inode_count s \<Longrightarrow> j \<noteq> i \<Longrightarrow>
      node_ok h (inodes s ! j) \<and> node_abs h (inodes s ! j) = node_abs (heap s) (inodes s ! j) \<and>
      (\<forall>p. node_data node = Some p \<longrightarrow> node_data (inodes s ! j) \<noteq> Some p)"
    and s': "inodes s' = (inodes s)[i := node]" "inode_count s' = inode_count s" "heap s' = h"
  shows "vfs_ok s' \<and> fs_abs s' = (fs_abs s)(node_path (inodes s ! i) \<mapsto> node_abs h node)"
proof -
  have t: "tab_ok s" and d: "data_ok s" using ok by (simp_all add: vfs_ok_def)
  note tab = tab_okD [OF t] and dat = data_okD [OF d]
  have nth: "inodes s' ! j = (if j = i then node else inodes s ! j)" for j
    using i tab(1,3) by (simp add: s'(1) nth_list_update)
  have same: "node_path (inodes s' ! j) = node_path (inodes s ! j)" "node_type (inodes s' ! j) = node_type (inodes s ! j)"
    "node_parent (inodes s' ! j) = node_parent (inodes s ! j)" for j
    by (simp_all add: nth node)
  have "length (inodes s') = length (inodes s)" by (simp add: s'(1))
  then have t': "tab_ok s'" using t unfolding tab_ok_def same s'(2) by simp
  have "data_ok s'"
  proof (rule data_okI, unfold s'(2,3))
    show "node_ok h (inodes s' ! j)" if "j < inode_count s" for j
      using frame [OF that] h(2) by (simp add: nth)
    show "j = k" if "j < inode_count s" "k < inode_count s" "node_data (inodes s' ! j) = Some p" "node_data (inodes s' ! k) = Some p" for j k p
      using that frame [of j] frame [of k] dat(3) [of j k p] by (auto simp: nth split: if_splits)
  qed (rule h(1))
  moreover have "find_inode s' = find_inode s"
    by (rule find_inode_cong) (simp_all add: s'(2) same)
  then have "fs_abs s' p = ((fs_abs s)(node_path (inodes s ! i) \<mapsto> node_abs h node)) p" for p
  proof (cases "p = node_path (inodes s ! i)")
    case True
    then show ?thesis using fs_abs_nth [OF t', of i] i by (simp add: s'(2,3) nth node(1))
  next
    case False
    have "map_option (\<lambda>j. node_abs (heap s') (inodes s' ! j)) (find_inode s p) =
        map_option (\<lambda>j. node_abs (heap s) (inodes s ! j)) (find_inode s p)"
    proof (cases "find_inode s p")
      case (Some j)
      then have "j < inode_count s" "j \<noteq> i" using False by (auto simp: find_inode_Some)
      then show ?thesis using Some frame [of j] by (simp add: nth s'(3))
    qed simp
    then show ?thesis using False by (simp add: fs_abs_def \<open>find_inode s' = find_inode s\<close>)
  qed
  ultimately show ?thesis using t' by (auto simp: vfs_ok_def)
qed

end
