(* ===== verification/VfsPersist.thy ===== *)
theory VfsPersist
  imports VfsCore "HOL-Library.Product_Lexorder"
begin

text \<open>
  The snapshot format of \<^verbatim>\<open>kernel/fs/vfs.c\<close> and its slots on disk: the scan of the partition table, the
  header and entry encoding, the checksum, slot selection and \<^verbatim>\<open>vfs_persist_save\<close>.

  The storage driver talks to hardware and is a parameter: a record of the three calls the file system
  makes, over an arbitrary device state. A read that returns \<open>None\<close> is a negative return code. What
  the driver promises is stated by \<open>sector_device\<close>, a hypothesis of the theorems that need it.

  Operations that format text run \<^verbatim>\<open>snprintf\<close>, whose model is partial, so they return an option;
  \<open>None\<close> never arises, and the totality lemmas say so.
\<close>

section \<open>The storage driver\<close>

record 'd storage =
  storage_available :: "'d \<Rightarrow> bool"
  storage_read :: "'d \<Rightarrow> u64 \<Rightarrow> nat \<Rightarrow> bytes option \<times> 'd"
  storage_write :: "'d \<Rightarrow> u64 \<Rightarrow> bytes \<Rightarrow> bool \<times> 'd"

section \<open>Constants and metadata\<close>

definition PERSIST_MAGIC :: bytes where "PERSIST_MAGIC = map of_char ''ORZPFS1''"
definition PERSIST_VERSION :: u32 where "PERSIST_VERSION = 2"
definition PERSIST_LEGACY_VERSION :: u32 where "PERSIST_LEGACY_VERSION = 1"
definition SECTOR_SIZE :: nat where "SECTOR_SIZE = 512"
definition PERSIST_BYTES :: nat where "PERSIST_BYTES = 1024 * 1024"
definition PERSIST_SECTORS :: nat where "PERSIST_SECTORS = 2048"
definition PERSIST_SLOT_COUNT :: u32 where "PERSIST_SLOT_COUNT = 2"
definition PERSIST_HEADER_SIZE :: nat where "PERSIST_HEADER_SIZE = SECTOR_SIZE"
definition PERSIST_IO_MAX_SECTORS :: nat where "PERSIST_IO_MAX_SECTORS = 1"
definition PERSIST_SEQUENCE_OFFSET :: nat where "PERSIST_SEQUENCE_OFFSET = 24"

record persist_meta =
  meta_valid :: bool
  meta_version :: u32
  meta_entry_count :: u32
  meta_payload_size :: u32
  meta_checksum :: u32
  meta_sequence :: u32
  meta_slot :: u32

definition meta_zero :: persist_meta where
  "meta_zero = \<lparr>meta_valid = False, meta_version = 0, meta_entry_count = 0, meta_payload_size = 0,
                meta_checksum = 0, meta_sequence = 0, meta_slot = 0\<rparr>"

section \<open>Byte access\<close>

definition mem_write :: "mem \<Rightarrow> nat \<Rightarrow> bytes \<Rightarrow> mem" where
  "mem_write m a bs = (\<lambda>x. if a \<le> x \<and> x < a + length bs then bs ! (x - a) else m x)"

definition persist_get_u32 :: "mem \<Rightarrow> nat \<Rightarrow> u32" where
  "persist_get_u32 m p = ucast (m p) OR push_bit 8 (ucast (m (p + 1))) OR
     push_bit 16 (ucast (m (p + 2))) OR push_bit 24 (ucast (m (p + 3)))"

definition persist_get_u64 :: "mem \<Rightarrow> nat \<Rightarrow> u64" where
  "persist_get_u64 m p = ucast (persist_get_u32 m p) OR push_bit 32 (ucast (persist_get_u32 m (p + 4)))"

definition put_u16 :: "mem \<Rightarrow> nat \<Rightarrow> u16 \<Rightarrow> mem" where
  "put_u16 m p v = m(p := ucast v, p + 1 := ucast (drop_bit 8 v))"

definition put_u32 :: "mem \<Rightarrow> nat \<Rightarrow> u32 \<Rightarrow> mem" where
  "put_u32 m p v = m(p := ucast v, p + 1 := ucast (drop_bit 8 v), p + 2 := ucast (drop_bit 16 v),
                     p + 3 := ucast (drop_bit 24 v))"

definition get_u16 :: "mem \<Rightarrow> nat \<Rightarrow> u16" where
  "get_u16 m p = ucast (m p) OR push_bit 8 (ucast (m (p + 1)))"

definition get_u32 :: "mem \<Rightarrow> nat \<Rightarrow> u32" where
  "get_u32 m p = ucast (m p) OR push_bit 8 (ucast (m (p + 1))) OR
     push_bit 16 (ucast (m (p + 2))) OR push_bit 24 (ucast (m (p + 3)))"

definition checksum_step :: "u32 \<Rightarrow> byte \<Rightarrow> u32" where
  "checksum_step acc b = (let acc = push_bit 5 acc OR drop_bit 27 acc in acc + ucast b)"

definition persist_checksum :: "mem \<Rightarrow> nat \<Rightarrow> nat \<Rightarrow> u32" where
  "persist_checksum m p n = foldl (\<lambda>acc i. checksum_step acc (m (p + i))) 0 [0..<n]"

section \<open>The partition table\<close>

definition lower_byte :: "byte \<Rightarrow> byte" where
  "lower_byte ch = (if of_char CHR ''A'' \<le> ch \<and> ch \<le> of_char CHR ''Z''
                    then ch - of_char CHR ''A'' + of_char CHR ''a'' else ch)"

definition gpt_data_name :: bytes where
  "gpt_data_name = map of_char ''orizon-data''"

definition persist_gpt_name_is_orizon_data :: "mem \<Rightarrow> nat \<Rightarrow> bool" where
  "persist_gpt_name_is_orizon_data m entry \<longleftrightarrow>
     list_all (\<lambda>i. m (entry + 56 + i * 2 + 1) = 0 \<and> lower_byte (m (entry + 56 + i * 2)) = gpt_data_name ! i) [0..<11] \<and>
     m (entry + 56 + 11 * 2) = 0 \<and> m (entry + 56 + 11 * 2 + 1) = 0"

definition gpt_data_type :: bytes where
  "gpt_data_type = [0x4f, 0x52, 0x5a, 0x44, 0x41, 0x54, 0x41, 0x00, 0x9a, 0x3d, 0x20, 0x26, 0x05, 0x11, 0x00, 0x01]"

text \<open>One call of \<^verbatim>\<open>storage_read\<close> into \<^verbatim>\<open>persist_sector\<close>; \<open>False\<close> is the error return.\<close>

definition read_sector :: "'d storage \<Rightarrow> 'd vfs \<Rightarrow> u64 \<Rightarrow> bool \<times> 'd vfs" where
  "read_sector st s lba =
    (case storage_read st (dev s) lba 1 of
       (None, d) \<Rightarrow> (False, s\<lparr>dev := d\<rparr>)
     | (Some bs, d) \<Rightarrow> (True, s\<lparr>dev := d, persist_sector := mem_write (persist_sector s) 0 bs\<rparr>))"

text \<open>The test of one entry: its first sector and its size, when it is an Orizon data partition with room for a
  slot. Every other entry makes the loop continue.\<close>

definition entry_partition :: "mem \<Rightarrow> nat \<Rightarrow> (u64 \<times> u64) option" where
  "entry_partition m entry =
    (if mem_read m entry 16 = gpt_data_type \<or> persist_gpt_name_is_orizon_data m entry then
       (let first_lba = persist_get_u64 m (entry + 32); last_lba = persist_get_u64 m (entry + 40) in
        if first_lba \<ge> 34 \<and> last_lba \<ge> first_lba then
          (let sectors = last_lba - first_lba + 1 in
           if sectors < of_nat PERSIST_SECTORS then None else Some (first_lba, sectors))
        else None)
     else None)"

definition slots_for :: "u64 \<Rightarrow> u32" where
  "slots_for sectors =
    (if sectors \<ge> of_nat PERSIST_SECTORS * ucast PERSIST_SLOT_COUNT then PERSIST_SLOT_COUNT else 1)"

function scan_partitions :: "'d storage \<Rightarrow> u64 \<Rightarrow> nat \<Rightarrow> nat \<Rightarrow> 'd vfs \<Rightarrow> bool \<times> 'd vfs" where
  "scan_partitions st entries_lba scan_count i s =
    (if i < scan_count then
       (case read_sector st s (entries_lba + of_nat (i * 128 div SECTOR_SIZE)) of
          (False, s) \<Rightarrow> (False, s)
        | (True, s) \<Rightarrow>
            (case entry_partition (persist_sector s) (i * 128 mod SECTOR_SIZE) of
               Some (first_lba, sectors) \<Rightarrow>
                 (True, s\<lparr>persist_lba := first_lba, persist_data_sectors := sectors,
                          persist_slots_available := slots_for sectors\<rparr>)
             | None \<Rightarrow> scan_partitions st entries_lba scan_count (Suc i) s))
     else (False, s))"
  by pat_completeness auto
termination
  by (relation "measure (\<lambda>(_, _, n, i, _). n - i)") auto

declare scan_partitions.simps [simp del]

definition persist_orizon_data_partition_present :: "'d storage \<Rightarrow> 'd vfs \<Rightarrow> bool \<times> 'd vfs" where
  "persist_orizon_data_partition_present st s =
    (let s = s\<lparr>persist_slots_available := 0, persist_data_sectors := 0\<rparr> in
     if \<not> storage_available st (dev s) then (False, s)
     else case read_sector st s 1 of
       (False, s) \<Rightarrow> (False, s)
     | (True, s) \<Rightarrow>
         if mem_read (persist_sector s) 0 8 \<noteq> map of_char ''EFI PART'' then (False, s)
         else let entries_lba = persist_get_u64 (persist_sector s) 72;
                  entry_count = persist_get_u32 (persist_sector s) 80;
                  entry_size = persist_get_u32 (persist_sector s) 84
              in if entries_lba = 0 \<or> entry_size \<noteq> 128 \<or> entry_count = 0 then (False, s)
                 else scan_partitions st entries_lba (if entry_count < 128 then unat entry_count else 128) 0 s)"

section \<open>Status text\<close>

definition persist_set_status :: "'d vfs \<Rightarrow> string option \<Rightarrow> 'd vfs option" where
  "persist_set_status s status = do {
     let status = (case status of None \<Rightarrow> ''Orizon data persistence status unavailable'' | Some t \<Rightarrow> t);
     buf \<leftarrow> snprintf 192 ''%s'' [VPtr (Some status)];
     Some (s\<lparr>persist_status := buf\<rparr>)
   }"

definition persist_format_status_active :: "'d vfs \<Rightarrow> 'd vfs option" where
  "persist_format_status_active s = do {
     status \<leftarrow> snprintf 192
       ''Orizon data persistence active at LBA %lu slot=%d/%lu seq=%lu entries=%lu bytes=%lu''
       [VLong (persist_lba s), VInt (word_of_int (persist_active_slot s)),
        VLong (ucast (persist_slots_available s)), VLong (ucast (persist_sequence s)),
        VLong (ucast (persist_last_entry_count s)), VLong (ucast (persist_last_payload_size s))];
     persist_set_status s (Some status)
   }"

definition persist_format_status_initialized :: "'d vfs \<Rightarrow> 'd vfs option" where
  "persist_format_status_initialized s = do {
     status \<leftarrow> snprintf 160 ''Orizon data persistence initialized at LBA %lu slots=%lu''
       [VLong (persist_lba s), VLong (ucast (persist_slots_available s))];
     persist_set_status s (Some status)
   }"

definition persist_append_text :: "string \<Rightarrow> nat \<Rightarrow> string \<Rightarrow> string" where
  "persist_append_text out out_size text =
    (if length out \<ge> out_size then out
     else let len = (if length out + length text \<ge> out_size then out_size - length out - 1 else length text)
          in out @ take len text)"

section \<open>Snapshots\<close>

definition persist_slot_lba :: "'d vfs \<Rightarrow> u32 \<Rightarrow> u64" where
  "persist_slot_lba s slot = persist_lba s + ucast slot * of_nat PERSIST_SECTORS"

definition persist_snapshot_validate :: "mem \<Rightarrow> u32 \<Rightarrow> persist_meta option" where
  "persist_snapshot_validate buf slot =
    (if mem_read buf 0 7 \<noteq> PERSIST_MAGIC then None
     else let version = get_u32 buf 8 in
       if version \<noteq> PERSIST_VERSION \<and> version \<noteq> PERSIST_LEGACY_VERSION then None
       else let entry_count = get_u32 buf 12; payload_size = get_u32 buf 16; checksum = get_u32 buf 20 in
         if unat entry_count > MAX_FILES \<or> unat payload_size > PERSIST_BYTES - PERSIST_HEADER_SIZE then None
         else if checksum \<noteq> persist_checksum buf PERSIST_HEADER_SIZE (unat payload_size) then None
         else Some \<lparr>meta_valid = True, meta_version = version, meta_entry_count = entry_count,
                    meta_payload_size = payload_size, meta_checksum = checksum,
                    meta_sequence = (if version \<ge> PERSIST_VERSION then get_u32 buf PERSIST_SEQUENCE_OFFSET else 0),
                    meta_slot = slot\<rparr>)"

definition persist_snapshot_is_newer :: "persist_meta \<Rightarrow> persist_meta \<Rightarrow> bool" where
  "persist_snapshot_is_newer candidate best =
    (if \<not> meta_valid candidate then False
     else if \<not> meta_valid best then True
     else if meta_version candidate \<noteq> meta_version best then meta_version candidate > meta_version best
     else if meta_sequence candidate \<noteq> meta_sequence best then meta_sequence candidate > meta_sequence best
     else meta_slot candidate < meta_slot best)"

text \<open>\<open>None\<close> is the error return: an empty or oversized path, or no room left in the buffer.\<close>

definition persist_append_entry :: "kheap \<Rightarrow> mem \<Rightarrow> nat \<Rightarrow> u32 \<Rightarrow> inode \<Rightarrow> (mem \<times> nat \<times> u32) option" where
  "persist_append_entry h buf offset entry_count node =
    (let path_len = length (node_path node);
         data_size = (if node_type node = 0 then node_size node else 0);
         needed = 1 + 2 + 4 + path_len + data_size
     in if path_len = 0 \<or> path_len > 0xFFFF \<or> data_size > 0xFFFFFFFF then None
        else if offset + needed > PERSIST_BYTES then None
        else let buf = buf(offset := word_of_int (node_type node));
                 buf = put_u16 buf (offset + 1) (of_nat path_len);
                 buf = put_u32 buf (offset + 3) (of_nat data_size);
                 buf = mem_write buf (offset + 7) (map of_char (node_path node));
                 buf = (case node_data node of
                          None \<Rightarrow> buf
                        | Some p \<Rightarrow> if data_size > 0
                                   then mem_write buf (offset + 7 + path_len) (mem_read (heap_bytes h) p data_size)
                                   else buf)
             in Some (buf, offset + needed, entry_count + 1))"

text \<open>The entry loops of a save, with the buffer as it is when one entry does not fit.\<close>

fun append_entries :: "kheap \<Rightarrow> inode list \<Rightarrow> mem \<times> nat \<times> u32 \<Rightarrow> bool \<times> mem \<times> nat \<times> u32" where
  "append_entries h [] r = (True, r)"
| "append_entries h (node # nodes) (buf, offset, entry_count) =
    (case persist_append_entry h buf offset entry_count node of
       None \<Rightarrow> (False, buf, offset, entry_count)
     | Some r \<Rightarrow> append_entries h nodes r)"

section \<open>Slots\<close>

function persist_read_loop :: "'d storage \<Rightarrow> u64 \<Rightarrow> nat \<Rightarrow> nat \<Rightarrow> nat \<Rightarrow> 'd vfs \<Rightarrow> bool \<times> 'd vfs" where
  "persist_read_loop st lba off sectors done s =
    (if done < sectors then
       (let chunk = min (sectors - done) PERSIST_IO_MAX_SECTORS in
        case storage_read st (dev s) (lba + of_nat done) chunk of
          (None, d) \<Rightarrow> (False, s\<lparr>dev := d\<rparr>)
        | (Some bs, d) \<Rightarrow>
            persist_read_loop st lba off sectors (done + chunk)
              (s\<lparr>dev := d, persist_buf := mem_write (persist_buf s) (off + done * SECTOR_SIZE) bs\<rparr>))
     else (True, s))"
  by pat_completeness auto
termination
  by (relation "measure (\<lambda>(_, _, _, n, i, _). n - i)") (auto simp: PERSIST_IO_MAX_SECTORS_def)

declare persist_read_loop.simps [simp del]

text \<open>\<^verbatim>\<open>persist_storage_read(lba, persist_buf + off, sectors)\<close>.\<close>

definition persist_storage_read :: "'d storage \<Rightarrow> u64 \<Rightarrow> nat \<Rightarrow> nat \<Rightarrow> 'd vfs \<Rightarrow> bool \<times> 'd vfs" where
  "persist_storage_read st lba off sectors s = persist_read_loop st lba off sectors 0 s"

function persist_write_loop :: "'d storage \<Rightarrow> u64 \<Rightarrow> mem \<Rightarrow> nat \<Rightarrow> nat \<Rightarrow> 'd \<Rightarrow> bool \<times> 'd" where
  "persist_write_loop st lba buf sectors done d =
    (if done < sectors then
       (let chunk = min (sectors - done) PERSIST_IO_MAX_SECTORS in
        case storage_write st d (lba + of_nat done) (mem_read buf (done * SECTOR_SIZE) (chunk * SECTOR_SIZE)) of
          (False, d) \<Rightarrow> (False, d)
        | (True, d) \<Rightarrow> persist_write_loop st lba buf sectors (done + chunk) d)
     else (True, d))"
  by pat_completeness auto
termination
  by (relation "measure (\<lambda>(_, _, _, n, i, _). n - i)") (auto simp: PERSIST_IO_MAX_SECTORS_def)

declare persist_write_loop.simps [simp del]

definition persist_storage_write :: "'d storage \<Rightarrow> u64 \<Rightarrow> mem \<Rightarrow> nat \<Rightarrow> 'd \<Rightarrow> bool \<times> 'd" where
  "persist_storage_write st lba buf sectors d = persist_write_loop st lba buf sectors 0 d"

definition persist_snapshot_sector_count :: "nat \<Rightarrow> nat" where
  "persist_snapshot_sector_count payload_size =
    (let bytes = PERSIST_HEADER_SIZE + payload_size;
         sectors = (bytes + SECTOR_SIZE - 1) div SECTOR_SIZE;
         sectors = (if sectors = 0 then 1 else sectors)
     in if sectors > PERSIST_SECTORS then PERSIST_SECTORS else sectors)"

text \<open>The result is \<open>Inl (-1)\<close> for a read error or a slot out of range, \<open>Inl (-2)\<close> for an invalid snapshot.\<close>

definition persist_read_slot_snapshot :: "'d storage \<Rightarrow> 'd vfs \<Rightarrow> u32 \<Rightarrow> (int + persist_meta) \<times> 'd vfs" where
  "persist_read_slot_snapshot st s slot =
    (if slot \<ge> persist_slots_available s then (Inl (-1), s)
     else let lba = persist_slot_lba s slot in
       case persist_storage_read st lba 0 1 s of
         (False, s) \<Rightarrow> (Inl (-1), s)
       | (True, s) \<Rightarrow>
           if mem_read (persist_buf s) 0 7 \<noteq> PERSIST_MAGIC then (Inl (-2), s)
           else let version = get_u32 (persist_buf s) 8;
                    entry_count = get_u32 (persist_buf s) 12;
                    payload_size = get_u32 (persist_buf s) 16
                in if (version \<noteq> PERSIST_VERSION \<and> version \<noteq> PERSIST_LEGACY_VERSION) \<or>
                      unat entry_count > MAX_FILES \<or> unat payload_size > PERSIST_BYTES - PERSIST_HEADER_SIZE
                   then (Inl (-2), s)
                   else let sectors = persist_snapshot_sector_count (unat payload_size);
                            (ok, s) = (if sectors > 1
                                       then persist_storage_read st (lba + 1) SECTOR_SIZE (sectors - 1) s
                                       else (True, s))
                        in if \<not> ok then (Inl (-1), s)
                           else case persist_snapshot_validate (persist_buf s) slot of
                                  None \<Rightarrow> (Inl (-2), s)
                                | Some meta \<Rightarrow> (Inr meta, s))"

definition persist_read_slot_meta :: "'d storage \<Rightarrow> 'd vfs \<Rightarrow> u32 \<Rightarrow> (int + persist_meta) \<times> 'd vfs" where
  "persist_read_slot_meta st s slot = persist_read_slot_snapshot st s slot"

definition persist_set_loaded_meta :: "'d vfs \<Rightarrow> persist_meta \<Rightarrow> 'd vfs" where
  "persist_set_loaded_meta s meta =
    (if \<not> meta_valid meta then s
     else s\<lparr>persist_active_slot := uint (meta_slot meta), persist_sequence := meta_sequence meta,
            persist_last_entry_count := meta_entry_count meta,
            persist_last_payload_size := meta_payload_size meta,
            persist_last_checksum := meta_checksum meta, persist_last_version := meta_version meta\<rparr>)"

text \<open>The loop that both the load and the first save run over the slots: the newest valid snapshot wins, and
  a read error is remembered.\<close>

fun select_newest :: "'d storage \<Rightarrow> u32 list \<Rightarrow> persist_meta \<Rightarrow> bool \<Rightarrow> 'd vfs \<Rightarrow> persist_meta \<times> bool \<times> 'd vfs" where
  "select_newest st [] best read_error s = (best, read_error, s)"
| "select_newest st (slot # slots) best read_error s =
    (case persist_read_slot_snapshot st s slot of
       (Inl e, s) \<Rightarrow> select_newest st slots best (read_error \<or> e = -1) s
     | (Inr meta, s) \<Rightarrow>
         select_newest st slots (if persist_snapshot_is_newer meta best then meta else best) read_error s)"

definition slots_to_scan :: "'d vfs \<Rightarrow> u32 list" where
  "slots_to_scan s =
    (let slots = persist_slots_available s;
         slots = (if slots = 0 \<or> slots > PERSIST_SLOT_COUNT then 1 else slots)
     in map of_nat [0..<unat slots])"

definition forget_meta :: "'d vfs \<Rightarrow> 'd vfs" where
  "forget_meta s = s\<lparr>persist_active_slot := -1, persist_sequence := 0, persist_last_entry_count := 0,
     persist_last_payload_size := 0, persist_last_checksum := 0, persist_last_version := 0\<rparr>"

definition persist_prepare_metadata_for_save :: "'d storage \<Rightarrow> 'd vfs \<Rightarrow> 'd vfs option" where
  "persist_prepare_metadata_for_save st s =
    (case select_newest st (slots_to_scan s) meta_zero False s of
       (best, _, s) \<Rightarrow>
         if meta_valid best
         then persist_set_status (persist_set_loaded_meta s best)
                (Some ''Orizon data persistence prepared for explicit save from latest slot'')
         else persist_format_status_initialized (forget_meta s))"

section \<open>Saving\<close>

definition persisted_dirs :: "'d vfs \<Rightarrow> inode list" where
  "persisted_dirs s = filter (\<lambda>n. node_type n = 1 \<and> path_should_persist (node_path n) \<and>
     \<not> path_is_persistent_root (node_path n)) (take (inode_count s) (inodes s))"

definition persisted_files :: "'d vfs \<Rightarrow> inode list" where
  "persisted_files s = filter (\<lambda>n. node_type n = 0 \<and> path_should_persist (node_path n)) (take (inode_count s) (inodes s))"

definition save_target_slot :: "'d vfs \<Rightarrow> u32" where
  "save_target_slot s =
    (if persist_slots_available s > 1 \<and> persist_active_slot s \<ge> 0
     then word_of_int ((persist_active_slot s + 1) mod uint (persist_slots_available s)) else 0)"

definition save_next_sequence :: "'d vfs \<Rightarrow> u32" where
  "save_next_sequence s = (let n = persist_sequence s + 1 in if n = 0 then 1 else n)"

text \<open>The buffer once it is cleared and starts with the magic, the version and the sequence number.\<close>

definition save_header :: "'d vfs \<Rightarrow> mem" where
  "save_header s =
    (let buf = memset (persist_buf s) 0 0 PERSIST_BYTES;
         buf = mem_write buf 0 PERSIST_MAGIC;
         buf = put_u32 buf 8 PERSIST_VERSION
     in put_u32 buf PERSIST_SEQUENCE_OFFSET (save_next_sequence s))"

text \<open>The counts and the checksum written over the finished payload, and the number of sectors to write.\<close>

definition save_seal :: "mem \<Rightarrow> nat \<Rightarrow> u32 \<Rightarrow> mem \<times> u32 \<times> u32" where
  "save_seal buf offset entry_count =
    (let payload_size = of_nat (offset - PERSIST_HEADER_SIZE);
         checksum = persist_checksum buf PERSIST_HEADER_SIZE (unat payload_size);
         buf = put_u32 buf 12 entry_count;
         buf = put_u32 buf 16 payload_size
     in (put_u32 buf 20 checksum, payload_size, checksum))"

definition save_sectors :: "nat \<Rightarrow> nat" where
  "save_sectors offset =
    (let sectors = (offset + SECTOR_SIZE - 1) div SECTOR_SIZE in if sectors = 0 then 1 else sectors)"

text \<open>\<^verbatim>\<open>vfs_persist_save\<close> from the choice of the slot on.\<close>

definition persist_write_snapshot :: "'d storage \<Rightarrow> 'd vfs \<Rightarrow> ((errno + unit) \<times> 'd vfs) option" where
  "persist_write_snapshot st s =
    (let target_slot = save_target_slot s; next_sequence = save_next_sequence s; buf = save_header s in
     case append_entries (heap s) (persisted_dirs s @ persisted_files s) (buf, PERSIST_HEADER_SIZE, 0) of
       (False, buf, _) \<Rightarrow> do {
         s \<leftarrow> persist_set_status (s\<lparr>persist_buf := buf\<rparr>) (Some ''Orizon data persistence full'');
         Some (Inl ENOSPC, s) }
     | (True, buf, offset, entry_count) \<Rightarrow>
         (case save_seal buf offset entry_count of (buf, payload_size, checksum) \<Rightarrow>
            let s = s\<lparr>persist_buf := buf\<rparr>
            in case persist_storage_write st (persist_slot_lba s target_slot) buf (save_sectors offset) (dev s) of
                 (False, d) \<Rightarrow> do {
                   s \<leftarrow> persist_set_status (s\<lparr>dev := d\<rparr>) (Some ''Orizon data persistence write failed'');
                   Some (Inl EIO, s) }
               | (True, d) \<Rightarrow> do {
                   s \<leftarrow> persist_format_status_active
                         (s\<lparr>dev := d, persist_active_slot := uint target_slot, persist_sequence := next_sequence,
                            persist_last_entry_count := entry_count, persist_last_payload_size := payload_size,
                            persist_last_checksum := checksum, persist_last_version := PERSIST_VERSION\<rparr>);
                   Some (Inr (), s) }))"

definition vfs_persist_save :: "'d storage \<Rightarrow> 'd vfs \<Rightarrow> ((errno + unit) \<times> 'd vfs) option" where
  "vfs_persist_save st s =
    (if persist_loading s then Some (Inl EINVAL, s)
     else if \<not> storage_available st (dev s) then do {
       s \<leftarrow> persist_set_status s (Some ''Orizon data persistence unavailable'');
       Some (Inl EIO, s) }
     else case persist_orizon_data_partition_present st s of
       (False, s) \<Rightarrow> do {
         s \<leftarrow> persist_set_status (s\<lparr>persist_ready := False\<rparr>)
               (Some ''Orizon data persistence disabled: no Orizon data partition'');
         Some (Inl EIO, s) }
     | (True, s) \<Rightarrow> do {
         s \<leftarrow> (if persist_ready s then Some s
               else persist_prepare_metadata_for_save st (s\<lparr>persist_ready := True\<rparr>));
         persist_write_snapshot st s
       })"

definition maybe_persist_path :: "'d storage \<Rightarrow> 'd vfs \<Rightarrow> string \<Rightarrow> 'd vfs option" where
  "maybe_persist_path st s path =
    (if persist_ready s \<and> \<not> persist_loading s \<and> path_should_persist path
     then map_option snd (vfs_persist_save st s) else Some s)"

definition maybe_persist_inode :: "'d storage \<Rightarrow> 'd vfs \<Rightarrow> nat \<Rightarrow> 'd vfs option" where
  "maybe_persist_inode st s idx =
    (if idx < inode_count s then maybe_persist_path st s (node_path (inodes s ! idx)) else Some s)"

section \<open>Bytes and checksums\<close>

lemma mem_write_at: "mem_write m a bs x = (if a \<le> x \<and> x < a + length bs then bs ! (x - a) else m x)"
  by (simp add: mem_write_def)

lemma mem_read_write [simp]: "n = length bs \<Longrightarrow> mem_read (mem_write m a bs) a n = bs"
  by (rule nth_equalityI) (simp_all add: mem_read_def mem_write_def)

lemma mem_read_append: "mem_read m a (j + k) = mem_read m a j @ mem_read m (a + j) k"
  by (rule nth_equalityI) (auto simp: mem_read_def nth_append)

lemma get_u16_le: "get_u16 m p = v" if "m p = ucast v" "m (p + 1) = ucast (drop_bit 8 v)"
  unfolding get_u16_def that
  by (rule bit_word_eqI) (auto simp: bit_simps not_less)

lemma get_u32_le:
  assumes "m p = ucast v" "m (p + 1) = ucast (drop_bit 8 v)" "m (p + 2) = ucast (drop_bit 16 v)" "m (p + 3) = ucast (drop_bit 24 v)"
  shows "get_u32 m p = v"
  unfolding get_u32_def assms
proof (rule bit_word_eqI)
  fix n assume n: "n < LENGTH(32)"
  consider "n < 8" | "8 \<le> n" "n < 16" | "16 \<le> n" "n < 24" | "24 \<le> n" "n < 32" using n by force
  then show "bit (ucast (ucast v :: byte) OR push_bit 8 (ucast (ucast (drop_bit 8 v) :: byte)) OR
      push_bit 16 (ucast (ucast (drop_bit 16 v) :: byte)) OR push_bit 24 (ucast (ucast (drop_bit 24 v) :: byte)) :: u32) n = bit v n"
    by cases (auto simp: bit_simps)
qed

lemma get_put_u32 [simp]: "get_u32 (put_u32 m p v) p = v"
  by (rule get_u32_le) (simp_all add: put_u32_def)

lemma get_put_u16 [simp]: "get_u16 (put_u16 m p v) p = v"
  by (rule get_u16_le) (simp_all add: put_u16_def)

lemma put_u32_other: "x < p \<or> p + 4 \<le> x \<Longrightarrow> put_u32 m p v x = m x"
  by (auto simp: put_u32_def)

lemma put_u16_other: "x < p \<or> p + 2 \<le> x \<Longrightarrow> put_u16 m p v x = m x"
  by (auto simp: put_u16_def)

lemma get_u32_cong:
  assumes "\<And>i. i < 4 \<Longrightarrow> m (p + i) = m' (q + i)"
  shows "get_u32 m p = get_u32 m' q"
  using assms [of 0] assms [of 1] assms [of 2] assms [of 3] by (simp add: get_u32_def)

lemma get_u16_cong:
  assumes "\<And>i. i < 2 \<Longrightarrow> m (p + i) = m' (q + i)"
  shows "get_u16 m p = get_u16 m' q"
  using assms [of 0] assms [of 1] by (simp add: get_u16_def)

lemma persist_checksum_read: "persist_checksum m p n = foldl checksum_step 0 (mem_read m p n)"
proof -
  have "mem_read m p n = map (\<lambda>i. m (p + i)) [0..<n]"
    by (rule nth_equalityI) (simp_all add: mem_read_def)
  then show ?thesis by (simp add: persist_checksum_def foldl_map)
qed

text \<open>Rotating is injective, and adding different bytes to the same sum gives different sums.\<close>

lemma checksum_rot: "push_bit 5 a OR drop_bit 27 a = word_rotl 5 (a :: u32)"
proof (rule bit_word_eqI)
  fix i assume "i < LENGTH(32)"
  then have "i < 32" by simp
  show "bit (push_bit 5 a OR drop_bit 27 a) i \<longleftrightarrow> bit (word_rotl 5 a) i"
  proof (cases "5 \<le> i")
    case True
    then have "\<not> bit a (27 + i)" by (simp add: impossible_bit)
    moreover have "(i + 27) mod 32 = i - 5" using True \<open>i < 32\<close> by (simp add: mod_if)
    ultimately show ?thesis using True \<open>i < 32\<close> by (auto simp: bit_simps)
  next
    case False
    then show ?thesis using \<open>i < 32\<close> by (auto simp: bit_simps add.commute)
  qed
qed

lemma checksum_step_eq: "checksum_step a b = word_rotl 5 a + ucast b"
  by (simp add: checksum_step_def Let_def checksum_rot)

lemma checksum_step_inj: "checksum_step a b = checksum_step a' b \<Longrightarrow> a = a'"
proof -
  assume "checksum_step a b = checksum_step a' b"
  then have "word_rotr 5 (word_rotl 5 a) = word_rotr 5 (word_rotl 5 a')" by (simp add: checksum_step_eq)
  then show ?thesis by (simp add: word_rot_gal)
qed

lemma foldl_checksum_inj: "foldl checksum_step a bs = foldl checksum_step a' bs \<Longrightarrow> a = a'"
  by (induction bs arbitrary: a a') (auto dest: checksum_step_inj)

lemma checksum_byte_change:
  assumes "length bs = length bs'" "i < length bs" "bs ! i \<noteq> bs' ! i"
    and same: "\<And>j. j < length bs \<Longrightarrow> j \<noteq> i \<Longrightarrow> bs ! j = bs' ! j"
  shows "foldl checksum_step a bs \<noteq> foldl checksum_step a bs'"
proof
  assume eq: "foldl checksum_step a bs = foldl checksum_step a bs'"
  have pre: "take i bs = take i bs'" and post: "drop (Suc i) bs = drop (Suc i) bs'"
    using assms by (auto intro!: nth_equalityI)
  let ?a = "foldl checksum_step a (take i bs)"
  have "foldl checksum_step a bs = foldl checksum_step (checksum_step ?a (bs ! i)) (drop (Suc i) bs)"
    using id_take_nth_drop [OF assms(2)] by (metis foldl_append foldl_Cons)
  moreover have "foldl checksum_step a bs' = foldl checksum_step (checksum_step ?a (bs' ! i)) (drop (Suc i) bs)"
    using id_take_nth_drop [of i bs'] assms(1,2) pre post by (metis foldl_append foldl_Cons)
  ultimately have "checksum_step ?a (bs ! i) = checksum_step ?a (bs' ! i)"
    using eq foldl_checksum_inj by metis
  then have "(ucast (bs ! i) :: u32) = ucast (bs' ! i)" by (simp add: checksum_step_eq)
  moreover have "(ucast (ucast x :: u32) :: byte) = x" for x :: byte
    by (rule bit_word_eqI) (simp add: bit_simps)
  ultimately show False using assms(3) by metis
qed

section \<open>What persistence leaves alone\<close>

text \<open>Nothing in this theory changes the inode table, the open files or the heap; the disk scans leave the
  snapshot bookkeeping alone as well, and slot reads also the partition layout.\<close>

definition fs_same :: "'d vfs \<Rightarrow> 'd vfs \<Rightarrow> bool" where
  "fs_same s t \<longleftrightarrow> inodes t = inodes s \<and> inode_count t = inode_count s \<and> open_files t = open_files s \<and>
     heap t = heap s \<and> vfs_initialized t = vfs_initialized s \<and> persist_loading t = persist_loading s"

definition meta_same :: "'d vfs \<Rightarrow> 'd vfs \<Rightarrow> bool" where
  "meta_same s t \<longleftrightarrow> persist_ready t = persist_ready s \<and> persist_status t = persist_status s \<and>
     persist_sequence t = persist_sequence s \<and> persist_active_slot t = persist_active_slot s \<and>
     persist_last_entry_count t = persist_last_entry_count s \<and>
     persist_last_payload_size t = persist_last_payload_size s \<and>
     persist_last_checksum t = persist_last_checksum s \<and> persist_last_version t = persist_last_version s"

definition layout_same :: "'d vfs \<Rightarrow> 'd vfs \<Rightarrow> bool" where
  "layout_same s t \<longleftrightarrow> persist_lba t = persist_lba s \<and> persist_data_sectors t = persist_data_sectors s \<and>
     persist_slots_available t = persist_slots_available s"

lemmas same_defs = fs_same_def meta_same_def layout_same_def

lemma same_refl [simp]: "fs_same s s" "meta_same s s" "layout_same s s"
  by (simp_all add: same_defs)

lemma same_trans:
  "fs_same s t \<Longrightarrow> fs_same t u \<Longrightarrow> fs_same s u" "meta_same s t \<Longrightarrow> meta_same t u \<Longrightarrow> meta_same s u"
  "layout_same s t \<Longrightarrow> layout_same t u \<Longrightarrow> layout_same s u"
  by (simp_all add: same_defs)

lemma read_sector_frame: "read_sector st s lba = (ok, s') \<Longrightarrow> fs_same s s' \<and> meta_same s s' \<and> layout_same s s'"
  by (auto simp: read_sector_def same_defs split: prod.splits option.splits)

lemma persist_read_loop_frame:
  "persist_read_loop st lba off n i s = (ok, s') \<Longrightarrow> fs_same s s' \<and> meta_same s s' \<and> layout_same s s'"
proof (induction "n - i" arbitrary: i s ok s' rule: less_induct)
  case less
  obtain r d where rd: "storage_read st (dev s) (lba + of_nat i) (min (n - i) PERSIST_IO_MAX_SECTORS) = (r, d)"
    by (cases "storage_read st (dev s) (lba + of_nat i) (min (n - i) PERSIST_IO_MAX_SECTORS)")
  show ?case
  proof (cases "i < n")
    case True
    show ?thesis
    proof (cases r)
      case None
      then show ?thesis
        using less.prems True rd by (subst (asm) persist_read_loop.simps) (auto simp: Let_def same_defs)
    next
      case (Some bs)
      let ?t = "s\<lparr>dev := d, persist_buf := mem_write (persist_buf s) (off + i * SECTOR_SIZE) bs\<rparr>"
      have "persist_read_loop st lba off n (i + min (n - i) PERSIST_IO_MAX_SECTORS) ?t = (ok, s')"
        using less.prems True rd Some by (subst (asm) persist_read_loop.simps) (simp add: Let_def)
      then have "fs_same ?t s' \<and> meta_same ?t s' \<and> layout_same ?t s'"
        using True by (intro less.hyps) (auto simp: PERSIST_IO_MAX_SECTORS_def)
      then show ?thesis by (simp add: same_defs)
    qed
  next
    case False
    then show ?thesis using less.prems by (subst (asm) persist_read_loop.simps) simp
  qed
qed

lemma persist_read_slot_frame:
  assumes "persist_read_slot_snapshot st s slot = (r, s')"
  shows "fs_same s s' \<and> meta_same s s' \<and> layout_same s s'"
proof -
  obtain ok1 s1 where r1: "persist_storage_read st (persist_slot_lba s slot) 0 1 s = (ok1, s1)"
    by (cases "persist_storage_read st (persist_slot_lba s slot) 0 1 s")
  then have s1: "fs_same s s1 \<and> meta_same s s1 \<and> layout_same s s1"
    unfolding persist_storage_read_def by (rule persist_read_loop_frame)
  have r2: "fs_same s s2 \<and> meta_same s s2 \<and> layout_same s s2"
    if "persist_storage_read st lba off n s1 = (ok2, s2)" for lba off n ok2 s2
    using persist_read_loop_frame [OF that [unfolded persist_storage_read_def]] s1 same_trans by blast
  show ?thesis
    using assms r1 s1 r2
    by (auto simp: persist_read_slot_snapshot_def Let_def split: if_splits prod.splits option.splits bool.splits)
qed

lemma select_newest_frame:
  "select_newest st slots best e s = (m, e', s') \<Longrightarrow> fs_same s s' \<and> meta_same s s' \<and> layout_same s s'"
proof (induction slots arbitrary: best e s)
  case (Cons slot slots)
  obtain r s1 where r: "persist_read_slot_snapshot st s slot = (r, s1)" by (cases "persist_read_slot_snapshot st s slot")
  then have s1: "fs_same s s1 \<and> meta_same s s1 \<and> layout_same s s1" by (rule persist_read_slot_frame)
  obtain best1 e1 where "select_newest st slots best1 e1 s1 = (m, e', s')"
    using Cons.prems r by (cases r) auto
  from Cons.IH [OF this] s1 show ?case using same_trans by blast
qed simp

lemma scan_partitions_frame:
  "scan_partitions st l n i s = (ok, s') \<Longrightarrow>
     fs_same s s' \<and> meta_same s s' \<and> (ok \<longrightarrow> persist_slots_available s' = 1 \<or> persist_slots_available s' = 2)"
proof (induction "n - i" arbitrary: i s ok s' rule: less_induct)
  case less
  obtain ok1 s1 where r: "read_sector st s (l + of_nat (i * 128 div SECTOR_SIZE)) = (ok1, s1)"
    by (cases "read_sector st s (l + of_nat (i * 128 div SECTOR_SIZE))")
  then have s1: "fs_same s s1 \<and> meta_same s s1" using read_sector_frame by blast
  show ?case
  proof (cases "i < n \<and> ok1")
    case True
    show ?thesis
    proof (cases "entry_partition (persist_sector s1) (i * 128 mod SECTOR_SIZE)")
      case None
      have "n - Suc i < n - i" using conjunct1 [OF True] by arith
      moreover have "scan_partitions st l n (Suc i) s1 = (ok, s')"
        using less.prems True r None by (subst (asm) scan_partitions.simps) simp
      ultimately have "fs_same s1 s' \<and> meta_same s1 s' \<and>
          (ok \<longrightarrow> persist_slots_available s' = 1 \<or> persist_slots_available s' = 2)" by (rule less.hyps)
      then show ?thesis using s1 same_trans by blast
    next
      case (Some fc)
      then have "s' = s1\<lparr>persist_lba := fst fc, persist_data_sectors := snd fc, persist_slots_available := slots_for (snd fc)\<rparr>"
        using less.prems True r by (subst (asm) scan_partitions.simps) (simp add: case_prod_beta)
      then show ?thesis using s1 by (simp add: same_defs slots_for_def PERSIST_SLOT_COUNT_def)
    qed
  next
    case False
    then show ?thesis
      using less.prems r s1 by (subst (asm) scan_partitions.simps) (auto split: if_splits bool.splits)
  qed
qed

lemma partition_present_frame:
  assumes "persist_orizon_data_partition_present st s = (ok, s')"
  shows "fs_same s s' \<and> meta_same s s' \<and> (ok \<longrightarrow> persist_slots_available s' = 1 \<or> persist_slots_available s' = 2)"
proof -
  let ?s = "s\<lparr>persist_slots_available := 0, persist_data_sectors := 0\<rparr>"
  have s0: "fs_same s ?s \<and> meta_same s ?s" by (simp add: same_defs)
  obtain ok1 s1 where r: "read_sector st ?s 1 = (ok1, s1)" by (cases "read_sector st ?s 1")
  then have s1: "fs_same s s1 \<and> meta_same s s1" using read_sector_frame s0 same_trans by blast
  have scan: "fs_same s t \<and> meta_same s t \<and> (okt \<longrightarrow> persist_slots_available t = 1 \<or> persist_slots_available t = 2)"
    if "scan_partitions st l n i s1 = (okt, t)" for l n i okt t
    using scan_partitions_frame [OF that] s1 same_trans by blast
  show ?thesis
    using assms r s0 s1 scan unfolding persist_orizon_data_partition_present_def
    by (auto simp: Let_def split: if_splits bool.splits)
qed

section \<open>Every save returns\<close>

lemma persist_set_status_eq: "persist_set_status s (Some t) = Some (s\<lparr>persist_status := take 191 t\<rparr>)"
  by (simp add: persist_set_status_def snprintf_percent_s)

lemma format_active_defined:
  assumes "sint (word_of_int (persist_active_slot s) :: u32) \<noteq> - (2 ^ 31)"
  shows "\<exists>t. persist_format_status_active s = Some (s\<lparr>persist_status := t\<rparr>)"
proof -
  have "fmt_ok ''Orizon data persistence active at LBA %lu slot=%d/%lu seq=%lu entries=%lu bytes=%lu''
       [VLong a, VInt b, VLong c, VLong d, VLong e, VLong f]" if "sint b \<noteq> - (2 ^ 31)" for a b c d e f
    using that by (simp add: take_arg_def is_digit_def)
  from snprintf_defined [OF this [OF assms, of "persist_lba s" "ucast (persist_slots_available s)"
      "ucast (persist_sequence s)" "ucast (persist_last_entry_count s)" "ucast (persist_last_payload_size s)"], of 192]
  show ?thesis
    by (auto simp: persist_format_status_active_def persist_set_status_eq)
qed

lemma format_initialized_defined: "\<exists>t. persist_format_status_initialized s = Some (s\<lparr>persist_status := t\<rparr>)"
proof -
  have "fmt_ok ''Orizon data persistence initialized at LBA %lu slots=%lu'' [VLong a, VLong b]" for a b
    by (simp add: take_arg_def is_digit_def)
  from snprintf_defined [OF this [of "persist_lba s" "ucast (persist_slots_available s)"], of 160] show ?thesis
    by (auto simp: persist_format_status_initialized_def persist_set_status_eq)
qed

lemma prepare_frame:
  "\<exists>s'. persist_prepare_metadata_for_save st s = Some s' \<and> fs_same s s' \<and> layout_same s s' \<and>
      persist_ready s' = persist_ready s"
proof -
  obtain m e s1 where sel: "select_newest st (slots_to_scan s) meta_zero False s = (m, e, s1)"
    by (rule prod_cases3)
  from select_newest_frame [OF this] have s1: "fs_same s s1" "meta_same s s1" "layout_same s s1" by auto
  obtain t where "persist_format_status_initialized (forget_meta s1) = Some ((forget_meta s1)\<lparr>persist_status := t\<rparr>)"
    using format_initialized_defined by blast
  then show ?thesis using sel s1
    by (auto simp: persist_prepare_metadata_for_save_def persist_set_status_eq persist_set_loaded_meta_def
        forget_meta_def same_defs)
qed

lemma target_slot_small:
  assumes "persist_slots_available s = 1 \<or> persist_slots_available s = 2"
  shows "save_target_slot s = 0 \<or> save_target_slot s = 1"
proof -
  have "(persist_active_slot s + 1) mod 2 = 0 \<or> (persist_active_slot s + 1) mod 2 = 1" by presburger
  then show ?thesis using assms by (auto simp: save_target_slot_def)
qed

lemma write_snapshot_frame:
  assumes "persist_slots_available s = 1 \<or> persist_slots_available s = 2"
  shows "\<exists>r s'. persist_write_snapshot st s = Some (r, s') \<and> fs_same s s' \<and> layout_same s s' \<and>
      persist_ready s' = persist_ready s"
proof -
  obtain full buf offset cnt where ap: "append_entries (heap s) (persisted_dirs s @ persisted_files s)
      (save_header s, PERSIST_HEADER_SIZE, 0) = (full, buf, offset, cnt)" by (rule prod_cases4)
  have tgt: "sint (word_of_int (uint (save_target_slot s)) :: u32) \<noteq> - (2 ^ 31)"
    using target_slot_small [OF assms] by auto
  have fmt: "\<exists>t. persist_format_status_active u = Some (u\<lparr>persist_status := t\<rparr>)"
    if "persist_active_slot u = uint (save_target_slot s)" for u :: "'a vfs"
    using format_active_defined [of u] tgt that by simp
  show ?thesis
  proof (cases full)
    case False
    then show ?thesis using ap by (simp add: persist_write_snapshot_def persist_set_status_eq same_defs)
  next
    case True
    obtain b p ck where seal: "save_seal buf offset cnt = (b, p, ck)" by (rule prod_cases3)
    obtain ok d where w: "persist_storage_write st (persist_slot_lba (s\<lparr>persist_buf := b\<rparr>) (save_target_slot s)) b
        (save_sectors offset) (dev s) = (ok, d)"
      by (cases "persist_storage_write st (persist_slot_lba (s\<lparr>persist_buf := b\<rparr>) (save_target_slot s)) b
        (save_sectors offset) (dev s)")
    let ?u = "s\<lparr>persist_buf := b, dev := d, persist_active_slot := uint (save_target_slot s),
      persist_sequence := save_next_sequence s, persist_last_entry_count := cnt, persist_last_payload_size := p,
      persist_last_checksum := ck, persist_last_version := PERSIST_VERSION\<rparr>"
    obtain t where "persist_format_status_active ?u = Some (?u\<lparr>persist_status := t\<rparr>)" using fmt [of ?u] by auto
    then show ?thesis
      using ap True w seal
      by (cases ok) (simp_all add: persist_write_snapshot_def persist_set_status_eq same_defs)
  qed
qed

lemma vfs_persist_save_frame:
  "\<exists>r s'. vfs_persist_save st s = Some (r, s') \<and> fs_same s s'"
proof -
  obtain ok s1 where pp: "persist_orizon_data_partition_present st s = (ok, s1)"
    by (cases "persist_orizon_data_partition_present st s")
  from partition_present_frame [OF pp] have s1: "fs_same s s1"
    "ok \<Longrightarrow> persist_slots_available s1 = 1 \<or> persist_slots_available s1 = 2" by auto
  have go: "\<exists>r s'. persist_write_snapshot st u = Some (r, s') \<and> fs_same s s'"
    if u: "ok" "fs_same s u" "persist_slots_available u = persist_slots_available s1" for u
  proof -
    have "persist_slots_available u = 1 \<or> persist_slots_available u = 2" using s1(2) [OF u(1)] u(3) by simp
    from write_snapshot_frame [OF this, of st] obtain r s' where
      "persist_write_snapshot st u = Some (r, s')" "fs_same u s'" by blast
    then show ?thesis using same_trans(1) [OF u(2)] by blast
  qed
  obtain s2 where s2: "persist_prepare_metadata_for_save st (s1\<lparr>persist_ready := True\<rparr>) = Some s2"
    "fs_same (s1\<lparr>persist_ready := True\<rparr>) s2" "layout_same (s1\<lparr>persist_ready := True\<rparr>) s2"
    using prepare_frame by blast
  have "fs_same s s2" "persist_slots_available s2 = persist_slots_available s1"
    using s1(1) s2(2,3) by (simp_all add: same_defs)
  note go2 = go [OF _ this] and go1 = go [OF _ s1(1) refl]
  show ?thesis
  proof (cases "persist_loading s \<or> \<not> storage_available st (dev s) \<or> \<not> ok")
    case True
    then show ?thesis using pp s1(1)
      by (cases ok) (auto simp: vfs_persist_save_def persist_set_status_eq same_defs)
  next
    case False
    then show ?thesis using pp s2(1) go1 go2
      by (cases "persist_ready s1") (simp_all add: vfs_persist_save_def)
  qed
qed

lemma maybe_persist_frame:
  "\<exists>s'. maybe_persist_path st s path = Some s' \<and> fs_same s s'"
  "\<exists>s'. maybe_persist_inode st s idx = Some s' \<and> fs_same s s'"
  using vfs_persist_save_frame [of st s] by (auto simp: maybe_persist_path_def maybe_persist_inode_def)

lemma maybe_persist_loading [simp]:
  "persist_loading s \<Longrightarrow> maybe_persist_path st s path = Some s"
  "persist_loading s \<Longrightarrow> maybe_persist_inode st s idx = Some s"
  by (simp_all add: maybe_persist_path_def maybe_persist_inode_def)

section \<open>The block device\<close>

text \<open>What the driver promises: \<open>sec d lba\<close> is the content of a sector; a one-sector read returns it or fails
  and changes nothing; a one-sector write changes at most that sector, and stores the bytes when it succeeds.\<close>

definition sector_device :: "'d storage \<Rightarrow> ('d \<Rightarrow> u64 \<Rightarrow> bytes) \<Rightarrow> bool" where
  "sector_device st sec \<longleftrightarrow>
     (\<forall>d lba. length (sec d lba) = SECTOR_SIZE) \<and>
     (\<forall>d lba r d'. storage_read st d lba 1 = (r, d') \<longrightarrow> sec d' = sec d \<and> (r = None \<or> r = Some (sec d lba))) \<and>
     (\<forall>d lba bs ok d'. length bs = SECTOR_SIZE \<longrightarrow> storage_write st d lba bs = (ok, d') \<longrightarrow>
        (\<forall>l. l \<noteq> lba \<longrightarrow> sec d' l = sec d l) \<and> (ok \<longrightarrow> sec d' lba = bs))"

lemma sector_deviceD:
  assumes "sector_device st sec"
  shows sector_len: "length (sec d lba) = SECTOR_SIZE"
    and sector_read: "storage_read st d lba 1 = (r, d') \<Longrightarrow> sec d' = sec d \<and> (r = None \<or> r = Some (sec d lba))"
    and sector_write: "length bs = SECTOR_SIZE \<Longrightarrow> storage_write st d lba bs = (ok, d') \<Longrightarrow>
      (\<forall>l. l \<noteq> lba \<longrightarrow> sec d' l = sec d l) \<and> (ok \<longrightarrow> sec d' lba = bs)"
  using assms unfolding sector_device_def by blast+

lemma one_chunk: "i < n \<Longrightarrow> min (n - i) PERSIST_IO_MAX_SECTORS = 1"
  by (simp add: PERSIST_IO_MAX_SECTORS_def)

lemma of_nat_u64_inj: "a < 2 ^ 64 \<Longrightarrow> b < 2 ^ 64 \<Longrightarrow> (of_nat a :: u64) = of_nat b \<Longrightarrow> a = b"
  by (simp add: word_of_nat_eq_iff take_bit_nat_eq_self)

lemma persist_write_loop_sec:
  assumes D: "sector_device st sec" and "n < 2 ^ 64" "persist_write_loop st lba buf n i d = (ok, d')"
  shows "(\<forall>l. (\<forall>k. i \<le> k \<and> k < n \<longrightarrow> l \<noteq> lba + of_nat k) \<longrightarrow> sec d' l = sec d l) \<and>
    (ok \<longrightarrow> (\<forall>k. i \<le> k \<and> k < n \<longrightarrow> sec d' (lba + of_nat k) = mem_read buf (k * SECTOR_SIZE) SECTOR_SIZE))"
  using assms(3)
proof (induction "n - i" arbitrary: i d rule: less_induct)
  case less
  show ?case
  proof (cases "i < n")
    case True
    let ?bs = "mem_read buf (i * SECTOR_SIZE) SECTOR_SIZE"
    obtain ok1 d1 where w: "storage_write st d (lba + of_nat i) ?bs = (ok1, d1)"
      by (cases "storage_write st d (lba + of_nat i) ?bs")
    from sector_write [OF D _ w] have w1: "\<And>l. l \<noteq> lba + of_nat i \<Longrightarrow> sec d1 l = sec d l" "ok1 \<Longrightarrow> sec d1 (lba + of_nat i) = ?bs"
      by auto
    show ?thesis
    proof (cases ok1)
      case True2: True
      have lt: "n - (i + 1) < n - i" using True by arith
      have "persist_write_loop st lba buf n (i + 1) d1 = (ok, d')"
        using less.prems True w True2 by (subst (asm) persist_write_loop.simps) (simp add: Let_def one_chunk)
      from less.hyps [OF lt this] have IH:
        "\<And>l. (\<And>k. i + 1 \<le> k \<Longrightarrow> k < n \<Longrightarrow> l \<noteq> lba + of_nat k) \<Longrightarrow> sec d' l = sec d1 l"
        "\<And>k. ok \<Longrightarrow> i + 1 \<le> k \<Longrightarrow> k < n \<Longrightarrow> sec d' (lba + of_nat k) = mem_read buf (k * SECTOR_SIZE) SECTOR_SIZE" by blast+
      have "lba + of_nat i \<noteq> lba + of_nat k" if "i + 1 \<le> k" "k < n" for k
        using of_nat_u64_inj [of i k] that assms(2) True by auto
      then have "sec d' (lba + of_nat i) = ?bs" using IH(1) w1(2) True2 by simp
      then have "ok \<longrightarrow> sec d' (lba + of_nat k) = mem_read buf (k * SECTOR_SIZE) SECTOR_SIZE" if "i \<le> k" "k < n" for k
        using IH(2) that by (cases "k = i") auto
      moreover have "sec d' l = sec d l" if "\<And>k. i \<le> k \<Longrightarrow> k < n \<Longrightarrow> l \<noteq> lba + of_nat k" for l
        using IH(1) [of l] w1(1) [of l] that True by auto
      ultimately show ?thesis by blast
    next
      case False
      then have "d' = d1" "\<not> ok"
        using less.prems True w by (subst (asm) persist_write_loop.simps, simp add: Let_def one_chunk)+
      then show ?thesis using w1(1) True by blast
    qed
  next
    case False
    then have "d' = d" using less.prems by (subst (asm) persist_write_loop.simps) simp
    then show ?thesis using False by auto
  qed
qed

lemma persist_read_loop_sec:
  assumes D: "sector_device st sec" and "persist_read_loop st lba off n i s = (ok, s')"
  shows "sec (dev s') = sec (dev s) \<and>
    (ok \<longrightarrow> (\<forall>x. persist_buf s' x =
       (if off + i * SECTOR_SIZE \<le> x \<and> x < off + n * SECTOR_SIZE
        then sec (dev s) (lba + of_nat ((x - off) div SECTOR_SIZE)) ! ((x - off) mod SECTOR_SIZE)
        else persist_buf s x)))"
  using assms(2)
proof (induction "n - i" arbitrary: i s rule: less_induct)
  case less
  show ?case
  proof (cases "i < n")
    case True
    obtain r d where rd: "storage_read st (dev s) (lba + of_nat i) 1 = (r, d)"
      by (cases "storage_read st (dev s) (lba + of_nat i) 1")
    from sector_read [OF D rd] have r: "sec d = sec (dev s)" "r = None \<or> r = Some (sec (dev s) (lba + of_nat i))" by auto
    show ?thesis
    proof (cases r)
      case None
      then have "s' = s\<lparr>dev := d\<rparr>" "\<not> ok"
        using less.prems True rd by (subst (asm) persist_read_loop.simps, simp add: Let_def one_chunk)+
      then show ?thesis using r(1) by simp
    next
      case (Some bs)
      let ?t = "s\<lparr>dev := d, persist_buf := mem_write (persist_buf s) (off + i * SECTOR_SIZE) bs\<rparr>"
      have bs: "bs = sec (dev s) (lba + of_nat i)" "length bs = SECTOR_SIZE" using r(2) Some sector_len [OF D] by auto
      have lt: "n - (i + 1) < n - i" using True by arith
      have "persist_read_loop st lba off n (i + 1) ?t = (ok, s')"
        using less.prems True rd Some by (subst (asm) persist_read_loop.simps) (simp add: Let_def one_chunk)
      from less.hyps [OF lt this] r(1) have IH: "sec (dev s') = sec (dev s)"
        "ok \<Longrightarrow> persist_buf s' x =
         (if off + (i + 1) * SECTOR_SIZE \<le> x \<and> x < off + n * SECTOR_SIZE
          then sec (dev s) (lba + of_nat ((x - off) div SECTOR_SIZE)) ! ((x - off) mod SECTOR_SIZE)
          else mem_write (persist_buf s) (off + i * SECTOR_SIZE) bs x)" for x by auto
      have "persist_buf s' x = (if off + i * SECTOR_SIZE \<le> x \<and> x < off + n * SECTOR_SIZE
          then sec (dev s) (lba + of_nat ((x - off) div SECTOR_SIZE)) ! ((x - off) mod SECTOR_SIZE)
          else persist_buf s x)" if ok for x
      proof -
        consider "x < off + i * SECTOR_SIZE" | "off + i * SECTOR_SIZE \<le> x" "x < off + (i + 1) * SECTOR_SIZE"
          | "off + (i + 1) * SECTOR_SIZE \<le> x" by linarith
        then show ?thesis
        proof cases
          case 2
          then obtain j where "x = off + i * SECTOR_SIZE + j" "j < SECTOR_SIZE" using le_Suc_ex by fastforce
          then have "(x - off) div SECTOR_SIZE = i" "(x - off) mod SECTOR_SIZE = x - (off + i * SECTOR_SIZE)"
            by simp_all
          moreover have "(i + 1) * SECTOR_SIZE \<le> n * SECTOR_SIZE" using True by (intro mult_le_mono1) simp
          ultimately show ?thesis using 2 IH(2) [OF that, of x] bs by (simp add: mem_write_at)
        qed (use IH(2) [OF that, of x] bs in \<open>auto simp: mem_write_at\<close>)
      qed
      then show ?thesis using IH(1) by blast
    qed
  next
    case False
    then have "s' = s" using less.prems by (subst (asm) persist_read_loop.simps) simp
    moreover have "n * SECTOR_SIZE \<le> i * SECTOR_SIZE" using False by (intro mult_le_mono1) simp
    then have "\<not> (off + i * SECTOR_SIZE \<le> x \<and> x < off + n * SECTOR_SIZE)" for x by linarith
    ultimately show ?thesis by (simp only: if_False) blast
  qed
qed

section \<open>The snapshot layout\<close>

text \<open>One entry as it appears in the payload: type, path length, data size, path and data.\<close>

definition le16 :: "u16 \<Rightarrow> bytes" where
  "le16 v = [ucast v, ucast (drop_bit 8 v)]"

definition le32 :: "u32 \<Rightarrow> bytes" where
  "le32 v = [ucast v, ucast (drop_bit 8 v), ucast (drop_bit 16 v), ucast (drop_bit 24 v)]"

definition encode_entry :: "int \<Rightarrow> string \<Rightarrow> bytes \<Rightarrow> bytes" where
  "encode_entry ty path content =
    word_of_int ty # le16 (of_nat (length path)) @ le32 (of_nat (length content)) @ map of_char path @ content"

definition node_payload :: "kheap \<Rightarrow> inode \<Rightarrow> bytes" where
  "node_payload h n = (if node_type n = 0 then node_content h n else [])"

definition entry_bytes :: "kheap \<Rightarrow> inode \<Rightarrow> bytes" where
  "entry_bytes h n = encode_entry (node_type n) (node_path n) (node_payload h n)"

lemma length_le [simp]: "length (le16 v) = 2" "length (le32 w) = 4"
  by (simp_all add: le16_def le32_def)

lemma mem_write_Nil [simp]: "mem_write m a [] = m"
  by (rule ext) (auto simp: mem_write_def)

lemma mem_write_append: "mem_write (mem_write m a xs) (a + length xs) ys = mem_write m a (xs @ ys)"
  by (rule ext) (auto simp: mem_write_def nth_append)

lemma mem_write_upd: "m(a := v) = mem_write m a [v]"
  by (rule ext) (auto simp: mem_write_def)

lemma put_u16_write: "put_u16 m p v = mem_write m p (le16 v)"
  by (rule ext) (auto simp: put_u16_def mem_write_def le16_def nth_Cons split: nat.splits)

lemma put_u32_write: "put_u32 m p v = mem_write m p (le32 v)"
proof (rule ext)
  fix x
  consider "x < p" | "p + 4 \<le> x" | "x = p" | "x = p + 1" | "x = p + 2" | "x = p + 3" by linarith
  then show "put_u32 m p v x = mem_write m p (le32 v) x"
    by cases (simp_all add: put_u32_def mem_write_def le32_def numeral_eq_Suc)
qed

lemma mem_write_other: "x < a \<or> a + length bs \<le> x \<Longrightarrow> mem_write m a bs x = m x"
  by (auto simp: mem_write_def)

definition entry_wf :: "inode \<Rightarrow> bool" where
  "entry_wf n \<longleftrightarrow> (node_data n = None \<longrightarrow> node_size n = 0)"

lemma length_node_payload: "entry_wf n \<Longrightarrow> length (node_payload h n) = (if node_type n = 0 then node_size n else 0)"
  by (auto simp: node_payload_def node_content_def entry_wf_def split: option.splits)

lemma append_entry_layout:
  assumes "persist_append_entry h buf off cnt n = Some (buf', off', cnt')" "entry_wf n"
  shows "buf' = mem_write buf off (entry_bytes h n) \<and> off' = off + length (entry_bytes h n) \<and>
    off' \<le> PERSIST_BYTES \<and> cnt' = cnt + 1 \<and> node_path n \<noteq> []"
proof -
  let ?c = "node_payload h n" and ?l = "length (node_path n)"
  define d where "d = (if node_type n = 0 then node_size n else 0)"
  have l: "length ?c = d" unfolding d_def by (rule length_node_payload [OF assms(2)])
  let ?t = "word_of_int (node_type n) :: byte" and ?p = "le16 (of_nat ?l)" and ?q = "le32 (of_nat d)"
  let ?b2 = "put_u32 (put_u16 (buf(off := ?t)) (off + 1) (of_nat ?l)) (off + 3) (of_nat d)"
  let ?b3 = "mem_write ?b2 (off + 7) (map of_char (node_path n))"
  have "put_u16 (buf(off := ?t)) (off + 1) (of_nat ?l) = mem_write buf off (?t # ?p)"
    unfolding mem_write_upd put_u16_write using mem_write_append [of buf off "[?t]" ?p] by simp
  then have b2: "?b2 = mem_write buf off (?t # ?p @ ?q)"
    unfolding put_u32_write using mem_write_append [of buf off "?t # ?p" ?q] by simp
  have b3: "?b3 = mem_write buf off (?t # ?p @ ?q @ map of_char (node_path n))"
    unfolding b2 using mem_write_append [of buf off "?t # ?p @ ?q" "map of_char (node_path n)"] by simp
  have b4: "mem_write ?b3 (off + 7 + ?l) ?c = mem_write buf off (entry_bytes h n)"
    unfolding b3 using mem_write_append [of buf off "?t # ?p @ ?q @ map of_char (node_path n)" ?c] l
    by (simp add: entry_bytes_def encode_entry_def add.assoc)
  have "(case node_data n of None \<Rightarrow> ?b3
      | Some p \<Rightarrow> if d > 0 then mem_write ?b3 (off + 7 + ?l) (mem_read (heap_bytes h) p d) else ?b3) =
      mem_write ?b3 (off + 7 + ?l) ?c"
    using assms(2) by (auto simp: d_def node_payload_def node_content_def entry_wf_def mem_read_def split: option.splits)
  then have "buf' = mem_write buf off (entry_bytes h n)"
    using assms(1) unfolding persist_append_entry_def Let_def d_def [symmetric] b4 by (simp split: if_splits)
  moreover have "length (entry_bytes h n) = 1 + 2 + 4 + ?l + d"
    by (simp add: entry_bytes_def encode_entry_def l)
  ultimately show ?thesis
    using assms(1) unfolding persist_append_entry_def Let_def d_def [symmetric] by (auto split: if_splits)
qed

lemma append_entries_layout:
  assumes "append_entries h nodes (buf, off, cnt) = (True, buf', off', cnt')" "\<forall>n\<in>set nodes. entry_wf n" "off \<le> PERSIST_BYTES"
  shows "buf' = mem_write buf off (concat (map (entry_bytes h) nodes)) \<and>
    off' = off + length (concat (map (entry_bytes h) nodes)) \<and> off' \<le> PERSIST_BYTES \<and>
    cnt' = cnt + of_nat (length nodes)"
  using assms
proof (induction nodes arbitrary: buf off cnt)
  case (Cons n nodes)
  then obtain b1 o1 c1 where e: "persist_append_entry h buf off cnt n = Some (b1, o1, c1)"
    and rest: "append_entries h nodes (b1, o1, c1) = (True, buf', off', cnt')"
    by (auto split: option.splits)
  from append_entry_layout [OF e] Cons.prems(2)
  have l: "b1 = mem_write buf off (entry_bytes h n)" "o1 = off + length (entry_bytes h n)" "o1 \<le> PERSIST_BYTES" "c1 = cnt + 1"
    by auto
  from Cons.IH [OF rest _ l(3)] Cons.prems(2) show ?case
    using l mem_write_append [of buf off "entry_bytes h n"] by (simp add: add.assoc)
qed simp

text \<open>The entry loop never writes past the end of \<^verbatim>\<open>persist_buf\<close>, whether or not everything fits.\<close>

lemma append_entry_bound:
  assumes "persist_append_entry h buf off cnt n = Some (buf', off', cnt')"
  shows "off' \<le> PERSIST_BYTES \<and> off \<le> off' \<and> (\<forall>x\<ge>PERSIST_BYTES. buf' x = buf x)"
  using assms unfolding persist_append_entry_def Let_def
  by (auto simp: put_u16_write put_u32_write mem_write_def split: if_splits option.splits)

lemma append_entries_bound:
  "append_entries h nodes (buf, off, cnt) = (ok, buf', off', cnt') \<Longrightarrow> off \<le> PERSIST_BYTES \<Longrightarrow>
     off' \<le> PERSIST_BYTES \<and> off \<le> off' \<and> (\<forall>x\<ge>PERSIST_BYTES. buf' x = buf x)"
proof (induction nodes arbitrary: buf off cnt)
  case (Cons n nodes)
  show ?case
  proof (cases "persist_append_entry h buf off cnt n")
    case None
    then show ?thesis using Cons.prems by simp
  next
    case (Some r)
    obtain b1 o1 c1 where r: "r = (b1, o1, c1)" by (rule prod_cases3)
    note b = append_entry_bound [OF Some [unfolded r]]
    from Cons.IH [of b1 o1 c1] Cons.prems Some r b show ?thesis by auto
  qed
qed simp

section \<open>A saved snapshot reads back\<close>

text \<open>The image of a snapshot in memory: header fields and payload.\<close>

definition snapshot_image :: "mem \<Rightarrow> u32 \<Rightarrow> u32 \<Rightarrow> bytes \<Rightarrow> bool" where
  "snapshot_image m seq cnt pay \<longleftrightarrow>
     mem_read m 0 7 = PERSIST_MAGIC \<and> get_u32 m 8 = PERSIST_VERSION \<and> get_u32 m 12 = cnt \<and>
     get_u32 m 16 = of_nat (length pay) \<and> get_u32 m 20 = foldl checksum_step 0 pay \<and>
     get_u32 m PERSIST_SEQUENCE_OFFSET = seq \<and> mem_read m PERSIST_HEADER_SIZE (length pay) = pay \<and>
     unat cnt \<le> MAX_FILES \<and> length pay \<le> PERSIST_BYTES - PERSIST_HEADER_SIZE"

definition image_meta :: "u32 \<Rightarrow> u32 \<Rightarrow> bytes \<Rightarrow> u32 \<Rightarrow> persist_meta" where
  "image_meta seq cnt pay slot =
    \<lparr>meta_valid = True, meta_version = PERSIST_VERSION, meta_entry_count = cnt,
     meta_payload_size = of_nat (length pay), meta_checksum = foldl checksum_step 0 pay,
     meta_sequence = seq, meta_slot = slot\<rparr>"

lemma persist_sizes: "PERSIST_HEADER_SIZE = 512" "PERSIST_BYTES = 1048576" "SECTOR_SIZE = 512"
  "PERSIST_SEQUENCE_OFFSET = 24" "PERSIST_SECTORS = 2048" "MAX_FILES = 256"
  by (simp_all add: PERSIST_HEADER_SIZE_def PERSIST_BYTES_def SECTOR_SIZE_def PERSIST_SEQUENCE_OFFSET_def
      PERSIST_SECTORS_def MAX_FILES_def)

lemma unat_payload: "n \<le> 1048064 \<Longrightarrow> unat (of_nat n :: u32) = n"
  by (simp add: unsigned_of_nat take_bit_nat_eq_self)

lemma validate_image:
  assumes "snapshot_image m seq cnt pay"
  shows "persist_snapshot_validate m slot = Some (image_meta seq cnt pay slot)"
proof -
  have "unat (of_nat (length pay) :: u32) = length pay"
    using assms by (intro unat_payload) (simp add: snapshot_image_def persist_sizes)
  then show ?thesis
    using assms by (simp add: persist_snapshot_validate_def snapshot_image_def image_meta_def Let_def
        persist_checksum_read)
qed

lemma snapshot_image_cong:
  assumes "snapshot_image m seq cnt pay" "\<And>x. x < PERSIST_HEADER_SIZE + length pay \<Longrightarrow> m' x = m x"
  shows "snapshot_image m' seq cnt pay"
proof -
  have "mem_read m' 0 7 = mem_read m 0 7" "mem_read m' PERSIST_HEADER_SIZE (length pay) = mem_read m PERSIST_HEADER_SIZE (length pay)"
    by (rule mem_read_cong, use assms(2) in \<open>simp add: persist_sizes\<close>)+
  moreover have "get_u32 m' p = get_u32 m p" if "p + 4 \<le> 512" for p
    by (rule get_u32_cong) (use assms(2) that in \<open>simp add: persist_sizes\<close>)
  ultimately show ?thesis using assms(1) by (simp add: snapshot_image_def persist_sizes)
qed

lemma save_seal_image:
  assumes "save_seal (mem_write (save_header s) PERSIST_HEADER_SIZE pay) (PERSIST_HEADER_SIZE + length pay) cnt = (b, p, ck)"
    and len: "length pay \<le> PERSIST_BYTES - PERSIST_HEADER_SIZE" and "unat cnt \<le> MAX_FILES"
  shows "snapshot_image b (save_next_sequence s) cnt pay \<and> p = of_nat (length pay) \<and> ck = foldl checksum_step 0 pay"
proof -
  let ?m = "mem_write (save_header s) 512 pay"
  have p: "p = of_nat (length pay)" and b: "b = put_u32 (put_u32 (put_u32 ?m 12 cnt) 16 p) 20 ck"
    and ck: "ck = persist_checksum ?m 512 (unat p)"
    using assms(1) by (auto simp: save_seal_def Let_def persist_sizes)
  have up: "unat p = length pay" unfolding p using len by (intro unat_payload) (simp add: persist_sizes)
  have ck': "ck = foldl checksum_step 0 pay" unfolding ck up persist_checksum_read by simp
  have low: "b x = save_header s x" if "x < 12 \<or> 24 \<le> x \<and> x < 512" for x
    unfolding b using that by (auto simp: put_u32_other mem_write_other)
  have hdr: "save_header s x = (if x < 7 then PERSIST_MAGIC ! x else put_u32 (\<lambda>_. 0) 8 PERSIST_VERSION x)" if "x < 12" for x
    using that unfolding save_header_def Let_def
    by (auto simp: persist_sizes put_u32_other mem_write_def PERSIST_MAGIC_def memset_def memset_loop_at put_u32_def)
  have "mem_read b 0 7 = PERSIST_MAGIC"
    by (rule nth_equalityI) (simp_all add: mem_read_def low hdr PERSIST_MAGIC_def)
  moreover have "get_u32 b 8 = get_u32 (put_u32 (\<lambda>_. 0) 8 PERSIST_VERSION) 8"
    by (rule get_u32_cong) (simp add: low hdr)
  moreover have "get_u32 b 24 = save_next_sequence s"
    using get_u32_cong [of b 24 "save_header s" 24] low by (simp add: save_header_def Let_def persist_sizes)
  moreover have "get_u32 b 12 = get_u32 (put_u32 ?m 12 cnt) 12" "get_u32 b 16 = get_u32 (put_u32 (put_u32 ?m 12 cnt) 16 p) 16"
    by (rule get_u32_cong, simp add: b put_u32_other)+
  moreover have "get_u32 b 20 = ck" by (simp add: b)
  moreover have "mem_read b 512 (length pay) = mem_read ?m 512 (length pay)"
    by (rule mem_read_cong) (simp add: b put_u32_other)
  ultimately show ?thesis
    using p ck' len assms(3) by (simp add: snapshot_image_def persist_sizes)
qed

definition slot_holds :: "('d \<Rightarrow> u64 \<Rightarrow> bytes) \<Rightarrow> 'd \<Rightarrow> u64 \<Rightarrow> mem \<Rightarrow> nat \<Rightarrow> bool" where
  "slot_holds sec d lba m n \<longleftrightarrow> (\<forall>k<n. sec d (lba + of_nat k) = mem_read m (k * SECTOR_SIZE) SECTOR_SIZE)"

lemma save_sectors_count:
  assumes "len \<le> PERSIST_BYTES - PERSIST_HEADER_SIZE"
  shows "persist_snapshot_sector_count len = save_sectors (PERSIST_HEADER_SIZE + len)"
    "1 \<le> save_sectors (PERSIST_HEADER_SIZE + len)" "save_sectors (PERSIST_HEADER_SIZE + len) \<le> PERSIST_SECTORS"
    "PERSIST_HEADER_SIZE + len \<le> save_sectors (PERSIST_HEADER_SIZE + len) * SECTOR_SIZE"
proof -
  have "(512 + len + 511) div 512 \<le> 2048" "0 < (512 + len + 511) div 512" "512 + len \<le> (512 + len + 511) div 512 * 512"
    using assms by (simp_all add: persist_sizes)
  then show "persist_snapshot_sector_count len = save_sectors (PERSIST_HEADER_SIZE + len)"
    "1 \<le> save_sectors (PERSIST_HEADER_SIZE + len)" "save_sectors (PERSIST_HEADER_SIZE + len) \<le> PERSIST_SECTORS"
    "PERSIST_HEADER_SIZE + len \<le> save_sectors (PERSIST_HEADER_SIZE + len) * SECTOR_SIZE"
    by (simp_all add: persist_snapshot_sector_count_def save_sectors_def Let_def persist_sizes)
qed

lemma slot_holds_at:
  assumes "slot_holds sec d lba m n" "x < n * SECTOR_SIZE"
  shows "sec d (lba + of_nat (x div SECTOR_SIZE)) ! (x mod SECTOR_SIZE) = m x"
proof -
  have "x div SECTOR_SIZE < n" using assms(2) by (simp add: less_mult_imp_div_less)
  then have "sec d (lba + of_nat (x div SECTOR_SIZE)) = mem_read m (x div SECTOR_SIZE * SECTOR_SIZE) SECTOR_SIZE"
    using assms(1) by (simp add: slot_holds_def)
  then show ?thesis by (simp add: mem_read_def persist_sizes)
qed

lemma read_slot_image:
  assumes D: "sector_device st sec" and slot: "slot < persist_slots_available t"
    and img: "snapshot_image m seq cnt pay"
    and holds: "slot_holds sec (dev t) (persist_slot_lba t slot) m (save_sectors (PERSIST_HEADER_SIZE + length pay))"
  shows "case persist_read_slot_snapshot st t slot of
      (Inl e, t') \<Rightarrow> e = -1
    | (Inr meta, t') \<Rightarrow> meta = image_meta seq cnt pay slot \<and> snapshot_image (persist_buf t') seq cnt pay"
proof -
  let ?lba = "persist_slot_lba t slot" and ?n = "save_sectors (PERSIST_HEADER_SIZE + length pay)"
  have len: "length pay \<le> PERSIST_BYTES - PERSIST_HEADER_SIZE" using img by (simp add: snapshot_image_def)
  note ns = save_sectors_count [OF len]
  obtain ok1 t1 where r1: "persist_storage_read st ?lba 0 1 t = (ok1, t1)" by (cases "persist_storage_read st ?lba 0 1 t")
  note L1 = persist_read_loop_sec [OF D r1 [unfolded persist_storage_read_def]]
  have b1: "persist_buf t1 x = m x" if "ok1" "x < 512" for x
  proof -
    have "persist_buf t1 x = sec (dev t) (?lba + of_nat (x div SECTOR_SIZE)) ! (x mod SECTOR_SIZE)"
      using L1 that by (simp add: persist_sizes)
    also have "\<dots> = m x" using ns(2) that by (intro slot_holds_at [OF holds]) (simp add: persist_sizes)
    finally show ?thesis .
  qed
  obtain ok2 t2 where r2: "(if ?n > 1 then persist_storage_read st (?lba + 1) SECTOR_SIZE (?n - 1) t1 else (True, t1)) = (ok2, t2)"
    by (cases "if ?n > 1 then persist_storage_read st (?lba + 1) SECTOR_SIZE (?n - 1) t1 else (True, t1)")
  have b2: "persist_buf t2 x = m x" if "ok1" "ok2" "x < ?n * SECTOR_SIZE" for x
  proof (cases "?n > 1")
    case True
    then have "persist_read_loop st (?lba + 1) SECTOR_SIZE (?n - 1) 0 t1 = (ok2, t2)"
      using r2 by (simp add: persist_storage_read_def)
    from persist_read_loop_sec [OF D this] L1 that(2) have L2: "persist_buf t2 x =
      (if SECTOR_SIZE \<le> x \<and> x < SECTOR_SIZE + (?n - 1) * SECTOR_SIZE
       then sec (dev t) (?lba + 1 + of_nat ((x - SECTOR_SIZE) div SECTOR_SIZE)) ! ((x - SECTOR_SIZE) mod SECTOR_SIZE)
       else persist_buf t1 x)" by simp
    show ?thesis
    proof (cases "x < SECTOR_SIZE")
      case True
      then show ?thesis using L2 b1 that(1) by (simp add: persist_sizes)
    next
      case False
      have "SECTOR_SIZE + (?n - 1) * SECTOR_SIZE = ?n * SECTOR_SIZE"
        using ns(2) by (simp add: algebra_simps diff_mult_distrib)
      moreover have "x div SECTOR_SIZE = Suc ((x - SECTOR_SIZE) div SECTOR_SIZE)" "x mod SECTOR_SIZE = (x - SECTOR_SIZE) mod SECTOR_SIZE"
        using False by (simp_all add: persist_sizes le_div_geq le_mod_geq)
      ultimately show ?thesis using L2 slot_holds_at [OF holds that(3)] False that(3) by (simp add: add.assoc)
    qed
  next
    case False
    then show ?thesis using r2 b1 that ns(2) by (auto simp: persist_sizes)
  qed
  have f: "get_u32 (persist_buf t1) p = get_u32 m p" if "ok1" "p + 4 \<le> 512" for p
    by (rule get_u32_cong) (use b1 that in simp)
  have magic: "ok1 \<Longrightarrow> mem_read (persist_buf t1) 0 7 = mem_read m 0 7"
    by (rule mem_read_cong) (simp add: b1)
  have img2: "snapshot_image (persist_buf t2) seq cnt pay" if "ok1" "ok2"
    by (rule snapshot_image_cong [OF img]) (use b2 that ns(4) in simp)
  have ul: "unat (of_nat (length pay) :: u32) = length pay" using len by (intro unat_payload) (simp add: persist_sizes)
  have im: "mem_read m 0 7 = PERSIST_MAGIC" "get_u32 m 8 = PERSIST_VERSION" "get_u32 m 12 = cnt"
    "get_u32 m 16 = of_nat (length pay)" "unat cnt \<le> MAX_FILES" using img by (simp_all add: snapshot_image_def)
  have "persist_read_slot_snapshot st t slot =
      (if \<not> ok1 then (Inl (-1), t1) else if \<not> ok2 then (Inl (-1), t2) else (Inr (image_meta seq cnt pay slot), t2))"
    using slot r1 r2 len validate_image [OF img2, of slot]
    by (cases ok1; cases ok2) (simp_all add: persist_read_slot_snapshot_def Let_def f magic im leD [OF im(5)] ul ns(1) not_le)
  then show ?thesis using img2 by (cases ok1; cases ok2) simp_all
qed

section \<open>What a save does to the disk\<close>

lemma read_sector_sec: "sector_device st sec \<Longrightarrow> read_sector st s lba = (ok, s') \<Longrightarrow> sec (dev s') = sec (dev s)"
  by (cases "storage_read st (dev s) lba 1") (auto simp: read_sector_def dest!: sector_read split: option.splits)

lemma scan_partitions_sec:
  assumes D: "sector_device st sec"
  shows "scan_partitions st l n i s = (ok, s') \<Longrightarrow> sec (dev s') = sec (dev s)"
proof (induction "n - i" arbitrary: i s rule: less_induct)
  case less
  obtain ok1 s1 where r: "read_sector st s (l + of_nat (i * 128 div SECTOR_SIZE)) = (ok1, s1)"
    by (cases "read_sector st s (l + of_nat (i * 128 div SECTOR_SIZE))")
  then have s1: "sec (dev s1) = sec (dev s)" by (rule read_sector_sec [OF D])
  show ?case
  proof (cases "i < n \<and> ok1 \<and> entry_partition (persist_sector s1) (i * 128 mod SECTOR_SIZE) = None")
    case True
    have "n - Suc i < n - i" using conjunct1 [OF True] by arith
    moreover have "scan_partitions st l n (Suc i) s1 = (ok, s')"
      using less.prems True r by (subst (asm) scan_partitions.simps) simp
    ultimately show ?thesis using less.hyps s1 by metis
  next
    case False
    have "dev s' = dev s \<or> dev s' = dev s1"
      using less.prems r False unfolding scan_partitions.simps [of st l n i s]
      by (cases "entry_partition (persist_sector s1) (i * 128 mod SECTOR_SIZE)"; cases "i < n"; cases ok1) auto
    then show ?thesis using s1 by auto
  qed
qed

lemma partition_present_sec:
  assumes D: "sector_device st sec" and "persist_orizon_data_partition_present st s = (ok, s')"
  shows "sec (dev s') = sec (dev s)"
proof -
  let ?s = "s\<lparr>persist_slots_available := 0, persist_data_sectors := 0\<rparr>"
  obtain ok1 s1 where r: "read_sector st ?s 1 = (ok1, s1)" by (cases "read_sector st ?s 1")
  then have s1: "sec (dev s1) = sec (dev s)" using read_sector_sec [OF D r] by simp
  have "sec (dev t) = sec (dev s)" if "scan_partitions st l n i s1 = (okt, t)" for l n i okt t
    using scan_partitions_sec [OF D that] s1 by simp
  then show ?thesis
    using assms(2) r s1 unfolding persist_orizon_data_partition_present_def
    by (auto simp: Let_def split: if_splits bool.splits)
qed

text \<open>Nodes that a well-formed file system persists.\<close>

lemma persisted_wf:
  assumes "vfs_ok s"
  shows "\<forall>n \<in> set (persisted_dirs s @ persisted_files s). entry_wf n"
    and "length (persisted_dirs s @ persisted_files s) \<le> MAX_FILES"
proof -
  have t: "tab_ok s" and d: "data_ok s" using assms by (simp_all add: vfs_ok_def)
  have "entry_wf n" if "n \<in> set (take (inode_count s) (inodes s))" for n
  proof -
    obtain i where "i < inode_count s" "n = inodes s ! i" using \<open>n \<in> _\<close> by (auto simp: in_set_conv_nth)
    then have "node_ok (heap s) n" using data_okD(2) [OF d] by simp
    then show ?thesis by (auto simp: node_ok_def entry_wf_def)
  qed
  then show "\<forall>n \<in> set (persisted_dirs s @ persisted_files s). entry_wf n"
    by (auto simp: persisted_dirs_def persisted_files_def)
  have "length (filter P xs) + length (filter Q xs) \<le> length xs" if "\<And>x. \<not> (P x \<and> Q x)" for P Q and xs :: "inode list"
    using that by (induction xs) (auto simp: less_imp_le le_SucI)
  from this [of "\<lambda>n. node_type n = 1 \<and> path_should_persist (node_path n) \<and> \<not> path_is_persistent_root (node_path n)"
      "\<lambda>n. node_type n = 0 \<and> path_should_persist (node_path n)" "take (inode_count s) (inodes s)"]
  show "length (persisted_dirs s @ persisted_files s) \<le> MAX_FILES"
    using tab_okD(3) [OF t] by (simp add: persisted_dirs_def persisted_files_def)
qed

definition snapshot_payload :: "'d vfs \<Rightarrow> bytes" where
  "snapshot_payload s = concat (map (entry_bytes (heap s)) (persisted_dirs s @ persisted_files s))"

lemma write_snapshot_disk:
  assumes D: "sector_device st sec" and slots: "persist_slots_available s = 1 \<or> persist_slots_available s = 2"
    and w: "persist_write_snapshot st s = Some (r, s')"
  shows "(\<forall>l. (\<forall>k<PERSIST_SECTORS. l \<noteq> persist_slot_lba s (save_target_slot s) + of_nat k) \<longrightarrow> sec (dev s') l = sec (dev s) l) \<and>
    (vfs_ok s \<and> r = Inr () \<longrightarrow>
      persist_active_slot s' = uint (save_target_slot s) \<and> persist_sequence s' = save_next_sequence s \<and>
      (\<exists>m. snapshot_image m (save_next_sequence s) (of_nat (length (persisted_dirs s @ persisted_files s))) (snapshot_payload s) \<and>
        slot_holds sec (dev s') (persist_slot_lba s (save_target_slot s)) m
          (save_sectors (PERSIST_HEADER_SIZE + length (snapshot_payload s)))))"
proof -
  let ?nodes = "persisted_dirs s @ persisted_files s" and ?lba = "persist_slot_lba s (save_target_slot s)"
  obtain full buf off cnt where ap: "append_entries (heap s) ?nodes (save_header s, PERSIST_HEADER_SIZE, 0) = (full, buf, off, cnt)"
    by (rule prod_cases4)
  have off: "off \<le> PERSIST_BYTES" using append_entries_bound [OF ap] by (simp add: persist_sizes)
  show ?thesis
  proof (cases full)
    case False
    then show ?thesis using w ap by (auto simp: persist_write_snapshot_def persist_set_status_eq)
  next
    case True
    obtain b p ck where seal: "save_seal buf off cnt = (b, p, ck)" by (rule prod_cases3)
    let ?n = "save_sectors off"
    have "(off + 512 - 1) div 512 \<le> 2048" using off by (simp add: persist_sizes)
    then have n: "?n \<le> PERSIST_SECTORS" by (simp add: save_sectors_def Let_def persist_sizes)
    obtain ok d where wr: "persist_storage_write st ?lba b ?n (dev s) = (ok, d)"
      by (cases "persist_storage_write st ?lba b ?n (dev s)")
    have "?n < 2 ^ 64" using n by (simp add: persist_sizes)
    note disk = persist_write_loop_sec [OF D this wr [unfolded persist_storage_write_def]]
    let ?u = "s\<lparr>persist_buf := b, dev := d, persist_active_slot := uint (save_target_slot s),
      persist_sequence := save_next_sequence s, persist_last_entry_count := cnt, persist_last_payload_size := p,
      persist_last_checksum := ck, persist_last_version := PERSIST_VERSION\<rparr>"
    have "sint (word_of_int (persist_active_slot ?u) :: u32) \<noteq> - (2 ^ 31)"
      using target_slot_small [OF slots] by auto
    from format_active_defined [OF this] obtain t where t: "persist_format_status_active ?u = Some (?u\<lparr>persist_status := t\<rparr>)" by auto
    have lba: "persist_slot_lba (s\<lparr>persist_buf := b\<rparr>) x = persist_slot_lba s x" for x by (simp add: persist_slot_lba_def)
    have s': "dev s' = d" "r = Inr () \<longleftrightarrow> ok" "ok \<Longrightarrow> persist_active_slot s' = uint (save_target_slot s) \<and> persist_sequence s' = save_next_sequence s"
      using w ap True seal wr t by (cases ok; auto simp: persist_write_snapshot_def persist_set_status_eq lba)+
    have "\<exists>m. snapshot_image m (save_next_sequence s) (of_nat (length ?nodes)) (snapshot_payload s) \<and>
        slot_holds sec d ?lba m (save_sectors (PERSIST_HEADER_SIZE + length (snapshot_payload s)))" if "vfs_ok s" "ok"
    proof -
      have ap1: "append_entries (heap s) ?nodes (save_header s, PERSIST_HEADER_SIZE, 0) = (True, buf, off, cnt)"
        using ap True by simp
      from append_entries_layout [OF ap1 persisted_wf(1) [OF that(1)]]
      have lay: "buf = mem_write (save_header s) PERSIST_HEADER_SIZE (snapshot_payload s)"
        "off = PERSIST_HEADER_SIZE + length (snapshot_payload s)" "cnt = of_nat (length ?nodes)"
        by (simp_all add: snapshot_payload_def persist_sizes)
      have "length (snapshot_payload s) \<le> PERSIST_BYTES - PERSIST_HEADER_SIZE" using off lay(2) by simp
      moreover have "unat (of_nat (length ?nodes) :: u32) \<le> MAX_FILES"
        using persisted_wf(2) [OF that(1)] unat_payload [of "length ?nodes"] by (simp add: persist_sizes)
      ultimately have "snapshot_image b (save_next_sequence s) cnt (snapshot_payload s)"
        using save_seal_image [OF seal [unfolded lay(1,2)]] lay(3) by blast
      then show ?thesis using disk that(2) lay by (intro exI [of _ b]) (simp add: slot_holds_def)
    qed
    moreover have "sec d l = sec (dev s) l" if "\<forall>k<PERSIST_SECTORS. l \<noteq> ?lba + of_nat k" for l
      using disk that n by auto
    ultimately show ?thesis using s' by auto
  qed
qed

lemma slots_disjoint:
  assumes "a \<noteq> b" "a = 0 \<or> a = 1" "b = 0 \<or> b = 1" "j < PERSIST_SECTORS" "k < PERSIST_SECTORS"
  shows "persist_slot_lba s a + of_nat j \<noteq> persist_slot_lba s b + of_nat k"
proof
  assume eq: "persist_slot_lba s a + of_nat j = persist_slot_lba s b + of_nat k"
  have lba: "persist_slot_lba s c + of_nat i = persist_lba s + of_nat (unat c * 2048 + i)" if "c = 0 \<or> c = 1" for c i
    using that by (auto simp: persist_slot_lba_def persist_sizes)
  have "(of_nat (unat a * 2048 + j) :: u64) = of_nat (unat b * 2048 + k)"
    using eq unfolding lba [OF assms(2)] lba [OF assms(3)] by simp
  moreover have "unat a * 2048 + j < 2 ^ 64" "unat b * 2048 + k < 2 ^ 64" using assms by (auto simp: persist_sizes)
  ultimately have "unat a * 2048 + j = unat b * 2048 + k" using of_nat_u64_inj by blast
  then show False using assms by (auto simp: persist_sizes)
qed

section \<open>Choosing a snapshot\<close>

text \<open>Newer-than compares version, then sequence, then prefers the lower slot: a lexicographic order.\<close>

definition meta_key :: "persist_meta \<Rightarrow> u32 \<times> u32 \<times> int" where
  "meta_key m = (meta_version m, meta_sequence m, - uint (meta_slot m))"

lemma newer_key:
  "meta_valid a \<Longrightarrow> meta_valid b \<Longrightarrow> persist_snapshot_is_newer a b \<longleftrightarrow> meta_key b < meta_key a"
  by (auto simp: persist_snapshot_is_newer_def meta_key_def less_prod_def' word_less_def)

lemma read_slot_valid: "persist_read_slot_snapshot st s slot = (Inr m, s') \<Longrightarrow> meta_valid m"
  by (auto simp: persist_read_slot_snapshot_def persist_snapshot_validate_def Let_def
      split: if_splits prod.splits bool.splits option.splits)

text \<open>What the scan reads, slot by slot, without the selection.\<close>

fun read_slots :: "'d storage \<Rightarrow> u32 list \<Rightarrow> 'd vfs \<Rightarrow> (int + persist_meta) list \<times> 'd vfs" where
  "read_slots st [] s = ([], s)"
| "read_slots st (slot # slots) s =
    (case persist_read_slot_snapshot st s slot of (r, s) \<Rightarrow>
       case read_slots st slots s of (rs, s) \<Rightarrow> (r # rs, s))"

definition newest_of :: "persist_meta \<Rightarrow> (int + persist_meta) list \<Rightarrow> persist_meta \<Rightarrow> bool" where
  "newest_of best rs m \<longleftrightarrow>
     (m = best \<or> Inr m \<in> set rs) \<and> \<not> persist_snapshot_is_newer best m \<and>
     (\<forall>m'. Inr m' \<in> set rs \<longrightarrow> \<not> persist_snapshot_is_newer m' m) \<and>
     (meta_valid m \<longleftrightarrow> meta_valid best \<or> (\<exists>m'. Inr m' \<in> set rs))"

lemma newer_irrefl [simp]: "\<not> persist_snapshot_is_newer m m"
  by (simp add: persist_snapshot_is_newer_def)

lemma newer_trans:
  "\<not> persist_snapshot_is_newer a b \<Longrightarrow> \<not> persist_snapshot_is_newer b c \<Longrightarrow> \<not> persist_snapshot_is_newer a c"
  using newer_key [of a b] newer_key [of b c] newer_key [of a c]
  by (cases "meta_valid a"; cases "meta_valid b"; cases "meta_valid c") (auto simp: persist_snapshot_is_newer_def)

lemma newer_asym: "persist_snapshot_is_newer a b \<Longrightarrow> \<not> persist_snapshot_is_newer b a"
  using newer_key [of a b] newer_key [of b a]
  by (cases "meta_valid a"; cases "meta_valid b") (auto simp: persist_snapshot_is_newer_def)

lemma select_newest_reads:
  "read_slots st slots s = (rs, s1) \<Longrightarrow> select_newest st slots best e s = (m, e', s') \<Longrightarrow>
     s' = s1 \<and> (e' \<longleftrightarrow> e \<or> Inl (-1) \<in> set rs) \<and> newest_of best rs m"
proof (induction slots arbitrary: s best e rs s1)
  case Nil
  then show ?case by (auto simp: newest_of_def)
next
  case (Cons slot slots)
  obtain r t where r: "persist_read_slot_snapshot st s slot = (r, t)" by (cases "persist_read_slot_snapshot st s slot")
  obtain rs1 t1 where rs1: "read_slots st slots t = (rs1, t1)" by (cases "read_slots st slots t")
  have rs: "rs = r # rs1" "s1 = t1" using Cons.prems(1) r rs1 by simp_all
  show ?case
  proof (cases r)
    case (Inl x)
    then have "select_newest st slots best (e \<or> x = -1) t = (m, e', s')" using Cons.prems(2) r by simp
    from Cons.IH [OF rs1 this] show ?thesis using rs Inl by (auto simp: newest_of_def)
  next
    case (Inr m0)
    let ?b = "if persist_snapshot_is_newer m0 best then m0 else best"
    have v: "meta_valid m0" using read_slot_valid r Inr by blast
    have "select_newest st slots ?b e t = (m, e', s')" using Cons.prems(2) r Inr by simp
    from Cons.IH [OF rs1 this] have IH: "s' = t1" "e' \<longleftrightarrow> e \<or> Inl (-1) \<in> set rs1" "newest_of ?b rs1 m" by auto
    have b: "\<not> persist_snapshot_is_newer ?b m" using IH(3) by (simp add: newest_of_def)
    have "\<not> persist_snapshot_is_newer best ?b" "\<not> persist_snapshot_is_newer m0 ?b"
      using newer_asym by simp_all
    from newer_trans [OF this(1) b] newer_trans [OF this(2) b]
    have "\<not> persist_snapshot_is_newer best m" "\<not> persist_snapshot_is_newer m0 m" by simp_all
    moreover have "meta_valid ?b" using v by (auto simp: persist_snapshot_is_newer_def)
    ultimately have "newest_of best rs m"
      using IH(3) rs(1) Inr v by (auto simp: newest_of_def split: if_splits)
    then show ?thesis using IH rs Inr by auto
  qed
qed

text \<open>Where a successful save writes: the state after the partition scan and, on the first save, the slot scan.\<close>

lemma save_success:
  assumes "vfs_persist_save st s = Some (Inr (), s')"
  obtains u where "fs_same s u" "persist_slots_available u = 1 \<or> persist_slots_available u = 2"
    "persist_write_snapshot st u = Some (Inr (), s')"
proof -
  obtain ok s1 where pp: "persist_orizon_data_partition_present st s = (ok, s1)"
    by (cases "persist_orizon_data_partition_present st s")
  note f1 = partition_present_frame [OF pp]
  have go: "\<not> persist_loading s" "storage_available st (dev s)" ok
    using assms pp by (auto simp: vfs_persist_save_def persist_set_status_eq split: if_splits bool.splits)
  obtain s2 where s2: "persist_prepare_metadata_for_save st (s1\<lparr>persist_ready := True\<rparr>) = Some s2"
    "fs_same (s1\<lparr>persist_ready := True\<rparr>) s2" "layout_same (s1\<lparr>persist_ready := True\<rparr>) s2"
    using prepare_frame by blast
  show thesis
  proof (cases "persist_ready s1")
    case True
    then show thesis using assms pp go f1 by (intro that [of s1]) (simp_all add: vfs_persist_save_def)
  next
    case False
    then show thesis using assms pp go f1 s2
      by (intro that [of s2]) (auto simp: vfs_persist_save_def same_defs)
  qed
qed

lemma fs_same_abs:
  assumes "fs_same s u"
  shows "vfs_ok u = vfs_ok s" "fs_abs u = fs_abs s" "snapshot_payload u = snapshot_payload s" "find_inode u = find_inode s"
proof -
  show f: "find_inode u = find_inode s" using assms by (intro find_inode_cong) (simp_all add: fs_same_def)
  show "vfs_ok u = vfs_ok s" using assms by (simp add: vfs_ok_def tab_ok_def data_ok_def fs_same_def)
  show "fs_abs u = fs_abs s" using assms f by (simp add: fs_abs_def fs_same_def fun_eq_iff)
  show "snapshot_payload u = snapshot_payload s"
    using assms by (simp add: snapshot_payload_def persisted_dirs_def persisted_files_def fs_same_def)
qed

section \<open>A disk for the examples\<close>

text \<open>A memory disk with a one-entry partition table whose data partition spans 4096 sectors from sector 100, and
  a file system that holds only its root directory.\<close>

definition ram_sec :: "(u64 \<Rightarrow> bytes) \<Rightarrow> u64 \<Rightarrow> bytes" where
  "ram_sec d lba = (if length (d lba) = 512 then d lba else replicate 512 0)"

definition ram_dev :: "(u64 \<Rightarrow> bytes) storage" where
  "ram_dev = \<lparr>storage_available = (\<lambda>_. True), storage_read = (\<lambda>d lba n. (Some (ram_sec d lba), d)),
              storage_write = (\<lambda>d lba bs. if length bs = 512 then (True, d(lba := bs)) else (False, d))\<rparr>"

definition ram_gpt :: bytes where
  "ram_gpt = map of_char ''EFI PART'' @ replicate 64 0 @ [2, 0, 0, 0, 0, 0, 0, 0, 1, 0, 0, 0, 128, 0, 0, 0] @ replicate 424 0"

definition ram_entry :: bytes where
  "ram_entry = gpt_data_type @ replicate 16 0 @ [100, 0, 0, 0, 0, 0, 0, 0, 99, 16, 0, 0, 0, 0, 0, 0] @ replicate 464 0"

definition ram_disk :: "u64 \<Rightarrow> bytes" where
  "ram_disk lba = (if lba = 1 then ram_gpt else if lba = 2 then ram_entry else replicate 512 0)"

definition ram_vfs :: "(u64 \<Rightarrow> bytes) vfs" where
  "ram_vfs = (vfs_boot ram_disk)\<lparr>
     inodes := (replicate MAX_FILES null_inode)[0 :=
       \<lparr>node_name = [], node_path = ''/'', node_type = 1, node_data = None, node_size = 0, node_capacity = 0, node_parent = None\<rparr>],
     inode_count := 1, heap := kmalloc_init kheap_boot, persist_ready := True, persist_active_slot := 0\<rparr>"

lemma ram_sector_device: "sector_device ram_dev ram_sec"
  by (auto simp: sector_device_def ram_dev_def ram_sec_def SECTOR_SIZE_def fun_eq_iff)

lemma ram_vfs_ok: "vfs_ok ram_vfs"
proof -
  have "heap_ok (kmalloc_init kheap_boot)"
    using kmalloc_init_abs [of kheap_boot] by (auto simp: heap_ok_def kheap_boot_def)
  then show ?thesis
    by (simp add: ram_vfs_def vfs_ok_def tab_ok_def data_ok_def node_ok_def vfs_boot_def MAX_FILES_def MAX_PATH_def)
qed

lemma ram_scan:
  "\<exists>s1. persist_orizon_data_partition_present ram_dev ram_vfs = (True, s1) \<and> persist_slots_available s1 = 2"
proof -
  have g: "ram_sec ram_disk 1 = ram_gpt" "ram_sec ram_disk 2 = ram_entry" "length ram_gpt = 512" "length ram_entry = 512"
    by (simp_all add: ram_sec_def ram_disk_def ram_gpt_def ram_entry_def gpt_data_type_def)
  let ?m = "mem_write (\<lambda>_. 0) 0 ram_gpt" and ?e = "mem_write (mem_write (\<lambda>_. 0) 0 ram_gpt) 0 ram_entry"
  have h: "mem_read ?m 0 8 = map of_char ''EFI PART''" "persist_get_u64 ?m 72 = 2" "persist_get_u32 ?m 80 = 1"
    "persist_get_u32 ?m 84 = 128"
    by (simp_all add: mem_read_def upt_rec mem_write_def ram_gpt_def persist_get_u64_def persist_get_u32_def nth_append)
  have e: "mem_read ?e 0 16 = gpt_data_type" "persist_get_u64 ?e 32 = 100" "persist_get_u64 ?e 40 = 4195"
    by (simp_all add: mem_read_def upt_rec mem_write_def ram_entry_def persist_get_u64_def persist_get_u32_def nth_append gpt_data_type_def)
  show ?thesis
    using g h e unfolding persist_orizon_data_partition_present_def
    by (simp add: ram_vfs_def vfs_boot_def ram_dev_def read_sector_def Let_def scan_partitions.simps
        entry_partition_def slots_for_def PERSIST_SECTORS_def PERSIST_SLOT_COUNT_def)
qed

lemma ram_write_loop: "\<exists>d'. persist_write_loop ram_dev lba buf n i d = (True, d')"
proof (induction "n - i" arbitrary: i d rule: less_induct)
  case less
  show ?case
  proof (cases "i < n")
    case True
    then have "n - (i + 1) < n - i" by arith
    from less.hyps [OF this] True show ?thesis
      by (subst persist_write_loop.simps) (simp add: Let_def one_chunk ram_dev_def SECTOR_SIZE_def)
  qed (simp add: persist_write_loop.simps)
qed

lemma ram_save:
  obtains s' where "vfs_persist_save ram_dev ram_vfs = Some (Inr (), s')" "persist_slots_available s' = 2"
proof -
  obtain s1 where pp: "persist_orizon_data_partition_present ram_dev ram_vfs = (True, s1)"
    and two: "persist_slots_available s1 = 2" using ram_scan by blast
  note f = partition_present_frame [OF pp]
  have s1: "persist_ready s1" "inode_count s1 = 1" "inodes s1 = inodes ram_vfs" using f by (simp_all add: same_defs ram_vfs_def)
  have none: "persisted_dirs s1 = []" "persisted_files s1 = []"
    by (simp_all add: persisted_dirs_def persisted_files_def s1 ram_vfs_def MAX_FILES_def path_should_persist_def
        path_is_inside_def take_Suc numeral_eq_Suc)
  obtain r s' where w: "persist_write_snapshot ram_dev s1 = Some (r, s')" "layout_same s1 s'"
    using write_snapshot_frame [of s1 ram_dev] two by blast
  obtain b p ck where seal: "save_seal (save_header s1) PERSIST_HEADER_SIZE 0 = (b, p, ck)" by (rule prod_cases3)
  obtain d where "persist_storage_write ram_dev (persist_slot_lba (s1\<lparr>persist_buf := b\<rparr>) (save_target_slot s1)) b
      (save_sectors PERSIST_HEADER_SIZE) (dev s1) = (True, d)"
    unfolding persist_storage_write_def using ram_write_loop by blast
  then have "r = Inr ()"
    using w(1) by (simp add: persist_write_snapshot_def none seal bind_eq_Some_conv)
  moreover have "vfs_persist_save ram_dev ram_vfs = Some (r, s')"
    using pp s1(1) w(1) by (simp add: vfs_persist_save_def ram_vfs_def vfs_boot_def ram_dev_def)
  ultimately show thesis using that w(2) two by (simp add: layout_same_def)
qed

section \<open>Properties\<close>

text \<open>The loop that a load and a first save run over the slots returns the newest of the valid snapshots it
  reads, in the order version, sequence, lower slot; it finds none exactly when no slot holds a valid
  snapshot, and reports a read error exactly when one occurred.\<close>

theorem select_newest_is_newest:
  assumes "read_slots st slots s = (rs, s1)" "select_newest st slots meta_zero False s = (m, e, s')"
  shows "s' = s1 \<and> (e \<longleftrightarrow> Inl (-1) \<in> set rs) \<and> (meta_valid m \<longleftrightarrow> (\<exists>m'. Inr m' \<in> set rs)) \<and>
    (meta_valid m \<longrightarrow> Inr m \<in> set rs \<and> (\<forall>m'. Inr m' \<in> set rs \<longrightarrow> \<not> persist_snapshot_is_newer m' m))"
  using select_newest_reads [OF assms] by (auto simp: newest_of_def meta_zero_def)

theorem select_newest_is_newest_witness:
  "\<exists>m e s'. select_newest ram_dev [0, 1] meta_zero False ram_vfs = (m, e, s') \<and>
     (meta_valid m \<longleftrightarrow> (\<exists>m'. Inr m' \<in> set (fst (read_slots ram_dev [0, 1] ram_vfs))))"
proof -
  obtain m e s' where sel: "select_newest ram_dev [0, 1] meta_zero False ram_vfs = (m, e, s')" by (rule prod_cases3)
  obtain rs s1 where rd: "read_slots ram_dev [0, 1] ram_vfs = (rs, s1)" by (cases "read_slots ram_dev [0, 1] ram_vfs")
  from select_newest_is_newest [OF rd sel] show ?thesis using sel rd by auto
qed

text \<open>A snapshot whose payload differs in exactly one byte from the one its checksum was computed for is
  rejected: the checksum of \<^verbatim>\<open>persist_checksum\<close> detects every single-byte change.\<close>

theorem checksum_detects_byte:
  assumes "i < n" "m' (p + i) \<noteq> m (p + i)" "\<forall>j<n. j \<noteq> i \<longrightarrow> m' (p + j) = m (p + j)"
  shows "persist_checksum m' p n \<noteq> persist_checksum m p n"
  unfolding persist_checksum_read
  by (rule checksum_byte_change [of _ _ i]) (use assms in \<open>simp_all add: mem_read_def\<close>)

theorem checksum_detects_byte_witness:
  "persist_checksum ((\<lambda>_. 7)(1025 := 9)) 512 600 \<noteq> persist_checksum (\<lambda>_. 7) 512 600"
  by (rule checksum_detects_byte [of 513]) simp_all

text \<open>C33: A save never destroys the snapshot in use: with two slots, whatever the outcome of
  \<^verbatim>\<open>vfs_persist_save\<close> (success, a full buffer, or a write error at any sector), every sector of the
  slot that was active before the call is unchanged.\<close>

theorem save_keeps_active_slot:
  assumes "sector_device st sec" "vfs_persist_save st s = Some (r, s')" "persist_ready s"
    and "persist_slots_available s' = 2" "persist_active_slot s = 0 \<or> persist_active_slot s = 1" "k < PERSIST_SECTORS"
  shows "sec (dev s') (persist_slot_lba s' (word_of_int (persist_active_slot s)) + of_nat k) =
         sec (dev s) (persist_slot_lba s' (word_of_int (persist_active_slot s)) + of_nat k)"
proof -
  obtain ok s1 where pp: "persist_orizon_data_partition_present st s = (ok, s1)"
    by (cases "persist_orizon_data_partition_present st s")
  note sec1 = partition_present_sec [OF assms(1) pp] and f1 = partition_present_frame [OF pp]
  show ?thesis
  proof (cases "persist_loading s \<or> \<not> storage_available st (dev s) \<or> \<not> ok")
    case True
    then have "sec (dev s') = sec (dev s)"
      using assms(2) pp sec1 by (cases ok) (auto simp: vfs_persist_save_def persist_set_status_eq split: if_splits)
    then show ?thesis by simp
  next
    case False
    have rd: "persist_ready s1" "persist_active_slot s1 = persist_active_slot s"
      "persist_slots_available s1 = 1 \<or> persist_slots_available s1 = 2"
      using f1 assms(3) False by (auto simp: same_defs)
    have w: "persist_write_snapshot st s1 = Some (r, s')"
      using assms(2) False pp rd(1) by (simp add: vfs_persist_save_def)
    from write_snapshot_frame [OF rd(3), of st] w have lay: "layout_same s1 s'" by auto
    then have two: "persist_slots_available s1 = 2" and lba: "persist_slot_lba s' = persist_slot_lba s1"
      using assms(4) by (auto simp: layout_same_def persist_slot_lba_def fun_eq_iff)
    let ?a = "word_of_int (persist_active_slot s) :: u32"
    have a: "?a = 0 \<or> ?a = 1" "save_target_slot s1 \<noteq> ?a"
      using assms(5) two rd(2) by (auto simp: save_target_slot_def)
    have "\<forall>j<PERSIST_SECTORS. persist_slot_lba s1 ?a + of_nat k \<noteq> persist_slot_lba s1 (save_target_slot s1) + of_nat j"
      using slots_disjoint [OF a(2) [symmetric] a(1) target_slot_small [OF rd(3)] assms(6)] by blast
    then show ?thesis using write_snapshot_disk [OF assms(1) rd(3) w] sec1 by (simp add: lba)
  qed
qed

theorem save_keeps_active_slot_witness:
  "\<exists>s'. vfs_persist_save ram_dev ram_vfs = Some (Inr (), s') \<and>
     ram_sec (dev s') (persist_slot_lba s' 0 + 7) = ram_sec (dev ram_vfs) (persist_slot_lba s' 0 + 7)"
proof -
  obtain s' where s': "vfs_persist_save ram_dev ram_vfs = Some (Inr (), s')" "persist_slots_available s' = 2"
    by (rule ram_save)
  from save_keeps_active_slot [OF ram_sector_device s'(1) _ s'(2), of 7] s'(1) show ?thesis
    by (simp add: ram_vfs_def PERSIST_SECTORS_def)
qed

text \<open>C4: After a successful \<^verbatim>\<open>vfs_persist_save\<close> of a well-formed file system, reading the slot it wrote from
  any state with the same partition layout and disk contents (for instance after a reboot) either
  reports an I/O error or yields a valid snapshot with the new sequence number whose payload is the
  encoding of the persistent directories and files.\<close>

theorem save_then_read_back:
  assumes "sector_device st sec" "vfs_persist_save st s = Some (Inr (), s')" "vfs_ok s"
    and "layout_same s' t" "sec (dev t) = sec (dev s')"
  shows "case persist_read_slot_snapshot st t (word_of_int (persist_active_slot s')) of
      (Inl e, t') \<Rightarrow> e = -1
    | (Inr meta, t') \<Rightarrow> meta_valid meta \<and> meta_sequence meta = persist_sequence s' \<and>
        unat (meta_payload_size meta) = length (snapshot_payload s) \<and>
        mem_read (persist_buf t') PERSIST_HEADER_SIZE (length (snapshot_payload s)) = snapshot_payload s"
proof -
  from save_success [OF assms(2)] obtain u where u: "fs_same s u"
    "persist_slots_available u = 1 \<or> persist_slots_available u = 2"
    "persist_write_snapshot st u = Some (Inr (), s')" by blast
  have ok: "vfs_ok u" and pay: "snapshot_payload u = snapshot_payload s"
    using fs_same_abs [OF u(1)] assms(3) by auto
  let ?t = "save_target_slot u" and ?n = "of_nat (length (persisted_dirs u @ persisted_files u)) :: u32"
  from write_snapshot_disk [OF assms(1) u(2,3)] ok obtain m where
    act: "persist_active_slot s' = uint ?t" "persist_sequence s' = save_next_sequence u"
    and m: "snapshot_image m (save_next_sequence u) ?n (snapshot_payload s)"
    "slot_holds sec (dev s') (persist_slot_lba u ?t) m (save_sectors (PERSIST_HEADER_SIZE + length (snapshot_payload s)))"
    by (auto simp: pay)
  from write_snapshot_frame [OF u(2), of st] u(3) have lay: "layout_same u s'" by auto
  then have lba: "persist_slot_lba t = persist_slot_lba u" and av: "persist_slots_available t = persist_slots_available u"
    using assms(4) by (auto simp: layout_same_def persist_slot_lba_def fun_eq_iff)
  have lt: "?t < persist_slots_available t"
    using u(2) target_slot_small [OF u(2)] by (auto simp: av save_target_slot_def)
  have "slot_holds sec (dev t) (persist_slot_lba t ?t) m (save_sectors (PERSIST_HEADER_SIZE + length (snapshot_payload s)))"
    using m(2) assms(5) by (simp add: slot_holds_def lba)
  from read_slot_image [OF assms(1) lt m(1) this] act m(1)
  have "case persist_read_slot_snapshot st t ?t of (Inl e, t') \<Rightarrow> e = -1
    | (Inr meta, t') \<Rightarrow> meta = image_meta (save_next_sequence u) ?n (snapshot_payload s) ?t \<and>
       snapshot_image (persist_buf t') (save_next_sequence u) ?n (snapshot_payload s)" by simp
  moreover have "unat (of_nat (length (snapshot_payload s)) :: u32) = length (snapshot_payload s)"
    using m(1) by (intro unat_payload) (simp add: snapshot_image_def persist_sizes)
  ultimately show ?thesis
    by (auto simp: act image_meta_def snapshot_image_def split: prod.splits sum.splits)
qed

theorem save_then_read_back_witness:
  "\<exists>s'. vfs_persist_save ram_dev ram_vfs = Some (Inr (), s') \<and>
     (case persist_read_slot_snapshot ram_dev s' (word_of_int (persist_active_slot s')) of
        (Inl e, t') \<Rightarrow> e = -1
      | (Inr meta, t') \<Rightarrow> meta_valid meta \<and> meta_sequence meta = persist_sequence s')"
proof -
  obtain s' where s': "vfs_persist_save ram_dev ram_vfs = Some (Inr (), s')" by (rule ram_save)
  from save_then_read_back [OF ram_sector_device s' ram_vfs_ok, of s'] show ?thesis
    using s' by (auto split: prod.splits sum.splits)
qed

end
