(* ===== verification/VfsApi.thy ===== *)
theory VfsApi
  imports VfsPersist
begin

text \<open>
  The public operations of \<^verbatim>\<open>kernel/fs/vfs.c\<close>: initialisation, files, directories, deletion, renaming,
  and the restore of a snapshot. Each operation takes the storage driver, the state and its arguments and
  returns its result with the new state, in an option: \<open>None\<close> would be a call of the allocator, of
  \<^verbatim>\<open>snprintf\<close> or of the recursive deletion that does not return. A file handle is its index in
  \<^verbatim>\<open>open_files\<close> (\<open>None\<close> for NULL), and a buffer argument is the list of its bytes.

  The invariant and the abstract file system are those of the inode table theory; the theorems say how
  each operation changes the map from paths to nodes.
\<close>

section \<open>Initialisation\<close>

definition vfs_init :: "'d vfs \<Rightarrow> 'd vfs" where
  "vfs_init s =
    (if vfs_initialized s then s
     else let s = s\<lparr>heap := kmalloc_init (heap s), inodes := replicate MAX_FILES null_inode,
                    open_files := replicate MAX_OPEN null_file, inode_count := 0\<rparr>;
              (_, s) = create_inode s ''/'' 1
          in s\<lparr>vfs_initialized := True\<rparr>)"

section \<open>Files\<close>

definition O_WRONLY :: int where "O_WRONLY = 0x0001"
definition O_RDWR :: int where "O_RDWR = 0x0002"
definition O_CREAT :: int where "O_CREAT = 0x0100"
definition O_TRUNC :: int where "O_TRUNC = 0x0200"
definition O_APPEND :: int where "O_APPEND = 0x0400"

definition free_handle :: "'d vfs \<Rightarrow> nat option" where
  "free_handle s = find (\<lambda>i. \<not> file_valid (open_files s ! i)) [0..<MAX_OPEN]"

definition truncate_inode :: "'d vfs \<Rightarrow> nat \<Rightarrow> 'd vfs" where
  "truncate_inode s idx =
    (let node = inodes s ! idx
     in s\<lparr>heap := kfree (heap s) (node_data node),
          inodes := (inodes s)[idx := node\<lparr>node_data := None, node_size := 0, node_capacity := 0\<rparr>]\<rparr>)"

text \<open>The inode to open: the one found, or a new file with \<^verbatim>\<open>O_CREAT\<close>.\<close>

definition open_lookup :: "'d vfs \<Rightarrow> string \<Rightarrow> int \<Rightarrow> nat option \<times> 'd vfs" where
  "open_lookup s path flags =
    (case find_inode s path of
       Some i \<Rightarrow> (Some i, s)
     | None \<Rightarrow> if flags AND O_CREAT \<noteq> 0
               then (case create_inode s path 0 of (Inl _, s) \<Rightarrow> (None, s) | (Inr i, s) \<Rightarrow> (Some i, s))
               else (None, s))"

definition vfs_open :: "'d vfs \<Rightarrow> string \<Rightarrow> int \<Rightarrow> nat option \<times> 'd vfs" where
  "vfs_open s path flags =
    (let s = vfs_init s in
     case free_handle s of
       None \<Rightarrow> (None, s)
     | Some fd \<Rightarrow>
         (case open_lookup s path flags of
            (None, s) \<Rightarrow> (None, s)
          | (Some idx, s) \<Rightarrow>
                 if node_type (inodes s ! idx) = 1 then (None, s)
                 else let s = (if flags AND O_TRUNC \<noteq> 0 then truncate_inode s idx else s);
                          f = \<lparr>file_valid = True, file_inode = idx, file_flags = flags,
                               file_pos = (if flags AND O_APPEND \<noteq> 0 then node_size (inodes s ! idx) else 0)\<rparr>
                      in (Some fd, s\<lparr>open_files := (open_files s)[fd := f]\<rparr>)))"

definition vfs_close :: "'d storage \<Rightarrow> 'd vfs \<Rightarrow> nat option \<Rightarrow> 'd vfs option" where
  "vfs_close st s file =
    (case file of
       None \<Rightarrow> Some s
     | Some fd \<Rightarrow>
         let f = open_files s ! fd in
         if \<not> file_valid f then Some s
         else let s = s\<lparr>open_files := (open_files s)[fd := f\<lparr>file_valid := False\<rparr>]\<rparr>
              in if file_flags f AND (O_WRONLY OR O_RDWR OR O_CREAT OR O_TRUNC OR O_APPEND) \<noteq> 0
                 then maybe_persist_inode st s (file_inode f) else Some s)"

text \<open>\<^verbatim>\<open>vfs_read\<close> returns the bytes stored in the caller's buffer. A file with a size has data; where it has none,
  the C code leaves the buffer alone and still reports the count, which is the value \<open>None\<close> here.\<close>

definition vfs_read :: "'d vfs \<Rightarrow> nat option \<Rightarrow> nat \<Rightarrow> (errno + nat \<times> bytes option) \<times> 'd vfs" where
  "vfs_read s file count =
    (case file of
       None \<Rightarrow> (Inl EBADF, s)
     | Some fd \<Rightarrow>
         let f = open_files s ! fd in
         if \<not> file_valid f then (Inl EBADF, s)
         else let node = inodes s ! file_inode f in
           if node_type node = 1 then (Inl EISDIR, s)
           else if file_pos f \<ge> node_size node then (Inr (0, Some []), s)
           else let available = node_size node - file_pos f;
                    to_read = (if count < available then count else available);
                    bs = map_option (\<lambda>p. mem_read (heap_bytes (heap s)) (p + file_pos f) to_read) (node_data node)
                in (Inr (to_read, bs), s\<lparr>open_files := (open_files s)[fd := f\<lparr>file_pos := file_pos f + to_read\<rparr>]\<rparr>))"

text \<open>\<^verbatim>\<open>(new_size + 4095) & ~4095\<close> in 64 bits.\<close>

definition align4096 :: "nat \<Rightarrow> nat" where
  "align4096 n = add64 n 4095 div 4096 * 4096"

text \<open>The growing step of \<^verbatim>\<open>vfs_write\<close>: a larger allocation that receives the old contents. \<open>Some (None, s)\<close>
  is the failure of \<^verbatim>\<open>kmalloc\<close>.\<close>

definition grow_inode :: "'d vfs \<Rightarrow> nat \<Rightarrow> nat \<Rightarrow> (bool \<times> 'd vfs) option" where
  "grow_inode s idx new_size =
    (let node = inodes s ! idx; new_cap = align4096 new_size in do {
       (p, h) \<leftarrow> kmalloc (heap s) new_cap;
       (case p of
          None \<Rightarrow> Some (False, s\<lparr>heap := h\<rparr>)
        | Some new_data \<Rightarrow>
            let h = (case node_data node of
                       None \<Rightarrow> h
                     | Some old \<Rightarrow>
                         kfree (h\<lparr>heap_bytes := mem_write (heap_bytes h) new_data
                                   (mem_read (heap_bytes h) old (node_size node))\<rparr>) (Some old))
            in Some (True, s\<lparr>heap := h,
                 inodes := (inodes s)[idx := node\<lparr>node_data := Some new_data, node_capacity := new_cap\<rparr>]\<rparr>))
     })"

text \<open>The copy into the data and the update of position and size. The address is computed in 64 bits, and a
  NULL data pointer (a write of a file without capacity) is address 0 of another space, so it is not stored.\<close>

definition store_bytes :: "'d vfs \<Rightarrow> nat \<Rightarrow> nat \<Rightarrow> bytes \<Rightarrow> 'd vfs" where
  "store_bytes s fd idx buf =
    (let f = open_files s ! fd; node = inodes s ! idx;
         h = (case node_data node of
                None \<Rightarrow> heap s
              | Some p \<Rightarrow> (heap s)\<lparr>heap_bytes := mem_write (heap_bytes (heap s)) (add64 p (file_pos f)) buf\<rparr>);
         pos = add64 (file_pos f) (length buf)
     in s\<lparr>heap := h, open_files := (open_files s)[fd := f\<lparr>file_pos := pos\<rparr>],
          inodes := (inodes s)[idx := node\<lparr>node_size := (if pos > node_size node then pos else node_size node)\<rparr>]\<rparr>)"

definition vfs_write :: "'d vfs \<Rightarrow> nat option \<Rightarrow> bytes \<Rightarrow> ((errno + nat) \<times> 'd vfs) option" where
  "vfs_write s file buf =
    (case file of
       None \<Rightarrow> Some (Inl EBADF, s)
     | Some fd \<Rightarrow>
         let f = open_files s ! fd; count = length buf in
         if \<not> file_valid f then Some (Inl EBADF, s)
         else if count = 0 then Some (Inr 0, s)
         else let idx = file_inode f; node = inodes s ! idx in
           if node_type node = 1 then Some (Inl EISDIR, s)
           else let new_size = add64 (file_pos f) count in do {
             (ok, s) \<leftarrow> (if new_size > node_capacity node then grow_inode s idx new_size else Some (True, s));
             if \<not> ok then Some (Inl ENOMEM, s)
             else Some (Inr count, store_bytes s fd idx buf)
           })"

text \<open>The position is a \<^verbatim>\<open>size_t\<close> and the returned value the same number as an \<^verbatim>\<open>int\<close>.\<close>

definition vfs_seek :: "'d vfs \<Rightarrow> nat option \<Rightarrow> int \<Rightarrow> int \<Rightarrow> (errno + int) \<times> 'd vfs" where
  "vfs_seek s file offset whence =
    (case file of
       None \<Rightarrow> (Inl EBADF, s)
     | Some fd \<Rightarrow>
         let f = open_files s ! fd in
         if \<not> file_valid f then (Inl EBADF, s)
         else let node = inodes s ! file_inode f;
                  base = (if whence = 0 then Some 0
                          else if whence = 1 then Some (int (file_pos f))
                          else if whence = 2 then Some (int (node_size node)) else None)
              in case base of
                   None \<Rightarrow> (Inl EINVAL, s)
                 | Some b \<Rightarrow>
                     let new_pos = (b + offset) mod 2 ^ 64
                     in (Inr (signed_take_bit 31 new_pos),
                         s\<lparr>open_files := (open_files s)[fd := f\<lparr>file_pos := nat new_pos\<rparr>]\<rparr>))"

section \<open>Directories and lookups\<close>

definition vfs_mkdir :: "'d storage \<Rightarrow> 'd vfs \<Rightarrow> string \<Rightarrow> ((errno + nat) \<times> 'd vfs) option" where
  "vfs_mkdir st s path =
    (case create_inode (vfs_init s) path 1 of
       (Inl e, s) \<Rightarrow> Some (Inl e, s)
     | (Inr i, s) \<Rightarrow> do { s \<leftarrow> maybe_persist_path st s path; Some (Inr i, s) })"

definition vfs_create :: "'d storage \<Rightarrow> 'd vfs \<Rightarrow> string \<Rightarrow> ((errno + nat) \<times> 'd vfs) option" where
  "vfs_create st s path =
    (case create_inode (vfs_init s) path 0 of
       (Inl e, s) \<Rightarrow> Some (Inl e, s)
     | (Inr i, s) \<Rightarrow> do { s \<leftarrow> maybe_persist_path st s path; Some (Inr i, s) })"

record dirent =
  de_name :: string
  de_type :: int
  de_size :: nat

definition vfs_readdir :: "'d vfs \<Rightarrow> string \<Rightarrow> nat \<Rightarrow> (errno + dirent list) \<times> 'd vfs" where
  "vfs_readdir s path max_entries =
    (let s = vfs_init s in
     case find_inode s path of
       None \<Rightarrow> (Inl ENOENT, s)
     | Some dir_idx \<Rightarrow>
         if node_type (inodes s ! dir_idx) \<noteq> 1 then (Inl ENOTDIR, s)
         else (Inr (take max_entries
                 (map (\<lambda>n. \<lparr>de_name = str_cpy (node_name n) MAX_NAME, de_type = node_type n, de_size = node_size n\<rparr>)
                    (filter (\<lambda>n. node_parent n = Some dir_idx) (take (inode_count s) (inodes s))))), s))"

definition vfs_stat :: "'d vfs \<Rightarrow> string \<Rightarrow> errno + nat \<times> int" where
  "vfs_stat s path =
    (case find_inode s path of
       None \<Rightarrow> Inl ENOENT
     | Some i \<Rightarrow> Inr (node_size (inodes s ! i), node_type (inodes s ! i)))"

definition vfs_exists :: "'d vfs \<Rightarrow> string \<Rightarrow> bool" where
  "vfs_exists s path \<longleftrightarrow> find_inode s path \<noteq> None"

section \<open>Deletion and renaming\<close>

definition vfs_delete :: "'d storage \<Rightarrow> 'd vfs \<Rightarrow> string \<Rightarrow> ((errno + unit) \<times> 'd vfs) option" where
  "vfs_delete st s path =
    (case find_inode s path of
       None \<Rightarrow> Some (Inl ENOENT, s)
     | Some idx \<Rightarrow>
         if idx = 0 then Some (Inl EINVAL, s)
         else if node_type (inodes s ! idx) = 1 \<and>
                 list_ex (\<lambda>i. node_parent (inodes s ! i) = Some idx) [0..<inode_count s]
         then Some (Inl ENOTEMPTY, s)
         else let s = remove_inode s idx in
           if path_should_persist path
           then do { (_, s) \<leftarrow> vfs_persist_save st s; Some (Inr (), s) }
           else Some (Inr (), s))"

text \<open>The two loops of \<^verbatim>\<open>vfs_rename\<close> over the nodes below a directory: the length check and the rewrite.\<close>

definition below :: "'d vfs \<Rightarrow> nat \<Rightarrow> string \<Rightarrow> nat \<Rightarrow> bool" where
  "below s idx oldpath i \<longleftrightarrow> i \<noteq> idx \<and> path_is_inside (node_path (inodes s ! i)) oldpath"

definition rename_fits :: "'d vfs \<Rightarrow> nat \<Rightarrow> string \<Rightarrow> string \<Rightarrow> bool" where
  "rename_fits s idx oldpath newpath \<longleftrightarrow>
     list_all (\<lambda>i. below s idx oldpath i \<longrightarrow>
       length newpath + length (drop (length oldpath) (node_path (inodes s ! i))) < MAX_PATH) [0..<inode_count s]"

definition renamed_path :: "string \<Rightarrow> string \<Rightarrow> string \<Rightarrow> string option" where
  "renamed_path oldpath newpath p = do {
     updated \<leftarrow> snprintf MAX_PATH ''%s%s'' [VPtr (Some newpath), VPtr (Some (drop (length oldpath) p))];
     Some (str_cpy updated MAX_PATH)
   }"

fun rename_children :: "nat list \<Rightarrow> 'd vfs \<Rightarrow> nat \<Rightarrow> string \<Rightarrow> string \<Rightarrow> 'd vfs option" where
  "rename_children [] s idx oldpath newpath = Some s"
| "rename_children (i # is) s idx oldpath newpath =
    (if below s idx oldpath i then do {
       p \<leftarrow> renamed_path oldpath newpath (node_path (inodes s ! i));
       rename_children is (s\<lparr>inodes := (inodes s)[i := (inodes s ! i)\<lparr>node_path := p\<rparr>]\<rparr>) idx oldpath newpath
     } else rename_children is s idx oldpath newpath)"

definition vfs_rename :: "'d storage \<Rightarrow> 'd vfs \<Rightarrow> string \<Rightarrow> string \<Rightarrow> ((errno + unit) \<times> 'd vfs) option" where
  "vfs_rename st s oldpath newpath =
    (case find_inode s oldpath of
       None \<Rightarrow> Some (Inl ENOENT, s)
     | Some idx \<Rightarrow>
         if idx = 0 then Some (Inl EINVAL, s)
         else if find_inode s newpath \<noteq> None then Some (Inl EEXIST, s)
         else case find_inode s (get_parent_path newpath) of
           None \<Rightarrow> Some (Inl ENOENT, s)
         | Some parent \<Rightarrow>
             let isdir = (node_type (inodes s ! idx) = 1) in
             if node_type (inodes s ! parent) \<noteq> 1 then Some (Inl ENOTDIR, s)
             else if isdir \<and> path_is_inside newpath oldpath then Some (Inl EINVAL, s)
             else if isdir \<and> \<not> rename_fits s idx oldpath newpath then Some (Inl ENAMETOOLONG, s)
             else do {
               s \<leftarrow> (if isdir then rename_children [0..<inode_count s] s idx oldpath newpath else Some s);
               let s = s\<lparr>inodes := (inodes s)[idx := (inodes s ! idx)\<lparr>node_path := str_cpy newpath MAX_PATH,
                           node_name := get_filename newpath, node_parent := Some parent\<rparr>]\<rparr>;
               if path_should_persist oldpath \<or> path_should_persist newpath
               then do { (_, s) \<leftarrow> vfs_persist_save st s; Some (Inr (), s) }
               else Some (Inr (), s)
             })"

section \<open>File data\<close>

lemma node_ok_size: "node_ok h n \<Longrightarrow> node_data n = None \<Longrightarrow> node_size n = 0"
  by (simp add: node_ok_def)

lemma length_node_content [simp]: "node_ok h n \<Longrightarrow> length (node_content h n) = node_size n"
  by (simp add: node_content_def node_ok_def split: option.splits)

lemma node_ok_store [simp]: "node_ok (h\<lparr>heap_bytes := b\<rparr>) n = node_ok h n"
  by (simp add: node_ok_def km.store_owns split: option.splits)

lemma node_content_store [simp]:
  "node_data n = Some p \<Longrightarrow> node_content (h\<lparr>heap_bytes := b\<rparr>) n = mem_read b p (node_size n)"
  by (simp add: node_content_def)

text \<open>A write inside one allocation leaves the contents of nodes with another allocation alone.\<close>

lemma write_frame:
  assumes own: "heap_owns h p m" "off + length bs \<le> m" and n: "node_ok h n" "node_data n \<noteq> Some p"
  shows "node_abs (h\<lparr>heap_bytes := mem_write (heap_bytes h) (p + off) bs\<rparr>) n = node_abs h n"
proof (cases "node_data n")
  case (Some q)
  then obtain k where k: "heap_owns h q k" "node_size n \<le> k" using n(1) by (auto simp: node_ok_def)
  have "q \<noteq> p" using Some n(2) by simp
  from km.owns_disjoint [OF k(1) own(1) this]
  have "mem_read (mem_write (heap_bytes h) (p + off) bs) q (node_size n) = mem_read (heap_bytes h) q (node_size n)"
    using own(2) k(2) by (intro mem_read_cong) (auto simp: mem_write_at)
  then show ?thesis using Some by (simp add: node_abs_def node_content_def)
qed (simp add: node_abs_def node_content_def)

lemma mem_read_splice:
  assumes "o1 \<le> n" "n = max n0 (o1 + length bs)"
  shows "mem_read (mem_write m (p + o1) bs) p n =
    take o1 (mem_read m p n) @ bs @ drop (o1 + length bs) (mem_read m p n0)"
proof (rule nth_equalityI)
  fix i assume "i < length (mem_read (mem_write m (p + o1) bs) p n)"
  then show "mem_read (mem_write m (p + o1) bs) p n ! i =
    (take o1 (mem_read m p n) @ bs @ drop (o1 + length bs) (mem_read m p n0)) ! i"
    using assms by (auto simp: mem_read_def mem_write_at nth_append max_def split: if_splits)
qed (use assms in \<open>auto simp: max_def\<close>)

lemma vfs_okD: "vfs_ok s \<Longrightarrow> tab_ok s" "vfs_ok s \<Longrightarrow> data_ok s"
  by (simp_all add: vfs_ok_def)

lemma align4096_bounds:
  assumes "0 < n" "n < 2 ^ 61"
  shows "n \<le> align4096 n" "align4096 n < 2 ^ 62" "0 < align4096 n"
proof -
  have "align4096 n = (n + 4095) div 4096 * 4096" using assms(2) by (simp add: align4096_def add64_def)
  moreover have "(n + 4095) div 4096 * 4096 \<le> n + 4095" by (rule div_times_less_eq_dividend)
  moreover have "n + 4095 < (n + 4095) div 4096 * 4096 + 4096" using dividend_less_div_times [of 4096 "n + 4095"] by simp
  ultimately show "n \<le> align4096 n" "align4096 n < 2 ^ 62" "0 < align4096 n" using assms by simp_all
qed

section \<open>Writing\<close>

text \<open>Growing a node never changes what the file system holds, and makes the room asked for.\<close>

lemma grow_inode_ok:
  assumes ok: "vfs_ok s" and i: "i < inode_count s" and n: "node_capacity (inodes s ! i) < n" "n < 2 ^ 61"
  shows "\<exists>r s'. grow_inode s i n = Some (r, s') \<and> vfs_ok s' \<and> fs_abs s' = fs_abs s \<and>
    (\<exists>h nd cap. s' = s\<lparr>heap := h, inodes := (inodes s)[i := (inodes s ! i)\<lparr>node_data := nd, node_capacity := cap\<rparr>]\<rparr> \<and>
      (r \<longrightarrow> n \<le> cap \<and> nd \<noteq> None))"
proof -
  define node where "node = inodes s ! i"
  note tab = tab_okD [OF vfs_okD(1) [OF ok]] and dat = data_okD [OF vfs_okD(2) [OF ok]]
  have nk: "node_ok (heap s) node" using dat(2) [OF i] by (simp add: node_def)
  have al: "n \<le> align4096 n" "align4096 n < 2 ^ 62" "0 < align4096 n" using align4096_bounds [of n] n by auto
  obtain r h1 where k: "kmalloc (heap s) (align4096 n) = Some (r, h1)"
    using km.alloc_returns [OF dat(1) al(3,2)] by auto
  show ?thesis
  proof (cases r)
    case None
    then have "grow_inode s i n = Some (False, s)"
      using km.alloc_null [OF dat(1) al(3,2)] k by (simp add: grow_inode_def Let_def)
    moreover have "s = s\<lparr>heap := heap s, inodes := (inodes s)[i := (inodes s ! i)\<lparr>node_data := node_data (inodes s ! i),
      node_capacity := node_capacity (inodes s ! i)\<rparr>]\<rparr>" by simp
    ultimately show ?thesis using ok by blast
  next
    case (Some p)
    from km.alloc_new [OF dat(1) al(3,2) k [unfolded Some]] obtain m where
      h1: "heap_ok h1" "heap_bytes h1 = heap_bytes (heap s)" "\<nexists>k. heap_owns (heap s) p k" "align4096 n \<le> m"
        "\<And>q k. heap_owns h1 q k \<longleftrightarrow> heap_owns (heap s) q k \<or> q = p \<and> k = m" by auto
    define new where "new = node\<lparr>node_data := Some p, node_capacity := align4096 n\<rparr>"
    define h where "h = (case node_data node of None \<Rightarrow> h1 | Some old \<Rightarrow>
      kfree (h1\<lparr>heap_bytes := mem_write (heap_bytes h1) p (mem_read (heap_bytes h1) old (node_size node))\<rparr>) (Some old))"
    have g: "grow_inode s i n = Some (True, s\<lparr>heap := h, inodes := (inodes s)[i := new]\<rparr>)"
      unfolding h_def new_def node_def using k Some by (simp add: grow_inode_def Let_def)
    have np: "node_data (inodes s ! j) \<noteq> Some p" if "j < inode_count s" for j
      using dat(2) [OF that] h1(3) by (auto simp: node_ok_def)
    have pm: "heap_owns h1 p m" using h1(5) by simp
    have size: "node_size node \<le> m" using nk n(1) al(1) h1(4) by (simp add: node_ok_def node_def)
    have old1: "node_ok h1 (inodes s ! j)" if "j < inode_count s" for j
      using dat(2) [OF that] h1(5) by (auto simp: node_ok_def split: option.splits)
    have H: "heap_ok h \<and> heap_owns h p m \<and> node_content h new = node_content (heap s) node \<and>
      (\<forall>j<inode_count s. j \<noteq> i \<longrightarrow> node_ok h (inodes s ! j) \<and>
        node_abs h (inodes s ! j) = node_abs (heap s) (inodes s ! j))"
    proof (cases "node_data node")
      case None
      then show ?thesis using h1(1,2) pm old1 nk node_abs_bytes [OF h1(2)]
        by (auto simp: h_def new_def node_content_def node_ok_def mem_read_def)
    next
      case (Some old)
      obtain ko where ko: "heap_owns (heap s) old ko" using nk Some by (auto simp: node_ok_def)
      define h2 where "h2 = h1\<lparr>heap_bytes := mem_write (heap_bytes h1) p (mem_read (heap_bytes h1) old (node_size node))\<rparr>"
      have "p \<noteq> old" using ko h1(3) by auto
      have "heap_ok h2" "heap_owns h2 old ko" using h1(1) ko h1(5) by (auto simp: h2_def km.store_ok km.store_owns)
      from km.release_live [OF this] have h: "heap_ok h" "heap_bytes h = heap_bytes h2"
        "\<And>q k. heap_owns h q k \<longleftrightarrow> heap_owns h1 q k \<and> q \<noteq> old"
        by (auto simp: h_def Some h2_def km.store_owns)
      have "node_content h new = node_content (heap s) node"
        using Some by (simp add: node_content_def new_def h(2) h2_def h1(2))
      moreover have "node_ok h (inodes s ! j) \<and> node_abs h (inodes s ! j) = node_abs (heap s) (inodes s ! j)"
        if j: "j < inode_count s" "j \<noteq> i" for j
      proof -
        have "node_data (inodes s ! j) \<noteq> Some old" using dat(3) [OF i j(1)] Some j(2) by (auto simp: node_def)
        then have "node_ok h (inodes s ! j)" using old1 [OF j(1)] by (auto simp: node_ok_def h(3) split: option.splits)
        moreover have "node_abs h2 (inodes s ! j) = node_abs h1 (inodes s ! j)"
          using write_frame [OF pm, of 0 _ "inodes s ! j"] size old1 [OF j(1)] np [OF j(1)] by (simp add: h2_def)
        ultimately show ?thesis using node_abs_bytes [OF h(2)] node_abs_bytes [OF h1(2)] by simp
      qed
      ultimately show ?thesis using h pm \<open>p \<noteq> old\<close> by auto
    qed
    have "vfs_ok (s\<lparr>heap := h, inodes := (inodes s)[i := new]\<rparr>) \<and>
      fs_abs (s\<lparr>heap := h, inodes := (inodes s)[i := new]\<rparr>) = (fs_abs s)(node_path (inodes s ! i) \<mapsto> node_abs h new)"
    proof (rule update_node_ok [OF ok i _ _ _ conjunct1 [OF H]])
      show "node_ok h new" using H nk h1(4) al n(1) by (auto simp: node_ok_def new_def node_def)
    qed (use H np in \<open>simp_all add: new_def node_def\<close>)
    moreover have "node_abs h new = node_abs (heap s) (inodes s ! i)" using H by (simp add: node_abs_def new_def node_def)
    then have "(fs_abs s)(node_path (inodes s ! i) \<mapsto> node_abs h new) = fs_abs s"
      using fs_abs_nth [OF vfs_okD(1) [OF ok] i] by (simp add: fun_upd_idem)
    ultimately have "vfs_ok (s\<lparr>heap := h, inodes := (inodes s)[i := new]\<rparr>)"
      "fs_abs (s\<lparr>heap := h, inodes := (inodes s)[i := new]\<rparr>) = fs_abs s" by simp_all
    with g al(1) show ?thesis unfolding new_def node_def by blast
  qed
qed

text \<open>The copy into a node with enough room: the bytes between the old end and the position, when there are
  any, are whatever the allocation held.\<close>

lemma store_bytes_ok:
  assumes ok: "vfs_ok s" and i: "i < inode_count s" and ty: "node_type (inodes s ! i) \<noteq> 1"
    and p: "node_data (inodes s ! i) = Some p"
    and room: "file_pos (open_files s ! fd) + length buf \<le> node_capacity (inodes s ! i)"
    and c: "fs_abs s (node_path (inodes s ! i)) = Some (AFile c)"
  shows "vfs_ok (store_bytes s fd i buf) \<and>
    (\<exists>gap. length gap = file_pos (open_files s ! fd) - length c \<and>
      fs_abs (store_bytes s fd i buf) = (fs_abs s)(node_path (inodes s ! i) \<mapsto>
        AFile (take (file_pos (open_files s ! fd)) (c @ gap) @ buf @ drop (file_pos (open_files s ! fd) + length buf) c))) \<and>
    open_files (store_bytes s fd i buf) =
      (open_files s)[fd := (open_files s ! fd)\<lparr>file_pos := file_pos (open_files s ! fd) + length buf\<rparr>]"
proof -
  define node where "node = inodes s ! i"
  define pos where "pos = file_pos (open_files s ! fd)"
  define sz where "sz = max (node_size node) (pos + length buf)"
  note tab = tab_okD [OF vfs_okD(1) [OF ok]] and dat = data_okD [OF vfs_okD(2) [OF ok]]
  have nk: "node_ok (heap s) node" using dat(2) [OF i] by (simp add: node_def)
  then obtain m where m: "heap_owns (heap s) p m" "node_capacity node \<le> m" using p by (auto simp: node_ok_def node_def)
  have cap: "node_capacity node < 2 ^ 62" "node_size node \<le> node_capacity node" using nk by (simp_all add: node_ok_def)
  have "p + m \<le> HEAP_SIZE" by (rule owns_header(5) [OF m(1)])
  then have a1: "add64 p pos = p + pos" "add64 pos (length buf) = pos + length buf"
    using room cap m(2) by (simp_all add: add64_def pos_def node_def HEAP_SIZE_def)
  define h where "h = (heap s)\<lparr>heap_bytes := mem_write (heap_bytes (heap s)) (p + pos) buf\<rparr>"
  define new where "new = node\<lparr>node_size := sz\<rparr>"
  have st: "store_bytes s fd i buf = s\<lparr>heap := h,
      open_files := (open_files s)[fd := (open_files s ! fd)\<lparr>file_pos := pos + length buf\<rparr>],
      inodes := (inodes s)[i := new]\<rparr>"
    using p a1 by (simp add: store_bytes_def Let_def h_def new_def node_def sz_def pos_def max_def)
  have cc: "c = mem_read (heap_bytes (heap s)) p (node_size node)"
    using c fs_abs_nth [OF vfs_okD(1) [OF ok] i] ty p by (simp add: node_abs_def node_content_def node_def)
  have "vfs_ok (store_bytes s fd i buf) \<and>
    fs_abs (store_bytes s fd i buf) = (fs_abs s)(node_path (inodes s ! i) \<mapsto> node_abs h new)"
  proof (rule update_node_ok [OF ok i])
    show "heap_ok h" using dat(1) by (simp add: h_def km.store_ok)
    show "node_ok h new" using nk room cap by (auto simp: node_ok_def h_def new_def sz_def pos_def node_def km.store_owns split: option.splits)
    fix j assume j: "j < inode_count s" "j \<noteq> i"
    have "node_data (inodes s ! j) \<noteq> Some p" using dat(3) [OF i j(1) p] j(2) by blast
    moreover from this have "node_abs h (inodes s ! j) = node_abs (heap s) (inodes s ! j)"
      using write_frame [OF m(1) _ dat(2) [OF j(1)]] room m(2) by (simp add: h_def pos_def node_def)
    ultimately show "node_ok h (inodes s ! j) \<and> node_abs h (inodes s ! j) = node_abs (heap s) (inodes s ! j) \<and>
      (\<forall>q. node_data new = Some q \<longrightarrow> node_data (inodes s ! j) \<noteq> Some q)"
      using dat(2) [OF j(1)] p by (simp add: h_def new_def node_def)
  qed (simp_all add: st new_def node_def)
  moreover
  define gap where "gap = mem_read (heap_bytes (heap s)) (p + node_size node) (pos - node_size node)"
  have "take pos (mem_read (heap_bytes (heap s)) p sz) = take pos (c @ gap)"
    by (rule nth_equalityI) (auto simp: cc gap_def mem_read_def nth_append sz_def)
  then have "node_abs h new = AFile (take pos (c @ gap) @ buf @ drop (pos + length buf) c)"
    using ty p mem_read_splice [of pos sz "node_size node" buf "heap_bytes (heap s)" p]
    by (simp add: node_abs_def node_content_def new_def node_def h_def sz_def cc)
  moreover have "length gap = pos - length c" by (simp add: gap_def cc)
  ultimately show ?thesis by (auto simp: st pos_def)
qed

section \<open>Open files\<close>

text \<open>Handle \<open>fd\<close> is open on the file at \<open>path\<close>, at a position.\<close>

definition opened :: "'d vfs \<Rightarrow> nat \<Rightarrow> string \<Rightarrow> nat \<Rightarrow> bool" where
  "opened s fd path pos \<longleftrightarrow> fd < length (open_files s) \<and> file_valid (open_files s ! fd) \<and>
     file_pos (open_files s ! fd) = pos \<and> find_inode s path = Some (file_inode (open_files s ! fd))"

lemma open_files_irrelevant [simp]:
  "find_inode (s\<lparr>open_files := fs\<rparr>) = find_inode s" "vfs_ok (s\<lparr>open_files := fs\<rparr>) = vfs_ok s"
  "fs_abs (s\<lparr>open_files := fs\<rparr>) = fs_abs s"
proof -
  show f: "find_inode (s\<lparr>open_files := fs\<rparr>) = find_inode s" by (rule find_inode_cong) simp_all
  show "fs_abs (s\<lparr>open_files := fs\<rparr>) = fs_abs s" by (rule ext) (simp add: fs_abs_def f)
  show "vfs_ok (s\<lparr>open_files := fs\<rparr>) = vfs_ok s" unfolding vfs_ok_def tab_ok_def data_ok_def by simp
qed

lemma openedD:
  assumes "opened s fd path pos" "fs_abs s path = Some (AFile c)"
  shows "file_inode (open_files s ! fd) < inode_count s" "node_path (inodes s ! file_inode (open_files s ! fd)) = path"
    "node_type (inodes s ! file_inode (open_files s ! fd)) \<noteq> 1"
    "node_content (heap s) (inodes s ! file_inode (open_files s ! fd)) = c"
proof -
  have f: "find_inode s path = Some (file_inode (open_files s ! fd))" using assms(1) by (simp add: opened_def)
  then show "file_inode (open_files s ! fd) < inode_count s" "node_path (inodes s ! file_inode (open_files s ! fd)) = path"
    by (simp_all add: find_inode_Some)
  show "node_type (inodes s ! file_inode (open_files s ! fd)) \<noteq> 1"
    "node_content (heap s) (inodes s ! file_inode (open_files s ! fd)) = c"
    using f assms(2) by (simp_all add: fs_abs_def node_abs_def split: if_splits)
qed

lemma opened_cong:
  "find_inode s' = find_inode s \<Longrightarrow> open_files s' = (open_files s)[fd := f] \<Longrightarrow> fd' \<noteq> fd \<Longrightarrow>
     opened s' fd' p q = opened s fd' p q"
  by (simp add: opened_def)

text \<open>The tables name the same nodes, of the same types under the same parents.\<close>

definition shape_same :: "'d vfs \<Rightarrow> 'd vfs \<Rightarrow> bool" where
  "shape_same s t \<longleftrightarrow> inode_count t = inode_count s \<and> vfs_initialized t = vfs_initialized s \<and>
     (\<forall>i. node_path (inodes t ! i) = node_path (inodes s ! i) \<and> node_type (inodes t ! i) = node_type (inodes s ! i) \<and>
          node_parent (inodes t ! i) = node_parent (inodes s ! i))"

lemma shape_same_refl [simp]: "shape_same s s"
  by (simp add: shape_same_def)

lemma shape_same_trans: "shape_same s t \<Longrightarrow> shape_same t u \<Longrightarrow> shape_same s u"
  by (simp add: shape_same_def)

lemma shape_same_find: "shape_same s t \<Longrightarrow> find_inode t = find_inode s"
  by (rule find_inode_cong) (simp_all add: shape_same_def)

lemma shape_same_upd:
  assumes "inodes t = (inodes s)[i := node]" "inode_count t = inode_count s" "vfs_initialized t = vfs_initialized s"
    and "node_path node = node_path (inodes s ! i)" "node_type node = node_type (inodes s ! i)"
      "node_parent node = node_parent (inodes s ! i)"
  shows "shape_same s t"
proof -
  have "inodes t ! j = (if j = i \<and> i < length (inodes s) then node else inodes s ! j)" for j
    using assms(1) by (cases "i < length (inodes s)"; cases "j = i") (simp_all add: list_update_beyond)
  then show ?thesis using assms by (simp add: shape_same_def)
qed

lemma store_bytes_shape: "shape_same s (store_bytes s fd i buf)"
  by (rule shape_same_upd [of _ _ i "(inodes s ! i)\<lparr>node_size := max (node_size (inodes s ! i))
       (add64 (file_pos (open_files s ! fd)) (length buf))\<rparr>"]) (simp_all add: store_bytes_def Let_def max_def)

text \<open>The contents of a file after a write: what lies between its end and the position is not determined.\<close>

definition spliced :: "bytes \<Rightarrow> nat \<Rightarrow> bytes \<Rightarrow> bytes \<Rightarrow> bool" where
  "spliced c pos buf c' \<longleftrightarrow> (\<exists>gap. length gap = pos - length c \<and> c' = take pos (c @ gap) @ buf @ drop (pos + length buf) c)"

lemma spliced_inside: "pos \<le> length c \<Longrightarrow> spliced c pos buf c' \<longleftrightarrow> c' = take pos c @ buf @ drop (pos + length buf) c"
  by (simp add: spliced_def)

lemma vfs_write_spec:
  assumes ok: "vfs_ok s" and op: "opened s fd path pos" and c: "fs_abs s path = Some (AFile c)"
    and buf: "buf \<noteq> []" "pos + length buf < 2 ^ 61"
  shows "\<exists>r s'. vfs_write s (Some fd) buf = Some (r, s') \<and> vfs_ok s' \<and> shape_same s s' \<and>
    (case r of
       Inl e \<Rightarrow> e = ENOMEM \<and> fs_abs s' = fs_abs s \<and> open_files s' = open_files s
     | Inr n \<Rightarrow> n = length buf \<and>
         open_files s' = (open_files s)[fd := (open_files s ! fd)\<lparr>file_pos := pos + length buf\<rparr>] \<and>
         (\<exists>c'. spliced c pos buf c' \<and> fs_abs s' = (fs_abs s)(path \<mapsto> AFile c')))"
proof -
  define i where "i = file_inode (open_files s ! fd)"
  note D = openedD [OF op c, folded i_def]
  have f: "file_valid (open_files s ! fd)" "file_pos (open_files s ! fd) = pos" "fd < length (open_files s)"
    using op by (simp_all add: opened_def)
  have ns: "add64 pos (length buf) = pos + length buf" using buf(2) by (simp add: add64_def)
  define g where "g = (if node_capacity (inodes s ! i) < pos + length buf then grow_inode s i (pos + length buf) else Some (True, s))"
  have w: "vfs_write s (Some fd) buf =
    (case g of None \<Rightarrow> None | Some (ok, s) \<Rightarrow> if \<not> ok then Some (Inl ENOMEM, s) else Some (Inr (length buf), store_bytes s fd i buf))"
    using f buf(1) D(3) ns by (simp add: vfs_write_def Let_def i_def g_def Option.bind_eq_Some_conv split: option.splits bind_splits)
  have "\<exists>r s'. g = Some (r, s') \<and> vfs_ok s' \<and> fs_abs s' = fs_abs s \<and>
    (\<exists>h nd cap. s' = s\<lparr>heap := h, inodes := (inodes s)[i := (inodes s ! i)\<lparr>node_data := nd, node_capacity := cap\<rparr>]\<rparr> \<and>
      (r \<longrightarrow> pos + length buf \<le> cap \<and> nd \<noteq> None))"
  proof (cases "node_capacity (inodes s ! i) < pos + length buf")
    case True
    then show ?thesis unfolding g_def using grow_inode_ok [OF ok D(1) True buf(2)] by simp
  next
    case False
    have "node_data (inodes s ! i) \<noteq> None"
      using False buf(1) data_okD(2) [OF vfs_okD(2) [OF ok] D(1)] by (cases buf) (auto simp: node_ok_def split: option.splits)
    moreover have "s = s\<lparr>heap := heap s, inodes := (inodes s)[i := (inodes s ! i)\<lparr>node_data := node_data (inodes s ! i),
      node_capacity := node_capacity (inodes s ! i)\<rparr>]\<rparr>" by simp
    ultimately show ?thesis using False ok unfolding g_def by (metis linorder_not_less)
  qed
  then obtain r s1 h nd cap where g1: "g = Some (r, s1)" "vfs_ok s1" "fs_abs s1 = fs_abs s"
    and s1: "s1 = s\<lparr>heap := h, inodes := (inodes s)[i := (inodes s ! i)\<lparr>node_data := nd, node_capacity := cap\<rparr>]\<rparr>"
    and room: "r \<Longrightarrow> pos + length buf \<le> cap \<and> nd \<noteq> None" by blast
  have i: "i < length (inodes s)" using D(1) tab_okD(1,3) [OF vfs_okD(1) [OF ok]] by simp
  have fi: "shape_same s s1"
    by (rule shape_same_upd [of _ _ i "(inodes s ! i)\<lparr>node_data := nd, node_capacity := cap\<rparr>"]) (simp_all add: s1)
  have same: "inode_count s1 = inode_count s" "open_files s1 = open_files s"
    "inodes s1 ! i = (inodes s ! i)\<lparr>node_data := nd, node_capacity := cap\<rparr>" using i by (simp_all add: s1)
  show ?thesis
  proof (cases r)
    case False
    then show ?thesis using w g1 fi same by simp
  next
    case True
    obtain p where p: "nd = Some p" "pos + length buf \<le> cap" using room [OF True] by blast
    have "vfs_ok (store_bytes s1 fd i buf) \<and>
      (\<exists>c'. spliced c pos buf c' \<and> fs_abs (store_bytes s1 fd i buf) = (fs_abs s)(path \<mapsto> AFile c')) \<and>
      open_files (store_bytes s1 fd i buf) = (open_files s)[fd := (open_files s ! fd)\<lparr>file_pos := pos + length buf\<rparr>]"
      using store_bytes_ok [OF g1(2), of i p fd buf c] D p c g1(3) f(2) unfolding spliced_def same by auto
    then show ?thesis using True w g1(1) shape_same_trans [OF fi store_bytes_shape] by simp
  qed
qed

section \<open>Reading, opening and closing\<close>

lemma take_drop_mem_read: "take n (drop a (mem_read m p k)) = mem_read m (p + a) (min n (k - a))"
  by (rule nth_equalityI) (auto simp: mem_read_def ac_simps)

lemma vfs_read_spec:
  assumes ok: "vfs_ok s" and op: "opened s fd path pos" and c: "fs_abs s path = Some (AFile c)"
  shows "vfs_read s (Some fd) n = (Inr (length (take n (drop pos c)), Some (take n (drop pos c))),
    s\<lparr>open_files := (open_files s)[fd := (open_files s ! fd)\<lparr>file_pos := pos + length (take n (drop pos c))\<rparr>]\<rparr>)"
proof -
  define i where "i = file_inode (open_files s ! fd)"
  note D = openedD [OF op c, folded i_def]
  have f: "file_valid (open_files s ! fd)" "file_pos (open_files s ! fd) = pos" using op by (simp_all add: opened_def)
  have nk: "node_ok (heap s) (inodes s ! i)" using data_okD(2) [OF vfs_okD(2) [OF ok] D(1)] .
  have sz: "length c = node_size (inodes s ! i)" using D(4) nk by auto
  show ?thesis
  proof (cases "pos \<ge> length c")
    case True
    then show ?thesis using f(1) f(2) [symmetric] D(3) sz by (simp add: vfs_read_def Let_def i_def)
  next
    case False
    then obtain p where p: "node_data (inodes s ! i) = Some p" using nk sz by (auto simp: node_ok_def split: option.splits)
    have "c = mem_read (heap_bytes (heap s)) p (length c)" using D(4) p sz by (simp add: node_content_def)
    then have "take n (drop pos c) = mem_read (heap_bytes (heap s)) (p + pos) (min n (length c - pos))"
      by (metis take_drop_mem_read)
    then show ?thesis using f D(3) sz p False by (simp add: vfs_read_def Let_def i_def min_def)
  qed
qed

lemma truncate_inode_ok:
  assumes ok: "vfs_ok s" and i: "i < inode_count s" and ty: "node_type (inodes s ! i) \<noteq> 1"
  shows "vfs_ok (truncate_inode s i) \<and> fs_abs (truncate_inode s i) = (fs_abs s)(node_path (inodes s ! i) \<mapsto> AFile []) \<and>
    shape_same s (truncate_inode s i)"
proof -
  note kf = kfree_node [OF vfs_okD(2) [OF ok] i] and dat = data_okD [OF vfs_okD(2) [OF ok]]
  define new where "new = (inodes s ! i)\<lparr>node_data := None, node_size := 0, node_capacity := 0\<rparr>"
  have "vfs_ok (truncate_inode s i) \<and> fs_abs (truncate_inode s i) =
    (fs_abs s)(node_path (inodes s ! i) \<mapsto> node_abs (kfree (heap s) (node_data (inodes s ! i))) new)"
    using kf node_abs_bytes [OF kf(3)]
    by (intro update_node_ok [OF ok i]) (auto simp: truncate_inode_def Let_def new_def node_ok_def)
  moreover have "shape_same s (truncate_inode s i)"
    by (rule shape_same_upd [of _ _ i new]) (simp_all add: truncate_inode_def Let_def new_def)
  ultimately show ?thesis using ty by (simp add: new_def node_abs_def node_content_def)
qed

lemma free_handle_Some:
  "free_handle s = Some fd \<Longrightarrow> fd < MAX_OPEN \<and> \<not> file_valid (open_files s ! fd)"
  by (auto simp: free_handle_def find_Some_iff)

text \<open>A successful open: the handle was free, the file is there now, empty if it was created or truncated, and
  nothing else changed.\<close>

definition opens_as :: "(string \<rightharpoonup> anode) \<Rightarrow> string \<Rightarrow> int \<Rightarrow> bytes \<Rightarrow> bool" where
  "opens_as fs path flags c =
    (case fs path of
       None \<Rightarrow> flags AND O_CREAT \<noteq> 0 \<and> c = []
     | Some (AFile c0) \<Rightarrow> c = (if flags AND O_TRUNC \<noteq> 0 then [] else c0)
     | Some ADir \<Rightarrow> False)"

lemma vfs_open_spec:
  assumes ok: "vfs_ok s" "vfs_initialized s" "length (open_files s) = MAX_OPEN" "length path < MAX_PATH"
    and op: "vfs_open s path flags = (Some fd, s')"
  shows "vfs_ok s' \<and> fd < MAX_OPEN \<and> \<not> file_valid (open_files s ! fd) \<and>
    (\<exists>c. opens_as (fs_abs s) path flags c \<and> fs_abs s' = (fs_abs s)(path \<mapsto> AFile c) \<and>
      opened s' fd path (if flags AND O_APPEND \<noteq> 0 then length c else 0)) \<and>
    (\<exists>f. open_files s' = (open_files s)[fd := f]) \<and>
    (\<exists>s1 idx. open_lookup s path flags = (Some idx, s1) \<and> shape_same s1 s' \<and> node_type (inodes s1 ! idx) \<noteq> 1 \<and>
      file_inode (open_files s' ! fd) = idx)"
proof -
  obtain r s1 where rs: "open_lookup s path flags = (r, s1)" by (cases "open_lookup s path flags")
  have fh: "free_handle s = Some fd" and r0: "r \<noteq> None"
    using op ok(2) rs unfolding vfs_open_def vfs_init_def Let_def 
    by (auto split: option.splits if_split_asm)
  then obtain idx where r: "r = Some idx" by blast
  have nd: "node_type (inodes s1 ! idx) \<noteq> 1"
    using op ok(2) rs r fh unfolding vfs_open_def vfs_init_def Let_def by (auto split: if_splits)
  define s2 where "s2 = (if flags AND O_TRUNC \<noteq> 0 then truncate_inode s1 idx else s1)"
  define f where "f = \<lparr>file_valid = True, file_inode = idx, file_flags = flags,
    file_pos = (if flags AND O_APPEND \<noteq> 0 then node_size (inodes s2 ! idx) else 0)\<rparr>"
  have "vfs_open s path flags = (Some fd, s2\<lparr>open_files := (open_files s2)[fd := f]\<rparr>)"
    unfolding s2_def f_def using ok(2) rs r fh nd
    by (simp add: vfs_open_def vfs_init_def Let_def split del: if_split)
  then have s': "s' = s2\<lparr>open_files := (open_files s2)[fd := f]\<rparr>" using op by simp
  have "vfs_ok s1 \<and> find_inode s1 path = Some idx \<and> open_files s1 = open_files s \<and>
    (\<exists>c. fs_abs s1 = (fs_abs s)(path \<mapsto> AFile c) \<and>
      (case fs_abs s path of None \<Rightarrow> flags AND O_CREAT \<noteq> 0 \<and> c = [] | Some (AFile c0) \<Rightarrow> c = c0 | Some ADir \<Rightarrow> False))"
  proof (cases "find_inode s path")
    case None
    then obtain e where e: "create_inode s path 0 = (e, s1)" "e = Inr idx" "flags AND O_CREAT \<noteq> 0"
      using rs r by (auto simp: open_lookup_def split: if_splits prod.splits sum.splits)
    from create_inode_spec [OF ok(1,4), of 0] e have c: "vfs_ok s1" "fs_abs s1 = (fs_abs s)(path \<mapsto> AFile [])"
      "open_files s1 = open_files s" "node_path (inodes s1 ! idx) = path" "idx < inode_count s1" by auto
    moreover have "find_inode s1 path = Some idx" using find_inode_unique [OF vfs_okD(1) [OF c(1)] c(5)] c(4) by simp
    ultimately show ?thesis using None e(3) by (auto simp: fs_abs_def)
  next
    case (Some i)
    then have e: "s1 = s" "i = idx" using rs r by (simp_all add: open_lookup_def)
    then have "fs_abs s path = Some (AFile (node_content (heap s) (inodes s ! idx)))"
      using Some nd by (simp add: fs_abs_def node_abs_def)
    then show ?thesis using e Some ok(1) by (auto simp: fun_upd_idem)
  qed
  then obtain c where s1: "vfs_ok s1" "find_inode s1 path = Some idx" "open_files s1 = open_files s"
    "fs_abs s1 = (fs_abs s)(path \<mapsto> AFile c)"
    "case fs_abs s path of None \<Rightarrow> flags AND O_CREAT \<noteq> 0 \<and> c = [] | Some (AFile c0) \<Rightarrow> c = c0 | Some ADir \<Rightarrow> False" by blast
  have idx: "idx < inode_count s1" "node_path (inodes s1 ! idx) = path" using s1(2) by (simp_all add: find_inode_Some)
  have "vfs_ok s2 \<and> shape_same s1 s2 \<and> open_files s2 = open_files s1 \<and> inode_count s2 = inode_count s1 \<and>
    fs_abs s2 = (fs_abs s)(path \<mapsto> AFile (if flags AND O_TRUNC \<noteq> 0 then [] else c))"
    using truncate_inode_ok [OF s1(1) idx(1) nd] s1 idx(2) by (simp add: s2_def truncate_inode_def Let_def)
  then obtain c' where s2: "vfs_ok s2" "shape_same s1 s2" "open_files s2 = open_files s1" "inode_count s2 = inode_count s1"
    "fs_abs s2 = (fs_abs s)(path \<mapsto> AFile c')" "c' = (if flags AND O_TRUNC \<noteq> 0 then [] else c)" by blast
  have "vfs_ok s'" "find_inode s' = find_inode s2" "fs_abs s' = fs_abs s2" using s2(1) by (simp_all add: s')
  moreover have fd: "fd < MAX_OPEN" "\<not> file_valid (open_files s ! fd)" using free_handle_Some [OF fh] by simp_all
  moreover have "node_abs (heap s2) (inodes s2 ! idx) = AFile c'"
    using fun_cong [OF s2(5), of path] s1(2) by (simp add: fs_abs_def [of s2] shape_same_find [OF s2(2)])
  then have "length c' = node_size (inodes s2 ! idx)"
    using data_okD(2) [OF vfs_okD(2) [OF s2(1)], of idx] idx(1) s2(4) by (auto simp: node_abs_def split: if_splits)
  then have "opened s' fd path (if flags AND O_APPEND \<noteq> 0 then length c' else 0)"
    using fd s1(2,3) s2 shape_same_find [OF s2(2)] ok(3) by (simp add: opened_def s' f_def)
  moreover have "opens_as (fs_abs s) path flags c'"
    using s1(5) s2(6) by (auto simp: opens_as_def split: option.splits anode.splits)
  moreover have "shape_same s1 s'" "file_inode (open_files s' ! fd) = idx"
    using s2(2,3) fd s1(3) ok(3) by (simp_all add: s' shape_same_def f_def)
  ultimately show ?thesis using s2(3,5) s1(3) rs r nd by (auto simp: s')
qed

text \<open>A failed open: no free handle, a directory, a missing file without \<^verbatim>\<open>O_CREAT\<close>, or a creation that failed.\<close>

lemma vfs_open_fails:
  assumes "vfs_initialized s" "vfs_open s path flags = (None, s')" "length (inodes s) = MAX_FILES"
  shows "free_handle s = None \<and> s' = s \<or> fs_abs s path = Some ADir \<and> s' = s \<or>
    fs_abs s path = None \<and> flags AND O_CREAT = 0 \<and> s' = s \<or>
    (\<exists>e. create_inode s path 0 = (Inl e, s'))"
proof (cases "free_handle s")
  case (Some fd)
  show ?thesis
  proof (cases "find_inode s path")
    case None
    then show ?thesis using assms Some
      by (cases "create_inode s path 0"; cases "fst (create_inode s path 0)")
         (auto simp: vfs_open_def vfs_init_def Let_def fs_abs_def open_lookup_def create_inode_def split: if_splits)
  qed (use assms Some in \<open>auto simp: vfs_open_def vfs_init_def Let_def fs_abs_def open_lookup_def node_abs_def split: if_splits\<close>)
qed (use assms in \<open>auto simp: vfs_open_def vfs_init_def Let_def\<close>)

lemma vfs_close_spec:
  assumes "file_valid (open_files s ! fd)"
  shows "\<exists>s'. vfs_close st s (Some fd) = Some s' \<and>
    fs_same (s\<lparr>open_files := (open_files s)[fd := (open_files s ! fd)\<lparr>file_valid := False\<rparr>]\<rparr>) s'"
  using assms maybe_persist_frame(2) [of st "s\<lparr>open_files := (open_files s)[fd := (open_files s ! fd)\<lparr>file_valid := False\<rparr>]\<rparr>"
      "file_inode (open_files s ! fd)"]
  by (simp add: vfs_close_def Let_def)

section \<open>Creating, deleting, initialising\<close>

lemma vfs_create_mkdir_spec:
  assumes ok: "vfs_ok s" "vfs_initialized s" "length path < MAX_PATH"
    and op: "ty = 0 \<and> r = vfs_create st s path \<or> ty = 1 \<and> r = vfs_mkdir st s path"
  shows "\<exists>e s'. r = Some (e, s') \<and> vfs_ok s' \<and>
    (case e of
       Inr i \<Rightarrow> path \<notin> dom (fs_abs s) \<and> get_parent_path path \<in> dom (fs_abs s) \<and>
         (\<exists>s1. create_inode s path ty = (Inr i, s1) \<and> fs_same s1 s') \<and>
         fs_abs s' = (fs_abs s)(path \<mapsto> (if ty = 1 then ADir else AFile []))
     | Inl e \<Rightarrow> s' = s \<and> (e = ENOSPC \<and> inode_count s = MAX_FILES \<or> e = EEXIST \<and> path \<in> dom (fs_abs s) \<or>
         e = ENOENT \<and> get_parent_path path \<notin> dom (fs_abs s)))"
proof -
  have i: "vfs_init s = s" using ok(2) by (simp add: vfs_init_def)
  obtain e s1 where c: "create_inode s path ty = (e, s1)" by (cases "create_inode s path ty")
  obtain s2 where m: "maybe_persist_path st s1 path = Some s2" "fs_same s1 s2" using maybe_persist_frame(1) by blast
  note spec = create_inode_spec [OF ok(1,3), of ty, unfolded c]
  have r: "r = Some (case e of Inl x \<Rightarrow> (Inl x, s1) | Inr x \<Rightarrow> (Inr x, s2))"
    using op c m(1) by (cases e) (auto simp: vfs_create_def vfs_mkdir_def i)
  show ?thesis
  proof (cases e)
    case (Inl x)
    then show ?thesis using r spec ok(1) by auto
  next
    case (Inr x)
    then show ?thesis using r spec c m(2) fs_same_abs [OF m(2)] by auto
  qed
qed

lemma vfs_init_spec:
  assumes "\<not> vfs_initialized s" "heap_ok (kmalloc_init (heap s))"
  shows "vfs_ok (vfs_init s)" "fs_abs (vfs_init s) = [''/'' \<mapsto> ADir]" "vfs_initialized (vfs_init s)"
    "open_files (vfs_init s) = replicate MAX_OPEN null_file" "inode_count (vfs_init s) = 1"
proof -
  define root where "root = \<lparr>node_name = [], node_path = ''/'', node_type = 1, node_data = None, node_size = 0,
    node_capacity = 0, node_parent = None :: nat option\<rparr>"
  have i: "vfs_init s = s\<lparr>heap := kmalloc_init (heap s), inodes := (replicate MAX_FILES null_inode)[0 := root],
      open_files := replicate MAX_OPEN null_file, inode_count := 1, vfs_initialized := True\<rparr>"
    using assms(1) by (simp add: vfs_init_def create_inode_def Let_def find_inode_def root_def MAX_FILES_def MAX_PATH_def
        str_cpy_def get_filename_def last_slash_def)
  have r0: "(replicate MAX_FILES null_inode)[0 := root] ! 0 = root" by (simp add: MAX_FILES_def)
  show "vfs_ok (vfs_init s)" using assms(2) r0
    by (simp add: i vfs_ok_def tab_ok_def data_ok_def node_ok_def root_def MAX_PATH_def) (simp add: MAX_FILES_def)
  show "fs_abs (vfs_init s) = [''/'' \<mapsto> ADir]" using r0
    by (auto simp: fun_eq_iff fs_abs_def i find_inode_def node_abs_def root_def)
qed (use assms(1) in \<open>simp_all add: vfs_init_def create_inode_def Let_def find_inode_def MAX_FILES_def\<close>)

text \<open>Directories are the only parents. The code relies on this when it deletes a file without looking for children.\<close>

definition dirs_ok :: "'d vfs \<Rightarrow> bool" where
  "dirs_ok s \<longleftrightarrow> (\<forall>i<inode_count s. \<forall>p. node_parent (inodes s ! i) = Some p \<longrightarrow> node_type (inodes s ! p) = 1)"

lemma vfs_delete_spec:
  assumes ok: "vfs_ok s" "dirs_ok s"
  shows "\<exists>r s'. vfs_delete st s path = Some (r, s') \<and> vfs_ok s' \<and>
    (case r of
       Inr _ \<Rightarrow> path \<in> dom (fs_abs s) \<and> path \<noteq> ''/'' \<and> fs_abs s' = (fs_abs s)(path := None) \<and>
         (\<exists>i. find_inode s path = Some i \<and> 0 < i \<and> find_child_inode s i = None \<and> fs_same (remove_inode s i) s')
     | Inl e \<Rightarrow> s' = s \<and> (e = ENOENT \<and> path \<notin> dom (fs_abs s) \<or> e = EINVAL \<and> path = ''/'' \<or>
         e = ENOTEMPTY \<and> fs_abs s path = Some ADir \<and>
         (\<exists>i c. find_inode s path = Some i \<and> find_child_inode s i = Some c)))"
proof -
  note tab = tab_okD [OF vfs_okD(1) [OF ok(1)]]
  show ?thesis
  proof (cases "find_inode s path")
    case None
    then show ?thesis using ok(1) by (auto simp: vfs_delete_def fs_abs_def)
  next
    case (Some i)
    then have i: "i < inode_count s" "node_path (inodes s ! i) = path" by (simp_all add: find_inode_Some)
    have root: "path = ''/'' \<longleftrightarrow> i = 0" using tab(2,4) i tab(9) [OF i(1), of 0] by auto
    define kids where "kids = list_ex (\<lambda>j. node_parent (inodes s ! j) = Some i) [0..<inode_count s]"
    have kids: "kids \<longleftrightarrow> find_child_inode s i \<noteq> None"
      unfolding find_child_None kids_def by (auto simp: list_ex_iff)
    consider "i = 0" | "0 < i" "node_type (inodes s ! i) = 1 \<and> kids" | "0 < i" "\<not> (node_type (inodes s ! i) = 1 \<and> kids)"
      by blast
    then show ?thesis
    proof cases
      case 1
      then show ?thesis using Some ok(1) root by (auto simp: vfs_delete_def)
    next
      case 2
      then show ?thesis using Some ok(1) kids
        by (auto simp: vfs_delete_def kids_def [symmetric] fs_abs_def node_abs_def)
    next
      case 3
      have leaf: "node_parent (inodes s ! j) \<noteq> Some i" if "j < inode_count s" for j
      proof
        assume p: "node_parent (inodes s ! j) = Some i"
        with ok(2) that have "node_type (inodes s ! i) = 1" by (simp add: dirs_ok_def)
        moreover have kids using p that by (auto simp: kids_def list_ex_iff)
        ultimately show False using 3(2) by blast
      qed
      note rem = remove_inode_ok [OF ok(1) 3(1) i(1) leaf, unfolded i(2)]
      obtain r s2 where sv: "vfs_persist_save st (remove_inode s i) = Some (r, s2)" "fs_same (remove_inode s i) s2"
        using vfs_persist_save_frame by blast
      have "\<exists>s'. vfs_delete st s path = Some (Inr (), s') \<and> fs_same (remove_inode s i) s'"
        using Some 3 sv by (auto simp: vfs_delete_def kids_def [symmetric] Let_def)
      then obtain s' where s': "vfs_delete st s path = Some (Inr (), s')" "fs_same (remove_inode s i) s'" by blast
      moreover have "find_child_inode s i = None" using leaf by (simp add: find_child_None)
      moreover have "path \<in> dom (fs_abs s)" using Some by (auto simp: fs_abs_def)
      ultimately show ?thesis using rem fs_same_abs [OF s'(2)] Some 3(1) root by auto
    qed
  qed
qed

end
