(* ===== verification/VfsTree.thy ===== *)
theory VfsTree
  imports VfsApi
begin

text \<open>
  The directory tree of \<^verbatim>\<open>kernel/fs/vfs.c\<close>. Every inode stores its path and, redundantly, the index of its
  parent directory. This theory says when the two agree, and shows that creating a node, removing a leaf by
  moving the last inode into its place, and changing the data of nodes keep them in agreement. A table in
  agreement is a tree: following the parents never cycles and always ends at the root.
\<close>

section \<open>Paths\<close>

text \<open>A path as the rest of the kernel builds it: it fits its buffer and has no trailing slash.\<close>

definition clean_path :: "string \<Rightarrow> bool" where
  "clean_path p \<longleftrightarrow> p \<noteq> [] \<and> length p < MAX_PATH \<and> (p = ''/'' \<or> last p \<noteq> CHR ''/'')"

lemma last_slash_snoc: "last_slash (s @ [c]) = (if c = CHR ''/'' then Some (length s) else last_slash s)"
proof -
  have "foldl (\<lambda>r i. if (s @ [c]) ! i = CHR ''/'' then Some i else r) None [0..<length s] =
    foldl (\<lambda>r i. if s ! i = CHR ''/'' then Some i else r) None [0..<length s]"
    by (rule foldl_cong) (simp_all add: nth_append)
  then show ?thesis by (simp add: last_slash_def)
qed

lemma last_slash_none: "CHR ''/'' \<notin> set s \<Longrightarrow> last_slash s = None"
  by (induction s rule: rev_induct) (auto simp: last_slash_snoc, simp add: last_slash_def)

lemma last_slash_split: "CHR ''/'' \<notin> set b \<Longrightarrow> last_slash (a @ CHR ''/'' # b) = Some (length a)"
proof (induction b rule: rev_induct)
  case Nil
  then show ?case by (simp add: last_slash_snoc)
next
  case (snoc c b)
  then show ?case using last_slash_snoc [of "a @ CHR ''/'' # b" c] by (auto split: if_splits)
qed

lemma parent_of_clean:
  assumes "clean_path p" "p \<noteq> ''/''"
  shows "get_parent_path p = (case last_slash p of None \<Rightarrow> ''/'' | Some i \<Rightarrow> if i = 0 then ''/'' else take i p)"
proof -
  have c: "p \<noteq> []" "length p < MAX_PATH" "last p \<noteq> CHR ''/''" using assms by (auto simp: clean_path_def)
  then have "p ! (length p - 1) \<noteq> CHR ''/''" "str_cpy p MAX_PATH = p"
    by (simp_all only: last_conv_nth str_cpy_id not_False_eq_True)
  then show ?thesis by (simp add: get_parent_path_def Let_def)
qed

lemma parent_path_cases:
  assumes "clean_path p" "p \<noteq> ''/''"
  obtains (top) "get_parent_path p = ''/''"
  | (sub) d b where "p = d @ CHR ''/'' # b" "CHR ''/'' \<notin> set b" "d \<noteq> []" "get_parent_path p = d"
proof (cases "CHR ''/'' \<in> set p")
  case True
  then obtain d b where s: "p = d @ CHR ''/'' # b" "CHR ''/'' \<notin> set b" by (meson split_list_last)
  then show thesis using that(1) that(2) [OF s] parent_of_clean [OF assms] last_slash_split [OF s(2), of d] by (cases "d = []") auto
next
  case False
  then show thesis using that(1) parent_of_clean [OF assms] by (simp add: last_slash_none)
qed

text \<open>The parent of a path below a directory is that directory or lies below it, whatever the directory is called.\<close>

lemma parent_below:
  assumes "clean_path (d @ u @ CHR ''/'' # b)" "d \<noteq> []" "CHR ''/'' \<notin> set b"
  shows "get_parent_path (d @ u @ CHR ''/'' # b) = d @ u"
proof -
  have "d @ u @ CHR ''/'' # b \<noteq> ''/''" using assms(2) by (cases d) auto
  then show ?thesis using parent_of_clean [OF assms(1)] last_slash_split [OF assms(3), of "d @ u"] assms(2) by simp
qed

lemma below_split:
  assumes "t \<noteq> []" "hd t = CHR ''/''"
  obtains u b where "t = u @ CHR ''/'' # b" "CHR ''/'' \<notin> set b" "u = [] \<or> hd u = CHR ''/''"
proof -
  have "CHR ''/'' \<in> set t" using assms by (cases t) auto
  then obtain u b where s: "t = u @ CHR ''/'' # b" "CHR ''/'' \<notin> set b" by (meson split_list_last)
  then have "u = [] \<or> hd u = CHR ''/''" using assms(2) by (cases u) auto
  then show thesis using that s by blast
qed

definition path_rank :: "string \<Rightarrow> nat" where
  "path_rank p = (if p = ''/'' then 0 else Suc (length p))"

lemma parent_rank: "clean_path p \<Longrightarrow> p \<noteq> ''/'' \<Longrightarrow> path_rank (get_parent_path p) < path_rank p"
  by (erule parent_path_cases) (auto simp: path_rank_def)

section \<open>Agreement of the parent indices with the paths\<close>

definition links_ok :: "'d vfs \<Rightarrow> bool" where
  "links_ok s \<longleftrightarrow> (\<forall>i<inode_count s. clean_path (node_path (inodes s ! i)) \<and>
     (0 < i \<longrightarrow> (\<exists>p<inode_count s. node_parent (inodes s ! i) = Some p \<and>
        node_path (inodes s ! p) = get_parent_path (node_path (inodes s ! i)))))"

lemma links_okD:
  assumes "links_ok s" "i < inode_count s"
  shows "clean_path (node_path (inodes s ! i))"
    and "0 < i \<Longrightarrow> \<exists>p<inode_count s. node_parent (inodes s ! i) = Some p \<and>
      node_path (inodes s ! p) = get_parent_path (node_path (inodes s ! i))"
  using assms by (auto simp: links_ok_def)

lemma links_ok_parent:
  assumes "links_ok s" "i < inode_count s" "0 < i" "node_parent (inodes s ! i) = Some p"
  shows "p < inode_count s" "node_path (inodes s ! p) = get_parent_path (node_path (inodes s ! i))"
  using links_okD(2) [OF assms(1-3)] assms(4) by auto

lemma links_same:
  assumes "inode_count t = inode_count s" "\<And>i. i < inode_count s \<Longrightarrow> node_path (inodes t ! i) = node_path (inodes s ! i) \<and>
      node_parent (inodes t ! i) = node_parent (inodes s ! i)"
  shows "links_ok t = links_ok s"
  using assms unfolding links_ok_def by (metis (no_types, lifting))

lemma links_shape_same: "shape_same s t \<Longrightarrow> links_ok t = links_ok s"
  by (rule links_same) (simp_all add: shape_same_def)

lemma links_fs_same: "fs_same s t \<Longrightarrow> links_ok t = links_ok s"
  by (rule links_same) (simp_all add: fs_same_def)

lemma links_open_files [simp]: "links_ok (s\<lparr>open_files := f\<rparr>) = links_ok s"
  by (rule links_same) simp_all

text \<open>Children, by index and by path.\<close>

definition a_children :: "(string \<rightharpoonup> anode) \<Rightarrow> string \<Rightarrow> string set" where
  "a_children fs d = {p \<in> dom fs. p \<noteq> ''/'' \<and> get_parent_path p = d}"

lemma child_by_path:
  assumes "tab_ok s" "links_ok s" "i < inode_count s" "j < inode_count s"
  shows "node_parent (inodes s ! j) = Some i \<longleftrightarrow> 0 < j \<and> get_parent_path (node_path (inodes s ! j)) = node_path (inodes s ! i)"
proof
  assume a: "node_parent (inodes s ! j) = Some i"
  then have "0 < j" using tab_okD(6) [OF assms(1)] by (cases j) auto
  then show "0 < j \<and> get_parent_path (node_path (inodes s ! j)) = node_path (inodes s ! i)"
    using links_ok_parent(2) [OF assms(2,4) _ a] by simp
next
  assume "0 < j \<and> get_parent_path (node_path (inodes s ! j)) = node_path (inodes s ! i)"
  then show "node_parent (inodes s ! j) = Some i"
    using links_okD(2) [OF assms(2,4)] tab_okD(9) [OF assms(1) _ assms(3)] by fastforce
qed

lemma children_iff:
  assumes t: "tab_ok s" and l: "links_ok s" and i: "find_inode s path = Some i"
  shows "find_child_inode s i = None \<longleftrightarrow> a_children (fs_abs s) path = {}"
proof -
  have i': "i < inode_count s" "node_path (inodes s ! i) = path" using i by (simp_all add: find_inode_Some)
  have d: "p \<in> dom (fs_abs s) \<longleftrightarrow> (\<exists>j<inode_count s. node_path (inodes s ! j) = p)" for p
    using fs_abs_Some [OF t, of p] by (auto simp: dom_def)
  have root: "node_path (inodes s ! j) = ''/'' \<longleftrightarrow> j = 0" if "j < inode_count s" for j
    using tab_okD(9) [OF t that tab_okD(2) [OF t]] tab_okD(4) [OF t] by auto
  show ?thesis unfolding find_child_None a_children_def set_eq_iff mem_Collect_eq empty_iff d
    using child_by_path [OF t l i'(1)] i'(2) root by (metis gr0I less_numeral_extra(3))
qed

section \<open>A table in agreement is a tree\<close>

definition parent_rel :: "'d vfs \<Rightarrow> (nat \<times> nat) set" where
  "parent_rel s = {(i, p). i < inode_count s \<and> node_parent (inodes s ! i) = Some p}"

lemma parent_rel_rank:
  assumes "tab_ok s" "links_ok s" "(i, p) \<in> parent_rel s"
  shows "p < inode_count s" "path_rank (node_path (inodes s ! p)) < path_rank (node_path (inodes s ! i))"
proof -
  have i: "i < inode_count s" "node_parent (inodes s ! i) = Some p" using assms(3) by (auto simp: parent_rel_def)
  then have "0 < i" using tab_okD(6) [OF assms(1)] by (cases i) auto
  note P = links_ok_parent [OF assms(2) i(1) this i(2)]
  have "node_path (inodes s ! i) \<noteq> ''/''"
    using tab_okD(9) [OF assms(1) i(1) tab_okD(2) [OF assms(1)]] tab_okD(4) [OF assms(1)] \<open>0 < i\<close> by auto
  with P show "p < inode_count s" "path_rank (node_path (inodes s ! p)) < path_rank (node_path (inodes s ! i))"
    using parent_rank [OF links_okD(1) [OF assms(2) i(1)]] by simp_all
qed

lemma parents_acyclic:
  assumes "tab_ok s" "links_ok s"
  shows "acyclic (parent_rel s)"
proof -
  have "(parent_rel s)\<inverse> \<subseteq> measure (\<lambda>i. path_rank (node_path (inodes s ! i)))"
    using parent_rel_rank(2) [OF assms] by auto
  then have "wf ((parent_rel s)\<inverse>)" by (rule wf_subset [OF wf_measure])
  then show ?thesis using wf_acyclic acyclic_converse by blast
qed

lemma parents_reach_root:
  assumes "tab_ok s" "links_ok s" "i < inode_count s"
  shows "(i, 0) \<in> (parent_rel s)\<^sup>*"
  using assms(3)
proof (induction "path_rank (node_path (inodes s ! i))" arbitrary: i rule: less_induct)
  case less
  show ?case
  proof (cases "i = 0")
    case False
    then obtain p where "node_parent (inodes s ! i) = Some p" using tab_okD(7) [OF assms(1) less.prems] by auto
    then have r: "(i, p) \<in> parent_rel s" using less.prems by (simp add: parent_rel_def)
    note P = parent_rel_rank [OF assms(1,2) r]
    from less.hyps [OF P(2,1)] r show ?thesis by (rule converse_rtrancl_into_rtrancl [rotated])
  qed simp
qed

text \<open>Everything below a path implies the path itself.\<close>

lemma ancestor_exists:
  assumes t: "tab_ok s" and l: "links_ok s" and d: "d \<noteq> []" "clean_path d"
  shows "p \<in> dom (fs_abs s) \<Longrightarrow> p = d @ u \<Longrightarrow> u = [] \<or> hd u = CHR ''/'' \<Longrightarrow> d \<in> dom (fs_abs s)"
proof (induction "length u" arbitrary: p u rule: less_induct)
  case less
  show ?case
  proof (cases "u = []")
    case False
    then obtain v b where v: "u = v @ CHR ''/'' # b" "CHR ''/'' \<notin> set b" "v = [] \<or> hd v = CHR ''/''"
      using below_split less.prems(3) by metis
    obtain i where i: "i < inode_count s" "node_path (inodes s ! i) = p"
      using less.prems(1) fs_abs_Some [OF t, of p] by auto
    have cp: "clean_path (d @ v @ CHR ''/'' # b)" using links_okD(1) [OF l i(1)] i(2) less.prems(2) v(1) by simp
    have "p \<noteq> ''/''" using less.prems(2) v(1) d(1) by (cases d) auto
    then have "i \<noteq> 0" using i(2) tab_okD(4) [OF t] by (cases i) auto
    then obtain q where q: "q < inode_count s" "node_path (inodes s ! q) = get_parent_path p"
      using links_okD(2) [OF l i(1)] i(2) by auto
    have "get_parent_path p = d @ v" using parent_below [OF cp d(1) v(2)] less.prems(2) v(1) by simp
    then have "d @ v \<in> dom (fs_abs s)" using fs_abs_nth [OF t q(1)] q(2) by auto
    from less.hyps [OF _ this refl v(3)] show ?thesis by (simp add: v(1))
  qed (use less.prems in simp)
qed

section \<open>Creating and removing nodes\<close>

lemma create_links:
  assumes t: "tab_ok s" and l: "links_ok s" and p: "clean_path path" and cr: "create_inode s path ty = (Inr i, s')"
  shows "links_ok s'"
proof -
  have r: "find_inode s ''/'' \<noteq> None" using find_inode_unique [OF t tab_okD(2) [OF t]] tab_okD(4) [OF t] by simp
  obtain node where n: "inode_count s < MAX_FILES" "node_path node = path" "node_parent node = find_inode s (get_parent_path path)"
    "find_inode s (get_parent_path path) \<noteq> None"
    "s' = s\<lparr>inodes := (inodes s)[inode_count s := node], inode_count := Suc (inode_count s)\<rparr>"
  proof (cases rule: create_inode_cases [of s path ty])
    case (made node)
    then show thesis using that [of node] cr p r by (auto simp: clean_path_def str_cpy_id)
  qed (use cr in simp_all)
  have nth: "inodes s' ! j = (if j = inode_count s then node else inodes s ! j)" for j
    using n(1,5) tab_okD(1) [OF t] by (simp add: nth_list_update)
  obtain q where q: "find_inode s (get_parent_path path) = Some q" using n(4) by blast
  then have q': "q < inode_count s" "node_path (inodes s ! q) = get_parent_path path" by (simp_all add: find_inode_Some)
  have sel: "inode_count s' = Suc (inode_count s)" by (simp add: n(5))
  show ?thesis unfolding links_ok_def sel
  proof (intro allI impI)
    fix j assume "j < Suc (inode_count s)"
    then consider "j = inode_count s" | "j < inode_count s" by linarith
    then show "clean_path (node_path (inodes s' ! j)) \<and> (0 < j \<longrightarrow> (\<exists>p<Suc (inode_count s). node_parent (inodes s' ! j) = Some p \<and>
        node_path (inodes s' ! p) = get_parent_path (node_path (inodes s' ! j))))"
    proof cases
      case 1
      then show ?thesis using n(2,3) p q q' by (auto simp: nth intro!: exI [of _ q])
    next
      case 2
      have "\<exists>p<Suc (inode_count s). node_parent (inodes s' ! j) = Some p \<and>
        node_path (inodes s' ! p) = get_parent_path (node_path (inodes s' ! j))" if j: "0 < j"
      proof -
        obtain k where "k < inode_count s" "node_parent (inodes s ! j) = Some k"
          "node_path (inodes s ! k) = get_parent_path (node_path (inodes s ! j))" using links_okD(2) [OF l 2 j] by blast
        then show ?thesis using 2 by (intro exI [of _ k]) (simp add: nth)
      qed
      then show ?thesis using links_okD(1) [OF l 2] 2 by (simp add: nth)
    qed
  qed
qed

lemma remove_links:
  assumes t: "tab_ok s" and l: "links_ok s" and i: "0 < i" "i < inode_count s"
    and leaf: "\<And>j. j < inode_count s \<Longrightarrow> node_parent (inodes s ! j) \<noteq> Some i"
  shows "links_ok (remove_inode s i)"
proof -
  define m where "m = inode_count s - 1"
  define src where "src j = (if j = i then m else j)" for j
  define dst where "dst p = (if p = m then i else p)" for p
  have src: "src j < inode_count s" "src j \<noteq> i" "0 < src j \<longleftrightarrow> 0 < j" if "j < m" for j using that i by (auto simp: src_def m_def)
  have nth: "node_path (inodes (remove_inode s i) ! j) = node_path (inodes s ! src j)"
    "node_parent (inodes (remove_inode s i) ! j) = map_option dst (node_parent (inodes s ! src j))" if "j < m" for j
  proof -
    have "inodes (remove_inode s i) ! j = (let n = inodes s ! src j in
        if i < m \<and> node_parent n = Some m then n\<lparr>node_parent := Some i\<rparr> else n)"
      using remove_inode_nth [OF t i(2), of j] that by (simp add: m_def src_def)
    moreover have "node_parent (inodes s ! src j) \<noteq> Some m" if "\<not> i < m"
    proof -
      have "m = i" using that i by (simp add: m_def)
      then show ?thesis using leaf [OF src(1) [OF \<open>j < m\<close>]] by simp
    qed
    ultimately show "node_path (inodes (remove_inode s i) ! j) = node_path (inodes s ! src j)"
      "node_parent (inodes (remove_inode s i) ! j) = map_option dst (node_parent (inodes s ! src j))"
      by (cases "node_parent (inodes s ! src j)"; auto simp: dst_def Let_def)+
  qed
  show ?thesis unfolding links_ok_def remove_inode_sel m_def [symmetric]
  proof (intro allI impI conjI)
    fix j assume j: "j < m"
    show "clean_path (node_path (inodes (remove_inode s i) ! j))" using links_okD(1) [OF l src(1) [OF j]] by (simp add: nth(1) [OF j])
    assume "0 < j"
    then obtain p where p: "p < inode_count s" "node_parent (inodes s ! src j) = Some p"
      "node_path (inodes s ! p) = get_parent_path (node_path (inodes s ! src j))"
      using links_okD(2) [OF l src(1) [OF j]] src(3) [OF j] \<open>0 < j\<close> by auto
    have "p \<noteq> i" using leaf [OF src(1) [OF j]] p(2) by auto
    then have d: "dst p < m" "src (dst p) = p" using p(1) i by (auto simp: dst_def src_def m_def)
    then show "\<exists>q<m. node_parent (inodes (remove_inode s i) ! j) = Some q \<and>
        node_path (inodes (remove_inode s i) ! q) = get_parent_path (node_path (inodes (remove_inode s i) ! j))"
      using p nth(1) [OF d(1)] by (intro exI [of _ "dst p"]) (simp add: nth [OF j])
  qed
qed

end
