(* ===== verification/VfsSystem.thy ===== *)
theory VfsSystem
  imports VfsTree
begin

text \<open>
  The file system as a whole: what \<^verbatim>\<open>vfs_rename\<close> means, the operations of \<^verbatim>\<open>kernel/fs/vfs.c\<close> as steps
  on its state, the invariant every sequence of steps keeps, the tree among its parts, and the properties of
  the operations on the map from paths to directories and file contents.
\<close>

section \<open>Renaming\<close>

lemma inside_iff: "path_is_inside p d \<longleftrightarrow> (\<exists>t. p = d @ t \<and> (t = [] \<or> hd t = CHR ''/''))"
proof
  assume a: "path_is_inside p d"
  then have "p = d @ drop (length d) p" unfolding path_is_inside_def Let_def by (metis append_take_drop_id)
  moreover have "drop (length d) p = [] \<or> hd (drop (length d) p) = CHR ''/''"
    using a unfolding path_is_inside_def Let_def
    by (metis append_eq_conv_conj calculation hd_drop_conv_nth length_append length_greater_0_conv less_add_same_cancel1 order_refl drop_all)
  ultimately show "\<exists>t. p = d @ t \<and> (t = [] \<or> hd t = CHR ''/'')" by blast
next
  assume "\<exists>t. p = d @ t \<and> (t = [] \<or> hd t = CHR ''/'')"
  then obtain t where "p = d @ t" "t = [] \<or> hd t = CHR ''/''" by blast
  then show "path_is_inside p d" by (cases t) (auto simp: path_is_inside_def)
qed

lemma inside_append [simp]: "path_is_inside (d @ t) d \<longleftrightarrow> t = [] \<or> hd t = CHR ''/''"
  by (auto simp: inside_iff)

lemma snprintf_concat:
  "snprintf 256 ''%s%s'' [VPtr (Some a), VPtr (Some b)] = Some (take 255 (a @ b))"
  by (auto simp: snprintf_def convert_def padded_def is_digit_def)

lemma renamed_path_eq:
  "length newpath + length (drop (length oldpath) p) < MAX_PATH \<Longrightarrow>
     renamed_path oldpath newpath p = Some (newpath @ drop (length oldpath) p)"
  using snprintf_concat [of newpath "drop (length oldpath) p"]
  by (simp add: renamed_path_def MAX_PATH_def str_cpy_def)

lemma rename_children_eq:
  assumes "distinct is" "\<And>i. i \<in> set is \<Longrightarrow> i < length (inodes s)"
    and "\<And>i. i \<in> set is \<Longrightarrow> below s idx oldpath i \<Longrightarrow>
      length newpath + length (drop (length oldpath) (node_path (inodes s ! i))) < MAX_PATH"
  shows "rename_children is s idx oldpath newpath = Some (s\<lparr>inodes := map (\<lambda>i.
    if i \<in> set is \<and> below s idx oldpath i
    then (inodes s ! i)\<lparr>node_path := newpath @ drop (length oldpath) (node_path (inodes s ! i))\<rparr>
    else inodes s ! i) [0..<length (inodes s)]\<rparr>)"
  using assms
proof (induction "is" arbitrary: s)
  case Nil
  then show ?case by (simp add: map_nth)
next
  case (Cons k ks)
  define q where "q = newpath @ drop (length oldpath) (node_path (inodes s ! k))"
  define t where "t = (if below s idx oldpath k
    then s\<lparr>inodes := (inodes s)[k := (inodes s ! k)\<lparr>node_path := q\<rparr>]\<rparr> else s)"
  have r: "rename_children (k # ks) s idx oldpath newpath = rename_children ks t idx oldpath newpath"
    using Cons.prems(3) [of k] renamed_path_eq by (simp add: t_def q_def)
  have other: "inodes t ! i = inodes s ! i" "below t idx oldpath i = below s idx oldpath i" if "i \<noteq> k" for i
    using that by (simp_all add: t_def below_def)
  have len: "length (inodes t) = length (inodes s)" by (simp add: t_def)
  have k: "k < length (inodes s)" "k \<notin> set ks" using Cons.prems by auto
  have "rename_children ks t idx oldpath newpath = Some (t\<lparr>inodes := map (\<lambda>i.
    if i \<in> set ks \<and> below t idx oldpath i
    then (inodes t ! i)\<lparr>node_path := newpath @ drop (length oldpath) (node_path (inodes t ! i))\<rparr>
    else inodes t ! i) [0..<length (inodes t)]\<rparr>)"
  proof (rule Cons.IH)
    fix i assume "i \<in> set ks"
    then have "i \<noteq> k" using k(2) by blast
    then show "i < length (inodes t)" "below t idx oldpath i \<Longrightarrow>
        length newpath + length (drop (length oldpath) (node_path (inodes t ! i))) < MAX_PATH"
      using Cons.prems(2,3) \<open>i \<in> set ks\<close> other by (simp_all add: len)
  qed (use Cons.prems(1) in simp)
  also have "\<dots> = Some (s\<lparr>inodes := map (\<lambda>i. if i \<in> set (k # ks) \<and> below s idx oldpath i
    then (inodes s ! i)\<lparr>node_path := newpath @ drop (length oldpath) (node_path (inodes s ! i))\<rparr>
    else inodes s ! i) [0..<length (inodes s)]\<rparr>)"
  proof -
    have "map (\<lambda>i. if i \<in> set ks \<and> below t idx oldpath i
        then (inodes t ! i)\<lparr>node_path := newpath @ drop (length oldpath) (node_path (inodes t ! i))\<rparr>
        else inodes t ! i) [0..<length (inodes s)] =
      map (\<lambda>i. if i \<in> set (k # ks) \<and> below s idx oldpath i
        then (inodes s ! i)\<lparr>node_path := newpath @ drop (length oldpath) (node_path (inodes s ! i))\<rparr>
        else inodes s ! i) [0..<length (inodes s)]"
    proof (rule map_cong [OF refl])
      fix i
      show "(if i \<in> set ks \<and> below t idx oldpath i
        then (inodes t ! i)\<lparr>node_path := newpath @ drop (length oldpath) (node_path (inodes t ! i))\<rparr> else inodes t ! i) =
        (if i \<in> set (k # ks) \<and> below s idx oldpath i
        then (inodes s ! i)\<lparr>node_path := newpath @ drop (length oldpath) (node_path (inodes s ! i))\<rparr> else inodes s ! i)"
        using k other [of i] by (cases "i = k") (simp_all add: t_def q_def)
    qed
    then show ?thesis unfolding len by (simp add: t_def)
  qed
  finally show ?case using r by simp
qed

text \<open>A table whose nodes have new names, paths and parents and the same data.\<close>

lemma relabel_ok:
  assumes ok: "vfs_ok s"
    and same: "inode_count s' = inode_count s" "heap s' = heap s" "length (inodes s') = length (inodes s)"
    and root: "pth 0 = ''/''" "par 0 = None"
    and node: "\<And>i. i < inode_count s \<Longrightarrow> \<exists>nm. inodes s' ! i = (inodes s ! i)\<lparr>node_name := nm, node_path := pth i, node_parent := par i\<rparr>"
    and len: "\<And>i. i < inode_count s \<Longrightarrow> length (pth i) < MAX_PATH"
    and inj: "\<And>i j. i < inode_count s \<Longrightarrow> j < inode_count s \<Longrightarrow> pth i = pth j \<Longrightarrow> i = j"
    and par: "\<And>i. i < inode_count s \<Longrightarrow> 0 < i \<Longrightarrow> \<exists>p<inode_count s. par i = Some p"
  shows "vfs_ok s' \<and> (\<forall>p a. fs_abs s' p = Some a \<longleftrightarrow>
    (\<exists>i<inode_count s. pth i = p \<and> a = node_abs (heap s) (inodes s ! i)))"
proof -
  note tab = tab_okD [OF vfs_okD(1) [OF ok]] and dat = data_okD [OF vfs_okD(2) [OF ok]]
  have sel: "node_path (inodes s' ! i) = pth i" "node_parent (inodes s' ! i) = par i"
    "node_data (inodes s' ! i) = node_data (inodes s ! i)" "node_type (inodes s' ! i) = node_type (inodes s ! i)"
    "node_ok h (inodes s' ! i) = node_ok h (inodes s ! i)" "node_abs h (inodes s' ! i) = node_abs h (inodes s ! i)"
    if "i < inode_count s" for i h
    using node [OF that] by (auto simp: node_ok_def node_abs_def node_content_def cong: option.case_cong)
  have t: "tab_ok s'" unfolding tab_ok_def same(1,3)
  proof (intro conjI allI impI)
    show "i = j" if "i < inode_count s" "j < inode_count s" "node_path (inodes s' ! i) = node_path (inodes s' ! j)" for i j
      using inj that by (simp add: sel)
  qed (use tab len par root in \<open>simp_all add: sel\<close>)
  have "data_ok s'"
  proof (rule data_okI, unfold same(1,2))
    show "i = j" if "i < inode_count s" "j < inode_count s" "node_data (inodes s' ! i) = Some p" "node_data (inodes s' ! j) = Some p" for i j p
      using dat(3) that by (simp add: sel)
  qed (use dat in \<open>simp_all add: sel\<close>)
  moreover have "fs_abs s' p = Some a \<longleftrightarrow> (\<exists>i<inode_count s. pth i = p \<and> a = node_abs (heap s) (inodes s ! i))" for p a
    unfolding fs_abs_Some [OF t] same(1,2) using sel by auto
  ultimately show ?thesis using t by (simp add: vfs_ok_def)
qed

text \<open>What a rename means: a file moves alone, a directory takes everything below it along.\<close>

definition a_rename :: "(string \<rightharpoonup> anode) \<Rightarrow> string \<Rightarrow> string \<Rightarrow> string \<rightharpoonup> anode" where
  "a_rename fs oldpath newpath p =
    (if fs oldpath = Some ADir
     then (if path_is_inside p newpath then fs (oldpath @ drop (length newpath) p)
           else if path_is_inside p oldpath then None else fs p)
     else (if p = newpath then fs oldpath else if p = oldpath then None else fs p))"

definition rename_paths :: "'d vfs \<Rightarrow> nat \<Rightarrow> string \<Rightarrow> string \<Rightarrow> nat \<Rightarrow> string" where
  "rename_paths s idx oldpath newpath i =
    (if i = idx then newpath
     else if node_type (inodes s ! idx) = 1 \<and> below s idx oldpath i
     then newpath @ drop (length oldpath) (node_path (inodes s ! i)) else node_path (inodes s ! i))"

definition rename_parents :: "'d vfs \<Rightarrow> nat \<Rightarrow> nat \<Rightarrow> nat \<Rightarrow> nat option" where
  "rename_parents s idx parent i = (if i = idx then Some parent else node_parent (inodes s ! i))"

lemma vfs_rename_success:
  assumes ok: "vfs_ok s" and f: "find_inode s oldpath = Some idx" "0 < idx" "find_inode s newpath = None"
      "find_inode s (get_parent_path newpath) = Some parent" "node_type (inodes s ! parent) = 1"
    and dir: "node_type (inodes s ! idx) = 1 \<Longrightarrow> \<not> path_is_inside newpath oldpath \<and> rename_fits s idx oldpath newpath"
    and len: "length newpath < MAX_PATH"
  shows "\<exists>s1 s'. vfs_rename st s oldpath newpath = Some (Inr (), s') \<and> fs_same s1 s' \<and>
    inode_count s1 = inode_count s \<and> heap s1 = heap s \<and> open_files s1 = open_files s \<and> vfs_initialized s1 = vfs_initialized s \<and>
    length (inodes s1) = length (inodes s) \<and>
    (\<forall>i<inode_count s. \<exists>nm. inodes s1 ! i = (inodes s ! i)\<lparr>node_name := nm,
       node_path := rename_paths s idx oldpath newpath i, node_parent := rename_parents s idx parent i\<rparr>)"
proof -
  note tab = tab_okD [OF vfs_okD(1) [OF ok]]
  define isdir where "isdir \<longleftrightarrow> node_type (inodes s ! idx) = 1"
  define mid where "mid = map (\<lambda>i. if i \<in> set [0..<inode_count s] \<and> below s idx oldpath i
    then (inodes s ! i)\<lparr>node_path := newpath @ drop (length oldpath) (node_path (inodes s ! i))\<rparr>
    else inodes s ! i) [0..<length (inodes s)]"
  define t where "t = s\<lparr>inodes := (if isdir then mid else inodes s)\<rparr>"
  have rc1: "rename_children [0..<inode_count s] s idx oldpath newpath = Some (s\<lparr>inodes := mid\<rparr>)" if isdir
    unfolding mid_def
  proof (rule rename_children_eq)
    show "length newpath + length (drop (length oldpath) (node_path (inodes s ! i))) < MAX_PATH"
      if "i \<in> set [0..<inode_count s]" "below s idx oldpath i" for i
      using dir that \<open>isdir\<close> by (auto simp: isdir_def rename_fits_def list_all_iff)
  qed (use tab(1,3) in auto)
  define s1 where "s1 = t\<lparr>inodes := (inodes t)[idx := (inodes t ! idx)\<lparr>node_path := str_cpy newpath MAX_PATH,
    node_name := get_filename newpath, node_parent := Some parent\<rparr>]\<rparr>"
  obtain r s2 where sv: "vfs_persist_save st s1 = Some (r, s2)" "fs_same s1 s2" using vfs_persist_save_frame by blast
  have d: "\<not> (isdir \<and> path_is_inside newpath oldpath)" "isdir \<longrightarrow> rename_fits s idx oldpath newpath"
    using dir by (auto simp: isdir_def)
  have "vfs_rename st s oldpath newpath =
    (if path_should_persist oldpath \<or> path_should_persist newpath
     then do { (_, s) \<leftarrow> vfs_persist_save st s1; Some (Inr (), s) } else Some (Inr (), s1))"
    unfolding s1_def using d f(2) rc1 by (cases isdir) (simp_all add: vfs_rename_def Let_def f(1,3-5) isdir_def t_def)
  then have "\<exists>s'. vfs_rename st s oldpath newpath = Some (Inr (), s') \<and> fs_same s1 s'"
    using sv by auto
  moreover have idx: "idx < inode_count s" using f(1) by (simp add: find_inode_Some)
  have "\<exists>nm. inodes s1 ! i = (inodes s ! i)\<lparr>node_name := nm,
       node_path := rename_paths s idx oldpath newpath i, node_parent := rename_parents s idx parent i\<rparr>" if "i < inode_count s" for i
  proof (cases "i = idx")
    case True
    then have "inodes s1 ! i = (inodes s ! i)\<lparr>node_name := get_filename newpath,
       node_path := rename_paths s idx oldpath newpath i, node_parent := rename_parents s idx parent i\<rparr>"
      using tab(1,3) that len
      by (simp add: s1_def t_def mid_def below_def rename_paths_def rename_parents_def str_cpy_id)
    then show ?thesis by blast
  next
    case False
    then have "inodes s1 ! i = (inodes s ! i)\<lparr>node_name := node_name (inodes s ! i),
       node_path := rename_paths s idx oldpath newpath i, node_parent := rename_parents s idx parent i\<rparr>"
      using tab(1,3) that by (auto simp: s1_def t_def mid_def rename_paths_def rename_parents_def isdir_def)
    then show ?thesis by blast
  qed
  moreover have "inode_count s1 = inode_count s" "heap s1 = heap s" "open_files s1 = open_files s"
    "vfs_initialized s1 = vfs_initialized s" "length (inodes s1) = length (inodes s)"
    by (simp_all add: s1_def t_def mid_def)
  ultimately show ?thesis by blast
qed

lemma rename_paths_inj:
  assumes ok: "vfs_ok s" and idx: "find_inode s oldpath = Some idx" and new: "find_inode s newpath = None"
    and fresh: "node_type (inodes s ! idx) = 1 \<Longrightarrow> \<forall>p\<in>dom (fs_abs s). \<not> path_is_inside p newpath"
    and ij: "i < inode_count s" "j < inode_count s" "rename_paths s idx oldpath newpath i = rename_paths s idx oldpath newpath j"
  shows "i = j"
proof -
  note t = vfs_okD(1) [OF ok]
  have P: "node_path (inodes s ! k) \<noteq> newpath" if "k < inode_count s" for k
    using new that by (simp add: find_inode_None)
  show ?thesis
  proof (cases "node_type (inodes s ! idx) = 1")
    case False
    then show ?thesis using ij P tab_okD(9) [OF t ij(1,2)] by (auto simp: rename_paths_def split: if_splits)
  next
    case True
    define b where "b k \<longleftrightarrow> path_is_inside (node_path (inodes s ! k)) oldpath" for k
    have old: "node_path (inodes s ! idx) = oldpath" using idx by (simp add: find_inode_Some)
    have rp: "rename_paths s idx oldpath newpath k =
      (if b k then newpath @ drop (length oldpath) (node_path (inodes s ! k)) else node_path (inodes s ! k))" for k
      using True old by (auto simp: rename_paths_def below_def b_def inside_iff)
    have away: "\<not> path_is_inside (node_path (inodes s ! k)) newpath" if "k < inode_count s" for k
      using fresh [OF True] fs_abs_nth [OF t that] by blast
    have ins: "path_is_inside (newpath @ drop (length oldpath) (node_path (inodes s ! k))) newpath" if "b k" for k
      using that by (auto simp: b_def inside_iff)
    have "b i = b j" using ij(3) away [OF ij(1)] away [OF ij(2)] ins by (metis rp)
    then have "node_path (inodes s ! i) = node_path (inodes s ! j)"
      using ij(3) by (auto simp: rp b_def inside_iff split: if_splits)
    then show ?thesis by (rule tab_okD(9) [OF t ij(1,2)])
  qed
qed

lemma a_rename_image:
  assumes ok: "vfs_ok s" and idx: "find_inode s oldpath = Some idx" and new: "find_inode s newpath = None"
    and fresh: "node_type (inodes s ! idx) = 1 \<Longrightarrow> \<forall>p\<in>dom (fs_abs s). \<not> path_is_inside p newpath"
  shows "a_rename (fs_abs s) oldpath newpath p = Some a \<longleftrightarrow>
    (\<exists>i<inode_count s. rename_paths s idx oldpath newpath i = p \<and> a = node_abs (heap s) (inodes s ! i))"
proof -
  note t = vfs_okD(1) [OF ok]
  have i: "idx < inode_count s" "node_path (inodes s ! idx) = oldpath" using idx by (simp_all add: find_inode_Some)
  have P: "node_path (inodes s ! k) \<noteq> newpath" if "k < inode_count s" for k
    using new that by (simp add: find_inode_None)
  have ty: "fs_abs s oldpath = Some ADir \<longleftrightarrow> node_type (inodes s ! idx) = 1"
    using fs_abs_nth [OF t i(1)] i(2) by (simp add: node_abs_def)
  show ?thesis
  proof (cases "node_type (inodes s ! idx) = 1")
    case False
    have rp: "rename_paths s idx oldpath newpath k = (if k = idx then newpath else node_path (inodes s ! k))" for k
      using False by (simp add: rename_paths_def)
    have ne: "k \<noteq> idx \<longleftrightarrow> node_path (inodes s ! k) \<noteq> oldpath" if "k < inode_count s" for k
      using tab_okD(9) [OF t that i(1)] i(2) by auto
    show ?thesis
      using False ty i P ne fs_abs_nth [OF t i(1)] fs_abs_Some [OF t, of p a] new
      by (auto simp: a_rename_def rp split: if_splits)
  next
    case True
    define b where "b k \<longleftrightarrow> path_is_inside (node_path (inodes s ! k)) oldpath" for k
    have rp: "rename_paths s idx oldpath newpath k =
      (if b k then newpath @ drop (length oldpath) (node_path (inodes s ! k)) else node_path (inodes s ! k))" for k
      using True i(2) by (auto simp: rename_paths_def below_def b_def inside_iff)
    have away: "\<not> path_is_inside (node_path (inodes s ! k)) newpath" if "k < inode_count s" for k
      using fresh [OF True] fs_abs_nth [OF t that] by blast
    show ?thesis
    proof (cases "path_is_inside p newpath")
      case in1: True
      then obtain u where u: "p = newpath @ u" "u = [] \<or> hd u = CHR ''/''" by (auto simp: inside_iff)
      have "rename_paths s idx oldpath newpath k = p \<longleftrightarrow> node_path (inodes s ! k) = oldpath @ u" if "k < inode_count s" for k
        using u away [OF that] in1 by (auto simp: rp b_def inside_iff)
      then show ?thesis using True ty in1 u fs_abs_Some [OF t, of "oldpath @ u" a] by (auto simp: a_rename_def)
    next
      case out: False
      have "rename_paths s idx oldpath newpath k = p \<longleftrightarrow> \<not> path_is_inside p oldpath \<and> node_path (inodes s ! k) = p" for k
        using out by (auto simp: rp b_def inside_iff split: if_splits)
      then show ?thesis using True ty out fs_abs_Some [OF t, of p a] by (auto simp: a_rename_def)
    qed
  qed
qed

lemma vfs_rename_spec:
  assumes ok: "vfs_ok s" and len: "length newpath < MAX_PATH" and old: "oldpath \<noteq> []"
    and fresh: "fs_abs s oldpath = Some ADir \<Longrightarrow> newpath \<notin> dom (fs_abs s) \<Longrightarrow> \<forall>p\<in>dom (fs_abs s). \<not> path_is_inside p newpath"
  shows "\<exists>r s'. vfs_rename st s oldpath newpath = Some (r, s') \<and> vfs_ok s' \<and>
    (case r of
       Inr _ \<Rightarrow> oldpath \<in> dom (fs_abs s) \<and> newpath \<notin> dom (fs_abs s) \<and> fs_abs s (get_parent_path newpath) = Some ADir \<and>
         fs_abs s' = a_rename (fs_abs s) oldpath newpath
     | Inl e \<Rightarrow> s' = s \<and>
        (e = ENOENT \<and> (oldpath \<notin> dom (fs_abs s) \<or> get_parent_path newpath \<notin> dom (fs_abs s)) \<or>
         e = EEXIST \<and> newpath \<in> dom (fs_abs s) \<or>
         e = ENOTDIR \<and> fs_abs s (get_parent_path newpath) \<noteq> Some ADir \<or>
         e = EINVAL \<and> (oldpath = ''/'' \<or> path_is_inside newpath oldpath) \<or>
         e = ENAMETOOLONG \<and> (\<exists>p\<in>dom (fs_abs s). path_is_inside p oldpath \<and> MAX_PATH \<le> length newpath + (length p - length oldpath))))"
proof (cases "\<exists>idx parent. find_inode s oldpath = Some idx \<and> 0 < idx \<and> find_inode s newpath = None \<and>
    find_inode s (get_parent_path newpath) = Some parent \<and> node_type (inodes s ! parent) = 1 \<and>
    (node_type (inodes s ! idx) = 1 \<longrightarrow> \<not> path_is_inside newpath oldpath \<and> rename_fits s idx oldpath newpath)")
  case True
  then obtain idx parent where f: "find_inode s oldpath = Some idx" "0 < idx" "find_inode s newpath = None"
      "find_inode s (get_parent_path newpath) = Some parent" "node_type (inodes s ! parent) = 1"
    and dir: "node_type (inodes s ! idx) = 1 \<Longrightarrow> \<not> path_is_inside newpath oldpath \<and> rename_fits s idx oldpath newpath" by blast
  note tab = tab_okD [OF vfs_okD(1) [OF ok]]
  have i: "idx < inode_count s" "parent < inode_count s" using f by (simp_all add: find_inode_Some)
  have fresh': "node_type (inodes s ! idx) = 1 \<Longrightarrow> \<forall>p\<in>dom (fs_abs s). \<not> path_is_inside p newpath"
  proof -
    assume "node_type (inodes s ! idx) = 1"
    then have "fs_abs s oldpath = Some ADir" "newpath \<notin> dom (fs_abs s)" using f(1,3) by (auto simp: fs_abs_def node_abs_def)
    then show ?thesis by (rule fresh)
  qed
  from vfs_rename_success [OF ok f dir len, of st] obtain s1 s' where
    r: "vfs_rename st s oldpath newpath = Some (Inr (), s')" "fs_same s1 s'"
    and s1: "inode_count s1 = inode_count s" "heap s1 = heap s" "length (inodes s1) = length (inodes s)"
      "\<And>i. i < inode_count s \<Longrightarrow> \<exists>nm. inodes s1 ! i = (inodes s ! i)\<lparr>node_name := nm,
         node_path := rename_paths s idx oldpath newpath i, node_parent := rename_parents s idx parent i\<rparr>" by blast
  have root: "rename_paths s idx oldpath newpath 0 = ''/''" "rename_parents s idx parent 0 = None"
    using tab(4,6) f(2) old tab_okD(9) [OF vfs_okD(1) [OF ok] i(1) tab(2)] f(1)
    by (auto simp: rename_paths_def rename_parents_def below_def inside_iff find_inode_Some Cons_eq_append_conv)
  have "vfs_ok s1 \<and> (\<forall>p a. fs_abs s1 p = Some a \<longleftrightarrow>
      (\<exists>i<inode_count s. rename_paths s idx oldpath newpath i = p \<and> a = node_abs (heap s) (inodes s ! i)))"
  proof (rule relabel_ok [OF ok s1(1-3) root s1(4)])
    show "length (rename_paths s idx oldpath newpath k) < MAX_PATH" if "k < inode_count s" for k
      using len tab(8) [OF that] dir that by (auto simp: rename_paths_def rename_fits_def list_all_iff)
    show "k = j" if "k < inode_count s" "j < inode_count s" "rename_paths s idx oldpath newpath k = rename_paths s idx oldpath newpath j" for k j
      by (rule rename_paths_inj [OF ok f(1,3) fresh' that])
    show "\<exists>p<inode_count s. rename_parents s idx parent k = Some p" if "k < inode_count s" "0 < k" for k
      using tab(7) [OF that] i(2) by (simp add: rename_parents_def)
  qed
  then have "vfs_ok s1" "fs_abs s1 = a_rename (fs_abs s) oldpath newpath"
    using a_rename_image [OF ok f(1,3) fresh'] by (auto intro: fs_abs_eqI)
  then show ?thesis using r f fs_same_abs [OF r(2)] by (auto simp: fs_abs_def node_abs_def)
next
  case False
  note tab = tab_okD [OF vfs_okD(1) [OF ok]]
  have long: "\<exists>p\<in>dom (fs_abs s). path_is_inside p oldpath \<and> MAX_PATH \<le> length newpath + (length p - length oldpath)"
    if "\<not> rename_fits s idx oldpath newpath" for idx
  proof -
    from that obtain k where k: "k < inode_count s" "below s idx oldpath k"
      "\<not> length newpath + length (drop (length oldpath) (node_path (inodes s ! k))) < MAX_PATH"
      by (auto simp: rename_fits_def list_all_iff)
    then show ?thesis using fs_abs_nth [OF vfs_okD(1) [OF ok] k(1)]
      by (intro bexI [of _ "node_path (inodes s ! k)"]) (auto simp: below_def)
  qed
  have z: "find_inode s oldpath = Some 0 \<Longrightarrow> oldpath = ''/''" using tab(4) by (auto simp: find_inode_Some)
  show ?thesis
  proof (cases "find_inode s oldpath")
    case None
    then show ?thesis using ok by (auto simp: vfs_rename_def fs_abs_def)
  next
    case (Some idx)
    show ?thesis
    proof (cases "idx = 0 \<or> find_inode s newpath \<noteq> None \<or> find_inode s (get_parent_path newpath) = None")
      case True
      then show ?thesis using Some z ok by (auto simp: vfs_rename_def fs_abs_def)
    next
      case c: False
      then obtain parent where p: "find_inode s (get_parent_path newpath) = Some parent" by blast
      have dom: "dom (fs_abs s) = {p. find_inode s p \<noteq> None}" by (auto simp: fs_abs_def)
      show ?thesis
      proof (cases "node_type (inodes s ! parent) = 1")
        case True
        with False Some c p have "node_type (inodes s ! idx) = 1" "path_is_inside newpath oldpath \<or> \<not> rename_fits s idx oldpath newpath"
          by auto
        then show ?thesis using Some c p True ok long [of idx]
          by (cases "path_is_inside newpath oldpath") (simp_all add: vfs_rename_def Let_def)
      next
        case nd: False
        then have "fs_abs s (get_parent_path newpath) \<noteq> Some ADir" using p by (simp add: fs_abs_def node_abs_def)
        then show ?thesis using Some c p nd ok by (simp add: vfs_rename_def Let_def)
      qed
    qed
  qed
qed


text \<open>After a rename every node's parent index is again the index of its parent path: below a directory that
  moves the paths move together, and everything else stays where it is.\<close>

lemma inside_trans_child:
  assumes "clean_path p" "p \<noteq> ''/''" "path_is_inside (get_parent_path p) d" "d \<noteq> []" "d \<noteq> ''/''"
  shows "path_is_inside p d"
proof -
  obtain t where t: "get_parent_path p = d @ t" "t = [] \<or> hd t = CHR ''/''" using assms(3) by (auto simp: inside_iff)
  show ?thesis
  proof (cases rule: parent_path_cases [OF assms(1,2)])
    case 1
    then show ?thesis using t(1) assms(4,5) by (auto simp: append_eq_Cons_conv)
  next
    case (2 e b)
    then have "p = d @ (t @ CHR ''/'' # b)" using t(1) by simp
    then show ?thesis using t(2) unfolding inside_iff by (cases t) auto
  qed
qed

lemma rename_links:
  assumes ok: "vfs_ok s" "dirs_ok s" "links_ok s" and new: "clean_path newpath"
    and f: "find_inode s oldpath = Some idx" "0 < idx" "find_inode s newpath = None"
      "find_inode s (get_parent_path newpath) = Some parent" "node_type (inodes s ! parent) = 1"
    and dir: "node_type (inodes s ! idx) = 1 \<Longrightarrow> \<not> path_is_inside newpath oldpath \<and> rename_fits s idx oldpath newpath"
    and s1: "inode_count s1 = inode_count s" "\<And>i. i < inode_count s \<Longrightarrow>
      node_path (inodes s1 ! i) = rename_paths s idx oldpath newpath i \<and> node_parent (inodes s1 ! i) = rename_parents s idx parent i"
  shows "links_ok s1"
proof -
  note t = vfs_okD(1) [OF ok(1)] and l = ok(3)
  note tab = tab_okD [OF t]
  define isdir where "isdir \<longleftrightarrow> node_type (inodes s ! idx) = 1"
  have idx: "idx < inode_count s" "node_path (inodes s ! idx) = oldpath" using f(1) by (simp_all add: find_inode_Some)
  have par: "parent < inode_count s" "node_path (inodes s ! parent) = get_parent_path newpath" using f(4) by (simp_all add: find_inode_Some)
  have old: "oldpath \<noteq> []" "oldpath \<noteq> ''/''"
    using links_okD(1) [OF l idx(1)] idx(2) tab(9) [OF idx(1) tab(2)] tab(4) f(2) by (auto simp: clean_path_def)
  have root: "find_inode s ''/'' = Some 0" using find_inode_unique [OF t tab(2)] tab(4) by simp
  then have nroot: "newpath \<noteq> ''/''" using f(3) by auto
  have inside_idx: "k = idx" if "k < inode_count s" "node_path (inodes s ! k) = oldpath" for k
    using tab(9) [OF that(1) idx(1)] that(2) idx(2) by simp
  have not_root: "node_path (inodes s ! k) \<noteq> ''/''" if "k < inode_count s" "0 < k" for k
    using tab(9) [OF that(1) tab(2)] tab(4) that by auto
  define moved where "moved k \<longleftrightarrow> isdir \<and> below s idx oldpath k" for k
  have rp: "rename_paths s idx oldpath newpath k = (if k = idx then newpath else if moved k
      then newpath @ drop (length oldpath) (node_path (inodes s ! k)) else node_path (inodes s ! k))" for k
    by (simp add: rename_paths_def moved_def isdir_def)
  have stays: "q \<noteq> idx \<and> \<not> moved q"
    if q: "q < inode_count s" "node_path (inodes s ! q) = get_parent_path p" "node_type (inodes s ! q) = 1"
      and p: "clean_path p" "p \<noteq> ''/''" "isdir \<Longrightarrow> \<not> path_is_inside p oldpath" for p q
  proof -
    have "\<not> path_is_inside (node_path (inodes s ! q)) oldpath" if isdir
      using inside_trans_child [OF p(1,2) _ old] p(3) [OF that] q(2) by auto
    moreover have "path_is_inside (node_path (inodes s ! idx)) oldpath" by (simp add: idx(2) inside_iff)
    ultimately show ?thesis using q(3) by (auto simp: moved_def below_def isdir_def)
  qed
  have mv: "\<exists>u b. node_path (inodes s ! k) = oldpath @ u @ CHR ''/'' # b \<and> CHR ''/'' \<notin> set b \<and> (u = [] \<or> hd u = CHR ''/'') \<and>
      clean_path (newpath @ u @ CHR ''/'' # b)" if k: "k < inode_count s" "moved k" for k
  proof -
    obtain w where w: "node_path (inodes s ! k) = oldpath @ w" "w = [] \<or> hd w = CHR ''/''"
      using k(2) by (auto simp: moved_def below_def inside_iff)
    have "w \<noteq> []" using inside_idx [OF k(1)] w(1) k(2) by (auto simp: moved_def below_def)
    then obtain u b where u: "w = u @ CHR ''/'' # b" "CHR ''/'' \<notin> set b" "u = [] \<or> hd u = CHR ''/''"
      using below_split w(2) by metis
    have "length newpath + length w < MAX_PATH"
      using dir k w(1) by (auto simp: moved_def isdir_def rename_fits_def list_all_iff)
    moreover have "last w \<noteq> CHR ''/''"
      using links_okD(1) [OF l k(1)] w(1) \<open>w \<noteq> []\<close> old(1) by (auto simp: clean_path_def append_eq_Cons_conv)
    ultimately have "clean_path (newpath @ w)" using new \<open>w \<noteq> []\<close> by (simp add: clean_path_def)
    then show ?thesis using w(1) u by auto
  qed
  show ?thesis unfolding links_ok_def s1(1)
  proof (intro allI impI conjI)
    fix k assume k: "k < inode_count s"
    note s1k = s1(2) [OF k]
    show "clean_path (node_path (inodes s1 ! k))"
    proof (cases "k = idx \<or> \<not> moved k")
      case True
      then show ?thesis using s1k new links_okD(1) [OF l k] by (auto simp: rp)
    next
      case False
      then show ?thesis using s1k mv [OF k] by (auto simp: rp)
    qed
    assume "0 < k"
    show "\<exists>p<inode_count s. node_parent (inodes s1 ! k) = Some p \<and> node_path (inodes s1 ! p) = get_parent_path (node_path (inodes s1 ! k))"
    proof (cases "k = idx")
      case True
      have "parent \<noteq> idx \<and> \<not> moved parent" by (rule stays [OF par f(5) new nroot]) (use dir isdir_def in auto)
      then show ?thesis using True s1k s1(2) [OF par(1)] par by (auto simp: rp rename_parents_def)
    next
      case False
      obtain q where q: "q < inode_count s" "node_parent (inodes s ! k) = Some q"
        "node_path (inodes s ! q) = get_parent_path (node_path (inodes s ! k))"
        using links_okD(2) [OF l k \<open>0 < k\<close>] by blast
      have qt: "node_type (inodes s ! q) = 1" using ok(2) k q(2) by (auto simp: dirs_ok_def)
      have pk: "node_parent (inodes s1 ! k) = Some q" using s1k False q(2) by (simp add: rename_parents_def)
      show ?thesis
      proof (cases "moved k")
        case True
        then obtain u b where u: "node_path (inodes s ! k) = oldpath @ u @ CHR ''/'' # b" "CHR ''/'' \<notin> set b"
          "u = [] \<or> hd u = CHR ''/''" "clean_path (newpath @ u @ CHR ''/'' # b)" using mv [OF k] by blast
        have gp: "get_parent_path (oldpath @ u @ CHR ''/'' # b) = oldpath @ u" "get_parent_path (newpath @ u @ CHR ''/'' # b) = newpath @ u"
          using parent_below [OF _ old(1) u(2)] parent_below [OF u(4) _ u(2)] links_okD(1) [OF l k] u(1) new by (auto simp: clean_path_def)
        have "rename_paths s idx oldpath newpath q = newpath @ u"
        proof (cases "u = []")
          case True
          then have "q = idx" using inside_idx [OF q(1)] q(3) u(1) gp(1) by simp
          then show ?thesis using True by (simp add: rp)
        next
          case ne: False
          then have "q \<noteq> idx" using q(3) u(1) gp(1) idx(2) by auto
          then have "moved q" using \<open>moved k\<close> q(3) u(1,3) gp(1) by (auto simp: moved_def below_def inside_iff)
          then show ?thesis using \<open>q \<noteq> idx\<close> q(3) u(1) gp(1) by (simp add: rp)
        qed
        moreover have "node_path (inodes s1 ! k) = newpath @ u @ CHR ''/'' # b" using s1k False True u(1) by (simp add: rp)
        ultimately show ?thesis using pk q(1) s1(2) [OF q(1)] gp(2) by auto
      next
        case nm: False
        have "q \<noteq> idx \<and> \<not> moved q"
          by (rule stays [OF q(1,3) qt links_okD(1) [OF l k] not_root [OF k \<open>0 < k\<close>]]) (use nm False in \<open>simp add: moved_def below_def\<close>)
        then show ?thesis using pk q s1(2) [OF q(1)] s1k False nm by (auto simp: rp)
      qed
    qed
  qed
qed

section \<open>The invariant\<close>

text \<open>A valid handle names an existing file.\<close>

definition handles_ok :: "'d vfs \<Rightarrow> bool" where
  "handles_ok s \<longleftrightarrow> length (open_files s) = MAX_OPEN \<and>
     (\<forall>fd<MAX_OPEN. file_valid (open_files s ! fd) \<longrightarrow>
        file_inode (open_files s ! fd) < inode_count s \<and> node_type (inodes s ! file_inode (open_files s ! fd)) \<noteq> 1)"

definition vfs_inv :: "'d vfs \<Rightarrow> bool" where
  "vfs_inv s \<longleftrightarrow> vfs_initialized s \<and> vfs_ok s \<and> dirs_ok s \<and> handles_ok s"

lemma vfs_invD:
  assumes "vfs_inv s"
  shows "vfs_initialized s" "vfs_ok s" "dirs_ok s" "handles_ok s" "length (open_files s) = MAX_OPEN"
  using assms by (simp_all add: vfs_inv_def handles_ok_def)

lemma fs_same_inv: "fs_same s t \<Longrightarrow> vfs_inv t = vfs_inv s"
  using fs_same_abs(1) [of s t] by (simp add: vfs_inv_def dirs_ok_def handles_ok_def fs_same_def)

lemma shape_same_dirs: "shape_same s t \<Longrightarrow> dirs_ok t = dirs_ok s"
  by (simp add: shape_same_def dirs_ok_def)

lemma handles_upd:
  assumes "handles_ok s" "shape_same s t" "open_files t = (open_files s)[fd := f]"
    and "file_valid f \<Longrightarrow> file_inode f < inode_count s \<and> node_type (inodes s ! file_inode f) \<noteq> 1"
  shows "handles_ok t"
proof -
  have "open_files t ! k = (if k = fd then f else open_files s ! k)" if "k < MAX_OPEN" for k
    using assms(1,3) that by (simp add: handles_ok_def nth_list_update)
  moreover have "length (open_files t) = MAX_OPEN" using assms(1,3) by (simp add: handles_ok_def)
  moreover have "inode_count t = inode_count s" "\<And>i. node_type (inodes t ! i) = node_type (inodes s ! i)"
    using assms(2) by (simp_all add: shape_same_def)
  ultimately show ?thesis using assms(1,4) by (auto simp: handles_ok_def)
qed

lemma handle_opened:
  assumes inv: "vfs_inv s" and fd: "fd < MAX_OPEN" "file_valid (open_files s ! fd)"
  obtains path c where "opened s fd path (file_pos (open_files s ! fd))" "fs_abs s path = Some (AFile c)"
proof -
  define i where "i = file_inode (open_files s ! fd)"
  note D = vfs_invD [OF inv]
  have i: "i < inode_count s" "node_type (inodes s ! i) \<noteq> 1" using D(4) fd by (simp_all add: handles_ok_def i_def)
  have "find_inode s (node_path (inodes s ! i)) = Some i" by (rule find_inode_unique [OF vfs_okD(1) [OF D(2)] i(1)])
  then have "opened s fd (node_path (inodes s ! i)) (file_pos (open_files s ! fd))"
    using fd D(5) by (simp add: opened_def i_def)
  moreover have "fs_abs s (node_path (inodes s ! i)) = Some (AFile (node_content (heap s) (inodes s ! i)))"
    using fs_abs_nth [OF vfs_okD(1) [OF D(2)] i(1)] i(2) by (simp add: node_abs_def)
  ultimately show thesis by (rule that)
qed

text \<open>Creating a node under a directory.\<close>

definition parent_no_file :: "'d vfs \<Rightarrow> string \<Rightarrow> bool" where
  "parent_no_file s path \<longleftrightarrow> (\<forall>c. fs_abs s (get_parent_path path) \<noteq> Some (AFile c))"

lemma create_inode_inv:
  assumes inv: "vfs_inv s" and path: "length path < MAX_PATH" "parent_no_file s path"
    and cr: "create_inode s path ty = (Inr i, s')"
  shows "vfs_inv s'"
proof -
  note D = vfs_invD [OF inv] and t = vfs_okD(1) [OF vfs_invD(2) [OF inv]]
  note tab = tab_okD [OF t]
  have sp: "vfs_ok s'" "get_parent_path path \<in> dom (fs_abs s)" "path \<notin> dom (fs_abs s)"
    using create_inode_spec [OF D(2) path(1), of ty] cr by auto
  obtain node where n: "inode_count s < MAX_FILES" "node_parent node = find_inode s (get_parent_path path)"
    "s' = s\<lparr>inodes := (inodes s)[inode_count s := node], inode_count := Suc (inode_count s)\<rparr>"
  proof (cases rule: create_inode_cases [of s path ty])
    case (made node)
    then show thesis using that [of node] cr by simp
  qed (use cr in simp_all)
  have nth: "inodes s' ! j = (if j = inode_count s then node else inodes s ! j)" for j
    using n(1,3) tab(1) by (simp add: nth_list_update)
  have sel: "inode_count s' = Suc (inode_count s)" "open_files s' = open_files s" "vfs_initialized s' = vfs_initialized s"
    by (simp_all add: n(3))
  obtain q where q: "find_inode s (get_parent_path path) = Some q" using sp(2) by (auto simp: fs_abs_def)
  then have "node_type (inodes s ! q) = 1" "q < inode_count s"
    using path(2) by (auto simp: parent_no_file_def fs_abs_def node_abs_def find_inode_Some split: if_splits)
  moreover have "p < inode_count s" if "node_parent (inodes s ! j) = Some p" "j < inode_count s" for j p
    using tab(6) tab(7) [OF that(2)] that(1) by (cases "j = 0") auto
  ultimately have "dirs_ok s'"
    using D(3) q n(2) unfolding dirs_ok_def sel less_Suc_eq nth by auto
  moreover have "handles_ok s'"
    using D(4) unfolding handles_ok_def sel nth by auto
  ultimately show ?thesis using D(1) sp(1) by (simp add: vfs_inv_def sel)
qed

lemma remove_inode_inv:
  assumes inv: "vfs_inv s" and i: "0 < i" "i < inode_count s" "find_child_inode s i = None"
    and closed: "\<And>fd. fd < MAX_OPEN \<Longrightarrow> file_valid (open_files s ! fd) \<Longrightarrow>
      file_inode (open_files s ! fd) \<noteq> i \<and> file_inode (open_files s ! fd) \<noteq> inode_count s - 1"
  shows "vfs_inv (remove_inode s i)"
proof -
  note D = vfs_invD [OF inv] and t = vfs_okD(1) [OF vfs_invD(2) [OF inv]]
  note tab = tab_okD [OF t] and nth = remove_inode_nth [OF t i(2)]
  have leaf: "node_parent (inodes s ! j) \<noteq> Some i" if "j < inode_count s" for j using i(3) that by (simp add: find_child_None)
  have lt: "p < inode_count s" if "node_parent (inodes s ! j) = Some p" "j < inode_count s" for j p
    using tab(6) tab(7) [OF that(2)] that(1) by (cases "j = 0") auto
  have ty: "node_type (inodes (remove_inode s i) ! j) = node_type (inodes s ! (if j = i then inode_count s - 1 else j))"
    if "j < inode_count s - 1" for j
    using nth [OF that] by (simp add: Let_def)
  have "dirs_ok (remove_inode s i)" unfolding dirs_ok_def remove_inode_sel
  proof (intro allI impI)
    fix j p
    assume j: "j < inode_count s - 1" and p: "node_parent (inodes (remove_inode s i) ! j) = Some p"
    define k where "k = (if j = i then inode_count s - 1 else j)"
    have k: "k < inode_count s" "k \<noteq> i" using j i(2) by (auto simp: k_def)
    from p nth [OF j] obtain q where q: "node_parent (inodes s ! k) = Some q"
      "p = (if i < inode_count s - 1 \<and> q = inode_count s - 1 then i else q)"
      by (auto simp: Let_def k_def split: if_splits)
    have d: "node_type (inodes s ! q) = 1" "q < inode_count s" "q \<noteq> i" using D(3) q(1) k(1) lt leaf by (auto simp: dirs_ok_def)
    then have "p < inode_count s - 1" using q(2) i(2) by (auto split: if_splits)
    then show "node_type (inodes (remove_inode s i) ! p) = 1" using ty d q(2) by (auto split: if_splits)
  qed
  moreover have "handles_ok (remove_inode s i)" unfolding handles_ok_def remove_inode_sel
  proof (intro conjI allI impI)
    fix fd assume fd: "fd < MAX_OPEN" "file_valid (open_files s ! fd)"
    then have h: "file_inode (open_files s ! fd) < inode_count s" "node_type (inodes s ! file_inode (open_files s ! fd)) \<noteq> 1"
      using D(4) by (simp_all add: handles_ok_def)
    then show "file_inode (open_files s ! fd) < inode_count s - 1" using closed [OF fd] by linarith
    then show "node_type (inodes (remove_inode s i) ! file_inode (open_files s ! fd)) \<noteq> 1"
      using ty h(2) closed [OF fd] by simp
  qed (rule D(5))
  moreover have "vfs_ok (remove_inode s i)" using remove_inode_ok [OF D(2) i(1,2) leaf] by simp
  moreover have "vfs_initialized (remove_inode s i)" using D(1) by (simp add: remove_inode_def Let_def)
  ultimately show ?thesis by (simp add: vfs_inv_def)
qed

section \<open>Steps\<close>

text \<open>The invariant with the tree: the parent index of every node is the index of its parent path.\<close>

definition vfs_tree :: "'d vfs \<Rightarrow> bool" where
  "vfs_tree s \<longleftrightarrow> vfs_inv s \<and> links_ok s"

lemma vfs_treeD: "vfs_tree s \<Longrightarrow> vfs_inv s" "vfs_tree s \<Longrightarrow> links_ok s" "vfs_tree s \<Longrightarrow> vfs_ok s" "vfs_tree s \<Longrightarrow> tab_ok s"
  by (simp_all add: vfs_tree_def vfs_inv_def vfs_okD)

lemma clean_path_length: "clean_path p \<Longrightarrow> length p < MAX_PATH" "clean_path p \<Longrightarrow> p \<noteq> []"
  by (simp_all add: clean_path_def)

text \<open>Every public operation that changes the state, with what its callers must respect: new paths are clean and
  nodes are created under directories, positions stay small, and no file is deleted while a handle is open on
  it or on the last inode.\<close>

inductive vfs_step :: "'d storage \<Rightarrow> 'd vfs \<Rightarrow> 'd vfs \<Rightarrow> bool" for st where
  step_init: "vfs_step st s (vfs_init s)"
| step_open: "clean_path path \<Longrightarrow> parent_no_file s path \<Longrightarrow> vfs_open s path flags = (r, s') \<Longrightarrow> vfs_step st s s'"
| step_close: "fd < MAX_OPEN \<Longrightarrow> vfs_close st s (Some fd) = Some s' \<Longrightarrow> vfs_step st s s'"
| step_read: "fd < MAX_OPEN \<Longrightarrow> vfs_read s (Some fd) n = (r, s') \<Longrightarrow> vfs_step st s s'"
| step_write: "fd < MAX_OPEN \<Longrightarrow> file_pos (open_files s ! fd) + length buf < 2 ^ 61 \<Longrightarrow>
    vfs_write s (Some fd) buf = Some (r, s') \<Longrightarrow> vfs_step st s s'"
| step_seek: "fd < MAX_OPEN \<Longrightarrow> vfs_seek s (Some fd) offset whence = (r, s') \<Longrightarrow> vfs_step st s s'"
| step_mkdir: "clean_path path \<Longrightarrow> parent_no_file s path \<Longrightarrow> vfs_mkdir st s path = Some (r, s') \<Longrightarrow> vfs_step st s s'"
| step_create: "clean_path path \<Longrightarrow> parent_no_file s path \<Longrightarrow> vfs_create st s path = Some (r, s') \<Longrightarrow> vfs_step st s s'"
| step_readdir: "vfs_readdir s path n = (r, s') \<Longrightarrow> vfs_step st s s'"
| step_delete: "(\<And>fd i. fd < MAX_OPEN \<Longrightarrow> file_valid (open_files s ! fd) \<Longrightarrow> find_inode s path = Some i \<Longrightarrow>
      file_inode (open_files s ! fd) \<noteq> i \<and> file_inode (open_files s ! fd) \<noteq> inode_count s - 1) \<Longrightarrow>
    vfs_delete st s path = Some (r, s') \<Longrightarrow> vfs_step st s s'"
| step_rename: "clean_path newpath \<Longrightarrow> vfs_rename st s oldpath newpath = Some (r, s') \<Longrightarrow> vfs_step st s s'"
| step_save: "vfs_persist_save st s = Some (r, s') \<Longrightarrow> vfs_step st s s'"

inductive vfs_reach :: "'d storage \<Rightarrow> 'd \<Rightarrow> 'd vfs \<Rightarrow> bool" for st d where
  reach_boot: "vfs_reach st d (vfs_init (vfs_boot d))"
| reach_step: "vfs_reach st d s \<Longrightarrow> vfs_step st s s' \<Longrightarrow> vfs_reach st d s'"

lemma inv_open_files_upd:
  assumes "vfs_inv s" "file_valid f \<Longrightarrow> file_valid (open_files s ! fd) \<and> fd < MAX_OPEN \<and> file_inode f = file_inode (open_files s ! fd)"
  shows "vfs_inv (s\<lparr>open_files := (open_files s)[fd := f]\<rparr>)"
proof -
  note D = vfs_invD [OF assms(1)]
  have sh: "shape_same s (s\<lparr>open_files := (open_files s)[fd := f]\<rparr>)" by (simp add: shape_same_def)
  have "handles_ok (s\<lparr>open_files := (open_files s)[fd := f]\<rparr>)"
    by (rule handles_upd [OF D(4) sh]) (use assms(2) D(4) in \<open>auto simp: handles_ok_def\<close>)
  then show ?thesis using D shape_same_dirs [OF sh] by (simp add: vfs_inv_def)
qed

lemma vfs_open_inv:
  assumes inv: "vfs_inv s" and path: "length path < MAX_PATH" "parent_no_file s path" and op: "vfs_open s path flags = (r, s')"
  shows "vfs_inv s'"
proof (cases r)
  case None
  note D = vfs_invD [OF inv]
  from vfs_open_fails [OF D(1) op [unfolded None] tab_okD(1) [OF vfs_okD(1) [OF D(2)]]]
  have "s' = s" using create_inode_spec [OF D(2) path(1), of 0] by auto
  then show ?thesis using inv by simp
next
  case (Some fd)
  note D = vfs_invD [OF inv]
  from vfs_open_spec [OF D(2,1,5) path(1) op [unfolded Some]] obtain f s1 idx where
    s': "vfs_ok s'" "fd < MAX_OPEN" "open_files s' = (open_files s)[fd := f]"
    and l: "open_lookup s path flags = (Some idx, s1)" "shape_same s1 s'" "node_type (inodes s1 ! idx) \<noteq> 1"
      "file_inode (open_files s' ! fd) = idx" by blast
  have "vfs_inv s1 \<and> idx < inode_count s1 \<and> open_files s1 = open_files s"
  proof (cases "find_inode s path")
    case None
    then have c: "create_inode s path 0 = (Inr idx, s1)"
      using l(1) by (auto simp: open_lookup_def split: if_splits prod.splits sum.splits)
    then show ?thesis using create_inode_inv [OF inv path c] create_inode_spec [OF D(2) path(1), of 0] by auto
  next
    case (Some k)
    then have "s1 = s" "k = idx" using l(1) by (simp_all add: open_lookup_def)
    then show ?thesis using Some inv by (simp add: find_inode_Some)
  qed
  then have s1: "vfs_inv s1" "idx < inode_count s1" "open_files s1 = open_files s" by blast+
  have "file_inode f = idx" using l(4) s'(2,3) D(5) by simp
  then have "handles_ok s'" using handles_upd [OF vfs_invD(4) [OF s1(1)] l(2)] s'(3) s1(2,3) l(3) by simp
  then show ?thesis using s'(1) shape_same_dirs [OF l(2)] vfs_invD(1,3) [OF s1(1)] l(2) by (simp add: vfs_inv_def shape_same_def)
qed

lemma vfs_write_inv:
  assumes inv: "vfs_inv s" and fd: "fd < MAX_OPEN" "file_pos (open_files s ! fd) + length buf < 2 ^ 61"
    and w: "vfs_write s (Some fd) buf = Some (r, s')"
  shows "vfs_inv s'"
proof (cases "file_valid (open_files s ! fd) \<and> buf \<noteq> []")
  case False
  then show ?thesis using w inv by (cases "file_valid (open_files s ! fd)") (auto simp: vfs_write_def Let_def)
next
  case True
  note D = vfs_invD [OF inv]
  obtain path c where o: "opened s fd path (file_pos (open_files s ! fd))" "fs_abs s path = Some (AFile c)"
    using handle_opened [OF inv fd(1)] True by blast
  from vfs_write_spec [OF D(2) o _ fd(2)] True w have s': "vfs_ok s'" "shape_same s s'"
    "\<exists>f. open_files s' = (open_files s)[fd := f] \<and> file_valid f \<and> file_inode f = file_inode (open_files s ! fd)"
    by (auto split: sum.splits intro: exI [of _ "open_files s ! fd"])
  then obtain f where f: "open_files s' = (open_files s)[fd := f]" "file_inode f = file_inode (open_files s ! fd)" by blast
  have "handles_ok s'"
    by (rule handles_upd [OF D(4) s'(2) f(1)]) (use D(4) fd(1) True f(2) in \<open>simp add: handles_ok_def\<close>)
  then show ?thesis using s' D shape_same_dirs [OF s'(2)] by (simp add: vfs_inv_def shape_same_def)
qed

lemma vfs_read_inv:
  assumes "vfs_inv s" "fd < MAX_OPEN" "vfs_read s (Some fd) n = (r, s')"
  shows "vfs_inv s'"
proof (cases "file_valid (open_files s ! fd)")
  case True
  obtain path c where "opened s fd path (file_pos (open_files s ! fd))" "fs_abs s path = Some (AFile c)"
    using handle_opened [OF assms(1,2) True] by blast
  from vfs_read_spec [OF vfs_invD(2) [OF assms(1)] this, of n] assms(3)
  have "s' = s\<lparr>open_files := (open_files s)[fd := (open_files s ! fd)\<lparr>file_pos :=
    file_pos (open_files s ! fd) + length (take n (drop (file_pos (open_files s ! fd)) c))\<rparr>]\<rparr>" by simp
  then show ?thesis using inv_open_files_upd [OF assms(1)] True assms(2) by simp
qed (use assms in \<open>simp add: vfs_read_def\<close>)

lemma vfs_seek_inv:
  assumes "vfs_inv s" "fd < MAX_OPEN" "vfs_seek s (Some fd) offset whence = (r, s')"
  shows "vfs_inv s'"
proof -
  have "s' = s \<or> file_valid (open_files s ! fd) \<and>
    (\<exists>q. s' = s\<lparr>open_files := (open_files s)[fd := (open_files s ! fd)\<lparr>file_pos := q\<rparr>]\<rparr>)"
    using assms(3) by (auto simp: vfs_seek_def Let_def split: if_splits)
  then show ?thesis using assms inv_open_files_upd [OF assms(1)] by auto
qed

definition rename_allowed :: "'d vfs \<Rightarrow> string \<Rightarrow> string \<Rightarrow> nat \<Rightarrow> nat \<Rightarrow> bool" where
  "rename_allowed s oldpath newpath idx parent \<longleftrightarrow>
    find_inode s oldpath = Some idx \<and> 0 < idx \<and> find_inode s newpath = None \<and>
    find_inode s (get_parent_path newpath) = Some parent \<and> node_type (inodes s ! parent) = 1 \<and>
    (node_type (inodes s ! idx) = 1 \<longrightarrow> \<not> path_is_inside newpath oldpath \<and> rename_fits s idx oldpath newpath)"

lemma vfs_rename_refused:
  assumes "\<And>idx parent. \<not> rename_allowed s oldpath newpath idx parent"
  shows "\<exists>e. vfs_rename st s oldpath newpath = Some (Inl e, s)"
proof (cases "find_inode s oldpath")
  case (Some idx)
  show ?thesis
  proof (cases "idx = 0 \<or> find_inode s newpath \<noteq> None \<or> find_inode s (get_parent_path newpath) = None")
    case True
    then show ?thesis using Some by (auto simp: vfs_rename_def)
  next
    case c: False
    then obtain parent where p: "find_inode s (get_parent_path newpath) = Some parent" by blast
    show ?thesis
    proof (cases "node_type (inodes s ! parent) = 1")
      case True
      with assms [of idx parent] Some c p have "node_type (inodes s ! idx) = 1"
        "path_is_inside newpath oldpath \<or> \<not> rename_fits s idx oldpath newpath"
        by (auto simp: rename_allowed_def)
      then show ?thesis using Some c p True by (cases "path_is_inside newpath oldpath") (simp_all add: vfs_rename_def Let_def)
    qed (use Some c p in \<open>simp add: vfs_rename_def Let_def\<close>)
  qed
qed (simp add: vfs_rename_def)

text \<open>In a tree nothing lies below a path that does not exist, so a renamed directory meets no other node.\<close>

lemma tree_fresh:
  assumes "vfs_tree s" "clean_path newpath" "newpath \<notin> dom (fs_abs s)"
  shows "\<forall>p\<in>dom (fs_abs s). \<not> path_is_inside p newpath"
  using ancestor_exists [OF vfs_treeD(4,2) [OF assms(1)] clean_path_length(2) [OF assms(2)] assms(2)] assms(1,3)
  by (auto simp: inside_iff)

lemma tree_nonempty:
  assumes "vfs_tree s" "find_inode s p \<noteq> None"
  shows "p \<noteq> []"
proof -
  from assms(2) obtain i where "i < inode_count s" "node_path (inodes s ! i) = p" by (auto simp: find_inode_Some)
  then show ?thesis using links_okD(1) [OF vfs_treeD(2) [OF assms(1)]] clean_path_length(2) by blast
qed

lemma vfs_rename_inv:
  assumes inv: "vfs_inv s" and len: "length newpath < MAX_PATH" "oldpath \<noteq> []"
    and fresh: "fs_abs s oldpath = Some ADir \<Longrightarrow> newpath \<notin> dom (fs_abs s) \<Longrightarrow> \<forall>p\<in>dom (fs_abs s). \<not> path_is_inside p newpath"
    and rn: "vfs_rename st s oldpath newpath = Some (r, s')"
  shows "vfs_inv s'"
proof (cases "\<exists>idx parent. rename_allowed s oldpath newpath idx parent")
  case True
  then obtain idx parent where f: "find_inode s oldpath = Some idx" "0 < idx" "find_inode s newpath = None"
      "find_inode s (get_parent_path newpath) = Some parent" "node_type (inodes s ! parent) = 1"
    and dir: "node_type (inodes s ! idx) = 1 \<Longrightarrow> \<not> path_is_inside newpath oldpath \<and> rename_fits s idx oldpath newpath"
    unfolding rename_allowed_def by blast
  note D = vfs_invD [OF inv]
  from vfs_rename_success [OF D(2) f dir len(1), of st] obtain s1 where
    s1: "fs_same s1 s'" "inode_count s1 = inode_count s" "open_files s1 = open_files s" "vfs_initialized s1 = vfs_initialized s"
    "\<And>i. i < inode_count s \<Longrightarrow> \<exists>nm. inodes s1 ! i = (inodes s ! i)\<lparr>node_name := nm,
         node_path := rename_paths s idx oldpath newpath i, node_parent := rename_parents s idx parent i\<rparr>"
    using rn by auto
  have ty: "node_type (inodes s1 ! i) = node_type (inodes s ! i)" "node_parent (inodes s1 ! i) = rename_parents s idx parent i"
    if "i < inode_count s" for i using s1(5) [OF that] by auto
  have lt: "p < inode_count s" if "node_parent (inodes s ! j) = Some p" "j < inode_count s" for j p
    using tab_okD(6) [OF vfs_okD(1) [OF D(2)]] tab_okD(7) [OF vfs_okD(1) [OF D(2)] that(2)] that(1) by (cases "j = 0") auto
  have "dirs_ok s1" using D(3) f(4,5) lt
    by (auto simp: dirs_ok_def s1(2) ty rename_parents_def find_inode_Some split: if_splits)
  moreover have "handles_ok s1" using D(4) by (auto simp: handles_ok_def s1(2,3) ty)
  moreover have "vfs_ok s1" using vfs_rename_spec [OF D(2) len fresh, of st] rn fs_same_abs(1) [OF s1(1)] by auto
  ultimately have "vfs_inv s1" using D(1) s1(4) by (simp add: vfs_inv_def)
  then show ?thesis using fs_same_inv [OF s1(1)] by simp
next
  case False
  then have "s' = s" using vfs_rename_refused [of s oldpath newpath st] rn by auto
  then show ?thesis using inv by simp
qed

lemma vfs_init_id: "vfs_initialized s \<Longrightarrow> vfs_init s = s"
  by (simp add: vfs_init_def)

lemma vfs_step_inv: "vfs_step st s s' \<Longrightarrow> vfs_tree s \<Longrightarrow> vfs_inv s'"
proof (induction rule: vfs_step.induct)
  case (step_init s)
  then show ?case using vfs_treeD(1) vfs_invD(1) by (fastforce simp: vfs_init_id)
next
  case (step_open path s flags r s')
  then show ?case by (blast intro: vfs_open_inv vfs_treeD(1) clean_path_length(1))
next
  case (step_close fd s s')
  note inv = vfs_treeD(1) [OF step_close(3)]
  show ?case
  proof (cases "file_valid (open_files s ! fd)")
    case True
    with vfs_close_spec [OF True, of st] step_close(2)
    have "fs_same (s\<lparr>open_files := (open_files s)[fd := (open_files s ! fd)\<lparr>file_valid := False\<rparr>]\<rparr>) s'" by simp
    then show ?thesis using fs_same_inv inv_open_files_upd [OF inv] by fastforce
  qed (use step_close(2) inv in \<open>simp add: vfs_close_def\<close>)
next
  case (step_read fd s n r s')
  then show ?case by (blast intro: vfs_read_inv vfs_treeD(1))
next
  case (step_write fd s buf r s')
  then show ?case by (blast intro: vfs_write_inv vfs_treeD(1))
next
  case (step_seek fd s offset whence r s')
  then show ?case by (blast intro: vfs_seek_inv vfs_treeD(1))
next
  case (step_mkdir path s r s')
  note inv = vfs_treeD(1) [OF step_mkdir(4)] and len = clean_path_length(1) [OF step_mkdir(1)]
  from vfs_create_mkdir_spec [OF vfs_invD(2,1) [OF inv] len, of 1 _ st]
  show ?case using step_mkdir(3) inv create_inode_inv [OF inv len step_mkdir(2)] fs_same_inv by (fastforce split: sum.splits)
next
  case (step_create path s r s')
  note inv = vfs_treeD(1) [OF step_create(4)] and len = clean_path_length(1) [OF step_create(1)]
  from vfs_create_mkdir_spec [OF vfs_invD(2,1) [OF inv] len, of 0 _ st]
  show ?case using step_create(3) inv create_inode_inv [OF inv len step_create(2)] fs_same_inv by (fastforce split: sum.splits)
next
  case (step_readdir s path n r s')
  then show ?case using vfs_treeD(1) [of s]
    by (auto simp: vfs_readdir_def Let_def vfs_invD(1) vfs_init_id split: option.splits if_splits)
next
  case (step_delete s path r s')
  note inv = vfs_treeD(1) [OF step_delete(3)]
  from vfs_delete_spec [OF vfs_invD(2,3) [OF inv], of st path] step_delete(2)
  have "s' = s \<or> (\<exists>i. find_inode s path = Some i \<and> 0 < i \<and> find_child_inode s i = None \<and> fs_same (remove_inode s i) s')"
    by (auto split: sum.splits)
  then show ?case
  proof (elim disjE exE conjE)
    fix i assume i: "find_inode s path = Some i" "0 < i" "find_child_inode s i = None" and same: "fs_same (remove_inode s i) s'"
    have "i < inode_count s" using i(1) by (simp add: find_inode_Some)
    from remove_inode_inv [OF inv i(2) this i(3)] step_delete(1) [OF _ _ i(1)]
    show ?thesis unfolding fs_same_inv [OF same] by blast
  qed (use inv in simp)
next
  case (step_rename newpath s oldpath r s')
  note inv = vfs_treeD(1) [OF step_rename(3)] and len = clean_path_length(1) [OF step_rename(1)]
  show ?case
  proof (cases "find_inode s oldpath")
    case None
    then show ?thesis using step_rename(2) inv by (simp add: vfs_rename_def)
  next
    case (Some i)
    then show ?thesis
      using vfs_rename_inv [OF inv len tree_nonempty [OF step_rename(3)] tree_fresh [OF step_rename(3,1)] step_rename(2)] by simp
  qed
next
  case (step_save s r s')
  then show ?case using vfs_persist_save_frame [of st s] fs_same_inv vfs_treeD(1) by fastforce
qed

text \<open>And each of them keeps the parent indices in agreement with the paths.\<close>

lemma open_links:
  assumes tree: "vfs_tree s" and p: "clean_path path" and op: "vfs_open s path flags = (r, s')"
  shows "links_ok s'"
proof -
  note D = vfs_invD [OF vfs_treeD(1) [OF tree]] and len = clean_path_length(1) [OF p]
  show ?thesis
  proof (cases r)
    case None
    from vfs_open_fails [OF D(1) op [unfolded None] tab_okD(1) [OF vfs_okD(1) [OF D(2)]]]
    have "s' = s" using create_inode_spec [OF D(2) len, of 0] by auto
    then show ?thesis using vfs_treeD(2) [OF tree] by simp
  next
    case (Some fd)
    from vfs_open_spec [OF D(2,1,5) len op [unfolded Some]] obtain s1 idx where
      l: "open_lookup s path flags = (Some idx, s1)" "shape_same s1 s'" by blast
    have "s1 = s \<or> (\<exists>i. create_inode s path 0 = (Inr i, s1))"
      using l(1) by (auto simp: open_lookup_def split: if_splits prod.splits sum.splits option.splits)
    then have "links_ok s1" using vfs_treeD(2) [OF tree] create_links [OF vfs_treeD(4,2) [OF tree] p] by blast
    then show ?thesis using links_shape_same [OF l(2)] by simp
  qed
qed

lemma create_step_links:
  assumes tree: "vfs_tree s" and p: "clean_path path"
    and r: "ty = (0::int) \<and> vfs_create st s path = Some (e, s') \<or> ty = 1 \<and> vfs_mkdir st s path = Some (e, s')"
  shows "links_ok s'"
proof -
  note D = vfs_invD [OF vfs_treeD(1) [OF tree]]
  from vfs_create_mkdir_spec [OF D(2,1) clean_path_length(1) [OF p], of ty _ st] r
  have "s' = s \<or> (\<exists>i s1. create_inode s path ty = (Inr i, s1) \<and> fs_same s1 s')" by (fastforce split: sum.splits)
  then show ?thesis using vfs_treeD(2) [OF tree] create_links [OF vfs_treeD(4,2) [OF tree] p] links_fs_same by blast
qed

lemma delete_links:
  assumes tree: "vfs_tree s" and r: "vfs_delete st s path = Some (r, s')"
  shows "links_ok s'"
proof -
  note D = vfs_invD [OF vfs_treeD(1) [OF tree]]
  from vfs_delete_spec [OF D(2,3), of st path] r
  have "s' = s \<or> (\<exists>i. find_inode s path = Some i \<and> 0 < i \<and> find_child_inode s i = None \<and> fs_same (remove_inode s i) s')"
    by (auto split: sum.splits)
  then show ?thesis
  proof (elim disjE exE conjE)
    fix i assume i: "find_inode s path = Some i" "0 < i" "find_child_inode s i = None" and same: "fs_same (remove_inode s i) s'"
    then have "links_ok (remove_inode s i)"
      by (intro remove_links [OF vfs_treeD(4,2) [OF tree]]) (auto simp: find_inode_Some find_child_None)
    then show ?thesis using links_fs_same [OF same] by simp
  qed (use vfs_treeD(2) [OF tree] in simp)
qed

lemma rename_step_links:
  assumes tree: "vfs_tree s" and new: "clean_path newpath" and r: "vfs_rename st s oldpath newpath = Some (r, s')"
  shows "links_ok s'"
proof (cases "\<exists>idx parent. rename_allowed s oldpath newpath idx parent")
  case True
  then obtain idx parent where f: "find_inode s oldpath = Some idx" "0 < idx" "find_inode s newpath = None"
      "find_inode s (get_parent_path newpath) = Some parent" "node_type (inodes s ! parent) = 1"
    and dir: "node_type (inodes s ! idx) = 1 \<Longrightarrow> \<not> path_is_inside newpath oldpath \<and> rename_fits s idx oldpath newpath"
    unfolding rename_allowed_def by blast
  note D = vfs_invD [OF vfs_treeD(1) [OF tree]]
  from vfs_rename_success [OF D(2) f dir clean_path_length(1) [OF new], of st] obtain s1 where
    s1: "fs_same s1 s'" "inode_count s1 = inode_count s"
    "\<And>i. i < inode_count s \<Longrightarrow> \<exists>nm. inodes s1 ! i = (inodes s ! i)\<lparr>node_name := nm,
         node_path := rename_paths s idx oldpath newpath i, node_parent := rename_parents s idx parent i\<rparr>"
    using r by auto
  have "links_ok s1"
  proof (rule rename_links [OF D(2,3) vfs_treeD(2) [OF tree] new f dir s1(2)])
    fix i assume "i < inode_count s"
    from s1(3) [OF this] show "node_path (inodes s1 ! i) = rename_paths s idx oldpath newpath i \<and>
        node_parent (inodes s1 ! i) = rename_parents s idx parent i" by auto
  qed
  then show ?thesis using links_fs_same [OF s1(1)] by simp
next
  case False
  then have "s' = s" using vfs_rename_refused [of s oldpath newpath st] r by auto
  then show ?thesis using vfs_treeD(2) [OF tree] by simp
qed

lemma vfs_write_links:
  assumes inv: "vfs_inv s" and fd: "fd < MAX_OPEN" "file_pos (open_files s ! fd) + length buf < 2 ^ 61"
    and w: "vfs_write s (Some fd) buf = Some (r, s')"
  shows "links_ok s' = links_ok s"
proof (cases "file_valid (open_files s ! fd) \<and> buf \<noteq> []")
  case False
  then show ?thesis using w by (cases "file_valid (open_files s ! fd)") (auto simp: vfs_write_def Let_def)
next
  case True
  obtain path c where o: "opened s fd path (file_pos (open_files s ! fd))" "fs_abs s path = Some (AFile c)"
    using handle_opened [OF inv fd(1)] True by blast
  from vfs_write_spec [OF vfs_invD(2) [OF inv] o _ fd(2)] True w have "shape_same s s'" by auto
  then show ?thesis by (rule links_shape_same)
qed

lemma handle_links:
  assumes "file_valid (open_files s ! fd)"
  shows "vfs_close st s (Some fd) = Some s' \<Longrightarrow> links_ok s' = links_ok s"
proof -
  assume "vfs_close st s (Some fd) = Some s'"
  with vfs_close_spec [OF assms, of st]
  have "fs_same (s\<lparr>open_files := (open_files s)[fd := (open_files s ! fd)\<lparr>file_valid := False\<rparr>]\<rparr>) s'" by simp
  from links_fs_same [OF this] show ?thesis by simp
qed

lemma vfs_step_links: "vfs_step st s s' \<Longrightarrow> vfs_tree s \<Longrightarrow> links_ok s'"
proof (induction rule: vfs_step.induct)
  case (step_init s)
  then show ?case using vfs_treeD(1,2) vfs_invD(1) by (fastforce simp: vfs_init_id)
next
  case (step_open path s flags r s')
  then show ?case by (blast intro: open_links)
next
  case (step_close fd s s')
  then show ?case using handle_links [of s fd st s'] vfs_treeD(2)
    by (cases "file_valid (open_files s ! fd)") (auto simp: vfs_close_def)
next
  case (step_read fd s n r s')
  then show ?case using vfs_treeD(2) [of s] by (auto simp: vfs_read_def Let_def split: if_splits)
next
  case (step_write fd s buf r s')
  then show ?case using vfs_write_links [of s fd buf r s'] vfs_treeD(1,2) by blast
next
  case (step_seek fd s offset whence r s')
  then show ?case using vfs_treeD(2) [of s] by (auto simp: vfs_seek_def Let_def split: if_splits)
next
  case (step_mkdir path s r s')
  then show ?case by (blast intro: create_step_links [where ty = 1])
next
  case (step_create path s r s')
  then show ?case by (blast intro: create_step_links [where ty = 0])
next
  case (step_readdir s path n r s')
  then show ?case using vfs_treeD(1,2) [of s]
    by (auto simp: vfs_readdir_def Let_def vfs_invD(1) vfs_init_id split: option.splits if_splits)
next
  case (step_delete s path r s')
  then show ?case by (blast intro: delete_links)
next
  case (step_rename newpath s oldpath r s')
  then show ?case by (blast intro: rename_step_links)
next
  case (step_save s r s')
  then show ?case using vfs_persist_save_frame [of st s] links_fs_same vfs_treeD(2) by fastforce
qed

lemma vfs_boot_inv: "vfs_inv (vfs_init (vfs_boot d))"
proof -
  have "heap_ok (kmalloc_init kheap_boot)"
    using kmalloc_init_abs [of kheap_boot] by (auto simp: heap_ok_def kheap_boot_def)
  then have i: "\<not> vfs_initialized (vfs_boot d)" "heap_ok (kmalloc_init (heap (vfs_boot d)))" by (simp_all add: vfs_boot_def)
  note I = vfs_init_spec [OF i]
  have "dirs_ok (vfs_init (vfs_boot d))"
    using tab_okD(6) [OF vfs_okD(1) [OF I(1)]] by (simp add: dirs_ok_def I(5))
  moreover have "handles_ok (vfs_init (vfs_boot d))" by (simp add: handles_ok_def I(4) null_file_def)
  ultimately show ?thesis using I by (simp add: vfs_inv_def)
qed

lemma vfs_boot_tree: "vfs_tree (vfs_init (vfs_boot d))"
proof -
  have "inode_count (vfs_init (vfs_boot d)) = 1"
    using vfs_init_spec(5) [of "vfs_boot d"] kmalloc_init_abs [of kheap_boot]
    by (auto simp: vfs_boot_def heap_ok_def kheap_boot_def)
  then have "links_ok (vfs_init (vfs_boot d))"
    using tab_okD(4) [OF vfs_okD(1) [OF vfs_invD(2) [OF vfs_boot_inv [of d]]]]
    by (simp add: links_ok_def clean_path_def MAX_PATH_def)
  then show ?thesis using vfs_boot_inv by (simp add: vfs_tree_def)
qed

lemma vfs_reach_tree: "vfs_reach st d s \<Longrightarrow> vfs_tree s"
proof (induction rule: vfs_reach.induct)
  case (reach_step s s')
  then show ?case unfolding vfs_tree_def
    using vfs_step_inv [OF reach_step(2,3)] vfs_step_links [OF reach_step(2,3)] by blast
qed (rule vfs_boot_tree)

lemma vfs_reach_inv: "vfs_reach st d s \<Longrightarrow> vfs_inv s"
  by (rule vfs_treeD(1) [OF vfs_reach_tree])

text \<open>The state after creating \<^verbatim>\<open>/f\<close>, \<^verbatim>\<open>/g\<close> and the directory \<^verbatim>\<open>/d\<close>, and moving \<^verbatim>\<open>/f\<close> to \<^verbatim>\<open>/d/f\<close>.\<close>

definition plain_node :: "string \<Rightarrow> string \<Rightarrow> int \<Rightarrow> nat option \<Rightarrow> inode" where
  "plain_node nm path ty par = \<lparr>node_name = nm, node_path = path, node_type = ty, node_data = None, node_size = 0,
     node_capacity = 0, node_parent = par\<rparr>"

definition moved_vfs :: "'d \<Rightarrow> 'd vfs" where
  "moved_vfs d = (vfs_boot d)\<lparr>inodes := [plain_node [] ''/'' 1 None, plain_node ''f'' ''/d/f'' 0 (Some 3),
       plain_node ''g'' ''/g'' 0 (Some 0), plain_node ''d'' ''/d'' 1 (Some 0)] @ replicate 252 null_inode,
     inode_count := 4, heap := kmalloc_init kheap_boot, vfs_initialized := True\<rparr>"

lemma moved_vfs_ok: "vfs_ok (moved_vfs d)"
proof -
  have h: "heap_ok (kmalloc_init kheap_boot)"
    using kmalloc_init_abs [of kheap_boot] by (auto simp: heap_ok_def kheap_boot_def)
  have all4: "(\<forall>i<4::nat. P i) \<longleftrightarrow> P 0 \<and> P 1 \<and> P 2 \<and> P 3" for P
    by (auto simp: numeral_eq_Suc less_Suc_eq)
  show ?thesis
    by (simp add: moved_vfs_def vfs_ok_def tab_ok_def data_ok_def node_ok_def plain_node_def all4 h MAX_FILES_def MAX_PATH_def)
qed

lemma spliced_gap:
  assumes "spliced c pos buf c'"
  obtains gap where "length gap = pos - length c" "c' = take pos c @ gap @ buf @ drop (pos + length buf) c"
proof -
  from assms obtain gap where "length gap = pos - length c" "c' = take pos (c @ gap) @ buf @ drop (pos + length buf) c"
    unfolding spliced_def by blast
  then show thesis using that [of gap] by simp
qed

section \<open>Properties\<close>

lemma boot_fs:
  "fs_abs (vfs_init (vfs_boot d)) = [''/'' \<mapsto> ADir]" "inode_count (vfs_init (vfs_boot d)) = 1"
  "open_files (vfs_init (vfs_boot d)) = replicate MAX_OPEN null_file"
  using vfs_init_spec(2,4,5) [of "vfs_boot d"] kmalloc_init_abs [of kheap_boot]
  by (auto simp: vfs_boot_def heap_ok_def kheap_boot_def)

lemma vfs_create_inv:
  assumes inv: "vfs_inv s" and path: "length path < MAX_PATH" and r: "ty = (0::int) \<and> r = vfs_create st s path \<or> ty = 1 \<and> r = vfs_mkdir st s path"
    and ok: "inode_count s < MAX_FILES" "path \<notin> dom (fs_abs s)" "get_parent_path path \<in> dom (fs_abs s)"
  obtains i s' where "r = Some (Inr i, s')" "vfs_ok s'" "fs_abs s' = (fs_abs s)(path \<mapsto> (if ty = 1 then ADir else AFile []))"
proof -
  obtain e s' where r': "r = Some (e, s')" "vfs_ok s'" and c: "case e of
       Inr i \<Rightarrow> path \<notin> dom (fs_abs s) \<and> get_parent_path path \<in> dom (fs_abs s) \<and>
         (\<exists>s1. create_inode s path ty = (Inr i, s1) \<and> fs_same s1 s') \<and>
         fs_abs s' = (fs_abs s)(path \<mapsto> (if ty = 1 then ADir else AFile []))
     | Inl e \<Rightarrow> s' = s \<and> (e = ENOSPC \<and> inode_count s = MAX_FILES \<or> e = EEXIST \<and> path \<in> dom (fs_abs s) \<or>
         e = ENOENT \<and> get_parent_path path \<notin> dom (fs_abs s))"
    using vfs_create_mkdir_spec [OF vfs_invD(2,1) [OF inv] path r] by blast
  show thesis
  proof (cases e)
    case (Inl x)
    then show thesis using c ok by simp
  next
    case (Inr i)
    then show thesis using that c r' by simp
  qed
qed

text \<open>C1: Take any state reached from boot by \<^verbatim>\<open>vfs_init\<close>, \<^verbatim>\<open>open\<close>, \<^verbatim>\<open>close\<close>, \<^verbatim>\<open>read\<close>, \<^verbatim>\<open>write\<close>, \<^verbatim>\<open>seek\<close>,
  \<^verbatim>\<open>mkdir\<close>, \<^verbatim>\<open>create\<close>, \<^verbatim>\<open>readdir\<close>, \<^verbatim>\<open>delete\<close>, \<^verbatim>\<open>rename\<close> and \<^verbatim>\<open>vfs_persist_save\<close>, in any order and with any answers
  of the storage driver, where callers respect the side conditions of the step relation (clean paths, nodes
  created under directories, positions below 2 to the 61, no deletion of a file while a handle is open on it
  or on the last inode). In that state the inode table is a tree: paths are unique, the parent index of
  every node is the index of the node at its parent path and that node is a directory, the parent relation
  has no cycle, and following it from any node ends at the root. The data of every file is a live
  allocation of its own, and every open handle names an existing file. Loading and restoring a
  snapshot are not steps of this relation: the recursive deletion they start with can drop an unrelated
  node, as \<open>recursive_delete_loses_file\<close> shows.\<close>

theorem vfs_reachable_invariant:
  assumes "vfs_reach st d s"
  shows "vfs_inv s \<and> links_ok s \<and> acyclic (parent_rel s) \<and> (\<forall>i<inode_count s. (i, 0) \<in> (parent_rel s)\<^sup>*)"
proof -
  note tree = vfs_reach_tree [OF assms]
  note T = vfs_treeD [OF tree]
  show ?thesis using T(1,2) parents_acyclic [OF T(4,2)] parents_reach_root [OF T(4,2)] by blast
qed

theorem vfs_reachable_invariant_witness:
  "\<exists>s. vfs_reach ram_dev ram_disk s \<and> vfs_exists s ''/tmp'' \<and> vfs_inv s \<and> acyclic (parent_rel s)"
proof -
  let ?b = "vfs_init (vfs_boot ram_disk)"
  have gp: "get_parent_path ''/tmp'' = ''/''"
    by (simp add: get_parent_path_def str_cpy_def MAX_PATH_def last_slash_def)
  obtain i s where m: "vfs_mkdir ram_dev ?b ''/tmp'' = Some (Inr i, s)" "fs_abs s = (fs_abs ?b)(''/tmp'' \<mapsto> ADir)"
  proof (rule vfs_create_inv [OF vfs_boot_inv])
    show "1 = (0::int) \<and> vfs_mkdir ram_dev ?b ''/tmp'' = vfs_create ram_dev ?b ''/tmp'' \<or>
      1 = (1::int) \<and> vfs_mkdir ram_dev ?b ''/tmp'' = vfs_mkdir ram_dev ?b ''/tmp''" by simp
  qed (simp_all add: boot_fs gp MAX_PATH_def MAX_FILES_def)
  have "fs_abs s ''/tmp'' = Some ADir" using m(2) by simp
  then have "vfs_exists s ''/tmp''" by (auto simp: vfs_exists_def fs_abs_def)
  moreover have "vfs_reach ram_dev ram_disk s"
    by (rule reach_step [OF reach_boot step_mkdir [OF _ _ m(1)]]) (simp_all add: clean_path_def MAX_PATH_def parent_no_file_def gp boot_fs)
  ultimately show ?thesis using vfs_reachable_invariant [of ram_dev ram_disk s] by blast
qed

text \<open>Every operation returns in every reachable state: no list walk of the allocator, no text formatting and no
  loop over the table or the disk runs forever or reads past its data, whatever the storage driver answers.\<close>

theorem vfs_operations_return:
  assumes "vfs_reach st d s" "fd < MAX_OPEN" "length path < MAX_PATH" "length newpath < MAX_PATH" "path \<noteq> []"
    and "file_pos (open_files s ! fd) + length buf < 2 ^ 61"
    and "fs_abs s path = Some ADir \<Longrightarrow> newpath \<notin> dom (fs_abs s) \<Longrightarrow> \<forall>p\<in>dom (fs_abs s). \<not> path_is_inside p newpath"
  shows "(\<exists>r s'. vfs_write s (Some fd) buf = Some (r, s')) \<and> (\<exists>s'. vfs_close st s (Some fd) = Some s') \<and>
    (\<exists>r s'. vfs_mkdir st s path = Some (r, s')) \<and> (\<exists>r s'. vfs_create st s path = Some (r, s')) \<and>
    (\<exists>r s'. vfs_delete st s path = Some (r, s')) \<and> (\<exists>r s'. vfs_rename st s path newpath = Some (r, s')) \<and>
    (\<exists>r s'. vfs_persist_save st s = Some (r, s'))"
proof -
  note inv = vfs_reach_inv [OF assms(1)]
  note D = vfs_invD [OF inv]
  have "\<exists>r s'. vfs_write s (Some fd) buf = Some (r, s')"
  proof (cases "file_valid (open_files s ! fd) \<and> buf \<noteq> []")
    case True
    then obtain p c where "opened s fd p (file_pos (open_files s ! fd))" "fs_abs s p = Some (AFile c)"
      using handle_opened [OF inv assms(2)] by blast
    from vfs_write_spec [OF D(2) this _ assms(6)] True show ?thesis by blast
  qed (auto simp: vfs_write_def Let_def)
  moreover have "\<exists>s'. vfs_close st s (Some fd) = Some s'"
    using vfs_close_spec [of s fd st] by (cases "file_valid (open_files s ! fd)") (auto simp: vfs_close_def)
  moreover have "\<exists>r s'. vfs_mkdir st s path = Some (r, s')"
    using vfs_create_mkdir_spec [OF D(2,1) assms(3), of 1 "vfs_mkdir st s path" st] by auto
  moreover have "\<exists>r s'. vfs_create st s path = Some (r, s')"
    using vfs_create_mkdir_spec [OF D(2,1) assms(3), of 0 "vfs_create st s path" st] by auto
  moreover have "\<exists>r s'. vfs_delete st s path = Some (r, s')" using vfs_delete_spec [OF D(2,3), of st path] by blast
  moreover have "\<exists>r s'. vfs_rename st s path newpath = Some (r, s')"
    using vfs_rename_spec [OF D(2) assms(4,5,7), of st] by blast
  moreover have "\<exists>r s'. vfs_persist_save st s = Some (r, s')" using vfs_persist_save_frame [of st s] by blast
  ultimately show ?thesis by blast
qed

theorem vfs_operations_return_witness:
  "\<exists>r s'. vfs_rename ram_dev (vfs_init (vfs_boot ram_disk)) ''/a'' ''/b'' = Some (r, s')"
proof -
  show ?thesis
    using vfs_operations_return [OF reach_boot [of ram_dev ram_disk], of 0 "''/a''" "''/b''" "[]"]
    by (simp add: boot_fs MAX_OPEN_def MAX_PATH_def null_file_def)
qed

lemma vfs_write_succeeds:
  assumes op: "opened s fd path pos" and c: "fs_abs s path = Some (AFile c)"
    and len: "pos + length buf < 2 ^ 61" and km: "kmalloc (heap s) (align4096 (pos + length buf)) = Some (Some p, h)"
  shows "\<exists>s'. vfs_write s (Some fd) buf = Some (Inr (length buf), s')"
proof -
  note D = openedD [OF op c]
  have "file_valid (open_files s ! fd)" "file_pos (open_files s ! fd) = pos" "add64 pos (length buf) = pos + length buf"
    using op len by (simp_all add: opened_def add64_def)
  then show ?thesis using D(3) km by (auto simp: vfs_write_def Let_def grow_inode_def)
qed

text \<open>A file created at boot, for the examples.\<close>

lemma demo_parent: "get_parent_path ''/a'' = ''/''"
  by (simp add: get_parent_path_def str_cpy_def MAX_PATH_def last_slash_def)

lemma demo_open:
  obtains s where "vfs_open (vfs_init (vfs_boot d)) ''/a'' (O_CREAT OR O_RDWR) = (Some 0, s)" "vfs_inv s"
    "opened s 0 ''/a'' 0" "fs_abs s = [''/'' \<mapsto> ADir, ''/a'' \<mapsto> AFile []]" "heap s = kmalloc_init kheap_boot"
    "inode_count s = 2"
proof -
  let ?b = "vfs_init (vfs_boot d)"
  have m: "length ''/a'' < MAX_PATH" "parent_no_file ?b ''/a''" by (simp_all add: MAX_PATH_def parent_no_file_def demo_parent boot_fs)
  have fl: "(O_CREAT OR O_RDWR) AND O_CREAT \<noteq> 0" "(O_CREAT OR O_RDWR) AND O_TRUNC = 0" "(O_CREAT OR O_RDWR) AND O_APPEND = 0"
    by (simp_all add: O_CREAT_def O_RDWR_def O_TRUNC_def O_APPEND_def)
  have fh: "free_handle ?b = Some 0" by (simp add: free_handle_def boot_fs MAX_OPEN_def null_file_def upt_rec)
  obtain e s1 where c: "create_inode ?b ''/a'' 0 = (e, s1)" by (cases "create_inode ?b ''/a'' 0")
  have e: "e = Inr 1" "node_type (inodes s1 ! 1) = 0"
    using create_inode_spec [OF vfs_invD(2) [OF vfs_boot_inv] m(1), of d 0] c
    by (auto simp: boot_fs demo_parent MAX_FILES_def split: sum.splits)
  have nf: "find_inode ?b ''/a'' = None" using fun_cong [OF boot_fs(1) [of d], of "''/a''"] by (simp add: fs_abs_def)
  have h: "heap s1 = kmalloc_init kheap_boot" "inode_count s1 = 2"
  proof -
    have "heap ?b = kmalloc_init kheap_boot"
      by (simp add: vfs_init_def vfs_boot_def create_inode_def Let_def find_inode_def MAX_FILES_def)
    then show "heap s1 = kmalloc_init kheap_boot" using c e(1)
      by (cases rule: create_inode_cases [of ?b "''/a''" 0]) auto
    show "inode_count s1 = 2" using create_inode_spec [OF vfs_invD(2) [OF vfs_boot_inv] m(1), of d 0] c e(1) by simp
  qed
  define s where "s = s1\<lparr>open_files := (open_files s1)[0 := \<lparr>file_valid = True, file_inode = 1,
    file_flags = O_CREAT OR O_RDWR, file_pos = 0\<rparr>]\<rparr>"
  have op: "vfs_open ?b ''/a'' (O_CREAT OR O_RDWR) = (Some 0, s)"
    using fh c e fl nf vfs_invD(1) [OF vfs_boot_inv [of d]]
    by (simp add: vfs_open_def vfs_init_id Let_def open_lookup_def s_def)
  note sp = vfs_open_spec [OF vfs_invD(2,1,5) [OF vfs_boot_inv] m(1) op]
  show thesis
  proof (rule that [OF op])
    show "vfs_inv s" by (rule vfs_open_inv [OF vfs_boot_inv m op])
    show "opened s 0 ''/a'' 0" using sp fl(3) by auto
    show "fs_abs s = [''/'' \<mapsto> ADir, ''/a'' \<mapsto> AFile []]" using sp by (auto simp: opens_as_def boot_fs)
    show "heap s = kmalloc_init kheap_boot" "inode_count s = 2" using h by (simp_all add: s_def)
  qed
qed

lemma demo_alloc: "\<exists>h. kmalloc (kmalloc_init kheap_boot) 4096 = Some (Some 32, h)"
proof -
  have "heap_abs (kmalloc_init kheap_boot) [(HEAP_SIZE, True)]" by (rule kmalloc_init_abs) (simp add: kheap_boot_def)
  from kmalloc_refines_a_alloc [OF this, of 4096] show ?thesis
    by (auto simp: align16_def add64_def SIZEOF_BLOCK_def MIN_BLOCK_SIZE_def HEAP_SIZE_def)
qed

lemma demo_write:
  assumes "opened s 0 ''/a'' 0" "fs_abs s = [''/'' \<mapsto> ADir, ''/a'' \<mapsto> AFile []]" "heap s = kmalloc_init kheap_boot"
    "0 < length buf" "length buf \<le> 4096"
  shows "\<exists>s'. vfs_write s (Some 0) buf = Some (Inr (length buf), s')"
proof -
  have "(length buf + 4095) div 4096 = 1" using assms(4,5) by (intro div_nat_eqI) (simp_all del: length_greater_0_conv)
  then have "align4096 (0 + length buf) = 4096" using assms(5) by (simp add: align4096_def add64_def)
  with demo_alloc assms(3) obtain h where "kmalloc (heap s) (align4096 (0 + length buf)) = Some (Some 32, h)" by auto
  from vfs_write_succeeds [OF assms(1) _ _ this, of "[]"] assms(2,5) show ?thesis by simp
qed

text \<open>C2: A write of a non-empty buffer through an open handle, where position plus length is below 2 to the 61,
  changes exactly one file: its contents become the old ones with the buffer spliced in at the handle's
  position, the position advances by the length, and every other path, node and handle is as before. When
  the position lies beyond the end of the file the gap in between becomes part of the file, as many bytes as
  the distance and with unspecified values, because the code does not clear it; at or before the end there
  is no gap. When the allocator has no room the call reports \<^verbatim>\<open>ENOMEM\<close> and nothing changes.\<close>

theorem vfs_write_refines:
  assumes "vfs_ok s" "opened s fd path pos" "fs_abs s path = Some (AFile c)"
    and "buf \<noteq> []" "pos + length buf < 2 ^ 61"
  shows "\<exists>r s'. vfs_write s (Some fd) buf = Some (r, s') \<and> vfs_ok s' \<and>
    (case r of
       Inr n \<Rightarrow> n = length buf \<and>
         (\<exists>gap. length gap = pos - length c \<and>
            fs_abs s' = (fs_abs s)(path \<mapsto> AFile (take pos c @ gap @ buf @ drop (pos + length buf) c))) \<and>
         opened s' fd path (pos + length buf) \<and> (\<forall>k p q. k \<noteq> fd \<longrightarrow> opened s' k p q = opened s k p q)
     | Inl e \<Rightarrow> e = ENOMEM \<and> fs_abs s' = fs_abs s \<and> (\<forall>k p q. opened s' k p q = opened s k p q))"
proof -
  from vfs_write_spec [OF assms] obtain r s' where w: "vfs_write s (Some fd) buf = Some (r, s')" "vfs_ok s'"
    and sh: "shape_same s s'" and r: "case r of
       Inl e \<Rightarrow> e = ENOMEM \<and> fs_abs s' = fs_abs s \<and> open_files s' = open_files s
     | Inr n \<Rightarrow> n = length buf \<and>
         open_files s' = (open_files s)[fd := (open_files s ! fd)\<lparr>file_pos := pos + length buf\<rparr>] \<and>
         (\<exists>c'. spliced c pos buf c' \<and> fs_abs s' = (fs_abs s)(path \<mapsto> AFile c'))" by blast
  note f = shape_same_find [OF sh]
  show ?thesis
  proof (cases r)
    case (Inl e)
    then show ?thesis using w r f by (auto simp: opened_def)
  next
    case (Inr n)
    then obtain c' where n: "n = length buf" "open_files s' = (open_files s)[fd := (open_files s ! fd)\<lparr>file_pos := pos + length buf\<rparr>]"
      "spliced c pos buf c'" "fs_abs s' = (fs_abs s)(path \<mapsto> AFile c')" using r by auto
    from n(3) obtain gap where gap: "length gap = pos - length c" "c' = take pos c @ gap @ buf @ drop (pos + length buf) c"
      by (rule spliced_gap)
    have "opened s' fd path (pos + length buf)" using assms(2) n(2) f by (simp add: opened_def)
    moreover have "\<forall>k p q. k \<noteq> fd \<longrightarrow> opened s' k p q = opened s k p q" using opened_cong [OF f n(2)] by blast
    ultimately show ?thesis using w Inr n(1,4) gap by auto
  qed
qed

theorem vfs_write_refines_witness:
  "\<exists>s s' :: (u64 \<Rightarrow> bytes) vfs. vfs_write s (Some 0) [104, 105] = Some (Inr 2, s') \<and>
     fs_abs s' = [''/'' \<mapsto> ADir, ''/a'' \<mapsto> AFile [104, 105]]"
proof -
  obtain s :: "(u64 \<Rightarrow> bytes) vfs" where s: "vfs_inv s" "opened s 0 ''/a'' 0"
    "fs_abs s = [''/'' \<mapsto> ADir, ''/a'' \<mapsto> AFile []]" "heap s = kmalloc_init kheap_boot" by (rule demo_open)
  obtain s' where w: "vfs_write s (Some 0) [104, 105] = Some (Inr 2, s')"
    using demo_write [OF s(2-4), of "[104, 105]"] by auto
  have "fs_abs s' = [''/'' \<mapsto> ADir, ''/a'' \<mapsto> AFile [104, 105]]"
    using vfs_write_refines [OF vfs_invD(2) [OF s(1)] s(2), of "[]" "[104, 105]"] s(3) w by auto
  then show ?thesis using w by blast
qed

text \<open>What is written is read back: after a successful write, seeking to where it began and reading as many
  bytes returns the buffer, and neither call changes the file system.\<close>

theorem vfs_write_then_read:
  assumes "vfs_ok s" "opened s fd path pos" "fs_abs s path = Some (AFile c)"
    and "buf \<noteq> []" "pos + length buf < 2 ^ 31" "vfs_write s (Some fd) buf = Some (Inr n, s1)"
  shows "\<exists>s2 s3. vfs_seek s1 (Some fd) (int pos) 0 = (Inr (int pos), s2) \<and>
    vfs_read s2 (Some fd) n = (Inr (length buf, Some buf), s3) \<and> fs_abs s3 = fs_abs s1 \<and> vfs_ok s3"
proof -
  have b: "pos + length buf < 2 ^ 61" using assms(5) by simp
  from vfs_write_spec [OF assms(1-4) b] assms(6) obtain c' where s1: "vfs_ok s1" "shape_same s s1" "n = length buf"
    "open_files s1 = (open_files s)[fd := (open_files s ! fd)\<lparr>file_pos := pos + length buf\<rparr>]"
    "spliced c pos buf c'" "fs_abs s1 = (fs_abs s)(path \<mapsto> AFile c')" by auto
  have fd: "fd < length (open_files s)" "file_valid (open_files s ! fd)" "find_inode s path = Some (file_inode (open_files s ! fd))"
    using assms(2) by (simp_all add: opened_def)
  define s2 where "s2 = s1\<lparr>open_files := (open_files s1)[fd := (open_files s1 ! fd)\<lparr>file_pos := pos\<rparr>]\<rparr>"
  have "signed_take_bit 31 (int pos) = int pos" using assms(5) by (simp add: signed_take_bit_int_eq_self)
  then have sk: "vfs_seek s1 (Some fd) (int pos) 0 = (Inr (int pos), s2)"
    using fd assms(5) by (simp add: vfs_seek_def Let_def s2_def s1(4))
  have op: "opened s2 fd path pos" using fd shape_same_find [OF s1(2)] by (simp add: opened_def s2_def s1(4))
  have "take n (drop pos c') = buf" using s1(3,5) by (auto simp: spliced_def)
  then have "vfs_read s2 (Some fd) n = (Inr (length buf, Some buf),
      s2\<lparr>open_files := (open_files s2)[fd := (open_files s2 ! fd)\<lparr>file_pos := pos + length buf\<rparr>]\<rparr>)"
    using vfs_read_spec [of s2 fd path pos c' n] op s1(1,6) by (simp add: s2_def)
  moreover have "fs_abs (s2\<lparr>open_files := f\<rparr>) = fs_abs s1" "vfs_ok (s2\<lparr>open_files := f\<rparr>)" for f
    using s1(1) by (simp_all add: s2_def)
  ultimately show ?thesis using sk by blast
qed

theorem vfs_write_then_read_witness:
  "\<exists>s s1 s2 s3 :: (u64 \<Rightarrow> bytes) vfs. vfs_write s (Some 0) [104, 105] = Some (Inr 2, s1) \<and>
     vfs_seek s1 (Some 0) 0 0 = (Inr 0, s2) \<and> vfs_read s2 (Some 0) 2 = (Inr (2, Some [104, 105]), s3)"
proof -
  obtain s :: "(u64 \<Rightarrow> bytes) vfs" where s: "vfs_inv s" "opened s 0 ''/a'' 0"
    "fs_abs s = [''/'' \<mapsto> ADir, ''/a'' \<mapsto> AFile []]" "heap s = kmalloc_init kheap_boot" by (rule demo_open)
  obtain s1 where w: "vfs_write s (Some 0) [104, 105] = Some (Inr 2, s1)"
    using demo_write [OF s(2-4), of "[104, 105]"] by auto
  obtain s2 s3 where "vfs_seek s1 (Some 0) (int 0) 0 = (Inr (int 0), s2)"
    "vfs_read s2 (Some 0) 2 = (Inr (length [104, 105 :: byte], Some [104, 105]), s3)"
    using vfs_write_then_read [OF vfs_invD(2) [OF s(1)] s(2) _ _ _ w, of "[]"] s(3) by auto
  moreover have "length [104, 105 :: byte] = 2" by simp
  ultimately have "vfs_seek s1 (Some 0) 0 0 = (Inr 0, s2)" "vfs_read s2 (Some 0) 2 = (Inr (2, Some [104, 105]), s3)" by simp_all
  then show ?thesis using w by blast
qed

text \<open>\<^verbatim>\<open>vfs_create\<close> adds one empty file and changes nothing else; it fails, without effect, exactly when the path
  exists, its parent does not, or the table is full, with the error that says which.\<close>

theorem vfs_create_refines:
  assumes "vfs_inv s" "length path < MAX_PATH"
  shows "\<exists>r s'. vfs_create st s path = Some (r, s') \<and> vfs_ok s' \<and>
    (case r of
       Inr i \<Rightarrow> path \<notin> dom (fs_abs s) \<and> get_parent_path path \<in> dom (fs_abs s) \<and> fs_abs s' = (fs_abs s)(path \<mapsto> AFile [])
     | Inl e \<Rightarrow> s' = s \<and> (e = ENOSPC \<and> inode_count s = MAX_FILES \<or> e = EEXIST \<and> path \<in> dom (fs_abs s) \<or>
         e = ENOENT \<and> get_parent_path path \<notin> dom (fs_abs s)))"
proof -
  from vfs_create_mkdir_spec [OF vfs_invD(2,1) [OF assms(1)] assms(2), of 0 "vfs_create st s path" st]
  obtain r s' where "vfs_create st s path = Some (r, s')" "vfs_ok s'" and
    "case r of
       Inr i \<Rightarrow> path \<notin> dom (fs_abs s) \<and> get_parent_path path \<in> dom (fs_abs s) \<and>
         (\<exists>s1. create_inode s path 0 = (Inr i, s1) \<and> fs_same s1 s') \<and>
         fs_abs s' = (fs_abs s)(path \<mapsto> (if (0::int) = 1 then ADir else AFile []))
     | Inl e \<Rightarrow> s' = s \<and> (e = ENOSPC \<and> inode_count s = MAX_FILES \<or> e = EEXIST \<and> path \<in> dom (fs_abs s) \<or>
         e = ENOENT \<and> get_parent_path path \<notin> dom (fs_abs s))" by blast
  then show ?thesis by (cases r) simp_all
qed

theorem vfs_create_refines_witness:
  "\<exists>s'. vfs_create ram_dev (vfs_init (vfs_boot ram_disk)) ''/'' = Some (Inl EEXIST, s')"
proof -
  from vfs_create_refines [OF vfs_boot_inv [of ram_disk], of "''/''" ram_dev] show ?thesis
    apply (simp add: MAX_PATH_def, elim exE)
    subgoal for r s'
      by (cases r) (auto simp: boot_fs MAX_FILES_def MAX_PATH_def get_parent_path_def str_cpy_def last_slash_def)
    done
qed

text \<open>C36: In a tree, \<^verbatim>\<open>vfs_delete\<close> succeeds exactly when the path exists, is not the root, and no other path has it as
  its parent; it then removes that node and no other, every other path keeps its node and contents, and,
  although the last inode moves into the freed place, the parent index of every node is again the index of
  its parent path. Otherwise nothing changes and the error is \<^verbatim>\<open>ENOENT\<close> for a missing path, \<^verbatim>\<open>EINVAL\<close> for the root
  and \<^verbatim>\<open>ENOTEMPTY\<close> for a directory with children.\<close>

theorem vfs_delete_refines:
  assumes "vfs_tree s"
  shows "\<exists>r s'. vfs_delete st s path = Some (r, s') \<and> vfs_ok s' \<and> links_ok s' \<and>
    (r = Inr () \<longleftrightarrow> path \<in> dom (fs_abs s) \<and> path \<noteq> ''/'' \<and> a_children (fs_abs s) path = {}) \<and>
    (case r of
       Inr _ \<Rightarrow> fs_abs s' = (fs_abs s)(path := None)
     | Inl e \<Rightarrow> s' = s \<and> e = (if path \<notin> dom (fs_abs s) then ENOENT else if path = ''/'' then EINVAL else ENOTEMPTY))"
proof -
  note T = vfs_treeD [OF assms]
  obtain r s' where d: "vfs_delete st s path = Some (r, s')" "vfs_ok s'" and c: "case r of
       Inr _ \<Rightarrow> path \<in> dom (fs_abs s) \<and> path \<noteq> ''/'' \<and> fs_abs s' = (fs_abs s)(path := None) \<and>
         (\<exists>i. find_inode s path = Some i \<and> 0 < i \<and> find_child_inode s i = None \<and> fs_same (remove_inode s i) s')
     | Inl e \<Rightarrow> s' = s \<and> (e = ENOENT \<and> path \<notin> dom (fs_abs s) \<or> e = EINVAL \<and> path = ''/'' \<or>
         e = ENOTEMPTY \<and> fs_abs s path = Some ADir \<and>
         (\<exists>i c. find_inode s path = Some i \<and> find_child_inode s i = Some c))"
    using vfs_delete_spec [OF vfs_invD(2,3) [OF T(1)], of st path] by blast
  have l: "links_ok s'" by (rule delete_links [OF assms d(1)])
  have root: "find_inode s ''/'' = Some 0" using find_inode_unique [OF T(4) tab_okD(2) [OF T(4)]] tab_okD(4) [OF T(4)] by simp
  show ?thesis
  proof (cases r)
    case (Inr u)
    then show ?thesis using d l c children_iff [OF T(4,2)] by auto
  next
    case (Inl e)
    have "path = ''/'' \<Longrightarrow> e = EINVAL" using d(1) Inl by (simp add: vfs_delete_def root)
    moreover have "path = ''/'' \<Longrightarrow> path \<in> dom (fs_abs s)" by (simp add: fs_abs_def root dom_def)
    moreover have "a_children (fs_abs s) path \<noteq> {}" if "find_inode s path = Some i" "find_child_inode s i = Some c" for i c
      using children_iff [OF T(4,2) that(1)] that(2) by simp
    ultimately show ?thesis using d l c Inl by auto
  qed
qed

lemma moved_vfs_tree: "vfs_tree (moved_vfs d)"
proof -
  have all4: "(\<forall>i<4::nat. P i) \<longleftrightarrow> P 0 \<and> P 1 \<and> P 2 \<and> P 3" and ex4: "(\<exists>i<4::nat. P i) \<longleftrightarrow> P 0 \<or> P 1 \<or> P 2 \<or> P 3" for P
    by (auto simp: numeral_eq_Suc less_Suc_eq)
  have gp: "get_parent_path ''/d/f'' = ''/d''" "get_parent_path ''/g'' = ''/''" "get_parent_path ''/d'' = ''/''"
    by (simp_all add: get_parent_path_def str_cpy_def MAX_PATH_def last_slash_def)
  have "dirs_ok (moved_vfs d)" by (simp add: dirs_ok_def moved_vfs_def plain_node_def all4)
  moreover have "handles_ok (moved_vfs d)" by (simp add: handles_ok_def moved_vfs_def vfs_boot_def null_file_def)
  moreover have "links_ok (moved_vfs d)"
    by (simp add: links_ok_def moved_vfs_def plain_node_def all4 ex4 clean_path_def MAX_PATH_def gp)
  ultimately show ?thesis using moved_vfs_ok [of d] by (simp add: vfs_tree_def vfs_inv_def) (simp add: moved_vfs_def)
qed

lemma moved_vfs_abs:
  "fs_abs (moved_vfs d) = [''/'' \<mapsto> ADir, ''/d/f'' \<mapsto> AFile [], ''/g'' \<mapsto> AFile [], ''/d'' \<mapsto> ADir]"
  by (rule ext) (simp add: fs_abs_def find_inode_def moved_vfs_def plain_node_def node_abs_def node_content_def upt_rec)

theorem vfs_delete_refines_witness:
  "(\<exists>s'. vfs_delete ram_dev (moved_vfs ram_disk) ''/d'' = Some (Inl ENOTEMPTY, s')) \<and>
   (\<exists>s'. vfs_delete ram_dev (moved_vfs ram_disk) ''/d/f'' = Some (Inr (), s') \<and> links_ok s' \<and>
      fs_abs s' = [''/'' \<mapsto> ADir, ''/g'' \<mapsto> AFile [], ''/d'' \<mapsto> ADir])"
proof -
  let ?m = "moved_vfs ram_disk"
  have gp: "get_parent_path ''/d/f'' = ''/d''" "get_parent_path ''/g'' = ''/''" "get_parent_path ''/d'' = ''/''"
    by (simp_all add: get_parent_path_def str_cpy_def MAX_PATH_def last_slash_def)
  have "''/d/f'' \<in> a_children (fs_abs ?m) ''/d''" by (simp add: a_children_def moved_vfs_abs gp)
  then have d: "a_children (fs_abs ?m) ''/d'' \<noteq> {}" by blast
  have f: "a_children (fs_abs ?m) ''/d/f'' = {}" by (auto simp: a_children_def moved_vfs_abs gp split: if_splits)
  have dom: "''/d'' \<in> dom (fs_abs ?m)" "''/d/f'' \<in> dom (fs_abs ?m)" by (simp_all add: moved_vfs_abs)
  obtain r s1 where r: "vfs_delete ram_dev ?m ''/d'' = Some (r, s1)" "r \<noteq> Inr ()"
    "\<And>e. r = Inl e \<Longrightarrow> e = (if ''/d'' \<notin> dom (fs_abs ?m) then ENOENT else if ''/d'' = ''/'' then EINVAL else ENOTEMPTY)"
    using vfs_delete_refines [OF moved_vfs_tree [of ram_disk], of ram_dev "''/d''"] d by (fastforce split: sum.splits)
  have 1: "vfs_delete ram_dev ?m ''/d'' = Some (Inl ENOTEMPTY, s1)" using r dom(1) by (cases r) auto
  obtain r2 s2 where "vfs_delete ram_dev ?m ''/d/f'' = Some (r2, s2)" "links_ok s2" "r2 = Inr ()"
    "case r2 of Inr _ \<Rightarrow> fs_abs s2 = (fs_abs ?m)(''/d/f'' := None) | Inl e \<Rightarrow> True"
    using vfs_delete_refines [OF moved_vfs_tree [of ram_disk], of ram_dev "''/d/f''"] f dom(2) by (fastforce split: sum.splits)
  then have 2: "vfs_delete ram_dev ?m ''/d/f'' = Some (Inr (), s2)" "links_ok s2" "fs_abs s2 = (fs_abs ?m)(''/d/f'' := None)" by simp_all
  have "(fs_abs ?m)(''/d/f'' := None) = [''/'' \<mapsto> ADir, ''/g'' \<mapsto> AFile [], ''/d'' \<mapsto> ADir]"
    by (rule ext) (simp add: moved_vfs_abs)
  then show ?thesis using 1 2 by auto
qed

text \<open>C37: In a tree, and for a clean new path (it fits the 256-byte path buffer and has no trailing slash),
  \<^verbatim>\<open>vfs_rename\<close> moves a file alone and a directory with everything below it, keeping all contents; afterwards
  the renamed node's parent index is that of the new parent directory and every other parent index is again
  the index of its parent path. Every refusal leaves the file system as it was and its error code tells the
  reason.\<close>

theorem vfs_rename_refines:
  assumes "vfs_tree s" "clean_path newpath"
  shows "\<exists>r s'. vfs_rename st s oldpath newpath = Some (r, s') \<and> vfs_ok s' \<and> links_ok s' \<and>
    (case r of
       Inr _ \<Rightarrow> oldpath \<in> dom (fs_abs s) \<and> newpath \<notin> dom (fs_abs s) \<and> fs_abs s (get_parent_path newpath) = Some ADir \<and>
         fs_abs s' = a_rename (fs_abs s) oldpath newpath \<and>
         (\<exists>i p. find_inode s' newpath = Some i \<and> find_inode s' (get_parent_path newpath) = Some p \<and>
            node_parent (inodes s' ! i) = Some p)
     | Inl e \<Rightarrow> s' = s \<and>
        (e = ENOENT \<and> (oldpath \<notin> dom (fs_abs s) \<or> get_parent_path newpath \<notin> dom (fs_abs s)) \<or>
         e = EEXIST \<and> newpath \<in> dom (fs_abs s) \<or>
         e = ENOTDIR \<and> fs_abs s (get_parent_path newpath) \<noteq> Some ADir \<or>
         e = EINVAL \<and> (oldpath = ''/'' \<or> path_is_inside newpath oldpath) \<or>
         e = ENAMETOOLONG \<and> (\<exists>p\<in>dom (fs_abs s). path_is_inside p oldpath \<and> MAX_PATH \<le> length newpath + (length p - length oldpath))))"
proof (cases "find_inode s oldpath")
  case None
  then show ?thesis using vfs_treeD [OF assms(1)] by (auto simp: vfs_rename_def fs_abs_def)
next
  case (Some j)
  note T = vfs_treeD [OF assms(1)]
  have ne: "oldpath \<noteq> []" using tree_nonempty [OF assms(1)] Some by blast
  note sp = vfs_rename_spec [OF T(3) clean_path_length(1) [OF assms(2)] ne tree_fresh [OF assms], of st]
  obtain r s' where r: "vfs_rename st s oldpath newpath = Some (r, s')" "vfs_ok s'" using sp by blast
  have l: "links_ok s'" by (rule rename_step_links [OF assms r(1)])
  show ?thesis
  proof (cases r)
    case (Inl e)
    then show ?thesis using sp r l by auto
  next
    case (Inr u)
    have a: "fs_abs s' = a_rename (fs_abs s) oldpath newpath" "oldpath \<in> dom (fs_abs s)" "newpath \<notin> dom (fs_abs s)"
      using sp r(1) Inr by auto
    have "''/'' \<in> dom (fs_abs s)" using fs_abs_nth [OF T(4) tab_okD(2) [OF T(4)]] tab_okD(4) [OF T(4)] by auto
    then have nr: "newpath \<noteq> ''/''" using a(3) by auto
    have "newpath \<in> dom (fs_abs s')" using a(2) by (auto simp: a(1) a_rename_def inside_iff)
    then obtain i where i: "find_inode s' newpath = Some i" by (auto simp: fs_abs_def)
    note t' = vfs_okD(1) [OF r(2)]
    have i': "i < inode_count s'" "node_path (inodes s' ! i) = newpath" using i by (simp_all add: find_inode_Some)
    then have "0 < i" using nr tab_okD(4) [OF t'] by (cases i) auto
    then obtain p where p: "p < inode_count s'" "node_parent (inodes s' ! i) = Some p" "node_path (inodes s' ! p) = get_parent_path newpath"
      using links_okD(2) [OF l i'(1)] i'(2) by auto
    have "find_inode s' (get_parent_path newpath) = Some p" using find_inode_unique [OF t' p(1)] p(3) by simp
    then show ?thesis using sp r Inr l i p(2) by auto
  qed
qed

theorem vfs_rename_refines_witness:
  "\<exists>s'. vfs_rename ram_dev (moved_vfs ram_disk) ''/d'' ''/e'' = Some (Inr (), s') \<and> links_ok s' \<and>
     fs_abs s' ''/e'' = Some ADir \<and> fs_abs s' ''/e/f'' = Some (AFile []) \<and> fs_abs s' ''/d/f'' = None \<and> fs_abs s' ''/g'' = Some (AFile [])"
proof -
  let ?m = "moved_vfs ram_disk"
  have gp: "get_parent_path ''/e'' = ''/''"
    by (simp add: get_parent_path_def str_cpy_def MAX_PATH_def last_slash_def)
  have "clean_path ''/e''" by (simp add: clean_path_def MAX_PATH_def)
  from vfs_rename_refines [OF moved_vfs_tree [of ram_disk] this, of ram_dev "''/d''"] obtain r s' where
    r: "vfs_rename ram_dev ?m ''/d'' ''/e'' = Some (r, s')" "links_ok s'"
    "case r of Inr _ \<Rightarrow> fs_abs s' = a_rename (fs_abs ?m) ''/d'' ''/e'' | Inl e \<Rightarrow> False"
    by (fastforce simp: moved_vfs_abs gp path_is_inside_def MAX_PATH_def split: sum.splits if_splits)
  then show ?thesis by (cases r) (simp_all add: a_rename_def moved_vfs_abs path_is_inside_def)
qed

section \<open>Where the side conditions are needed\<close>

lemma stale_handle:
  assumes "vfs_inv s" "opened s fd a pos" "fs_abs s a = Some (AFile ca)"
    and "find_inode s b = Some (inode_count s - 1)" "a \<noteq> b" "vfs_delete st s a = Some (Inr (), s1)"
  shows "opened s1 fd b pos" "vfs_ok s1" "fs_abs s1 = (fs_abs s)(a := None)"
    "heap s1 = kfree (heap s) (node_data (inodes s ! file_inode (open_files s ! fd)))"
proof -
  define i where "i = file_inode (open_files s ! fd)"
  define l where "l = inode_count s - 1"
  note D = vfs_invD [OF assms(1)] and O = openedD [OF assms(2,3), folded i_def]
  note t = vfs_okD(1) [OF D(2)]
  from vfs_delete_spec [OF D(2,3), of st a] assms(6) obtain j where s1: "vfs_ok s1" "fs_abs s1 = (fs_abs s)(a := None)"
    "find_inode s a = Some j" "fs_same (remove_inode s j) s1" by auto
  have ij: "j = i" using assms(2) s1(3) by (simp add: opened_def i_def)
  have l: "l < inode_count s" "node_path (inodes s ! l) = b" using assms(4) by (simp_all add: find_inode_Some l_def)
  have il: "i < l" using O(1,2) l assms(5) by (cases "i = l") (auto simp: l_def)
  have "node_path (inodes (remove_inode s i) ! i) = b"
    using remove_inode_nth [OF t O(1), of i] il l(2) by (simp add: l_def Let_def)
  then have "find_inode s1 b = Some i"
    using s1(4) find_inode_unique [OF vfs_okD(1) [OF s1(1)], of i] il by (simp add: fs_same_def ij l_def)
  moreover have "open_files s1 = open_files s" using s1(4) by (simp add: fs_same_def)
  ultimately show "opened s1 fd b pos" using assms(2) by (simp add: opened_def i_def)
  show "heap s1 = kfree (heap s) (node_data (inodes s ! file_inode (open_files s ! fd)))"
    using s1(4) by (simp add: fs_same_def ij i_def)
qed (use vfs_delete_spec [OF vfs_invD(2,3) [OF assms(1)], of st a] assms(6) in auto)

text \<open>Deleting a file while a handle is open on it redirects the handle: the last inode moves into the freed
  place, and a later write through the old handle overwrites that other file.\<close>

theorem stale_handle_overwrites:
  assumes "vfs_inv s" "opened s fd a pos" "fs_abs s a = Some (AFile ca)"
    and "find_inode s b = Some (inode_count s - 1)" "a \<noteq> b" "fs_abs s b = Some (AFile cb)" "pos \<le> length cb"
    and "buf \<noteq> []" "pos + length buf < 2 ^ 61"
    and "vfs_delete st s a = Some (Inr (), s1)" "vfs_write s1 (Some fd) buf = Some (Inr n, s2)"
  shows "fs_abs s2 = (fs_abs s)(a := None, b \<mapsto> AFile (take pos cb @ buf @ drop (pos + length buf) cb))"
proof -
  note s1 = stale_handle [OF assms(1-5,10)]
  have "fs_abs s1 b = Some (AFile cb)" using s1(3) assms(5,6) by simp
  from vfs_write_spec [OF s1(2,1) this assms(8,9)] assms(11)
  have "\<exists>c'. spliced cb pos buf c' \<and> fs_abs s2 = (fs_abs s1)(b \<mapsto> AFile c')" by auto
  then show ?thesis using s1(3) assms(5,7) by (auto simp: spliced_inside)
qed

lemma fresh_heap_no_data: "node_ok (kmalloc_init kheap_boot) n \<Longrightarrow> node_data n = None"
proof -
  have "heap_abs (kmalloc_init kheap_boot) [(HEAP_SIZE, True)]" by (rule kmalloc_init_abs) (simp add: kheap_boot_def)
  then have "\<not> heap_owns (kmalloc_init kheap_boot) p m" for p m by (simp add: heap_owns_iff)
  then show "node_ok (kmalloc_init kheap_boot) n \<Longrightarrow> node_data n = None" by (auto simp: node_ok_def split: option.splits)
qed

lemma demo_two:
  obtains s :: "(u64 \<Rightarrow> bytes) vfs" where "vfs_inv s" "opened s 0 ''/a'' 0" "inode_count s = 3" "heap s = kmalloc_init kheap_boot"
    "fs_abs s = [''/'' \<mapsto> ADir, ''/a'' \<mapsto> AFile [], ''/b'' \<mapsto> AFile []]" "find_inode s ''/b'' = Some 2"
proof -
  obtain s :: "(u64 \<Rightarrow> bytes) vfs" where s: "vfs_inv s" "opened s 0 ''/a'' 0"
    "fs_abs s = [''/'' \<mapsto> ADir, ''/a'' \<mapsto> AFile []]" "heap s = kmalloc_init kheap_boot" "inode_count s = 2" by (rule demo_open)
  have gp: "get_parent_path ''/b'' = ''/''"
    by (simp add: get_parent_path_def str_cpy_def MAX_PATH_def last_slash_def)
  have m: "length ''/b'' < MAX_PATH" "parent_no_file s ''/b''" by (simp_all add: MAX_PATH_def parent_no_file_def gp s(3))
  obtain e t where c: "create_inode s ''/b'' 0 = (e, t)" by (cases "create_inode s ''/b'' 0")
  note cs = create_inode_spec [OF vfs_invD(2) [OF s(1)] m(1), of 0]
  have e: "e = Inr 2" using cs c by (auto simp: s gp MAX_FILES_def split: sum.splits)
  then have t: "vfs_ok t" "fs_abs t = (fs_abs s)(''/b'' \<mapsto> AFile [])" "open_files t = open_files s" "node_path (inodes t ! 2) = ''/b''"
    "inode_count t = 3" using cs c by auto
  have h: "heap t = heap s" using c e by (cases rule: create_inode_cases [of s "''/b''" 0]) auto
  have inv: "vfs_inv t" by (rule create_inode_inv [OF s(1) m c [unfolded e]])
  have "node_path (inodes t ! file_inode (open_files t ! 0)) = ''/a''" "file_inode (open_files t ! 0) < inode_count t"
  proof -
    have i: "file_inode (open_files s ! 0) < 2" "node_path (inodes s ! file_inode (open_files s ! 0)) = ''/a''"
      using openedD [OF s(2)] s(3,5) by auto
    then show "file_inode (open_files t ! 0) < inode_count t" by (simp add: t)
    show "node_path (inodes t ! file_inode (open_files t ! 0)) = ''/a''"
      using c e i s(5) by (cases rule: create_inode_cases [of s "''/b''" 0]) (auto simp: t(3))
  qed
  then have "find_inode t ''/a'' = Some (file_inode (open_files t ! 0))"
    using find_inode_unique [OF vfs_okD(1) [OF t(1)]] by metis
  then have "opened t 0 ''/a'' 0" using s(2) t(3) by (simp add: opened_def)
  moreover have "find_inode t ''/b'' = Some 2" using find_inode_unique [OF vfs_okD(1) [OF t(1)], of 2] t by simp
  ultimately show thesis using that [OF inv _ t(5)] h s(3,4) t(2) by simp
qed

theorem stale_handle_overwrites_witness:
  "\<exists>s s1 s2 :: (u64 \<Rightarrow> bytes) vfs. opened s 0 ''/a'' 0 \<and> vfs_delete ram_dev s ''/a'' = Some (Inr (), s1) \<and>
     vfs_write s1 (Some 0) [7] = Some (Inr 1, s2) \<and> fs_abs s2 = [''/'' \<mapsto> ADir, ''/b'' \<mapsto> AFile [7]]"
proof -
  obtain s :: "(u64 \<Rightarrow> bytes) vfs" where s: "vfs_inv s" "opened s 0 ''/a'' 0" "inode_count s = 3" "heap s = kmalloc_init kheap_boot"
    "fs_abs s = [''/'' \<mapsto> ADir, ''/a'' \<mapsto> AFile [], ''/b'' \<mapsto> AFile []]" "find_inode s ''/b'' = Some 2" by (rule demo_two)
  obtain r s1 where "vfs_delete ram_dev s ''/a'' = Some (r, s1)" and "case r of Inr _ \<Rightarrow> True
     | Inl e \<Rightarrow> e = ENOENT \<and> ''/a'' \<notin> dom (fs_abs s) \<or> e = EINVAL \<and> ''/a'' = ''/'' \<or> e = ENOTEMPTY \<and> fs_abs s ''/a'' = Some ADir"
    using vfs_delete_spec [OF vfs_invD(2,3) [OF s(1)], of ram_dev "''/a''"] by (fastforce split: sum.splits)
  then have d: "vfs_delete ram_dev s ''/a'' = Some (Inr (), s1)" by (cases r) (auto simp: s(5))
  have fa: "fs_abs s ''/a'' = Some (AFile [])" and lb: "find_inode s ''/b'' = Some (inode_count s - 1)" using s by simp_all
  note st = stale_handle [OF s(1,2) fa lb _ d]
  have "node_data (inodes s ! file_inode (open_files s ! 0)) = None"
    using data_okD(2) [OF vfs_okD(2) [OF vfs_invD(2) [OF s(1)]] openedD(1) [OF s(2) fa]] s(4) fresh_heap_no_data by simp
  then have "heap s1 = kmalloc_init kheap_boot" using st(4) s(4) by (simp add: km.release_null)
  moreover have "align4096 (0 + length [7 :: byte]) = 4096" by (simp add: align4096_def add64_def)
  ultimately obtain s2 where w: "vfs_write s1 (Some 0) [7] = Some (Inr (length [7 :: byte]), s2)"
    using vfs_write_succeeds [OF st(1), of "[]" "[7]" 32] demo_alloc st(3) s(5) by auto
  from stale_handle_overwrites [OF s(1,2) fa lb _ _ _ _ _ d w, of "[]"]
  have "fs_abs s2 = [''/'' \<mapsto> ADir, ''/b'' \<mapsto> AFile [7]]" by (auto simp: s(5))
  then show ?thesis using s(2) d w by auto
qed

text \<open>A seek to a negative offset is accepted, and the position it stores is a huge unsigned number. A write of as
  many bytes then wraps around to offset 0, so no growth is asked for, and the bytes are stored in front of
  the file's allocation, where the allocator keeps its block header.\<close>

theorem negative_seek_writes_outside:
  assumes "opened s fd path pos" "fs_abs s path = Some (AFile c)"
    and "node_data (inodes s ! file_inode (open_files s ! fd)) = Some p" "heap_owns (heap s) p m"
    and "buf \<noteq> []" "length buf \<le> SIZEOF_BLOCK"
  shows "\<exists>s1 s2. vfs_seek s (Some fd) (- int (length buf)) 0 = (Inr (- int (length buf)), s1) \<and>
    vfs_write s1 (Some fd) buf = Some (Inr (length buf), s2) \<and>
    mem_read (heap_bytes (heap s2)) (p - length buf) (length buf) = buf"
proof -
  define k where "k = length buf"
  have k: "0 < k" "k \<le> 32" using assms(5,6) by (simp_all add: k_def SIZEOF_BLOCK_def)
  note D = openedD [OF assms(1,2)] and H = owns_header [OF assms(4)]
  have fd: "fd < length (open_files s)" "file_valid (open_files s ! fd)" using assms(1) by (simp_all add: opened_def)
  have m: "(- int k) mod 2 ^ 64 = 2 ^ 64 - int k" using k by (simp add: zmod_zminus1_eq_if)
  have st: "signed_take_bit 31 (2 ^ 64 - int k) = - int k"
  proof -
    have "signed_take_bit 31 (2 ^ 64 - int k) = signed_take_bit 31 (- int k)"
      unfolding signed_take_bit_eq_iff_take_bit_eq take_bit_eq_mod by (simp add: mod_diff_left_eq [symmetric])
    then show ?thesis using k by (simp add: signed_take_bit_int_eq_self)
  qed
  define f where "f = (open_files s ! fd)\<lparr>file_pos := 2 ^ 64 - k\<rparr>"
  define s1 where "s1 = s\<lparr>open_files := (open_files s)[fd := f]\<rparr>"
  have "nat (2 ^ 64 - int k) = 2 ^ 64 - k" using k by (simp add: nat_diff_distrib nat_power_eq)
  then have sk: "vfs_seek s (Some fd) (- int k) 0 = (Inr (- int k), s1)"
    using fd m st by (simp add: vfs_seek_def Let_def s1_def f_def)
  have ad: "add64 (2 ^ 64 - k) k = 0" "add64 p (2 ^ 64 - k) = p - k"
  proof -
    show "add64 (2 ^ 64 - k) k = 0" using k by (simp add: add64_def)
    have "p + (2 ^ 64 - k) = (p - k) + 2 ^ 64" "p - k < 2 ^ 64" using k H(4,5) by (simp_all add: SIZEOF_BLOCK_def HEAP_SIZE_def)
    then show "add64 p (2 ^ 64 - k) = p - k" by (simp add: add64_def)
  qed
  have nth: "open_files s1 ! fd = f" "inodes s1 = inodes s" "heap s1 = heap s" using fd by (simp_all add: s1_def)
  have fs: "file_valid f" "file_inode f = file_inode (open_files s ! fd)" "file_pos f = 2 ^ 64 - k" using fd by (simp_all add: f_def)
  define s2 where "s2 = store_bytes s1 fd (file_inode f) buf"
  have "vfs_write s1 (Some fd) buf = Some (Inr k, s2)"
    unfolding vfs_write_def using fs(1,2) D(3) assms(5) ad(1) k(1)
    by (simp add: Let_def nth fs(3) k_def [symmetric] s2_def)
  moreover have "mem_read (heap_bytes (heap s2)) (p - k) k = buf"
    using assms(3) ad(2) by (simp add: s2_def store_bytes_def Let_def nth fs k_def)
  ultimately show ?thesis using sk unfolding k_def by blast
qed

theorem negative_seek_writes_outside_witness:
  "\<exists>s s1 s2 :: (u64 \<Rightarrow> bytes) vfs. \<exists>p m. heap_owns (heap s) p m \<and> vfs_seek s (Some 0) (-1) 0 = (Inr (-1), s1) \<and>
     vfs_write s1 (Some 0) [9] = Some (Inr 1, s2) \<and> mem_read (heap_bytes (heap s2)) (p - 1) 1 = [9]"
proof -
  obtain s0 :: "(u64 \<Rightarrow> bytes) vfs" where s0: "vfs_inv s0" "opened s0 0 ''/a'' 0"
    "fs_abs s0 = [''/'' \<mapsto> ADir, ''/a'' \<mapsto> AFile []]" "heap s0 = kmalloc_init kheap_boot" by (rule demo_open)
  have fa: "fs_abs s0 ''/a'' = Some (AFile [])" by (simp add: s0(3))
  obtain s where w: "vfs_write s0 (Some 0) [5] = Some (Inr (length [5 :: byte]), s)"
    using demo_write [OF s0(2-4), of "[5]"] by auto
  from vfs_write_spec [OF vfs_invD(2) [OF s0(1)] s0(2) fa, of "[5]"] w
  obtain c' where s: "vfs_ok s" "shape_same s0 s" "spliced [] 0 [5] c'" "fs_abs s = (fs_abs s0)(''/a'' \<mapsto> AFile c')"
    "open_files s = (open_files s0)[0 := (open_files s0 ! 0)\<lparr>file_pos := 1\<rparr>]" by auto
  have op: "opened s 0 ''/a'' 1" using s0(2) s(5) shape_same_find [OF s(2)] by (simp add: opened_def)
  have fa: "fs_abs s ''/a'' = Some (AFile [5])" using s(3,4) by (simp add: spliced_inside)
  note D = openedD [OF op fa]
  have ok: "node_ok (heap s) (inodes s ! file_inode (open_files s ! 0))"
    using data_okD(2) [OF vfs_okD(2) [OF s(1)] D(1)] .
  then have "node_size (inodes s ! file_inode (open_files s ! 0)) = 1" using D(4) by (metis length_node_content One_nat_def list.size(3,4) add_0)
  then obtain p m where "node_data (inodes s ! file_inode (open_files s ! 0)) = Some p" "heap_owns (heap s) p m"
    using ok by (auto simp: node_ok_def split: option.splits)
  from negative_seek_writes_outside [OF op fa this, of "[9]"] this(2) show ?thesis by (fastforce simp: SIZEOF_BLOCK_def)
qed

text \<open>Recursive deletion keeps using the index of the directory after its children are gone, although removing a
  child can have moved the directory. Deleting \<^verbatim>\<open>/d\<close> in the state above then drops the unrelated
  file \<^verbatim>\<open>/g\<close> and leaves the directory in place.\<close>

theorem recursive_delete_loses_file:
  "vfs_ok (moved_vfs d) \<and> fs_abs (moved_vfs d) ''/g'' = Some (AFile []) \<and>
   (\<exists>s'. delete_inode_index (moved_vfs d) 3 = Some s' \<and> fs_abs s' ''/g'' = None \<and> fs_abs s' ''/d'' = Some ADir)"
proof -
  let ?s = "moved_vfs d"
  define s1 where "s1 = remove_inode ?s (Suc 0)"
  define s2 where "s2 = remove_inode s1 3"
  have up: "[0..<4] = [0, 1, 2, 3 :: nat]" "[0..<3] = [0, 1, 2 :: nat]" "[0..<2] = [0, 1 :: nat]" by (simp_all add: upt_rec)
  have c0: "find_child_inode ?s 3 = Some 1" "find_child_inode ?s 1 = None"
    by (simp_all add: find_child_inode_def moved_vfs_def up plain_node_def)
  have n4: "inode_count ?s = 4" "inodes ?s ! 0 = plain_node [] ''/'' 1 None" "inodes ?s ! 2 = plain_node ''g'' ''/g'' 0 (Some 0)"
    "inodes ?s ! 3 = plain_node ''d'' ''/d'' 1 (Some 0)" by (simp_all add: moved_vfs_def)
  have sel: "inode_count s1 = 3" "inodes s1 ! 0 = plain_node [] ''/'' 1 None" "inodes s1 ! Suc 0 = plain_node ''d'' ''/d'' 1 (Some 0)"
    "inodes s1 ! 2 = plain_node ''g'' ''/g'' 0 (Some 0)"
    using remove_inode_nth [OF vfs_okD(1) [OF moved_vfs_ok], of 1 d] by (simp_all add: s1_def n4 Let_def) (simp_all add: plain_node_def)
  have c1: "find_child_inode s1 3 = None" by (simp add: find_child_inode_def sel up plain_node_def)
  have del: "delete_inode_index ?s 3 = Some s2"
    using c0 c1 n4(1) by (simp add: delete_inode_index_def delete_loop.simps [of ?s] delete_loop.simps [of s1] s1_def [symmetric] s2_def [symmetric])
  have n2: "inode_count s2 = 2" "inodes s2 = inodes s1" by (simp_all add: s2_def remove_inode_def Let_def sel(1))
  have lost: "fs_abs s2 ''/g'' = None" "fs_abs s2 ''/d'' = Some ADir"
    by (simp_all add: fs_abs_def find_inode_def n2 up sel plain_node_def node_abs_def)
  have "fs_abs ?s ''/g'' = Some (AFile [])"
    using fs_abs_nth [OF vfs_okD(1) [OF moved_vfs_ok], of 2 d] by (simp add: n4 plain_node_def node_abs_def node_content_def)
  then show ?thesis using del lost moved_vfs_ok by simp
qed

end
