(* ===== verification/VfsClear.thy ===== *)
theory VfsClear
  imports VfsTree
begin

text \<open>
  Clearing the persistent directories of \<^verbatim>\<open>kernel/fs/vfs.c\<close> before a snapshot is replayed. The recursive
  deletion keeps using the index of a directory after its children are gone, although removing a child moves
  the last inode of the table. This theory gives a condition under which the index stays right: every
  directory inside the persistent directories that has children sits so early in the table that it is never
  the last inode while a child of it is removed. Under it the deletion returns and removes exactly the
  subtree, and clearing removes exactly what lies inside the persistent directories.
\<close>

section \<open>What is cleared\<close>

definition inside_root :: "string \<Rightarrow> bool" where
  "inside_root p \<longleftrightarrow> path_should_persist p \<and> \<not> path_is_persistent_root p"

text \<open>How many nodes stay, and the condition on the table.\<close>

definition keepers :: "'d vfs \<Rightarrow> nat" where
  "keepers s = card {p \<in> dom (fs_abs s). \<not> inside_root p}"

definition settled :: "'d vfs \<Rightarrow> bool" where
  "settled s \<longleftrightarrow> (\<forall>i<inode_count s. inside_root (node_path (inodes s ! i)) \<and> find_child_inode s i \<noteq> None \<longrightarrow> i \<le> keepers s)"

text \<open>What the deletion never touches.\<close>

definition clear_frame :: "'d vfs \<Rightarrow> 'd vfs \<Rightarrow> bool" where
  "clear_frame s t \<longleftrightarrow> open_files t = open_files s \<and> persist_buf t = persist_buf s \<and>
     persist_loading t = persist_loading s \<and> vfs_initialized t = vfs_initialized s"

lemma clear_frame_remove [simp]: "clear_frame s (remove_inode s i)"
  by (simp add: clear_frame_def remove_inode_def Let_def)

lemma clear_frame_refl [simp]: "clear_frame s s"
  by (simp add: clear_frame_def)

lemma clear_frame_trans: "clear_frame s t \<Longrightarrow> clear_frame t u \<Longrightarrow> clear_frame s u"
  by (simp add: clear_frame_def)

lemma inside_split: "path_is_inside p d \<longleftrightarrow> (\<exists>t. p = d @ t \<and> (t = [] \<or> hd t = CHR ''/''))"
proof
  assume a: "path_is_inside p d"
  then have p: "p = d @ drop (length d) p" unfolding path_is_inside_def Let_def by (metis append_take_drop_id)
  have "drop (length d) p = [] \<or> hd (drop (length d) p) = CHR ''/''"
  proof (cases "length p = length d")
    case False
    then have "length d < length p" using p by (metis length_append le_add1 le_neq_implies_less)
    then show ?thesis using a False by (simp add: path_is_inside_def Let_def hd_drop_conv_nth)
  qed simp
  then show "\<exists>t. p = d @ t \<and> (t = [] \<or> hd t = CHR ''/'')" using p by blast
next
  assume "\<exists>t. p = d @ t \<and> (t = [] \<or> hd t = CHR ''/'')"
  then obtain t where "p = d @ t" "t = [] \<or> hd t = CHR ''/''" by blast
  then show "path_is_inside p d" by (cases t) (auto simp: path_is_inside_def)
qed

lemma inside_trans: "path_is_inside p q \<Longrightarrow> path_is_inside q d \<Longrightarrow> path_is_inside p d"
proof -
  assume "path_is_inside p q" "path_is_inside q d"
  then obtain t u where "p = q @ t" "t = [] \<or> hd t = CHR ''/''" "q = d @ u" "u = [] \<or> hd u = CHR ''/''"
    by (auto simp: inside_split)
  then show ?thesis unfolding inside_split by (intro exI [of _ "u @ t"]) (cases u; simp)
qed

text \<open>A persistent root is a slash and a name, so whatever has it as its parent lies inside.\<close>

lemma persistent_root_name:
  assumes "path_is_persistent_root r"
  obtains nm where "r = CHR ''/'' # nm" "CHR ''/'' \<notin> set nm" "nm \<noteq> []" "path_should_persist r"
proof -
  have "\<exists>nm. r = CHR ''/'' # nm \<and> CHR ''/'' \<notin> set nm \<and> nm \<noteq> [] \<and> path_should_persist r"
    using assms by (auto simp: path_is_persistent_root_def path_should_persist_def path_is_inside_def)
  then show thesis using that by blast
qed

lemma inside_root_iff:
  "inside_root p \<longleftrightarrow> (\<exists>r t. path_is_persistent_root r \<and> p = r @ t \<and> t \<noteq> [] \<and> hd t = CHR ''/'')"
proof
  assume p: "inside_root p"
  then obtain r where r: "path_is_persistent_root r" "path_is_inside p r"
    by (auto simp: inside_root_def path_should_persist_def path_is_persistent_root_def)
  then obtain t where "p = r @ t" "t = [] \<or> hd t = CHR ''/''" by (auto simp: inside_split)
  then show "\<exists>r t. path_is_persistent_root r \<and> p = r @ t \<and> t \<noteq> [] \<and> hd t = CHR ''/''"
    using p r(1) by (cases t) (auto simp: inside_root_def)
next
  assume "\<exists>r t. path_is_persistent_root r \<and> p = r @ t \<and> t \<noteq> [] \<and> hd t = CHR ''/''"
  then obtain r t where rt: "path_is_persistent_root r" "p = r @ t" "t \<noteq> []" "hd t = CHR ''/''" by blast
  have "path_is_inside p r" using rt by (auto simp: inside_split)
  then have "path_should_persist p" using rt(1) by (auto simp: path_should_persist_def path_is_persistent_root_def)
  moreover have "\<not> path_is_persistent_root p"
  proof
    assume "path_is_persistent_root p"
    then obtain nm where "p = CHR ''/'' # nm" "CHR ''/'' \<notin> set nm" by (rule persistent_root_name)
    moreover obtain nr where "r = CHR ''/'' # nr" using rt(1) by (rule persistent_root_name)
    ultimately show False using rt(2-4) by (cases t) auto
  qed
  ultimately show "inside_root p" by (simp add: inside_root_def)
qed

lemma inside_root_below: "inside_root d \<Longrightarrow> path_is_inside p d \<Longrightarrow> inside_root p"
  unfolding inside_root_iff inside_split by (metis append.assoc append_is_Nil_conv hd_append2)

section \<open>Subtrees\<close>

lemma dom_fs_abs: "tab_ok s \<Longrightarrow> p \<in> dom (fs_abs s) \<longleftrightarrow> (\<exists>j<inode_count s. node_path (inodes s ! j) = p)"
  using fs_abs_Some [of s p] by (auto simp: dom_def)

lemma count_dom:
  assumes "tab_ok s"
  shows "inode_count s = card (dom (fs_abs s))" "finite (dom (fs_abs s))"
proof -
  have d: "dom (fs_abs s) = (\<lambda>j. node_path (inodes s ! j)) ` {..<inode_count s}"
    by (rule set_eqI) (simp only: dom_fs_abs [OF assms] image_iff Bex_def lessThan_iff, blast)
  moreover have "inj_on (\<lambda>j. node_path (inodes s ! j)) {..<inode_count s}"
    using tab_okD(9) [OF assms] by (auto simp: inj_on_def)
  ultimately show "inode_count s = card (dom (fs_abs s))" by (simp add: card_image)
  show "finite (dom (fs_abs s))" by (simp add: d)
qed

text \<open>With two nodes inside the roots the last index is beyond the nodes that stay.\<close>

lemma two_inside:
  assumes t: "tab_ok s" and xy: "x < inode_count s" "y < inode_count s" "x \<noteq> y"
    and ins: "inside_root (node_path (inodes s ! x))" "inside_root (node_path (inodes s ! y))"
  shows "keepers s + 2 \<le> inode_count s"
proof -
  let ?p = "node_path (inodes s ! x)" and ?q = "node_path (inodes s ! y)"
  note fin = count_dom(2) [OF t]
  have ne: "?p \<noteq> ?q" using tab_okD(9) [OF t xy(1,2)] xy(3) by blast
  have "{?p, ?q} \<union> {p \<in> dom (fs_abs s). \<not> inside_root p} \<subseteq> dom (fs_abs s)" using dom_fs_abs [OF t] xy by auto
  then have "card ({?p, ?q} \<union> {p \<in> dom (fs_abs s). \<not> inside_root p}) \<le> inode_count s"
    using card_mono [OF fin] count_dom(1) [OF t] by simp
  moreover have "card ({?p, ?q} \<union> {p \<in> dom (fs_abs s). \<not> inside_root p}) = 2 + keepers s"
    unfolding keepers_def using ne ins fin by (subst card_Un_disjoint) auto
  ultimately show ?thesis by simp
qed

text \<open>If anything lies strictly below a node, the node has a child.\<close>

lemma below_has_child:
  assumes t: "tab_ok s" and l: "links_ok s" and d: "d \<noteq> []"
  shows "p \<in> dom (fs_abs s) \<Longrightarrow> p = d @ u \<Longrightarrow> u \<noteq> [] \<Longrightarrow> hd u = CHR ''/'' \<Longrightarrow> a_children (fs_abs s) d \<noteq> {}"
proof (induction "length u" arbitrary: p u rule: less_induct)
  case less
  obtain v b where v: "u = v @ CHR ''/'' # b" "CHR ''/'' \<notin> set b" "v = [] \<or> hd v = CHR ''/''"
    using below_split less.prems(3,4) by metis
  obtain i where i: "i < inode_count s" "node_path (inodes s ! i) = p" using less.prems(1) dom_fs_abs [OF t] by blast
  have cp: "clean_path (d @ v @ CHR ''/'' # b)" using links_okD(1) [OF l i(1)] i(2) less.prems(2) v(1) by simp
  have pr: "p \<noteq> ''/''" using less.prems(2) v(1) d by (cases d) auto
  have gp: "get_parent_path p = d @ v" using parent_below [OF cp d v(2)] less.prems(2) v(1) by simp
  show ?case
  proof (cases "v = []")
    case True
    then have "p \<in> a_children (fs_abs s) d" using less.prems(1) pr gp by (simp add: a_children_def)
    then show ?thesis by blast
  next
    case False
    have "i \<noteq> 0" using i(2) tab_okD(4) [OF t] pr by (cases i) auto
    then obtain q where q: "q < inode_count s" "node_path (inodes s ! q) = d @ v"
      using links_okD(2) [OF l i(1)] i(2) gp by auto
    then have "d @ v \<in> dom (fs_abs s)" using dom_fs_abs [OF t] by blast
    from less.hyps [OF _ this refl False] v(3) False show ?thesis by (simp add: v(1))
  qed
qed

lemma leaf_alone:
  assumes t: "tab_ok s" and l: "links_ok s" and x: "x < inode_count s" "find_child_inode s x = None"
    and p: "p \<in> dom (fs_abs s)" "path_is_inside p (node_path (inodes s ! x))"
  shows "p = node_path (inodes s ! x)"
proof (rule ccontr)
  assume ne: "p \<noteq> node_path (inodes s ! x)"
  let ?d = "node_path (inodes s ! x)"
  obtain u where u: "p = ?d @ u" "u = [] \<or> hd u = CHR ''/''" using p(2) by (auto simp: inside_split)
  then have u': "u \<noteq> []" "hd u = CHR ''/''" using ne by auto
  have "?d \<noteq> []" using links_okD(1) [OF l x(1)] by (simp add: clean_path_def)
  from below_has_child [OF t l this p(1) u(1) u'] have "a_children (fs_abs s) ?d \<noteq> {}" .
  then show False using children_iff [OF t l find_inode_unique [OF t x(1)]] x(2) by simp
qed

text \<open>The subtree of a node, counted.\<close>

definition subtree :: "'d vfs \<Rightarrow> string \<Rightarrow> nat" where
  "subtree s d = card {p \<in> dom (fs_abs s). path_is_inside p d}"

lemma clean_inside_child:
  assumes t: "tab_ok s" and l: "links_ok s" and c: "find_child_inode s x = Some c" and x: "x < inode_count s"
    and nr: "node_path (inodes s ! x) \<noteq> ''/''"
  shows "c < inode_count s" "0 < c" "c \<noteq> x" "path_is_inside (node_path (inodes s ! c)) (node_path (inodes s ! x))"
    "\<not> path_is_inside (node_path (inodes s ! x)) (node_path (inodes s ! c))"
proof -
  have c': "c < inode_count s" "node_parent (inodes s ! c) = Some x" using c by (auto simp: find_child_inode_def find_Some_iff)
  then have g: "0 < c" "get_parent_path (node_path (inodes s ! c)) = node_path (inodes s ! x)"
    using child_by_path [OF t l x c'(1)] by auto
  have cr: "node_path (inodes s ! c) \<noteq> ''/''" using tab_okD(9) [OF t c'(1) tab_okD(2) [OF t]] tab_okD(4) [OF t] g(1) by auto
  obtain b where b: "node_path (inodes s ! c) = node_path (inodes s ! x) @ CHR ''/'' # b"
    using parent_path_cases [OF links_okD(1) [OF l c'(1)] cr] g(2) nr by metis
  show "c < inode_count s" "0 < c" by (fact c'(1), fact g(1))
  show "c \<noteq> x" using b by auto
  show "path_is_inside (node_path (inodes s ! c)) (node_path (inodes s ! x))" unfolding inside_split b by auto
  show "\<not> path_is_inside (node_path (inodes s ! x)) (node_path (inodes s ! c))" unfolding inside_split b by auto
qed

section \<open>Deleting a subtree\<close>

text \<open>What deleting the subtree at \<open>d\<close> does: exactly the paths at and below \<open>d\<close> go, and the early inodes inside
  the persistent directories that are not among them keep their index.\<close>

definition cleared :: "'d vfs \<Rightarrow> string \<Rightarrow> 'd vfs \<Rightarrow> bool" where
  "cleared s d t \<longleftrightarrow> vfs_ok t \<and> links_ok t \<and> clear_frame s t \<and>
     fs_abs t = (\<lambda>p. if path_is_inside p d then None else fs_abs s p) \<and>
     (\<forall>y<inode_count s. y \<le> keepers s \<and> inside_root (node_path (inodes s ! y)) \<and> \<not> path_is_inside (node_path (inodes s ! y)) d \<longrightarrow>
        y < inode_count t \<and> node_path (inodes t ! y) = node_path (inodes s ! y))"

lemma clearedD:
  assumes "cleared s d t"
  shows "vfs_ok t" "links_ok t" "clear_frame s t" "fs_abs t = (\<lambda>p. if path_is_inside p d then None else fs_abs s p)"
    and "y < inode_count s \<Longrightarrow> y \<le> keepers s \<Longrightarrow> inside_root (node_path (inodes s ! y)) \<Longrightarrow>
      \<not> path_is_inside (node_path (inodes s ! y)) d \<Longrightarrow> y < inode_count t \<and> node_path (inodes t ! y) = node_path (inodes s ! y)"
  using assms by (simp_all add: cleared_def)

lemma cleared_keepers:
  assumes "cleared s d t" "inside_root d"
  shows "keepers t = keepers s"
proof -
  have "{p \<in> dom (fs_abs t). \<not> inside_root p} = {p \<in> dom (fs_abs s). \<not> inside_root p}"
    unfolding clearedD(4) [OF assms(1)] using inside_root_below [OF assms(2)] by (auto split: if_splits)
  then show ?thesis by (simp add: keepers_def)
qed

lemma cleared_settled:
  assumes s: "vfs_ok s" "links_ok s" "settled s" and c: "cleared s d t" "inside_root d"
  shows "settled t"
  unfolding settled_def cleared_keepers [OF c]
proof (intro allI impI, elim conjE)
  note ts = vfs_okD(1) [OF s(1)] and tt = vfs_okD(1) [OF clearedD(1) [OF c(1)]] and fs = clearedD(4) [OF c(1)]
  fix i assume i: "i < inode_count t" "inside_root (node_path (inodes t ! i))" "find_child_inode t i \<noteq> None"
  let ?p = "node_path (inodes t ! i)"
  have ch: "a_children (fs_abs t) ?p \<noteq> {}"
    using children_iff [OF tt clearedD(2) [OF c(1)] find_inode_unique [OF tt i(1)]] i(3) by simp
  have p: "?p \<in> dom (fs_abs t)" using dom_fs_abs [OF tt] i(1) by blast
  then have ps: "?p \<in> dom (fs_abs s)" "\<not> path_is_inside ?p d" by (auto simp: fs split: if_splits)
  then obtain j where j: "j < inode_count s" "node_path (inodes s ! j) = ?p" using dom_fs_abs [OF ts] by blast
  have "a_children (fs_abs t) ?p \<subseteq> a_children (fs_abs s) ?p" by (auto simp: a_children_def fs split: if_splits)
  then have "a_children (fs_abs s) ?p \<noteq> {}" using ch by blast
  then have "find_child_inode s j \<noteq> None" using children_iff [OF ts s(2) find_inode_unique [OF ts j(1)]] j(2) by simp
  then have jk: "j \<le> keepers s" using s(3) j i(2) by (simp add: settled_def)
  have "j < inode_count t \<and> node_path (inodes t ! j) = ?p" using clearedD(5) [OF c(1) j(1) jk] j(2) i(2) ps(2) by simp
  then have "j = i" using tab_okD(9) [OF tt _ i(1)] by blast
  then show "i \<le> keepers s" using jk by simp
qed

lemma remove_cleared:
  assumes ok: "vfs_ok s" "links_ok s" and x: "x < inode_count s" "find_child_inode s x = None" "inside_root (node_path (inodes s ! x))"
  shows "cleared s (node_path (inodes s ! x)) (remove_inode s x)"
proof -
  note t = vfs_okD(1) [OF ok(1)]
  let ?d = "node_path (inodes s ! x)"
  have "\<not> inside_root ''/''" by (simp add: inside_root_def path_should_persist_def path_is_inside_def)
  then have x0: "0 < x" using x(3) tab_okD(4) [OF t] by (cases x) auto
  have leaf: "\<And>j. j < inode_count s \<Longrightarrow> node_parent (inodes s ! j) \<noteq> Some x" using x(2) by (simp add: find_child_None)
  note R = remove_inode_ok [OF ok(1) x0 x(1) leaf]
  have "fs_abs (remove_inode s x) p = (if path_is_inside p ?d then None else fs_abs s p)" for p
  proof -
    have "path_is_inside ?d ?d" by (auto simp: inside_split)
    moreover have "p \<in> dom (fs_abs s) \<Longrightarrow> path_is_inside p ?d \<Longrightarrow> p = ?d" by (rule leaf_alone [OF t ok(2) x(1,2)])
    ultimately show ?thesis using conjunct2 [OF R] by (auto simp: fun_upd_def)
  qed
  then have "fs_abs (remove_inode s x) = (\<lambda>p. if path_is_inside p ?d then None else fs_abs s p)" by blast
  moreover have "y < inode_count (remove_inode s x) \<and> node_path (inodes (remove_inode s x) ! y) = node_path (inodes s ! y)"
    if y: "y < inode_count s" "y \<le> keepers s" "inside_root (node_path (inodes s ! y))" "\<not> path_is_inside (node_path (inodes s ! y)) ?d" for y
  proof -
    have "y \<noteq> x" using y(4) by (auto simp: inside_split)
    then have "keepers s + 2 \<le> inode_count s" using two_inside [OF t x(1) y(1) _ x(3) y(3)] by simp
    then have yl: "y < inode_count s - 1" using y(2) by simp
    then show ?thesis using remove_inode_nth [OF t x(1) yl] \<open>y \<noteq> x\<close> by (simp add: Let_def)
  qed
  ultimately show ?thesis using R remove_links [OF t ok(2) x0 x(1) leaf] by (simp add: cleared_def)
qed

lemma cleared_trans:
  assumes 1: "cleared s e u" and 2: "cleared u d t" and e: "path_is_inside e d" "inside_root e"
  shows "cleared s d t"
proof -
  have "fs_abs t = (\<lambda>p. if path_is_inside p d then None else fs_abs s p)"
    unfolding clearedD(4) [OF 2] clearedD(4) [OF 1] using inside_trans [OF _ e(1)] by (auto simp: fun_eq_iff)
  moreover have "y < inode_count t \<and> node_path (inodes t ! y) = node_path (inodes s ! y)"
    if y: "y < inode_count s" "y \<le> keepers s" "inside_root (node_path (inodes s ! y))" "\<not> path_is_inside (node_path (inodes s ! y)) d" for y
  proof -
    have "\<not> path_is_inside (node_path (inodes s ! y)) e" using y(4) inside_trans [OF _ e(1)] by blast
    then have u: "y < inode_count u" "node_path (inodes u ! y) = node_path (inodes s ! y)" using clearedD(5) [OF 1 y(1-3)] by auto
    show ?thesis using clearedD(5) [OF 2 u(1)] y cleared_keepers [OF 1 e(2)] u(2) by simp
  qed
  ultimately show ?thesis using clearedD(1-3) [OF 2] clear_frame_trans [OF clearedD(3) [OF 1] clearedD(3) [OF 2]]
    by (simp add: cleared_def)
qed

lemma delete_loop_cleared:
  assumes "vfs_ok s" "links_ok s" "settled s" "x < inode_count s" "inside_root (node_path (inodes s ! x))"
  shows "\<exists>t. delete_loop s x = Some t \<and> cleared s (node_path (inodes s ! x)) t"
  using assms
proof (induction "subtree s (node_path (inodes s ! x))" arbitrary: s x rule: less_induct)
  case less
  note t = vfs_okD(1) [OF less.prems(1)] and l = less.prems(2)
  let ?d = "node_path (inodes s ! x)"
  have dd: "path_is_inside ?d ?d" and dr: "?d \<noteq> ''/''"
    using less.prems(5) by (auto simp: inside_split inside_root_def path_should_persist_def path_is_inside_def)
  have pd: "?d \<in> dom (fs_abs s)" using dom_fs_abs [OF t] less.prems(4) by blast
  note fin = count_dom(2) [OF t]
  show ?case
  proof (cases "find_child_inode s x")
    case None
    then show ?thesis using remove_cleared [OF less.prems(1,2,4) None less.prems(5)] by (simp add: delete_loop.simps [of s x])
  next
    case (Some c)
    note C = clean_inside_child [OF t l Some less.prems(4) dr]
    let ?e = "node_path (inodes s ! c)"
    have ce: "inside_root ?e" by (rule inside_root_below [OF less.prems(5) C(4)])
    have "{p \<in> dom (fs_abs s). path_is_inside p ?e} \<subset> {p \<in> dom (fs_abs s). path_is_inside p ?d}"
      using pd dd C(5) inside_trans [OF _ C(4)] by blast
    then have "subtree s ?e < subtree s ?d" unfolding subtree_def by (intro psubset_card_mono) (use fin in auto)
    from less.hyps [OF this less.prems(1-3) C(1) ce] obtain u where u: "delete_loop s c = Some u" "cleared s ?e u" by blast
    have us: "settled u" "keepers u = keepers s" using cleared_settled [OF less.prems(1-3) u(2) ce] cleared_keepers [OF u(2) ce] by simp_all
    have "x \<le> keepers s" using less.prems(3-5) Some by (simp add: settled_def)
    then have ux: "x < inode_count u" "node_path (inodes u ! x) = ?d" using clearedD(5) [OF u(2) less.prems(4) _ less.prems(5) C(5)] by auto
    have pe: "?e \<in> dom (fs_abs s)" "path_is_inside ?e ?e" using dom_fs_abs [OF t] C(1) by (blast, auto simp: inside_split)
    have "{p \<in> dom (fs_abs u). path_is_inside p ?d} \<subset> {p \<in> dom (fs_abs s). path_is_inside p ?d}"
      using pe C(4) by (auto simp: clearedD(4) [OF u(2)] split: if_splits)
    then have "subtree u ?d < subtree s ?d" unfolding subtree_def by (intro psubset_card_mono) (use fin in auto)
    from less.hyps [of u x, unfolded ux(2), OF this clearedD(1,2) [OF u(2)] us(1) ux(1)] less.prems(5)
    obtain v where v: "delete_loop u x = Some v" "cleared u ?d v" using ux(2) by auto
    have "delete_loop s x = Some v" using Some C(1,2) u(1) v(1) by (simp add: delete_loop.simps [of s x])
    then show ?thesis using cleared_trans [OF u(2) v(2) C(4) ce] by blast
  qed
qed

section \<open>Clearing a persistent directory\<close>

definition below_path :: "string \<Rightarrow> string \<Rightarrow> bool" where
  "below_path p d \<longleftrightarrow> path_is_inside p d \<and> p \<noteq> d"

definition emptied :: "'d vfs \<Rightarrow> string \<Rightarrow> 'd vfs \<Rightarrow> bool" where
  "emptied s r t \<longleftrightarrow> vfs_ok t \<and> links_ok t \<and> settled t \<and> clear_frame s t \<and>
     fs_abs t = (\<lambda>p. if below_path p r then None else fs_abs s p)"

lemma nothing_below:
  assumes "tab_ok s" "links_ok s" "r \<noteq> []" "clean_path r" "find_inode s r = Some i \<Longrightarrow> find_child_inode s i = None"
    "find_inode s r = None \<or> find_inode s r = Some i"
  shows "fs_abs s = (\<lambda>p. if below_path p r then None else fs_abs s p)"
proof -
  have "p \<notin> dom (fs_abs s)" if b: "below_path p r" for p
  proof
    assume p: "p \<in> dom (fs_abs s)"
    obtain u where u: "p = r @ u" "u \<noteq> []" "hd u = CHR ''/''" using b by (auto simp: below_path_def inside_split)
    have "r \<in> dom (fs_abs s)" using ancestor_exists [OF assms(1-4) p u(1)] u(3) by blast
    then have "find_inode s r = Some i" using assms(6) by (auto simp: fs_abs_def)
    moreover have "a_children (fs_abs s) r \<noteq> {}" by (rule below_has_child [OF assms(1-3) p u])
    ultimately show False using assms(5) children_iff [OF assms(1,2)] by blast
  qed
  then show ?thesis by (auto simp: fun_eq_iff domIff)
qed

lemma clear_loop_emptied:
  assumes "vfs_ok s" "links_ok s" "settled s" "path_is_persistent_root r" "find_inode s r = Some x"
  shows "\<exists>t. clear_loop s r x = Some t \<and> emptied s r t"
  using assms
proof (induction "inode_count s" arbitrary: s x rule: less_induct)
  case less
  note t = vfs_okD(1) [OF less.prems(1)] and l = less.prems(2)
  obtain nm where nm: "r = CHR ''/'' # nm" "CHR ''/'' \<notin> set nm" "nm \<noteq> []" using less.prems(4) by (rule persistent_root_name)
  have x: "x < inode_count s" "node_path (inodes s ! x) = r" using less.prems(5) by (simp_all add: find_inode_Some)
  have rc: "clean_path r" using links_okD(1) [OF l x(1)] x(2) by simp
  show ?case
  proof (cases "find_child_inode s x")
    case None
    have "fs_abs s = (\<lambda>p. if below_path p r then None else fs_abs s p)"
      by (rule nothing_below [OF t l _ rc, of x]) (use nm None less.prems(5) in simp_all)
    then show ?thesis using less.prems(1-3) None by (simp add: clear_loop.simps [of s r x] emptied_def)
  next
    case (Some c)
    have "node_path (inodes s ! x) \<noteq> ''/''" using x(2) nm by simp
    note C = clean_inside_child [OF t l Some x(1) this, unfolded x(2)]
    let ?e = "node_path (inodes s ! c)"
    obtain v where v: "?e = r @ v" "v = [] \<or> hd v = CHR ''/''" using C(4) unfolding inside_split by blast
    have "path_is_inside r r" unfolding inside_split by simp
    then have "v \<noteq> []" using C(5) v(1) by auto
    then have ce: "inside_root ?e" unfolding inside_root_iff using less.prems(4) v by blast
    obtain u where u: "delete_loop s c = Some u" "cleared s ?e u"
      using delete_loop_cleared [OF less.prems(1-3) C(1) ce] by blast
    have d: "delete_inode_index s c = Some u" using C(1,2) u(1) by (simp add: delete_inode_index_def)
    have tu: "tab_ok u" by (rule vfs_okD(1) [OF clearedD(1) [OF u(2)]])
    have "dom (fs_abs u) \<subset> dom (fs_abs s)"
    proof -
      have "?e \<in> dom (fs_abs s)" using dom_fs_abs [OF t] C(1) by blast
      moreover have "path_is_inside ?e ?e" by (auto simp: inside_split)
      then have "?e \<notin> dom (fs_abs u)" by (simp add: clearedD(4) [OF u(2)] domIff)
      moreover have "dom (fs_abs u) \<subseteq> dom (fs_abs s)" by (auto simp: clearedD(4) [OF u(2)] split: if_splits)
      ultimately show ?thesis by blast
    qed
    then have cnt: "inode_count u < inode_count s"
      using count_dom [OF t] count_dom(1) [OF tu] by (metis psubset_card_mono)
    have "fs_abs u r = fs_abs s r" using C(5) by (simp add: clearedD(4) [OF u(2)])
    then obtain y where y: "find_inode u r = Some y" using less.prems(5) by (auto simp: fs_abs_def)
    from less.hyps [OF cnt clearedD(1,2) [OF u(2)] cleared_settled [OF less.prems(1-3) u(2) ce] less.prems(4) y]
    obtain w where w: "clear_loop u r y = Some w" "emptied u r w" by blast
    have "clear_loop s r x = Some w" using Some d y w(1) by (simp add: clear_loop.simps [of s r x])
    moreover have "emptied s r w"
    proof -
      have "below_path p r" if "path_is_inside p ?e" for p
      proof -
        have "path_is_inside p r" using inside_trans [OF that C(4)] .
        moreover have "p \<noteq> r" using that C(5) by blast
        ultimately show ?thesis by (simp add: below_path_def)
      qed
      then have "fs_abs w = (\<lambda>p. if below_path p r then None else fs_abs s p)"
        using w(2) by (auto simp: emptied_def clearedD(4) [OF u(2)] fun_eq_iff)
      then show ?thesis using w(2) clear_frame_trans [OF clearedD(3) [OF u(2)]] by (auto simp: emptied_def)
    qed
    ultimately show ?thesis by blast
  qed
qed

lemma clear_directory_emptied:
  assumes "vfs_ok s" "links_ok s" "settled s" "path_is_persistent_root r"
  shows "\<exists>t. clear_directory_contents s r = Some t \<and> emptied s r t"
proof (cases "find_inode s r")
  case None
  obtain nm where nm: "r = CHR ''/'' # nm" "CHR ''/'' \<notin> set nm" "nm \<noteq> []" using assms(4) by (rule persistent_root_name)
  have "length r < MAX_PATH" using assms(4) by (auto simp: path_is_persistent_root_def MAX_PATH_def)
  moreover have "last nm \<noteq> CHR ''/''" using nm(2,3) by (metis last_in_set)
  ultimately have "clean_path r" using nm by (simp add: clean_path_def)
  then have "fs_abs s = (\<lambda>p. if below_path p r then None else fs_abs s p)"
    using nothing_below [OF vfs_okD(1) [OF assms(1)] assms(2), of r 0] None nm by simp
  then show ?thesis using assms None by (simp add: clear_directory_contents_def emptied_def)
next
  case (Some x)
  then show ?thesis using clear_loop_emptied [OF assms Some] by (simp add: clear_directory_contents_def)
qed

end
