(* ===== verification/VfsRestore.thy ===== *)
theory VfsRestore
  imports VfsSystem VfsClear
begin

text \<open>
  The operations of \<^verbatim>\<open>kernel/fs/vfs.c\<close> built from the public ones: the default content of a fresh file
  system, the replay of a snapshot, loading at boot, and the restore and repair commands. Failures of the
  calls they make are ignored exactly where the C code ignores them. A text buffer argument is its size,
  with 0 for a NULL pointer, and the text left in it is part of the result.
\<close>

section \<open>Default content\<close>

fun mkdirs :: "'d storage \<Rightarrow> 'd vfs \<Rightarrow> string list \<Rightarrow> 'd vfs option" where
  "mkdirs st s [] = Some s"
| "mkdirs st s (p # ps) = do { (_, s) \<leftarrow> vfs_mkdir st s p; mkdirs st s ps }"

definition data_roots :: "string list" where
  "data_roots = [''/workspace'', ''/system'', ''/system/share'', ''/system/firmware'', ''/home'',
                 ''/home/orizon'', ''/packages'', ''/logs'', ''/tmp'']"

definition vfs_ensure_data_roots :: "'d storage \<Rightarrow> 'd vfs \<Rightarrow> 'd vfs option" where
  "vfs_ensure_data_roots st s = mkdirs st s data_roots"

text \<open>The sequence open, write, close that the seeding code and the replay repeat for every file.\<close>

definition put_file :: "'d storage \<Rightarrow> 'd vfs \<Rightarrow> string \<Rightarrow> int \<Rightarrow> bytes \<Rightarrow> 'd vfs option" where
  "put_file st s path flags buf =
    (case vfs_open s path flags of
       (None, s) \<Rightarrow> Some s
     | (Some fd, s) \<Rightarrow> do { (_, s) \<leftarrow> vfs_write s (Some fd) buf; vfs_close st s (Some fd) })"

definition vfs_write_default_file :: "'d storage \<Rightarrow> 'd vfs \<Rightarrow> string \<times> string \<Rightarrow> 'd vfs option" where
  "vfs_write_default_file st s f =
    (case f of (path, text) \<Rightarrow>
       if vfs_exists s path then Some s
       else put_file st s path (O_CREAT OR O_WRONLY) (map of_char text))"

fun write_default_files :: "'d storage \<Rightarrow> 'd vfs \<Rightarrow> (string \<times> string) list \<Rightarrow> 'd vfs option" where
  "write_default_files st s [] = Some s"
| "write_default_files st s (f # fs) = do { s \<leftarrow> vfs_write_default_file st s f; write_default_files st s fs }"

definition data_layout :: "string \<times> string" where
  "data_layout = (''/system/data-layout'', ''version 1\<newline>roots /system /home /packages /logs /workspace\<newline>'')"

definition common_files :: "(string \<times> string) list" where
  "common_files =
    [(''/system/network.conf'', ''mode dhcp\<newline>''),
     (''/home/orizon/README.txt'', ''Home directory for Orizon OS user files.\<newline>''),
     (''/packages/README.txt'', ''Local package cache and installed package metadata.\<newline>''),
     (''/logs/README.txt'', ''Persistent boot, install and update logs.\<newline>'')]"

definition seed_files :: "(string \<times> string) list" where
  "seed_files =
    [(''/workspace/README.txt'',
      ''Orizon OS\<newline>\<newline>This x86_64 target is a clean development base.\<newline>Use /workspace for experiments, notes and small tests.\<newline>''),
     (''/workspace/ROADMAP.txt'',
      ''Next ideas:\<newline>- grow the scheduler and memory layers\<newline>- harden drivers one by one\<newline>- add only the tools you really want to own\<newline>''),
     (''/system/hostname'', ''orizon-os''),
     (''/system/version'', ''core-x86_64''),
     (''/system/profile'', ''minimal-development\<newline>'')]"

text \<open>The first five files of the seed are opened without a check that they exist, so an existing file is
  overwritten from its start.\<close>

fun put_files :: "'d storage \<Rightarrow> 'd vfs \<Rightarrow> (string \<times> string) list \<Rightarrow> 'd vfs option" where
  "put_files st s [] = Some s"
| "put_files st s ((path, text) # fs) =
    do { s \<leftarrow> put_file st s path (O_CREAT OR O_WRONLY) (map of_char text); put_files st s fs }"

definition vfs_seed_content :: "'d storage \<Rightarrow> 'd vfs \<Rightarrow> 'd vfs option" where
  "vfs_seed_content st s = do {
     s \<leftarrow> vfs_ensure_data_roots st s;
     s \<leftarrow> put_files st s seed_files;
     write_default_files st s (data_layout # common_files)
   }"

definition persist_write_default_data_files :: "'d storage \<Rightarrow> 'd vfs \<Rightarrow> 'd vfs option" where
  "persist_write_default_data_files st s = do {
     s \<leftarrow> vfs_ensure_data_roots st s;
     s \<leftarrow> vfs_write_default_file st s data_layout;
     (_, s) \<leftarrow> vfs_mkdir st s ''/system/firmware'';
     write_default_files st s
       ([(''/system/hostname'', ''orizon-os''), (''/system/version'', ''core-x86_64''),
         (''/system/profile'', ''minimal-development\<newline>'')] @ common_files)
   }"

section \<open>Replaying a snapshot\<close>

fun clear_roots :: "'d vfs \<Rightarrow> string list \<Rightarrow> 'd vfs option" where
  "clear_roots s [] = Some s"
| "clear_roots s (r # rs) = do { s \<leftarrow> clear_directory_contents s r; clear_roots s rs }"

definition persistent_roots :: "string list" where
  "persistent_roots = [''/workspace'', ''/home'', ''/system'', ''/packages'', ''/logs'']"

text \<open>What one decoded entry does to the file system; the flag reports an unknown type.\<close>

definition apply_entry :: "'d storage \<Rightarrow> 'd vfs \<Rightarrow> int \<Rightarrow> string \<Rightarrow> bytes \<Rightarrow> (bool \<times> 'd vfs) option" where
  "apply_entry st s ty path buf =
    (if \<not> path_should_persist path \<or> path_is_persistent_root path then Some (False, s)
     else let s = snd (ensure_parent_dirs s path) in
       if ty = 1 then Some (False, if find_inode s path = None then snd (create_inode s path 1) else s)
       else if ty = 0 then do { s \<leftarrow> put_file st s path (O_CREAT OR O_WRONLY OR O_TRUNC) buf; Some (False, s) }
       else Some (True, s))"

text \<open>The decoder of the entry at an offset: type, path, data and the next offset. \<open>None\<close> is a malformed entry,
  which ends the loop. The path is a C string, so it stops at a NUL byte.\<close>

definition decode_entry :: "mem \<Rightarrow> nat \<Rightarrow> nat \<Rightarrow> (int \<times> string \<times> bytes \<times> nat) option" where
  "decode_entry buf limit offset =
    (if offset + 7 > limit then None
     else let ty = uint (buf offset);
              path_len = unat (get_u16 buf (offset + 1));
              data_size = unat (get_u32 buf (offset + 3));
              offset = offset + 7
          in if path_len = 0 \<or> path_len \<ge> MAX_PATH \<or> offset + path_len + data_size > limit then None
             else Some (ty, map (\<lambda>b. char_of (unat b)) (takeWhile (\<lambda>b. b \<noteq> 0) (mem_read buf offset path_len)),
                        mem_read buf (offset + path_len) data_size, offset + path_len + data_size))"

primrec apply_entries :: "nat \<Rightarrow> 'd storage \<Rightarrow> nat \<Rightarrow> nat \<Rightarrow> bool \<Rightarrow> 'd vfs \<Rightarrow> (bool \<times> 'd vfs) option" where
  "apply_entries 0 st limit offset malformed s = Some (malformed, s)"
| "apply_entries (Suc n) st limit offset malformed s =
    (case decode_entry (persist_buf s) limit offset of
       None \<Rightarrow> Some (True, s)
     | Some (ty, path, buf, offset) \<Rightarrow> do {
         (bad, s) \<leftarrow> apply_entry st s ty path buf;
         apply_entries n st limit offset (malformed \<or> bad) s
       })"

definition persist_apply_snapshot_entries :: "'d storage \<Rightarrow> 'd vfs \<Rightarrow> persist_meta \<Rightarrow> ((errno + unit) \<times> 'd vfs) option" where
  "persist_apply_snapshot_entries st s meta =
    (if \<not> meta_valid meta then Some (Inl EINVAL, s)
     else do {
       s \<leftarrow> clear_roots s persistent_roots;
       (malformed, s) \<leftarrow> apply_entries (unat (meta_entry_count meta)) st
         (PERSIST_HEADER_SIZE + unat (meta_payload_size meta)) PERSIST_HEADER_SIZE False s;
       s \<leftarrow> persist_write_default_data_files st s;
       Some (if malformed then Inl EINVAL else Inr (), s)
     })"

section \<open>Loading at boot\<close>

text \<open>The two checks every operation on the slots starts with; \<open>Inl\<close> names the one that failed.\<close>

definition persist_no_storage :: "'d vfs \<Rightarrow> 'd vfs option" where
  "persist_no_storage s = persist_set_status (s\<lparr>persist_ready := False\<rparr>) (Some ''Orizon data persistence unavailable'')"

definition persist_no_partition :: "'d vfs \<Rightarrow> 'd vfs option" where
  "persist_no_partition s = persist_set_status (s\<lparr>persist_ready := False\<rparr>)
     (Some ''Orizon data persistence disabled: no Orizon data partition'')"

text \<open>\<^verbatim>\<open>vfs_persist_load\<close> once a valid snapshot is selected: the slot is read again, because the buffer holds the
  last slot scanned, and its entries are replayed.\<close>

definition load_selected :: "'d storage \<Rightarrow> 'd vfs \<Rightarrow> persist_meta \<Rightarrow> 'd vfs option" where
  "load_selected st s best =
    (case persist_read_slot_snapshot st s (meta_slot best) of
       (Inl _, s) \<Rightarrow> persist_set_status (s\<lparr>persist_loading := False\<rparr>)
         (Some ''Orizon data persistence selected snapshot reread failed'')
     | (Inr best, s) \<Rightarrow> do {
         (r, s) \<leftarrow> persist_apply_snapshot_entries st (persist_set_loaded_meta s best) best;
         s \<leftarrow> (case r of
                 Inl _ \<Rightarrow> persist_set_status s
                   (Some ''Orizon data persistence snapshot restored with malformed entries skipped'')
               | Inr _ \<Rightarrow> Some s);
         s \<leftarrow> persist_format_status_active (s\<lparr>persist_loading := False\<rparr>);
         if meta_version best = PERSIST_LEGACY_VERSION then map_option snd (vfs_persist_save st s) else Some s
       })"

definition vfs_persist_load :: "'d storage \<Rightarrow> 'd vfs \<Rightarrow> 'd vfs option" where
  "vfs_persist_load st s =
    (let s = vfs_init s in
     if \<not> storage_available st (dev s) then persist_no_storage s
     else case persist_orizon_data_partition_present st s of
       (False, s) \<Rightarrow> persist_no_partition s
     | (True, s) \<Rightarrow>
         let s = s\<lparr>persist_loading := True, persist_ready := True\<rparr> in
         case select_newest st (slots_to_scan s) meta_zero False s of (best, read_error, s) \<Rightarrow>
           if \<not> meta_valid best then do {
             let s = (forget_meta s)\<lparr>persist_loading := False\<rparr>;
             s \<leftarrow> (if read_error
                   then persist_set_status s
                     (Some ''Orizon data persistence read failed; initialized fresh snapshot'')
                   else persist_format_status_initialized s);
             map_option snd (vfs_persist_save st s)
           } else load_selected st s best)"

definition vfs_persist_enable_installed :: "'d storage \<Rightarrow> 'd vfs \<Rightarrow> ((errno + unit) \<times> 'd vfs) option" where
  "vfs_persist_enable_installed st s =
    (let s = vfs_init s in
     if \<not> storage_available st (dev s) then map_option (Pair (Inl EIO)) (persist_no_storage s)
     else case persist_orizon_data_partition_present st s of
       (False, s) \<Rightarrow> map_option (Pair (Inl EIO)) (persist_no_partition s)
     | (True, s) \<Rightarrow> map_option (Pair (Inr ())) (persist_format_status_initialized
         (s\<lparr>persist_loading := False, persist_ready := True, persist_active_slot := -1\<rparr>)))"

section \<open>Status reports\<close>

definition vfs_persist_available :: "'d storage \<Rightarrow> 'd vfs \<Rightarrow> bool" where
  "vfs_persist_available st s \<longleftrightarrow> persist_ready s \<and> storage_available st (dev s)"

definition vfs_persist_status :: "'d vfs \<Rightarrow> string" where
  "vfs_persist_status s = persist_status s"

definition yes_no :: "bool \<Rightarrow> va" where
  "yes_no b = VPtr (Some (if b then ''yes'' else ''no''))"

definition vfs_persist_format_status :: "'d storage \<Rightarrow> 'd vfs \<Rightarrow> nat \<Rightarrow> string option" where
  "vfs_persist_format_status st s out_size =
    (if out_size = 0 then Some []
     else snprintf out_size
       ''persistence:\<newline>  ready=%s storage=%s loading=%s\<newline>  lba=%lu data-sectors=%lu slot-size=%lu slots=%lu active-slot=%d\<newline>  version=%lu sequence=%lu entries=%lu payload-bytes=%lu checksum=0x%08x\<newline>  roots=/workspace,/home,/system,/packages,/logs\<newline>  mode=%s\<newline>  status=%s\<newline>''
       [yes_no (persist_ready s), yes_no (storage_available st (dev s)), yes_no (persist_loading s),
        VLong (persist_lba s), VLong (persist_data_sectors s), VLong (of_nat PERSIST_BYTES),
        VLong (ucast (persist_slots_available s)), VInt (word_of_int (persist_active_slot s)),
        VLong (ucast (persist_last_version s)), VLong (ucast (persist_sequence s)),
        VLong (ucast (persist_last_entry_count s)), VLong (ucast (persist_last_payload_size s)),
        VInt (persist_last_checksum s),
        VPtr (Some (if vfs_persist_available st s then ''persistent'' else ''memory'')),
        VPtr (Some (vfs_persist_status s))])"

text \<open>One line of the slot report, from the result of reading the slot.\<close>

definition slot_line :: "'d vfs \<Rightarrow> u32 \<Rightarrow> int + persist_meta \<Rightarrow> string option" where
  "slot_line s slot r =
    (let active = yes_no (persist_active_slot s = uint slot); lba = VLong (persist_slot_lba s slot) in
     case r of
       Inr meta \<Rightarrow> snprintf 192
         ''  slot %lu: valid=yes active=%s version=%lu seq=%lu entries=%lu payload=%lu checksum=0x%08x lba=%lu\<newline>''
         [VLong (ucast slot), active, VLong (ucast (meta_version meta)), VLong (ucast (meta_sequence meta)),
          VLong (ucast (meta_entry_count meta)), VLong (ucast (meta_payload_size meta)),
          VInt (meta_checksum meta), lba]
     | Inl _ \<Rightarrow> snprintf 192 ''  slot %lu: valid=no active=%s lba=%lu\<newline>'' [VLong (ucast slot), active, lba])"

fun slot_lines :: "'d storage \<Rightarrow> u32 list \<Rightarrow> nat \<Rightarrow> string \<Rightarrow> 'd vfs \<Rightarrow> (string \<times> 'd vfs) option" where
  "slot_lines st [] out_size out s = Some (out, s)"
| "slot_lines st (slot # slots) out_size out s =
    (case persist_read_slot_meta st s slot of (r, s) \<Rightarrow> do {
       line \<leftarrow> slot_line s slot r;
       slot_lines st slots out_size (persist_append_text out out_size line) s
     })"

definition vfs_persist_format_slots :: "'d storage \<Rightarrow> 'd vfs \<Rightarrow> nat \<Rightarrow> (string \<times> 'd vfs) option" where
  "vfs_persist_format_slots st s out_size =
    (if out_size = 0 then Some ([], s)
     else let s = (if storage_available st (dev s) then snd (persist_orizon_data_partition_present st s) else s) in do {
       line \<leftarrow> snprintf 192 ''persistence slots: lba=%lu slots=%lu active=%d\<newline>''
         [VLong (persist_lba s), VLong (ucast (persist_slots_available s)), VInt (word_of_int (persist_active_slot s))];
       let out = persist_append_text [] out_size line;
       if \<not> storage_available st (dev s)
       then Some (persist_append_text out out_size ''  storage unavailable; no slots readable\<newline>'', s)
       else if persist_slots_available s = 0
       then Some (persist_append_text out out_size ''  no Orizon data partition detected\<newline>'', s)
       else do {
         (out, s) \<leftarrow> slot_lines st (map of_nat [0..<unat (persist_slots_available s)]) out_size out s;
         Some (persist_append_text out out_size
                 ''  restore: persist restore previous | persist restore slot <n>\<newline>'', s)
       }
     })"

section \<open>Restore and repair\<close>

text \<open>A one-line report into the caller's buffer.\<close>

definition report :: "nat \<Rightarrow> string \<Rightarrow> va list \<Rightarrow> string option" where
  "report out_size fmt args = (if out_size = 0 then Some [] else snprintf out_size fmt args)"

text \<open>The report followed by the status in what is left of the buffer.\<close>

definition report_status :: "'d storage \<Rightarrow> 'd vfs \<Rightarrow> nat \<Rightarrow> string \<Rightarrow> va list \<Rightarrow> string option" where
  "report_status st s out_size fmt args =
    (if out_size = 0 then Some []
     else do {
       out \<leftarrow> snprintf out_size fmt args;
       if length out < out_size
       then do { tl \<leftarrow> vfs_persist_format_status st s (out_size - length out); Some (out @ tl) }
       else Some out
     })"

text \<open>\<^verbatim>\<open>vfs_persist_restore_slot\<close> after the checks: replay the slot, then save it as the newest snapshot.\<close>

definition restore_apply :: "'d storage \<Rightarrow> 'd vfs \<Rightarrow> int \<Rightarrow> persist_meta \<Rightarrow> nat \<Rightarrow> ((errno + unit) \<times> string \<times> 'd vfs) option" where
  "restore_apply st s slot meta out_size = do {
     (apply_rc, s) \<leftarrow> persist_apply_snapshot_entries st
       (persist_set_loaded_meta (s\<lparr>persist_ready := True, persist_loading := True\<rparr>) meta) meta;
     let s = s\<lparr>persist_loading := False\<rparr>;
     (case apply_rc of
        Inl e \<Rightarrow> do {
          s \<leftarrow> persist_set_status s (Some ''Orizon data persistence restore failed: malformed snapshot entries'');
          out \<leftarrow> report out_size ''persistence restore: FAIL\<newline>reason=malformed snapshot entries slot=%d\<newline>''
            [VInt (word_of_int slot)];
          Some (Inl e, out, s) }
      | Inr _ \<Rightarrow> do {
          (save_rc, s) \<leftarrow> vfs_persist_save st s;
          let saved = (case save_rc of Inr _ \<Rightarrow> True | Inl _ \<Rightarrow> False);
          out \<leftarrow> report_status st s out_size
            ''persistence restore: %s\<newline>restored-slot=%d restored-seq=%lu promoted=%s\<newline>''
            [VPtr (Some (if saved then ''PASS'' else ''WARN'')), VInt (word_of_int slot),
             VLong (ucast (meta_sequence meta)), yes_no saved];
          Some (save_rc, out, s) })
   }"

definition vfs_persist_restore_slot :: "'d storage \<Rightarrow> 'd vfs \<Rightarrow> int \<Rightarrow> nat \<Rightarrow> ((errno + unit) \<times> string \<times> 'd vfs) option" where
  "vfs_persist_restore_slot st s slot out_size =
    (let s = vfs_init s in
     if \<not> storage_available st (dev s) then do {
       s \<leftarrow> persist_no_storage s;
       out \<leftarrow> report out_size ''persistence restore: FAIL\<newline>reason=storage unavailable\<newline>'' [];
       Some (Inl EIO, out, s) }
     else case persist_orizon_data_partition_present st s of
       (False, s) \<Rightarrow> do {
         s \<leftarrow> persist_no_partition s;
         out \<leftarrow> report out_size ''persistence restore: FAIL\<newline>reason=no Orizon data partition\<newline>'' [];
         Some (Inl EIO, out, s) }
     | (True, s) \<Rightarrow>
         if slot < 0 \<or> (word_of_int slot :: u32) \<ge> persist_slots_available s then do {
           out \<leftarrow> report out_size ''persistence restore: FAIL\<newline>reason=slot out of range slots=%lu\<newline>''
             [VLong (ucast (persist_slots_available s))];
           Some (Inl EINVAL, out, s) }
         else case persist_read_slot_meta st s (word_of_int slot) of
           (Inl _, s) \<Rightarrow> do {
             out \<leftarrow> report out_size ''persistence restore: FAIL\<newline>reason=slot %d is not a valid snapshot\<newline>''
               [VInt (word_of_int slot)];
             Some (Inl EIO, out, s) }
         | (Inr meta, s) \<Rightarrow> restore_apply st s slot meta out_size)"

text \<open>The scan skips the active slot, which reading the other slots does not change.\<close>

definition vfs_persist_restore_previous :: "'d storage \<Rightarrow> 'd vfs \<Rightarrow> nat \<Rightarrow> ((errno + unit) \<times> string \<times> 'd vfs) option" where
  "vfs_persist_restore_previous st s out_size =
    (case (if storage_available st (dev s) then persist_orizon_data_partition_present st s else (False, s)) of
       (False, s) \<Rightarrow> do {
         out \<leftarrow> report out_size ''persistence restore: FAIL\<newline>reason=no readable Orizon data slots\<newline>'' [];
         Some (Inl EIO, out, s) }
     | (True, s) \<Rightarrow>
         (case select_newest st (filter (\<lambda>slot. persist_active_slot s \<noteq> uint slot)
                  (map of_nat [0..<unat (persist_slots_available s)])) meta_zero False s of
            (previous, _, s) \<Rightarrow>
              if \<not> meta_valid previous then do {
                out \<leftarrow> report out_size ''persistence restore: FAIL\<newline>reason=no previous valid snapshot\<newline>'' [];
                Some (Inl ENOENT, out, s) }
              else vfs_persist_restore_slot st s (uint (meta_slot previous)) out_size))"

definition vfs_persist_repair :: "'d storage \<Rightarrow> 'd vfs \<Rightarrow> nat \<Rightarrow> ((errno + unit) \<times> string \<times> 'd vfs) option" where
  "vfs_persist_repair st s out_size =
    (let s = vfs_init s in
     if \<not> storage_available st (dev s) then do {
       s \<leftarrow> persist_no_storage s;
       out \<leftarrow> report out_size ''persistence repair: FAIL\<newline>reason=storage unavailable\<newline>'' [];
       Some (Inl EIO, out, s) }
     else case persist_orizon_data_partition_present st s of
       (False, s) \<Rightarrow> do {
         s \<leftarrow> persist_no_partition s;
         out \<leftarrow> report out_size ''persistence repair: FAIL\<newline>reason=no Orizon data partition\<newline>'' [];
         Some (Inl EIO, out, s) }
     | (True, s) \<Rightarrow> do {
         (rc, s) \<leftarrow> vfs_persist_save st (s\<lparr>persist_ready := True, persist_loading := False\<rparr>);
         out \<leftarrow> report_status st s out_size ''persistence repair: %s\<newline>''
           [VPtr (Some (case rc of Inr _ \<Rightarrow> ''PASS'' | Inl _ \<Rightarrow> ''FAIL''))];
         Some (rc, out, s)
       })"

section \<open>Replay stays inside the persistent directories\<close>

text \<open>The state a replay runs in, and what each of its steps keeps: the snapshot buffer, the loading flag and
  every path outside the persistent directories.\<close>

definition replay_state :: "'d vfs \<Rightarrow> bool" where
  "replay_state s \<longleftrightarrow> vfs_ok s \<and> vfs_initialized s \<and> persist_loading s \<and> length (open_files s) = MAX_OPEN"

definition replay_frame :: "'d vfs \<Rightarrow> 'd vfs \<Rightarrow> bool" where
  "replay_frame s t \<longleftrightarrow> replay_state t \<and> persist_buf t = persist_buf s \<and>
     (\<forall>p. \<not> path_should_persist p \<longrightarrow> fs_abs t p = fs_abs s p)"

lemma replay_frame_refl: "replay_state s \<Longrightarrow> replay_frame s s"
  by (simp add: replay_frame_def)

lemma replay_frame_trans: "replay_frame s t \<Longrightarrow> replay_frame t u \<Longrightarrow> replay_frame s u"
  by (simp add: replay_frame_def)

lemma create_inode_same:
  "create_inode s p ty = (r, t) \<Longrightarrow> persist_buf t = persist_buf s \<and> persist_loading t = persist_loading s \<and>
     open_files t = open_files s \<and> vfs_initialized t = vfs_initialized s"
  by (auto simp: create_inode_def Let_def split: if_splits)

lemma create_inode_frame:
  assumes "replay_state s" "length p < MAX_PATH" "path_should_persist p" "create_inode s p ty = (r, t)"
  shows "replay_frame s t"
proof -
  have "vfs_ok s" using assms(1) by (simp add: replay_state_def)
  from create_inode_spec [OF this assms(2), of ty] assms(4)
  have "vfs_ok t \<and> (\<forall>q. q \<noteq> p \<longrightarrow> fs_abs t q = fs_abs s q)" using \<open>vfs_ok s\<close> by (cases r) auto
  then show ?thesis using assms(1,3) create_inode_same [OF assms(4)] by (auto simp: replay_frame_def replay_state_def)
qed

lemma append_component_cases:
  "append_path_component cur MAX_PATH c = (True, cur') \<Longrightarrow> length cur > 1 \<Longrightarrow> length cur < MAX_PATH \<Longrightarrow>
     cur' = cur \<or> cur' = cur @ ''/'' @ c \<and> length cur' < MAX_PATH"
  by (auto simp: append_path_component_def Let_def split: if_splits)

lemma persist_extends: "path_should_persist p \<Longrightarrow> path_should_persist (p @ ''/'' @ c)"
proof -
  assume "path_should_persist p"
  moreover have "path_is_inside (p @ ''/'' @ c) r" if "path_is_inside p r" for r
  proof -
    from that obtain t where "p = r @ t" "t = [] \<or> hd t = CHR ''/''" by (auto simp: inside_iff)
    then show ?thesis unfolding inside_iff by (intro exI [of _ "t @ ''/'' @ c"]) (cases t, auto)
  qed
  ultimately show ?thesis by (auto simp: path_should_persist_def)
qed

lemma persist_length: "path_should_persist p \<Longrightarrow> 1 < length p"
  by (auto simp: path_should_persist_def inside_iff)

lemma ensure_loop_frame:
  "ensure_loop s cur p = (r, t) \<Longrightarrow> replay_state s \<Longrightarrow> path_should_persist cur \<Longrightarrow> length cur < MAX_PATH \<Longrightarrow> replay_frame s t"
proof (induction "length p" arbitrary: s cur p rule: less_induct)
  case less
  define c where "c = takeWhile (\<lambda>x. x \<noteq> CHR ''/'') p"
  define rest where "rest = dropWhile (\<lambda>x. x \<noteq> CHR ''/'') p"
  define p' where "p' = dropWhile (\<lambda>x. x = CHR ''/'') rest"
  show ?case
  proof (cases "p = [] \<or> rest = []")
    case True
    then have "t = s" using less.prems(1) by (simp add: ensure_loop.simps [of s cur p] Let_def rest_def)
    then show ?thesis using less.prems(2) by (simp add: replay_frame_refl)
  next
    case False
    then have "CHR ''/'' \<in> set p" by (auto simp: rest_def)
    then have short: "length p' < length p" unfolding p'_def rest_def by (rule dropWhile_component_shorter)
    obtain b cur' where ap: "append_path_component cur MAX_PATH c = (b, cur')" by (cases "append_path_component cur MAX_PATH c")
    have e: "ensure_loop s cur p = (if \<not> b then (Inl ENAMETOOLONG, s) else
        (case find_inode s cur' of Some _ \<Rightarrow> ensure_loop s cur' p'
         | None \<Rightarrow> (case create_inode s cur' 1 of (Inl _, u) \<Rightarrow> (Inl ENOENT, u) | (Inr _, u) \<Rightarrow> ensure_loop u cur' p')))"
      unfolding ensure_loop.simps [of s cur p] Let_def c_def [symmetric] rest_def [symmetric] p'_def [symmetric] ap
      using False by (cases b) simp_all
    show ?thesis
    proof (cases b)
      case False
      then show ?thesis using e less.prems(1,2) by (simp add: replay_frame_refl)
    next
      case True
      have cur': "path_should_persist cur'" "length cur' < MAX_PATH"
        using append_component_cases [of cur c cur'] ap True less.prems(3,4) persist_length persist_extends by auto
      note IH = less.hyps [OF short _ _ cur']
      obtain r1 u where cr: "create_inode s cur' 1 = (r1, u)" by (cases "create_inode s cur' 1")
      have fu: "replay_frame s u" by (rule create_inode_frame [OF less.prems(2) cur'(2,1) cr])
      then have "replay_state u" by (simp add: replay_frame_def)
      show ?thesis
      proof (cases "find_inode s cur'")
        case None
        show ?thesis
        proof (cases r1)
          case (Inl x)
          then show ?thesis using e True None cr less.prems(1) fu by simp
        next
          case (Inr x)
          then have "ensure_loop u cur' p' = (r, t)" using e True None cr less.prems(1) by simp
          from IH [OF this \<open>replay_state u\<close>] show ?thesis by (rule replay_frame_trans [OF fu])
        qed
      next
        case (Some i)
        then have "ensure_loop s cur' p' = (r, t)" using e True less.prems(1) by simp
        then show ?thesis by (rule IH [OF _ less.prems(2)])
      qed
    qed
  qed
qed

lemma persist_root:
  assumes "path_should_persist p"
  obtains nm t where "p = CHR ''/'' # nm @ t" "t = [] \<or> hd t = CHR ''/''" "CHR ''/'' \<notin> set nm" "nm \<noteq> []" "length nm < 10"
    "path_should_persist (CHR ''/'' # nm)"
proof -
  have "\<exists>nm\<in>{''workspace'', ''home'', ''system'', ''packages'', ''logs''}. \<exists>t. p = CHR ''/'' # nm @ t \<and> (t = [] \<or> hd t = CHR ''/'')"
    using assms by (auto simp: path_should_persist_def inside_iff)
  then obtain nm t where n: "nm \<in> {''workspace'', ''home'', ''system'', ''packages'', ''logs''}" "p = CHR ''/'' # nm @ t"
    "t = [] \<or> hd t = CHR ''/''" by blast
  have "CHR ''/'' \<notin> set nm" "nm \<noteq> []" "length nm < 10" "path_should_persist (CHR ''/'' # nm)"
    using n(1) by (auto simp: path_should_persist_def path_is_inside_def)
  then show thesis using that n by blast
qed

lemma ensure_parent_dirs_frame:
  assumes s: "replay_state s" and p: "path_should_persist path"
  shows "replay_frame s (snd (ensure_parent_dirs s path))"
proof -
  obtain nm t where n: "path = CHR ''/'' # nm @ t" "t = [] \<or> hd t = CHR ''/''" "CHR ''/'' \<notin> set nm" "nm \<noteq> []" "length nm < 10"
    "path_should_persist (CHR ''/'' # nm)" using persist_root [OF p] by blast
  let ?cur = "CHR ''/'' # nm"
  have tw: "takeWhile (\<lambda>x. x \<noteq> CHR ''/'') (nm @ t) = nm" "dropWhile (\<lambda>x. x \<noteq> CHR ''/'') (nm @ t) = t"
    using n(2,3) by (auto simp: takeWhile_append dropWhile_append takeWhile_eq_Nil_iff dropWhile_eq_self_iff)
  have ap: "append_path_component ''/'' MAX_PATH nm = (True, ?cur)"
    using n(4,5) by (simp add: append_path_component_def Let_def MAX_PATH_def)
  have len: "length ?cur < MAX_PATH" using n(5) by (simp add: MAX_PATH_def)
  have e: "ensure_parent_dirs s path = ensure_loop s ''/'' (nm @ t)" by (simp add: ensure_parent_dirs_def n(1))
  show ?thesis
  proof (cases "t = []")
    case True
    then have "snd (ensure_parent_dirs s path) = s" unfolding e ensure_loop.simps [of s "''/''"] tw Let_def by simp
    then show ?thesis using s by (simp add: replay_frame_refl)
  next
    case False
    define p' where "p' = dropWhile (\<lambda>x. x = CHR ''/'') t"
    have e2: "ensure_loop s ''/'' (nm @ t) =
        (case find_inode s ?cur of Some _ \<Rightarrow> ensure_loop s ?cur p'
         | None \<Rightarrow> (case create_inode s ?cur 1 of (Inl _, u) \<Rightarrow> (Inl ENOENT, u) | (Inr _, u) \<Rightarrow> ensure_loop u ?cur p'))"
      using False unfolding ensure_loop.simps [of s "''/''" "nm @ t"] tw Let_def ap p'_def by simp
    obtain r1 u where cr: "create_inode s ?cur 1 = (r1, u)" by (cases "create_inode s ?cur 1")
    have fu: "replay_frame s u" by (rule create_inode_frame [OF s len n(6) cr])
    have go: "replay_frame v (snd (ensure_loop v ?cur p'))" if "replay_state v" for v
      using ensure_loop_frame [OF _ that n(6) len] by (cases "ensure_loop v ?cur p'") auto
    show ?thesis
    proof (cases "find_inode s ?cur")
      case None
      then show ?thesis using e e2 cr fu go [of u] replay_frame_trans [OF fu] by (cases r1) (auto simp: replay_frame_def)
    next
      case (Some i)
      then show ?thesis using e e2 go [OF s] by simp
    qed
  qed
qed

lemma vfs_open_same:
  assumes "vfs_initialized s" "vfs_open s path flags = (r, t)"
  shows "persist_buf t = persist_buf s \<and> persist_loading t = persist_loading s \<and> vfs_initialized t = vfs_initialized s \<and>
    length (open_files t) = length (open_files s)"
proof -
  obtain r1 u where l: "open_lookup s path flags = (r1, u)" by (cases "open_lookup s path flags")
  have u: "persist_buf u = persist_buf s \<and> persist_loading u = persist_loading s \<and> vfs_initialized u = vfs_initialized s \<and>
    open_files u = open_files s"
    using l create_inode_same [of s path 0]
    by (auto simp: open_lookup_def split: option.splits if_splits prod.splits sum.splits)
  show ?thesis
  proof (cases "free_handle s")
    case (Some fd)
    show ?thesis
      using assms Some l u unfolding vfs_open_def vfs_init_id [OF assms(1)] Let_def
      by (cases r1) (auto simp: truncate_inode_def Let_def split: if_split_asm)
  qed (use assms in \<open>simp add: vfs_open_def vfs_init_id\<close>)
qed

lemma vfs_write_same:
  assumes "vfs_write s hd0 buf = Some (r, t)"
  shows "persist_buf t = persist_buf s \<and> persist_loading t = persist_loading s \<and> vfs_initialized t = vfs_initialized s \<and>
    length (open_files t) = length (open_files s)"
proof -
  have g: "persist_buf u = persist_buf s \<and> persist_loading u = persist_loading s \<and> vfs_initialized u = vfs_initialized s \<and>
    open_files u = open_files s" if "grow_inode s i n = Some (b, u)" for i n b u
  proof -
    from that obtain x h where "kmalloc (heap s) (align4096 n) = Some (x, h)"
      by (auto simp: grow_inode_def Let_def bind_eq_Some_conv)
    then show ?thesis using that by (cases x) (auto simp: grow_inode_def Let_def)
  qed
  show ?thesis
  proof (cases hd0)
    case (Some fd)
    then show ?thesis using assms g unfolding vfs_write_def
      by (auto simp: Let_def bind_eq_Some_conv store_bytes_def split: if_split_asm)
  qed (use assms in \<open>simp add: vfs_write_def\<close>)
qed

text \<open>Writing one file of the snapshot: it always returns, and only that path changes.\<close>

lemma put_file_frame:
  assumes s: "replay_state s" and p: "path_should_persist path" "length path < MAX_PATH" "length buf < 2 ^ 60"
    and fl: "flags AND O_APPEND = 0"
  shows "\<exists>t. put_file st s path flags buf = Some t \<and> replay_frame s t"
proof -
  note S = s [unfolded replay_state_def]
  obtain r u where op: "vfs_open s path flags = (r, u)" by (cases "vfs_open s path flags")
  note same1 = vfs_open_same [OF conjunct1 [OF conjunct2 [OF S]] op]
  show ?thesis
  proof (cases r)
    case None
    have "u = s \<or> (\<exists>e. create_inode s path 0 = (Inl e, u))"
      using vfs_open_fails [of s path flags u] op None S tab_okD(1) [OF vfs_okD(1)] by blast
    then have "u = s" using create_inode_spec [of s path 0] S p(2) by auto
    then show ?thesis using op None replay_frame_refl [OF s] by (simp add: put_file_def)
  next
    case (Some fd)
    from vfs_open_spec [of s path flags fd u] S p(2) op Some fl obtain c where
      u: "vfs_ok u" "fs_abs u = (fs_abs s)(path \<mapsto> AFile c)" "opened u fd path 0" by auto
    have fc: "fs_abs u path = Some (AFile c)" by (simp add: u(2))
    have "\<exists>r2 v. vfs_write u (Some fd) buf = Some (r2, v) \<and> vfs_ok v \<and> file_valid (open_files v ! fd) \<and> (\<forall>q. q \<noteq> path \<longrightarrow> fs_abs v q = fs_abs u q)"
    proof (cases "buf = []")
      case True
      then show ?thesis using u by (simp add: vfs_write_def opened_def)
    next
      case False
      have b: "0 + length buf < 2 ^ 61" using p(3) by simp
      from vfs_write_spec [OF u(1,3) fc False b] obtain r2 v where "vfs_write u (Some fd) buf = Some (r2, v)" "vfs_ok v"
        and c: "case r2 of Inl e \<Rightarrow> e = ENOMEM \<and> fs_abs v = fs_abs u \<and> open_files v = open_files u
          | Inr n \<Rightarrow> n = length buf \<and> open_files v = (open_files u)[fd := (open_files u ! fd)\<lparr>file_pos := 0 + length buf\<rparr>] \<and>
             (\<exists>c'. spliced c 0 buf c' \<and> fs_abs v = (fs_abs u)(path \<mapsto> AFile c'))" by blast
      then show ?thesis using u(3) by (cases r2) (auto simp: opened_def)
    qed
    then obtain r2 v where v: "vfs_write u (Some fd) buf = Some (r2, v)" "vfs_ok v" "file_valid (open_files v ! fd)"
      "\<And>q. q \<noteq> path \<Longrightarrow> fs_abs v q = fs_abs u q" by blast
    note same2 = vfs_write_same [OF v(1)]
    define w where "w = v\<lparr>open_files := (open_files v)[fd := (open_files v ! fd)\<lparr>file_valid := False\<rparr>]\<rparr>"
    have cl: "vfs_close st v (Some fd) = Some w"
      using v(3) same1 same2 S by (simp add: vfs_close_def Let_def w_def)
    have "fs_abs v q = fs_abs s q" if "\<not> path_should_persist q" for q
      using that p(1) v(4) [of q] u(2) by (cases "q = path") auto
    then have "replay_frame s w"
      using v(2) same1 same2 S by (auto simp: replay_frame_def replay_state_def w_def)
    then show ?thesis using op Some v(1) cl by (simp add: put_file_def)
  qed
qed

lemma apply_entry_frame:
  assumes s: "replay_state s" and p: "length path < MAX_PATH" "length buf < 2 ^ 60"
  shows "\<exists>b t. apply_entry st s ty path buf = Some (b, t) \<and> replay_frame s t \<and> (b \<longrightarrow> ty \<noteq> 0 \<and> ty \<noteq> 1)"
proof (cases "\<not> path_should_persist path \<or> path_is_persistent_root path")
  case True
  then show ?thesis using replay_frame_refl [OF s] by (auto simp: apply_entry_def)
next
  case False
  define u where "u = snd (ensure_parent_dirs s path)"
  have pp: "path_should_persist path" using False by blast
  have fu: "replay_frame s u" unfolding u_def by (rule ensure_parent_dirs_frame [OF s pp])
  then have su: "replay_state u" by (simp add: replay_frame_def)
  have ap: "apply_entry st s ty path buf =
      (if ty = 1 then Some (False, if find_inode u path = None then snd (create_inode u path 1) else u)
       else if ty = 0 then do { s \<leftarrow> put_file st u path (O_CREAT OR O_WRONLY OR O_TRUNC) buf; Some (False, s) } else Some (True, u))"
    using False by (simp add: apply_entry_def u_def [symmetric])
  have "(O_CREAT OR O_WRONLY OR O_TRUNC) AND O_APPEND = 0" by (simp add: O_CREAT_def O_WRONLY_def O_TRUNC_def O_APPEND_def)
  from put_file_frame [OF su pp p this] obtain t where t: "put_file st u path (O_CREAT OR O_WRONLY OR O_TRUNC) buf = Some t"
    "replay_frame u t" by blast
  have c: "replay_frame u (snd (create_inode u path 1))"
    using create_inode_frame [OF su p(1) pp] by (cases "create_inode u path 1") auto
  have "replay_frame u (if find_inode u path = None then snd (create_inode u path 1) else u)"
    using c replay_frame_refl [OF su] by simp
  then show ?thesis using ap t replay_frame_trans [OF fu] fu by auto
qed

lemma decode_entry_bounds:
  assumes "decode_entry buf limit offset = Some (ty, path, bs, offset')"
  shows "length path < MAX_PATH" "length bs < 2 ^ 60" "offset < offset'" "offset' \<le> limit"
proof -
  define pl where "pl = unat (get_u16 buf (offset + 1))"
  define ds where "ds = unat (get_u32 buf (offset + 3))"
  have d: "pl \<noteq> 0" "pl < MAX_PATH" "offset + 7 + pl + ds \<le> limit" "offset' = offset + 7 + pl + ds" "length bs = ds"
    "path = map (\<lambda>b. char_of (unat b)) (takeWhile (\<lambda>b. b \<noteq> 0) (mem_read buf (offset + 7) pl))"
    using assms by (auto simp: decode_entry_def Let_def pl_def ds_def split: if_splits)
  have "length path \<le> pl" using length_takeWhile_le [of "\<lambda>b. b \<noteq> 0" "mem_read buf (offset + 7) pl"] by (simp add: d(6))
  then show "length path < MAX_PATH" using d(2) by simp
  have "ds < 2 ^ 32" unfolding ds_def using unsigned_less [of "get_u32 buf (offset + 3)", where 'a = nat] by simp
  then show "length bs < 2 ^ 60" using d(5) by simp
  show "offset < offset'" "offset' \<le> limit" using d by simp_all
qed

lemma apply_entries_frame:
  "replay_state s \<Longrightarrow> \<exists>b t. apply_entries n st limit offset mal s = Some (b, t) \<and> replay_frame s t"
proof (induction n arbitrary: offset mal s)
  case 0
  then show ?case by (simp add: replay_frame_refl)
next
  case (Suc n)
  show ?case
  proof (cases "decode_entry (persist_buf s) limit offset")
    case None
    then show ?thesis using Suc.prems by (auto simp: replay_frame_refl)
  next
    case (Some e)
    obtain ty path bs off' where e: "e = (ty, path, bs, off')" by (cases e)
    note b = decode_entry_bounds [OF Some [unfolded e]]
    from apply_entry_frame [OF Suc.prems b(1,2)] obtain x u where u: "apply_entry st s ty path bs = Some (x, u)" "replay_frame s u" by blast
    from Suc.IH [of u off' "mal \<or> x"] u(2) obtain y t where "apply_entries n st limit off' (mal \<or> x) u = Some (y, t)" "replay_frame u t"
      by (auto simp: replay_frame_def)
    then show ?thesis using Some e u replay_frame_trans by auto
  qed
qed

section \<open>The clearing before a replay\<close>

lemma persistent_root_iff: "path_is_persistent_root p \<longleftrightarrow> p \<in> set persistent_roots"
  by (simp add: path_is_persistent_root_def persistent_roots_def)

lemma inside_root_below_path: "inside_root p \<longleftrightarrow> (\<exists>r\<in>set persistent_roots. below_path p r)"
  unfolding inside_root_iff persistent_root_iff below_path_def inside_split by auto

lemma clear_roots_emptied:
  "vfs_ok s \<Longrightarrow> links_ok s \<Longrightarrow> settled s \<Longrightarrow> set rs \<subseteq> set persistent_roots \<Longrightarrow>
   \<exists>t. clear_roots s rs = Some t \<and> vfs_ok t \<and> links_ok t \<and> settled t \<and> clear_frame s t \<and>
     fs_abs t = (\<lambda>p. if \<exists>r\<in>set rs. below_path p r then None else fs_abs s p)"
proof (induction rs arbitrary: s)
  case (Cons r rs)
  then have "path_is_persistent_root r" by (simp add: persistent_root_iff)
  from clear_directory_emptied [OF Cons.prems(1-3) this] obtain u where
    u: "clear_directory_contents s r = Some u" "emptied s r u" by blast
  from Cons.IH [of u] u(2) Cons.prems(4) obtain t where t: "clear_roots u rs = Some t" "vfs_ok t" "links_ok t" "settled t"
    "clear_frame u t" "fs_abs t = (\<lambda>p. if \<exists>r\<in>set rs. below_path p r then None else fs_abs u p)" by (auto simp: emptied_def)
  have "fs_abs t = (\<lambda>p. if \<exists>r\<in>set (r # rs). below_path p r then None else fs_abs s p)"
    using u(2) t(6) by (auto simp: emptied_def fun_eq_iff)
  moreover have "clear_frame s t" using u(2) t(5) clear_frame_trans by (auto simp: emptied_def)
  ultimately show ?case using u(1) t by simp
qed simp

lemma clear_roots_exact:
  assumes "replay_state s" "links_ok s" "settled s"
  shows "\<exists>t. clear_roots s persistent_roots = Some t \<and> replay_state t \<and>
    fs_abs t = (\<lambda>p. if inside_root p then None else fs_abs s p)"
proof -
  have "vfs_ok s" using assms(1) by (simp add: replay_state_def)
  from clear_roots_emptied [OF this assms(2,3) subset_refl] show ?thesis
    using assms(1) by (auto simp: replay_state_def clear_frame_def inside_root_below_path)
qed

section \<open>The default files after a replay\<close>

text \<open>What the whole replay keeps: every path outside the persistent directories, except that \<^verbatim>\<open>/tmp\<close> is created
  when it is missing.\<close>

definition outer_frame :: "'d vfs \<Rightarrow> 'd vfs \<Rightarrow> bool" where
  "outer_frame s t \<longleftrightarrow> replay_state t \<and> (\<forall>p. \<not> path_should_persist p \<and> p \<noteq> ''/tmp'' \<longrightarrow> fs_abs t p = fs_abs s p) \<and>
     (fs_abs t ''/tmp'' = fs_abs s ''/tmp'' \<or> fs_abs s ''/tmp'' = None \<and> fs_abs t ''/tmp'' = Some ADir)"

lemma outer_frame_trans: "outer_frame s t \<Longrightarrow> outer_frame t u \<Longrightarrow> outer_frame s u"
  by (auto simp: outer_frame_def)

lemma outer_frame_refl: "replay_state s \<Longrightarrow> outer_frame s s"
  by (simp add: outer_frame_def)

lemma outer_frame_inner: "replay_frame s t \<Longrightarrow> outer_frame s t"
  by (simp add: outer_frame_def replay_frame_def path_should_persist_def path_is_inside_def)

lemma outer_frameD: "outer_frame s t \<Longrightarrow> replay_state t"
  by (simp add: outer_frame_def)

definition default_dir :: "string \<Rightarrow> bool" where
  "default_dir p \<longleftrightarrow> length p < MAX_PATH \<and> (path_should_persist p \<or> p = ''/tmp'')"

lemma mkdir_frame:
  assumes s: "replay_state s" and p: "default_dir p"
  shows "\<exists>r t. vfs_mkdir st s p = Some (r, t) \<and> outer_frame s t"
proof -
  have S: "vfs_ok s" "vfs_initialized s" using s by (simp_all add: replay_state_def)
  have len: "length p < MAX_PATH" using p by (simp add: default_dir_def)
  from vfs_create_mkdir_spec [OF S len, of 1 "vfs_mkdir st s p" st] obtain e t where
    t: "vfs_mkdir st s p = Some (e, t)" "vfs_ok t" and c: "case e of
       Inr i \<Rightarrow> p \<notin> dom (fs_abs s) \<and> (\<exists>s1. create_inode s p 1 = (Inr i, s1) \<and> fs_same s1 t) \<and> fs_abs t = (fs_abs s)(p \<mapsto> ADir)
     | Inl e \<Rightarrow> t = s" by (fastforce split: sum.splits)
  show ?thesis
  proof (cases e)
    case (Inl x)
    then show ?thesis using t c outer_frame_refl [OF s] by simp
  next
    case (Inr i)
    then obtain s1 where s1: "create_inode s p 1 = (Inr i, s1)" "fs_same s1 t" "p \<notin> dom (fs_abs s)" "fs_abs t = (fs_abs s)(p \<mapsto> ADir)"
      using c by auto
    have "replay_state t" using create_inode_same [OF s1(1)] s1(2) s t(2) by (simp add: replay_state_def fs_same_def)
    then have "outer_frame s t" using s1(3,4) p by (auto simp: outer_frame_def default_dir_def)
    then show ?thesis using t(1) by blast
  qed
qed

lemma mkdirs_frame:
  "replay_state s \<Longrightarrow> list_all default_dir ps \<Longrightarrow> \<exists>t. mkdirs st s ps = Some t \<and> outer_frame s t"
proof (induction ps arbitrary: s)
  case (Cons p ps)
  then obtain r u where u: "vfs_mkdir st s p = Some (r, u)" "outer_frame s u" using mkdir_frame [of s p st] by auto
  from Cons.IH [OF outer_frameD [OF u(2)]] Cons.prems(2) u outer_frame_trans [OF u(2)] show ?case by auto
qed (simp add: outer_frame_refl)

definition default_file :: "string \<times> string \<Rightarrow> bool" where
  "default_file f \<longleftrightarrow> path_should_persist (fst f) \<and> length (fst f) < MAX_PATH \<and> length (snd f) < 2 ^ 60"

lemma default_file_frame:
  assumes "replay_state s" "default_file f"
  shows "\<exists>t. vfs_write_default_file st s f = Some t \<and> outer_frame s t"
proof (cases "vfs_exists s (fst f)")
  case True
  then show ?thesis using outer_frame_refl [OF assms(1)] by (cases f) (simp add: vfs_write_default_file_def)
next
  case False
  have "(O_CREAT OR O_WRONLY) AND O_APPEND = 0" by (simp add: O_CREAT_def O_WRONLY_def O_APPEND_def)
  from put_file_frame [OF assms(1) _ _ _ this, of "fst f" "map of_char (snd f)" st] assms(2)
  obtain t where "put_file st s (fst f) (O_CREAT OR O_WRONLY) (map of_char (snd f)) = Some t" "replay_frame s t"
    by (auto simp: default_file_def)
  then show ?thesis using False outer_frame_inner by (cases f) (auto simp: vfs_write_default_file_def)
qed

lemma default_files_frame:
  "replay_state s \<Longrightarrow> list_all default_file fs \<Longrightarrow> \<exists>t. write_default_files st s fs = Some t \<and> outer_frame s t"
proof (induction fs arbitrary: s)
  case (Cons f fs)
  then obtain u where u: "vfs_write_default_file st s f = Some u" "outer_frame s u" using default_file_frame [of s f st] by auto
  from Cons.IH [OF outer_frameD [OF u(2)]] Cons.prems(2) u outer_frame_trans [OF u(2)] show ?case by auto
qed (simp add: outer_frame_refl)

lemma default_data_frame:
  assumes "replay_state s"
  shows "\<exists>t. persist_write_default_data_files st s = Some t \<and> outer_frame s t"
proof -
  have dirs: "list_all default_dir data_roots" "default_dir ''/system/firmware''"
    by (simp_all add: data_roots_def default_dir_def path_should_persist_def path_is_inside_def MAX_PATH_def)
  have files: "default_file data_layout" "list_all default_file
       ([(''/system/hostname'', ''orizon-os''), (''/system/version'', ''core-x86_64''),
         (''/system/profile'', ''minimal-development\<newline>'')] @ common_files)"
    by (simp_all add: data_layout_def common_files_def default_file_def path_should_persist_def path_is_inside_def MAX_PATH_def)
  obtain a where a: "vfs_ensure_data_roots st s = Some a" "outer_frame s a"
    using mkdirs_frame [OF assms dirs(1)] by (auto simp: vfs_ensure_data_roots_def)
  obtain b where b: "vfs_write_default_file st a data_layout = Some b" "outer_frame a b"
    using default_file_frame [OF outer_frameD [OF a(2)] files(1)] by blast
  obtain r c where c: "vfs_mkdir st b ''/system/firmware'' = Some (r, c)" "outer_frame b c"
    using mkdir_frame [OF outer_frameD [OF b(2)] dirs(2)] by blast
  from default_files_frame [OF outer_frameD [OF c(2)] files(2), of st] obtain t where
    t: "write_default_files st c ([(''/system/hostname'', ''orizon-os''), (''/system/version'', ''core-x86_64''),
         (''/system/profile'', ''minimal-development\<newline>'')] @ common_files) = Some t" "outer_frame c t" by blast
  have "persist_write_default_data_files st s = Some t"
    unfolding persist_write_default_data_files_def a(1) b(1) c(1) t(1) Option.bind.bind_lunit by (simp add: b(1) c(1) t(1) [simplified])
  moreover have "outer_frame s t" using a(2) b(2) c(2) t(2) outer_frame_trans by blast
  ultimately show ?thesis by blast
qed

section \<open>Replay decodes what a save encodes\<close>

lemma get_u16_read: "mem_read m p 2 = le16 v \<Longrightarrow> get_u16 m p = v"
  by (rule get_u16_le) (simp_all add: mem_read_def le16_def upt_rec)

lemma get_u32_read: "mem_read m p 4 = le32 v \<Longrightarrow> get_u32 m p = v"
  by (rule get_u32_le) (simp_all add: mem_read_def le32_def upt_rec numeral_3_eq_3)

lemma unat_of_char [simp]: "unat (of_char c :: byte) = of_char c"
proof -
  have "(of_char c :: byte) = of_nat (of_char c)" by (simp only: of_nat_of_char)
  then show ?thesis by (simp add: unsigned_of_nat take_bit_eq_mod)
qed

lemma of_char_byte_0: "(of_char c :: byte) = 0 \<longleftrightarrow> c = CHR 0x00"
proof -
  have "(of_char c :: byte) = 0 \<longleftrightarrow> of_char c = (of_char (CHR 0x00) :: nat)"
    using unat_eq_zero [of "of_char c :: byte"] by simp
  then show ?thesis by (simp only: of_char_eq_iff)
qed

lemma decode_encode:
  assumes m: "mem_read m off (length (encode_entry ty path content)) = encode_entry ty path content"
    and ty: "ty = 0 \<or> ty = 1" and path: "path \<noteq> []" "length path < MAX_PATH" "CHR 0x00 \<notin> set path"
    and c: "length content < 2 ^ 32" and lim: "off + length (encode_entry ty path content) \<le> limit"
  shows "decode_entry m limit off = Some (ty, path, content, off + length (encode_entry ty path content))"
proof -
  have len: "length (encode_entry ty path content) = 1 + (2 + (4 + (length path + length content)))"
    by (simp add: encode_entry_def)
  have m2: "mem_read m off (1 + (2 + (4 + (length path + length content)))) = encode_entry ty path content"
    using m by (simp only: len)
  have m3: "mem_read m off 1 @ mem_read m (off + 1) 2 @ mem_read m (off + 3) 4 @ mem_read m (off + 7) (length path) @
      mem_read m (off + 7 + length path) (length content) =
    [word_of_int ty] @ le16 (of_nat (length path)) @ le32 (of_nat (length content)) @ map of_char path @ content"
    using m2 unfolding mem_read_append encode_entry_def by (simp add: numeral_3_eq_3 ac_simps)
  have parts: "mem_read m off 1 = [word_of_int ty]" "mem_read m (off + 1) 2 = le16 (of_nat (length path))"
    "mem_read m (off + 3) 4 = le32 (of_nat (length content))" "mem_read m (off + 7) (length path) = map of_char path"
    "mem_read m (off + 7 + length path) (length content) = content"
    using m3 by (simp_all add: append_eq_append_conv del: append.simps One_nat_def)
  have "uint (m off) = ty" using parts(1) ty by (auto simp: mem_read_def)
  moreover have "unat (get_u16 m (off + 1)) = length path"
    using get_u16_read [OF parts(2)] path(2) by (simp add: MAX_PATH_def unsigned_of_nat take_bit_eq_mod)
  moreover have "unat (get_u32 m (off + 3)) = length content"
    using get_u32_read [OF parts(3)] c by (simp add: unsigned_of_nat take_bit_eq_mod)
  moreover have "takeWhile (\<lambda>b. b \<noteq> (0 :: byte)) (map of_char path) = map of_char path"
    using path(3) by (auto simp: takeWhile_eq_all_conv of_char_byte_0)
  then have "map (\<lambda>b. char_of (unat b)) (takeWhile (\<lambda>b. b \<noteq> (0 :: byte)) (map of_char path)) = path"
    by (simp only:) (simp add: comp_def)
  ultimately show ?thesis
    using path(1,2) lim parts(4,5) by (simp add: decode_entry_def Let_def len ac_simps)
qed

text \<open>The nodes of a snapshot, applied one after the other.\<close>

fun replay_nodes :: "'d storage \<Rightarrow> kheap \<Rightarrow> inode list \<Rightarrow> 'd vfs \<Rightarrow> 'd vfs option" where
  "replay_nodes st h [] s = Some s"
| "replay_nodes st h (n # ns) s = do {
     (_, s) \<leftarrow> apply_entry st s (node_type n) (node_path n) (node_payload h n);
     replay_nodes st h ns s
   }"

definition node_fits :: "kheap \<Rightarrow> inode \<Rightarrow> bool" where
  "node_fits h n \<longleftrightarrow> (node_type n = 0 \<or> node_type n = 1) \<and> node_path n \<noteq> [] \<and> length (node_path n) < MAX_PATH \<and>
     CHR 0x00 \<notin> set (node_path n) \<and> length (node_payload h n) < 2 ^ 32"

lemma apply_entries_replay:
  assumes "replay_state s" "list_all (node_fits h) ns"
    and "mem_read (persist_buf s) off (length (concat (map (entry_bytes h) ns))) = concat (map (entry_bytes h) ns)"
    and "off + length (concat (map (entry_bytes h) ns)) \<le> limit"
  shows "\<exists>t. replay_nodes st h ns s = Some t \<and> apply_entries (length ns) st limit off False s = Some (False, t) \<and> replay_frame s t"
  using assms
proof (induction ns arbitrary: s off)
  case Nil
  then show ?case by (simp add: replay_frame_refl)
next
  case (Cons n ns)
  let ?e = "entry_bytes h n" and ?es = "concat (map (entry_bytes h) ns)"
  have nf: "node_fits h n" "list_all (node_fits h) ns" using Cons.prems(2) by simp_all
  have rd: "mem_read (persist_buf s) off (length ?e) = ?e" "mem_read (persist_buf s) (off + length ?e) (length ?es) = ?es"
    using Cons.prems(3) by (simp_all add: mem_read_append)
  have d: "decode_entry (persist_buf s) limit off = Some (node_type n, node_path n, node_payload h n, off + length ?e)"
    unfolding entry_bytes_def
    by (rule decode_encode) (use nf(1) rd(1) Cons.prems(4) in \<open>simp_all add: node_fits_def entry_bytes_def\<close>)
  have "length (node_payload h n) < 2 ^ 60" using nf(1) by (simp add: node_fits_def)
  with apply_entry_frame [OF Cons.prems(1), of "node_path n" "node_payload h n" st "node_type n"] nf(1)
  obtain u where u: "apply_entry st s (node_type n) (node_path n) (node_payload h n) = Some (False, u)" "replay_frame s u"
    by (auto simp: node_fits_def)
  then have su: "replay_state u" "persist_buf u = persist_buf s" by (simp_all add: replay_frame_def)
  from Cons.IH [OF su(1) nf(2), of "off + length ?e"] rd(2) su(2) Cons.prems(4) obtain t where
    t: "replay_nodes st h ns u = Some t" "apply_entries (length ns) st limit (off + length ?e) False u = Some (False, t)" "replay_frame u t"
    by auto
  then show ?case using d u replay_frame_trans by auto
qed

definition saved_nodes :: "'d vfs \<Rightarrow> inode list" where
  "saved_nodes s = persisted_dirs s @ persisted_files s"

lemma saved_nodes_fit:
  assumes ok: "vfs_ok s" and nul: "\<And>p. p \<in> dom (fs_abs s) \<Longrightarrow> CHR 0x00 \<notin> set p"
  shows "list_all (node_fits (heap s)) (saved_nodes s)"
  unfolding list_all_iff
proof
  note t = vfs_okD(1) [OF ok]
  fix n assume "n \<in> set (saved_nodes s)"
  then have n: "n \<in> set (take (inode_count s) (inodes s))" "node_type n = 0 \<or> node_type n = 1" "path_should_persist (node_path n)"
    by (auto simp: saved_nodes_def persisted_dirs_def persisted_files_def)
  then obtain i where i: "i < inode_count s" "n = inodes s ! i" by (auto simp: in_set_conv_nth)
  have nk: "node_ok (heap s) n" using data_okD(2) [OF vfs_okD(2) [OF ok] i(1)] i(2) by simp
  have "node_size n \<le> HEAP_SIZE"
  proof (cases "node_data n")
    case None
    then show ?thesis using nk by (simp add: node_ok_def)
  next
    case (Some p)
    then obtain m where "heap_owns (heap s) p m" "node_size n \<le> m" using nk by (auto simp: node_ok_def)
    then show ?thesis using owns_header(5) [of "heap s" p m] by simp
  qed
  then have "length (node_payload (heap s) n) < 2 ^ 32" using nk by (simp add: node_payload_def HEAP_SIZE_def)
  moreover have "CHR 0x00 \<notin> set (node_path n)" using nul fs_abs_nth [OF t i(1)] i(2) by blast
  ultimately show "node_fits (heap s) n"
    using n(2) persist_length [OF n(3)] tab_okD(8) [OF t i(1)] i(2) by (auto simp: node_fits_def)
qed

section \<open>Properties\<close>

definition home_vfs :: "'d \<Rightarrow> 'd vfs" where
  "home_vfs d = (vfs_boot d)\<lparr>inodes := [plain_node [] ''/'' 1 None, plain_node ''home'' ''/home'' 1 (Some 0),
       plain_node ''x'' ''/home/x'' 0 (Some 1)] @ replicate 253 null_inode,
     inode_count := 3, heap := kmalloc_init kheap_boot, vfs_initialized := True\<rparr>"

lemma home_vfs_ok: "vfs_ok (home_vfs d)"
proof -
  have h: "heap_ok (kmalloc_init kheap_boot)"
    using kmalloc_init_abs [of kheap_boot] by (auto simp: heap_ok_def kheap_boot_def)
  have all3: "(\<forall>i<3::nat. P i) \<longleftrightarrow> P 0 \<and> P 1 \<and> P 2" for P
    by (auto simp: numeral_eq_Suc less_Suc_eq)
  show ?thesis
    by (simp add: home_vfs_def vfs_ok_def tab_ok_def data_ok_def node_ok_def plain_node_def all3 h MAX_FILES_def MAX_PATH_def)
qed

text \<open>C38: Replaying a valid snapshot with \<^verbatim>\<open>persist_apply_snapshot_entries\<close> is confined, whatever bytes the snapshot
  buffer holds. Take a tree in which every directory strictly inside the five persistent directories that
  has children sits at an index no larger than the number of nodes that are not strictly inside them. Then
  clearing removes exactly the nodes strictly inside the persistent directories; the whole replay returns,
  keeps the file system well formed, and leaves every path outside the persistent directories as it was,
  except that \<^verbatim>\<open>/tmp\<close> is created when it is missing. A corrupt or crafted snapshot cannot reach the rest of
  the tree. Without the condition on the indices the clearing itself can remove an unrelated file.\<close>

theorem replay_confined:
  assumes "replay_state s" "links_ok s" "settled s" "meta_valid meta"
  shows "(\<exists>s1. clear_roots s persistent_roots = Some s1 \<and> fs_abs s1 = (\<lambda>p. if inside_root p then None else fs_abs s p)) \<and>
    (\<exists>r t. persist_apply_snapshot_entries st s meta = Some (r, t) \<and> vfs_ok t \<and>
      (\<forall>p. \<not> path_should_persist p \<and> p \<noteq> ''/tmp'' \<longrightarrow> fs_abs t p = fs_abs s p) \<and>
      (fs_abs t ''/tmp'' = fs_abs s ''/tmp'' \<or> fs_abs s ''/tmp'' = None \<and> fs_abs t ''/tmp'' = Some ADir))"
proof -
  obtain s1 where s1: "clear_roots s persistent_roots = Some s1" "replay_state s1"
    "fs_abs s1 = (\<lambda>p. if inside_root p then None else fs_abs s p)" using clear_roots_exact [OF assms(1-3)] by blast
  obtain b u where u: "apply_entries (unat (meta_entry_count meta)) st (PERSIST_HEADER_SIZE + unat (meta_payload_size meta))
      PERSIST_HEADER_SIZE False s1 = Some (b, u)" "replay_frame s1 u"
    using apply_entries_frame [OF s1(2)] by blast
  obtain t where t: "persist_write_default_data_files st u = Some t" "outer_frame u t"
    using default_data_frame [OF outer_frameD [OF outer_frame_inner [OF u(2)]]] by blast
  have a: "persist_apply_snapshot_entries st s meta = Some (if b then Inl EINVAL else Inr (), t)"
    using assms(4) s1(1) u(1) t(1) by (simp add: persist_apply_snapshot_entries_def)
  have "outer_frame s1 t" by (rule outer_frame_trans [OF outer_frame_inner [OF u(2)] t(2)])
  moreover have "\<not> inside_root ''/tmp''" by (simp add: inside_root_def path_should_persist_def path_is_inside_def)
  moreover have "\<not> path_should_persist p \<Longrightarrow> \<not> inside_root p" for p by (simp add: inside_root_def)
  ultimately have "outer_frame s t" by (simp add: outer_frame_def s1(3))
  then show ?thesis using a s1(1,3) by (auto simp: outer_frame_def replay_state_def)
qed

lemma loading_replay_state: "vfs_inv s \<Longrightarrow> replay_state (s\<lparr>persist_loading := True, persist_buf := b\<rparr>)"
proof -
  have "vfs_ok (s\<lparr>persist_loading := True, persist_buf := b\<rparr>) = vfs_ok s"
    unfolding vfs_ok_def tab_ok_def data_ok_def by simp
  then show "vfs_inv s \<Longrightarrow> ?thesis" using vfs_invD [of s] by (simp add: replay_state_def)
qed

lemma home_vfs_settled: "links_ok (home_vfs d)" "settled (home_vfs d)"
proof -
  have all3: "(\<forall>i<3::nat. P i) \<longleftrightarrow> P 0 \<and> P 1 \<and> P 2" and ex3: "(\<exists>i<3::nat. P i) \<longleftrightarrow> P 0 \<or> P 1 \<or> P 2" for P
    by (auto simp: numeral_eq_Suc less_Suc_eq)
  have gp: "get_parent_path ''/home/x'' = ''/home''" "get_parent_path ''/home'' = ''/''"
    by (simp_all add: get_parent_path_def str_cpy_def MAX_PATH_def last_slash_def)
  show "links_ok (home_vfs d)"
    by (simp add: links_ok_def home_vfs_def plain_node_def all3 ex3 clean_path_def MAX_PATH_def gp)
  show "settled (home_vfs d)"
    by (simp add: settled_def home_vfs_def plain_node_def all3 find_child_inode_def upt_rec inside_root_def path_should_persist_def
        path_is_inside_def path_is_persistent_root_def)
qed

theorem replay_confined_witness:
  "\<exists>s s1 r t :: (u64 \<Rightarrow> bytes) vfs. fs_abs s ''/home/x'' = Some (AFile []) \<and> clear_roots s persistent_roots = Some s1 \<and>
     fs_abs s1 ''/home/x'' = None \<and>
     (\<exists>r. persist_apply_snapshot_entries ram_dev s (meta_zero\<lparr>meta_valid := True, meta_entry_count := 3\<rparr>) = Some (r, t)) \<and> vfs_ok t"
proof -
  define s where "s = (home_vfs ram_disk)\<lparr>persist_loading := True, persist_buf := (\<lambda>_. 47)\<rparr>"
  have ix: "inodes s = inodes (home_vfs ram_disk)" "inode_count s = inode_count (home_vfs ram_disk)" "heap s = heap (home_vfs ram_disk)"
    by (simp_all add: s_def)
  have f: "find_inode s = find_inode (home_vfs ram_disk)" "find_child_inode s = find_child_inode (home_vfs ram_disk)"
    by (simp_all add: fun_eq_iff find_inode_def find_child_inode_def ix)
  have abs: "fs_abs s = fs_abs (home_vfs ram_disk)" by (simp add: fun_eq_iff fs_abs_def ix f)
  have "links_ok s" using home_vfs_settled(1) [of ram_disk] links_same [of s "home_vfs ram_disk"] ix by simp
  moreover have "settled s" using home_vfs_settled(2) [of ram_disk] by (simp add: settled_def keepers_def abs ix f)
  moreover have "vfs_ok s" using home_vfs_ok [of ram_disk] unfolding vfs_ok_def tab_ok_def data_ok_def ix .
  then have "replay_state s" by (simp add: replay_state_def s_def home_vfs_def vfs_boot_def)
  ultimately have "(\<exists>s1. clear_roots s persistent_roots = Some s1 \<and> fs_abs s1 = (\<lambda>p. if inside_root p then None else fs_abs s p)) \<and>
    (\<exists>r t. persist_apply_snapshot_entries ram_dev s (meta_zero\<lparr>meta_valid := True, meta_entry_count := 3\<rparr>) = Some (r, t) \<and> vfs_ok t)"
    using replay_confined [of s "meta_zero\<lparr>meta_valid := True, meta_entry_count := 3\<rparr>" ram_dev] by auto
  moreover have "fs_abs s ''/home/x'' = Some (AFile [])"
    using fs_abs_nth [OF vfs_okD(1) [OF home_vfs_ok], of 2 ram_disk] by (simp add: abs home_vfs_def plain_node_def node_abs_def node_content_def)
  moreover have "inside_root ''/home/x''" by (simp add: inside_root_def path_should_persist_def path_is_inside_def path_is_persistent_root_def)
  ultimately show ?thesis by auto
qed

text \<open>A tree that violates the condition on the indices: the directory \<^verbatim>\<open>/home/d\<close> is the last inode and its child
  sits before it. Clearing then deletes the child first, which moves the directory, and the deletion of the
  stale index drops the unrelated file \<^verbatim>\<open>/g\<close>.\<close>

definition lost_vfs :: "'d \<Rightarrow> 'd vfs" where
  "lost_vfs d = (vfs_boot d)\<lparr>inodes := [plain_node [] ''/'' 1 None, plain_node ''f'' ''/home/d/f'' 0 (Some 4),
       plain_node ''home'' ''/home'' 1 (Some 0), plain_node ''g'' ''/g'' 0 (Some 0), plain_node ''d'' ''/home/d'' 1 (Some 2)]
       @ replicate 251 null_inode,
     inode_count := 5, heap := kmalloc_init kheap_boot, vfs_initialized := True\<rparr>"

lemma lost_vfs_tree: "vfs_tree (lost_vfs d)"
proof -
  have h: "heap_ok (kmalloc_init kheap_boot)"
    using kmalloc_init_abs [of kheap_boot] by (auto simp: heap_ok_def kheap_boot_def)
  have all5: "(\<forall>i<5::nat. P i) \<longleftrightarrow> P 0 \<and> P 1 \<and> P 2 \<and> P 3 \<and> P 4" and ex5: "(\<exists>i<5::nat. P i) \<longleftrightarrow> P 0 \<or> P 1 \<or> P 2 \<or> P 3 \<or> P 4" for P
    by (auto simp: numeral_eq_Suc less_Suc_eq)
  have gp: "get_parent_path ''/home/d/f'' = ''/home/d''" "get_parent_path ''/home'' = ''/''" "get_parent_path ''/g'' = ''/''"
    "get_parent_path ''/home/d'' = ''/home''"
    by (simp_all add: get_parent_path_def str_cpy_def MAX_PATH_def last_slash_def)
  have ok: "vfs_ok (lost_vfs d)"
    by (simp add: lost_vfs_def vfs_ok_def tab_ok_def data_ok_def node_ok_def plain_node_def all5 h MAX_FILES_def MAX_PATH_def)
  have "dirs_ok (lost_vfs d)" by (simp add: dirs_ok_def lost_vfs_def plain_node_def all5)
  moreover have "handles_ok (lost_vfs d)" by (simp add: handles_ok_def lost_vfs_def vfs_boot_def null_file_def)
  moreover have "links_ok (lost_vfs d)"
    by (simp add: links_ok_def lost_vfs_def plain_node_def all5 ex5 clean_path_def MAX_PATH_def gp)
  ultimately show ?thesis using ok by (simp add: vfs_tree_def vfs_inv_def) (simp add: lost_vfs_def)
qed

theorem clear_loses_outside_file:
  "vfs_tree (lost_vfs d) \<and> fs_abs (lost_vfs d) ''/g'' = Some (AFile []) \<and>
   (\<exists>t. clear_roots (lost_vfs d) persistent_roots = Some t \<and> fs_abs t ''/g'' = None)"
proof -
  let ?s = "lost_vfs d"
  define a where "a = remove_inode ?s (Suc 0)"
  define b where "b = remove_inode a 4"
  define c where "c = remove_inode b (Suc 0)"
  note tree = lost_vfs_tree [of d] and T = vfs_treeD [OF lost_vfs_tree [of d]]
  have up: "[0..<5] = [0, 1, 2, 3, 4 :: nat]" "[0..<4] = [0, 1, 2, 3 :: nat]" "[0..<3] = [0, 1, 2 :: nat]" "[0..<2] = [0, 1 :: nat]"
    by (simp_all add: upt_rec)
  have n5: "inode_count ?s = 5" "inodes ?s ! 0 = plain_node [] ''/'' 1 None" "inodes ?s ! Suc 0 = plain_node ''f'' ''/home/d/f'' 0 (Some 4)"
    "inodes ?s ! 2 = plain_node ''home'' ''/home'' 1 (Some 0)" "inodes ?s ! 3 = plain_node ''g'' ''/g'' 0 (Some 0)"
    "inodes ?s ! 4 = plain_node ''d'' ''/home/d'' 1 (Some 2)" "length (inodes ?s) = 256" by (simp_all add: lost_vfs_def)
  have na: "inode_count a = 4" "inodes a ! 0 = plain_node [] ''/'' 1 None" "inodes a ! Suc 0 = plain_node ''d'' ''/home/d'' 1 (Some 2)"
    "inodes a ! 2 = plain_node ''home'' ''/home'' 1 (Some 0)" "inodes a ! 3 = plain_node ''g'' ''/g'' 0 (Some 0)" "length (inodes a) = 256"
    using remove_inode_nth [OF T(4), of 1] n5 by (simp_all add: a_def Let_def) (simp_all add: plain_node_def)
  have nb: "inode_count b = 3" "inodes b = inodes a" by (simp_all add: b_def remove_inode_def Let_def na(1))
  have nc: "inode_count c = 2" "inodes c ! 0 = plain_node [] ''/'' 1 None" "inodes c ! Suc 0 = plain_node ''home'' ''/home'' 1 (Some 0)"
    using na nb by (simp_all add: c_def remove_inode_def Let_def plain_node_def)
  have find: "find_inode ?s ''/workspace'' = None" "find_inode ?s ''/home'' = Some 2" "find_inode b ''/home'' = Some 2"
    "find_inode c ''/home'' = Some 1" "find_inode c ''/system'' = None" "find_inode c ''/packages'' = None" "find_inode c ''/logs'' = None"
    by (simp_all add: find_inode_def up n5 na nb nc plain_node_def)
  have kids: "find_child_inode ?s 2 = Some 4" "find_child_inode ?s 4 = Some 1" "find_child_inode ?s 1 = None" "find_child_inode a 4 = None"
    "find_child_inode b 2 = Some 1" "find_child_inode b 1 = None" "find_child_inode c 1 = None"
    by (simp_all add: find_child_inode_def up n5 na nb nc plain_node_def)
  have d1: "delete_inode_index ?s 4 = Some b"
    using kids n5(1) by (simp add: delete_inode_index_def delete_loop.simps [of ?s] delete_loop.simps [of a] a_def [symmetric] b_def [symmetric])
  have d2: "delete_inode_index b 1 = Some c"
    using kids nb(1) by (simp add: delete_inode_index_def delete_loop.simps [of b] c_def [symmetric])
  have "clear_directory_contents ?s ''/home'' = Some c"
    using find kids d1 d2 by (simp add: clear_directory_contents_def clear_loop.simps [of ?s] clear_loop.simps [of b] clear_loop.simps [of c])
  then have "clear_roots ?s persistent_roots = Some c"
    using find by (simp add: persistent_roots_def) (simp add: clear_directory_contents_def)
  moreover have "fs_abs c ''/g'' = None" by (simp add: fs_abs_def find_inode_def up nc plain_node_def)
  moreover have "fs_abs ?s ''/g'' = Some (AFile [])"
    using fs_abs_nth [OF T(4), of 3] by (simp add: n5 plain_node_def node_abs_def node_content_def)
  ultimately show ?thesis using tree by blast
qed

text \<open>C5: Saving and replaying are inverse at the level of entries: when the buffer holds the payload that a save of
  \<open>s\<close> writes, the entry loop decodes exactly the persisted nodes of \<open>s\<close>, directories before files, with
  their paths and contents, finds nothing malformed, and applies them in that order.\<close>

theorem replay_decodes_save:
  assumes "vfs_ok s" "\<And>p. p \<in> dom (fs_abs s) \<Longrightarrow> CHR 0x00 \<notin> set p"
    and "replay_state u" "mem_read (persist_buf u) PERSIST_HEADER_SIZE (length (snapshot_payload s)) = snapshot_payload s"
  shows "\<exists>t. replay_nodes st (heap s) (saved_nodes s) u = Some t \<and>
    apply_entries (length (saved_nodes s)) st (PERSIST_HEADER_SIZE + length (snapshot_payload s)) PERSIST_HEADER_SIZE False u = Some (False, t)"
proof -
  have p: "snapshot_payload s = concat (map (entry_bytes (heap s)) (saved_nodes s))"
    by (simp add: snapshot_payload_def saved_nodes_def)
  show ?thesis
    using apply_entries_replay [OF assms(3) saved_nodes_fit [OF assms(1,2)], of PERSIST_HEADER_SIZE _ st] assms(4)
    unfolding p by blast
qed

lemma nth_in_take: "i < k \<Longrightarrow> k \<le> length xs \<Longrightarrow> xs ! i \<in> set (take k xs)"
  by (auto simp: in_set_conv_nth)

theorem replay_decodes_save_witness:
  "\<exists>t. apply_entries 1 ram_dev (PERSIST_HEADER_SIZE + length (snapshot_payload (home_vfs ram_disk))) PERSIST_HEADER_SIZE False
     ((vfs_init (vfs_boot ram_disk))\<lparr>persist_loading := True,
        persist_buf := mem_write (\<lambda>_. 0) PERSIST_HEADER_SIZE (snapshot_payload (home_vfs ram_disk))\<rparr>) = Some (False, t)"
proof -
  let ?h = "home_vfs ram_disk"
  have n3: "take (inode_count ?h) (inodes ?h) =
    [plain_node [] ''/'' 1 None, plain_node ''home'' ''/home'' 1 (Some 0), plain_node ''x'' ''/home/x'' 0 (Some 1)]"
    by (simp add: home_vfs_def)
  have one: "length (saved_nodes ?h) = 1" unfolding saved_nodes_def persisted_dirs_def persisted_files_def n3
    by (simp add: plain_node_def path_should_persist_def path_is_inside_def path_is_persistent_root_def)
  have nul: "CHR 0x00 \<notin> set p" if "p \<in> dom (fs_abs ?h)" for p
  proof -
    note domD [OF that]
    then obtain a where "fs_abs ?h p = Some a" by (elim exE)
    then obtain i where i: "i < inode_count ?h" "node_path (inodes ?h ! i) = p"
      unfolding fs_abs_Some [OF vfs_okD(1) [OF home_vfs_ok]] by (elim exE conjE)
    have "inode_count ?h \<le> length (inodes ?h)"
      using tab_okD(1,3) [OF vfs_okD(1) [OF home_vfs_ok [of ram_disk]]] by simp
    then have "p \<in> node_path ` set (take (inode_count ?h) (inodes ?h))"
      using nth_in_take [OF i(1)] i(2) [symmetric] by (intro image_eqI [of _ _ "inodes ?h ! i"])
    then show ?thesis unfolding n3 by (auto simp: plain_node_def)
  qed
  define u where "u = (vfs_init (vfs_boot ram_disk))\<lparr>persist_loading := True,
    persist_buf := mem_write (\<lambda>_. 0) PERSIST_HEADER_SIZE (snapshot_payload ?h)\<rparr>"
  have u: "replay_state u" unfolding u_def by (rule loading_replay_state [OF vfs_boot_inv])
  have "persist_buf u = mem_write (\<lambda>_. 0) PERSIST_HEADER_SIZE (snapshot_payload ?h)" unfolding u_def by simp
  then have "mem_read (persist_buf u) PERSIST_HEADER_SIZE (length (snapshot_payload ?h)) = snapshot_payload ?h" by simp
  from replay_decodes_save [OF home_vfs_ok nul u this, of ram_dev] show ?thesis unfolding one u_def by blast
qed

end
