(* ===== verification/Aes.thy ===== *)
theory Aes
  imports Prelude
begin

text \<open>
  The AES-128 block cipher of \<^verbatim>\<open>kernel/lib/aes_gcm.c\<close>: S-box, key expansion, the round transformations and
  their inverses, block encryption and decryption. A block is the list of its 16 bytes, in the order
  of the C array; the transformations return the updated array. The lemmas show that each inverse
  transformation undoes its counterpart, and so that decryption undoes encryption under every key.
\<close>

section \<open>Tables\<close>

definition aes_sbox :: bytes where
  "aes_sbox = concat
    [[0x63, 0x7c, 0x77, 0x7b], [0xf2, 0x6b, 0x6f, 0xc5], [0x30, 0x01, 0x67, 0x2b], [0xfe, 0xd7, 0xab, 0x76],
     [0xca, 0x82, 0xc9, 0x7d], [0xfa, 0x59, 0x47, 0xf0], [0xad, 0xd4, 0xa2, 0xaf], [0x9c, 0xa4, 0x72, 0xc0],
     [0xb7, 0xfd, 0x93, 0x26], [0x36, 0x3f, 0xf7, 0xcc], [0x34, 0xa5, 0xe5, 0xf1], [0x71, 0xd8, 0x31, 0x15],
     [0x04, 0xc7, 0x23, 0xc3], [0x18, 0x96, 0x05, 0x9a], [0x07, 0x12, 0x80, 0xe2], [0xeb, 0x27, 0xb2, 0x75],
     [0x09, 0x83, 0x2c, 0x1a], [0x1b, 0x6e, 0x5a, 0xa0], [0x52, 0x3b, 0xd6, 0xb3], [0x29, 0xe3, 0x2f, 0x84],
     [0x53, 0xd1, 0x00, 0xed], [0x20, 0xfc, 0xb1, 0x5b], [0x6a, 0xcb, 0xbe, 0x39], [0x4a, 0x4c, 0x58, 0xcf],
     [0xd0, 0xef, 0xaa, 0xfb], [0x43, 0x4d, 0x33, 0x85], [0x45, 0xf9, 0x02, 0x7f], [0x50, 0x3c, 0x9f, 0xa8],
     [0x51, 0xa3, 0x40, 0x8f], [0x92, 0x9d, 0x38, 0xf5], [0xbc, 0xb6, 0xda, 0x21], [0x10, 0xff, 0xf3, 0xd2],
     [0xcd, 0x0c, 0x13, 0xec], [0x5f, 0x97, 0x44, 0x17], [0xc4, 0xa7, 0x7e, 0x3d], [0x64, 0x5d, 0x19, 0x73],
     [0x60, 0x81, 0x4f, 0xdc], [0x22, 0x2a, 0x90, 0x88], [0x46, 0xee, 0xb8, 0x14], [0xde, 0x5e, 0x0b, 0xdb],
     [0xe0, 0x32, 0x3a, 0x0a], [0x49, 0x06, 0x24, 0x5c], [0xc2, 0xd3, 0xac, 0x62], [0x91, 0x95, 0xe4, 0x79],
     [0xe7, 0xc8, 0x37, 0x6d], [0x8d, 0xd5, 0x4e, 0xa9], [0x6c, 0x56, 0xf4, 0xea], [0x65, 0x7a, 0xae, 0x08],
     [0xba, 0x78, 0x25, 0x2e], [0x1c, 0xa6, 0xb4, 0xc6], [0xe8, 0xdd, 0x74, 0x1f], [0x4b, 0xbd, 0x8b, 0x8a],
     [0x70, 0x3e, 0xb5, 0x66], [0x48, 0x03, 0xf6, 0x0e], [0x61, 0x35, 0x57, 0xb9], [0x86, 0xc1, 0x1d, 0x9e],
     [0xe1, 0xf8, 0x98, 0x11], [0x69, 0xd9, 0x8e, 0x94], [0x9b, 0x1e, 0x87, 0xe9], [0xce, 0x55, 0x28, 0xdf],
     [0x8c, 0xa1, 0x89, 0x0d], [0xbf, 0xe6, 0x42, 0x68], [0x41, 0x99, 0x2d, 0x0f], [0xb0, 0x54, 0xbb, 0x16]]"

definition aes_rcon :: bytes where
  "aes_rcon = [0x01, 0x02, 0x04, 0x08, 0x10] @ [0x20, 0x40, 0x80, 0x1b, 0x36]"

definition sbox_at :: "byte \<Rightarrow> byte" where
  "sbox_at v = aes_sbox ! unat v"

definition xtime :: "byte \<Rightarrow> byte" where
  "xtime x = push_bit 1 x XOR (if x AND 0x80 \<noteq> 0 then 0x1b else 0)"

section \<open>Key expansion\<close>

text \<open>One iteration of the expansion loop: the four bytes after the \<open>length rk\<close> generated so far.\<close>

definition key_temp :: "bytes \<Rightarrow> nat \<Rightarrow> bytes" where
  "key_temp rk rcon =
    (let g = length rk; temp = map (\<lambda>i. rk ! (g - 4 + i)) [0..<4]
     in if g mod 16 = 0
        then [sbox_at (temp ! 1) XOR aes_rcon ! rcon, sbox_at (temp ! 2), sbox_at (temp ! 3), sbox_at (temp ! 0)]
        else temp)"

function key_expand_loop :: "bytes \<Rightarrow> nat \<Rightarrow> bytes" where
  "key_expand_loop rk rcon =
    (if length rk < 176
     then key_expand_loop (rk @ map (\<lambda>i. rk ! (length rk - 16 + i) XOR key_temp rk rcon ! i) [0..<4])
            (if length rk mod 16 = 0 then rcon + 1 else rcon)
     else rk)"
  by pat_completeness auto
termination
  by (relation "measure (\<lambda>(rk, _). 176 - length rk)") auto

declare key_expand_loop.simps [simp del]

definition aes_key_expand :: "bytes \<Rightarrow> bytes" where
  "aes_key_expand key = key_expand_loop (take 16 key) 0"

section \<open>Round transformations\<close>

definition aes_add_round_key :: "bytes \<Rightarrow> bytes \<Rightarrow> bytes" where
  "aes_add_round_key state round_key = map (\<lambda>i. state ! i XOR round_key ! i) [0..<16]"

definition aes_sub_bytes :: "bytes \<Rightarrow> bytes" where
  "aes_sub_bytes state = map sbox_at state"

definition aes_shift_rows :: "bytes \<Rightarrow> bytes" where
  "aes_shift_rows s =
    (let t = s ! 1; s = s[1 := s ! 5]; s = s[5 := s ! 9]; s = s[9 := s ! 13]; s = s[13 := t];
         t = s ! 2; s = s[2 := s ! 10]; s = s[10 := t];
         t = s ! 6; s = s[6 := s ! 14]; s = s[14 := t];
         t = s ! 15; s = s[15 := s ! 11]; s = s[11 := s ! 7]; s = s[7 := s ! 3]
     in s[3 := t])"

definition mix_column :: "byte \<Rightarrow> byte \<Rightarrow> byte \<Rightarrow> byte \<Rightarrow> bytes" where
  "mix_column a0 a1 a2 a3 =
    (let t = a0 XOR a1 XOR a2 XOR a3
     in [a0 XOR (t XOR xtime (a0 XOR a1)), a1 XOR (t XOR xtime (a1 XOR a2)),
         a2 XOR (t XOR xtime (a2 XOR a3)), a3 XOR (t XOR xtime (a3 XOR a0))])"

definition on_columns :: "(byte \<Rightarrow> byte \<Rightarrow> byte \<Rightarrow> byte \<Rightarrow> bytes) \<Rightarrow> bytes \<Rightarrow> bytes" where
  "on_columns f s = concat (map (\<lambda>c. f (s ! (c * 4)) (s ! (c * 4 + 1)) (s ! (c * 4 + 2)) (s ! (c * 4 + 3))) [0..<4])"

definition aes_mix_columns :: "bytes \<Rightarrow> bytes" where
  "aes_mix_columns s = on_columns mix_column s"

primrec gf_mul_loop :: "nat \<Rightarrow> byte \<Rightarrow> byte \<Rightarrow> byte \<Rightarrow> byte" where
  "gf_mul_loop 0 a b r = r"
| "gf_mul_loop (Suc n) a b r = gf_mul_loop n (xtime a) (drop_bit 1 b) (if b AND 1 \<noteq> 0 then r XOR a else r)"

definition gf_mul :: "byte \<Rightarrow> byte \<Rightarrow> byte" where
  "gf_mul a b = gf_mul_loop 8 a b 0"

definition aes_inv_shift_rows :: "bytes \<Rightarrow> bytes" where
  "aes_inv_shift_rows s =
    (let t = s ! 13; s = s[13 := s ! 9]; s = s[9 := s ! 5]; s = s[5 := s ! 1]; s = s[1 := t];
         t = s ! 2; s = s[2 := s ! 10]; s = s[10 := t];
         t = s ! 6; s = s[6 := s ! 14]; s = s[14 := t];
         t = s ! 3; s = s[3 := s ! 7]; s = s[7 := s ! 11]; s = s[11 := s ! 15]
     in s[15 := t])"

definition aes_inv_sbox_byte :: "byte \<Rightarrow> byte" where
  "aes_inv_sbox_byte v =
    (case find (\<lambda>i. aes_sbox ! i = v) [0..<256] of Some i \<Rightarrow> of_nat i | None \<Rightarrow> 0)"

definition aes_inv_sub_bytes :: "bytes \<Rightarrow> bytes" where
  "aes_inv_sub_bytes state = map aes_inv_sbox_byte state"

definition inv_mix_column :: "byte \<Rightarrow> byte \<Rightarrow> byte \<Rightarrow> byte \<Rightarrow> bytes" where
  "inv_mix_column a0 a1 a2 a3 =
    [gf_mul a0 14 XOR gf_mul a1 11 XOR gf_mul a2 13 XOR gf_mul a3 9,
     gf_mul a0 9 XOR gf_mul a1 14 XOR gf_mul a2 11 XOR gf_mul a3 13,
     gf_mul a0 13 XOR gf_mul a1 9 XOR gf_mul a2 14 XOR gf_mul a3 11,
     gf_mul a0 11 XOR gf_mul a1 13 XOR gf_mul a2 9 XOR gf_mul a3 14]"

definition aes_inv_mix_columns :: "bytes \<Rightarrow> bytes" where
  "aes_inv_mix_columns s = on_columns inv_mix_column s"

section \<open>The block cipher\<close>

definition aes128_encrypt_block :: "bytes \<Rightarrow> bytes \<Rightarrow> bytes" where
  "aes128_encrypt_block key inp =
    (let round_keys = aes_key_expand key;
         state = aes_add_round_key (take 16 inp) round_keys;
         state = foldl (\<lambda>s round. aes_add_round_key (aes_mix_columns (aes_shift_rows (aes_sub_bytes s)))
                                   (drop (round * 16) round_keys)) state [1..<10]
     in aes_add_round_key (aes_shift_rows (aes_sub_bytes state)) (drop 160 round_keys))"

definition aes128_decrypt_block :: "bytes \<Rightarrow> bytes \<Rightarrow> bytes" where
  "aes128_decrypt_block key inp =
    (let round_keys = aes_key_expand key;
         state = aes_add_round_key (take 16 inp) (drop 160 round_keys);
         state = foldl (\<lambda>s round. aes_inv_mix_columns (aes_add_round_key
                          (aes_inv_sub_bytes (aes_inv_shift_rows s)) (drop (round * 16) round_keys)))
                   state (rev [1..<10])
     in aes_add_round_key (aes_inv_sub_bytes (aes_inv_shift_rows state)) round_keys)"

section \<open>The transformations and their inverses\<close>

lemma length_aes_sbox [simp]: "length aes_sbox = 256"
  by (simp add: aes_sbox_def)

lemma distinct_aes_sbox: "distinct aes_sbox"
proof -
  have "distinct (map uint aes_sbox)" unfolding aes_sbox_def concat.simps append.simps list.map by simp
  then show ?thesis unfolding distinct_map by (rule conjunct1)
qed

lemma aes_inv_sbox [simp]: "aes_inv_sbox_byte (sbox_at v) = v"
proof -
  have u: "unat v < 256" using unsigned_less [of v, where 'a = nat] by simp
  have "find (\<lambda>i. aes_sbox ! i = sbox_at v) [0..<256] = Some (unat v)"
    unfolding find_Some_iff
  proof (intro exI conjI allI impI)
    fix j assume j: "j < unat v"
    then have j2: "j < 256" "j \<noteq> unat v" using u by linarith+
    then have "[0..<256] ! j = j" using nth_upt [of 0 j 256] by simp
    moreover have "aes_sbox ! j \<noteq> aes_sbox ! unat v"
      using distinct_aes_sbox nth_eq_iff_index_eq [of aes_sbox j "unat v"] j2 u by simp
    ultimately show "\<not> aes_sbox ! ([0..<256] ! j) = sbox_at v" by (simp only: sbox_at_def not_False_eq_True)
  qed (use u in \<open>simp_all add: sbox_at_def\<close>)
  then show ?thesis by (simp add: aes_inv_sbox_byte_def)
qed

lemma list16_cases:
  assumes "length s = 16"
  obtains a0 a1 a2 a3 a4 a5 a6 a7 a8 a9 a10 a11 a12 a13 a14 a15
  where "s = [a0, a1, a2, a3, a4, a5, a6, a7, a8, a9, a10, a11, a12, a13, a14, a15]"
  using assms by (auto simp: length_Suc_conv numeral_eq_Suc)

lemma aes_shift_rows_list:
  "aes_shift_rows [a0, a1, a2, a3, a4, a5, a6, a7, a8, a9, a10, a11, a12, a13, a14, a15] =
    [a0, a5, a10, a15, a4, a9, a14, a3, a8, a13, a2, a7, a12, a1, a6, a11]"
  by (simp add: aes_shift_rows_def Let_def)

lemma aes_inv_shift_rows_list:
  "aes_inv_shift_rows [a0, a5, a10, a15, a4, a9, a14, a3, a8, a13, a2, a7, a12, a1, a6, a11] =
    [a0, a1, a2, a3, a4, a5, a6, a7, a8, a9, a10, a11, a12, a13, a14, a15]"
  by (simp add: aes_inv_shift_rows_def Let_def)

lemma aes_shift_rows_inv: "length s = 16 \<Longrightarrow> aes_inv_shift_rows (aes_shift_rows s) = s"
  by (erule list16_cases) (simp add: aes_shift_rows_list aes_inv_shift_rows_list)

lemma xtime_xor: "xtime (a XOR b) = xtime a XOR xtime b"
proof -
  have h: "x AND 0x80 \<noteq> 0 \<longleftrightarrow> bit x 7" for x :: byte
    using and_exp_eq_0_iff_not_bit [of x 7] by simp
  show ?thesis unfolding xtime_def h by (rule bit_word_eqI) (auto simp: bit_simps)
qed

lemma xor_cancel_left [simp]: "(a :: byte) XOR (a XOR b) = b"
  by (simp flip: xor.assoc)

lemma gf_mul_consts:
  "gf_mul a 14 = xtime a XOR (xtime (xtime a) XOR xtime (xtime (xtime a)))"
  "gf_mul a 11 = a XOR (xtime a XOR xtime (xtime (xtime a)))"
  "gf_mul a 13 = a XOR (xtime (xtime a) XOR xtime (xtime (xtime a)))"
  "gf_mul a 9 = a XOR xtime (xtime (xtime a))"
proof -
  have 8: "(8 :: nat) = Suc (Suc (Suc (Suc (Suc (Suc (Suc (Suc 0)))))))" by simp
  show "gf_mul a 14 = xtime a XOR (xtime (xtime a) XOR xtime (xtime (xtime a)))"
    "gf_mul a 11 = a XOR (xtime a XOR xtime (xtime (xtime a)))"
    "gf_mul a 13 = a XOR (xtime (xtime a) XOR xtime (xtime (xtime a)))"
    "gf_mul a 9 = a XOR xtime (xtime (xtime a))"
    unfolding gf_mul_def 8 gf_mul_loop.simps by (simp_all add: xor.assoc)
qed

lemma mix_column_inv:
  "inv_mix_column (mix_column a b c d ! 0) (mix_column a b c d ! 1) (mix_column a b c d ! 2) (mix_column a b c d ! 3) = [a, b, c, d]"
  by (simp add: mix_column_def inv_mix_column_def Let_def gf_mul_consts xtime_xor xor.assoc xor.commute xor.left_commute)

lemma on_columns_list:
  "on_columns f [a0, a1, a2, a3, a4, a5, a6, a7, a8, a9, a10, a11, a12, a13, a14, a15] =
    f a0 a1 a2 a3 @ f a4 a5 a6 a7 @ f a8 a9 a10 a11 @ f a12 a13 a14 a15"
  by (simp add: on_columns_def upt_rec)

lemma mix_column_list: "\<exists>w x y z. mix_column a b c d = [w, x, y, z] \<and> inv_mix_column w x y z = [a, b, c, d]"
  using mix_column_inv [of a b c d] by (simp add: mix_column_def Let_def)

lemma aes_mix_columns_inv:
  assumes "length s = 16"
  shows "aes_inv_mix_columns (aes_mix_columns s) = s" "length (aes_mix_columns s) = 16"
proof -
  from assms obtain a0 a1 a2 a3 a4 a5 a6 a7 a8 a9 a10 a11 a12 a13 a14 a15
    where s: "s = [a0, a1, a2, a3, a4, a5, a6, a7, a8, a9, a10, a11, a12, a13, a14, a15]" by (rule list16_cases)
  obtain b0 b1 b2 b3 where c0: "mix_column a0 a1 a2 a3 = [b0, b1, b2, b3]" "inv_mix_column b0 b1 b2 b3 = [a0, a1, a2, a3]"
    using mix_column_list by blast
  obtain b4 b5 b6 b7 where c1: "mix_column a4 a5 a6 a7 = [b4, b5, b6, b7]" "inv_mix_column b4 b5 b6 b7 = [a4, a5, a6, a7]"
    using mix_column_list by blast
  obtain b8 b9 b10 b11 where c2: "mix_column a8 a9 a10 a11 = [b8, b9, b10, b11]" "inv_mix_column b8 b9 b10 b11 = [a8, a9, a10, a11]"
    using mix_column_list by blast
  obtain b12 b13 b14 b15 where c3: "mix_column a12 a13 a14 a15 = [b12, b13, b14, b15]" "inv_mix_column b12 b13 b14 b15 = [a12, a13, a14, a15]"
    using mix_column_list by blast
  show "aes_inv_mix_columns (aes_mix_columns s) = s" "length (aes_mix_columns s) = 16"
    by (simp_all add: s aes_mix_columns_def aes_inv_mix_columns_def on_columns_list c0 c1 c2 c3)
qed

lemma length_steps [simp]:
  "length (aes_add_round_key s k) = 16" "length (aes_sub_bytes s) = length s" "length (aes_inv_sub_bytes s) = length s"
  "length (aes_shift_rows s) = length s" "length (aes_inv_shift_rows s) = length s"
  by (simp_all add: aes_add_round_key_def aes_sub_bytes_def aes_inv_sub_bytes_def aes_shift_rows_def aes_inv_shift_rows_def Let_def)

lemma aes_sub_bytes_inv [simp]: "aes_inv_sub_bytes (aes_sub_bytes s) = s"
  by (simp add: aes_sub_bytes_def aes_inv_sub_bytes_def comp_def)

lemma aes_add_round_key_inv: "length s = 16 \<Longrightarrow> aes_add_round_key (aes_add_round_key s k) k = s"
  by (rule nth_equalityI) (simp_all add: aes_add_round_key_def xor.assoc)

section \<open>Decryption undoes encryption\<close>

definition enc_round :: "bytes \<Rightarrow> bytes \<Rightarrow> nat \<Rightarrow> bytes" where
  "enc_round rk s r = aes_add_round_key (aes_mix_columns (aes_shift_rows (aes_sub_bytes s))) (drop (r * 16) rk)"

definition dec_round :: "bytes \<Rightarrow> bytes \<Rightarrow> nat \<Rightarrow> bytes" where
  "dec_round rk s r = aes_inv_mix_columns (aes_add_round_key (aes_inv_sub_bytes (aes_inv_shift_rows s)) (drop (r * 16) rk))"

lemma dec_enc_round:
  "length s = 16 \<Longrightarrow> dec_round rk (aes_shift_rows (aes_sub_bytes (enc_round rk s r))) r = aes_shift_rows (aes_sub_bytes s)"
  by (simp add: dec_round_def enc_round_def aes_shift_rows_inv aes_add_round_key_inv aes_mix_columns_inv)

lemma dec_enc_rounds:
  "length s = 16 \<Longrightarrow> foldl (dec_round rk) (aes_shift_rows (aes_sub_bytes (foldl (enc_round rk) s rs))) (rev rs) =
     aes_shift_rows (aes_sub_bytes s) \<and> length (foldl (enc_round rk) s rs) = 16"
proof (induction rs rule: rev_induct)
  case (snoc r rs)
  then show ?case by (simp add: dec_enc_round) (simp add: enc_round_def)
qed simp

lemma encrypt_rounds:
  "aes128_encrypt_block key b = aes_add_round_key (aes_shift_rows (aes_sub_bytes
     (foldl (enc_round (aes_key_expand key)) (aes_add_round_key (take 16 b) (aes_key_expand key)) [1..<10])))
     (drop 160 (aes_key_expand key))"
  by (simp add: aes128_encrypt_block_def Let_def enc_round_def [abs_def])

lemma decrypt_rounds:
  "aes128_decrypt_block key b = aes_add_round_key (aes_inv_sub_bytes (aes_inv_shift_rows
     (foldl (dec_round (aes_key_expand key)) (aes_add_round_key (take 16 b) (drop 160 (aes_key_expand key))) (rev [1..<10]))))
     (aes_key_expand key)"
  by (simp add: aes128_decrypt_block_def Let_def dec_round_def [abs_def])

lemma length_encrypt_block [simp]: "length (aes128_encrypt_block key b) = 16"
  by (simp add: encrypt_rounds)

lemma decrypt_encrypt:
  assumes "length b = 16"
  shows "aes128_decrypt_block key (aes128_encrypt_block key b) = b"
proof -
  let ?rk = "aes_key_expand key"
  let ?s0 = "aes_add_round_key b ?rk"
  let ?m = "foldl (enc_round ?rk) ?s0 [1..<10]"
  have m: "foldl (dec_round ?rk) (aes_shift_rows (aes_sub_bytes ?m)) (rev [1..<10]) = aes_shift_rows (aes_sub_bytes ?s0)"
    "length ?m = 16" using dec_enc_rounds [of ?s0 ?rk "[1..<10]"] by simp_all
  have e: "take 16 (aes128_encrypt_block key b) = aes_add_round_key (aes_shift_rows (aes_sub_bytes ?m)) (drop 160 ?rk)"
    using assms by (simp add: encrypt_rounds)
  show ?thesis unfolding decrypt_rounds e
    using m assms by (simp add: aes_add_round_key_inv aes_shift_rows_inv)
qed

section \<open>Key expansion as the standard states it\<close>

text \<open>The key schedule of FIPS 197 by four-byte words: word \<open>i\<close> from words \<open>i - 4\<close> and \<open>i - 1\<close>.\<close>

fun fips_word :: "bytes \<Rightarrow> nat \<Rightarrow> bytes" where
  "fips_word key i =
    (if i < 4 then take 4 (drop (4 * i) key)
     else let t = fips_word key (i - 1)
          in map2 (XOR) (fips_word key (i - 4))
               (if i mod 4 = 0
                then [sbox_at (t ! 1) XOR aes_rcon ! (i div 4 - 1), sbox_at (t ! 2), sbox_at (t ! 3), sbox_at (t ! 0)] else t))"

declare fips_word.simps [simp del]

lemma length_fips_word [simp]: "length key = 16 \<Longrightarrow> length (fips_word key i) = 4"
proof (induction i rule: less_induct)
  case (less i)
  then show ?case by (subst fips_word.simps) (simp add: Let_def)
qed

definition fips_words :: "bytes \<Rightarrow> nat \<Rightarrow> bytes" where
  "fips_words key n = concat (map (fips_word key) [0..<n])"

lemma length_fips_words [simp]: "length key = 16 \<Longrightarrow> length (fips_words key n) = 4 * n"
  by (induction n) (simp_all add: fips_words_def)

lemma fips_words_nth:
  assumes "length key = 16" "j < n" "k < 4"
  shows "fips_words key n ! (4 * j + k) = fips_word key j ! k"
  using assms(2)
proof (induction n)
  case (Suc n)
  have e: "fips_words key (Suc n) = fips_words key n @ fips_word key n" by (simp add: fips_words_def)
  show ?case
  proof (cases "j = n")
    case True
    then show ?thesis using assms by (simp add: e nth_append)
  next
    case False
    then show ?thesis using Suc assms by (simp add: e nth_append)
  qed
qed simp

lemma key_step:
  assumes key: "length key = 16" and n: "4 \<le> n" "n < 44"
  shows "map (\<lambda>i. fips_words key n ! (4 * n - 16 + i) XOR key_temp (fips_words key n) ((n - 1) div 4) ! i) [0..<4] = fips_word key n"
proof -
  let ?t = "fips_word key (n - 1)" and ?rk = "fips_words key n"
  have up4: "[0..<4] = [0, 1, 2, 3 :: nat]" by (simp add: upt_rec)
  have idx: "4 * n - 16 + i = 4 * (n - 4) + i" "4 * n - 4 + i = 4 * (n - 1) + i" for i using n by simp_all
  have old: "?rk ! (4 * n - 16 + i) = fips_word key (n - 4) ! i" "?rk ! (4 * n - 4 + i) = ?t ! i" if "i < 4" for i
    unfolding idx using n that fips_words_nth [OF key] by simp_all
  have t4: "map (\<lambda>i. ?rk ! (4 * n - 4 + i)) [0..<4] = ?t"
    by (rule nth_equalityI) (simp_all add: key old(2))
  have m: "4 * n mod 16 = 0 \<longleftrightarrow> n mod 4 = 0" by presburger
  have d: "n mod 4 = 0 \<Longrightarrow> (n - 1) div 4 = n div 4 - 1" using n by presburger
  have kt: "key_temp ?rk ((n - 1) div 4) = (if n mod 4 = 0
      then [sbox_at (?t ! 1) XOR aes_rcon ! (n div 4 - 1), sbox_at (?t ! 2), sbox_at (?t ! 3), sbox_at (?t ! 0)] else ?t)"
    unfolding key_temp_def Let_def length_fips_words [OF key] t4 m using d by simp
  have len: "length (fips_word key (n - 4)) = 4" "length (key_temp ?rk ((n - 1) div 4)) = 4"
    unfolding kt using key by simp_all
  have "map (\<lambda>i. ?rk ! (4 * n - 16 + i) XOR key_temp ?rk ((n - 1) div 4) ! i) [0..<4] =
    map2 (XOR) (fips_word key (n - 4)) (key_temp ?rk ((n - 1) div 4))"
    by (rule nth_equalityI) (simp_all add: len old(1) del: One_nat_def)
  also have "\<dots> = fips_word key n" unfolding kt fips_word.simps [of key n] Let_def using n by simp
  finally show ?thesis .
qed

lemma key_expand_loop_words:
  assumes key: "length key = 16"
  shows "4 \<le> n \<Longrightarrow> n \<le> 44 \<Longrightarrow> key_expand_loop (fips_words key n) ((n - 1) div 4) = fips_words key 44"
proof (induction "44 - n" arbitrary: n)
  case 0
  then show ?case by (subst key_expand_loop.simps) (simp add: key)
next
  case (Suc d)
  then have n: "4 \<le> n" "n < 44" by simp_all
  have m: "4 * n mod 16 = 0 \<longleftrightarrow> n mod 4 = 0" by presburger
  have r: "(if 4 * n mod 16 = 0 then (n - 1) div 4 + 1 else (n - 1) div 4) = (Suc n - 1) div 4"
  proof -
    have "(n - 1) div 4 + 1 = n div 4" if "n mod 4 = 0" using n(1) that by presburger
    moreover have "(n - 1) div 4 = n div 4" if "n mod 4 \<noteq> 0" using that by presburger
    ultimately show ?thesis unfolding m by simp
  qed
  have "key_expand_loop (fips_words key n) ((n - 1) div 4) =
    key_expand_loop (fips_words key n @ fips_word key n) ((Suc n - 1) div 4)"
    by (subst key_expand_loop.simps) (simp only: length_fips_words [OF key] key_step [OF key n] r, use n in simp)
  also have "fips_words key n @ fips_word key n = fips_words key (Suc n)" by (simp add: fips_words_def)
  also have "key_expand_loop (fips_words key (Suc n)) ((Suc n - 1) div 4) = fips_words key 44"
    using Suc n by (intro Suc.hyps) simp_all
  finally show ?case .
qed

lemma aes_key_expand_words: "length key = 16 \<Longrightarrow> aes_key_expand key = fips_words key 44"
proof -
  assume key: "length key = 16"
  have "fips_words key 4 = key"
  proof (rule nth_equalityI)
    fix i assume "i < length (fips_words key 4)"
    then have i: "i < 16" using key by simp
    have "fips_words key 4 ! (4 * (i div 4) + i mod 4) = fips_word key (i div 4) ! (i mod 4)"
      using i by (intro fips_words_nth [OF key]) simp_all
    also have "\<dots> = key ! i"
    proof -
      have "i div 4 < 4" using i by simp
      then have "fips_word key (i div 4) = take 4 (drop (4 * (i div 4)) key)" by (subst fips_word.simps) (rule if_P)
      then show ?thesis using i key by simp
    qed
    finally show "fips_words key 4 ! i = key ! i" by simp
  qed (simp add: key)
  then show ?thesis using key_expand_loop_words [OF key, of 4] key by (simp add: aes_key_expand_def)
qed

section \<open>Properties\<close>

text \<open>The key expansion loop produces the key schedule of FIPS 197: 176 bytes, which are the 44 words of the
  standard's recursion, including the rotation, the S-box and the round constants.\<close>

theorem aes_key_expand_fips:
  assumes "length key = 16"
  shows "length (aes_key_expand key) = 176 \<and>
    (\<forall>i j. i < 44 \<and> j < 4 \<longrightarrow> aes_key_expand key ! (4 * i + j) = fips_word key i ! j)"
  using aes_key_expand_words [OF assms] fips_words_nth [OF assms] assms by simp

theorem aes_key_expand_fips_witness:
  "aes_key_expand (replicate 16 0) ! (4 * 4 + 0) = fips_word (replicate 16 0) 4 ! 0"
proof -
  have "\<forall>i j. i < 44 \<and> j < 4 \<longrightarrow> aes_key_expand (replicate 16 0) ! (4 * i + j) = fips_word (replicate 16 0) i ! j"
    using aes_key_expand_fips [of "replicate 16 0"] by simp
  then show ?thesis by (elim allE [of _ 4] allE [of _ 0]) simp
qed

text \<open>C6: Decrypting an encrypted block gives the block back, under every key: the inverse S-box, row shift, column
  mix and the reversed order of the round keys undo the encryption exactly.\<close>

theorem aes128_decrypt_encrypt:
  assumes "length block = 16"
  shows "aes128_decrypt_block key (aes128_encrypt_block key block) = block"
  by (rule decrypt_encrypt [OF assms])

theorem aes128_decrypt_encrypt_witness:
  "aes128_decrypt_block [] (aes128_encrypt_block [] (replicate 16 7)) = replicate 16 7"
  using aes128_decrypt_encrypt [of "replicate 16 7" "[]"] by simp

end
