(* ===== verification/AesModes.thy ===== *)
theory AesModes
  imports Aes
begin

text \<open>
  The modes of operation of \<^verbatim>\<open>kernel/lib/aes_gcm.c\<close>: counter mode, GHASH and GCM, RFC 3394 key unwrapping, and
  CCM. Buffers are byte lists; a pointer argument that the code compares with NULL is an option, given with
  the length argument beside it. An output pointer is an option of the caller's buffer; the exported
  functions return their result code with the buffers as they leave them, also on every error
  path, so that what a rejected message leaves behind is part of the model. Input and output
  buffers are distinct.
\<close>

definition buf :: "bytes option \<Rightarrow> nat \<Rightarrow> bytes" where
  "buf p n = (case p of None \<Rightarrow> [] | Some bs \<Rightarrow> take n bs)"

definition pad16 :: "bytes \<Rightarrow> bytes" where
  "pad16 bs = bs @ replicate (16 - length bs) 0"

text \<open>An output buffer after the bytes \<open>bs\<close> are stored at its start.\<close>

definition store :: "bytes \<Rightarrow> bytes option \<Rightarrow> bytes option" where
  "store bs p = map_option (blit 0 bs) p"

section \<open>GHASH\<close>

definition xor_block :: "bytes \<Rightarrow> bytes \<Rightarrow> bytes" where
  "xor_block out inp = map (\<lambda>i. out ! i XOR inp ! i) [0..<16]"

fun shift_right_loop :: "byte \<Rightarrow> bytes \<Rightarrow> bytes" where
  "shift_right_loop carry [] = []"
| "shift_right_loop carry (b # bs) = (drop_bit 1 b OR push_bit 7 carry) # shift_right_loop (b AND 1) bs"

definition shift_right_one :: "bytes \<Rightarrow> bytes" where
  "shift_right_one v = shift_right_loop 0 v"

definition gcm_multiply_step :: "bytes \<Rightarrow> bytes \<times> bytes \<Rightarrow> nat \<Rightarrow> bytes \<times> bytes" where
  "gcm_multiply_step x zv bit0 =
    (case zv of (z, v) \<Rightarrow>
       let z = (if x ! (bit0 div 8) AND drop_bit (bit0 mod 8) 0x80 \<noteq> 0 then xor_block z v else z);
           lsb = v ! 15 AND 1;
           v = shift_right_one v;
           v = (if lsb \<noteq> 0 then v[0 := v ! 0 XOR 0xe1] else v)
       in (z, v))"

definition gcm_multiply :: "bytes \<Rightarrow> bytes \<Rightarrow> bytes" where
  "gcm_multiply x h = fst (foldl (gcm_multiply_step x) (replicate 16 0, take 16 h) [0..<128])"

definition ghash_block :: "bytes \<Rightarrow> bytes \<Rightarrow> bytes \<Rightarrow> bytes" where
  "ghash_block y h block = gcm_multiply (xor_block y block) h"

definition put_be64 :: "u64 \<Rightarrow> bytes" where
  "put_be64 v = map (\<lambda>i. ucast (drop_bit ((7 - i) * 8) v)) [0..<8]"

function ghash_loop :: "bytes \<Rightarrow> bytes \<Rightarrow> bytes \<Rightarrow> bytes" where
  "ghash_loop y h inp =
    (if inp = [] then y else ghash_loop (ghash_block y h (pad16 (take 16 inp))) h (drop 16 inp))"
  by pat_completeness auto
termination
  by (relation "measure (\<lambda>(_, _, inp). length inp)") auto

declare ghash_loop.simps [simp del]

definition ghash :: "bytes \<Rightarrow> bytes \<Rightarrow> bytes \<Rightarrow> bytes" where
  "ghash h aad ciphertext =
    (let y = ghash_loop (replicate 16 0) h aad;
         y = ghash_loop y h ciphertext
     in ghash_block y h (put_be64 (of_nat (length aad) * 8) @ put_be64 (of_nat (length ciphertext) * 8)))"

section \<open>Counter mode\<close>

fun increment_loop :: "nat list \<Rightarrow> bytes \<Rightarrow> bytes" where
  "increment_loop [] c = c"
| "increment_loop (i # is) c =
    (let c = c[i := c ! i + 1] in if c ! i \<noteq> 0 then c else increment_loop is c)"

definition increment_counter :: "bytes \<Rightarrow> bytes" where
  "increment_counter c = increment_loop [15, 14, 13, 12] c"

text \<open>The loop shared by \<^verbatim>\<open>aes_ctr_crypt\<close> and \<^verbatim>\<open>aes128_ctr_crypt_update\<close>: the output and the counter after it.\<close>

function ctr_loop :: "bytes \<Rightarrow> bytes \<Rightarrow> bytes \<Rightarrow> bytes \<times> bytes" where
  "ctr_loop key counter inp =
    (if inp = [] then ([], counter)
     else let pad = aes128_encrypt_block key counter;
              (rest, c) = ctr_loop key (increment_counter counter) (drop 16 inp)
          in (map2 (XOR) (take 16 inp) pad @ rest, c))"
  by pat_completeness auto
termination
  by (relation "measure (\<lambda>(_, _, inp). length inp)") auto

declare ctr_loop.simps [simp del]

definition aes_ctr_crypt :: "bytes \<Rightarrow> bytes \<Rightarrow> bytes \<Rightarrow> bytes" where
  "aes_ctr_crypt key icb inp = fst (ctr_loop key (take 16 icb) inp)"

definition aes128_ctr_crypt_update ::
  "bytes option \<Rightarrow> bytes option \<Rightarrow> bytes option \<Rightarrow> nat \<Rightarrow> bytes option \<Rightarrow> bytes option \<times> bytes option" where
  "aes128_ctr_crypt_update key counter inp len out =
    (if key = None \<or> counter = None \<or> (inp = None \<and> len > 0) \<or> out = None then (counter, out)
     else case ctr_loop (the key) (the counter) (buf inp len) of
            (bs, counter) \<Rightarrow> (Some counter, store bs out))"

section \<open>GCM\<close>

definition gcm_j0 :: "bytes \<Rightarrow> bytes" where
  "gcm_j0 nonce = take 12 nonce @ [0, 0, 0, 1]"

definition gcm_tag :: "bytes \<Rightarrow> bytes \<Rightarrow> bytes \<Rightarrow> bytes \<Rightarrow> bytes" where
  "gcm_tag key nonce aad ciphertext =
    (let h = aes128_encrypt_block key (replicate 16 0);
         s = ghash h aad ciphertext;
         tag_mask = aes128_encrypt_block key (gcm_j0 nonce)
     in map (\<lambda>i. tag_mask ! i XOR s ! i) [0..<16])"

definition aes128_gcm_encrypt ::
  "bytes option \<Rightarrow> bytes option \<Rightarrow> bytes option \<Rightarrow> nat \<Rightarrow> bytes option \<Rightarrow> nat \<Rightarrow> bytes option \<Rightarrow> bytes option \<Rightarrow>
    int \<times> bytes option \<times> bytes option" where
  "aes128_gcm_encrypt key nonce aad aad_len plaintext plaintext_len ciphertext tag =
    (if key = None \<or> nonce = None \<or> (aad = None \<and> aad_len > 0) \<or> (plaintext = None \<and> plaintext_len > 0) \<or>
        ciphertext = None \<or> tag = None
     then (-1, ciphertext, tag)
     else let ctr = increment_counter (gcm_j0 (the nonce));
              ct = aes_ctr_crypt (the key) ctr (buf plaintext plaintext_len)
          in (0, store ct ciphertext, store (gcm_tag (the key) (the nonce) (buf aad aad_len) ct) tag))"

text \<open>The accumulated difference of two tags.\<close>

definition tag_diff :: "bytes \<Rightarrow> bytes \<Rightarrow> nat \<Rightarrow> byte" where
  "tag_diff expected tag n = foldl (\<lambda>diff i. diff OR (expected ! i XOR tag ! i)) 0 [0..<n]"

definition aes128_gcm_decrypt ::
  "bytes option \<Rightarrow> bytes option \<Rightarrow> bytes option \<Rightarrow> nat \<Rightarrow> bytes option \<Rightarrow> nat \<Rightarrow> bytes option \<Rightarrow> bytes option \<Rightarrow>
    int \<times> bytes option" where
  "aes128_gcm_decrypt key nonce aad aad_len ciphertext ciphertext_len tag plaintext =
    (if key = None \<or> nonce = None \<or> (aad = None \<and> aad_len > 0) \<or> (ciphertext = None \<and> ciphertext_len > 0) \<or>
        tag = None \<or> plaintext = None
     then (-1, plaintext)
     else let ct = buf ciphertext ciphertext_len;
              expected = gcm_tag (the key) (the nonce) (buf aad aad_len) ct
          in if tag_diff expected (the tag) 16 \<noteq> 0 then (-2, plaintext)
             else (0, store (aes_ctr_crypt (the key) (increment_counter (gcm_j0 (the nonce))) ct) plaintext))"

section \<open>Key unwrapping\<close>

fun xor_t_loop :: "nat list \<Rightarrow> bytes \<Rightarrow> u32 \<Rightarrow> bytes" where
  "xor_t_loop [] a t = a"
| "xor_t_loop (i # is) a t =
    (if t = 0 then a else xor_t_loop is (a[i := a ! i XOR ucast (t AND 0xff)]) (drop_bit 8 t))"

definition xor_t_into_a :: "bytes \<Rightarrow> u32 \<Rightarrow> bytes" where
  "xor_t_into_a a t = xor_t_loop [7, 6, 5, 4, 3, 2, 1, 0] a t"

definition unwrap_step :: "bytes \<Rightarrow> nat \<Rightarrow> bytes \<times> bytes \<Rightarrow> nat \<times> nat \<Rightarrow> bytes \<times> bytes" where
  "unwrap_step kek n ap ji =
    (case (ap, ji) of ((a, plaintext), (j, i)) \<Rightarrow>
       let block = xor_t_into_a a (of_nat (n * j + i)) @ slice ((i - 1) * 8) 8 plaintext;
           out = aes128_decrypt_block kek block
       in (take 8 out, blit ((i - 1) * 8) (drop 8 out) plaintext))"

definition unwrap_order :: "nat \<Rightarrow> (nat \<times> nat) list" where
  "unwrap_order n = concat (map (\<lambda>j. map (Pair j) (rev [1..<Suc n])) (rev [0..<6]))"

definition default_iv :: bytes where
  "default_iv = replicate 8 0xa6"

definition aes128_key_unwrap ::
  "bytes option \<Rightarrow> bytes option \<Rightarrow> nat \<Rightarrow> bytes option \<Rightarrow> nat option \<Rightarrow> int \<times> bytes option \<times> nat option" where
  "aes128_key_unwrap kek wrapped wrapped_len plaintext plaintext_len =
    (if kek = None \<or> wrapped = None \<or> plaintext = None \<or> plaintext_len = None \<or> wrapped_len < 24 \<or> wrapped_len mod 8 \<noteq> 0
     then (-1, plaintext, plaintext_len)
     else let n = wrapped_len div 8 - 1 in
       if n = 0 then (-1, plaintext, plaintext_len)
       else case foldl (unwrap_step (the kek) n) (take 8 (the wrapped), slice 8 (n * 8) (the wrapped)) (unwrap_order n) of
              (a, out) \<Rightarrow> if a \<noteq> default_iv then (-2, store (replicate (n * 8) 0) plaintext, Some 0)
                          else (0, store out plaintext, Some (n * 8)))"

section \<open>CCM\<close>

text \<open>The internal functions return \<open>None\<close> for the code's \<open>-1\<close> and otherwise the bytes they write.\<close>

definition ccm_valid_tag_len :: "nat \<Rightarrow> bool" where
  "ccm_valid_tag_len tag_len \<longleftrightarrow> tag_len \<ge> 4 \<and> tag_len \<le> 16 \<and> tag_len mod 2 = 0"

primrec ccm_len_fits :: "nat \<Rightarrow> nat \<Rightarrow> bool" where
  "ccm_len_fits 0 v \<longleftrightarrow> v = 0"
| "ccm_len_fits (Suc n) v \<longleftrightarrow> ccm_len_fits n (v div 256)"

text \<open>The \<open>n\<close> bytes that \<^verbatim>\<open>ccm_write_len\<close> stores, least significant last.\<close>

primrec ccm_write_len :: "nat \<Rightarrow> nat \<Rightarrow> bytes" where
  "ccm_write_len 0 v = []"
| "ccm_write_len (Suc n) v = ccm_write_len n (v div 256) @ [of_nat (v mod 256)]"

definition ccm_mac_block :: "bytes \<Rightarrow> bytes \<Rightarrow> bytes \<Rightarrow> bytes" where
  "ccm_mac_block key x block = aes128_encrypt_block key (map (\<lambda>i. x ! i XOR block ! i) [0..<16])"

definition ccm_mac_feed_byte :: "bytes \<Rightarrow> bytes \<times> bytes \<times> nat \<Rightarrow> byte \<Rightarrow> bytes \<times> bytes \<times> nat" where
  "ccm_mac_feed_byte key s v =
    (case s of (x, block, used) \<Rightarrow>
       let block = block[used := v]; used = used + 1
       in if used = 16 then (ccm_mac_block key x block, replicate 16 0, 0) else (x, block, used))"

definition ccm_mac_finish :: "bytes \<Rightarrow> bytes \<times> bytes \<times> nat \<Rightarrow> bytes" where
  "ccm_mac_finish key s = (case s of (x, block, used) \<Rightarrow> if used = 0 then x else ccm_mac_block key x block)"

definition ccm_mac_aad :: "bytes \<Rightarrow> bytes \<Rightarrow> bytes option \<Rightarrow> nat \<Rightarrow> bytes option" where
  "ccm_mac_aad key x aad aad_len =
    (if aad_len = 0 then Some x
     else if aad = None \<or> aad_len \<ge> 0xff00 then None
     else Some (ccm_mac_finish key (foldl (ccm_mac_feed_byte key) (x, replicate 16 0, 0)
            (of_nat (aad_len div 256) # of_nat (aad_len mod 256) # buf aad aad_len))))"

function ccm_mac_data :: "bytes \<Rightarrow> bytes \<Rightarrow> bytes \<Rightarrow> bytes" where
  "ccm_mac_data key x inp =
    (if inp = [] then x else ccm_mac_data key (ccm_mac_block key x (pad16 (take 16 inp))) (drop 16 inp))"
  by pat_completeness auto
termination
  by (relation "measure (\<lambda>(_, _, inp). length inp)") auto

declare ccm_mac_data.simps [simp del]

definition ccm_format_counter :: "bytes \<Rightarrow> nat \<Rightarrow> bytes" where
  "ccm_format_counter nonce counter =
    (let len_bytes = 15 - length nonce in of_nat (len_bytes - 1) # nonce @ ccm_write_len len_bytes counter)"

definition ccm_b0 :: "bytes \<Rightarrow> nat \<Rightarrow> nat \<Rightarrow> nat \<Rightarrow> bytes" where
  "ccm_b0 nonce aad_len plaintext_len tag_len =
    (let len_bytes = 15 - length nonce
     in ((if aad_len > 0 then 0x40 else 0) OR push_bit 3 (of_nat ((tag_len - 2) div 2) AND 0x07) OR
         (of_nat (len_bytes - 1) AND 0x07)) # nonce @ ccm_write_len len_bytes plaintext_len)"

definition ccm_compute_tag ::
  "bytes option \<Rightarrow> bytes option \<Rightarrow> nat \<Rightarrow> bytes option \<Rightarrow> nat \<Rightarrow> bytes option \<Rightarrow> nat \<Rightarrow> bool \<Rightarrow> nat \<Rightarrow> bytes option" where
  "ccm_compute_tag key nonce nonce_len aad aad_len plaintext plaintext_len tag_ok tag_len =
    (if key = None \<or> nonce = None \<or> \<not> tag_ok \<or> \<not> ccm_valid_tag_len tag_len \<or> nonce_len < 7 \<or> nonce_len > 13 \<or>
        (aad = None \<and> aad_len > 0) \<or> (plaintext = None \<and> plaintext_len > 0)
     then None
     else if \<not> ccm_len_fits (15 - nonce_len) plaintext_len then None
     else let nonce = take nonce_len (the nonce);
              x = ccm_mac_block (the key) (replicate 16 0) (ccm_b0 nonce aad_len plaintext_len tag_len)
          in case ccm_mac_aad (the key) x aad aad_len of
               None \<Rightarrow> None
             | Some x \<Rightarrow>
                 let x = ccm_mac_data (the key) x (buf plaintext plaintext_len);
                     s0 = aes128_encrypt_block (the key) (ccm_format_counter nonce 0)
                 in Some (map (\<lambda>i. x ! i XOR s0 ! i) [0..<tag_len]))"

function ccm_ctr_loop :: "bytes \<Rightarrow> bytes \<Rightarrow> nat \<Rightarrow> bytes \<Rightarrow> bytes" where
  "ccm_ctr_loop key nonce counter inp =
    (if inp = [] then []
     else map2 (XOR) (take 16 inp) (aes128_encrypt_block key (ccm_format_counter nonce counter)) @
          ccm_ctr_loop key nonce (counter + 1) (drop 16 inp))"
  by pat_completeness auto
termination
  by (relation "measure (\<lambda>(_, _, _, inp). length inp)") auto

declare ccm_ctr_loop.simps [simp del]

definition ccm_ctr_crypt :: "bytes option \<Rightarrow> bytes option \<Rightarrow> nat \<Rightarrow> bytes option \<Rightarrow> nat \<Rightarrow> bool \<Rightarrow> bytes option" where
  "ccm_ctr_crypt key nonce nonce_len inp input_len output_ok =
    (if key = None \<or> nonce = None \<or> (inp = None \<and> input_len > 0) \<or> (\<not> output_ok \<and> input_len > 0) \<or>
        nonce_len < 7 \<or> nonce_len > 13
     then None else Some (ccm_ctr_loop (the key) (take nonce_len (the nonce)) 1 (buf inp input_len)))"

definition aes128_ccm_encrypt ::
  "bytes option \<Rightarrow> bytes option \<Rightarrow> nat \<Rightarrow> bytes option \<Rightarrow> nat \<Rightarrow> bytes option \<Rightarrow> nat \<Rightarrow> bytes option \<Rightarrow> bytes option \<Rightarrow> nat \<Rightarrow>
    int \<times> bytes option \<times> bytes option" where
  "aes128_ccm_encrypt key nonce nonce_len aad aad_len plaintext plaintext_len ciphertext tag tag_len =
    (case ccm_compute_tag key nonce nonce_len aad aad_len plaintext plaintext_len (tag \<noteq> None) tag_len of
       None \<Rightarrow> (-1, ciphertext, tag)
     | Some t \<Rightarrow>
         (case ccm_ctr_crypt key nonce nonce_len plaintext plaintext_len (ciphertext \<noteq> None) of
            None \<Rightarrow> (-1, ciphertext, store t tag)
          | Some ct \<Rightarrow> (0, store ct ciphertext, store t tag)))"

text \<open>
  The plaintext is decrypted into the caller's buffer before the tag is known: a failure to compute the
  expected tag returns with it in place, a mismatch clears it.
\<close>

definition aes128_ccm_decrypt ::
  "bytes option \<Rightarrow> bytes option \<Rightarrow> nat \<Rightarrow> bytes option \<Rightarrow> nat \<Rightarrow> bytes option \<Rightarrow> nat \<Rightarrow> bytes option \<Rightarrow> nat \<Rightarrow> bytes option \<Rightarrow>
    int \<times> bytes option" where
  "aes128_ccm_decrypt key nonce nonce_len aad aad_len ciphertext ciphertext_len tag tag_len plaintext =
    (if tag = None \<or> plaintext = None then (-1, plaintext)
     else case ccm_ctr_crypt key nonce nonce_len ciphertext ciphertext_len True of
       None \<Rightarrow> (-1, plaintext)
     | Some pt \<Rightarrow>
         (case ccm_compute_tag key nonce nonce_len aad aad_len (Some pt) ciphertext_len True tag_len of
            None \<Rightarrow> (-1, store pt plaintext)
          | Some expected \<Rightarrow>
              if tag_diff expected (the tag) tag_len \<noteq> 0 then (-2, store (replicate ciphertext_len 0) plaintext)
              else (0, store pt plaintext)))"

section \<open>Buffers\<close>

lemma store_simps [simp]: "store bs None = None" "store bs (Some b) = Some (blit 0 bs b)"
  by (simp_all add: store_def)

lemma take_blit_0 [simp]: "n = length bs \<Longrightarrow> take n (blit 0 bs b) = bs"
  by (simp add: blit_def)

lemma buf_simps_opt [simp]: "buf None n = []" "buf (Some b) n = take n b"
  by (simp_all add: buf_def)

lemma length_pad16 [simp]: "length bs \<le> 16 \<Longrightarrow> length (pad16 bs) = 16"
  by (simp add: pad16_def)

lemma foldl_undo:
  assumes "\<And>s x. P s \<Longrightarrow> x \<in> set xs \<Longrightarrow> g (f s x) x = s \<and> P (f s x)" "P s"
  shows "foldl g (foldl f s xs) (rev xs) = s \<and> P (foldl f s xs)"
  using assms
proof (induction xs rule: rev_induct)
  case (snoc x xs)
  then have IH: "foldl g (foldl f s xs) (rev xs) = s" "P (foldl f s xs)" by simp_all
  then have "g (f (foldl f s xs) x) x = foldl f s xs \<and> P (f (foldl f s xs) x)" using snoc.prems(1) by simp
  then show ?case using IH by simp
qed simp

section \<open>Counter mode as a key stream\<close>

lemma length_increment_loop [simp]: "length (increment_loop is c) = length c"
  by (induction "is" c rule: increment_loop.induct) (simp_all add: Let_def)

lemma length_increment_counter [simp]: "length (increment_counter c) = length c"
  by (simp only: increment_counter_def length_increment_loop)

lemma length_counters [simp]: "length ((increment_counter ^^ n) c) = length c"
  by (induction n) simp_all

lemma unat_byte_suc: "unat (b + 1 :: byte) = (if unat b = 255 then 0 else unat b + 1)"
proof -
  have "unat (b + 1) = (unat b + 1) mod 256" by (simp add: unat_word_ariths)
  then show ?thesis using unat_byte_less [of b] by (simp add: mod_Suc)
qed

lemma byte_suc_0: "b + 1 = (0 :: byte) \<longleftrightarrow> unat b = 255"
  using unat_byte_suc [of b] by (simp add: word_unat_eq_iff)

lemma increment_counter_nat:
  assumes "length c = 16"
  shows "take 12 (increment_counter c) = take 12 c \<and>
    be_nat (drop 12 (increment_counter c)) = (be_nat (drop 12 c) + 1) mod 2 ^ 32"
proof -
  from assms obtain a0 a1 a2 a3 a4 a5 a6 a7 a8 a9 a10 a11 a b d e
    where c: "c = [a0, a1, a2, a3, a4, a5, a6, a7, a8, a9, a10, a11, a, b, d, e]" by (rule list16_cases)
  have u: "unat a < 256" "unat b < 256" "unat d < 256" "unat e < 256" by simp_all
  have m: "x = y mod 4294967296" if "x = y" "y < 4294967296" for x y :: nat using that by simp
  show ?thesis unfolding c increment_counter_def
    apply (simp add: Let_def be_nat_def unat_byte_suc byte_suc_0)
    apply (intro conjI impI; rule m; insert u, linarith)
    done
qed

lemma ctr_loop_stream:
  "length (fst (ctr_loop key c inp)) = length inp \<and>
    (\<forall>k < length inp. fst (ctr_loop key c inp) ! k =
       inp ! k XOR aes128_encrypt_block key ((increment_counter ^^ (k div 16)) c) ! (k mod 16)) \<and>
    snd (ctr_loop key c inp) = (increment_counter ^^ ((length inp + 15) div 16)) c"
proof (induction key c inp rule: ctr_loop.induct)
  case (1 key c inp)
  show ?case
  proof (cases "inp = []")
    case True
    then show ?thesis by (simp add: ctr_loop.simps)
  next
    case False
    obtain r d where rd: "ctr_loop key (increment_counter c) (drop 16 inp) = (r, d)" by (cases "ctr_loop key (increment_counter c) (drop 16 inp)")
    let ?e = "aes128_encrypt_block key c"
    have e: "ctr_loop key c inp = (map2 (XOR) (take 16 inp) ?e @ r, d)"
      using False rd by (simp add: ctr_loop.simps [of key c inp] Let_def)
    have IH: "length r = length inp - 16" "d = (increment_counter ^^ ((length inp - 16 + 15) div 16)) (increment_counter c)"
      "k < length inp - 16 \<Longrightarrow> r ! k = inp ! (k + 16) XOR aes128_encrypt_block key ((increment_counter ^^ (k div 16)) (increment_counter c)) ! (k mod 16)" for k
      using "1.IH" [OF False refl] rd by (auto simp: add.commute)
    have "(map2 (XOR) (take 16 inp) ?e @ r) ! k = inp ! k XOR aes128_encrypt_block key ((increment_counter ^^ (k div 16)) c) ! (k mod 16)"
      if k: "k < length inp" for k
    proof (cases "k < 16")
      case True
      then show ?thesis using k by (simp add: nth_append)
    next
      case False
      then have d: "k div 16 = Suc ((k - 16) div 16)" "k mod 16 = (k - 16) mod 16" by (simp_all add: le_div_geq le_mod_geq)
      have "(map2 (XOR) (take 16 inp) ?e @ r) ! k = r ! (k - 16)" using False k by (simp add: nth_append)
      also have "\<dots> = inp ! k XOR aes128_encrypt_block key ((increment_counter ^^ (k div 16)) c) ! (k mod 16)"
        using IH(3) [of "k - 16"] k False unfolding d by (simp add: funpow_swap1)
      finally show ?thesis .
    qed
    moreover have "d = (increment_counter ^^ ((length inp + 15) div 16)) c"
    proof (cases "length inp \<le> 16")
      case True
      then have "(length inp + 15) div 16 = 1" using False by (cases inp) auto
      then show ?thesis using IH(2) True by simp
    next
      case False
      then have "(length inp + 15) div 16 = Suc ((length inp - 16 + 15) div 16)" by simp
      then show ?thesis using IH(2) by (simp add: funpow_swap1 del: One_nat_def)
    qed
    ultimately show ?thesis using e IH(1) by simp
  qed
qed

lemmas ctr_loop_parts = ctr_loop_stream [THEN conjunct1] ctr_loop_stream [THEN conjunct2, THEN conjunct1, rule_format]
  ctr_loop_stream [THEN conjunct2, THEN conjunct2]

lemma length_ctr [simp]: "length (aes_ctr_crypt key c inp) = length inp"
  by (simp add: aes_ctr_crypt_def ctr_loop_parts)

lemma ctr_involution: "aes_ctr_crypt key c (aes_ctr_crypt key c inp) = inp"
  by (rule nth_equalityI) (simp_all add: aes_ctr_crypt_def ctr_loop_parts xor.assoc)

lemma ctr_loop_append:
  assumes "length a mod 16 = 0"
  shows "ctr_loop key c (a @ b) =
    (case ctr_loop key c a of (x, c') \<Rightarrow> case ctr_loop key c' b of (y, c'') \<Rightarrow> (x @ y, c''))"
  using assms
proof (induction "length a div 16" arbitrary: a c)
  case 0
  then have "a = []" by (metis mod_eq_self_iff_div_eq_0 length_0_conv)
  then show ?case by (simp add: ctr_loop.simps [of key c "[]"] split: prod.splits)
next
  case (Suc n)
  then have a: "16 \<le> length a" "a \<noteq> []" by auto
  obtain x d where x: "ctr_loop key (increment_counter c) (drop 16 a) = (x, d)" by (cases "ctr_loop key (increment_counter c) (drop 16 a)")
  have IH: "ctr_loop key (increment_counter c) (drop 16 a @ b) = (case (x, d) of (x, c') \<Rightarrow> case ctr_loop key c' b of (y, c'') \<Rightarrow> (x @ y, c''))"
    unfolding x [symmetric]
  proof (rule Suc.hyps(1))
    show "n = length (drop 16 a) div 16" using Suc.hyps(2) a(1) by (simp add: le_div_geq)
    show "length (drop 16 a) mod 16 = 0" using Suc.prems a(1) by (simp add: le_mod_geq)
  qed
  obtain y e where y: "ctr_loop key d b = (y, e)" by (cases "ctr_loop key d b")
  show ?case using IH a by (simp add: ctr_loop.simps [of key c "a @ b"] ctr_loop.simps [of key c a] x y Let_def)
qed

section \<open>Tag comparison\<close>

lemma byte_xor_0: "(a :: byte) XOR b = 0 \<longleftrightarrow> a = b"
proof
  assume "a XOR b = 0"
  then show "a = b" using xor_cancel_left [of a b] by simp
qed simp

lemma tag_diff_fold: "foldl (\<lambda>diff i. diff OR (e ! i XOR t ! i)) d is = (0 :: byte) \<longleftrightarrow> d = 0 \<and> (\<forall>i \<in> set is. e ! i = t ! i)"
  by (induction "is" arbitrary: d) (auto simp: or_eq_0_iff byte_xor_0)

lemma tag_diff_0:
  assumes "n \<le> length e" "n \<le> length t"
  shows "tag_diff e t n = 0 \<longleftrightarrow> take n e = take n t"
  using assms by (auto simp: tag_diff_def tag_diff_fold list_eq_iff_nth_eq)

section \<open>Properties of counter mode and GCM\<close>

lemma length_gcm_tag [simp]: "length (gcm_tag key nonce aad ct) = 16"
  by (simp add: gcm_tag_def Let_def)

text \<open>The counter of the counter mode is a 32-bit big-endian number in the last four bytes of the block: incrementing
  adds one modulo \<open>2 ^ 32\<close> and never carries into the twelve nonce bytes.\<close>

theorem increment_counter_wraps:
  assumes "length c = 16"
  shows "take 12 (increment_counter c) = take 12 c \<and>
    be_nat (drop 12 (increment_counter c)) = (be_nat (drop 12 c) + 1) mod 2 ^ 32"
  by (rule increment_counter_nat [OF assms])

theorem increment_counter_wraps_witness:
  "take 12 (increment_counter (replicate 16 0xff)) = replicate 12 0xff \<and>
   be_nat (drop 12 (increment_counter (replicate 16 0xff))) = (be_nat (replicate 4 0xff) + 1) mod 2 ^ 32"
  using increment_counter_wraps [of "replicate 16 0xff"] by simp

text \<open>The exported counter mode is the key stream of the block cipher: byte \<open>k\<close> of the output is byte \<open>k\<close> of the input
  combined with byte \<open>k mod 16\<close> of the encryption of the counter incremented \<open>k div 16\<close> times, nothing past the
  input's length is written, and applying it again from the same counter gives the input back.\<close>

theorem ctr_update_is_key_stream:
  assumes "length inp \<le> length out"
  shows "\<exists>bs. aes128_ctr_crypt_update (Some key) (Some c) (Some inp) (length inp) (Some out) =
      (Some ((increment_counter ^^ ((length inp + 15) div 16)) c), Some (bs @ drop (length inp) out)) \<and>
    length bs = length inp \<and>
    (\<forall>k < length inp. bs ! k = inp ! k XOR aes128_encrypt_block key ((increment_counter ^^ (k div 16)) c) ! (k mod 16)) \<and>
    snd (aes128_ctr_crypt_update (Some key) (Some c) (Some bs) (length bs) (Some out)) = Some (inp @ drop (length inp) out)"
proof (intro exI conjI)
  let ?bs = "fst (ctr_loop key c inp)"
  show "aes128_ctr_crypt_update (Some key) (Some c) (Some inp) (length inp) (Some out) =
      (Some ((increment_counter ^^ ((length inp + 15) div 16)) c), Some (?bs @ drop (length inp) out))"
    using ctr_loop_stream [of key c inp] by (cases "ctr_loop key c inp") (simp add: aes128_ctr_crypt_update_def blit_def)
  have "fst (ctr_loop key c ?bs) = inp"
    by (rule nth_equalityI) (simp_all add: ctr_loop_parts xor.assoc)
  then show "snd (aes128_ctr_crypt_update (Some key) (Some c) (Some ?bs) (length ?bs) (Some out)) = Some (inp @ drop (length inp) out)"
    by (auto simp: aes128_ctr_crypt_update_def blit_def split: prod.split)
qed (simp_all add: ctr_loop_parts)

theorem ctr_update_is_key_stream_witness:
  "\<exists>bs. aes128_ctr_crypt_update (Some [7]) (Some (replicate 16 0xff)) (Some [1, 2, 3]) 3 (Some [0, 0, 0, 9]) =
    (Some (increment_counter (replicate 16 0xff)), Some (bs @ [9])) \<and>
    bs ! 2 = 3 XOR aes128_encrypt_block [7] (replicate 16 0xff) ! 2"
proof -
  have three: "length [1, 2, 3 :: byte] = 3" by simp
  have le: "length [1, 2, 3 :: byte] \<le> length [0, 0, 0, 9 :: byte]" by simp
  obtain bs where bs: "aes128_ctr_crypt_update (Some [7]) (Some (replicate 16 0xff)) (Some [1, 2, 3]) 3 (Some [0, 0, 0, 9]) =
      (Some ((increment_counter ^^ ((3 + 15) div 16)) (replicate 16 0xff)), Some (bs @ drop 3 [0, 0, 0, 9]))"
    "\<forall>k < 3. bs ! k = [1, 2, 3] ! k XOR aes128_encrypt_block [7] ((increment_counter ^^ (k div 16)) (replicate 16 0xff)) ! (k mod 16)"
    using ctr_update_is_key_stream [OF le, of "[7]" "replicate 16 0xff"] unfolding three by (elim exE conjE) (rule that)
  have "bs ! 2 = 3 XOR aes128_encrypt_block [7] (replicate 16 0xff) ! 2"
    using bs(2) [rule_format, of 2] by (simp del: replicate.simps)
  moreover have "(3 + 15) div 16 = (1 :: nat)" "drop 3 [0, 0, 0, 9 :: byte] = [9]" by simp_all
  ultimately show ?thesis using bs(1) by (intro exI [of _ bs] conjI) (simp_all only: funpow.simps One_nat_def comp_id)
qed

text \<open>C30: GCM decryption accepts what GCM encryption produced and gives back the plaintext, leaving the rest of the
  output buffer alone; with any other tag it returns \<open>-2\<close> and does not touch the output buffer.\<close>

theorem gcm_decrypt_encrypt:
  assumes "aes128_gcm_encrypt (Some key) (Some nonce) aad aad_len (Some pt) (length pt) (Some cbuf) (Some tbuf) = (0, Some ct, Some tag)"
    and "length pt \<le> length cbuf" "length tbuf = 16" "length pt \<le> length obuf" "length tag' = 16"
  shows "aes128_gcm_decrypt (Some key) (Some nonce) aad aad_len (Some ct) (length pt) (Some tag') (Some obuf) =
    (if tag' = tag then (0, Some (pt @ drop (length pt) obuf)) else (-2, Some obuf))"
proof -
  let ?ctr = "increment_counter (gcm_j0 nonce)" let ?c = "aes_ctr_crypt key ?ctr pt"
  have ok: "\<not> (aad = None \<and> aad_len > 0)" using assms(1) by (auto simp: aes128_gcm_encrypt_def split: if_splits)
  have ct: "ct = blit 0 ?c cbuf" "tag = gcm_tag key nonce (buf aad aad_len) ?c"
    using assms(1,3) ok by (auto simp: aes128_gcm_encrypt_def Let_def)
  have "take (length pt) ct = ?c" using ct by simp
  then show ?thesis using ok assms(5) ct(2)
    by (simp add: aes128_gcm_decrypt_def Let_def tag_diff_0 ctr_involution) (auto simp: blit_def)
qed

theorem gcm_decrypt_encrypt_witness:
  "\<exists>ct tag. aes128_gcm_encrypt (Some []) (Some (replicate 12 3)) None 0 (Some [1, 2]) 2 (Some [0, 0]) (Some (replicate 16 0)) = (0, Some ct, Some tag) \<and>
    aes128_gcm_decrypt (Some []) (Some (replicate 12 3)) None 0 (Some ct) 2 (Some tag) (Some [0, 0, 5]) = (0, Some [1, 2, 5])"
proof -
  obtain ct tag where e: "aes128_gcm_encrypt (Some []) (Some (replicate 12 3)) None 0 (Some [1, 2]) (length [1, 2 :: byte]) (Some [0, 0]) (Some (replicate 16 0)) = (0, Some ct, Some tag)"
    by (simp add: aes128_gcm_encrypt_def Let_def blit_def del: length_Cons)
  then have "length tag = 16" by (auto simp: aes128_gcm_encrypt_def Let_def)
  with gcm_decrypt_encrypt [OF e, of "[0, 0, 5]" tag] e show ?thesis
    by (auto simp: numeral_2_eq_2)
qed

end
