(* ===== verification/AesAuth.thy ===== *)
theory AesAuth
  imports AesModes
begin

text \<open>
  The authenticated uses of the block cipher in \<^verbatim>\<open>kernel/lib/aes_gcm.c\<close> against the standards they implement: the
  field multiplication of GHASH (SP 800-38D), key wrapping (RFC 3394) and CCM (RFC 3610). The
  standards are written as reference definitions over whole blocks and words; the lemmas relate
  the byte loops of the code to them.
\<close>

section \<open>The field multiplication of GHASH\<close>

text \<open>A block as the 128-bit word whose most significant bit is the first bit of the block.\<close>

definition be_word :: "bytes \<Rightarrow> 128 word" where
  "be_word bs = foldl (\<lambda>w b. push_bit 8 w OR ucast b) 0 bs"

text \<open>Multiplication by the indeterminate, and the product as the sum of the shifted operand over the bits of the other.\<close>

definition gf128_x :: "128 word \<Rightarrow> 128 word" where
  "gf128_x v = (if bit v 0 then drop_bit 1 v XOR push_bit 120 0xe1 else drop_bit 1 v)"

definition gf128_mul :: "128 word \<Rightarrow> 128 word \<Rightarrow> 128 word" where
  "gf128_mul x y = foldl (XOR) 0 (map (\<lambda>i. if bit x (127 - i) then (gf128_x ^^ i) y else 0) [0..<128])"

lemma bit_be_word_len:
  "length bs \<le> 16 \<Longrightarrow> bit (be_word bs) n \<longleftrightarrow> n < 8 * length bs \<and> bit (bs ! (length bs - 1 - n div 8)) (n mod 8)"
proof (induction bs arbitrary: n rule: rev_induct)
  case Nil
  then show ?case by (simp add: be_word_def)
next
  case (snoc b bs)
  have e: "be_word (bs @ [b]) = push_bit 8 (be_word bs) OR ucast b" by (simp add: be_word_def)
  show ?case
  proof (cases "n < 8")
    case True
    then show ?thesis by (simp add: e bit_simps nth_append)
  next
    case False
    then have d: "n div 8 = Suc ((n - 8) div 8)" "n mod 8 = (n - 8) mod 8" by (simp_all add: le_div_geq le_mod_geq)
    have "bit (ucast b :: 128 word) n = False" using False by (auto simp: bit_simps dest: bit_imp_le_length)
    then have "bit (be_word (bs @ [b])) n \<longleftrightarrow> n < 128 \<and> bit (be_word bs) (n - 8)" using False by (auto simp: e bit_simps)
    also have "\<dots> \<longleftrightarrow> n < 8 * length (bs @ [b]) \<and> bit (bs ! (length bs - 1 - (n - 8) div 8)) ((n - 8) mod 8)"
    proof -
      have "n < 128 \<and> n - 8 < 8 * length bs \<longleftrightarrow> n < 8 * length (bs @ [b])" using snoc.prems False by auto
      then show ?thesis using snoc.IH [of "n - 8"] snoc.prems by simp blast
    qed
    also have "\<dots> \<longleftrightarrow> n < 8 * length (bs @ [b]) \<and> bit ((bs @ [b]) ! (length (bs @ [b]) - 1 - n div 8)) (n mod 8)"
      unfolding d using False by (auto simp: nth_append)
    finally show ?thesis .
  qed
qed

lemma bit_be_word: "length bs = 16 \<Longrightarrow> n < 128 \<Longrightarrow> bit (be_word bs) n = bit (bs ! (15 - n div 8)) (n mod 8)"
  by (simp add: bit_be_word_len)

lemma length_xor_block [simp]: "length (xor_block xs ys) = 16"
  by (simp add: xor_block_def)

lemma nth_xor_block: "k < 16 \<Longrightarrow> xor_block xs ys ! k = xs ! k XOR ys ! k"
  unfolding xor_block_def by (subst nth_map) simp_all

lemma be_word_xor: "length xs = 16 \<Longrightarrow> length ys = 16 \<Longrightarrow> be_word (xor_block xs ys) = be_word xs XOR be_word ys"
  by (rule bit_word_eqI) (simp add: bit_be_word bit_xor_iff nth_xor_block)

lemma length_shift_right_loop [simp]: "length (shift_right_loop c bs) = length bs"
  by (induction c bs rule: shift_right_loop.induct) simp_all

lemma nth_shift_right_loop:
  "k < length bs \<Longrightarrow> shift_right_loop c bs ! k = drop_bit 1 (bs ! k) OR push_bit 7 (if k = 0 then c else bs ! (k - 1) AND 1)"
  by (induction c bs arbitrary: k rule: shift_right_loop.induct) (auto simp: nth_Cons split: nat.splits)

lemma be_word_shift:
  assumes "length v = 16"
  shows "be_word (shift_right_one v) = drop_bit 1 (be_word v)"
proof (rule bit_word_eqI)
  fix n assume "n < LENGTH(128)"
  then have n: "n < 128" by simp
  have k: "15 - n div 8 < 16" by simp
  have L: "bit (be_word (shift_right_one v)) n = bit (shift_right_loop 0 v ! (15 - n div 8)) (n mod 8)"
    using assms n by (simp add: bit_be_word shift_right_one_def)
  show "bit (be_word (shift_right_one v)) n = bit (drop_bit 1 (be_word v)) n"
  proof (cases "n mod 8 = 7")
    case False
    then have d: "Suc n div 8 = n div 8" "Suc n mod 8 = Suc (n mod 8)" by presburger+
    have n': "Suc n < 128" using False n by presburger
    have "bit (shift_right_loop 0 v ! (15 - n div 8)) (n mod 8) = bit (v ! (15 - n div 8)) (Suc (n mod 8))"
      using assms k False by (auto simp: nth_shift_right_loop bit_simps less_Suc_eq)
    then show ?thesis using L n n' assms by (simp add: bit_drop_bit_eq bit_be_word d)
  next
    case True
    then have d: "Suc n div 8 = Suc (n div 8)" "Suc n mod 8 = 0" by presburger+
    have b7: "\<not> bit (v ! (15 - n div 8)) 8" using bit_imp_le_length [of "v ! (15 - n div 8)" 8] by auto
    show ?thesis
    proof (cases "n = 127")
      case True
      then show ?thesis using L assms b7 bit_imp_le_length [of "be_word v" 128]
        by (auto simp: bit_drop_bit_eq nth_shift_right_loop bit_simps)
    next
      case False
      then have n': "Suc n < 128" "n div 8 < 15" using n \<open>n mod 8 = 7\<close> by presburger+
      have "bit (shift_right_loop 0 v ! (15 - n div 8)) (n mod 8) = bit (v ! (14 - n div 8)) 0"
        using assms k True n' b7 by (auto simp: nth_shift_right_loop bit_simps)
      then show ?thesis using L n' assms by (simp add: bit_drop_bit_eq bit_be_word d)
    qed
  qed
qed

lemma be_word_reduce:
  assumes "length v = 16"
  shows "be_word (v[0 := v ! 0 XOR b]) = be_word v XOR push_bit 120 (ucast b)"
proof (rule bit_word_eqI)
  fix n assume "n < LENGTH(128)"
  then have n: "n < 128" by simp
  show "bit (be_word (v[0 := v ! 0 XOR b])) n = bit (be_word v XOR push_bit 120 (ucast b)) n"
  proof (cases "n < 120")
    case True
    then have "15 - n div 8 \<noteq> 0" by simp
    then show ?thesis using True n assms by (simp add: bit_be_word bit_simps)
  next
    case False
    then have "n div 8 = 15" "n mod 8 = n - 120" "n - 120 < 128" using n by presburger+
    then show ?thesis using False n assms by (simp add: bit_be_word bit_simps)
  qed
qed

lemma gcm_multiply_step_word:
  assumes "length z = 16" "length v = 16" "length x = 16" "i < 128"
  shows "case gcm_multiply_step x (z, v) i of (z', v') \<Rightarrow> length z' = 16 \<and> length v' = 16 \<and>
    be_word z' = be_word z XOR (if bit (be_word x) (127 - i) then be_word v else 0) \<and> be_word v' = gf128_x (be_word v)"
proof -
  have d: "(127 - i) div 8 = 15 - i div 8" "(127 - i) mod 8 = 7 - i mod 8"
  proof -
    have "i div 8 \<le> 15" "i mod 8 \<le> 7" using assms(4) by linarith+
    then have e: "127 - i = 8 * (15 - i div 8) + (7 - i mod 8)" using div_mult_mod_eq [of i 8] by linarith
    have qr: "(8 * q + r) div 8 = q" "(8 * q + r) mod 8 = r" if "r < 8" for q r :: nat using that by simp_all
    show "(127 - i) div 8 = 15 - i div 8" "(127 - i) mod 8 = 7 - i mod 8" unfolding e by (rule qr; simp)+
  qed
  have "\<forall>m \<in> set [0..<8]. drop_bit m (0x80 :: byte) = 2 ^ (7 - m)" by (simp add: upt_rec)
  then have "drop_bit (i mod 8) (0x80 :: byte) = 2 ^ (7 - i mod 8)" by simp
  then have "x ! (i div 8) AND drop_bit (i mod 8) 0x80 \<noteq> 0 \<longleftrightarrow> bit (x ! (i div 8)) (7 - i mod 8)"
    using and_exp_eq_0_iff_not_bit [of "x ! (i div 8)" "7 - i mod 8"] by simp
  then have t: "x ! (i div 8) AND drop_bit (i mod 8) 0x80 \<noteq> 0 \<longleftrightarrow> bit (be_word x) (127 - i)"
    using assms(3,4) by (simp add: bit_be_word d)
  have "v ! 15 AND 1 \<noteq> 0 \<longleftrightarrow> bit (v ! 15) 0" by (simp add: and_one_eq bit_0 odd_iff_mod_2_eq_one)
  then have l: "v ! 15 AND 1 \<noteq> 0 \<longleftrightarrow> bit (be_word v) 0" using assms(2) by (simp add: bit_be_word)
  have s: "length (shift_right_one v) = 16" using assms(2) by (simp add: shift_right_one_def)
  show ?thesis
    using assms s by (simp add: gcm_multiply_step_def Let_def t l be_word_xor be_word_shift be_word_reduce gf128_x_def)
qed

lemma gcm_multiply_fold:
  assumes "length h = 16" "length x = 16" "n \<le> 128"
  shows "case foldl (gcm_multiply_step x) (replicate 16 0, h) [0..<n] of (z, v) \<Rightarrow> length z = 16 \<and> length v = 16 \<and>
    be_word v = (gf128_x ^^ n) (be_word h) \<and>
    be_word z = foldl (XOR) 0 (map (\<lambda>i. if bit (be_word x) (127 - i) then (gf128_x ^^ i) (be_word h) else 0) [0..<n])"
  using assms(3)
proof (induction n)
  case 0
  have "be_word (replicate 16 0) = 0" by (rule bit_word_eqI) (simp add: bit_be_word)
  then show ?case using assms by simp
next
  case (Suc n)
  obtain z v where zv: "foldl (gcm_multiply_step x) (replicate 16 0, h) [0..<n] = (z, v)" by fastforce
  then show ?case using Suc gcm_multiply_step_word [of z v x n] assms(2) by (auto split: prod.splits)
qed

section \<open>Key wrapping\<close>

text \<open>RFC 3394: six passes over the \<open>n\<close> registers, with the step number mixed into the check value.\<close>

definition wrap_step :: "bytes \<Rightarrow> nat \<Rightarrow> bytes \<times> bytes \<Rightarrow> nat \<times> nat \<Rightarrow> bytes \<times> bytes" where
  "wrap_step kek n ar ji =
    (case (ar, ji) of ((a, r), (j, i)) \<Rightarrow>
       let b = aes128_encrypt_block kek (a @ slice ((i - 1) * 8) 8 r)
       in (map2 (XOR) (take 8 b) (put_be64 (of_nat (n * j + i))), blit ((i - 1) * 8) (drop 8 b) r))"

definition rfc3394_wrap :: "bytes \<Rightarrow> bytes \<Rightarrow> bytes" where
  "rfc3394_wrap kek p =
    (let n = length p div 8
     in case foldl (wrap_step kek n) (default_iv, p) (concat (map (\<lambda>j. map (Pair j) [1..<Suc n]) [0..<6])) of
          (a, r) \<Rightarrow> a @ r)"

lemma xor_t_loop_0 [simp]: "xor_t_loop is a 0 = a"
  by (cases "is") simp_all

lemma xor_t_loop_step:
  "i < length a \<Longrightarrow> xor_t_loop (i # is) a t = xor_t_loop is (a[i := a ! i XOR ucast (t AND 0xff)]) (drop_bit 8 t)"
  by (cases "t = 0") simp_all

lemma length_put_be64 [simp]: "length (put_be64 v) = 8"
  by (simp add: put_be64_def)

lemma xor_t_be64:
  assumes "length a = 8"
  shows "xor_t_into_a a t = map2 (XOR) a (put_be64 (ucast t))"
proof -
  obtain a0 a1 a2 a3 a4 a5 a6 a7 where a: "a = [a0, a1, a2, a3, a4, a5, a6, a7]"
    using assms by (auto simp: length_Suc_conv numeral_eq_Suc)
  have low: "ucast (drop_bit k t AND 0xff) = (ucast (drop_bit k (ucast t :: u64)) :: byte)" for k
  proof (rule bit_word_eqI)
    fix n assume "n < LENGTH(8)"
    then have "bit (0xff :: u32) n" by (auto simp: numeral_eq_Suc less_Suc_eq bit_Suc bit_0)
    then show "bit (ucast (drop_bit k t AND 0xff) :: byte) n = bit (ucast (drop_bit k (ucast t :: u64)) :: byte) n"
      using \<open>n < LENGTH(8)\<close> bit_imp_le_length [of t "n + k"] by (auto simp: bit_simps ac_simps)
  qed
  have high: "drop_bit k (ucast t :: u64) = 0" if "32 \<le> k" for k
    using that bit_imp_le_length [of t] by (intro bit_word_eqI) (fastforce simp: bit_simps)
  have up: "[0..<8] = [0, 1, 2, 3, 4, 5, 6, 7 :: nat]" by (simp add: upt_rec)
  show ?thesis unfolding a xor_t_into_a_def put_be64_def up
    by (simp add: xor_t_loop_step low [of 0, simplified] low high del: xor_t_loop.simps(2))
qed

lemma encrypt_decrypt:
  assumes "length b = 16"
  shows "aes128_encrypt_block key (aes128_decrypt_block key b) = b"
proof -
  let ?A = "{b :: bytes. length b = 16}"
  have fin: "finite ?A" using finite_lists_length_eq [of "UNIV :: byte set" 16] by simp
  have inj: "inj_on (aes128_encrypt_block key) ?A"
    by (rule inj_on_inverseI [where g = "aes128_decrypt_block key"]) (simp add: decrypt_encrypt)
  have "aes128_encrypt_block key ` ?A = ?A" by (rule endo_inj_surj [OF fin _ inj]) auto
  then have "b \<in> aes128_encrypt_block key ` ?A" using assms by blast
  then obtain c where c: "b = aes128_encrypt_block key c" "length c = 16" by blast
  then show ?thesis by (simp add: decrypt_encrypt)
qed

lemma length_decrypt_block [simp]: "length (aes128_decrypt_block key b) = 16"
  by (simp add: decrypt_rounds)

lemma blit_slice_back:
  "i + length ys \<le> length r \<Longrightarrow> n = length ys \<Longrightarrow> blit i (slice i n r) (blit i ys r) = r"
  by (rule nth_equalityI) (auto simp: nth_blit nth_slice)

definition wrap_ok :: "nat \<Rightarrow> bytes \<times> bytes \<Rightarrow> bool" where
  "wrap_ok n ar \<longleftrightarrow> length (fst ar) = 8 \<and> length (snd ar) = 8 * n"

lemma unwrap_step_word:
  assumes "n * j + i < 2 ^ 32" "length a = 8"
  shows "unwrap_step kek n (a, r) (j, i) =
    (let out = aes128_decrypt_block kek (map2 (XOR) a (put_be64 (of_nat (n * j + i))) @ slice ((i - 1) * 8) 8 r)
     in (take 8 out, blit ((i - 1) * 8) (drop 8 out) r))"
proof -
  have "ucast (of_nat (n * j + i) :: u32) = (of_nat (n * j + i) :: u64)"
    using assms(1) by (intro word_unat_eq_iff [THEN iffD2]) (simp add: unsigned_ucast_eq unsigned_of_nat take_bit_nat_eq_self del: of_nat_add of_nat_mult)
  then show ?thesis by (simp add: unwrap_step_def xor_t_be64 [OF assms(2)] Let_def)
qed

lemma register_fits: "1 \<le> i \<Longrightarrow> i \<le> n \<Longrightarrow> (i - 1) * 8 + 8 \<le> 8 * (n :: nat)"
  by simp

lemma unwrap_wrap_step:
  assumes "wrap_ok n ar" "1 \<le> i" "i \<le> n" "n * j + i < 2 ^ 32"
  shows "unwrap_step kek n (wrap_step kek n ar (j, i)) (j, i) = ar \<and> wrap_ok n (wrap_step kek n ar (j, i))"
proof -
  obtain a r where ar: "ar = (a, r)" by (cases ar)
  have len: "length a = 8" "length r = 8 * n" using assms(1) by (simp_all add: wrap_ok_def ar)
  note fits = register_fits [OF assms(2,3)]
  let ?b = "aes128_encrypt_block kek (a @ slice ((i - 1) * 8) 8 r)"
  have l: "length (drop 8 ?b) = 8" "length (a @ slice ((i - 1) * 8) 8 r) = 16" using fits len by simp_all
  have ok: "wrap_ok n (wrap_step kek n ar (j, i))" using fits len by (simp add: ar wrap_step_def wrap_ok_def Let_def)
  have "unwrap_step kek n (wrap_step kek n ar (j, i)) (j, i) =
    (take 8 (aes128_decrypt_block kek ?b), blit ((i - 1) * 8) (drop 8 (aes128_decrypt_block kek ?b)) (blit ((i - 1) * 8) (drop 8 ?b) r))"
    using fits len l(1) by (simp add: ar wrap_step_def unwrap_step_word [OF assms(4)] Let_def xor_cancel_list del: One_nat_def)
  then show ?thesis using ok fits len l by (simp add: ar decrypt_encrypt blit_slice_back)
qed

lemma wrap_unwrap_step:
  assumes "wrap_ok n ar" "1 \<le> i" "i \<le> n" "n * j + i < 2 ^ 32"
  shows "wrap_step kek n (unwrap_step kek n ar (j, i)) (j, i) = ar \<and> wrap_ok n (unwrap_step kek n ar (j, i))"
proof -
  obtain a r where ar: "ar = (a, r)" by (cases ar)
  have len: "length a = 8" "length r = 8 * n" using assms(1) by (simp_all add: wrap_ok_def ar)
  note fits = register_fits [OF assms(2,3)]
  let ?x = "map2 (XOR) a (put_be64 (of_nat (n * j + i)))"
  let ?c = "?x @ slice ((i - 1) * 8) 8 r"
  let ?o = "aes128_decrypt_block kek ?c"
  have l: "length (drop 8 ?o) = 8" "length ?c = 16" using fits len by simp_all
  have u: "unwrap_step kek n ar (j, i) = (take 8 ?o, blit ((i - 1) * 8) (drop 8 ?o) r)"
    by (simp only: ar unwrap_step_word [OF assms(4) len(1)] Let_def)
  have e: "aes128_encrypt_block kek (take 8 ?o @ drop 8 ?o) = ?c" using encrypt_decrypt [OF l(2)] by simp
  have "wrap_step kek n (unwrap_step kek n ar (j, i)) (j, i) =
    (map2 (XOR) (take 8 ?c) (put_be64 (of_nat (n * j + i))), blit ((i - 1) * 8) (drop 8 ?c) (blit ((i - 1) * 8) (drop 8 ?o) r))"
    unfolding u wrap_step_def Let_def prod.case using fits len l(1) e by (simp only: slice_blit_same length_blit)
  also have "\<dots> = ar" using fits len l(1) by (simp add: ar xor_cancel_list blit_slice_back)
  finally show ?thesis using u fits len l(1) by (simp add: wrap_ok_def)
qed

definition wrap_order :: "nat \<Rightarrow> (nat \<times> nat) list" where
  "wrap_order n = concat (map (\<lambda>j. map (Pair j) [1..<Suc n]) [0..<6])"

lemma unwrap_order_rev: "unwrap_order n = rev (wrap_order n)"
  by (simp add: unwrap_order_def wrap_order_def rev_concat rev_map comp_def del: upt_Suc)

lemma wrap_order_bounds:
  assumes "(j, i) \<in> set (wrap_order n)" "8 * n < 2 ^ 32"
  shows "1 \<le> i" "i \<le> n" "n * j + i < 2 ^ 32"
proof -
  have ji: "1 \<le> i" "i \<le> n" "j \<le> 5" using assms(1) by (auto simp: wrap_order_def)
  have "n * j \<le> n * 5" using ji(3) by (rule mult_le_mono2)
  then show "1 \<le> i" "i \<le> n" "n * j + i < 2 ^ 32" using ji assms(2) by linarith+
qed

lemma unwrap_wrap_fold:
  assumes "8 * n < 2 ^ 32" "wrap_ok n ar"
  shows "foldl (unwrap_step kek n) (foldl (wrap_step kek n) ar (wrap_order n)) (unwrap_order n) = ar \<and>
    wrap_ok n (foldl (wrap_step kek n) ar (wrap_order n))"
  unfolding unwrap_order_rev
proof (rule foldl_undo [where P = "wrap_ok n"])
  fix s x assume "wrap_ok n s" "x \<in> set (wrap_order n)"
  then show "unwrap_step kek n (wrap_step kek n s x) x = s \<and> wrap_ok n (wrap_step kek n s x)"
    using wrap_order_bounds [OF _ assms(1)] by (cases x) (simp add: unwrap_wrap_step)
qed (rule assms(2))

lemma wrap_unwrap_fold:
  assumes "8 * n < 2 ^ 32" "wrap_ok n ar"
  shows "foldl (wrap_step kek n) (foldl (unwrap_step kek n) ar (unwrap_order n)) (wrap_order n) = ar \<and>
    wrap_ok n (foldl (unwrap_step kek n) ar (unwrap_order n))"
  using foldl_undo [where P = "wrap_ok n" and xs = "unwrap_order n" and g = "wrap_step kek n" and f = "unwrap_step kek n" and s = ar]
    assms wrap_order_bounds [OF _ assms(1)] wrap_unwrap_step [of n _ _ _ kek]
  unfolding unwrap_order_rev by auto

lemma rfc3394_wrap_fold:
  "rfc3394_wrap kek p = (case foldl (wrap_step kek (length p div 8)) (default_iv, p) (wrap_order (length p div 8)) of (a, r) \<Rightarrow> a @ r)"
  by (simp only: rfc3394_wrap_def wrap_order_def Let_def)

lemma key_unwrap_fold:
  assumes "length w = 8 * Suc n" "2 \<le> n"
  shows "aes128_key_unwrap (Some kek) (Some w) (length w) (Some pbuf) (Some l) =
    (case foldl (unwrap_step kek n) (take 8 w, drop 8 w) (unwrap_order n) of
       (a, out) \<Rightarrow> if a \<noteq> default_iv then (-2, Some (blit 0 (replicate (8 * n) 0) pbuf), Some 0)
                   else (0, Some (blit 0 out pbuf), Some (8 * n)))"
proof -
  have "length w div 8 - 1 = n" "slice 8 (n * 8) w = drop 8 w" using assms by (simp_all add: slice_def)
  then show ?thesis using assms unfolding aes128_key_unwrap_def Let_def by (simp add: mult.commute split: prod.split)
qed

lemma unwrap_accepts:
  assumes "length p = 8 * n" "2 \<le> n" "8 * n < 2 ^ 32"
  shows "length (rfc3394_wrap kek p) = 8 * Suc n \<and>
    aes128_key_unwrap (Some kek) (Some (rfc3394_wrap kek p)) (length (rfc3394_wrap kek p)) (Some pbuf) (Some l) = (0, Some (blit 0 p pbuf), Some (8 * n))"
proof -
  obtain a r where ar: "foldl (wrap_step kek n) (default_iv, p) (wrap_order n) = (a, r)" by fastforce
  have "wrap_ok n (default_iv, p)" using assms(1) by (simp add: wrap_ok_def default_iv_def)
  from unwrap_wrap_fold [OF assms(3) this, of kek]
  have f: "foldl (unwrap_step kek n) (a, r) (unwrap_order n) = (default_iv, p)" "length a = 8" "length r = 8 * n"
    by (simp_all add: ar wrap_ok_def)
  have w: "rfc3394_wrap kek p = a @ r" using assms(1) ar by (simp add: rfc3394_wrap_fold)
  then show ?thesis using key_unwrap_fold [of "a @ r" n kek pbuf l] assms f by simp
qed

lemma unwrap_rejects:
  assumes "length w = 8 * Suc n" "2 \<le> n" "8 * n < 2 ^ 32" "\<nexists>p. length p = 8 * n \<and> w = rfc3394_wrap kek p"
  shows "aes128_key_unwrap (Some kek) (Some w) (length w) (Some pbuf) (Some l) = (-2, Some (blit 0 (replicate (8 * n) 0) pbuf), Some 0)"
proof -
  obtain a p where ap: "foldl (unwrap_step kek n) (take 8 w, drop 8 w) (unwrap_order n) = (a, p)" by fastforce
  have "wrap_ok n (take 8 w, drop 8 w)" using assms(1) by (simp add: wrap_ok_def)
  from wrap_unwrap_fold [OF assms(3) this, of kek]
  have f: "foldl (wrap_step kek n) (a, p) (wrap_order n) = (take 8 w, drop 8 w)" "length p = 8 * n"
    by (simp_all add: ap wrap_ok_def)
  have "a \<noteq> default_iv"
  proof
    assume "a = default_iv"
    then have "rfc3394_wrap kek p = w" using f by (simp add: rfc3394_wrap_fold)
    then show False using f(2) assms(4) by blast
  qed
  then show ?thesis by (simp add: key_unwrap_fold [OF assms(1,2)] ap)
qed

section \<open>CCM\<close>

text \<open>RFC 3610, section 2, from the text of the standard. With \<open>M\<close> the length of the tag and \<open>L = 15 - length N\<close> the width of
  the length field, the first block \<open>B_0\<close> is the flags octet \<open>64 * Adata + 8 * ((M - 2) / 2) + (L - 1)\<close>, the nonce \<open>N\<close> and the length of
  the message in \<open>L\<close> octets, most significant first; the block \<open>A_i\<close> is the octet \<open>L - 1\<close>, the nonce and the counter \<open>i\<close> in \<open>L\<close>
  octets. The associated data are preceded by their length in two octets (for lengths below \<open>2^16 - 2^8\<close>). Data are cut into blocks of
  16, the last one padded with zeros, and chained through the cipher.\<close>

definition rfc3610_octets :: "nat \<Rightarrow> nat \<Rightarrow> bytes" where
  "rfc3610_octets w v = map (\<lambda>i. of_nat (v div 256 ^ (w - 1 - i) mod 256)) [0..<w]"

definition rfc3610_b0 :: "bytes \<Rightarrow> bool \<Rightarrow> nat \<Rightarrow> nat \<Rightarrow> bytes" where
  "rfc3610_b0 nonce adata tag_len msg_len =
    (let L = 15 - length nonce in
     [of_nat ((if adata then 64 else 0) + 8 * ((tag_len - 2) div 2) + (L - 1))] @ nonce @ rfc3610_octets L msg_len)"

definition rfc3610_a :: "bytes \<Rightarrow> nat \<Rightarrow> bytes" where
  "rfc3610_a nonce i = (let L = 15 - length nonce in [of_nat (L - 1)] @ nonce @ rfc3610_octets L i)"

function blocks16 :: "bytes \<Rightarrow> bytes list" where
  "blocks16 bs = (if bs = [] then [] else pad16 (take 16 bs) # blocks16 (drop 16 bs))"
  by pat_completeness auto
termination
  by (relation "measure length") auto

declare blocks16.simps [simp del]

definition cbc_mac :: "bytes \<Rightarrow> bytes list \<Rightarrow> bytes" where
  "cbc_mac key bss = foldl (\<lambda>x b. aes128_encrypt_block key (xor_block x b)) (replicate 16 0) bss"

definition rfc3610_blocks :: "bytes \<Rightarrow> bytes \<Rightarrow> bytes \<Rightarrow> nat \<Rightarrow> bytes list" where
  "rfc3610_blocks nonce aad p tag_len =
    rfc3610_b0 nonce (aad \<noteq> []) tag_len (length p) #
    (if aad = [] then [] else blocks16 (rfc3610_octets 2 (length aad) @ aad)) @ blocks16 p"

definition rfc3610_tag :: "bytes \<Rightarrow> bytes \<Rightarrow> bytes \<Rightarrow> bytes \<Rightarrow> nat \<Rightarrow> bytes" where
  "rfc3610_tag key nonce aad p tag_len =
    take tag_len (xor_block (cbc_mac key (rfc3610_blocks nonce aad p tag_len)) (aes128_encrypt_block key (rfc3610_a nonce 0)))"

lemma of_nat_mod_byte: "(of_nat (v mod 256) :: byte) = of_nat v"
  by (simp add: word_unat_eq_iff unsigned_of_nat take_bit_eq_mod)

lemma ccm_write_len_octets: "ccm_write_len n v = rfc3610_octets n v"
proof (induction n arbitrary: v)
  case (Suc n)
  have "map (\<lambda>i. of_nat (v div 256 div 256 ^ (n - 1 - i) mod 256) :: byte) [0..<n] = map (\<lambda>i. of_nat (v div 256 ^ (n - i) mod 256)) [0..<n]"
  proof (rule map_cong [OF refl])
    fix i assume "i \<in> set [0..<n]"
    then have "n - i = Suc (n - 1 - i)" by simp
    then show "of_nat (v div 256 div 256 ^ (n - 1 - i) mod 256) = (of_nat (v div 256 ^ (n - i) mod 256) :: byte)"
      by (simp only: power_Suc div_mult2_eq)
  qed
  then show ?case by (simp add: Suc.IH rfc3610_octets_def)
qed (simp add: rfc3610_octets_def)

lemma ccm_counter_rfc3610: "ccm_format_counter nonce i = rfc3610_a nonce i"
  by (simp add: ccm_format_counter_def rfc3610_a_def ccm_write_len_octets Let_def)

lemma ccm_b0_rfc3610:
  assumes "ccm_valid_tag_len tag_len" "7 \<le> length nonce" "length nonce \<le> 13"
  shows "ccm_b0 nonce aad_len plen tag_len = rfc3610_b0 nonce (0 < aad_len) tag_len plen"
proof -
  define m where "m = (tag_len - 2) div 2"
  define l where "l = 15 - length nonce - 1"
  have "m = 1 \<or> m = 2 \<or> m = 3 \<or> m = 4 \<or> m = 5 \<or> m = 6 \<or> m = 7" "l = 1 \<or> l = 2 \<or> l = 3 \<or> l = 4 \<or> l = 5 \<or> l = 6 \<or> l = 7"
  proof -
    have "4 \<le> tag_len" "tag_len \<le> 16" using assms(1) by (simp_all add: ccm_valid_tag_len_def)
    then have "1 \<le> m" "m \<le> 7" "1 \<le> l" "l \<le> 7" unfolding m_def l_def using assms(2,3) by linarith+
    then show "m = 1 \<or> m = 2 \<or> m = 3 \<or> m = 4 \<or> m = 5 \<or> m = 6 \<or> m = 7" "l = 1 \<or> l = 2 \<or> l = 3 \<or> l = 4 \<or> l = 5 \<or> l = 6 \<or> l = 7"
      by linarith+
  qed
  then have "((if 0 < aad_len then 0x40 else 0) OR push_bit 3 (of_nat m AND 0x07) OR (of_nat l AND 0x07) :: byte) =
      of_nat ((if 0 < aad_len then 64 else 0) + 8 * m + l)"
    by (elim disjE) simp_all
  then show ?thesis by (simp add: ccm_b0_def rfc3610_b0_def ccm_write_len_octets Let_def m_def l_def)
qed

lemma ccm_mac_block_cbc: "ccm_mac_block key x b = aes128_encrypt_block key (xor_block x b)"
  by (simp add: ccm_mac_block_def xor_block_def)

lemma blocks_Nil [simp]: "blocks16 [] = []" "ccm_mac_data key x [] = x"
  by (simp_all add: blocks16.simps ccm_mac_data.simps)

lemma ccm_mac_data_blocks: "ccm_mac_data key x bs = foldl (ccm_mac_block key) x (blocks16 bs)"
proof (induction key x bs rule: ccm_mac_data.induct)
  case (1 key x inp)
  then show ?case by (cases "inp = []") (simp_all add: ccm_mac_data.simps [of key x inp] blocks16.simps [of inp])
qed

lemma ccm_feed_blocks:
  "length pre < 16 \<Longrightarrow> ccm_mac_finish key (foldl (ccm_mac_feed_byte key) (x, pad16 pre, length pre) bs) = ccm_mac_data key x (pre @ bs)"
proof (induction bs arbitrary: x pre)
  case Nil
  then show ?case
    by (cases "pre = []") (simp_all add: ccm_mac_finish_def ccm_mac_data.simps [of key x pre])
next
  case (Cons b bs)
  have up: "(pad16 pre)[length pre := b] = pad16 (pre @ [b])"
    using Cons.prems by (rule_tac nth_equalityI) (auto simp: pad16_def nth_append nth_list_update nth_Cons')
  show ?case
  proof (cases "length pre = 15")
    case True
    have "ccm_mac_data key x (pre @ b # bs) = ccm_mac_data key (ccm_mac_block key x (pad16 (pre @ [b]))) bs"
      using True by (subst ccm_mac_data.simps) simp
    moreover have "replicate 16 0 = pad16 []" by (simp add: pad16_def)
    ultimately show ?thesis using Cons.IH [of "[]"] True up by (simp add: ccm_mac_feed_byte_def Let_def)
  next
    case False
    then show ?thesis using Cons.IH [of "pre @ [b]" x] Cons.prems up by (simp add: ccm_mac_feed_byte_def Let_def)
  qed
qed

lemma ccm_len_fits_iff: "ccm_len_fits n v \<longleftrightarrow> v < 256 ^ n"
  by (induction n arbitrary: v) (simp_all add: div_less_iff_less_mult mult.commute)

lemma ccm_tag_rfc3610:
  "ccm_compute_tag (Some key) (Some nonce) (length nonce) (Some aad) (length aad) (Some p) (length p) True tag_len =
    (if ccm_valid_tag_len tag_len \<and> 7 \<le> length nonce \<and> length nonce \<le> 13 \<and> length p < 256 ^ (15 - length nonce) \<and> length aad < 0xff00
     then Some (rfc3610_tag key nonce aad p tag_len) else None)"
proof (cases "ccm_valid_tag_len tag_len \<and> 7 \<le> length nonce \<and> length nonce \<le> 13 \<and> length p < 256 ^ (15 - length nonce) \<and> length aad < 0xff00")
  case True
  have cbc: "foldl (ccm_mac_block key) (ccm_mac_block key (replicate 16 0) b) bss = cbc_mac key (b # bss)" for b bss
    by (simp add: cbc_mac_def ccm_mac_block_cbc [abs_def])
  let ?b0 = "ccm_b0 nonce (length aad) (length p) tag_len"
  let ?x0 = "ccm_mac_block key (replicate 16 0) ?b0"
  have z: "replicate 16 0 = pad16 []" by (simp add: pad16_def)
  have two: "[of_nat (length aad div 256), of_nat (length aad mod 256)] = rfc3610_octets 2 (length aad)"
    by (simp add: rfc3610_octets_def upt_rec of_nat_mod_byte)
  have "ccm_mac_aad key ?x0 (Some aad) (length aad) = Some (foldl (ccm_mac_block key) ?x0
    (if aad = [] then [] else blocks16 ([of_nat (length aad div 256), of_nat (length aad mod 256)] @ aad)))"
    using True ccm_feed_blocks [of "[]" key ?x0 "[of_nat (length aad div 256), of_nat (length aad mod 256)] @ aad"]
    by (cases "aad = []") (simp_all add: ccm_mac_aad_def ccm_mac_data_blocks z)
  moreover have "?b0 = rfc3610_b0 nonce (aad \<noteq> []) tag_len (length p)" using ccm_b0_rfc3610 True by simp
  ultimately have "ccm_compute_tag (Some key) (Some nonce) (length nonce) (Some aad) (length aad) (Some p) (length p) True tag_len =
      Some (map (\<lambda>i. cbc_mac key (rfc3610_blocks nonce aad p tag_len) ! i XOR aes128_encrypt_block key (rfc3610_a nonce 0) ! i) [0..<tag_len])"
    using True by (simp add: ccm_compute_tag_def Let_def ccm_len_fits_iff ccm_mac_data_blocks rfc3610_blocks_def cbc [symmetric]
        ccm_counter_rfc3610 two [symmetric])
  then show ?thesis using True by (simp add: rfc3610_tag_def xor_block_def take_map ccm_valid_tag_len_def)
next
  case False
  then show ?thesis by (auto simp: ccm_compute_tag_def ccm_len_fits_iff ccm_mac_aad_def Let_def)
qed

lemma encrypt_block_ne [simp]: "aes128_encrypt_block key b \<noteq> []"
  using length_encrypt_block [of key b] by (metis list.size(3) zero_neq_numeral)

lemma ccm_compute_tag_defined:
  assumes "ccm_valid_tag_len tag_len" "7 \<le> nonce_len" "nonce_len \<le> 13" "ccm_len_fits (15 - nonce_len) plen"
    "aad_len < 0xff00" "aad_len = 0 \<or> aad \<noteq> None"
  shows "\<exists>t. ccm_compute_tag (Some key) (Some nonce) nonce_len aad aad_len (Some p) plen True tag_len = Some t \<and> length t = tag_len"
  using assms by (auto simp: ccm_compute_tag_def ccm_mac_aad_def Let_def)

lemma ccm_ctr_loop_involution: "ccm_ctr_loop key nonce c (ccm_ctr_loop key nonce c inp) = inp \<and> length (ccm_ctr_loop key nonce c inp) = length inp"
proof (induction key nonce c inp rule: ccm_ctr_loop.induct)
  case (1 key nonce c inp)
  show ?case
  proof (cases "inp = []")
    case True
    then show ?thesis by (simp add: ccm_ctr_loop.simps)
  next
    case False
    let ?e = "aes128_encrypt_block key (ccm_format_counter nonce c)" and ?r = "ccm_ctr_loop key nonce (c + 1) (drop 16 inp)"
    have e: "ccm_ctr_loop key nonce c inp = map2 (XOR) (take 16 inp) ?e @ ?r" using False by (subst ccm_ctr_loop.simps) simp
    have IH: "ccm_ctr_loop key nonce (c + 1) ?r = drop 16 inp" "length ?r = length inp - 16" using 1 False by simp_all
    have "take 16 (ccm_ctr_loop key nonce c inp) = map2 (XOR) (take 16 inp) ?e" "drop 16 (ccm_ctr_loop key nonce c inp) = ?r"
      using IH(2) by (cases "length inp \<le> 16"; simp add: e)+
    moreover have "ccm_ctr_loop key nonce c inp \<noteq> []" using False by (simp add: e)
    ultimately have "ccm_ctr_loop key nonce c (ccm_ctr_loop key nonce c inp) = map2 (XOR) (map2 (XOR) (take 16 inp) ?e) ?e @ drop 16 inp"
      using IH(1) by (subst ccm_ctr_loop.simps) simp
    then show ?thesis using e IH(2) by (simp add: xor_cancel_list)
  qed
qed

section \<open>Properties\<close>

text \<open>C31: The bit loop of \<^verbatim>\<open>gcm_multiply\<close> over byte arrays is the multiplication of SP 800-38D on 128-bit blocks: the sum,
  over the set bits of one operand, of the other multiplied by that power of the indeterminate, with the reduction
  polynomial folded in whenever a bit falls off.\<close>

theorem gcm_multiply_gf128:
  assumes "length x = 16" "length h = 16"
  shows "length (gcm_multiply x h) = 16 \<and> be_word (gcm_multiply x h) = gf128_mul (be_word x) (be_word h)"
  using gcm_multiply_fold [OF assms(2,1) order_refl] assms by (auto simp: gcm_multiply_def gf128_mul_def split: prod.splits)

theorem gcm_multiply_gf128_witness:
  "be_word (gcm_multiply (replicate 16 3) (replicate 16 5)) = gf128_mul (be_word (replicate 16 3)) (be_word (replicate 16 5))"
  using gcm_multiply_gf128 [of "replicate 16 3" "replicate 16 5"] by simp

text \<open>C29: Key unwrapping accepts exactly the wrapped keys of RFC 3394. Of an input of \<open>n + 1\<close> registers it
  returns 0 with the key when the input is the wrapping of a key under this key-encryption key, and otherwise \<open>-2\<close>
  with the output cleared and the length set to 0.\<close>

theorem key_unwrap_rfc3394:
  assumes "length w = 8 * Suc n" "2 \<le> n" "8 * n < 2 ^ 32" "8 * n \<le> length pbuf"
  shows "(\<forall>p. length p = 8 * n \<and> w = rfc3394_wrap kek p \<longrightarrow>
      aes128_key_unwrap (Some kek) (Some w) (length w) (Some pbuf) (Some l) = (0, Some (p @ drop (8 * n) pbuf), Some (8 * n))) \<and>
    ((\<nexists>p. length p = 8 * n \<and> w = rfc3394_wrap kek p) \<longrightarrow>
      aes128_key_unwrap (Some kek) (Some w) (length w) (Some pbuf) (Some l) = (-2, Some (replicate (8 * n) 0 @ drop (8 * n) pbuf), Some 0))"
proof (intro conjI allI impI)
  fix p assume "length p = 8 * n \<and> w = rfc3394_wrap kek p"
  then show "aes128_key_unwrap (Some kek) (Some w) (length w) (Some pbuf) (Some l) = (0, Some (p @ drop (8 * n) pbuf), Some (8 * n))"
    using unwrap_accepts [of p n kek pbuf l] assms(2,3) by (auto simp: blit_def)
qed (use unwrap_rejects [OF assms(1-3), of kek pbuf l] in \<open>simp add: blit_def\<close>)

theorem key_unwrap_rfc3394_witness:
  "aes128_key_unwrap (Some []) (Some (rfc3394_wrap [] (replicate 16 1))) 24 (Some (replicate 16 0)) (Some 0) = (0, Some (replicate 16 1), Some 16)"
proof -
  have "length (rfc3394_wrap [] (replicate 16 1)) = 24" using unwrap_accepts [of "replicate 16 1" 2 "[]"] by simp
  then show ?thesis
    using key_unwrap_rfc3394 [of "rfc3394_wrap [] (replicate 16 1)" 2 "replicate 16 0" "[]" 0, THEN conjunct1, rule_format, of "replicate 16 1"]
    by simp
qed

text \<open>C32: The CCM tag is the one of RFC 3610, written out here from the standard: the flags octet, nonce and length of the first
  block, the two length octets before the associated data, the padding to whole blocks, the CBC-MAC and its combination with the
  encryption of counter block zero, truncated to the length of the tag. The code returns it exactly when the tag length is even and
  between 4 and 16, the nonce has 7 to 13 bytes, the message length fits the length field and the associated data are shorter than
  65280 bytes, and otherwise refuses. It feeds the associated data byte by byte and the payload block by block.\<close>

theorem ccm_tag_is_rfc3610:
  "ccm_compute_tag (Some key) (Some nonce) (length nonce) (Some aad) (length aad) (Some p) (length p) True tag_len =
    (if 4 \<le> tag_len \<and> tag_len \<le> 16 \<and> even tag_len \<and> 7 \<le> length nonce \<and> length nonce \<le> 13 \<and>
        length p < 256 ^ (15 - length nonce) \<and> length aad < 65280
     then Some (rfc3610_tag key nonce aad p tag_len) else None)"
  by (simp add: ccm_tag_rfc3610 ccm_valid_tag_len_def even_iff_mod_2_eq_zero)

text \<open>CCM decryption accepts what CCM encryption produced and gives back the plaintext; with any other tag of the same
  length it returns \<open>-2\<close> and the plaintext it had already decrypted into the output buffer is cleared.\<close>

theorem ccm_decrypt_encrypt:
  assumes "aes128_ccm_encrypt (Some key) (Some nonce) nonce_len aad aad_len (Some pt) (length pt) (Some cbuf) (Some tbuf) tag_len = (0, Some ct, Some tag)"
    and "length pt \<le> length cbuf" "length tbuf = tag_len" "length pt \<le> length obuf" "length tag' = tag_len"
  shows "aes128_ccm_decrypt (Some key) (Some nonce) nonce_len aad aad_len (Some ct) (length pt) (Some tag') tag_len (Some obuf) =
    (if tag' = tag then (0, Some (pt @ drop (length pt) obuf)) else (-2, Some (replicate (length pt) 0 @ drop (length pt) obuf)))"
proof -
  obtain t where t: "ccm_compute_tag (Some key) (Some nonce) nonce_len aad aad_len (Some pt) (length pt) True tag_len = Some t"
    using assms(1) by (auto simp: aes128_ccm_encrypt_def split: option.splits)
  let ?c = "ccm_ctr_loop key (take nonce_len nonce) 1 pt"
  have n: "\<not> nonce_len < 7" "\<not> nonce_len > 13" and lt: "length t = tag_len"
    using t by (auto simp: ccm_compute_tag_def Let_def split: if_splits option.splits)
  have ct: "ct = blit 0 ?c cbuf" "tag = t"
    using assms(1,3) n lt by (auto simp: aes128_ccm_encrypt_def t ccm_ctr_crypt_def)
  have "take (length pt) ct = ?c" using ct(1) ccm_ctr_loop_involution [of key "take nonce_len nonce" 1 pt] by simp
  then have "ccm_ctr_crypt (Some key) (Some nonce) nonce_len (Some ct) (length pt) True = Some pt"
    using n ccm_ctr_loop_involution [of key "take nonce_len nonce" 1 pt] by (simp add: ccm_ctr_crypt_def)
  then show ?thesis using t lt ct(2) assms(5) by (auto simp: aes128_ccm_decrypt_def tag_diff_0 blit_def)
qed

theorem ccm_decrypt_encrypt_witness:
  "\<exists>ct tag. aes128_ccm_encrypt (Some [1]) (Some (replicate 7 2)) 7 None 0 (Some [4, 5]) 2 (Some [0, 0]) (Some [0, 0, 0, 0]) 4 = (0, Some ct, Some tag) \<and>
    aes128_ccm_decrypt (Some [1]) (Some (replicate 7 2)) 7 None 0 (Some ct) 2 (Some tag) 4 (Some [0, 0, 9]) = (0, Some [4, 5, 9])"
proof -
  have fits: "ccm_len_fits (15 - 7) 2" by (simp add: ccm_len_fits_iff)
  have l: "length [4, 5 :: byte] = 2" "length [0, 0, 0, 0 :: byte] = 4" by simp_all
  obtain t where t: "ccm_compute_tag (Some [1]) (Some (replicate 7 2)) 7 None 0 (Some [4, 5]) 2 True 4 = Some t" "length t = 4"
    using fits ccm_compute_tag_defined [of 4 7 2 0 None "[1]" "replicate 7 2" "[4, 5]"] by (auto simp: ccm_valid_tag_len_def)
  then obtain ct tag where e: "aes128_ccm_encrypt (Some [1]) (Some (replicate 7 2)) 7 None 0 (Some [4, 5]) (length [4, 5 :: byte]) (Some [0, 0]) (Some [0, 0, 0, 0]) 4 = (0, Some ct, Some tag)"
    "length tag = 4"
    unfolding l by (simp add: aes128_ccm_encrypt_def ccm_ctr_crypt_def)
  have "aes128_ccm_decrypt (Some [1]) (Some (replicate 7 2)) 7 None 0 (Some ct) (length [4, 5 :: byte]) (Some tag) 4 (Some [0, 0, 9]) = (0, Some [4, 5, 9])"
    using ccm_decrypt_encrypt [OF e(1), of "[0, 0, 9]" tag] e(2) by simp
  with e(1) show ?thesis unfolding l by blast
qed

end
