(* ===== verification/X25519.thy ===== *)
theory X25519
  imports Prelude
begin

text \<open>
  X25519 key agreement, \<^verbatim>\<open>kernel/lib/x25519.c\<close>: field elements modulo \<open>2 ^ 255 - 19\<close> as five limbs of 51 bits in
  64-bit words, products accumulated in 128-bit words, the constant-time swap and the Montgomery
  ladder. All arithmetic is on words of the code's widths, with wrap-around. The lemmas show that no
  operation on reduced operands overflows and that each computes its field operation; the ladder is
  then related to the ladder of RFC 7748 over integers.
\<close>

section \<open>Limbs\<close>

type_synonym u128 = "128 word"

definition FE51_MASK :: u64 where
  "FE51_MASK = push_bit 51 1 - 1"

datatype fe51 = Fe u64 u64 u64 u64 u64

definition load_le64 :: "bytes \<Rightarrow> u64" where
  "load_le64 p = foldl (\<lambda>v i. push_bit 8 v OR ucast (p ! i)) 0 (rev [0..<8])"

definition store_le64 :: "u64 \<Rightarrow> bytes" where
  "store_le64 v = map (\<lambda>i. ucast (drop_bit (8 * i) v)) [0..<8]"

fun fe51_reduce_round :: "fe51 \<Rightarrow> fe51" where
  "fe51_reduce_round (Fe h0 h1 h2 h3 h4) =
    (let c = drop_bit 51 h0; h0 = h0 AND FE51_MASK; h1 = h1 + c;
         c = drop_bit 51 h1; h1 = h1 AND FE51_MASK; h2 = h2 + c;
         c = drop_bit 51 h2; h2 = h2 AND FE51_MASK; h3 = h3 + c;
         c = drop_bit 51 h3; h3 = h3 AND FE51_MASK; h4 = h4 + c;
         c = drop_bit 51 h4; h4 = h4 AND FE51_MASK; h0 = h0 + c * 19
     in Fe h0 h1 h2 h3 h4)"

definition fe51_reduce :: "fe51 \<Rightarrow> fe51" where
  "fe51_reduce h = fe51_reduce_round (fe51_reduce_round h)"

definition fe51_1 :: fe51 where
  "fe51_1 = Fe 1 0 0 0 0"

definition fe51_0 :: fe51 where
  "fe51_0 = Fe 0 0 0 0 0"

definition fe51_frombytes :: "bytes \<Rightarrow> fe51" where
  "fe51_frombytes inp =
    Fe (load_le64 inp AND FE51_MASK)
       (drop_bit 3 (load_le64 (drop 6 inp)) AND FE51_MASK)
       (drop_bit 6 (load_le64 (drop 12 inp)) AND FE51_MASK)
       (drop_bit 1 (load_le64 (drop 19 inp)) AND FE51_MASK)
       (drop_bit 12 (load_le64 (drop 24 inp)) AND FE51_MASK)"

text \<open>The limbs of the modulus.\<close>

definition fe51_p :: "u64 list" where
  "fe51_p = [FE51_MASK - 18, FE51_MASK, FE51_MASK, FE51_MASK, FE51_MASK]"

fun limbs :: "fe51 \<Rightarrow> u64 list" where
  "limbs (Fe h0 h1 h2 h3 h4) = [h0, h1, h2, h3, h4]"

fun ge_p_loop :: "(u64 \<times> u64) list \<Rightarrow> bool" where
  "ge_p_loop [] = True"
| "ge_p_loop ((h, p) # hps) = (if h > p then True else if h < p then False else ge_p_loop hps)"

definition fe51_ge_p :: "fe51 \<Rightarrow> bool" where
  "fe51_ge_p h = ge_p_loop (rev (zip (limbs h) fe51_p))"

fun sub_p_limb :: "u64 \<Rightarrow> u64 \<Rightarrow> u64 \<Rightarrow> u64 \<times> u64" where
  "sub_p_limb p h borrow = (let sub = p + borrow in (h - sub, if h < sub then 1 else 0))"

fun fe51_sub_p :: "fe51 \<Rightarrow> fe51" where
  "fe51_sub_p (Fe h0 h1 h2 h3 h4) =
    (let (h0, borrow) = sub_p_limb (fe51_p ! 0) h0 0;
         (h1, borrow) = sub_p_limb (fe51_p ! 1) h1 borrow;
         (h2, borrow) = sub_p_limb (fe51_p ! 2) h2 borrow;
         (h3, borrow) = sub_p_limb (fe51_p ! 3) h3 borrow;
         (h4, borrow) = sub_p_limb (fe51_p ! 4) h4 borrow
     in Fe h0 h1 h2 h3 h4)"

fun fe51_pack :: "fe51 \<Rightarrow> bytes" where
  "fe51_pack (Fe h0 h1 h2 h3 h4) =
    (let out = store_le64 (h0 OR push_bit 51 h1) @
               store_le64 (drop_bit 13 h1 OR push_bit 38 h2) @
               store_le64 (drop_bit 26 h2 OR push_bit 25 h3) @
               store_le64 (drop_bit 39 h3 OR push_bit 12 h4)
     in out[31 := out ! 31 AND 0x7f])"

definition fe51_tobytes :: "fe51 \<Rightarrow> bytes" where
  "fe51_tobytes h =
    (let h = fe51_reduce h; h = (if fe51_ge_p h then fe51_sub_p h else h) in fe51_pack h)"

fun fe51_add :: "fe51 \<Rightarrow> fe51 \<Rightarrow> fe51" where
  "fe51_add (Fe a0 a1 a2 a3 a4) (Fe b0 b1 b2 b3 b4) =
    fe51_reduce (Fe (a0 + b0) (a1 + b1) (a2 + b2) (a3 + b3) (a4 + b4))"

fun fe51_sub :: "fe51 \<Rightarrow> fe51 \<Rightarrow> fe51" where
  "fe51_sub (Fe a0 a1 a2 a3 a4) (Fe b0 b1 b2 b3 b4) =
    fe51_reduce (Fe (a0 + (FE51_MASK - 18) * 4 - b0) (a1 + FE51_MASK * 4 - b1) (a2 + FE51_MASK * 4 - b2)
                    (a3 + FE51_MASK * 4 - b3) (a4 + FE51_MASK * 4 - b4))"

text \<open>The product of two 64-bit limbs in 128 bits, and the carry chain of the multiplication.\<close>

definition wmul :: "u64 \<Rightarrow> u64 \<Rightarrow> u128" where
  "wmul a b = ucast a * ucast b"

definition fe51_carry :: "u128 \<Rightarrow> u128 \<Rightarrow> u128 \<Rightarrow> u128 \<Rightarrow> u128 \<Rightarrow> fe51" where
  "fe51_carry h0 h1 h2 h3 h4 =
    (let o0 = ucast h0 AND FE51_MASK; h1 = h1 + drop_bit 51 h0;
         o1 = ucast h1 AND FE51_MASK; h2 = h2 + drop_bit 51 h1;
         o2 = ucast h2 AND FE51_MASK; h3 = h3 + drop_bit 51 h2;
         o3 = ucast h3 AND FE51_MASK; h4 = h4 + drop_bit 51 h3;
         o4 = ucast h4 AND FE51_MASK; o0 = o0 + ucast (drop_bit 51 h4) * 19
     in Fe o0 o1 o2 o3 o4)"

fun fe51_mul :: "fe51 \<Rightarrow> fe51 \<Rightarrow> fe51" where
  "fe51_mul (Fe f0 f1 f2 f3 f4) (Fe g0 g1 g2 g3 g4) =
    (let h0 = wmul f0 g0 + 19 * (wmul f1 g4 + wmul f2 g3 + wmul f3 g2 + wmul f4 g1);
         h1 = wmul f0 g1 + wmul f1 g0 + 19 * (wmul f2 g4 + wmul f3 g3 + wmul f4 g2);
         h2 = wmul f0 g2 + wmul f1 g1 + wmul f2 g0 + 19 * (wmul f3 g4 + wmul f4 g3);
         h3 = wmul f0 g3 + wmul f1 g2 + wmul f2 g1 + wmul f3 g0 + 19 * wmul f4 g4;
         h4 = wmul f0 g4 + wmul f1 g3 + wmul f2 g2 + wmul f3 g1 + wmul f4 g0
     in fe51_reduce (fe51_carry h0 h1 h2 h3 h4))"

definition fe51_sq :: "fe51 \<Rightarrow> fe51" where
  "fe51_sq a = fe51_mul a a"

definition exponent_pminus2_bit :: "nat \<Rightarrow> bool" where
  "exponent_pminus2_bit b \<longleftrightarrow> \<not> (b = 2 \<or> b = 4 \<or> b \<ge> 255)"

definition inv_step :: "fe51 \<Rightarrow> fe51 \<Rightarrow> nat \<Rightarrow> fe51" where
  "inv_step base result b =
    (let result = fe51_sq result in if exponent_pminus2_bit b then fe51_mul result base else result)"

definition fe51_inv :: "fe51 \<Rightarrow> fe51" where
  "fe51_inv z = foldl (inv_step z) fe51_1 (rev [0..<255])"

section \<open>The ladder\<close>

definition cswap_limb :: "u64 \<Rightarrow> u64 \<Rightarrow> u64 \<Rightarrow> u64 \<times> u64" where
  "cswap_limb mask0 a b = (let t = mask0 AND (a XOR b) in (a XOR t, b XOR t))"

fun fe51_cswap :: "fe51 \<Rightarrow> fe51 \<Rightarrow> byte \<Rightarrow> fe51 \<times> fe51" where
  "fe51_cswap (Fe a0 a1 a2 a3 a4) (Fe b0 b1 b2 b3 b4) swap =
    (let mask0 = 0 - ucast swap;
         (a0, b0) = cswap_limb mask0 a0 b0; (a1, b1) = cswap_limb mask0 a1 b1; (a2, b2) = cswap_limb mask0 a2 b2;
         (a3, b3) = cswap_limb mask0 a3 b3; (a4, b4) = cswap_limb mask0 a4 b4
     in (Fe a0 a1 a2 a3 a4, Fe b0 b1 b2 b3 b4))"

definition x25519_clamp_private :: "bytes \<Rightarrow> bytes" where
  "x25519_clamp_private scalar =
    (let s = scalar[0 := scalar ! 0 AND 248]; s = s[31 := s ! 31 AND 127] in s[31 := s ! 31 OR 64])"

definition a24 :: fe51 where
  "a24 = Fe 121665 0 0 0 0"

text \<open>The variables of the loop.\<close>

record ladder =
  lx2 :: fe51
  lz2 :: fe51
  lx3 :: fe51
  lz3 :: fe51
  lswap :: byte

definition ladder_add_double :: "fe51 \<Rightarrow> fe51 \<times> fe51 \<times> fe51 \<times> fe51 \<Rightarrow> fe51 \<times> fe51 \<times> fe51 \<times> fe51" where
  "ladder_add_double x1 q =
    (case q of (x2, z2, x3, z3) \<Rightarrow>
      let a = fe51_add x2 z2; aa = fe51_sq a; b = fe51_sub x2 z2; bb = fe51_sq b; e = fe51_sub aa bb;
          c = fe51_add x3 z3; d = fe51_sub x3 z3; da = fe51_mul d a; cb = fe51_mul c b;
          x3 = fe51_sq (fe51_add da cb);
          z3 = fe51_mul (fe51_sq (fe51_sub da cb)) x1;
          x2 = fe51_mul aa bb;
          z2 = fe51_mul e (fe51_add aa (fe51_mul e a24))
      in (x2, z2, x3, z3))"

definition ladder_step :: "bytes \<Rightarrow> fe51 \<Rightarrow> ladder \<Rightarrow> nat \<Rightarrow> ladder" where
  "ladder_step scalar x1 l t =
    (let kt = drop_bit (t mod 8) (scalar ! (t div 8)) AND 1;
         swap = lswap l XOR kt;
         (x2, x3) = fe51_cswap (lx2 l) (lx3 l) swap;
         (z2, z3) = fe51_cswap (lz2 l) (lz3 l) swap;
         (x2, z2, x3, z3) = ladder_add_double x1 (x2, z2, x3, z3)
     in \<lparr>lx2 = x2, lz2 = z2, lx3 = x3, lz3 = z3, lswap = kt\<rparr>)"

definition x25519_shared_secret :: "bytes \<Rightarrow> bytes \<Rightarrow> bytes" where
  "x25519_shared_secret scalar_in point_in =
    (let scalar = x25519_clamp_private (take 32 scalar_in);
         point = (take 32 point_in)[31 := point_in ! 31 AND 0x7f];
         x1 = fe51_frombytes point;
         l = foldl (ladder_step scalar x1) \<lparr>lx2 = fe51_1, lz2 = fe51_0, lx3 = x1, lz3 = fe51_1, lswap = 0\<rparr> (rev [0..<255]);
         (x2, x3) = fe51_cswap (lx2 l) (lx3 l) (lswap l);
         (z2, z3) = fe51_cswap (lz2 l) (lz3 l) (lswap l)
     in fe51_tobytes (fe51_mul x2 (fe51_inv z2)))"

definition basepoint :: bytes where
  "basepoint = 9 # replicate 31 0"

definition x25519_public_from_private :: "bytes \<Rightarrow> bytes" where
  "x25519_public_from_private scalar = x25519_shared_secret scalar basepoint"

section \<open>Words as numbers\<close>

definition p25519 :: nat where
  "p25519 = 2 ^ 255 - 19"

fun fe_nat :: "fe51 \<Rightarrow> nat" where
  "fe_nat (Fe h0 h1 h2 h3 h4) = unat h0 + 2 ^ 51 * unat h1 + 2 ^ 102 * unat h2 + 2 ^ 153 * unat h3 + 2 ^ 204 * unat h4"

text \<open>Reduced elements: every limb has at most 51 bits.\<close>

fun tight :: "fe51 \<Rightarrow> bool" where
  "tight (Fe h0 h1 h2 h3 h4) \<longleftrightarrow>
    unat h0 < 2 ^ 51 \<and> unat h1 < 2 ^ 51 \<and> unat h2 < 2 ^ 51 \<and> unat h3 < 2 ^ 51 \<and> unat h4 < 2 ^ 51"

lemma FE51_MASK_mask: "FE51_MASK = mask 51"
  by (simp add: FE51_MASK_def mask_eq_exp_minus_1)

lemma unat_MASK [simp]: "unat FE51_MASK = 2 ^ 51 - 1"
  by (simp add: FE51_MASK_def)

lemma unat_and_MASK [simp]: "unat (w AND FE51_MASK) = unat w mod 2 ^ 51"
  unfolding FE51_MASK_mask take_bit_eq_mask [symmetric] by (simp only: unsigned_take_bit_eq) (simp add: take_bit_eq_mod)

lemma unat_drop: "unat (drop_bit n w) = unat w div 2 ^ n"
  by (simp only: unsigned_drop_bit_eq) (simp add: drop_bit_eq_div take_bit_nat_eq_self unsigned_less)

lemma unat_u64_less: "unat (w :: u64) < 2 ^ 64"
  using unsigned_less [of w, where 'a = nat] by simp

lemma unat_plus64: "unat a + unat (b :: u64) < 2 ^ 64 \<Longrightarrow> unat (a + b) = unat a + unat b"
  by (simp add: unat_word_ariths)

lemma unat_times19: "unat (a :: u64) * 19 < 2 ^ 64 \<Longrightarrow> unat (a * 19) = unat a * 19"
  by (simp add: unat_word_ariths)

lemma unat_minus64: "unat (b :: u64) \<le> unat a \<Longrightarrow> unat (a - b) = unat a - unat b"
  by (rule unat_sub) (simp add: word_le_nat_alt)

section \<open>Reduction\<close>

lemma reduce_round_limbs:
  fixes h0 h1 h2 h3 h4 :: u64
  assumes "unat h1 < 2 ^ 64 - 2 ^ 14" "unat h2 < 2 ^ 64 - 2 ^ 14" "unat h3 < 2 ^ 64 - 2 ^ 14" "unat h4 < 2 ^ 64 - 2 ^ 14"
  obtains r0 r1 r2 r3 r4 c0 c1 c2 c3 c4 where
    "fe51_reduce_round (Fe h0 h1 h2 h3 h4) = Fe r0 r1 r2 r3 r4"
    "c0 = unat h0 div 2 ^ 51" "c1 = (unat h1 + c0) div 2 ^ 51" "c2 = (unat h2 + c1) div 2 ^ 51"
    "c3 = (unat h3 + c2) div 2 ^ 51" "c4 = (unat h4 + c3) div 2 ^ 51"
    "unat r0 = unat h0 mod 2 ^ 51 + 19 * c4" "unat r1 = (unat h1 + c0) mod 2 ^ 51" "unat r2 = (unat h2 + c1) mod 2 ^ 51"
    "unat r3 = (unat h3 + c2) mod 2 ^ 51" "unat r4 = (unat h4 + c3) mod 2 ^ 51"
proof -
  define k0 where "k0 = drop_bit 51 h0"
  have k0: "unat k0 = unat h0 div 2 ^ 51" "unat k0 < 2 ^ 13" using unat_u64_less [of h0] by (simp_all add: k0_def unat_drop)
  have carry: "unat (h + k) = unat h + unat k \<and> unat (drop_bit 51 (h + k)) = (unat h + unat k) div 2 ^ 51 \<and>
      unat (drop_bit 51 (h + k)) < 2 ^ 13" if "unat h < 2 ^ 64 - 2 ^ 14" "unat k < 2 ^ 13" for h k :: u64
    using that unat_plus64 [of h k] by (simp add: unat_drop)
  define s1 where "s1 = h1 + k0" define k1 where "k1 = drop_bit 51 s1"
  have s1: "unat s1 = unat h1 + unat k0" "unat k1 = (unat h1 + unat k0) div 2 ^ 51" "unat k1 < 2 ^ 13"
    using carry [OF assms(1) k0(2)] by (simp_all add: s1_def k1_def)
  define s2 where "s2 = h2 + k1" define k2 where "k2 = drop_bit 51 s2"
  have s2: "unat s2 = unat h2 + unat k1" "unat k2 = (unat h2 + unat k1) div 2 ^ 51" "unat k2 < 2 ^ 13"
    using carry [OF assms(2) s1(3)] by (simp_all add: s2_def k2_def)
  define s3 where "s3 = h3 + k2" define k3 where "k3 = drop_bit 51 s3"
  have s3: "unat s3 = unat h3 + unat k2" "unat k3 = (unat h3 + unat k2) div 2 ^ 51" "unat k3 < 2 ^ 13"
    using carry [OF assms(3) s2(3)] by (simp_all add: s3_def k3_def)
  define s4 where "s4 = h4 + k3" define k4 where "k4 = drop_bit 51 s4"
  have s4: "unat s4 = unat h4 + unat k3" "unat k4 = (unat h4 + unat k3) div 2 ^ 51" "unat k4 < 2 ^ 13"
    using carry [OF assms(4) s3(3)] by (simp_all add: s4_def k4_def)
  have "unat (h0 AND FE51_MASK) < 2 ^ 51" by simp
  then have r0: "unat ((h0 AND FE51_MASK) + k4 * 19) = unat h0 mod 2 ^ 51 + 19 * unat k4"
    using s4(3) unat_times19 [of k4] unat_plus64 [of "h0 AND FE51_MASK" "k4 * 19"] by simp
  have "fe51_reduce_round (Fe h0 h1 h2 h3 h4) =
    Fe ((h0 AND FE51_MASK) + k4 * 19) (s1 AND FE51_MASK) (s2 AND FE51_MASK) (s3 AND FE51_MASK) (s4 AND FE51_MASK)"
    by (simp add: Let_def k0_def s1_def k1_def s2_def k2_def s3_def k3_def s4_def k4_def)
  then show ?thesis
    by (rule that [OF _ k0(1) s1(2) s2(2) s3(2) s4(2) r0]) (simp_all only: unat_and_MASK s1(1) s2(1) s3(1) s4(1))
qed

lemma reduce_round_value:
  assumes "fe51_reduce_round (Fe h0 h1 h2 h3 h4) = Fe r0 r1 r2 r3 r4"
    and c: "c0 = unat h0 div 2 ^ 51" "c1 = (unat h1 + c0) div 2 ^ 51" "c2 = (unat h2 + c1) div 2 ^ 51"
      "c3 = (unat h3 + c2) div 2 ^ 51" "c4 = (unat h4 + c3) div 2 ^ 51"
    and r: "unat r0 = unat h0 mod 2 ^ 51 + 19 * c4" "unat r1 = (unat h1 + c0) mod 2 ^ 51" "unat r2 = (unat h2 + c1) mod 2 ^ 51"
      "unat r3 = (unat h3 + c2) mod 2 ^ 51" "unat r4 = (unat h4 + c3) mod 2 ^ 51"
  shows "fe_nat (Fe h0 h1 h2 h3 h4) = fe_nat (Fe r0 r1 r2 r3 r4) + c4 * p25519"
proof -
  have "unat h0 = 2 ^ 51 * c0 + (unat r0 - 19 * c4)" "unat r0 \<ge> 19 * c4" unfolding r(1) c(1) by simp_all
  moreover have "unat h1 + c0 = 2 ^ 51 * c1 + unat r1" unfolding r(2) c(2) by simp
  moreover have "unat h2 + c1 = 2 ^ 51 * c2 + unat r2" unfolding r(3) c(3) by simp
  moreover have "unat h3 + c2 = 2 ^ 51 * c3 + unat r3" unfolding r(4) c(4) by simp
  moreover have "unat h4 + c3 = 2 ^ 51 * c4 + unat r4" unfolding r(5) c(5) by simp
  ultimately show ?thesis unfolding fe_nat.simps p25519_def by simp
qed

lemma fe51_reduce_ok:
  fixes h0 h1 h2 h3 h4 :: u64
  assumes "unat h1 < 2 ^ 64 - 2 ^ 14" "unat h2 < 2 ^ 64 - 2 ^ 14" "unat h3 < 2 ^ 64 - 2 ^ 14" "unat h4 < 2 ^ 64 - 2 ^ 14"
  shows "tight (fe51_reduce (Fe h0 h1 h2 h3 h4))" "fe_nat (fe51_reduce (Fe h0 h1 h2 h3 h4)) mod p25519 = fe_nat (Fe h0 h1 h2 h3 h4) mod p25519"
proof -
  obtain r0 r1 r2 r3 r4 c0 c1 c2 c3 c4 where e: "fe51_reduce_round (Fe h0 h1 h2 h3 h4) = Fe r0 r1 r2 r3 r4"
    and c: "c0 = unat h0 div 2 ^ 51" "c1 = (unat h1 + c0) div 2 ^ 51" "c2 = (unat h2 + c1) div 2 ^ 51"
      "c3 = (unat h3 + c2) div 2 ^ 51" "c4 = (unat h4 + c3) div 2 ^ 51"
    and r: "unat r0 = unat h0 mod 2 ^ 51 + 19 * c4" "unat r1 = (unat h1 + c0) mod 2 ^ 51" "unat r2 = (unat h2 + c1) mod 2 ^ 51"
      "unat r3 = (unat h3 + c2) mod 2 ^ 51" "unat r4 = (unat h4 + c3) mod 2 ^ 51"
    by (rule reduce_round_limbs [OF assms])
  have b: "unat r1 < 2 ^ 51" "unat r2 < 2 ^ 51" "unat r3 < 2 ^ 51" "unat r4 < 2 ^ 51" unfolding r by simp_all
  have "c0 \<le> 2 ^ 13" using unat_u64_less [of h0] unfolding c(1) by simp
  then have "c1 \<le> 2 ^ 13" using assms(1) unfolding c(2) by simp
  then have "c2 \<le> 2 ^ 13" using assms(2) unfolding c(3) by simp
  then have "c3 \<le> 2 ^ 13" using assms(3) unfolding c(4) by simp
  then have "c4 \<le> 2 ^ 13" using assms(4) unfolding c(5) by simp
  then have b0: "unat r0 < 2 ^ 51 + 2 ^ 20" unfolding r(1) by simp
  have b': "unat r1 < 2 ^ 64 - 2 ^ 14" "unat r2 < 2 ^ 64 - 2 ^ 14" "unat r3 < 2 ^ 64 - 2 ^ 14" "unat r4 < 2 ^ 64 - 2 ^ 14" using b by simp_all
  obtain s0 s1 s2 s3 s4 d0 d1 d2 d3 d4 where e2: "fe51_reduce_round (Fe r0 r1 r2 r3 r4) = Fe s0 s1 s2 s3 s4"
    and d: "d0 = unat r0 div 2 ^ 51" "d1 = (unat r1 + d0) div 2 ^ 51" "d2 = (unat r2 + d1) div 2 ^ 51"
      "d3 = (unat r3 + d2) div 2 ^ 51" "d4 = (unat r4 + d3) div 2 ^ 51"
    and s: "unat s0 = unat r0 mod 2 ^ 51 + 19 * d4" "unat s1 = (unat r1 + d0) mod 2 ^ 51" "unat s2 = (unat r2 + d1) mod 2 ^ 51"
      "unat s3 = (unat r3 + d2) mod 2 ^ 51" "unat s4 = (unat r4 + d3) mod 2 ^ 51"
    by (rule reduce_round_limbs [OF b'])
  have R: "fe51_reduce (Fe h0 h1 h2 h3 h4) = Fe s0 s1 s2 s3 s4" by (simp only: fe51_reduce_def e e2)
  have "unat s0 < 2 ^ 51"
  proof (cases "unat r0 < 2 ^ 51")
    case True
    then have "d0 = 0" "d1 = 0" "d2 = 0" "d3 = 0" "d4 = 0" using b by (simp_all add: d)
    then show ?thesis using True s(1) by simp
  next
    case False
    then have "unat r0 mod 2 ^ 51 = unat r0 - 2 ^ 51" "d0 \<le> 1" using b0 by (simp_all add: le_mod_geq d(1))
    moreover from this have "d1 \<le> 1" using b(1) unfolding d(2) by simp
    moreover from this have "d2 \<le> 1" using b(2) unfolding d(3) by simp
    moreover from this have "d3 \<le> 1" using b(3) unfolding d(4) by simp
    moreover from this have "d4 \<le> 1" using b(4) unfolding d(5) by simp
    ultimately show ?thesis using b0 s(1) by simp
  qed
  then show "tight (fe51_reduce (Fe h0 h1 h2 h3 h4))" unfolding R tight.simps s(2-5) by simp
  show "fe_nat (fe51_reduce (Fe h0 h1 h2 h3 h4)) mod p25519 = fe_nat (Fe h0 h1 h2 h3 h4) mod p25519"
    unfolding R reduce_round_value [OF e c r] reduce_round_value [OF e2 d s] by simp
qed

section \<open>Field operations\<close>

text \<open>\<open>h\<close> is a reduced element that stands for the integer \<open>v\<close> modulo the prime.\<close>

definition fe_is :: "fe51 \<Rightarrow> int \<Rightarrow> bool" where
  "fe_is h v \<longleftrightarrow> tight h \<and> int (fe_nat h) mod (2 ^ 255 - 19) = v mod (2 ^ 255 - 19)"

lemma int_p25519: "int p25519 = 2 ^ 255 - 19"
  by (simp add: p25519_def)

lemma fe_is_reduce:
  fixes h0 h1 h2 h3 h4 :: u64
  assumes "unat h1 < 2 ^ 64 - 2 ^ 14" "unat h2 < 2 ^ 64 - 2 ^ 14" "unat h3 < 2 ^ 64 - 2 ^ 14" "unat h4 < 2 ^ 64 - 2 ^ 14"
    and "int (fe_nat (Fe h0 h1 h2 h3 h4)) mod (2 ^ 255 - 19) = v mod (2 ^ 255 - 19)"
  shows "fe_is (fe51_reduce (Fe h0 h1 h2 h3 h4)) v"
proof -
  have "int (fe_nat (fe51_reduce (Fe h0 h1 h2 h3 h4)) mod p25519) = int (fe_nat (Fe h0 h1 h2 h3 h4) mod p25519)"
    by (simp only: fe51_reduce_ok(2) [OF assms(1-4)])
  then show ?thesis unfolding fe_is_def zmod_int int_p25519 using fe51_reduce_ok(1) [OF assms(1-4)] assms(5) by simp
qed

lemma fe_is_add:
  assumes "fe_is a x" "fe_is b y"
  shows "fe_is (fe51_add a b) (x + y)"
proof -
  obtain a0 a1 a2 a3 a4 where a: "a = Fe a0 a1 a2 a3 a4" by (cases a)
  obtain b0 b1 b2 b3 b4 where b: "b = Fe b0 b1 b2 b3 b4" by (cases b)
  have t: "tight a" "tight b" using assms by (simp_all add: fe_is_def)
  have u: "unat (a0 + b0) = unat a0 + unat b0" "unat (a1 + b1) = unat a1 + unat b1" "unat (a2 + b2) = unat a2 + unat b2"
    "unat (a3 + b3) = unat a3 + unat b3" "unat (a4 + b4) = unat a4 + unat b4"
    using t by (auto simp: a b intro!: unat_plus64)
  have "fe_nat (Fe (a0 + b0) (a1 + b1) (a2 + b2) (a3 + b3) (a4 + b4)) = fe_nat a + fe_nat b"
    by (simp add: a b u algebra_simps)
  then have "int (fe_nat (Fe (a0 + b0) (a1 + b1) (a2 + b2) (a3 + b3) (a4 + b4))) mod (2 ^ 255 - 19) = (x + y) mod (2 ^ 255 - 19)"
    using assms unfolding fe_is_def by (metis mod_add_cong of_nat_add)
  then show ?thesis unfolding a b fe51_add.simps by (rule fe_is_reduce [rotated 4]) (use t in \<open>simp_all add: a b u\<close>)
qed

lemma sub_limb:
  fixes a b m :: u64
  assumes "unat a < 2 ^ 51" "unat b < 2 ^ 51" "unat m < 2 ^ 51" "2 ^ 51 \<le> unat m * 4"
  shows "unat (a + m * 4 - b) = unat a + 4 * unat m - unat b" "unat b \<le> unat a + 4 * unat m"
    "unat (a + m * 4 - b) < 2 ^ 64 - 2 ^ 14"
proof -
  have m: "unat (m * 4) = 4 * unat m" using assms(3) by (simp add: unat_word_ariths)
  have s: "unat (a + m * 4) = unat a + 4 * unat m" using assms(1,3) m unat_plus64 [of a "m * 4"] by simp
  then show d: "unat (a + m * 4 - b) = unat a + 4 * unat m - unat b" using assms unat_minus64 [of b "a + m * 4"] by simp
  show "unat b \<le> unat a + 4 * unat m" using assms by simp
  show "unat (a + m * 4 - b) < 2 ^ 64 - 2 ^ 14" unfolding d using assms by simp
qed

lemma fe_is_sub:
  assumes "fe_is a x" "fe_is b y"
  shows "fe_is (fe51_sub a b) (x - y)"
proof -
  obtain a0 a1 a2 a3 a4 where a: "a = Fe a0 a1 a2 a3 a4" by (cases a)
  obtain b0 b1 b2 b3 b4 where b: "b = Fe b0 b1 b2 b3 b4" by (cases b)
  have t: "tight a" "tight b" using assms by (simp_all add: fe_is_def)
  have m: "unat (FE51_MASK - 18) = 2 ^ 51 - 19" by (simp add: FE51_MASK_def)
  have u0: "unat (a0 + (FE51_MASK - 18) * 4 - b0) = unat a0 + 4 * (2 ^ 51 - 19) - unat b0" "unat b0 \<le> unat a0 + 4 * (2 ^ 51 - 19)"
    using sub_limb [of a0 b0 "FE51_MASK - 18"] t unfolding m by (simp_all add: a b)
  have u: "unat (ai + FE51_MASK * 4 - bi) = unat ai + 4 * (2 ^ 51 - 1) - unat bi" "unat bi \<le> unat ai + 4 * (2 ^ 51 - 1)"
    "unat (ai + FE51_MASK * 4 - bi) < 2 ^ 64 - 2 ^ 14"
    if "unat ai < 2 ^ 51" "unat bi < 2 ^ 51" for ai bi :: u64
    using sub_limb [OF that, of FE51_MASK] unfolding unat_MASK by simp_all
  let ?r = "Fe (a0 + (FE51_MASK - 18) * 4 - b0) (a1 + FE51_MASK * 4 - b1) (a2 + FE51_MASK * 4 - b2)
    (a3 + FE51_MASK * 4 - b3) (a4 + FE51_MASK * 4 - b4)"
  have "int (fe_nat ?r) = int (fe_nat a) - int (fe_nat b) + 4 * (2 ^ 255 - 19)"
    using t u0(2) u(2) [of a1 b1] u(2) [of a2 b2] u(2) [of a3 b3] u(2) [of a4 b4]
    unfolding a b fe_nat.simps u0(1) tight.simps by (simp add: u(1) of_nat_diff)
  then have "int (fe_nat ?r) mod (2 ^ 255 - 19) = (int (fe_nat a) - int (fe_nat b)) mod (2 ^ 255 - 19)"
    by (simp only: mod_mult_self1)
  also have "\<dots> = (x - y) mod (2 ^ 255 - 19)" using assms unfolding fe_is_def by (metis mod_diff_cong)
  finally show ?thesis unfolding a b fe51_sub.simps by (rule fe_is_reduce [rotated 4]) (use t in \<open>simp_all only: a b u(3) tight.simps\<close>)
qed

lemma unat_wmul: "unat (wmul a b) = unat a * unat b"
proof -
  have c: "unat (ucast w :: u128) = unat w" for w :: u64
    using unat_u64_less [of w] by (simp only: unsigned_ucast_eq) (simp add: take_bit_nat_eq_self)
  have "unat a * unat b < 2 ^ 64 * 2 ^ 64" using unat_u64_less [of a] unat_u64_less [of b] by (intro mult_strict_mono) simp_all
  then show ?thesis by (simp add: wmul_def unat_word_ariths c)
qed

lemma unat_plus128: "unat a + unat (b :: u128) < 2 ^ 128 \<Longrightarrow> unat (a + b) = unat a + unat b"
  by (simp add: unat_word_ariths)

lemma unat_19times: "19 * unat (a :: u128) < 2 ^ 128 \<Longrightarrow> unat (19 * a) = 19 * unat a"
  by (simp add: unat_word_ariths)

lemma unat_low51: "unat ((ucast (h :: u128) :: u64) AND FE51_MASK) = unat h mod 2 ^ 51"
proof -
  have "unat (ucast h :: u64) = unat h mod 2 ^ 64" by (simp only: unsigned_ucast_eq) (simp add: take_bit_eq_mod)
  moreover have "(unat h mod 2 ^ 64) mod 2 ^ 51 = unat h mod 2 ^ 51"
    by (rule mod_mod_cancel) (rule le_imp_power_dvd, simp)
  ultimately show ?thesis by simp
qed

lemma fe51_carry_ok:
  fixes h0 h1 h2 h3 h4 :: u128
  assumes "unat h0 < 2 ^ 110" "unat h1 < 2 ^ 110" "unat h2 < 2 ^ 110" "unat h3 < 2 ^ 110" "unat h4 < 2 ^ 106"
  obtains o0 o1 o2 o3 o4 c where "fe51_carry h0 h1 h2 h3 h4 = Fe o0 o1 o2 o3 o4"
    "unat o1 < 2 ^ 51" "unat o2 < 2 ^ 51" "unat o3 < 2 ^ 51" "unat o4 < 2 ^ 51"
    "unat h0 + 2 ^ 51 * unat h1 + 2 ^ 102 * unat h2 + 2 ^ 153 * unat h3 + 2 ^ 204 * unat h4 = fe_nat (Fe o0 o1 o2 o3 o4) + c * p25519"
proof -
  have carry: "unat (h + drop_bit 51 k) = unat h + unat k div 2 ^ 51 \<and> unat k div 2 ^ 51 < 2 ^ 60" if "unat h < 2 ^ 110" "unat k < 2 ^ 111" for h k :: u128
  proof -
    have "unat k div 2 ^ 51 < 2 ^ 60" using that(2) by simp
    then show ?thesis using that unat_plus128 [of h "drop_bit 51 k"] by (simp add: unat_drop)
  qed
  define s1 where "s1 = h1 + drop_bit 51 h0"
  have s1: "unat s1 = unat h1 + unat h0 div 2 ^ 51" "unat s1 < 2 ^ 111" using carry [OF assms(2), of h0] assms(1,2) by (simp_all add: s1_def)
  define s2 where "s2 = h2 + drop_bit 51 s1"
  have s2: "unat s2 = unat h2 + unat s1 div 2 ^ 51" "unat s2 < 2 ^ 111" using carry [OF assms(3) s1(2)] assms(3) by (simp_all add: s2_def)
  define s3 where "s3 = h3 + drop_bit 51 s2"
  have s3: "unat s3 = unat h3 + unat s2 div 2 ^ 51" "unat s3 < 2 ^ 111" using carry [OF assms(4) s2(2)] assms(4) by (simp_all add: s3_def)
  define s4 where "s4 = h4 + drop_bit 51 s3"
  have s4: "unat s4 = unat h4 + unat s3 div 2 ^ 51" "unat s4 < 2 ^ 107" using carry [of h4, OF _ s3(2)] assms(5) by (simp_all add: s4_def)
  define c where "c = unat s4 div 2 ^ 51"
  have c: "c < 2 ^ 56" using s4(2) by (simp add: c_def)
  have "unat (ucast (drop_bit 51 s4) :: u64) = c"
    using c by (simp only: unsigned_ucast_eq unat_drop) (simp add: take_bit_nat_eq_self c_def)
  then have "unat ((ucast (drop_bit 51 s4) :: u64) * 19) = 19 * c" using c unat_times19 [of "ucast (drop_bit 51 s4)"] by simp
  moreover have "unat h0 mod 2 ^ 51 < 2 ^ 51" by simp
  ultimately have o0: "unat ((ucast h0 AND FE51_MASK) + (ucast (drop_bit 51 s4) :: u64) * 19) = unat h0 mod 2 ^ 51 + 19 * c"
    using c unat_plus64 [of "ucast h0 AND FE51_MASK" "ucast (drop_bit 51 s4) * 19"] unfolding unat_low51 by simp
  have d: "unat h0 = 2 ^ 51 * (unat h0 div 2 ^ 51) + unat h0 mod 2 ^ 51" "unat s1 = 2 ^ 51 * (unat s1 div 2 ^ 51) + unat s1 mod 2 ^ 51"
    "unat s2 = 2 ^ 51 * (unat s2 div 2 ^ 51) + unat s2 mod 2 ^ 51" "unat s3 = 2 ^ 51 * (unat s3 div 2 ^ 51) + unat s3 mod 2 ^ 51"
    "unat s4 = 2 ^ 51 * c + unat s4 mod 2 ^ 51" unfolding c_def by (simp_all only: mult_div_mod_eq)
  have v: "a0 + 2 ^ 51 * a1 + 2 ^ 102 * a2 + 2 ^ 153 * a3 + 2 ^ 204 * a4 = (m0 + 19 * e) + 2 ^ 51 * m1 + 2 ^ 102 * m2 + 2 ^ 153 * m3 + 2 ^ 204 * m4 + e * p25519"
    if "a0 = 2 ^ 51 * d0 + m0" "a1 + d0 = 2 ^ 51 * d1 + m1" "a2 + d1 = 2 ^ 51 * d2 + m2" "a3 + d2 = 2 ^ 51 * d3 + m3" "a4 + d3 = 2 ^ 51 * e + m4"
    for a0 a1 a2 a3 a4 d0 d1 d2 d3 m0 m1 m2 m3 m4 e :: nat
    using that unfolding p25519_def by simp
  show ?thesis
  proof (rule that)
    show "fe51_carry h0 h1 h2 h3 h4 = Fe ((ucast h0 AND FE51_MASK) + ucast (drop_bit 51 s4) * 19)
      (ucast s1 AND FE51_MASK) (ucast s2 AND FE51_MASK) (ucast s3 AND FE51_MASK) (ucast s4 AND FE51_MASK)"
      by (simp add: fe51_carry_def Let_def s1_def s2_def s3_def s4_def)
    show "unat h0 + 2 ^ 51 * unat h1 + 2 ^ 102 * unat h2 + 2 ^ 153 * unat h3 + 2 ^ 204 * unat h4 =
      fe_nat (Fe ((ucast h0 AND FE51_MASK) + ucast (drop_bit 51 s4) * 19)
      (ucast s1 AND FE51_MASK) (ucast s2 AND FE51_MASK) (ucast s3 AND FE51_MASK) (ucast s4 AND FE51_MASK)) + c * p25519"
      unfolding fe_nat.simps o0 unat_low51
      by (rule v [OF d(1) trans [OF s1(1) [symmetric] d(2)] trans [OF s2(1) [symmetric] d(3)] trans [OF s3(1) [symmetric] d(4)]
            trans [OF s4(1) [symmetric] d(5)]])
  qed (simp_all add: unat_low51)
qed

lemma mul_limbs_value:
  fixes f0 f1 f2 f3 f4 g0 g1 g2 g3 g4 :: nat
  shows "(f0 + 2 ^ 51 * f1 + 2 ^ 102 * f2 + 2 ^ 153 * f3 + 2 ^ 204 * f4) * (g0 + 2 ^ 51 * g1 + 2 ^ 102 * g2 + 2 ^ 153 * g3 + 2 ^ 204 * g4) =
    (f0 * g0 + 19 * (f1 * g4 + f2 * g3 + f3 * g2 + f4 * g1)) +
    2 ^ 51 * (f0 * g1 + f1 * g0 + 19 * (f2 * g4 + f3 * g3 + f4 * g2)) +
    2 ^ 102 * (f0 * g2 + f1 * g1 + f2 * g0 + 19 * (f3 * g4 + f4 * g3)) +
    2 ^ 153 * (f0 * g3 + f1 * g2 + f2 * g1 + f3 * g0 + 19 * (f4 * g4)) +
    2 ^ 204 * (f0 * g4 + f1 * g3 + f2 * g2 + f3 * g1 + f4 * g0) +
    (f1 * g4 + f2 * g3 + f3 * g2 + f4 * g1 + 2 ^ 51 * (f2 * g4 + f3 * g3 + f4 * g2) + 2 ^ 102 * (f3 * g4 + f4 * g3) + 2 ^ 153 * (f4 * g4)) * p25519"
  by (simp add: p25519_def algebra_simps)

lemma unat_u128: "h = of_nat n \<Longrightarrow> n < 2 ^ 128 \<Longrightarrow> unat (h :: u128) = n"
  by (simp add: unsigned_of_nat take_bit_nat_eq_self)

lemma fe_is_mul:
  assumes "fe_is f x" "fe_is g y"
  shows "fe_is (fe51_mul f g) (x * y)"
proof -
  obtain f0 f1 f2 f3 f4 where f: "f = Fe f0 f1 f2 f3 f4" by (cases f)
  obtain g0 g1 g2 g3 g4 where g: "g = Fe g0 g1 g2 g3 g4" by (cases g)
  have t: "unat f0 < 2 ^ 51" "unat f1 < 2 ^ 51" "unat f2 < 2 ^ 51" "unat f3 < 2 ^ 51" "unat f4 < 2 ^ 51"
    "unat g0 < 2 ^ 51" "unat g1 < 2 ^ 51" "unat g2 < 2 ^ 51" "unat g3 < 2 ^ 51" "unat g4 < 2 ^ 51"
    using assms by (simp_all add: fe_is_def f g)
  have pr: "unat a * unat b < 2 ^ 102" if "unat a < 2 ^ 51" "unat b < 2 ^ 51" for a b :: u64
  proof -
    have "unat a * unat b < 2 ^ 51 * 2 ^ 51" using that by (intro mult_strict_mono) simp_all
    then show ?thesis by simp
  qed
  let ?F0 = "unat f0" and ?F1 = "unat f1" and ?F2 = "unat f2" and ?F3 = "unat f3" and ?F4 = "unat f4"
  let ?G0 = "unat g0" and ?G1 = "unat g1" and ?G2 = "unat g2" and ?G3 = "unat g3" and ?G4 = "unat g4"
  let ?h0 = "wmul f0 g0 + 19 * (wmul f1 g4 + wmul f2 g3 + wmul f3 g2 + wmul f4 g1)"
  let ?h1 = "wmul f0 g1 + wmul f1 g0 + 19 * (wmul f2 g4 + wmul f3 g3 + wmul f4 g2)"
  let ?h2 = "wmul f0 g2 + wmul f1 g1 + wmul f2 g0 + 19 * (wmul f3 g4 + wmul f4 g3)"
  let ?h3 = "wmul f0 g3 + wmul f1 g2 + wmul f2 g1 + wmul f3 g0 + 19 * wmul f4 g4"
  let ?h4 = "wmul f0 g4 + wmul f1 g3 + wmul f2 g2 + wmul f3 g1 + wmul f4 g0"
  have w: "wmul a b = of_nat (unat a * unat b)" for a b by (simp only: unat_wmul [symmetric] of_nat_unat ucast_id)
  have b0: "?F0 * ?G0 + 19 * (?F1 * ?G4 + ?F2 * ?G3 + ?F3 * ?G2 + ?F4 * ?G1) < 2 ^ 110"
    using pr [OF t(1) t(6)] pr [OF t(2) t(10)] pr [OF t(3) t(9)] pr [OF t(4) t(8)] pr [OF t(5) t(7)] by simp
  have h0: "unat ?h0 = ?F0 * ?G0 + 19 * (?F1 * ?G4 + ?F2 * ?G3 + ?F3 * ?G2 + ?F4 * ?G1)"
    by (rule unat_u128) (simp only: w of_nat_add of_nat_mult of_nat_numeral, use b0 in simp)
  have b1: "?F0 * ?G1 + ?F1 * ?G0 + 19 * (?F2 * ?G4 + ?F3 * ?G3 + ?F4 * ?G2) < 2 ^ 110"
    using pr [OF t(1) t(7)] pr [OF t(2) t(6)] pr [OF t(3) t(10)] pr [OF t(4) t(9)] pr [OF t(5) t(8)] by simp
  have h1: "unat ?h1 = ?F0 * ?G1 + ?F1 * ?G0 + 19 * (?F2 * ?G4 + ?F3 * ?G3 + ?F4 * ?G2)"
    by (rule unat_u128) (simp only: w of_nat_add of_nat_mult of_nat_numeral, use b1 in simp)
  have b2: "?F0 * ?G2 + ?F1 * ?G1 + ?F2 * ?G0 + 19 * (?F3 * ?G4 + ?F4 * ?G3) < 2 ^ 110"
    using pr [OF t(1) t(8)] pr [OF t(2) t(7)] pr [OF t(3) t(6)] pr [OF t(4) t(10)] pr [OF t(5) t(9)] by simp
  have h2: "unat ?h2 = ?F0 * ?G2 + ?F1 * ?G1 + ?F2 * ?G0 + 19 * (?F3 * ?G4 + ?F4 * ?G3)"
    by (rule unat_u128) (simp only: w of_nat_add of_nat_mult of_nat_numeral, use b2 in simp)
  have b3: "?F0 * ?G3 + ?F1 * ?G2 + ?F2 * ?G1 + ?F3 * ?G0 + 19 * (?F4 * ?G4) < 2 ^ 110"
    using pr [OF t(1) t(9)] pr [OF t(2) t(8)] pr [OF t(3) t(7)] pr [OF t(4) t(6)] pr [OF t(5) t(10)] by simp
  have h3: "unat ?h3 = ?F0 * ?G3 + ?F1 * ?G2 + ?F2 * ?G1 + ?F3 * ?G0 + 19 * (?F4 * ?G4)"
    by (rule unat_u128) (simp only: w of_nat_add of_nat_mult of_nat_numeral, use b3 in simp)
  have b4: "?F0 * ?G4 + ?F1 * ?G3 + ?F2 * ?G2 + ?F3 * ?G1 + ?F4 * ?G0 < 2 ^ 106"
    using pr [OF t(1) t(10)] pr [OF t(2) t(9)] pr [OF t(3) t(8)] pr [OF t(4) t(7)] pr [OF t(5) t(6)] by simp
  have h4: "unat ?h4 = ?F0 * ?G4 + ?F1 * ?G3 + ?F2 * ?G2 + ?F3 * ?G1 + ?F4 * ?G0"
    by (rule unat_u128) (simp only: w of_nat_add of_nat_mult of_nat_numeral, use b4 in simp)
  obtain o0 o1 o2 o3 o4 c where e: "fe51_carry ?h0 ?h1 ?h2 ?h3 ?h4 = Fe o0 o1 o2 o3 o4"
    and o: "unat o1 < 2 ^ 51" "unat o2 < 2 ^ 51" "unat o3 < 2 ^ 51" "unat o4 < 2 ^ 51"
    and v: "unat ?h0 + 2 ^ 51 * unat ?h1 + 2 ^ 102 * unat ?h2 + 2 ^ 153 * unat ?h3 + 2 ^ 204 * unat ?h4 = fe_nat (Fe o0 o1 o2 o3 o4) + c * p25519"
    by (rule fe51_carry_ok [of ?h0 ?h1 ?h2 ?h3 ?h4]) (simp_all only: h0 h1 h2 h3 h4 b0 b1 b2 b3 b4)
  note v' = v [unfolded h0 h1 h2 h3 h4]
  obtain d where "fe_nat f * fe_nat g = fe_nat (Fe o0 o1 o2 o3 o4) + d * p25519"
  proof (rule that)
    show "fe_nat f * fe_nat g = fe_nat (Fe o0 o1 o2 o3 o4) + (c + (?F1 * ?G4 + ?F2 * ?G3 + ?F3 * ?G2 + ?F4 * ?G1 +
      2 ^ 51 * (?F2 * ?G4 + ?F3 * ?G3 + ?F4 * ?G2) + 2 ^ 102 * (?F3 * ?G4 + ?F4 * ?G3) + 2 ^ 153 * (?F4 * ?G4))) * p25519"
      unfolding f g fe_nat.simps [of f0] fe_nat.simps [of g0] mul_limbs_value v' by (simp only: add_mult_distrib add.assoc)
  qed
  then have "int (fe_nat f) * int (fe_nat g) = int (fe_nat (Fe o0 o1 o2 o3 o4)) + int d * (2 ^ 255 - 19)"
    unfolding int_p25519 [symmetric] of_nat_mult [symmetric] of_nat_add [symmetric] by (simp only:)
  then have "int (fe_nat (Fe o0 o1 o2 o3 o4)) mod (2 ^ 255 - 19) = int (fe_nat f) * int (fe_nat g) mod (2 ^ 255 - 19)"
    by (simp only: mod_mult_self1)
  also have "\<dots> = x * y mod (2 ^ 255 - 19)" using assms unfolding fe_is_def by (metis mod_mult_cong)
  finally show ?thesis unfolding f g fe51_mul.simps Let_def e by (rule fe_is_reduce [rotated 4]) (use o in simp_all)
qed

lemma fe_is_cong: "fe_is h v \<Longrightarrow> v mod (2 ^ 255 - 19) = w mod (2 ^ 255 - 19) \<Longrightarrow> fe_is h w"
  by (simp add: fe_is_def)

lemma fe_is_consts: "fe_is fe51_1 1" "fe_is fe51_0 0" "fe_is a24 121665"
  by (simp_all add: fe_is_def fe51_1_def fe51_0_def a24_def)

lemma fe_is_sq: "fe_is a x \<Longrightarrow> fe_is (fe51_sq a) (x * x)"
  unfolding fe51_sq_def by (rule fe_is_mul)

section \<open>Inversion\<close>

primrec expo :: "nat \<Rightarrow> nat" where
  "expo 0 = 0"
| "expo (Suc n) = expo n + (if exponent_pminus2_bit n then 2 ^ n else 0)"

lemma expo_value: "5 \<le> n \<Longrightarrow> n \<le> 255 \<Longrightarrow> expo n + 21 = 2 ^ n"
proof (induction n rule: dec_induct)
  case base
  show ?case by (simp add: eval_nat_numeral exponent_pminus2_bit_def)
next
  case (step n)
  then show ?case by (simp add: exponent_pminus2_bit_def)
qed

lemma inv_loop: "fe_is z x \<Longrightarrow> fe_is r v \<Longrightarrow> fe_is (foldl (inv_step z) r (rev [0..<n])) (v ^ (2 ^ n) * x ^ expo n)"
proof (induction n arbitrary: r v)
  case (Suc n)
  let ?b = "if exponent_pminus2_bit n then 1 else 0 :: nat"
  have "fe_is (inv_step z r n) (v * v * x ^ ?b)"
    using fe_is_sq [OF Suc.prems(2)] fe_is_mul [OF fe_is_sq [OF Suc.prems(2)] Suc.prems(1)] by (simp add: inv_step_def Let_def)
  from Suc.IH [OF Suc.prems(1) this] have "fe_is (foldl (inv_step z) r (rev [0..<Suc n])) ((v * v * x ^ ?b) ^ (2 ^ n) * x ^ expo n)" by simp
  also have "(v * v * x ^ ?b) ^ (2 ^ n) * x ^ expo n = v ^ (2 ^ Suc n) * x ^ expo (Suc n)"
    by (simp add: power_mult_distrib power_add mult_2 flip: power_mult)
  finally show ?case .
qed simp

lemma fe_is_inv: "fe_is z x \<Longrightarrow> fe_is (fe51_inv z) (x ^ (2 ^ 255 - 21))"
proof -
  assume z: "fe_is z x"
  have "expo 255 = 2 ^ 255 - 21" using expo_value [of 255] by simp
  with inv_loop [OF z fe_is_consts(1), of 255] show ?thesis unfolding fe51_inv_def power_one mult_1 by (simp only:)
qed

section \<open>Encoding and decoding\<close>

lemma unat_load_le64: "8 \<le> length p \<Longrightarrow> unat (load_le64 p) = le_nat (take 8 p)"
proof -
  assume p: "8 \<le> length p"
  have gen: "length bs \<le> 8 \<Longrightarrow> unat (foldl (\<lambda>v b. push_bit 8 v OR ucast b) 0 bs :: u64) = be_nat bs" for bs :: bytes
  proof (induction bs rule: rev_induct)
    case (snoc b bs)
    let ?w = "foldl (\<lambda>v b. push_bit 8 v OR ucast b) 0 bs :: u64"
    have w: "unat ?w = be_nat bs" using snoc by simp
    have "be_nat bs < 256 ^ length bs" by (rule be_nat_less)
    also have "\<dots> \<le> 256 ^ 7" using snoc.prems by (intro power_increasing) simp_all
    finally have lt: "be_nat bs < 2 ^ 56" by simp
    have "push_bit 8 ?w OR ucast b = push_bit 8 ?w + ucast b"
      by (rule disjunctive_add_eq_or [symmetric], rule bit_word_eqI) (auto simp: bit_simps dest: bit_imp_le_length)
    moreover have "unat (push_bit 8 ?w) = 256 * be_nat bs" using lt w by (simp add: push_bit_eq_mult unat_word_ariths)
    moreover have "unat (ucast b :: u64) = unat b"
      unfolding unsigned_ucast_eq by (rule take_bit_nat_eq_self) (rule less_trans [OF unat_byte_less], simp)
    moreover have "unat b \<le> 255" using unat_byte_less [of b] by linarith
    ultimately show ?case using lt unat_plus64 [of "push_bit 8 ?w" "ucast b"] by (simp add: be_nat_snoc)
  qed (simp add: be_nat_def)
  have "load_le64 p = foldl (\<lambda>v b. push_bit 8 v OR ucast b) 0 (map ((!) p) (rev [0..<8]))"
    unfolding load_le64_def foldl_map ..
  also have "map ((!) p) (rev [0..<8]) = rev (take 8 p)" 
  proof -
    have "map ((!) p) [0..<8] = take 8 p" using p by (intro nth_equalityI) simp_all
    then show ?thesis by (simp only: rev_map [symmetric])
  qed
  finally show ?thesis using gen [of "rev (take 8 p)"] by (simp add: le_nat_def)
qed

lemma mod_div_mod: "m + n \<le> k \<Longrightarrow> (a mod 2 ^ k) div 2 ^ m mod 2 ^ n = a div 2 ^ m mod (2 :: nat) ^ n"
proof -
  assume k: "m + n \<le> k"
  have "take_bit n (drop_bit m (take_bit k a)) = take_bit n (drop_bit m a)"
    using k by (intro bit_eqI) (auto simp: bit_simps)
  then show ?thesis by (simp only: take_bit_eq_mod drop_bit_eq_div)
qed

lemma load_limb:
  assumes "length inp = 32" "k + 8 \<le> 32" "m \<le> 13"
  shows "unat (drop_bit m (load_le64 (drop k inp)) AND FE51_MASK) = le_nat inp div 2 ^ (8 * k + m) mod 2 ^ 51"
proof -
  have "unat (load_le64 (drop k inp)) = le_nat inp div 256 ^ k mod 256 ^ 8"
    using assms unat_load_le64 [of "drop k inp"] le_nat_div_mod [of k 8 inp] by simp
  also have "(256 :: nat) ^ k = 2 ^ (8 * k)" by (simp add: power_mult)
  finally have l: "unat (load_le64 (drop k inp)) = le_nat inp div 2 ^ (8 * k) mod 2 ^ 64" by simp
  have k: "m + 51 \<le> 64" using assms(3) by simp
  show ?thesis unfolding unat_and_MASK unat_drop l mod_div_mod [OF k]
    by (simp add: div_mult2_eq power_add)
qed

lemma digits51: "x mod 2 ^ 255 = x mod 2 ^ 51 + 2 ^ 51 * (x div 2 ^ 51 mod 2 ^ 51) + 2 ^ 102 * (x div 2 ^ 102 mod 2 ^ 51) +
  2 ^ 153 * (x div 2 ^ 153 mod 2 ^ 51) + 2 ^ 204 * (x div 2 ^ 204 mod (2 :: nat) ^ 51)"
proof -
  have s: "x mod 2 ^ (n + 51) = x mod 2 ^ n + 2 ^ n * (x div 2 ^ n mod 2 ^ 51)" for n
    by (simp add: power_add mod_mult2_eq)
  show ?thesis using s [of 51] s [of 102] s [of 153] s [of 204] by simp
qed

lemma fe51_frombytes_value:
  assumes "length inp = 32"
  shows "tight (fe51_frombytes inp)" "fe_nat (fe51_frombytes inp) = le_nat inp mod 2 ^ 255"
proof -
  have l: "unat (drop_bit 0 (load_le64 (drop 0 inp)) AND FE51_MASK) = le_nat inp mod 2 ^ 51"
    "unat (drop_bit 3 (load_le64 (drop 6 inp)) AND FE51_MASK) = le_nat inp div 2 ^ 51 mod 2 ^ 51"
    "unat (drop_bit 6 (load_le64 (drop 12 inp)) AND FE51_MASK) = le_nat inp div 2 ^ 102 mod 2 ^ 51"
    "unat (drop_bit 1 (load_le64 (drop 19 inp)) AND FE51_MASK) = le_nat inp div 2 ^ 153 mod 2 ^ 51"
    "unat (drop_bit 12 (load_le64 (drop 24 inp)) AND FE51_MASK) = le_nat inp div 2 ^ 204 mod 2 ^ 51"
    using load_limb [OF assms, of 0 0] load_limb [OF assms, of 6 3] load_limb [OF assms, of 12 6] load_limb [OF assms, of 19 1]
      load_limb [OF assms, of 24 12] by (simp_all del: unat_and_MASK)
  have e: "fe51_frombytes inp = Fe (drop_bit 0 (load_le64 (drop 0 inp)) AND FE51_MASK) (drop_bit 3 (load_le64 (drop 6 inp)) AND FE51_MASK)
    (drop_bit 6 (load_le64 (drop 12 inp)) AND FE51_MASK) (drop_bit 1 (load_le64 (drop 19 inp)) AND FE51_MASK)
    (drop_bit 12 (load_le64 (drop 24 inp)) AND FE51_MASK)" by (simp add: fe51_frombytes_def)
  show "tight (fe51_frombytes inp)" unfolding e tight.simps by simp
  show "fe_nat (fe51_frombytes inp) = le_nat inp mod 2 ^ 255" unfolding e fe_nat.simps l by (rule digits51 [symmetric])
qed

lemma unat_push_or:
  fixes a b :: u64
  assumes "unat a < 2 ^ n" "n < 64"
  shows "unat (a OR push_bit n b) = unat a + 2 ^ n * (unat b mod 2 ^ (64 - n))"
proof -
  have "take_bit n (unat a) = unat a" using assms(1) by (rule take_bit_nat_eq_self)
  then have "take_bit n a = a" by (simp add: word_unat_eq_iff unsigned_take_bit_eq)
  then have a: "\<not> bit a k" if "n \<le> k" for k using that bit_take_bit_iff [of n a k] by simp
  have "a OR push_bit n b = a + push_bit n b"
    by (rule disjunctive_add_eq_or [symmetric], rule bit_word_eqI) (auto simp: bit_simps a)
  moreover have p: "unat (push_bit n b) = 2 ^ n * (unat b mod 2 ^ (64 - n))"
  proof -
    have "(2 :: nat) ^ n < 2 ^ 64" using assms(2) by (intro power_strict_increasing) simp_all
    then have "unat (of_nat (2 ^ n) :: u64) = 2 ^ n" using take_bit_nat_eq_self [of "2 ^ n" 64] unfolding unsigned_of_nat by (simp only: of_nat_id) simp
    then have "unat (2 ^ n :: u64) = 2 ^ n" by simp
    then have "unat (push_bit n b) = 2 ^ n * unat b mod 2 ^ (n + (64 - n))"
      using assms(2) by (simp add: push_bit_eq_mult unat_word_ariths mult.commute)
    then show ?thesis by (simp only: power_add mult_mod_right)
  qed
  moreover have "unat a + 2 ^ n * (unat b mod 2 ^ (64 - n)) < 2 ^ 64"
  proof -
    have "unat b mod 2 ^ (64 - n) + 1 \<le> 2 ^ (64 - n)" by (simp add: Suc_le_eq)
    then have "2 ^ n * (unat b mod 2 ^ (64 - n) + 1) \<le> 2 ^ n * 2 ^ (64 - n)" by (rule mult_le_mono2)
    also have "\<dots> = (2 :: nat) ^ 64" using assms(2) by (simp flip: power_add)
    finally show ?thesis using assms(1) by (simp add: algebra_simps)
  qed
  ultimately show ?thesis using unat_plus64 [of a "push_bit n b"] by simp
qed

lemma length_store_le64 [simp]: "length (store_le64 v) = 8"
  by (simp add: store_le64_def)

lemma le_nat_store: "le_nat (store_le64 v) = unat v"
proof (rule bit_eqI)
  fix n
  show "bit (le_nat (store_le64 v)) n = bit (unat v) n"
  proof (cases "n < 64")
    case True
    then have "n div 8 < 8" by simp
    then have "store_le64 v ! (n div 8) = ucast (drop_bit (8 * (n div 8)) v)" unfolding store_le64_def by (subst nth_map) simp_all
    then show ?thesis using True by (simp add: bit_le_nat bit_simps)
  next
    case False
    then show ?thesis using bit_imp_le_length [of v n] by (auto simp: bit_le_nat bit_unsigned_iff)
  qed
qed

lemma byte_and_7f: "unat b < 128 \<Longrightarrow> b AND 0x7f = (b :: byte)"
proof -
  assume b: "unat b < 128"
  have "b AND 0x7f = take_bit 7 b" by (simp add: take_bit_eq_mask mask_eq_exp_minus_1)
  then have "unat (b AND 0x7f) = unat b" using b by (simp only: unsigned_take_bit_eq) (simp add: take_bit_nat_eq_self)
  then show ?thesis by (simp add: word_unat_eq_iff)
qed

lemma fe51_pack_value:
  assumes "tight h"
  shows "length (fe51_pack h) = 32" "le_nat (fe51_pack h) = fe_nat h"
proof -
  obtain h0 h1 h2 h3 h4 where h: "h = Fe h0 h1 h2 h3 h4" by (cases h)
  have t: "unat h0 < 2 ^ 51" "unat h1 < 2 ^ 51" "unat h2 < 2 ^ 51" "unat h3 < 2 ^ 51" "unat h4 < 2 ^ 51" using assms by (simp_all add: h)
  define w0 w1 w2 w3 where "w0 = h0 OR push_bit 51 h1" and "w1 = drop_bit 13 h1 OR push_bit 38 h2"
    and "w2 = drop_bit 26 h2 OR push_bit 25 h3" and "w3 = drop_bit 39 h3 OR push_bit 12 h4"
  have w: "unat w0 = unat h0 + 2 ^ 51 * (unat h1 mod 2 ^ 13)" "unat w1 = unat h1 div 2 ^ 13 + 2 ^ 38 * (unat h2 mod 2 ^ 26)"
    "unat w2 = unat h2 div 2 ^ 26 + 2 ^ 25 * (unat h3 mod 2 ^ 39)" "unat w3 = unat h3 div 2 ^ 39 + 2 ^ 12 * unat h4"
    unfolding w0_def w1_def w2_def w3_def
    using t unat_push_or [of h0 51 h1] unat_push_or [of "drop_bit 13 h1" 38 h2] unat_push_or [of "drop_bit 26 h2" 25 h3]
      unat_push_or [of "drop_bit 39 h3" 12 h4] by (simp_all add: unat_drop)
  let ?out = "store_le64 w0 @ store_le64 w1 @ store_le64 w2 @ store_le64 w3"
  have v: "le_nat ?out = unat w0 + 2 ^ 64 * unat w1 + 2 ^ 128 * unat w2 + 2 ^ 192 * unat w3"
    by (simp add: le_nat_append le_nat_store algebra_simps)
  also have "\<dots> = fe_nat h"
  proof -
    have "(a0 + 2 ^ 51 * m1) + 2 ^ 64 * (d1 + 2 ^ 38 * m2) + 2 ^ 128 * (d2 + 2 ^ 25 * m3) + 2 ^ 192 * (d3 + 2 ^ 12 * a4) =
        a0 + 2 ^ 51 * a1 + 2 ^ 102 * a2 + 2 ^ 153 * a3 + 2 ^ 204 * a4"
      if "2 ^ 13 * d1 + m1 = a1" "2 ^ 26 * d2 + m2 = a2" "2 ^ 39 * d3 + m3 = a3" for a0 a1 a2 a3 a4 d1 d2 d3 m1 m2 m3 :: nat
      using that by simp
    then show ?thesis unfolding w h fe_nat.simps by this (rule mult_div_mod_eq)+
  qed
  finally have val: "le_nat ?out = fe_nat h" .
  have "?out ! 31 = store_le64 w3 ! 7" by (simp add: nth_append)
  also have "\<dots> = ucast (drop_bit 56 w3)" by (simp add: store_le64_def)
  finally have "unat (?out ! 31) = unat w3 div 2 ^ 56 mod 2 ^ 8"
    by (simp only: unsigned_ucast_eq unat_drop) (simp add: take_bit_eq_mod)
  moreover have "unat w3 < 2 ^ 63" unfolding w using t by simp
  ultimately have "unat (?out ! 31) < 128" by simp
  then have "?out ! 31 AND 0x7f = ?out ! 31" by (rule byte_and_7f)
  then have "fe51_pack h = ?out" by (simp only: h fe51_pack.simps Let_def w0_def [symmetric] w1_def [symmetric] w2_def [symmetric] w3_def [symmetric] list_update_id)
  with val show "length (fe51_pack h) = 32" "le_nat (fe51_pack h) = fe_nat h" by simp_all
qed

lemma fe51_ge_p_iff:
  assumes "tight (Fe h0 h1 h2 h3 h4)"
  shows "fe51_ge_p (Fe h0 h1 h2 h3 h4) \<longleftrightarrow>
    unat h4 = 2 ^ 51 - 1 \<and> unat h3 = 2 ^ 51 - 1 \<and> unat h2 = 2 ^ 51 - 1 \<and> unat h1 = 2 ^ 51 - 1 \<and> unat h0 \<ge> 2 ^ 51 - 19"
proof -
  have m: "unat (FE51_MASK - 18) = 2 ^ 51 - 19" by (simp add: FE51_MASK_def)
  have "fe51_ge_p (Fe h0 h1 h2 h3 h4) =
    ge_p_loop [(h4, FE51_MASK), (h3, FE51_MASK), (h2, FE51_MASK), (h1, FE51_MASK), (h0, FE51_MASK - 18)]"
    by (simp add: fe51_ge_p_def fe51_p_def)
  also have "\<dots> \<longleftrightarrow> unat h4 = 2 ^ 51 - 1 \<and> unat h3 = 2 ^ 51 - 1 \<and> unat h2 = 2 ^ 51 - 1 \<and> unat h1 = 2 ^ 51 - 1 \<and> unat h0 \<ge> 2 ^ 51 - 19"
    using assms unfolding ge_p_loop.simps word_less_nat_alt unat_MASK m tight.simps by auto
  finally show ?thesis .
qed

lemma canonical:
  assumes "tight h"
  shows "tight (if fe51_ge_p h then fe51_sub_p h else h)" "fe_nat (if fe51_ge_p h then fe51_sub_p h else h) = fe_nat h mod p25519"
proof -
  obtain h0 h1 h2 h3 h4 where h: "h = Fe h0 h1 h2 h3 h4" by (cases h)
  have t: "unat h0 < 2 ^ 51" "unat h1 < 2 ^ 51" "unat h2 < 2 ^ 51" "unat h3 < 2 ^ 51" "unat h4 < 2 ^ 51" using assms by (simp_all add: h)
  have "tight (if fe51_ge_p h then fe51_sub_p h else h) \<and> fe_nat (if fe51_ge_p h then fe51_sub_p h else h) = fe_nat h mod p25519"
  proof (cases "fe51_ge_p h")
    case True
    then have g: "unat h4 = 2 ^ 51 - 1" "unat h3 = 2 ^ 51 - 1" "unat h2 = 2 ^ 51 - 1" "unat h1 = 2 ^ 51 - 1" "unat h0 \<ge> 2 ^ 51 - 19"
      using fe51_ge_p_iff [OF assms [unfolded h]] by (simp_all add: h)
    have m: "unat (FE51_MASK - 18) = 2 ^ 51 - 19" by (simp add: FE51_MASK_def)
    have w: "h4 = FE51_MASK" "h3 = FE51_MASK" "h2 = FE51_MASK" "h1 = FE51_MASK" using g by (simp_all add: word_unat_eq_iff)
    have "\<not> h0 < FE51_MASK - 18" using g(5) by (simp only: word_less_nat_alt m not_less)
    then have s: "fe51_sub_p h = Fe (h0 - (FE51_MASK - 18)) 0 0 0 0" by (simp add: h w fe51_p_def Let_def)
    have u: "unat (h0 - (FE51_MASK - 18)) = unat h0 - (2 ^ 51 - 19)" using g(5) unat_minus64 [of "FE51_MASK - 18" h0] by (simp only: m)
    have "fe_nat h = (unat h0 - (2 ^ 51 - 19)) + p25519" unfolding h fe_nat.simps g(1-4) p25519_def using g(5) by simp
    moreover have "unat h0 - (2 ^ 51 - 19) < p25519" using t(1) by (simp add: p25519_def)
    ultimately have "fe_nat h mod p25519 = unat h0 - (2 ^ 51 - 19)" by simp
    then show ?thesis using True t(1) u by (simp add: s)
  next
    case False
    then have "\<not> (unat h4 = 2 ^ 51 - 1 \<and> unat h3 = 2 ^ 51 - 1 \<and> unat h2 = 2 ^ 51 - 1 \<and> unat h1 = 2 ^ 51 - 1 \<and> unat h0 \<ge> 2 ^ 51 - 19)"
      using fe51_ge_p_iff [OF assms [unfolded h]] by (simp add: h)
    then have "fe_nat h < p25519" unfolding h fe_nat.simps p25519_def using t by auto
    then show ?thesis using False assms by simp
  qed
  then show "tight (if fe51_ge_p h then fe51_sub_p h else h)" "fe_nat (if fe51_ge_p h then fe51_sub_p h else h) = fe_nat h mod p25519" by simp_all
qed

lemma fe51_tobytes_value:
  assumes "fe_is h v"
  shows "fe51_tobytes h = le_bytes 32 (nat (v mod (2 ^ 255 - 19)))"
proof -
  obtain h0 h1 h2 h3 h4 where h: "h = Fe h0 h1 h2 h3 h4" by (cases h)
  have t: "tight h" using assms by (simp add: fe_is_def)
  have "fe_is (fe51_reduce (Fe h0 h1 h2 h3 h4)) v"
    by (rule fe_is_reduce) (use assms in \<open>simp_all add: fe_is_def h\<close>)
  then have r: "tight (fe51_reduce h)" "int (fe_nat (fe51_reduce h)) mod (2 ^ 255 - 19) = v mod (2 ^ 255 - 19)" by (simp_all add: fe_is_def h)
  let ?c = "if fe51_ge_p (fe51_reduce h) then fe51_sub_p (fe51_reduce h) else fe51_reduce h"
  have "int (fe_nat ?c) = v mod (2 ^ 255 - 19)" unfolding canonical(2) [OF r(1)] zmod_int int_p25519 by (rule r(2))
  then have "le_nat (fe51_pack ?c) = nat (v mod (2 ^ 255 - 19))" using fe51_pack_value(2) [OF canonical(1) [OF r(1)]] by simp
  moreover have "length (fe51_pack ?c) = 32" by (rule fe51_pack_value(1) [OF canonical(1) [OF r(1)]])
  moreover have "fe51_tobytes h = fe51_pack ?c" by (simp only: fe51_tobytes_def Let_def)
  ultimately show ?thesis using le_bytes_le_nat [of "fe51_pack ?c" 32] by simp
qed

section \<open>The ladder of RFC 7748\<close>

lemma cswap_limb_simps: "cswap_limb 0 a b = (a, b)" "cswap_limb (- 1) a b = (b, a)"
proof -
  have "a XOR (a XOR b) = b" by (simp flip: xor.assoc)
  moreover have "b XOR (a XOR b) = a" by (simp add: xor.commute [of a b] flip: xor.assoc)
  ultimately show "cswap_limb 0 a b = (a, b)" "cswap_limb (- 1) a b = (b, a)" by (simp_all add: cswap_limb_def Let_def)
qed

lemma fe51_cswap_simps: "fe51_cswap a b 0 = (a, b)" "fe51_cswap a b 1 = (b, a)"
  by (cases a; cases b; simp add: cswap_limb_simps)+

type_synonym ipoint = "int \<times> int \<times> int \<times> int"

definition fadd :: "int \<Rightarrow> int \<Rightarrow> int" where
  "fadd a b = (a + b) mod (2 ^ 255 - 19)"

definition fsub :: "int \<Rightarrow> int \<Rightarrow> int" where
  "fsub a b = (a - b) mod (2 ^ 255 - 19)"

definition fmul :: "int \<Rightarrow> int \<Rightarrow> int" where
  "fmul a b = (a * b) mod (2 ^ 255 - 19)"

text \<open>One differential addition and doubling, and a ladder step that exchanges the points when the bit is set.\<close>

definition rfc_add_double :: "int \<Rightarrow> ipoint \<Rightarrow> ipoint" where
  "rfc_add_double u q =
    (case q of (x2, z2, x3, z3) \<Rightarrow>
      let a = fadd x2 z2; aa = fmul a a; b = fsub x2 z2; bb = fmul b b; e = fsub aa bb;
          da = fmul (fsub x3 z3) a; cb = fmul (fadd x3 z3) b
      in (fmul aa bb, fmul e (fadd aa (fmul 121665 e)), fmul (fadd da cb) (fadd da cb), fmul u (fmul (fsub da cb) (fsub da cb))))"

fun exchange :: "bool \<Rightarrow> ipoint \<Rightarrow> ipoint" where
  "exchange k (x2, z2, x3, z3) = (if k then (x3, z3, x2, z2) else (x2, z2, x3, z3))"

definition rfc_step :: "nat \<Rightarrow> int \<Rightarrow> ipoint \<Rightarrow> nat \<Rightarrow> ipoint" where
  "rfc_step k u q t = exchange (bit k t) (rfc_add_double u (exchange (bit k t) q))"

definition rfc7748 :: "nat \<Rightarrow> int \<Rightarrow> int" where
  "rfc7748 k u = (case foldl (rfc_step k u) (1, 0, u, 1) (rev [0..<255]) of (x2, z2, _) \<Rightarrow> fmul x2 (z2 ^ (2 ^ 255 - 21)))"

definition clamp_nat :: "nat \<Rightarrow> nat" where
  "clamp_nat k = 2 ^ 254 + 8 * (k mod 2 ^ 254 div 8)"

fun point_is :: "fe51 \<times> fe51 \<times> fe51 \<times> fe51 \<Rightarrow> ipoint \<Rightarrow> bool" where
  "point_is (a, b, c, d) (x, y, z, w) \<longleftrightarrow> fe_is a x \<and> fe_is b y \<and> fe_is c z \<and> fe_is d w"

lemma fe_is_ops:
  "fe_is a x \<Longrightarrow> fe_is b y \<Longrightarrow> fe_is (fe51_add a b) (fadd x y)"
  "fe_is a x \<Longrightarrow> fe_is b y \<Longrightarrow> fe_is (fe51_sub a b) (fsub x y)"
  "fe_is a x \<Longrightarrow> fe_is b y \<Longrightarrow> fe_is (fe51_mul a b) (fmul x y)"
  "fe_is a x \<Longrightarrow> fe_is (fe51_sq a) (fmul x x)"
  using fe_is_add [of a x b y] fe_is_sub [of a x b y] fe_is_mul [of a x b y] fe_is_sq [of a x]
  by (auto elim!: fe_is_cong simp: fadd_def fsub_def fmul_def)

lemma ladder_add_double_ok:
  assumes "fe_is x1 u" "point_is q r"
  shows "point_is (ladder_add_double x1 q) (rfc_add_double u r)"
proof -
  obtain a b c d where q: "q = (a, b, c, d)" by (cases q)
  obtain x y z w where r: "r = (x, y, z, w)" by (cases r)
  have h: "fe_is a x" "fe_is b y" "fe_is c z" "fe_is d w" using assms(2) by (simp_all add: q r)
  have comm: "fmul s t = fmul t s" for s t by (simp add: fmul_def mult.commute)
  show ?thesis unfolding q r ladder_add_double_def rfc_add_double_def Let_def prod.case point_is.simps
      comm [of u] comm [of 121665]
    by (intro conjI fe_is_ops fe_is_consts assms(1) h)
qed

definition ladder_is :: "ladder \<Rightarrow> ipoint \<Rightarrow> bool" where
  "ladder_is l q \<longleftrightarrow> (lswap l = 0 \<or> lswap l = 1) \<and> point_is (lx2 l, lz2 l, lx3 l, lz3 l) (exchange (lswap l = 1) q)"

lemma scalar_bit:
  assumes "length scalar = 32" "t < 256"
  shows "drop_bit (t mod 8) (scalar ! (t div 8)) AND 1 = (if bit (le_nat scalar) t then 1 else 0)"
proof -
  have "bit (le_nat scalar) t = bit (scalar ! (t div 8)) (t mod 8)" using assms by (simp add: bit_le_nat)
  then show ?thesis by (simp add: and_one_eq mod_2_eq_odd bit_iff_odd_drop_bit)
qed

lemma ladder_swap:
  assumes "ladder_is l q" "swap = lswap l XOR (if k then 1 else 0)"
  obtains x2 x3 z2 z3 where "fe51_cswap (lx2 l) (lx3 l) swap = (x2, x3)" "fe51_cswap (lz2 l) (lz3 l) swap = (z2, z3)"
    "point_is (x2, z2, x3, z3) (exchange k q)"
proof -
  obtain a b c d where q: "q = (a, b, c, d)" by (cases q)
  have "lswap l = 0 \<or> lswap l = 1" using assms(1) by (simp add: ladder_is_def)
  then show ?thesis
    using assms that by (cases k; elim disjE; simp add: ladder_is_def q fe51_cswap_simps)
qed

lemma ladder_step_ok:
  assumes "length scalar = 32" "t < 256" "fe_is x1 u" "ladder_is l q"
  shows "ladder_is (ladder_step scalar x1 l t) (rfc_step (le_nat scalar) u q t)"
proof -
  let ?k = "bit (le_nat scalar) t"
  obtain x2 x3 z2 z3 where s: "fe51_cswap (lx2 l) (lx3 l) (lswap l XOR (if ?k then 1 else 0)) = (x2, x3)"
    "fe51_cswap (lz2 l) (lz3 l) (lswap l XOR (if ?k then 1 else 0)) = (z2, z3)" "point_is (x2, z2, x3, z3) (exchange ?k q)"
    by (rule ladder_swap [OF assms(4) refl])
  obtain a b c d where d: "ladder_add_double x1 (x2, z2, x3, z3) = (a, b, c, d)" by (cases "ladder_add_double x1 (x2, z2, x3, z3)")
  have p: "point_is (a, b, c, d) (rfc_add_double u (exchange ?k q))" using ladder_add_double_ok [OF assms(3) s(3)] d by simp
  have e: "ladder_step scalar x1 l t = \<lparr>lx2 = a, lz2 = b, lx3 = c, lz3 = d, lswap = (if ?k then 1 else 0)\<rparr>"
    unfolding ladder_step_def scalar_bit [OF assms(1,2)] Let_def s(1,2) prod.case d ..
  obtain x y z w where r: "rfc_add_double u (exchange ?k q) = (x, y, z, w)" by (cases "rfc_add_double u (exchange ?k q)")
  show ?thesis using p unfolding e ladder_is_def rfc_step_def r by simp
qed

lemma ladder_loop_ok:
  assumes "length scalar = 32" "fe_is x1 u" "set ts \<subseteq> {..<256}" "ladder_is l q"
  shows "ladder_is (foldl (ladder_step scalar x1) l ts) (foldl (rfc_step (le_nat scalar) u) q ts)"
  using assms(3,4)
proof (induction ts arbitrary: l q)
  case (Cons t ts)
  then show ?case using ladder_step_ok [OF assms(1) _ assms(2), of t l q] by simp
qed simp

lemma rfc_step_cong: "(\<And>t. t \<in> set ts \<Longrightarrow> bit k t = bit k' t) \<Longrightarrow> foldl (rfc_step k u) q ts = foldl (rfc_step k' u) q ts"
  by (rule foldl_cong) (simp_all add: rfc_step_def)

lemma length_clamp [simp]: "length (x25519_clamp_private s) = length s"
  by (simp add: x25519_clamp_private_def Let_def)

lemma byte_masks:
  "n < 8 \<Longrightarrow> bit (248 :: byte) n \<longleftrightarrow> 3 \<le> n" "n < 8 \<Longrightarrow> bit (127 :: byte) n \<longleftrightarrow> n \<noteq> 7" "n < 8 \<Longrightarrow> bit (64 :: byte) n \<longleftrightarrow> n = 6"
  by (auto simp: numeral_eq_Suc less_Suc_eq bit_Suc bit_0)

lemma bit_clamp_nat: "bit (clamp_nat k) t \<longleftrightarrow> t = 254 \<or> 3 \<le> t \<and> t < 254 \<and> bit k t"
proof -
  have e: "8 * (k mod 2 ^ 254 div 8) = push_bit 3 (drop_bit 3 (take_bit 254 k))"
    by (simp add: push_bit_eq_mult drop_bit_eq_div take_bit_eq_mod)
  have "(2 :: nat) ^ 254 + push_bit 3 (drop_bit 3 (take_bit 254 k)) = 2 ^ 254 OR push_bit 3 (drop_bit 3 (take_bit 254 k))"
    by (rule disjunctive_add_eq_or, rule bit_eqI) (simp only: bit_and_iff bit_exp_iff bit_push_bit_iff bit_drop_bit_eq bit_take_bit_iff bit_0_eq, auto simp: bit_take_bit_iff)
  then have "clamp_nat k = 2 ^ 254 OR push_bit 3 (drop_bit 3 (take_bit 254 k))" unfolding clamp_nat_def e .
  then show ?thesis by (simp only: bit_or_iff bit_exp_iff bit_push_bit_iff bit_drop_bit_eq bit_take_bit_iff) (auto simp: bit_take_bit_iff)
qed

lemma clamp_bits:
  assumes "length s = 32" "t < 256"
  shows "bit (le_nat (x25519_clamp_private s)) t = bit (clamp_nat (le_nat s)) t"
proof -
  have m: "t mod 8 < 8" by simp
  consider "t div 8 = 0" | "t div 8 = 31" | "t div 8 \<noteq> 0" "t div 8 \<noteq> 31" by blast
  then show ?thesis
  proof cases
    case 1
    then have "t = t mod 8" "t < 8" by presburger+
    then show ?thesis using assms 1 byte_masks(1) [of t] by (simp add: bit_le_nat bit_clamp_nat x25519_clamp_private_def Let_def bit_and_iff) auto
  next
    case 2
    then have "t = 248 + t mod 8" by presburger
    moreover have "bit (x25519_clamp_private s ! 31) (t mod 8) \<longleftrightarrow> (bit (s ! 31) (t mod 8) \<and> t mod 8 \<noteq> 7) \<or> t mod 8 = 6"
      using assms byte_masks(2,3) [OF m] by (simp add: x25519_clamp_private_def Let_def bit_and_iff bit_or_iff)
    ultimately show ?thesis using assms 2 m by (auto simp: bit_le_nat bit_clamp_nat)
  next
    case 3
    then have "8 \<le> t" "t < 248" using assms(2) by presburger+
    then show ?thesis using assms 3 by (simp add: bit_le_nat bit_clamp_nat x25519_clamp_private_def Let_def)
  qed
qed

lemma point_mask_value:
  assumes "length p = 32"
  shows "le_nat (p[31 := p ! 31 AND 0x7f]) mod 2 ^ 255 = le_nat p mod 2 ^ 255"
proof -
  have "take_bit 255 (le_nat (p[31 := p ! 31 AND 0x7f])) = take_bit 255 (le_nat p)"
  proof (rule bit_eqI)
    fix n :: nat
    have "n mod 8 \<noteq> 7" if "n < 255" "n div 8 = 31" using that by presburger
    then show "bit (take_bit 255 (le_nat (p[31 := p ! 31 AND 0x7f]))) n = bit (take_bit 255 (le_nat p)) n"
      using assms byte_masks(2) [of "n mod 8"] by (cases "n div 8 = 31") (auto simp: bit_take_bit_iff bit_le_nat bit_and_iff)
  qed
  then show ?thesis by (simp only: take_bit_eq_mod)
qed

lemma shared_secret_rfc:
  assumes "length scalar = 32" "length point = 32"
  shows "x25519_shared_secret scalar point = le_bytes 32 (nat (rfc7748 (clamp_nat (le_nat scalar)) (int (le_nat point mod 2 ^ 255))))"
proof -
  let ?s = "x25519_clamp_private scalar" and ?x1 = "fe51_frombytes (point[31 := point ! 31 AND 0x7f])"
  define u where "u = int (le_nat point mod 2 ^ 255)"
  have s: "length ?s = 32" using assms(1) by simp
  have p: "length (point[31 := point ! 31 AND 0x7f]) = 32" using assms(2) by simp
  have x1: "fe_is ?x1 u"
    unfolding u_def fe_is_def fe51_frombytes_value(2) [OF p] point_mask_value [OF assms(2)] by (rule conjI [OF fe51_frombytes_value(1) [OF p] refl])
  let ?l0 = "\<lparr>lx2 = fe51_1, lz2 = fe51_0, lx3 = ?x1, lz3 = fe51_1, lswap = 0\<rparr>"
  define l where "l = foldl (ladder_step ?s ?x1) ?l0 (rev [0..<255])"
  obtain x2 z2 x3 z3 where q: "foldl (rfc_step (clamp_nat (le_nat scalar)) u) (1, 0, u, 1) (rev [0..<255]) = (x2, z2, x3, z3)" by (metis prod_cases4)
  have "ladder_is l (foldl (rfc_step (le_nat ?s) u) (1, 0, u, 1) (rev [0..<255]))" unfolding l_def
    by (rule ladder_loop_ok [OF s x1]) (auto simp: ladder_is_def x1 fe_is_consts)
  also have "foldl (rfc_step (le_nat ?s) u) (1, 0, u, 1) (rev [0..<255]) = (x2, z2, x3, z3)"
    unfolding q [symmetric] by (rule rfc_step_cong) (use clamp_bits [OF assms(1)] in auto)
  finally have l: "ladder_is l (x2, z2, x3, z3)" .
  have sw: "lswap l = lswap l XOR (if False then 1 else 0)" by simp
  obtain a2 a3 c2 c3 where f: "fe51_cswap (lx2 l) (lx3 l) (lswap l) = (a2, a3)" "fe51_cswap (lz2 l) (lz3 l) (lswap l) = (c2, c3)"
    "point_is (a2, c2, a3, c3) (exchange False (x2, z2, x3, z3))" by (rule ladder_swap [OF l sw])
  have "fe_is (fe51_mul a2 (fe51_inv c2)) (fmul x2 (z2 ^ (2 ^ 255 - 21)))" using f(3) by (intro fe_is_ops fe_is_inv) simp_all
  then have "fe51_tobytes (fe51_mul a2 (fe51_inv c2)) = le_bytes 32 (nat (fmul x2 (z2 ^ (2 ^ 255 - 21)) mod (2 ^ 255 - 19)))"
    by (rule fe51_tobytes_value)
  also have "fmul x2 (z2 ^ (2 ^ 255 - 21)) mod (2 ^ 255 - 19) = rfc7748 (clamp_nat (le_nat scalar)) u"
    unfolding rfc7748_def q prod.case by (simp only: fmul_def mod_mod_trivial)
  finally show ?thesis
    unfolding x25519_shared_secret_def Let_def u_def [symmetric] take_all [OF eq_refl [OF assms(1)]] take_all [OF eq_refl [OF assms(2)]]
      l_def [symmetric] f(1,2) prod.case .
qed

section \<open>Properties\<close>

lemma le_nat_basepoint: "le_nat basepoint = 9"
  by (simp add: le_nat_def basepoint_def be_nat_append be_nat_Cons)

text \<open>C8: Field arithmetic never overflows and is exact: of operands whose limbs have at most 51 bits, addition, subtraction
  and multiplication give again limbs of at most 51 bits, and the value is the sum, the difference or the product of the
  operands modulo \<open>2 ^ 255 - 19\<close>, although limbs and carries are 64- and 128-bit words that wrap around.\<close>

theorem fe51_field_operations:
  assumes "tight a" "tight b"
  shows "tight (fe51_add a b) \<and> int (fe_nat (fe51_add a b)) mod (2 ^ 255 - 19) = (int (fe_nat a) + int (fe_nat b)) mod (2 ^ 255 - 19) \<and>
    tight (fe51_sub a b) \<and> int (fe_nat (fe51_sub a b)) mod (2 ^ 255 - 19) = (int (fe_nat a) - int (fe_nat b)) mod (2 ^ 255 - 19) \<and>
    tight (fe51_mul a b) \<and> int (fe_nat (fe51_mul a b)) mod (2 ^ 255 - 19) = (int (fe_nat a) * int (fe_nat b)) mod (2 ^ 255 - 19)"
proof -
  have "fe_is a (int (fe_nat a))" "fe_is b (int (fe_nat b))" using assms by (simp_all only: fe_is_def simp_thms)
  from fe_is_add [OF this] fe_is_sub [OF this] fe_is_mul [OF this] show ?thesis by (simp only: fe_is_def simp_thms)
qed

theorem fe51_field_operations_witness:
  "tight (fe51_mul a24 a24) \<and> int (fe_nat (fe51_mul a24 a24)) mod (2 ^ 255 - 19) = 121665 * 121665"
proof -
  have t: "tight a24" "fe_nat a24 = 121665" by (simp_all add: a24_def)
  have "int 121665 * int 121665 mod (2 ^ 255 - 19) = (121665 * 121665 :: int)" by simp
  with fe51_field_operations [OF t(1) t(1)] show ?thesis unfolding t(2) by (simp only: simp_thms)
qed

text \<open>Encoding is canonical: decoding 32 bytes ignores the top bit and encoding gives the unique representative below the
  prime, in little-endian order. So every byte string that encodes a number below the prime survives decoding and encoding.\<close>

theorem fe51_encode_decode:
  assumes "length b = 32"
  shows "fe51_tobytes (fe51_frombytes b) = le_bytes 32 (le_nat b mod 2 ^ 255 mod p25519) \<and>
    (le_nat b < p25519 \<longrightarrow> fe51_tobytes (fe51_frombytes b) = b)"
proof -
  have "fe_is (fe51_frombytes b) (int (le_nat b mod 2 ^ 255))"
    unfolding fe_is_def fe51_frombytes_value(2) [OF assms] by (rule conjI [OF fe51_frombytes_value(1) [OF assms] refl])
  from fe51_tobytes_value [OF this]
  have e: "fe51_tobytes (fe51_frombytes b) = le_bytes 32 (le_nat b mod 2 ^ 255 mod p25519)"
    unfolding int_p25519 [symmetric] zmod_int [symmetric] nat_int .
  have "le_nat b mod 2 ^ 255 mod p25519 = le_nat b" if l: "le_nat b < p25519"
  proof -
    have "p25519 < 2 ^ 255" by (simp add: p25519_def)
    with l have "le_nat b < 2 ^ 255" by (rule less_trans)
    then show ?thesis using l by (simp only: mod_less)
  qed
  then show ?thesis unfolding e using le_bytes_le_nat [OF assms] by simp
qed

theorem fe51_encode_decode_witness: "fe51_tobytes (fe51_frombytes basepoint) = basepoint"
proof -
  have "le_nat basepoint = 9" by (rule le_nat_basepoint)
  then have "le_nat basepoint < p25519" by (simp add: p25519_def)
  moreover have "length basepoint = 32" by (simp add: basepoint_def)
  ultimately show ?thesis using fe51_encode_decode [of basepoint] by blast
qed

text \<open>C7: X25519 is the function of RFC 7748: for a 32-byte scalar and a 32-byte point, the shared secret is the little-endian
  encoding of the result of the standard's ladder on integers, run on the clamped scalar (lowest three bits cleared, bit 254 set, bit 255
  cleared) and the u-coordinate with its top bit ignored. The deferred constant-time swaps, the reductions and the
  inversion by exponentiation are all accounted for; the public key is the case of base point 9.\<close>

theorem x25519_is_rfc7748:
  assumes "length scalar = 32" "length point = 32"
  shows "x25519_shared_secret scalar point = le_bytes 32 (nat (rfc7748 (clamp_nat (le_nat scalar)) (int (le_nat point mod 2 ^ 255)))) \<and>
    x25519_public_from_private scalar = le_bytes 32 (nat (rfc7748 (clamp_nat (le_nat scalar)) 9))"
proof -
  have b: "length basepoint = 32" by (simp add: basepoint_def)
  have "le_nat basepoint = 9" by (rule le_nat_basepoint)
  then have "int (le_nat basepoint mod 2 ^ 255) = 9" by simp
  then show ?thesis
    using shared_secret_rfc [OF assms] shared_secret_rfc [OF assms(1) b] unfolding x25519_public_from_private_def by (simp only: simp_thms)
qed

theorem x25519_is_rfc7748_witness:
  "x25519_shared_secret (replicate 32 1) basepoint = le_bytes 32 (nat (rfc7748 (clamp_nat (le_nat (replicate 32 1))) (int (le_nat basepoint mod 2 ^ 255))))"
  by (rule x25519_is_rfc7748 [THEN conjunct1]) (simp_all add: basepoint_def)

end
