(* ===== verification/Rsa.thy ===== *)
theory Rsa
  imports Sha256
begin

text \<open>
  RSA signatures, \<^verbatim>\<open>kernel/lib/rsa.c\<close>: arithmetic on big-endian byte strings modulo a byte string, modular
  exponentiation, the PKCS #1 v1.5 encoding of a SHA-256 digest, verification and signing. A number is
  the list of its bytes, most significant first, and the length argument that goes with every buffer is
  the length of the list. The 16- and 32-bit intermediate sums of the byte loops are natural numbers:
  they stay below \<open>2 ^ 10\<close> and \<open>2 ^ 17\<close>; the casts to \<^verbatim>\<open>uint8_t\<close> wrap.
\<close>

definition RSA_MAX_BYTES :: nat where
  "RSA_MAX_BYTES = 256"

section \<open>Byte strings as numbers\<close>

fun ge_loop :: "(byte \<times> byte) list \<Rightarrow> bool" where
  "ge_loop [] = True"
| "ge_loop ((a, b) # ps) = (if a > b then True else if a < b then False else ge_loop ps)"

definition rsa_ge_bytes :: "bytes \<Rightarrow> bytes \<Rightarrow> bool" where
  "rsa_ge_bytes a b = ge_loop (zip a b)"

text \<open>The subtraction loop runs from the last byte to the first: difference (last byte first) and final borrow.\<close>

fun sub_loop :: "nat \<Rightarrow> (byte \<times> byte) list \<Rightarrow> bytes \<times> nat" where
  "sub_loop borrow [] = ([], borrow)"
| "sub_loop borrow ((a, b) # ps) =
    (let av = unat a; bv = unat b + borrow;
         (d, borrow) = (if av < bv then (of_nat (av + 256 - bv), 1) else (of_nat (av - bv), 0));
         (r, borrow) = sub_loop borrow ps
     in (d # r, borrow))"

definition rsa_sub_inplace :: "bytes \<Rightarrow> bytes \<Rightarrow> bytes" where
  "rsa_sub_inplace a b = rev (fst (sub_loop 0 (rev (zip a b))))"

text \<open>The extended operations work on a number with one more leading byte.\<close>

definition rsa_ge_ext :: "bytes \<Rightarrow> bytes \<Rightarrow> bool" where
  "rsa_ge_ext tmp m = (if tmp ! 0 \<noteq> 0 then True else rsa_ge_bytes (drop 1 tmp) m)"

definition rsa_sub_ext :: "bytes \<Rightarrow> bytes \<Rightarrow> bytes" where
  "rsa_sub_ext tmp m =
    (case sub_loop 0 (rev (zip (drop 1 tmp) m)) of
       (r, borrow) \<Rightarrow> (if borrow \<noteq> 0 then tmp ! 0 - 1 else tmp ! 0) # rev r)"

fun add_loop :: "nat \<Rightarrow> (byte \<times> byte) list \<Rightarrow> bytes \<times> nat" where
  "add_loop carry [] = ([], carry)"
| "add_loop carry ((a, b) # ps) =
    (let sum0 = unat a + unat b + carry; (r, carry) = add_loop (sum0 div 256) ps in (of_nat sum0 # r, carry))"

definition rsa_add_mod :: "bytes \<Rightarrow> bytes \<Rightarrow> bytes \<Rightarrow> bytes" where
  "rsa_add_mod a b m =
    (let (r, carry) = add_loop 0 (rev (zip a b));
         tmp = of_nat carry # rev r;
         tmp = (if rsa_ge_ext tmp m then rsa_sub_ext tmp m else tmp)
     in drop 1 tmp)"

definition rsa_double_mod :: "bytes \<Rightarrow> bytes \<Rightarrow> bytes" where
  "rsa_double_mod a m = rsa_add_mod a a m"

section \<open>Products and powers\<close>

definition mul_mod_bit :: "bytes \<Rightarrow> byte \<Rightarrow> bytes \<times> bytes \<Rightarrow> nat \<Rightarrow> bytes \<times> bytes" where
  "mul_mod_bit m b rt i =
    (case rt of (result, temp) \<Rightarrow>
       (if bit b i then rsa_add_mod result temp m else result, rsa_double_mod temp m))"

definition rsa_mul_mod :: "bytes \<Rightarrow> bytes \<Rightarrow> bytes \<Rightarrow> bytes" where
  "rsa_mul_mod a b m =
    (let temp = (if rsa_ge_bytes a m then rsa_sub_inplace a m else a)
     in fst (foldl (\<lambda>rt byte0. foldl (mul_mod_bit m byte0) rt [0..<8]) (replicate (length m) 0, temp) (rev b)))"

definition rsa_add_one_mod :: "bytes \<Rightarrow> bytes \<Rightarrow> bytes" where
  "rsa_add_one_mod a m = rsa_add_mod a (replicate (length m - 1) 0 @ [1]) m"

definition reduce_bit :: "bytes \<Rightarrow> byte \<Rightarrow> bytes \<Rightarrow> nat \<Rightarrow> bytes" where
  "reduce_bit m b out i =
    (let out = rsa_double_mod out m in if bit b i then rsa_add_one_mod out m else out)"

definition rsa_reduce :: "bytes \<Rightarrow> bytes \<Rightarrow> bytes" where
  "rsa_reduce inp m = foldl (\<lambda>out byte0. foldl (reduce_bit m byte0) out (rev [0..<8])) (replicate (length m) 0) inp"

definition modexp_bit :: "bytes \<Rightarrow> bytes \<Rightarrow> byte \<Rightarrow> bytes \<Rightarrow> nat \<Rightarrow> bytes" where
  "modexp_bit m b e result i =
    (let result = rsa_mul_mod result result m in if bit e i then rsa_mul_mod result b m else result)"

text \<open>The pointers of this internal function are never NULL at its calls; \<open>None\<close> is the result \<open>-1\<close>.\<close>

definition rsa_modexp :: "bytes \<Rightarrow> bytes \<Rightarrow> bytes \<Rightarrow> bytes option" where
  "rsa_modexp base0 e m =
    (if length m = 0 \<or> length m > RSA_MAX_BYTES \<or> length e > RSA_MAX_BYTES then None
     else let b = rsa_reduce base0 m
          in Some (foldl (\<lambda>result byte0. foldl (modexp_bit m b byte0) result (rev [0..<8]))
                     (replicate (length m - 1) 0 @ [1]) e))"

definition rsa_modexp65537 :: "bytes \<Rightarrow> bytes \<Rightarrow> bytes option" where
  "rsa_modexp65537 base0 m = rsa_modexp base0 [0x01, 0x00, 0x01] m"

section \<open>PKCS #1 signatures\<close>

definition sha256_digest_info_prefix :: bytes where
  "sha256_digest_info_prefix =
    [0x30, 0x31, 0x30, 0x0d, 0x06, 0x09, 0x60, 0x86, 0x48, 0x01] @ [0x65, 0x03, 0x04, 0x02, 0x01, 0x05, 0x00, 0x04, 0x20]"

definition rsa_encode_pkcs1_sha256 :: "nat \<Rightarrow> bytes \<Rightarrow> bytes option" where
  "rsa_encode_pkcs1_sha256 out_len digest =
    (let tail_len = length sha256_digest_info_prefix + 32 in
     if out_len < 3 + 8 + tail_len \<or> out_len > RSA_MAX_BYTES then None
     else let ps_len = out_len - 3 - tail_len
          in Some ([0x00, 0x01] @ replicate ps_len 0xff @ [0x00] @ sha256_digest_info_prefix @ take 32 digest))"

definition rsa_pkcs1v15_sha256_verify :: "bytes option \<Rightarrow> nat \<Rightarrow> bytes option \<Rightarrow> bytes option \<Rightarrow> nat \<Rightarrow> int" where
  "rsa_pkcs1v15_sha256_verify signature signature_len digest n n_len =
    (if signature = None \<or> digest = None \<or> n = None \<or> signature_len = 0 \<or> signature_len \<noteq> n_len \<or> n_len > RSA_MAX_BYTES then -1
     else case rsa_modexp65537 (take signature_len (the signature)) (take n_len (the n)) of
            None \<Rightarrow> -1
          | Some decoded \<Rightarrow>
              (case rsa_encode_pkcs1_sha256 n_len (the digest) of
                 None \<Rightarrow> -1
               | Some expected \<Rightarrow>
                   if foldl (\<lambda>diff i. diff OR (decoded ! i XOR expected ! i)) 0 [0..<n_len] = (0 :: byte) then 0 else -1))"

definition rsa_mod_sub :: "bytes \<Rightarrow> bytes \<Rightarrow> bytes \<Rightarrow> bytes" where
  "rsa_mod_sub a b m =
    (if rsa_ge_bytes a b then rsa_sub_inplace a b else rsa_sub_inplace m (rsa_sub_inplace b a))"

text \<open>One row of the schoolbook product: the inner loop with its carry, then the carry through the leading bytes.\<close>

definition mul_cell :: "byte \<Rightarrow> nat \<Rightarrow> bytes \<Rightarrow> bytes \<times> nat \<Rightarrow> nat \<Rightarrow> bytes \<times> nat" where
  "mul_cell ai i b oc j =
    (case oc of (out, carry) \<Rightarrow>
       let product = unat (out ! (i + j - 1)) + unat ai * unat (b ! (j - 1)) + carry
       in (out[i + j - 1 := of_nat product], product div 256))"

primrec mul_carry :: "nat \<Rightarrow> nat \<Rightarrow> bytes \<Rightarrow> bytes" where
  "mul_carry 0 carry out =
    (if carry > 0 \<and> 0 < length out then out[0 := of_nat (unat (out ! 0) + carry)] else out)"
| "mul_carry (Suc i) carry out =
    (if carry > 0 \<and> Suc i < length out
     then mul_carry i ((unat (out ! Suc i) + carry) div 256) (out[Suc i := of_nat (unat (out ! Suc i) + carry)]) else out)"

definition mul_row :: "bytes \<Rightarrow> bytes \<Rightarrow> bytes \<Rightarrow> nat \<Rightarrow> bytes" where
  "mul_row a b out i =
    (case foldl (mul_cell (a ! (i - 1)) i b) (out, 0) (rev [1..<Suc (length b)]) of
       (out, carry) \<Rightarrow> mul_carry (i - 1) carry out)"

definition rsa_plain_mul :: "nat \<Rightarrow> bytes \<Rightarrow> bytes \<Rightarrow> bytes" where
  "rsa_plain_mul out_len a b = foldl (mul_row a b) (replicate out_len 0) (rev [1..<Suc (length a)])"

fun add_aligned_loop :: "nat \<Rightarrow> bytes \<Rightarrow> bytes \<Rightarrow> bytes" where
  "add_aligned_loop carry [] inp = []"
| "add_aligned_loop carry (x # out) inp =
    (let sum0 = unat x + carry; sum0 = (case inp of [] \<Rightarrow> sum0 | y # _ \<Rightarrow> sum0 + unat y)
     in of_nat sum0 # add_aligned_loop (sum0 div 256) out (drop 1 inp))"

definition rsa_add_right_aligned :: "bytes \<Rightarrow> bytes \<Rightarrow> bytes" where
  "rsa_add_right_aligned out inp = rev (add_aligned_loop 0 (rev out) (rev inp))"

text \<open>The private key: pointers with their lengths.\<close>

record rsa_crt_private_key =
  key_n :: "bytes option"
  key_n_len :: nat
  key_d :: "bytes option"
  key_d_len :: nat
  key_p :: "bytes option"
  key_p_len :: nat
  key_q :: "bytes option"
  key_q_len :: nat
  key_dmp1 :: "bytes option"
  key_dmp1_len :: nat
  key_dmq1 :: "bytes option"
  key_dmq1_len :: nat
  key_iqmp :: "bytes option"
  key_iqmp_len :: nat

text \<open>Signing with the full exponent: the signature buffer is written before the check.\<close>

definition sign_plain :: "bytes \<Rightarrow> bytes \<Rightarrow> bytes \<Rightarrow> bytes \<Rightarrow> int \<times> bytes" where
  "sign_plain n d em signature =
    (case rsa_modexp em d n of
       None \<Rightarrow> (-1, signature)
     | Some s \<Rightarrow>
         let signature = blit 0 s signature
         in if rsa_modexp65537 s n = Some em then (0, signature) else (-1, signature))"

text \<open>Signing by the Chinese remainder theorem: the result is checked before it is stored.\<close>

definition sign_crt_number :: "bytes \<Rightarrow> bytes \<Rightarrow> bytes \<Rightarrow> bytes \<Rightarrow> bytes \<Rightarrow> bytes \<Rightarrow> bytes" where
  "sign_crt_number n p q iqmp m1 m2 =
    (let diff = rsa_mod_sub m1 m2 p;
         h = rsa_mul_mod diff iqmp p;
         qh = rsa_plain_mul (length n) q h;
         qh = rsa_add_right_aligned qh m2
     in if rsa_ge_bytes qh n then rsa_sub_inplace qh n else qh)"

definition sign_crt :: "bytes \<Rightarrow> bytes \<Rightarrow> bytes \<Rightarrow> bytes \<Rightarrow> bytes \<Rightarrow> bytes \<Rightarrow> bytes \<Rightarrow> bytes \<Rightarrow> int \<times> bytes" where
  "sign_crt n p q dmp1 dmq1 iqmp em signature =
    (case rsa_modexp em dmp1 p of
       None \<Rightarrow> (-1, signature)
     | Some m1 \<Rightarrow>
         (case rsa_modexp em dmq1 q of
            None \<Rightarrow> (-1, signature)
          | Some m2 \<Rightarrow>
              let qh = sign_crt_number n p q iqmp m1 m2
              in if rsa_modexp65537 qh n = Some em then (0, blit 0 qh signature) else (-1, signature)))"

definition rsa_pkcs1v15_sha256_sign_crt ::
  "bytes option \<Rightarrow> nat \<Rightarrow> bytes option \<Rightarrow> rsa_crt_private_key option \<Rightarrow> int \<times> bytes option" where
  "rsa_pkcs1v15_sha256_sign_crt signature signature_len digest key =
    (case (signature, digest, key) of
       (Some sb, Some digest, Some key) \<Rightarrow>
         if key_n key = None \<or> key_n_len key = 0 \<or> key_n_len key > RSA_MAX_BYTES \<or> signature_len \<noteq> key_n_len key then (-1, signature)
         else let n = take (key_n_len key) (the (key_n key)) in
           (case rsa_encode_pkcs1_sha256 (key_n_len key) digest of
              None \<Rightarrow> (-1, signature)
            | Some em \<Rightarrow>
                if key_d key \<noteq> None \<and> key_d_len key = key_n_len key
                then map_prod id Some (sign_plain n (take (key_d_len key) (the (key_d key))) em sb)
                else if key_p key = None \<or> key_q key = None \<or> key_dmp1 key = None \<or> key_dmq1 key = None \<or> key_iqmp key = None \<or>
                        key_p_len key = 0 \<or> key_p_len key > RSA_MAX_BYTES \<or> key_q_len key = 0 \<or> key_q_len key > RSA_MAX_BYTES \<or>
                        key_p_len key \<noteq> key_q_len key \<or> key_n_len key \<noteq> key_p_len key + key_q_len key
                then (-1, signature)
                else map_prod id Some (sign_crt n (take (key_p_len key) (the (key_p key))) (take (key_q_len key) (the (key_q key)))
                       (take (key_dmp1_len key) (the (key_dmp1 key))) (take (key_dmq1_len key) (the (key_dmq1 key)))
                       (take (key_p_len key) (the (key_iqmp key))) em sb))
     | _ \<Rightarrow> (-1, signature))"

section \<open>Sums and differences\<close>

lemma unat_of_nat_byte: "unat (of_nat n :: byte) = n mod 256"
  by (simp add: unsigned_of_nat take_bit_eq_mod)

lemma ge_loop_iff:
  "length a = length b \<Longrightarrow> ge_loop (zip a b) \<longleftrightarrow> be_nat b \<le> be_nat a"
proof (induction a b rule: list_induct2)
  case (Cons x xs y ys)
  let ?B = "256 ^ length ys :: nat"
  have l: "be_nat xs < ?B" "be_nat ys < ?B" using be_nat_less [of xs] be_nat_less [of ys] Cons.hyps by simp_all
  have e: "be_nat (x # xs) = unat x * ?B + be_nat xs" "be_nat (y # ys) = unat y * ?B + be_nat ys" using Cons.hyps by (simp_all add: be_nat_Cons)
  consider "unat y < unat x" | "unat x < unat y" | "unat x = unat y" by linarith
  then show ?case
  proof cases
    case 1
    then have "unat y * ?B + ?B \<le> unat x * ?B" using mult_le_mono1 [of "Suc (unat y)" "unat x" ?B] by simp
    then show ?thesis using 1 l unfolding e by (simp add: word_less_nat_alt)
  next
    case 2
    then have "unat x * ?B + ?B \<le> unat y * ?B" using mult_le_mono1 [of "Suc (unat x)" "unat y" ?B] by simp
    then show ?thesis using 2 l unfolding e by (simp add: word_less_nat_alt)
  next
    case 3
    then show ?thesis using Cons.IH unfolding e by (simp add: word_less_nat_alt word_unat_eq_iff)
  qed
qed simp

lemma rsa_ge_bytes_iff: "length a = length b \<Longrightarrow> rsa_ge_bytes a b \<longleftrightarrow> be_nat b \<le> be_nat a"
  by (simp add: rsa_ge_bytes_def ge_loop_iff)

lemma sub_loop_value:
  assumes "length a = length b" "borrow \<le> 1"
  shows "case sub_loop borrow (zip a b) of (r, borrow') \<Rightarrow>
    length r = length a \<and> borrow' \<le> 1 \<and> le_nat r + le_nat b + borrow = le_nat a + borrow' * 256 ^ length a"
  using assms
proof (induction a b arbitrary: borrow rule: list_induct2)
  case (Cons x xs y ys)
  let ?lt = "unat x < unat y + borrow"
  define d where "d = (if ?lt then unat x + 256 - (unat y + borrow) else unat x - (unat y + borrow))"
  define br where "br = (if ?lt then 1 else 0 :: nat)"
  have x: "unat x \<le> 255" using unat_byte_less [of x] by linarith
  have y: "unat y + borrow \<le> 256" using unat_byte_less [of y] Cons.prems by linarith
  have d: "d < 256" "d + unat y + borrow = unat x + br * 256" using y x by (auto simp: d_def br_def)
  obtain r br' where r: "sub_loop br (zip xs ys) = (r, br')" by fastforce
  have IH: "length r = length xs" "br' \<le> 1" "le_nat r + le_nat ys + br = le_nat xs + br' * 256 ^ length xs"
    using Cons.IH [of br] r by (auto simp: br_def)
  have e: "sub_loop borrow (zip (x # xs) (y # ys)) = (of_nat d # r, br')"
    using r by (simp add: Let_def d_def br_def split: if_splits)
  have "unat (of_nat d :: byte) = d" using d(1) by (simp add: unat_of_nat_byte)
  then have "le_nat (of_nat d # r) + le_nat (y # ys) + borrow = (d + unat y + borrow) + 256 * (le_nat r + le_nat ys)"
    by (simp add: le_nat_Cons)
  also have "\<dots> = unat x + 256 * (le_nat r + le_nat ys + br)" using d(2) by simp
  also have "\<dots> = le_nat (x # xs) + br' * 256 ^ length (x # xs)" unfolding IH(3) by (simp add: le_nat_Cons algebra_simps)
  finally show ?case using IH unfolding e by simp
qed simp

lemma le_nat_rev [simp]: "le_nat (rev bs) = be_nat bs"
  by (simp add: le_nat_def)

lemma sub_loop_rev:
  assumes "length a = length b"
  obtains r borrow where "sub_loop 0 (rev (zip a b)) = (r, borrow)" "length r = length a" "borrow \<le> 1"
    "be_nat (rev r) + be_nat b = be_nat a + borrow * 256 ^ length a"
proof -
  obtain r borrow where r: "sub_loop 0 (rev (zip a b)) = (r, borrow)" by fastforce
  have "rev (zip a b) = zip (rev a) (rev b)" using assms by (simp add: zip_rev)
  with sub_loop_value [of "rev a" "rev b" 0] r assms show ?thesis
    by (intro that [OF r]) (simp_all add: le_nat_def)
qed

lemma rsa_sub_inplace_value:
  assumes "length a = length b" "be_nat b \<le> be_nat a"
  shows "length (rsa_sub_inplace a b) = length a" "be_nat (rsa_sub_inplace a b) = be_nat a - be_nat b"
proof -
  obtain r borrow where r: "sub_loop 0 (rev (zip a b)) = (r, borrow)" "length r = length a" "borrow \<le> 1"
    "be_nat (rev r) + be_nat b = be_nat a + borrow * 256 ^ length a" by (rule sub_loop_rev [OF assms(1)])
  have "borrow = 0"
  proof (rule ccontr)
    assume "borrow \<noteq> 0"
    then have "be_nat (rev r) + be_nat b = be_nat a + 256 ^ length a" using r(3,4) by (cases borrow) auto
    then show False using be_nat_less [of "rev r"] r(2) assms(2) by simp
  qed
  then show "length (rsa_sub_inplace a b) = length a" "be_nat (rsa_sub_inplace a b) = be_nat a - be_nat b"
    using r by (simp_all add: rsa_sub_inplace_def)
qed

lemma add_loop_value:
  assumes "length a = length b" "carry \<le> 1"
  shows "case add_loop carry (zip a b) of (r, carry') \<Rightarrow>
    length r = length a \<and> carry' \<le> 1 \<and> le_nat r + carry' * 256 ^ length a = le_nat a + le_nat b + carry"
  using assms
proof (induction a b arbitrary: carry rule: list_induct2)
  case (Cons x xs y ys)
  let ?s = "unat x + unat y + carry"
  have c: "?s div 256 \<le> 1" using unat_byte_less [of x] unat_byte_less [of y] Cons.prems by linarith
  obtain r c' where r: "add_loop (?s div 256) (zip xs ys) = (r, c')" by fastforce
  have IH: "length r = length xs" "c' \<le> 1" "le_nat r + c' * 256 ^ length xs = le_nat xs + le_nat ys + ?s div 256"
    using Cons.IH [OF c] r by auto
  have e: "add_loop carry (zip (x # xs) (y # ys)) = (of_nat ?s # r, c')" using r by (simp add: Let_def)
  have "le_nat (of_nat ?s # r) + c' * 256 ^ length (x # xs) = ?s mod 256 + 256 * (le_nat r + c' * 256 ^ length xs)"
    by (simp add: le_nat_Cons unat_of_nat_byte algebra_simps del: of_nat_add)
  also have "\<dots> = ?s mod 256 + 256 * (?s div 256) + 256 * (le_nat xs + le_nat ys)" unfolding IH(3) by (simp only: algebra_simps)
  also have "\<dots> = le_nat (x # xs) + le_nat (y # ys) + carry" unfolding mod_mult_div_eq by (simp add: le_nat_Cons)
  finally show ?case using IH unfolding e by simp
qed simp

lemma rsa_add_mod_value:
  assumes "length a = length m" "length b = length m" "be_nat a < be_nat m" "be_nat b < be_nat m"
  shows "length (rsa_add_mod a b m) = length m" "be_nat (rsa_add_mod a b m) = (be_nat a + be_nat b) mod be_nat m"
proof -
  let ?B = "256 ^ length m :: nat"
  obtain r c where r: "add_loop 0 (rev (zip a b)) = (r, c)" by fastforce
  have "rev (zip a b) = zip (rev a) (rev b)" using assms by (simp add: zip_rev)
  with add_loop_value [of "rev a" "rev b" 0] r assms have s: "length r = length m" "c \<le> 1" "be_nat (rev r) + c * ?B = be_nat a + be_nat b"
    by (simp_all add: le_nat_def)
  have c: "unat (of_nat c :: byte) = c" "of_nat c = (0 :: byte) \<longleftrightarrow> c = 0" using s(2) by (auto simp: unat_of_nat_byte word_unat_eq_iff)
  let ?t = "of_nat c # rev r :: bytes"
  have lm: "length (rev r) = length m" using s(1) by simp
  have rl: "be_nat (rev r) < ?B" using be_nat_less [of "rev r"] s(1) by simp
  have ge: "rsa_ge_ext ?t m \<longleftrightarrow> be_nat m \<le> be_nat a + be_nat b"
  proof (cases "c = 0")
    case True
    then show ?thesis using s(3) c lm by (simp add: rsa_ge_ext_def rsa_ge_bytes_iff)
  next
    case False
    then have "c = 1" using s(2) by simp
    then show ?thesis using c s(3) be_nat_less [of m] by (simp add: rsa_ge_ext_def)
  qed
  have eq: "rsa_add_mod a b m = drop 1 (if rsa_ge_ext ?t m then rsa_sub_ext ?t m else ?t)" using r by (simp add: rsa_add_mod_def Let_def)
  have "length (rsa_add_mod a b m) = length m \<and> be_nat (rsa_add_mod a b m) = (be_nat a + be_nat b) mod be_nat m"
  proof (cases "be_nat m \<le> be_nat a + be_nat b")
    case False
    then have "c = 0" using s(3) be_nat_less [of m] s(2) by (cases c) auto
    then show ?thesis using False ge eq s by simp
  next
    case True
    obtain u br where u: "sub_loop 0 (rev (zip (rev r) m)) = (u, br)" "length u = length (rev r)" "br \<le> 1"
      "be_nat (rev u) + be_nat m = be_nat (rev r) + br * 256 ^ length (rev r)" by (rule sub_loop_rev [OF lm])
    have e: "rsa_add_mod a b m = rev u" using True ge eq u(1) by (simp add: rsa_sub_ext_def)
    have "(be_nat a + be_nat b) mod be_nat m = be_nat a + be_nat b - be_nat m" using True assms(3,4) by (simp add: le_mod_geq)
    moreover have "be_nat (rev u) = be_nat a + be_nat b - be_nat m"
    proof -
      have ul: "be_nat (rev u) < ?B" using be_nat_less [of "rev u"] u(2) s(1) by simp
      have "be_nat (rev u) + be_nat m + c * ?B = be_nat a + be_nat b + br * ?B" using u(4) s(3) lm by simp
      moreover have "be_nat a + be_nat b < be_nat m + ?B" using assms(3,4) be_nat_less [of m] by linarith
      moreover have "c = 0 \<or> c = 1" "br = 0 \<or> br = 1" using s(2) u(3) by linarith+
      ultimately show ?thesis using True ul rl by (elim disjE) auto
    qed
    ultimately show ?thesis using e u(2) s(1) by simp
  qed
  then show "length (rsa_add_mod a b m) = length m" "be_nat (rsa_add_mod a b m) = (be_nat a + be_nat b) mod be_nat m" by simp_all
qed

section \<open>Loops over the bits of a byte string\<close>

text \<open>
  The loops of \<^verbatim>\<open>rsa_reduce\<close> and \<^verbatim>\<open>rsa_modexp\<close> share a contract: a step for bit \<open>i\<close> of a byte takes a state that stands for
  \<open>v\<close> to one that stands for \<open>2 * v\<close> plus the bit, so that the loop over all bytes, most significant bit
  first, appends the whole number.
\<close>

locale msb_loop =
  fixes step :: "byte \<Rightarrow> 's \<Rightarrow> nat \<Rightarrow> 's" and stands :: "'s \<Rightarrow> nat \<Rightarrow> bool"
  assumes step_bit: "stands s v \<Longrightarrow> stands (step b s i) (2 * v + of_bool (bit b i))"
begin

lemma bits: "stands s v \<Longrightarrow> stands (foldl (step b) s (rev [0..<n])) (v * 2 ^ n + take_bit n (unat b))"
proof (induction n arbitrary: s v)
  case (Suc n)
  have "bit (unat b) n = bit b n" by (simp add: bit_unsigned_iff)
  then have "(2 * v + of_bool (bit b n)) * 2 ^ n + take_bit n (unat b) = v * 2 ^ Suc n + take_bit (Suc n) (unat b)"
    by (simp add: take_bit_Suc_from_most algebra_simps)
  then show ?case using Suc.IH [OF step_bit [OF Suc.prems, of b n]] by simp
qed simp

lemma bytes: "stands s v \<Longrightarrow> stands (foldl (\<lambda>s b. foldl (step b) s (rev [0..<8])) s bs) (v * 256 ^ length bs + be_nat bs)"
proof (induction bs arbitrary: s v)
  case (Cons b bs)
  have "take_bit 8 (unat b) = unat b" by (simp add: take_bit_nat_eq_self)
  with bits [OF Cons.prems, of b 8] have "stands (foldl (step b) s (rev [0..<8])) (v * 256 + unat b)" by simp
  from Cons.IH [OF this] show ?case by (simp add: be_nat_Cons algebra_simps)
qed simp

end

definition residue :: "bytes \<Rightarrow> bytes \<Rightarrow> nat \<Rightarrow> bool" where
  "residue m x v \<longleftrightarrow> 1 < be_nat m \<and> length x = length m \<and> be_nat x = v mod be_nat m"

lemma residue_add: "residue m a v \<Longrightarrow> residue m b w \<Longrightarrow> residue m (rsa_add_mod a b m) (v + w)"
  by (simp add: residue_def rsa_add_mod_value mod_add_eq)

lemma residue_double: "residue m a v \<Longrightarrow> residue m (rsa_double_mod a m) (2 * v)"
  using residue_add [of m a v a v] by (simp add: rsa_double_mod_def mult_2)

lemma residue_nonempty: "1 < be_nat m \<Longrightarrow> 0 < length m"
  by (cases m) simp_all

lemma residue_consts:
  assumes "1 < be_nat m"
  shows "residue m (replicate (length m) 0) 0" "residue m (replicate (length m - 1) 0 @ [1]) 1"
  using assms residue_nonempty [OF assms] by (simp_all add: residue_def be_nat_append be_nat_Cons)

lemma residue_add_one: "residue m a v \<Longrightarrow> residue m (rsa_add_one_mod a m) (v + 1)"
proof -
  assume a: "residue m a v"
  then have "1 < be_nat m" by (simp add: residue_def)
  from residue_add [OF a residue_consts(2) [OF this]] show ?thesis by (simp only: rsa_add_one_mod_def)
qed

interpretation reduce: msb_loop "reduce_bit m" "residue m" for m
proof
  fix s v b i assume "residue m s v"
  then show "residue m (reduce_bit m b s i) (2 * v + of_bool (bit b i))"
    using residue_double [of m s v] residue_add_one [of m "rsa_double_mod s m" "2 * v"] by (simp add: reduce_bit_def Let_def)
qed

lemma rsa_reduce_residue: "1 < be_nat m \<Longrightarrow> residue m (rsa_reduce inp m) (be_nat inp)"
  using reduce.bytes [OF residue_consts(1), of m inp] by (simp add: rsa_reduce_def)

section \<open>Products\<close>

definition product_state :: "bytes \<Rightarrow> bytes \<times> bytes \<Rightarrow> nat \<Rightarrow> nat \<Rightarrow> bool" where
  "product_state m rt r t \<longleftrightarrow> residue m (fst rt) r \<and> residue m (snd rt) t"

lemma mul_mod_bits:
  assumes "product_state m rt r t"
  shows "product_state m (foldl (mul_mod_bit m b) rt [0..<n]) (r + t * take_bit n (unat b)) (t * 2 ^ n)"
proof (induction n)
  case 0
  then show ?case using assms by simp
next
  case (Suc n)
  have "bit (unat b) n = bit b n" by (simp add: bit_unsigned_iff)
  then have e: "r + t * take_bit (Suc n) (unat b) = r + t * take_bit n (unat b) + (if bit b n then t * 2 ^ n else 0)"
    by (simp add: take_bit_Suc_from_most algebra_simps)
  obtain x y where xy: "foldl (mul_mod_bit m b) rt [0..<n] = (x, y)" by fastforce
  then have "residue m x (r + t * take_bit n (unat b))" "residue m y (t * 2 ^ n)" using Suc by (simp_all add: product_state_def)
  then show ?case unfolding e using residue_add [of m x _ y] residue_double [of m y "t * 2 ^ n"]
    by (simp add: xy mul_mod_bit_def [of m b "(x, y)"] product_state_def mult.left_commute)
qed

lemma mul_mod_bytes:
  "product_state m rt r t \<Longrightarrow> product_state m (foldl (\<lambda>rt b. foldl (mul_mod_bit m b) rt [0..<8]) rt bs) (r + t * le_nat bs) (t * 256 ^ length bs)"
proof (induction bs arbitrary: rt r t)
  case (Cons b bs)
  have "take_bit 8 (unat b) = unat b" by (simp add: take_bit_nat_eq_self)
  with mul_mod_bits [OF Cons.prems, of b 8] have "product_state m (foldl (mul_mod_bit m b) rt [0..<8]) (r + t * unat b) (t * 256)" by simp
  from Cons.IH [OF this] show ?case by (simp add: le_nat_Cons algebra_simps)
qed simp

lemma rsa_mul_mod_residue:
  assumes "residue m a v" "residue m b w"
  shows "residue m (rsa_mul_mod a b m) (v * w)"
proof -
  have m: "1 < be_nat m" "length a = length m" "be_nat a < be_nat m" using assms(1) by (simp_all add: residue_def)
  then have "\<not> rsa_ge_bytes a m" by (simp add: rsa_ge_bytes_iff)
  then have e: "rsa_mul_mod a b m = fst (foldl (\<lambda>rt b. foldl (mul_mod_bit m b) rt [0..<8]) (replicate (length m) 0, a) (rev b))"
    by (simp add: rsa_mul_mod_def Let_def)
  have "product_state m (replicate (length m) 0, a) 0 v" using assms(1) residue_consts(1) [OF m(1)] by (simp add: product_state_def)
  from mul_mod_bytes [OF this, of "rev b"] have "residue m (rsa_mul_mod a b m) (v * be_nat b)" by (simp add: e product_state_def)
  moreover have "v * be_nat b mod be_nat m = v * w mod be_nat m" using assms(2) by (simp add: residue_def mod_mult_right_eq)
  ultimately show ?thesis by (simp add: residue_def)
qed

section \<open>Powers\<close>

definition power_residue :: "bytes \<Rightarrow> bytes \<Rightarrow> bytes \<Rightarrow> nat \<Rightarrow> bool" where
  "power_residue m b x v \<longleftrightarrow> residue m b (be_nat b) \<and> residue m x (be_nat b ^ v)"

interpretation modexp: msb_loop "modexp_bit m b" "power_residue m b" for m b
proof
  fix s v e i assume "power_residue m b s v"
  then have p: "residue m b (be_nat b)" "residue m s (be_nat b ^ v)" by (simp_all add: power_residue_def)
  have sq: "residue m (rsa_mul_mod s s m) (be_nat b ^ (2 * v))" using rsa_mul_mod_residue [OF p(2) p(2)] by (simp add: mult_2 power_add)
  have "residue m (rsa_mul_mod (rsa_mul_mod s s m) b m) (be_nat b ^ (2 * v + 1))" using rsa_mul_mod_residue [OF sq p(1)] by (simp add: mult.commute)
  then show "power_residue m b (modexp_bit m b e s i) (2 * v + of_bool (bit e i))"
    using p sq by (simp add: power_residue_def modexp_bit_def Let_def)
qed

lemma rsa_modexp_value:
  assumes "1 < be_nat m" "length m \<le> RSA_MAX_BYTES" "length e \<le> RSA_MAX_BYTES"
  obtains x where "rsa_modexp base0 e m = Some x" "length x = length m" "be_nat x = be_nat base0 ^ be_nat e mod be_nat m"
proof -
  let ?b = "rsa_reduce base0 m" and ?one = "replicate (length m - 1) 0 @ [1] :: bytes"
  let ?x = "foldl (\<lambda>result byte0. foldl (modexp_bit m ?b byte0) result (rev [0..<8])) ?one e"
  have b: "length ?b = length m" "be_nat ?b = be_nat base0 mod be_nat m" using rsa_reduce_residue [OF assms(1), of base0] by (simp_all add: residue_def)
  have "power_residue m ?b ?one 0" using residue_consts(2) [OF assms(1)] assms(1) b by (simp add: power_residue_def residue_def)
  from modexp.bytes [OF this, of e] have "residue m ?x (be_nat ?b ^ be_nat e)" by (simp add: power_residue_def)
  then have "length ?x = length m" "be_nat ?x = be_nat base0 ^ be_nat e mod be_nat m" by (simp_all add: residue_def b power_mod)
  moreover have "rsa_modexp base0 e m = Some ?x" using assms residue_nonempty [OF assms(1)] by (simp add: rsa_modexp_def Let_def)
  ultimately show ?thesis by (intro that)
qed

section \<open>The schoolbook product\<close>

lemma be_nat_update:
  assumes "i < length xs"
  shows "be_nat (xs[i := v]) + unat (xs ! i) * 256 ^ (length xs - 1 - i) = be_nat xs + unat v * 256 ^ (length xs - 1 - i)"
proof -
  have x: "xs = take i xs @ xs ! i # drop (Suc i) xs" using assms by (rule id_take_nth_drop)
  have l: "length (drop (Suc i) xs) = length xs - 1 - i" by simp
  have "be_nat (xs[i := v]) = be_nat (take i xs @ v # drop (Suc i) xs)" using assms by (simp add: upd_conv_take_nth_drop)
  moreover have "be_nat xs = be_nat (take i xs @ xs ! i # drop (Suc i) xs)" using x by simp
  ultimately show ?thesis unfolding be_nat_append be_nat_Cons l by simp
qed

text \<open>Storing the low byte of a sum and carrying the rest keeps the total.\<close>

lemma be_nat_carry_out:
  assumes "i < length xs" "e = length xs - 1 - i"
  shows "be_nat (xs[i := of_nat (unat (xs ! i) + c)]) + ((unat (xs ! i) + c) div 256) * 256 ^ Suc e = be_nat xs + c * 256 ^ e"
proof -
  let ?s = "unat (xs ! i) + c"
  have "be_nat (xs[i := of_nat ?s]) + unat (xs ! i) * 256 ^ e = be_nat xs + (?s mod 256) * 256 ^ e"
    using be_nat_update [OF assms(1), of "of_nat ?s"] unfolding assms(2) unat_of_nat_byte .
  then have "be_nat (xs[i := of_nat ?s]) + (?s div 256) * 256 ^ Suc e + unat (xs ! i) * 256 ^ e = be_nat xs + (?s mod 256 + 256 * (?s div 256)) * 256 ^ e"
    by (simp only: power_Suc algebra_simps)
  also have "\<dots> = be_nat xs + c * 256 ^ e + unat (xs ! i) * 256 ^ e" unfolding mod_mult_div_eq by (simp only: algebra_simps)
  finally show ?thesis by simp
qed

lemma mul_carry_value:
  assumes "i < length out" "be_nat out + carry * 256 ^ (length out - 1 - i) < 256 ^ length out"
  shows "length (mul_carry i carry out) = length out \<and> be_nat (mul_carry i carry out) = be_nat out + carry * 256 ^ (length out - 1 - i)"
  using assms
proof (induction i arbitrary: carry out)
  case 0
  let ?s = "unat (out ! 0) + carry"
  have "be_nat (out[0 := of_nat ?s]) + (?s div 256) * 256 ^ length out = be_nat out + carry * 256 ^ (length out - 1)"
    using be_nat_carry_out [OF 0(1) refl, of carry] 0(1) by (cases out) simp_all
  moreover from this have "?s div 256 = 0" using 0(2) by (cases "?s div 256") auto
  ultimately show ?case using 0 by simp
next
  case (Suc i)
  show ?case
  proof (cases "carry > 0")
    case True
    let ?s = "unat (out ! Suc i) + carry" let ?o = "out[Suc i := of_nat ?s]"
    have e: "Suc (length out - 1 - Suc i) = length ?o - 1 - i" using Suc.prems(1) by simp
    have v: "be_nat ?o + (?s div 256) * 256 ^ (length ?o - 1 - i) = be_nat out + carry * 256 ^ (length out - 1 - Suc i)"
      using be_nat_carry_out [OF Suc.prems(1) refl, of carry] unfolding e .
    have "length (mul_carry i (?s div 256) ?o) = length ?o \<and> be_nat (mul_carry i (?s div 256) ?o) = be_nat ?o + ?s div 256 * 256 ^ (length ?o - 1 - i)"
    proof (rule Suc.IH)
      show "i < length ?o" using Suc.prems(1) by simp
      show "be_nat ?o + ?s div 256 * 256 ^ (length ?o - 1 - i) < 256 ^ length ?o"
        unfolding v using Suc.prems(2) by (simp only: length_list_update)
    qed
    then show ?thesis using True Suc.prems(1) v by simp
  qed simp
qed

lemma mul_cells_value:
  assumes "j \<le> length b" "length out = la + length b" "1 \<le> i" "i \<le> la"
  shows "case foldl (mul_cell ai i b) (out, 0) (rev [Suc (length b - j)..<Suc (length b)]) of (o1, c) \<Rightarrow>
    length o1 = length out \<and> be_nat o1 + c * 256 ^ (la - i + j) = be_nat out + unat ai * be_nat (drop (length b - j) b) * 256 ^ (la - i)"
  using assms(1)
proof (induction j)
  case (Suc j)
  define q where "q = length b - j"
  have q: "1 \<le> q" "q \<le> length b" "length b - Suc j = q - 1" "j = length b - q" using Suc.prems by (simp_all add: q_def)
  obtain o1 c where oc: "foldl (mul_cell ai i b) (out, 0) (rev [Suc q..<Suc (length b)]) = (o1, c)" by fastforce
  have IH: "length o1 = length out" "be_nat o1 + c * 256 ^ (la - i + j) = be_nat out + unat ai * be_nat (drop q b) * 256 ^ (la - i)"
    using Suc oc by (simp_all add: q_def)
  let ?p = "unat ai * unat (b ! (q - 1)) + c" let ?k = "i + q - 1"
  have up: "rev [Suc (length b - Suc j)..<Suc (length b)] = rev [Suc q..<Suc (length b)] @ [q]"
    unfolding q(3) using q(1,2) by (simp add: upt_rec [of q] del: upt_Suc)
  have k: "?k < length o1" "length o1 - 1 - ?k = la - i + j" using IH(1) assms q by simp_all
  have s: "foldl (mul_cell ai i b) (out, 0) (rev [Suc (length b - Suc j)..<Suc (length b)]) =
    (o1[?k := of_nat (unat (o1 ! ?k) + ?p)], (unat (o1 ! ?k) + ?p) div 256)"
    unfolding up foldl_append oc foldl_Cons foldl_Nil mul_cell_def Let_def prod.case add.assoc ..
  have d: "be_nat (drop (q - 1) b) = unat (b ! (q - 1)) * 256 ^ j + be_nat (drop q b)"
  proof -
    have "drop (q - 1) b = b ! (q - 1) # drop q b" using q Cons_nth_drop_Suc [of "q - 1" b] by simp
    then show ?thesis using q by (simp add: be_nat_Cons)
  qed
  have "be_nat (o1[?k := of_nat (unat (o1 ! ?k) + ?p)]) + ((unat (o1 ! ?k) + ?p) div 256) * 256 ^ (la - i + Suc j) =
    be_nat o1 + ?p * 256 ^ (la - i + j)"
    using be_nat_carry_out [OF k(1) k(2) [symmetric], of ?p] by simp
  also have "\<dots> = be_nat out + unat ai * be_nat (drop (q - 1) b) * 256 ^ (la - i)"
    unfolding d using IH(2) by (simp add: algebra_simps power_add)
  finally show ?case unfolding s unfolding q(3) prod.case using IH(1) by (simp only: length_list_update simp_thms)
qed simp

lemma mul_row_value:
  assumes "length out = length a + length b" "1 \<le> i" "i \<le> length a"
    and "be_nat out + unat (a ! (i - 1)) * be_nat b * 256 ^ (length a - i) < 256 ^ length out"
  shows "length (mul_row a b out i) = length out \<and>
    be_nat (mul_row a b out i) = be_nat out + unat (a ! (i - 1)) * be_nat b * 256 ^ (length a - i)"
proof -
  obtain o1 c where oc: "foldl (mul_cell (a ! (i - 1)) i b) (out, 0) (rev [1..<Suc (length b)]) = (o1, c)" by fastforce
  have v: "length o1 = length out" "be_nat o1 + c * 256 ^ (length a - i + length b) = be_nat out + unat (a ! (i - 1)) * be_nat b * 256 ^ (length a - i)"
    using mul_cells_value [OF order_refl assms(1-3), of "a ! (i - 1)"] oc by simp_all
  have k: "i - 1 < length o1" "length o1 - 1 - (i - 1) = length a - i + length b" using assms v(1) by simp_all
  from mul_carry_value [OF k(1), of c] have "length (mul_carry (i - 1) c o1) = length o1 \<and> be_nat (mul_carry (i - 1) c o1) = be_nat o1 + c * 256 ^ (length a - i + length b)"
    unfolding k(2) v(2) using assms(4) v(1) by simp
  then show ?thesis unfolding mul_row_def oc prod.case using v by simp
qed

lemma rsa_plain_mul_value:
  assumes "out_len = length a + length b"
  shows "length (rsa_plain_mul out_len a b) = out_len \<and> be_nat (rsa_plain_mul out_len a b) = be_nat a * be_nat b"
proof -
  have "j \<le> length a \<Longrightarrow> length (foldl (mul_row a b) (replicate out_len 0) (rev [Suc (length a - j)..<Suc (length a)])) = out_len \<and>
    be_nat (foldl (mul_row a b) (replicate out_len 0) (rev [Suc (length a - j)..<Suc (length a)])) = be_nat (drop (length a - j) a) * be_nat b" for j
  proof (induction j)
    case (Suc j)
    define q where "q = length a - j"
    have q: "1 \<le> q" "q \<le> length a" "length a - Suc j = q - 1" "length a - q = j" using Suc.prems by (simp_all add: q_def)
    let ?f = "foldl (mul_row a b) (replicate out_len 0) (rev [Suc q..<Suc (length a)])"
    have IH: "length ?f = length a + length b" "be_nat ?f = be_nat (drop q a) * be_nat b" using Suc assms by (simp_all add: q_def)
    have up: "rev [Suc (length a - Suc j)..<Suc (length a)] = rev [Suc q..<Suc (length a)] @ [q]"
      unfolding q(3) using q(1,2) by (simp add: upt_rec [of q] del: upt_Suc)
    have dr: "drop (q - 1) a = a ! (q - 1) # drop q a" using q Cons_nth_drop_Suc [of "q - 1" a] by simp
    then have d: "be_nat (drop (q - 1) a) = unat (a ! (q - 1)) * 256 ^ j + be_nat (drop q a)" using q by (simp add: be_nat_Cons)
    have tot: "be_nat ?f + unat (a ! (q - 1)) * be_nat b * 256 ^ (length a - q) = be_nat (drop (q - 1) a) * be_nat b"
      unfolding IH(2) d q(4) by (simp add: algebra_simps)
    have "be_nat (drop (q - 1) a) * be_nat b < 256 ^ length a * 256 ^ length b"
    proof (rule mult_strict_mono)
      have "be_nat (drop (q - 1) a) < 256 ^ length (drop (q - 1) a)" by (rule be_nat_less)
      also have "\<dots> \<le> 256 ^ length a" by (rule power_increasing) simp_all
      finally show "be_nat (drop (q - 1) a) < 256 ^ length a" .
    qed (simp_all add: be_nat_less)
    then have "length (mul_row a b ?f q) = length ?f \<and> be_nat (mul_row a b ?f q) = be_nat (drop (q - 1) a) * be_nat b"
      using mul_row_value [OF IH(1) q(1,2)] unfolding tot IH(1) power_add by simp
    then show ?case unfolding up unfolding q(3) foldl_append foldl_Cons foldl_Nil using IH(1) assms by (simp only:)
  qed (simp add: assms)
  from this [of "length a"] show ?thesis by (simp add: rsa_plain_mul_def)
qed

lemma add_aligned_value:
  "length inp \<le> length out \<Longrightarrow> le_nat (add_aligned_loop c out inp) mod 256 ^ length out = (le_nat out + le_nat inp + c) mod 256 ^ length out \<and>
    length (add_aligned_loop c out inp) = length out"
proof (induction c out inp rule: add_aligned_loop.induct)
  case (2 c x out inp)
  define y where "y = (case inp of [] \<Rightarrow> 0 | y # _ \<Rightarrow> unat y)"
  define s where "s = unat x + c + y"
  have inp: "le_nat inp = y + 256 * le_nat (drop 1 inp)" by (cases inp) (simp_all add: y_def le_nat_Cons)
  have e: "add_aligned_loop c (x # out) inp = of_nat s # add_aligned_loop (s div 256) out (drop 1 inp)"
    by (cases inp) (simp_all add: Let_def s_def y_def)
  let ?r = "add_aligned_loop (s div 256) out (drop 1 inp)"
  have IH: "le_nat ?r mod 256 ^ length out = (le_nat out + le_nat (drop 1 inp) + s div 256) mod 256 ^ length out" "length ?r = length out"
    using "2.IH" [OF refl refl] "2.prems" by (cases inp; simp add: Let_def s_def y_def)+
  have m: "(u + 256 * v) mod (256 * B) = (u + 256 * (v mod B)) mod (256 * B)" for u v B :: nat
    by (metis mod_add_right_eq mult_mod_right)
  have "le_nat (of_nat s # ?r) mod 256 ^ length (x # out) = (s mod 256 + 256 * (le_nat out + le_nat (drop 1 inp) + s div 256)) mod 256 ^ length (x # out)"
    using IH(1) m [of "s mod 256" "le_nat ?r" "256 ^ length out"] m [of "s mod 256" "le_nat out + le_nat (drop 1 inp) + s div 256" "256 ^ length out"]
    by (simp add: le_nat_Cons unat_of_nat_byte)
  also have "s mod 256 + 256 * (le_nat out + le_nat (drop 1 inp) + s div 256) = (s mod 256 + 256 * (s div 256)) + 256 * (le_nat out + le_nat (drop 1 inp))"
    by (simp only: algebra_simps)
  also have "\<dots> = le_nat (x # out) + le_nat inp + c" unfolding mod_mult_div_eq inp by (simp add: le_nat_Cons s_def)
  finally show ?case using IH(2) unfolding e by simp
qed simp

lemma rsa_add_right_aligned_value:
  assumes "length inp \<le> length out" "be_nat out + be_nat inp < 256 ^ length out"
  shows "length (rsa_add_right_aligned out inp) = length out" "be_nat (rsa_add_right_aligned out inp) = be_nat out + be_nat inp"
proof -
  have v: "le_nat (add_aligned_loop 0 (rev out) (rev inp)) mod 256 ^ length out = (be_nat out + be_nat inp) mod 256 ^ length out"
    "length (add_aligned_loop 0 (rev out) (rev inp)) = length out"
    using add_aligned_value [of "rev inp" "rev out" 0] assms(1) by simp_all
  moreover have "le_nat (add_aligned_loop 0 (rev out) (rev inp)) < 256 ^ length out"
    using le_nat_less [of "add_aligned_loop 0 (rev out) (rev inp)"] v(2) by simp
  ultimately show "length (rsa_add_right_aligned out inp) = length out" "be_nat (rsa_add_right_aligned out inp) = be_nat out + be_nat inp"
    using assms(2) by (simp_all add: rsa_add_right_aligned_def le_nat_def)
qed

section \<open>Signatures\<close>

text \<open>The encoded message of PKCS #1 v1.5.\<close>

definition pkcs1_em :: "nat \<Rightarrow> bytes \<Rightarrow> bytes" where
  "pkcs1_em n_len digest = 0 # 1 # replicate (n_len - 54) 0xff @ 0 # sha256_digest_info_prefix @ digest"

lemma encode_em:
  assumes "length digest = 32"
  shows "rsa_encode_pkcs1_sha256 n_len digest = (if 62 \<le> n_len \<and> n_len \<le> 256 then Some (pkcs1_em n_len digest) else None)"
  using assms by (simp add: rsa_encode_pkcs1_sha256_def sha256_digest_info_prefix_def pkcs1_em_def RSA_MAX_BYTES_def Let_def)

lemma length_pkcs1_em [simp]: "length digest = 32 \<Longrightarrow> 62 \<le> n_len \<Longrightarrow> length (pkcs1_em n_len digest) = n_len"
  by (simp add: pkcs1_em_def sha256_digest_info_prefix_def)

lemma diff_zero_iff:
  assumes "length xs = n" "length ys = n"
  shows "foldl (\<lambda>diff i. diff OR (xs ! i XOR ys ! i)) 0 [0..<n] = (0 :: byte) \<longleftrightarrow> xs = ys"
proof -
  have x: "a XOR b = 0 \<longleftrightarrow> a = b" for a b :: byte
    by (metis xor.assoc xor_self_eq xor.right_neutral xor.left_neutral)
  have "foldl (\<lambda>diff i. diff OR (xs ! i XOR ys ! i)) d is = 0 \<longleftrightarrow> d = 0 \<and> (\<forall>i \<in> set is. xs ! i = ys ! i)" for d "is"
    by (induction "is" arbitrary: d) (auto simp: or_eq_0_iff x)
  from this [of 0 "[0..<n]"] show ?thesis unfolding list_eq_iff_nth_eq assms by auto
qed

lemma verify_char:
  assumes "1 < be_nat n" "length digest = 32"
  shows "rsa_pkcs1v15_sha256_verify (Some s) (length s) (Some digest) (Some n) (length n) = 0 \<longleftrightarrow>
    length s = length n \<and> 62 \<le> length n \<and> length n \<le> 256 \<and> rsa_modexp65537 s n = Some (pkcs1_em (length n) digest)"
proof (cases "length s = length n \<and> length n \<le> 256 \<and> 62 \<le> length n")
  case True
  have m: "length n \<le> RSA_MAX_BYTES" "length [0x01, 0x00, 0x01 :: byte] \<le> RSA_MAX_BYTES" using True by (simp_all add: RSA_MAX_BYTES_def)
  obtain x where x: "rsa_modexp65537 s n = Some x" "length x = length n"
    unfolding rsa_modexp65537_def by (rule rsa_modexp_value [OF assms(1) m, of s])
  have "s \<noteq> []" "n \<noteq> []" using True by auto
  then show ?thesis using True x assms(2) diff_zero_iff [of x "length n" "pkcs1_em (length n) digest"]
    by (simp add: rsa_pkcs1v15_sha256_verify_def encode_em RSA_MAX_BYTES_def)
next
  case False
  then show ?thesis using assms(2) by (auto simp: rsa_pkcs1v15_sha256_verify_def encode_em RSA_MAX_BYTES_def split: option.splits)
qed

lemma modexp65537_value:
  assumes "1 < be_nat n" "length n \<le> 256"
  obtains x where "rsa_modexp65537 s n = Some x" "length x = length n" "be_nat x = be_nat s ^ 65537 mod be_nat n"
proof -
  have m: "length n \<le> RSA_MAX_BYTES" "length [0x01, 0x00, 0x01 :: byte] \<le> RSA_MAX_BYTES" using assms(2) by (simp_all add: RSA_MAX_BYTES_def)
  have e: "be_nat [0x01, 0x00, 0x01] = 65537" by (simp add: be_nat_def)
  show ?thesis by (rule rsa_modexp_value [OF assms(1) m, of s]) (use that in \<open>simp add: rsa_modexp65537_def e\<close>)
qed

text \<open>Modular exponentiation on byte strings is exact: for a modulus above 1 of at most 256 bytes and an exponent of at most 256
  bytes it returns, with the length of the modulus, the power of the base modulo the modulus. The base may have any length and need not be
  reduced. All byte carries, borrows and conditional subtractions are accounted for.\<close>

theorem rsa_modexp_correct:
  assumes "1 < be_nat m" "length m \<le> RSA_MAX_BYTES" "length e \<le> RSA_MAX_BYTES"
  shows "\<exists>x. rsa_modexp base0 e m = Some x \<and> length x = length m \<and> be_nat x = be_nat base0 ^ be_nat e mod be_nat m"
  by (rule rsa_modexp_value [OF assms, of base0]) blast

theorem rsa_modexp_correct_witness:
  "\<exists>x. rsa_modexp [1, 7] [13] [0, 251] = Some x \<and> length x = 2 \<and> be_nat x = 263 ^ 13 mod 251"
proof -
  have v: "be_nat [0, 251] = 251" "be_nat [13] = 13" "be_nat [1, 7] = 263" by (simp_all add: be_nat_def)
  have l: "length [0, 251 :: byte] = 2" by simp
  have "1 < be_nat [0, 251]" "length [0, 251 :: byte] \<le> RSA_MAX_BYTES" "length [13 :: byte] \<le> RSA_MAX_BYTES"
    by (simp_all add: v RSA_MAX_BYTES_def)
  from rsa_modexp_correct [OF this, of "[1, 7]"] show ?thesis unfolding v l .
qed

text \<open>C9: Verification is the RSA equation: a signature is accepted exactly when it has the length of the modulus, that length admits the
  padding, and its 65537th power modulo the modulus is the PKCS #1 v1.5 encoding of the digest, all bytes compared.\<close>

theorem rsa_verify_iff:
  assumes "1 < be_nat n" "length digest = 32"
  shows "rsa_pkcs1v15_sha256_verify (Some s) (length s) (Some digest) (Some n) (length n) = 0 \<longleftrightarrow>
    length s = length n \<and> 62 \<le> length n \<and> length n \<le> 256 \<and>
    be_nat s ^ 65537 mod be_nat n = be_nat (pkcs1_em (length n) digest)"
proof (cases "62 \<le> length n \<and> length n \<le> 256")
  case True
  obtain x where x: "rsa_modexp65537 s n = Some x" "length x = length n" "be_nat x = be_nat s ^ 65537 mod be_nat n"
    by (rule modexp65537_value [OF assms(1), of s]) (use True in auto)
  have "x = pkcs1_em (length n) digest \<longleftrightarrow> be_nat x = be_nat (pkcs1_em (length n) digest)"
    using be_nat_inject [of x "pkcs1_em (length n) digest"] x(2) True assms(2) by auto
  then show ?thesis unfolding verify_char [OF assms] x(1) x(3) [symmetric] using True by auto
qed (auto simp: verify_char [OF assms])

theorem rsa_verify_iff_witness:
  "rsa_pkcs1v15_sha256_verify (Some [1, 2]) 2 (Some (replicate 32 0)) (Some (replicate 64 0xff)) 64 \<noteq> 0"
proof -
  have "replicate 64 (0xff :: byte) = 0xff # replicate 63 0xff" by (simp add: numeral_eq_Suc)
  then have "1 < be_nat (replicate 64 0xff)" by (simp add: be_nat_Cons)
  then show ?thesis using rsa_verify_iff [of "replicate 64 0xff" "replicate 32 0" "[1, 2]"] by (simp add: numeral_2_eq_2)
qed

lemma sign_plain_checked:
  assumes "sign_plain n d em sb = (0, sb')" "1 < be_nat n" "length n \<le> length sb"
  shows "\<exists>s. length s = length n \<and> sb' = s @ drop (length n) sb \<and> rsa_modexp65537 s n = Some em"
proof -
  obtain s where s: "rsa_modexp em d n = Some s" using assms(1) by (auto simp: sign_plain_def split: option.splits)
  then have l: "length n \<le> RSA_MAX_BYTES" "length d \<le> RSA_MAX_BYTES" by (auto simp: rsa_modexp_def split: if_splits)
  have "length s = length n" by (rule rsa_modexp_value [OF assms(2) l, of em]) (use s in simp)
  then show ?thesis using assms(1,3) s by (auto simp: sign_plain_def Let_def blit_def split: if_splits)
qed

lemma length_sub_loop: "length (fst (sub_loop br ps)) = length ps"
  by (induction br ps rule: sub_loop.induct) (auto simp: Let_def split: prod.splits if_splits)

lemma length_rsa_sub_inplace: "length (rsa_sub_inplace a b) = min (length a) (length b)"
  by (simp add: rsa_sub_inplace_def length_sub_loop)

lemma length_add_aligned: "length (add_aligned_loop c out inp) = length out"
  by (induction c out inp rule: add_aligned_loop.induct) (simp_all add: Let_def)

lemma length_mul_carry: "length (mul_carry i c out) = length out"
  by (induction i arbitrary: c out) simp_all

lemma length_plain_mul: "length (rsa_plain_mul out_len a b) = out_len"
proof -
  have cells: "length (fst (foldl (mul_cell ai i b) oc js)) = length (fst oc)" for ai i oc js
    by (induction js arbitrary: oc) (simp_all add: mul_cell_def Let_def split: prod.splits)
  have row: "length (mul_row a b out i) = length out" for out i
  proof -
    obtain o1 c where oc: "foldl (mul_cell (a ! (i - 1)) i b) (out, 0) (rev [1..<Suc (length b)]) = (o1, c)" by fastforce
    have "length o1 = length out" using cells [of "a ! (i - 1)" i "(out, 0)" "rev [1..<Suc (length b)]"] unfolding oc by simp
    then show ?thesis unfolding mul_row_def oc prod.case by (simp add: length_mul_carry)
  qed
  have "length (foldl (mul_row a b) out is) = length out" for out "is" by (induction "is" arbitrary: out) (simp_all add: row)
  then show ?thesis by (simp add: rsa_plain_mul_def del: upt_Suc)
qed

lemma length_sign_crt_number: "length (sign_crt_number n p q iqmp m1 m2) = length n"
  by (simp add: sign_crt_number_def Let_def length_rsa_sub_inplace rsa_add_right_aligned_def length_add_aligned length_plain_mul)

lemma sign_crt_checked:
  assumes "sign_crt n p q dmp1 dmq1 iqmp em sb = (rc, sb')" "length n \<le> length sb"
  shows "(rc = 0 \<longrightarrow> (\<exists>s. length s = length n \<and> sb' = s @ drop (length n) sb \<and> rsa_modexp65537 s n = Some em)) \<and> (rc \<noteq> 0 \<longrightarrow> sb' = sb)"
  using assms length_sign_crt_number [of n p q iqmp]
  by (auto simp: sign_crt_def Let_def blit_def split: option.splits if_splits)

section \<open>The Chinese remainder step\<close>

lemma rsa_mod_sub_value:
  assumes "length a = length m" "length b = length m" "be_nat a < be_nat m" "be_nat b < be_nat m"
  shows "length (rsa_mod_sub a b m) = length m" "be_nat (rsa_mod_sub a b m) = (be_nat a + be_nat m - be_nat b) mod be_nat m"
proof -
  have "length (rsa_mod_sub a b m) = length m \<and> be_nat (rsa_mod_sub a b m) = (be_nat a + be_nat m - be_nat b) mod be_nat m"
  proof (cases "be_nat b \<le> be_nat a")
    case True
    then have "be_nat a + be_nat m - be_nat b = be_nat m + (be_nat a - be_nat b)" by simp
    then have "(be_nat a + be_nat m - be_nat b) mod be_nat m = be_nat a - be_nat b" using assms(3) by (simp only: mod_add_self1) simp
    then show ?thesis using True assms rsa_sub_inplace_value [of a b] by (simp add: rsa_mod_sub_def rsa_ge_bytes_iff)
  next
    case False
    then have "length (rsa_sub_inplace b a) = length m" "be_nat (rsa_sub_inplace b a) = be_nat b - be_nat a"
      using rsa_sub_inplace_value [of b a] assms by simp_all
    moreover have "(be_nat a + be_nat m - be_nat b) mod be_nat m = be_nat a + be_nat m - be_nat b" by (rule mod_less) (use False assms(4) in linarith)
    ultimately show ?thesis using False assms rsa_sub_inplace_value [of m "rsa_sub_inplace b a"] by (simp add: rsa_mod_sub_def rsa_ge_bytes_iff)
  qed
  then show "length (rsa_mod_sub a b m) = length m" "be_nat (rsa_mod_sub a b m) = (be_nat a + be_nat m - be_nat b) mod be_nat m" by simp_all
qed

lemma garner:
  fixes p q iq m1 m2 :: nat
  assumes "q * iq mod p = 1" "m1 < p" "m2 < q" "m2 < p" "0 < p"
  defines "h \<equiv> ((m1 + p - m2) mod p) * iq mod p"
  shows "q * h + m2 < p * q" "(q * h + m2) mod p = m1" "(q * h + m2) mod q = m2"
proof -
  have "h < p" using assms(5) by (simp add: h_def)
  then have "q * h + q \<le> q * p" using mult_le_mono2 [of "Suc h" p q] by simp
  then show "q * h + m2 < p * q" using assms(3) by (simp add: mult.commute)
  have x: "q * (x * iq) mod p = x * (q * iq mod p) mod p" for x by (metis mod_mult_right_eq mult.left_commute)
  have "q * h mod p = q * (((m1 + p - m2) mod p) * iq) mod p" unfolding h_def by (simp add: mod_mult_right_eq)
  also have "\<dots> = ((m1 + p - m2) mod p) * (q * iq mod p) mod p" by (rule x)
  also have "\<dots> = (m1 + p - m2) mod p" using assms(1) by simp
  finally have "(q * h + m2) mod p = ((m1 + p - m2) + m2) mod p" by (metis mod_add_cong)
  then show "(q * h + m2) mod p = m1" using assms(2,4) by simp
  show "(q * h + m2) mod q = m2" using assms(3) by simp
qed

lemma sign_crt_number_value:
  assumes n: "be_nat n = be_nat p * be_nat q" "length n = length p + length q" "length q = length p" "length iqmp = length p"
    and m: "length m1 = length p" "length m2 = length q" "be_nat m1 < be_nat p" "be_nat m2 < be_nat q" "be_nat m2 < be_nat p"
    and iq: "be_nat q * be_nat iqmp mod be_nat p = 1" "be_nat iqmp < be_nat p"
  shows "be_nat (sign_crt_number n p q iqmp m1 m2) < be_nat n \<and>
    be_nat (sign_crt_number n p q iqmp m1 m2) mod be_nat p = be_nat m1 \<and> be_nat (sign_crt_number n p q iqmp m1 m2) mod be_nat q = be_nat m2"
proof -
  have p1: "1 < be_nat p" using iq(1) by (cases "be_nat p = 1") (use m(3) in auto)
  let ?d = "rsa_mod_sub m1 m2 p" and ?P = "be_nat p" and ?Q = "be_nat q"
  have d: "length ?d = length p" "be_nat ?d = (be_nat m1 + ?P - be_nat m2) mod ?P" using rsa_mod_sub_value [of m1 p m2] n m by simp_all
  have "residue p ?d (be_nat ?d)" "residue p iqmp (be_nat iqmp)" using d p1 n(4) iq(2) by (simp_all add: residue_def)
  from rsa_mul_mod_residue [OF this]
  have h: "length (rsa_mul_mod ?d iqmp p) = length p" "be_nat (rsa_mul_mod ?d iqmp p) = (be_nat m1 + ?P - be_nat m2) mod ?P * be_nat iqmp mod ?P"
    by (simp_all add: residue_def d(2))
  let ?h = "(be_nat m1 + ?P - be_nat m2) mod ?P * be_nat iqmp mod ?P"
  have g: "?Q * ?h + be_nat m2 < ?P * ?Q" "(?Q * ?h + be_nat m2) mod ?P = be_nat m1" "(?Q * ?h + be_nat m2) mod ?Q = be_nat m2"
    using garner [OF iq(1) m(3,4,5)] p1 by simp_all
  let ?qh = "rsa_plain_mul (length n) q (rsa_mul_mod ?d iqmp p)"
  have q: "length ?qh = length n" "be_nat ?qh = ?Q * ?h" using rsa_plain_mul_value [of "length n" q "rsa_mul_mod ?d iqmp p"] n h by simp_all
  have "?Q * ?h + be_nat m2 < 256 ^ length n" using g(1) be_nat_less [of n] n(1) by simp
  then have s: "length (rsa_add_right_aligned ?qh m2) = length n" "be_nat (rsa_add_right_aligned ?qh m2) = ?Q * ?h + be_nat m2"
    using rsa_add_right_aligned_value [of m2 ?qh] q m(2) n by simp_all
  then have "sign_crt_number n p q iqmp m1 m2 = rsa_add_right_aligned ?qh m2"
    using g(1) n(1) by (simp add: sign_crt_number_def Let_def rsa_ge_bytes_iff)
  then show ?thesis using s(2) g n(1) by simp
qed

text \<open>A key for a concrete signature: the modulus is one more than the encoded message of the zero digest, and the exponent is 1.\<close>

definition toy_modulus :: bytes where
  "toy_modulus = butlast (pkcs1_em 62 (replicate 32 0)) @ [1]"

definition toy_key :: rsa_crt_private_key where
  "toy_key = \<lparr>key_n = Some toy_modulus, key_n_len = 62, key_d = Some (replicate 61 0 @ [1]), key_d_len = 62,
    key_p = None, key_p_len = 0, key_q = None, key_q_len = 0, key_dmp1 = None, key_dmp1_len = 0,
    key_dmq1 = None, key_dmq1_len = 0, key_iqmp = None, key_iqmp_len = 0\<rparr>"

lemma power_odd_minus_one: "1 < m \<Longrightarrow> m ^ (2 * j + 1) mod (m + 1) = (m :: nat)"
proof (induction j)
  case (Suc j)
  have "m * m = (m - 1) * (m + 1) + 1" using Suc.prems by (cases m) simp_all
  then have sq: "m * m mod (m + 1) = 1" using Suc.prems by (metis mod_less mod_mult_self3 less_add_same_cancel2 zero_less_one less_trans)
  have "m ^ (2 * Suc j + 1) mod (m + 1) = (m * m) * m ^ (2 * j + 1) mod (m + 1)" by (simp add: mult.assoc)
  also have "\<dots> = (m * m mod (m + 1)) * (m ^ (2 * j + 1) mod (m + 1)) mod (m + 1)" by (simp only: mod_mult_eq)
  also have "\<dots> = m" using Suc sq by simp
  finally show ?case .
qed simp

lemma toy_values:
  "length toy_modulus = 62" "be_nat toy_modulus = be_nat (pkcs1_em 62 (replicate 32 0)) + 1" "1 < be_nat (pkcs1_em 62 (replicate 32 0))"
proof -
  have z: "replicate 32 (0 :: byte) = replicate 31 0 @ [0]" by (simp add: replicate_append_same flip: replicate_Suc)
  let ?f = "0 # 1 # replicate 8 0xff @ 0 # sha256_digest_info_prefix @ replicate 31 0 :: bytes"
  have em: "pkcs1_em 62 (replicate 32 0) = ?f @ [0]" unfolding pkcs1_em_def z by simp
  have l: "length ?f = 61" by (simp add: sha256_digest_info_prefix_def)
  show "length toy_modulus = 62" unfolding toy_modulus_def em butlast_snoc using l by simp
  have t: "toy_modulus = ?f @ [1]" unfolding toy_modulus_def em butlast_snoc ..
  have "be_nat (xs @ [1]) = be_nat (xs @ [0]) + 1" for xs by (simp add: be_nat_snoc)
  then show "be_nat toy_modulus = be_nat (pkcs1_em 62 (replicate 32 0)) + 1" unfolding em t by this
  have "1 * 256 ^ 59 \<le> be_nat ?f" using l by (simp add: be_nat_Cons)
  then show "1 < be_nat (pkcs1_em 62 (replicate 32 0))" unfolding em be_nat_append by simp
qed

text \<open>C10: Signing is checked: whatever key is supplied, also one with inconsistent factors or exponents, a call that returns 0 leaves in
  the buffer a signature that verification accepts under the same modulus and digest. In the Chinese-remainder branch a call that fails leaves
  the signature buffer as it was, so a computation gone wrong never releases a faulty signature.\<close>

theorem rsa_sign_verifies:
  assumes "rsa_pkcs1v15_sha256_sign_crt (Some sb) sig_len (Some digest) (Some key) = (rc, Some sb')"
    and "key_n key = Some n" "length n = key_n_len key" "1 < be_nat n" "length digest = 32" "length n \<le> length sb"
  shows "(rc = 0 \<longrightarrow> rsa_pkcs1v15_sha256_verify (Some (take (length n) sb')) (length n) (Some digest) (Some n) (length n) = 0 \<and>
      drop (length n) sb' = drop (length n) sb) \<and>
    (rc \<noteq> 0 \<and> key_d key = None \<longrightarrow> sb' = sb)"
proof -
  have tn: "take (key_n_len key) n = n" using assms(3) by simp
  have v: "rsa_pkcs1v15_sha256_verify (Some s) (length n) (Some digest) (Some n) (length n) = 0"
    if "length s = length n" "62 \<le> length n" "length n \<le> 256" "rsa_modexp65537 s n = Some (pkcs1_em (length n) digest)" for s
    using verify_char [OF assms(4,5), of s] that by simp
  show ?thesis
  proof (cases "key_n_len key = 0 \<or> key_n_len key > RSA_MAX_BYTES \<or> sig_len \<noteq> key_n_len key \<or> \<not> (62 \<le> length n \<and> length n \<le> 256)")
    case True
    then have "rc = -1 \<and> sb' = sb"
      using assms(1-3) encode_em [OF assms(5), of "length n"] by (auto simp: rsa_pkcs1v15_sha256_sign_crt_def RSA_MAX_BYTES_def split: if_splits)
    then show ?thesis by simp
  next
    case False
    then have em: "rsa_encode_pkcs1_sha256 (key_n_len key) digest = Some (pkcs1_em (length n) digest)" and l: "62 \<le> length n" "length n \<le> 256"
      using encode_em [OF assms(5), of "length n"] assms(3) by simp_all
    have "(\<exists>d. sign_plain n d (pkcs1_em (length n) digest) sb = (rc, sb') \<and> key_d key \<noteq> None) \<or>
      (\<exists>p q a b c. sign_crt n p q a b c (pkcs1_em (length n) digest) sb = (rc, sb')) \<or> rc = -1 \<and> sb' = sb"
      using assms(1) False assms(2) em tn by (auto simp: rsa_pkcs1v15_sha256_sign_crt_def Let_def map_prod_def split: if_splits prod.splits)
    then consider d where "sign_plain n d (pkcs1_em (length n) digest) sb = (rc, sb')" "key_d key \<noteq> None"
      | p q a b c where "sign_crt n p q a b c (pkcs1_em (length n) digest) sb = (rc, sb')" | "rc = -1" "sb' = sb" by blast
    then show ?thesis
    proof cases
      case 1
      then show ?thesis using sign_plain_checked [OF _ assms(4,6), of d "pkcs1_em (length n) digest" sb'] v l by (cases "rc = 0") auto
    next
      case 2
      from sign_crt_checked [OF 2 assms(6)] v l show ?thesis by (cases "rc = 0") auto
    qed simp
  qed
qed

theorem rsa_sign_verifies_witness:
  "\<exists>sb'. rsa_pkcs1v15_sha256_sign_crt (Some (replicate 62 0)) 62 (Some (replicate 32 0)) (Some toy_key) = (0, Some sb') \<and>
    rsa_pkcs1v15_sha256_verify (Some (take (length toy_modulus) sb')) (length toy_modulus) (Some (replicate 32 0)) (Some toy_modulus) (length toy_modulus) = 0"
proof -
  let ?em = "pkcs1_em 62 (replicate 32 0)" and ?d = "replicate 61 0 @ [1] :: bytes"
  have n: "1 < be_nat toy_modulus" "length toy_modulus \<le> RSA_MAX_BYTES" "length ?d \<le> RSA_MAX_BYTES" using toy_values by (simp_all add: RSA_MAX_BYTES_def)
  have em: "length ?em = 62" by simp
  obtain s where s: "rsa_modexp ?em ?d toy_modulus = Some s" "length s = length toy_modulus" "be_nat s = be_nat ?em ^ be_nat ?d mod be_nat toy_modulus"
    by (rule rsa_modexp_value [OF n])
  have "be_nat ?d = 1" by (simp add: be_nat_append be_nat_Cons)
  then have "be_nat s = be_nat ?em" using s(3) toy_values(2) by simp
  then have s': "s = ?em" using be_nat_inject [of s ?em] s(2) toy_values(1) em by simp
  have "length toy_modulus \<le> 256" using toy_values(1) by simp
  from modexp65537_value [OF n(1) this, of s]
  obtain x where x: "rsa_modexp65537 s toy_modulus = Some x" "length x = length toy_modulus" "be_nat x = be_nat s ^ 65537 mod be_nat toy_modulus" by metis
  have "be_nat x = be_nat ?em" using x(3) power_odd_minus_one [OF toy_values(3), of 32768] unfolding s' toy_values(2) by simp
  then have x': "x = ?em" using be_nat_inject [of x ?em] x(2) toy_values(1) em by simp
  have e: "rsa_encode_pkcs1_sha256 62 (replicate 32 0) = Some ?em" by (simp add: encode_em)
  have r: "rsa_pkcs1v15_sha256_sign_crt (Some (replicate 62 0)) 62 (Some (replicate 32 0)) (Some toy_key) = (0, Some (blit 0 s (replicate 62 0)))"
    unfolding rsa_pkcs1v15_sha256_sign_crt_def toy_key_def using toy_values(1) s(1) x(1) x' by (simp add: e sign_plain_def RSA_MAX_BYTES_def Let_def)
  have "key_n toy_key = Some toy_modulus" "length toy_modulus = key_n_len toy_key" "length (replicate 32 (0 :: byte)) = 32"
    "length toy_modulus \<le> length (replicate 62 (0 :: byte))" using toy_values(1) by (simp_all add: toy_key_def)
  from rsa_sign_verifies [OF r this(1,2) n(1) this(3,4)] r show ?thesis by blast
qed

text \<open>The Chinese-remainder recombination is right: for \<open>n = p * q\<close> with \<open>q\<close> at most \<open>p\<close> bytes long and \<open>iqmp\<close> the inverse of \<open>q\<close>
  modulo \<open>p\<close>, the number computed from the two half-size powers is the one below \<open>n\<close> with those residues modulo \<open>p\<close> and \<open>q\<close>.
  The subtraction modulo \<open>p\<close>, the schoolbook product and the aligned addition neither wrap nor lose a carry.\<close>

theorem sign_crt_number_correct:
  assumes "be_nat n = be_nat p * be_nat q" "length n = length p + length q" "length q = length p" "length iqmp = length p"
    and "length m1 = length p" "length m2 = length q" "be_nat m1 < be_nat p" "be_nat m2 < be_nat q" "be_nat m2 < be_nat p"
    and "be_nat q * be_nat iqmp mod be_nat p = 1" "be_nat iqmp < be_nat p"
  shows "be_nat (sign_crt_number n p q iqmp m1 m2) < be_nat n \<and>
    be_nat (sign_crt_number n p q iqmp m1 m2) mod be_nat p = be_nat m1 \<and> be_nat (sign_crt_number n p q iqmp m1 m2) mod be_nat q = be_nat m2"
  by (rule sign_crt_number_value [OF assms])

theorem sign_crt_number_correct_witness:
  "be_nat (sign_crt_number [0, 35] [7] [5] [3] [4] [2]) mod 7 = 4 \<and> be_nat (sign_crt_number [0, 35] [7] [5] [3] [4] [2]) mod 5 = 2"
proof -
  have v: "be_nat [0, 35] = 35" "be_nat [7] = 7" "be_nat [5] = 5" "be_nat [3] = 3" "be_nat [4] = 4" "be_nat [2] = 2" by (simp_all add: be_nat_def)
  show ?thesis using sign_crt_number_correct [of "[0, 35]" "[7]" "[5]" "[3]" "[4]" "[2]"] by (simp add: v)
qed

end
