(* ===== verification/RsaKeygen.thy ===== *)
theory RsaKeygen
  imports Rsa
begin

text \<open>
  RSA key generation, second half of \<^verbatim>\<open>kernel/lib/rsa.c\<close>: candidates expanded from a seed with SHA-256, trial division and the
  Miller-Rabin test, the modulus and the private exponents. A loop that could run forever, the removal of
  factors of two, is a partial function whose value \<open>None\<close> means that it does not return; the
  lemmas show that it always does.
\<close>

section \<open>Small operations\<close>

definition rsa_is_zero :: "bytes \<Rightarrow> bool" where
  "rsa_is_zero a \<longleftrightarrow> list_all (\<lambda>x. x = 0) a"

definition rsa_is_one :: "bytes \<Rightarrow> bool" where
  "rsa_is_one a = (if length a = 0 \<or> a ! (length a - 1) \<noteq> 1 then False else list_all (\<lambda>x. x = 0) (butlast a))"

definition rsa_is_even :: "bytes \<Rightarrow> bool" where
  "rsa_is_even a \<longleftrightarrow> length a = 0 \<or> a ! (length a - 1) AND 1 = 0"

text \<open>The loop runs from the last byte and stops when nothing is left to borrow.\<close>

fun sub_small_loop :: "bytes \<Rightarrow> nat \<Rightarrow> bytes" where
  "sub_small_loop [] borrow = []"
| "sub_small_loop (a # as) borrow =
    (if borrow > 0
     then let byte_borrow = borrow mod 256; av = unat a; borrow = borrow div 256
          in if av < byte_borrow then of_nat (av + 256 - byte_borrow) # sub_small_loop as (borrow + 1)
             else of_nat (av - byte_borrow) # sub_small_loop as borrow
     else a # as)"

definition rsa_sub_small :: "bytes \<Rightarrow> u32 \<Rightarrow> bytes" where
  "rsa_sub_small a v = rev (sub_small_loop (rev a) (unat v))"

fun shift_loop :: "byte \<Rightarrow> bytes \<Rightarrow> bytes" where
  "shift_loop carry [] = []"
| "shift_loop carry (a # as) = (drop_bit 1 a OR push_bit 7 carry) # shift_loop (a AND 1) as"

definition rsa_shift_right_one :: "bytes \<Rightarrow> bytes" where
  "rsa_shift_right_one a = shift_loop 0 a"

definition rsa_set_u32 :: "nat \<Rightarrow> u32 \<Rightarrow> bytes" where
  "rsa_set_u32 len v =
    foldl (\<lambda>out i. out[len - 1 - i := ucast (drop_bit (i * 8) v)]) (replicate len 0) [0..<min 4 len]"

definition rsa_mod_u32 :: "bytes \<Rightarrow> u32 \<Rightarrow> u32" where
  "rsa_mod_u32 a m =
    (if m = 0 then 0
     else foldl (\<lambda>r x. ucast ((push_bit 8 (ucast r) OR ucast x :: u64) mod ucast m)) 0 a)"

section \<open>The private exponent\<close>

text \<open>
  The extended Euclidean algorithm on signed 64-bit values, which stay below \<open>2 ^ 33\<close> in absolute value. The remainders are
  never negative, so the truncating division of the code is \<open>div\<close>.
\<close>

function inv_loop :: "int \<Rightarrow> int \<Rightarrow> int \<Rightarrow> int \<Rightarrow> int \<times> int" where
  "inv_loop t new_t r new_r =
    (if new_r \<noteq> 0 then let q = r div new_r in inv_loop new_t (t - q * new_t) new_r (r - q * new_r) else (t, r))"
  by pat_completeness auto
termination
proof (relation "measure (\<lambda>(_, _, _, new_r). nat \<bar>new_r\<bar>)")
  fix t new_t r new_r q :: int assume "new_r \<noteq> 0" "q = r div new_r"
  then show "((new_t, t - q * new_t, new_r, r - q * new_r), (t, new_t, r, new_r)) \<in> measure (\<lambda>(_, _, _, new_r). nat \<bar>new_r\<bar>)"
    using abs_mod_less [of new_r r] by (simp add: minus_div_mult_eq_mod)
qed simp

declare inv_loop.simps [simp del]

definition rsa_inv_mod_u32 :: "u32 \<Rightarrow> u32 \<Rightarrow> u32" where
  "rsa_inv_mod_u32 a m =
    (case inv_loop 0 1 (uint m) (uint (a mod m)) of
       (t, r) \<Rightarrow> if r \<noteq> 1 then 0 else if t < 0 then of_int (t + uint m) else of_int t)"

text \<open>\<^verbatim>\<open>m * mul\<close> into a buffer with two more leading bytes, least significant byte first.\<close>

fun mul_small_loop :: "u32 \<Rightarrow> u32 \<Rightarrow> bytes \<Rightarrow> bytes \<times> u32" where
  "mul_small_loop mul carry [] = ([], carry)"
| "mul_small_loop mul carry (x # xs) =
    (let v = ucast x * mul + carry; (r, carry) = mul_small_loop mul (drop_bit 8 v) xs in (ucast (v AND 0xff) # r, carry))"

fun add_one_loop :: "bytes \<Rightarrow> bytes" where
  "add_one_loop [] = []"
| "add_one_loop (x # xs) = (if x + 1 \<noteq> 0 then (x + 1) # xs else (x + 1) # add_one_loop xs)"

fun div_small_loop :: "u32 \<Rightarrow> u32 \<Rightarrow> bytes \<Rightarrow> bytes \<times> u32" where
  "div_small_loop d r [] = ([], r)"
| "div_small_loop d r (x # xs) =
    (let acc = push_bit 8 r OR ucast x; (q, r) = div_small_loop d (acc mod d) xs in (ucast (acc div d) # q, r))"

definition rsa_mul_small_add_one_div_small :: "bytes \<Rightarrow> u32 \<Rightarrow> u32 \<Rightarrow> bytes option" where
  "rsa_mul_small_add_one_div_small m mul d =
    (if length m = 0 \<or> length m > RSA_MAX_BYTES \<or> d = 0 then None
     else let (low, carry) = mul_small_loop mul 0 (rev m);
              product = ucast (drop_bit 8 carry AND 0xff) # ucast (carry AND 0xff) # rev low;
              product = rev (add_one_loop (rev product));
              (quotient, r) = div_small_loop d 0 product
          in if r \<noteq> 0 \<or> quotient ! 0 \<noteq> 0 \<or> quotient ! 1 \<noteq> 0 then None else Some (drop 2 quotient))"

definition rsa_inverse_of_65537 :: "bytes \<Rightarrow> bytes option" where
  "rsa_inverse_of_65537 m =
    (if length m = 0 \<or> length m > RSA_MAX_BYTES then None
     else let e = 65537; mod_e = rsa_mod_u32 m e in
       if mod_e = 0 then None
       else let inv0 = rsa_inv_mod_u32 mod_e e in
         if inv0 = 0 then None
         else let mul = e - inv0; mul = (if mul = e then 0 else mul)
              in rsa_mul_small_add_one_div_small m mul e)"

section \<open>Candidates and the primality test\<close>

definition le32 :: "u32 \<Rightarrow> bytes" where
  "le32 v = map (\<lambda>i. ucast (drop_bit (8 * i) v)) [0..<4]"

definition keygen_label :: bytes where
  "keygen_label = map (\<lambda>c. of_nat (of_char c)) ''orizon-rsa-keygen-v1''"

text \<open>The digest of one expansion block, through the streaming interface.\<close>

definition seed_block :: "bytes \<Rightarrow> bytes \<Rightarrow> u32 \<Rightarrow> u32 \<Rightarrow> bytes option" where
  "seed_block seed label attempt block0 =
    (case sha256_update sha256_init keygen_label of None \<Rightarrow> None | Some ctx \<Rightarrow>
     (case sha256_update ctx (take 32 seed) of None \<Rightarrow> None | Some ctx \<Rightarrow>
     (case sha256_update ctx label of None \<Rightarrow> None | Some ctx \<Rightarrow>
     (case sha256_update ctx (le32 attempt) of None \<Rightarrow> None | Some ctx \<Rightarrow>
     (case sha256_update ctx (le32 block0) of None \<Rightarrow> None | Some ctx \<Rightarrow> Some (fst (sha256_final ctx)))))))"

function rsa_seed_expand :: "bytes \<Rightarrow> bytes \<Rightarrow> u32 \<Rightarrow> u32 \<Rightarrow> nat \<Rightarrow> bytes option" where
  "rsa_seed_expand seed label attempt block0 out_len =
    (if out_len = 0 then Some []
     else case seed_block seed label attempt block0 of None \<Rightarrow> None | Some digest \<Rightarrow>
       (case rsa_seed_expand seed label attempt (block0 + 1) (out_len - min 32 out_len) of None \<Rightarrow> None
        | Some rest \<Rightarrow> Some (take out_len digest @ rest)))"
  by pat_completeness auto
termination
  by (relation "measure (\<lambda>(_, _, _, _, out_len). out_len)") auto

declare rsa_seed_expand.simps [simp del]

definition rsa_make_prime_candidate :: "bytes \<Rightarrow> bytes \<Rightarrow> u32 \<Rightarrow> bytes option" where
  "rsa_make_prime_candidate seed label attempt =
    (case rsa_seed_expand seed label attempt 0 64 of None \<Rightarrow> None
     | Some out \<Rightarrow> Some (let out = out[0 := out ! 0 OR 0xc0] in out[63 := out ! 63 OR 1]))"

definition small_primes :: "nat list" where
  "small_primes = concat
    [[3, 5, 7, 11, 13, 17], [19, 23, 29, 31, 37, 41, 43], [47, 53, 59, 61, 67, 71], [73, 79, 83, 89, 97, 101, 103],
     [107, 109, 113, 127, 131, 137], [139, 149, 151, 157, 163, 167, 173], [179, 181, 191, 193, 197, 199], [211, 223, 227, 229, 233, 239, 241],
     [251, 257, 263, 269, 271, 277], [281, 283, 293, 307, 311, 313, 317], [331, 337, 347, 349, 353, 359], [367, 373, 379, 383, 389, 397, 401],
     [409, 419, 421, 431, 433, 439], [443, 449, 457, 461, 463, 467, 479], [487, 491, 499, 503, 509, 521], [523, 541, 547, 557, 563, 569, 571],
     [577, 587, 593, 599, 601, 607], [613, 617, 619, 631, 641, 643, 647], [653, 659, 661, 673, 677, 683], [691, 701, 709, 719, 727, 733, 739],
     [743, 751, 757, 761, 769, 773], [787, 797, 809, 811, 821, 823, 827], [829, 839, 853, 857, 859, 863], [877, 881, 883, 887, 907, 911, 919],
     [929, 937, 941, 947, 953, 967], [971, 977, 983, 991, 997]]"

definition bases :: "u32 list" where
  "bases = [2, 3, 5, 17, 257, 65537]"

partial_function (option) strip_twos :: "bytes \<Rightarrow> nat \<Rightarrow> (bytes \<times> nat) option" where
  [code]: "strip_twos d s = (if rsa_is_even d then strip_twos (rsa_shift_right_one d) (s + 1) else Some (d, s))"

text \<open>The squarings of one base: whether \<open>n - 1\<close> appears in rounds \<open>r < s\<close>.\<close>

primrec square_loop :: "nat \<Rightarrow> bytes \<Rightarrow> bytes \<Rightarrow> bytes \<Rightarrow> bool" where
  "square_loop 0 n n_minus_one x = False"
| "square_loop (Suc r) n n_minus_one x =
    (let x = rsa_mul_mod x x n in if x = n_minus_one then True else square_loop r n n_minus_one x)"

fun witness_loop :: "u32 list \<Rightarrow> bytes \<Rightarrow> bytes \<Rightarrow> bytes \<Rightarrow> nat \<Rightarrow> bool" where
  "witness_loop [] n n_minus_one d s = True"
| "witness_loop (b # bs) n n_minus_one d s =
    (case rsa_modexp (rsa_set_u32 64 b) d n of
       None \<Rightarrow> False
     | Some x \<Rightarrow>
         if rsa_is_one x \<or> x = n_minus_one then witness_loop bs n n_minus_one d s
         else if square_loop (s - 1) n n_minus_one x then witness_loop bs n n_minus_one d s else False)"

definition rsa_probable_prime_512 :: "bytes \<Rightarrow> bool option" where
  "rsa_probable_prime_512 n =
    (if rsa_is_even n \<or> rsa_is_zero n \<or> rsa_is_one n then Some False
     else if list_ex (\<lambda>q. rsa_mod_u32 n (of_nat q) = 0) small_primes then Some False
     else let n_minus_one = rsa_sub_small n 1 in
       case strip_twos n_minus_one 0 of
         None \<Rightarrow> None
       | Some (d, s) \<Rightarrow> Some (witness_loop bases n n_minus_one d s))"

text \<open>The attempts: result code, the last candidate and the number of attempts reported.\<close>

function generate_prime_loop :: "bytes \<Rightarrow> bytes \<Rightarrow> nat \<Rightarrow> bytes \<Rightarrow> (int \<times> bytes \<times> nat) option" where
  "generate_prime_loop seed label attempt out =
    (if attempt < 8192
     then case rsa_make_prime_candidate seed label (of_nat attempt) of
            None \<Rightarrow> None
          | Some out \<Rightarrow>
              if rsa_mod_u32 out 65537 = 1 then generate_prime_loop seed label (attempt + 1) out
              else case rsa_probable_prime_512 out of
                     None \<Rightarrow> None
                   | Some True \<Rightarrow> Some (0, out, attempt + 1)
                   | Some False \<Rightarrow> generate_prime_loop seed label (attempt + 1) out
     else Some (-1, out, 0))"
  by pat_completeness auto
termination
  by (relation "measure (\<lambda>(_, _, attempt, _). 8192 - attempt)") auto

declare generate_prime_loop.simps [simp del]

definition rsa_generate_prime_512 :: "bytes \<Rightarrow> bytes \<Rightarrow> bytes \<Rightarrow> (int \<times> bytes \<times> nat) option" where
  "rsa_generate_prime_512 out seed label = generate_prime_loop seed label 0 out"

section \<open>The key\<close>

record rsa_generated_private_key =
  gen_n :: bytes
  gen_d :: bytes
  gen_p :: bytes
  gen_q :: bytes
  gen_dmp1 :: bytes
  gen_dmq1 :: bytes

definition generated_zero :: rsa_generated_private_key where
  "generated_zero = \<lparr>gen_n = replicate 128 0, gen_d = replicate 128 0, gen_p = replicate 64 0, gen_q = replicate 64 0,
    gen_dmp1 = replicate 64 0, gen_dmq1 = replicate 64 0\<rparr>"

text \<open>The four texts of the report buffer.\<close>

datatype rsa_report = P_generation_failed | Q_generation_failed | Exponent_derivation_failed | Generated nat nat

definition label_p :: bytes where "label_p = [112]"

definition label_q :: bytes where "label_q = [113]"

definition derive_exponents :: "rsa_generated_private_key \<Rightarrow> bytes \<Rightarrow> bytes \<Rightarrow> bytes \<Rightarrow> bool \<times> rsa_generated_private_key" where
  "derive_exponents key phi p_minus_one q_minus_one =
    (if gen_n key ! 0 AND 0x80 = 0 then (False, key)
     else case rsa_inverse_of_65537 phi of None \<Rightarrow> (False, key)
     | Some d \<Rightarrow> let key = key\<lparr>gen_d := d\<rparr> in
       (case rsa_inverse_of_65537 p_minus_one of None \<Rightarrow> (False, key)
        | Some dp \<Rightarrow> let key = key\<lparr>gen_dmp1 := dp\<rparr> in
          (case rsa_inverse_of_65537 q_minus_one of None \<Rightarrow> (False, key)
           | Some dq \<Rightarrow> (True, key\<lparr>gen_dmq1 := dq\<rparr>))))"

text \<open>The result code, the key as the call leaves it and the report; \<open>None\<close> if the call does not return.\<close>

definition rsa_generate_private_key_1024 ::
  "rsa_generated_private_key option \<Rightarrow> bytes option \<Rightarrow> bool \<Rightarrow>
    (int \<times> rsa_generated_private_key option \<times> rsa_report option) option" where
  "rsa_generate_private_key_1024 key seed report_ok =
    (let report = (\<lambda>r. if report_ok then Some r else None) in
     if key = None \<or> seed = None then Some (-1, key, None)
     else case rsa_generate_prime_512 (gen_p generated_zero) (the seed) label_p of None \<Rightarrow> None
     | Some (rc, p, p_attempts) \<Rightarrow>
         let key = generated_zero\<lparr>gen_p := p\<rparr> in
         if rc \<noteq> 0 then Some (-1, Some key, report P_generation_failed)
         else case rsa_generate_prime_512 (gen_q generated_zero) (the seed) label_q of None \<Rightarrow> None
         | Some (rc, q, q_attempts) \<Rightarrow>
             let key = key\<lparr>gen_q := q\<rparr> in
             if rc \<noteq> 0 \<or> p = q then Some (-1, Some key, report Q_generation_failed)
             else let p_minus_one = rsa_sub_small p 1; q_minus_one = rsa_sub_small q 1;
                      key = key\<lparr>gen_n := rsa_plain_mul 128 p q\<rparr>;
                      phi = rsa_plain_mul 128 p_minus_one q_minus_one
                  in case derive_exponents key phi p_minus_one q_minus_one of
                       (ok, key) \<Rightarrow> if ok then Some (0, Some key, report (Generated p_attempts q_attempts))
                                    else Some (-1, Some key, report Exponent_derivation_failed))"

section \<open>What the small operations compute\<close>

lemma rsa_is_zero_iff: "rsa_is_zero a \<longleftrightarrow> be_nat a = 0"
  unfolding rsa_is_zero_def by (induction a) (simp_all add: be_nat_Cons unsigned_eq_0_iff)

lemma last_byte: "0 < length a \<Longrightarrow> a = butlast a @ [a ! (length a - 1)]"
  by (metis append_butlast_last_id last_conv_nth length_greater_0_conv)

lemma rsa_is_one_iff: "rsa_is_one a \<longleftrightarrow> be_nat a = 1"
proof (cases "length a = 0")
  case False
  define b x where "b = butlast a" and "x = a ! (length a - 1)"
  have a: "a = b @ [x]" using last_byte [of a] False by (simp add: b_def x_def)
  have x: "unat x \<le> 255" using unat_byte_less [of x] by linarith
  have "x = 1 \<longleftrightarrow> unat x = 1" by (simp add: word_unat_eq_iff)
  moreover have "be_nat b * 256 + unat x = 1 \<longleftrightarrow> be_nat b = 0 \<and> unat x = 1" by (cases "be_nat b") auto
  ultimately show ?thesis
    using rsa_is_zero_iff [of b] unfolding rsa_is_zero_def a by (simp add: rsa_is_one_def be_nat_snoc)
qed (simp add: rsa_is_one_def)

lemma rsa_is_even_iff: "rsa_is_even a \<longleftrightarrow> even (be_nat a)"
proof (cases "length a = 0")
  case False
  define b x where "b = butlast a" and "x = a ! (length a - 1)"
  have a: "a = b @ [x]" using last_byte [of a] False by (simp add: b_def x_def)
  have "x AND 1 = 0 \<longleftrightarrow> even x" by (simp add: and_one_eq odd_iff_mod_2_eq_one even_iff_mod_2_eq_zero)
  also have "\<dots> \<longleftrightarrow> even (unat x)" using bit_unsigned_iff [where ?'a = nat, of x 0] by (simp add: bit_0)
  finally show ?thesis unfolding a by (simp add: rsa_is_even_def be_nat_snoc)
qed (simp add: rsa_is_even_def)

lemma sub_small_value:
  "borrow \<le> le_nat a \<Longrightarrow> length (sub_small_loop a borrow) = length a \<and> le_nat (sub_small_loop a borrow) = le_nat a - borrow"
proof (induction a borrow rule: sub_small_loop.induct)
  case (2 a as borrow)
  let ?bb = "borrow mod 256" and ?q = "borrow div 256"
  have b: "borrow = ?q * 256 + ?bb" by simp
  have bb: "?bb < 256" by simp
  have a: "unat a \<le> 255" using unat_byte_less [of a] by linarith
  have le: "borrow \<le> unat a + 256 * le_nat as" using 2(3) by (simp add: le_nat_Cons)
  consider "borrow = 0" | "0 < borrow" "unat a < ?bb" | "0 < borrow" "\<not> unat a < ?bb" by linarith
  then show ?case
  proof cases
    case 2
    define v where "v = unat a + 256 - ?bb"
    have q: "?q + 1 \<le> le_nat as" using le b 2(2) by linarith
    have "v < 256" using 2 by (simp add: v_def)
    then have "unat (of_nat v :: byte) = v" by (simp only: unat_of_nat_byte mod_less)
    moreover have "v + 256 * (le_nat as - (?q + 1)) = unat a + 256 * le_nat as - borrow" unfolding v_def using q b bb by linarith
    moreover have "sub_small_loop (a # as) borrow = of_nat v # sub_small_loop as (?q + 1)" using 2 by (simp add: v_def Let_def)
    ultimately show ?thesis using "2.IH"(1) [OF 2(1) refl refl refl 2(2) q] 2 by (simp add: le_nat_Cons del: sub_small_loop.simps)
  next
    case 3
    have v: "unat a - ?bb < 256" using a by linarith
    have q: "?q \<le> le_nat as" using le b 3(2) a by linarith
    have "unat (of_nat (unat a - ?bb) :: byte) = unat a - ?bb" using v by (simp only: unat_of_nat_byte mod_less)
    moreover have "unat a - ?bb + 256 * (le_nat as - ?q) = unat a + 256 * le_nat as - borrow" using q b bb 3(2) by linarith
    ultimately show ?thesis using "2.IH"(2) [OF 3(1) refl refl refl 3(2) q] 3 by (simp add: Let_def le_nat_Cons)
  qed simp
qed simp

lemma rsa_sub_small_value:
  "unat v \<le> be_nat a \<Longrightarrow> length (rsa_sub_small a v) = length a \<and> be_nat (rsa_sub_small a v) = be_nat a - unat v"
  using sub_small_value [of "unat v" "rev a"] by (simp add: rsa_sub_small_def le_nat_def)

lemma shift_loop_value:
  "carry \<le> 1 \<Longrightarrow> length (shift_loop carry a) = length a \<and>
    (\<exists>lost\<le>1. 2 * be_nat (shift_loop carry a) + lost = unat carry * 256 ^ length a + be_nat a)"
proof (induction a arbitrary: carry)
  case Nil
  then show ?case by (simp add: word_le_nat_alt)
next
  case (Cons x xs)
  let ?B = "256 ^ length xs :: nat"
  have c: "unat carry \<le> 1" using Cons.prems by (simp add: word_le_nat_alt)
  have x1: "unat (x AND 1) = unat x mod 2" by (simp add: and_one_eq unat_mod)
  then have le: "x AND 1 \<le> 1" by (simp add: word_le_nat_alt)
  have lt: "unat x div 2 < 2 ^ 7" using unat_byte_less [of x] by (simp add: div_less_iff_less_mult)
  have h: "unat (drop_bit 1 x OR push_bit 7 carry) = unat x div 2 + 128 * unat carry"
    using or_push_nat [OF lt, of "unat carry"] c
    by (simp only: unsigned_or_eq unsigned_push_bit_eq unsigned_drop_bit_eq) (simp add: drop_bit_eq_div take_bit_nat_eq_self push_bit_eq_mult mult.commute)
  obtain lost where l: "length (shift_loop (x AND 1) xs) = length xs" "lost \<le> 1"
    "2 * be_nat (shift_loop (x AND 1) xs) + lost = unat x mod 2 * ?B + be_nat xs" using Cons.IH [OF le] x1 by auto
  have "2 * be_nat (shift_loop carry (x # xs)) + lost = 2 * (unat x div 2 + 128 * unat carry) * ?B + (unat x mod 2 * ?B + be_nat xs)"
    using l(1) l(3) [symmetric] by (simp add: be_nat_Cons h [simplified] algebra_simps)
  also have "\<dots> = (2 * (unat x div 2) + unat x mod 2 + 256 * unat carry) * ?B + be_nat xs" by (simp only: algebra_simps)
  also have "\<dots> = unat carry * 256 ^ length (x # xs) + be_nat (x # xs)" by (simp add: be_nat_Cons algebra_simps)
  finally show ?case using l(1,2) by auto
qed

lemma rsa_shift_right_one_value:
  "length (rsa_shift_right_one a) = length a" "be_nat (rsa_shift_right_one a) = be_nat a div 2"
  using shift_loop_value [of 0 a] by (auto simp: rsa_shift_right_one_def)

lemma rsa_set_u32_value:
  assumes "4 \<le> len"
  shows "length (rsa_set_u32 len v) = len" "be_nat (rsa_set_u32 len v) = unat v"
proof -
  obtain n where n: "len = n + 4" using assms by (metis add.commute le_Suc_ex)
  have u: "[0..<min 4 len] = [0, 1, 2, 3]" using assms by (simp add: upt_rec)
  have r: "replicate len (0 :: byte) = replicate n 0 @ [0, 0, 0, 0]" unfolding n by (simp add: replicate_add) (simp add: numeral_eq_Suc)
  have e: "rsa_set_u32 len v = replicate n 0 @ [ucast (drop_bit 24 v), ucast (drop_bit 16 v), ucast (drop_bit 8 v), ucast v]"
    unfolding rsa_set_u32_def u r unfolding n by (simp add: list_update_append)
  have tv: "take_bit 32 (unat v) = unat v" using unsigned_take_bit_eq [of 32 v, where ?'a = nat] by (simp add: take_bit_word_eq_self)
  have b: "unat (ucast (drop_bit i v) :: byte) = unat v div 2 ^ i mod 256" for i
    by (simp only: unsigned_ucast_eq unsigned_drop_bit_eq) (simp add: drop_bit_eq_div take_bit_eq_mod [of 8] tv)
  define w1 w2 w3 where "w1 = unat v div 256" and "w2 = w1 div 256" and "w3 = w2 div 256"
  have w: "unat v div 2 ^ 8 = w1" "unat v div 2 ^ 16 = w2" "unat v div 2 ^ 24 = w3" by (simp_all add: w1_def w2_def w3_def div_mult2_eq [symmetric])
  have "unat v < 4294967296" using unsigned_less [of v, where ?'a = nat] by simp
  then have "w3 < 256" by (simp add: w(3) [symmetric] div_less_iff_less_mult)
  moreover have "w2 = w3 * 256 + w2 mod 256" "w1 = w2 * 256 + w1 mod 256" "unat v = w1 * 256 + unat v mod 256" by (simp_all add: w1_def w2_def w3_def)
  ultimately have "w3 mod 256 * 256 ^ 3 + w2 mod 256 * 256 ^ 2 + w1 mod 256 * 256 + unat v mod 256 = unat v" by simp
  then show "be_nat (rsa_set_u32 len v) = unat v" using b [of 24] b [of 16] b [of 8] b [of 0]
    unfolding e w by (simp add: be_nat_append be_nat_Cons)
  show "length (rsa_set_u32 len v) = len" unfolding e using n by simp
qed

lemma rsa_mod_u32_value:
  assumes "m \<noteq> 0"
  shows "unat (rsa_mod_u32 a m) = be_nat a mod unat m"
proof -
  have m: "0 < unat m" "unat m < 2 ^ 32" using assms unsigned_less [of m, where ?'a = nat] by (simp_all add: unat_gt_0)
  have step: "unat (ucast ((push_bit 8 (ucast r) OR ucast x :: u64) mod ucast m) :: u32) = (unat r * 256 + unat x) mod unat m" for r :: u32 and x :: byte
  proof -
    have r: "unat r < 2 ^ 32" using unsigned_less [of r, where ?'a = nat] by simp
    have "unat x < 2 ^ 8" by simp
    from or_push_nat [OF this, of "unat r"] have o: "push_bit 8 (unat r) OR unat x = unat r * 256 + unat x" by (simp add: or.commute)
    have tx: "take_bit 64 (unat x) = unat x" by (rule take_bit_nat_eq_self, rule less_trans [OF unat_byte_less]) simp
    have "unat (push_bit 8 (ucast r) OR ucast x :: u64) = unat r * 256 + unat x"
      using o r tx by (simp add: unsigned_or_eq unsigned_push_bit_eq unsigned_ucast_eq take_bit_push_bit take_bit_nat_eq_self)
    moreover have "(unat r * 256 + unat x) mod unat m < 2 ^ 32" using m mod_less_divisor less_trans by blast
    ultimately show ?thesis using m by (simp add: unsigned_ucast_eq unat_mod take_bit_nat_eq_self)
  qed
  have "unat (foldl (\<lambda>r x. ucast ((push_bit 8 (ucast r) OR ucast x :: u64) mod ucast m)) r a) = (unat r * 256 ^ length a + be_nat a) mod unat m"
    if "unat r < unat m" for r :: u32
    using that
  proof (induction a arbitrary: r)
    case (Cons x xs)
    have "((unat r * 256 + unat x) mod unat m * 256 ^ length xs + be_nat xs) mod unat m = ((unat r * 256 + unat x) * 256 ^ length xs + be_nat xs) mod unat m"
      by (metis mod_add_left_eq mod_mult_left_eq)
    moreover have "unat (ucast ((push_bit 8 (ucast r) OR ucast x :: u64) mod ucast m) :: u32) < unat m" unfolding step using m(1) by simp
    from Cons.IH [OF this] have "unat (foldl (\<lambda>r x. ucast ((push_bit 8 (ucast r) OR ucast x :: u64) mod ucast m)) r (x # xs))
      = ((unat r * 256 + unat x) mod unat m * 256 ^ length xs + be_nat xs) mod unat m" unfolding step foldl_Cons .
    ultimately show ?case by (simp add: be_nat_Cons algebra_simps)
  qed simp
  from this [of 0] show ?thesis using assms m by (simp add: rsa_mod_u32_def)
qed

section \<open>The primality test\<close>

text \<open>The condition a base gives evidence for: \<open>n - 1 = 2 ^ s * d\<close> with \<open>d\<close> odd, and \<open>b ^ d\<close> is 1 or a repeated square of it is \<open>n - 1\<close>.\<close>

definition strong_probable_prime :: "nat \<Rightarrow> nat \<Rightarrow> bool" where
  "strong_probable_prime n b \<longleftrightarrow>
    (\<forall>s d. n - 1 = 2 ^ s * d \<and> odd d \<longrightarrow> b ^ d mod n = 1 \<or> (\<exists>r. r < s \<and> b ^ (2 ^ r * d) mod n = n - 1))"

lemma twos_unique:
  assumes "2 ^ s * d = 2 ^ s' * d'" "odd d" "odd (d' :: nat)"
  shows "s = s' \<and> d = d'"
  using assms
proof (induction s arbitrary: s')
  case 0
  then show ?case by (cases s') auto
next
  case (Suc s)
  then show ?case by (cases s') (auto simp: mult.assoc)
qed

lemma strong_probable_prime_iff:
  assumes "n - 1 = 2 ^ s * d" "odd d"
  shows "strong_probable_prime n b \<longleftrightarrow> b ^ d mod n = 1 \<or> (\<exists>r. r < s \<and> b ^ (2 ^ r * d) mod n = n - 1)"
  unfolding strong_probable_prime_def using assms twos_unique by metis

lemma strip_twos_value:
  assumes "be_nat d \<noteq> 0"
  shows "\<exists>e t. strip_twos d s = Some (e, s + t) \<and> length e = length d \<and> odd (be_nat e) \<and> be_nat d = 2 ^ t * be_nat e"
  using assms
proof (induction "be_nat d" arbitrary: d s rule: less_induct)
  case less
  show ?case
  proof (cases "even (be_nat d)")
    case True
    let ?h = "rsa_shift_right_one d"
    have h: "be_nat ?h < be_nat d" "be_nat ?h \<noteq> 0" "be_nat d = 2 * be_nat ?h" using less.prems True by (auto simp: rsa_shift_right_one_value)
    obtain e t where "strip_twos ?h (s + 1) = Some (e, s + 1 + t)" "length e = length ?h" "odd (be_nat e)" "be_nat ?h = 2 ^ t * be_nat e"
      using less.hyps [OF h(1,2)] by blast
    with True h show ?thesis
      by (intro exI [of _ e] exI [of _ "t + 1"]) (simp add: strip_twos.simps [of d] rsa_is_even_iff rsa_shift_right_one_value(1))
  next
    case False
    then show ?thesis by (intro exI [of _ d] exI [of _ 0]) (simp add: strip_twos.simps [of d] rsa_is_even_iff)
  qed
qed

lemma square_loop_iff:
  assumes "residue n x v" "length m = length n"
  shows "square_loop j n m x \<longleftrightarrow> (\<exists>r. 1 \<le> r \<and> r \<le> j \<and> v ^ 2 ^ r mod be_nat n = be_nat m)"
  using assms(1)
proof (induction j arbitrary: x v)
  case (Suc j)
  let ?y = "rsa_mul_mod x x n"
  have y: "residue n ?y (v ^ 2)" using rsa_mul_mod_residue [OF Suc.prems Suc.prems] by (simp add: power2_eq_square)
  have eq: "?y = m \<longleftrightarrow> v ^ 2 mod be_nat n = be_nat m" using y assms(2) be_nat_inject [of ?y m] by (simp add: residue_def)
  have "(\<exists>r. 1 \<le> r \<and> r \<le> Suc j \<and> v ^ 2 ^ r mod be_nat n = be_nat m) \<longleftrightarrow>
    v ^ 2 mod be_nat n = be_nat m \<or> (\<exists>r. 1 \<le> r \<and> r \<le> j \<and> (v ^ 2) ^ 2 ^ r mod be_nat n = be_nat m)" (is "?l \<longleftrightarrow> ?a \<or> ?r")
  proof
    assume ?l
    then obtain r where r: "1 \<le> r" "r \<le> Suc j" "v ^ 2 ^ r mod be_nat n = be_nat m" by blast
    show "?a \<or> ?r"
    proof (cases "r = 1")
      case False
      then obtain r' where "r = Suc r'" "1 \<le> r'" using r(1) by (cases r) auto
      then show ?thesis using r by (intro disjI2 exI [of _ r']) (simp add: power_mult [symmetric])
    qed (use r in simp)
  next
    assume "?a \<or> ?r"
    then show ?l
    proof
      assume ?a
      then show ?l by (intro exI [of _ 1]) simp
    next
      assume ?r
      then obtain r where "1 \<le> r" "r \<le> j" "(v ^ 2) ^ 2 ^ r mod be_nat n = be_nat m" by blast
      then show ?l by (intro exI [of _ "Suc r"]) (simp add: power_mult [symmetric])
    qed
  qed
  then show ?case using Suc.IH [OF y] eq by (simp add: Let_def del: power_Suc)
qed auto

lemma witness_loop_iff:
  assumes "length n = 64" "1 < be_nat n" "length m = 64" "be_nat m = be_nat n - 1" "length d = 64" "odd (be_nat d)"
    "be_nat m = 2 ^ s * be_nat d" "s \<noteq> 0"
  shows "witness_loop bs n m d s \<longleftrightarrow> (\<forall>b\<in>set bs. strong_probable_prime (be_nat n) (unat b))"
proof (induction bs)
  case (Cons b bs)
  let ?N = "be_nat n" and ?v = "unat b ^ be_nat d"
  obtain x where x: "rsa_modexp (rsa_set_u32 64 b) d n = Some x" "length x = 64" "be_nat x = ?v mod ?N"
    using rsa_modexp_value [OF assms(2), of d "rsa_set_u32 64 b"] assms(1,5) rsa_set_u32_value [of 64 b] by (auto simp: RSA_MAX_BYTES_def)
  then have res: "residue n x ?v" using assms by (simp add: residue_def)
  have x_m: "x = m \<longleftrightarrow> ?v mod ?N = ?N - 1" using be_nat_inject [of x m] x assms by simp
  have p: "unat b ^ (2 ^ r * be_nat d) = ?v ^ 2 ^ r" for r by (simp add: power_mult [symmetric] mult.commute)
  have "(\<exists>r. r < s \<and> ?v ^ 2 ^ r mod ?N = ?N - 1) \<longleftrightarrow> ?v mod ?N = ?N - 1 \<or> (\<exists>r. 1 \<le> r \<and> r \<le> s - 1 \<and> ?v ^ 2 ^ r mod ?N = ?N - 1)" (is "?l \<longleftrightarrow> ?a \<or> ?r")
  proof
    assume ?l
    then obtain r where r: "r < s" "?v ^ 2 ^ r mod ?N = ?N - 1" by blast
    show "?a \<or> ?r"
    proof (cases "r = 0")
      case False
      then show ?thesis using r by (intro disjI2 exI [of _ r]) auto
    qed (use r in simp)
  next
    assume "?a \<or> ?r"
    then show ?l
    proof
      assume ?a
      then show ?l using assms(8) by (intro exI [of _ 0]) simp
    next
      assume ?r
      then obtain r where "1 \<le> r" "r \<le> s - 1" "?v ^ 2 ^ r mod ?N = ?N - 1" by blast
      then show ?l by (intro exI [of _ r]) auto
    qed
  qed
  then have "strong_probable_prime ?N (unat b) \<longleftrightarrow> rsa_is_one x \<or> x = m \<or> square_loop (s - 1) n m x"
    unfolding strong_probable_prime_iff [OF assms(7) [unfolded assms(4)] assms(6)] p square_loop_iff [OF res assms(3) [folded assms(1)]]
      rsa_is_one_iff x_m x(3) assms(4) by simp
  then show ?case using Cons.IH x(1) by auto
qed simp

lemma probable_prime_value:
  assumes "length n = 64"
  shows "rsa_probable_prime_512 n = Some (odd (be_nat n) \<and> be_nat n \<noteq> 1 \<and> (\<forall>q\<in>set small_primes. \<not> q dvd be_nat n) \<and>
    (\<forall>b\<in>set bases. strong_probable_prime (be_nat n) (unat b)))"
proof (cases "odd (be_nat n) \<and> be_nat n \<noteq> 1")
  case True
  then have n1: "1 < be_nat n" by (cases "be_nat n = 0") auto
  define m where "m = rsa_sub_small n 1"
  have m: "length m = 64" "be_nat m = be_nat n - 1" using rsa_sub_small_value [of 1 n] n1 assms by (simp_all add: m_def)
  then have "be_nat m \<noteq> 0" using n1 by simp
  then obtain d s where d: "strip_twos m 0 = Some (d, s)" "length d = 64" "odd (be_nat d)" "be_nat m = 2 ^ s * be_nat d"
    using strip_twos_value [of m 0] m(1) by auto
  have "even (be_nat m)" using True m n1 by simp
  then have "s \<noteq> 0" using d by (cases s) auto
  note w = witness_loop_iff [OF assms n1 m d(2-4) this]
  have small: "rsa_mod_u32 n (of_nat q) = 0 \<longleftrightarrow> q dvd be_nat n" if "q \<in> set small_primes" for q
  proof -
    have "\<forall>q\<in>set small_primes. 0 < q \<and> q < 2 ^ 32" by (simp add: small_primes_def)
    then have q: "unat (of_nat q :: u32) = q" "0 < q" using that by (auto simp: unsigned_of_nat take_bit_nat_eq_self)
    then have "of_nat q \<noteq> (0 :: u32)" by (metis less_irrefl unsigned_0)
    from rsa_mod_u32_value [OF this, of n] q show ?thesis by (simp add: dvd_eq_mod_eq_0 word_unat_eq_iff)
  qed
  have "list_ex (\<lambda>q. rsa_mod_u32 n (of_nat q) = 0) small_primes \<longleftrightarrow> (\<exists>q\<in>set small_primes. q dvd be_nat n)"
    unfolding list_ex_iff using small by auto
  then show ?thesis using True d(1) w by (simp add: rsa_probable_prime_512_def rsa_is_even_iff rsa_is_zero_iff rsa_is_one_iff m_def) auto
qed (auto simp: rsa_probable_prime_512_def rsa_is_even_iff rsa_is_zero_iff rsa_is_one_iff)

section \<open>The inverse of 65537\<close>

text \<open>
  The invariant of the extended Euclidean loop for the inverse of \<open>a\<close> modulo \<open>m\<close>: both coefficients represent their
  remainders, they alternate in sign, and the weighted sum of their absolute values stays \<open>m\<close>.
\<close>

definition inv_state :: "int \<Rightarrow> int \<Rightarrow> int \<Rightarrow> int \<Rightarrow> int \<Rightarrow> int \<Rightarrow> bool" where
  "inv_state a m t new_t r new_r \<longleftrightarrow>
    0 \<le> new_r \<and> new_r < r \<and> gcd r new_r = gcd m a \<and> m dvd t * a - r \<and> m dvd new_t * a - new_r \<and>
    t * new_t \<le> 0 \<and> \<bar>t\<bar> \<le> \<bar>new_t\<bar> \<and> \<bar>t\<bar> * new_r + \<bar>new_t\<bar> * r = m"

lemma inv_state_step:
  assumes "inv_state a m t new_t r new_r" "new_r \<noteq> 0"
  defines "q \<equiv> r div new_r"
  shows "inv_state a m new_t (t - q * new_t) new_r (r - q * new_r)"
proof -
  have s: "0 \<le> new_r" "new_r < r" "gcd r new_r = gcd m a" "m dvd t * a - r" "m dvd new_t * a - new_r"
    "t * new_t \<le> 0" "\<bar>t\<bar> \<le> \<bar>new_t\<bar>" "\<bar>t\<bar> * new_r + \<bar>new_t\<bar> * r = m"
    using assms(1) unfolding inv_state_def by simp_all
  have e: "r - q * new_r = r mod new_r" by (simp add: q_def minus_div_mult_eq_mod)
  have q: "1 \<le> q" using s(1,2) assms(2) by (simp add: q_def pos_imp_zdiv_pos_iff int_one_le_iff_zero_less)
  have signs: "t = 0 \<and> new_t = 0 \<or> t \<le> 0 \<and> 0 < new_t \<or> 0 \<le> t \<and> new_t < 0" using s(6,7) by (auto simp: mult_le_0_iff)
  have pos: "0 < q * x" if "0 < x" for x using q that by (intro mult_pos_pos) simp_all
  have "q * new_t < 0" if "new_t < 0" using pos [of "- new_t"] that by simp
  then have abs: "\<bar>t - q * new_t\<bar> = \<bar>t\<bar> + q * \<bar>new_t\<bar>" and sign: "new_t * (t - q * new_t) \<le> 0"
    using signs pos [of new_t] by (auto simp: mult_le_0_iff)
  have "m dvd (t * a - r) - q * (new_t * a - new_r)" using s(4,5) by (metis dvd_diff dvd_mult)
  then have d: "m dvd (t - q * new_t) * a - (r - q * new_r)" by (simp add: algebra_simps)
  have "\<bar>new_t\<bar> \<le> \<bar>t - q * new_t\<bar>" unfolding abs using mult_right_mono [OF q, of "\<bar>new_t\<bar>"] by simp
  moreover have "\<bar>new_t\<bar> * (r - q * new_r) + \<bar>t - q * new_t\<bar> * new_r = m" unfolding abs using s(8) by (simp add: algebra_simps)
  moreover have "gcd new_r (r mod new_r) = gcd m a" using s(3) by (metis gcd.commute gcd_red_int)
  ultimately show ?thesis unfolding inv_state_def using s(1,5) d e sign assms(2) by simp
qed

lemma inv_loop_value:
  assumes "inv_state a m t new_t r new_r"
  shows "case inv_loop t new_t r new_r of (t', g) \<Rightarrow> g = gcd m a \<and> m dvd t' * a - g \<and> \<bar>t'\<bar> \<le> m"
  using assms
proof (induction t new_t r new_r rule: inv_loop.induct)
  case (1 t new_t r new_r)
  show ?case
  proof (cases "new_r = 0")
    case True
    have s: "0 < r" "gcd r 0 = gcd m a" "m dvd t * a - r" "\<bar>t\<bar> \<le> \<bar>new_t\<bar>" "\<bar>new_t\<bar> * r = m"
      using 1(2) True unfolding inv_state_def by simp_all
    have "\<bar>new_t\<bar> * 1 \<le> \<bar>new_t\<bar> * r" using s(1) by (intro mult_left_mono) simp_all
    then show ?thesis using s True by (simp add: inv_loop.simps)
  next
    case False
    then show ?thesis using 1(1) [OF False refl inv_state_step [OF 1(2) False]] by (simp add: inv_loop.simps [of t] Let_def)
  qed
qed

lemma e65537_divisor: "d dvd (65537 :: nat) \<Longrightarrow> d = 1 \<or> d = 65537"
proof (rule ccontr)
  assume d: "d dvd 65537" "\<not> (d = 1 \<or> d = 65537)"
  then obtain c where c: "65537 = d * c" by (elim dvdE)
  have all: "list_all (\<lambda>x. 65537 mod x \<noteq> 0) [2..<257::nat]" by simp
  have no: "\<not> x dvd 65537" if "2 \<le> x" "x < 257" for x :: nat using all [unfolded list_all_iff] that by (simp only: dvd_eq_mod_eq_0 set_upt) (simp only: Ball_def atLeastLessThan_iff, blast)
  have "d \<noteq> 0" "c \<noteq> 0" "c \<noteq> 1" using c d(2) by (auto intro: ccontr)
  moreover have "c dvd 65537" using c by (metis dvd_triv_right)
  ultimately have "257 \<le> d" "257 \<le> c" using no [of d] no [of c] d by force+
  then have "257 * 257 \<le> d * c" by (rule mult_le_mono)
  then show False using c by simp
qed

lemma e65537_coprime: "a mod 65537 \<noteq> (0 :: nat) \<longleftrightarrow> coprime a 65537"
proof -
  have "a mod 65537 = 0 \<longleftrightarrow> gcd a 65537 = 65537" by (metis dvd_eq_mod_eq_0 gcd_dvd1 gcd_nat.absorb2)
  then show ?thesis using e65537_divisor [of "gcd a 65537"] by (auto simp: coprime_iff_gcd_eq_1)
qed

lemma rsa_inv_mod_u32_value:
  fixes a :: u32
  assumes "unat a < 65537" "a \<noteq> 0"
  shows "0 < unat (rsa_inv_mod_u32 a 65537) \<and> unat (rsa_inv_mod_u32 a 65537) < 65537 \<and>
    unat (rsa_inv_mod_u32 a 65537) * unat a mod 65537 = 1"
proof -
  define A where "A = unat a"
  have A: "0 < A" "A < 65537" "uint a = int A" using assms by (simp_all add: A_def unat_gt_0)
  have "unat (a mod 65537) = A" using assms(1) by (simp add: unat_mod A_def)
  then have am: "uint (a mod 65537) = int A" by (metis uint_nat)
  have "inv_state (int A) 65537 0 1 65537 (int A)" using A by (simp add: inv_state_def)
  moreover obtain t g where tg: "inv_loop 0 1 65537 (int A) = (t, g)" by fastforce
  ultimately have g: "g = gcd 65537 (int A)" "65537 dvd t * int A - g" "\<bar>t\<bar> \<le> 65537" using inv_loop_value by fastforce+
  have "coprime A 65537" using e65537_coprime [of A] A by simp
  then have "gcd 65537 A = 1" by (simp add: gcd.commute)
  then have "g = 1" using g(1) gcd_int_int_eq [of 65537 A] by simp
  define i where "i = (if t < 0 then t + 65537 else t)"
  have inv: "rsa_inv_mod_u32 a 65537 = of_int i" using tg \<open>g = 1\<close> am by (simp add: rsa_inv_mod_u32_def i_def)
  have "i * int A - 1 = 65537 * (if t < 0 then int A else 0) + (t * int A - 1)" by (simp add: i_def algebra_simps)
  then have "65537 dvd i * int A - 1" using g(2) \<open>g = 1\<close> by (simp only: dvd_add_right_iff dvd_triv_left)
  then have "i * int A mod 65537 = 1 mod 65537" by (simp only: mod_eq_dvd_iff)
  then have i: "i * int A mod 65537 = 1" by simp
  then have "i \<noteq> 0" "i \<noteq> 65537" "i \<noteq> - 65537" by auto
  then have bounds: "0 < i" "i < 65537" using g(3) by (auto simp: i_def split: if_splits)
  define j where "j = nat i"
  have j: "i = int j" "0 < j" "j < 65537" using bounds by (simp_all add: j_def)
  then have "unat (rsa_inv_mod_u32 a 65537) = j" unfolding inv by (simp add: unsigned_of_nat take_bit_nat_eq_self)
  moreover have "int (j * A mod 65537) = 1" using i unfolding j(1) by (simp add: zmod_int)
  then have "j * A mod 65537 = 1" by (simp only: of_nat_eq_1_iff)
  ultimately show ?thesis using j by (simp add: A_def)
qed

declare unat_u32_less [simp]

lemma unat_low_byte: "unat (ucast ((v :: u32) AND 0xff) :: byte) = unat v mod 256"
proof -
  have "v AND 0xff = take_bit 8 v" by (simp add: take_bit_eq_mask mask_eq_exp_minus_1)
  then show ?thesis by (simp add: unsigned_ucast_eq unat_mod take_bit_eq_mod)
qed

lemma unat_high_bytes: "unat (drop_bit 8 (v :: u32)) = unat v div 256"
  using unat_u32_less [of v] by (simp only: unsigned_drop_bit_eq) (simp add: drop_bit_eq_div take_bit_nat_eq_self)

lemma mul_small_value:
  assumes "unat mul \<le> 65536" "unat carry \<le> unat mul"
  shows "case mul_small_loop mul carry xs of (r, c) \<Rightarrow> length r = length xs \<and> unat c \<le> unat mul \<and>
    le_nat r + unat c * 256 ^ length xs = le_nat xs * unat mul + unat carry"
  using assms(2)
proof (induction xs arbitrary: carry)
  case (Cons x xs)
  define v where "v = ucast x * mul + carry"
  have "unat x * unat mul \<le> 255 * unat mul" using unat_byte_less [of x] by (intro mult_le_mono1) linarith
  then have le: "unat x * unat mul + unat carry \<le> 256 * unat mul" using Cons.prems by linarith
  have v: "unat v = unat x * unat mul + unat carry"
  proof -
    have "unat (ucast x * mul) = unat x * unat mul" using le assms(1) by (simp add: unat_word_ariths(2))
    then show ?thesis using le assms(1) unfolding v_def by (simp add: unat_word_ariths(1))
  qed
  note d = unat_high_bytes [of v] and lo = unat_low_byte [of v]
  have c: "unat (drop_bit 8 v) \<le> unat mul" using le unfolding d v by (simp add: div_le_mono [of _ "256 * unat mul" 256])
  obtain r c where r: "mul_small_loop mul (drop_bit 8 v) xs = (r, c)" by fastforce
  have IH: "length r = length xs" "unat c \<le> unat mul" "le_nat r + unat c * 256 ^ length xs = le_nat xs * unat mul + unat v div 256"
    using Cons.IH [OF c] r d by simp_all
  have e: "mul_small_loop mul carry (x # xs) = (ucast (v AND 0xff) # r, c)" using r by (simp add: v_def)
  have "unat v mod 256 + 256 * (le_nat r + unat c * 256 ^ length xs) = 256 * (le_nat xs * unat mul) + unat v"
    unfolding IH(3) using div_mult_mod_eq [of "unat v" 256] by (simp add: algebra_simps)
  then show ?case unfolding e using IH(1,2) lo v by (simp add: le_nat_Cons algebra_simps)
qed simp

lemma add_one_value:
  "le_nat xs + 1 < 256 ^ length xs \<Longrightarrow> length (add_one_loop xs) = length xs \<and> le_nat (add_one_loop xs) = le_nat xs + 1"
proof (induction xs)
  case (Cons x xs)
  show ?case
  proof (cases "x + 1 = 0")
    case True
    then have "x = - 1" by (simp add: eq_neg_iff_add_eq_0)
    then have "unat x = 255" by (simp add: unsigned_minus_1_eq_mask mask_eq_exp_minus_1)
    then show ?thesis using Cons True by (simp add: le_nat_Cons)
  next
    case False
    then have "unat (x + 1) = unat x + 1" using unatSuc [of x] by (simp add: add.commute)
    then show ?thesis using False by (simp add: le_nat_Cons)
  qed
qed simp

lemma div_small_value:
  assumes "0 < unat d" "unat d \<le> 65537" "unat r < unat d"
  shows "case div_small_loop d r xs of (q, r') \<Rightarrow> length q = length xs \<and> unat r' < unat d \<and>
    be_nat q * unat d + unat r' = unat r * 256 ^ length xs + be_nat xs"
  using assms(3)
proof (induction xs arbitrary: r)
  case (Cons x xs)
  define acc where "acc = (push_bit 8 r OR ucast x :: u32)"
  have r: "unat r \<le> 65536" using Cons.prems assms(2) by linarith
  have x: "unat x < 2 ^ 8" by simp
  have acc: "unat acc = unat r * 256 + unat x"
    using or_push_nat [OF x, of "unat r"] r unfolding acc_def
    by (simp only: unsigned_or_eq unsigned_push_bit_eq) (simp add: take_bit_push_bit take_bit_nat_eq_self or.commute)
  have lt: "unat (acc mod d) < unat d" using assms(1) by (simp add: unat_mod)
  have "unat r * 256 + unat x < 256 * unat d" using Cons.prems unat_byte_less [of x] by linarith
  then have "unat acc div unat d < 256" unfolding acc using assms(1) by (simp add: div_less_iff_less_mult)
  then have q: "unat (ucast (acc div d) :: byte) = unat acc div unat d" by (simp add: unsigned_ucast_eq unat_div take_bit_nat_eq_self)
  obtain qs r' where l: "div_small_loop d (acc mod d) xs = (qs, r')" by fastforce
  have IH: "length qs = length xs" "unat r' < unat d" "be_nat qs * unat d + unat r' = unat acc mod unat d * 256 ^ length xs + be_nat xs"
    using Cons.IH [OF lt] l by (simp_all add: unat_mod)
  have e: "div_small_loop d r (x # xs) = (ucast (acc div d) # qs, r')" using l by (simp add: acc_def)
  have "be_nat (ucast (acc div d) # qs) * unat d + unat r' = unat acc div unat d * unat d * 256 ^ length xs + (be_nat qs * unat d + unat r')"
    using IH(1) by (simp only: be_nat_Cons q) (simp add: algebra_simps)
  also have "\<dots> = (unat acc div unat d * unat d + unat acc mod unat d) * 256 ^ length xs + be_nat xs" unfolding IH(3) add_mult_distrib by simp
  also have "\<dots> = unat r * 256 ^ length (x # xs) + be_nat (x # xs)" unfolding div_mult_mod_eq acc by (simp add: be_nat_Cons algebra_simps)
  finally show ?case unfolding e using IH by simp
qed simp

lemma mul_add_div_value:
  assumes "0 < length m" "length m \<le> 256" "unat mul \<le> 65536" "65537 dvd be_nat m * unat mul + 1" "0 < be_nat m"
  shows "\<exists>q. rsa_mul_small_add_one_div_small m mul 65537 = Some q \<and> length q = length m \<and> 65537 * be_nat q = be_nat m * unat mul + 1"
proof -
  obtain low c where l: "mul_small_loop mul 0 (rev m) = (low, c)" by fastforce
  have v: "length low = length m" "unat c \<le> unat mul" "le_nat low + unat c * 256 ^ length m = be_nat m * unat mul"
    using mul_small_value [OF assms(3), of 0 "rev m"] l by simp_all
  have prod: "be_nat m * unat mul + 1 < 65536 * 256 ^ length m"
  proof -
    have "be_nat m * unat mul \<le> be_nat m * 65536" using assms(3) by simp
    moreover have "be_nat m + 1 \<le> 256 ^ length m" using be_nat_less [of m] by simp
    ultimately show ?thesis by linarith
  qed
  have c: "unat c < 65536"
  proof (rule ccontr)
    assume "\<not> unat c < 65536"
    then have "65536 * 256 ^ length m \<le> unat c * 256 ^ length m" by (intro mult_le_mono1) simp
    then show False using prod v(3) by linarith
  qed
  define hi lo :: byte where "hi = ucast (drop_bit 8 c AND 0xff)" and "lo = ucast (c AND 0xff)"
  have cc: "unat hi * 256 + unat lo = unat c"
    using c div_mult_mod_eq [of "unat c" 256] by (simp add: hi_def lo_def unat_low_byte unat_high_bytes div_less_iff_less_mult)
  define p where "p = hi # lo # rev low"
  have p: "length p = length m + 2" "be_nat p = be_nat m * unat mul"
    using v(1,3) unfolding cc [symmetric] by (simp_all add: p_def be_nat_Cons le_nat_def algebra_simps)
  define p1 where "p1 = rev (add_one_loop (rev p))"
  have p1: "length p1 = length m + 2" "be_nat p1 = be_nat m * unat mul + 1"
    using add_one_value [of "rev p"] p prod by (simp_all add: p1_def le_nat_def)
  obtain q r where q: "div_small_loop 65537 0 p1 = (q, r)" by fastforce
  have qv: "length q = length m + 2" "unat r < 65537" "be_nat q * 65537 + unat r = be_nat m * unat mul + 1"
    using div_small_value [of 65537 0 p1] q p1 by simp_all
  have "unat r = (be_nat q * 65537 + unat r) mod 65537" using qv(2) by simp
  also have "\<dots> = 0" using assms(4) unfolding qv(3) by simp
  finally have r: "r = 0" by (simp add: unsigned_eq_0_iff)
  obtain q0 q1 q' where qs: "q = q0 # q1 # q'" using qv(1) by (auto simp: length_Suc_conv)
  have "be_nat q * 65537 < 65537 * 256 ^ length m" using qv(3) prod by simp
  then have "be_nat q < 256 ^ length q'" using qv(1) qs by simp
  then have "unat q0 * (256 * 256 ^ length q') < 256 ^ length q'" "unat q1 * 256 ^ length q' < 256 ^ length q'"
    unfolding qs be_nat_Cons length_Cons power_Suc by linarith+
  then have "unat q0 = 0 \<and> unat q1 = 0" by (cases "unat q0"; cases "unat q1") simp_all
  then have "q0 = 0 \<and> q1 = 0" by (simp add: unsigned_eq_0_iff)
  then show ?thesis using assms(1,2) l q qv r
    unfolding qs p1_def p_def hi_def lo_def by (simp add: rsa_mul_small_add_one_div_small_def RSA_MAX_BYTES_def be_nat_Cons)
qed

lemma inverse_value:
  assumes "0 < length m" "length m \<le> 256"
  shows "be_nat m mod 65537 = 0 \<Longrightarrow> rsa_inverse_of_65537 m = None"
    "be_nat m mod 65537 \<noteq> 0 \<Longrightarrow> \<exists>d. rsa_inverse_of_65537 m = Some d \<and> length d = length m \<and> 65537 * be_nat d mod be_nat m = 1 mod be_nat m"
proof -
  have me: "unat (rsa_mod_u32 m 65537) = be_nat m mod 65537" using rsa_mod_u32_value [of 65537 m] by simp
  then show "be_nat m mod 65537 = 0 \<Longrightarrow> rsa_inverse_of_65537 m = None" 
    by (simp add: rsa_inverse_of_65537_def Let_def word_unat_eq_iff)
  assume nz: "be_nat m mod 65537 \<noteq> 0"
  define a i where "a = rsa_mod_u32 m 65537" and "i = rsa_inv_mod_u32 a 65537"
  have a: "unat a = be_nat m mod 65537" "a \<noteq> 0" using me nz by (auto simp: a_def)
  have i: "0 < unat i" "unat i < 65537" "unat i * unat a mod 65537 = 1" using rsa_inv_mod_u32_value [of a] a by (simp_all add: i_def)
  have k: "unat (65537 - i) = 65537 - unat i" using i(2) by (simp add: unat_sub word_le_nat_alt)
  have im: "unat i * be_nat m mod 65537 = 1" using i(3) unfolding a(1) mod_mult_right_eq .
  have "be_nat m * (65537 - unat i) + unat i * be_nat m = 65537 * be_nat m" using i(2) by (simp add: diff_mult_distrib2)
  then have "be_nat m * (65537 - unat i) + 1 + 65537 * (unat i * be_nat m div 65537) = 65537 * be_nat m"
    using mult_div_mod_eq [of 65537 "unat i * be_nat m"] unfolding im by linarith
  then have "65537 dvd be_nat m * unat (65537 - i) + 1" unfolding k by (metis dvd_add_left_iff dvd_triv_left)
  moreover have "0 < be_nat m" using nz by (cases "be_nat m") simp_all
  moreover have "unat (65537 - i) \<le> 65536" using k i by simp
  ultimately obtain d where d: "rsa_mul_small_add_one_div_small m (65537 - i) 65537 = Some d" "length d = length m"
    "65537 * be_nat d = be_nat m * unat (65537 - i) + 1" using mul_add_div_value [OF assms, of "65537 - i"] by blast
  have "rsa_inverse_of_65537 m = Some d"
    using d(1) a(2) i(1,2) assms by (auto simp: rsa_inverse_of_65537_def Let_def a_def i_def RSA_MAX_BYTES_def)
  then show "\<exists>d. rsa_inverse_of_65537 m = Some d \<and> length d = length m \<and> 65537 * be_nat d mod be_nat m = 1 mod be_nat m"
    using d(2,3) by (intro exI [of _ d]) (simp only: mod_mult_self4 simp_thms)
qed

section \<open>Candidates and keys\<close>

text \<open>The candidates by themselves: two hash blocks over the seed, the label and two counters, with the two top bits and the
  lowest bit set; which of them are taken; and the first attempt that yields one.\<close>

definition keygen_block :: "bytes \<Rightarrow> bytes \<Rightarrow> nat \<Rightarrow> u32 \<Rightarrow> bytes" where
  "keygen_block seed label i blk = fips256 (keygen_label @ take 32 seed @ label @ le32 (of_nat i) @ le32 blk)"

definition keygen_candidate :: "bytes \<Rightarrow> bytes \<Rightarrow> nat \<Rightarrow> bytes" where
  "keygen_candidate seed label i =
    (let out = keygen_block seed label i 0 @ keygen_block seed label i 1 in
     out[0 := hd out OR 0xc0, 63 := last out OR 1])"

definition keygen_prime :: "bytes \<Rightarrow> bool" where
  "keygen_prime p \<longleftrightarrow> be_nat p mod 65537 \<noteq> 1 \<and> odd (be_nat p) \<and> be_nat p \<noteq> 1 \<and> (\<forall>q\<in>set small_primes. \<not> q dvd be_nat p) \<and>
     (\<forall>b\<in>set bases. strong_probable_prime (be_nat p) (unat b))"

definition keygen_search :: "bytes \<Rightarrow> bytes \<Rightarrow> nat option" where
  "keygen_search seed label = find (\<lambda>i. keygen_prime (keygen_candidate seed label i)) [0..<8192]"

lemma seed_block_value: "seed_block seed label (of_nat i) blk = Some (keygen_block seed label i blk)"
proof -
  obtain c where c: "foldl (\<lambda>r p. r \<bind> (\<lambda>c. sha256_update c p)) (Some sha256_init)
      [keygen_label, take 32 seed, label, le32 (of_nat i), le32 blk] = Some c" and
    d: "fst (sha256_final c) = fips256 (concat [keygen_label, take 32 seed, label, le32 (of_nat i), le32 blk])"
    using sha256_stream_digest by blast
  have "seed_block seed label (of_nat i) blk = Some (fst (sha256_final c))"
    using c by (auto simp: seed_block_def bind_eq_Some_conv)
  then show ?thesis unfolding d by (simp add: keygen_block_def)
qed

lemma length_keygen_block [simp]: "length (keygen_block seed label i blk) = 32"
  by (simp add: keygen_block_def length_fips256)

lemma candidate_value:
  "rsa_make_prime_candidate seed label (of_nat i) = Some (keygen_candidate seed label i)"
  "length (keygen_candidate seed label i) = 64" "192 * 256 ^ 63 \<le> be_nat (keygen_candidate seed label i)"
proof -
  define out where "out = keygen_block seed label i 0 @ keygen_block seed label i 1"
  have len: "length out = 64" by (simp add: out_def)
  have "rsa_seed_expand seed label (of_nat i) 0 64 = Some out"
    by (simp add: rsa_seed_expand.simps [of seed label "of_nat i" 0 64] rsa_seed_expand.simps [of seed label "of_nat i" 1 32]
        rsa_seed_expand.simps [of seed label "of_nat i" _ 0] seed_block_value out_def)
  moreover have ends: "out ! 0 = hd out" "(out[0 := x]) ! 63 = last out" for x
    using len by (simp_all add: hd_conv_nth last_conv_nth flip: length_greater_0_conv)
  ultimately show "rsa_make_prime_candidate seed label (of_nat i) = Some (keygen_candidate seed label i)"
    by (simp add: rsa_make_prime_candidate_def keygen_candidate_def out_def [symmetric] Let_def)
  show "length (keygen_candidate seed label i) = 64" by (simp add: keygen_candidate_def out_def [symmetric] len)
  obtain x xs where x: "out = x # xs" "length xs = 63" using len by (cases out) auto
  have "unat (0xc0 :: byte) \<le> unat (x OR 0xc0)" using le_word_or1 [of "0xc0" x] by (simp only: word_le_nat_alt)
  moreover have "keygen_candidate seed label i = (x OR 0xc0) # xs[62 := last out OR 1]"
    by (simp add: keygen_candidate_def out_def [symmetric] x)
  ultimately show "192 * 256 ^ 63 \<le> be_nat (keygen_candidate seed label i)" using x(2) by (simp add: be_nat_Cons trans_le_add1)
qed

text \<open>What the search promises of a prime it returns.\<close>

definition accepted_prime :: "bytes \<Rightarrow> bool" where
  "accepted_prime p \<longleftrightarrow> length p = 64 \<and> 192 * 256 ^ 63 \<le> be_nat p \<and> be_nat p mod 65537 \<noteq> 1 \<and> rsa_probable_prime_512 p = Some True"

lemma accepted_candidate: "keygen_prime (keygen_candidate seed label i) \<Longrightarrow> accepted_prime (keygen_candidate seed label i)"
  using probable_prime_value [OF candidate_value(2)] candidate_value(2,3) by (simp add: accepted_prime_def keygen_prime_def)

text \<open>The loop finds the first candidate that is taken, and fails exactly when there is none.\<close>

lemma generate_prime_loop_value:
  "\<exists>c. generate_prime_loop seed label a out =
    Some (case find (\<lambda>i. keygen_prime (keygen_candidate seed label i)) [a..<8192] of
            None \<Rightarrow> (-1, c, 0) | Some i \<Rightarrow> (0, keygen_candidate seed label i, i + 1))"
proof (induction "8192 - a" arbitrary: a out)
  case 0
  then show ?case by (simp add: generate_prime_loop.simps [of seed label a])
next
  case (Suc m)
  then have a: "a < 8192" by simp
  let ?c = "keygen_candidate seed label a"
  have m: "rsa_mod_u32 ?c 65537 = 1 \<longleftrightarrow> be_nat ?c mod 65537 = 1" using rsa_mod_u32_value [of 65537 ?c] by (simp add: word_unat_eq_iff)
  note b = probable_prime_value [OF candidate_value(2), of seed label a]
  have "m = 8192 - (a + 1)" using Suc.hyps(2) by simp
  note IH = Suc.hyps(1) [OF this, of ?c]
  have u: "[a..<8192] = a # [a + 1..<8192]" using a by (simp add: upt_conv_Cons)
  have "generate_prime_loop seed label a out = (if keygen_prime ?c then Some (0, ?c, a + 1) else generate_prime_loop seed label (a + 1) ?c)"
    using a m b by (simp add: generate_prime_loop.simps [of seed label a] candidate_value(1) keygen_prime_def split: bool.splits)
  then show ?case using IH unfolding u by simp
qed

lemma generate_prime_value:
  obtains c where "rsa_generate_prime_512 out seed label =
    Some (case keygen_search seed label of None \<Rightarrow> (-1, c, 0) | Some i \<Rightarrow> (0, keygen_candidate seed label i, i + 1))"
  using generate_prime_loop_value [of seed label 0 out] by (auto simp: rsa_generate_prime_512_def keygen_search_def)

lemma keygen_search_accepted: "keygen_search seed label = Some i \<Longrightarrow> accepted_prime (keygen_candidate seed label i)"
  by (rule accepted_candidate) (auto simp: keygen_search_def find_Some_iff)

lemma accepted_minus_one:
  assumes "accepted_prime p"
  shows "length (rsa_sub_small p 1) = 64" "be_nat (rsa_sub_small p 1) = be_nat p - 1" "1 < be_nat p - 1" "(be_nat p - 1) mod 65537 \<noteq> 0"
proof -
  have a: "length p = 64" "192 * 256 ^ 63 \<le> be_nat p" "be_nat p mod 65537 \<noteq> 1" using assms unfolding accepted_prime_def by blast+
  have "192 * 1 \<le> (192 * 256 ^ 63 :: nat)" by (intro mult_le_mono) simp_all
  from le_trans [OF this a(2)] have p: "length p = 64" "192 \<le> be_nat p" "be_nat p mod 65537 \<noteq> 1" using a(1,3) by simp_all
  show "length (rsa_sub_small p 1) = 64" "be_nat (rsa_sub_small p 1) = be_nat p - 1" using rsa_sub_small_value [of 1 p] p by simp_all
  show "1 < be_nat p - 1" using p by simp
  show "(be_nat p - 1) mod 65537 \<noteq> 0"
  proof
    assume "(be_nat p - 1) mod 65537 = 0"
    then have "(be_nat p - 1 + 1) mod 65537 = 1" by (subst mod_add_left_eq [symmetric]) simp
    then show False using p by simp
  qed
qed

text \<open>The relations between the components of a generated key.\<close>

definition consistent_key :: "rsa_generated_private_key \<Rightarrow> bool" where
  "consistent_key key \<longleftrightarrow>
    (let p = be_nat (gen_p key); q = be_nat (gen_q key) in
     length (gen_n key) = 128 \<and> length (gen_d key) = 128 \<and> length (gen_dmp1 key) = 64 \<and> length (gen_dmq1 key) = 64 \<and>
     accepted_prime (gen_p key) \<and> accepted_prime (gen_q key) \<and> p \<noteq> q \<and>
     be_nat (gen_n key) = p * q \<and> 2 ^ 1023 \<le> be_nat (gen_n key) \<and>
     65537 * be_nat (gen_d key) mod ((p - 1) * (q - 1)) = 1 \<and>
     65537 * be_nat (gen_dmp1 key) mod (p - 1) = 1 \<and> 65537 * be_nat (gen_dmq1 key) mod (q - 1) = 1)"

lemma top_bit_set:
  assumes "length n = 128" "2 ^ 1023 \<le> be_nat n"
  shows "n ! 0 AND 0x80 \<noteq> 0"
proof
  obtain x xs where n: "n = x # xs" "length xs = 127" using assms(1) by (cases n) auto
  assume "n ! 0 AND 0x80 = 0"
  then have "x AND 0x80 = 0" using n by simp
  moreover have "bit (0x80 :: byte) 7" by simp
  ultimately have "\<not> bit x 7" by (metis bit_and_iff bit_0_eq bot_apply bot_bool_def)
  then have "take_bit 7 x = x" by (intro bit_word_eqI) (auto simp: bit_simps less_Suc_eq eval_nat_numeral)
  then have "unat x = take_bit 7 (unat x)" by (metis unsigned_take_bit_eq)
  then have "unat x < 128" using take_bit_nat_less_exp [of 7 "unat x"] by simp
  then have "unat x * 256 ^ 127 \<le> 127 * 256 ^ 127" by (intro mult_le_mono1) linarith
  moreover have "be_nat xs < 256 ^ 127" using be_nat_less [of xs] n(2) by simp
  moreover have "(2 :: nat) ^ 1023 = 128 * 256 ^ 127" by simp
  ultimately show False using assms(2) n by (simp add: be_nat_Cons)
qed

lemma exponents_value:
  assumes p: "accepted_prime p" and q: "accepted_prime q" and ne: "p \<noteq> q"
    and key: "gen_p key = p" "gen_q key = q" "gen_n key = rsa_plain_mul 128 p q"
  shows "\<exists>key'. derive_exponents key (rsa_plain_mul 128 (rsa_sub_small p 1) (rsa_sub_small q 1)) (rsa_sub_small p 1) (rsa_sub_small q 1)
    = (True, key') \<and> consistent_key key'"
proof -
  note P = accepted_minus_one [OF p] and Q = accepted_minus_one [OF q]
  have l: "length p = 64" "length q = 64" using p q by (simp_all add: accepted_prime_def)
  let ?phi = "rsa_plain_mul 128 (rsa_sub_small p 1) (rsa_sub_small q 1)"
  have n: "length (gen_n key) = 128" "be_nat (gen_n key) = be_nat p * be_nat q" using rsa_plain_mul_value [of 128 p q] l key by simp_all
  have phi: "length ?phi = 128" "be_nat ?phi = (be_nat p - 1) * (be_nat q - 1)"
    using rsa_plain_mul_value [of 128 "rsa_sub_small p 1" "rsa_sub_small q 1"] P Q by simp_all
  have big: "2 ^ 1023 \<le> be_nat (gen_n key)"
  proof -
    have "(2 :: nat) ^ 1023 \<le> (192 * 256 ^ 63) * (192 * 256 ^ 63)" by simp
    also have "\<dots> \<le> be_nat p * be_nat q" using p q unfolding accepted_prime_def by (intro mult_le_mono) blast+
    finally show ?thesis unfolding n .
  qed
  have "coprime ((be_nat p - 1) * (be_nat q - 1)) 65537" using P(4) Q(4) unfolding e65537_coprime by simp
  then have "be_nat ?phi mod 65537 \<noteq> 0" unfolding e65537_coprime phi .
  then obtain d where d: "rsa_inverse_of_65537 ?phi = Some d" "length d = 128" "65537 * be_nat d mod ((be_nat p - 1) * (be_nat q - 1)) = 1 mod ((be_nat p - 1) * (be_nat q - 1))"
    using inverse_value(2) [of ?phi] phi by auto
  obtain dp where dp: "rsa_inverse_of_65537 (rsa_sub_small p 1) = Some dp" "length dp = 64" "65537 * be_nat dp mod (be_nat p - 1) = 1 mod (be_nat p - 1)"
    using inverse_value(2) [of "rsa_sub_small p 1"] P by auto
  obtain dq where dq: "rsa_inverse_of_65537 (rsa_sub_small q 1) = Some dq" "length dq = 64" "65537 * be_nat dq mod (be_nat q - 1) = 1 mod (be_nat q - 1)"
    using inverse_value(2) [of "rsa_sub_small q 1"] Q by auto
  have one: "1 < (be_nat p - 1) * (be_nat q - 1)" using one_less_mult [of "be_nat q - 1" "be_nat p - 1"] P(3) Q(3) by simp
  have "derive_exponents key ?phi (rsa_sub_small p 1) (rsa_sub_small q 1) = (True, key\<lparr>gen_d := d, gen_dmp1 := dp, gen_dmq1 := dq\<rparr>)"
    using top_bit_set [OF n(1) big] d(1) dp(1) dq(1) by (simp add: derive_exponents_def Let_def)
  moreover have "be_nat p \<noteq> be_nat q" using ne l by (simp add: be_nat_inject)
  then have "consistent_key (key\<lparr>gen_d := d, gen_dmp1 := dp, gen_dmq1 := dq\<rparr>)"
    using n big d dp dq one p q key P(3) Q(3) by (simp only: consistent_key_def Let_def) simp
  ultimately show ?thesis by blast
qed

text \<open>C11: Key generation returns, and what it returns is determined by two searches over candidates that are defined here apart from the
  code: attempt \<open>i\<close> hashes seed, label and counters with FIPS 180-4 and sets three bits, and is taken when it is not 1 modulo 65537
  and passes the primality condition; a search yields the first such attempt among 8192. If both searches succeed with different numbers
  the result is 0, the report counts the attempts, the factors are these two candidates, and the key is consistent: \<open>n = p * q\<close> has exactly
  1024 bits and the private exponents invert 65537 modulo \<open>(p - 1) * (q - 1)\<close>, \<open>p - 1\<close> and \<open>q - 1\<close>. Otherwise the result is -1, and the
  report blames the first search exactly when it failed, and the second when it failed or found the same number. A failed derivation is
  never reported. Whether a given seed succeeds depends on the hash and is not claimed.\<close>

theorem rsa_keygen_correct:
  "\<exists>rc key' report. rsa_generate_private_key_1024 (Some key) (Some seed) True = Some (rc, Some key', Some report) \<and>
    (case (keygen_search seed label_p, keygen_search seed label_q) of
       (None, _) \<Rightarrow> rc = -1 \<and> report = P_generation_failed
     | (Some i, None) \<Rightarrow> rc = -1 \<and> report = Q_generation_failed
     | (Some i, Some j) \<Rightarrow>
         if keygen_candidate seed label_p i = keygen_candidate seed label_q j then rc = -1 \<and> report = Q_generation_failed
         else rc = 0 \<and> report = Generated (i + 1) (j + 1) \<and> consistent_key key' \<and>
           gen_p key' = keygen_candidate seed label_p i \<and> gen_q key' = keygen_candidate seed label_q j)"
proof -
  obtain c where p: "rsa_generate_prime_512 (gen_p generated_zero) seed label_p =
    Some (case keygen_search seed label_p of None \<Rightarrow> (-1, c, 0) | Some i \<Rightarrow> (0, keygen_candidate seed label_p i, i + 1))"
    by (rule generate_prime_value)
  obtain c' where q: "rsa_generate_prime_512 (gen_q generated_zero) seed label_q =
    Some (case keygen_search seed label_q of None \<Rightarrow> (-1, c', 0) | Some i \<Rightarrow> (0, keygen_candidate seed label_q i, i + 1))"
    by (rule generate_prime_value)
  show ?thesis
  proof (cases "keygen_search seed label_p")
    case None
    then show ?thesis using p by (simp add: rsa_generate_private_key_1024_def Let_def)
  next
    case i: (Some i)
    show ?thesis
    proof (cases "keygen_search seed label_q")
      case None
      then show ?thesis using i p q by (simp add: rsa_generate_private_key_1024_def Let_def)
    next
      case j: (Some j)
      let ?p = "keygen_candidate seed label_p i" and ?q = "keygen_candidate seed label_q j"
      show ?thesis
      proof (cases "?p = ?q")
        case True
        then show ?thesis using i j p q by (simp add: rsa_generate_private_key_1024_def Let_def)
      next
        case False
        let ?key = "generated_zero\<lparr>gen_p := ?p, gen_q := ?q, gen_n := rsa_plain_mul 128 ?p ?q\<rparr>"
        from exponents_value [OF keygen_search_accepted [OF i] keygen_search_accepted [OF j] False, of ?key]
        obtain key' where k: "derive_exponents ?key (rsa_plain_mul 128 (rsa_sub_small ?p 1) (rsa_sub_small ?q 1))
            (rsa_sub_small ?p 1) (rsa_sub_small ?q 1) = (True, key')" "consistent_key key'" by auto
        have "gen_p key' = ?p" "gen_q key' = ?q"
          using k(1) by (auto simp: derive_exponents_def Let_def split: if_splits option.splits)
        then show ?thesis using i j p q k False by (simp add: rsa_generate_private_key_1024_def Let_def)
      qed
    qed
  qed
qed

lemma power_63:
  fixes b m :: nat
  defines "s \<equiv> \<lambda>x. x * x * b mod m"
  shows "b ^ 63 mod m = s (s (s (s (s (b mod m)))))"
proof -
  have step: "b ^ (2 * j + 1) mod m = s (b ^ j mod m)" for j
    unfolding s_def by (metis mod_mult_eq mod_mult_left_eq mult_2 power_add power_one_right)
  show ?thesis using step [of 1] step [of 3] step [of 7] step [of 15] step [of 31] by simp
qed

lemma prime_1009:
  assumes "b \<in> set bases"
  shows "strong_probable_prime 1009 (unat b)"
proof -
  have e: "(1009 :: nat) - 1 = 2 ^ 4 * 63" "odd (63 :: nat)" by simp_all
  have p: "c ^ (2 ^ i * 63) mod 1009 = (c ^ 63 mod 1009) ^ 2 ^ i mod 1009" for c i :: nat
    by (metis mult.commute power_mod power_mult)
  have "b = 2 \<or> b = 3 \<or> b = 5 \<or> b = 17 \<or> b = 257 \<or> b = 65537" using assms by (simp add: bases_def)
  then have "unat b ^ 63 mod 1009 = 192 \<or> unat b ^ 63 mod 1009 = 830 \<or> unat b ^ 63 mod 1009 = 204" unfolding power_63 by (elim disjE) simp_all
  then have "\<exists>i. i < 4 \<and> (unat b ^ 63 mod 1009) ^ 2 ^ i mod 1009 = 1009 - 1"
    by (elim disjE) (rule exI [of _ 2], simp, rule exI [of _ 3], simp, rule exI [of _ 3], simp)
  then show ?thesis unfolding strong_probable_prime_iff [OF e] p by blast
qed

text \<open>C12: The primality test decides the strong-probable-prime condition. For a 512-bit number it returns, and it answers yes exactly when
  the number is odd, is not 1, is divisible by none of the odd primes of the table, 3 to 997, and is a strong probable prime to each of the
  bases 2, 3, 5, 17, 257 and 65537.\<close>

theorem rsa_probable_prime_iff:
  assumes "length n = 64"
  shows "rsa_probable_prime_512 n = Some (odd (be_nat n) \<and> be_nat n \<noteq> 1 \<and> (\<forall>q\<in>set small_primes. \<not> q dvd be_nat n) \<and>
    (\<forall>b\<in>set bases. strong_probable_prime (be_nat n) (unat b)))"
  by (rule probable_prime_value [OF assms])

theorem rsa_probable_prime_iff_witness:
  "length (replicate 62 0 @ [3, 241] :: bytes) = 64 \<and> rsa_probable_prime_512 (replicate 62 0 @ [3, 241]) = Some True \<and>
   length (replicate 63 0 @ [9] :: bytes) = 64 \<and> rsa_probable_prime_512 (replicate 63 0 @ [9]) = Some False"
proof -
  have n: "be_nat (replicate 62 0 @ [3, 241]) = 1009" "be_nat (replicate 63 0 @ [9]) = 9" by (simp_all add: be_nat_append be_nat_Cons)
  have "\<forall>q\<in>set small_primes. \<not> q dvd 1009" by (simp add: small_primes_def)
  moreover have "3 \<in> set small_primes" by (simp add: small_primes_def)
  moreover have "3 dvd (9 :: nat)" by simp
  ultimately show ?thesis
    using rsa_probable_prime_iff [of "replicate 62 0 @ [3, 241]"] rsa_probable_prime_iff [of "replicate 63 0 @ [9]"] prime_1009
    unfolding n by fastforce
qed

end
