(* ===== verification/NetPacket.thy ===== *)
theory NetPacket
  imports Prelude "HOL-Library.Monad_Syntax"
begin

text \<open>
  The packet layer of \<^verbatim>\<open>kernel/drivers/netstack.c\<close>: byte order, the Internet checksum, IPv4, UDP, ARP and TCP
  segments. The link layer (the Ethernet and Wi-Fi drivers) and the timer are a record of functions on an arbitrary device state.

  A parser runs in the option monad: \<open>None\<close> is a read outside the buffer, \<open>Some None\<close> the error return -1, and
  \<open>Some (Some x)\<close> success with the values stored through the pointer arguments; a pointer into the packet is an offset.
  The buffers that a send starts by clearing (\<^verbatim>\<open>packet_buf\<close>, \<^verbatim>\<open>transport_buf\<close>, \<^verbatim>\<open>checksum_buf\<close>) are values of that send;
  \<^verbatim>\<open>frame_buf\<close>, which keeps bytes of earlier frames, is part of the state.
\<close>

section \<open>State and environment\<close>

definition ETH_TYPE_ARP :: u16 where "ETH_TYPE_ARP = 0x0806"
definition ETH_TYPE_IPV4 :: u16 where "ETH_TYPE_IPV4 = 0x0800"
definition IP_PROTO_TCP :: byte where "IP_PROTO_TCP = 6"
definition IP_PROTO_UDP :: byte where "IP_PROTO_UDP = 17"
definition TCP_FIN :: byte where "TCP_FIN = 0x01"
definition TCP_SYN :: byte where "TCP_SYN = 0x02"
definition TCP_RST :: byte where "TCP_RST = 0x04"
definition TCP_PSH :: byte where "TCP_PSH = 0x08"
definition TCP_ACK :: byte where "TCP_ACK = 0x10"
definition NETSTACK_MTU :: nat where "NETSTACK_MTU = 1500"
definition TCP_WINDOW :: u16 where "TCP_WINDOW = 8192"

text \<open>What the drivers, the timer and the logs offer. \<open>log_line\<close> is the line that \<^verbatim>\<open>set_status\<close> and \<^verbatim>\<open>network_log_line\<close>
  hand to the kernel log and to the log file; \<open>config_file\<close> is the text of the configuration file. A receive returns the result code, the sender's address, the type and the bytes stored in the buffer.\<close>

record 'l link =
  net_link_up :: "'l \<Rightarrow> bool"
  net_mac :: "'l \<Rightarrow> bytes"
  net_send_ethernet :: "'l \<Rightarrow> bytes \<Rightarrow> u16 \<Rightarrow> bytes \<Rightarrow> int \<times> 'l"
  net_recv_ethernet :: "'l \<Rightarrow> nat \<Rightarrow> (int \<times> bytes \<times> u16 \<times> bytes) \<times> 'l"
  wifi_data_link_ready :: "'l \<Rightarrow> bool"
  wifi_copy_local_mac :: "'l \<Rightarrow> bytes option"
  wifi_send_ethernet :: "'l \<Rightarrow> bytes \<Rightarrow> u16 \<Rightarrow> bytes \<Rightarrow> int \<times> 'l"
  wifi_recv_ethernet :: "'l \<Rightarrow> nat \<Rightarrow> (int \<times> bytes \<times> u16 \<times> bytes) \<times> 'l"
  timer_ticks :: "'l \<Rightarrow> u64"
  short_wait :: "'l \<Rightarrow> 'l"
  log_line :: "'l \<Rightarrow> string \<Rightarrow> 'l"
  config_file :: "'l \<Rightarrow> string option"

record netstack_status_t =
  ipv4_ready :: bool
  static_config_loaded :: bool
  st_ip :: u32
  st_subnet :: u32
  st_gateway :: u32
  st_dns :: u32
  last_resolved_ip :: u32
  last_host :: string
  st_status :: string

record 'l net =
  stack_status :: netstack_status_t
  ip_ident :: u16
  dns_ident :: u16
  tcp_next_port :: u16
  icmp_ident :: u16
  arp_cached_ip :: u32
  arp_cached_mac :: bytes
  frame_buf :: bytes
  net_deadline_last_tick :: u64
  net_deadline_fallback_budget :: u64
  net_deadline_fallback_used :: u64
  link_dev :: 'l

definition set_status :: "'l link \<Rightarrow> string \<Rightarrow> 'l net \<Rightarrow> 'l net" where
  "set_status l status s = s\<lparr>stack_status := (stack_status s)\<lparr>st_status := take 159 status\<rparr>, link_dev := log_line l (link_dev s) status\<rparr>"

definition network_log :: "'l link \<Rightarrow> string \<Rightarrow> 'l net \<Rightarrow> 'l net" where
  "network_log l line s = s\<lparr>link_dev := log_line l (link_dev s) line\<rparr>"

definition l2_link_up :: "'l link \<Rightarrow> 'l net \<Rightarrow> bool" where
  "l2_link_up l s \<longleftrightarrow> net_link_up l (link_dev s) \<or> wifi_data_link_ready l (link_dev s)"

definition mac_broadcast :: bytes where
  "mac_broadcast = replicate 6 0xff"

definition l2_get_mac :: "'l link \<Rightarrow> 'l net \<Rightarrow> bytes option" where
  "l2_get_mac l s = (if net_link_up l (link_dev s) then Some (net_mac l (link_dev s)) else wifi_copy_local_mac l (link_dev s))"

definition l2_send_ethernet :: "'l link \<Rightarrow> 'l net \<Rightarrow> bytes \<Rightarrow> u16 \<Rightarrow> bytes \<Rightarrow> int \<times> 'l net" where
  "l2_send_ethernet l s dst_mac ether_type payload =
    (if net_link_up l (link_dev s)
     then case net_send_ethernet l (link_dev s) dst_mac ether_type payload of (rc, d) \<Rightarrow> (rc, s\<lparr>link_dev := d\<rparr>)
     else if wifi_data_link_ready l (link_dev s)
     then case wifi_send_ethernet l (link_dev s) dst_mac ether_type payload of (rc, d) \<Rightarrow> (rc, s\<lparr>link_dev := d\<rparr>)
     else (-1, s))"

definition l2_recv_ethernet :: "'l link \<Rightarrow> 'l net \<Rightarrow> nat \<Rightarrow> (int \<times> bytes \<times> u16 \<times> bytes) \<times> 'l net" where
  "l2_recv_ethernet l s cap =
    (if net_link_up l (link_dev s)
     then case net_recv_ethernet l (link_dev s) cap of (r, d) \<Rightarrow> (r, s\<lparr>link_dev := d\<rparr>)
     else if wifi_data_link_ready l (link_dev s)
     then case wifi_recv_ethernet l (link_dev s) cap of (r, d) \<Rightarrow> (r, s\<lparr>link_dev := d\<rparr>)
     else ((-1, [], 0, []), s))"

text \<open>\<^verbatim>\<open>recv_frame\<close> into \<^verbatim>\<open>frame_buf\<close>: result code, sender and type.\<close>

definition recv_frame :: "'l link \<Rightarrow> 'l net \<Rightarrow> int \<times> bytes \<times> u16 \<times> 'l net" where
  "recv_frame l s =
    (case l2_recv_ethernet l s NETSTACK_MTU of
       ((n, src_mac, eth_type, payload), s) \<Rightarrow> (n, src_mac, eth_type, s\<lparr>frame_buf := blit 0 payload (frame_buf s)\<rparr>))"

section \<open>Byte order\<close>

definition rd :: "bytes \<Rightarrow> nat \<Rightarrow> byte option" where
  "rd p i = (if i < length p then Some (p ! i) else None)"

definition get_be16 :: "bytes \<Rightarrow> nat \<Rightarrow> u16 option" where
  "get_be16 p i = do { a \<leftarrow> rd p i; b \<leftarrow> rd p (i + 1); Some (push_bit 8 (ucast a) OR ucast b) }"

definition get_be32 :: "bytes \<Rightarrow> nat \<Rightarrow> u32 option" where
  "get_be32 p i = do {
     a \<leftarrow> rd p i; b \<leftarrow> rd p (i + 1); c \<leftarrow> rd p (i + 2); d \<leftarrow> rd p (i + 3);
     Some (push_bit 24 (ucast a) OR push_bit 16 (ucast b) OR push_bit 8 (ucast c) OR ucast d) }"

definition put_be16 :: "bytes \<Rightarrow> nat \<Rightarrow> u16 \<Rightarrow> bytes" where
  "put_be16 p i v = p[i := ucast (drop_bit 8 v), i + 1 := ucast (v AND 0xff)]"

definition put_be32 :: "bytes \<Rightarrow> nat \<Rightarrow> u32 \<Rightarrow> bytes" where
  "put_be32 p i v =
    p[i := ucast (drop_bit 24 v), i + 1 := ucast (drop_bit 16 v AND 0xff), i + 2 := ucast (drop_bit 8 v AND 0xff), i + 3 := ucast (v AND 0xff)]"

section \<open>The Internet checksum\<close>

fun sum16 :: "u32 \<Rightarrow> bytes \<Rightarrow> u32" where
  "sum16 acc (a # b # p) = sum16 (acc + ucast (push_bit 8 (ucast a) OR ucast b :: u16)) p"
| "sum16 acc [a] = acc + push_bit 8 (ucast a)"
| "sum16 acc [] = acc"

function fold_carry :: "u32 \<Rightarrow> u32" where
  "fold_carry acc = (if drop_bit 16 acc \<noteq> 0 then fold_carry ((acc AND 0xffff) + drop_bit 16 acc) else acc)"
  by pat_completeness auto

text \<open>The checksum of a buffer, the bytes from the pointer up to the length.\<close>

lemma fold_carry_sum:
  fixes acc :: u32
  shows "unat ((acc AND 0xffff) + drop_bit 16 acc) = unat acc mod 65536 + unat acc div 65536"
proof -
  have lt: "unat acc < 4294967296" using unsigned_less [of acc, where ?'a = nat] by simp
  have m: "unat (acc AND 0xffff) = unat acc mod 65536"
  proof -
    have "acc AND 0xffff = take_bit 16 acc" by (simp add: take_bit_eq_mask mask_eq_exp_minus_1)
    then show ?thesis by (simp add: unat_mod take_bit_eq_mod)
  qed
  have d: "unat (drop_bit 16 acc) = unat acc div 65536"
    using lt by (simp only: unsigned_drop_bit_eq) (simp add: drop_bit_eq_div take_bit_nat_eq_self)
  have "unat acc div 65536 < 65536" using lt by (simp add: div_less_iff_less_mult)
  moreover have "unat acc mod 65536 < 65536" by simp
  ultimately have "unat acc mod 65536 + unat acc div 65536 < 4294967296" by linarith
  then show ?thesis by (simp add: unat_word_ariths(1) m d)
qed

termination fold_carry
proof (relation "measure unat")
  fix acc :: u32 assume "drop_bit 16 acc \<noteq> 0"
  then have "unat (drop_bit 16 acc) \<noteq> 0" by (simp add: unsigned_eq_0_iff)
  moreover have "unat acc < 4294967296" using unsigned_less [of acc, where ?'a = nat] by simp
  ultimately have "0 < unat acc div 65536" by (simp only: unsigned_drop_bit_eq) (simp add: drop_bit_eq_div take_bit_nat_eq_self)
  moreover have "unat acc = unat acc div 65536 * 65536 + unat acc mod 65536" by simp
  ultimately have "unat acc mod 65536 + unat acc div 65536 < unat acc" by linarith
  then show "((acc AND 0xffff) + drop_bit 16 acc, acc) \<in> measure unat" by (simp add: fold_carry_sum)
qed simp

declare fold_carry.simps [simp del]

definition checksum16 :: "bytes \<Rightarrow> u16" where
  "checksum16 data = ucast (NOT (fold_carry (sum16 0 data)))"

section \<open>IPv4\<close>

definition same_subnet :: "'l net \<Rightarrow> u32 \<Rightarrow> u32 \<Rightarrow> bool" where
  "same_subnet s a b \<longleftrightarrow>
    (if st_subnet (stack_status s) = 0 then False else a AND st_subnet (stack_status s) = b AND st_subnet (stack_status s))"

text \<open>The contents of \<^verbatim>\<open>packet_buf\<close> for a payload that fits.\<close>

definition ipv4_packet :: "u16 \<Rightarrow> u32 \<Rightarrow> u32 \<Rightarrow> byte \<Rightarrow> bytes \<Rightarrow> bytes" where
  "ipv4_packet ident src_ip dst_ip proto payload =
    (let b = replicate NETSTACK_MTU 0;
         b = b[0 := 0x45, 1 := 0];
         b = put_be16 b 2 (of_nat (20 + length payload));
         b = put_be16 b 4 ident;
         b = put_be16 b 6 0x4000;
         b = b[8 := 64, 9 := proto];
         b = put_be32 b 12 src_ip;
         b = put_be32 b 16 dst_ip;
         b = (if length payload > 0 then blit 20 payload b else b)
     in put_be16 b 10 (checksum16 (take 20 b)))"

definition send_ipv4_raw :: "'l link \<Rightarrow> 'l net \<Rightarrow> bytes \<Rightarrow> u32 \<Rightarrow> u32 \<Rightarrow> byte \<Rightarrow> bytes \<Rightarrow> int \<times> 'l net" where
  "send_ipv4_raw l s dst_mac src_ip dst_ip proto payload =
    (if length payload + 20 > NETSTACK_MTU then (-1, s)
     else l2_send_ethernet l (s\<lparr>ip_ident := ip_ident s + 1\<rparr>) dst_mac ETH_TYPE_IPV4
            (take (20 + length payload) (ipv4_packet (ip_ident s) src_ip dst_ip proto payload)))"

text \<open>Source, destination, protocol, payload offset and length.\<close>

definition parse_ipv4_basic :: "bytes \<Rightarrow> nat \<Rightarrow> (u32 \<times> u32 \<times> byte \<times> nat \<times> nat) option option" where
  "parse_ipv4_basic packet len =
    (if len < 20 then Some None
     else do {
       b0 \<leftarrow> rd packet 0;
       if drop_bit 4 b0 \<noteq> 4 then Some None
       else do {
         let ihl = unat (b0 AND 0x0f) * 4;
         total \<leftarrow> get_be16 packet 2;
         let total_len = unat total;
         if ihl < 20 \<or> total_len > len \<or> total_len < ihl then Some None
         else if ihl > length packet then None
         else if checksum16 (take ihl packet) \<noteq> 0 then Some None
         else do {
           src_ip \<leftarrow> get_be32 packet 12;
           dst_ip \<leftarrow> get_be32 packet 16;
           proto \<leftarrow> rd packet 9;
           Some (Some (src_ip, dst_ip, proto, ihl, total_len - ihl)) } } })"

section \<open>UDP\<close>

definition udp_datagram :: "u16 \<Rightarrow> u16 \<Rightarrow> bytes \<Rightarrow> bytes" where
  "udp_datagram src_port dst_port payload =
    (let b = replicate NETSTACK_MTU 0;
         b = put_be16 b 0 src_port;
         b = put_be16 b 2 dst_port;
         b = put_be16 b 4 (of_nat (length payload + 8));
         b = put_be16 b 6 0
     in if length payload > 0 then blit 8 payload b else b)"

definition send_udp_raw :: "'l link \<Rightarrow> 'l net \<Rightarrow> bytes \<Rightarrow> u32 \<Rightarrow> u32 \<Rightarrow> u16 \<Rightarrow> u16 \<Rightarrow> bytes \<Rightarrow> int \<times> 'l net" where
  "send_udp_raw l s dst_mac src_ip dst_ip src_port dst_port payload =
    (if length payload + 8 > NETSTACK_MTU - 20 then (-1, s)
     else send_ipv4_raw l s dst_mac src_ip dst_ip IP_PROTO_UDP (take (length payload + 8) (udp_datagram src_port dst_port payload)))"

text \<open>Source, destination, the two ports, payload offset and length.\<close>

definition parse_ipv4_udp :: "bytes \<Rightarrow> nat \<Rightarrow> (u32 \<times> u32 \<times> u16 \<times> u16 \<times> nat \<times> nat) option option" where
  "parse_ipv4_udp packet len =
    (if len < 28 then Some None
     else do {
       b0 \<leftarrow> rd packet 0;
       if drop_bit 4 b0 \<noteq> 4 then Some None
       else do {
         let ihl = unat (b0 AND 0x0f) * 4;
         if ihl < 20 \<or> len < ihl + 8 then Some None
         else do {
           proto \<leftarrow> rd packet 9;
           if proto \<noteq> IP_PROTO_UDP then Some None
           else do {
             total \<leftarrow> get_be16 packet 2;
             let total_len = unat total;
             if total_len > len \<or> total_len < ihl + 8 then Some None
             else do {
               ul \<leftarrow> get_be16 packet (ihl + 4);
               let udp_len = unat ul;
               if udp_len < 8 \<or> ihl + udp_len > total_len then Some None
               else do {
                 src_ip \<leftarrow> get_be32 packet 12;
                 dst_ip \<leftarrow> get_be32 packet 16;
                 src_port \<leftarrow> get_be16 packet (ihl + 0);
                 dst_port \<leftarrow> get_be16 packet (ihl + 2);
                 Some (Some (src_ip, dst_ip, src_port, dst_port, ihl + 8, udp_len - 8)) } } } } } })"

section \<open>ARP\<close>

definition arp_packet :: "u16 \<Rightarrow> bytes \<Rightarrow> u32 \<Rightarrow> bytes \<Rightarrow> u32 \<Rightarrow> bytes" where
  "arp_packet op local_mac local_ip target_mac target_ip =
    (let arp = replicate 28 0;
         arp = put_be16 arp 0 1;
         arp = put_be16 arp 2 ETH_TYPE_IPV4;
         arp = arp[4 := 6, 5 := 4];
         arp = put_be16 arp 6 op;
         arp = blit 8 (take 6 local_mac) arp;
         arp = put_be32 arp 14 local_ip;
         arp = blit 18 (take 6 target_mac) arp
     in put_be32 arp 24 target_ip)"

definition send_arp_reply :: "'l link \<Rightarrow> 'l net \<Rightarrow> bytes \<Rightarrow> u32 \<Rightarrow> 'l net" where
  "send_arp_reply l s dst_mac dst_ip =
    (case l2_get_mac l s of
       None \<Rightarrow> s
     | Some local_mac \<Rightarrow> snd (l2_send_ethernet l s dst_mac ETH_TYPE_ARP (arp_packet 2 local_mac (st_ip (stack_status s)) dst_mac dst_ip)))"

definition send_arp_request :: "'l link \<Rightarrow> 'l net \<Rightarrow> u32 \<Rightarrow> int \<times> 'l net" where
  "send_arp_request l s target_ip =
    (case l2_get_mac l s of
       None \<Rightarrow> (-1, s)
     | Some local_mac \<Rightarrow>
         l2_send_ethernet l s mac_broadcast ETH_TYPE_ARP (arp_packet 1 local_mac (st_ip (stack_status s)) (replicate 6 0) target_ip))"

text \<open>\<open>None\<close> is a read outside the buffer.\<close>

definition handle_arp :: "'l link \<Rightarrow> 'l net \<Rightarrow> bytes \<Rightarrow> bytes \<Rightarrow> nat \<Rightarrow> 'l net option" where
  "handle_arp l s src_mac arp len =
    (if len < 28 then Some s
     else do {
       htype \<leftarrow> get_be16 arp 0;
       ptype \<leftarrow> get_be16 arp 2;
       hlen \<leftarrow> rd arp 4;
       plen \<leftarrow> rd arp 5;
       if htype \<noteq> 1 \<or> ptype \<noteq> ETH_TYPE_IPV4 \<or> hlen \<noteq> 6 \<or> plen \<noteq> 4 then Some s
       else do {
         op \<leftarrow> get_be16 arp 6;
         sender_ip \<leftarrow> get_be32 arp 14;
         target_ip \<leftarrow> get_be32 arp 24;
         if op = 2 then Some (s\<lparr>arp_cached_ip := sender_ip, arp_cached_mac := slice 8 6 arp\<rparr>)
         else if op = 1 \<and> st_ip (stack_status s) \<noteq> 0 \<and> target_ip = st_ip (stack_status s)
         then Some (send_arp_reply l s src_mac sender_ip)
         else Some s } })"

section \<open>TCP segments\<close>

record tcp_conn_t =
  remote_ip :: u32
  remote_port :: u16
  local_port :: u16
  seq :: u32
  ack :: u32
  remote_mac :: bytes

definition tcp_checksum :: "u32 \<Rightarrow> u32 \<Rightarrow> bytes \<Rightarrow> u16" where
  "tcp_checksum src_ip dst_ip tcp =
    (let b = replicate (NETSTACK_MTU + 16) 0;
         b = put_be32 b 0 src_ip;
         b = put_be32 b 4 dst_ip;
         b = b[8 := 0, 9 := IP_PROTO_TCP];
         b = put_be16 b 10 (of_nat (length tcp));
         b = blit 12 tcp b
     in checksum16 (take (length tcp + 12) b))"

definition tcp_header_len :: "byte \<Rightarrow> nat" where
  "tcp_header_len flags = (if flags AND TCP_SYN \<noteq> 0 then 24 else 20)"

text \<open>The segment as \<^verbatim>\<open>send_tcp\<close> leaves it in \<^verbatim>\<open>transport_buf\<close>, without its checksum and with it.\<close>

definition tcp_segment0 :: "tcp_conn_t \<Rightarrow> byte \<Rightarrow> bytes \<Rightarrow> bytes" where
  "tcp_segment0 conn flags data =
    (let header_len = tcp_header_len flags;
         b = replicate NETSTACK_MTU 0;
         b = put_be16 b 0 (local_port conn);
         b = put_be16 b 2 (remote_port conn);
         b = put_be32 b 4 (seq conn);
         b = put_be32 b 8 (ack conn);
         b = b[12 := push_bit 4 (of_nat (header_len div 4)), 13 := flags];
         b = put_be16 b 14 TCP_WINDOW;
         b = (if flags AND TCP_SYN \<noteq> 0 then put_be16 (b[20 := 2, 21 := 4]) 22 1460 else b)
     in if length data > 0 then blit header_len data b else b)"

definition tcp_segment :: "u32 \<Rightarrow> tcp_conn_t \<Rightarrow> byte \<Rightarrow> bytes \<Rightarrow> bytes" where
  "tcp_segment src_ip conn flags data =
    (let b = tcp_segment0 conn flags data
     in put_be16 b 16 (tcp_checksum src_ip (remote_ip conn) (take (tcp_header_len flags + length data) b)))"

definition send_tcp :: "'l link \<Rightarrow> 'l net \<Rightarrow> tcp_conn_t \<Rightarrow> byte \<Rightarrow> bytes \<Rightarrow> int \<times> 'l net" where
  "send_tcp l s conn flags data =
    (let tcp_len = tcp_header_len flags + length data in
     if tcp_len > NETSTACK_MTU - 20 then (-1, s)
     else send_ipv4_raw l s (remote_mac conn) (st_ip (stack_status s)) (remote_ip conn) IP_PROTO_TCP
            (take tcp_len (tcp_segment (st_ip (stack_status s)) conn flags data)))"

record tcp_fields =
  seg_src_ip :: u32
  seg_dst_ip :: u32
  seg_src_port :: u16
  seg_dst_port :: u16
  seg_seq :: u32
  seg_ack :: u32
  seg_flags :: byte
  seg_off :: nat
  seg_len :: nat

definition parse_ipv4_tcp :: "bytes \<Rightarrow> nat \<Rightarrow> tcp_fields option option" where
  "parse_ipv4_tcp packet len =
    (if len < 40 then Some None
     else do {
       b0 \<leftarrow> rd packet 0;
       if drop_bit 4 b0 \<noteq> 4 then Some None
       else do {
         let ihl = unat (b0 AND 0x0f) * 4;
         total \<leftarrow> get_be16 packet 2;
         let total_len = unat total;
         proto \<leftarrow> rd packet 9;
         if ihl < 20 \<or> total_len > len \<or> total_len < ihl + 20 \<or> proto \<noteq> IP_PROTO_TCP then Some None
         else do {
           b12 \<leftarrow> rd packet (ihl + 12);
           let hl = unat (drop_bit 4 b12) * 4;
           if hl < 20 \<or> ihl + hl > total_len then Some None
           else do {
             src_ip \<leftarrow> get_be32 packet 12;
             dst_ip \<leftarrow> get_be32 packet 16;
             src_port \<leftarrow> get_be16 packet (ihl + 0);
             dst_port \<leftarrow> get_be16 packet (ihl + 2);
             sq \<leftarrow> get_be32 packet (ihl + 4);
             ak \<leftarrow> get_be32 packet (ihl + 8);
             flags \<leftarrow> rd packet (ihl + 13);
             Some (Some \<lparr>seg_src_ip = src_ip, seg_dst_ip = dst_ip, seg_src_port = src_port, seg_dst_port = dst_port,
               seg_seq = sq, seg_ack = ak, seg_flags = flags, seg_off = ihl + hl, seg_len = total_len - ihl - hl\<rparr>) } } } })"

section \<open>Reading what was written\<close>

lemma rd_simps [buf_simps]:
  "rd p i = None \<longleftrightarrow> length p \<le> i"
  "rd (p[j := v]) i = (if j = i \<and> i < length p then Some v else rd p i)"
  "i < n \<Longrightarrow> rd (take n p) i = rd p i"
  by (auto simp: rd_def nth_list_update)

lemma rd_blit [buf_simps]: "i < j \<Longrightarrow> j + length ys \<le> length p \<Longrightarrow> rd (blit j ys p) i = rd p i"
  by (simp add: rd_def nth_blit)

lemma length_put [simp]: "length (put_be16 p i v) = length p" "length (put_be32 p i w) = length p"
  by (simp_all add: put_be16_def put_be32_def)

lemma rd_put [buf_simps]:
  "i < j \<or> j + 2 \<le> i \<Longrightarrow> rd (put_be16 p j v) i = rd p i"
  "i < j \<or> j + 4 \<le> i \<Longrightarrow> rd (put_be32 p j w) i = rd p i"
  by (auto simp: put_be16_def put_be32_def rd_simps)

lemma get_frame:
  "rd p i = rd q i \<Longrightarrow> rd p (i + 1) = rd q (i + 1) \<Longrightarrow> get_be16 p i = get_be16 q i"
  "rd p i = rd q i \<Longrightarrow> rd p (i + 1) = rd q (i + 1) \<Longrightarrow> rd p (i + 2) = rd q (i + 2) \<Longrightarrow> rd p (i + 3) = rd q (i + 3) \<Longrightarrow> get_be32 p i = get_be32 q i"
  by (simp_all add: get_be16_def get_be32_def)

lemma get_other [buf_simps]:
  "i + 2 \<le> j \<or> j + 2 \<le> i \<Longrightarrow> get_be16 (put_be16 p j v) i = get_be16 p i"
  "i + 2 \<le> j \<or> j + 4 \<le> i \<Longrightarrow> get_be16 (put_be32 p j w) i = get_be16 p i"
  "i + 4 \<le> j \<or> j + 2 \<le> i \<Longrightarrow> get_be32 (put_be16 p j v) i = get_be32 p i"
  "i + 4 \<le> j \<or> j + 4 \<le> i \<Longrightarrow> get_be32 (put_be32 p j w) i = get_be32 p i"
  "j < i \<or> i + 2 \<le> j \<Longrightarrow> get_be16 (p[j := b]) i = get_be16 p i"
  "j < i \<or> i + 4 \<le> j \<Longrightarrow> get_be32 (p[j := b]) i = get_be32 p i"
  "i + 2 \<le> j \<Longrightarrow> j + length ys \<le> length p \<Longrightarrow> get_be16 (blit j ys p) i = get_be16 p i"
  "i + 4 \<le> j \<Longrightarrow> j + length ys \<le> length p \<Longrightarrow> get_be32 (blit j ys p) i = get_be32 p i"
  "i + 2 \<le> n \<Longrightarrow> get_be16 (take n p) i = get_be16 p i"
  "i + 4 \<le> n \<Longrightarrow> get_be32 (take n p) i = get_be32 p i"
  by (rule get_frame; (subst rd_put | subst rd_simps | subst rd_blit); auto)+

lemma byte_split16: "push_bit 8 (ucast (ucast (drop_bit 8 v) :: byte)) OR ucast (ucast (v AND 0xff) :: byte) = (v :: u16)"
  unfolding ucast_low_byte by (rule bit_word_eqI) (auto simp: bit_simps)

lemma byte_split32:
  "push_bit 24 (ucast (ucast (drop_bit 24 v) :: byte)) OR push_bit 16 (ucast (ucast (drop_bit 16 v AND 0xff) :: byte)) OR
   push_bit 8 (ucast (ucast (drop_bit 8 v AND 0xff) :: byte)) OR ucast (ucast (v AND 0xff) :: byte) = (v :: u32)"
  unfolding ucast_low_byte
proof (rule bit_word_eqI)
  fix n assume "n < LENGTH(32)"
  then consider "n < 8" | "8 \<le> n" "n < 16" | "16 \<le> n" "n < 24" | "24 \<le> n" "n < 32" by fastforce
  then show "bit (push_bit 24 (ucast (ucast (drop_bit 24 v) :: byte)) OR push_bit 16 (ucast (ucast (drop_bit 16 v) :: byte)) OR
     push_bit 8 (ucast (ucast (drop_bit 8 v) :: byte)) OR ucast (ucast v :: byte) :: u32) n = bit v n"
    by cases (auto simp: bit_simps)
qed

lemma get_put [simp, buf_simps]:
  "i + 2 \<le> length p \<Longrightarrow> get_be16 (put_be16 p i v) i = Some v"
  "i + 4 \<le> length p \<Longrightarrow> get_be32 (put_be32 p i w) i = Some w"
  by (simp_all add: get_be16_def get_be32_def put_be16_def put_be32_def rd_simps byte_split16 byte_split32)

section \<open>The checksum as a sum\<close>

text \<open>The sum of the big-endian 16-bit words, the last byte padded with zero.\<close>

fun wsum :: "bytes \<Rightarrow> nat" where
  "wsum (a # b # p) = unat a * 256 + unat b + wsum p"
| "wsum [a] = unat a * 256"
| "wsum [] = 0"

text \<open>The one's complement residue of a sum: 0 only for the sum 0.\<close>

definition ones_sum :: "nat \<Rightarrow> nat" where
  "ones_sum n = (if n = 0 then 0 else (n - 1) mod 65535 + 1)"

lemma wsum_append: "even (length xs) \<Longrightarrow> wsum (xs @ ys) = wsum xs + wsum ys"
  by (induction xs rule: wsum.induct) simp_all

lemma wsum_bound: "wsum p \<le> 65535 * ((length p + 1) div 2)"
proof (induction p rule: wsum.induct)
  case (1 a b p)
  have "unat a \<le> 255" "unat b \<le> 255" using unat_byte_less [of a] unat_byte_less [of b] by linarith+
  then show ?case using 1 by simp
next
  case (2 a)
  have "unat a \<le> 255" using unat_byte_less [of a] by linarith
  then show ?case by simp
qed simp

lemma unat_be16_bytes: "unat (push_bit 8 (ucast (a :: byte)) OR ucast (b :: byte) :: u16) = unat a * 256 + unat b"
proof -
  have a: "unat a < 2 ^ 8" "unat b < 2 ^ 8" by simp_all
  have "unat (push_bit 8 (ucast a :: u16)) = push_bit 8 (unat a)"
    using a(1) by (simp only: unsigned_push_bit_eq) (simp add: take_bit_push_bit take_bit_nat_eq_self)
  then show ?thesis using or_push_nat [OF a(2), of "unat a"] by (simp add: unsigned_or_eq or.commute)
qed

lemma sum16_value: "unat acc + wsum p < 4294967296 \<Longrightarrow> unat (sum16 acc p) = unat acc + wsum p"
proof (induction acc p rule: sum16.induct)
  case (1 acc a b p)
  let ?w = "push_bit 8 (ucast a) OR ucast b :: u16"
  have "unat (ucast ?w :: u32) = unat ?w" by (simp add: unsigned_ucast_eq take_bit_nat_eq_self [OF less_trans [OF unsigned_less]])
  then have "unat (acc + ucast ?w) = unat acc + (unat a * 256 + unat b)"
    using 1(2) unat_be16_bytes [of a b] by (simp add: unat_word_ariths(1))
  then show ?case using 1 by simp
next
  case (2 acc a)
  have "unat a * 256 < 4294967296" using unat_byte_less [of a] by linarith
  then have "unat (push_bit 8 (ucast a :: u32)) = unat a * 256"
    by (simp only: unsigned_push_bit_eq) (simp add: push_bit_eq_mult take_bit_eq_mod)
  then show ?case using 2 by (simp add: unat_word_ariths(1))
qed simp

lemma ones_sum_step: "65536 \<le> n \<Longrightarrow> ones_sum (n mod 65536 + n div 65536) = ones_sum n"
proof -
  assume n: "65536 \<le> n"
  define q r where "q = n div 65536" and "r = n mod 65536"
  have e: "n = q * 65535 + (r + q)" using div_mult_mod_eq [of n 65536] by (simp add: q_def r_def)
  have q: "0 < q" using n by (simp add: q_def div_greater_zero_iff)
  have "(n - 1) mod 65535 = (q * 65535 + (r + q - 1)) mod 65535" using e q by (intro arg_cong [where f = "\<lambda>x. x mod 65535"]) linarith
  also have "\<dots> = (r + q - 1) mod 65535" by simp
  finally show ?thesis using n q by (simp add: ones_sum_def q_def r_def)
qed

lemma fold_carry_value: "unat (fold_carry s) = ones_sum (unat s)"
proof (induction s rule: fold_carry.induct)
  case (1 s)
  have d: "unat (drop_bit 16 s) = unat s div 65536"
    using unat_u32_less [of s] by (simp only: unsigned_drop_bit_eq) (simp add: drop_bit_eq_div take_bit_nat_eq_self)
  show ?case
  proof (cases "drop_bit 16 s = 0")
    case True
    then have "unat s div 65536 = 0" using d by simp
    then have "unat s < 65536" by (simp add: div_eq_0_iff)
    then show ?thesis using True by (simp add: fold_carry.simps [of s] ones_sum_def)
  next
    case False
    then have "unat s div 65536 \<noteq> 0" using d by (metis unsigned_eq_0_iff)
    then have "65536 \<le> unat s" by (simp add: div_eq_0_iff)
    then show ?thesis using 1 [OF False] False ones_sum_step by (simp add: fold_carry.simps [of s] fold_carry_sum)
  qed
qed

lemma checksum16_value: "length p \<le> 65536 \<Longrightarrow> unat (checksum16 p) = 65535 - ones_sum (wsum p)"
proof -
  assume l: "length p \<le> 65536"
  have "wsum p \<le> 65535 * ((length p + 1) div 2)" by (rule wsum_bound)
  also have "\<dots> \<le> 65535 * 32768" using l by (intro mult_le_mono2) simp
  finally have "unat (sum16 0 p) = wsum p" using sum16_value [of 0 p] by simp
  then have f: "unat (fold_carry (sum16 0 p)) = ones_sum (wsum p)" by (simp add: fold_carry_value)
  have "ones_sum (wsum p) < 65536" by (simp add: ones_sum_def)
  moreover have "ucast (NOT (fold_carry (sum16 0 p))) = (- 1 - ucast (fold_carry (sum16 0 p)) :: u16)"
  proof -
    have "ucast (NOT (fold_carry (sum16 0 p))) = (NOT (ucast (fold_carry (sum16 0 p))) :: u16)" by (rule bit_word_eqI) (simp add: bit_simps)
    then show ?thesis by (simp add: not_eq_complement)
  qed
  moreover have "unat (ucast (fold_carry (sum16 0 p)) :: u16) = ones_sum (wsum p)"
    using f \<open>ones_sum (wsum p) < 65536\<close> by (simp add: unsigned_ucast_eq take_bit_nat_eq_self)
  ultimately show ?thesis unfolding checksum16_def
    by (simp add: unat_sub unsigned_minus_1_eq_mask mask_eq_exp_minus_1)
qed

section \<open>Packets that were built parse back\<close>

lemma take_put [buf_simps]: "i + 2 \<le> n \<Longrightarrow> take n (put_be16 p i v) = put_be16 (take n p) i v"
  by (simp add: put_be16_def take_update_swap)

lemma slice_put [buf_simps]: "i + 2 \<le> j \<Longrightarrow> slice j n (put_be16 p i v) = slice j n p"
  by (simp add: slice_def put_be16_def drop_update_cancel)

lemma wsum_put:
  assumes "even i" "i + 2 \<le> length p" "rd p i = Some 0" "rd p (i + 1) = Some 0"
  shows "wsum (put_be16 p i v) = wsum p + unat v"
proof -
  define u w where "u = take i p" and "w = drop (i + 2) p"
  have z: "p ! i = 0" "p ! (i + 1) = 0" using assms by (simp_all add: rd_def split: if_splits)
  have "drop i p = p ! i # p ! Suc i # drop (Suc (Suc i)) p" using assms(2) by (simp add: Cons_nth_drop_Suc)
  then have p: "p = u @ [0, 0] @ w" using z append_take_drop_id [of i p] by (simp add: u_def w_def)
  have u: "length u = i" using assms(2) by (simp add: u_def)
  have "put_be16 p i v = u @ [ucast (drop_bit 8 v), ucast (v AND 0xff)] @ w" using u by (simp add: put_be16_def p list_update_append)
  moreover have "unat (ucast (drop_bit 8 v) :: byte) * 256 + unat (ucast (v AND 0xff) :: byte) = unat v"
    using arg_cong [OF byte_split16 [of v], of unat] unfolding unat_be16_bytes .
  ultimately show ?thesis using assms(1) u by (simp add: p wsum_append)
qed

text \<open>Storing the complement of the sum in a zero field makes the checksum of the whole zero.\<close>

lemma checksum_verifies:
  assumes "even i" "i + 2 \<le> length p" "rd p i = Some 0" "rd p (i + 1) = Some 0" "length p \<le> 65536"
  shows "checksum16 (put_be16 p i (checksum16 p)) = 0"
proof -
  define s where "s = wsum p"
  have le: "ones_sum s \<le> 65535" using mod_less_divisor [of 65535 "s - 1"] by (auto simp: ones_sum_def simp del: mod_less_divisor)
  obtain q where "s + (65535 - ones_sum s) = 65535 * (q + 1)"
  proof (cases "s = 0")
    case True
    then show ?thesis by (intro that [of 0]) (simp add: ones_sum_def)
  next
    case False
    define q r where "q = (s - 1) div 65535" and "r = (s - 1) mod 65535"
    have "s - 1 = q * 65535 + r" "r < 65535" "0 < s" using False by (simp_all add: q_def r_def)
    then have s: "s = q * 65535 + r + 1" "r + (65535 - (r + 1)) = 65534" by simp_all
    have "s + (65535 - (r + 1)) = q * 65535 + (r + (65535 - (r + 1))) + 1" unfolding s(1) by simp
    then have "s + (65535 - (r + 1)) = 65535 * (q + 1)" unfolding s(2) by simp
    then show ?thesis using False by (intro that [of q]) (simp only: ones_sum_def r_def if_False)
  qed
  then have "ones_sum (s + (65535 - ones_sum s)) = 65535" by (simp add: ones_sum_def)
  moreover have "wsum (put_be16 p i (checksum16 p)) = s + (65535 - ones_sum s)"
    using wsum_put [OF assms(1-4)] checksum16_value [OF assms(5)] by (simp add: s_def)
  ultimately have "unat (checksum16 (put_be16 p i (checksum16 p))) = 0" using checksum16_value [of "put_be16 p i (checksum16 p)"] assms(5) by simp
  then show ?thesis by (simp add: unsigned_eq_0_iff)
qed

lemma rd_slice: "slice j n p = q \<Longrightarrow> j + n \<le> length p \<Longrightarrow> i < n \<Longrightarrow> rd p (j + i) = rd q i"
  by (auto simp: rd_def nth_slice)

lemma get_slice:
  assumes "slice j n p = q" "j + n \<le> length p"
  shows "i + 2 \<le> n \<Longrightarrow> get_be16 p (j + i) = get_be16 q i" "i + 4 \<le> n \<Longrightarrow> get_be32 p (j + i) = get_be32 q i"
  using rd_slice [OF assms, of i] rd_slice [OF assms, of "i + 1"] rd_slice [OF assms, of "i + 2"] rd_slice [OF assms, of "i + 3"]
  by (simp_all add: get_be16_def get_be32_def add.assoc)

lemma rd_replicate: "i < n \<Longrightarrow> rd (replicate n x) i = Some x"
  by (simp add: rd_def)

lemma ipv4_packet_fields:
  fixes ident :: u16 and src_ip dst_ip :: u32 and proto :: byte
  assumes "length payload \<le> 1480"
  defines "p \<equiv> ipv4_packet ident src_ip dst_ip proto payload"
  shows "length p = 1500" "rd p 0 = Some 0x45" "get_be16 p 2 = Some (of_nat (20 + length payload))" "rd p 9 = Some proto"
    "get_be32 p 12 = Some src_ip" "get_be32 p 16 = Some dst_ip" "slice 20 (length payload) p = payload"
    "checksum16 (take 20 p) = 0"
proof -
  define b where "b = put_be32 (put_be32 ((put_be16 (put_be16 (put_be16 ((replicate 1500 0)[0 := 0x45, 1 := 0]) 2 (of_nat (20 + length payload))) 4 ident) 6 0x4000)[8 := 64, 9 := proto]) 12 src_ip) 16 dst_ip"
  define c where "c = (if length payload > 0 then blit 20 payload b else b)"
  have l: "length b = 1500" "length c = 1500" using assms(1) by (simp_all add: b_def c_def)
  have p: "p = put_be16 c 10 (checksum16 (take 20 c))" unfolding p_def ipv4_packet_def Let_def NETSTACK_MTU_def c_def b_def ..
  have rc: "rd c i = rd b i" if "i < 20" for i using that l assms(1) by (simp add: c_def rd_blit)
  have gc: "i + 2 \<le> 20 \<Longrightarrow> get_be16 c i = get_be16 b i" "i + 4 \<le> 20 \<Longrightarrow> get_be32 c i = get_be32 b i" for i
    using l assms(1) by (simp_all add: c_def get_other)
  show "length p = 1500" using l by (simp add: p)
  show "rd p 0 = Some 0x45" "rd p 9 = Some proto" unfolding p by (simp_all add: rd_put rc) (simp_all add: b_def rd_put rd_simps)
  show "get_be16 p 2 = Some (of_nat (20 + length payload))" unfolding p by (simp add: get_other gc) (simp add: b_def get_other)
  show "get_be32 p 12 = Some src_ip" "get_be32 p 16 = Some dst_ip"
    unfolding p by (simp_all add: get_other gc) (simp_all add: b_def get_other)
  show "slice 20 (length payload) p = payload" unfolding p using l assms(1) by (simp add: slice_put c_def) (simp add: slice_def)
  have z: "rd (take 20 c) 10 = Some 0" "rd (take 20 c) 11 = Some 0" by (simp_all add: rd_simps rc) (simp_all add: b_def rd_put rd_simps rd_replicate)
  show "checksum16 (take 20 p) = 0" unfolding p using checksum_verifies [of 10 "take 20 c"] z l by (simp add: take_put)
qed

lemma parse_basic_packet:
  assumes "length payload \<le> 1480"
  shows "parse_ipv4_basic (ipv4_packet ident src_ip dst_ip proto payload) (20 + length payload)
    = Some (Some (src_ip, dst_ip, proto, 20, length payload))"
  using ipv4_packet_fields [OF assms, of ident src_ip dst_ip proto] assms
  by (simp add: parse_ipv4_basic_def unsigned_of_nat take_bit_nat_eq_self del: of_nat_add)

lemma get_None [simp]: "get_be16 p i = None \<longleftrightarrow> length p < i + 2" "get_be32 p i = None \<longleftrightarrow> length p < i + 4" "rd p i = None \<longleftrightarrow> length p \<le> i"
  by (auto simp: get_be16_def get_be32_def rd_def)

lemma bind_take: "m' = m \<Longrightarrow> (\<And>x. m = Some x \<Longrightarrow> f' x = f x) \<Longrightarrow> Option.bind m' f' = Option.bind m f"
  by (cases m) auto

text \<open>A parser reads only the bytes of the packet: it never leaves the buffer, and bytes after the length do not matter.\<close>

lemma parse_basic_safe:
  assumes "len \<le> length p"
  shows "parse_ipv4_basic p len \<noteq> None" "parse_ipv4_basic (take len p) len = parse_ipv4_basic p len"
proof -
  show "parse_ipv4_basic p len \<noteq> None"
    unfolding parse_ipv4_basic_def Let_def using assms by (auto simp: bind_eq_None_conv split: if_splits iff del: not_None_eq)
  show "parse_ipv4_basic (take len p) len = parse_ipv4_basic p len"
    unfolding parse_ipv4_basic_def Let_def using assms
    by (auto intro!: bind_take if_cong simp: rd_simps get_other min.absorb1 min.absorb2 split: if_splits)
qed

lemma parse_udp_safe:
  assumes "len \<le> length p"
  shows "parse_ipv4_udp p len \<noteq> None" "parse_ipv4_udp (take len p) len = parse_ipv4_udp p len"
proof -
  show "parse_ipv4_udp p len \<noteq> None"
    unfolding parse_ipv4_udp_def Let_def using assms by (auto simp: bind_eq_None_conv split: if_splits iff del: not_None_eq)
  show "parse_ipv4_udp (take len p) len = parse_ipv4_udp p len"
    unfolding parse_ipv4_udp_def Let_def using assms
    by (auto intro!: bind_take if_cong simp: rd_simps get_other)
qed

lemma parse_tcp_safe:
  assumes "len \<le> length p"
  shows "parse_ipv4_tcp p len \<noteq> None" "parse_ipv4_tcp (take len p) len = parse_ipv4_tcp p len"
proof -
  show "parse_ipv4_tcp p len \<noteq> None"
    unfolding parse_ipv4_tcp_def Let_def using assms by (auto simp: bind_eq_None_conv split: if_splits iff del: not_None_eq)
  show "parse_ipv4_tcp (take len p) len = parse_ipv4_tcp p len"
    unfolding parse_ipv4_tcp_def Let_def using assms
    by (auto intro!: bind_take if_cong simp: rd_simps get_other)
qed

lemma handle_arp_safe: "len \<le> length p \<Longrightarrow> handle_arp l s src_mac p len \<noteq> None"
  unfolding handle_arp_def Let_def by (auto simp: bind_eq_None_conv split: if_splits iff del: not_None_eq)

text \<open>Where an accepted payload lies.\<close>

lemma parse_tcp_bounds:
  "parse_ipv4_tcp p len = Some (Some f) \<Longrightarrow> 40 \<le> seg_off f \<and> seg_off f + seg_len f \<le> len"
  unfolding parse_ipv4_tcp_def Let_def by (auto simp: bind_eq_Some_conv split: if_splits)

lemma parse_udp_bounds:
  "parse_ipv4_udp p len = Some (Some (s, d, sp, dp, off, n)) \<Longrightarrow> 28 \<le> off \<and> off + n \<le> len"
  unfolding parse_ipv4_udp_def Let_def by (auto simp: bind_eq_Some_conv split: if_splits)

lemma parse_basic_bounds:
  "parse_ipv4_basic p len = Some (Some (s, d, pr, off, n)) \<Longrightarrow> 20 \<le> off \<and> off + n \<le> len"
  unfolding parse_ipv4_basic_def Let_def by (auto simp: bind_eq_Some_conv split: if_splits)

lemma parse_payload:
  fixes ident :: u16 and src_ip dst_ip :: u32 and proto :: byte
  assumes "length q \<le> 1480"
  defines "p \<equiv> take (20 + length q) (ipv4_packet ident src_ip dst_ip proto q)"
  shows "length p = 20 + length q" "rd p 0 = Some 0x45" "get_be16 p 2 = Some (of_nat (20 + length q))" "rd p 9 = Some proto"
    "get_be32 p 12 = Some src_ip" "get_be32 p 16 = Some dst_ip" "slice 20 (length q) p = q" "checksum16 (take 20 p) = 0"
    "i < length q \<Longrightarrow> rd p (20 + i) = rd q i"
    "i + 2 \<le> length q \<Longrightarrow> get_be16 p (20 + i) = get_be16 q i"
    "i + 4 \<le> length q \<Longrightarrow> get_be32 p (20 + i) = get_be32 q i"
proof -
  note f = ipv4_packet_fields [OF assms(1), of ident src_ip dst_ip proto]
  show l: "length p = 20 + length q" using f(1) assms(1) by (simp add: p_def)
  show "rd p 0 = Some 0x45" "get_be16 p 2 = Some (of_nat (20 + length q))" "rd p 9 = Some proto" "checksum16 (take 20 p) = 0"
    using f(2-4,8) unfolding p_def by (simp_all add: rd_simps get_other del: of_nat_add)
  show "get_be32 p 12 = Some src_ip" "get_be32 p 16 = Some dst_ip" using f(5,6) unfolding p_def by (simp_all add: get_other)
  show s: "slice 20 (length q) p = q" using f(7) by (simp add: p_def slice_def drop_take)
  show "i < length q \<Longrightarrow> rd p (20 + i) = rd q i" "i + 2 \<le> length q \<Longrightarrow> get_be16 p (20 + i) = get_be16 q i"
    "i + 4 \<le> length q \<Longrightarrow> get_be32 p (20 + i) = get_be32 q i"
    using rd_slice [OF s] get_slice [OF s] l by simp_all
qed

lemma udp_fields:
  fixes src_port dst_port :: u16
  assumes "length payload \<le> 1472"
  defines "u \<equiv> take (length payload + 8) (udp_datagram src_port dst_port payload)"
  shows "length u = length payload + 8" "get_be16 u 0 = Some src_port" "get_be16 u 2 = Some dst_port"
    "get_be16 u 4 = Some (of_nat (length payload + 8))" "slice 8 (length payload) u = payload"
proof -
  define b where "b = put_be16 (put_be16 (put_be16 (put_be16 (replicate 1500 0) 0 src_port) 2 dst_port) 4 (of_nat (length payload + 8))) 6 0"
  define c where "c = (if length payload > 0 then blit 8 payload b else b)"
  have u: "u = take (length payload + 8) c" by (simp add: u_def udp_datagram_def Let_def c_def b_def NETSTACK_MTU_def)
  have l: "length b = 1500" "length c = 1500" using assms(1) by (simp_all add: b_def c_def)
  have g: "i + 2 \<le> 8 \<Longrightarrow> get_be16 u i = get_be16 b i" for i using l assms(1) by (simp add: u c_def get_other)
  show "length u = length payload + 8" using l assms(1) by (simp add: u)
  show "get_be16 u 0 = Some src_port" "get_be16 u 2 = Some dst_port" "get_be16 u 4 = Some (of_nat (length payload + 8))"
    using g [of 0] g [of 2] g [of 4] by (simp_all add: b_def get_other del: of_nat_add)
  have "slice 8 (length payload) c = payload" using l assms(1) by (simp add: c_def) (simp add: slice_def)
  then show "slice 8 (length payload) u = payload" by (simp add: u slice_def drop_take)
qed

lemma slice_slice: "slice i n (slice j m p) = slice (j + i) (min n (m - i)) p"
  by (simp add: slice_def drop_take add.commute)

lemma udp_roundtrip:
  fixes src_port dst_port ident :: u16 and src_ip dst_ip :: u32
  assumes "length payload \<le> 1472"
  defines "u \<equiv> take (length payload + 8) (udp_datagram src_port dst_port payload)"
  defines "p \<equiv> take (20 + length u) (ipv4_packet ident src_ip dst_ip IP_PROTO_UDP u)"
  shows "parse_ipv4_udp p (length p) = Some (Some (src_ip, dst_ip, src_port, dst_port, 28, length payload))"
    "slice 28 (length payload) p = payload"
proof -
  note u = udp_fields [OF assms(1), of src_port dst_port, folded u_def]
  have lu: "length u \<le> 1480" using u(1) assms(1) by simp
  note p = parse_payload [OF lu, where ident = ident and src_ip = src_ip and dst_ip = dst_ip and proto = IP_PROTO_UDP, folded p_def]
  have len: "length p = length payload + 28" using p(1) u(1) by simp
  have n: "unat (of_nat (20 + length u) :: u16) = length payload + 28" "unat (of_nat (length payload + 8) :: u16) = length payload + 8"
    using assms(1) u(1) by (simp_all add: unsigned_of_nat take_bit_nat_eq_self del: of_nat_add)
  show "parse_ipv4_udp p (length p) = Some (Some (src_ip, dst_ip, src_port, dst_port, 28, length payload))"
    using p(2-6) p(10) [of 0] p(10) [of 2] p(10) [of 4] u(1-4) n len by (simp add: parse_ipv4_udp_def Let_def del: of_nat_add)
  show "slice 28 (length payload) p = payload" using p(7) u(1,5) slice_slice [of 8 "length payload" 20 "length u" p] by simp
qed

definition pseudo_header :: "u32 \<Rightarrow> u32 \<Rightarrow> nat \<Rightarrow> bytes" where
  "pseudo_header src_ip dst_ip n =
    put_be16 ((put_be32 (put_be32 (replicate 12 0) 0 src_ip) 4 dst_ip)[8 := 0, 9 := IP_PROTO_TCP]) 10 (of_nat n)"

lemma length_pseudo_header [simp]: "length (pseudo_header src_ip dst_ip n) = 12"
  by (simp add: pseudo_header_def)

lemma tcp_checksum_pseudo:
  assumes "length tcp \<le> 1504"
  shows "tcp_checksum src_ip dst_ip tcp = checksum16 (pseudo_header src_ip dst_ip (length tcp) @ tcp)"
proof -
  define b where "b = put_be16 ((put_be32 (put_be32 (replicate (NETSTACK_MTU + 16) 0) 0 src_ip) 4 dst_ip)[8 := 0, 9 := IP_PROTO_TCP]) 10 (of_nat (length tcp))"
  have l: "length b = 1516" by (simp add: b_def NETSTACK_MTU_def)
  have "take 12 b = pseudo_header src_ip dst_ip (length tcp)"
    by (simp add: b_def pseudo_header_def NETSTACK_MTU_def put_be16_def put_be32_def take_update_swap)
  moreover have "take (length tcp + 12) (blit 12 tcp b) = take 12 b @ tcp" using l assms by (simp add: blit_def)
  ultimately show ?thesis by (simp add: tcp_checksum_def Let_def b_def)
qed

lemma tcp_checksum_verifies:
  assumes "18 \<le> length t" "length t \<le> 1504" "rd t 16 = Some 0" "rd t 17 = Some 0"
  shows "tcp_checksum src_ip dst_ip (put_be16 t 16 (tcp_checksum src_ip dst_ip t)) = 0"
proof -
  define P where "P = pseudo_header src_ip dst_ip (length t)"
  have "put_be16 (P @ t) 28 v = P @ put_be16 t 16 v" for v by (simp add: put_be16_def P_def list_update_append)
  moreover have "rd (P @ t) 28 = Some 0" "rd (P @ t) 29 = Some 0" using assms by (simp_all add: rd_def nth_append P_def)
  ultimately show ?thesis using checksum_verifies [of 28 "P @ t"] assms by (simp add: tcp_checksum_pseudo P_def)
qed

lemma tcp_header_len_cases: "tcp_header_len flags = 20 \<or> tcp_header_len flags = 24"
  by (simp add: tcp_header_len_def)

lemma tcp_segment_fields:
  fixes conn :: tcp_conn_t and flags :: byte and src_ip :: u32
  assumes "tcp_header_len flags + length data \<le> 1480"
  defines "n \<equiv> tcp_header_len flags + length data"
  defines "t \<equiv> take n (tcp_segment src_ip conn flags data)"
  shows "length t = n" "get_be16 t 0 = Some (local_port conn)" "get_be16 t 2 = Some (remote_port conn)"
    "get_be32 t 4 = Some (seq conn)" "get_be32 t 8 = Some (ack conn)"
    "rd t 12 = Some (push_bit 4 (of_nat (tcp_header_len flags div 4)))" "rd t 13 = Some flags"
    "slice (tcp_header_len flags) (length data) t = data"
    "tcp_checksum src_ip (remote_ip conn) t = 0"
proof -
  define h where "h = tcp_header_len flags"
  have h: "20 \<le> h" "h \<le> 24" "flags AND TCP_SYN \<noteq> 0 \<Longrightarrow> h = 24" using tcp_header_len_cases [of flags] by (auto simp: h_def tcp_header_len_def)
  define b where "b = put_be16 ((put_be32 (put_be32 (put_be16 (put_be16 (replicate 1500 0) 0 (local_port conn)) 2 (remote_port conn)) 4 (seq conn)) 8 (ack conn))
    [12 := push_bit 4 (of_nat (h div 4)), 13 := flags]) 14 TCP_WINDOW"
  define c where "c = (if flags AND TCP_SYN \<noteq> 0 then put_be16 (b[20 := 2, 21 := 4]) 22 1460 else b)"
  define d where "d = (if length data > 0 then blit h data c else c)"
  have s0: "tcp_segment0 conn flags data = d"
    by (simp add: tcp_segment0_def Let_def d_def c_def b_def h_def NETSTACK_MTU_def)
  have l: "length b = 1500" "length c = 1500" "length d = 1500" using assms(1) by (simp_all add: b_def c_def d_def h_def)
  have n: "n = h + length data" "n \<le> 1480" using assms(1) by (simp_all add: n_def h_def)
  have t: "t = put_be16 (take n d) 16 (tcp_checksum src_ip (remote_ip conn) (take n d))"
    unfolding t_def tcp_segment_def Let_def s0 using n h by (simp add: take_put n_def)
  have rc: "rd (take n d) i = rd b i" if "i < 20" for i
    using that l n h by (auto simp: d_def c_def rd_blit rd_simps rd_put)
  have g: "i + 2 \<le> 20 \<Longrightarrow> get_be16 (take n d) i = get_be16 b i" "i + 4 \<le> 20 \<Longrightarrow> get_be32 (take n d) i = get_be32 b i" for i
    using rc [of i] rc [of "i + 1"] rc [of "i + 2"] rc [of "i + 3"] by (auto intro!: get_frame)
  show "length t = n" using l n by (simp add: t)
  show "get_be16 t 0 = Some (local_port conn)" "get_be16 t 2 = Some (remote_port conn)" "get_be32 t 4 = Some (seq conn)" "get_be32 t 8 = Some (ack conn)"
    unfolding t by (simp_all add: get_other g) (simp_all add: b_def get_other)
  show "rd t 12 = Some (push_bit 4 (of_nat (tcp_header_len flags div 4)))" "rd t 13 = Some flags"
    unfolding t by (simp_all add: rd_put rc) (simp_all add: b_def rd_put rd_simps h_def)
  have "slice h (length data) d = data" using l n h by (simp add: d_def) (simp add: slice_def)
  then have "slice h (length data) (take n d) = data" using n by (simp add: slice_def drop_take)
  then show "slice (tcp_header_len flags) (length data) t = data" unfolding t using h by (simp add: slice_put h_def [symmetric])
  have "rd (take n d) 16 = Some 0" "rd (take n d) 17 = Some 0"
    by (simp_all add: rc) (simp_all add: b_def rd_put rd_simps rd_replicate)
  then show "tcp_checksum src_ip (remote_ip conn) t = 0" unfolding t using l n h by (intro tcp_checksum_verifies) simp_all
qed

lemma tcp_roundtrip:
  fixes conn :: tcp_conn_t and flags :: byte and src_ip :: u32 and ident :: u16
  assumes "tcp_header_len flags + length data \<le> 1480"
  defines "h \<equiv> tcp_header_len flags"
  defines "t \<equiv> take (h + length data) (tcp_segment src_ip conn flags data)"
  defines "p \<equiv> take (20 + length t) (ipv4_packet ident src_ip (remote_ip conn) IP_PROTO_TCP t)"
  shows "parse_ipv4_tcp p (length p) = Some (Some \<lparr>seg_src_ip = src_ip, seg_dst_ip = remote_ip conn, seg_src_port = local_port conn,
      seg_dst_port = remote_port conn, seg_seq = seq conn, seg_ack = ack conn, seg_flags = flags, seg_off = 20 + h, seg_len = length data\<rparr>)"
    "slice (20 + h) (length data) p = data" "slice 20 (length t) p = t" "checksum16 (take 20 p) = 0"
proof -
  note t = tcp_segment_fields [OF assms(1), of src_ip conn, folded t_def h_def, unfolded t_def [symmetric] h_def [symmetric]]
  have h: "20 \<le> h" "h \<le> 24" "h = 20 \<or> h = 24" using tcp_header_len_cases [of flags] by (auto simp: h_def)
  have lt: "length t \<le> 1480" "length t = h + length data" using t(1) assms(1) by (simp_all add: h_def)
  note p = parse_payload [OF lt(1), where ident = ident and src_ip = src_ip and dst_ip = "remote_ip conn" and proto = IP_PROTO_TCP, folded p_def]
  have n: "unat (of_nat (20 + length t) :: u16) = 20 + length t" using lt by (simp add: unsigned_of_nat take_bit_nat_eq_self del: of_nat_add)
  have hl: "unat (drop_bit 4 (push_bit 4 (of_nat (h div 4)) :: byte)) * 4 = h" using h(3) by auto
  show "parse_ipv4_tcp p (length p) = Some (Some \<lparr>seg_src_ip = src_ip, seg_dst_ip = remote_ip conn, seg_src_port = local_port conn,
      seg_dst_port = remote_port conn, seg_seq = seq conn, seg_ack = ack conn, seg_flags = flags, seg_off = 20 + h, seg_len = length data\<rparr>)"
    using p(1-6) p(9) [of 12] p(9) [of 13] p(10) [of 0] p(10) [of 2] p(11) [of 4] p(11) [of 8] t(2-7) n lt h hl
    by (simp add: parse_ipv4_tcp_def Let_def del: of_nat_add)
  show "slice 20 (length t) p = t" by (rule p(7))
  then show "slice (20 + h) (length data) p = data" using t(8) lt slice_slice [of h "length data" 20 "length t" p] by simp
  show "checksum16 (take 20 p) = 0" by (rule p(8))
qed

section \<open>Receiving\<close>

text \<open>What the stack relies on in the drivers: a receive stores at most the capacity and reports no more than it stored.\<close>

definition link_ok :: "'l link \<Rightarrow> bool" where
  "link_ok l \<longleftrightarrow> (\<forall>d cap n m ty p d'.
    (net_recv_ethernet l d cap = ((n, m, ty, p), d') \<or> wifi_recv_ethernet l d cap = ((n, m, ty, p), d')) \<longrightarrow>
      length p \<le> cap \<and> n \<le> int cap)"

lemma recv_frame_ok:
  assumes "link_ok l" "length (frame_buf s) = 1500" "recv_frame l s = (n, m, ty, s')"
  shows "length (frame_buf s') = 1500" "n \<le> 1500" "stack_status s' = stack_status s"
proof -
  define r where "r = l2_recv_ethernet l s 1500"
  have r: "length (snd (snd (snd (fst r)))) \<le> 1500" "fst (fst r) \<le> 1500" "stack_status (snd r) = stack_status s" "frame_buf (snd r) = frame_buf s"
    using assms(1) unfolding r_def l2_recv_ethernet_def link_ok_def
    by (auto split: prod.splits) (metis of_nat_numeral)+
  then show "length (frame_buf s') = 1500" "n \<le> 1500" "stack_status s' = stack_status s"
    using assms(2,3) unfolding recv_frame_def NETSTACK_MTU_def r_def [symmetric] by (auto split: prod.splits)
qed

section \<open>Properties\<close>

text \<open>A link that records what is sent and receives nothing, and a configured stack on it.\<close>

definition quiet_link :: "bytes list link" where
  "quiet_link = \<lparr>net_link_up = (\<lambda>_. True), net_mac = (\<lambda>_. replicate 6 2), net_send_ethernet = (\<lambda>d _ _ p. (0, p # d)),
    net_recv_ethernet = (\<lambda>d _. ((0, [], 0, []), d)), wifi_data_link_ready = (\<lambda>_. False), wifi_copy_local_mac = (\<lambda>_. None),
    wifi_send_ethernet = (\<lambda>d _ _ _. (-1, d)), wifi_recv_ethernet = (\<lambda>d _. ((-1, [], 0, []), d)), timer_ticks = (\<lambda>_. 7), short_wait = (\<lambda>d. d),
    log_line = (\<lambda>d _. d), config_file = (\<lambda>_. None)\<rparr>"

definition demo_net :: "bytes list net" where
  "demo_net = \<lparr>stack_status = \<lparr>ipv4_ready = True, static_config_loaded = False, st_ip = 0x0a000002, st_subnet = 0xffffff00, st_gateway = 0x0a000001,
     st_dns = 0x0a000001, last_resolved_ip = 0, last_host = [], st_status = []\<rparr>, ip_ident = 1, dns_ident = 0x4f5a, tcp_next_port = 40000,
     icmp_ident = 0x4f5a, arp_cached_ip = 0, arp_cached_mac = replicate 6 0,
     frame_buf = replicate 1500 0, net_deadline_last_tick = 0, net_deadline_fallback_budget = 0, net_deadline_fallback_used = 0, link_dev = []\<rparr>"

definition demo_conn :: tcp_conn_t where
  "demo_conn = \<lparr>remote_ip = 0x0a000001, remote_port = 4242, local_port = 22, seq = 5, ack = 9, remote_mac = replicate 6 3\<rparr>"

text \<open>The checksum is the one of RFC 1071. Of any buffer of at most 65536 bytes, \<^verbatim>\<open>checksum16\<close> returns the complement of the
  one's complement sum of its big-endian 16-bit words (an odd last byte counts as the high byte of a word), the 32-bit accumulator does not
  overflow, and storing the result in an aligned zero field makes the checksum of the buffer zero, which is what a receiver tests.\<close>

theorem checksum16_rfc1071:
  assumes "length p \<le> 65536" "even i" "i + 2 \<le> length p" "p ! i = 0" "p ! (i + 1) = 0"
  shows "unat (checksum16 p) = 65535 - ones_sum (wsum p) \<and> wsum p < 2 ^ 32 \<and> checksum16 (put_be16 p i (checksum16 p)) = 0"
proof (intro conjI)
  have "wsum p \<le> 65535 * ((length p + 1) div 2)" by (rule wsum_bound)
  also have "\<dots> \<le> 65535 * 32768" using assms(1) by (intro mult_le_mono2) simp
  finally show "wsum p < 2 ^ 32" by simp
  show "unat (checksum16 p) = 65535 - ones_sum (wsum p)" by (rule checksum16_value [OF assms(1)])
  show "checksum16 (put_be16 p i (checksum16 p)) = 0" using assms by (intro checksum_verifies) (simp_all add: rd_def)
qed

theorem checksum16_rfc1071_witness:
  "unat (checksum16 [0x45, 0, 0, 0, 0xff, 0xff, 1]) = 65535 - ones_sum (wsum [0x45, 0, 0, 0, 0xff, 0xff, 1]) \<and>
   checksum16 (put_be16 [0x45, 0, 0, 0, 0xff, 0xff, 1] 2 (checksum16 [0x45, 0, 0, 0, 0xff, 0xff, 1])) = 0"
  using checksum16_rfc1071 [of "[0x45, 0, 0, 0, 0xff, 0xff, 1]" 2] by simp

text \<open>C22: The packet parsers stay inside the packet. Given a buffer with at least \<open>len\<close> bytes of arbitrary contents, the IPv4, UDP and TCP parsers
  and the ARP handler never read outside it, their answer depends on the first \<open>len\<close> bytes only, so they never look at what an earlier,
  longer frame left behind, and the payload they report lies inside these bytes, after the headers.\<close>

theorem parsers_stay_inside:
  assumes "len \<le> length p"
  shows "parse_ipv4_basic p len \<noteq> None \<and> parse_ipv4_udp p len \<noteq> None \<and> parse_ipv4_tcp p len \<noteq> None \<and>
      handle_arp l s src_mac p len \<noteq> None \<and>
      parse_ipv4_basic (take len p) len = parse_ipv4_basic p len \<and> parse_ipv4_udp (take len p) len = parse_ipv4_udp p len \<and>
      parse_ipv4_tcp (take len p) len = parse_ipv4_tcp p len \<and>
      (\<forall>sip dip pr off n. parse_ipv4_basic p len = Some (Some (sip, dip, pr, off, n)) \<longrightarrow> 20 \<le> off \<and> off + n \<le> len) \<and>
      (\<forall>sip dip sp dp off n. parse_ipv4_udp p len = Some (Some (sip, dip, sp, dp, off, n)) \<longrightarrow> 28 \<le> off \<and> off + n \<le> len) \<and>
      (\<forall>f. parse_ipv4_tcp p len = Some (Some f) \<longrightarrow> 40 \<le> seg_off f \<and> seg_off f + seg_len f \<le> len)"
  using parse_basic_safe [OF assms] parse_udp_safe [OF assms] parse_tcp_safe [OF assms] handle_arp_safe [OF assms]
  by (intro conjI allI impI) (blast dest: parse_basic_bounds parse_udp_bounds parse_tcp_bounds)+

theorem parsers_stay_inside_witness:
  "parse_ipv4_tcp (replicate 60 (0x46 :: byte)) 45 \<noteq> None \<and>
   parse_ipv4_tcp (take 45 (replicate 60 0x46)) 45 = parse_ipv4_tcp (replicate 60 0x46) 45"
  using parsers_stay_inside [of 45 "replicate 60 0x46" quiet_link demo_net "[]"] by simp

text \<open>C21: What the stack sends is what its own parser reads. \<^verbatim>\<open>send_tcp\<close> of data that fits hands one frame to the link layer and consumes one
  IP identifier; parsing that frame gives back the addresses, the ports, the sequence numbers and the flags of the connection and
  exactly the data, and both the IP header checksum and the TCP checksum over the pseudo header verify.\<close>

theorem send_tcp_parses_back:
  fixes conn :: tcp_conn_t
  assumes "tcp_header_len flags + length data \<le> 1480"
  shows "\<exists>frame. send_tcp l s conn flags data = l2_send_ethernet l (s\<lparr>ip_ident := ip_ident s + 1\<rparr>) (remote_mac conn) ETH_TYPE_IPV4 frame \<and>
    parse_ipv4_tcp frame (length frame) = Some (Some \<lparr>seg_src_ip = st_ip (stack_status s), seg_dst_ip = remote_ip conn,
      seg_src_port = local_port conn, seg_dst_port = remote_port conn, seg_seq = seq conn, seg_ack = ack conn, seg_flags = flags,
      seg_off = 20 + tcp_header_len flags, seg_len = length data\<rparr>) \<and>
    slice (20 + tcp_header_len flags) (length data) frame = data \<and> checksum16 (take 20 frame) = 0 \<and>
    tcp_checksum (st_ip (stack_status s)) (remote_ip conn) (drop 20 frame) = 0"
proof -
  define t where "t = take (tcp_header_len flags + length data) (tcp_segment (st_ip (stack_status s)) conn flags data)"
  define p where "p = take (20 + length t) (ipv4_packet (ip_ident s) (st_ip (stack_status s)) (remote_ip conn) IP_PROTO_TCP t)"
  note r = tcp_roundtrip [OF assms, of "st_ip (stack_status s)" conn "ip_ident s", folded t_def, folded p_def]
  have lt: "length t = tcp_header_len flags + length data" using tcp_segment_fields(1) [OF assms] by (simp add: t_def)
  have "length p = 20 + length t" using ipv4_packet_fields(1) [of t] lt assms by (simp add: p_def)
  then have "drop 20 p = t" using r(3) by (simp add: slice_def)
  then have "tcp_checksum (st_ip (stack_status s)) (remote_ip conn) (drop 20 p) = 0" using tcp_segment_fields(9) [OF assms] by (simp add: t_def)
  moreover have "send_tcp l s conn flags data = l2_send_ethernet l (s\<lparr>ip_ident := ip_ident s + 1\<rparr>) (remote_mac conn) ETH_TYPE_IPV4 p"
    using assms lt by (simp add: send_tcp_def Let_def NETSTACK_MTU_def send_ipv4_raw_def t_def [symmetric] p_def)
  ultimately show ?thesis using r by blast
qed

theorem send_tcp_parses_back_witness:
  "tcp_header_len 0x18 + length [104, 105 :: byte] \<le> 1480 \<and>
   (\<exists>frame. send_tcp quiet_link demo_net demo_conn 0x18 [104, 105]
      = (0, demo_net\<lparr>ip_ident := 2, link_dev := [frame]\<rparr>) \<and> slice 40 2 frame = [104, 105])"
proof -
  have h: "tcp_header_len 0x18 = 20" by (simp add: tcp_header_len_def TCP_SYN_def)
  then have le: "tcp_header_len 0x18 + length [104, 105 :: byte] \<le> 1480" by simp
  from send_tcp_parses_back [OF le, of quiet_link demo_net demo_conn] h show ?thesis
    by (auto simp: l2_send_ethernet_def quiet_link_def demo_net_def numeral_2_eq_2)
qed

text \<open>The same for datagrams: \<^verbatim>\<open>send_udp_raw\<close> of a payload that fits sends one frame whose parse gives back addresses, ports and payload.\<close>

theorem send_udp_parses_back:
  assumes "length payload \<le> 1472"
  shows "\<exists>frame. send_udp_raw l s dst_mac src_ip dst_ip src_port dst_port payload
      = l2_send_ethernet l (s\<lparr>ip_ident := ip_ident s + 1\<rparr>) dst_mac ETH_TYPE_IPV4 frame \<and>
    parse_ipv4_udp frame (length frame) = Some (Some (src_ip, dst_ip, src_port, dst_port, 28, length payload)) \<and>
    slice 28 (length payload) frame = payload"
proof -
  define u where "u = take (length payload + 8) (udp_datagram src_port dst_port payload)"
  define p where "p = take (20 + length u) (ipv4_packet (ip_ident s) src_ip dst_ip IP_PROTO_UDP u)"
  have "length u = length payload + 8" using udp_fields(1) [OF assms] by (simp add: u_def)
  then have "send_udp_raw l s dst_mac src_ip dst_ip src_port dst_port payload
      = l2_send_ethernet l (s\<lparr>ip_ident := ip_ident s + 1\<rparr>) dst_mac ETH_TYPE_IPV4 p"
    using assms by (simp add: send_udp_raw_def NETSTACK_MTU_def send_ipv4_raw_def u_def [symmetric] p_def)
  then show ?thesis using udp_roundtrip [OF assms, of src_port dst_port "ip_ident s" src_ip dst_ip] unfolding p_def u_def by blast
qed

end
