(* ===== verification/TcpServer.thy ===== *)
theory TcpServer
  imports NetPacket
begin

text \<open>
  The TCP server of \<^verbatim>\<open>kernel/drivers/netstack.c\<close> that the SSH service polls: one listening port, one peer at a time,
  no retransmission. A poll takes the buffers of its caller and returns the result code, the server, the network state, the receive
  buffer and the length stored through \<^verbatim>\<open>rx_len\<close>. \<open>None\<close> is a read outside a packet, which the lemmas exclude.
\<close>

section \<open>The server\<close>

datatype server_state = CLOSED | LISTEN | SYN_RCVD | ESTABLISHED

record netstack_tcp_server_t =
  enabled :: bool
  srv_state :: server_state
  listen_port :: u16
  srv_remote_port :: u16
  srv_remote_ip :: u32
  srv_seq :: u32
  srv_ack :: u32
  srv_remote_mac :: bytes
  connections :: u32
  rx_packets :: u32
  tx_packets :: u32
  rx_bytes :: u32
  tx_bytes :: u32
  resets :: u32
  last_flags :: u32

definition tcp_server_to_conn :: "netstack_tcp_server_t \<Rightarrow> tcp_conn_t" where
  "tcp_server_to_conn srv = \<lparr>remote_ip = srv_remote_ip srv, remote_port = srv_remote_port srv, local_port = listen_port srv,
    seq = srv_seq srv, ack = srv_ack srv, remote_mac = srv_remote_mac srv\<rparr>"

definition tcp_server_send ::
  "'l link \<Rightarrow> 'l net \<Rightarrow> netstack_tcp_server_t \<Rightarrow> byte \<Rightarrow> bytes \<Rightarrow> int \<times> netstack_tcp_server_t \<times> 'l net" where
  "tcp_server_send l s srv flags data =
    (case send_tcp l s (tcp_server_to_conn srv) flags data of
       (rc, s) \<Rightarrow> (rc, if rc \<ge> 0 then srv\<lparr>tx_packets := tx_packets srv + 1, tx_bytes := tx_bytes srv + of_nat (length data)\<rparr> else srv, s))"

definition tcp_server_reset_peer :: "netstack_tcp_server_t \<Rightarrow> netstack_tcp_server_t" where
  "tcp_server_reset_peer srv =
    srv\<lparr>srv_state := (if enabled srv then LISTEN else CLOSED), srv_remote_ip := 0, srv_remote_port := 0, srv_seq := 0, srv_ack := 0,
      last_flags := 0, srv_remote_mac := replicate 6 0\<rparr>"

definition tcp_server_peer_matches :: "netstack_tcp_server_t \<Rightarrow> u32 \<Rightarrow> u16 \<Rightarrow> bool" where
  "tcp_server_peer_matches srv src_ip src_port \<longleftrightarrow> srv_remote_ip srv = src_ip \<and> srv_remote_port srv = src_port"

definition server_zero :: netstack_tcp_server_t where
  "server_zero = \<lparr>enabled = False, srv_state = CLOSED, listen_port = 0, srv_remote_port = 0, srv_remote_ip = 0, srv_seq = 0, srv_ack = 0,
    srv_remote_mac = replicate 6 0, connections = 0, rx_packets = 0, tx_packets = 0, rx_bytes = 0, tx_bytes = 0, resets = 0, last_flags = 0\<rparr>"

definition netstack_tcp_server_init :: "netstack_tcp_server_t option \<Rightarrow> u16 \<Rightarrow> netstack_tcp_server_t option" where
  "netstack_tcp_server_init srv port =
    map_option (\<lambda>_. server_zero\<lparr>enabled := True, srv_state := LISTEN, listen_port := port\<rparr>) srv"

definition netstack_tcp_server_close ::
  "'l link \<Rightarrow> 'l net \<Rightarrow> netstack_tcp_server_t option \<Rightarrow> int \<times> netstack_tcp_server_t option \<times> 'l net" where
  "netstack_tcp_server_close l s srv =
    (case srv of
       None \<Rightarrow> (-1, None, s)
     | Some srv \<Rightarrow>
         let (srv, s) = (if enabled srv \<and> srv_state srv = ESTABLISHED
                         then case tcp_server_send l s srv (TCP_FIN OR TCP_ACK) [] of
                                (rc, srv, s) \<Rightarrow> (if rc \<ge> 0 then srv\<lparr>srv_seq := srv_seq srv + 1\<rparr> else srv, s)
                         else (srv, s))
         in (0, Some (tcp_server_reset_peer (srv\<lparr>enabled := False\<rparr>)), s))"

definition netstack_tcp_server_state_name :: "netstack_tcp_server_t option \<Rightarrow> string" where
  "netstack_tcp_server_state_name srv =
    (case srv of
       None \<Rightarrow> ''closed''
     | Some srv \<Rightarrow>
         if \<not> enabled srv then ''closed''
         else case srv_state srv of LISTEN \<Rightarrow> ''listen'' | SYN_RCVD \<Rightarrow> ''syn-received'' | ESTABLISHED \<Rightarrow> ''established'' | CLOSED \<Rightarrow> ''closed'')"

section \<open>The poll\<close>

record 'l poll_result =
  poll_rc :: int
  poll_srv :: netstack_tcp_server_t
  poll_net :: "'l net"
  poll_rx :: "bytes option"
  poll_rx_len :: nat

text \<open>A segment for this port while the server listens.\<close>

definition poll_listen :: "'l link \<Rightarrow> 'l net \<Rightarrow> netstack_tcp_server_t \<Rightarrow> bytes \<Rightarrow> tcp_fields \<Rightarrow> int \<times> netstack_tcp_server_t \<times> 'l net" where
  "poll_listen l s srv src_mac f =
    (if seg_flags f AND TCP_SYN = 0 then (0, srv, s)
     else let srv = srv\<lparr>srv_remote_ip := seg_src_ip f, srv_remote_port := seg_src_port f, srv_remote_mac := src_mac,
                srv_seq := 0x53534800 XOR ucast (timer_ticks l (link_dev s)), srv_ack := seg_seq f + 1,
                connections := connections srv + 1, srv_state := SYN_RCVD\<rparr>
          in case tcp_server_send l s srv (TCP_SYN OR TCP_ACK) [] of
               (rc, srv, s) \<Rightarrow> if rc < 0 then (-3, tcp_server_reset_peer (srv\<lparr>resets := resets srv + 1\<rparr>), s) else (2, srv, s))"

definition poll_syn_rcvd :: "'l link \<Rightarrow> 'l net \<Rightarrow> netstack_tcp_server_t \<Rightarrow> tcp_fields \<Rightarrow> int \<times> netstack_tcp_server_t \<times> 'l net" where
  "poll_syn_rcvd l s srv f =
    (if seg_flags f AND TCP_SYN \<noteq> 0 \<and> seg_flags f AND TCP_ACK = 0
     then (case tcp_server_send l s srv (TCP_SYN OR TCP_ACK) [] of (_, srv, s) \<Rightarrow> (2, srv, s))
     else if seg_flags f AND TCP_ACK \<noteq> 0 \<and> seg_ack f = srv_seq srv + 1
     then (3, srv\<lparr>srv_seq := srv_seq srv + 1, srv_state := ESTABLISHED\<rparr>, s)
     else (0, srv, s))"

text \<open>A segment of the established connection, with the caller's buffer and its capacity.\<close>

definition poll_established ::
  "'l link \<Rightarrow> 'l net \<Rightarrow> netstack_tcp_server_t \<Rightarrow> bytes \<Rightarrow> tcp_fields \<Rightarrow> bytes option \<Rightarrow> nat \<Rightarrow> 'l poll_result" where
  "poll_established l s srv packet f rx rx_cap =
    (if seg_flags f AND TCP_FIN \<noteq> 0
     then case tcp_server_send l s (srv\<lparr>srv_ack := seg_seq f + 1\<rparr>) TCP_ACK [] of
            (_, srv, s) \<Rightarrow> \<lparr>poll_rc = 5, poll_srv = tcp_server_reset_peer srv, poll_net = s, poll_rx = rx, poll_rx_len = 0\<rparr>
     else if seg_len f > 0
     then let srv = srv\<lparr>rx_packets := rx_packets srv + 1, rx_bytes := rx_bytes srv + of_nat (seg_len f)\<rparr> in
       if seg_seq f = srv_ack srv
       then let copy = (if rx \<noteq> None \<and> rx_cap > 0 then min (seg_len f) rx_cap else seg_len f);
                (rx, rx_len) = (if rx \<noteq> None \<and> rx_cap > 0 then (map_option (blit 0 (slice (seg_off f) copy packet)) rx, copy) else (rx, 0))
            in case tcp_server_send l s (srv\<lparr>srv_ack := srv_ack srv + of_nat (seg_len f)\<rparr>) TCP_ACK [] of
                 (_, srv, s) \<Rightarrow> \<lparr>poll_rc = 6, poll_srv = srv, poll_net = s, poll_rx = rx, poll_rx_len = rx_len\<rparr>
       else (case tcp_server_send l s srv TCP_ACK [] of
               (_, srv, s) \<Rightarrow> \<lparr>poll_rc = 7, poll_srv = srv, poll_net = s, poll_rx = rx, poll_rx_len = 0\<rparr>)
     else \<lparr>poll_rc = (if seg_flags f AND TCP_ACK \<noteq> 0 then 8 else 0), poll_srv = srv, poll_net = s, poll_rx = rx, poll_rx_len = 0\<rparr>)"

definition poll_segment ::
  "'l link \<Rightarrow> 'l net \<Rightarrow> netstack_tcp_server_t \<Rightarrow> bytes \<Rightarrow> bytes \<Rightarrow> tcp_fields \<Rightarrow> bytes option \<Rightarrow> nat \<Rightarrow> 'l poll_result" where
  "poll_segment l s srv src_mac packet f rx rx_cap =
    (let plain = (\<lambda>(rc, srv, s). \<lparr>poll_rc = rc, poll_srv = srv, poll_net = s, poll_rx = rx, poll_rx_len = 0\<rparr>) in
     if seg_dst_ip f \<noteq> st_ip (stack_status s) \<or> seg_dst_port f \<noteq> listen_port srv then plain (0, srv, s)
     else let srv = srv\<lparr>last_flags := ucast (seg_flags f)\<rparr> in
       if srv_state srv = LISTEN then plain (poll_listen l s srv src_mac f)
       else if \<not> tcp_server_peer_matches srv (seg_src_ip f) (seg_src_port f) then plain (0, srv, s)
       else if seg_flags f AND TCP_RST \<noteq> 0 then plain (-4, tcp_server_reset_peer (srv\<lparr>resets := resets srv + 1\<rparr>), s)
       else if srv_state srv = SYN_RCVD then plain (poll_syn_rcvd l s srv f)
       else if srv_state srv \<noteq> ESTABLISHED then plain (0, srv, s)
       else poll_established l s srv packet f rx rx_cap)"

definition poll_receive ::
  "'l link \<Rightarrow> 'l net \<Rightarrow> netstack_tcp_server_t \<Rightarrow> bytes option \<Rightarrow> nat \<Rightarrow> 'l poll_result option" where
  "poll_receive l s srv rx rx_cap =
    (let quiet = (\<lambda>rc s. \<lparr>poll_rc = rc, poll_srv = srv, poll_net = s, poll_rx = rx, poll_rx_len = 0\<rparr>) in
     case recv_frame l s of
       (n, src_mac, eth_type, s) \<Rightarrow>
         if n \<le> 0 then Some (quiet 0 s)
         else if eth_type = ETH_TYPE_ARP then map_option (quiet 1) (handle_arp l s src_mac (frame_buf s) (nat n))
         else if eth_type \<noteq> ETH_TYPE_IPV4 then Some (quiet 0 s)
         else case parse_ipv4_tcp (frame_buf s) (nat n) of
                None \<Rightarrow> None
              | Some None \<Rightarrow> Some (quiet 0 s)
              | Some (Some f) \<Rightarrow> Some (poll_segment l s srv src_mac (frame_buf s) f rx rx_cap))"

definition netstack_tcp_server_poll ::
  "'l link \<Rightarrow> 'l net \<Rightarrow> netstack_tcp_server_t \<Rightarrow> bytes option \<Rightarrow> bytes option \<Rightarrow> nat \<Rightarrow> 'l poll_result option" where
  "netstack_tcp_server_poll l s srv tx rx rx_cap =
    (let quiet = (\<lambda>rc srv s. \<lparr>poll_rc = rc, poll_srv = srv, poll_net = s, poll_rx = rx, poll_rx_len = 0\<rparr>) in
     if \<not> enabled srv \<or> srv_state srv = CLOSED then Some (quiet 0 srv s)
     else if \<not> ipv4_ready (stack_status s) then Some (quiet (-1) srv s)
     else if srv_state srv = ESTABLISHED \<and> tx \<noteq> None \<and> length (the tx) > 0
     then case tcp_server_send l s srv (TCP_PSH OR TCP_ACK) (the tx) of
            (rc, srv, s) \<Rightarrow> Some (if rc < 0 then quiet (-2) srv s else quiet 4 (srv\<lparr>srv_seq := srv_seq srv + of_nat (length (the tx))\<rparr>) s)
     else poll_receive l s srv rx rx_cap)"

section \<open>What a step leaves alone\<close>

lemma l2_send_keeps: "stack_status (snd (l2_send_ethernet l s m ty p)) = stack_status s" "frame_buf (snd (l2_send_ethernet l s m ty p)) = frame_buf s"
  by (simp_all add: l2_send_ethernet_def split: prod.splits)

lemma send_tcp_keeps: "stack_status (snd (send_tcp l s c fl data)) = stack_status s" "frame_buf (snd (send_tcp l s c fl data)) = frame_buf s"
  by (simp_all add: send_tcp_def send_ipv4_raw_def Let_def l2_send_keeps)

text \<open>The part of the server that only the poll itself changes.\<close>

definition control :: "netstack_tcp_server_t \<Rightarrow> netstack_tcp_server_t" where
  "control srv = srv\<lparr>tx_packets := 0, tx_bytes := 0\<rparr>"

lemma control_fields:
  assumes "control srv' = control srv"
  shows "enabled srv' = enabled srv" "srv_state srv' = srv_state srv" "listen_port srv' = listen_port srv" "srv_ack srv' = srv_ack srv"
    "srv_seq srv' = srv_seq srv" "srv_remote_ip srv' = srv_remote_ip srv" "srv_remote_port srv' = srv_remote_port srv"
  using arg_cong [OF assms, of enabled] arg_cong [OF assms, of srv_state] arg_cong [OF assms, of listen_port] arg_cong [OF assms, of srv_ack]
    arg_cong [OF assms, of srv_seq] arg_cong [OF assms, of srv_remote_ip] arg_cong [OF assms, of srv_remote_port]
  by (simp_all add: control_def)

lemma tcp_server_send_keeps:
  assumes "tcp_server_send l s srv fl data = (rc, srv', s')"
  shows "control srv' = control srv" "stack_status s' = stack_status s" "frame_buf s' = frame_buf s"
  using assms send_tcp_keeps [of l s "tcp_server_to_conn srv" fl data]
  by (auto simp: tcp_server_send_def control_def split: prod.splits)

lemma handle_arp_keeps: "handle_arp l s m p n = Some s' \<Longrightarrow> stack_status s' = stack_status s \<and> frame_buf s' = frame_buf s"
  unfolding handle_arp_def Let_def send_arp_reply_def
  by (auto simp: bind_eq_Some_conv l2_send_keeps split: if_splits option.splits)

lemma poll_receive_total:
  assumes "link_ok l" "length (frame_buf s) = 1500"
  shows "poll_receive l s srv rx cap \<noteq> None"
proof -
  obtain n m ty s' where r: "recv_frame l s = (n, m, ty, s')" by (metis prod_cases4)
  note ok = recv_frame_ok [OF assms r]
  have "nat n \<le> length (frame_buf s')" using ok by simp
  then show ?thesis unfolding poll_receive_def Let_def r prod.case
    using parse_tcp_safe(1) [of "nat n" "frame_buf s'"] handle_arp_safe [of "nat n" "frame_buf s'"] by (auto split: option.splits)
qed

lemma poll_total:
  assumes "link_ok l" "length (frame_buf s) = 1500"
  shows "netstack_tcp_server_poll l s srv tx rx cap \<noteq> None"
  using poll_receive_total [OF assms] by (auto simp: netstack_tcp_server_poll_def Let_def split: prod.splits if_splits simp del: not_None_eq)

lemma send_fields:
  "tcp_server_send l s srv fl data = (rc, srv', s') \<Longrightarrow>
    enabled srv' = enabled srv \<and> srv_state srv' = srv_state srv \<and> listen_port srv' = listen_port srv \<and> srv_ack srv' = srv_ack srv \<and>
    srv_seq srv' = srv_seq srv \<and> srv_remote_ip srv' = srv_remote_ip srv \<and> srv_remote_port srv' = srv_remote_port srv \<and>
    stack_status s' = stack_status s \<and> frame_buf s' = frame_buf s"
  using control_fields [of srv' srv] tcp_server_send_keeps [of l s srv fl data rc srv' s'] by simp

section \<open>The state machine\<close>

text \<open>The result codes of a poll and the transitions they stand for.\<close>

definition step_allowed :: "int \<Rightarrow> server_state \<Rightarrow> server_state \<Rightarrow> bool" where
  "step_allowed rc st st' =
    (if rc = 2 then st \<in> {LISTEN, SYN_RCVD} \<and> st' = SYN_RCVD
     else if rc = 3 then st = SYN_RCVD \<and> st' = ESTABLISHED
     else if rc = 5 then st = ESTABLISHED \<and> st' = LISTEN
     else if rc = -3 then st = LISTEN \<and> st' = LISTEN
     else if rc = -4 then st \<in> {SYN_RCVD, ESTABLISHED} \<and> st' = LISTEN
     else if rc \<in> {4, 6, 7, 8, -2} then st = ESTABLISHED \<and> st' = ESTABLISHED
     else rc \<in> {-1, 0, 1} \<and> st' = st)"

definition srv_inv :: "netstack_tcp_server_t \<Rightarrow> bool" where
  "srv_inv srv \<longleftrightarrow> (srv_state srv = CLOSED \<longleftrightarrow> \<not> enabled srv) \<and>
    (srv_state srv \<in> {CLOSED, LISTEN} \<longrightarrow> srv_remote_ip srv = 0 \<and> srv_remote_port srv = 0 \<and> srv_seq srv = 0 \<and> srv_ack srv = 0)"

text \<open>The segment a receive delivers, with its data.\<close>

definition received :: "'l link \<Rightarrow> 'l net \<Rightarrow> (tcp_fields \<times> bytes) option" where
  "received l s =
    (case recv_frame l s of
       (n, m, ty, s') \<Rightarrow>
         if n > 0 \<and> ty = ETH_TYPE_IPV4
         then (case parse_ipv4_tcp (frame_buf s') (nat n) of
                 Some (Some f) \<Rightarrow> Some (f, slice (seg_off f) (seg_len f) (frame_buf s')) | _ \<Rightarrow> None)
         else None)"

definition step_ok :: "netstack_tcp_server_t \<Rightarrow> 'l net \<Rightarrow> int \<Rightarrow> netstack_tcp_server_t \<Rightarrow> 'l net \<Rightarrow> bool" where
  "step_ok srv s rc srv' s' \<longleftrightarrow> srv_inv srv' \<and> step_allowed rc (srv_state srv) (srv_state srv') \<and>
    frame_buf s' = frame_buf s \<and> stack_status s' = stack_status s"

lemma srv_inv_peer: "enabled srv \<Longrightarrow> srv_state srv \<in> {SYN_RCVD, ESTABLISHED} \<Longrightarrow> srv_inv srv"
  by (auto simp: srv_inv_def)

lemma srv_inv_reset: "srv_inv (tcp_server_reset_peer srv)"
  by (simp add: srv_inv_def tcp_server_reset_peer_def)

lemma reset_fields: "srv_state (tcp_server_reset_peer srv) = (if enabled srv then LISTEN else CLOSED)"
  by (simp add: tcp_server_reset_peer_def)

lemma poll_listen_ok:
  assumes "srv_inv srv" "enabled srv" "srv_state srv = LISTEN" "poll_listen l s srv m f = (rc, srv', s')"
  shows "step_ok srv s rc srv' s'"
  using assms unfolding poll_listen_def Let_def
  by (auto simp: step_ok_def step_allowed_def srv_inv_reset reset_fields srv_inv_peer split: prod.splits if_splits dest!: send_fields)

lemma poll_syn_rcvd_ok:
  assumes "enabled srv" "srv_state srv = SYN_RCVD" "poll_syn_rcvd l s srv f = (rc, srv', s')"
  shows "step_ok srv s rc srv' s'" "rc = 3 \<Longrightarrow> seg_flags f AND TCP_ACK \<noteq> 0 \<and> seg_ack f = srv_seq srv + 1"
  using assms unfolding poll_syn_rcvd_def
  by (auto simp: step_ok_def step_allowed_def srv_inv_peer split: prod.splits if_splits dest!: send_fields)

text \<open>A poll of an established connection: it ends, or delivers the next bytes, or leaves the acknowledgement alone.\<close>

lemma poll_established_cases:
  assumes "srv_state srv = ESTABLISHED" "poll_established l s srv p f rx cap = r"
  obtains (fin) srv1 s1 where "poll_rc r = 5" "poll_srv r = tcp_server_reset_peer srv1" "enabled srv1 = enabled srv" "poll_net r = s1"
      "frame_buf s1 = frame_buf s" "stack_status s1 = stack_status s"
  | (data) "poll_rc r = 6" "srv_state (poll_srv r) = ESTABLISHED" "enabled (poll_srv r) = enabled srv" "frame_buf (poll_net r) = frame_buf s" "stack_status (poll_net r) = stack_status s"
      "seg_seq f = srv_ack srv" "0 < seg_len f" "srv_ack (poll_srv r) = srv_ack srv + of_nat (seg_len f)"
      "rx \<noteq> None \<and> cap > 0 \<Longrightarrow> poll_rx r = map_option (blit 0 (slice (seg_off f) (min (seg_len f) cap) p)) rx \<and> poll_rx_len r = min (seg_len f) cap"
  | (other) "poll_rc r \<in> {7, 8, 0}" "srv_state (poll_srv r) = ESTABLISHED" "enabled (poll_srv r) = enabled srv" "frame_buf (poll_net r) = frame_buf s" "stack_status (poll_net r) = stack_status s"
      "srv_ack (poll_srv r) = srv_ack srv" "poll_rx_len r = 0"
proof -
  obtain rc1 srv1 s1 where e1: "tcp_server_send l s (srv\<lparr>srv_ack := seg_seq f + 1\<rparr>) TCP_ACK [] = (rc1, srv1, s1)" by (metis prod_cases3)
  define srv2 where "srv2 = srv\<lparr>rx_packets := rx_packets srv + 1, rx_bytes := rx_bytes srv + of_nat (seg_len f)\<rparr>"
  obtain rc3 srv3 s3 where e3: "tcp_server_send l s (srv2\<lparr>srv_ack := srv_ack srv2 + of_nat (seg_len f)\<rparr>) TCP_ACK [] = (rc3, srv3, s3)" by (metis prod_cases3)
  obtain rc4 srv4 s4 where e4: "tcp_server_send l s srv2 TCP_ACK [] = (rc4, srv4, s4)" by (metis prod_cases3)
  note r = assms(2) [symmetric, unfolded poll_established_def Let_def, folded srv2_def, unfolded e1 e3 e4 prod.case]
  consider "seg_flags f AND TCP_FIN \<noteq> 0" | "seg_flags f AND TCP_FIN = 0" "0 < seg_len f" "seg_seq f = srv_ack srv"
    | "seg_flags f AND TCP_FIN = 0" "0 < seg_len f" "seg_seq f \<noteq> srv_ack srv" | "seg_flags f AND TCP_FIN = 0" "seg_len f = 0" by blast
  then show thesis
  proof cases
    case 1
    then show ?thesis using send_fields [OF e1] by (intro fin [of srv1 s1]) (simp_all add: r)
  next
    case 2
    then show ?thesis using send_fields [OF e3] assms(1) by (intro data) (auto simp: r srv2_def split: prod.splits)
  next
    case 3
    then show ?thesis using send_fields [OF e4] assms(1) by (intro other) (auto simp: r srv2_def)
  next
    case 4
    then show ?thesis using assms(1) by (intro other) (auto simp: r)
  qed
qed

lemma poll_established_ok:
  assumes "enabled srv" "srv_state srv = ESTABLISHED" "poll_established l s srv p f rx cap = r"
  shows "step_ok srv s (poll_rc r) (poll_srv r) (poll_net r) \<and> poll_rc r \<noteq> 3"
  using assms(1,2) by (rule_tac poll_established_cases [OF assms(2,3)])
    (auto simp: step_ok_def step_allowed_def srv_inv_reset reset_fields srv_inv_peer)

lemma step_ok_flags: "step_ok (srv\<lparr>last_flags := x\<rparr>) s rc srv' s' \<longleftrightarrow> step_ok srv s rc srv' s'"
  by (simp add: step_ok_def)

lemma srv_inv_flags [simp]: "srv_inv (srv\<lparr>last_flags := x\<rparr>) \<longleftrightarrow> srv_inv srv"
  by (simp add: srv_inv_def)

lemma poll_segment_ok:
  assumes "srv_inv srv" "enabled srv" "poll_segment l s srv m p f rx cap = r"
  shows "step_ok srv s (poll_rc r) (poll_srv r) (poll_net r)"
    "poll_rc r = 3 \<Longrightarrow> tcp_server_peer_matches srv (seg_src_ip f) (seg_src_port f) \<and> seg_flags f AND TCP_ACK \<noteq> 0 \<and> seg_ack f = srv_seq srv + 1"
proof -
  define srv1 where "srv1 = srv\<lparr>last_flags := ucast (seg_flags f)\<rparr>"
  have s1: "srv_inv srv1" "enabled srv1" "srv_state srv1 = srv_state srv" "srv_seq srv1 = srv_seq srv"
    "tcp_server_peer_matches srv1 (seg_src_ip f) (seg_src_port f) = tcp_server_peer_matches srv (seg_src_ip f) (seg_src_port f)"
    using assms(1,2) by (simp_all add: srv1_def tcp_server_peer_matches_def)
  have stay: "step_ok srv s 0 srv s" "step_ok srv s 0 srv1 s" using assms(1) s1 by (simp_all add: step_ok_def step_allowed_def)
  have rst: "srv_state srv \<in> {SYN_RCVD, ESTABLISHED} \<Longrightarrow> step_ok srv s (-4) (tcp_server_reset_peer (srv1\<lparr>resets := resets srv1 + 1\<rparr>)) s"
    using s1 by (simp add: step_ok_def step_allowed_def srv_inv_reset reset_fields)
  have sub: "step_ok srv1 s rc srv' s' \<Longrightarrow> step_ok srv s rc srv' s'" for rc srv' s' by (simp add: srv1_def step_ok_flags)
  obtain rc2 srv2 s2 rc3 srv3 s3 where pl: "poll_listen l s srv1 m f = (rc2, srv2, s2)" and ps: "poll_syn_rcvd l s srv1 f = (rc3, srv3, s3)"
    by (metis prod_cases3)
  have closed: "srv_state srv \<noteq> CLOSED" using assms(1,2) by (auto simp: srv_inv_def)
  have r: "r = poll_segment l s srv m p f rx cap" using assms(3) by simp
  show "step_ok srv s (poll_rc r) (poll_srv r) (poll_net r)"
    using stay rst poll_listen_ok [OF s1(1,2) _ pl] poll_syn_rcvd_ok(1) [OF s1(2) _ ps] poll_established_ok [OF s1(2) _ refl, where l = l and s = s and p = p and f = f and rx = rx and cap = cap] s1 closed
    unfolding r poll_segment_def Let_def srv1_def [symmetric] by (cases "srv_state srv") (auto simp: pl ps intro: sub)
  have "rc2 \<noteq> 3" if "srv_state srv = LISTEN" using poll_listen_ok [OF s1(1,2) _ pl] that s1 by (auto simp: step_ok_def step_allowed_def)
  then show "poll_rc r = 3 \<Longrightarrow> tcp_server_peer_matches srv (seg_src_ip f) (seg_src_port f) \<and> seg_flags f AND TCP_ACK \<noteq> 0 \<and> seg_ack f = srv_seq srv + 1"
    using poll_syn_rcvd_ok(2) [OF s1(2) _ ps] poll_established_ok [OF s1(2) _ refl, where l = l and s = s and p = p and f = f and rx = rx and cap = cap] s1
    unfolding r poll_segment_def Let_def srv1_def [symmetric] by (cases "srv_state srv") (auto simp: pl ps split: if_splits)
qed

section \<open>Runs\<close>

lemma poll_receive_cases:
  assumes "link_ok l" "length (frame_buf s) = 1500" "poll_receive l s srv rx cap = Some r"
  obtains (quiet) "poll_rc r \<in> {0, 1}" "poll_srv r = srv" "length (frame_buf (poll_net r)) = 1500" "poll_rx_len r = 0"
  | (segment) s1 m f data where "received l s = Some (f, data)" "r = poll_segment l s1 srv m (frame_buf s1) f rx cap"
      "data = slice (seg_off f) (seg_len f) (frame_buf s1)" "length (frame_buf s1) = 1500" "seg_off f + seg_len f \<le> 1500" "40 \<le> seg_off f"
proof -
  obtain n m ty s1 where r: "recv_frame l s = (n, m, ty, s1)" by (metis prod_cases4)
  note ok = recv_frame_ok [OF assms(1,2) r]
  note p = assms(3) [unfolded poll_receive_def Let_def r prod.case]
  consider "n \<le> 0 \<or> (ty \<noteq> ETH_TYPE_ARP \<and> ty \<noteq> ETH_TYPE_IPV4)" | "0 < n" "ty = ETH_TYPE_ARP" | "0 < n" "ty \<noteq> ETH_TYPE_ARP" "ty = ETH_TYPE_IPV4" by linarith
  then show thesis
  proof cases
    case 1
    then show ?thesis using p ok by (intro quiet) (auto split: if_splits)
  next
    case 2
    then obtain s2 where a: "handle_arp l s1 m (frame_buf s1) (nat n) = Some s2" and
      "r = \<lparr>poll_rc = 1, poll_srv = srv, poll_net = s2, poll_rx = rx, poll_rx_len = 0\<rparr>" using p by (auto split: if_splits)
    then show ?thesis using ok(1) handle_arp_keeps [OF a] by (intro quiet) simp_all
  next
    case 3
    show ?thesis
    proof (cases "parse_ipv4_tcp (frame_buf s1) (nat n)")
      case (Some q)
      show ?thesis
      proof (cases q)
        case None
        then show ?thesis using p 3 ok Some by (intro quiet) auto
      next
        case f: (Some f)
        have "received l s = Some (f, slice (seg_off f) (seg_len f) (frame_buf s1))" using 3 Some f by (simp add: received_def r)
        moreover have "r = poll_segment l s1 srv m (frame_buf s1) f rx cap" using p 3 Some f by simp
        moreover have "seg_off f + seg_len f \<le> 1500" "40 \<le> seg_off f"
          using parse_tcp_bounds [of "frame_buf s1" "nat n" f] Some f ok(2) by auto
        ultimately show ?thesis using ok(1) by (intro segment) auto
      qed
    qed (use p 3 in simp)
  qed
qed

lemma poll_ok:
  assumes "link_ok l" "length (frame_buf s) = 1500" "srv_inv srv" "netstack_tcp_server_poll l s srv tx rx cap = Some r"
  shows "srv_inv (poll_srv r)" "step_allowed (poll_rc r) (srv_state srv) (srv_state (poll_srv r))" "length (frame_buf (poll_net r)) = 1500"
    "poll_rc r = 3 \<Longrightarrow> \<exists>f data. received l s = Some (f, data) \<and> tcp_server_peer_matches srv (seg_src_ip f) (seg_src_port f) \<and>
       seg_flags f AND TCP_ACK \<noteq> 0 \<and> seg_ack f = srv_seq srv + 1"
proof -
  have all: "srv_inv (poll_srv r) \<and> step_allowed (poll_rc r) (srv_state srv) (srv_state (poll_srv r)) \<and> length (frame_buf (poll_net r)) = 1500 \<and>
    (poll_rc r = 3 \<longrightarrow> (\<exists>f data. received l s = Some (f, data) \<and> tcp_server_peer_matches srv (seg_src_ip f) (seg_src_port f) \<and>
       seg_flags f AND TCP_ACK \<noteq> 0 \<and> seg_ack f = srv_seq srv + 1))" (is ?ok)
  proof -
    note p = assms(4) [unfolded netstack_tcp_server_poll_def Let_def]
    consider "\<not> enabled srv \<or> srv_state srv = CLOSED \<or> \<not> ipv4_ready (stack_status s)"
      | "enabled srv" "srv_state srv = ESTABLISHED" "tx \<noteq> None \<and> length (the tx) > 0" "ipv4_ready (stack_status s)"
      | "enabled srv" "srv_state srv \<noteq> CLOSED" "poll_receive l s srv rx cap = Some r"
      using p by (auto split: if_splits)
    then show ?ok
    proof cases
      case 1
      then show ?thesis using p assms(2,3) by (auto simp: step_allowed_def split: if_splits)
    next
      case 2
      obtain rc srv1 s1 where e: "tcp_server_send l s srv (TCP_PSH OR TCP_ACK) (the tx) = (rc, srv1, s1)" by (metis prod_cases3)
      show ?thesis
      proof (cases "rc < 0")
        case True
        then have "r = \<lparr>poll_rc = -2, poll_srv = srv1, poll_net = s1, poll_rx = rx, poll_rx_len = 0\<rparr>" using p 2 by (simp add: e)
        then show ?thesis using 2 send_fields [OF e] assms(2) by (simp add: step_allowed_def srv_inv_peer)
      next
        case False
        then have "r = \<lparr>poll_rc = 4, poll_srv = srv1\<lparr>srv_seq := srv_seq srv1 + of_nat (length (the tx))\<rparr>, poll_net = s1, poll_rx = rx, poll_rx_len = 0\<rparr>"
          using p 2 by (simp add: e)
        then show ?thesis using 2 send_fields [OF e] assms(2) by (simp add: step_allowed_def srv_inv_peer)
      qed
    next
      case 3
      from assms(1,2) 3(3) show ?thesis
      proof (cases rule: poll_receive_cases)
        case quiet
        then show ?thesis using assms(3) by (simp add: step_allowed_def) linarith
      next
        case (segment s1 m f data)
        note ok = poll_segment_ok [OF assms(3) 3(1) segment(2) [symmetric]]
        show ?thesis using ok(1) segment(1,4) by (simp add: step_ok_def) (use ok(2) in blast)
      qed
    qed
  qed
  show "srv_inv (poll_srv r)" "step_allowed (poll_rc r) (srv_state srv) (srv_state (poll_srv r))" "length (frame_buf (poll_net r)) = 1500"
    "poll_rc r = 3 \<Longrightarrow> \<exists>f data. received l s = Some (f, data) \<and> tcp_server_peer_matches srv (seg_src_ip f) (seg_src_port f) \<and>
       seg_flags f AND TCP_ACK \<noteq> 0 \<and> seg_ack f = srv_seq srv + 1"
    using all by blast+
qed

text \<open>The life of a server: initialised on some port, polled with any buffers, closed, while the rest of the kernel uses the stack.\<close>

inductive tcp_reach :: "'l link \<Rightarrow> 'l net \<Rightarrow> netstack_tcp_server_t \<Rightarrow> bool" for l where
  start: "length (frame_buf s) = 1500 \<Longrightarrow> netstack_tcp_server_init (Some old) port = Some srv \<Longrightarrow> tcp_reach l s srv"
| poll: "tcp_reach l s srv \<Longrightarrow> netstack_tcp_server_poll l s srv tx rx cap = Some r \<Longrightarrow> tcp_reach l (poll_net r) (poll_srv r)"
| close: "tcp_reach l s srv \<Longrightarrow> netstack_tcp_server_close l s (Some srv) = (rc, Some srv', s') \<Longrightarrow> tcp_reach l s' srv'"
| other: "tcp_reach l s srv \<Longrightarrow> length (frame_buf s') = 1500 \<Longrightarrow> tcp_reach l s' srv"

lemma tcp_reach_inv:
  assumes "tcp_reach l s srv" "link_ok l"
  shows "srv_inv srv \<and> length (frame_buf s) = 1500"
  using assms
proof (induction rule: tcp_reach.induct)
  case (start s old port srv)
  then show ?case by (auto simp: netstack_tcp_server_init_def server_zero_def srv_inv_def)
next
  case (poll s srv tx rx cap r)
  then have inv: "srv_inv srv" "length (frame_buf s) = 1500" by simp_all
  show ?case using poll_ok [OF poll.prems inv(2,1) poll.hyps(2)] by simp
next
  case (close s srv rc srv' s')
  obtain c srv1 s1 where e: "tcp_server_send l s srv (TCP_FIN OR TCP_ACK) [] = (c, srv1, s1)" by (metis prod_cases3)
  show ?case using close send_fields [OF e]
    by (auto simp: netstack_tcp_server_close_def Let_def e srv_inv_reset split: if_splits)
qed simp

section \<open>The byte stream\<close>

text \<open>The peer sends a stream \<open>S\<close> whose first byte has the sequence number \<open>a\<close>: a data segment that arrives from it carries the bytes of
  the stream at its sequence number. Segments may be lost, repeated or reordered, and anyone else may send anything.\<close>

definition conforms :: "bytes \<Rightarrow> u32 \<Rightarrow> 'l link \<Rightarrow> 'l net \<Rightarrow> netstack_tcp_server_t \<Rightarrow> bool" where
  "conforms S a l s srv \<longleftrightarrow>
    (\<forall>f data. received l s = Some (f, data) \<and> tcp_server_peer_matches srv (seg_src_ip f) (seg_src_port f) \<and> 0 < seg_len f \<longrightarrow>
      (\<exists>off. off + seg_len f \<le> length S \<and> seg_seq f = a + of_nat off \<and> data = slice off (seg_len f) S))"

text \<open>A run of polls of one established connection with everything handed to the caller.\<close>

inductive stream_run :: "bytes \<Rightarrow> 'l link \<Rightarrow> netstack_tcp_server_t \<Rightarrow> 'l net \<Rightarrow> netstack_tcp_server_t \<Rightarrow> 'l net \<Rightarrow> bytes \<Rightarrow> bool" for S l srv0 s0 where
  start: "stream_run S l srv0 s0 srv0 s0 []"
| poll: "stream_run S l srv0 s0 srv s out \<Longrightarrow> conforms S (srv_ack srv0) l s srv \<Longrightarrow> 1460 \<le> cap \<Longrightarrow> cap \<le> length rx \<Longrightarrow>
    netstack_tcp_server_poll l s srv tx (Some rx) cap = Some r \<Longrightarrow> srv_state (poll_srv r) = ESTABLISHED \<Longrightarrow>
    stream_run S l srv0 s0 (poll_srv r) (poll_net r) (out @ take (poll_rx_len r) (the (poll_rx r)))"

lemma poll_delivers:
  assumes "link_ok l" "length (frame_buf s) = 1500" "enabled srv" "srv_state srv = ESTABLISHED" "1460 \<le> cap" "cap \<le> length rx"
    "netstack_tcp_server_poll l s srv tx (Some rx) cap = Some r" "srv_state (poll_srv r) = ESTABLISHED"
  shows "srv_ack (poll_srv r) = srv_ack srv \<and> poll_rx_len r = 0 \<or>
    (\<exists>f data. received l s = Some (f, data) \<and> tcp_server_peer_matches srv (seg_src_ip f) (seg_src_port f) \<and> 0 < seg_len f \<and> seg_seq f = srv_ack srv \<and>
       srv_ack (poll_srv r) = srv_ack srv + of_nat (seg_len f) \<and> take (poll_rx_len r) (the (poll_rx r)) = data \<and> length data = seg_len f)"
proof -
  note p = assms(7) [unfolded netstack_tcp_server_poll_def Let_def]
  consider "\<not> ipv4_ready (stack_status s)" | "ipv4_ready (stack_status s)" "tx \<noteq> None \<and> length (the tx) > 0" | "poll_receive l s srv (Some rx) cap = Some r"
    using p assms(3,4) by (auto split: if_splits)
  then show ?thesis
  proof cases
    case 1
    then have "r = \<lparr>poll_rc = -1, poll_srv = srv, poll_net = s, poll_rx = Some rx, poll_rx_len = 0\<rparr>" using p assms(3,4) by simp
    then show ?thesis by simp
  next
    case 2
    obtain rc srv1 s1 where e: "tcp_server_send l s srv (TCP_PSH OR TCP_ACK) (the tx) = (rc, srv1, s1)" by (metis prod_cases3)
    show ?thesis using p 2 assms(3,4) send_fields [OF e] by (cases "rc < 0") (auto simp: e)
  next
    case 3
    from assms(1,2) 3 show ?thesis
    proof (cases rule: poll_receive_cases)
      case (segment s1 m f data)
      define srv1 where "srv1 = srv\<lparr>last_flags := ucast (seg_flags f)\<rparr>"
      have s1: "srv_state srv1 = ESTABLISHED" "srv_ack srv1 = srv_ack srv"
        "tcp_server_peer_matches srv1 (seg_src_ip f) (seg_src_port f) = tcp_server_peer_matches srv (seg_src_ip f) (seg_src_port f)"
        using assms(4) by (simp_all add: srv1_def tcp_server_peer_matches_def)
      have l: "length data = seg_len f" "seg_len f \<le> 1460" using segment(3-6) by simp_all
      consider "poll_srv r = srv \<or> poll_srv r = srv1" "poll_rx_len r = 0"
        | "tcp_server_peer_matches srv (seg_src_ip f) (seg_src_port f)" "poll_established l s1 srv1 (frame_buf s1) f (Some rx) cap = r"
        using segment(2) s1 assms(8) unfolding poll_segment_def Let_def srv1_def [symmetric]
        by (auto simp: tcp_server_reset_peer_def split: if_splits)
      then show ?thesis
      proof cases
        case 1
        then show ?thesis using s1(2) by auto
      next
        case 2
        from s1(1) 2(2) show ?thesis
        proof (cases rule: poll_established_cases)
          case (fin srv2 s2)
          then show ?thesis using assms(8) by (simp add: tcp_server_reset_peer_def split: if_splits)
        next
          case data
          have "min (seg_len f) cap = seg_len f" using l(2) assms(5) by simp
          then have "poll_rx r = Some (blit 0 (slice (seg_off f) (seg_len f) (frame_buf s1)) rx)" "poll_rx_len r = seg_len f"
            using data(9) assms(5) by simp_all
          then have "take (poll_rx_len r) (the (poll_rx r)) = slice (seg_off f) (seg_len f) (frame_buf s1)" using segment(3) l by (simp add: blit_def)
          then show ?thesis using data segment(1,3) 2(1) s1(2) l by simp
        next
          case other
          then show ?thesis using s1(2) by simp
        qed
      qed
    qed simp
  qed
qed

lemma stream_run_prefix:
  assumes "stream_run S l srv0 s0 srv s out" "link_ok l" "length (frame_buf s0) = 1500" "srv_inv srv0" "srv_state srv0 = ESTABLISHED" "length S < 2 ^ 32"
  shows "srv_inv srv \<and> srv_state srv = ESTABLISHED \<and> length (frame_buf s) = 1500 \<and> length out \<le> length S \<and> out = take (length out) S \<and>
    srv_ack srv = srv_ack srv0 + of_nat (length out)"
  using assms
proof (induction rule: stream_run.induct)
  case (poll srv s out cap rx tx r)
  then have IH: "srv_inv srv" "srv_state srv = ESTABLISHED" "length (frame_buf s) = 1500" "length out \<le> length S" "out = take (length out) S"
    "srv_ack srv = srv_ack srv0 + of_nat (length out)" by simp_all
  then have en: "enabled srv" by (auto simp: srv_inv_def)
  note ok = poll_ok [OF poll.prems(1) IH(3,1) poll.hyps(5)]
  from poll_delivers [OF poll.prems(1) IH(3) en IH(2) poll.hyps(3-6)] show ?case
  proof (elim disjE exE conjE)
    assume "srv_ack (poll_srv r) = srv_ack srv" "poll_rx_len r = 0"
    then show ?thesis using IH ok poll.hyps(6) by simp
  next
    fix f data
    assume f: "received l s = Some (f, data)" "tcp_server_peer_matches srv (seg_src_ip f) (seg_src_port f)" "0 < seg_len f" "seg_seq f = srv_ack srv"
      "srv_ack (poll_srv r) = srv_ack srv + of_nat (seg_len f)" "take (poll_rx_len r) (the (poll_rx r)) = data" "length data = seg_len f"
    obtain off where off: "off + seg_len f \<le> length S" "seg_seq f = srv_ack srv0 + of_nat off" "data = slice off (seg_len f) S"
      using poll.hyps(2) f(1-3) unfolding conforms_def by blast
    have "of_nat off = (of_nat (length out) :: u32)" using f(4) off(2) IH(6) by simp
    then have "unat (of_nat off :: u32) = unat (of_nat (length out) :: u32)" by simp
    then have "off = length out" using off(1) IH(4) poll.prems(5) f(3) by (simp add: unsigned_of_nat take_bit_nat_eq_self)
    then have "out @ data = take (length out + seg_len f) S" using IH(5) off(3) by (simp add: slice_def take_add)
    then show ?thesis using IH ok poll.hyps(6) f off \<open>off = length out\<close> by (simp add: algebra_simps)
  qed
qed simp

section \<open>Properties\<close>

text \<open>A link whose device state is the list of frames to come; sending succeeds and is not recorded.\<close>

definition inbox_link :: "bytes list link" where
  "inbox_link = quiet_link\<lparr>net_send_ethernet := (\<lambda>d _ _ _. (0, d)), net_recv_ethernet := (\<lambda>d cap.
     case d of [] \<Rightarrow> ((0, [], 0, []), []) | f # fs \<Rightarrow>
       if length f \<le> cap then ((int (length f), replicate 6 3, ETH_TYPE_IPV4, f), fs) else ((0, [], 0, []), fs))\<rparr>"

definition demo_srv :: netstack_tcp_server_t where
  "demo_srv = server_zero\<lparr>enabled := True, srv_state := ESTABLISHED, listen_port := 22, srv_remote_port := 4242, srv_remote_ip := 0x0a000001,
    srv_seq := 5, srv_ack := 9\<rparr>"

text \<open>The frame of a segment that carries two bytes from the peer to the server.\<close>

definition demo_frame :: bytes where
  "demo_frame = (let c = \<lparr>remote_ip = 0x0a000002, remote_port = 22, local_port = 4242, seq = 9, ack = 5, remote_mac = replicate 6 2\<rparr>;
     t = take 22 (tcp_segment 0x0a000001 c 0x18 [104, 105]) in take 42 (ipv4_packet 77 0x0a000001 0x0a000002 IP_PROTO_TCP t))"

lemma inbox_link_ok: "link_ok inbox_link"
  by (auto simp: link_ok_def inbox_link_def quiet_link_def split: list.splits if_splits)

lemma demo_frame_parse:
  "length demo_frame = 42"
  "parse_ipv4_tcp demo_frame 42 = Some (Some \<lparr>seg_src_ip = 0x0a000001, seg_dst_ip = 0x0a000002, seg_src_port = 4242, seg_dst_port = 22,
     seg_seq = 9, seg_ack = 5, seg_flags = 0x18, seg_off = 40, seg_len = 2\<rparr>)"
  "slice 40 2 demo_frame = [104, 105]"
proof -
  define c where "c = \<lparr>remote_ip = 0x0a000002, remote_port = 22, local_port = 4242, seq = 9, ack = 5, remote_mac = replicate 6 2\<rparr>"
  define t where "t = take 22 (tcp_segment 0x0a000001 c 0x18 [104, 105])"
  have h: "tcp_header_len 0x18 = 20" by (simp add: tcp_header_len_def TCP_SYN_def)
  have le: "tcp_header_len 0x18 + length [104, 105 :: byte] \<le> 1480" using h by simp
  have lt: "length t = 22" using tcp_segment_fields(1) [OF le, where src_ip = "0x0a000001" and conn = c] h by (simp add: t_def)
  have f: "demo_frame = take (20 + length t) (ipv4_packet 77 0x0a000001 (remote_ip c) IP_PROTO_TCP t)"
    unfolding lt by (simp add: demo_frame_def Let_def c_def t_def)
  show l: "length demo_frame = 42" using ipv4_packet_fields(1) [of t] lt by (simp add: f)
  note r = tcp_roundtrip [OF le, where src_ip = "0x0a000001" and conn = c and ident = 77, unfolded h]
  have tt: "take (20 + length [104, 105 :: byte]) (tcp_segment 0x0a000001 c 0x18 [104, 105]) = t" by (simp add: t_def)
  note r = r [unfolded tt, folded f]
  show "parse_ipv4_tcp demo_frame 42 = Some (Some \<lparr>seg_src_ip = 0x0a000001, seg_dst_ip = 0x0a000002, seg_src_port = 4242, seg_dst_port = 22,
     seg_seq = 9, seg_ack = 5, seg_flags = 0x18, seg_off = 40, seg_len = 2\<rparr>)" using r(1) by (simp add: l c_def)
  show "slice 40 2 demo_frame = [104, 105]" using r(2) by (simp add: numeral_2_eq_2)
qed

definition demo_fields :: tcp_fields where
  "demo_fields = \<lparr>seg_src_ip = 0x0a000001, seg_dst_ip = 0x0a000002, seg_src_port = 4242, seg_dst_port = 22,
     seg_seq = 9, seg_ack = 5, seg_flags = 0x18, seg_off = 40, seg_len = 2\<rparr>"

lemma demo_receive:
  "received inbox_link (demo_net\<lparr>link_dev := [demo_frame]\<rparr>) = Some (demo_fields, [104, 105])"
  "\<exists>r. netstack_tcp_server_poll inbox_link (demo_net\<lparr>link_dev := [demo_frame]\<rparr>) demo_srv None (Some (replicate 1460 0)) 1460 = Some r \<and>
     srv_state (poll_srv r) = ESTABLISHED \<and> take (poll_rx_len r) (the (poll_rx r)) = [104, 105]"
proof -
  define B where "B = blit 0 demo_frame (replicate 1500 0)"
  have B: "take 42 B = demo_frame" "length B = 1500" using demo_frame_parse(1) by (simp_all add: B_def blit_def)
  have p: "parse_ipv4_tcp B 42 = Some (Some demo_fields)" using parse_tcp_safe(2) [of 42 B] B demo_frame_parse(2) by (simp add: demo_fields_def)
  have "slice 40 2 (take 42 B) = slice 40 2 B" by (simp add: slice_def drop_take)
  then have sl: "slice 40 2 B = [104, 105]" using demo_frame_parse(3) B(1) by simp
  have r: "recv_frame inbox_link (demo_net\<lparr>link_dev := [demo_frame]\<rparr>) = (42, replicate 6 3, ETH_TYPE_IPV4, demo_net\<lparr>link_dev := [], frame_buf := B\<rparr>)"
    using demo_frame_parse(1)
    by (simp add: recv_frame_def l2_recv_ethernet_def inbox_link_def quiet_link_def demo_net_def NETSTACK_MTU_def B_def)
  show "received inbox_link (demo_net\<lparr>link_dev := [demo_frame]\<rparr>) = Some (demo_fields, [104, 105])"
    using sl by (simp add: received_def r p demo_fields_def)
  have ty: "ETH_TYPE_IPV4 \<noteq> ETH_TYPE_ARP" by (simp add: ETH_TYPE_IPV4_def ETH_TYPE_ARP_def)
  define srv where "srv = demo_srv\<lparr>last_flags := 0x18\<rparr>"
  let ?s = "demo_net\<lparr>link_dev := [], frame_buf := B\<rparr>" and ?rx = "Some (replicate 1460 0)"
  have fl: "(0x18 :: byte) AND TCP_FIN = 0" "(0x18 :: byte) AND TCP_RST = 0" by (simp_all add: TCP_FIN_def TCP_RST_def)
  have poll: "netstack_tcp_server_poll inbox_link (demo_net\<lparr>link_dev := [demo_frame]\<rparr>) demo_srv None ?rx 1460
      = Some (poll_established inbox_link ?s srv B demo_fields ?rx 1460)"
    using ty fl by (simp add: netstack_tcp_server_poll_def poll_receive_def r p poll_segment_def Let_def demo_srv_def server_zero_def srv_def
        demo_fields_def tcp_server_peer_matches_def) (simp add: demo_net_def)
  have est: "srv_state srv = ESTABLISHED" by (simp add: srv_def demo_srv_def)
  define q where "q = poll_established inbox_link ?s srv B demo_fields ?rx 1460"
  from est q_def [symmetric] have "srv_state (poll_srv q) = ESTABLISHED \<and> take (poll_rx_len q) (the (poll_rx q)) = [104, 105]"
  proof (cases rule: poll_established_cases)
    case (fin srv1 s1)
    then show ?thesis using fl by (simp add: q_def poll_established_def demo_fields_def Let_def srv_def demo_srv_def split: prod.splits)
  next
    case data
    then show ?thesis using sl by (simp add: demo_fields_def blit_def)
  next
    case other
    then show ?thesis using fl by (simp add: q_def poll_established_def demo_fields_def Let_def srv_def demo_srv_def split: prod.splits)
  qed
  then show "\<exists>r. netstack_tcp_server_poll inbox_link (demo_net\<lparr>link_dev := [demo_frame]\<rparr>) demo_srv None ?rx 1460 = Some r \<and>
     srv_state (poll_srv r) = ESTABLISHED \<and> take (poll_rx_len r) (the (poll_rx r)) = [104, 105]" unfolding poll q_def by blast
qed

text \<open>C20: The TCP server follows its state machine whatever arrives. In every state a server reaches from its initialisation, closed exactly when
  disabled and with no peer recorded while it listens, a poll with any buffers and any frame from the driver returns without reading outside
  the frame, its result code determines the transition taken, and a connection is established only by a segment of the recorded peer
  that acknowledges the server's own initial sequence number.\<close>

theorem tcp_server_state_machine:
  assumes "link_ok l" "tcp_reach l s srv"
  shows "(srv_state srv = CLOSED \<longleftrightarrow> \<not> enabled srv) \<and> (srv_state srv = LISTEN \<longrightarrow> srv_remote_ip srv = 0 \<and> srv_remote_port srv = 0) \<and>
    (\<forall>tx rx cap. \<exists>r. netstack_tcp_server_poll l s srv tx rx cap = Some r \<and> step_allowed (poll_rc r) (srv_state srv) (srv_state (poll_srv r)) \<and>
      (srv_state srv \<noteq> ESTABLISHED \<and> srv_state (poll_srv r) = ESTABLISHED \<longrightarrow>
        (\<exists>f data. received l s = Some (f, data) \<and> tcp_server_peer_matches srv (seg_src_ip f) (seg_src_port f) \<and>
          seg_flags f AND TCP_ACK \<noteq> 0 \<and> seg_ack f = srv_seq srv + 1)))"
proof -
  have inv: "srv_inv srv" "length (frame_buf s) = 1500" using tcp_reach_inv [OF assms(2,1)] by simp_all
  have "\<exists>r. netstack_tcp_server_poll l s srv tx rx cap = Some r" for tx rx cap using poll_total [OF assms(1) inv(2)] by auto
  moreover have "st \<noteq> ESTABLISHED \<Longrightarrow> step_allowed rc st ESTABLISHED \<Longrightarrow> rc = 3" for rc st by (auto simp: step_allowed_def split: if_splits)
  ultimately show ?thesis using inv(1) poll_ok [OF assms(1) inv(2,1)] unfolding srv_inv_def by (intro conjI allI) (blast, blast, metis)
qed

theorem tcp_server_state_machine_witness:
  "link_ok inbox_link \<and> tcp_reach inbox_link demo_net (the (netstack_tcp_server_init (Some server_zero) 22)) \<and>
   (\<exists>r. netstack_tcp_server_poll inbox_link demo_net (the (netstack_tcp_server_init (Some server_zero) 22)) None None 0 = Some r \<and>
      step_allowed (poll_rc r) LISTEN (srv_state (poll_srv r)))"
proof -
  have r: "tcp_reach inbox_link demo_net (the (netstack_tcp_server_init (Some server_zero) 22))"
    by (rule tcp_reach.start [of _ server_zero 22]) (simp_all add: demo_net_def netstack_tcp_server_init_def)
  from tcp_server_state_machine [OF inbox_link_ok r] have "\<exists>r. netstack_tcp_server_poll inbox_link demo_net (the (netstack_tcp_server_init (Some server_zero) 22)) None None 0 = Some r \<and>
      step_allowed (poll_rc r) LISTEN (srv_state (poll_srv r))" by (simp add: netstack_tcp_server_init_def) blast
  then show ?thesis using inbox_link_ok r by simp
qed

text \<open>C19: The server delivers the peer's byte stream in order, without gaps and without repetition. Let an established connection be polled any number
  of times, with data to send or not, into buffers of at least 1460 bytes, while the network loses, repeats and reorders the peer's
  segments and delivers anything else: what the polls hand to the caller, put together, is a prefix of the stream that starts at the
  acknowledged sequence number, and the acknowledgement has advanced by exactly its length.\<close>

theorem tcp_stream_in_order:
  assumes "stream_run S l srv0 s0 srv s out" "link_ok l" "length (frame_buf s0) = 1500" "enabled srv0" "srv_state srv0 = ESTABLISHED" "length S < 2 ^ 32"
  shows "out = take (length out) S \<and> length out \<le> length S \<and> srv_ack srv = srv_ack srv0 + of_nat (length out)"
  using stream_run_prefix [OF assms(1-3) _ assms(5,6)] srv_inv_peer [OF assms(4)] assms(5) by simp_all

theorem tcp_stream_in_order_witness:
  "\<exists>srv s. stream_run [104, 105] inbox_link demo_srv (demo_net\<lparr>link_dev := [demo_frame]\<rparr>) srv s [104, 105] \<and> srv_ack srv = 11"
proof -
  let ?s = "demo_net\<lparr>link_dev := [demo_frame]\<rparr>"
  obtain r where r: "netstack_tcp_server_poll inbox_link ?s demo_srv None (Some (replicate 1460 0)) 1460 = Some r"
    "srv_state (poll_srv r) = ESTABLISHED" "take (poll_rx_len r) (the (poll_rx r)) = [104, 105]" using demo_receive(2) by blast
  have c: "conforms [104, 105] (srv_ack demo_srv) inbox_link ?s demo_srv"
    unfolding conforms_def demo_receive(1) by (auto simp: demo_fields_def demo_srv_def slice_def intro: exI [of _ 0])
  have run: "stream_run [104, 105] inbox_link demo_srv ?s (poll_srv r) (poll_net r) [104, 105]"
    using stream_run.poll [OF stream_run.start c _ _ r(1,2)] r(3) by simp
  have "length (frame_buf ?s) = 1500" "enabled demo_srv" "srv_state demo_srv = ESTABLISHED" "length [104, 105 :: byte] < 2 ^ 32"
    by (simp_all add: demo_net_def demo_srv_def)
  from tcp_stream_in_order [OF run inbox_link_ok this] have "srv_ack (poll_srv r) = 11" by (simp add: demo_srv_def)
  with run show ?thesis by blast
qed

text \<open>A segment with the FIN flag ends the connection whatever its sequence number, and the data it carries is neither delivered nor counted
  in the acknowledgement: one past its first sequence number is acknowledged.\<close>

theorem fin_segment_drops_data:
  assumes "seg_flags f AND TCP_FIN \<noteq> 0"
  shows "poll_rc (poll_established l s srv p f rx cap) = 5" "poll_rx_len (poll_established l s srv p f rx cap) = 0"
    "poll_net (poll_established l s srv p f rx cap) = snd (snd (tcp_server_send l s (srv\<lparr>srv_ack := seg_seq f + 1\<rparr>) TCP_ACK []))"
    "enabled srv \<Longrightarrow> srv_state (poll_srv (poll_established l s srv p f rx cap)) = LISTEN"
proof -
  obtain rc srv1 s1 where e: "tcp_server_send l s (srv\<lparr>srv_ack := seg_seq f + 1\<rparr>) TCP_ACK [] = (rc, srv1, s1)" by (metis prod_cases3)
  show "poll_rc (poll_established l s srv p f rx cap) = 5" "poll_rx_len (poll_established l s srv p f rx cap) = 0"
    "poll_net (poll_established l s srv p f rx cap) = snd (snd (tcp_server_send l s (srv\<lparr>srv_ack := seg_seq f + 1\<rparr>) TCP_ACK []))"
    "enabled srv \<Longrightarrow> srv_state (poll_srv (poll_established l s srv p f rx cap)) = LISTEN"
    using assms send_fields [OF e] by (simp_all add: poll_established_def e reset_fields)
qed

end
