(* ===== verification/NetWait.thy ===== *)
theory NetWait
  imports NetPacket
begin

text \<open>
  The blocking waits of \<^verbatim>\<open>kernel/drivers/netstack.c\<close>: deadlines, address resolution, datagrams, and the DHCP messages. A wait
  polls the driver until its deadline passes; if the timer does not advance, a counter of fruitless polls ends it. The loops
  are partial functions whose value \<open>None\<close> stands for a loop that does not end or a read outside a packet; the lemmas show that
  neither happens when the timer never goes back.
\<close>

section \<open>Deadlines\<close>

definition TIMER_HZ :: u64 where "TIMER_HZ = 100"
definition NETSTACK_FALLBACK_WAITS_PER_MS :: u64 where "NETSTACK_FALLBACK_WAITS_PER_MS = 16"
definition DHCP_CLIENT_PORT :: u16 where "DHCP_CLIENT_PORT = 68"
definition DHCP_SERVER_PORT :: u16 where "DHCP_SERVER_PORT = 67"

abbreviation now :: "'l link \<Rightarrow> 'l net \<Rightarrow> u64" where
  "now l s \<equiv> timer_ticks l (link_dev s)"

definition deadline_from_ms :: "'l link \<Rightarrow> 'l net \<Rightarrow> u64 \<Rightarrow> u64 \<times> 'l net" where
  "deadline_from_ms l s ms =
    (let ticks = (ms * TIMER_HZ + 999) div 1000;
         ticks = (if ticks = 0 then 1 else ticks)
     in (now l s + ticks, s\<lparr>net_deadline_last_tick := now l s, net_deadline_fallback_used := 0,
           net_deadline_fallback_budget := ms * NETSTACK_FALLBACK_WAITS_PER_MS + 512\<rparr>))"

definition before_deadline :: "'l link \<Rightarrow> 'l net \<Rightarrow> u64 \<Rightarrow> bool \<times> 'l net" where
  "before_deadline l s deadline =
    (if now l s > deadline then (False, s)
     else if now l s \<noteq> net_deadline_last_tick s then (True, s\<lparr>net_deadline_last_tick := now l s, net_deadline_fallback_used := 0\<rparr>)
     else (net_deadline_fallback_used s < net_deadline_fallback_budget s, s\<lparr>net_deadline_fallback_used := net_deadline_fallback_used s + 1\<rparr>))"

definition pause :: "'l link \<Rightarrow> 'l net \<Rightarrow> 'l net" where
  "pause l s = s\<lparr>link_dev := short_wait l (link_dev s)\<rparr>"

section \<open>Address resolution\<close>

text \<open>The address found, or \<open>None\<close> for the result -1.\<close>

partial_function (option) arp_loop :: "'l link \<Rightarrow> u32 \<Rightarrow> u64 \<Rightarrow> u64 \<Rightarrow> 'l net \<Rightarrow> (bytes option \<times> 'l net) option" where
  [code]: "arp_loop l ip deadline resend_at s =
    (case before_deadline l s deadline of
       (b, s) \<Rightarrow>
         if \<not> b then Some (None, s)
         else let (resend_at, s) = (if now l s \<ge> resend_at
                                    then let s = snd (send_arp_request l s ip) in (now l s + TIMER_HZ div 4, s)
                                    else (resend_at, s))
         in case recv_frame l s of
              (n, src_mac, eth_type, s) \<Rightarrow>
                if n > 0 \<and> eth_type = ETH_TYPE_ARP
                then do {
                  s \<leftarrow> handle_arp l s src_mac (frame_buf s) (nat n);
                  if arp_cached_ip s = ip then Some (Some (arp_cached_mac s), s) else arp_loop l ip deadline resend_at s }
                else arp_loop l ip deadline resend_at (pause l s))"

definition arp_resolve :: "'l link \<Rightarrow> 'l net \<Rightarrow> u32 \<Rightarrow> (bytes option \<times> 'l net) option" where
  "arp_resolve l s ip =
    (if arp_cached_ip s = ip then Some (Some (arp_cached_mac s), s)
     else case deadline_from_ms l s 2500 of (deadline, s) \<Rightarrow> arp_loop l ip deadline 0 s)"

definition send_udp :: "'l link \<Rightarrow> 'l net \<Rightarrow> u32 \<Rightarrow> u16 \<Rightarrow> u16 \<Rightarrow> bytes \<Rightarrow> (int \<times> 'l net) option" where
  "send_udp l s dst_ip src_port dst_port payload =
    (let next_hop = (if same_subnet s (st_ip (stack_status s)) dst_ip then dst_ip else st_gateway (stack_status s)) in
     if \<not> ipv4_ready (stack_status s) \<or> next_hop = 0 then Some (-1, s)
     else case arp_resolve l s next_hop of
            None \<Rightarrow> None
          | Some (None, s) \<Rightarrow> Some (-1, s)
          | Some (Some dst_mac, s) \<Rightarrow> Some (send_udp_raw l s dst_mac (st_ip (stack_status s)) dst_ip src_port dst_port payload))"

section \<open>DHCP messages\<close>

text \<open>Buffer and offset; an option that does not fit is left out, as every caller ignores the result.\<close>

definition dhcp_add_option :: "bytes \<times> nat \<Rightarrow> byte \<Rightarrow> bytes \<Rightarrow> bytes \<times> nat" where
  "dhcp_add_option opts_off code data =
    (case opts_off of (opts, off) \<Rightarrow>
       if off + 2 + length data \<ge> 312 then (opts, off)
       else let opts = opts[off := code, off + 1 := of_nat (length data)]
            in (if length data > 0 then blit (off + 2) data opts else opts, off + 2 + length data))"

definition ip_bytes :: "u32 \<Rightarrow> bytes" where
  "ip_bytes ip = put_be32 (replicate 4 0) 0 ip"

definition build_dhcp_packet :: "'l link \<Rightarrow> 'l net \<Rightarrow> byte \<Rightarrow> u32 \<Rightarrow> u32 \<Rightarrow> u32 \<Rightarrow> bytes \<times> nat" where
  "build_dhcp_packet l s msg_type xid requested_ip server_id =
    (let local_mac = (case l2_get_mac l s of None \<Rightarrow> replicate 6 0 | Some m \<Rightarrow> take 6 m);
         b = replicate 548 0;
         b = b[0 := 1, 1 := 1, 2 := 6];
         b = put_be32 b 4 xid;
         b = put_be16 b 10 0x8000;
         b = blit 28 local_mac b;
         b = b[236 := 99, 237 := 130, 238 := 83, 239 := 99];
         o1 = dhcp_add_option (b, 240) 53 [msg_type];
         o2 = dhcp_add_option o1 61 (1 # local_mac);
         o3 = dhcp_add_option o2 55 [1, 3, 6, 15, 51, 54];
         o4 = (if requested_ip \<noteq> 0 then dhcp_add_option o3 50 (ip_bytes requested_ip) else o3);
         o5 = (if server_id \<noteq> 0 then dhcp_add_option o4 54 (ip_bytes server_id) else o4)
     in case o5 of (b, off) \<Rightarrow> (b[off := 255], if off + 1 < 300 then 300 else off + 1))"

text \<open>The values the option parser writes through its pointers.\<close>

record dhcp_values =
  dhcp_msg_type :: byte
  dhcp_server_id :: u32
  dhcp_subnet :: u32
  dhcp_router :: u32
  dhcp_dns :: u32

definition dhcp_option :: "byte \<Rightarrow> bytes \<Rightarrow> nat \<Rightarrow> nat \<Rightarrow> dhcp_values \<Rightarrow> dhcp_values option" where
  "dhcp_option code opts off opt_len v =
    (if code = 53 \<and> opt_len \<ge> 1 then do { t \<leftarrow> rd opts off; Some (v\<lparr>dhcp_msg_type := t\<rparr>) }
     else if code = 54 \<and> opt_len \<ge> 4 then do { x \<leftarrow> get_be32 opts off; Some (v\<lparr>dhcp_server_id := x\<rparr>) }
     else if code = 1 \<and> opt_len \<ge> 4 then do { x \<leftarrow> get_be32 opts off; Some (v\<lparr>dhcp_subnet := x\<rparr>) }
     else if code = 3 \<and> opt_len \<ge> 4 then do { x \<leftarrow> get_be32 opts off; Some (v\<lparr>dhcp_router := x\<rparr>) }
     else if code = 6 \<and> opt_len \<ge> 4 then do { x \<leftarrow> get_be32 opts off; Some (v\<lparr>dhcp_dns := x\<rparr>) }
     else Some v)"

function parse_dhcp_loop :: "bytes \<Rightarrow> nat \<Rightarrow> nat \<Rightarrow> dhcp_values \<Rightarrow> dhcp_values option" where
  "parse_dhcp_loop opts len off v =
    (if off < len
     then case rd opts off of None \<Rightarrow> None | Some code \<Rightarrow>
       if code = 255 then Some v
       else if code = 0 then parse_dhcp_loop opts len (off + 1) v
       else if off + 1 \<ge> len then Some v
       else (case rd opts (off + 1) of None \<Rightarrow> None | Some ol \<Rightarrow>
         let opt_len = unat ol in
         if off + 2 + opt_len > len then Some v
         else (case dhcp_option code opts (off + 2) opt_len v of None \<Rightarrow> None
               | Some v \<Rightarrow> parse_dhcp_loop opts len (off + 2 + opt_len) v))
     else Some v)"
  by pat_completeness auto
termination
  by (relation "measure (\<lambda>(_, len, off, _). len - off)") auto

declare parse_dhcp_loop.simps [simp del]

definition parse_dhcp_options :: "bytes \<Rightarrow> nat \<Rightarrow> dhcp_values \<Rightarrow> dhcp_values option" where
  "parse_dhcp_options opts len v = parse_dhcp_loop opts len 0 v"

text \<open>
  A reply in a received datagram at offset \<open>off\<close> of the frame, of length \<open>n\<close>: \<open>None\<close> if it is not one, else the values after
  the option parser ran and the offered address. The pointers of the caller keep what earlier replies stored.
\<close>

definition dhcp_reply :: "bytes \<Rightarrow> nat \<Rightarrow> nat \<Rightarrow> u32 \<Rightarrow> dhcp_values \<Rightarrow> (dhcp_values \<times> u32) option option" where
  "dhcp_reply frame off n xid v =
    (if n < 240 then Some None
     else do {
       op \<leftarrow> rd frame off;
       x \<leftarrow> get_be32 frame (off + 4);
       c0 \<leftarrow> rd frame (off + 236); c1 \<leftarrow> rd frame (off + 237); c2 \<leftarrow> rd frame (off + 238); c3 \<leftarrow> rd frame (off + 239);
       if op \<noteq> 2 \<or> x \<noteq> xid \<or> c0 \<noteq> 99 \<or> c1 \<noteq> 130 \<or> c2 \<noteq> 83 \<or> c3 \<noteq> 99 then Some None
       else do {
         v \<leftarrow> parse_dhcp_options (drop (off + 240) frame) (n - 240) (v\<lparr>dhcp_msg_type := 0\<rparr>);
         yiaddr \<leftarrow> get_be32 frame (off + 16);
         Some (Some (v, yiaddr)) } })"

text \<open>What one frame is for the wait: nothing, or a reply.\<close>

definition dhcp_frame :: "bytes \<Rightarrow> nat \<Rightarrow> u32 \<Rightarrow> dhcp_values \<Rightarrow> (dhcp_values \<times> u32) option option" where
  "dhcp_frame frame n xid v = do {
     p \<leftarrow> parse_ipv4_udp frame n;
     case p of
       None \<Rightarrow> Some None
     | Some (src_ip, dst_ip, src_port, dst_port, off, len) \<Rightarrow>
         if src_port \<noteq> DHCP_SERVER_PORT \<or> dst_port \<noteq> DHCP_CLIENT_PORT then Some None else dhcp_reply frame off len xid v }"

partial_function (option) wait_dhcp_loop ::
  "'l link \<Rightarrow> u32 \<Rightarrow> byte \<Rightarrow> u64 \<Rightarrow> dhcp_values \<Rightarrow> 'l net \<Rightarrow> (u32 option \<times> dhcp_values \<times> 'l net) option" where
  [code]: "wait_dhcp_loop l xid wanted deadline v s =
    (case before_deadline l s deadline of
       (b, s) \<Rightarrow>
         if \<not> b then Some (None, v, s)
         else case recv_frame l s of
            (n, src_mac, eth_type, s) \<Rightarrow>
              if n \<le> 0 then wait_dhcp_loop l xid wanted deadline v (pause l s)
              else if eth_type = ETH_TYPE_ARP
              then do { s \<leftarrow> handle_arp l s src_mac (frame_buf s) (nat n); wait_dhcp_loop l xid wanted deadline v s }
              else if eth_type \<noteq> ETH_TYPE_IPV4 then wait_dhcp_loop l xid wanted deadline v s
              else do {
                q \<leftarrow> dhcp_frame (frame_buf s) (nat n) xid v;
                let v = (if q = None then v else fst (the q));
                if q \<noteq> None \<and> dhcp_msg_type v = wanted then Some (Some (snd (the q)), v, s)
                else wait_dhcp_loop l xid wanted deadline v s })"

definition wait_dhcp :: "'l link \<Rightarrow> 'l net \<Rightarrow> u32 \<Rightarrow> byte \<Rightarrow> dhcp_values \<Rightarrow> (u32 option \<times> dhcp_values \<times> 'l net) option" where
  "wait_dhcp l s xid wanted_type v =
    (case deadline_from_ms l s 4000 of (deadline, s) \<Rightarrow> wait_dhcp_loop l xid wanted_type deadline v s)"

section \<open>Waits end\<close>

text \<open>What the waits rely on: the tick counter does not go back while the driver runs.\<close>

definition timer_monotone :: "'l link \<Rightarrow> bool" where
  "timer_monotone l \<longleftrightarrow> (\<forall>d. timer_ticks l d \<le> timer_ticks l (short_wait l d)) \<and>
    (\<forall>d line. timer_ticks l d \<le> timer_ticks l (log_line l d line)) \<and>
    (\<forall>d m ty p. timer_ticks l d \<le> timer_ticks l (snd (net_send_ethernet l d m ty p)) \<and> timer_ticks l d \<le> timer_ticks l (snd (wifi_send_ethernet l d m ty p))) \<and>
    (\<forall>d cap. timer_ticks l d \<le> timer_ticks l (snd (net_recv_ethernet l d cap)) \<and> timer_ticks l d \<le> timer_ticks l (snd (wifi_recv_ethernet l d cap)))"

text \<open>A driver call in the middle of a wait: the deadline counters stay, time does not go back.\<close>

definition goes_on :: "'l link \<Rightarrow> 'l net \<Rightarrow> 'l net \<Rightarrow> bool" where
  "goes_on l s s' \<longleftrightarrow> net_deadline_last_tick s' = net_deadline_last_tick s \<and> net_deadline_fallback_used s' = net_deadline_fallback_used s \<and>
    net_deadline_fallback_budget s' = net_deadline_fallback_budget s \<and> now l s \<le> now l s' \<and> stack_status s' = stack_status s \<and>
    (length (frame_buf s) = 1500 \<longrightarrow> length (frame_buf s') = 1500)"

lemma goes_on_refl: "goes_on l s s"
  by (simp add: goes_on_def)

lemma goes_on_trans: "goes_on l s s1 \<Longrightarrow> goes_on l s1 s2 \<Longrightarrow> goes_on l s s2"
  by (auto simp: goes_on_def)

lemma goes_on_send: "timer_monotone l \<Longrightarrow> goes_on l s (snd (l2_send_ethernet l s m ty p))"
  by (auto simp: l2_send_ethernet_def goes_on_def timer_monotone_def split: prod.splits) (metis snd_conv)+

lemma goes_on_recv:
  assumes "timer_monotone l" "link_ok l" "recv_frame l s = (n, m, ty, s')" "length (frame_buf s) = 1500"
  shows "goes_on l s s' \<and> n \<le> 1500"
proof -
  define r where "r = l2_recv_ethernet l s 1500"
  have "goes_on l s (snd r)"
    using assms(1) unfolding r_def l2_recv_ethernet_def timer_monotone_def
    by (auto simp: goes_on_def split: prod.splits) (metis snd_conv)+
  then show ?thesis using recv_frame_ok [OF assms(2,4,3)] assms(3) unfolding recv_frame_def NETSTACK_MTU_def r_def [symmetric]
    by (auto simp: goes_on_def split: prod.splits)
qed

lemma goes_on_arp:
  assumes "timer_monotone l" "n \<le> length (frame_buf s)"
  obtains s' where "handle_arp l s m (frame_buf s) n = Some s'" "goes_on l s s'"
proof -
  obtain s' where h: "handle_arp l s m (frame_buf s) n = Some s'" using handle_arp_safe [OF assms(2)] by blast
  have "goes_on l s s'" using h goes_on_send [OF assms(1)] unfolding handle_arp_def send_arp_reply_def Let_def
    by (auto simp: bind_eq_Some_conv goes_on_refl split: if_splits option.splits) (auto simp: goes_on_def)
  with h show ?thesis by (rule that)
qed

lemma goes_on_pause: "timer_monotone l \<Longrightarrow> goes_on l s (pause l s)"
  by (simp add: goes_on_def pause_def timer_monotone_def)

text \<open>Every iteration sees a later tick or uses up one of the fruitless polls.\<close>

definition wait_order :: "('l net \<times> 'l net) set" where
  "wait_order = measures [\<lambda>s. 2 ^ 64 - unat (net_deadline_last_tick s),
     \<lambda>s. unat (net_deadline_fallback_budget s) - unat (net_deadline_fallback_used s)]"

lemma wf_wait_order: "wf wait_order"
  by (simp add: wait_order_def)

definition wait_inv :: "'l link \<Rightarrow> 'l net \<Rightarrow> bool" where
  "wait_inv l s \<longleftrightarrow> length (frame_buf s) = 1500 \<and> net_deadline_last_tick s \<le> now l s"

lemma before_deadline_step:
  assumes "before_deadline l s deadline = (b, s1)" "wait_inv l s"
  shows "link_dev s1 = link_dev s" "stack_status s1 = stack_status s" "frame_buf s1 = frame_buf s" "wait_inv l s1"
    "b \<Longrightarrow> goes_on l s1 s2 \<Longrightarrow> wait_inv l s2 \<and> (s2, s) \<in> wait_order"
proof -
  show k: "link_dev s1 = link_dev s" "stack_status s1 = stack_status s" "frame_buf s1 = frame_buf s" "wait_inv l s1"
    using assms by (auto simp: before_deadline_def wait_inv_def split: if_splits)
  assume b: b and g: "goes_on l s1 s2"
  have "wait_inv l s2" using k(4) g by (auto simp: wait_inv_def goes_on_def)
  moreover have "(s2, s) \<in> wait_order"
  proof (cases "now l s = net_deadline_last_tick s")
    case True
    then have u: "net_deadline_fallback_used s < net_deadline_fallback_budget s" "s1 = s\<lparr>net_deadline_fallback_used := net_deadline_fallback_used s + 1\<rparr>"
      using assms(1) b by (auto simp: before_deadline_def split: if_splits)
    then have "unat (net_deadline_fallback_used s + 1) = unat (net_deadline_fallback_used s) + 1"
      using unsigned_less [of "net_deadline_fallback_budget s", where ?'a = nat] by (simp add: unat_word_ariths(1) word_less_nat_alt)
    then show ?thesis using u g by (auto simp: wait_order_def goes_on_def word_less_nat_alt)
  next
    case False
    then have "s1 = s\<lparr>net_deadline_last_tick := now l s, net_deadline_fallback_used := 0\<rparr>" "net_deadline_last_tick s < now l s"
      using assms b by (auto simp: before_deadline_def wait_inv_def split: if_splits)
    moreover have "unat (now l s) < 2 ^ 64" using unsigned_less [of "now l s", where ?'a = nat] by simp
    ultimately show ?thesis using g by (auto simp: wait_order_def goes_on_def word_less_nat_alt)
  qed
  ultimately show "wait_inv l s2 \<and> (s2, s) \<in> wait_order" by simp
qed

lemma arp_loop_returns:
  assumes "timer_monotone l" "link_ok l" "wait_inv l s"
  shows "\<exists>r s'. arp_loop l ip deadline resend_at s = Some (r, s') \<and> wait_inv l s' \<and> stack_status s' = stack_status s \<and>
    (r = None \<or> (arp_cached_ip s' = ip \<and> r = Some (arp_cached_mac s')))"
  using assms(3)
proof (induction s arbitrary: resend_at rule: wf_induct_rule [OF wf_wait_order])
  case (1 s)
  obtain b s1 where b: "before_deadline l s deadline = (b, s1)" by fastforce
  note st = before_deadline_step [OF b 1(2)]
  show ?case
  proof (cases b)
    case False
    then show ?thesis using st by (simp add: arp_loop.simps [of l ip deadline resend_at s] b)
  next
    case True
    define rs where "rs = (if now l s1 \<ge> resend_at then let s = snd (send_arp_request l s1 ip) in (now l s + TIMER_HZ div 4, s) else (resend_at, s1))"
    obtain ra s2 where rs: "rs = (ra, s2)" by fastforce
    have "goes_on l s1 (snd (send_arp_request l s1 ip))"
      using goes_on_send [OF assms(1)] by (auto simp: send_arp_request_def goes_on_refl split: option.splits)
    then have g2: "goes_on l s1 s2" using rs by (auto simp: rs_def Let_def goes_on_refl split: if_splits)
    have l2: "length (frame_buf s2) = 1500" using g2 st(4) by (simp add: goes_on_def wait_inv_def)
    obtain n m ty s3 where r: "recv_frame l s2 = (n, m, ty, s3)" by (metis prod_cases4)
    have g3: "goes_on l s2 s3" "n \<le> 1500" using goes_on_recv [OF assms(1,2) r l2] by simp_all
    have l3: "length (frame_buf s3) = 1500" using g3(1) l2 by (simp add: goes_on_def)
    note unf = arp_loop.simps [of l ip deadline resend_at s] b rs_def [symmetric] rs r
    have IH: "goes_on l s3 s4 \<Longrightarrow> \<exists>r s'. arp_loop l ip deadline ra s4 = Some (r, s') \<and> wait_inv l s' \<and> stack_status s' = stack_status s \<and>
      (r = None \<or> (arp_cached_ip s' = ip \<and> r = Some (arp_cached_mac s')))" for s4
    proof -
      assume "goes_on l s3 s4"
      then have "goes_on l s1 s4" using g2 g3(1) goes_on_trans by blast
      then show ?thesis using 1(1) [of s4 ra] st(2) st(5) [OF True] by (auto simp: goes_on_def)
    qed
    show ?thesis
    proof (cases "n > 0 \<and> ty = ETH_TYPE_ARP")
      case arp: True
      have "nat n \<le> length (frame_buf s3)" using g3(2) l3 by simp
      then obtain s4 where h: "handle_arp l s3 m (frame_buf s3) (nat n) = Some s4" "goes_on l s3 s4" by (rule goes_on_arp [OF assms(1)])
      have "goes_on l s1 s4" using g2 g3(1) h(2) goes_on_trans by blast
      then have k: "wait_inv l s4" "stack_status s4 = stack_status s" using st(2) st(5) [OF True] by (auto simp: goes_on_def)
      show ?thesis
      proof (cases "arp_cached_ip s4 = ip")
        case True
        then show ?thesis using arp h(1) k \<open>b\<close> by (simp add: unf)
      next
        case False
        then show ?thesis using arp h IH \<open>b\<close> by (simp add: unf)
      qed
    next
      case False
      then have "arp_loop l ip deadline resend_at s = arp_loop l ip deadline ra (pause l s3)" using \<open>b\<close> by (auto simp: unf)
      then show ?thesis using IH [OF goes_on_pause [OF assms(1)]] by simp
    qed
  qed
qed

lemma deadline_inv: "length (frame_buf s) = 1500 \<Longrightarrow> wait_inv l (snd (deadline_from_ms l s ms)) \<and> stack_status (snd (deadline_from_ms l s ms)) = stack_status s"
  by (simp add: deadline_from_ms_def Let_def wait_inv_def)

lemma arp_resolve_returns:
  assumes "timer_monotone l" "link_ok l" "length (frame_buf s) = 1500"
  shows "\<exists>r s'. arp_resolve l s ip = Some (r, s') \<and> length (frame_buf s') = 1500 \<and> stack_status s' = stack_status s \<and>
    (r = None \<or> (arp_cached_ip s' = ip \<and> r = Some (arp_cached_mac s')))"
proof (cases "arp_cached_ip s = ip")
  case True
  then show ?thesis using assms(3) by (simp add: arp_resolve_def)
next
  case False
  obtain dl s1 where d: "deadline_from_ms l s 2500 = (dl, s1)" by fastforce
  have "wait_inv l s1" "stack_status s1 = stack_status s" using deadline_inv [OF assms(3), of l 2500] d by simp_all
  with arp_loop_returns [OF assms(1,2), of s1 ip dl 0] False show ?thesis by (auto simp: arp_resolve_def d wait_inv_def)
qed

section \<open>DHCP replies\<close>

lemma dhcp_option_safe: "off + n \<le> length opts \<Longrightarrow> dhcp_option code opts off n v \<noteq> None"
  by (auto simp: dhcp_option_def bind_eq_None_conv iff del: not_None_eq)

lemma parse_dhcp_safe: "len \<le> length opts \<Longrightarrow> parse_dhcp_loop opts len off v \<noteq> None"
proof (induction opts len off v rule: parse_dhcp_loop.induct)
  case (1 opts len off v)
  show ?case
  proof (cases "off < len")
    case True
    then obtain code where c: "rd opts off = Some code" using 1(3) by (simp add: rd_def)
    show ?thesis
    proof (cases "code = 255 \<or> code = 0")
      case True
      then show ?thesis using 1(1) [OF \<open>off < len\<close> c] 1(3) \<open>off < len\<close> c by (auto simp: parse_dhcp_loop.simps [of opts len off v])
    next
      case False
      show ?thesis
      proof (cases "off + 1 \<ge> len")
        case True
        then show ?thesis using \<open>off < len\<close> c False by (simp add: parse_dhcp_loop.simps [of opts len off v])
      next
        case more: False
        then obtain ol where ol: "rd opts (off + 1) = Some ol" using 1(3) by (simp add: rd_def)
        show ?thesis
        proof (cases "off + 2 + unat ol > len")
          case True
          then show ?thesis using \<open>off < len\<close> c False more ol by (simp add: parse_dhcp_loop.simps [of opts len off v])
        next
          case fits: False
          then obtain v' where v': "dhcp_option code opts (off + 2) (unat ol) v = Some v'"
            using dhcp_option_safe [of "off + 2" "unat ol" opts code v] 1(3) by auto
          show ?thesis using 1(2) [OF \<open>off < len\<close> c _ _ more ol refl fits v'] False 1(3) \<open>off < len\<close> c more ol fits v'
            by (simp add: parse_dhcp_loop.simps [of opts len off v] Let_def)
        qed
      qed
    qed
  qed (simp add: parse_dhcp_loop.simps)
qed

lemma dhcp_frame_safe:
  assumes "n \<le> length frame"
  shows "dhcp_frame frame n xid v \<noteq> None"
proof -
  obtain p where p: "parse_ipv4_udp frame n = Some p" using parse_udp_safe(1) [OF assms] by blast
  have "dhcp_reply frame off len xid v \<noteq> None" if "off + len \<le> n" for off len
  proof -
    have "parse_dhcp_options (drop (off + 240) frame) (len - 240) v' \<noteq> None" for v'
      unfolding parse_dhcp_options_def using that assms by (intro parse_dhcp_safe) simp
    then show ?thesis using that assms by (auto simp: dhcp_reply_def bind_eq_None_conv iff del: not_None_eq)
  qed
  then show ?thesis using p parse_udp_bounds by (auto simp: dhcp_frame_def split: option.splits)
qed

lemma wait_dhcp_loop_returns:
  assumes "timer_monotone l" "link_ok l" "wait_inv l s"
  shows "\<exists>r v' s'. wait_dhcp_loop l xid wanted deadline v s = Some (r, v', s') \<and> wait_inv l s' \<and> stack_status s' = stack_status s \<and>
    (r \<noteq> None \<longrightarrow> dhcp_msg_type v' = wanted)"
  using assms(3)
proof (induction s arbitrary: v rule: wf_induct_rule [OF wf_wait_order])
  case (1 s)
  obtain b s1 where b: "before_deadline l s deadline = (b, s1)" by fastforce
  note st = before_deadline_step [OF b 1(2)]
  show ?case
  proof (cases b)
    case False
    then show ?thesis using st by (simp add: wait_dhcp_loop.simps [of l xid wanted deadline v s] b)
  next
    case True
    have l1: "length (frame_buf s1) = 1500" using st(4) by (simp add: wait_inv_def)
    obtain n m ty s3 where r: "recv_frame l s1 = (n, m, ty, s3)" by (metis prod_cases4)
    have g3: "goes_on l s1 s3" "n \<le> 1500" using goes_on_recv [OF assms(1,2) r l1] by simp_all
    have l3: "nat n \<le> length (frame_buf s3)" using g3 l1 by (simp add: goes_on_def)
    have IH: "goes_on l s3 s4 \<Longrightarrow> \<exists>r v' s'. wait_dhcp_loop l xid wanted deadline w s4 = Some (r, v', s') \<and> wait_inv l s' \<and> stack_status s' = stack_status s \<and>
      (r \<noteq> None \<longrightarrow> dhcp_msg_type v' = wanted)" for s4 w
    proof -
      assume "goes_on l s3 s4"
      then have "goes_on l s1 s4" using g3(1) goes_on_trans by blast
      then show ?thesis using 1(1) [of s4 w] st(2) st(5) [OF True] by (auto simp: goes_on_def)
    qed
    note unf = wait_dhcp_loop.simps [of l xid wanted deadline v s] b r
    consider "n \<le> 0" | "0 < n" "ty = ETH_TYPE_ARP" | "0 < n" "ty \<noteq> ETH_TYPE_ARP" "ty \<noteq> ETH_TYPE_IPV4" | "0 < n" "ty \<noteq> ETH_TYPE_ARP" "ty = ETH_TYPE_IPV4" by linarith
    then show ?thesis
    proof cases
      case 1
      then show ?thesis using IH [OF goes_on_pause [OF assms(1)]] True by (simp add: unf)
    next
      case 2
      obtain s4 where "handle_arp l s3 m (frame_buf s3) (nat n) = Some s4" "goes_on l s3 s4" by (rule goes_on_arp [OF assms(1) l3])
      then show ?thesis using IH 2 True by (simp add: unf)
    next
      case 3
      then show ?thesis using IH [OF goes_on_refl] True by (simp add: unf)
    next
      case 4
      obtain q where q: "dhcp_frame (frame_buf s3) (nat n) xid v = Some q" using dhcp_frame_safe [OF l3] by blast
      define w where "w = (if q = None then v else fst (the q))"
      have s3: "stack_status s3 = stack_status s" "wait_inv l s3" using g3(1) st(2) st(5) [OF True g3(1)] by (simp_all add: goes_on_def)
      show ?thesis using IH [OF goes_on_refl, of w] 4 True q s3
        by (cases "q \<noteq> None \<and> dhcp_msg_type w = wanted") (auto simp: unf w_def Let_def)
    qed
  qed
qed

lemma wait_dhcp_returns:
  assumes "timer_monotone l" "link_ok l" "length (frame_buf s) = 1500"
  shows "\<exists>r v' s'. wait_dhcp l s xid wanted v = Some (r, v', s') \<and> length (frame_buf s') = 1500 \<and> stack_status s' = stack_status s \<and>
    (r \<noteq> None \<longrightarrow> dhcp_msg_type v' = wanted)"
proof -
  obtain dl s1 where d: "deadline_from_ms l s 4000 = (dl, s1)" by fastforce
  have "wait_inv l s1" "stack_status s1 = stack_status s" using deadline_inv [OF assms(3), of l 4000] d by simp_all
  with wait_dhcp_loop_returns [OF assms(1,2), of s1 xid wanted dl v] show ?thesis by (auto simp: wait_dhcp_def d wait_inv_def)
qed

section \<open>DHCP options\<close>

lemma add_option_append:
  assumes "length pre + 2 + length data < 312" "2 + length data \<le> n"
  shows "dhcp_add_option (pre @ replicate n 0, length pre) code data =
    (pre @ code # of_nat (length data) # data @ replicate (n - 2 - length data) 0, length pre + 2 + length data)"
proof -
  define m where "m = n - 2"
  have m: "n = Suc (Suc m)" "length data \<le> m" using assms(2) by (simp_all add: m_def)
  have "blit (length pre + 2) data (pre @ code # of_nat (length data) # replicate m 0) =
      pre @ code # of_nat (length data) # data @ replicate (m - length data) 0"
    by (simp add: blit_def)
  then show ?thesis using assms(1) m by (simp add: dhcp_add_option_def Let_def list_update_append)
qed

lemma rd_append: "rd (xs @ ys) i = (if i < length xs then rd xs i else rd ys (i - length xs))"
  by (auto simp: rd_def nth_append)

lemma parse_dhcp_known:
  assumes "off < len" "rd opts off = Some code" "code \<noteq> 255" "code \<noteq> 0" "off + 1 < len" "rd opts (off + 1) = Some ol"
    "off + 2 + unat ol \<le> len" "dhcp_option code opts (off + 2) (unat ol) v = Some v'"
  shows "parse_dhcp_loop opts len off v = parse_dhcp_loop opts len (off + 2 + unat ol) v'"
proof -
  have n: "\<not> off + 1 \<ge> len" "\<not> off + 2 + unat ol > len" using assms by simp_all
  show ?thesis
    unfolding parse_dhcp_loop.simps [of opts len off v]
    by (simp only: assms(1,2,3,4,6,8) n if_True if_False option.case Let_def)
qed

lemma parse_dhcp_step:
  assumes "code \<noteq> 255" "code \<noteq> 0" "length d < 256" "length A + 2 + length d \<le> len"
    "dhcp_option code (A @ code # of_nat (length d) # d @ R) (length A + 2) (length d) v = Some v'"
  shows "parse_dhcp_loop (A @ code # of_nat (length d) # d @ R) len (length A) v =
    parse_dhcp_loop ((A @ code # of_nat (length d) # d) @ R) len (length (A @ code # of_nat (length d) # d)) v'"
proof -
  define opts where "opts = A @ code # of_nat (length d) # d @ R"
  have u: "unat (of_nat (length d) :: byte) = length d" using assms(3) by (simp add: unsigned_of_nat take_bit_nat_eq_self)
  have "rd opts (length A) = Some code" "rd opts (length A + 1) = Some (of_nat (length d))" by (simp_all add: opts_def rd_def nth_append)
  note step = parse_dhcp_known [OF _ this(1) assms(1,2) _ this(2), unfolded u, of len v v']
  have "parse_dhcp_loop opts len (length A) v = parse_dhcp_loop opts len (length A + 2 + length d) v'"
    using assms(4) assms(5) [folded opts_def] by (intro step) simp_all
  then show ?thesis by (simp add: opts_def)
qed

lemma ip_bytes_value: "length (ip_bytes ip) = 4" "get_be32 (ip_bytes ip) 0 = Some ip"
  by (simp_all add: ip_bytes_def)

text \<open>A list of options, how it lies in the message, and what the parser makes of it.\<close>

definition enc_options :: "(byte \<times> bytes) list \<Rightarrow> bytes" where
  "enc_options os = concat (map (\<lambda>(c, d). c # of_nat (length d) # d) os)"

definition option_value :: "byte \<times> bytes \<Rightarrow> dhcp_values \<Rightarrow> dhcp_values" where
  "option_value opt v = (case opt of (c, d) \<Rightarrow> the (dhcp_option c d 0 (length d) v))"

lemma enc_options_simps [simp]:
  "enc_options [] = []" "enc_options ((c, d) # os) = c # of_nat (length d) # d @ enc_options os"
  by (simp_all add: enc_options_def)

lemma option_in_place:
  "dhcp_option c (A @ c' # k # d @ R) (length A + 2) (length d) v = Some (option_value (c, d) v)"
proof -
  have s: "slice (length A + 2) (length d) (A @ c' # k # d @ R) = d" by (simp add: slice_def)
  have le: "length A + 2 + length d \<le> length (A @ c' # k # d @ R)" by simp
  have "1 \<le> length d \<Longrightarrow> rd (A @ c' # k # d @ R) (length A + 2) = rd d 0" "4 \<le> length d \<Longrightarrow> get_be32 (A @ c' # k # d @ R) (length A + 2) = get_be32 d 0"
    using rd_slice [OF s le, of 0] get_slice(2) [OF s le, of 0] by (auto simp: Suc_le_eq)
  then have "dhcp_option c (A @ c' # k # d @ R) (length A + 2) (length d) v = dhcp_option c d 0 (length d) v"
    unfolding dhcp_option_def by (simp only: cong: if_cong conj_cong)
  then show ?thesis using dhcp_option_safe [of 0 "length d" d c v] by (auto simp: option_value_def)
qed

lemma add_options:
  "length A + length (enc_options os) < 312 \<Longrightarrow> length (enc_options os) \<le> n \<Longrightarrow>
   fold (\<lambda>(c, d) b. dhcp_add_option b c d) os (A @ replicate n 0, length A)
   = (A @ enc_options os @ replicate (n - length (enc_options os)) 0, length A + length (enc_options os))"
proof (induction os arbitrary: A n)
  case (Cons opt os)
  obtain c d where o: "opt = (c, d)" by fastforce
  have "dhcp_add_option (A @ replicate n 0, length A) c d =
      ((A @ c # of_nat (length d) # d) @ replicate (n - 2 - length d) 0, length (A @ c # of_nat (length d) # d))"
    using Cons.prems o add_option_append [of A d n c] by simp
  then show ?case using Cons.IH [of "A @ c # of_nat (length d) # d" "n - 2 - length d"] Cons.prems o by simp
qed simp

lemma parse_enc_options:
  assumes "\<forall>(c, d)\<in>set os. c \<noteq> 255 \<and> c \<noteq> 0 \<and> length d < 256" "length A + length (enc_options os) < len"
  shows "parse_dhcp_loop (A @ enc_options os @ 255 # R) len (length A) v = Some (fold option_value os v)"
  using assms
proof (induction os arbitrary: A v)
  case Nil
  then show ?case by (simp add: parse_dhcp_loop.simps [of _ len "length A"] rd_def nth_append)
next
  case (Cons opt os)
  obtain c d where o: "opt = (c, d)" by fastforce
  have "parse_dhcp_loop (A @ c # of_nat (length d) # d @ (enc_options os @ 255 # R)) len (length A) v =
      parse_dhcp_loop ((A @ c # of_nat (length d) # d) @ (enc_options os @ 255 # R)) len (length (A @ c # of_nat (length d) # d)) (option_value (c, d) v)"
    by (rule parse_dhcp_step [OF _ _ _ _ option_in_place]) (use Cons.prems o in auto)
  also have "\<dots> = Some (fold option_value os (option_value (c, d) v))"
    by (rule Cons.IH) (use Cons.prems o in auto)
  finally show ?case using o by simp
qed

text \<open>The options of a client message, in order.\<close>

definition client_options :: "byte \<Rightarrow> bytes \<Rightarrow> u32 \<Rightarrow> u32 \<Rightarrow> (byte \<times> bytes) list" where
  "client_options t mac requested_ip server_id = [(53, [t]), (61, 1 # mac), (55, [1, 3, 6, 15, 51, 54])]
     @ (if requested_ip \<noteq> 0 then [(50, ip_bytes requested_ip)] else []) @ (if server_id \<noteq> 0 then [(54, ip_bytes server_id)] else [])"

definition dhcp_header :: "bytes \<Rightarrow> u32 \<Rightarrow> bytes" where
  "dhcp_header mac xid = take 240 ((blit 28 mac (put_be16 (put_be32 ((replicate 548 0)[0 := 1, 1 := 1, 2 := 6]) 4 xid) 10 0x8000))
     [236 := 99, 237 := 130, 238 := 83, 239 := 99])"

lemma option_values_client:
  "fold option_value (client_options t mac requested_ip server_id) v
   = v\<lparr>dhcp_msg_type := t, dhcp_server_id := (if server_id = 0 then dhcp_server_id v else server_id)\<rparr>"
  by (simp add: client_options_def option_value_def dhcp_option_def ip_bytes_value rd_def)

lemma client_options_ok:
  assumes "length mac = 6"
  shows "length (enc_options (client_options t mac requested_ip server_id)) \<le> 32"
    "\<forall>(c, d)\<in>set (client_options t mac requested_ip server_id). c \<noteq> 255 \<and> c \<noteq> 0 \<and> length d < 256"
  using assms by (auto simp: client_options_def ip_bytes_value)

lemma drop_blit_before: "j + length ys \<le> k \<Longrightarrow> j \<le> length p \<Longrightarrow> drop k (blit j ys p) = drop k p"
  by (simp add: blit_def min_def)

lemma build_dhcp_eq:
  assumes "(case l2_get_mac l s of None \<Rightarrow> replicate 6 0 | Some m \<Rightarrow> take 6 m) = mac" "length mac = 6"
    "client_options t mac requested_ip server_id = os"
  shows "build_dhcp_packet l s t xid requested_ip server_id
    = (dhcp_header mac xid @ enc_options os @ 255 # replicate (307 - length (enc_options os)) 0, 300)"
proof -
  define b where "b = (blit 28 mac (put_be16 (put_be32 ((replicate 548 0)[0 := 1, 1 := 1, 2 := 6]) 4 xid) 10 0x8000))
     [236 := 99, 237 := 130, 238 := 83, 239 := 99]"
  have "drop 240 b = replicate 308 0" "length b = 548"
    using assms(2) unfolding b_def put_be16_def put_be32_def
    by (simp_all add: drop_blit_before drop_update_cancel)
  moreover have h: "dhcp_header mac xid = take 240 b" by (simp add: dhcp_header_def b_def)
  ultimately have b: "b = dhcp_header mac xid @ replicate 308 0" "length (dhcp_header mac xid) = 240"
    by (metis append_take_drop_id, simp)
  have le: "length (enc_options os) \<le> 32" using client_options_ok(1) [OF assms(2)] assms(3) by metis
  have "build_dhcp_packet l s t xid requested_ip server_id =
      (case fold (\<lambda>(c, d) b. dhcp_add_option b c d) os (b, 240) of (b, off) \<Rightarrow> (b[off := 255], if off + 1 < 300 then 300 else off + 1))"
    unfolding build_dhcp_packet_def assms(1) b_def assms(3) [symmetric] client_options_def by (simp add: Let_def)
  also have "fold (\<lambda>(c, d) b. dhcp_add_option b c d) os (b, 240) = (dhcp_header mac xid @ enc_options os @ replicate (308 - length (enc_options os)) 0, 240 + length (enc_options os))"
    using add_options [of "dhcp_header mac xid" os 308] le unfolding b by simp
  also have "308 - length (enc_options os) = Suc (307 - length (enc_options os))" using le by simp
  finally show ?thesis using le b(2) by (simp add: list_update_append)
qed

lemma dhcp_header_fields:
  assumes "length mac = 6"
  shows "length (dhcp_header mac xid) = 240" "rd (dhcp_header mac xid) 0 = Some 1" "get_be32 (dhcp_header mac xid) 4 = Some xid"
    "slice 28 6 (dhcp_header mac xid) = mac" "slice 236 4 (dhcp_header mac xid) = [99, 130, 83, 99]"
proof -
  define b where "b = put_be16 (put_be32 ((replicate 548 0)[0 := 1, 1 := 1, 2 := 6]) 4 xid) 10 0x8000"
  define c where "c = blit 28 mac b"
  have l: "length b = 548" "length c = 548" using assms by (simp_all add: b_def c_def)
  have h: "dhcp_header mac xid = take 240 (c[236 := 99, 237 := 130, 238 := 83, 239 := 99])" by (simp add: dhcp_header_def b_def c_def)
  show "length (dhcp_header mac xid) = 240" using l by (simp add: h)
  have rdh: "rd (dhcp_header mac xid) i = rd b i" if "i < 28" for i using that l assms by (simp add: h rd_simps c_def rd_blit)
  show "rd (dhcp_header mac xid) 0 = Some 1" by (simp add: rdh) (simp add: b_def rd_put rd_simps)
  have "get_be32 (dhcp_header mac xid) 4 = get_be32 b 4" by (simp add: get_be32_def rdh)
  then show "get_be32 (dhcp_header mac xid) 4 = Some xid" by (simp add: b_def get_other)
  have "slice 28 6 (dhcp_header mac xid) = drop 28 (take 34 (dhcp_header mac xid))" by (simp add: slice_def take_drop)
  also have "\<dots> = mac" using l assms by (simp add: h c_def blit_def)
  finally show "slice 28 6 (dhcp_header mac xid) = mac" .
  have "[99, 130, 83, 99] = map ((!) (dhcp_header mac xid)) [236, 237, 238, 239]" using l by (simp add: h)
  also have "\<dots> = slice 236 4 (dhcp_header mac xid)"
    using l by (intro nth_equalityI) (auto simp: h slice_def nth_Cons split: nat.splits)
  finally show "slice 236 4 (dhcp_header mac xid) = [99, 130, 83, 99]" ..
qed

text \<open>What the DHCP client writes is what a DHCP parser reads. \<^verbatim>\<open>build_dhcp_packet\<close> fills 300 of the 548 bytes of its caller's buffer, with every
  option inside them, and the header carries the transaction id, the client's hardware address and the magic cookie; the stack's own
  option parser then finds the message type and, when one was given, the server id, and leaves every other value alone.\<close>

theorem dhcp_message_parses_back:
  fixes s :: "'l net"
  assumes "l2_get_mac l s = Some mac" "length mac = 6"
  shows "\<exists>b. build_dhcp_packet l s msg_type xid requested_ip server_id = (b, 300) \<and> length b = 548 \<and>
    rd b 0 = Some 1 \<and> get_be32 b 4 = Some xid \<and> slice 28 6 b = mac \<and> slice 236 4 b = [99, 130, 83, 99] \<and>
    (\<forall>v. parse_dhcp_options (drop 240 b) 60 v =
      Some (v\<lparr>dhcp_msg_type := msg_type, dhcp_server_id := (if server_id = 0 then dhcp_server_id v else server_id)\<rparr>))"
proof -
  define os where "os = client_options msg_type mac requested_ip server_id"
  note ok = client_options_ok [OF assms(2), of msg_type requested_ip server_id, folded os_def]
  note hd = dhcp_header_fields [OF assms(2), of xid]
  define b where "b = dhcp_header mac xid @ enc_options os @ 255 # replicate (307 - length (enc_options os)) 0"
  have "build_dhcp_packet l s msg_type xid requested_ip server_id = (b, 300)"
    unfolding b_def by (rule build_dhcp_eq) (use assms in \<open>simp_all add: os_def\<close>)
  moreover have "length b = 548" using ok(1) hd(1) by (simp add: b_def)
  moreover have "rd b 0 = Some 1" "get_be32 b 4 = Some xid" using hd by (simp_all add: b_def get_be32_def rd_append)
  moreover have "slice 28 6 b = mac" "slice 236 4 b = [99, 130, 83, 99]" using hd by (simp_all add: b_def slice_def)
  moreover have "parse_dhcp_options (drop 240 b) 60 v =
      Some (v\<lparr>dhcp_msg_type := msg_type, dhcp_server_id := (if server_id = 0 then dhcp_server_id v else server_id)\<rparr>)" for v
    using parse_enc_options [OF ok(2), of "[]" 60 "replicate (307 - length (enc_options os)) 0" v] ok(1) hd(1)
      option_values_client [of msg_type mac requested_ip server_id v, folded os_def]
    by (simp only: parse_dhcp_options_def) (simp add: b_def)
  ultimately show ?thesis by blast
qed

theorem dhcp_message_parses_back_witness:
  "l2_get_mac quiet_link demo_net = Some (replicate 6 2) \<and>
   (\<exists>b. build_dhcp_packet quiet_link demo_net 3 0x12345678 0x0a000002 0x0a000001 = (b, 300) \<and> slice 28 6 b = replicate 6 2)"
proof -
  have m: "l2_get_mac quiet_link demo_net = Some (replicate 6 2)" by (simp add: l2_get_mac_def quiet_link_def)
  from dhcp_message_parses_back [OF m, of 3 "0x12345678" "0x0a000002" "0x0a000001"] m show ?thesis by auto
qed

text \<open>Every wait of the stack returns, even if the timer has stopped. If the tick counter never goes back and the driver respects the capacity
  of the frame buffer, address resolution, sending a datagram and waiting for a DHCP reply all return without leaving a packet;
  an address that is returned is the cached one for the IP asked for, and a DHCP reply that is accepted has the wanted type.\<close>

theorem waits_return:
  fixes s :: "'l net"
  assumes "timer_monotone l" "link_ok l" "length (frame_buf s) = 1500"
  shows "(\<exists>r s'. arp_resolve l s ip = Some (r, s') \<and> length (frame_buf s') = 1500 \<and> stack_status s' = stack_status s \<and>
      (r = None \<or> arp_cached_ip s' = ip \<and> r = Some (arp_cached_mac s'))) \<and>
    send_udp l s dst_ip src_port dst_port payload \<noteq> None \<and>
    (\<exists>r v' s'. wait_dhcp l s xid wanted v = Some (r, v', s') \<and> stack_status s' = stack_status s \<and> (r \<noteq> None \<longrightarrow> dhcp_msg_type v' = wanted))"
proof (intro conjI)
  show "\<exists>r s'. arp_resolve l s ip = Some (r, s') \<and> length (frame_buf s') = 1500 \<and> stack_status s' = stack_status s \<and>
      (r = None \<or> arp_cached_ip s' = ip \<and> r = Some (arp_cached_mac s'))"
    by (rule arp_resolve_returns [OF assms])
  show "send_udp l s dst_ip src_port dst_port payload \<noteq> None"
    using arp_resolve_returns [OF assms, of "if same_subnet s (st_ip (stack_status s)) dst_ip then dst_ip else st_gateway (stack_status s)"]
    by (auto simp: send_udp_def Let_def)
  show "\<exists>r v' s'. wait_dhcp l s xid wanted v = Some (r, v', s') \<and> stack_status s' = stack_status s \<and> (r \<noteq> None \<longrightarrow> dhcp_msg_type v' = wanted)"
    using wait_dhcp_returns [OF assms, of xid wanted v] by blast
qed

theorem waits_return_witness:
  "timer_monotone quiet_link \<and> link_ok quiet_link \<and> (\<exists>r s'. arp_resolve quiet_link demo_net 0x0a000001 = Some (r, s')) \<and>
   send_udp quiet_link demo_net 0x0a000001 68 67 [1] \<noteq> None"
proof -
  have a: "timer_monotone quiet_link" "link_ok quiet_link" "length (frame_buf demo_net) = 1500"
    by (auto simp: timer_monotone_def link_ok_def quiet_link_def demo_net_def)
  from waits_return [OF a, where ip = "0x0a000001" and dst_ip = "0x0a000001" and src_port = 68 and dst_port = 67 and payload = "[1]"] a(1,2)
  show ?thesis by blast
qed

end
