(* ===== verification/NetNames.thy ===== *)
theory NetNames
  imports Cstring NetPacket
begin

text \<open>
  The text and name formats of \<^verbatim>\<open>kernel/drivers/netstack.c\<close>: dotted addresses, the lines of the configuration file, and names in DNS
  messages. A NUL-terminated text is the list of its characters before the NUL. Reads of a DNS message run in the option
  monad, as in \<open>NetPacket\<close>: \<open>None\<close> is a read outside the message, \<open>Some None\<close> the error return.
\<close>

section \<open>Dotted addresses\<close>

definition netstack_format_ipv4 :: "u32 \<Rightarrow> nat \<Rightarrow> string option" where
  "netstack_format_ipv4 ip cap = snprintf cap ''%lu.%lu.%lu.%lu''
     [VLong (ucast (drop_bit 24 ip AND 0xff)), VLong (ucast (drop_bit 16 ip AND 0xff)),
      VLong (ucast (drop_bit 8 ip AND 0xff)), VLong (ucast (ip AND 0xff))]"

text \<open>The loop over the characters up to a blank or the end; the four numbers, the index of the current one and its digits so far.\<close>

fun parse_parts :: "string \<Rightarrow> u32 list \<Rightarrow> nat \<Rightarrow> nat \<Rightarrow> (string \<times> u32 list \<times> nat \<times> nat) option" where
  "parse_parts [] parts part digits = Some ([], parts, part, digits)"
| "parse_parts (c # t) parts part digits =
    (if c = CHR '' '' then Some (c # t, parts, part, digits)
     else if is_digit c
     then let v = parts ! part * 10 + of_nat (of_char c - 48)
          in if v > 255 then None else parse_parts t (parts[part := v]) part (digits + 1)
     else if c = CHR ''.''
     then if digits = 0 \<or> part \<ge> 3 then None else parse_parts t parts (part + 1) 0
     else None)"

text \<open>The address stored, or \<open>None\<close> for -1.\<close>

definition netstack_parse_ipv4 :: "string option \<Rightarrow> u32 option" where
  "netstack_parse_ipv4 text = do {
     t \<leftarrow> text;
     (t, parts, part, digits) \<leftarrow> parse_parts (dropWhile (\<lambda>c. c = CHR '' '') t) [0, 0, 0, 0] 0 0;
     if dropWhile (\<lambda>c. c = CHR '' '') t \<noteq> [] \<or> part \<noteq> 3 \<or> digits = 0 then None
     else Some (push_bit 24 (parts ! 0) OR push_bit 16 (parts ! 1) OR push_bit 8 (parts ! 2) OR parts ! 3) }"

section \<open>The configuration file\<close>

definition blank :: "char \<Rightarrow> bool" where
  "blank c \<longleftrightarrow> c = CHR '' '' \<or> c = CHR 0x09"

definition config_line_key_matches :: "string \<Rightarrow> string \<Rightarrow> bool" where
  "config_line_key_matches line key \<longleftrightarrow>
     take (length key) line = key \<and> (case drop (length key) line of [] \<Rightarrow> False | c # _ \<Rightarrow> blank c)"

function config_read_loop :: "string \<Rightarrow> string \<Rightarrow> nat \<Rightarrow> string option" where
  "config_read_loop p key out_size =
    (if p = [] then None
     else if config_line_key_matches p key
     then let value = dropWhile blank (drop (length key) p);
              v = takeWhile (\<lambda>c. c \<noteq> CHR 0x0A \<and> c \<noteq> CHR 0x0D \<and> \<not> blank c) value
          in if v = [] \<or> length v \<ge> out_size then None else Some v
     else config_read_loop (tl (dropWhile (\<lambda>c. c \<noteq> CHR 0x0A) p)) key out_size)"
  by pat_completeness auto
termination
proof (relation "measure (\<lambda>(p, _). length p)", simp, clarsimp)
  fix p :: string
  assume "p \<noteq> []"
  moreover have "length (dropWhile (\<lambda>c. c \<noteq> CHR 0x0A) p) \<le> length p" by (rule length_dropWhile_le)
  ultimately show "length (dropWhile (\<lambda>c. c \<noteq> CHR 0x0A) p) - Suc 0 < length p" by (cases p) auto
qed

declare config_read_loop.simps [simp del]

definition config_read_value :: "string \<Rightarrow> string \<Rightarrow> nat \<Rightarrow> string option" where
  "config_read_value text key out_size = (if out_size = 0 then None else config_read_loop text key out_size)"

definition config_read_ip :: "string \<Rightarrow> string \<Rightarrow> u32 option" where
  "config_read_ip text key = (case config_read_value text key 32 of None \<Rightarrow> None | Some value \<Rightarrow> netstack_parse_ipv4 (Some value))"

definition network_config_is_static :: "string \<Rightarrow> bool" where
  "network_config_is_static text \<longleftrightarrow> config_read_value text ''mode'' 16 = Some ''static''"

definition DEFAULT_STATIC_SUBNET :: u32 where "DEFAULT_STATIC_SUBNET = 0xffffff00"

text \<open>The text of the file that \<^verbatim>\<open>netstack_save_static_config\<close> writes, or \<open>None\<close> if it refuses the addresses.\<close>

definition newline :: string where
  "newline = [CHR 0x0A]"

definition static_config_format :: string where
  "static_config_format = ''mode static'' @ newline @ ''ip %s'' @ newline @ ''subnet %s'' @ newline @ ''gateway %s'' @ newline @ ''dns %s'' @ newline"

definition static_config_text :: "u32 \<Rightarrow> u32 \<Rightarrow> u32 \<Rightarrow> u32 \<Rightarrow> string option" where
  "static_config_text ip subnet gateway dns =
    (if ip = 0 \<or> gateway = 0 then None
     else do {
       let subnet = (if subnet = 0 then DEFAULT_STATIC_SUBNET else subnet);
       let dns = (if dns = 0 then gateway else dns);
       ip_s \<leftarrow> netstack_format_ipv4 ip 24;
       subnet_s \<leftarrow> netstack_format_ipv4 subnet 24;
       gateway_s \<leftarrow> netstack_format_ipv4 gateway 24;
       dns_s \<leftarrow> netstack_format_ipv4 dns 24;
       snprintf 256 static_config_format [VPtr (Some ip_s), VPtr (Some subnet_s), VPtr (Some gateway_s), VPtr (Some dns_s)] })"

text \<open>The four values that \<^verbatim>\<open>netstack_configure_static_from_vfs\<close> takes from the text: \<open>Inl\<close> the status of a refusal.\<close>

definition static_config_values :: "string \<Rightarrow> string + (u32 \<times> u32 \<times> u32 \<times> u32)" where
  "static_config_values text =
    (if text = [] \<or> \<not> network_config_is_static text then Inl ''ipv4: no static config''
     else case (config_read_ip text ''ip'', config_read_ip text ''gateway'') of
       (Some ip, Some gateway) \<Rightarrow>
         Inr (ip, (case config_read_ip text ''subnet'' of None \<Rightarrow> DEFAULT_STATIC_SUBNET | Some x \<Rightarrow> x), gateway,
              (case config_read_ip text ''dns'' of None \<Rightarrow> 0 | Some x \<Rightarrow> x))
     | _ \<Rightarrow> Inl ''ipv4: invalid static config file'')"

section \<open>DNS names\<close>

text \<open>The query buffer and the offset, the label read so far and the characters to come.\<close>

definition dns_write_label :: "nat \<Rightarrow> bytes \<times> nat \<Rightarrow> bytes \<Rightarrow> (bytes \<times> nat) option" where
  "dns_write_label cap b label =
    (case b of (buf, off) \<Rightarrow>
       if length label = 0 \<or> length label > 63 \<or> off + length label + 1 \<ge> cap then None
       else Some (blit (off + 1) label (buf[off := of_nat (length label)]), off + 1 + length label))"

fun dns_write_loop :: "nat \<Rightarrow> bytes \<times> nat \<Rightarrow> bytes \<Rightarrow> bytes \<Rightarrow> (bytes \<times> nat) option" where
  "dns_write_loop cap b label [] = dns_write_label cap b label"
| "dns_write_loop cap b label (c # rest) =
    (if c = 46 then case dns_write_label cap b label of None \<Rightarrow> None | Some b \<Rightarrow> dns_write_loop cap b [] rest
     else dns_write_loop cap b (label @ [c]) rest)"

definition dns_write_name :: "bytes \<Rightarrow> nat \<Rightarrow> nat \<Rightarrow> bytes \<Rightarrow> (bytes \<times> nat) option" where
  "dns_write_name buf cap off host =
    (case dns_write_loop cap (buf, off) [] host of
       None \<Rightarrow> None
     | Some (buf, off) \<Rightarrow> if off + 1 \<ge> cap then None else Some (buf[off := 0], off + 1))"

function dns_skip_loop :: "bytes \<Rightarrow> nat \<Rightarrow> nat \<Rightarrow> nat option option" where
  "dns_skip_loop buf len p =
    (if p < len
     then case rd buf p of None \<Rightarrow> None | Some c \<Rightarrow>
       if c = 0 then Some (Some (p + 1))
       else if c AND 0xc0 = 0xc0 then (if p + 1 \<ge> len then Some None else Some (Some (p + 2)))
       else if c AND 0xc0 \<noteq> 0 \<or> p + 1 + unat c > len then Some None
       else dns_skip_loop buf len (p + 1 + unat c)
     else Some None)"
  by pat_completeness auto
termination
  by (relation "measure (\<lambda>(_, len, p). len - p)") auto

declare dns_skip_loop.simps [simp del]

definition dns_skip_name :: "bytes \<Rightarrow> nat \<Rightarrow> nat \<Rightarrow> nat option option" where
  "dns_skip_name buf len off = dns_skip_loop buf len off"

text \<open>The two loops over a reply; \<open>Some None\<close> is the error return, and an address ends the second loop.\<close>

fun dns_questions :: "bytes \<Rightarrow> nat \<Rightarrow> nat \<Rightarrow> nat \<Rightarrow> nat option option" where
  "dns_questions buf len 0 roff = Some (Some roff)"
| "dns_questions buf len (Suc qd) roff = do {
     r \<leftarrow> dns_skip_name buf len roff;
     case r of None \<Rightarrow> Some None
     | Some roff \<Rightarrow> if roff + 4 > len then Some None else dns_questions buf len qd (roff + 4) }"

datatype dns_result = DnsError | DnsAddress u32 | DnsNothing

fun dns_answers :: "bytes \<Rightarrow> nat \<Rightarrow> nat \<Rightarrow> nat \<Rightarrow> dns_result option" where
  "dns_answers buf len 0 roff = Some DnsNothing"
| "dns_answers buf len (Suc an) roff = do {
     r \<leftarrow> dns_skip_name buf len roff;
     case r of None \<Rightarrow> Some DnsError
     | Some roff \<Rightarrow>
         if roff + 10 > len then Some DnsError
         else do {
           ty \<leftarrow> get_be16 buf roff;
           klass \<leftarrow> get_be16 buf (roff + 2);
           rdlen \<leftarrow> get_be16 buf (roff + 8);
           let roff = roff + 10;
           if roff + unat rdlen > len then Some DnsError
           else if ty = 1 \<and> klass = 1 \<and> rdlen = 4
           then do { ip \<leftarrow> get_be32 buf roff; Some (DnsAddress ip) }
           else dns_answers buf len an (roff + unat rdlen) } }"

text \<open>A DNS message of \<open>len\<close> bytes that already matched the port and has at least twelve bytes.\<close>

definition dns_reply :: "bytes \<Rightarrow> nat \<Rightarrow> dns_result option" where
  "dns_reply buf len = do {
     qd \<leftarrow> get_be16 buf 4;
     an \<leftarrow> get_be16 buf 6;
     r \<leftarrow> dns_questions buf len (unat qd) 12;
     case r of None \<Rightarrow> Some DnsError | Some roff \<Rightarrow> dns_answers buf len (unat an) roff }"

text \<open>A store of two bytes; \<open>None\<close> is a store past the end of the buffer.\<close>

definition store_be16 :: "nat \<Rightarrow> u16 \<Rightarrow> bytes \<Rightarrow> bytes option" where
  "store_be16 i v buf = (if i + 2 \<le> length buf then Some (put_be16 buf i v) else None)"

text \<open>
  The query of a host name in its buffer of 512 bytes, with its length. \<open>Some None\<close> is the error return of \<^verbatim>\<open>dns_write_name\<close>;
  the type and class are stored without a check in the code, and \<open>None\<close> is such a store past the end of \<^verbatim>\<open>query\<close>.
\<close>

definition dns_query :: "u16 \<Rightarrow> bytes \<Rightarrow> (bytes \<times> nat) option option" where
  "dns_query ident host =
    (let query = put_be16 (put_be16 (put_be16 (replicate 512 0) 0 ident) 2 0x0100) 4 1
     in case dns_write_name query 512 12 host of
          None \<Rightarrow> Some None
        | Some (query, off) \<Rightarrow> do {
            query \<leftarrow> store_be16 off 1 query;
            query \<leftarrow> store_be16 (off + 2) 1 query;
            Some (Some (query, off + 4)) })"

section \<open>Dotted addresses parse back\<close>

text \<open>The value of a run of decimal digits after a number \<open>v\<close>.\<close>

definition decimal_from :: "nat \<Rightarrow> string \<Rightarrow> nat" where
  "decimal_from v s = foldl (\<lambda>acc c. acc * 10 + (of_char c - 48)) v s"

definition decimal_byte :: "string \<Rightarrow> bool" where
  "decimal_byte s \<longleftrightarrow> s \<noteq> [] \<and> (\<forall>c\<in>set s. is_digit c) \<and> decimal_from 0 s \<le> 255"

definition ipv4_of :: "nat \<Rightarrow> nat \<Rightarrow> nat \<Rightarrow> nat \<Rightarrow> u32" where
  "ipv4_of a b c d = push_bit 24 (of_nat a) OR push_bit 16 (of_nat b) OR push_bit 8 (of_nat c) OR of_nat d"

lemma decimal_from_simps [simp]: "decimal_from v [] = v" "decimal_from v (c # s) = decimal_from (v * 10 + (of_char c - 48)) s"
  by (simp_all add: decimal_from_def)

lemma decimal_from_le: "v \<le> decimal_from v s"
proof (induction s arbitrary: v)
  case (Cons c s)
  have "v \<le> v * 10 + (of_char c - 48)" by linarith
  also have "\<dots> \<le> decimal_from v (c # s)" using Cons.IH by simp
  finally show ?case .
qed simp

lemma octet_step:
  fixes w :: u32
  assumes "is_digit c" "unat w \<le> 255"
  shows "w * 10 + of_nat (of_char c - 48) > 255 \<longleftrightarrow> unat w * 10 + (of_char c - 48) > 255"
    "unat (w * 10 + of_nat (of_char c - 48)) = unat w * 10 + (of_char c - 48)"
proof -
  have d: "of_char c - 48 \<le> (9 :: nat)" using assms(1) unfolding is_digit_def by linarith
  have "w * 10 + of_nat (of_char c - 48) = of_nat (unat w * 10 + (of_char c - 48))" by simp
  also have "unat (of_nat (unat w * 10 + (of_char c - 48)) :: u32) = unat w * 10 + (of_char c - 48)"
    using d assms(2) by (simp add: unsigned_of_nat take_bit_nat_eq_self del: of_nat_add of_nat_mult)
  finally show u: "unat (w * 10 + of_nat (of_char c - 48)) = unat w * 10 + (of_char c - 48)" .
  show "w * 10 + of_nat (of_char c - 48) > 255 \<longleftrightarrow> unat w * 10 + (of_char c - 48) > 255"
    unfolding word_less_nat_alt u by simp
qed

text \<open>A run of digits is read as one number.\<close>

lemma parse_octet:
  assumes "part < length parts" "unat (parts ! part) \<le> 255"
  shows "parse_parts t parts part digits =
    (let ds = takeWhile is_digit t; v = decimal_from (unat (parts ! part)) ds in
     if v > 255 then None else parse_parts (dropWhile is_digit t) (parts[part := of_nat v]) part (digits + length ds))"
  using assms
proof (induction t arbitrary: parts digits)
  case (Cons c t)
  show ?case
  proof (cases "is_digit c")
    case True
    then have "c \<noteq> CHR '' ''" by (auto simp: is_digit_def)
    define w where "w = parts ! part * 10 + of_nat (of_char c - 48)"
    note st = octet_step [OF True Cons.prems(2), folded w_def]
    show ?thesis
    proof (cases "w > 255")
      case big: True
      then have "decimal_from (unat (parts ! part) * 10 + (of_char c - 48)) (takeWhile is_digit t) > 255"
        using st(1) decimal_from_le less_le_trans by blast
      then show ?thesis using True \<open>c \<noteq> CHR '' ''\<close> big by (simp add: w_def [symmetric] Let_def)
    next
      case small: False
      then have "unat w \<le> 255" using st by simp
      then show ?thesis using Cons.IH [of "parts[part := w]" "digits + 1"] Cons.prems(1) True \<open>c \<noteq> CHR '' ''\<close> small
        by (simp add: w_def [symmetric] st(2) Let_def)
    qed
  next
    case False
    then show ?thesis using Cons.prems by (simp add: Let_def)
  qed
qed (simp add: Let_def)

lemma decimal_takeWhile:
  assumes "\<forall>c\<in>set ds. is_digit c" "r = [] \<or> \<not> is_digit (hd r)"
  shows "takeWhile is_digit (ds @ r) = ds" "dropWhile is_digit (ds @ r) = r"
  using assms by (cases r; simp)+

lemma not_digit [simp]: "\<not> is_digit CHR ''.''" "\<not> is_digit CHR '' ''"
  by (simp_all add: is_digit_def)

lemma parse_octet_dot:
  assumes "decimal_byte ds" "part < 3" "length parts = 4" "parts ! part = 0"
  shows "parse_parts (ds @ CHR ''.'' # r) parts part 0 = parse_parts r (parts[part := of_nat (decimal_from 0 ds)]) (part + 1) 0"
proof -
  have "takeWhile is_digit (ds @ CHR ''.'' # r) = ds" "dropWhile is_digit (ds @ CHR ''.'' # r) = CHR ''.'' # r"
    using assms(1) by (simp_all add: decimal_takeWhile decimal_byte_def)
  then show ?thesis using assms parse_octet [of part parts "ds @ CHR ''.'' # r" 0] by (simp add: decimal_byte_def Let_def)
qed

lemma parse_octet_last:
  assumes "decimal_byte ds" "length parts = 4" "parts ! 3 = 0"
  shows "parse_parts (ds @ replicate j CHR '' '') parts 3 0 = Some (replicate j CHR '' '', parts[3 := of_nat (decimal_from 0 ds)], 3, length ds)"
proof -
  have "takeWhile is_digit (ds @ replicate j CHR '' '') = ds" "dropWhile is_digit (ds @ replicate j CHR '' '') = replicate j CHR '' ''"
    using assms(1) decimal_takeWhile [of ds "replicate j CHR '' ''"] by (cases j; simp add: decimal_byte_def)+
  then show ?thesis using assms parse_octet [of 3 parts "ds @ replicate j CHR '' ''" 0]
    by (simp add: decimal_byte_def Let_def) (cases j; simp)
qed

lemma dropWhile_blanks: "r = [] \<or> hd r \<noteq> x \<Longrightarrow> dropWhile (\<lambda>c. c = x) (replicate i x @ r) = r"
  by (induction i) (cases r; simp)+

lemma parse_dotted:
  assumes "decimal_byte a" "decimal_byte b" "decimal_byte c" "decimal_byte d"
  shows "netstack_parse_ipv4 (Some (replicate i CHR '' '' @ a @ CHR ''.'' # b @ CHR ''.'' # c @ CHR ''.'' # d @ replicate j CHR '' '')) =
    Some (ipv4_of (decimal_from 0 a) (decimal_from 0 b) (decimal_from 0 c) (decimal_from 0 d))"
proof -
  have "a \<noteq> []" "is_digit (hd a)" using assms(1) by (auto simp: decimal_byte_def)
  then have "hd (a @ r) \<noteq> CHR '' ''" for r using not_digit(2) by auto
  then have dr: "dropWhile (\<lambda>c. c = CHR '' '') (replicate i CHR '' '' @ a @ r) = a @ r" for r by (intro dropWhile_blanks) simp
  have "dropWhile (\<lambda>c. c = CHR '' '') (replicate j CHR '' '' @ []) = []" by (intro dropWhile_blanks) simp
  moreover have "d \<noteq> []" using assms(4) by (simp add: decimal_byte_def)
  ultimately show ?thesis
    by (simp add: netstack_parse_ipv4_def dr parse_octet_dot [OF assms(1)] parse_octet_dot [OF assms(2)] parse_octet_dot [OF assms(3)] parse_octet_last [OF assms(4), unfolded numeral_3_eq_3] ipv4_of_def Let_def)
qed

lemma parse_octet_step:
  assumes "parse_parts t parts part 0 = Some (r, parts', part', digits')" "part < length parts" "parts ! part = 0"
  obtains ds u where "t = ds @ u" "\<forall>c\<in>set ds. is_digit c" "decimal_from 0 ds \<le> 255" "u = [] \<or> hd u \<noteq> CHR ''.'' \<Longrightarrow>
      (u = [] \<or> hd u = CHR '' '') \<and> r = u \<and> part' = part \<and> digits' = length ds \<and> parts' = parts[part := of_nat (decimal_from 0 ds)]"
    "u \<noteq> [] \<Longrightarrow> hd u = CHR ''.'' \<Longrightarrow> ds \<noteq> [] \<and> part < 3 \<and>
      parse_parts (tl u) (parts[part := of_nat (decimal_from 0 ds)]) (part + 1) 0 = Some (r, parts', part', digits')"
proof -
  define ds u where "ds = takeWhile is_digit t" and "u = dropWhile is_digit t"
  have t: "t = ds @ u" "\<forall>c\<in>set ds. is_digit c" by (auto simp: ds_def u_def dest: set_takeWhileD)
  have p: "decimal_from 0 ds \<le> 255" "parse_parts u (parts[part := of_nat (decimal_from 0 ds)]) part (length ds) = Some (r, parts', part', digits')"
    using assms parse_octet [OF assms(2), of t 0] by (simp_all add: ds_def u_def Let_def split: if_splits)
  have h: "u = [] \<or> \<not> is_digit (hd u)" unfolding u_def using hd_dropWhile by blast
  show thesis
  proof (rule that [OF t p(1)])
    assume "u = [] \<or> hd u \<noteq> CHR ''.''"
    with h p(2) show "(u = [] \<or> hd u = CHR '' '') \<and> r = u \<and> part' = part \<and> digits' = length ds \<and> parts' = parts[part := of_nat (decimal_from 0 ds)]"
      by (cases u) (auto split: if_splits)
  next
    assume "u \<noteq> []" "hd u = CHR ''.''"
    with p(2) show "ds \<noteq> [] \<and> part < 3 \<and> parse_parts (tl u) (parts[part := of_nat (decimal_from 0 ds)]) (part + 1) 0 = Some (r, parts', part', digits')"
      by (cases u) (auto split: if_splits)
  qed
qed

lemma parse_octet_dot_inv:
  assumes "parse_parts t parts part 0 = Some (r, parts', part', digits')" "part < length parts" "parts ! part = 0" "part' \<noteq> part"
  obtains ds u where "t = ds @ CHR ''.'' # u" "decimal_byte ds"
    "parse_parts u (parts[part := of_nat (decimal_from 0 ds)]) (part + 1) 0 = Some (r, parts', part', digits')"
proof (rule parse_octet_step [OF assms(1-3)])
  fix ds u
  assume *: "t = ds @ u" "\<forall>c\<in>set ds. is_digit c" "decimal_from 0 ds \<le> 255" "u = [] \<or> hd u \<noteq> CHR ''.'' \<Longrightarrow>
      (u = [] \<or> hd u = CHR '' '') \<and> r = u \<and> part' = part \<and> digits' = length ds \<and> parts' = parts[part := of_nat (decimal_from 0 ds)]"
    "u \<noteq> [] \<Longrightarrow> hd u = CHR ''.'' \<Longrightarrow> ds \<noteq> [] \<and> part < 3 \<and>
      parse_parts (tl u) (parts[part := of_nat (decimal_from 0 ds)]) (part + 1) 0 = Some (r, parts', part', digits')"
  from *(4) assms(4) have u: "u \<noteq> []" "hd u = CHR ''.''" by blast+
  then have "t = ds @ CHR ''.'' # tl u" using *(1) by (cases u) simp_all
  with *(2,3) *(5) [OF u] show thesis by (intro that [of ds "tl u"]) (simp_all add: decimal_byte_def)
qed

lemma parse_octet_last_inv:
  assumes "parse_parts t parts 3 0 = Some (r, parts', part', digits')" "3 < length parts" "parts ! 3 = 0"
  obtains ds where "t = ds @ r" "r = [] \<or> hd r = CHR '' ''" "\<forall>c\<in>set ds. is_digit c" "decimal_from 0 ds \<le> 255"
    "digits' = length ds" "parts' = parts[3 := of_nat (decimal_from 0 ds)]"
proof (rule parse_octet_step [OF assms])
  fix ds u
  assume "t = ds @ u" "\<forall>c\<in>set ds. is_digit c" "decimal_from 0 ds \<le> 255" "u = [] \<or> hd u \<noteq> CHR ''.'' \<Longrightarrow>
      (u = [] \<or> hd u = CHR '' '') \<and> r = u \<and> part' = 3 \<and> digits' = length ds \<and> parts' = parts[3 := of_nat (decimal_from 0 ds)]"
    "u \<noteq> [] \<Longrightarrow> hd u = CHR ''.'' \<Longrightarrow> ds \<noteq> [] \<and> 3 < (3 :: nat) \<and>
      parse_parts (tl u) (parts[3 := of_nat (decimal_from 0 ds)]) (3 + 1) 0 = Some (r, parts', part', digits')"
  then show thesis by (intro that [of ds]) blast+
qed

lemma blanks_of: "(t = [] \<or> hd t = x) \<Longrightarrow> dropWhile (\<lambda>c. c = x) t = [] \<Longrightarrow> \<exists>j. t = replicate j x"
  by (rule exI [of _ "length t"]) (auto intro!: replicate_eqI simp: dropWhile_eq_Nil_conv)

lemma leading_blanks: "\<exists>i. t = replicate i x @ dropWhile (\<lambda>c. c = x) t"
proof -
  have "takeWhile (\<lambda>c. c = x) t = replicate (length (takeWhile (\<lambda>c. c = x) t)) x"
    by (auto intro!: replicate_eqI dest: set_takeWhileD)
  then show ?thesis by (metis takeWhile_dropWhile_id)
qed

lemma parse_sound:
  assumes "netstack_parse_ipv4 (Some t) = Some ip"
  shows "\<exists>i j a b c d. t = replicate i CHR '' '' @ a @ CHR ''.'' # b @ CHR ''.'' # c @ CHR ''.'' # d @ replicate j CHR '' '' \<and>
    decimal_byte a \<and> decimal_byte b \<and> decimal_byte c \<and> decimal_byte d \<and>
    ip = ipv4_of (decimal_from 0 a) (decimal_from 0 b) (decimal_from 0 c) (decimal_from 0 d)"
proof -
  define t0 where "t0 = dropWhile (\<lambda>c. c = CHR '' '') t"
  obtain i where "t = replicate i CHR '' '' @ t0" using leading_blanks [of t "CHR '' ''"] unfolding t0_def ..
  note t0 = this t0_def [symmetric]
  obtain r parts part digits where p: "parse_parts t0 [0, 0, 0, 0] 0 0 = Some (r, parts, part, digits)"
    and ok: "dropWhile (\<lambda>c. c = CHR '' '') r = []" "part = 3" "digits \<noteq> 0"
      "ip = push_bit 24 (parts ! 0) OR push_bit 16 (parts ! 1) OR push_bit 8 (parts ! 2) OR parts ! 3"
    using assms t0(2) by (auto simp: netstack_parse_ipv4_def bind_eq_Some_conv split: if_splits)
  obtain a u1 where a: "t0 = a @ CHR ''.'' # u1" "decimal_byte a" "parse_parts u1 [of_nat (decimal_from 0 a), 0, 0, 0] 1 0 = Some (r, parts, part, digits)"
    by (rule parse_octet_dot_inv [OF p]) (use ok(2) in simp_all)
  obtain b u2 where b: "u1 = b @ CHR ''.'' # u2" "decimal_byte b"
      "parse_parts u2 [of_nat (decimal_from 0 a), of_nat (decimal_from 0 b), 0, 0] 2 0 = Some (r, parts, part, digits)"
    by (rule parse_octet_dot_inv [OF a(3)]) (use ok(2) in \<open>simp_all add: numeral_2_eq_2\<close>)
  obtain c u3 where c: "u2 = c @ CHR ''.'' # u3" "decimal_byte c"
      "parse_parts u3 [of_nat (decimal_from 0 a), of_nat (decimal_from 0 b), of_nat (decimal_from 0 c), 0] 3 0 = Some (r, parts, part, digits)"
    by (rule parse_octet_dot_inv [OF b(3)]) (use ok(2) in \<open>simp_all add: numeral_2_eq_2 numeral_3_eq_3\<close>)
  obtain d where d: "u3 = d @ r" "r = [] \<or> hd r = CHR '' ''" "\<forall>x\<in>set d. is_digit x" "decimal_from 0 d \<le> 255" "digits = length d"
      "parts = [of_nat (decimal_from 0 a), of_nat (decimal_from 0 b), of_nat (decimal_from 0 c), of_nat (decimal_from 0 d)]"
    by (rule parse_octet_last_inv [OF c(3)]) (simp_all add: numeral_3_eq_3)
  obtain j where "r = replicate j CHR '' ''" using blanks_of [OF d(2) ok(1)] by blast
  then have "t = replicate i CHR '' '' @ a @ CHR ''.'' # b @ CHR ''.'' # c @ CHR ''.'' # d @ replicate j CHR '' ''"
    using t0(1) a(1) b(1) c(1) d(1) by simp
  moreover have "decimal_byte a" "decimal_byte b" "decimal_byte c" "decimal_byte d"
    using a(2) b(2) c(2) d(3-5) ok(3) by (simp_all add: decimal_byte_def)
  moreover have "ip = ipv4_of (decimal_from 0 a) (decimal_from 0 b) (decimal_from 0 c) (decimal_from 0 d)"
    using ok(4) d(6) by (simp add: ipv4_of_def)
  ultimately show ?thesis by blast
qed

section \<open>Formatting and parsing are inverse\<close>

lemma utoa_loop_step: "utoa_loop v 10 p = (if v div 10 \<noteq> 0 then utoa_loop (v div 10) 10 (p @ [digit_char (v mod 10)]) else Some (p @ [digit_char (v mod 10)]))"
  unfolding utoa_loop.simps [of v 10 p] Let_def by simp

lemma utoa_loop_is_digit: "utoa_loop v 10 p = Some q \<Longrightarrow> \<forall>c\<in>set p. is_digit c \<Longrightarrow> \<forall>c\<in>set q. is_digit c"
proof (induction v arbitrary: p rule: less_induct)
  case (less v)
  have "v mod 10 < 10" by simp
  then have "is_digit (digit_char (v mod 10))" by (auto simp: digit_char_def is_digit_def)
  then have d: "\<forall>c\<in>set (p @ [digit_char (v mod 10)]). is_digit c" using less.prems(2) by simp
  show ?case
  proof (cases "v div 10 = 0")
    case True
    then have "q = p @ [digit_char (v mod 10)]" using less.prems(1) unfolding utoa_loop_step [of v p] by simp
    then show ?thesis using d by simp
  next
    case False
    then have "utoa_loop (v div 10) 10 (p @ [digit_char (v mod 10)]) = Some q"
      using less.prems(1) unfolding utoa_loop_step [of v p] by (simp only: if_True simp_thms)
    moreover have "v div 10 < v" using False by (cases "v = 0") simp_all
    ultimately show ?thesis using less.IH d by blast
  qed
qed

lemma digits_val_decimal: "\<forall>c\<in>set s. is_digit c \<Longrightarrow> foldl (\<lambda>acc c. acc * 10 + digit_val c) v s = decimal_from v s"
  by (induction s arbitrary: v) (simp_all add: digit_val_def)

lemma utoa_byte:
  assumes "v < 256"
  obtains s where "utoa v 10 = Some s" "decimal_byte s" "decimal_from 0 s = v" "length s \<le> 3"
proof -
  obtain s where s: "utoa v 10 = Some s" "s \<noteq> []" "digits_val 10 s = v" "10 ^ (length s - 1) \<le> max 1 v" using utoa_value [of 10 v] by auto
  obtain q where q: "utoa_loop v 10 [] = Some q" "s = reverse_loop q 0 (length q - 1)" using s(1) by (auto simp: utoa_def bind_eq_Some_conv)
  have "q \<noteq> []" using s(2) q(2) by (metis length_0_conv length_reverse_loop)
  then have "s = rev q" using q(2) reverse_loop_rev by simp
  then have d: "\<forall>c\<in>set s. is_digit c" using utoa_loop_is_digit [OF q(1)] by simp
  then have v: "decimal_from 0 s = v" using digits_val_decimal [of s 0] s(3) by (simp add: digits_val_def)
  have "length s \<le> 3"
  proof (rule ccontr)
    assume "\<not> length s \<le> 3"
    then have "(10::nat) ^ 3 \<le> 10 ^ (length s - 1)" by (intro power_increasing) auto
    then show False using s(4) assms by simp
  qed
  then show thesis using that s d v assms by (simp add: decimal_byte_def)
qed

lemma snprintf_char: "length out < lim \<Longrightarrow> c \<noteq> CHR ''%'' \<Longrightarrow> snprintf_loop lim (c # f) args out = snprintf_loop lim f args (out @ [c])"
  by simp

lemma snprintf_lu:
  "length out < lim \<Longrightarrow> utoa (unat v) 10 = Some s \<Longrightarrow>
   snprintf_loop lim (CHR ''%'' # CHR ''l'' # CHR ''u'' # f) (VLong v # args) out = snprintf_loop lim f args (out @ take (lim - length out) s)"
  by (simp add: convert_def conv_unsigned_def padded_def is_digit_def)

lemma snprintf_s:
  "length out < lim \<Longrightarrow>
   snprintf_loop lim (CHR ''%'' # CHR ''s'' # f) (VPtr (Some s) # args) out = snprintf_loop lim f args (out @ take (lim - length out) s)"
  by (simp add: convert_def padded_def is_digit_def)

lemma mask_byte: "unat ((x :: u32) AND 0xff) < 256" "unat (ucast (x AND 0xff) :: u64) = unat (x AND 0xff)"
proof -
  have m: "(0xff :: u32) = mask 8" by (simp add: mask_eq_exp_minus_1)
  have e: "x AND 0xff = take_bit 8 x" unfolding m by (simp add: take_bit_eq_mask)
  show "unat (x AND 0xff) < 256" unfolding e using take_bit_nat_less_exp [of 8 "unat x"] by (simp add: unsigned_take_bit_eq)
  show "unat (ucast (x AND 0xff) :: u64) = unat (x AND 0xff)" unfolding e by (simp add: unsigned_ucast_eq unsigned_take_bit_eq)
qed

lemma octets_join:
  "push_bit 24 (drop_bit 24 ip AND 0xff) OR push_bit 16 (drop_bit 16 ip AND 0xff) OR push_bit 8 (drop_bit 8 ip AND 0xff) OR (ip AND 0xff) = (ip :: u32)"
proof (rule bit_word_eqI)
  have m: "(0xff :: u32) = mask 8" by (simp add: mask_eq_exp_minus_1)
  fix n assume "n < LENGTH(32)"
  then consider "n < 8" | "8 \<le> n" "n < 16" | "16 \<le> n" "n < 24" | "24 \<le> n" "n < 32" by fastforce
  then show "bit (push_bit 24 (drop_bit 24 ip AND 0xff) OR push_bit 16 (drop_bit 16 ip AND 0xff) OR push_bit 8 (drop_bit 8 ip AND 0xff) OR (ip AND 0xff)) n = bit ip n"
    unfolding m by cases (auto simp: bit_simps)
qed

lemma format_ipv4_dotted:
  assumes "16 \<le> cap"
  obtains a b c d where "netstack_format_ipv4 ip cap = Some (a @ CHR ''.'' # b @ CHR ''.'' # c @ CHR ''.'' # d)"
    "decimal_byte a" "decimal_byte b" "decimal_byte c" "decimal_byte d"
    "ipv4_of (decimal_from 0 a) (decimal_from 0 b) (decimal_from 0 c) (decimal_from 0 d) = ip"
    "length a \<le> 3" "length b \<le> 3" "length c \<le> 3" "length d \<le> 3"
proof -
  obtain a where a: "utoa (unat (drop_bit 24 ip AND 0xff)) 10 = Some a" "decimal_byte a" "decimal_from 0 a = unat (drop_bit 24 ip AND 0xff)" "length a \<le> 3"
    by (rule utoa_byte [OF mask_byte(1)])
  obtain b where b: "utoa (unat (drop_bit 16 ip AND 0xff)) 10 = Some b" "decimal_byte b" "decimal_from 0 b = unat (drop_bit 16 ip AND 0xff)" "length b \<le> 3"
    by (rule utoa_byte [OF mask_byte(1)])
  obtain c where c: "utoa (unat (drop_bit 8 ip AND 0xff)) 10 = Some c" "decimal_byte c" "decimal_from 0 c = unat (drop_bit 8 ip AND 0xff)" "length c \<le> 3"
    by (rule utoa_byte [OF mask_byte(1)])
  obtain d where d: "utoa (unat (ip AND 0xff)) 10 = Some d" "decimal_byte d" "decimal_from 0 d = unat (ip AND 0xff)" "length d \<le> 3"
    by (rule utoa_byte [OF mask_byte(1)])
  note lu = snprintf_lu [OF _ a(1) [folded mask_byte(2)]] snprintf_lu [OF _ b(1) [folded mask_byte(2)]]
    snprintf_lu [OF _ c(1) [folded mask_byte(2)]] snprintf_lu [OF _ d(1) [folded mask_byte(2)]]
  have "netstack_format_ipv4 ip cap = Some (a @ CHR ''.'' # b @ CHR ''.'' # c @ CHR ''.'' # d)"
    unfolding netstack_format_ipv4_def snprintf_def using assms a(4) b(4) c(4) d(4) by (simp add: lu snprintf_char del: snprintf_loop.simps(2))
  moreover have "ipv4_of (decimal_from 0 a) (decimal_from 0 b) (decimal_from 0 c) (decimal_from 0 d) = ip"
    using octets_join [of ip] by (simp add: ipv4_of_def a(3) b(3) c(3) d(3))
  ultimately show thesis using a(2,4) b(2,4) c(2,4) d(2,4) by (intro that [of a b c d])
qed

lemma format_then_parse:
  assumes "16 \<le> cap"
  obtains t where "netstack_format_ipv4 ip cap = Some t" "netstack_parse_ipv4 (Some t) = Some ip" "length t \<le> 15" "t \<noteq> []"
    "\<forall>c\<in>set t. is_digit c \<or> c = CHR ''.''"
proof (rule format_ipv4_dotted [OF assms, of ip])
  fix a b c d
  assume *: "netstack_format_ipv4 ip cap = Some (a @ CHR ''.'' # b @ CHR ''.'' # c @ CHR ''.'' # d)"
    "decimal_byte a" "decimal_byte b" "decimal_byte c" "decimal_byte d"
    "ipv4_of (decimal_from 0 a) (decimal_from 0 b) (decimal_from 0 c) (decimal_from 0 d) = ip"
    "length a \<le> 3" "length b \<le> 3" "length c \<le> 3" "length d \<le> 3"
  have p: "netstack_parse_ipv4 (Some (a @ CHR ''.'' # b @ CHR ''.'' # c @ CHR ''.'' # d)) = Some ip"
    using parse_dotted [OF *(2) *(3) *(4) *(5), where i = 0 and j = 0] *(6) by simp
  show thesis
    by (rule that [OF *(1) p]) (use *(2-5,7-10) in \<open>auto simp: decimal_byte_def\<close>)
qed

section \<open>The configuration file reads back\<close>

lemma snprintf_text:
  "\<forall>c\<in>set pre. c \<noteq> CHR ''%'' \<Longrightarrow> length out + length pre < lim \<Longrightarrow> snprintf_loop lim (pre @ f) args out = snprintf_loop lim f args (out @ pre)"
  by (induction pre arbitrary: out) (simp_all add: snprintf_char)

lemma snprintf_s_fits:
  "length out + length s < lim \<Longrightarrow>
   snprintf_loop lim (''%s'' @ f) (VPtr (Some s) # args) out = snprintf_loop lim f args (out @ s)"
  using snprintf_s [of out lim f s args] by simp

lemma snprintf_text_s:
  "\<forall>c\<in>set pre. c \<noteq> CHR ''%'' \<Longrightarrow> length out + length pre + length s < lim \<Longrightarrow>
   snprintf_loop lim (pre @ ''%s'' @ f) (VPtr (Some s) # args) out = snprintf_loop lim f args (out @ pre @ s)"
  using snprintf_text [of pre out lim "''%s'' @ f" "VPtr (Some s) # args"] snprintf_s_fits [of "out @ pre" s lim f args] by simp

definition address_text :: "string \<Rightarrow> bool" where
  "address_text t \<longleftrightarrow> t \<noteq> [] \<and> length t \<le> 15 \<and> (\<forall>c\<in>set t. is_digit c \<or> c = CHR ''.'')"

definition config_lines :: "string \<Rightarrow> string \<Rightarrow> string \<Rightarrow> string \<Rightarrow> string" where
  "config_lines a b c d = ''mode static'' @ CHR 0x0A # ''ip '' @ a @ CHR 0x0A # ''subnet '' @ b @ CHR 0x0A # ''gateway '' @ c @ CHR 0x0A # ''dns '' @ d @ [CHR 0x0A]"

lemma config_text_lines:
  assumes "address_text a" "address_text b" "address_text c" "address_text d"
  shows "snprintf 256 static_config_format [VPtr (Some a), VPtr (Some b), VPtr (Some c), VPtr (Some d)] = Some (config_lines a b c d)"
    "length (config_lines a b c d) \<le> 98"
proof -
  have l: "length a \<le> 15" "length b \<le> 15" "length c \<le> 15" "length d \<le> 15" using assms by (simp_all add: address_text_def)
  show "length (config_lines a b c d) \<le> 98" using l by (simp add: config_lines_def)
  define p1 p2 p3 p4 where p: "p1 = ''mode static'' @ newline @ ''ip ''" "p2 = newline @ ''subnet ''" "p3 = newline @ ''gateway ''" "p4 = newline @ ''dns ''"
  have f: "static_config_format = p1 @ ''%s'' @ p2 @ ''%s'' @ p3 @ ''%s'' @ p4 @ ''%s'' @ newline @ []"
    by (simp add: static_config_format_def p)
  have k: "\<forall>c\<in>set p1. c \<noteq> CHR ''%''" "\<forall>c\<in>set p2. c \<noteq> CHR ''%''" "\<forall>c\<in>set p3. c \<noteq> CHR ''%''" "\<forall>c\<in>set p4. c \<noteq> CHR ''%''" "\<forall>c\<in>set newline. c \<noteq> CHR ''%''"
    "length p1 = 15" "length p2 = 8" "length p3 = 9" "length p4 = 5" "length newline = 1" by (simp_all add: p newline_def)
  have "snprintf_loop 255 static_config_format [VPtr (Some a), VPtr (Some b), VPtr (Some c), VPtr (Some d)] []
      = snprintf_loop 255 [] [] (p1 @ a @ p2 @ b @ p3 @ c @ p4 @ d @ newline)"
    unfolding f using l k by (simp add: snprintf_text_s snprintf_text [where pre = newline and f = "[]", simplified] del: append.simps(2))
  then show "snprintf 256 static_config_format [VPtr (Some a), VPtr (Some b), VPtr (Some c), VPtr (Some d)] = Some (config_lines a b c d)"
    by (simp add: snprintf_def p config_lines_def newline_def)
qed

lemma config_skip:
  assumes "CHR 0x0A \<notin> set line" "\<not> config_line_key_matches (line @ CHR 0x0A # rest) key"
  shows "config_read_loop (line @ CHR 0x0A # rest) key n = config_read_loop rest key n"
proof -
  have "dropWhile (\<lambda>c. c \<noteq> CHR 0x0A) (line @ CHR 0x0A # rest) = CHR 0x0A # rest" using assms(1) by (induction line) auto
  then show ?thesis using assms(2) by (simp add: config_read_loop.simps [of "line @ CHR 0x0A # rest"])
qed

lemma config_hit:
  assumes "v \<noteq> []" "length v < n" "\<forall>c\<in>set v. c \<noteq> CHR 0x0A \<and> c \<noteq> CHR 0x0D \<and> \<not> blank c"
  shows "config_read_loop (key @ CHR '' '' # v @ CHR 0x0A # rest) key n = Some v"
proof -
  have m: "config_line_key_matches (key @ CHR '' '' # v @ CHR 0x0A # rest) key" by (simp add: config_line_key_matches_def blank_def)
  have "dropWhile blank (CHR '' '' # v @ CHR 0x0A # rest) = v @ CHR 0x0A # rest"
    using assms(1,3) by (cases v) (auto simp: blank_def)
  moreover have "takeWhile (\<lambda>c. c \<noteq> CHR 0x0A \<and> c \<noteq> CHR 0x0D \<and> \<not> blank c) (v @ CHR 0x0A # rest) = v"
    using assms(3) by (simp add: takeWhile_append)
  ultimately show ?thesis using m assms(1,2) by (simp add: config_read_loop.simps [of "key @ _"] Let_def)
qed

lemma address_text_chars: "address_text t \<Longrightarrow> \<forall>c\<in>set t. c \<noteq> CHR 0x0A \<and> c \<noteq> CHR 0x0D \<and> \<not> blank c"
  by (auto simp: address_text_def blank_def is_digit_def)

lemma no_match: "take (length key) line \<noteq> key \<Longrightarrow> \<not> config_line_key_matches line key"
  by (simp add: config_line_key_matches_def)

lemma config_lines_values:
  assumes "address_text a" "address_text b" "address_text c" "address_text d"
  shows "config_read_value (config_lines a b c d) ''mode'' 16 = Some ''static''"
    "config_read_value (config_lines a b c d) ''ip'' 32 = Some a"
    "config_read_value (config_lines a b c d) ''subnet'' 32 = Some b"
    "config_read_value (config_lines a b c d) ''gateway'' 32 = Some c"
    "config_read_value (config_lines a b c d) ''dns'' 32 = Some d"
proof -
  define r4 r3 r2 r1 where r: "r4 = (''dns'' @ CHR '' '' # d) @ CHR 0x0A # []" "r3 = (''gateway'' @ CHR '' '' # c) @ CHR 0x0A # r4"
    "r2 = (''subnet'' @ CHR '' '' # b) @ CHR 0x0A # r3" "r1 = (''ip'' @ CHR '' '' # a) @ CHR 0x0A # r2"
  have L: "config_lines a b c d = (''mode'' @ CHR '' '' # ''static'') @ CHR 0x0A # r1" by (simp add: config_lines_def r)
  note ch = address_text_chars [OF assms(1)] address_text_chars [OF assms(2)] address_text_chars [OF assms(3)] address_text_chars [OF assms(4)]
  have nl: "CHR 0x0A \<notin> set a" "CHR 0x0A \<notin> set b" "CHR 0x0A \<notin> set c" "CHR 0x0A \<notin> set d" using ch by auto
  have len: "a \<noteq> []" "length a < 32" "b \<noteq> []" "length b < 32" "c \<noteq> []" "length c < 32" "d \<noteq> []" "length d < 32" using assms by (auto simp: address_text_def)
  note hit = config_hit [OF _ _ ch(1)] config_hit [OF _ _ ch(2)] config_hit [OF _ _ ch(3)] config_hit [OF _ _ ch(4)]
  have s0: "config_read_loop (config_lines a b c d) key n = config_read_loop r1 key n" if "take (length key) (''mode static'' @ CHR 0x0A # r1) \<noteq> key" for key n
    unfolding L by (rule config_skip) (use that in \<open>simp_all add: no_match\<close>)
  have s1: "config_read_loop r1 key n = config_read_loop r2 key n" if "take (length key) (''ip '' @ a @ CHR 0x0A # r2) \<noteq> key" for key n
    unfolding r(4) by (rule config_skip) (use that nl in \<open>simp_all add: no_match\<close>)
  have s2: "config_read_loop r2 key n = config_read_loop r3 key n" if "take (length key) (''subnet '' @ b @ CHR 0x0A # r3) \<noteq> key" for key n
    unfolding r(3) by (rule config_skip) (use that nl in \<open>simp_all add: no_match\<close>)
  have s3: "config_read_loop r3 key n = config_read_loop r4 key n" if "take (length key) (''gateway '' @ c @ CHR 0x0A # r4) \<noteq> key" for key n
    unfolding r(2) by (rule config_skip) (use that nl in \<open>simp_all add: no_match\<close>)
  have "config_read_loop (''mode'' @ CHR '' '' # ''static'' @ CHR 0x0A # r1) ''mode'' 16 = Some ''static''"
    by (rule config_hit) (auto simp: blank_def)
  then show "config_read_value (config_lines a b c d) ''mode'' 16 = Some ''static''" unfolding config_read_value_def L by simp
  have "config_read_loop r1 ''ip'' 32 = Some a" using config_hit [OF len(1,2) ch(1), of "''ip''" r2] by (simp add: r(4))
  then show "config_read_value (config_lines a b c d) ''ip'' 32 = Some a" unfolding config_read_value_def by (simp add: s0)
  have "config_read_loop r2 ''subnet'' 32 = Some b" using config_hit [OF len(3,4) ch(2), of "''subnet''" r3] by (simp add: r(3))
  then show "config_read_value (config_lines a b c d) ''subnet'' 32 = Some b" unfolding config_read_value_def by (simp add: s0 s1)
  have "config_read_loop r3 ''gateway'' 32 = Some c" using config_hit [OF len(5,6) ch(3), of "''gateway''" r4] by (simp add: r(2))
  then show "config_read_value (config_lines a b c d) ''gateway'' 32 = Some c" unfolding config_read_value_def by (simp add: s0 s1 s2)
  have "config_read_loop r4 ''dns'' 32 = Some d" using config_hit [OF len(7,8) ch(4), of "''dns''" "[]"] by (simp add: r(1))
  then show "config_read_value (config_lines a b c d) ''dns'' 32 = Some d" unfolding config_read_value_def by (simp add: s0 s1 s2 s3)
qed

lemma format_address:
  assumes "16 \<le> cap"
  obtains t where "netstack_format_ipv4 ip cap = Some t" "netstack_parse_ipv4 (Some t) = Some ip" "address_text t"
  by (rule format_then_parse [OF assms, of ip]) (auto simp: address_text_def)

section \<open>Names in DNS messages\<close>

text \<open>A name as labels, its dotted text and its bytes without the terminator.\<close>

definition label_ok :: "bytes \<Rightarrow> bool" where
  "label_ok l \<longleftrightarrow> l \<noteq> [] \<and> length l \<le> 63 \<and> 46 \<notin> set l"

fun dotted :: "bytes list \<Rightarrow> bytes" where
  "dotted [] = []"
| "dotted [l] = l"
| "dotted (l # ls) = l @ 46 # dotted ls"

definition enc_labels :: "bytes list \<Rightarrow> bytes" where
  "enc_labels ls = concat (map (\<lambda>l. of_nat (length l) # l) ls)"

lemma enc_labels_simps [simp]: "enc_labels [] = []" "enc_labels (l # ls) = of_nat (length l) # l @ enc_labels ls"
  by (simp_all add: enc_labels_def)

lemma length_enc_labels: "ls \<noteq> [] \<Longrightarrow> length (enc_labels ls) = length (dotted ls) + 1"
  by (induction ls rule: dotted.induct) simp_all

lemma blit_here: "length ys \<le> n \<Longrightarrow> blit (length A) ys (A @ replicate n x) = A @ ys @ replicate (n - length ys) x"
  by (simp add: blit_def)

lemma write_label:
  assumes "label_ok l" "length A + length l + 1 < cap" "length l + 1 \<le> n"
  shows "dns_write_label cap (A @ replicate n 0, length A) l =
    Some ((A @ of_nat (length l) # l) @ replicate (n - 1 - length l) 0, length (A @ of_nat (length l) # l))"
proof -
  define m where "m = n - 1"
  have m: "n = Suc m" "length l \<le> m" using assms(3) by (simp_all add: m_def)
  have "blit (length A + 1) l (A @ of_nat (length l) # replicate m 0) = A @ of_nat (length l) # l @ replicate (m - length l) 0"
    by (simp add: blit_def)
  then show ?thesis using assms(1,2) m by (simp add: dns_write_label_def label_ok_def list_update_append)
qed

lemma write_loop_chars:
  "46 \<notin> set w \<Longrightarrow> dns_write_loop cap b label (w @ rest) = dns_write_loop cap b (label @ w) rest"
  by (induction w arbitrary: label) simp_all

lemma write_loop_labels:
  "ls \<noteq> [] \<Longrightarrow> \<forall>l\<in>set ls. label_ok l \<Longrightarrow> length A + length (enc_labels ls) < cap \<Longrightarrow> length (enc_labels ls) \<le> n \<Longrightarrow>
   dns_write_loop cap (A @ replicate n 0, length A) [] (dotted ls) =
     Some (A @ enc_labels ls @ replicate (n - length (enc_labels ls)) 0, length A + length (enc_labels ls))"
proof (induction ls arbitrary: A n rule: dotted.induct)
  case (2 l)
  then have d: "46 \<notin> set l" by (simp add: label_ok_def)
  show ?case using 2 write_loop_chars [OF d, of cap "(A @ replicate n 0, length A)" "[]" "[]"] write_label [of l A cap n] by simp
next
  case (3 l l2 ls)
  then have d: "46 \<notin> set l" by (simp add: label_ok_def)
  define A' n' where "A' = A @ of_nat (length l) # l" and "n' = n - 1 - length l"
  have w: "dns_write_label cap (A @ replicate n 0, length A) l = Some (A' @ replicate n' 0, length A')"
    unfolding A'_def n'_def by (rule write_label) (use 3 in simp_all)
  have "dns_write_loop cap (A @ replicate n 0, length A) [] (dotted (l # l2 # ls)) = dns_write_loop cap (A' @ replicate n' 0, length A') [] (dotted (l2 # ls))"
    using write_loop_chars [OF d, of cap "(A @ replicate n 0, length A)" "[]" "46 # dotted (l2 # ls)"] w by simp
  also have "\<dots> = Some (A' @ enc_labels (l2 # ls) @ replicate (n' - length (enc_labels (l2 # ls))) 0, length A' + length (enc_labels (l2 # ls)))"
    by (rule 3(1)) (use 3(2-) in \<open>simp_all add: A'_def n'_def\<close>)
  finally show ?case by (simp add: A'_def n'_def)
qed simp

lemma write_name:
  assumes "ls \<noteq> []" "\<forall>l\<in>set ls. label_ok l" "length A + length (enc_labels ls) + 1 < cap" "length (enc_labels ls) + 1 \<le> n"
  shows "dns_write_name (A @ replicate n 0) cap (length A) (dotted ls) =
    Some (A @ enc_labels ls @ 0 # replicate (n - 1 - length (enc_labels ls)) 0, length A + length (enc_labels ls) + 1)"
proof -
  obtain m where m: "n - length (enc_labels ls) = Suc m" using assms(4) by (cases "n - length (enc_labels ls)") auto
  then have "n - 1 - length (enc_labels ls) = m" by simp
  then show ?thesis using write_loop_labels [of ls A cap n] assms m
    by (simp add: dns_write_name_def list_update_append)
qed

text \<open>Whatever the host, a success fixes the length.\<close>

lemma write_loop_length:
  "dns_write_loop cap (buf, off) label host = Some (buf', off') \<Longrightarrow>
   off' = off + length label + length host + 1 \<and> off' < cap \<and> (length buf = cap \<longrightarrow> length buf' = cap)"
proof (induction cap "(buf, off)" label host arbitrary: buf off rule: dns_write_loop.induct)
  case (1 cap label)
  then show ?case by (auto simp: dns_write_label_def split: if_splits)
next
  case (2 cap label c rest)
  show ?case
  proof (cases "c = 46")
    case True
    then obtain buf1 off1 where w: "dns_write_label cap (buf, off) label = Some (buf1, off1)" "dns_write_loop cap (buf1, off1) [] rest = Some (buf', off')"
      using 2(3) by (auto split: option.splits)
    have "off1 = off + 1 + length label" "length buf = cap \<longrightarrow> length buf1 = cap" using w(1) by (auto simp: dns_write_label_def split: if_splits)
    then show ?thesis using 2(1) [OF True w] by simp
  next
    case False
    then show ?thesis using 2(2) [OF False] 2(3) by simp
  qed
qed

lemma write_name_length:
  "dns_write_name buf cap off host = Some (buf', off') \<Longrightarrow> off' = off + length host + 2 \<and> off' < cap \<and> (length buf = cap \<longrightarrow> length buf' = cap)"
  by (auto simp: dns_write_name_def split: option.splits if_splits dest!: write_loop_length)

text \<open>The buffer with the first fields, and what becomes of the type and class after a name that was written.\<close>

definition query_base :: "u16 \<Rightarrow> bytes" where
  "query_base ident = put_be16 (put_be16 (put_be16 (replicate 512 0) 0 ident) 2 0x0100) 4 1"

lemma length_query_base [simp]: "length (query_base ident) = 512"
  by (simp add: query_base_def put_be16_def)

lemma dns_query_cases:
  assumes "dns_write_name (query_base ident) 512 12 host = Some (buf, off)"
  shows "dns_query ident host = (if length host \<le> 494 then Some (Some (put_be16 (put_be16 buf off 1) (off + 2) 1, length host + 18)) else None)"
    "length host \<le> 497" "off = length host + 14" "length buf = 512"
proof -
  show k: "off = length host + 14" "length buf = 512" "length host \<le> 497" using write_name_length [OF assms] by simp_all
  show "dns_query ident host = (if length host \<le> 494 then Some (Some (put_be16 (put_be16 buf off 1) (off + 2) 1, length host + 18)) else None)"
  proof -
    have "length (put_be16 buf i v) = 512" for i v using k(2) by (simp add: put_be16_def)
    then show ?thesis using k(1,2) assms unfolding dns_query_def Let_def query_base_def [symmetric] by (simp add: store_be16_def)
  qed
qed

lemma dns_query_refused: "dns_write_name (query_base ident) 512 12 host = None \<Longrightarrow> dns_query ident host = Some None"
  by (simp add: dns_query_def query_base_def)

text \<open>The stores of type and class leave the buffer only for hosts of three lengths.\<close>

lemma dns_query_safe: "length host \<notin> {495..497} \<Longrightarrow> dns_query ident host \<noteq> None"
  using dns_query_cases [of ident host] dns_query_refused [of ident host]
  by (cases "dns_write_name (query_base ident) 512 12 host") (auto simp: not_le)

lemma dns_query_length: "dns_query ident host = Some (Some (q, n)) \<Longrightarrow> n = length host + 18 \<and> n \<le> 512"
  using dns_query_cases [of ident host] dns_query_refused [of ident host]
  by (cases "dns_write_name (query_base ident) 512 12 host") (auto split: if_splits)

section \<open>Reading a DNS reply\<close>

lemma skip_safe: "len \<le> length buf \<Longrightarrow> \<exists>r. dns_skip_loop buf len p = Some r \<and> (\<forall>q. r = Some q \<longrightarrow> p < q \<and> q \<le> len)"
proof (induction buf len p rule: dns_skip_loop.induct)
  case (1 buf len p)
  show ?case
  proof (cases "p < len")
    case True
    then obtain c where c: "rd buf p = Some c" using 1(2) by (simp add: rd_def)
    note unf = dns_skip_loop.simps [of buf len p] c
    consider "c = 0" | "c \<noteq> 0" "c AND 0xc0 = 0xc0" | "c \<noteq> 0" "c AND 0xc0 \<noteq> 0xc0" "c AND 0xc0 \<noteq> 0 \<or> p + 1 + unat c > len"
      | "c \<noteq> 0" "c AND 0xc0 \<noteq> 0xc0" "\<not> (c AND 0xc0 \<noteq> 0 \<or> p + 1 + unat c > len)" by blast
    then show ?thesis
    proof cases
      case 4
      then obtain r where r: "dns_skip_loop buf len (p + 1 + unat c) = Some r" "\<forall>q. r = Some q \<longrightarrow> p + 1 + unat c < q \<and> q \<le> len"
        using 1(1) [OF True c _ _ _ 1(2)] by blast
      have "dns_skip_loop buf len p = Some r" unfolding unf using True 4 r(1) by simp
      with r(2) show ?thesis by auto
    qed (use True in \<open>auto simp: unf\<close>)
  qed (simp add: dns_skip_loop.simps)
qed

lemma questions_safe: "len \<le> length buf \<Longrightarrow> p \<le> len \<Longrightarrow> \<exists>r. dns_questions buf len qd p = Some r \<and> (\<forall>q. r = Some q \<longrightarrow> p \<le> q \<and> q \<le> len)"
proof (induction qd arbitrary: p)
  case (Suc qd)
  obtain r where r: "dns_skip_loop buf len p = Some r" "\<forall>q. r = Some q \<longrightarrow> p < q \<and> q \<le> len" using skip_safe [OF Suc.prems(1)] by blast
  show ?case
  proof (cases r)
    case (Some q)
    show ?thesis
    proof (cases "q + 4 > len")
      case False
      then obtain r' where "dns_questions buf len qd (q + 4) = Some r'" "\<forall>q'. r' = Some q' \<longrightarrow> q + 4 \<le> q' \<and> q' \<le> len"
        using Suc.IH [of "q + 4"] Suc.prems(1) by auto
      then show ?thesis using r Some False by (force simp: dns_skip_name_def)
    qed (use r Some in \<open>simp add: dns_skip_name_def\<close>)
  qed (use r in \<open>simp add: dns_skip_name_def\<close>)
qed simp

lemma answers_safe: "len \<le> length buf \<Longrightarrow> dns_answers buf len an p \<noteq> None"
proof (induction an arbitrary: p)
  case (Suc an)
  obtain r where r: "dns_skip_loop buf len p = Some r" using skip_safe [OF Suc.prems] by blast
  show ?case
  proof (cases r)
    case (Some q)
    show ?thesis
    proof (cases "q + 10 > len")
      case False
      then have "length buf \<ge> q + 10" using Suc.prems by simp
      then have "get_be16 buf q \<noteq> None" "get_be16 buf (q + 2) \<noteq> None" "get_be16 buf (q + 8) \<noteq> None" by (simp_all del: not_None_eq)
      then obtain ty kl rdl where "get_be16 buf q = Some ty" "get_be16 buf (q + 2) = Some kl" "get_be16 buf (q + 8) = Some rdl" by blast
      then show ?thesis using r Some False Suc by (auto simp: dns_skip_name_def bind_eq_None_conv Let_def iff del: not_None_eq)
    qed (use r Some in \<open>simp add: dns_skip_name_def\<close>)
  qed (use r in \<open>simp add: dns_skip_name_def\<close>)
qed simp

lemma reply_safe: "len \<le> length buf \<Longrightarrow> 12 \<le> len \<Longrightarrow> dns_reply buf len \<noteq> None"
proof -
  assume a: "len \<le> length buf" "12 \<le> len"
  then obtain qd an where q: "get_be16 buf 4 = Some qd" "get_be16 buf 6 = Some an"
    using get_None(1) [of buf 4] get_None(1) [of buf 6] by fastforce
  obtain r where "dns_questions buf len (unat qd) 12 = Some r" using questions_safe [OF a(1), of 12] a(2) by blast
  then show ?thesis using q answers_safe [OF a(1)] by (auto simp: dns_reply_def split: option.splits simp del: not_None_eq)
qed

section \<open>Well-formed replies\<close>

text \<open>A name is labels and then the terminator or a compression pointer; a record has a name, type, class, time to live and data.\<close>

type_synonym dns_name = "bytes list \<times> (byte \<times> byte) option"

definition name_ok :: "dns_name \<Rightarrow> bool" where
  "name_ok nm \<longleftrightarrow> (\<forall>l\<in>set (fst nm). l \<noteq> [] \<and> length l \<le> 63) \<and> (\<forall>h b. snd nm = Some (h, b) \<longrightarrow> h AND 0xc0 = 0xc0)"

definition enc_name :: "dns_name \<Rightarrow> bytes" where
  "enc_name nm = enc_labels (fst nm) @ (case snd nm of None \<Rightarrow> [0] | Some (h, b) \<Rightarrow> [h, b])"

definition be16 :: "u16 \<Rightarrow> bytes" where
  "be16 v = put_be16 [0, 0] 0 v"

record dns_rr =
  rr_name :: dns_name
  rr_type :: u16
  rr_class :: u16
  rr_ttl :: bytes
  rr_data :: bytes

definition rr_ok :: "dns_rr \<Rightarrow> bool" where
  "rr_ok r \<longleftrightarrow> name_ok (rr_name r) \<and> length (rr_ttl r) = 4 \<and> length (rr_data r) < 65536"

definition enc_rr :: "dns_rr \<Rightarrow> bytes" where
  "enc_rr r = enc_name (rr_name r) @ be16 (rr_type r) @ be16 (rr_class r) @ rr_ttl r @ be16 (of_nat (length (rr_data r))) @ rr_data r"

text \<open>The first address record of the Internet class.\<close>

fun first_address :: "dns_rr list \<Rightarrow> dns_result" where
  "first_address [] = DnsNothing"
| "first_address (r # rs) =
    (if rr_type r = 1 \<and> rr_class r = 1 \<and> length (rr_data r) = 4 then DnsAddress (the (get_be32 (rr_data r) 0)) else first_address rs)"

lemma label_byte: "1 \<le> n \<Longrightarrow> n \<le> 63 \<Longrightarrow> (of_nat n :: byte) \<noteq> 0 \<and> of_nat n AND 0xc0 = (0 :: byte) \<and> unat (of_nat n :: byte) = n"
proof -
  have "\<forall>n\<in>set [1..<64]. (of_nat n :: byte) \<noteq> 0 \<and> of_nat n AND 0xc0 = (0 :: byte) \<and> unat (of_nat n :: byte) = n" by code_simp
  then show "1 \<le> n \<Longrightarrow> n \<le> 63 \<Longrightarrow> ?thesis" by simp
qed

lemma skip_labels:
  "\<forall>l\<in>set ls. l \<noteq> [] \<and> length l \<le> 63 \<Longrightarrow> length A + length (enc_labels ls) \<le> len \<Longrightarrow>
   dns_skip_loop (A @ enc_labels ls @ R) len (length A) = dns_skip_loop (A @ enc_labels ls @ R) len (length A + length (enc_labels ls))"
proof (induction ls arbitrary: A)
  case (Cons l ls)
  define B where "B = A @ enc_labels (l # ls) @ R"
  define c :: byte where "c = of_nat (length l)"
  have c: "c \<noteq> 0" "c AND 0xc0 = 0" "unat c = length l" using label_byte [of "length l"] Cons.prems(1) by (auto simp: c_def Suc_le_eq)
  have r: "rd B (length A) = Some c" by (simp add: B_def c_def rd_def nth_append)
  have n: "length A < len" "\<not> (c AND 0xc0 \<noteq> 0 \<or> length A + 1 + unat c > len)" using Cons.prems(2) c by simp_all
  have "dns_skip_loop B len (length A) = dns_skip_loop B len (length A + 1 + unat c)"
    unfolding dns_skip_loop.simps [of B len "length A"] using r n c(1,2) by simp
  also have "\<dots> = dns_skip_loop B len (length A + length (enc_labels (l # ls)))"
    using Cons.IH [of "A @ c # l"] Cons.prems c(3) by (simp add: B_def c_def add.assoc)
  finally show ?case by (simp add: B_def)
qed simp

lemma skip_name:
  assumes "name_ok nm" "length A + length (enc_name nm) \<le> len"
  shows "dns_skip_name (A @ enc_name nm @ R) len (length A) = Some (Some (length A + length (enc_name nm)))"
proof -
  obtain ls p where nm: "nm = (ls, p)" by fastforce
  have ls: "\<forall>l\<in>set ls. l \<noteq> [] \<and> length l \<le> 63" using assms(1) by (simp add: name_ok_def nm)
  show ?thesis
  proof (cases p)
    case None
    have "dns_skip_loop (A @ enc_labels ls @ 0 # R) len (length A) = dns_skip_loop (A @ enc_labels ls @ 0 # R) len (length A + length (enc_labels ls))"
      using assms(2) by (intro skip_labels [OF ls]) (simp add: enc_name_def nm None)
    then show ?thesis using assms(2)
      by (simp add: dns_skip_name_def enc_name_def nm None dns_skip_loop.simps [of _ len "length A + length (enc_labels ls)"] rd_def nth_append)
  next
    case (Some hb)
    obtain h b where hb: "hb = (h, b)" by fastforce
    have h: "h AND 0xc0 = 0xc0" "h \<noteq> 0" using assms(1) by (auto simp: name_ok_def nm Some hb)
    have "dns_skip_loop (A @ enc_labels ls @ h # b # R) len (length A) = dns_skip_loop (A @ enc_labels ls @ h # b # R) len (length A + length (enc_labels ls))"
      using assms(2) by (intro skip_labels [OF ls]) (simp add: enc_name_def nm Some hb)
    then show ?thesis using assms(2) h
      by (simp add: dns_skip_name_def enc_name_def nm Some hb dns_skip_loop.simps [of _ len "length A + length (enc_labels ls)"] rd_def nth_append)
  qed
qed

lemma length_be16 [simp]: "length (be16 v) = 2"
  by (simp add: be16_def)

lemma get_be16_here: "get_be16 (A @ be16 v @ R) (length A) = Some v"
proof -
  have "slice (length A) 2 (A @ be16 v @ R) = be16 v" by (simp add: slice_def)
  from get_slice(1) [OF this, of 0] show ?thesis by (simp add: be16_def)
qed

lemma answer_step:
  assumes "rr_ok r" "length A + length (enc_rr r) \<le> len"
  shows "dns_answers (A @ enc_rr r @ R) len (Suc n) (length A) =
    (if rr_type r = 1 \<and> rr_class r = 1 \<and> length (rr_data r) = 4 then Some (DnsAddress (the (get_be32 (rr_data r) 0)))
     else dns_answers (A @ enc_rr r @ R) len n (length (A @ enc_rr r)))"
proof -
  define B where "B = A @ enc_rr r @ R"
  define q where "q = length A + length (enc_name (rr_name r))"
  define l :: u16 where "l = of_nat (length (rr_data r))"
  have ok: "name_ok (rr_name r)" "length (rr_ttl r) = 4" "unat l = length (rr_data r)"
    using assms(1) by (simp_all add: rr_ok_def l_def unsigned_of_nat take_bit_nat_eq_self)
  have len: "q + 10 + length (rr_data r) \<le> len" "length (A @ enc_rr r) = q + 10 + length (rr_data r)"
    using assms(2) ok(2) by (simp_all add: enc_rr_def q_def)
  have sk: "dns_skip_name B len (length A) = Some (Some q)"
    using skip_name [OF ok(1), of A len "be16 (rr_type r) @ be16 (rr_class r) @ rr_ttl r @ be16 l @ rr_data r @ R"] len(1)
    by (simp add: B_def enc_rr_def q_def l_def)
  have g: "get_be16 B q = Some (rr_type r)" "get_be16 B (q + 2) = Some (rr_class r)" "get_be16 B (q + 8) = Some l"
    using get_be16_here [of "A @ enc_name (rr_name r)" "rr_type r" "be16 (rr_class r) @ rr_ttl r @ be16 l @ rr_data r @ R"]
      get_be16_here [of "A @ enc_name (rr_name r) @ be16 (rr_type r)" "rr_class r" "rr_ttl r @ be16 l @ rr_data r @ R"]
      get_be16_here [of "A @ enc_name (rr_name r) @ be16 (rr_type r) @ be16 (rr_class r) @ rr_ttl r" l "rr_data r @ R"] ok(2)
    by (simp_all add: B_def enc_rr_def q_def l_def add.assoc)
  have d: "slice (q + 10) (length (rr_data r)) B = rr_data r" using ok(2) by (simp add: B_def enc_rr_def q_def slice_def)
  have ip: "get_be32 B (q + 10) = get_be32 (rr_data r) 0" if "length (rr_data r) = 4"
    using get_slice(2) [OF d, of 0] that len by (simp add: B_def)
  have l4: "l = 4 \<longleftrightarrow> length (rr_data r) = 4"
  proof
    assume "l = 4"
    then show "length (rr_data r) = 4" using ok(3) by simp
  qed (simp add: l_def)
  have st: "dns_answers B len (Suc n) (length A) = (if rr_type r = 1 \<and> rr_class r = 1 \<and> l = 4
      then Option.bind (get_be32 B (q + 10)) (\<lambda>ip. Some (DnsAddress ip)) else dns_answers B len n (q + 10 + length (rr_data r)))"
    using len(1) by (simp add: sk g ok(3) Let_def del: add_2_eq_Suc')
  show ?thesis
  proof (cases "rr_type r = 1 \<and> rr_class r = 1 \<and> length (rr_data r) = 4")
    case True
    then obtain x where "get_be32 (rr_data r) 0 = Some x" using get_None(2) [of "rr_data r" 0] by fastforce
    then show ?thesis using st True l4 ip by (simp add: B_def)
  next
    case False
    then show ?thesis using st l4 len(2) by (auto simp: B_def simp del: dns_answers.simps)
  qed
qed

lemma answers_first:
  assumes "\<forall>r\<in>set rs. rr_ok r" "length A + length (concat (map enc_rr rs)) \<le> len"
  shows "dns_answers (A @ concat (map enc_rr rs) @ R) len (length rs) (length A) = Some (first_address rs)"
  using assms
proof (induction rs arbitrary: A)
  case (Cons r rs)
  have s: "dns_answers (A @ enc_rr r @ concat (map enc_rr rs) @ R) len (Suc (length rs)) (length A) =
    (if rr_type r = 1 \<and> rr_class r = 1 \<and> length (rr_data r) = 4 then Some (DnsAddress (the (get_be32 (rr_data r) 0)))
     else dns_answers (A @ enc_rr r @ concat (map enc_rr rs) @ R) len (length rs) (length (A @ enc_rr r)))"
    by (rule answer_step) (use Cons.prems in simp_all)
  have "dns_answers ((A @ enc_rr r) @ concat (map enc_rr rs) @ R) len (length rs) (length (A @ enc_rr r)) = Some (first_address rs)"
    by (rule Cons.IH) (use Cons.prems in simp_all)
  then show ?case using s by (simp del: dns_answers.simps)
qed simp

definition enc_question :: "dns_name \<times> bytes \<Rightarrow> bytes" where
  "enc_question q = enc_name (fst q) @ snd q"

lemma questions_skipped:
  assumes "\<forall>(nm, tc)\<in>set qs. name_ok nm \<and> length tc = 4" "length A + length (concat (map enc_question qs)) \<le> len"
  shows "dns_questions (A @ concat (map enc_question qs) @ R) len (length qs) (length A) = Some (Some (length A + length (concat (map enc_question qs))))"
  using assms
proof (induction qs arbitrary: A)
  case (Cons q qs)
  obtain nm tc where q: "q = (nm, tc)" by fastforce
  have ok: "name_ok nm" "length tc = 4" using Cons.prems(1) q by auto
  have "dns_skip_name (A @ enc_name nm @ tc @ concat (map enc_question qs) @ R) len (length A) = Some (Some (length A + length (enc_name nm)))"
    by (rule skip_name [OF ok(1)]) (use Cons.prems q in \<open>simp add: enc_question_def\<close>)
  moreover have "dns_questions ((A @ enc_question q) @ concat (map enc_question qs) @ R) len (length qs) (length (A @ enc_question q))
      = Some (Some (length (A @ enc_question q) + length (concat (map enc_question qs))))"
    by (rule Cons.IH) (use Cons.prems in simp_all)
  moreover have "length A + length (enc_name nm) + 4 \<le> len" "length (enc_question q) = length (enc_name nm) + 4"
    using Cons.prems(2) ok(2) by (simp_all add: q enc_question_def)
  moreover have "A @ enc_name nm @ tc @ concat (map enc_question qs) @ R = (A @ enc_question q) @ concat (map enc_question qs) @ R"
    by (simp add: q enc_question_def)
  ultimately show ?case by (simp add: add.assoc)
qed simp

section \<open>Queries\<close>

lemma put_be16_here: "put_be16 (A @ replicate (Suc (Suc k)) 0) (length A) v = A @ be16 v @ replicate k 0"
  by (simp add: put_be16_def be16_def list_update_append)

lemma query_name:
  assumes "ls \<noteq> []" "\<forall>l\<in>set ls. label_ok l" "length (dotted ls) \<le> 497"
  shows "dns_write_name (query_base ident) 512 12 (dotted ls) =
    Some (take 12 (query_base ident) @ enc_labels ls @ 0 # replicate (498 - length (dotted ls)) 0, length (dotted ls) + 14)"
proof -
  define H where "H = take 12 (query_base ident)"
  have E: "length (enc_labels ls) = length (dotted ls) + 1" using length_enc_labels [OF assms(1)] by simp
  have "drop 12 (query_base ident) = replicate 500 0" by (simp add: query_base_def put_be16_def drop_update_cancel)
  then have b: "query_base ident = H @ replicate 500 0" unfolding H_def by (metis append_take_drop_id)
  have H: "length H = 12" by (simp add: H_def)
  show ?thesis using write_name [OF assms(1,2), of H 512 500] E assms(3) H unfolding H_def [symmetric] by (simp add: b)
qed

text \<open>A proper host of one of those lengths does overrun the buffer.\<close>

lemma dns_query_overrun:
  "ls \<noteq> [] \<Longrightarrow> \<forall>l\<in>set ls. label_ok l \<Longrightarrow> length (dotted ls) \<in> {495..497} \<Longrightarrow> dns_query ident (dotted ls) = None"
  using dns_query_cases(1) [OF query_name] by simp

lemma query_bytes:
  assumes "ls \<noteq> []" "\<forall>l\<in>set ls. label_ok l" "length (dotted ls) \<le> 494"
  shows "\<exists>q. dns_query ident (dotted ls) = Some (Some (q, length (dotted ls) + 18)) \<and> get_be16 q 0 = Some ident \<and> get_be16 q 2 = Some 0x0100 \<and>
      get_be16 q 4 = Some 1 \<and> slice 12 (length (dotted ls) + 6) q = enc_labels ls @ [0] @ be16 1 @ be16 1"
proof -
  define H E where "H = take 12 (query_base ident)" and "E = enc_labels ls"
  have H: "length H = 12" by (simp add: H_def)
  have E: "length E = length (dotted ls) + 1" using length_enc_labels [OF assms(1)] by (simp add: E_def)
  define k where "k = 494 - length (dotted ls)"
  have k: "498 - length (dotted ls) = Suc (Suc (Suc (Suc k)))" using assms(3) by (simp add: k_def)
  have w: "dns_write_name (query_base ident) 512 12 (dotted ls) = Some (H @ E @ 0 # replicate (Suc (Suc (Suc (Suc k)))) 0, length (dotted ls) + 14)"
    using query_name [OF assms(1,2)] assms(3) unfolding k H_def E_def by simp
  define q where "q = (H @ E @ [0] @ be16 1) @ be16 1 @ replicate k 0"
  have p1: "put_be16 ((H @ E @ [0]) @ replicate (Suc (Suc (Suc (Suc k)))) 0) (length (H @ E @ [0])) 1 = (H @ E @ [0]) @ be16 1 @ replicate (Suc (Suc k)) 0"
    by (rule put_be16_here)
  have p2: "put_be16 ((H @ E @ [0] @ be16 1) @ replicate (Suc (Suc k)) 0) (length (H @ E @ [0] @ be16 1)) 1 = q"
    unfolding q_def by (rule put_be16_here)
  have "put_be16 (put_be16 (H @ E @ 0 # replicate (Suc (Suc (Suc (Suc k)))) 0) (length (dotted ls) + 14) 1) (length (dotted ls) + 14 + 2) 1 = q"
    using p1 p2 H E by (simp add: add.commute)
  then have "dns_query ident (dotted ls) = Some (Some (q, length (dotted ls) + 18))" using dns_query_cases(1) [OF w] assms(3) by simp
  moreover have "get_be16 q i = get_be16 (query_base ident) i" if "i + 2 \<le> 12" for i
  proof -
    have "q ! j = query_base ident ! j \<and> j < length q" if "j < 12" for j using that H unfolding q_def H_def by (simp add: nth_append)
    then show ?thesis using that by (simp add: get_be16_def rd_def)
  qed
  then have "get_be16 q 0 = Some ident" "get_be16 q 2 = Some 0x0100" "get_be16 q 4 = Some 1"
    by (simp_all add: query_base_def get_other)
  moreover have "slice 12 (length (dotted ls) + 6) q = E @ [0] @ be16 1 @ be16 1"
    using H E by (simp add: q_def slice_def)
  ultimately show ?thesis by (auto simp: E_def)
qed

text \<open>C27: Addresses are read exactly when they are dotted quads. \<^verbatim>\<open>netstack_parse_ipv4\<close> accepts a text if and only if it is, up to
  blanks at both ends, four non-empty runs of decimal digits separated by dots, each of value at most 255, and stores the address with
  these bytes; and what \<^verbatim>\<open>netstack_format_ipv4\<close> prints, at most 15 characters, is read back as the same address.\<close>

theorem netstack_parse_ipv4_iff:
  "(netstack_parse_ipv4 (Some t) = Some ip \<longleftrightarrow>
     (\<exists>i j a b c d. t = replicate i CHR '' '' @ a @ CHR ''.'' # b @ CHR ''.'' # c @ CHR ''.'' # d @ replicate j CHR '' '' \<and>
       decimal_byte a \<and> decimal_byte b \<and> decimal_byte c \<and> decimal_byte d \<and>
       ip = ipv4_of (decimal_from 0 a) (decimal_from 0 b) (decimal_from 0 c) (decimal_from 0 d))) \<and>
   (\<exists>u. netstack_format_ipv4 ip 16 = Some u \<and> length u \<le> 15 \<and> netstack_parse_ipv4 (Some u) = Some ip)"
proof (intro conjI iffI)
  assume "netstack_parse_ipv4 (Some t) = Some ip"
  then show "\<exists>i j a b c d. t = replicate i CHR '' '' @ a @ CHR ''.'' # b @ CHR ''.'' # c @ CHR ''.'' # d @ replicate j CHR '' '' \<and>
       decimal_byte a \<and> decimal_byte b \<and> decimal_byte c \<and> decimal_byte d \<and>
       ip = ipv4_of (decimal_from 0 a) (decimal_from 0 b) (decimal_from 0 c) (decimal_from 0 d)" by (rule parse_sound)
next
  assume "\<exists>i j a b c d. t = replicate i CHR '' '' @ a @ CHR ''.'' # b @ CHR ''.'' # c @ CHR ''.'' # d @ replicate j CHR '' '' \<and>
       decimal_byte a \<and> decimal_byte b \<and> decimal_byte c \<and> decimal_byte d \<and>
       ip = ipv4_of (decimal_from 0 a) (decimal_from 0 b) (decimal_from 0 c) (decimal_from 0 d)"
  then show "netstack_parse_ipv4 (Some t) = Some ip" using parse_dotted by blast
next
  have "(16 :: nat) \<le> 16" by simp
  then show "\<exists>u. netstack_format_ipv4 ip 16 = Some u \<and> length u \<le> 15 \<and> netstack_parse_ipv4 (Some u) = Some ip" by (rule format_then_parse) blast
qed

text \<open>The static configuration survives its file format. The text that \<^verbatim>\<open>netstack_save_static_config\<close> writes for any four addresses it accepts
  fits its buffer, and \<^verbatim>\<open>netstack_configure_static_from_vfs\<close> takes from that text the same address, mask, gateway and name server, with the
  defaults of the writer for a zero mask or name server.\<close>

theorem static_config_reads_back:
  assumes "ip \<noteq> 0" "gateway \<noteq> 0"
  shows "\<exists>text. static_config_text ip subnet gateway dns = Some text \<and> length text \<le> 98 \<and>
    static_config_values text = Inr (ip, (if subnet = 0 then DEFAULT_STATIC_SUBNET else subnet), gateway, (if dns = 0 then gateway else dns))"
proof -
  define sn dn where "sn = (if subnet = 0 then DEFAULT_STATIC_SUBNET else subnet)" and "dn = (if dns = 0 then gateway else dns)"
  have c: "(16 :: nat) \<le> 24" by simp
  obtain a where a: "netstack_format_ipv4 ip 24 = Some a" "netstack_parse_ipv4 (Some a) = Some ip" "address_text a" by (rule format_address [OF c])
  obtain b where b: "netstack_format_ipv4 sn 24 = Some b" "netstack_parse_ipv4 (Some b) = Some sn" "address_text b" by (rule format_address [OF c])
  obtain g where g: "netstack_format_ipv4 gateway 24 = Some g" "netstack_parse_ipv4 (Some g) = Some gateway" "address_text g" by (rule format_address [OF c])
  obtain d where d: "netstack_format_ipv4 dn 24 = Some d" "netstack_parse_ipv4 (Some d) = Some dn" "address_text d" by (rule format_address [OF c])
  note t = config_text_lines [OF a(3) b(3) g(3) d(3)] and v = config_lines_values [OF a(3) b(3) g(3) d(3)]
  have "static_config_text ip subnet gateway dns = Some (config_lines a b g d)"
    using assms a(1) b(1) g(1) d(1) t(1) by (simp add: static_config_text_def sn_def [symmetric] dn_def [symmetric] Let_def)
  moreover have "config_lines a b g d \<noteq> []" by (simp add: config_lines_def)
  then have "static_config_values (config_lines a b g d) = Inr (ip, sn, gateway, dn)"
    using v a(2) b(2) g(2) d(2) by (simp add: static_config_values_def network_config_is_static_def config_read_ip_def)
  ultimately show ?thesis using t(2) by (simp add: sn_def dn_def)
qed

theorem static_config_reads_back_witness:
  "(0x0a000002 :: u32) \<noteq> 0 \<and> (\<exists>text. static_config_text 0x0a000002 0 0x0a000001 0 = Some text \<and>
    static_config_values text = Inr (0x0a000002, 0xffffff00, 0x0a000001, 0x0a000001))"
  using static_config_reads_back [of "0x0a000002" "0x0a000001" 0 0] by (auto simp: DEFAULT_STATIC_SUBNET_def)

text \<open>C25: A DNS reply is read as its records say. Whatever bytes a datagram holds, reading it never leaves the datagram; and of a reply made of a
  header, well-formed questions and well-formed records (names as labels, possibly ending in a compression pointer), the stack takes the address of
  the first record of type A and class IN.\<close>

theorem dns_reply_correct:
  assumes "12 \<le> len" "len \<le> length buf" "length hdr = 12" "get_be16 hdr 4 = Some (of_nat (length qs))" "get_be16 hdr 6 = Some (of_nat (length rs))"
    "length qs < 65536" "length rs < 65536" "\<forall>(nm, tc)\<in>set qs. name_ok nm \<and> length tc = 4" "\<forall>r\<in>set rs. rr_ok r"
  shows "dns_reply buf len \<noteq> None \<and>
    (let msg = hdr @ concat (map enc_question qs) @ concat (map enc_rr rs) in dns_reply (msg @ rest) (length msg) = Some (first_address rs))"
proof (rule conjI)
  show "dns_reply buf len \<noteq> None" by (rule reply_safe [OF assms(2,1)])
  define Q A where "Q = concat (map enc_question qs)" and "A = concat (map enc_rr rs)"
  define m where "m = length (hdr @ Q @ A)"
  have g: "get_be16 ((hdr @ Q @ A) @ rest) 4 = Some (of_nat (length qs))" "get_be16 ((hdr @ Q @ A) @ rest) 6 = Some (of_nat (length rs))"
    using assms(3-5) by (simp_all add: get_be16_def rd_def nth_append)
  have u: "unat (of_nat (length qs) :: u16) = length qs" "unat (of_nat (length rs) :: u16) = length rs"
    using assms(6,7) by (simp_all add: unsigned_of_nat take_bit_nat_eq_self)
  have q: "dns_questions ((hdr @ Q @ A) @ rest) m (length qs) 12 = Some (Some (length (hdr @ Q)))"
    using questions_skipped [OF assms(8), of hdr m "A @ rest"] assms(3) by (simp add: Q_def m_def)
  have a: "dns_answers ((hdr @ Q @ A) @ rest) m (length rs) (length (hdr @ Q)) = Some (first_address rs)"
    using answers_first [OF assms(9), of "hdr @ Q" m rest] by (simp add: A_def m_def)
  show "let msg = hdr @ concat (map enc_question qs) @ concat (map enc_rr rs) in dns_reply (msg @ rest) (length msg) = Some (first_address rs)"
    unfolding Let_def Q_def [symmetric] A_def [symmetric] m_def [symmetric] dns_reply_def using g u q a by simp
qed

text \<open>A reply with one question and two records, the second an address.\<close>

definition demo_rrs :: "dns_rr list" where
  "demo_rrs = [\<lparr>rr_name = ([], Some (0xc0, 12)), rr_type = 5, rr_class = 1, rr_ttl = [0, 0, 0, 9], rr_data = [1, 97, 0]\<rparr>,
     \<lparr>rr_name = ([[97]], None), rr_type = 1, rr_class = 1, rr_ttl = [0, 0, 0, 9], rr_data = [93, 184, 216, 34]\<rparr>]"

theorem dns_reply_correct_witness:
  "\<exists>msg. length msg = 54 \<and> dns_reply msg 54 = Some (DnsAddress 0x5db8d822)"
proof -
  have p: "(12 :: nat) \<le> 12" "12 \<le> length (replicate 12 (0 :: byte))"
    "length [1, 2, 0x81, 0x80, 0, 1, 0, 2, 0, 0, 0, 0 :: byte] = 12"
    "get_be16 [1, 2, 0x81, 0x80, 0, 1, 0, 2, 0, 0, 0, 0] 4 = Some (of_nat (length [(([[119, 119], [97]] :: bytes list, None :: (byte \<times> byte) option), [0, 1, 0, 1 :: byte])]))"
    "get_be16 [1, 2, 0x81, 0x80, 0, 1, 0, 2, 0, 0, 0, 0] 6 = Some (of_nat (length demo_rrs))"
    by (simp_all add: get_be16_def rd_def demo_rrs_def)
  have q: "length [(([[119, 119], [97]] :: bytes list, None :: (byte \<times> byte) option), [0, 1, 0, 1 :: byte])] < 65536" "length demo_rrs < 65536"
    "\<forall>(nm, tc)\<in>set [(([[119, 119], [97]] :: bytes list, None :: (byte \<times> byte) option), [0, 1, 0, 1 :: byte])]. name_ok nm \<and> length tc = 4"
    "\<forall>r\<in>set demo_rrs. rr_ok r" by (simp_all add: demo_rrs_def name_ok_def rr_ok_def)
  have "first_address demo_rrs = DnsAddress 0x5db8d822"
    by (simp add: demo_rrs_def get_be32_def rd_def)
  then show ?thesis using dns_reply_correct [OF p q, of "[]"]
    by (intro exI [of _ "[1, 2, 0x81, 0x80, 0, 1, 0, 2, 0, 0, 0, 0] @ concat (map enc_question [(([[119, 119], [97]] :: bytes list, None), [0, 1, 0, 1])]) @ concat (map enc_rr demo_rrs)"])
      (simp add: Let_def demo_rrs_def enc_question_def enc_name_def enc_rr_def)
qed

text \<open>A DNS query carries the host name, or its builder passes the end of its buffer. For a name of proper labels of at most 494 characters, the
  question section is the name and the type and class A and IN, read back by \<^verbatim>\<open>dns_skip_name\<close>. For a name of 495 to 497 characters the stores of
  type and class leave the 512 bytes of \<^verbatim>\<open>query\<close>, and such names exist; for every other host they stay inside.\<close>

theorem dns_query_carries_name:
  assumes "ls \<noteq> []" "\<forall>l\<in>set ls. label_ok l"
  shows "(length (dotted ls) \<le> 494 \<longrightarrow>
      (\<exists>q. dns_query ident (dotted ls) = Some (Some (q, length (dotted ls) + 18)) \<and> get_be16 q 0 = Some ident \<and> get_be16 q 2 = Some 0x0100 \<and>
        get_be16 q 4 = Some 1 \<and> slice 12 (length (dotted ls) + 6) q = enc_labels ls @ [0] @ be16 1 @ be16 1)) \<and>
    (length (dotted ls) \<in> {495..497} \<longrightarrow> dns_query ident (dotted ls) = None) \<and>
    (\<forall>host. length host \<notin> {495..497} \<longrightarrow> dns_query ident host \<noteq> None)"
  using query_bytes [OF assms] dns_query_overrun [OF assms] dns_query_safe by blast

text \<open>Seven labels of 63 characters and one of 49: a host of 497.\<close>

definition overrun_labels :: "bytes list" where
  "overrun_labels = replicate 7 (replicate 63 97) @ [replicate 49 97]"

lemma overrun_labels_ok: "overrun_labels \<noteq> []" "\<forall>l\<in>set overrun_labels. label_ok l" "length (dotted overrun_labels) = 497"
proof -
  show n: "overrun_labels \<noteq> []" "\<forall>l\<in>set overrun_labels. label_ok l" by (auto simp: overrun_labels_def label_ok_def)
  show "length (dotted overrun_labels) = 497" using length_enc_labels [OF n(1)] by (simp add: enc_labels_def) (simp add: overrun_labels_def numeral_eq_Suc)
qed

theorem dns_query_carries_name_witness:
  "(\<exists>q. dns_query 7 [97, 98] = Some (Some (q, 20)) \<and> slice 12 8 q = [2, 97, 98, 0, 0, 1, 0, 1]) \<and> dns_query 7 (dotted overrun_labels) = None"
proof -
  have l: "[[97, 98 :: byte]] \<noteq> []" "\<forall>l\<in>set [[97, 98 :: byte]]. label_ok l" by (simp_all add: label_ok_def)
  have "\<exists>q. dns_query 7 [97, 98] = Some (Some (q, 20)) \<and> slice 12 8 q = [2, 97, 98, 0, 0, 1, 0, 1]"
    using dns_query_carries_name [OF l, of 7] by (auto simp: be16_def put_be16_def)
  moreover have "dns_query 7 (dotted overrun_labels) = None"
    using dns_query_carries_name [OF overrun_labels_ok(1,2), of 7] overrun_labels_ok(3) by simp
  ultimately show ?thesis by blast
qed

end
