(* ===== verification/TcpClient.thy ===== *)
theory TcpClient
  imports NetWait NetNames
begin

text \<open>
  The client side of \<^verbatim>\<open>kernel/drivers/netstack.c\<close>: configuration by DHCP or from the file, ping, name resolution, and the TCP
  client. Every one of these waits polls the link in the same way; \<open>wait_step\<close> is one round of that loop, up to the point where an IPv4 frame is
  in \<^verbatim>\<open>frame_buf\<close>, and \<open>wait_loop\<close> the loop around a handler of such a frame. The value \<open>None\<close> stands for a loop that does not end or
  an access outside a buffer.
\<close>

section \<open>Polling\<close>

datatype wait_event = TimedOut | Again | is_Frame: Frame (frame_len: nat)

definition wait_step :: "'l link \<Rightarrow> u64 \<Rightarrow> 'l net \<Rightarrow> (wait_event \<times> 'l net) option" where
  "wait_step l deadline s =
    (case before_deadline l s deadline of
       (b, s) \<Rightarrow>
         if \<not> b then Some (TimedOut, s)
         else case recv_frame l s of
            (n, src_mac, eth_type, s) \<Rightarrow>
              if n \<le> 0 then Some (Again, pause l s)
              else if eth_type = ETH_TYPE_ARP then do { s \<leftarrow> handle_arp l s src_mac (frame_buf s) (nat n); Some (Again, s) }
              else if eth_type \<noteq> ETH_TYPE_IPV4 then Some (Again, s)
              else Some (Frame (nat n), s))"

text \<open>What a handler decides: the result, or to go on until a deadline.\<close>

datatype 'r verdict = is_Done: Done (result: 'r) | Continue (until: u64)

type_synonym ('l, 'c, 'r) handler = "u64 \<Rightarrow> nat \<Rightarrow> 'c \<Rightarrow> 'l net \<Rightarrow> ('r verdict \<times> 'c \<times> 'l net) option"

partial_function (option) wait_loop ::
  "'l link \<Rightarrow> ('l, 'c, 'r) handler \<Rightarrow> u64 \<Rightarrow> 'c \<Rightarrow> 'l net \<Rightarrow> ('r option \<times> 'c \<times> 'l net) option" where
  [code]: "wait_loop l h deadline c s = do {
     (ev, s) \<leftarrow> wait_step l deadline s;
     if ev = TimedOut then Some (None, c, s)
     else if is_Frame ev
     then do {
       (v, c, s) \<leftarrow> h deadline (frame_len ev) c s;
       if is_Done v then Some (Some (result v), c, s) else wait_loop l h (until v) c s }
     else wait_loop l h deadline c s }"

section \<open>Configuration\<close>

definition netstack_configure_ipv4_static :: "'l link \<Rightarrow> 'l net \<Rightarrow> u32 \<Rightarrow> u32 \<Rightarrow> u32 \<Rightarrow> u32 \<Rightarrow> int \<times> 'l net" where
  "netstack_configure_ipv4_static l s ip subnet gateway dns =
    (if ip = 0 \<or> gateway = 0 then (-1, set_status l ''ipv4: invalid static config'' s)
     else if \<not> l2_link_up l s then (-1, set_status l ''ipv4: network link unavailable'' s)
     else let s = s\<lparr>stack_status := (stack_status s)\<lparr>st_ip := ip, st_subnet := (if subnet \<noteq> 0 then subnet else DEFAULT_STATIC_SUBNET),
                     st_gateway := gateway, st_dns := (if dns \<noteq> 0 then dns else gateway), ipv4_ready := True, static_config_loaded := True\<rparr>,
                     arp_cached_ip := 0\<rparr>
          in (0, set_status l ''ipv4: configured static'' s))"

definition netstack_configure_static_from_vfs :: "'l link \<Rightarrow> 'l net \<Rightarrow> int \<times> 'l net" where
  "netstack_configure_static_from_vfs l s =
    (case (case config_file l (link_dev s) of None \<Rightarrow> Inl ''ipv4: no static config'' | Some text \<Rightarrow> static_config_values text) of
       Inl status \<Rightarrow> (-1, set_status l status s)
     | Inr (ip, subnet, gateway, dns) \<Rightarrow> netstack_configure_ipv4_static l s ip subnet gateway dns)"

definition netstack_reset :: "'l link \<Rightarrow> 'l net \<Rightarrow> 'l net" where
  "netstack_reset l s = set_status l ''ipv4: reset''
     (s\<lparr>stack_status := (stack_status s)\<lparr>ipv4_ready := False, static_config_loaded := False, st_ip := 0, st_subnet := 0, st_gateway := 0,
          st_dns := 0, last_resolved_ip := 0, last_host := []\<rparr>, arp_cached_ip := 0, arp_cached_mac := replicate 6 0\<rparr>)"

text \<open>A failure of the DHCP client: the status line is also written to the log.\<close>

definition dhcp_say :: "'l link \<Rightarrow> string \<Rightarrow> 'l net \<Rightarrow> 'l net" where
  "dhcp_say l status s = network_log l status (set_status l status s)"

text \<open>One message from \<^verbatim>\<open>0.0.0.0\<close> to the broadcast address.\<close>

definition dhcp_send :: "'l link \<Rightarrow> 'l net \<Rightarrow> byte \<Rightarrow> u32 \<Rightarrow> u32 \<Rightarrow> u32 \<Rightarrow> int \<times> 'l net" where
  "dhcp_send l s msg_type xid requested_ip server_id =
    (case build_dhcp_packet l s msg_type xid requested_ip server_id of
       (dhcp, len) \<Rightarrow> send_udp_raw l s mac_broadcast 0 0xffffffff DHCP_CLIENT_PORT DHCP_SERVER_PORT (take len dhcp))"

definition dhcp_request :: "'l link \<Rightarrow> 'l net \<Rightarrow> u32 \<Rightarrow> u32 \<Rightarrow> dhcp_values \<Rightarrow> (int \<times> 'l net) option" where
  "dhcp_request l s xid offered_ip v =
    (case dhcp_send l (dhcp_say l ''ipv4: dhcp request'' s) 3 xid offered_ip (dhcp_server_id v) of
       (rc, s) \<Rightarrow>
         if rc < 0 then Some (-1, dhcp_say l ''ipv4: dhcp request tx failed'' s)
         else do {
           (r, v, s) \<leftarrow> wait_dhcp l s xid 5 v;
           case r of
             None \<Rightarrow> Some (-1, dhcp_say l ''ipv4: dhcp ack timeout'' s)
           | Some offered_ip \<Rightarrow>
               let s = s\<lparr>stack_status := (stack_status s)\<lparr>st_ip := offered_ip, st_subnet := (if dhcp_subnet v \<noteq> 0 then dhcp_subnet v else 0xffffff00),
                           st_gateway := dhcp_router v, st_dns := (if dhcp_dns v \<noteq> 0 then dhcp_dns v else dhcp_router v),
                           ipv4_ready := True, static_config_loaded := False\<rparr>, arp_cached_ip := 0\<rparr>
               in Some (0, dhcp_say l ''ipv4: configured by dhcp'' s) })"

definition netstack_configure_ipv4_dhcp :: "'l link \<Rightarrow> 'l net \<Rightarrow> (int \<times> 'l net) option" where
  "netstack_configure_ipv4_dhcp l s =
    (let xid = 0x4f5a0000 XOR ucast (now l s)
     in if ipv4_ready (stack_status s) then Some (0, s)
        else if \<not> l2_link_up l s then Some (-1, set_status l ''ipv4: network link unavailable'' s)
        else case dhcp_send l (dhcp_say l ''ipv4: dhcp discover'' s) 1 xid 0 0 of
          (rc, s) \<Rightarrow>
            if rc < 0 then Some (-1, dhcp_say l ''ipv4: dhcp discover tx failed'' s)
            else do {
              (r, v, s) \<leftarrow> wait_dhcp l s xid 2 \<lparr>dhcp_msg_type = 0, dhcp_server_id = 0, dhcp_subnet = 0, dhcp_router = 0, dhcp_dns = 0\<rparr>;
              if r = None \<or> r = Some 0 then Some (-1, dhcp_say l ''ipv4: dhcp offer timeout'' s)
              else dhcp_request l s xid (the r) v })"

definition netstack_configure_ipv4 :: "'l link \<Rightarrow> 'l net \<Rightarrow> (int \<times> 'l net) option" where
  "netstack_configure_ipv4 l s =
    (if ipv4_ready (stack_status s) then Some (0, s)
     else do {
       (rc, s) \<leftarrow> netstack_configure_ipv4_dhcp l s;
       if rc = 0 then Some (0, s)
       else case netstack_configure_static_from_vfs l (network_log l ''network: DHCP failed, trying static config'' s) of
         (rc, s) \<Rightarrow> if rc = 0 then Some (0, s) else Some (-1, set_status l ''ipv4: dhcp failed, no static fallback'' s) })"

section \<open>Ping\<close>

definition IP_PROTO_ICMP :: byte where "IP_PROTO_ICMP = 1"

definition echo_request :: "u16 \<Rightarrow> u16 \<Rightarrow> bytes" where
  "echo_request ident sq =
    (let icmp = (replicate 32 0)[0 := 8, 1 := 0];
         icmp = put_be16 icmp 4 ident;
         icmp = put_be16 icmp 6 sq;
         icmp = blit 8 [79, 114, 105, 122, 111, 110, 80, 105, 110, 103] icmp
     in put_be16 icmp 2 (checksum16 icmp))"

text \<open>The handler of one frame; a reply gives the round-trip time in milliseconds.\<close>

definition ping_frame :: "'l link \<Rightarrow> u32 \<Rightarrow> u16 \<Rightarrow> u16 \<Rightarrow> u64 \<Rightarrow> ('l, unit, u32) handler" where
  "ping_frame l target_ip ident sq start deadline n c s = do {
     p \<leftarrow> parse_ipv4_basic (frame_buf s) n;
     case p of None \<Rightarrow> Some (Continue deadline, c, s)
     | Some (src_ip, dst_ip, proto, off, len) \<Rightarrow>
         if proto \<noteq> IP_PROTO_ICMP \<or> len < 8 then Some (Continue deadline, c, s)
         else do {
           b0 \<leftarrow> rd (frame_buf s) off;
           i \<leftarrow> get_be16 (frame_buf s) (off + 4);
           q \<leftarrow> get_be16 (frame_buf s) (off + 6);
           if src_ip = target_ip \<and> b0 = 0 \<and> i = ident \<and> q = sq
           then Some (Done (ucast (((now l s - start) * 1000) div TIMER_HZ)), c, set_status l ''icmp: reply received'' s)
           else Some (Continue deadline, c, s) } }"

definition netstack_ping :: "'l link \<Rightarrow> 'l net \<Rightarrow> u32 \<Rightarrow> (u32 option \<times> 'l net) option" where
  "netstack_ping l s target_ip =
    (if target_ip = 0 then Some (None, s)
     else do {
       (rc, s) \<leftarrow> netstack_configure_ipv4 l s;
       if rc \<noteq> 0 then Some (None, s)
       else do {
         let next_hop = (if same_subnet s (st_ip (stack_status s)) target_ip then target_ip else st_gateway (stack_status s));
         (m, s) \<leftarrow> (if next_hop = 0 then Some (None, s) else arp_resolve l s next_hop);
         case m of None \<Rightarrow> Some (None, set_status l ''icmp: gateway arp failed'' s)
         | Some dst_mac \<Rightarrow> do {
             let ident = icmp_ident s + 1;
             let s = s\<lparr>icmp_ident := ident\<rparr>;
             let sq = ucast (now l s AND 0xffff);
             let s = set_status l ''icmp: echo request'' s;
             let (rc, s) = send_ipv4_raw l s dst_mac (st_ip (stack_status s)) target_ip IP_PROTO_ICMP (echo_request ident sq);
             if rc < 0 then Some (None, set_status l ''icmp: send failed'' s)
             else do {
               let start = now l s;
               let (deadline, s) = deadline_from_ms l s 2000;
               (r, _, s) \<leftarrow> wait_loop l (ping_frame l target_ip ident sq start) deadline () s;
               case r of Some ms \<Rightarrow> Some (Some ms, s) | None \<Rightarrow> Some (None, set_status l ''icmp: timeout'' s) } } } })"

section \<open>Name resolution\<close>

definition DNS_PORT :: u16 where "DNS_PORT = 53"

text \<open>The datagram at offset \<open>off\<close> of the frame; \<open>Done None\<close> is the error return inside the loop.\<close>

definition dns_frame :: "'l link \<Rightarrow> bytes \<Rightarrow> u16 \<Rightarrow> u16 \<Rightarrow> ('l, unit, u32 option) handler" where
  "dns_frame l host ident lport deadline n c s = do {
     p \<leftarrow> parse_ipv4_udp (frame_buf s) n;
     case p of None \<Rightarrow> Some (Continue deadline, c, s)
     | Some (src_ip, dst_ip, src_port, dst_port, off, len) \<Rightarrow>
         if src_ip \<noteq> st_dns (stack_status s) \<or> src_port \<noteq> DNS_PORT \<or> dst_port \<noteq> lport \<or> len < 12 then Some (Continue deadline, c, s)
         else do {
           i \<leftarrow> get_be16 (frame_buf s) off;
           if i \<noteq> ident then Some (Continue deadline, c, s)
           else do {
             r \<leftarrow> dns_reply (drop off (frame_buf s)) len;
             case r of
               DnsError \<Rightarrow> Some (Done None, c, s)
             | DnsNothing \<Rightarrow> Some (Continue deadline, c, s)
             | DnsAddress ip \<Rightarrow>
                 let s = s\<lparr>stack_status := (stack_status s)\<lparr>last_resolved_ip := ip, last_host := take 95 (map (\<lambda>b. char_of (unat b)) host)\<rparr>\<rparr>
                 in Some (Done (Some ip), c, set_status l ''dns: host resolved'' s) } } }"

definition netstack_resolve_a :: "'l link \<Rightarrow> 'l net \<Rightarrow> bytes \<Rightarrow> (u32 option \<times> 'l net) option" where
  "netstack_resolve_a l s host = do {
     let ident = dns_ident s + 1;
     let s = s\<lparr>dns_ident := ident\<rparr>;
     let lport = 41000 + (ident AND 0x0fff);
     (rc, s) \<leftarrow> netstack_configure_ipv4 l s;
     if rc \<noteq> 0 then Some (None, s)
     else case dns_query ident host of
       None \<Rightarrow> None
     | Some None \<Rightarrow> Some (None, s)
     | Some (Some (query, off)) \<Rightarrow> do {
         let s = set_status l ''dns: resolving host'' s;
         (rc, s) \<leftarrow> send_udp l s (st_dns (stack_status s)) lport DNS_PORT (take off query);
         if rc < 0 then Some (None, set_status l ''dns: send failed'' s)
         else do {
           let (deadline, s) = deadline_from_ms l s 5000;
           (r, _, s) \<leftarrow> wait_loop l (dns_frame l host ident lport) deadline () s;
           case r of Some x \<Rightarrow> Some (x, s) | None \<Rightarrow> Some (None, set_status l ''dns: timeout'' s) } } }"

section \<open>TCP client\<close>

definition take_port :: "'l net \<Rightarrow> u16 \<times> 'l net" where
  "take_port s =
    (let nxt = tcp_next_port s + 1
     in (tcp_next_port s, s\<lparr>tcp_next_port := (if nxt < 40000 \<or> nxt > 60000 then 40000 else nxt)\<rparr>))"

definition connect_frame :: "'l link \<Rightarrow> u32 \<Rightarrow> u16 \<Rightarrow> ('l, tcp_conn_t, int) handler" where
  "connect_frame l ip port deadline n conn s = do {
     p \<leftarrow> parse_ipv4_tcp (frame_buf s) n;
     case p of None \<Rightarrow> Some (Continue deadline, conn, s)
     | Some f \<Rightarrow>
         if seg_src_ip f \<noteq> ip \<or> seg_src_port f \<noteq> port \<or> seg_dst_port f \<noteq> local_port conn then Some (Continue deadline, conn, s)
         else if seg_flags f AND TCP_RST \<noteq> 0 then Some (Done (-1), conn, set_status l ''tcp: reset'' s)
         else if seg_flags f AND (TCP_SYN OR TCP_ACK) = TCP_SYN OR TCP_ACK \<and> seg_ack f = seq conn + 1
         then let conn = conn\<lparr>seq := seq conn + 1, ack := seg_seq f + 1\<rparr>;
                  s = snd (send_tcp l s conn TCP_ACK [])
              in Some (Done 0, conn, set_status l ''tcp: connected'' s)
         else Some (Continue deadline, conn, s) }"

definition conn_zero :: tcp_conn_t where
  "conn_zero = \<lparr>remote_ip = 0, remote_port = 0, local_port = 0, seq = 0, ack = 0, remote_mac = replicate 6 0\<rparr>"

definition tcp_connect :: "'l link \<Rightarrow> 'l net \<Rightarrow> u32 \<Rightarrow> u16 \<Rightarrow> (int \<times> tcp_conn_t \<times> 'l net) option" where
  "tcp_connect l s ip port =
    (let next_hop = (if same_subnet s (st_ip (stack_status s)) ip then ip else st_gateway (stack_status s))
     in if \<not> ipv4_ready (stack_status s) then Some (-1, conn_zero, set_status l ''tcp: ipv4 not configured'' s)
        else case take_port s of
          (lport, s) \<Rightarrow>
            let conn = conn_zero\<lparr>remote_ip := ip, remote_port := port, local_port := lport, seq := 0x4f5a1000 XOR ucast (now l s)\<rparr>
            in if next_hop = 0 then Some (-1, conn, set_status l ''tcp: no route'' s)
               else do {
                 (m, s) \<leftarrow> arp_resolve l s next_hop;
                 case m of None \<Rightarrow> Some (-1, conn, set_status l ''tcp: gateway arp failed'' s)
                 | Some mac \<Rightarrow> do {
                     let conn = conn\<lparr>remote_mac := mac\<rparr>;
                     let s = set_status l ''tcp: syn'' s;
                     let (rc, s) = send_tcp l s conn TCP_SYN [];
                     if rc < 0 then Some (-1, conn, set_status l ''tcp: syn send failed'' s)
                     else do {
                       let (deadline, s) = deadline_from_ms l s 5000;
                       (r, conn, s) \<leftarrow> wait_loop l (connect_frame l ip port) deadline conn s;
                       case r of Some rc \<Rightarrow> Some (rc, conn, s) | None \<Rightarrow> Some (-1, conn, set_status l ''tcp: connect timeout'' s) } } })"

definition tcp_close :: "'l link \<Rightarrow> 'l net \<Rightarrow> tcp_conn_t option \<Rightarrow> 'l net" where
  "tcp_close l s conn =
    (case conn of None \<Rightarrow> s | Some conn \<Rightarrow> if remote_ip conn = 0 then s else snd (send_tcp l s conn (TCP_FIN OR TCP_ACK) []))"

definition tcp_send_data :: "'l link \<Rightarrow> 'l net \<Rightarrow> tcp_conn_t \<Rightarrow> bytes \<Rightarrow> int \<times> tcp_conn_t \<times> 'l net" where
  "tcp_send_data l s conn data =
    (case send_tcp l s conn (TCP_PSH OR TCP_ACK) data of
       (rc, s) \<Rightarrow> (rc, if rc \<ge> 0 then conn\<lparr>seq := seq conn + of_nat (length data)\<rparr> else conn, s))"

text \<open>The connection, the caller's buffer and the bytes used. A copy that would leave the buffer is \<open>None\<close>.\<close>

type_synonym rx_state = "tcp_conn_t \<times> bytes \<times> nat"

definition store_at :: "nat \<Rightarrow> bytes \<Rightarrow> bytes \<Rightarrow> bytes option" where
  "store_at i data buf = (if i + length data \<le> length buf then Some (blit i data buf) else None)"

definition send_ack :: "'l link \<Rightarrow> tcp_conn_t \<Rightarrow> 'l net \<Rightarrow> 'l net" where
  "send_ack l conn s = snd (send_tcp l s conn TCP_ACK [])"

definition from_peer :: "tcp_conn_t \<Rightarrow> tcp_fields \<Rightarrow> bool" where
  "from_peer conn f \<longleftrightarrow> seg_src_ip f = remote_ip conn \<and> seg_src_port f = remote_port conn \<and> seg_dst_port f = local_port conn"

text \<open>The data of a segment in \<^verbatim>\<open>tcp_recv_all\<close>: text with a NUL, and a deadline that starts again.\<close>

definition recv_all_data :: "'l link \<Rightarrow> nat \<Rightarrow> u64 \<Rightarrow> tcp_fields \<Rightarrow> rx_state \<Rightarrow> 'l net \<Rightarrow> (u64 \<times> rx_state \<times> 'l net) option" where
  "recv_all_data l out_cap deadline f c s =
    (case c of (conn, out, used) \<Rightarrow>
       if seg_len f = 0 then Some (deadline, c, s)
       else if seg_seq f = ack conn
       then do {
         let copy = (if out_cap > 0 \<and> used + seg_len f \<ge> out_cap then out_cap - used - 1 else seg_len f);
         (out, used) \<leftarrow> (if copy > 0
                          then do { out \<leftarrow> store_at used (slice (seg_off f) copy (frame_buf s)) out;
                                    out \<leftarrow> store_at (used + copy) [0] out;
                                    Some (out, used + copy) }
                          else Some (out, used));
         let conn = conn\<lparr>ack := ack conn + of_nat (seg_len f)\<rparr>;
         let (deadline, s) = deadline_from_ms l (send_ack l conn s) 1500;
         Some (deadline, (conn, out, used), s) }
       else Some (deadline, c, send_ack l conn s))"

definition recv_all_frame :: "'l link \<Rightarrow> nat \<Rightarrow> ('l, rx_state, int \<times> nat option) handler" where
  "recv_all_frame l out_cap deadline n c s = do {
     p \<leftarrow> parse_ipv4_tcp (frame_buf s) n;
     case p of None \<Rightarrow> Some (Continue deadline, c, s)
     | Some f \<Rightarrow>
         if \<not> from_peer (fst c) f then Some (Continue deadline, c, s)
         else if seg_flags f AND TCP_RST \<noteq> 0 then Some (Done (-1, None), c, set_status l ''tcp: reset while receiving'' s)
         else do {
           (deadline, (conn, out, used), s) \<leftarrow> recv_all_data l out_cap deadline f c s;
           if seg_flags f AND TCP_FIN \<noteq> 0
           then let conn = conn\<lparr>ack := ack conn + 1\<rparr>
                in Some (Done (0, Some used), (conn, out, used), set_status l ''tcp: response received'' (send_ack l conn s))
           else Some (Continue deadline, (conn, out, used), s) } }"

text \<open>The result code, the length stored through \<^verbatim>\<open>out_len\<close> if it is, the connection, the buffer and the stack.\<close>

definition tcp_recv_all :: "'l link \<Rightarrow> 'l net \<Rightarrow> tcp_conn_t \<Rightarrow> bytes \<Rightarrow> nat \<Rightarrow> (int \<times> nat option \<times> tcp_conn_t \<times> bytes \<times> 'l net) option" where
  "tcp_recv_all l s conn out out_cap = do {
     let (deadline, s) = deadline_from_ms l s 9000;
     out \<leftarrow> (if out_cap > 0 then store_at 0 [0] out else Some out);
     (r, (conn, out, used), s) \<leftarrow> wait_loop l (recv_all_frame l out_cap) deadline (conn, out, 0) s;
     case r of
       Some (rc, len) \<Rightarrow> Some (rc, len, conn, out, s)
     | None \<Rightarrow> Some (if used > 0 then 0 else -1, Some used, conn, out, s) }"

text \<open>Whether complete TLS records hold an alert or a handshake message of a type. The offsets of records and of messages in a record.\<close>

function tls_messages_loop :: "bytes \<Rightarrow> nat \<Rightarrow> byte \<Rightarrow> nat \<Rightarrow> bool option" where
  "tls_messages_loop rx record_end wanted_type p =
    (if p + 4 \<le> record_end
     then case rd rx p of None \<Rightarrow> None | Some hs_type \<Rightarrow>
       (case rd rx (p + 1) of None \<Rightarrow> None | Some b1 \<Rightarrow> case rd rx (p + 2) of None \<Rightarrow> None | Some b2 \<Rightarrow> case rd rx (p + 3) of None \<Rightarrow> None | Some b3 \<Rightarrow>
         let hs_len = unat (push_bit 16 (ucast b1) OR push_bit 8 (ucast b2) OR ucast b3 :: u32) in
         if p + 4 + hs_len > record_end then Some False
         else if hs_type = wanted_type then Some True
         else tls_messages_loop rx record_end wanted_type (p + 4 + hs_len))
     else Some False)"
  by pat_completeness auto
termination
  by (relation "measure (\<lambda>(_, record_end, _, p). record_end - p)") auto

function tls_records_loop :: "bytes \<Rightarrow> nat \<Rightarrow> byte \<Rightarrow> nat \<Rightarrow> bool option" where
  "tls_records_loop rx rx_len wanted_type off =
    (if off + 5 \<le> rx_len
     then case rd rx off of None \<Rightarrow> None | Some record_type \<Rightarrow>
       (case get_be16 rx (off + 3) of None \<Rightarrow> None | Some record_len \<Rightarrow>
         let record_end = off + 5 + unat record_len in
         if record_end > rx_len then Some False
         else if record_type = 21 then Some True
         else (case (if record_type = 22 then tls_messages_loop rx record_end wanted_type (off + 5) else Some False) of
                 None \<Rightarrow> None
               | Some found \<Rightarrow> if found then Some True else tls_records_loop rx rx_len wanted_type record_end))
     else Some False)"
  by pat_completeness auto
termination
  by (relation "measure (\<lambda>(_, rx_len, _, off). rx_len - off)") auto

declare tls_messages_loop.simps [simp del] tls_records_loop.simps [simp del]

definition tls_records_have_message :: "bytes \<Rightarrow> nat \<Rightarrow> byte \<Rightarrow> bool option" where
  "tls_records_have_message rx rx_len wanted_type = tls_records_loop rx rx_len wanted_type 0"

text \<open>The data of a segment in \<^verbatim>\<open>tcp_recv_bytes\<close>; the first component is set when the loop is left.\<close>

definition recv_bytes_data :: "'l link \<Rightarrow> nat \<Rightarrow> u64 \<Rightarrow> tcp_fields \<Rightarrow> rx_state \<Rightarrow> 'l net \<Rightarrow> (bool \<times> u64 \<times> rx_state \<times> 'l net) option" where
  "recv_bytes_data l out_cap deadline f c s =
    (case c of (conn, out, used) \<Rightarrow>
       if seg_len f = 0 then Some (False, deadline, c, s)
       else if seg_seq f = ack conn
       then do {
         let copy = min (seg_len f) (out_cap - used);
         out \<leftarrow> (if copy > 0 then store_at used (slice (seg_off f) copy (frame_buf s)) out else Some out);
         let used = used + copy;
         let conn = conn\<lparr>ack := ack conn + of_nat (seg_len f)\<rparr>;
         let s = send_ack l conn s;
         stop \<leftarrow> (if used = out_cap then Some True else tls_records_have_message out used 14);
         if stop then Some (True, deadline, (conn, out, used), s)
         else let (deadline, s) = deadline_from_ms l s 1000 in Some (False, deadline, (conn, out, used), s) }
       else Some (False, deadline, c, send_ack l conn s))"

text \<open>\<open>Done False\<close> is the reset, \<open>Done True\<close> the end of the loop.\<close>

definition recv_bytes_frame :: "'l link \<Rightarrow> nat \<Rightarrow> ('l, rx_state, bool) handler" where
  "recv_bytes_frame l out_cap deadline n c s = do {
     p \<leftarrow> parse_ipv4_tcp (frame_buf s) n;
     case p of None \<Rightarrow> Some (Continue deadline, c, s)
     | Some f \<Rightarrow>
         if \<not> from_peer (fst c) f then Some (Continue deadline, c, s)
         else if seg_flags f AND TCP_RST \<noteq> 0 then Some (Done False, c, set_status l ''tcp: reset while receiving bytes'' s)
         else do {
           (stop, deadline, (conn, out, used), s) \<leftarrow> recv_bytes_data l out_cap deadline f c s;
           if stop then Some (Done True, (conn, out, used), s)
           else if seg_flags f AND TCP_FIN \<noteq> 0
           then let conn = conn\<lparr>ack := ack conn + 1\<rparr> in Some (Done True, (conn, out, used), send_ack l conn s)
           else Some (Continue deadline, (conn, out, used), s) } }"

definition tcp_recv_bytes :: "'l link \<Rightarrow> 'l net \<Rightarrow> tcp_conn_t \<Rightarrow> bytes \<Rightarrow> nat \<Rightarrow> u64 \<Rightarrow> (int \<times> nat option \<times> tcp_conn_t \<times> bytes \<times> 'l net) option" where
  "tcp_recv_bytes l s conn out out_cap wait_ms = do {
     let (deadline, s) = deadline_from_ms l s wait_ms;
     (r, (conn, out, used), s) \<leftarrow> wait_loop l (recv_bytes_frame l out_cap) deadline (conn, out, 0) s;
     if r = Some False then Some (-1, None, conn, out, s)
     else Some (if used > 0 then 0 else -1, Some used, conn, out, s) }"

section \<open>One round of a wait\<close>

lemma wait_step_ok:
  assumes "timer_monotone l" "link_ok l" "wait_inv l s"
  shows "\<exists>ev s'. wait_step l deadline s = Some (ev, s') \<and> wait_inv l s' \<and> stack_status s' = stack_status s \<and>
    (ev \<noteq> TimedOut \<longrightarrow> (\<forall>s''. goes_on l s' s'' \<longrightarrow> wait_inv l s'' \<and> (s'', s) \<in> wait_order)) \<and> (\<forall>n. ev = Frame n \<longrightarrow> n \<le> 1500)"
proof -
  obtain b s1 where b: "before_deadline l s deadline = (b, s1)" by fastforce
  note st = before_deadline_step [OF b assms(3)]
  have fin: "wait_inv l s' \<and> stack_status s' = stack_status s \<and> (\<forall>s''. goes_on l s' s'' \<longrightarrow> wait_inv l s'' \<and> (s'', s) \<in> wait_order)"
    if b and g: "goes_on l s1 s'" for s'
  proof -
    have "stack_status s' = stack_status s" using g st(2) by (simp add: goes_on_def)
    then show ?thesis using st(5) [OF \<open>b\<close>] g goes_on_trans [OF g] by blast
  qed
  show ?thesis
  proof (cases b)
    case False
    then show ?thesis using st(2,4) by (simp add: wait_step_def b)
  next
    case True
    have l1: "length (frame_buf s1) = 1500" using st(4) by (simp add: wait_inv_def)
    obtain n m ty s3 where r: "recv_frame l s1 = (n, m, ty, s3)" by (metis prod_cases4)
    have g3: "goes_on l s1 s3" "n \<le> 1500" using goes_on_recv [OF assms(1,2) r l1] by simp_all
    have l3: "nat n \<le> length (frame_buf s3)" using g3 l1 by (simp add: goes_on_def)
    note unf = wait_step_def b r
    consider "n \<le> 0" | "0 < n" "ty = ETH_TYPE_ARP" | "0 < n" "ty \<noteq> ETH_TYPE_ARP" "ty \<noteq> ETH_TYPE_IPV4" | "0 < n" "ty \<noteq> ETH_TYPE_ARP" "ty = ETH_TYPE_IPV4" by linarith
    then show ?thesis
    proof cases
      case 1
      then show ?thesis using fin [OF True goes_on_trans [OF g3(1) goes_on_pause [OF assms(1)]]] True by (simp add: unf)
    next
      case 2
      obtain s4 where "handle_arp l s3 m (frame_buf s3) (nat n) = Some s4" "goes_on l s3 s4" by (rule goes_on_arp [OF assms(1) l3])
      then show ?thesis using fin [OF True goes_on_trans [OF g3(1)]] 2 True by (simp add: unf)
    next
      case 3
      then show ?thesis using fin [OF True g3(1)] True by (simp add: unf)
    next
      case 4
      then show ?thesis using fin [OF True g3(1)] g3(2) True by (simp add: unf)
    qed
  qed
qed

section \<open>Waiting with a handler\<close>

text \<open>
  The contract between the loop and a handler. For frames of which \<open>E\<close> holds, a handler keeps an invariant \<open>I\<close> of the caller's
  variables, establishes \<open>Q\<close> with a result, and when it goes on either makes progress in the measure \<open>m\<close> or has only called
  the driver. Then the loop ends.
\<close>

locale frame_handler =
  fixes l :: "'l link" and h :: "('l, 'c, 'r) handler" and E :: "nat \<Rightarrow> 'l net \<Rightarrow> bool"
    and I :: "'c \<Rightarrow> bool" and m :: "'c \<Rightarrow> nat" and Q :: "'r \<Rightarrow> 'c \<Rightarrow> bool"
  assumes handler_step: "timer_monotone l \<Longrightarrow> wait_inv l s \<Longrightarrow> n \<le> 1500 \<Longrightarrow> E n s \<Longrightarrow> I c \<Longrightarrow>
    \<exists>v c' s'. h deadline n c s = Some (v, c', s') \<and> wait_inv l s' \<and> (is_Done v \<longrightarrow> Q (result v) c') \<and>
      (\<not> is_Done v \<longrightarrow> I c' \<and> (m c' < m c \<or> (m c' = m c \<and> goes_on l s s')))"
begin

definition sees :: bool where
  "sees \<longleftrightarrow> (\<forall>deadline s n s'. wait_step l deadline s = Some (Frame n, s') \<longrightarrow> E n s')"

lemma loop_returns:
  assumes "timer_monotone l" "link_ok l" "sees" "wait_inv l s" "I c"
  shows "\<exists>r c' s'. wait_loop l h deadline c s = Some (r, c', s') \<and> wait_inv l s' \<and> (case r of None \<Rightarrow> I c' | Some x \<Rightarrow> Q x c')"
  using assms(4,5)
proof (induction "(c, s)" arbitrary: c s deadline rule: wf_induct_rule [OF wf_inv_image [OF wf_lex_prod [OF wf_less_than wf_wait_order], of "\<lambda>(c, s). (m c, s)"]])
  case (1 c s)
  obtain ev s1 where w: "wait_step l deadline s = Some (ev, s1)" and inv1: "wait_inv l s1"
    and on: "ev \<noteq> TimedOut \<Longrightarrow> goes_on l s1 s2 \<Longrightarrow> wait_inv l s2 \<and> (s2, s) \<in> wait_order" and le: "ev = Frame n \<Longrightarrow> n \<le> 1500" for s2 n
    using wait_step_ok [OF assms(1,2) 1(2), of deadline] by blast
  note unf = wait_loop.simps [of l h deadline c s] w
  show ?case
  proof (cases ev)
    case TimedOut
    then show ?thesis using inv1 1(3) by (simp add: unf)
  next
    case Again
    then have "\<exists>r c' s'. wait_loop l h deadline c s1 = Some (r, c', s') \<and> wait_inv l s' \<and> (case r of None \<Rightarrow> I c' | Some x \<Rightarrow> Q x c')"
      using on [OF _ goes_on_refl] 1(3) by (intro 1(1)) auto
    then show ?thesis using Again by (simp add: unf)
  next
    case (Frame n)
    have "E n s1" using assms(3) w Frame unfolding sees_def by blast
    from handler_step [OF assms(1) inv1 le [OF Frame] this 1(3), of deadline]
    obtain v c2 s2 where v: "h deadline n c s1 = Some (v, c2, s2)" "wait_inv l s2" "is_Done v \<Longrightarrow> Q (result v) c2"
      "\<not> is_Done v \<Longrightarrow> I c2 \<and> (m c2 < m c \<or> (m c2 = m c \<and> goes_on l s1 s2))" by blast
    show ?thesis
    proof (cases "is_Done v")
      case True
      then show ?thesis using v Frame by (simp add: unf)
    next
      case False
      have "(s2, s) \<in> wait_order" if "goes_on l s1 s2" using on [OF _ that] Frame by simp
      then have "((c2, s2), (c, s)) \<in> inv_image (less_than <*lex*> wait_order) (\<lambda>(c, s). (m c, s))"
        using v(4) [OF False] by auto
      from 1(1) [OF this v(2), of "until v"] v(4) [OF False] show ?thesis using v(1) Frame False by (simp add: unf)
    qed
  qed
qed

end

section \<open>Driver calls in a handler\<close>

lemma goes_on_send_tcp: "timer_monotone l \<Longrightarrow> goes_on l s (snd (send_tcp l s conn flags data))"
  using goes_on_send [of l "s\<lparr>ip_ident := ip_ident s + 1\<rparr>"]
  by (auto simp: send_tcp_def send_ipv4_raw_def Let_def goes_on_refl) (auto simp: goes_on_def)

lemma wait_inv_goes_on: "wait_inv l s \<Longrightarrow> goes_on l s s' \<Longrightarrow> wait_inv l s'"
  by (auto simp: wait_inv_def goes_on_def)

lemma wait_inv_status: "timer_monotone l \<Longrightarrow> wait_inv l s \<Longrightarrow> wait_inv l (set_status l t s)"
  by (auto simp: wait_inv_def set_status_def timer_monotone_def intro: order_trans)

lemma wait_inv_send: "timer_monotone l \<Longrightarrow> wait_inv l s \<Longrightarrow> wait_inv l (snd (send_tcp l s conn flags data))"
  using wait_inv_goes_on goes_on_send_tcp by blast

lemma wait_inv_deadline: "wait_inv l s \<Longrightarrow> wait_inv l (snd (deadline_from_ms l s ms))"
  by (simp add: deadline_from_ms_def Let_def wait_inv_def)

section \<open>The handlers keep the contract\<close>

lemma reply_in_frame:
  assumes "parse_ipv4_udp (frame_buf s) n = Some (Some (si, di, sp, dp, off, len))" "n \<le> length (frame_buf s)" "12 \<le> len"
  shows "\<exists>i. get_be16 (frame_buf s) off = Some i" "\<exists>r. dns_reply (drop off (frame_buf s)) len = Some r"
proof -
  have b: "off + len \<le> length (frame_buf s)" using parse_udp_bounds [OF assms(1)] assms(2) by linarith
  have "get_be16 (frame_buf s) off \<noteq> None" using b assms(3) by (simp del: not_None_eq)
  then show "\<exists>i. get_be16 (frame_buf s) off = Some i" by blast
  show "\<exists>r. dns_reply (drop off (frame_buf s)) len = Some r" using reply_safe [of len "drop off (frame_buf s)"] b assms(3) by auto
qed

interpretation ping: frame_handler l "ping_frame l target_ip ident sq start" "\<lambda>_ _. True" "\<lambda>_. True" "\<lambda>_. 0" "\<lambda>_ _. True"
  for l :: "'l link" and target_ip ident sq start
proof
  fix s :: "'l net" and n :: nat and c :: unit and deadline :: u64
  assume a: "timer_monotone l" "wait_inv l s" "n \<le> 1500"
  have len: "n \<le> length (frame_buf s)" using a(2,3) by (simp add: wait_inv_def)
  obtain p where p: "parse_ipv4_basic (frame_buf s) n = Some p" using parse_basic_safe(1) [OF len] by blast
  have stay: "\<exists>v c' s'. Some (Continue deadline, c, s) = Some (v, c', s') \<and> wait_inv l s' \<and> (is_Done v \<longrightarrow> True) \<and>
      (\<not> is_Done v \<longrightarrow> True \<and> (0 < (0::nat) \<or> ((0::nat) = 0 \<and> goes_on l s s')))" using a(2) goes_on_refl by auto
  show "\<exists>v c' s'. ping_frame l target_ip ident sq start deadline n c s = Some (v, c', s') \<and> wait_inv l s' \<and> (is_Done v \<longrightarrow> True) \<and>
      (\<not> is_Done v \<longrightarrow> True \<and> (0 < (0::nat) \<or> ((0::nat) = 0 \<and> goes_on l s s')))"
  proof (cases p)
    case None
    then show ?thesis using stay by (simp add: ping_frame_def p)
  next
    case (Some q)
    obtain si di pr off le where q: "q = (si, di, pr, off, le)" using prod_cases5 by blast
    have b: "off + le \<le> length (frame_buf s)" using parse_basic_bounds [OF p [unfolded Some q]] len by linarith
    show ?thesis
    proof (cases "pr \<noteq> IP_PROTO_ICMP \<or> le < 8")
      case True
      then show ?thesis using stay by (simp add: ping_frame_def p Some q)
    next
      case False
      then have "rd (frame_buf s) off \<noteq> None" "get_be16 (frame_buf s) (off + 4) \<noteq> None" "get_be16 (frame_buf s) (off + 6) \<noteq> None" using b by (simp_all del: not_None_eq)
      then obtain x y z where "rd (frame_buf s) off = Some x" "get_be16 (frame_buf s) (off + 4) = Some y" "get_be16 (frame_buf s) (off + 6) = Some z" by blast
      then show ?thesis using False stay wait_inv_status [OF a(1,2)] by (simp add: ping_frame_def p Some q)
    qed
  qed
qed

interpretation dns: frame_handler l "dns_frame l host ident lport" "\<lambda>_ _. True" "\<lambda>_. True" "\<lambda>_. 0" "\<lambda>_ _. True"
  for l :: "'l link" and host ident lport
proof
  fix s :: "'l net" and n :: nat and c :: unit and deadline :: u64
  assume a: "timer_monotone l" "wait_inv l s" "n \<le> 1500"
  have len: "n \<le> length (frame_buf s)" using a(2,3) by (simp add: wait_inv_def)
  obtain p where p: "parse_ipv4_udp (frame_buf s) n = Some p" using parse_udp_safe(1) [OF len] by blast
  have stay: "\<exists>v c' s'. Some (Continue deadline, c, s) = Some (v, c', s') \<and> wait_inv l s' \<and> (is_Done v \<longrightarrow> True) \<and>
      (\<not> is_Done v \<longrightarrow> True \<and> (0 < (0::nat) \<or> ((0::nat) = 0 \<and> goes_on l s s')))" using a(2) goes_on_refl by auto
  show "\<exists>v c' s'. dns_frame l host ident lport deadline n c s = Some (v, c', s') \<and> wait_inv l s' \<and> (is_Done v \<longrightarrow> True) \<and>
      (\<not> is_Done v \<longrightarrow> True \<and> (0 < (0::nat) \<or> ((0::nat) = 0 \<and> goes_on l s s')))"
  proof (cases p)
    case None
    then show ?thesis using stay by (simp add: dns_frame_def p)
  next
    case (Some q)
    obtain si di sp dp off le where q: "q = (si, di, sp, dp, off, le)" using prod_cases6 by blast
    show ?thesis
    proof (cases "si \<noteq> st_dns (stack_status s) \<or> sp \<noteq> DNS_PORT \<or> dp \<noteq> lport \<or> le < 12")
      case True
      then show ?thesis using stay by (simp add: dns_frame_def p Some q)
    next
      case False
      then have "12 \<le> le" by simp
      note r = reply_in_frame [OF p [unfolded Some q] len this]
      obtain i where i: "get_be16 (frame_buf s) off = Some i" using r(1) by blast
      obtain x where x: "dns_reply (drop off (frame_buf s)) le = Some x" using r(2) by blast
      have w: "wait_inv l (set_status l t (s\<lparr>stack_status := st\<rparr>))" for t st
        by (rule wait_inv_status [OF a(1)]) (use a(2) in \<open>simp add: wait_inv_def\<close>)
      show ?thesis using False i x stay w a(2) by (cases x) (simp_all add: dns_frame_def p Some q Let_def)
    qed
  qed
qed

text \<open>A TCP segment that the stack received.\<close>

definition received_segment :: "'l link \<Rightarrow> tcp_fields \<Rightarrow> bool" where
  "received_segment l f \<longleftrightarrow> (\<exists>deadline s0 n s. wait_step l deadline s0 = Some (Frame n, s) \<and> parse_ipv4_tcp (frame_buf s) n = Some (Some f))"

definition handshake :: "'l link \<Rightarrow> tcp_conn_t \<Rightarrow> int \<Rightarrow> tcp_conn_t \<Rightarrow> bool" where
  "handshake l c0 rc c \<longleftrightarrow> (rc = -1 \<and> c = c0) \<or> (rc = 0 \<and> (\<exists>f. received_segment l f \<and> from_peer c0 f \<and> seg_flags f AND TCP_RST = 0 \<and>
     seg_flags f AND (TCP_SYN OR TCP_ACK) = TCP_SYN OR TCP_ACK \<and> seg_ack f = seq c0 + 1 \<and> c = c0\<lparr>seq := seg_ack f, ack := seg_seq f + 1\<rparr>))"

interpretation connect: frame_handler l "connect_frame l (remote_ip c0) (remote_port c0)"
    "\<lambda>n s. \<exists>deadline s0. wait_step l deadline s0 = Some (Frame n, s)" "\<lambda>c. c = c0" "\<lambda>_. 0" "handshake l c0"
  for l :: "'l link" and c0 :: tcp_conn_t
proof
  fix s :: "'l net" and n :: nat and c :: tcp_conn_t and deadline :: u64
  assume a: "timer_monotone l" "wait_inv l s" "n \<le> 1500" "\<exists>deadline s0. wait_step l deadline s0 = Some (Frame n, s)" "c = c0"
  have len: "n \<le> length (frame_buf s)" using a(2,3) by (simp add: wait_inv_def)
  obtain p where p: "parse_ipv4_tcp (frame_buf s) n = Some p" using parse_tcp_safe(1) [OF len] by blast
  show "\<exists>v c' s'. connect_frame l (remote_ip c0) (remote_port c0) deadline n c s = Some (v, c', s') \<and> wait_inv l s' \<and> (is_Done v \<longrightarrow> handshake l c0 (result v) c') \<and>
      (\<not> is_Done v \<longrightarrow> c' = c0 \<and> (0 < (0::nat) \<or> ((0::nat) = 0 \<and> goes_on l s s')))"
  proof (cases p)
    case None
    then show ?thesis using a(2,5) goes_on_refl by (auto simp: connect_frame_def p)
  next
    case (Some f)
    have rs: "received_segment l f" using a(4) p Some by (auto simp: received_segment_def)
    show ?thesis
    proof (cases "from_peer c0 f \<and> seg_flags f AND TCP_RST = 0 \<and> seg_flags f AND (TCP_SYN OR TCP_ACK) = TCP_SYN OR TCP_ACK \<and> seg_ack f = seq c0 + 1")
      case True
      then have "handshake l c0 0 (c0\<lparr>seq := seq c0 + 1, ack := seg_seq f + 1\<rparr>)" using rs unfolding handshake_def by auto
      then show ?thesis using True a(5) wait_inv_status [OF a(1) wait_inv_send [OF a(1,2)]]
        by (simp add: connect_frame_def p Some Let_def from_peer_def)
    next
      case False
      have "handshake l c0 (-1) c0" by (simp add: handshake_def)
      with False show ?thesis using a(2,5) wait_inv_status [OF a(1,2)] goes_on_refl [of l s]
        by (auto simp: connect_frame_def p Some from_peer_def)
    qed
  qed
qed

section \<open>Records of a TLS stream\<close>

lemma tls_messages_safe: "record_end \<le> length rx \<Longrightarrow> tls_messages_loop rx record_end t p \<noteq> None"
proof (induction rx record_end t p rule: tls_messages_loop.induct)
  case (1 rx e t p)
  show ?case
  proof (cases "p + 4 \<le> e")
    case True
    then have "rd rx p \<noteq> None" "rd rx (p + 1) \<noteq> None" "rd rx (p + 2) \<noteq> None" "rd rx (p + 3) \<noteq> None" using 1(2) by (simp_all add: rd_def)
    then obtain h b1 b2 b3 where r: "rd rx p = Some h" "rd rx (p + 1) = Some b1" "rd rx (p + 2) = Some b2" "rd rx (p + 3) = Some b3" by blast
    define n where "n = unat (push_bit 16 (ucast b1) OR push_bit 8 (ucast b2) OR ucast b3 :: u32)"
    have eq: "tls_messages_loop rx e t p = (if p + 4 + n > e then Some False else if h = t then Some True else tls_messages_loop rx e t (p + 4 + n))"
      unfolding tls_messages_loop.simps [of rx e t p] Let_def n_def by (simp only: True r option.case if_True)
    show ?thesis
    proof (cases "p + 4 + n > e \<or> h = t")
      case False
      then show ?thesis using 1(1) [OF True r refl _ _ 1(2)] unfolding eq n_def [symmetric] by simp
    qed (auto simp: eq)
  qed (simp add: tls_messages_loop.simps)
qed

lemma tls_records_safe: "rx_len \<le> length rx \<Longrightarrow> tls_records_loop rx rx_len t off \<noteq> None"
proof (induction rx rx_len t off rule: tls_records_loop.induct)
  case (1 rx e t off)
  show ?case
  proof (cases "off + 5 \<le> e")
    case True
    then have "rd rx off \<noteq> None" "get_be16 rx (off + 3) \<noteq> None" using 1(2) by (simp_all add: rd_def del: not_None_eq)
    then obtain ty n where r: "rd rx off = Some ty" "get_be16 rx (off + 3) = Some n" by blast
    define re where "re = off + 5 + unat n"
    define m where "m = (if ty = 22 then tls_messages_loop rx re t (off + 5) else Some False)"
    have eq: "tls_records_loop rx e t off = (if re > e then Some False else if ty = 21 then Some True else
        (case m of None \<Rightarrow> None | Some found \<Rightarrow> if found then Some True else tls_records_loop rx e t re))"
      unfolding tls_records_loop.simps [of rx e t off] Let_def re_def m_def by (simp only: True r option.case if_True)
    show ?thesis
    proof (cases "re > e \<or> ty = 21")
      case False
      then have "m \<noteq> None" using tls_messages_safe [of re rx t "off + 5"] 1(2) by (cases "ty = 22") (simp_all add: m_def)
      then obtain found where m: "m = Some found" by blast
      show ?thesis
      proof (cases found)
        case True
        then show ?thesis using eq m by (simp del: not_None_eq)
      next
        case nf: False
        have "tls_records_loop rx e t re \<noteq> None"
          unfolding re_def by (rule 1(1) [OF True r refl _ _ _ _ 1(2)]) (use False m nf in \<open>auto simp: m_def re_def\<close>)
        then show ?thesis using eq m nf False by (simp del: not_None_eq)
      qed
    qed (auto simp: eq)
  qed (simp add: tls_records_loop.simps)
qed

section \<open>What a peer sends\<close>

text \<open>
  The peer sends a stream: the data it puts in a segment of sequence number \<open>isn + k\<close> is what its stream \<open>data\<close> has at \<open>k\<close>.
  Segments may be lost, repeated or reordered, and others may send anything.
\<close>

definition stream_frame :: "tcp_conn_t \<Rightarrow> u32 \<Rightarrow> bytes \<Rightarrow> nat \<Rightarrow> 'l net \<Rightarrow> bool" where
  "stream_frame conn isn data n s \<longleftrightarrow> (\<forall>f k. parse_ipv4_tcp (frame_buf s) n = Some (Some f) \<and> from_peer conn f \<and> k \<le> length data \<and> seg_seq f = isn + of_nat k \<longrightarrow>
     k + seg_len f \<le> length data \<and> slice (seg_off f) (seg_len f) (frame_buf s) = slice k (seg_len f) data)"

definition same_peer :: "tcp_conn_t \<Rightarrow> tcp_conn_t \<Rightarrow> bool" where
  "same_peer c c' \<longleftrightarrow> remote_ip c' = remote_ip c \<and> remote_port c' = remote_port c \<and> local_port c' = local_port c"

lemma from_same_peer: "same_peer c c' \<Longrightarrow> from_peer c' f = from_peer c f"
  by (simp add: same_peer_def from_peer_def)

text \<open>The first bytes of the stream, in place, and the rest of the buffer as it was.\<close>

definition stored :: "bytes \<Rightarrow> bytes \<Rightarrow> nat \<Rightarrow> bytes \<Rightarrow> nat \<Rightarrow> bool" where
  "stored out0 data out_cap out used \<longleftrightarrow> used \<le> out_cap \<and> used \<le> length data \<and> length out = length out0 \<and>
     take used out = take used data \<and> drop used out = drop used out0"

lemma store_next:
  assumes "stored out0 data out_cap out used" "used + n \<le> out_cap" "used + n \<le> length data" "out_cap \<le> length out0"
  shows "store_at used (slice used n data) out = Some (blit used (slice used n data) out)"
    "stored out0 data out_cap (blit used (slice used n data) out) (used + n)"
proof -
  have l: "length (slice used n data) = n" using assms(3) by simp
  have o: "length out = length out0" "take used out = take used data" "drop used out = drop used out0" using assms(1) by (simp_all add: stored_def)
  show "store_at used (slice used n data) out = Some (blit used (slice used n data) out)"
    using l o(1) assms(2,4) by (simp add: store_at_def)
  have b: "blit used (slice used n data) out = take used data @ slice used n data @ drop (used + n) out0"
    using l o by (simp add: blit_def) (metis drop_drop add.commute)
  have "take used data @ slice used n data = take (used + n) data" by (simp add: slice_def take_add)
  then have b: "blit used (slice used n data) out = take (used + n) data @ drop (used + n) out0" unfolding b by (metis append_assoc)
  show "stored out0 data out_cap (blit used (slice used n data) out) (used + n)"
    unfolding stored_def b using assms(2-4) o(1) by simp
qed

lemma slice_shorter: "slice i n xs = slice j n ys \<Longrightarrow> m \<le> n \<Longrightarrow> slice i m xs = slice j m ys"
  by (metis slice_def take_take min.absorb1)

lemma frame_cases:
  assumes "wait_inv l s" "n \<le> 1500"
  obtains (other) "parse_ipv4_tcp (frame_buf s) n = Some None" | (segment) f where "parse_ipv4_tcp (frame_buf s) n = Some (Some f)"
proof -
  have len: "n \<le> length (frame_buf s)" using assms by (simp add: wait_inv_def)
  obtain p where "parse_ipv4_tcp (frame_buf s) n = Some p" using parse_tcp_safe(1) [OF len] by blast
  then show thesis using that by (cases p) auto
qed

lemma wait_inv_ack: "timer_monotone l \<Longrightarrow> wait_inv l s \<Longrightarrow> wait_inv l (send_ack l conn s)"
  unfolding send_ack_def by (rule wait_inv_send)

lemma goes_on_ack: "timer_monotone l \<Longrightarrow> goes_on l s (send_ack l conn s)"
  unfolding send_ack_def by (rule goes_on_send_tcp)

section \<open>Receiving bytes\<close>

definition bytes_inv :: "tcp_conn_t \<Rightarrow> bytes \<Rightarrow> nat \<Rightarrow> bytes \<Rightarrow> rx_state \<Rightarrow> bool" where
  "bytes_inv conn0 out0 out_cap data c \<longleftrightarrow> (case c of (conn, out, used) \<Rightarrow>
     same_peer conn0 conn \<and> stored out0 data out_cap out used \<and> ack conn = ack conn0 + of_nat used)"

definition bytes_post :: "tcp_conn_t \<Rightarrow> bytes \<Rightarrow> nat \<Rightarrow> bytes \<Rightarrow> rx_state \<Rightarrow> bool" where
  "bytes_post conn0 out0 out_cap data c \<longleftrightarrow> (case c of (conn, out, used) \<Rightarrow> same_peer conn0 conn \<and> stored out0 data out_cap out used)"

text \<open>One segment in order: data is stored, and unless the loop is left, the number acknowledged is the position in the stream.\<close>

lemma recv_bytes_data_step:
  assumes "timer_monotone l" "wait_inv l s" "out_cap \<le> length out0" "bytes_inv conn0 out0 out_cap data c" "stream_frame conn0 (ack conn0) data n s"
    "parse_ipv4_tcp (frame_buf s) n = Some (Some f)" "from_peer conn0 f"
  shows "\<exists>stop deadline' c' s'. recv_bytes_data l out_cap deadline f c s = Some (stop, deadline', c', s') \<and> wait_inv l s' \<and>
    (stop \<longrightarrow> bytes_post conn0 out0 out_cap data c') \<and>
    (\<not> stop \<longrightarrow> bytes_inv conn0 out0 out_cap data c' \<and>
      (out_cap - snd (snd c') < out_cap - snd (snd c) \<or> (out_cap - snd (snd c') = out_cap - snd (snd c) \<and> goes_on l s s')))"
proof -
  obtain conn out used where c: "c = (conn, out, used)" by (cases c) auto
  have inv: "same_peer conn0 conn" "stored out0 data out_cap out used" "ack conn = ack conn0 + of_nat used" using assms(4) by (simp_all add: bytes_inv_def c)
  show ?thesis
  proof (cases "seg_len f > 0 \<and> seg_seq f = ack conn")
    case False
    then have "recv_bytes_data l out_cap deadline f c s = Some (False, deadline, c, if seg_len f = 0 then s else send_ack l conn s)"
      by (cases "seg_len f = 0") (simp_all add: recv_bytes_data_def c)
    moreover have "wait_inv l (if seg_len f = 0 then s else send_ack l conn s)" "goes_on l s (if seg_len f = 0 then s else send_ack l conn s)"
      using assms(2) wait_inv_ack [OF assms(1,2)] goes_on_ack [OF assms(1), of s] goes_on_refl [of l s] by simp_all
    ultimately show ?thesis using assms(4) by blast
  next
    case True
    have u: "used \<le> out_cap" "used \<le> length data" using inv(2) by (simp_all add: stored_def)
    have d: "used + seg_len f \<le> length data" "slice (seg_off f) (seg_len f) (frame_buf s) = slice used (seg_len f) data"
      using assms(5)[unfolded stream_frame_def, rule_format, of f used] assms(6,7) True inv(3) u(2) by simp_all
    define k where "k = min (seg_len f) (out_cap - used)"
    have k: "used + k \<le> out_cap" "used + k \<le> length data" using u(1) d(1) by (simp_all add: k_def)
    have sl: "slice (seg_off f) k (frame_buf s) = slice used k data" by (rule slice_shorter [OF d(2)]) (simp add: k_def)
    define out' where "out' = blit used (slice used k data) out"
    note st = store_next [OF inv(2) k assms(3), folded out'_def]
    have o: "(if k > 0 then store_at used (slice (seg_off f) k (frame_buf s)) out else Some out) = Some out'"
    proof (cases "k > 0")
      case False
      then have "out' = out" by (simp add: out'_def blit_def slice_def)
      then show ?thesis using False by simp
    qed (simp add: sl st(1))
    define conn' where "conn' = conn\<lparr>ack := ack conn + of_nat (seg_len f)\<rparr>"
    define s1 where "s1 = send_ack l conn' s"
    have w1: "wait_inv l s1" unfolding s1_def by (rule wait_inv_ack [OF assms(1,2)])
    have sp: "same_peer conn0 conn'" using inv(1) by (simp add: conn'_def same_peer_def)
    have "tls_records_have_message out' (used + k) 14 \<noteq> None"
      unfolding tls_records_have_message_def using st(2) k(1) assms(3) by (intro tls_records_safe) (simp add: stored_def)
    then obtain b where b: "tls_records_have_message out' (used + k) 14 = Some b" by blast
    have eq: "recv_bytes_data l out_cap deadline f c s = (if used + k = out_cap \<or> b then Some (True, deadline, (conn', out', used + k), s1)
        else case deadline_from_ms l s1 1000 of (dl, s2) \<Rightarrow> Some (False, dl, (conn', out', used + k), s2))"
      unfolding recv_bytes_data_def c prod.case Let_def k_def [symmetric] conn'_def [symmetric] s1_def [symmetric]
      using True o b by (simp split: prod.splits)
    show ?thesis
    proof (cases "used + k = out_cap \<or> b")
      case True
      then show ?thesis using eq w1 sp st(2) by (auto simp: bytes_post_def)
    next
      case False
      then have kk: "k = seg_len f" "k > 0" using k(1) True by (auto simp: k_def)
      have "ack conn' = ack conn0 + of_nat (used + k)" using inv(3) kk by (simp add: conn'_def)
      then have i: "bytes_inv conn0 out0 out_cap data (conn', out', used + k)" using sp st(2) by (simp add: bytes_inv_def)
      obtain dl s2 where dl: "deadline_from_ms l s1 1000 = (dl, s2)" by fastforce
      have w2: "wait_inv l s2" using wait_inv_deadline [OF w1, of 1000] dl by simp
      have "out_cap - (used + k) < out_cap - used" using kk(2) k(1) by linarith
      then show ?thesis using False eq i w2 dl by (auto simp: c)
    qed
  qed
qed

text \<open>The contract holds when the buffer is large enough; the invariant carries that condition.\<close>

interpretation recv_bytes: frame_handler l "recv_bytes_frame l out_cap" "stream_frame conn0 (ack conn0) data"
    "\<lambda>c. out_cap \<le> length out0 \<and> bytes_inv conn0 out0 out_cap data c" "\<lambda>c. out_cap - snd (snd c)" "\<lambda>_ c. bytes_post conn0 out0 out_cap data c"
  for l :: "'l link" and out_cap conn0 data out0
proof
  fix s :: "'l net" and n :: nat and c :: rx_state and deadline :: u64
  assume a: "timer_monotone l" "wait_inv l s" "n \<le> 1500" "stream_frame conn0 (ack conn0) data n s" "out_cap \<le> length out0 \<and> bytes_inv conn0 out0 out_cap data c"
  obtain conn out used where c: "c = (conn, out, used)" by (cases c) auto
  have sp: "same_peer conn0 conn" and post: "bytes_post conn0 out0 out_cap data c" using a(5) by (simp_all add: bytes_inv_def bytes_post_def c)
  show "\<exists>v c' s'. recv_bytes_frame l out_cap deadline n c s = Some (v, c', s') \<and> wait_inv l s' \<and> (is_Done v \<longrightarrow> bytes_post conn0 out0 out_cap data c') \<and>
      (\<not> is_Done v \<longrightarrow> (out_cap \<le> length out0 \<and> bytes_inv conn0 out0 out_cap data c') \<and>
        (out_cap - snd (snd c') < out_cap - snd (snd c) \<or> (out_cap - snd (snd c') = out_cap - snd (snd c) \<and> goes_on l s s')))"
  proof (cases rule: frame_cases [OF a(2,3), case_names other segment])
    case other
    then show ?thesis using a(2,5) goes_on_refl by (auto simp: recv_bytes_frame_def)
  next
    case (segment f)
    show ?thesis
    proof (cases "from_peer conn0 f")
      case False
      then show ?thesis using a(2,5) goes_on_refl from_same_peer [OF sp] by (auto simp: recv_bytes_frame_def segment c)
    next
      case peer: True
      note ft = from_same_peer [OF sp, of f]
      show ?thesis
      proof (cases "seg_flags f AND TCP_RST = 0")
        case False
        then show ?thesis using peer ft post wait_inv_status [OF a(1,2)] by (auto simp: recv_bytes_frame_def segment c)
      next
        case True
        obtain stop dl c' s1 where d: "recv_bytes_data l out_cap deadline f c s = Some (stop, dl, c', s1)" "wait_inv l s1"
          "stop \<Longrightarrow> bytes_post conn0 out0 out_cap data c'" "\<not> stop \<Longrightarrow> bytes_inv conn0 out0 out_cap data c' \<and>
            (out_cap - snd (snd c') < out_cap - snd (snd c) \<or> (out_cap - snd (snd c') = out_cap - snd (snd c) \<and> goes_on l s s1))"
          using recv_bytes_data_step [OF a(1,2) conjunct1 [OF a(5)] conjunct2 [OF a(5)] a(4) segment peer, of deadline] by blast
        obtain conn' out' used' where c': "c' = (conn', out', used')" by (cases c') auto
        have p2: "bytes_post conn0 out0 out_cap data (conn'\<lparr>ack := ack conn' + 1\<rparr>, out', used')" if "\<not> stop"
          using d(4) [OF that] by (simp add: bytes_inv_def bytes_post_def c' same_peer_def)
        show ?thesis using True peer ft d p2 a(5) wait_inv_ack [OF a(1) d(2)] c'
          by (cases stop) (auto simp: recv_bytes_frame_def segment c Let_def)
      qed
    qed
  qed
qed

section \<open>Receiving text\<close>

text \<open>The buffer holds the first bytes of the stream and a NUL, and behind it what it held before.\<close>

definition text_stored :: "bytes \<Rightarrow> bytes \<Rightarrow> nat \<Rightarrow> nat \<Rightarrow> bytes \<Rightarrow> nat \<Rightarrow> bool" where
  "text_stored out0 data out_cap k out used \<longleftrightarrow> k \<le> length data \<and> used = min k (out_cap - 1) \<and> out = take used data @ 0 # drop (used + 1) out0"

definition text_inv :: "tcp_conn_t \<Rightarrow> bytes \<Rightarrow> nat \<Rightarrow> bytes \<Rightarrow> rx_state \<Rightarrow> bool" where
  "text_inv conn0 out0 out_cap data c \<longleftrightarrow> (case c of (conn, out, used) \<Rightarrow>
     same_peer conn0 conn \<and> (\<exists>k. text_stored out0 data out_cap k out used \<and> ack conn = ack conn0 + of_nat k))"

definition text_post :: "bytes \<Rightarrow> nat \<Rightarrow> bytes \<Rightarrow> rx_state \<Rightarrow> bool" where
  "text_post out0 out_cap data c \<longleftrightarrow> (\<exists>k. text_stored out0 data out_cap k (fst (snd c)) (snd (snd c)))"

lemma text_inv_post: "text_inv conn0 out0 out_cap data (conn, out, used) \<Longrightarrow> text_post out0 out_cap data (conn', out, used)"
  by (auto simp: text_inv_def text_post_def)

lemma store_text:
  assumes "text_stored out0 data out_cap k out used" "0 < out_cap" "out_cap \<le> length out0" "k + n \<le> length data"
    "copy = (if used + n \<ge> out_cap then out_cap - used - 1 else n)" "copy > 0" "used = k"
  defines "out' \<equiv> take (used + copy) data @ 0 # drop (used + copy + 1) out0"
  shows "Option.bind (store_at used (slice used copy data) out) (store_at (used + copy) [0]) = Some out'"
    "text_stored out0 data out_cap (k + n) out' (used + copy)"
proof -
  have le: "used + copy < out_cap" "used + copy \<le> length data" using assms(1-6) by (auto simp: text_stored_def split: if_splits)
  have out: "out = take used data @ 0 # drop (used + 1) out0" using assms(1) by (simp add: text_stored_def)
  have lt: "length (take used data) = used" "length (slice used copy data) = copy" using le(2) by simp_all
  have lo: "length out = length out0" using lt(1) le(1) assms(3) by (simp add: out)
  have d: "drop (used + j) out = drop (used + j) out0" if pos: "0 < j" for j
  proof -
    obtain i where j: "j = Suc i" using pos by (cases j) auto
    have "drop (used + j) out = drop j (0 # drop (used + 1) out0)" using lt(1) unfolding out by simp
    then show ?thesis by (simp add: j add.commute)
  qed
  define out1 where "out1 = take (used + copy) data @ drop (used + copy) out0"
  have "take used data @ slice used copy data = take (used + copy) data" by (simp add: slice_def take_add)
  then have b1: "blit used (slice used copy data) out = out1" using lt d [OF assms(6)] unfolding blit_def out1_def
    by (simp add: out)
  have l1: "length (take (used + copy) data) = used + copy" using le(2) by simp
  have "store_at used (slice used copy data) out = Some out1" using lt(2) lo le(1) assms(3) b1 by (simp add: store_at_def)
  moreover have "store_at (used + copy) [0] out1 = Some out'"
    using l1 le(1) assms(3) by (simp add: store_at_def out1_def out'_def blit_def)
  ultimately show "Option.bind (store_at used (slice used copy data) out) (store_at (used + copy) [0]) = Some out'" by simp
  show "text_stored out0 data out_cap (k + n) out' (used + copy)"
    using assms(4,5,7) le(1) by (auto simp: text_stored_def out'_def split: if_splits)
qed

lemma recv_all_data_step:
  assumes "timer_monotone l" "wait_inv l s" "0 < out_cap" "out_cap \<le> length out0" "length data < 2 ^ 32" "text_inv conn0 out0 out_cap data c"
    "stream_frame conn0 (ack conn0) data n s" "parse_ipv4_tcp (frame_buf s) n = Some (Some f)" "from_peer conn0 f"
  shows "\<exists>deadline' c' s'. recv_all_data l out_cap deadline f c s = Some (deadline', c', s') \<and> wait_inv l s' \<and> text_inv conn0 out0 out_cap data c' \<and>
    (length data - unat (ack (fst c') - ack conn0) < length data - unat (ack (fst c) - ack conn0) \<or>
     (length data - unat (ack (fst c') - ack conn0) = length data - unat (ack (fst c) - ack conn0) \<and> goes_on l s s'))"
proof -
  obtain conn out used where c: "c = (conn, out, used)" by (cases c) auto
  obtain k where inv: "same_peer conn0 conn" "text_stored out0 data out_cap k out used" "ack conn = ack conn0 + of_nat k"
    using assms(6) by (auto simp: text_inv_def c)
  show ?thesis
  proof (cases "seg_len f > 0 \<and> seg_seq f = ack conn")
    case False
    then have "recv_all_data l out_cap deadline f c s = Some (deadline, c, if seg_len f = 0 then s else send_ack l conn s)"
      by (cases "seg_len f = 0") (simp_all add: recv_all_data_def c)
    moreover have "wait_inv l (if seg_len f = 0 then s else send_ack l conn s)" "goes_on l s (if seg_len f = 0 then s else send_ack l conn s)"
      using assms(2) wait_inv_ack [OF assms(1,2)] goes_on_ack [OF assms(1), of s] goes_on_refl [of l s] by simp_all
    ultimately show ?thesis using assms(6) by blast
  next
    case True
    have kd: "k \<le> length data" "used = min k (out_cap - 1)" using inv(2) by (simp_all add: text_stored_def)
    have d: "k + seg_len f \<le> length data" "slice (seg_off f) (seg_len f) (frame_buf s) = slice k (seg_len f) data"
      using assms(7)[unfolded stream_frame_def, rule_format, of f k] assms(8,9) True inv(3) kd(1) by simp_all
    define copy where "copy = (if out_cap > 0 \<and> used + seg_len f \<ge> out_cap then out_cap - used - 1 else seg_len f)"
    define conn' where "conn' = conn\<lparr>ack := ack conn + of_nat (seg_len f)\<rparr>"
    obtain dl s2 where dl: "deadline_from_ms l (send_ack l conn' s) 1500 = (dl, s2)" by fastforce
    have w2: "wait_inv l s2" using wait_inv_deadline [OF wait_inv_ack [OF assms(1,2)], of conn' 1500] dl by simp
    have sp: "same_peer conn0 conn'" using inv(1) by (simp add: conn'_def same_peer_def)
    have ak: "ack conn' = ack conn0 + of_nat (k + seg_len f)" using inv(3) by (simp add: conn'_def)
    have u: "unat (of_nat j :: u32) = j" if "j \<le> length data" for j using that assms(5) by (simp add: unsigned_of_nat take_bit_nat_eq_self)
    have "ack conn' - ack conn0 = of_nat (k + seg_len f)" "ack conn - ack conn0 = of_nat k" by (simp_all add: ak inv(3) del: of_nat_add)
    then have m: "length data - unat (ack conn' - ack conn0) < length data - unat (ack conn - ack conn0)"
      using u [OF d(1)] u [OF kd(1)] d(1) True by (simp add: diff_less_mono2 del: of_nat_add)
    have "\<exists>out'. (if copy > 0 then Option.bind (store_at used (slice (seg_off f) copy (frame_buf s)) out)
          (\<lambda>out. Option.bind (store_at (used + copy) [0] out) (\<lambda>out. Some (out, used + copy))) else Some (out, used)) = Some (out', used + copy) \<and>
        text_stored out0 data out_cap (k + seg_len f) out' (used + copy)"
    proof (cases "copy > 0")
      case pos: True
      have uk: "used = k" using pos kd assms(3) by (auto simp: copy_def split: if_splits)
      have cp: "copy = (if used + seg_len f \<ge> out_cap then out_cap - used - 1 else seg_len f)" using assms(3) by (simp add: copy_def)
      have "copy \<le> seg_len f" by (auto simp: copy_def)
      then have sl: "slice (seg_off f) copy (frame_buf s) = slice used copy data" unfolding uk by (rule slice_shorter [OF d(2)])
      note st = store_text [OF inv(2) assms(3,4) d(1) cp pos uk]
      obtain o1 where o1: "store_at used (slice used copy data) out = Some o1" using st(1) by (auto simp: bind_eq_Some_conv)
      then show ?thesis using st pos by (simp add: sl)
    next
      case False
      then have "used = out_cap - 1" "copy = 0" using kd(2) True assms(3) by (auto simp: copy_def split: if_splits)
      then show ?thesis using inv(2) d(1) kd by (auto simp: text_stored_def)
    qed
    then obtain out' where o: "(if copy > 0 then Option.bind (store_at used (slice (seg_off f) copy (frame_buf s)) out)
          (\<lambda>out. Option.bind (store_at (used + copy) [0] out) (\<lambda>out. Some (out, used + copy))) else Some (out, used)) = Some (out', used + copy)"
      and ts: "text_stored out0 data out_cap (k + seg_len f) out' (used + copy)" by blast
    have eq: "recv_all_data l out_cap deadline f c s = Some (dl, (conn', out', used + copy), s2)"
      unfolding recv_all_data_def c prod.case Let_def copy_def [symmetric] conn'_def [symmetric] using True o dl by (simp only: if_True if_False) simp
    have "text_inv conn0 out0 out_cap data (conn', out', used + copy)" using sp ts ak unfolding text_inv_def by auto
    then show ?thesis using eq w2 m by (auto simp: c)
  qed
qed

interpretation recv_all: frame_handler l "recv_all_frame l out_cap" "stream_frame conn0 (ack conn0) data"
    "\<lambda>c. 0 < out_cap \<and> out_cap \<le> length out0 \<and> length data < 2 ^ 32 \<and> text_inv conn0 out0 out_cap data c" "\<lambda>c. length data - unat (ack (fst c) - ack conn0)"
    "\<lambda>(rc, len) c. text_post out0 out_cap data c \<and> (rc = -1 \<and> len = None \<or> rc = 0 \<and> len = Some (snd (snd c)))"
  for l :: "'l link" and out_cap conn0 data out0
proof
  fix s :: "'l net" and n :: nat and c :: rx_state and deadline :: u64
  assume a: "timer_monotone l" "wait_inv l s" "n \<le> 1500" "stream_frame conn0 (ack conn0) data n s"
    "0 < out_cap \<and> out_cap \<le> length out0 \<and> length data < 2 ^ 32 \<and> text_inv conn0 out0 out_cap data c"
  let ?m = "\<lambda>c. length data - unat (ack (fst c) - ack conn0)"
  let ?Q = "\<lambda>(rc :: int, len) c. text_post out0 out_cap data c \<and> (rc = -1 \<and> len = None \<or> rc = 0 \<and> len = Some (snd (snd c)))"
  obtain conn out used where c: "c = (conn, out, used)" by (cases c) auto
  have sp: "same_peer conn0 conn" and post: "text_post out0 out_cap data c" using a(5) text_inv_post [of conn0 out0 out_cap data conn out used conn] by (auto simp: text_inv_def c)
  show "\<exists>v c' s'. recv_all_frame l out_cap deadline n c s = Some (v, c', s') \<and> wait_inv l s' \<and> (is_Done v \<longrightarrow> ?Q (result v) c') \<and>
      (\<not> is_Done v \<longrightarrow> (0 < out_cap \<and> out_cap \<le> length out0 \<and> length data < 2 ^ 32 \<and> text_inv conn0 out0 out_cap data c') \<and>
        (?m c' < ?m c \<or> (?m c' = ?m c \<and> goes_on l s s')))"
  proof (cases rule: frame_cases [OF a(2,3), case_names other segment])
    case other
    then show ?thesis using a(2,5) goes_on_refl by (auto simp: recv_all_frame_def)
  next
    case (segment f)
    show ?thesis
    proof (cases "from_peer conn0 f")
      case False
      then show ?thesis using a(2,5) goes_on_refl from_same_peer [OF sp] by (auto simp: recv_all_frame_def segment c)
    next
      case peer: True
      note ft = from_same_peer [OF sp, of f]
      show ?thesis
      proof (cases "seg_flags f AND TCP_RST = 0")
        case False
        then show ?thesis using peer ft post wait_inv_status [OF a(1,2)] by (auto simp: recv_all_frame_def segment c)
      next
        case True
        obtain dl c' s1 where d: "recv_all_data l out_cap deadline f c s = Some (dl, c', s1)" "wait_inv l s1" "text_inv conn0 out0 out_cap data c'"
            "?m c' < ?m c \<or> (?m c' = ?m c \<and> goes_on l s s1)"
          using recv_all_data_step [OF a(1,2) _ _ _ _ a(4) segment peer, of out_cap out0 c deadline] a(5) by blast
        obtain conn' out' used' where c': "c' = (conn', out', used')" by (cases c') auto
        have p2: "text_post out0 out_cap data (conn'\<lparr>ack := ack conn' + 1\<rparr>, out', used')" using text_inv_post d(3) c' by blast
        show ?thesis using True peer ft d p2 a(5) wait_inv_status [OF a(1) wait_inv_ack [OF a(1) d(2)]] c'
          by (cases "seg_flags f AND TCP_FIN = 0") (simp_all add: recv_all_frame_def segment c Let_def)
      qed
    qed
  qed
qed

section \<open>Configuration returns\<close>

lemma frame_buf_log [simp]:
  "frame_buf (set_status l t s) = frame_buf s" "frame_buf (network_log l t s) = frame_buf s" "frame_buf (dhcp_say l t s) = frame_buf s"
  "ipv4_ready (stack_status (set_status l t s)) = ipv4_ready (stack_status s)" "stack_status (network_log l t s) = stack_status s"
  "ipv4_ready (stack_status (dhcp_say l t s)) = ipv4_ready (stack_status s)"
  by (simp_all add: set_status_def network_log_def dhcp_say_def)

lemma frame_buf_send [simp]: "frame_buf (snd (l2_send_ethernet l s m ty p)) = frame_buf s"
  by (simp add: l2_send_ethernet_def split: prod.splits)

lemma frame_buf_send_raw [simp]:
  "frame_buf (snd (send_ipv4_raw l s m si di pr p)) = frame_buf s" "frame_buf (snd (send_udp_raw l s m si di sp dp p)) = frame_buf s"
  "frame_buf (snd (send_tcp l s conn flags data)) = frame_buf s" "frame_buf (snd (dhcp_send l s t xid ip sid)) = frame_buf s"
  by (simp_all add: send_ipv4_raw_def send_udp_raw_def send_tcp_def dhcp_send_def Let_def split: prod.splits)

lemma frame_buf_sent:
  "send_ipv4_raw l s m si di pr p = (rc, s') \<Longrightarrow> frame_buf s' = frame_buf s" "send_tcp l s conn flags data = (rc, s') \<Longrightarrow> frame_buf s' = frame_buf s"
  "dhcp_send l s t xid ip sid = (rc, s') \<Longrightarrow> frame_buf s' = frame_buf s"
  using frame_buf_send_raw(1) [of l s m si di pr p] frame_buf_send_raw(3) [of l s conn flags data] frame_buf_send_raw(4) [of l s t xid ip sid] by simp_all

lemma send_udp_returns:
  assumes "timer_monotone l" "link_ok l" "length (frame_buf s) = 1500"
  shows "\<exists>rc s'. send_udp l s dst_ip src_port dst_port payload = Some (rc, s') \<and> length (frame_buf s') = 1500"
proof -
  define hop where "hop = (if same_subnet s (st_ip (stack_status s)) dst_ip then dst_ip else st_gateway (stack_status s))"
  obtain r s1 where r: "arp_resolve l s hop = Some (r, s1)" "length (frame_buf s1) = 1500" using arp_resolve_returns [OF assms] by blast
  have "\<exists>rc s'. Some (send_udp_raw l s1 mac ip di sp dp p) = Some (rc, s') \<and> length (frame_buf s') = 1500" for mac ip di sp dp p
    using r(2) by (metis frame_buf_send_raw(2) prod.collapse)
  then show ?thesis using r assms(3) by (auto simp: send_udp_def hop_def [symmetric] Let_def split: option.splits)
qed

lemma dhcp_request_returns:
  assumes "timer_monotone l" "link_ok l" "length (frame_buf s) = 1500"
  shows "\<exists>rc s'. dhcp_request l s xid ip v = Some (rc, s') \<and> length (frame_buf s') = 1500 \<and> (rc = 0 \<longrightarrow> ipv4_ready (stack_status s'))"
proof -
  obtain rc s1 where d: "dhcp_send l (dhcp_say l ''ipv4: dhcp request'' s) 3 xid ip (dhcp_server_id v) = (rc, s1)" by fastforce
  have l1: "length (frame_buf s1) = 1500" using assms(3) frame_buf_sent(3) [OF d] by simp
  obtain r v' s2 where w: "wait_dhcp l s1 xid 5 v = Some (r, v', s2)" "length (frame_buf s2) = 1500" using wait_dhcp_returns [OF assms(1,2) l1] by blast
  show ?thesis using l1 w by (cases r) (simp_all add: dhcp_request_def d Let_def)
qed

lemma configure_dhcp_returns:
  assumes "timer_monotone l" "link_ok l" "length (frame_buf s) = 1500"
  shows "\<exists>rc s'. netstack_configure_ipv4_dhcp l s = Some (rc, s') \<and> length (frame_buf s') = 1500 \<and> (rc = 0 \<longrightarrow> ipv4_ready (stack_status s'))"
proof -
  define xid :: u32 where "xid = 0x4f5a0000 XOR ucast (now l s)"
  define v where "v = \<lparr>dhcp_msg_type = 0, dhcp_server_id = 0, dhcp_subnet = 0, dhcp_router = 0, dhcp_dns = 0\<rparr>"
  obtain rc s1 where d: "dhcp_send l (dhcp_say l ''ipv4: dhcp discover'' s) 1 xid 0 0 = (rc, s1)" by fastforce
  have l1: "length (frame_buf s1) = 1500" using assms(3) frame_buf_sent(3) [OF d] by simp
  obtain r v' s2 where w: "wait_dhcp l s1 xid 2 v = Some (r, v', s2)" "length (frame_buf s2) = 1500" using wait_dhcp_returns [OF assms(1,2) l1] by blast
  show ?thesis using l1 w assms(3) dhcp_request_returns [OF assms(1,2) w(2), of xid "the r" v']
    by (auto simp: netstack_configure_ipv4_dhcp_def xid_def [symmetric] v_def [symmetric] d Let_def)
qed

lemma configure_returns:
  assumes "timer_monotone l" "link_ok l" "length (frame_buf s) = 1500"
  shows "\<exists>rc s'. netstack_configure_ipv4 l s = Some (rc, s') \<and> length (frame_buf s') = 1500 \<and> (rc = 0 \<longrightarrow> ipv4_ready (stack_status s'))"
proof -
  obtain rc s1 where d: "netstack_configure_ipv4_dhcp l s = Some (rc, s1)" "length (frame_buf s1) = 1500" "rc = 0 \<longrightarrow> ipv4_ready (stack_status s1)"
    using configure_dhcp_returns [OF assms] by blast
  obtain rc2 s2 where st: "netstack_configure_static_from_vfs l (network_log l ''network: DHCP failed, trying static config'' s1) = (rc2, s2)" by fastforce
  have "length (frame_buf s2) = 1500" "rc2 = 0 \<longrightarrow> ipv4_ready (stack_status s2)"
    using st d(2) by (auto simp: netstack_configure_static_from_vfs_def netstack_configure_ipv4_static_def Let_def split: sum.splits if_splits)
  then show ?thesis using d assms(3) st by (auto simp: netstack_configure_ipv4_def)
qed

lemma trivial_sees: "frame_handler.sees l (\<lambda>_ _. True)" if "frame_handler l h (\<lambda>_ _. True) I m Q"
  using frame_handler.sees_def [OF that] by simp

lemma wait_from_deadline: "deadline_from_ms l s ms = (dl, s1) \<Longrightarrow> length (frame_buf s) = 1500 \<Longrightarrow> wait_inv l s1"
  using deadline_inv [of s l ms] by simp

lemma ping_returns:
  assumes "timer_monotone l" "link_ok l" "length (frame_buf s) = 1500"
  shows "netstack_ping l s target_ip \<noteq> None"
proof (cases "target_ip = 0")
  case False
  obtain rc s1 where c: "netstack_configure_ipv4 l s = Some (rc, s1)" "length (frame_buf s1) = 1500" using configure_returns [OF assms] by blast
  define hop where "hop = (if same_subnet s1 (st_ip (stack_status s1)) target_ip then target_ip else st_gateway (stack_status s1))"
  obtain m s2 where a: "(if hop = 0 then Some (None, s1) else arp_resolve l s1 hop) = Some (m, s2)" "length (frame_buf s2) = 1500"
    using arp_resolve_returns [OF assms(1,2) c(2), of hop] c(2) by (cases "hop = 0") auto
  show ?thesis
  proof (cases m)
    case None
    then show ?thesis using False c a by (simp add: netstack_ping_def hop_def [symmetric] Let_def del: not_None_eq)
  next
    case (Some mac)
    define ident where "ident = icmp_ident s2 + 1"
    define sq :: u16 where "sq = ucast (now l s2 AND 0xffff)"
    define s3 where "s3 = set_status l ''icmp: echo request'' (s2\<lparr>icmp_ident := ident\<rparr>)"
    obtain rc4 s4 where f: "send_ipv4_raw l s3 mac (st_ip (stack_status s3)) target_ip IP_PROTO_ICMP (echo_request ident sq) = (rc4, s4)" by fastforce
    have "length (frame_buf s4) = 1500" using frame_buf_sent(1) [OF f] a(2)
      by (simp add: s3_def)
    moreover obtain dl s5 where dl: "deadline_from_ms l s4 2000 = (dl, s5)" by fastforce
    ultimately have w: "wait_inv l s5" using wait_from_deadline by blast
    obtain r u s6 where "wait_loop l (ping_frame l target_ip ident sq (now l s4)) dl () s5 = Some (r, u, s6)"
      using ping.loop_returns [OF assms(1,2) _ w, where target_ip = target_ip and ident = ident and sq = sq and start = "now l s4" and c = "()" and deadline = dl] by (auto simp: ping.sees_def)
    then show ?thesis using False c a Some f dl
      by (simp add: netstack_ping_def hop_def [symmetric] Let_def ident_def [symmetric] sq_def [symmetric] s3_def [symmetric] del: not_None_eq split: option.splits)
  qed
qed (simp add: netstack_ping_def)

lemma resolve_returns:
  assumes "timer_monotone l" "link_ok l" "length (frame_buf s) = 1500" "dns_query (dns_ident s + 1) host \<noteq> None"
  shows "netstack_resolve_a l s host \<noteq> None"
proof -
  define ident where "ident = dns_ident s + 1"
  define lport :: u16 where "lport = 41000 + (ident AND 0x0fff)"
  have "length (frame_buf (s\<lparr>dns_ident := ident\<rparr>)) = 1500" using assms(3) by simp
  then obtain rc s1 where c: "netstack_configure_ipv4 l (s\<lparr>dns_ident := ident\<rparr>) = Some (rc, s1)" "length (frame_buf s1) = 1500"
    using configure_returns [OF assms(1,2)] by blast
  obtain x where q0: "dns_query ident host = Some x" using assms(4) by (auto simp: ident_def)
  note unf = netstack_resolve_a_def ident_def [symmetric] lport_def [symmetric] Let_def c(1)
  show ?thesis
  proof (cases "rc = 0 \<and> x \<noteq> None")
    case False
    then show ?thesis using q0 by (auto simp: unf simp del: not_None_eq)
  next
    case True
    then obtain q off where q: "dns_query ident host = Some (Some (q, off))" using q0 by auto
    define s2 where "s2 = set_status l ''dns: resolving host'' s1"
    have "length (frame_buf s2) = 1500" using c(2) by (simp add: s2_def)
    then obtain rc3 s3 where u: "send_udp l s2 (st_dns (stack_status s2)) lport DNS_PORT (take off q) = Some (rc3, s3)" "length (frame_buf s3) = 1500"
      using send_udp_returns [OF assms(1,2)] by blast
    obtain dl s4 where dl: "deadline_from_ms l s3 5000 = (dl, s4)" by fastforce
    have w: "wait_inv l s4" by (rule wait_from_deadline [OF dl u(2)])
    obtain r x s5 where "wait_loop l (dns_frame l host ident lport) dl () s4 = Some (r, x, s5)"
      using dns.loop_returns [OF assms(1,2) _ w, where host = host and ident = ident and lport = lport and c = "()" and deadline = dl] by (auto simp: dns.sees_def)
    then show ?thesis using True q u(1) dl
      by (simp add: unf s2_def [symmetric] del: not_None_eq split: option.splits)
  qed
qed

text \<open>The store past the end of the query is reached on every configured stack.\<close>

lemma resolve_overruns:
  assumes "ipv4_ready (stack_status s)" "dns_query (dns_ident s + 1) host = None"
  shows "netstack_resolve_a l s host = None"
  using assms by (simp add: netstack_resolve_a_def netstack_configure_ipv4_def Let_def)

section \<open>Connecting\<close>

lemma stack_status_say [simp]: "link_dev (snd (take_port s)) = link_dev s" "frame_buf (snd (take_port s)) = frame_buf s"
  by (simp_all add: take_port_def Let_def)

lemma connect_result:
  assumes "timer_monotone l" "link_ok l" "length (frame_buf s) = 1500" "ipv4_ready (stack_status s)"
  shows "\<exists>rc conn s'. tcp_connect l s ip port = Some (rc, conn, s') \<and> remote_ip conn = ip \<and> remote_port conn = port \<and> local_port conn = tcp_next_port s \<and>
    (rc = -1 \<or> (rc = 0 \<and> (\<exists>f. received_segment l f \<and> from_peer conn f \<and> seg_flags f AND TCP_RST = 0 \<and>
      seg_flags f AND (TCP_SYN OR TCP_ACK) = TCP_SYN OR TCP_ACK \<and> seg_ack f = (0x4f5a1000 XOR ucast (now l s)) + 1 \<and>
      seq conn = seg_ack f \<and> ack conn = seg_seq f + 1)))"
proof -
  define hop where "hop = (if same_subnet s (st_ip (stack_status s)) ip then ip else st_gateway (stack_status s))"
  obtain lport s1 where t: "take_port s = (lport, s1)" by fastforce
  have t1: "lport = tcp_next_port s" "link_dev s1 = link_dev s" "length (frame_buf s1) = 1500"
    using t assms(3) stack_status_say [of s] by (auto simp: take_port_def Let_def)
  define c0 where "c0 = conn_zero\<lparr>remote_ip := ip, remote_port := port, local_port := lport, seq := 0x4f5a1000 XOR ucast (now l s1)\<rparr>"
  note unf = tcp_connect_def hop_def [symmetric] t Let_def c0_def [symmetric] assms(4)
  have c0: "remote_ip c0 = ip" "remote_port c0 = port" "local_port c0 = tcp_next_port s" "seq c0 = 0x4f5a1000 XOR ucast (now l s)"
    by (simp_all add: c0_def t1)
  show ?thesis
  proof (cases "hop = 0")
    case True
    then show ?thesis using c0 by (simp add: unf)
  next
    case False
    obtain m s2 where a: "arp_resolve l s1 hop = Some (m, s2)" "length (frame_buf s2) = 1500" using arp_resolve_returns [OF assms(1,2) t1(3)] by blast
    show ?thesis
    proof (cases m)
      case None
      then show ?thesis using False a c0 by (simp add: unf)
    next
      case (Some mac)
      define c1 where "c1 = c0\<lparr>remote_mac := mac\<rparr>"
      have c1: "remote_ip c1 = ip" "remote_port c1 = port" "local_port c1 = tcp_next_port s" "seq c1 = 0x4f5a1000 XOR ucast (now l s)"
        using c0 by (simp_all add: c1_def)
      define s3 where "s3 = set_status l ''tcp: syn'' s2"
      obtain rc4 s4 where f: "send_tcp l s3 c1 TCP_SYN [] = (rc4, s4)" by fastforce
      have l4: "length (frame_buf s4) = 1500" using frame_buf_sent(2) [OF f] a(2) by (simp add: s3_def)
      obtain dl s5 where dl: "deadline_from_ms l s4 5000 = (dl, s5)" by fastforce
      have w: "wait_inv l s5" by (rule wait_from_deadline [OF dl l4])
      obtain r c2 s6 where r: "wait_loop l (connect_frame l ip port) dl c1 s5 = Some (r, c2, s6)" "case r of None \<Rightarrow> c2 = c1 | Some x \<Rightarrow> handshake l c1 x c2"
        using connect.loop_returns [OF assms(1,2) _ w, where ?c0.0 = c1 and c = c1 and deadline = dl] c1 by (auto simp: connect.sees_def)
      show ?thesis
      proof (cases "rc4 < 0")
        case True
        then show ?thesis using False a Some f c1 by (simp add: unf c1_def [symmetric] s3_def [symmetric])
      next
        case sent: False
        note eq = unf c1_def [symmetric] s3_def [symmetric]
        show ?thesis
        proof (cases r)
          case None
          then show ?thesis using False a Some f sent dl r c1 by (simp add: eq)
        next
          case fin: (Some x)
          then have h: "handshake l c1 x c2" using r(2) by simp
          have "tcp_connect l s ip port = Some (x, c2, s6)" using False a Some f sent dl r(1) fin by (simp add: eq)
          moreover have "remote_ip c2 = ip \<and> remote_port c2 = port \<and> local_port c2 = tcp_next_port s" using h c1 by (auto simp: handshake_def)
          moreover have "x = -1 \<or> (x = 0 \<and> (\<exists>f. received_segment l f \<and> from_peer c2 f \<and> seg_flags f AND TCP_RST = 0 \<and>
              seg_flags f AND (TCP_SYN OR TCP_ACK) = TCP_SYN OR TCP_ACK \<and> seg_ack f = (0x4f5a1000 XOR ucast (now l s)) + 1 \<and>
              seq c2 = seg_ack f \<and> ack c2 = seg_seq f + 1))"
            using h c1 unfolding handshake_def from_peer_def by auto
          ultimately show ?thesis by blast
        qed
      qed
    qed
  qed
qed

section \<open>A wait that never ends\<close>

text \<open>The state after \<open>n\<close> rounds, if the loop is still running then.\<close>

fun wait_rounds :: "nat \<Rightarrow> 'l link \<Rightarrow> ('l, 'c, 'r) handler \<Rightarrow> u64 \<Rightarrow> 'c \<Rightarrow> 'l net \<Rightarrow> (u64 \<times> 'c \<times> 'l net) option" where
  "wait_rounds 0 l h deadline c s = Some (deadline, c, s)"
| "wait_rounds (Suc n) l h deadline c s = do {
     (ev, s) \<leftarrow> wait_step l deadline s;
     if ev = TimedOut then None
     else if is_Frame ev
     then do { (v, c, s) \<leftarrow> h deadline (frame_len ev) c s; if is_Done v then None else wait_rounds n l h (until v) c s }
     else wait_rounds n l h deadline c s }"

text \<open>A loop whose every round delivers a frame and goes on; the index of the invariant counts the rounds.\<close>

lemma wait_diverges:
  assumes step: "\<And>i d c s. J i d c s \<Longrightarrow> \<exists>n s1 d' c' s'. wait_step l d s = Some (Frame n, s1) \<and> h d n c s1 = Some (Continue d', c', s') \<and> J (Suc i) d' c' s'"
    and "J i d c s"
  shows "wait_loop l h d c s = None" "\<exists>d' c' s'. wait_rounds n l h d c s = Some (d', c', s') \<and> J (i + n) d' c' s'"
proof -
  have "l' = l \<longrightarrow> h' = h \<longrightarrow> (\<forall>i. \<not> J i d c s)" if "wait_loop l' h' d c s = Some y" for l' h' d c s y
    using that
  proof (rule wait_loop.raw_induct [rotated, where P = "\<lambda>l' h' d c s y. l' = l \<longrightarrow> h' = h \<longrightarrow> (\<forall>i. \<not> J i d c s)"])
    fix rec l' h' d c s y
    assume ih: "\<And>l' h' d c s y. rec l' h' d c s = Some y \<Longrightarrow> l' = l \<longrightarrow> h' = h \<longrightarrow> (\<forall>i. \<not> J i d c s)"
      and body: "Option.bind (wait_step l' d s) (\<lambda>(ev, s). if ev = TimedOut then Some (None, c, s) else if is_Frame ev
        then Option.bind (h' d (frame_len ev) c s) (\<lambda>(v, c, s). if is_Done v then Some (Some (result v), c, s) else rec l' h' (until v) c s)
        else rec l' h' d c s) = Some y"
    show "l' = l \<longrightarrow> h' = h \<longrightarrow> (\<forall>i. \<not> J i d c s)"
    proof (intro impI allI notI)
      fix i assume e: "l' = l" "h' = h" and j: "J i d c s"
      obtain n s1 d' c' s' where "wait_step l d s = Some (Frame n, s1)" "h d n c s1 = Some (Continue d', c', s')" "J (Suc i) d' c' s'" using step [OF j] by blast
      moreover from this have "rec l h d' c' s' = Some y" using body e by simp
      ultimately show False using ih by blast
    qed
  qed
  then show "wait_loop l h d c s = None" using assms(2) by (cases "wait_loop l h d c s") auto
  show "\<exists>d' c' s'. wait_rounds n l h d c s = Some (d', c', s') \<and> J (i + n) d' c' s'"
    using assms(2)
  proof (induction n arbitrary: i d c s)
    case (Suc n)
    obtain k s1 d' c' s' where w: "wait_step l d s = Some (Frame k, s1)" "h d k c s1 = Some (Continue d', c', s')" and j: "J (Suc i) d' c' s'"
      using step [OF Suc.prems] by blast
    show ?case using w Suc.IH [OF j] by simp
  qed simp
qed

text \<open>
  A peer whose every frame is the next byte of the stream. The device state is the next sequence number and the number of frames delivered, and
  every frame takes a tick of the timer, ten milliseconds, until the tick counter has come to \<open>2 ^ 63\<close>, after some three thousand million years,
  where it stops so that it never wraps to 0.
\<close>

definition endless_frame :: "tcp_conn_t \<Rightarrow> u32 \<Rightarrow> u32 \<Rightarrow> bytes" where
  "endless_frame conn ip sq =
    (let c = \<lparr>remote_ip = ip, remote_port = local_port conn, local_port = remote_port conn, seq = sq, ack = 0, remote_mac = replicate 6 0\<rparr>;
         t = take 21 (tcp_segment (remote_ip conn) c 0x18 [65])
     in take 41 (ipv4_packet 77 (remote_ip conn) ip IP_PROTO_TCP t))"

definition endless_link :: "tcp_conn_t \<Rightarrow> u32 \<Rightarrow> (u32 \<times> nat) link" where
  "endless_link conn ip = \<lparr>net_link_up = (\<lambda>_. True), net_mac = (\<lambda>_. replicate 6 2), net_send_ethernet = (\<lambda>d _ _ _. (0, d)),
    net_recv_ethernet = (\<lambda>d cap. if 41 \<le> cap then ((41, replicate 6 3, ETH_TYPE_IPV4, endless_frame conn ip (fst d)), (fst d + 1, snd d + 1)) else ((0, [], 0, []), d)),
    wifi_data_link_ready = (\<lambda>_. False), wifi_copy_local_mac = (\<lambda>_. None), wifi_send_ethernet = (\<lambda>d _ _ _. (-1, d)),
    wifi_recv_ethernet = (\<lambda>d _. ((-1, [], 0, []), d)), timer_ticks = (\<lambda>d. of_nat (min (snd d) (2 ^ 63))), short_wait = (\<lambda>d. d), log_line = (\<lambda>d _. d),
    config_file = (\<lambda>_. None)\<rparr>"

lemma endless_frame_parse:
  "length (endless_frame conn ip sq) = 41"
  "parse_ipv4_tcp (endless_frame conn ip sq) 41 = Some (Some \<lparr>seg_src_ip = remote_ip conn, seg_dst_ip = ip, seg_src_port = remote_port conn,
     seg_dst_port = local_port conn, seg_seq = sq, seg_ack = 0, seg_flags = 0x18, seg_off = 40, seg_len = 1\<rparr>)"
proof -
  define c where "c = \<lparr>remote_ip = ip, remote_port = local_port conn, local_port = remote_port conn, seq = sq, ack = 0, remote_mac = replicate 6 0\<rparr>"
  define t where "t = take 21 (tcp_segment (remote_ip conn) c 0x18 [65])"
  have h: "tcp_header_len 0x18 = 20" by (simp add: tcp_header_len_def TCP_SYN_def)
  have le: "tcp_header_len 0x18 + length [65 :: byte] \<le> 1480" using h by simp
  have lt: "length t = 21" using tcp_segment_fields(1) [OF le, where src_ip = "remote_ip conn" and conn = c] h by (simp add: t_def)
  have f: "endless_frame conn ip sq = take (20 + length t) (ipv4_packet 77 (remote_ip conn) (remote_ip c) IP_PROTO_TCP t)"
    unfolding lt by (simp add: endless_frame_def Let_def c_def t_def)
  show l: "length (endless_frame conn ip sq) = 41" using ipv4_packet_fields(1) [of t] lt by (simp add: f)
  note r = tcp_roundtrip [OF le, where src_ip = "remote_ip conn" and conn = c and ident = 77, unfolded h]
  have tt: "take (20 + length [65 :: byte]) (tcp_segment (remote_ip conn) c 0x18 [65]) = t" by (simp add: t_def)
  note r = r [unfolded tt, folded f]
  show "parse_ipv4_tcp (endless_frame conn ip sq) 41 = Some (Some \<lparr>seg_src_ip = remote_ip conn, seg_dst_ip = ip, seg_src_port = remote_port conn,
     seg_dst_port = local_port conn, seg_seq = sq, seg_ack = 0, seg_flags = 0x18, seg_off = 40, seg_len = 1\<rparr>)" using r(1) by (simp add: l c_def)
qed

lemma endless_frame_data: "slice 40 1 (endless_frame conn ip sq) = [65]"
proof -
  define c where "c = \<lparr>remote_ip = ip, remote_port = local_port conn, local_port = remote_port conn, seq = sq, ack = 0, remote_mac = replicate 6 0\<rparr>"
  define t where "t = take 21 (tcp_segment (remote_ip conn) c 0x18 [65])"
  have h: "tcp_header_len 0x18 = 20" by (simp add: tcp_header_len_def TCP_SYN_def)
  have le: "tcp_header_len 0x18 + length [65 :: byte] \<le> 1480" using h by simp
  have lt: "length t = 21" using tcp_segment_fields(1) [OF le, where src_ip = "remote_ip conn" and conn = c] h by (simp add: t_def)
  have f: "endless_frame conn ip sq = take (20 + length t) (ipv4_packet 77 (remote_ip conn) (remote_ip c) IP_PROTO_TCP t)"
    unfolding lt by (simp add: endless_frame_def Let_def c_def t_def)
  note r = tcp_roundtrip [OF le, where src_ip = "remote_ip conn" and conn = c and ident = 77, unfolded h]
  have tt: "take (20 + length [65 :: byte]) (tcp_segment (remote_ip conn) c 0x18 [65]) = t" by (simp add: t_def)
  show ?thesis using r(2) [unfolded tt, folded f] by simp
qed

text \<open>The clock of that link, as a number.\<close>

lemma clock_unat: "unat (of_nat (min t (2 ^ 63)) :: u64) = min t (2 ^ 63)"
proof -
  have "min t (2 ^ 63) < 2 ^ LENGTH(64)" by (rule le_less_trans [of _ "2 ^ 63"]) simp_all
  then show ?thesis by (simp only: unat_of_nat mod_less)
qed

lemma clock_mono: "t \<le> u \<Longrightarrow> (of_nat (min t (2 ^ 63)) :: u64) \<le> of_nat (min u (2 ^ 63))"
  unfolding word_le_nat_alt clock_unat by simp

lemma clock_deadline: "ticks \<le> 900 \<Longrightarrow> (of_nat (min t (2 ^ 63)) :: u64) \<le> of_nat (min t (2 ^ 63)) + ticks"
proof -
  assume a: "ticks \<le> 900"
  then have "unat ticks \<le> 900" by (simp add: word_le_nat_alt)
  then have "unat (of_nat (min t (2 ^ 63)) :: u64) + unat ticks < 2 ^ 64" unfolding clock_unat by simp
  then show ?thesis by (simp add: word_le_nat_alt unat_word_ariths(1))
qed

lemma endless_link_ok: "link_ok (endless_link conn ip)" "timer_monotone (endless_link conn ip)"
  using clock_mono by (auto simp: link_ok_def timer_monotone_def endless_link_def endless_frame_parse(1) split: if_splits)

lemma endless_timer: "timer_ticks (endless_link conn ip) d = of_nat (min (snd d) (2 ^ 63))"
  by (simp add: endless_link_def)

definition endless_inv :: "tcp_conn_t \<Rightarrow> u32 \<Rightarrow> nat \<Rightarrow> nat \<Rightarrow> u64 \<Rightarrow> rx_state \<Rightarrow> (u32 \<times> nat) net \<Rightarrow> bool" where
  "endless_inv conn0 ip out_cap t d c s \<longleftrightarrow> now (endless_link conn0 ip) s \<le> d \<and> length (frame_buf s) = 1500 \<and>
     net_deadline_last_tick s = now (endless_link conn0 ip) s \<and> net_deadline_fallback_used s < net_deadline_fallback_budget s \<and>
     (case c of (conn, out, used) \<Rightarrow> same_peer conn0 conn \<and> ack conn = ack conn0 + of_nat t \<and> link_dev s = (ack conn, t) \<and>
        used < out_cap \<and> out_cap \<le> length out)"

lemma endless_deadline:
  assumes "length (frame_buf s) = 1500" "link_dev s = (ack conn, t)" "same_peer conn0 conn" "ack conn = ack conn0 + of_nat t" "used < out_cap" "out_cap \<le> length out" "ms = 1500 \<or> ms = 9000"
    "deadline_from_ms (endless_link conn0 ip) s ms = (dl, s')"
  shows "endless_inv conn0 ip out_cap t dl (conn, out, used) s'"
  using assms clock_deadline [of 150 t] clock_deadline [of 900 t]
  by (auto simp: deadline_from_ms_def endless_inv_def endless_timer TIMER_HZ_def NETSTACK_FALLBACK_WAITS_PER_MS_def Let_def)

lemma endless_step:
  fixes ip :: u32
  assumes "endless_inv conn0 ip out_cap t d c s"
  defines "l \<equiv> endless_link conn0 ip"
  shows "\<exists>n s1 d' c' s'. wait_step l d s = Some (Frame n, s1) \<and> recv_all_frame l out_cap d n c s1 = Some (Continue d', c', s') \<and> endless_inv conn0 ip out_cap (Suc t) d' c' s'"
proof -
  obtain conn out used where c: "c = (conn, out, used)" by (cases c) auto
  have i: "now l s \<le> d" "length (frame_buf s) = 1500" "net_deadline_last_tick s = now l s" "net_deadline_fallback_used s < net_deadline_fallback_budget s"
    "same_peer conn0 conn" "link_dev s = (ack conn, t)" "used < out_cap" "out_cap \<le> length out" "ack conn = ack conn0 + of_nat t"
    using assms(1) unfolding endless_inv_def c prod.case l_def by blast+
  define B where "B = blit 0 (endless_frame conn0 ip (ack conn)) (frame_buf s)"
  define s1 where "s1 = s\<lparr>net_deadline_fallback_used := net_deadline_fallback_used s + 1, link_dev := (ack conn + 1, Suc t), frame_buf := B\<rparr>"
  have ty: "ETH_TYPE_IPV4 \<noteq> ETH_TYPE_ARP" by (simp add: ETH_TYPE_IPV4_def ETH_TYPE_ARP_def)
  have w: "wait_step l d s = Some (Frame 41, s1)"
  proof -
    have "before_deadline l s d = (True, s\<lparr>net_deadline_fallback_used := net_deadline_fallback_used s + 1\<rparr>)"
      using i(1,3,4) by (simp add: before_deadline_def not_less)
    then show ?thesis using i(6) ty
      by (simp add: wait_step_def l_def endless_link_def recv_frame_def l2_recv_ethernet_def NETSTACK_MTU_def B_def s1_def)
  qed
  have B: "take 41 B = endless_frame conn0 ip (ack conn)" "length B = 1500" using endless_frame_parse(1) i(2) by (simp_all add: B_def blit_def)
  define f where "f = \<lparr>seg_src_ip = remote_ip conn0, seg_dst_ip = ip, seg_src_port = remote_port conn0,
     seg_dst_port = local_port conn0, seg_seq = ack conn, seg_ack = 0, seg_flags = 0x18, seg_off = 40, seg_len = 1\<rparr>"
  have p: "parse_ipv4_tcp B 41 = Some (Some f)" using parse_tcp_safe(2) [of 41 B] B endless_frame_parse(2) by (simp add: f_def)
  have fl: "seg_len f = 1" "seg_len f \<noteq> 0" "seg_seq f = ack conn" "seg_off f = 40" by (simp_all add: f_def)
  define copy where "copy = (if out_cap > 0 \<and> used + seg_len f \<ge> out_cap then out_cap - used - 1 else seg_len f)"
  have "\<exists>out'. (if copy > 0 then Option.bind (store_at used (slice 40 copy B) out)
          (\<lambda>out. Option.bind (store_at (used + copy) [0] out) (\<lambda>out. Some (out, used + copy))) else Some (out, used)) = Some (out', used + copy) \<and>
        used + copy < out_cap \<and> out_cap \<le> length out'"
  proof (cases "copy > 0")
    case True
    then have cp: "copy = 1" "used + 1 < out_cap" using i(7) by (auto simp: copy_def fl(1) split: if_splits)
    have "length (slice 40 1 B) = 1" using B(2) by simp
    then show ?thesis using cp i(8) by (simp add: store_at_def)
  next
    case False
    then show ?thesis using i(7,8) by simp
  qed
  then obtain out' where o: "(if copy > 0 then Option.bind (store_at used (slice 40 copy B) out)
          (\<lambda>out. Option.bind (store_at (used + copy) [0] out) (\<lambda>out. Some (out, used + copy))) else Some (out, used)) = Some (out', used + copy)"
    "used + copy < out_cap" "out_cap \<le> length out'" by blast
  define conn' where "conn' = conn\<lparr>ack := ack conn + of_nat (seg_len f)\<rparr>"
  define s2 where "s2 = send_ack l conn' s1"
  have s2: "length (frame_buf s2) = 1500" "link_dev s2 = (ack conn', Suc t)"
    using B(2) fl(1) by (simp_all add: s2_def send_ack_def s1_def conn'_def send_tcp_def send_ipv4_raw_def l2_send_ethernet_def l_def endless_link_def Let_def)
  obtain dl s3 where dl: "deadline_from_ms l s2 1500 = (dl, s3)" by fastforce
  have "same_peer conn0 conn'" "ack conn' = ack conn0 + of_nat (Suc t)" using i(5,9) fl(1) by (simp_all add: conn'_def same_peer_def)
  then have inv: "endless_inv conn0 ip out_cap (Suc t) dl (conn', out', used + copy) s3"
    using s2 o(2,3) dl unfolding l_def by (intro endless_deadline) auto
  have fb: "frame_buf s1 = B" by (simp add: s1_def)
  have "recv_all_data l out_cap d f (conn, out, used) s1 = Some (dl, (conn', out', used + copy), s3)"
    unfolding recv_all_data_def prod.case Let_def copy_def [symmetric] conn'_def [symmetric] s2_def [symmetric]
    using fl(2-4) o(1) dl fb by (simp only: if_True if_False) simp
  moreover have "from_peer conn f" "seg_flags f AND TCP_RST = 0" "seg_flags f AND TCP_FIN = 0"
    using i(5) by (simp_all add: f_def from_peer_def same_peer_def TCP_RST_def TCP_FIN_def)
  ultimately have "recv_all_frame l out_cap d 41 c s1 = Some (Continue dl, (conn', out', used + copy), s3)"
    using p fb by (simp add: recv_all_frame_def c)
  with w inv show ?thesis by blast
qed

section \<open>Properties\<close>

definition peer_sends :: "'l link \<Rightarrow> tcp_conn_t \<Rightarrow> bytes \<Rightarrow> bool" where
  "peer_sends l conn data \<longleftrightarrow> (\<forall>deadline s n s'. wait_step l deadline s = Some (Frame n, s') \<longrightarrow> stream_frame conn (ack conn) data n s')"

text \<open>A peer that sends one byte, once.\<close>

definition once_link :: "tcp_conn_t \<Rightarrow> u32 \<Rightarrow> bool link" where
  "once_link conn ip = \<lparr>net_link_up = (\<lambda>_. True), net_mac = (\<lambda>_. replicate 6 2), net_send_ethernet = (\<lambda>d _ _ _. (0, d)),
    net_recv_ethernet = (\<lambda>d cap. if d \<and> 41 \<le> cap then ((41, replicate 6 3, ETH_TYPE_IPV4, endless_frame conn ip (ack conn)), False) else ((0, [], 0, []), d)),
    wifi_data_link_ready = (\<lambda>_. False), wifi_copy_local_mac = (\<lambda>_. None), wifi_send_ethernet = (\<lambda>d _ _ _. (-1, d)),
    wifi_recv_ethernet = (\<lambda>d _. ((-1, [], 0, []), d)), timer_ticks = (\<lambda>_. 7), short_wait = (\<lambda>d. d), log_line = (\<lambda>d _. d), config_file = (\<lambda>_. None)\<rparr>"

definition demo_state :: "'d \<Rightarrow> 'd net" where
  "demo_state d = \<lparr>stack_status = stack_status demo_net, ip_ident = 1, dns_ident = 1, tcp_next_port = 40000, icmp_ident = 1, arp_cached_ip = 0x0a000001,
     arp_cached_mac = replicate 6 1, frame_buf = replicate 1500 0, net_deadline_last_tick = 0, net_deadline_fallback_budget = 0, net_deadline_fallback_used = 0, link_dev = d\<rparr>"

lemma once_link_ok: "link_ok (once_link conn ip)" "timer_monotone (once_link conn ip)"
  by (auto simp: link_ok_def timer_monotone_def once_link_def endless_frame_parse(1) split: if_splits)

lemma once_sends: "peer_sends (once_link conn ip) conn [65]"
proof -
  have "stream_frame conn (ack conn) [65] n s'" if "wait_step (once_link conn ip) deadline s = Some (Frame n, s')" for deadline s n s'
  proof -
    define L where "L = once_link conn ip"
    have ops: "net_link_up L d" "net_recv_ethernet L d cap = (if d \<and> 41 \<le> cap then ((41, replicate 6 3, ETH_TYPE_IPV4, endless_frame conn ip (ack conn)), False)
        else ((0, [], 0, []), d))" for d cap by (simp_all add: L_def once_link_def)
    obtain b s1 where b: "before_deadline L s deadline = (b, s1)" by fastforce
    define B where "B = blit 0 (endless_frame conn ip (ack conn)) (frame_buf s1)"
    have n: "n = 41" "frame_buf s' = B"
      using that unfolding L_def [symmetric] by (auto simp: wait_step_def b recv_frame_def l2_recv_ethernet_def ops NETSTACK_MTU_def B_def handle_arp_def Let_def bind_eq_Some_conv
          split: if_splits prod.splits)
    have B: "take 41 B = endless_frame conn ip (ack conn)" "41 \<le> length B" using endless_frame_parse(1) by (simp_all add: B_def blit_def)
    have p: "parse_ipv4_tcp B 41 = Some (Some \<lparr>seg_src_ip = remote_ip conn, seg_dst_ip = ip, seg_src_port = remote_port conn,
     seg_dst_port = local_port conn, seg_seq = ack conn, seg_ack = 0, seg_flags = 0x18, seg_off = 40, seg_len = 1\<rparr>)"
      using parse_tcp_safe(2) [OF B(2)] B(1) endless_frame_parse(2) by simp
    have "slice 40 1 (take 41 B) = slice 40 1 B" by (simp add: slice_def drop_take)
    then have "slice 40 1 B = [65]" using endless_frame_data B(1) by metis
    then show ?thesis unfolding stream_frame_def n p by (auto simp: le_Suc_eq slice_def)
  qed
  then show ?thesis unfolding peer_sends_def by blast
qed

text \<open>C23: The TCP client hands over the peer's bytes in order. Let the peer send a stream from the number the connection expects, its segments lost,
  repeated or reordered in any way, among any other traffic. \<^verbatim>\<open>tcp_recv_bytes\<close> returns, even if the timer stands still; the bytes it stored are
  exactly the first bytes of that stream, no more than the capacity, and the rest of the buffer is untouched.\<close>

theorem tcp_recv_bytes_in_order:
  assumes "timer_monotone l" "link_ok l" "length (frame_buf s) = 1500" "out_cap \<le> length out0" "peer_sends l conn data"
  shows "\<exists>rc len conn' out s' used. tcp_recv_bytes l s conn out0 out_cap wait_ms = Some (rc, len, conn', out, s') \<and>
    used \<le> out_cap \<and> used \<le> length data \<and> length out = length out0 \<and> take used out = take used data \<and> drop used out = drop used out0 \<and>
    (len = None \<and> rc = -1 \<or> len = Some used \<and> rc = (if used > 0 then 0 else -1))"
proof -
  obtain dl s1 where d: "deadline_from_ms l s wait_ms = (dl, s1)" by fastforce
  have w: "wait_inv l s1" by (rule wait_from_deadline [OF d assms(3)])
  have i: "out_cap \<le> length out0 \<and> bytes_inv conn out0 out_cap data (conn, out0, 0)"
    using assms(4) by (simp add: bytes_inv_def same_peer_def stored_def)
  obtain r c s2 where r: "wait_loop l (recv_bytes_frame l out_cap) dl (conn, out0, 0) s1 = Some (r, c, s2)"
    "case r of None \<Rightarrow> out_cap \<le> length out0 \<and> bytes_inv conn out0 out_cap data c | Some x \<Rightarrow> bytes_post conn out0 out_cap data c"
    using recv_bytes.loop_returns [OF assms(1,2) _ w i, of dl] assms(5) by (auto simp: recv_bytes.sees_def peer_sends_def)
  obtain conn' out used where c: "c = (conn', out, used)" by (cases c) auto
  have "stored out0 data out_cap out used" using r(2) by (cases r) (simp_all add: c bytes_inv_def bytes_post_def)
  then show ?thesis using r(1) by (auto simp: tcp_recv_bytes_def d c stored_def Let_def)
qed

theorem tcp_recv_bytes_in_order_witness:
  "peer_sends (once_link demo_conn 0x0a000002) demo_conn [65] \<and>
   (\<exists>rc len conn' out s' used. tcp_recv_bytes (once_link demo_conn 0x0a000002) (demo_state True) demo_conn (replicate 8 0) 8 1000 = Some (rc, len, conn', out, s') \<and>
      used \<le> 1 \<and> take used out = take used [65])"
proof -
  have a: "length (frame_buf (demo_state True)) = 1500" "8 \<le> length (replicate 8 (0 :: byte))" by (simp_all add: demo_state_def)
  note t = tcp_recv_bytes_in_order [OF once_link_ok(2,1) a once_sends, where wait_ms = 1000]
  have "\<exists>rc len conn' out s' used. tcp_recv_bytes (once_link demo_conn 0x0a000002) (demo_state True) demo_conn (replicate 8 0) 8 1000 = Some (rc, len, conn', out, s') \<and>
      used \<le> 1 \<and> take used out = take used [65]" using t [of demo_conn "0x0a000002"] by fastforce
  then show ?thesis using once_sends by blast
qed

text \<open>The text a client receives is the longest prefix of the reply that fits. If the peer's stream is finite, \<^verbatim>\<open>tcp_recv_all\<close> returns without
  leaving its buffer, and the buffer then holds the first bytes of the stream, as many as fit with the NUL that always follows, and behind it what it
  held before; only a reset leaves the length unset.\<close>

theorem tcp_recv_all_text:
  assumes "timer_monotone l" "link_ok l" "length (frame_buf s) = 1500" "0 < out_cap" "out_cap \<le> length out0" "peer_sends l conn data" "length data < 2 ^ 32"
  shows "\<exists>rc len conn' out s' k. tcp_recv_all l s conn out0 out_cap = Some (rc, len, conn', out, s') \<and> k \<le> length data \<and>
    (let used = min k (out_cap - 1) in out = take used data @ 0 # drop (used + 1) out0 \<and>
      (len = None \<and> rc = -1 \<or> len = Some used \<and> (rc = 0 \<or> rc = -1 \<and> used = 0)))"
proof -
  obtain dl s1 where d: "deadline_from_ms l s 9000 = (dl, s1)" by fastforce
  have w: "wait_inv l s1" by (rule wait_from_deadline [OF d assms(3)])
  define out1 where "out1 = 0 # drop 1 out0"
  have st: "store_at 0 [0] out0 = Some out1" using assms(4,5) by (simp add: store_at_def blit_def out1_def)
  have "text_stored out0 data out_cap 0 out1 0" by (simp add: text_stored_def out1_def)
  then have i: "0 < out_cap \<and> out_cap \<le> length out0 \<and> length data < 2 ^ 32 \<and> text_inv conn out0 out_cap data (conn, out1, 0)"
    using assms(4,5,7) unfolding text_inv_def by (auto simp: same_peer_def)
  obtain r c s2 where r: "wait_loop l (recv_all_frame l out_cap) dl (conn, out1, 0) s1 = Some (r, c, s2)"
    "case r of None \<Rightarrow> text_inv conn out0 out_cap data c
     | Some (rc, len) \<Rightarrow> text_post out0 out_cap data c \<and> (rc = -1 \<and> len = None \<or> rc = 0 \<and> len = Some (snd (snd c)))"
    using recv_all.loop_returns [OF assms(1,2) _ w i, of dl] assms(6) by (auto simp: recv_all.sees_def peer_sends_def split: option.splits)
  obtain conn' out used where c: "c = (conn', out, used)" by (cases c) auto
  have "text_post out0 out_cap data c" using r(2) text_inv_post [of conn out0 out_cap data conn' out used conn'] by (auto simp: c split: option.splits prod.splits)
  then obtain k where k: "text_stored out0 data out_cap k out used" by (auto simp: text_post_def c)
  obtain rc len where "tcp_recv_all l s conn out0 out_cap = Some (rc, len, conn', out, s2)"
      "len = None \<and> rc = -1 \<or> len = Some used \<and> (rc = 0 \<or> rc = -1 \<and> used = 0)"
    using r assms(4) by (cases r) (auto simp: tcp_recv_all_def d st c Let_def split: prod.splits)
  then show ?thesis using k
    by (intro exI [of _ rc] exI [of _ len] exI [of _ conn'] exI [of _ out] exI [of _ s2] exI [of _ k]) (auto simp: text_stored_def Let_def)
qed

theorem tcp_recv_all_text_witness:
  "peer_sends (once_link demo_conn 0x0a000003) demo_conn [65] \<and>
   (\<exists>rc len conn' out s' k. tcp_recv_all (once_link demo_conn 0x0a000003) (demo_state True) demo_conn (replicate 8 1) 8 = Some (rc, len, conn', out, s') \<and>
      k \<le> 1 \<and> out = take k [65] @ 0 # replicate (7 - k) 1)"
proof -
  have a: "length (frame_buf (demo_state True)) = 1500" "0 < (8 :: nat)" "8 \<le> length (replicate 8 (1 :: byte))" by (simp_all add: demo_state_def)
  have d: "length [65 :: byte] < 2 ^ 32" by simp
  from tcp_recv_all_text [OF once_link_ok(2,1) a once_sends d, of demo_conn "0x0a000003"]
  obtain rc len conn' out s' k where t: "tcp_recv_all (once_link demo_conn 0x0a000003) (demo_state True) demo_conn (replicate 8 1) 8 = Some (rc, len, conn', out, s')"
    "k \<le> length [65 :: byte]" "out = take (min k (8 - 1)) [65] @ 0 # drop (min k (8 - 1) + 1) (replicate 8 1)" unfolding Let_def by blast
  then have "k \<le> 1" "min k (8 - 1) = k" by simp_all
  with t have "out = take k [65] @ 0 # replicate (7 - k) 1" by simp
  with t(1) \<open>k \<le> 1\<close> once_sends show ?thesis by blast
qed

text \<open>C24: A connection is a completed handshake. \<^verbatim>\<open>tcp_connect\<close> of a configured stack returns; the connection has the addresses and the next
  local port, and it reports success only if the stack received from that peer and port a segment with SYN and ACK and without RST that acknowledges the
  initial sequence number it chose, and then both sequence numbers are the ones of that segment.\<close>

theorem tcp_connect_handshake:
  assumes "timer_monotone l" "link_ok l" "length (frame_buf s) = 1500" "ipv4_ready (stack_status s)"
  shows "\<exists>rc conn s'. tcp_connect l s ip port = Some (rc, conn, s') \<and> remote_ip conn = ip \<and> remote_port conn = port \<and> local_port conn = tcp_next_port s \<and>
    (rc = -1 \<or> (rc = 0 \<and> (\<exists>f. received_segment l f \<and> from_peer conn f \<and> seg_flags f AND TCP_RST = 0 \<and>
      seg_flags f AND (TCP_SYN OR TCP_ACK) = TCP_SYN OR TCP_ACK \<and> seg_ack f = (0x4f5a1000 XOR ucast (now l s)) + 1 \<and>
      seq conn = seg_ack f \<and> ack conn = seg_seq f + 1)))"
  by (rule connect_result [OF assms])

theorem tcp_connect_handshake_witness:
  "ipv4_ready (stack_status (demo_state True)) \<and>
   (\<exists>rc conn s'. tcp_connect (once_link demo_conn 1) (demo_state True) 0x0a000001 80 = Some (rc, conn, s') \<and> remote_ip conn = 0x0a000001 \<and> local_port conn = 40000)"
proof -
  have a: "length (frame_buf (demo_state True)) = 1500" "ipv4_ready (stack_status (demo_state True))" "tcp_next_port (demo_state True) = 40000"
    by (simp_all add: demo_state_def demo_net_def)
  from tcp_connect_handshake [OF once_link_ok(2,1) a(1,2), of demo_conn 1 "0x0a000001" 80] a(2,3) show ?thesis by metis
qed

text \<open>C26: Configuring and pinging return on every network, and resolving returns for every host but those that overrun its query. Whatever
  arrives, and even if the timer stands still, these calls end and stay inside every packet and buffer; a configuration that reports success leaves
  the stack configured. Resolving does so for every host of at most 494 or at least 498 characters; on a configured stack a host of 495 to 497
  characters made of labels of 1 to 63 makes it store past the 512 bytes of \<^verbatim>\<open>query\<close>.\<close>

theorem client_calls_return:
  assumes "timer_monotone l" "link_ok l" "length (frame_buf s) = 1500"
  shows "netstack_ping l s ip \<noteq> None \<and>
    (\<exists>rc s'. netstack_configure_ipv4 l s = Some (rc, s') \<and> length (frame_buf s') = 1500 \<and> (rc = 0 \<longrightarrow> ipv4_ready (stack_status s'))) \<and>
    (\<forall>host. length host \<notin> {495..497} \<longrightarrow> netstack_resolve_a l s host \<noteq> None) \<and>
    (ipv4_ready (stack_status s) \<longrightarrow> (\<forall>ls. ls \<noteq> [] \<and> (\<forall>l\<in>set ls. label_ok l) \<and> length (dotted ls) \<in> {495..497} \<longrightarrow>
      netstack_resolve_a l s (dotted ls) = None))"
  using ping_returns [OF assms] resolve_returns [OF assms dns_query_safe] configure_returns [OF assms] resolve_overruns [OF _ dns_query_overrun] by blast

theorem client_calls_return_witness:
  "timer_monotone quiet_link \<and> link_ok quiet_link \<and> netstack_resolve_a quiet_link demo_net [97, 46, 98] \<noteq> None \<and>
   netstack_resolve_a quiet_link demo_net (dotted overrun_labels) = None"
proof -
  have a: "timer_monotone quiet_link" "link_ok quiet_link" "length (frame_buf demo_net) = 1500"
    by (auto simp: timer_monotone_def link_ok_def quiet_link_def demo_net_def)
  have r: "ipv4_ready (stack_status demo_net)" by (simp add: demo_net_def)
  have h: "length [97, 46, 98 :: byte] \<notin> {495..497}" "length (dotted overrun_labels) \<in> {495..497}" using overrun_labels_ok(3) by simp_all
  from client_calls_return [OF a, of 0] a(1,2) r h overrun_labels_ok(1,2) show ?thesis by blast
qed

text \<open>C28: A peer can hold the kernel in \<^verbatim>\<open>tcp_recv_all\<close> for ever, however much time passes. Every segment in order starts a deadline of 1.5
  seconds again, also when the buffer is full and its data is dropped. Against the link \<open>endless_link\<close>, whose peer sends one byte after another and
  whose timer goes on one tick with each, the loop is still running after every number \<open>n\<close> of rounds, with no error on the way, and the timer then
  shows \<open>n\<close>, far past the 900 ticks of the deadline of nine seconds the call began with; the call never returns. (A timer that never wraps has to
  stop somewhere: this one does at \<open>2 ^ 63\<close>.)\<close>

theorem tcp_recv_all_can_hang:
  assumes "0 < out_cap" "out_cap \<le> length out" "length (frame_buf s) = 1500" "link_dev s = (ack conn, 0)"
  shows "timer_monotone (endless_link conn ip) \<and> link_ok (endless_link conn ip) \<and>
    tcp_recv_all (endless_link conn ip) s conn out out_cap = None \<and>
    (case deadline_from_ms (endless_link conn ip) s 9000 of (dl, s1) \<Rightarrow> dl = 900 \<and> now (endless_link conn ip) s1 = 0 \<and>
       (\<forall>n. \<exists>dl' conn' out' used s'.
          wait_rounds n (endless_link conn ip) (recv_all_frame (endless_link conn ip) out_cap) dl (conn, blit 0 [0] out, 0) s1 = Some (dl', (conn', out', used), s') \<and>
          unat (now (endless_link conn ip) s') = min n (2 ^ 63) \<and> ack conn' = ack conn + of_nat n \<and> used < out_cap))"
proof -
  define l where "l = endless_link conn ip"
  obtain dl s1 where d: "deadline_from_ms l s 9000 = (dl, s1)" by fastforce
  have dl: "dl = 900" "now l s1 = 0"
    using d assms(4) unfolding l_def by (auto simp: deadline_from_ms_def endless_timer TIMER_HZ_def Let_def)
  have "same_peer conn conn" by (simp add: same_peer_def)
  moreover have "out_cap \<le> length (blit 0 [0] out)" using assms(1,2) by (simp add: blit_def)
  ultimately have j: "endless_inv conn ip out_cap 0 dl (conn, blit 0 [0] out, 0) s1"
    using assms d unfolding l_def by (intro endless_deadline) auto
  have "store_at 0 [0] out = Some (blit 0 [0] out)" using assms(1,2) by (simp add: store_at_def)
  moreover have "wait_loop l (recv_all_frame l out_cap) dl (conn, blit 0 [0] out, 0) s1 = None"
    unfolding l_def by (rule wait_diverges(1) [of "endless_inv conn ip out_cap", OF endless_step j])
  ultimately have "tcp_recv_all l s conn out out_cap = None" using assms(1) d by (simp add: tcp_recv_all_def)
  moreover have "\<exists>dl' conn' out' used s'. wait_rounds n l (recv_all_frame l out_cap) dl (conn, blit 0 [0] out, 0) s1 = Some (dl', (conn', out', used), s') \<and>
      unat (now l s') = min n (2 ^ 63) \<and> ack conn' = ack conn + of_nat n \<and> used < out_cap" for n
  proof -
    obtain d' c' s' where r: "wait_rounds n l (recv_all_frame l out_cap) dl (conn, blit 0 [0] out, 0) s1 = Some (d', c', s')" "endless_inv conn ip out_cap n d' c' s'"
      using wait_diverges(2) [of "endless_inv conn ip out_cap", where h = "recv_all_frame (endless_link conn ip) out_cap", OF endless_step j, where n = n] unfolding l_def by auto
    obtain conn' out' used where c: "c' = (conn', out', used)" by (cases c') auto
    have "unat (now l s') = min n (2 ^ 63)" "ack conn' = ack conn + of_nat n" "used < out_cap"
      using r(2) clock_unat [of n] unfolding l_def by (auto simp: endless_inv_def c endless_timer)
    with r(1) show ?thesis unfolding c by blast
  qed
  ultimately show ?thesis using endless_link_ok d dl by (auto simp: l_def)
qed

theorem tcp_recv_all_can_hang_witness:
  "tcp_recv_all (endless_link demo_conn 7) (demo_state (ack demo_conn, 0)) demo_conn (replicate 4 0) 4 = None"
proof -
  have a: "0 < (4 :: nat)" "4 \<le> length (replicate 4 (0 :: byte))" "length (frame_buf (demo_state (ack demo_conn, 0 :: nat))) = 1500"
    "link_dev (demo_state (ack demo_conn, 0 :: nat)) = (ack demo_conn, 0)"
    by (simp_all add: demo_state_def)
  from tcp_recv_all_can_hang [OF a] show ?thesis by blast
qed

end
