(* ===== verification/Asn1.thy ===== *)
theory Asn1
  imports NetPacket
begin

text \<open>
  The DER reader and the comparison of host names in \<^verbatim>\<open>kernel/drivers/netstack.c\<close>. The memory is the byte buffer that holds the
  received messages; a pointer is an index into it, and a value is a pointer with its length, a 64-bit word that no bound of the memory
  ties down. As in \<open>NetPacket\<close> the outer \<open>None\<close> is a read outside the memory; a reader that fails with -1 still returns the offset it
  has advanced to.
\<close>

section \<open>Names\<close>

definition lower_ascii :: "char \<Rightarrow> char" where
  "lower_ascii c = (if 65 \<le> (of_char c :: nat) \<and> of_char c \<le> (90 :: nat) then char_of (of_char c - 65 + 97 :: nat) else c)"

definition ascii_ieq_char :: "char \<Rightarrow> char \<Rightarrow> bool" where
  "ascii_ieq_char a b = (lower_ascii a = lower_ascii b)"

abbreviation char_byte :: "byte \<Rightarrow> char" where
  "char_byte b \<equiv> char_of (unat b)"

text \<open>The text \<open>a\<close> is the list of its characters before the NUL; its end is where the code reads the NUL.\<close>

fun ascii_ieq_span :: "string \<Rightarrow> bytes \<Rightarrow> nat \<Rightarrow> nat \<Rightarrow> bool option" where
  "ascii_ieq_span a m b 0 = Some (a = [])"
| "ascii_ieq_span [] m b (Suc len) = Some False"
| "ascii_ieq_span (c # a) m b (Suc len) = do {
     d \<leftarrow> rd m b;
     if ascii_ieq_char c (char_byte d) then ascii_ieq_span a m (b + 1) len else Some False }"

text \<open>The comparison of the last \<^verbatim>\<open>suffix_len\<close> characters of the host, and the function with the length stored through \<^verbatim>\<open>prefix_len\<close>.\<close>

fun ends_loop :: "string \<Rightarrow> bytes \<Rightarrow> nat \<Rightarrow> bool option" where
  "ends_loop [] m suffix = Some True"
| "ends_loop (c # host) m suffix = do {
     d \<leftarrow> rd m suffix;
     if ascii_ieq_char c (char_byte d) then ends_loop host m (suffix + 1) else Some False }"

definition ascii_iends_with_span :: "string \<Rightarrow> bytes \<Rightarrow> nat \<Rightarrow> nat \<Rightarrow> nat option option" where
  "ascii_iends_with_span host m suffix suffix_len =
    (if length host \<le> suffix_len then Some None
     else let start = length host - suffix_len
          in do { e \<leftarrow> ends_loop (drop start host) m suffix; Some (if e then Some start else None) })"

definition tls_dns_name_matches :: "string \<Rightarrow> bytes \<Rightarrow> nat \<Rightarrow> u64 \<Rightarrow> bool option" where
  "tls_dns_name_matches host m dns dns_len =
    (if dns_len = 0 then Some False
     else do {
       wild \<leftarrow> (if dns_len > 2 then do { a \<leftarrow> rd m dns; if a = 0x2a then do { b \<leftarrow> rd m (dns + 1); Some (b = 0x2e) } else Some False }
               else Some False);
       if wild
       then do {
         e \<leftarrow> ascii_iends_with_span host m (dns + 1) (unat (dns_len - 1));
         (case e of
            None \<Rightarrow> Some False
          | Some prefix_len \<Rightarrow> Some (prefix_len \<noteq> 0 \<and> CHR ''.'' \<notin> set (take prefix_len host))) }
       else ascii_ieq_span host m dns (unat dns_len) })"

section \<open>The reader\<close>

text \<open>The bytes of a value; an empty value reads nothing.\<close>

definition bytes_at :: "bytes \<Rightarrow> nat \<Rightarrow> nat \<Rightarrow> bytes option" where
  "bytes_at m p n = (if n = 0 \<or> p + n \<le> length m then Some (slice p n m) else None)"

definition copy_ascii_limited :: "string \<Rightarrow> nat \<Rightarrow> bytes \<Rightarrow> nat \<Rightarrow> u64 \<Rightarrow> string option" where
  "copy_ascii_limited out out_cap m src src_len =
    (if out_cap = 0 then Some out
     else let n = unat src_len; n = (if n \<ge> out_cap then out_cap - 1 else n)
          in do { bs \<leftarrow> bytes_at m src n; Some (map (\<lambda>c. if c \<ge> 32 \<and> c \<le> 126 then char_byte c else CHR ''?'') bs) })"

primrec length_bytes :: "bytes \<Rightarrow> nat \<Rightarrow> nat \<Rightarrow> u64 \<Rightarrow> u64 \<Rightarrow> (u64 \<times> u64) option" where
  "length_bytes m der 0 len off = Some (len, off)"
| "length_bytes m der (Suc n) len off = do {
     b \<leftarrow> rd m (der + unat off);
     length_bytes m der n (push_bit 8 len OR ucast b) (off + 1) }"

type_synonym tlv = "byte \<times> nat \<times> u64"

definition asn1_read_tlv :: "bytes \<Rightarrow> nat \<Rightarrow> u64 \<Rightarrow> u64 \<Rightarrow> (tlv option \<times> u64) option" where
  "asn1_read_tlv m der der_len off =
    (if off + 2 > der_len then Some (None, off)
     else do {
       tag \<leftarrow> rd m (der + unat off);
       first_len \<leftarrow> rd m (der + unat (off + 1));
       let off = off + 2;
       let len_bytes = first_len AND 0x7f;
       if first_len AND 0x80 \<noteq> 0 \<and> (len_bytes = 0 \<or> len_bytes > 8 \<or> off + ucast len_bytes > der_len)
       then Some (None, off)
       else do {
         (len, off) \<leftarrow> (if first_len AND 0x80 = 0 then Some (ucast first_len, off)
                       else length_bytes m der (unat len_bytes) 0 off);
         if off + len > der_len then Some (None, off)
         else Some (Some (tag, der + unat off, len), off + len) } })"


section \<open>Bytes in the memory\<close>

definition present :: "bytes \<Rightarrow> nat \<Rightarrow> bytes \<Rightarrow> bool" where
  "present m p bs \<longleftrightarrow> p \<le> length m \<and> take (length bs) (drop p m) = bs"

lemma present_append [simp]: "present m p (a @ b) \<longleftrightarrow> present m p a \<and> present m (p + length a) b"
proof -
  have split: "take (length a + length b) (drop p m) = take (length a) (drop p m) @ take (length b) (drop (p + length a) m)"
    by (simp add: take_add add.commute)
  have "take (length a + length b) (drop p m) = a @ b \<longleftrightarrow>
      take (length a) (drop p m) = a \<and> take (length b) (drop (p + length a) m) = b"
  proof
    assume l: "take (length a + length b) (drop p m) = a @ b"
    then have "length (take (length a + length b) (drop p m)) = length a + length b" by simp
    then have "length (take (length a) (drop p m)) = length a" by simp
    with l show "take (length a) (drop p m) = a \<and> take (length b) (drop (p + length a) m) = b"
      unfolding split by simp
  qed (simp add: split)
  moreover have "p + length a \<le> length m" if "take (length a) (drop p m) = a" "p \<le> length m"
    using arg_cong [OF that(1), of length] that(2) by simp
  ultimately show ?thesis by (auto simp: present_def)
qed

lemma present_Nil [simp]: "present m p [] \<longleftrightarrow> p \<le> length m"
  by (simp add: present_def)

lemma present_Cons [simp]: "present m p (b # bs) \<longleftrightarrow> rd m p = Some b \<and> present m (Suc p) bs"
proof (cases "p < length m")
  case True
  then have "drop p m = m ! p # drop (Suc p) m" by (simp add: Cons_nth_drop_Suc)
  with True show ?thesis by (auto simp: present_def rd_def)
next
  case False
  then show ?thesis by (auto simp: present_def rd_def)
qed

lemma present_end: "present m p bs \<Longrightarrow> p + length bs \<le> length m"
  using present_append [of m p bs "[]"] by simp

lemma bytes_at_present: "present m p bs \<Longrightarrow> bytes_at m p (length bs) = Some bs"
  using present_end [of m p bs] by (auto simp: bytes_at_def present_def slice_def)

lemma present_all: "p = length pre \<Longrightarrow> present (pre @ bs @ post) p bs"
  by (simp add: present_def)

section \<open>The encoding\<close>

text \<open>The distinguished encoding of a length and of a field, for contents up to the size of a TLS message.\<close>

definition der_length :: "nat \<Rightarrow> bytes" where
  "der_length n =
    (if n < 128 then [of_nat n]
     else if n < 256 then [0x81, of_nat n]
     else if n < 65536 then [0x82, of_nat (n div 256), of_nat n]
     else [0x83, of_nat (n div 65536), of_nat (n div 256), of_nat n])"

definition der_tlv :: "byte \<Rightarrow> bytes \<Rightarrow> bytes" where
  "der_tlv tag c = tag # der_length (length c) @ c"

definition der_head :: "bytes \<Rightarrow> nat" where
  "der_head c = 1 + length (der_length (length c))"

lemma length_der_tlv: "length (der_tlv t c) = der_head c + length c"
  by (simp add: der_tlv_def der_head_def)

lemma der_head_bounds: "2 \<le> der_head c" "der_head c \<le> 5"
  by (simp_all add: der_head_def der_length_def)

lemma unat_small [simp]: "n < 18446744073709551616 \<Longrightarrow> unat (of_nat n :: u64) = n"
  by (simp add: unat_of_nat take_bit_nat_eq_self)

lemma u64_compare:
  "a < 18446744073709551616 \<Longrightarrow> b < 18446744073709551616 \<Longrightarrow> (of_nat a :: u64) < of_nat b \<longleftrightarrow> a < b"
  "a < 18446744073709551616 \<Longrightarrow> b < 18446744073709551616 \<Longrightarrow> (of_nat a :: u64) \<le> of_nat b \<longleftrightarrow> a \<le> b"
  by (simp_all add: word_less_nat_alt word_le_nat_alt)

lemma ucast_of_nat_byte: "(ucast (of_nat n :: byte) :: u64) = of_nat (n mod 256)"
  proof -
  have "(ucast (of_nat n :: byte) :: u64) = of_nat (take_bit 8 n)" by (rule bit_word_eqI) (auto simp: bit_simps)
  then show ?thesis by (simp add: take_bit_eq_mod)
qed

lemma push_or_u64: "n < 72057594037927936 \<Longrightarrow> b < 256 \<Longrightarrow> push_bit 8 (of_nat n :: u64) OR of_nat b = of_nat (n * 256 + b)"
proof -
  assume n: "n < 72057594037927936" "b < 256"
  have "push_bit 8 n OR b = n * 256 + b"
    using or_push_nat [of b 8 n] n by (simp add: or.commute add.commute mult.commute)
  moreover have "push_bit 8 (of_nat n :: u64) OR of_nat b = of_nat (push_bit 8 n OR b)"
    by (simp only: push_bit_of_nat of_nat_or_eq)
  ultimately show ?thesis by simp
qed


section \<open>Reading a field\<close>

lemma length_bytes_present:
  "present m (der + q) bs \<Longrightarrow> q + length bs < 18446744073709551616 \<Longrightarrow> length bs + n0 \<le> 8 \<Longrightarrow> v < 256 ^ n0 \<Longrightarrow>
   length_bytes m der (length bs) (of_nat v) (of_nat q) = Some (of_nat (v * 256 ^ length bs + be_nat bs), of_nat (q + length bs))"
proof (induction bs arbitrary: q v n0)
  case (Cons b bs)
  have "(256::nat) ^ n0 \<le> 256 ^ 7" by (rule power_increasing) (use Cons.prems(3) in simp_all)
  with Cons.prems(4) have "v < 256 ^ 7" by simp
  then have v: "v < 72057594037927936" by simp
  have b: "(ucast b :: u64) = of_nat (unat b)" by simp
  have step: "push_bit 8 (of_nat v :: u64) OR ucast b = of_nat (v * 256 + unat b)"
    unfolding b by (rule push_or_u64) (use v in simp_all)
  have v': "v * 256 + unat b < 256 ^ Suc n0"
    proof -
    have "v + 1 \<le> 256 ^ n0" using Cons.prems(4) by simp
    then have "(v + 1) * 256 \<le> 256 ^ n0 * 256" by (rule mult_le_mono1)
    then show ?thesis using unat_byte_less [of b] by (simp del: unat_byte_less)
  qed
  obtain q' v' where q': "q' = q + 1" "v' = v * 256 + unat b" by simp
  have off: "(of_nat q + 1 :: u64) = of_nat q'" unfolding q' by simp
  have "length_bytes m der (length bs) (of_nat v') (of_nat q') = Some (of_nat (v' * 256 ^ length bs + be_nat bs), of_nat (q' + length bs))"
    by (rule Cons.IH [of _ "Suc n0"]) (use Cons.prems v' in \<open>simp_all add: q'\<close>)
  then show ?case
    using Cons.prems unfolding q'(2) by (simp add: step off be_nat_Cons q'(1) add_mult_distrib mult.assoc add.assoc del: of_nat_add of_nat_Suc of_nat_mult)
qed simp

lemma u64_not_less: "a \<le> b \<Longrightarrow> b < 4294967296 \<Longrightarrow> \<not> (of_nat b :: u64) < of_nat a"
  by (simp add: u64_compare)

lemma u64_le: "a \<le> b \<Longrightarrow> b < 4294967296 \<Longrightarrow> (of_nat a :: u64) \<le> of_nat b"
  by (simp add: u64_compare)

lemma short_form: "f < 128 \<Longrightarrow> (f :: byte) AND 0x80 = 0"
proof -
  assume "f < 128"
  then have "unat f < 128" by (simp add: word_less_nat_alt)
  then have f: "take_bit 7 f = f" by (intro word_unat_eq_iff [THEN iffD2]) (simp add: unsigned_take_bit_eq take_bit_nat_eq_self)
  have "take_bit 7 f AND 0x80 = 0"
    by (rule bit_word_eqI) (auto simp: bit_simps bit_numeral_rec numeral_eq_Suc elim!: less_SucE)
  then show ?thesis unfolding f .
qed

lemma long_form: "0 < n \<Longrightarrow> n \<le> 8 \<Longrightarrow> (of_nat (128 + n) :: byte) AND 0x80 \<noteq> 0 \<and> (of_nat (128 + n) :: byte) AND 0x7f = of_nat n"
proof -
  assume "0 < n" "n \<le> 8"
  then consider "n = 1" | "n = 2" | "n = 3" | "n = 4" | "n = 5" | "n = 6" | "n = 7" | "n = 8" by linarith
  then show ?thesis by cases simp_all
qed

lemma asn1_short:
  assumes "rd m (der + q) = Some t" "rd m (der + (q + 1)) = Some f" "f < 128" "q + 2 + unat f \<le> L" "L < 4294967296"
  shows "asn1_read_tlv m der (of_nat L) (of_nat q) = Some (Some (t, der + (q + 2), ucast f), of_nat (q + 2 + unat f))"
proof -
  obtain q1 q2 q3 where q: "q1 = q + 1" "q2 = q + 2" "q3 = q + 2 + unat f" by simp
  have offs: "(of_nat q + 2 :: u64) = of_nat q2" "(of_nat q + 1 :: u64) = of_nat q1" "(of_nat q2 + ucast f :: u64) = of_nat q3"
    unfolding q by simp_all
  have lt: "\<not> (of_nat L :: u64) < of_nat q2" "\<not> (of_nat L :: u64) < of_nat q3"
    by (rule u64_not_less; use assms(4,5) q in simp)+
  have "q1 < 18446744073709551616" "q2 < 18446744073709551616" "q < 18446744073709551616" using assms(4,5) q by simp_all
  then show ?thesis
    unfolding q [symmetric] asn1_read_tlv_def offs using assms(1-3) lt unfolding q(1) [symmetric]
    by (simp add: short_form Let_def offs)
qed

lemma asn1_long:
  assumes "rd m (der + q) = Some t" "rd m (der + (q + 1)) = Some (of_nat (128 + length bs))" "present m (der + (q + 2)) bs"
    "0 < length bs" "length bs \<le> 8" "q + 2 + length bs \<le> L" "L < 4294967296"
    "(of_nat (q + 2 + length bs + be_nat bs) :: u64) \<le> of_nat L"
  shows "asn1_read_tlv m der (of_nat L) (of_nat q) =
    Some (Some (t, der + (q + 2 + length bs), of_nat (be_nat bs)), of_nat (q + 2 + length bs + be_nat bs))"
proof -
  obtain q1 q2 q3 q4 f where q: "q1 = q + 1" "q2 = q + 2" "q3 = q + 2 + length bs" "q4 = q + 2 + length bs + be_nat bs"
    and f: "f = (of_nat (128 + length bs) :: byte)" by simp
  have n: "unat (of_nat (length bs) :: byte) = length bs" "(ucast (of_nat (length bs) :: byte) :: u64) = of_nat (length bs)"
    using assms(5) by (simp_all add: unat_of_nat ucast_of_nat_byte take_bit_eq_mod)
  have offs: "(of_nat q + 2 :: u64) = of_nat q2" "(of_nat q + 1 :: u64) = of_nat q1" "(of_nat q2 + of_nat (length bs) :: u64) = of_nat q3"
    "(of_nat q3 + of_nat (be_nat bs) :: u64) = of_nat q4"
    unfolding q by simp_all
  have nz: "(of_nat (length bs) :: byte) \<noteq> 0" "\<not> (of_nat (length bs) :: byte) > 8"
    using assms(4,5) n(1) by (auto simp: word_less_nat_alt simp flip: unat_eq_0)
  have lt: "\<not> (of_nat L :: u64) < of_nat q2" "\<not> (of_nat L :: u64) < of_nat q3"
    by (rule u64_not_less; use assms(6,7) q in simp)+
  have lt4: "\<not> (of_nat L :: u64) < of_nat q4" using assms(8) unfolding q by (simp only: not_less)
  have lb: "length_bytes m der (length bs) 0 (of_nat q2) = Some (of_nat (be_nat bs), of_nat q3)"
    using length_bytes_present [OF assms(3), of 0 0] assms(5-7) by (simp add: q)
  have lf: "f AND 0x80 \<noteq> 0" "f AND 0x7f = of_nat (length bs)"
    using long_form [OF assms(4)] assms(5) unfolding f by simp_all
  have "q1 < 18446744073709551616" "q2 < 18446744073709551616" "q3 < 18446744073709551616" "q < 18446744073709551616" using assms(6,7) q by simp_all
  then show ?thesis
    unfolding q(3,4) [symmetric] asn1_read_tlv_def offs using assms(1,2) lt lt4 nz lf lb unfolding q(1) [symmetric] f [symmetric]
    by (simp add: Let_def offs n)
qed

lemma asn1_reads_der:
  assumes m: "present m (der + q) (der_tlv t c)" and L: "q + length (der_tlv t c) \<le> L" "L < 4294967296"
    and c: "length c < 16777216"
  shows "asn1_read_tlv m der (of_nat L) (of_nat q) =
    Some (Some (t, der + q + der_head c, of_nat (length c)), of_nat (q + length (der_tlv t c)))"
proof -
  let ?n = "length c"
  have rd0: "rd m (der + q) = Some t" and lb: "present m (der + (q + 1)) (der_length ?n)"
    using m by (simp_all add: der_tlv_def)
  have len: "q + der_head c + ?n \<le> L" using L(1) by (simp add: length_der_tlv)
  have long: ?thesis if "der_length ?n = of_nat (128 + length bs) # bs" "0 < length bs" "length bs \<le> 3" "be_nat bs = ?n" for bs
  proof -
    have "der_head c = 2 + length bs" using that(1) by (simp add: der_head_def)
    moreover have "(of_nat (q + 2 + length bs + be_nat bs) :: u64) \<le> of_nat L"
      by (rule u64_le) (use calculation that(4) len L(2) in simp_all)
    ultimately show ?thesis using asn1_long [OF rd0, of bs L] lb len L(2) that by (simp add: length_der_tlv add.assoc)
  qed
  consider "?n < 128" | "128 \<le> ?n" "?n < 256" | "256 \<le> ?n" "?n < 65536" | "65536 \<le> ?n" by linarith
  then show ?thesis
  proof cases
    case 1
    then have "(of_nat ?n :: byte) < 128" "unat (of_nat ?n :: byte) = ?n" "der_head c = 2"
      by (simp_all add: word_less_nat_alt unat_of_nat take_bit_eq_mod der_head_def der_length_def)
    with asn1_short [OF rd0, of "of_nat ?n" L] lb len L(2) 1 show ?thesis
      by (simp add: der_length_def length_der_tlv ucast_of_nat_byte)
  next
    case 2
    then show ?thesis by (intro long [of "[of_nat ?n]"]) (simp_all add: der_length_def be_nat_Cons unat_of_nat take_bit_eq_mod)
  next
    case 3
    then have "?n div 256 mod 256 * 256 + ?n mod 256 = ?n" by simp
    with 3 show ?thesis
      by (intro long [of "[of_nat (?n div 256), of_nat ?n]"]) (simp_all add: der_length_def be_nat_Cons unat_of_nat take_bit_eq_mod)
  next
    case 4
    have "?n div 65536 * 65536 + (?n div 256 mod 256 * 256 + ?n mod 256) = ?n" "?n div 65536 mod 256 = ?n div 65536" 
    proof -
      have "?n div 65536 = ?n div 256 div 256" by (simp add: div_mult2_eq)
      moreover have "(x * 256 + y) * 256 + z = n \<Longrightarrow> x * 65536 + (y * 256 + z) = n" for x y z n :: nat by simp
      note this [of "?n div 256 div 256" "?n div 256 mod 256" "?n mod 256" ?n]
      moreover have "(?n div 256 div 256 * 256 + ?n div 256 mod 256) * 256 + ?n mod 256 = ?n" by (simp only: div_mult_mod_eq)
      moreover have "?n div 256 div 256 mod 256 = ?n div 256 div 256" by (rule mod_less) (use c in simp)
      ultimately show "?n div 65536 * 65536 + (?n div 256 mod 256 * 256 + ?n mod 256) = ?n" by metis
      show "?n div 65536 mod 256 = ?n div 65536" by (rule mod_less) (use c in simp)
    qed
    with 4 show ?thesis
      by (intro long [of "[of_nat (?n div 65536), of_nat (?n div 256), of_nat ?n]"])
        (simp_all add: der_length_def be_nat_Cons unat_of_nat take_bit_eq_mod)
  qed
qed

lemma length_bytes_total:
  "der + q + n \<le> length m \<Longrightarrow> q + n < 18446744073709551616 \<Longrightarrow> \<exists>len. length_bytes m der n v (of_nat q) = Some (len, of_nat (q + n))"
proof (induction n arbitrary: v q)
  case (Suc n)
  obtain q' where q': "q' = q + 1" by simp
  have off: "(of_nat q + 1 :: u64) = of_nat q'" unfolding q' by simp
  have s: "q + Suc n = q' + n" by (simp add: q')
  show ?case unfolding s using Suc.prems Suc.IH [of q'] by (simp add: rd_def off del: of_nat_add) (simp add: q')
qed simp

lemma asn1_read_total:
  assumes "der + L \<le> length m" "q \<le> L" "L < 4294967296"
  shows "(\<exists>q'. asn1_read_tlv m der (of_nat L) (of_nat q) = Some (None, of_nat q') \<and> q \<le> q' \<and> q' \<le> L) \<or>
    (\<exists>t h n. asn1_read_tlv m der (of_nat L) (of_nat q) = Some (Some (t, der + (q + h), n), of_nat (q + h) + n) \<and>
       2 \<le> h \<and> h \<le> 10 \<and> q + h \<le> L \<and> of_nat (q + h) + n \<le> of_nat L)"
proof (cases "q + 2 \<le> L")
  case False
  then have "asn1_read_tlv m der (of_nat L) (of_nat q) = Some (None, of_nat q)"
    using u64_compare(1) [of L "q + 2"] assms(2,3) by (simp add: asn1_read_tlv_def add.commute)
  then show ?thesis using assms(2) by blast
next
  case True
  obtain q1 q2 where q: "q1 = q + 1" "q2 = q + 2" by simp
  have offs: "(of_nat q + 2 :: u64) = of_nat q2" "(of_nat q + 1 :: u64) = of_nat q1" unfolding q by simp_all
  have sm: "q1 < 18446744073709551616" "q2 < 18446744073709551616" "q < 18446744073709551616" using True assms(3) q by simp_all
  obtain t f where tf: "rd m (der + q) = Some t" "rd m (der + q1) = Some f" using True assms(1) q by (simp add: rd_def)
  have lt: "\<not> (of_nat L :: u64) < of_nat q2" by (rule u64_not_less) (use True assms(3) q in simp_all)
  note eq = asn1_read_tlv_def [of m der "of_nat L" "of_nat q"]
  show ?thesis
  proof (cases "f AND 0x80 = 0")
    case short: True
    show ?thesis
    proof (cases "(of_nat L :: u64) < of_nat q2 + ucast f")
      case True
      then have "asn1_read_tlv m der (of_nat L) (of_nat q) = Some (None, of_nat q2)"
        unfolding eq offs using tf lt sm short by (simp add: Let_def)
      then show ?thesis using \<open>q + 2 \<le> L\<close> q(2) by (intro disjI1 exI [of _ q2]) simp
    next
      case False
      then have "asn1_read_tlv m der (of_nat L) (of_nat q) = Some (Some (t, der + q2, ucast f), of_nat q2 + ucast f)"
        unfolding eq offs using tf lt sm short by (simp add: Let_def)
      with False \<open>q + 2 \<le> L\<close> show ?thesis unfolding q(2) not_less
        by (intro disjI2 exI [of _ t] exI [of _ 2] exI [of _ "ucast f"]) simp
    qed
  next
    case long: False
    let ?b = "f AND 0x7f"
    show ?thesis
    proof (cases "?b = 0 \<or> ?b > 8 \<or> of_nat q2 + ucast ?b > (of_nat L :: u64)")
      case True
      then have "asn1_read_tlv m der (of_nat L) (of_nat q) = Some (None, of_nat q2)"
        unfolding eq offs using tf lt sm long by (simp add: Let_def)
      then show ?thesis using \<open>q + 2 \<le> L\<close> q(2) by (intro disjI1 exI [of _ q2]) simp
    next
      case False
      obtain n q3 where n: "n = unat ?b" "q3 = q2 + n" by simp
      have n8: "0 < n" "n \<le> 8" using False by (simp_all add: n word_less_nat_alt unat_gt_0)
      have q3: "(of_nat q2 + ucast ?b :: u64) = of_nat q3" unfolding n(2) by (simp add: n(1))
      have q3L: "q3 \<le> L" using False n8 assms(3) \<open>q + 2 \<le> L\<close> u64_compare(1) [of L q3] unfolding q3 by (simp add: n(2) q)
      then obtain len where len: "length_bytes m der n 0 (of_nat q2) = Some (len, of_nat q3)"
        using length_bytes_total [of der q2 n m 0] assms(1,3) unfolding n(2) by (auto simp del: of_nat_add)
      have sm3: "q3 < 18446744073709551616" using q3L assms(3) by simp
      have h: "q3 = q + (n + 2)" by (simp add: n(2) q)
      show ?thesis
      proof (cases "(of_nat L :: u64) < of_nat q3 + len")
        case True
        then have "asn1_read_tlv m der (of_nat L) (of_nat q) = Some (None, of_nat q3)"
          unfolding eq offs using tf lt sm long False len by (simp add: Let_def q3 n(1))
        then show ?thesis using q3L h by (intro disjI1 exI [of _ q3]) simp
      next
        case no: False
        then have "asn1_read_tlv m der (of_nat L) (of_nat q) = Some (Some (t, der + q3, len), of_nat q3 + len)"
          unfolding eq offs using tf lt sm sm3 long False len by (simp add: Let_def q3 n(1))
        moreover have "2 \<le> n + 2" "n + 2 \<le> 10" "q + (n + 2) \<le> L" using n8 q3L h by simp_all
        ultimately show ?thesis using no unfolding h not_less by blast
      qed
    qed
  qed
qed

section \<open>Host names\<close>

definition lower :: "bytes \<Rightarrow> string" where
  "lower bs = map (lower_ascii \<circ> char_byte) bs"

lemma ascii_ieq_span_iff:
  "present m b bs \<Longrightarrow> ascii_ieq_span a m b (length bs) = Some (map lower_ascii a = lower bs)"
proof (induction a m b "length bs" arbitrary: bs rule: ascii_ieq_span.induct)
  case (2 m b len) then show ?case by (cases bs) (auto simp: lower_def)
next
  case (3 c a m b len)
  then obtain d ds where bs: "bs = d # ds" by (cases bs) simp_all
  with 3 show ?case by (auto simp: lower_def ascii_ieq_char_def)
qed (simp add: lower_def)

lemma ends_loop_iff:
  "present m p bs \<Longrightarrow> length host = length bs \<Longrightarrow> ends_loop host m p = Some (map lower_ascii host = lower bs)"
proof (induction host arbitrary: p bs)
  case (Cons c host)
  then obtain d ds where bs: "bs = d # ds" by (cases bs) simp_all
  with Cons show ?case by (auto simp: lower_def ascii_ieq_char_def)
qed (simp add: lower_def)

text \<open>The rule for server names: equal up to the case of ASCII letters, or a star for exactly one leading label.\<close>

definition host_matches :: "string \<Rightarrow> bytes \<Rightarrow> bool" where
  "host_matches host bs =
    (bs \<noteq> [] \<and>
     (if \<exists>c rest. bs = 0x2a # 0x2e # c # rest
      then \<exists>label. label \<noteq> [] \<and> CHR ''.'' \<notin> set label \<and>
             (\<exists>dom. host = label @ dom \<and> map lower_ascii dom = lower (tl bs))
      else map lower_ascii host = lower bs))"

lemma length_lower [simp]: "length (lower bs) = length bs"
  by (simp add: lower_def)

lemma dns_name_matches_present:
  assumes "present m p bs" "length bs < 4294967296"
  shows "tls_dns_name_matches host m p (of_nat (length bs)) = Some (host_matches host bs)"
proof (cases "\<exists>c rest. bs = 0x2a # 0x2e # c # rest")
  case True
  then obtain c rest where bs: "bs = 0x2a # 0x2e # c # rest" by blast
  let ?n = "length bs" and ?s = "0x2e # c # rest"
  have "2 < ?n" using bs by simp
  then have n: "2 < (of_nat ?n :: u64)" "(of_nat ?n :: u64) \<noteq> 0" "of_nat ?n - 1 = (of_nat (length ?s) :: u64)"
    using u64_compare(1) [of 2 ?n] u64_compare(1) [of 0 ?n] assms(2) by (auto simp: bs)
  then have u: "unat (of_nat ?n - 1 :: u64) = length ?s" using assms(2) by (simp add: bs del: of_nat_Suc)
  have p: "rd m p = Some 0x2a" "rd m (p + 1) = Some 0x2e" "present m (p + 1) ?s" using assms(1) unfolding bs by simp_all
  let ?st = "length host - length ?s"
  have hm: "host_matches host bs \<longleftrightarrow> (\<exists>label. label \<noteq> [] \<and> CHR ''.'' \<notin> set label \<and>
             (\<exists>dom. host = label @ dom \<and> map lower_ascii dom = lower ?s))"
    using bs by (simp add: host_matches_def)
  have eq: "(\<exists>label. label \<noteq> [] \<and> CHR ''.'' \<notin> set label \<and> (\<exists>dom. host = label @ dom \<and> map lower_ascii dom = lower ?s)) \<longleftrightarrow>
      length ?s < length host \<and> map lower_ascii (drop ?st host) = lower ?s \<and> CHR ''.'' \<notin> set (take ?st host)" (is "?l \<longleftrightarrow> ?r")
  proof
    assume ?l
    then obtain label dom where l: "label \<noteq> []" "CHR ''.'' \<notin> set label" "host = label @ dom" "map lower_ascii dom = lower ?s" by blast
    then have d: "length dom = length ?s" by (metis length_lower length_map)
    then have "take ?st host = label" "drop ?st host = dom" using l(3) by simp_all
    with l d show ?r by simp
  next
    assume r: ?r
    then have "take ?st host \<noteq> []" by auto
    with r show ?l by (intro exI [of _ "take ?st host"] conjI exI [of _ "drop ?st host"]) simp_all
  qed
  show ?thesis
  proof (cases "length ?s < length host")
    case True
    then have "ends_loop (drop ?st host) m (p + 1) = Some (map lower_ascii (drop ?st host) = lower ?s)"
      by (intro ends_loop_iff [OF p(3)]) simp
    with True n p show ?thesis
      unfolding tls_dns_name_matches_def u hm eq by (simp add: ascii_iends_with_span_def Let_def)
  next
    case False
    with n p show ?thesis
      unfolding tls_dns_name_matches_def u hm eq by (simp add: ascii_iends_with_span_def)
  qed
next
  case False
  show ?thesis
  proof (cases bs)
    case Nil
    then show ?thesis by (simp add: tls_dns_name_matches_def host_matches_def)
  next
    case (Cons a t)
    have nz: "(of_nat (length bs) :: u64) \<noteq> 0"
      using u64_compare(1) [of 0 "length bs"] assms(2) Cons by auto
    have u: "unat (of_nat (length bs) :: u64) = length bs" using assms(2) by simp
    have rd: "rd m p = Some a" using assms(1) Cons by simp
    have wild: "(if (of_nat (length bs) :: u64) > 2
        then do { a \<leftarrow> rd m p; if a = 0x2a then do { b \<leftarrow> rd m (p + 1); Some (b = 0x2e) } else Some False } else Some False) = Some False"
    proof (cases "(of_nat (length bs) :: u64) > 2")
      case True
      then have "2 < length bs" using u64_compare(1) [of 2 "length bs"] assms(2) by simp
      then obtain b c r where "t = b # c # r" using Cons by (cases t; cases "tl t") auto
      with False Cons assms(1) rd True show ?thesis by auto
    qed simp
    show ?thesis
      unfolding tls_dns_name_matches_def wild u using nz False Cons ascii_ieq_span_iff [OF assms(1), of host]
      by (auto simp add: host_matches_def simp del: of_nat_Suc)
  qed
qed


section \<open>What the reader promises\<close>

text \<open>The length of eight bytes with which the end of a field wraps around to an offset before its content.\<close>

lemma asn1_wraps:
  assumes "present m (der + q) (t # 0x88 # bs)" "length bs = 8" "q + 10 \<le> L" "L < 4294967296"
    "q + 10 + be_nat bs = 18446744073709551616 + q'" "q' \<le> L"
  shows "asn1_read_tlv m der (of_nat L) (of_nat q) = Some (Some (t, der + (q + 10), of_nat (be_nat bs)), of_nat q')"
proof -
  have p: "rd m (der + q) = Some t" "rd m (der + (q + 1)) = Some (of_nat (128 + length bs))" "present m (der + (q + 2)) bs"
    using assms(1,2) by simp_all
  have w: "(of_nat (q + 2 + length bs + be_nat bs) :: u64) = of_nat q'"
  proof -
    have w: "q + 2 + length bs + be_nat bs = 18446744073709551616 + q'" using assms(2,5) by simp
    show ?thesis unfolding w by simp
  qed
  have "(of_nat (q + 2 + length bs + be_nat bs) :: u64) \<le> of_nat L" unfolding w by (rule u64_le) (use assms in simp_all)
  then show ?thesis using asn1_long [OF p, of L] assms(2-4) unfolding w by simp
qed

text \<open>C16: The DER reader is right on fields whose length does not wrap. For a value that lies in the memory it never reads outside; on success
  it returns a field inside the value and advances past it, unless the length it read is within \<open>2 ^ 32\<close> of the largest 64-bit number; and of
  a field in distinguished encoding it returns the tag and exactly the content.\<close>

theorem asn1_read_tlv_correct:
  assumes "der + L \<le> length m" "q \<le> L" "L < 4294967296"
  shows "(\<exists>r off. asn1_read_tlv m der (of_nat L) (of_nat q) = Some (r, off) \<and>
      (case r of None \<Rightarrow> q \<le> unat off \<and> unat off \<le> L
       | Some (t, p, n) \<Rightarrow> unat n < 18446744069414584320 \<longrightarrow> der + q + 2 \<le> p \<and> p + unat n = der + unat off \<and> unat off \<le> L)) \<and>
    (present m (der + q) (der_tlv t c) \<and> length c < 16777216 \<and> q + length (der_tlv t c) \<le> L \<longrightarrow>
      (\<exists>p. asn1_read_tlv m der (of_nat L) (of_nat q) = Some (Some (t, p, of_nat (length c)), of_nat (q + length (der_tlv t c))) \<and>
         bytes_at m p (length c) = Some c))"
proof (rule conjI)
  show "\<exists>r off. asn1_read_tlv m der (of_nat L) (of_nat q) = Some (r, off) \<and>
      (case r of None \<Rightarrow> q \<le> unat off \<and> unat off \<le> L
       | Some (t, p, n) \<Rightarrow> unat n < 18446744069414584320 \<longrightarrow> der + q + 2 \<le> p \<and> p + unat n = der + unat off \<and> unat off \<le> L)"
  proof (cases "\<exists>q'. asn1_read_tlv m der (of_nat L) (of_nat q) = Some (None, of_nat q') \<and> q \<le> q' \<and> q' \<le> L")
    case True
    then show ?thesis using assms(3) by auto
  next
    case False
    then obtain t h n where r: "asn1_read_tlv m der (of_nat L) (of_nat q) = Some (Some (t, der + (q + h), n), of_nat (q + h) + n)"
      and h: "2 \<le> h" "q + h \<le> L" "of_nat (q + h) + n \<le> (of_nat L :: u64)"
      using asn1_read_total [OF assms] by blast
    have "unat (of_nat (q + h) + n) = q + h + unat n \<and> unat (of_nat (q + h) + n) \<le> L" if "unat n < 18446744069414584320"
      using that h(2,3) assms(3) unat_add_lem [of "of_nat (q + h) :: u64" n, THEN iffD1]
      by (simp add: word_le_nat_alt del: of_nat_add)
    with r h(1) show ?thesis by (auto simp del: of_nat_add)
  qed
  show "present m (der + q) (der_tlv t c) \<and> length c < 16777216 \<and> q + length (der_tlv t c) \<le> L \<longrightarrow>
      (\<exists>p. asn1_read_tlv m der (of_nat L) (of_nat q) = Some (Some (t, p, of_nat (length c)), of_nat (q + length (der_tlv t c))) \<and>
         bytes_at m p (length c) = Some c)"
  proof (rule impI, elim conjE)
    assume p: "present m (der + q) (der_tlv t c)" "length c < 16777216" "q + length (der_tlv t c) \<le> L"
    then have "present m (der + q + der_head c) c" by (simp add: der_tlv_def der_head_def)
    with bytes_at_present asn1_reads_der [OF p(1,3) assms(3) p(2)]
    show "\<exists>p. asn1_read_tlv m der (of_nat L) (of_nat q) = Some (Some (t, p, of_nat (length c)), of_nat (q + length (der_tlv t c))) \<and>
         bytes_at m p (length c) = Some c" by blast
  qed
qed

theorem asn1_read_tlv_correct_witness:
  "\<exists>p. asn1_read_tlv [7, 0x30, 2, 5, 6] 1 4 0 = Some (Some (0x30, p, 2), 4) \<and> bytes_at [7, 0x30, 2, 5, 6] p 2 = Some [5, 6]"
  using asn1_read_tlv_correct [THEN conjunct2, of 1 4 "[7, 0x30, 2, 5, 6]" 0 "0x30" "[5, 6]"]
  by (simp add: der_tlv_def der_length_def rd_def numeral_2_eq_2)

text \<open>C18: The host name of a certificate is matched as the rule for server names says: for a nonempty name in the memory,
  \<^verbatim>\<open>tls_dns_name_matches\<close> returns true exactly if the host equals it up to the case of ASCII letters, or the name is a
  star followed by a domain and the host is that domain after one nonempty label without a dot.\<close>

theorem tls_dns_name_matches_iff:
  assumes "present m p bs" "length bs < 4294967296"
  shows "tls_dns_name_matches host m p (of_nat (length bs)) = Some (host_matches host bs)"
  by (rule dns_name_matches_present [OF assms])

theorem tls_dns_name_matches_iff_witness:
  "present [0x2a, 0x2e, 0x61] 0 [0x2a, 0x2e, 0x61] \<and>
   tls_dns_name_matches ''x.A'' [0x2a, 0x2e, 0x61] 0 3 = Some True \<and> tls_dns_name_matches ''y.x.a'' [0x2a, 0x2e, 0x61] 0 3 = Some False"
proof -
  have "present [0x2a, 0x2e, 0x61] 0 [0x2a, 0x2e, 0x61]" by (simp add: rd_def)
  moreover have "host_matches ''x.A'' [0x2a, 0x2e, 0x61]"
  proof -
    have "map lower_ascii ''.A'' = lower [0x2e, 0x61]" by code_simp
    moreover have "''x.A'' = ''x'' @ ''.A''" by simp
    moreover have "CHR ''.'' \<notin> set ''x''" "''x'' \<noteq> []" by simp_all
    ultimately show ?thesis unfolding host_matches_def by (metis list.distinct(1) list.sel(3))
  qed
  moreover have "\<not> host_matches ''y.x.a'' [0x2a, 0x2e, 0x61]"
    by (auto simp add: host_matches_def lower_def lower_ascii_def Cons_eq_append_conv)
  ultimately show ?thesis
    using tls_dns_name_matches_iff [of "[0x2a, 0x2e, 0x61]" 0 "[0x2a, 0x2e, 0x61]" "''x.A''"]
      tls_dns_name_matches_iff [of "[0x2a, 0x2e, 0x61]" 0 "[0x2a, 0x2e, 0x61]" "''y.x.a''"] by simp
qed

end
