(* ===== verification/TlsCert.thy ===== *)
theory TlsCert
  imports Asn1 Sha256
begin

text \<open>
  Certificates in \<^verbatim>\<open>kernel/drivers/netstack.c\<close>: the summary of a certificate (hashes of its parts, algorithms, RSA key, signature) and the
  host names of the leaf. A parser that gives up in the middle keeps what it has stored in its record. \<open>None\<close> stands
  for a read outside the memory or a loop that does not end; \<open>Some None\<close> is the result -1.
\<close>

section \<open>State\<close>

definition TLS_RSA_MAX_BYTES :: nat where "TLS_RSA_MAX_BYTES = 512"

text \<open>A null pointer to a name is \<open>None\<close>, a text is the list of its characters before the NUL.\<close>

record tls_cert_summary_t =
  parsed :: bool
  cert_len :: u64
  subject_sha256 :: string
  issuer_sha256 :: string
  tbs_sha256 :: string
  signature_sha256 :: string
  signature_alg :: "string option"
  tbs_signature_alg :: "string option"
  public_key_alg :: "string option"
  public_key_curve :: "string option"
  signature_alg_consistent :: bool
  signature_sha256_rsa :: bool
  public_key_rsa :: bool
  rsa_modulus_ready :: bool
  signature_ready :: bool
  signature_len :: u64
  public_key_bits :: u64
  rsa_modulus_len :: u64
  rsa_exponent :: u32
  tbs_digest :: bytes
  signature_bytes :: bytes
  rsa_modulus :: bytes

definition cert_summary_zero :: tls_cert_summary_t where
  "cert_summary_zero = \<lparr>parsed = False, cert_len = 0, subject_sha256 = [], issuer_sha256 = [], tbs_sha256 = [], signature_sha256 = [],
     signature_alg = None, tbs_signature_alg = None, public_key_alg = None, public_key_curve = None, signature_alg_consistent = False,
     signature_sha256_rsa = False, public_key_rsa = False, rsa_modulus_ready = False, signature_ready = False, signature_len = 0,
     public_key_bits = 0, rsa_modulus_len = 0, rsa_exponent = 0, tbs_digest = replicate 32 0,
     signature_bytes = replicate TLS_RSA_MAX_BYTES 0, rsa_modulus = replicate TLS_RSA_MAX_BYTES 0\<rparr>"

text \<open>The fields of \<^verbatim>\<open>tls_parse_info_t\<close> about the identity of the leaf; the record is extended where the others are used.\<close>

record tls_identity =
  expected_host :: string
  leaf_identity_parsed :: bool
  leaf_identity_match :: bool
  leaf_dns_names :: u64
  leaf_matched_dns :: string
  leaf_first_dns :: string
  leaf_not_before :: string
  leaf_not_after :: string

section \<open>Algorithms\<close>

definition tls_oid_equal :: "bytes \<Rightarrow> nat \<Rightarrow> u64 \<Rightarrow> bytes \<Rightarrow> bool option" where
  "tls_oid_equal m oid oid_len expected =
    (if oid_len = of_nat (length expected) then do { bs \<leftarrow> bytes_at m oid (unat oid_len); Some (bs = expected) } else Some False)"

definition oid_sha256_rsa :: bytes where "oid_sha256_rsa = [0x2a, 0x86, 0x48, 0x86, 0xf7, 0x0d, 0x01, 0x01, 0x0b]"
definition oid_sha384_rsa :: bytes where "oid_sha384_rsa = [0x2a, 0x86, 0x48, 0x86, 0xf7, 0x0d, 0x01, 0x01, 0x0c]"
definition oid_ecdsa_sha256 :: bytes where "oid_ecdsa_sha256 = [0x2a, 0x86, 0x48, 0xce, 0x3d, 0x04, 0x03, 0x02]"
definition oid_ecdsa_sha384 :: bytes where "oid_ecdsa_sha384 = [0x2a, 0x86, 0x48, 0xce, 0x3d, 0x04, 0x03, 0x03]"
definition oid_rsa_encryption :: bytes where "oid_rsa_encryption = [0x2a, 0x86, 0x48, 0x86, 0xf7, 0x0d, 0x01, 0x01, 0x01]"
definition oid_ec_public_key :: bytes where "oid_ec_public_key = [0x2a, 0x86, 0x48, 0xce, 0x3d, 0x02, 0x01]"
definition oid_secp256r1 :: bytes where "oid_secp256r1 = [0x2a, 0x86, 0x48, 0xce, 0x3d, 0x03, 0x01, 0x07]"
definition oid_secp384r1 :: bytes where "oid_secp384r1 = [0x2b, 0x81, 0x04, 0x00, 0x22]"
definition san_oid :: bytes where "san_oid = [0x55, 0x1d, 0x11]"

definition tls_signature_oid_name :: "bytes \<Rightarrow> nat \<Rightarrow> u64 \<Rightarrow> string option" where
  "tls_signature_oid_name m oid oid_len = do {
     a \<leftarrow> tls_oid_equal m oid oid_len oid_sha256_rsa;
     if a then Some ''sha256WithRSAEncryption'' else do {
     b \<leftarrow> tls_oid_equal m oid oid_len oid_sha384_rsa;
     if b then Some ''sha384WithRSAEncryption'' else do {
     c \<leftarrow> tls_oid_equal m oid oid_len oid_ecdsa_sha256;
     if c then Some ''ecdsaWithSHA256'' else do {
     d \<leftarrow> tls_oid_equal m oid oid_len oid_ecdsa_sha384;
     if d then Some ''ecdsaWithSHA384'' else Some ''unknown'' } } } }"

definition tls_signature_oid_is_sha256_rsa :: "bytes \<Rightarrow> nat \<Rightarrow> u64 \<Rightarrow> bool option" where
  "tls_signature_oid_is_sha256_rsa m oid oid_len = tls_oid_equal m oid oid_len oid_sha256_rsa"

definition tls_public_key_oid_name :: "bytes \<Rightarrow> nat \<Rightarrow> u64 \<Rightarrow> string option" where
  "tls_public_key_oid_name m oid oid_len = do {
     a \<leftarrow> tls_oid_equal m oid oid_len oid_rsa_encryption;
     if a then Some ''rsaEncryption'' else do {
     b \<leftarrow> tls_oid_equal m oid oid_len oid_ec_public_key;
     if b then Some ''id-ecPublicKey'' else Some ''unknown'' } }"

definition tls_public_key_oid_is_rsa :: "bytes \<Rightarrow> nat \<Rightarrow> u64 \<Rightarrow> bool option" where
  "tls_public_key_oid_is_rsa m oid oid_len = tls_oid_equal m oid oid_len oid_rsa_encryption"

definition tls_curve_oid_name :: "bytes \<Rightarrow> nat \<Rightarrow> u64 \<Rightarrow> string option" where
  "tls_curve_oid_name m oid oid_len = do {
     a \<leftarrow> tls_oid_equal m oid oid_len oid_secp256r1;
     if a then Some ''secp256r1'' else do {
     b \<leftarrow> tls_oid_equal m oid oid_len oid_secp384r1;
     if b then Some ''secp384r1'' else Some [] } }"

text \<open>The object identifier and, if the caller passes pointers for them, the parameters; \<open>None\<close> stands for the zeros stored there.\<close>

definition tls_parse_algorithm_identifier :: "bytes \<Rightarrow> nat \<Rightarrow> u64 \<Rightarrow> bool \<Rightarrow> ((nat \<times> u64) \<times> tlv option) option option" where
  "tls_parse_algorithm_identifier m der der_len want_params = do {
     (r, off) \<leftarrow> asn1_read_tlv m der der_len 0;
     (case r of
        None \<Rightarrow> Some None
      | Some (tag, oid, oid_len) \<Rightarrow>
          if tag \<noteq> 0x06 then Some None
          else if off < der_len \<and> want_params
          then do {
            (r, off) \<leftarrow> asn1_read_tlv m der der_len off;
            Some (case r of None \<Rightarrow> None | Some params \<Rightarrow> Some ((oid, oid_len), Some params)) }
          else Some (Some ((oid, oid_len), None))) }"

section \<open>Public keys\<close>

fun strip_zeros :: "bytes \<Rightarrow> nat \<Rightarrow> nat \<Rightarrow> (nat \<times> nat) option" where
  "strip_zeros m data0 0 = Some (data0, 0)"
| "strip_zeros m data0 (Suc len) = do {
     b \<leftarrow> rd m data0;
     if b = 0 then strip_zeros m (data0 + 1) len else Some (data0, Suc len) }"

function byte_bits :: "byte \<Rightarrow> u64" where
  "byte_bits first = (if first = 0 then 0 else 1 + byte_bits (drop_bit 1 first))"
  by pat_completeness auto

termination
proof (relation "measure unat")
  fix first :: byte
  assume "first \<noteq> 0"
  then have "0 < unat first" by (simp add: unat_gt_0)
  then have "drop_bit 1 (unat first) < unat first" by (simp add: drop_bit_eq_div)
  then show "(drop_bit 1 first, first) \<in> measure unat" by (simp only: in_measure unat_drop_bit_eq)
qed simp

definition tls_bit_length :: "bytes \<Rightarrow> nat \<Rightarrow> u64 \<Rightarrow> u64 option" where
  "tls_bit_length m data0 len = do {
     (data0, len) \<leftarrow> strip_zeros m data0 (unat len);
     if len = 0 then Some 0
     else do { first \<leftarrow> rd m data0; Some ((of_nat len - 1) * 8 + byte_bits first) } }"

definition tls_parse_small_uint :: "bytes \<Rightarrow> nat \<Rightarrow> u64 \<Rightarrow> u32 option" where
  "tls_parse_small_uint m data0 len = do {
     (data0, len) \<leftarrow> strip_zeros m data0 (unat len);
     if len > 4 then Some 0
     else do { bs \<leftarrow> bytes_at m data0 len; Some (foldl (\<lambda>v b. push_bit 8 v OR ucast b) 0 bs) } }"

definition tls_parse_rsa_public_key :: "bytes \<Rightarrow> nat \<Rightarrow> u64 \<Rightarrow> tls_cert_summary_t \<Rightarrow> tls_cert_summary_t option" where
  "tls_parse_rsa_public_key m bit_string bit_string_len summary =
    (if bit_string_len < 2 then Some summary
     else do {
       unused_bits \<leftarrow> rd m bit_string;
       if unused_bits \<noteq> 0 then Some summary
       else do {
         (r, off) \<leftarrow> asn1_read_tlv m bit_string bit_string_len 1;
         (case r of
            None \<Rightarrow> Some summary
          | Some (tag, body, body_len) \<Rightarrow>
              if tag \<noteq> 0x30 then Some summary
              else do {
                (r, p) \<leftarrow> asn1_read_tlv m body body_len 0;
                (case r of
                   None \<Rightarrow> Some summary
                 | Some (tag, modulus, modulus_len) \<Rightarrow>
                     if tag \<noteq> 0x02 then Some summary
                     else do {
                       (r, p) \<leftarrow> asn1_read_tlv m body body_len p;
                       (case r of
                          None \<Rightarrow> Some summary
                        | Some (tag, exponent, exponent_len) \<Rightarrow>
                            if tag \<noteq> 0x02 then Some summary
                            else do {
                              bits \<leftarrow> tls_bit_length m modulus modulus_len;
                              e \<leftarrow> tls_parse_small_uint m exponent exponent_len;
                              let summary = summary\<lparr>public_key_bits := bits, rsa_exponent := e\<rparr>;
                              (modulus, modulus_len) \<leftarrow> strip_zeros m modulus (unat modulus_len);
                              if modulus_len > 0 \<and> modulus_len \<le> TLS_RSA_MAX_BYTES
                              then do {
                                bs \<leftarrow> bytes_at m modulus modulus_len;
                                Some (summary\<lparr>rsa_modulus := blit 0 bs (rsa_modulus summary),
                                         rsa_modulus_len := of_nat modulus_len, rsa_modulus_ready := True\<rparr>) }
                              else Some summary }) }) }) } })"

definition tls_parse_spki :: "bytes \<Rightarrow> nat \<Rightarrow> u64 \<Rightarrow> tls_cert_summary_t \<Rightarrow> tls_cert_summary_t option" where
  "tls_parse_spki m der der_len summary = do {
     (r, off) \<leftarrow> asn1_read_tlv m der der_len 0;
     (case r of
        None \<Rightarrow> Some summary
      | Some (tag, alg_seq, alg_seq_len) \<Rightarrow>
          if tag \<noteq> 0x30 then Some summary
          else do {
            r \<leftarrow> tls_parse_algorithm_identifier m alg_seq alg_seq_len True;
            (case r of
               None \<Rightarrow> Some summary
             | Some ((oid, oid_len), params) \<Rightarrow> do {
                 name \<leftarrow> tls_public_key_oid_name m oid oid_len;
                 rsa \<leftarrow> tls_public_key_oid_is_rsa m oid oid_len;
                 let summary = summary\<lparr>public_key_alg := Some name, public_key_rsa := rsa\<rparr>;
                 summary \<leftarrow>
                   (case params of
                      Some (params_tag, params, params_len) \<Rightarrow>
                        if params_tag = 0x06
                        then do { curve \<leftarrow> tls_curve_oid_name m params params_len; Some (summary\<lparr>public_key_curve := Some curve\<rparr>) }
                        else Some summary
                    | None \<Rightarrow> Some summary);
                 (r, off) \<leftarrow> asn1_read_tlv m der der_len off;
                 (case r of
                    None \<Rightarrow> Some summary
                  | Some (tag, spki, spki_len) \<Rightarrow>
                      if tag \<noteq> 0x03 then Some summary
                      else if public_key_rsa summary then tls_parse_rsa_public_key m spki spki_len summary
                      else if spki_len > 1 then Some (summary\<lparr>public_key_bits := (spki_len - 1) * 8\<rparr>)
                      else Some summary) }) }) }"

section \<open>Certificates\<close>

text \<open>A function that returns -1 when a read fails goes on with \<open>or_fail\<close>; \<open>read_tagged\<close> is a read followed by the test of the tag.\<close>

definition or_fail :: "'a option option \<Rightarrow> ('a \<Rightarrow> 'b option option) \<Rightarrow> 'b option option" where
  "or_fail x f = do { r \<leftarrow> x; (case r of None \<Rightarrow> Some None | Some v \<Rightarrow> f v) }"

definition read_any :: "bytes \<Rightarrow> nat \<Rightarrow> u64 \<Rightarrow> u64 \<Rightarrow> (nat \<times> u64 \<times> u64) option option" where
  "read_any m der der_len off = do {
     (r, off) \<leftarrow> asn1_read_tlv m der der_len off;
     Some (case r of None \<Rightarrow> None | Some (tag, p, n) \<Rightarrow> Some (p, n, off)) }"

definition read_tagged :: "byte \<Rightarrow> bytes \<Rightarrow> nat \<Rightarrow> u64 \<Rightarrow> u64 \<Rightarrow> (nat \<times> u64 \<times> u64) option option" where
  "read_tagged want m der der_len off = do {
     (r, off) \<leftarrow> asn1_read_tlv m der der_len off;
     Some (case r of None \<Rightarrow> None | Some (tag, p, n) \<Rightarrow> if tag = want then Some (p, n, off) else None) }"

text \<open>\<^verbatim>\<open>sha256_buffer_hex\<close> and \<^verbatim>\<open>tls_sha256_bytes_hex\<close> of a value in the memory; the text without its NUL.\<close>

definition value_sha256 :: "bytes \<Rightarrow> nat \<Rightarrow> u64 \<Rightarrow> string option" where
  "value_sha256 m p n = do { bs \<leftarrow> bytes_at m p (unat n); hex \<leftarrow> sha256_buffer_hex bs; Some (butlast hex) }"

definition tls_sha256_bytes_hex :: "bytes \<Rightarrow> nat \<Rightarrow> u64 \<Rightarrow> (bytes \<times> string) option" where
  "tls_sha256_bytes_hex m p n = do {
     bs \<leftarrow> bytes_at m p (unat n);
     ctx \<leftarrow> sha256_update sha256_init bs;
     let digest = fst (sha256_final ctx);
     Some (digest, butlast (sha256_hex digest)) }"

text \<open>The version field in front of the serial number.\<close>

definition skip_version :: "bytes \<Rightarrow> nat \<Rightarrow> u64 \<Rightarrow> u64 option option" where
  "skip_version m tbs tbs_len =
    (if 0 < tbs_len
     then do {
       b \<leftarrow> rd m tbs;
       if b = 0xa0 then or_fail (read_any m tbs tbs_len 0) (\<lambda>(value, value_len, p). Some (Some p)) else Some (Some 0) }
     else Some (Some 0))"

definition tbs_signature :: "bytes \<Rightarrow> nat \<Rightarrow> u64 \<Rightarrow> tls_cert_summary_t \<Rightarrow> tls_cert_summary_t option" where
  "tbs_signature m value value_len summary = do {
     r \<leftarrow> tls_parse_algorithm_identifier m value value_len False;
     (case r of
        None \<Rightarrow> Some summary
      | Some ((oid, oid_len), _) \<Rightarrow> do {
          name \<leftarrow> tls_signature_oid_name m oid oid_len;
          Some (summary\<lparr>tbs_signature_alg := Some name\<rparr>) }) }"

definition outer_signature :: "bytes \<Rightarrow> nat \<Rightarrow> u64 \<Rightarrow> tls_cert_summary_t \<Rightarrow> tls_cert_summary_t option" where
  "outer_signature m value value_len summary = do {
     r \<leftarrow> tls_parse_algorithm_identifier m value value_len False;
     (case r of
        None \<Rightarrow> Some summary
      | Some ((oid, oid_len), _) \<Rightarrow> do {
          name \<leftarrow> tls_signature_oid_name m oid oid_len;
          rsa \<leftarrow> tls_signature_oid_is_sha256_rsa m oid oid_len;
          Some (summary\<lparr>signature_alg := Some name, signature_sha256_rsa := rsa\<rparr>) }) }"

text \<open>The fields of the part that is signed, from the serial number to the public key.\<close>

definition parse_tbs :: "bytes \<Rightarrow> nat \<Rightarrow> u64 \<Rightarrow> tls_cert_summary_t \<Rightarrow> tls_cert_summary_t option option" where
  "parse_tbs m tbs tbs_len summary =
     or_fail (skip_version m tbs tbs_len) (\<lambda>p.
     or_fail (read_any m tbs tbs_len p) (\<lambda>(value, value_len, p).
     or_fail (read_tagged 0x30 m tbs tbs_len p) (\<lambda>(value, value_len, p). do {
       summary \<leftarrow> tbs_signature m value value_len summary;
       or_fail (read_tagged 0x30 m tbs tbs_len p) (\<lambda>(value, value_len, p). do {
         hex \<leftarrow> value_sha256 m value value_len;
         let summary = summary\<lparr>issuer_sha256 := hex\<rparr>;
         or_fail (read_tagged 0x30 m tbs tbs_len p) (\<lambda>(value, value_len, p).
         or_fail (read_tagged 0x30 m tbs tbs_len p) (\<lambda>(value, value_len, p). do {
           hex \<leftarrow> value_sha256 m value value_len;
           let summary = summary\<lparr>subject_sha256 := hex\<rparr>;
           or_fail (read_tagged 0x30 m tbs tbs_len p) (\<lambda>(value, value_len, p). do {
             summary \<leftarrow> tls_parse_spki m value value_len summary;
             Some (Some summary) }) })) }) })))"

definition store_signature :: "bytes \<Rightarrow> nat \<Rightarrow> u64 \<Rightarrow> u64 \<Rightarrow> tls_cert_summary_t \<Rightarrow> tls_cert_summary_t option" where
  "store_signature m cert_seq cert_seq_len cert_off summary = do {
     r \<leftarrow> read_tagged 0x03 m cert_seq cert_seq_len cert_off;
     (case r of
        None \<Rightarrow> Some summary
      | Some (value, value_len, cert_off) \<Rightarrow>
          if value_len > 1
          then do {
            hex \<leftarrow> value_sha256 m (value + 1) (value_len - 1);
            let summary = summary\<lparr>signature_len := value_len - 1, signature_sha256 := hex\<rparr>;
            if unat (signature_len summary) \<le> TLS_RSA_MAX_BYTES
            then do {
              bs \<leftarrow> bytes_at m (value + 1) (unat (signature_len summary));
              Some (summary\<lparr>signature_bytes := blit 0 bs (signature_bytes summary), signature_ready := True\<rparr>) }
            else Some summary }
          else Some summary) }"

definition tls_parse_certificate_names :: "bytes \<Rightarrow> nat \<Rightarrow> u64 \<Rightarrow> tls_cert_summary_t option option" where
  "tls_parse_certificate_names m cert cert_n =
    (let summary = cert_summary_zero\<lparr>cert_len := cert_n\<rparr> in
     or_fail (read_tagged 0x30 m cert cert_n 0) (\<lambda>(cert_seq, cert_seq_len, off).
     or_fail (read_tagged 0x30 m cert_seq cert_seq_len 0) (\<lambda>(tbs, tbs_len, cert_off). do {
       (digest, hex) \<leftarrow> tls_sha256_bytes_hex m cert_seq cert_off;
       let summary = summary\<lparr>tbs_digest := digest, tbs_sha256 := hex\<rparr>;
       or_fail (parse_tbs m tbs tbs_len summary) (\<lambda>summary.
       or_fail (read_tagged 0x30 m cert_seq cert_seq_len cert_off) (\<lambda>(value, value_len, cert_off). do {
         summary \<leftarrow> outer_signature m value value_len summary;
         let summary =
           (if signature_alg summary \<noteq> None \<and> tbs_signature_alg summary \<noteq> None \<and> signature_alg summary \<noteq> Some ''unknown'' \<and>
               signature_alg summary = tbs_signature_alg summary
            then summary\<lparr>signature_alg_consistent := True\<rparr> else summary);
         summary \<leftarrow> store_signature m cert_seq cert_seq_len cert_off summary;
         Some (Some (summary\<lparr>parsed := True\<rparr>)) })) })))"

section \<open>The names of the leaf\<close>

text \<open>One name of the extension, and the loop over them.\<close>

definition san_name :: "bytes \<Rightarrow> nat \<Rightarrow> u64 \<Rightarrow> 'z tls_identity_scheme \<Rightarrow> 'z tls_identity_scheme option" where
  "san_name m name name_len info = do {
     let info = info\<lparr>leaf_dns_names := leaf_dns_names info + 1\<rparr>;
     info \<leftarrow>
       (if leaf_first_dns info = []
        then do { s \<leftarrow> copy_ascii_limited (leaf_first_dns info) 96 m name name_len; Some (info\<lparr>leaf_first_dns := s\<rparr>) }
        else Some info);
     if leaf_identity_match info then Some info
     else do {
       b \<leftarrow> tls_dns_name_matches (expected_host info) m name name_len;
       if b then do {
         s \<leftarrow> copy_ascii_limited (leaf_matched_dns info) 96 m name name_len;
         Some (info\<lparr>leaf_identity_match := True, leaf_matched_dns := s\<rparr>) }
       else Some info } }"

partial_function (option) san_loop :: "bytes \<Rightarrow> nat \<Rightarrow> u64 \<Rightarrow> u64 \<Rightarrow> 'z tls_identity_scheme \<Rightarrow> 'z tls_identity_scheme option" where
  [code]: "san_loop m body body_len p info =
    (if p < body_len
     then do {
       (r, p) \<leftarrow> asn1_read_tlv m body body_len p;
       (case r of
          None \<Rightarrow> Some info
        | Some (tag, name, name_len) \<Rightarrow>
            if tag \<noteq> 0x82 then san_loop m body body_len p info
            else do { info \<leftarrow> san_name m name name_len info; san_loop m body body_len p info }) }
     else Some info)"

definition tls_parse_subject_alt_names :: "bytes \<Rightarrow> nat \<Rightarrow> u64 \<Rightarrow> 'z tls_identity_scheme \<Rightarrow> 'z tls_identity_scheme option" where
  "tls_parse_subject_alt_names m der der_len info = do {
     r \<leftarrow> read_tagged 0x30 m der der_len 0;
     (case r of None \<Rightarrow> Some info | Some (body, body_len, off) \<Rightarrow> san_loop m body body_len 0 info) }"

text \<open>One extension: its identifier, the optional critical flag, and the value.\<close>

definition extension :: "bytes \<Rightarrow> nat \<Rightarrow> u64 \<Rightarrow> 'z tls_identity_scheme \<Rightarrow> 'z tls_identity_scheme option" where
  "extension m ext ext_len info = do {
     r \<leftarrow> read_tagged 0x06 m ext ext_len 0;
     (case r of
        None \<Rightarrow> Some info
      | Some (oid, oid_len, e) \<Rightarrow> do {
          e \<leftarrow> (if e < ext_len
               then do {
                 b \<leftarrow> rd m (ext + unat e);
                 if b = 0x01 then do { (r, e) \<leftarrow> asn1_read_tlv m ext ext_len e; Some e } else Some e }
               else Some e);
          r \<leftarrow> read_tagged 0x04 m ext ext_len e;
          (case r of
             None \<Rightarrow> Some info
           | Some (value, value_len, e) \<Rightarrow> do {
               san \<leftarrow> tls_oid_equal m oid oid_len san_oid;
               if san then tls_parse_subject_alt_names m value value_len info else Some info }) }) }"

partial_function (option) extensions_loop :: "bytes \<Rightarrow> nat \<Rightarrow> u64 \<Rightarrow> u64 \<Rightarrow> 'z tls_identity_scheme \<Rightarrow> 'z tls_identity_scheme option" where
  [code]: "extensions_loop m body body_len p info =
    (if p < body_len
     then do {
       r \<leftarrow> read_tagged 0x30 m body body_len p;
       (case r of
          None \<Rightarrow> Some info
        | Some (ext, ext_len, p) \<Rightarrow> do { info \<leftarrow> extension m ext ext_len info; extensions_loop m body body_len p info }) }
     else Some info)"

definition tls_parse_certificate_extensions :: "bytes \<Rightarrow> nat \<Rightarrow> u64 \<Rightarrow> 'z tls_identity_scheme \<Rightarrow> 'z tls_identity_scheme option" where
  "tls_parse_certificate_extensions m der der_len info = do {
     r \<leftarrow> read_tagged 0x30 m der der_len 0;
     (case r of None \<Rightarrow> Some info | Some (body, body_len, off) \<Rightarrow> extensions_loop m body body_len 0 info) }"

text \<open>One of the two times; the offset advances also when the read fails.\<close>

definition asn1_time :: "bytes \<Rightarrow> nat \<Rightarrow> u64 \<Rightarrow> u64 \<Rightarrow> string \<Rightarrow> (string \<times> u64) option" where
  "asn1_time m value value_len v old = do {
     (r, v) \<leftarrow> asn1_read_tlv m value value_len v;
     (case r of
        None \<Rightarrow> Some (old, v)
      | Some (tag, time_value, time_len) \<Rightarrow>
          if tag = 0x17 \<or> tag = 0x18
          then do { s \<leftarrow> copy_ascii_limited old 32 m time_value time_len; Some (s, v) }
          else Some (old, v)) }"

partial_function (option) find_extensions :: "bytes \<Rightarrow> nat \<Rightarrow> u64 \<Rightarrow> u64 \<Rightarrow> 'z tls_identity_scheme \<Rightarrow> 'z tls_identity_scheme option" where
  [code]: "find_extensions m tbs tbs_len p info =
    (if p < tbs_len
     then do {
       (r, p) \<leftarrow> asn1_read_tlv m tbs tbs_len p;
       (case r of
          None \<Rightarrow> Some info
        | Some (tag, value, value_len) \<Rightarrow>
            if tag = 0xa3
            then do { info \<leftarrow> tls_parse_certificate_extensions m value value_len info; Some (info\<lparr>leaf_identity_parsed := True\<rparr>) }
            else find_extensions m tbs tbs_len p info) }
     else Some (info\<lparr>leaf_identity_parsed := True\<rparr>))"

text \<open>\<open>identity_or\<close> is an early return with what has been stored so far.\<close>

definition identity_or :: "'i \<Rightarrow> 'a option option \<Rightarrow> ('a \<Rightarrow> 'i option) \<Rightarrow> 'i option" where
  "identity_or info x f = do { r \<leftarrow> x; (case r of None \<Rightarrow> Some info | Some v \<Rightarrow> f v) }"

definition tls_parse_leaf_identity :: "bytes \<Rightarrow> nat \<Rightarrow> u64 \<Rightarrow> 'z tls_identity_scheme \<Rightarrow> 'z tls_identity_scheme option" where
  "tls_parse_leaf_identity m cert cert_n info =
     identity_or info (read_tagged 0x30 m cert cert_n 0) (\<lambda>(cert_seq, cert_seq_len, off).
     identity_or info (read_tagged 0x30 m cert_seq cert_seq_len 0) (\<lambda>(tbs, tbs_len, cert_off).
     identity_or info (skip_version m tbs tbs_len) (\<lambda>p.
     identity_or info (read_any m tbs tbs_len p) (\<lambda>(value, value_len, p).
     identity_or info (read_any m tbs tbs_len p) (\<lambda>(value, value_len, p).
     identity_or info (read_any m tbs tbs_len p) (\<lambda>(value, value_len, p).
     identity_or info (read_tagged 0x30 m tbs tbs_len p) (\<lambda>(value, value_len, p). do {
       (s, v) \<leftarrow> asn1_time m value value_len 0 (leaf_not_before info);
       let info = info\<lparr>leaf_not_before := s\<rparr>;
       (s, v) \<leftarrow> asn1_time m value value_len v (leaf_not_after info);
       let info = info\<lparr>leaf_not_after := s\<rparr>;
       identity_or info (read_any m tbs tbs_len p) (\<lambda>(value, value_len, p).
       identity_or info (read_any m tbs tbs_len p) (\<lambda>(value, value_len, p).
         find_extensions m tbs tbs_len p info)) })))))))"

section \<open>Reading through a value\<close>

text \<open>What is left of a value of length \<open>L\<close> at \<open>der\<close> from offset \<open>q\<close> on.\<close>

definition left_at :: "bytes \<Rightarrow> nat \<Rightarrow> nat \<Rightarrow> nat \<Rightarrow> bytes \<Rightarrow> bool" where
  "left_at m der L q rest \<longleftrightarrow> present m (der + q) rest \<and> q + length rest = L"

lemma left_at_bytes: "left_at m v (length c) 0 c \<Longrightarrow> bytes_at m v (length c) = Some c"
  by (simp add: left_at_def bytes_at_present)

lemma read_next:
  assumes "left_at m der L q (der_tlv t c @ rest)" "L < 16777216"
  obtains v q' where "asn1_read_tlv m der (of_nat L) (of_nat q) = Some (Some (t, v, of_nat (length c)), of_nat q')"
    "left_at m v (length c) 0 c" "left_at m der L q' rest" "length c < L" "q' = q + length (der_tlv t c)" "q < L"
proof
  have p: "present m (der + q) (der_tlv t c)" "q + length (der_tlv t c) \<le> L" using assms(1) by (simp_all add: left_at_def)
  then have c: "length c < L" using der_head_bounds(1) [of c] by (simp add: length_der_tlv)
  show "asn1_read_tlv m der (of_nat L) (of_nat q) =
      Some (Some (t, der + q + der_head c, of_nat (length c)), of_nat (q + length (der_tlv t c)))"
    by (rule asn1_reads_der [OF p]) (use assms(2) c in simp_all)
  show "left_at m (der + q + der_head c) (length c) 0 c" using p(1) by (simp add: left_at_def der_tlv_def der_head_def)
  show "left_at m der L (q + length (der_tlv t c)) rest" using assms(1) by (simp add: left_at_def add.assoc)
  show "length c < L" "q + length (der_tlv t c) = q + length (der_tlv t c)" by (rule c, rule refl)
  show "q < L" using p(2) der_head_bounds(1) [of c] by (simp add: length_der_tlv)
qed

lemma sha256_buffer_hex_value: "sha256_buffer_hex bs = Some (sha256_hex (fips256 bs))"
  by (simp add: sha256_buffer_hex_def sha256_buffer_fips)

lemma value_sha256_left: "left_at m v (length c) 0 c \<Longrightarrow> length c < 16777216 \<Longrightarrow> value_sha256 m v (of_nat (length c)) = Some (butlast (sha256_hex (fips256 c)))"
  by (simp add: value_sha256_def left_at_bytes sha256_buffer_hex_value)

section \<open>Loops that do not end\<close>

text \<open>A name whose length wraps the offset back to its own start.\<close>

lemma san_loop_stuck:
  assumes "p < L" "asn1_read_tlv m body L p = Some (Some (t, v, n), p)" "t \<noteq> 0x82"
  shows "san_loop m body L p info = None"
proof -
  have "\<not> (p < L \<and> (\<exists>t v n. asn1_read_tlv m body L p = Some (Some (t, v, n), p) \<and> t \<noteq> 0x82))"
    if "san_loop m body L p info = Some y" for m body L p y and info :: "'a tls_identity_scheme"
    using that
    by (rule san_loop.raw_induct [rotated, where P = "\<lambda>m body L p info y.
          \<not> (p < L \<and> (\<exists>t v n. asn1_read_tlv m body L p = Some (Some (t, v, n), p) \<and> t \<noteq> 0x82))"])
      (auto split: if_splits, blast)
  with assms show ?thesis by (cases "san_loop m body L p info") blast+
qed

text \<open>The names of an extension.\<close>

definition san_der :: "(byte \<times> bytes) list \<Rightarrow> bytes" where
  "san_der names = der_tlv 0x30 (concat (map (\<lambda>(t, c). der_tlv t c) names))"

lemma copy_ascii_present: "present m p bs \<Longrightarrow> length bs < 16777216 \<Longrightarrow> \<exists>s. copy_ascii_limited out cap m p (of_nat (length bs)) = Some s"
proof -
  assume p: "present m p bs" "length bs < 16777216"
  have "\<exists>y. bytes_at m p n = Some y" if "n \<le> length bs" for n
    using present_end [OF p(1)] that by (auto simp: bytes_at_def)
  from this [of "length bs"] this [of "cap - 1"] obtain y z where
    "bytes_at m p (length bs) = Some y" "cap \<le> length bs \<longrightarrow> bytes_at m p (cap - 1) = Some z" by fastforce
  with p(2) show ?thesis by (auto simp: copy_ascii_limited_def Let_def)
qed

text \<open>What reading a list of names leaves in the record: whether one of the DNS names matches the host, and nothing else but the texts.\<close>

definition names_checked :: "(byte \<times> bytes) list \<Rightarrow> 'z tls_identity_scheme \<Rightarrow> 'z tls_identity_scheme \<Rightarrow> bool" where
  "names_checked names info info' \<longleftrightarrow>
     expected_host info' = expected_host info \<and> tls_identity.more info' = tls_identity.more info \<and>
     leaf_identity_match info' = (leaf_identity_match info \<or> (\<exists>c. (0x82, c) \<in> set names \<and> host_matches (expected_host info) c)) \<and>
     leaf_dns_names info' = leaf_dns_names info + of_nat (length (filter (\<lambda>(t, c). t = 0x82) names))"

lemma names_checked_Nil [simp]: "names_checked [] info info"
  by (simp add: names_checked_def)

lemma names_checked_append: "names_checked xs info info1 \<Longrightarrow> names_checked ys info1 info2 \<Longrightarrow> names_checked (xs @ ys) info info2"
  by (auto simp: names_checked_def add.assoc)

lemma san_name_left:
  assumes "left_at m v (length c) 0 c" "length c < 16777216"
  shows "\<exists>info'. san_name m v (of_nat (length c)) info = Some info' \<and> names_checked [(0x82, c)] info info'"
proof -
  have p: "present m v c" using assms(1) by (simp add: left_at_def)
  have n: "tls_dns_name_matches h m v (of_nat (length c)) = Some (host_matches h c)" for h
    by (rule dns_name_matches_present [OF p]) (use assms(2) in simp)
  note copy = copy_ascii_present [OF p assms(2)]
  from copy [of "leaf_first_dns info" 96] copy [of "leaf_matched_dns info" 96] show ?thesis
    by (auto simp: san_name_def Let_def n names_checked_def)
qed

lemma u64_offset_less: "q < L \<Longrightarrow> L < 16777216 \<Longrightarrow> (of_nat q :: u64) < of_nat L"
  by (simp add: u64_compare)

lemma san_loop_names:
  assumes "left_at m body L q (concat (map (\<lambda>(t, c). der_tlv t c) names))" "L < 16777216"
  shows "\<exists>info'. san_loop m body (of_nat L) (of_nat q) info = Some info' \<and> names_checked names info info'"
  using assms(1)
proof (induction names arbitrary: q info)
  case Nil
  then have "q = L" by (simp add: left_at_def)
  then show ?case by (subst san_loop.simps) simp
next
  case (Cons nm names)
  obtain t c where nm: "nm = (t, c)" by force
  from Cons.prems nm obtain v q' where r: "asn1_read_tlv m body (of_nat L) (of_nat q) = Some (Some (t, v, of_nat (length c)), of_nat q')"
    and c: "left_at m v (length c) 0 c" "length c < L" and rest: "left_at m body L q' (concat (map (\<lambda>(t, c). der_tlv t c) names))" and "q < L"
    by (auto intro: read_next [OF _ assms(2)])
  have lt: "(of_nat q :: u64) < of_nat L" by (rule u64_offset_less [OF \<open>q < L\<close> assms(2)])
  show ?case
  proof (cases "t = 0x82")
    case False
    then have "names_checked names info info' \<Longrightarrow> names_checked (nm # names) info info'" for info'
      by (auto simp: names_checked_def nm)
    with False Cons.IH [OF rest, of info] show ?thesis by (subst san_loop.simps) (auto simp: lt r nm)
  next
    case True
    obtain info1 where i: "san_name m v (of_nat (length c)) info = Some info1" "names_checked [nm] info info1"
      using san_name_left [OF c(1)] c(2) assms(2) True nm by fastforce
    from Cons.IH [OF rest, of info1] i True names_checked_append [OF i(2)] show ?thesis by (subst san_loop.simps) (auto simp: lt r nm)
  qed
qed

lemma alt_names_left:
  assumes "left_at m der (length (san_der names)) 0 (san_der names)" "length (san_der names) < 16777216"
  shows "\<exists>info'. tls_parse_subject_alt_names m der (of_nat (length (san_der names))) info = Some info' \<and> names_checked names info info'"
proof -
  let ?L = "length (san_der names)" and ?c = "concat (map (\<lambda>(t, c). der_tlv t c) names)"
  have "left_at m der ?L 0 (der_tlv 0x30 ?c @ [])" using assms(1) by (simp add: san_der_def)
  then obtain v q' where "asn1_read_tlv m der (of_nat ?L) (of_nat 0) = Some (Some (0x30, v, of_nat (length ?c)), of_nat q')"
    and c: "left_at m v (length ?c) 0 ?c" "length ?c < ?L"
    by (rule read_next [OF _ assms(2)])
  then show ?thesis using san_loop_names [OF c(1), of info] assms(2)
    by (simp add: tls_parse_subject_alt_names_def read_tagged_def)
qed

text \<open>The certificates a peer may present, as a certification authority encodes them.\<close>

record x509 =
  x_version :: "bytes option"
  x_serial :: bytes
  x_sig_oid :: bytes
  x_sig_params :: bytes
  x_issuer :: bytes
  x_not_before :: bytes
  x_not_after :: bytes
  x_subject :: bytes
  x_modulus :: bytes
  x_exponent :: bytes
  x_extensions :: "(bytes \<times> bool \<times> bytes) list"
  x_names :: "(byte \<times> bytes) list"
  x_signature :: bytes

definition sig_der :: "x509 \<Rightarrow> bytes" where
  "sig_der x = der_tlv 0x30 (der_tlv 0x06 (x_sig_oid x) @ x_sig_params x)"

definition spki_der :: "x509 \<Rightarrow> bytes" where
  "spki_der x = der_tlv 0x30 (der_tlv 0x30 (der_tlv 0x06 oid_rsa_encryption @ der_tlv 0x05 []) @
     der_tlv 0x03 (0 # der_tlv 0x30 (der_tlv 0x02 (x_modulus x) @ der_tlv 0x02 (x_exponent x))))"

definition extension_der :: "bytes \<times> bool \<times> bytes \<Rightarrow> bytes" where
  "extension_der e = (case e of (oid, critical, value) \<Rightarrow>
     der_tlv 0x30 (der_tlv 0x06 oid @ (if critical then der_tlv 0x01 [0xff] else []) @ der_tlv 0x04 value))"

definition extensions_der :: "x509 \<Rightarrow> bytes" where
  "extensions_der x = der_tlv 0xa3 (der_tlv 0x30 (concat (map extension_der (x_extensions x @ [(san_oid, False, san_der (x_names x))]))))"

definition tbs_body :: "x509 \<Rightarrow> bytes" where
  "tbs_body x =
     (case x_version x of None \<Rightarrow> [] | Some v \<Rightarrow> der_tlv 0xa0 v) @ der_tlv 0x02 (x_serial x) @ sig_der x @ der_tlv 0x30 (x_issuer x) @
      der_tlv 0x30 (der_tlv 0x17 (x_not_before x) @ der_tlv 0x17 (x_not_after x)) @ der_tlv 0x30 (x_subject x) @ spki_der x @ extensions_der x"

definition tbs_der :: "x509 \<Rightarrow> bytes" where
  "tbs_der x = der_tlv 0x30 (tbs_body x)"

definition cert_der :: "x509 \<Rightarrow> bytes" where
  "cert_der x = der_tlv 0x30 (tbs_der x @ sig_der x @ der_tlv 0x03 (0 # x_signature x))"

section \<open>The identity of the leaf\<close>

lemma oid_equal_left:
  "left_at m v (length c) 0 c \<Longrightarrow> length c < 16777216 \<Longrightarrow> length o1 < 16777216 \<Longrightarrow> tls_oid_equal m v (of_nat (length c)) o1 = Some (c = o1)"
proof -
  assume c: "left_at m v (length c) 0 c" "length c < 16777216" "length o1 < 16777216"
  have "(of_nat (length c) :: u64) = of_nat (length o1) \<longleftrightarrow> length c = length o1"
    using c(2,3) by (simp add: word_unat_eq_iff)
  moreover have "unat (of_nat (length c) :: u64) = length c" using c(2) by simp
  ultimately show ?thesis using left_at_bytes [OF c(1)] unfolding tls_oid_equal_def by auto
qed

lemma extension_left:
  assumes "left_at m ext (length c) 0 c" "length c < 16777216"
    "c = der_tlv 0x06 oid @ (if critical then der_tlv 0x01 [0xff] else []) @ der_tlv 0x04 value"
    "oid = san_oid \<Longrightarrow> value = san_der names"
  shows "\<exists>info'. extension m ext (of_nat (length c)) info = Some info' \<and> names_checked (if oid = san_oid then names else []) info info'"
proof -
  let ?L = "length c" and ?rest = "(if critical then der_tlv 0x01 [0xff] else []) @ der_tlv 0x04 value"
  have "left_at m ext ?L 0 (der_tlv 0x06 oid @ ?rest)" using assms(1,3) by simp
  then obtain v1 q1 where r1: "asn1_read_tlv m ext (of_nat ?L) (of_nat 0) = Some (Some (0x06, v1, of_nat (length oid)), of_nat q1)"
    and c1: "left_at m v1 (length oid) 0 oid" "length oid < ?L" and l1: "left_at m ext ?L q1 ?rest"
    by (rule read_next [OF _ assms(2)])
  have "?rest \<noteq> []" by (simp add: der_tlv_def)
  then have lt: "q1 < ?L" using l1 unfolding left_at_def by (metis add_less_cancel_left add.right_neutral length_greater_0_conv)
  have rd1: "rd m (ext + q1) = Some (if critical then 0x01 else 0x04)"
    using l1 by (auto simp: left_at_def der_tlv_def split: if_splits)
  have sm: "q1 < 18446744073709551616" using lt assms(2) by simp
  obtain q2 where e: "(if (of_nat q1 :: u64) < of_nat ?L
      then do { b \<leftarrow> rd m (ext + unat (of_nat q1 :: u64));
                if b = 0x01 then do { (r, e) \<leftarrow> asn1_read_tlv m ext (of_nat ?L) (of_nat q1); Some e } else Some (of_nat q1) }
      else Some (of_nat q1)) = Some (of_nat q2)" and l2: "left_at m ext ?L q2 (der_tlv 0x04 value @ [])"
  proof (cases critical)
    case True
    then have "left_at m ext ?L q1 (der_tlv 0x01 [0xff] @ der_tlv 0x04 value)" using l1 by simp
    then obtain v q2 where "asn1_read_tlv m ext (of_nat ?L) (of_nat q1) = Some (Some (0x01, v, of_nat (length [0xff :: byte])), of_nat q2)"
      and "left_at m ext ?L q2 (der_tlv 0x04 value)"
      by (rule read_next [OF _ assms(2)])
    with True rd1 sm show ?thesis by (intro that [of q2]) (simp_all add: u64_offset_less [OF lt assms(2)])
  next
    case False
    with rd1 sm l1 show ?thesis by (intro that [of q1]) simp_all
  qed
  obtain v2 q3 where r2: "asn1_read_tlv m ext (of_nat ?L) (of_nat q2) = Some (Some (0x04, v2, of_nat (length value)), of_nat q3)"
    and c2: "left_at m v2 (length value) 0 value" "length value < ?L"
    by (rule read_next [OF l2 assms(2)])
  have oid: "tls_oid_equal m v1 (of_nat (length oid)) san_oid = Some (oid = san_oid)"
    by (rule oid_equal_left [OF c1(1)]) (use c1(2) assms(2) in \<open>simp_all add: san_oid_def\<close>)
  have "extension m ext (of_nat ?L) info =
      (if oid = san_oid then tls_parse_subject_alt_names m v2 (of_nat (length value)) info else Some info)"
    using r1 r2 by (simp add: extension_def read_tagged_def e oid)
  with alt_names_left [of m v2 names info] c2 assms(2,4) show ?thesis by auto
qed

lemma extensions_step:
  assumes "left_at m body L q (extension_der (oid, critical, value) @ rest)" "L < 16777216" "oid = san_oid \<Longrightarrow> value = san_der names"
  shows "\<exists>info1 q1. names_checked (if oid = san_oid then names else []) info info1 \<and> left_at m body L q1 rest \<and>
    extensions_loop m body (of_nat L) (of_nat q) info = extensions_loop m body (of_nat L) (of_nat q1) info1"
proof -
  let ?c = "der_tlv 0x06 oid @ (if critical then der_tlv 0x01 [0xff] else []) @ der_tlv 0x04 value"
  have "left_at m body L q (der_tlv 0x30 ?c @ rest)" using assms(1) by (simp add: extension_der_def)
  then obtain v q1 where r: "asn1_read_tlv m body (of_nat L) (of_nat q) = Some (Some (0x30, v, of_nat (length ?c)), of_nat q1)"
    and c: "left_at m v (length ?c) 0 ?c" "length ?c < L" and l: "left_at m body L q1 rest" and "q < L"
    by (rule read_next [OF _ assms(2)])
  obtain info1 where i: "extension m v (of_nat (length ?c)) info = Some info1" "names_checked (if oid = san_oid then names else []) info info1"
    using extension_left [OF c(1) _ refl assms(3), of info] c(2) assms(2) by fastforce
  have "extensions_loop m body (of_nat L) (of_nat q) info = extensions_loop m body (of_nat L) (of_nat q1) info1"
    using r i(1) u64_offset_less [OF \<open>q < L\<close> assms(2)] by (subst extensions_loop.simps) (simp add: read_tagged_def)
  with i(2) l show ?thesis by blast
qed

lemma extensions_loop_left:
  assumes "left_at m body L q (concat (map extension_der (exts @ [(san_oid, False, san_der names)])))" "L < 16777216" "san_oid \<notin> fst ` set exts"
  shows "\<exists>info'. extensions_loop m body (of_nat L) (of_nat q) info = Some info' \<and> names_checked names info info'"
  using assms(1,3)
proof (induction exts arbitrary: q info)
  case Nil
  then have "left_at m body L q (extension_der (san_oid, False, san_der names) @ [])" by simp
  from extensions_step [OF this assms(2), of names info] obtain info1 q1 where i: "names_checked names info info1" "left_at m body L q1 []"
    "extensions_loop m body (of_nat L) (of_nat q) info = extensions_loop m body (of_nat L) (of_nat q1) info1" by auto
  moreover have "extensions_loop m body (of_nat L) (of_nat q1) info1 = Some info1"
    using i(2) by (subst extensions_loop.simps) (simp add: left_at_def)
  ultimately show ?case by simp
next
  case (Cons e exts)
  obtain oid critical vl where e: "e = (oid, critical, vl)" by (cases e)
  with Cons.prems(2) have ne: "oid \<noteq> san_oid" by auto
  have "left_at m body L q (extension_der (oid, critical, vl) @ concat (map extension_der (exts @ [(san_oid, False, san_der names)])))"
    using Cons.prems(1) by (simp add: e)
  from extensions_step [OF this assms(2), of "[]" info] ne obtain info1 q1 where i: "names_checked [] info info1"
    "left_at m body L q1 (concat (map extension_der (exts @ [(san_oid, False, san_der names)])))"
    "extensions_loop m body (of_nat L) (of_nat q) info = extensions_loop m body (of_nat L) (of_nat q1) info1" by auto
  from Cons.IH [OF i(2), of info1] Cons.prems(2) i(3) names_checked_append [OF i(1)] show ?case by auto
qed

text \<open>A value with the fields of a leaf certificate, whatever the tags of the fields that are skipped.\<close>

definition leaf_tbs :: "bytes \<Rightarrow> (byte \<times> bytes) list \<Rightarrow> bytes \<Rightarrow> bytes \<Rightarrow> (byte \<times> bytes) list \<Rightarrow> (bytes \<times> bool \<times> bytes) list \<Rightarrow> (byte \<times> bytes) list \<Rightarrow> bytes" where
  "leaf_tbs version fs1 nb na fs2 exts names =
     version @ concat (map (\<lambda>(t, c). der_tlv t c) fs1) @ der_tlv 0x30 (der_tlv 0x17 nb @ der_tlv 0x17 na) @ concat (map (\<lambda>(t, c). der_tlv t c) fs2) @
     der_tlv 0xa3 (der_tlv 0x30 (concat (map extension_der (exts @ [(san_oid, False, san_der names)]))))"

lemma skip_version_left:
  assumes "left_at m tbs L 0 (version @ rest)" "L < 16777216" "version = [] \<and> (\<exists>t c r. rest = der_tlv t c @ r \<and> t \<noteq> 0xa0) \<or> (\<exists>v. version = der_tlv 0xa0 v)"
  obtains q where "skip_version m tbs (of_nat L) = Some (Some (of_nat q))" "left_at m tbs L q rest"
  using assms(3)
proof (elim disjE conjE exE)
  fix t c r assume v: "version = []" "rest = der_tlv t c @ r" "t \<noteq> 0xa0"
  then have "0 < L" "rd m tbs = Some t" using assms(1) by (simp_all add: left_at_def der_tlv_def)
  then show thesis using v assms(1,2) u64_offset_less [of 0 L] by (intro that [of 0]) (simp_all add: skip_version_def)
next
  fix v assume v: "version = der_tlv 0xa0 v"
  then have l: "left_at m tbs L 0 (der_tlv 0xa0 v @ rest)" using assms(1) by simp
  then have rd: "rd m tbs = Some 0xa0" by (simp add: left_at_def der_tlv_def)
  from l obtain p q where "asn1_read_tlv m tbs (of_nat L) (of_nat 0) = Some (Some (0xa0, p, of_nat (length v)), of_nat q)" "left_at m tbs L q rest" "0 < L"
    by (rule read_next [OF _ assms(2)])
  then show thesis using rd assms(2) u64_offset_less [of 0 L]
    by (intro that [of q]) (simp_all add: skip_version_def or_fail_def read_any_def)
qed

lemma asn1_time_left:
  assumes "left_at m v L q (der_tlv 0x17 c @ rest)" "L < 16777216"
  obtains s q' where "asn1_time m v (of_nat L) (of_nat q) old = Some (s, of_nat q')" "left_at m v L q' rest"
proof -
  obtain p q' where r: "asn1_read_tlv m v (of_nat L) (of_nat q) = Some (Some (0x17, p, of_nat (length c)), of_nat q')"
    and c: "left_at m p (length c) 0 c" "length c < L" and l: "left_at m v L q' rest"
    by (rule read_next [OF assms])
  have "present m p c" using c(1) by (simp add: left_at_def)
  then obtain s where "copy_ascii_limited old 32 m p (of_nat (length c)) = Some s"
    using copy_ascii_present [of m p c old 32] c(2) assms(2) by auto
  with r l show ?thesis by (intro that [of s q']) (simp_all add: asn1_time_def)
qed

lemma leaf_identity_left:
  assumes "left_at m cert L 0 (der_tlv 0x30 (der_tlv 0x30 (leaf_tbs version [f1, f2, f3] nb na [f4, f5] exts names) @ rest))" "L < 16777216"
    "version = [] \<and> fst f1 \<noteq> 0xa0 \<or> (\<exists>v. version = der_tlv 0xa0 v)" "san_oid \<notin> fst ` set exts"
  shows "\<exists>info'. tls_parse_leaf_identity m cert (of_nat L) info = Some info' \<and> leaf_identity_parsed info' \<and>
    names_checked names info info'"
proof -
  let ?times = "der_tlv 0x17 nb @ der_tlv 0x17 na" and ?exts = "concat (map extension_der (exts @ [(san_oid, False, san_der names)]))"
  let ?tbs = "leaf_tbs version [f1, f2, f3] nb na [f4, f5] exts names"
  let ?cert = "der_tlv 0x30 ?tbs @ rest"
  have tbs: "?tbs = version @ der_tlv (fst f1) (snd f1) @ der_tlv (fst f2) (snd f2) @ der_tlv (fst f3) (snd f3) @ der_tlv 0x30 ?times @
      der_tlv (fst f4) (snd f4) @ der_tlv (fst f5) (snd f5) @ der_tlv 0xa3 (der_tlv 0x30 ?exts)"
    by (simp add: leaf_tbs_def case_prod_beta)
  have "left_at m cert L 0 (der_tlv 0x30 ?cert @ [])" using assms(1) by simp
  then obtain p1 q1 where r1: "asn1_read_tlv m cert (of_nat L) (of_nat 0) = Some (Some (0x30, p1, of_nat (length ?cert)), of_nat q1)"
    and l1: "left_at m p1 (length ?cert) 0 ?cert" "length ?cert < L" by (rule read_next [OF _ assms(2)])
  have L1: "length ?cert < 16777216" using l1(2) assms(2) by simp
  obtain p2 q2 where r2: "asn1_read_tlv m p1 (of_nat (length ?cert)) (of_nat 0) = Some (Some (0x30, p2, of_nat (length ?tbs)), of_nat q2)"
    and l2: "left_at m p2 (length ?tbs) 0 ?tbs" "length ?tbs < length ?cert" by (rule read_next [OF l1(1) L1])
  let ?n = "length ?tbs"
  have n: "?n < 16777216" using l2(2) L1 by simp
  obtain q3 where r3: "skip_version m p2 (of_nat ?n) = Some (Some (of_nat q3))"
    and l3: "left_at m p2 ?n q3 (der_tlv (fst f1) (snd f1) @ der_tlv (fst f2) (snd f2) @ der_tlv (fst f3) (snd f3) @ der_tlv 0x30 ?times @
      der_tlv (fst f4) (snd f4) @ der_tlv (fst f5) (snd f5) @ der_tlv 0xa3 (der_tlv 0x30 ?exts))"
    by (rule skip_version_left [OF l2(1) [unfolded tbs] n [unfolded tbs], folded tbs]) (use assms(3) in blast)
  obtain p4 q4 where r4: "asn1_read_tlv m p2 (of_nat ?n) (of_nat q3) = Some (Some (fst f1, p4, of_nat (length (snd f1))), of_nat q4)"
    and l4: "left_at m p2 ?n q4 (der_tlv (fst f2) (snd f2) @ der_tlv (fst f3) (snd f3) @ der_tlv 0x30 ?times @
      der_tlv (fst f4) (snd f4) @ der_tlv (fst f5) (snd f5) @ der_tlv 0xa3 (der_tlv 0x30 ?exts))"
    by (rule read_next [OF l3 n])
  obtain p5 q5 where r5: "asn1_read_tlv m p2 (of_nat ?n) (of_nat q4) = Some (Some (fst f2, p5, of_nat (length (snd f2))), of_nat q5)"
    and l5: "left_at m p2 ?n q5 (der_tlv (fst f3) (snd f3) @ der_tlv 0x30 ?times @
      der_tlv (fst f4) (snd f4) @ der_tlv (fst f5) (snd f5) @ der_tlv 0xa3 (der_tlv 0x30 ?exts))"
    by (rule read_next [OF l4 n])
  obtain p6 q6 where r6: "asn1_read_tlv m p2 (of_nat ?n) (of_nat q5) = Some (Some (fst f3, p6, of_nat (length (snd f3))), of_nat q6)"
    and l6: "left_at m p2 ?n q6 (der_tlv 0x30 ?times @ der_tlv (fst f4) (snd f4) @ der_tlv (fst f5) (snd f5) @ der_tlv 0xa3 (der_tlv 0x30 ?exts))"
    by (rule read_next [OF l5 n])
  obtain p7 q7 where r7: "asn1_read_tlv m p2 (of_nat ?n) (of_nat q6) = Some (Some (0x30, p7, of_nat (length ?times)), of_nat q7)"
    and t7: "left_at m p7 (length ?times) 0 ?times" "length ?times < ?n"
    and l7: "left_at m p2 ?n q7 (der_tlv (fst f4) (snd f4) @ der_tlv (fst f5) (snd f5) @ der_tlv 0xa3 (der_tlv 0x30 ?exts))"
    by (rule read_next [OF l6 n])
  have T: "length ?times < 16777216" using t7(2) n by simp
  obtain s1 v1 where a1: "asn1_time m p7 (of_nat (length ?times)) (of_nat 0) (leaf_not_before info) = Some (s1, of_nat v1)"
    and t8: "left_at m p7 (length ?times) v1 (der_tlv 0x17 na)" by (rule asn1_time_left [OF t7(1) T])
  have t8': "left_at m p7 (length ?times) v1 (der_tlv 0x17 na @ [])" using t8 by simp
  obtain s2 v2 where a2: "asn1_time m p7 (of_nat (length ?times)) (of_nat v1) (leaf_not_after info) = Some (s2, of_nat v2)"
    by (rule asn1_time_left [OF t8' T])
  obtain p9 q9 where r9: "asn1_read_tlv m p2 (of_nat ?n) (of_nat q7) = Some (Some (fst f4, p9, of_nat (length (snd f4))), of_nat q9)"
    and l9: "left_at m p2 ?n q9 (der_tlv (fst f5) (snd f5) @ der_tlv 0xa3 (der_tlv 0x30 ?exts))"
    by (rule read_next [OF l7 n])
  obtain p10 q10 where r10: "asn1_read_tlv m p2 (of_nat ?n) (of_nat q9) = Some (Some (fst f5, p10, of_nat (length (snd f5))), of_nat q10)"
    and l10: "left_at m p2 ?n q10 (der_tlv 0xa3 (der_tlv 0x30 ?exts))"
    by (rule read_next [OF l9 n])
  have l10': "left_at m p2 ?n q10 (der_tlv 0xa3 (der_tlv 0x30 ?exts) @ [])" using l10 by simp
  obtain p11 q11 where r11: "asn1_read_tlv m p2 (of_nat ?n) (of_nat q10) = Some (Some (0xa3, p11, of_nat (length (der_tlv 0x30 ?exts))), of_nat q11)"
    and l11: "left_at m p11 (length (der_tlv 0x30 ?exts)) 0 (der_tlv 0x30 ?exts)" "length (der_tlv 0x30 ?exts) < ?n" "q10 < ?n"
    by (rule read_next [OF l10' n])
  have E: "length (der_tlv 0x30 ?exts) < 16777216" using l11(2) n by simp
  have l11': "left_at m p11 (length (der_tlv 0x30 ?exts)) 0 (der_tlv 0x30 ?exts @ [])" using l11 by simp
  obtain p12 q12 where r12: "asn1_read_tlv m p11 (of_nat (length (der_tlv 0x30 ?exts))) (of_nat 0) = Some (Some (0x30, p12, of_nat (length ?exts)), of_nat q12)"
    and l12: "left_at m p12 (length ?exts) 0 ?exts" "length ?exts < length (der_tlv 0x30 ?exts)"
    by (rule read_next [OF l11' E])
  let ?info = "info\<lparr>leaf_not_before := s1, leaf_not_after := s2\<rparr>"
  obtain info1 where i: "extensions_loop m p12 (of_nat (length ?exts)) (of_nat 0) ?info = Some info1" "names_checked names ?info info1"
    using extensions_loop_left [OF l12(1) _ assms(4), of ?info] l12(2) E by fastforce
  have x: "tls_parse_certificate_extensions m p11 (of_nat (length (der_tlv 0x30 ?exts))) ?info = Some info1"
    using r12 i(1) by (simp add: tls_parse_certificate_extensions_def read_tagged_def)
  have f: "find_extensions m p2 (of_nat ?n) (of_nat q10) ?info = Some (info1\<lparr>leaf_identity_parsed := True\<rparr>)"
    using x r11 u64_offset_less [OF l11(3) n] by (subst find_extensions.simps) simp
  have "tls_parse_leaf_identity m cert (of_nat L) info = Some (info1\<lparr>leaf_identity_parsed := True\<rparr>)"
    using r1 r2 r3 r4 r5 r6 r7 r9 r10 a1 a2 f
    by (simp add: tls_parse_leaf_identity_def identity_or_def read_any_def read_tagged_def)
  with i(2) show ?thesis by (simp add: names_checked_def)
qed

section \<open>The summary of a certificate\<close>

lemma strip_zeros_present:
  "present m p bs \<Longrightarrow> \<exists>p'. strip_zeros m p (length bs) = Some (p', length (dropWhile (\<lambda>b. b = 0) bs)) \<and> present m p' (dropWhile (\<lambda>b. b = 0) bs)"
  by (induction bs arbitrary: p) auto

lemma be_nat_dropWhile: "be_nat (dropWhile (\<lambda>b. b = 0) bs) = be_nat bs"
  by (induction bs) (simp_all add: be_nat_Cons)

lemma small_uint_bytes:
  "length bs \<le> 4 \<Longrightarrow> foldl (\<lambda>v b. push_bit 8 v OR ucast b) 0 bs = (of_nat (be_nat bs) :: u32)"
proof (induction bs rule: rev_induct)
  case (snoc b bs)
  have "(ucast b :: u32) = of_nat (unat b)" by simp
  moreover have "push_bit 8 (be_nat bs) OR unat b = be_nat (bs @ [b])"
    using or_push_nat [of "unat b" 8 "be_nat bs"] by (simp add: or.commute be_nat_snoc)
  ultimately have "push_bit 8 (of_nat (be_nat bs) :: u32) OR ucast b = of_nat (be_nat (bs @ [b]))"
    by (simp only: push_bit_of_nat flip: of_nat_or_eq)
  with snoc show ?case by simp
qed simp

lemma small_uint_left:
  assumes "left_at m v (length c) 0 c" "length c < 16777216" "length (dropWhile (\<lambda>b. b = 0) c) \<le> 4"
  shows "tls_parse_small_uint m v (of_nat (length c)) = Some (of_nat (be_nat c))"
proof -
  have "present m v c" using assms(1) by (simp add: left_at_def)
  from strip_zeros_present [OF this] obtain p' where
    "strip_zeros m v (length c) = Some (p', length (dropWhile (\<lambda>b. b = 0) c))" "present m p' (dropWhile (\<lambda>b. b = 0) c)" by blast
  then show ?thesis
    using assms(2,3) bytes_at_present by (simp add: tls_parse_small_uint_def small_uint_bytes be_nat_dropWhile)
qed

lemma bit_length_left:
  assumes "left_at m v (length c) 0 c" "length c < 16777216"
  shows "\<exists>n. tls_bit_length m v (of_nat (length c)) = Some n"
proof -
  have "present m v c" using assms(1) by (simp add: left_at_def)
  from strip_zeros_present [OF this] obtain p' where
    "strip_zeros m v (length c) = Some (p', length (dropWhile (\<lambda>b. b = 0) c))" "present m p' (dropWhile (\<lambda>b. b = 0) c)" by blast
  then show ?thesis
    using assms(2) by (cases "dropWhile (\<lambda>b. b = 0) c") (simp_all add: tls_bit_length_def)
qed

lemma rsa_key_left:
  assumes "left_at m v (length c) 0 c" "length c < 16777216" "c = 0 # der_tlv 0x30 (der_tlv 0x02 n @ der_tlv 0x02 e)"
    "n1 = dropWhile (\<lambda>b. b = 0) n" "0 < length n1" "length n1 \<le> TLS_RSA_MAX_BYTES" "length (dropWhile (\<lambda>b. b = 0) e) \<le> 4"
  shows "\<exists>bits. tls_parse_rsa_public_key m v (of_nat (length c)) summary =
    Some (summary\<lparr>public_key_bits := bits, rsa_exponent := of_nat (be_nat e), rsa_modulus := blit 0 n1 (rsa_modulus summary),
            rsa_modulus_len := of_nat (length n1), rsa_modulus_ready := True\<rparr>)"
proof -
  let ?L = "length c" and ?body = "der_tlv 0x02 n @ der_tlv 0x02 e"
  have p0: "rd m v = Some 0" and l0: "left_at m v ?L 1 (der_tlv 0x30 ?body @ [])"
    using assms(1) unfolding assms(3) by (simp_all add: left_at_def)
  obtain p1 q1 where r1: "asn1_read_tlv m v (of_nat ?L) (of_nat 1) = Some (Some (0x30, p1, of_nat (length ?body)), of_nat q1)"
    and l1: "left_at m p1 (length ?body) 0 ?body" "length ?body < ?L" "1 < ?L" by (rule read_next [OF l0 assms(2)])
  have B: "length ?body < 16777216" using l1(2) assms(2) by simp
  obtain p2 q2 where r2: "asn1_read_tlv m p1 (of_nat (length ?body)) (of_nat 0) = Some (Some (0x02, p2, of_nat (length n)), of_nat q2)"
    and l2: "left_at m p2 (length n) 0 n" "length n < length ?body" and l3: "left_at m p1 (length ?body) q2 (der_tlv 0x02 e)"
    by (rule read_next [OF l1(1) B])
  have l3': "left_at m p1 (length ?body) q2 (der_tlv 0x02 e @ [])" using l3 by simp
  obtain p4 q4 where r4: "asn1_read_tlv m p1 (of_nat (length ?body)) (of_nat q2) = Some (Some (0x02, p4, of_nat (length e)), of_nat q4)"
    and l4: "left_at m p4 (length e) 0 e" "length e < length ?body" by (rule read_next [OF l3' B])
  obtain bits where b: "tls_bit_length m p2 (of_nat (length n)) = Some bits" using bit_length_left [OF l2(1)] l2(2) B by auto
  have u: "tls_parse_small_uint m p4 (of_nat (length e)) = Some (of_nat (be_nat e))"
    by (rule small_uint_left [OF l4(1) _ assms(7)]) (use l4(2) B in simp)
  have "present m p2 n" using l2(1) by (simp add: left_at_def)
  from strip_zeros_present [OF this] obtain p' where s: "strip_zeros m p2 (length n) = Some (p', length n1)" "present m p' n1"
    unfolding assms(4) by blast
  have nw: "unat (of_nat (length n) :: u64) = length n" using l2(2) B by simp
  have lt: "\<not> (of_nat ?L :: u64) < 2" using u64_compare(1) [of ?L 2] assms(2) l1(3) by simp
  show ?thesis
    using p0 r1 r2 r4 b u s bytes_at_present [OF s(2)] assms(5,6) lt nw
    by (intro exI [of _ bits]) (simp add: tls_parse_rsa_public_key_def Let_def)
qed

definition sig_name :: "bytes \<Rightarrow> string" where
  "sig_name oid =
    (if oid = oid_sha256_rsa then ''sha256WithRSAEncryption'' else if oid = oid_sha384_rsa then ''sha384WithRSAEncryption''
     else if oid = oid_ecdsa_sha256 then ''ecdsaWithSHA256'' else if oid = oid_ecdsa_sha384 then ''ecdsaWithSHA384'' else ''unknown'')"

lemmas oid_defs = oid_sha256_rsa_def oid_sha384_rsa_def oid_ecdsa_sha256_def oid_ecdsa_sha384_def oid_rsa_encryption_def oid_ec_public_key_def

lemma signature_oid_left:
  assumes "left_at m p (length oid) 0 oid" "length oid < 16777216"
  shows "tls_signature_oid_name m p (of_nat (length oid)) = Some (sig_name oid)"
    "tls_signature_oid_is_sha256_rsa m p (of_nat (length oid)) = Some (oid = oid_sha256_rsa)"
proof -
  have eq: "tls_oid_equal m p (of_nat (length oid)) o1 = Some (oid = o1)" if "o1 \<in> {oid_sha256_rsa, oid_sha384_rsa, oid_ecdsa_sha256, oid_ecdsa_sha384}" for o1
    by (rule oid_equal_left [OF assms]) (use that in \<open>auto simp: oid_defs\<close>)
  show "tls_signature_oid_name m p (of_nat (length oid)) = Some (sig_name oid)"
    "tls_signature_oid_is_sha256_rsa m p (of_nat (length oid)) = Some (oid = oid_sha256_rsa)"
    by (simp_all add: tls_signature_oid_name_def tls_signature_oid_is_sha256_rsa_def sig_name_def eq)
qed

lemma public_key_oid_left:
  assumes "left_at m p (length oid) 0 oid" "length oid < 16777216"
  shows "tls_public_key_oid_is_rsa m p (of_nat (length oid)) = Some (oid = oid_rsa_encryption)"
    "oid = oid_rsa_encryption \<Longrightarrow> tls_public_key_oid_name m p (of_nat (length oid)) = Some ''rsaEncryption''"
proof -
  have eq: "tls_oid_equal m p (of_nat (length oid)) oid_rsa_encryption = Some (oid = oid_rsa_encryption)"
    by (rule oid_equal_left [OF assms]) (simp add: oid_defs)
  show "tls_public_key_oid_is_rsa m p (of_nat (length oid)) = Some (oid = oid_rsa_encryption)"
    "oid = oid_rsa_encryption \<Longrightarrow> tls_public_key_oid_name m p (of_nat (length oid)) = Some ''rsaEncryption''"
    using eq by (auto simp: tls_public_key_oid_name_def tls_public_key_oid_is_rsa_def)
qed

lemma algorithm_left:
  assumes "left_at m v (length c) 0 c" "length c < 16777216" "c = der_tlv 0x06 oid @ params"
  obtains p where "tls_parse_algorithm_identifier m v (of_nat (length c)) False = Some (Some ((p, of_nat (length oid)), None))"
    "left_at m p (length oid) 0 oid" "length oid < 16777216"
proof -
  have "left_at m v (length c) 0 (der_tlv 0x06 oid @ params)" using assms(1,3) by simp
  then obtain p q where "asn1_read_tlv m v (of_nat (length c)) (of_nat 0) = Some (Some (0x06, p, of_nat (length oid)), of_nat q)"
    "left_at m p (length oid) 0 oid" "length oid < length c" by (rule read_next [OF _ assms(2)])
  with assms(2) show ?thesis by (intro that [of p]) (simp_all add: tls_parse_algorithm_identifier_def)
qed

lemma spki_left:
  assumes "left_at m v (length c) 0 c" "length c < 16777216"
    "c = der_tlv 0x30 (der_tlv 0x06 oid_rsa_encryption @ der_tlv 0x05 []) @ der_tlv 0x03 (0 # der_tlv 0x30 (der_tlv 0x02 n @ der_tlv 0x02 e))"
    "n1 = dropWhile (\<lambda>b. b = 0) n" "0 < length n1" "length n1 \<le> TLS_RSA_MAX_BYTES" "length (dropWhile (\<lambda>b. b = 0) e) \<le> 4"
  shows "\<exists>bits. tls_parse_spki m v (of_nat (length c)) summary =
    Some (summary\<lparr>public_key_alg := Some ''rsaEncryption'', public_key_rsa := True, public_key_bits := bits, rsa_exponent := of_nat (be_nat e),
            rsa_modulus := blit 0 n1 (rsa_modulus summary), rsa_modulus_len := of_nat (length n1), rsa_modulus_ready := True\<rparr>)"
proof -
  let ?L = "length c" and ?alg = "der_tlv 0x06 oid_rsa_encryption @ der_tlv 0x05 []" and ?key = "0 # der_tlv 0x30 (der_tlv 0x02 n @ der_tlv 0x02 e)"
  have "left_at m v ?L 0 (der_tlv 0x30 ?alg @ der_tlv 0x03 ?key)" using assms(1,3) by simp
  then obtain p1 q1 where r1: "asn1_read_tlv m v (of_nat ?L) (of_nat 0) = Some (Some (0x30, p1, of_nat (length ?alg)), of_nat q1)"
    and l1: "left_at m p1 (length ?alg) 0 ?alg" "length ?alg < ?L" and l2: "left_at m v ?L q1 (der_tlv 0x03 ?key)" by (rule read_next [OF _ assms(2)])
  have A: "length ?alg < 16777216" using l1(2) assms(2) by simp
  obtain p2 q2 where r2: "asn1_read_tlv m p1 (of_nat (length ?alg)) (of_nat 0) = Some (Some (0x06, p2, of_nat (length oid_rsa_encryption)), of_nat q2)"
    and l3: "left_at m p2 (length oid_rsa_encryption) 0 oid_rsa_encryption" and l4: "left_at m p1 (length ?alg) q2 (der_tlv 0x05 [])"
    by (rule read_next [OF l1(1) A])
  have l4': "left_at m p1 (length ?alg) q2 (der_tlv 0x05 [] @ [])" using l4 by simp
  obtain p3 q3 where r3: "asn1_read_tlv m p1 (of_nat (length ?alg)) (of_nat q2) = Some (Some (0x05, p3, of_nat (length ([] :: bytes))), of_nat q3)" "q2 < length ?alg"
    by (rule read_next [OF l4' A])
  have alg: "tls_parse_algorithm_identifier m p1 (of_nat (length ?alg)) True =
      Some (Some ((p2, of_nat (length oid_rsa_encryption)), Some (0x05, p3, 0)))"
    using r2 r3 u64_offset_less [OF r3(2) A] by (simp add: tls_parse_algorithm_identifier_def)
  have l2': "left_at m v ?L q1 (der_tlv 0x03 ?key @ [])" using l2 by simp
  obtain p4 q4 where r4: "asn1_read_tlv m v (of_nat ?L) (of_nat q1) = Some (Some (0x03, p4, of_nat (length ?key)), of_nat q4)"
    and l5: "left_at m p4 (length ?key) 0 ?key" "length ?key < ?L" by (rule read_next [OF l2' assms(2)])
  let ?s = "summary\<lparr>public_key_alg := Some ''rsaEncryption'', public_key_rsa := True\<rparr>"
  obtain bits where k: "tls_parse_rsa_public_key m p4 (of_nat (length ?key)) ?s =
    Some (?s\<lparr>public_key_bits := bits, rsa_exponent := of_nat (be_nat e), rsa_modulus := blit 0 n1 (rsa_modulus ?s),
            rsa_modulus_len := of_nat (length n1), rsa_modulus_ready := True\<rparr>)"
    using rsa_key_left [OF l5(1) _ refl assms(4-7), of ?s] l5(2) assms(2) by fastforce
  have o: "length oid_rsa_encryption < 16777216" by (simp add: oid_defs)
  show ?thesis
    using r1 alg r4 k public_key_oid_left [OF l3 o]
    by (intro exI [of _ bits]) (simp add: tls_parse_spki_def Let_def)
qed

text \<open>The hexadecimal digest of a value, and what the summary of a certificate is to hold.\<close>

definition sha256_text :: "bytes \<Rightarrow> string" where
  "sha256_text bs = butlast (sha256_hex (fips256 bs))"

definition x509_ok :: "x509 \<Rightarrow> bool" where
  "x509_ok x \<longleftrightarrow> 1 < be_nat (x_modulus x) \<and> be_nat (x_modulus x) < 256 ^ TLS_RSA_MAX_BYTES \<and> be_nat (x_exponent x) < 2 ^ 32 \<and>
     x_signature x \<noteq> [] \<and> length (x_signature x) \<le> TLS_RSA_MAX_BYTES \<and> san_oid \<notin> fst ` set (x_extensions x) \<and> length (cert_der x) < 16777216"

definition summarizes :: "x509 \<Rightarrow> tls_cert_summary_t \<Rightarrow> bool" where
  "summarizes x s \<longleftrightarrow> parsed s \<and> tbs_digest s = fips256 (tbs_der x) \<and> tbs_sha256 s = sha256_text (tbs_der x) \<and>
     issuer_sha256 s = sha256_text (x_issuer x) \<and> subject_sha256 s = sha256_text (x_subject x) \<and>
     public_key_rsa s \<and> rsa_exponent s = of_nat (be_nat (x_exponent x)) \<and> rsa_modulus_ready s \<and>
     take (unat (rsa_modulus_len s)) (rsa_modulus s) = dropWhile (\<lambda>b. b = 0) (x_modulus x) \<and>
     signature_alg_consistent s = (sig_name (x_sig_oid x) \<noteq> ''unknown'') \<and> signature_sha256_rsa s = (x_sig_oid x = oid_sha256_rsa) \<and>
     signature_ready s \<and> signature_len s = of_nat (length (x_signature x)) \<and> length (signature_bytes s) = TLS_RSA_MAX_BYTES \<and>
     take (unat (signature_len s)) (signature_bytes s) = x_signature x \<and> rsa_modulus_len s \<noteq> 0"

lemma stripped_length:
  "be_nat bs < 256 ^ n \<Longrightarrow> length (dropWhile (\<lambda>b. b = 0) bs) \<le> n"
  "0 < be_nat bs \<Longrightarrow> 0 < length (dropWhile (\<lambda>b. b = 0) bs)"
proof -
  let ?t = "dropWhile (\<lambda>b. b = 0) bs"
  show "0 < length ?t" if "0 < be_nat bs" using that be_nat_dropWhile [of bs] by (cases ?t) simp_all
  show "length ?t \<le> n" if "be_nat bs < 256 ^ n"
  proof (cases ?t)
    case (Cons b t)
    have "b \<noteq> 0" using hd_dropWhile [of "\<lambda>b. b = 0" bs] Cons by auto
    then have "1 \<le> unat b" by (simp add: unat_gt_0 Suc_le_eq)
    then have "256 ^ length t \<le> be_nat ?t" unfolding Cons be_nat_Cons by (metis mult_le_mono1 nat_mult_1 trans_le_add1)
    then have "(256::nat) ^ length t < 256 ^ n" using that unfolding be_nat_dropWhile by (rule le_less_trans)
    then have "length t < n" by (rule power_less_imp_less_exp [rotated]) simp
    then show ?thesis by (simp add: Cons)
  next
    case Nil
    show ?thesis unfolding Nil by simp
  qed
qed

lemma take_blit_prefix: "length ys \<le> length xs \<Longrightarrow> take (length ys) (blit 0 ys xs) = ys"
  by (simp add: blit_def)

lemma parse_tbs_left:
  assumes "left_at m v (length c) 0 c" "length c < 16777216" "x509_ok x" "c = tbs_body x"
  shows "\<exists>bits. parse_tbs m v (of_nat (length c)) summary = Some (Some (summary\<lparr>tbs_signature_alg := Some (sig_name (x_sig_oid x)),
      issuer_sha256 := sha256_text (x_issuer x), subject_sha256 := sha256_text (x_subject x),
      public_key_alg := Some ''rsaEncryption'', public_key_rsa := True, public_key_bits := bits, rsa_exponent := of_nat (be_nat (x_exponent x)),
      rsa_modulus := blit 0 (dropWhile (\<lambda>b. b = 0) (x_modulus x)) (rsa_modulus summary),
      rsa_modulus_len := of_nat (length (dropWhile (\<lambda>b. b = 0) (x_modulus x))), rsa_modulus_ready := True\<rparr>))"
proof -
  let ?n = "length c" and ?times = "der_tlv 0x17 (x_not_before x) @ der_tlv 0x17 (x_not_after x)"
  let ?alg = "der_tlv 0x06 (x_sig_oid x) @ x_sig_params x"
  let ?key = "der_tlv 0x30 (der_tlv 0x06 oid_rsa_encryption @ der_tlv 0x05 []) @
     der_tlv 0x03 (0 # der_tlv 0x30 (der_tlv 0x02 (x_modulus x) @ der_tlv 0x02 (x_exponent x)))"
  let ?ver = "case x_version x of None \<Rightarrow> [] | Some v \<Rightarrow> der_tlv 0xa0 v"
  have c: "c = ?ver @ der_tlv 0x02 (x_serial x) @ der_tlv 0x30 ?alg @ der_tlv 0x30 (x_issuer x) @
      der_tlv 0x30 ?times @ der_tlv 0x30 (x_subject x) @ der_tlv 0x30 ?key @ extensions_der x"
    unfolding assms(4) tbs_body_def sig_der_def spki_der_def ..
  have n1: "0 < length (dropWhile (\<lambda>b. b = 0) (x_modulus x))" "length (dropWhile (\<lambda>b. b = 0) (x_modulus x)) \<le> TLS_RSA_MAX_BYTES"
    "length (dropWhile (\<lambda>b. b = 0) (x_exponent x)) \<le> 4"
    using assms(3) stripped_length(1) [of "x_modulus x" TLS_RSA_MAX_BYTES] stripped_length(2) [of "x_modulus x"] stripped_length(1) [of "x_exponent x" 4] by (simp_all add: x509_ok_def)
  have v: "?ver = [] \<and> (\<exists>t b r. der_tlv 0x02 (x_serial x) @ rest = der_tlv t b @ r \<and> t \<noteq> 0xa0) \<or> (\<exists>v. ?ver = der_tlv 0xa0 v)" for rest
  proof (cases "x_version x")
    case None
    have "(2 :: byte) \<noteq> 0xa0" by simp
    with None show ?thesis by (intro disjI1 conjI exI [of _ "0x02"] exI [of _ "x_serial x"] exI [of _ rest]) simp_all
  next
    case (Some v)
    then show ?thesis by (intro disjI2 exI [of _ v]) simp
  qed
  obtain q3 where r3: "skip_version m v (of_nat ?n) = Some (Some (of_nat q3))"
    and l3: "left_at m v ?n q3 (der_tlv 0x02 (x_serial x) @ der_tlv 0x30 ?alg @ der_tlv 0x30 (x_issuer x) @
      der_tlv 0x30 ?times @ der_tlv 0x30 (x_subject x) @ der_tlv 0x30 ?key @ extensions_der x)"
    by (rule skip_version_left [of m v ?n ?ver]) (use assms(1,2) c v in auto)
  obtain p4 q4 where r4: "asn1_read_tlv m v (of_nat ?n) (of_nat q3) = Some (Some (0x02, p4, of_nat (length (x_serial x))), of_nat q4)"
    and l4: "left_at m v ?n q4 (der_tlv 0x30 ?alg @ der_tlv 0x30 (x_issuer x) @
      der_tlv 0x30 ?times @ der_tlv 0x30 (x_subject x) @ der_tlv 0x30 ?key @ extensions_der x)" by (rule read_next [OF l3 assms(2)])
  obtain p5 q5 where r5: "asn1_read_tlv m v (of_nat ?n) (of_nat q4) = Some (Some (0x30, p5, of_nat (length ?alg)), of_nat q5)"
    and a5: "left_at m p5 (length ?alg) 0 ?alg" "length ?alg < ?n"
    and l5: "left_at m v ?n q5 (der_tlv 0x30 (x_issuer x) @
      der_tlv 0x30 ?times @ der_tlv 0x30 (x_subject x) @ der_tlv 0x30 ?key @ extensions_der x)" by (rule read_next [OF l4 assms(2)])
  obtain p5' where alg: "tls_parse_algorithm_identifier m p5 (of_nat (length ?alg)) False = Some (Some ((p5', of_nat (length (x_sig_oid x))), None))"
    "left_at m p5' (length (x_sig_oid x)) 0 (x_sig_oid x)" "length (x_sig_oid x) < 16777216"
    by (rule algorithm_left [OF a5(1) _ refl]) (use a5(2) assms(2) in simp)
  obtain p6 q6 where r6: "asn1_read_tlv m v (of_nat ?n) (of_nat q5) = Some (Some (0x30, p6, of_nat (length (x_issuer x))), of_nat q6)"
    and a6: "left_at m p6 (length (x_issuer x)) 0 (x_issuer x)" "length (x_issuer x) < ?n"
    and l6: "left_at m v ?n q6 (der_tlv 0x30 ?times @ der_tlv 0x30 (x_subject x) @ der_tlv 0x30 ?key @ extensions_der x)" by (rule read_next [OF l5 assms(2)])
  obtain p7 q7 where r7: "asn1_read_tlv m v (of_nat ?n) (of_nat q6) = Some (Some (0x30, p7, of_nat (length ?times)), of_nat q7)"
    and l7: "left_at m v ?n q7 (der_tlv 0x30 (x_subject x) @ der_tlv 0x30 ?key @ extensions_der x)" by (rule read_next [OF l6 assms(2)])
  obtain p8 q8 where r8: "asn1_read_tlv m v (of_nat ?n) (of_nat q7) = Some (Some (0x30, p8, of_nat (length (x_subject x))), of_nat q8)"
    and a8: "left_at m p8 (length (x_subject x)) 0 (x_subject x)" "length (x_subject x) < ?n"
    and l8: "left_at m v ?n q8 (der_tlv 0x30 ?key @ extensions_der x)" by (rule read_next [OF l7 assms(2)])
  obtain p9 q9 where r9: "asn1_read_tlv m v (of_nat ?n) (of_nat q8) = Some (Some (0x30, p9, of_nat (length ?key)), of_nat q9)"
    and a9: "left_at m p9 (length ?key) 0 ?key" "length ?key < ?n" by (rule read_next [OF l8 assms(2)])
  have K: "length ?key < 16777216" using a9(2) assms(2) by simp
  have h6: "value_sha256 m p6 (of_nat (length (x_issuer x))) = Some (sha256_text (x_issuer x))"
    and h8: "value_sha256 m p8 (of_nat (length (x_subject x))) = Some (sha256_text (x_subject x))"
    using value_sha256_left [OF a6(1)] value_sha256_left [OF a8(1)] a6(2) a8(2) assms(2) by (simp_all add: sha256_text_def)
  let ?s = "summary\<lparr>tbs_signature_alg := Some (sig_name (x_sig_oid x)), issuer_sha256 := sha256_text (x_issuer x), subject_sha256 := sha256_text (x_subject x)\<rparr>"
  obtain bits where k: "tls_parse_spki m p9 (of_nat (length ?key)) ?s = Some (?s\<lparr>public_key_alg := Some ''rsaEncryption'', public_key_rsa := True,
      public_key_bits := bits, rsa_exponent := of_nat (be_nat (x_exponent x)), rsa_modulus := blit 0 (dropWhile (\<lambda>b. b = 0) (x_modulus x)) (rsa_modulus ?s),
      rsa_modulus_len := of_nat (length (dropWhile (\<lambda>b. b = 0) (x_modulus x))), rsa_modulus_ready := True\<rparr>)"
    using spki_left [OF a9(1) K refl refl n1, of ?s] by blast
  show ?thesis
    using r3 r4 r5 alg r6 r7 r8 r9 h6 h8 k signature_oid_left(1) [OF alg(2,3)]
    by (intro exI [of _ bits]) (simp add: parse_tbs_def or_fail_def read_any_def read_tagged_def tbs_signature_def Let_def)
qed

lemma cert_names_left:
  assumes "left_at m cert (length (cert_der x)) 0 (cert_der x)" "x509_ok x"
  shows "\<exists>s. tls_parse_certificate_names m cert (of_nat (length (cert_der x))) = Some (Some s) \<and> summarizes x s"
proof -
  let ?L = "length (cert_der x)" and ?c = "tbs_der x @ sig_der x @ der_tlv 0x03 (0 # x_signature x)" and ?tbs = "tbs_body x"
  let ?alg = "der_tlv 0x06 (x_sig_oid x) @ x_sig_params x"
  have L: "?L < 16777216" using assms(2) by (simp add: x509_ok_def)
  have "left_at m cert ?L 0 (der_tlv 0x30 ?c @ [])" using assms(1) by (simp add: cert_der_def)
  then obtain p1 q1 where r1: "asn1_read_tlv m cert (of_nat ?L) (of_nat 0) = Some (Some (0x30, p1, of_nat (length ?c)), of_nat q1)"
    and l1: "left_at m p1 (length ?c) 0 ?c" "length ?c < ?L" by (rule read_next [OF _ L])
  let ?n = "length ?c"
  have n: "?n < 16777216" using l1(2) L by simp
  have "left_at m p1 ?n 0 (der_tlv 0x30 ?tbs @ sig_der x @ der_tlv 0x03 (0 # x_signature x))" using l1(1) by (simp add: tbs_der_def)
  then obtain p2 q2 where r2: "asn1_read_tlv m p1 (of_nat ?n) (of_nat 0) = Some (Some (0x30, p2, of_nat (length ?tbs)), of_nat q2)"
    and l2: "left_at m p2 (length ?tbs) 0 ?tbs" "length ?tbs < ?n" "q2 = 0 + length (der_tlv 0x30 ?tbs)"
    and l3: "left_at m p1 ?n q2 (sig_der x @ der_tlv 0x03 (0 # x_signature x))" by (rule read_next [OF _ n])
  have q2: "q2 = length (tbs_der x)" "q2 < 16777216" using l2(3) n by (simp_all add: tbs_der_def)
  have "present m p1 (tbs_der x)" using l1(1) by (simp add: left_at_def)
  then have h: "tls_sha256_bytes_hex m p1 (of_nat q2) = Some (fips256 (tbs_der x), sha256_text (tbs_der x))"
    using sha256_buffer_fips [of "tbs_der x"] q2
    by (auto simp: tls_sha256_bytes_hex_def bytes_at_present sha256_text_def sha256_buffer_def Let_def bind_eq_Some_conv)
  let ?s1 = "cert_summary_zero\<lparr>cert_len := of_nat ?L, tbs_digest := fips256 (tbs_der x), tbs_sha256 := sha256_text (tbs_der x)\<rparr>"
  obtain bits where t: "parse_tbs m p2 (of_nat (length ?tbs)) ?s1 = Some (Some (?s1\<lparr>tbs_signature_alg := Some (sig_name (x_sig_oid x)),
      issuer_sha256 := sha256_text (x_issuer x), subject_sha256 := sha256_text (x_subject x),
      public_key_alg := Some ''rsaEncryption'', public_key_rsa := True, public_key_bits := bits, rsa_exponent := of_nat (be_nat (x_exponent x)),
      rsa_modulus := blit 0 (dropWhile (\<lambda>b. b = 0) (x_modulus x)) (rsa_modulus ?s1),
      rsa_modulus_len := of_nat (length (dropWhile (\<lambda>b. b = 0) (x_modulus x))), rsa_modulus_ready := True\<rparr>))"
    using parse_tbs_left [OF l2(1) _ assms(2) refl, of ?s1] l2(2) n by fastforce
  have "left_at m p1 ?n q2 (der_tlv 0x30 ?alg @ der_tlv 0x03 (0 # x_signature x))" using l3 by (simp add: sig_der_def)
  then obtain p3 q3 where r3: "asn1_read_tlv m p1 (of_nat ?n) (of_nat q2) = Some (Some (0x30, p3, of_nat (length ?alg)), of_nat q3)"
    and a3: "left_at m p3 (length ?alg) 0 ?alg" "length ?alg < ?n" and l4: "left_at m p1 ?n q3 (der_tlv 0x03 (0 # x_signature x))" by (rule read_next [OF _ n])
  obtain p3' where alg: "tls_parse_algorithm_identifier m p3 (of_nat (length ?alg)) False = Some (Some ((p3', of_nat (length (x_sig_oid x))), None))"
    "left_at m p3' (length (x_sig_oid x)) 0 (x_sig_oid x)" "length (x_sig_oid x) < 16777216"
    by (rule algorithm_left [OF a3(1) _ refl]) (use a3(2) n in simp)
  have l4': "left_at m p1 ?n q3 (der_tlv 0x03 (0 # x_signature x) @ [])" using l4 by simp
  obtain p4 q4 where r4: "asn1_read_tlv m p1 (of_nat ?n) (of_nat q3) = Some (Some (0x03, p4, of_nat (length (0 # x_signature x))), of_nat q4)"
    and a4: "left_at m p4 (length (0 # x_signature x)) 0 (0 # x_signature x)" by (rule read_next [OF l4' n])
  have sg: "left_at m (p4 + 1) (length (x_signature x)) 0 (x_signature x)" using a4 by (simp add: left_at_def)
  have sl: "0 < length (x_signature x)" "length (x_signature x) \<le> 512" "x_signature x \<noteq> []" using assms(2) by (simp_all add: x509_ok_def TLS_RSA_MAX_BYTES_def)
  have w: "(of_nat (length (0 # x_signature x)) :: u64) - 1 = of_nat (length (x_signature x))" "(of_nat (length (0 # x_signature x)) :: u64) > 1"
    using u64_compare(1) [of 1 "length (0 # x_signature x)"] sl by simp_all
  obtain hs where hs: "value_sha256 m (p4 + 1) (of_nat (length (x_signature x))) = Some hs" using value_sha256_left [OF sg] sl by simp
  have st: "store_signature m p1 (of_nat ?n) (of_nat q3) s = Some (s\<lparr>signature_len := of_nat (length (x_signature x)), signature_sha256 := hs,
      signature_bytes := blit 0 (x_signature x) (signature_bytes s), signature_ready := True\<rparr>)" for s
    using r4 w hs sl left_at_bytes [OF sg]
    by (simp add: store_signature_def read_tagged_def TLS_RSA_MAX_BYTES_def del: of_nat_Suc length_Cons)
  note sm = assms(2) [unfolded x509_ok_def]
  have nl: "length (dropWhile (\<lambda>b. b = 0) (x_modulus x)) \<le> 512"
    using stripped_length(1) [of "x_modulus x" 512] sm by (simp add: TLS_RSA_MAX_BYTES_def)
  have nz: "(of_nat (length (dropWhile (\<lambda>b. b = 0) (x_modulus x))) :: u64) \<noteq> 0"
    using stripped_length(2) [of "x_modulus x"] u64_compare(1) [of 0 "length (dropWhile (\<lambda>b. b = 0) (x_modulus x))"] nl sm by auto
  show ?thesis
    using r1 r2 h t r3 alg signature_oid_left [OF alg(2,3)] st nl nz sl
    by (simp add: tls_parse_certificate_names_def or_fail_def read_tagged_def outer_signature_def Let_def summarizes_def
        cert_summary_zero_def TLS_RSA_MAX_BYTES_def take_blit_prefix)
qed

section \<open>Certificates of an authority\<close>

lemma cert_der_leaf:
  "cert_der x = der_tlv 0x30 (der_tlv 0x30 (leaf_tbs (case x_version x of None \<Rightarrow> [] | Some v \<Rightarrow> der_tlv 0xa0 v)
      [(0x02, x_serial x), (0x30, der_tlv 0x06 (x_sig_oid x) @ x_sig_params x), (0x30, x_issuer x)] (x_not_before x) (x_not_after x)
      [(0x30, x_subject x), (0x30, der_tlv 0x30 (der_tlv 0x06 oid_rsa_encryption @ der_tlv 0x05 []) @
         der_tlv 0x03 (0 # der_tlv 0x30 (der_tlv 0x02 (x_modulus x) @ der_tlv 0x02 (x_exponent x))))]
      (x_extensions x) (x_names x)) @ sig_der x @ der_tlv 0x03 (0 # x_signature x))"
  by (simp add: cert_der_def tbs_der_def tbs_body_def leaf_tbs_def sig_der_def spki_der_def extensions_der_def)

lemma leaf_identity_x509:
  assumes "left_at m p (length (cert_der x)) 0 (cert_der x)" "x509_ok x"
  shows "\<exists>info'. tls_parse_leaf_identity m p (of_nat (length (cert_der x))) info = Some info' \<and> leaf_identity_parsed info' \<and>
    names_checked (x_names x) info info'"
proof -
  have ver: "(case x_version x of None \<Rightarrow> [] | Some v \<Rightarrow> der_tlv 0xa0 v) = [] \<and> (0x02 :: byte) \<noteq> 0xa0 \<or>
      (\<exists>v'. (case x_version x of None \<Rightarrow> [] | Some v \<Rightarrow> der_tlv 0xa0 v) = der_tlv 0xa0 v')"
    by (cases "x_version x") auto
  obtain L where L: "L = length (cert_der x)" by simp
  from leaf_identity_left [OF assms(1) [folded L, unfolded cert_der_leaf], of info] assms(2) ver L show ?thesis
    by (fastforce simp: x509_ok_def)
qed

text \<open>C15: A certificate is read as its issuer encoded it. Of a certificate in distinguished encoding the code hashes exactly the part that is
  signed, takes the issuer, the subject, the RSA key and the signature from their places, and finds the host named exactly if one of its DNS
  names matches it.\<close>

theorem certificate_parses_back:
  assumes "present m p (cert_der x)" "x509_ok x"
  shows "(\<exists>s. tls_parse_certificate_names m p (of_nat (length (cert_der x))) = Some (Some s) \<and> summarizes x s) \<and>
    (\<exists>info'. tls_parse_leaf_identity m p (of_nat (length (cert_der x))) info = Some info' \<and> leaf_identity_parsed info' \<and>
      (leaf_identity_match info' \<longleftrightarrow>
         leaf_identity_match info \<or> (\<exists>c. (0x82, c) \<in> set (x_names x) \<and> host_matches (expected_host info) c)))"
proof (rule conjI)
  have l: "left_at m p (length (cert_der x)) 0 (cert_der x)" using assms(1) by (simp add: left_at_def)
  show "\<exists>s. tls_parse_certificate_names m p (of_nat (length (cert_der x))) = Some (Some s) \<and> summarizes x s"
    by (rule cert_names_left [OF l assms(2)])
  show "\<exists>info'. tls_parse_leaf_identity m p (of_nat (length (cert_der x))) info = Some info' \<and> leaf_identity_parsed info' \<and>
      (leaf_identity_match info' \<longleftrightarrow>
         leaf_identity_match info \<or> (\<exists>c. (0x82, c) \<in> set (x_names x) \<and> host_matches (expected_host info) c))"
    using leaf_identity_x509 [OF l assms(2), of info] by (auto simp: names_checked_def)
qed

definition demo_x509 :: x509 where
  "demo_x509 = \<lparr>x_version = None, x_serial = [7], x_sig_oid = oid_sha256_rsa, x_sig_params = [5, 0], x_issuer = [1], x_not_before = [],
     x_not_after = [], x_subject = [2], x_modulus = [0, 15], x_exponent = [3], x_extensions = [], x_names = [(0x82, [0x61])], x_signature = [9]\<rparr>"

lemma demo_x509_ok: "x509_ok demo_x509"
  by (simp add: x509_ok_def demo_x509_def TLS_RSA_MAX_BYTES_def be_nat_Cons cert_der_def tbs_der_def tbs_body_def sig_der_def spki_der_def
      extensions_der_def extension_der_def san_der_def der_tlv_def der_length_def oid_defs san_oid_def)

definition identity_for :: "string \<Rightarrow> tls_identity" where
  "identity_for host = \<lparr>expected_host = host, leaf_identity_parsed = False, leaf_identity_match = False, leaf_dns_names = 0,
     leaf_matched_dns = [], leaf_first_dns = [], leaf_not_before = [], leaf_not_after = []\<rparr>"

theorem certificate_parses_back_witness:
  "\<exists>s info'. tls_parse_certificate_names (cert_der demo_x509) 0 (of_nat (length (cert_der demo_x509))) = Some (Some s) \<and>
     take (unat (rsa_modulus_len s)) (rsa_modulus s) = [15] \<and>
     tls_parse_leaf_identity (cert_der demo_x509) 0 (of_nat (length (cert_der demo_x509))) (identity_for ''A'') = Some info' \<and> leaf_identity_match info'"
proof -
  have p: "present (cert_der demo_x509) 0 (cert_der demo_x509)" using present_all [of 0 "[]" "cert_der demo_x509" "[]"] by simp
  have "map lower_ascii ''A'' = lower [0x61]" by code_simp
  then have "host_matches ''A'' [0x61]" by (simp add: host_matches_def)
  with certificate_parses_back [OF p demo_x509_ok, of "identity_for ''A''"] show ?thesis
    by (auto simp: summarizes_def demo_x509_def identity_for_def)
qed

section \<open>A length that wraps around\<close>

definition wrap_der :: bytes where
  "wrap_der = [0x30, 0x0a, 0x80, 0x88, 0xff, 0xff, 0xff, 0xff, 0xff, 0xff, 0xff, 0xf6]"

text \<open>C17: A peer can stop the client for ever with one certificate. In the twelve bytes of \<open>wrap_der\<close>, wherever they are in memory, the
  length of the only name is \<open>2 ^ 64 - 10\<close>: the end of the field wraps around and passes the check, the name reaches beyond the
  memory, the offset goes back to where it was, and the loop over the alternative names does not end.\<close>

theorem san_length_wraps:
  "(\<exists>v n. asn1_read_tlv (pre @ wrap_der @ post) (length pre + 2) 10 0 = Some (Some (0x80, v, n), 0) \<and> unat n = 2 ^ 64 - 10) \<and>
   tls_parse_subject_alt_names (pre @ wrap_der @ post) (length pre) 12 info = None"
proof -
  let ?m = "pre @ wrap_der @ post" and ?d = "length pre"
  have w: "present ?m ?d wrap_der" by (simp add: present_all)
  have p: "present ?m (?d + 2 + 0) (0x80 # 0x88 # [0xff, 0xff, 0xff, 0xff, 0xff, 0xff, 0xff, 0xf6])"
    "rd ?m (?d + 0) = Some 0x30" "rd ?m (?d + (0 + 1)) = Some 0x0a"
    using w by (simp_all add: wrap_der_def)
  have r: "asn1_read_tlv ?m (?d + 2) (of_nat 10) (of_nat 0) =
      Some (Some (0x80, ?d + 2 + (0 + 10), of_nat (be_nat [0xff, 0xff, 0xff, 0xff, 0xff, 0xff, 0xff, 0xf6])), of_nat 0)"
    by (rule asn1_wraps [OF p(1)]) (simp_all add: be_nat_def)
  have s: "asn1_read_tlv ?m ?d (of_nat 12) (of_nat 0) = Some (Some (0x30, ?d + (0 + 2), ucast (0x0a :: byte)), of_nat (0 + 2 + unat (0x0a :: byte)))"
    by (rule asn1_short [OF p(2,3)]) simp_all
  have "san_loop ?m (?d + 2) (of_nat 10) (of_nat 0) info = None"
    by (rule san_loop_stuck [OF _ r]) simp_all
  with r s show ?thesis by (simp add: tls_parse_subject_alt_names_def read_tagged_def be_nat_def)
qed

end
