(* ===== verification/TlsVerify.thy ===== *)
theory TlsVerify
  imports TlsCert Rsa
begin

text \<open>
  The check of a certificate chain in \<^verbatim>\<open>kernel/drivers/netstack.c\<close>: the RSA signature of a certificate under the key of its issuer, the root
  key that is built in, the walk over a Certificate message, and the policy by which a connection is refused. The
  arithmetic on byte strings (\<^verbatim>\<open>rsa_ge_bytes\<close> to \<^verbatim>\<open>rsa_mul_mod\<close>) is repeated in this file with the text of \<^verbatim>\<open>lib/rsa.c\<close>, so its
  model is that of the theory \<open>Rsa\<close>.
\<close>

section \<open>Signatures\<close>

definition rsa_left_pad :: "nat \<Rightarrow> bytes \<Rightarrow> bytes option" where
  "rsa_left_pad out_len inp =
    (if length inp > out_len \<or> out_len > TLS_RSA_MAX_BYTES then None else Some (replicate (out_len - length inp) 0 @ inp))"

definition tls_rsa_modexp65537 :: "bytes \<Rightarrow> bytes \<Rightarrow> bytes option" where
  "tls_rsa_modexp65537 sig m =
    (if length m = 0 \<or> length m > TLS_RSA_MAX_BYTES then None
     else case rsa_left_pad (length m) sig of
       None \<Rightarrow> None
     | Some base0 \<Rightarrow>
         if rsa_ge_bytes base0 m then None
         else Some (rsa_mul_mod (foldl (\<lambda>result i. rsa_mul_mod result result m) base0 [0..<16]) base0 m))"

definition tls_check_pkcs1_sha256 :: "bytes \<Rightarrow> bytes \<Rightarrow> bool" where
  "tls_check_pkcs1_sha256 em digest =
    (let tail_len = length sha256_digest_info_prefix + 32 in
     if length em < 3 + 8 + tail_len \<or> em ! 0 \<noteq> 0 \<or> em ! 1 \<noteq> 1 then False
     else let ps_len = length em - 3 - tail_len in
       if \<not> list_all (\<lambda>i. em ! (2 + i) = 0xff) [0..<ps_len] then False
       else if em ! (2 + ps_len) \<noteq> 0 then False
       else if slice (3 + ps_len) (length sha256_digest_info_prefix) em \<noteq> sha256_digest_info_prefix then False
       else slice (3 + ps_len + length sha256_digest_info_prefix) 32 em = digest)"

text \<open>The modulus is the list of its bytes; true stands for the result 0.\<close>

definition tls_verify_rsa_sha256_cert_signature :: "tls_cert_summary_t \<Rightarrow> bytes \<Rightarrow> u32 \<Rightarrow> bool" where
  "tls_verify_rsa_sha256_cert_signature cert modulus exponent =
    (if length modulus = 0 \<or> length modulus > TLS_RSA_MAX_BYTES \<or> exponent \<noteq> 65537 \<or> \<not> signature_sha256_rsa cert \<or>
        \<not> signature_alg_consistent cert \<or> \<not> signature_ready cert \<or> unat (signature_len cert) > length modulus
     then False
     else case tls_rsa_modexp65537 (take (unat (signature_len cert)) (signature_bytes cert)) modulus of
       None \<Rightarrow> False
     | Some encoded \<Rightarrow> tls_check_pkcs1_sha256 encoded (tbs_digest cert))"

section \<open>The state of a handshake that concerns the chain\<close>

definition TLS_MAX_CERT_SUMMARIES :: nat where "TLS_MAX_CERT_SUMMARIES = 4"

record tls_chain = tls_identity +
  certificate_seen :: bool
  certificate_count :: nat
  certificate_chain_len :: nat
  cert_summaries :: nat
  chain_links_checked :: nat
  chain_links_ok :: nat
  leaf_signature_verify_ready :: bool
  leaf_signature_verified :: bool
  leaf_signature_verify_status :: "string option"
  certs :: "tls_cert_summary_t list"
  leaf_certificate_len :: nat
  leaf_certificate_sha256 :: string
  root_trust_checked :: bool
  root_trust_verified :: bool
  root_trust_status :: "string option"

definition tls_root_isrg_x1_subject_sha256 :: string where
  "tls_root_isrg_x1_subject_sha256 = ''bd4d0c449b6e9aa74dce4b9d68b0cd54c042bc67e6ffedc2ecf2bf8479c951d4''"

definition tls_root_isrg_x1_n :: bytes where
  "tls_root_isrg_x1_n =
    [0xad, 0xe8, 0x24, 0x73, 0xf4, 0x14, 0x37, 0xf3, 0x9b, 0x9e, 0x2b, 0x57, 0x28, 0x1c, 0x87, 0xbe,
     0xdc, 0xb7, 0xdf, 0x38, 0x90, 0x8c, 0x6e, 0x3c, 0xe6, 0x57, 0xa0, 0x78, 0xf7, 0x75, 0xc2, 0xa2,
     0xfe, 0xf5, 0x6a, 0x6e, 0xf6, 0x00, 0x4f, 0x28, 0xdb, 0xde, 0x68, 0x86, 0x6c, 0x44, 0x93, 0xb6,
     0xb1, 0x63, 0xfd, 0x14, 0x12, 0x6b, 0xbf, 0x1f, 0xd2, 0xea, 0x31, 0x9b, 0x21, 0x7e, 0xd1, 0x33,
     0x3c, 0xba, 0x48, 0xf5, 0xdd, 0x79, 0xdf, 0xb3, 0xb8, 0xff, 0x12, 0xf1, 0x21, 0x9a, 0x4b, 0xc1,
     0x8a, 0x86, 0x71, 0x69, 0x4a, 0x66, 0x66, 0x6c, 0x8f, 0x7e, 0x3c, 0x70, 0xbf, 0xad, 0x29, 0x22,
     0x06, 0xf3, 0xe4, 0xc0, 0xe6, 0x80, 0xae, 0xe2, 0x4b, 0x8f, 0xb7, 0x99, 0x7e, 0x94, 0x03, 0x9f,
     0xd3, 0x47, 0x97, 0x7c, 0x99, 0x48, 0x23, 0x53, 0xe8, 0x38, 0xae, 0x4f, 0x0a, 0x6f, 0x83, 0x2e,
     0xd1, 0x49, 0x57, 0x8c, 0x80, 0x74, 0xb6, 0xda, 0x2f, 0xd0, 0x38, 0x8d, 0x7b, 0x03, 0x70, 0x21,
     0x1b, 0x75, 0xf2, 0x30, 0x3c, 0xfa, 0x8f, 0xae, 0xdd, 0xda, 0x63, 0xab, 0xeb, 0x16, 0x4f, 0xc2,
     0x8e, 0x11, 0x4b, 0x7e, 0xcf, 0x0b, 0xe8, 0xff, 0xb5, 0x77, 0x2e, 0xf4, 0xb2, 0x7b, 0x4a, 0xe0,
     0x4c, 0x12, 0x25, 0x0c, 0x70, 0x8d, 0x03, 0x29, 0xa0, 0xe1, 0x53, 0x24, 0xec, 0x13, 0xd9, 0xee,
     0x19, 0xbf, 0x10, 0xb3, 0x4a, 0x8c, 0x3f, 0x89, 0xa3, 0x61, 0x51, 0xde, 0xac, 0x87, 0x07, 0x94,
     0xf4, 0x63, 0x71, 0xec, 0x2e, 0xe2, 0x6f, 0x5b, 0x98, 0x81, 0xe1, 0x89, 0x5c, 0x34, 0x79, 0x6c,
     0x76, 0xef, 0x3b, 0x90, 0x62, 0x79, 0xe6, 0xdb, 0xa4, 0x9a, 0x2f, 0x26, 0xc5, 0xd0, 0x10, 0xe1,
     0x0e, 0xde, 0xd9, 0x10, 0x8e, 0x16, 0xfb, 0xb7, 0xf7, 0xa8, 0xf7, 0xc7, 0xe5, 0x02, 0x07, 0x98,
     0x8f, 0x36, 0x08, 0x95, 0xe7, 0xe2, 0x37, 0x96, 0x0d, 0x36, 0x75, 0x9e, 0xfb, 0x0e, 0x72, 0xb1,
     0x1d, 0x9b, 0xbc, 0x03, 0xf9, 0x49, 0x05, 0xd8, 0x81, 0xdd, 0x05, 0xb4, 0x2a, 0xd6, 0x41, 0xe9,
     0xac, 0x01, 0x76, 0x95, 0x0a, 0x0f, 0xd8, 0xdf, 0xd5, 0xbd, 0x12, 0x1f, 0x35, 0x2f, 0x28, 0x17,
     0x6c, 0xd2, 0x98, 0xc1, 0xa8, 0x09, 0x64, 0x77, 0x6e, 0x47, 0x37, 0xba, 0xce, 0xac, 0x59, 0x5e,
     0x68, 0x9d, 0x7f, 0x72, 0xd6, 0x89, 0xc5, 0x06, 0x41, 0x29, 0x3e, 0x59, 0x3e, 0xdd, 0x26, 0xf5,
     0x24, 0xc9, 0x11, 0xa7, 0x5a, 0xa3, 0x4c, 0x40, 0x1f, 0x46, 0xa1, 0x99, 0xb5, 0xa7, 0x3a, 0x51,
     0x6e, 0x86, 0x3b, 0x9e, 0x7d, 0x72, 0xa7, 0x12, 0x05, 0x78, 0x59, 0xed, 0x3e, 0x51, 0x78, 0x15,
     0x0b, 0x03, 0x8f, 0x8d, 0xd0, 0x2f, 0x05, 0xb2, 0x3e, 0x7b, 0x4a, 0x1c, 0x4b, 0x73, 0x05, 0x12,
     0xfc, 0xc6, 0xea, 0xe0, 0x50, 0x13, 0x7c, 0x43, 0x93, 0x74, 0xb3, 0xca, 0x74, 0xe7, 0x8e, 0x1f,
     0x01, 0x08, 0xd0, 0x30, 0xd4, 0x5b, 0x71, 0x36, 0xb4, 0x07, 0xba, 0xc1, 0x30, 0x30, 0x5c, 0x48,
     0xb7, 0x82, 0x3b, 0x98, 0xa6, 0x7d, 0x60, 0x8a, 0xa2, 0xa3, 0x29, 0x82, 0xcc, 0xba, 0xbd, 0x83,
     0x04, 0x1b, 0xa2, 0x83, 0x03, 0x41, 0xa1, 0xd6, 0x05, 0xf1, 0x1b, 0xc2, 0xb6, 0xf0, 0xa8, 0x7c,
     0x86, 0x3b, 0x46, 0xa8, 0x48, 0x2a, 0x88, 0xdc, 0x76, 0x9a, 0x76, 0xbf, 0x1f, 0x6a, 0xa5, 0x3d,
     0x19, 0x8f, 0xeb, 0x38, 0xf3, 0x64, 0xde, 0xc8, 0x2b, 0x0d, 0x0a, 0x28, 0xff, 0xf7, 0xdb, 0xe2,
     0x15, 0x42, 0xd4, 0x22, 0xd0, 0x27, 0x5d, 0xe1, 0x79, 0xfe, 0x18, 0xe7, 0x70, 0x88, 0xad, 0x4e,
     0xe6, 0xd9, 0x8b, 0x3a, 0xc6, 0xdd, 0x27, 0x51, 0x6e, 0xff, 0xbc, 0x64, 0xf5, 0x33, 0x43, 0x4f]"

text \<open>The result says whether the signature of the first summary verified.\<close>

definition tls_verify_leaf_signature :: "'z tls_chain_scheme \<Rightarrow> bool \<times> 'z tls_chain_scheme" where
  "tls_verify_leaf_signature info =
    (if cert_summaries info < 2 then (False, info)
     else let leaf = certs info ! 0; issuer = certs info ! 1 in
       if \<not> public_key_rsa issuer \<or> \<not> rsa_modulus_ready issuer \<or> rsa_exponent issuer \<noteq> 65537 \<or> rsa_modulus_len issuer = 0
       then (False, info\<lparr>leaf_signature_verify_status := Some ''unsupported''\<rparr>)
       else let info = info\<lparr>leaf_signature_verify_ready := True\<rparr> in
         if tls_verify_rsa_sha256_cert_signature leaf (take (unat (rsa_modulus_len issuer)) (rsa_modulus issuer)) (rsa_exponent issuer)
         then (True, info\<lparr>leaf_signature_verified := True, leaf_signature_verify_status := Some ''ok''\<rparr>)
         else (False, info\<lparr>leaf_signature_verify_status := Some ''bad-signature''\<rparr>))"

definition tls_verify_root_trust :: "'z tls_chain_scheme \<Rightarrow> bool \<times> 'z tls_chain_scheme" where
  "tls_verify_root_trust info =
    (if cert_summaries info < 2 then (False, info)
     else let issuer = certs info ! 1; info = info\<lparr>root_trust_checked := True\<rparr> in
       if issuer_sha256 issuer \<noteq> tls_root_isrg_x1_subject_sha256
       then (False, info\<lparr>root_trust_status := Some ''untrusted-root''\<rparr>)
       else if \<not> tls_verify_rsa_sha256_cert_signature issuer tls_root_isrg_x1_n 65537
       then (False, info\<lparr>root_trust_status := Some ''bad-root-signature''\<rparr>)
       else (True, info\<lparr>root_trust_verified := True, root_trust_status := Some ''isrg-root-x1''\<rparr>))"

section \<open>The Certificate message\<close>

definition get_be24 :: "bytes \<Rightarrow> nat \<Rightarrow> nat option" where
  "get_be24 m p = do {
     a \<leftarrow> rd m p; b \<leftarrow> rd m (p + 1); c \<leftarrow> rd m (p + 2);
     Some (unat (push_bit 16 (ucast a) OR push_bit 8 (ucast b) OR ucast c :: u32)) }"

definition add_summary :: "tls_cert_summary_t \<Rightarrow> 'z tls_chain_scheme \<Rightarrow> 'z tls_chain_scheme" where
  "add_summary cert_summary info =
    (if cert_summaries info < TLS_MAX_CERT_SUMMARIES
     then let info = info\<lparr>certs := (certs info)[cert_summaries info := cert_summary], cert_summaries := cert_summaries info + 1\<rparr> in
       if cert_summaries info \<ge> 2
       then let child = certs info ! (cert_summaries info - 2); issuer = certs info ! (cert_summaries info - 1);
                info = info\<lparr>chain_links_checked := chain_links_checked info + 1\<rparr>
            in if issuer_sha256 child = subject_sha256 issuer then info\<lparr>chain_links_ok := chain_links_ok info + 1\<rparr> else info
       else info
     else info)"

text \<open>One certificate of the message, \<open>n\<close> bytes at \<open>p\<close>.\<close>

definition chain_certificate :: "bytes \<Rightarrow> nat \<Rightarrow> nat \<Rightarrow> 'z tls_chain_scheme \<Rightarrow> 'z tls_chain_scheme option" where
  "chain_certificate m p n info = do {
     r \<leftarrow> tls_parse_certificate_names m p (of_nat n);
     let info = (case r of None \<Rightarrow> info | Some cert_summary \<Rightarrow> add_summary cert_summary info);
     info \<leftarrow>
       (if certificate_count info = 0
        then do {
          hex \<leftarrow> value_sha256 m p (of_nat n);
          tls_parse_leaf_identity m p (of_nat n) (info\<lparr>leaf_certificate_len := n, leaf_certificate_sha256 := hex\<rparr>) }
        else Some info);
     Some (info\<lparr>certificate_count := certificate_count info + 1\<rparr>) }"

function chain_loop :: "bytes \<Rightarrow> nat \<Rightarrow> nat \<Rightarrow> nat \<Rightarrow> 'z tls_chain_scheme \<Rightarrow> 'z tls_chain_scheme option" where
  "chain_loop m body end0 p info =
    (if p + 3 \<le> end0
     then do {
       n \<leftarrow> get_be24 m (body + p);
       if p + 3 + n > end0 then Some info
       else do { info \<leftarrow> chain_certificate m (body + (p + 3)) n info; chain_loop m body end0 (p + 3 + n) info } }
     else Some info)"
  by pat_completeness auto

termination
  by (relation "measure (\<lambda>(m, body, end0, p, info). end0 - p)") auto

definition tls_parse_certificate :: "bytes \<Rightarrow> nat \<Rightarrow> nat \<Rightarrow> 'z tls_chain_scheme \<Rightarrow> 'z tls_chain_scheme option" where
  "tls_parse_certificate m body len info =
    (if len < 3 then Some info
     else do {
       chain_len \<leftarrow> get_be24 m body;
       let end0 = 3 + chain_len;
       if end0 > len then Some info
       else do {
         info \<leftarrow> chain_loop m body end0 3 (info\<lparr>certificate_chain_len := chain_len\<rparr>);
         Some (if certificate_count info > 0
               then snd (tls_verify_root_trust (snd (tls_verify_leaf_signature (info\<lparr>certificate_seen := True\<rparr>))))
               else info) } })"

definition tls_policy_failure :: "'z tls_chain_scheme \<Rightarrow> string option" where
  "tls_policy_failure info =
    (if \<not> certificate_seen info then Some ''tls certificate missing''
     else if \<not> leaf_identity_parsed info \<or> \<not> leaf_identity_match info then Some ''tls host identity mismatch''
     else if chain_links_checked info = 0 \<or> chain_links_ok info \<noteq> chain_links_checked info then Some ''tls certificate chain link mismatch''
     else if \<not> leaf_signature_verified info then Some ''tls leaf signature not verified''
     else if \<not> root_trust_verified info then Some ''tls root trust not verified''
     else None)"

section \<open>Signatures are RSA signatures\<close>

lemma squares_residue: "residue m x v \<Longrightarrow> residue m (foldl (\<lambda>r i. rsa_mul_mod r r m) x [0..<n]) (v ^ 2 ^ n)"
proof (induction n)
  case (Suc n)
  from rsa_mul_mod_residue [OF Suc.IH [OF Suc.prems] Suc.IH [OF Suc.prems]] show ?case
    by (simp add: power_mult_distrib [symmetric] power_mult power2_eq_square mult.commute)
qed simp

lemma tls_modexp_value:
  assumes "1 < be_nat m" "length m \<le> TLS_RSA_MAX_BYTES"
  shows "if length sig \<le> length m \<and> be_nat sig < be_nat m
    then \<exists>x. tls_rsa_modexp65537 sig m = Some x \<and> length x = length m \<and> be_nat x = be_nat sig ^ 65537 mod be_nat m
    else tls_rsa_modexp65537 sig m = None"
proof (cases "length sig \<le> length m")
  case True
  let ?b = "replicate (length m - length sig) 0 @ sig"
  have b: "length ?b = length m" "be_nat ?b = be_nat sig" using True by (simp_all add: be_nat_append)
  have n: "length m \<noteq> 0" using residue_nonempty [OF assms(1)] by simp
  have ge: "rsa_ge_bytes ?b m \<longleftrightarrow> be_nat m \<le> be_nat sig" using rsa_ge_bytes_iff [OF b(1)] b(2) by simp
  show ?thesis
  proof (cases "be_nat sig < be_nat m")
    case lt: True
    then have r: "residue m ?b (be_nat sig)" using assms(1) b by (simp add: residue_def)
    have "be_nat sig ^ 2 ^ 16 * be_nat sig = be_nat sig ^ 65537" by (simp only: power_Suc2 [symmetric]) simp
    with rsa_mul_mod_residue [OF squares_residue [OF r, of 16] r] have
      "residue m (rsa_mul_mod (foldl (\<lambda>r i. rsa_mul_mod r r m) ?b [0..<16]) ?b m) (be_nat sig ^ 65537)" by simp
    then show ?thesis using True lt n assms(2) ge by (simp add: tls_rsa_modexp65537_def rsa_left_pad_def residue_def)
  next
    case False
    then show ?thesis using True n assms(2) ge by (simp add: tls_rsa_modexp65537_def rsa_left_pad_def)
  qed
next
  case False
  then show ?thesis by (simp add: tls_rsa_modexp65537_def rsa_left_pad_def)
qed

lemma list_all_upt: "list_all P [0..<n] \<longleftrightarrow> (\<forall>i<n. P i)"
  by (auto simp: list_all_iff)

lemma check_pkcs1_iff:
  assumes "length digest = 32"
  shows "tls_check_pkcs1_sha256 em digest \<longleftrightarrow> 62 \<le> length em \<and> em = pkcs1_em (length em) digest"
proof (cases "62 \<le> length em")
  case True
  let ?ps = "length em - 54" and ?p = "sha256_digest_info_prefix"
  have p: "length ?p = 19" by (simp add: sha256_digest_info_prefix_def)
  obtain a b t where e: "em = a # b # t" using True by (cases em; cases "tl em") auto
  have t: "t = take ?ps t @ t ! ?ps # take 19 (drop (?ps + 1) t) @ drop (?ps + 20) t"
  proof -
    have "?ps < length t" using True e by simp
    then have "t = take ?ps t @ t ! ?ps # drop (Suc ?ps) t" by (rule id_take_nth_drop)
    also have "drop (Suc ?ps) t = take 19 (drop (?ps + 1) t) @ drop (?ps + 20) t"
      using append_take_drop_id [of 19 "drop (Suc ?ps) t"] by (simp add: add.commute)
    finally show ?thesis .
  qed
  have l: "length (drop (?ps + 20) t) = 32" "length (take 19 (drop (?ps + 1) t)) = 19" "length (take ?ps t) = ?ps" using True e by simp_all
  have em: "em = pkcs1_em (length em) digest \<longleftrightarrow> a = 0 \<and> b = 1 \<and> take ?ps t = replicate ?ps 0xff \<and> t ! ?ps = 0 \<and>
      take 19 (drop (?ps + 1) t) = ?p \<and> drop (?ps + 20) t = digest"
  proof -
    have "em = pkcs1_em (length em) digest \<longleftrightarrow> a = 0 \<and> b = 1 \<and> t = replicate ?ps 0xff @ 0 # ?p @ digest"
      by (subst e) (simp add: pkcs1_em_def)
    also have "t = replicate ?ps 0xff @ 0 # ?p @ digest \<longleftrightarrow> take ?ps t = replicate ?ps 0xff \<and> t ! ?ps = 0 \<and>
        take 19 (drop (?ps + 1) t) = ?p \<and> drop (?ps + 20) t = digest"
      by (subst t) (use l p in \<open>simp add: append_eq_append_conv\<close>)
    finally show ?thesis by simp
  qed
  have ps: "list_all (\<lambda>i. em ! (2 + i) = 0xff) [0..<?ps] \<longleftrightarrow> take ?ps t = replicate ?ps 0xff"
    using l(3) by (auto simp: list_all_upt e list_eq_iff_nth_eq)
  obtain j where j: "length t = 52 + j" using True e by (intro that [of "length t - 52"]) simp
  have pj: "?ps = j" using j e by simp
  have s: "slice (3 + ?ps) 19 em = take 19 (drop (?ps + 1) t)" "slice (3 + ?ps + 19) 32 em = drop (?ps + 20) t" "em ! (2 + ?ps) = t ! ?ps"
    "em ! 0 = a" "em ! 1 = b"
    unfolding pj using j by (simp_all add: e slice_def numeral_eq_Suc)
  have ps54: "length em - 3 - (19 + 32) = ?ps" by simp
  show ?thesis
    unfolding tls_check_pkcs1_sha256_def Let_def p ps54 ps s em using True by auto
next
  case False
  then show ?thesis by (simp add: tls_check_pkcs1_sha256_def Let_def sha256_digest_info_prefix_def)
qed

text \<open>A PKCS #1 v1.5 signature of a digest under a public key with exponent 65537.\<close>

definition rsa_signed :: "bytes \<Rightarrow> bytes \<Rightarrow> bytes \<Rightarrow> bool" where
  "rsa_signed n digest sig \<longleftrightarrow>
     62 \<le> length n \<and> length n \<le> TLS_RSA_MAX_BYTES \<and> length sig \<le> length n \<and> be_nat sig < be_nat n \<and>
     be_nat sig ^ 65537 mod be_nat n = be_nat (pkcs1_em (length n) digest)"

lemma cert_signature_iff:
  assumes "1 < be_nat n" "length (tbs_digest cert) = 32" "length (signature_bytes cert) = TLS_RSA_MAX_BYTES"
  shows "tls_verify_rsa_sha256_cert_signature cert n e \<longleftrightarrow>
    e = 65537 \<and> signature_sha256_rsa cert \<and> signature_alg_consistent cert \<and> signature_ready cert \<and> unat (signature_len cert) \<le> length n \<and>
    rsa_signed n (tbs_digest cert) (take (unat (signature_len cert)) (signature_bytes cert))"
proof (cases "length n \<le> TLS_RSA_MAX_BYTES \<and> unat (signature_len cert) \<le> length n")
  case True
  let ?sig = "take (unat (signature_len cert)) (signature_bytes cert)"
  have l: "length ?sig \<le> length n" "length n \<noteq> 0" using True residue_nonempty [OF assms(1)] assms(3) by simp_all
  have em: "tls_check_pkcs1_sha256 x (tbs_digest cert) \<longleftrightarrow> 62 \<le> length n \<and> be_nat x = be_nat (pkcs1_em (length n) (tbs_digest cert))"
    if "length x = length n" for x
    using check_pkcs1_iff [OF assms(2), of x] that be_nat_inject [of x "pkcs1_em (length n) (tbs_digest cert)"] assms(2) by auto
  show ?thesis
    using tls_modexp_value [OF assms(1), of ?sig] True l em
    by (auto simp: tls_verify_rsa_sha256_cert_signature_def rsa_signed_def split: if_splits)
next
  case False
  then show ?thesis by (auto simp: tls_verify_rsa_sha256_cert_signature_def rsa_signed_def)
qed

section \<open>Messages\<close>

definition be24 :: "nat \<Rightarrow> bytes" where
  "be24 n = [of_nat (n div 65536), of_nat (n div 256), of_nat n]"

definition cert_entry :: "bytes \<Rightarrow> bytes" where
  "cert_entry c = be24 (length c) @ c"

definition cert_message :: "bytes list \<Rightarrow> bytes" where
  "cert_message cs = be24 (length (concat (map cert_entry cs))) @ concat (map cert_entry cs)"

lemma length_be24 [simp]: "length (be24 n) = 3"
  by (simp add: be24_def)

lemma length_cert_entry: "length (cert_entry c) = 3 + length c"
  by (simp add: cert_entry_def)

lemma get_be24_present:
  assumes "present m p (be24 n)" "n < 16777216"
  shows "get_be24 m p = Some n"
proof -
  have d: "n div 65536 = n div 256 div 256" by (simp add: div_mult2_eq)
  have n: "n div 65536 < 256" using assms(2) by simp
  have u: "unat (of_nat n :: byte) = n mod 256" "unat (of_nat (n div 256) :: byte) = n div 256 mod 256" "unat (of_nat (n div 65536) :: byte) = n div 65536"
    using n by (simp_all add: unat_of_nat take_bit_eq_mod)
  have "push_bit 16 (ucast (of_nat (n div 65536) :: byte)) OR push_bit 8 (ucast (of_nat (n div 256) :: byte)) OR ucast (of_nat n :: byte) = (of_nat n :: u32)"
  proof -
    have "push_bit 16 (n div 65536) OR push_bit 8 (n div 256 mod 256) OR n mod 256 = n"
    proof -
      have "push_bit 8 (n div 256) OR n mod 256 = n"
        using or_push_nat [of "n mod 256" 8 "n div 256"] by (simp add: or.commute)
      moreover have "push_bit 8 (push_bit 8 (n div 65536) OR n div 256 mod 256) = push_bit 8 (n div 256)"
        using or_push_nat [of "n div 256 mod 256" 8 "n div 65536"] d by (simp add: or.commute)
      ultimately show ?thesis by (simp add: push_bit_or push_bit_push_bit flip: or.assoc)
    qed
    moreover have "(ucast (b :: byte) :: u32) = of_nat (unat b)" for b by simp
    ultimately show ?thesis by (simp only: u push_bit_of_nat flip: of_nat_or_eq)
  qed
  then show ?thesis using assms by (simp add: get_be24_def be24_def unat_of_nat take_bit_nat_eq_self)
qed

lemma chain_loop_entry:
  assumes "present m (body + p) (cert_entry c)" "p + length (cert_entry c) \<le> end0" "end0 < 16777216"
  shows "chain_loop m body end0 p info =
    chain_certificate m (body + (p + 3)) (length c) info \<bind> chain_loop m body end0 (p + length (cert_entry c))"
  using get_be24_present [of m "body + p" "length c"] assms
  by (subst chain_loop.simps) (simp add: cert_entry_def add.assoc)

lemma chain_loop_end: "chain_loop m body end0 end0 info = Some info"
  by simp

section \<open>One certificate\<close>

definition chain_core :: "'z tls_chain_scheme \<Rightarrow> nat \<times> tls_cert_summary_t list \<times> nat \<times> nat \<times> bool \<times> bool \<times> bool" where
  "chain_core info = (cert_summaries info, certs info, chain_links_checked info, chain_links_ok info, leaf_signature_verified info,
     root_trust_verified info, certificate_seen info)"

lemma chain_core_more:
  fixes i :: "'z tls_chain_scheme" and j :: "'z tls_chain_scheme"
  shows "tls_identity.more i = tls_identity.more j \<Longrightarrow> chain_core i = chain_core j \<and> certificate_count i = certificate_count j"
  by (cases i; cases j) (simp add: chain_core_def)

definition same_identity :: "'z tls_chain_scheme \<Rightarrow> 'z tls_chain_scheme \<Rightarrow> bool" where
  "same_identity i j \<longleftrightarrow> expected_host i = expected_host j \<and> leaf_identity_match i = leaf_identity_match j \<and>
     leaf_identity_parsed i = leaf_identity_parsed j"

lemma add_summary_frame:
  "same_identity (add_summary s info) info" "certificate_count (add_summary s info) = certificate_count info"
  by (simp_all add: add_summary_def Let_def same_identity_def)

lemma chain_certificate_later:
  assumes "present m p (cert_der x)" "x509_ok x" "0 < certificate_count info"
  shows "\<exists>s info'. summarizes x s \<and> chain_certificate m p (length (cert_der x)) info = Some info' \<and>
    chain_core info' = chain_core (add_summary s info) \<and> certificate_count info' = certificate_count info + 1 \<and> same_identity info' info"
proof -
  have l: "left_at m p (length (cert_der x)) 0 (cert_der x)" using assms(1) by (simp add: left_at_def)
  obtain s where s: "tls_parse_certificate_names m p (of_nat (length (cert_der x))) = Some (Some s)" "summarizes x s"
    using cert_names_left [OF l assms(2)] by blast
  have "chain_certificate m p (length (cert_der x)) info = Some ((add_summary s info)\<lparr>certificate_count := certificate_count info + 1\<rparr>)"
    using s(1) assms(3) by (simp add: chain_certificate_def Let_def add_summary_frame)
  with s(2) add_summary_frame [of s info] show ?thesis
    by (intro exI [of _ s] exI [of _ "(add_summary s info)\<lparr>certificate_count := certificate_count info + 1\<rparr>"])
      (simp add: chain_core_def same_identity_def)
qed

lemma chain_certificate_first:
  assumes "present m p (cert_der x)" "x509_ok x" "certificate_count info = 0"
  shows "\<exists>s info'. summarizes x s \<and> chain_certificate m p (length (cert_der x)) info = Some info' \<and>
    chain_core info' = chain_core (add_summary s info) \<and> certificate_count info' = 1 \<and> expected_host info' = expected_host info \<and>
    leaf_identity_parsed info' \<and> (leaf_identity_match info' \<longleftrightarrow> leaf_identity_match info \<or> (\<exists>c. (0x82, c) \<in> set (x_names x) \<and> host_matches (expected_host info) c))"
proof -
  have l: "left_at m p (length (cert_der x)) 0 (cert_der x)" using assms(1) by (simp add: left_at_def)
  obtain s where s: "tls_parse_certificate_names m p (of_nat (length (cert_der x))) = Some (Some s)" "summarizes x s"
    using cert_names_left [OF l assms(2)] by blast
  obtain hex where hex: "value_sha256 m p (of_nat (length (cert_der x))) = Some hex"
    using value_sha256_left [OF l] assms(2) by (simp add: x509_ok_def)
  let ?i = "(add_summary s info)\<lparr>leaf_certificate_len := length (cert_der x), leaf_certificate_sha256 := hex\<rparr>"
  obtain info1 where i: "tls_parse_leaf_identity m p (of_nat (length (cert_der x))) ?i = Some info1" "leaf_identity_parsed info1"
    "names_checked (x_names x) ?i info1"
    using leaf_identity_x509 [OF l assms(2), of ?i] by blast
  have fr: "same_identity ?i info" "certificate_count ?i = 0" "chain_core ?i = chain_core (add_summary s info)"
    using add_summary_frame [of s info] assms(3) by (simp_all add: chain_core_def same_identity_def)
  have c: "chain_core info1 = chain_core ?i" "certificate_count info1 = certificate_count ?i"
    using chain_core_more [of info1 ?i] i(3) by (simp_all add: names_checked_def)
  have "chain_certificate m p (length (cert_der x)) info = Some (info1\<lparr>certificate_count := 1\<rparr>)"
    using s(1) hex i(1) assms(3) fr c by (simp add: chain_certificate_def Let_def add_summary_frame)
  with s(2) i(2,3) fr c show ?thesis
    by (intro exI [of _ s] exI [of _ "info1\<lparr>certificate_count := 1\<rparr>"]) (auto simp: chain_core_def same_identity_def names_checked_def)
qed

section \<open>The chain\<close>

text \<open>The chain of a leaf and its issuer is signed: the names link, the leaf is signed under the key of the issuer, and the issuer under the root key.\<close>

definition chain_signed :: "x509 \<Rightarrow> x509 \<Rightarrow> bool" where
  "chain_signed x0 x1 \<longleftrightarrow>
     sha256_text (x_issuer x0) = sha256_text (x_subject x1) \<and> be_nat (x_exponent x1) = 65537 \<and>
     x_sig_oid x0 = oid_sha256_rsa \<and> rsa_signed (dropWhile (\<lambda>b. b = 0) (x_modulus x1)) (fips256 (tbs_der x0)) (x_signature x0) \<and>
     sha256_text (x_issuer x1) = tls_root_isrg_x1_subject_sha256 \<and>
     x_sig_oid x1 = oid_sha256_rsa \<and> rsa_signed tls_root_isrg_x1_n (fips256 (tbs_der x1)) (x_signature x1)"

lemma root_modulus: "1 < be_nat tls_root_isrg_x1_n"
proof -
  have "hd tls_root_isrg_x1_n = 0xad" "tls_root_isrg_x1_n \<noteq> []" by (simp_all add: tls_root_isrg_x1_n_def)
  then obtain r where r: "tls_root_isrg_x1_n = 0xad # r" by (metis list.collapse)
  have "0 < (256 :: nat) ^ length r" by simp
  then have "173 \<le> 173 * (256 :: nat) ^ length r" by linarith
  moreover have u: "unat (0xad :: byte) = 173" by simp
  ultimately show ?thesis unfolding r be_nat_Cons u by linarith
qed

lemma summary_signature:
  assumes "summarizes x s" "x509_ok x" "1 < be_nat n"
  shows "tls_verify_rsa_sha256_cert_signature s n e \<longleftrightarrow> e = 65537 \<and> x_sig_oid x = oid_sha256_rsa \<and> rsa_signed n (fips256 (tbs_der x)) (x_signature x)"
proof -
  have l: "length (x_signature x) \<le> 512" using assms(2) by (simp add: x509_ok_def TLS_RSA_MAX_BYTES_def)
  have s: "unat (signature_len s) = length (x_signature x)" "length (tbs_digest s) = 32" "length (signature_bytes s) = TLS_RSA_MAX_BYTES"
    "take (length (x_signature x)) (signature_bytes s) = x_signature x" "tbs_digest s = fips256 (tbs_der x)" "signature_ready s"
    "signature_sha256_rsa s = (x_sig_oid x = oid_sha256_rsa)" "x_sig_oid x = oid_sha256_rsa \<Longrightarrow> signature_alg_consistent s"
    using assms(1) l by (auto simp: summarizes_def sig_name_def)
  show ?thesis
    unfolding cert_signature_iff [OF assms(3) s(2,3)] using s by (auto simp: rsa_signed_def)
qed

lemma policy_two:
  assumes x: "summarizes x0 s0" "summarizes x1 s1" "x509_ok x0" "x509_ok x1"
    and core: "chain_core info = (2, s0 # s1 # rest, 1, if issuer_sha256 s0 = subject_sha256 s1 then 1 else 0, False, False, False)"
  shows "tls_policy_failure (snd (tls_verify_root_trust (snd (tls_verify_leaf_signature (info\<lparr>certificate_seen := True\<rparr>))))) = None \<longleftrightarrow>
    leaf_identity_parsed info \<and> leaf_identity_match info \<and> chain_signed x0 x1"
proof -
  let ?n = "take (unat (rsa_modulus_len s1)) (rsa_modulus s1)"
  have n: "?n = dropWhile (\<lambda>b. b = 0) (x_modulus x1)" "1 < be_nat ?n"
    using x(2,4) by (simp_all add: summarizes_def x509_ok_def be_nat_dropWhile)
  have names: "issuer_sha256 s0 = sha256_text (x_issuer x0)" "subject_sha256 s1 = sha256_text (x_subject x1)" "issuer_sha256 s1 = sha256_text (x_issuer x1)"
    "public_key_rsa s1" "rsa_modulus_ready s1" "rsa_modulus_len s1 \<noteq> 0"
    using x(1,2) by (simp_all add: summarizes_def)
  have e: "rsa_exponent s1 = 65537 \<longleftrightarrow> be_nat (x_exponent x1) = 65537"
  proof -
    have "unat (of_nat (be_nat (x_exponent x1)) :: u32) = be_nat (x_exponent x1)"
      using x(4) by (simp add: x509_ok_def unat_of_nat take_bit_nat_eq_self)
    then show ?thesis using x(2) by (auto simp: summarizes_def word_unat_eq_iff)
  qed
  have c: "cert_summaries info = 2" "certs info = s0 # s1 # rest" "chain_links_checked info = 1"
    "chain_links_ok info = (if issuer_sha256 s0 = subject_sha256 s1 then 1 else 0)" "\<not> leaf_signature_verified info" "\<not> root_trust_verified info"
    using core by (simp_all add: chain_core_def)
  note sg = summary_signature [OF x(1,3) n(2), of "rsa_exponent s1"] summary_signature [OF x(2,4) root_modulus, of 65537]
  show ?thesis
    unfolding chain_signed_def tls_verify_leaf_signature_def tls_verify_root_trust_def tls_policy_failure_def
    using c names e sg n(1) by (simp add: Let_def, blast)
qed

definition chain_zero :: "string \<Rightarrow> tls_chain" where
  "chain_zero host = tls_identity.extend (identity_for host) (tls_chain.fields False 0 0 0 0 0 False False None (replicate TLS_MAX_CERT_SUMMARIES cert_summary_zero)
     0 [] False False None)"

lemma chain_zero_core:
  "chain_core (chain_zero host) = (0, replicate 4 cert_summary_zero, 0, 0, False, False, False)" "certificate_count (chain_zero host) = 0"
  "expected_host (chain_zero host) = host" "\<not> leaf_identity_match (chain_zero host)"
  by (simp_all add: chain_zero_def chain_core_def tls_identity.defs tls_chain.defs identity_for_def TLS_MAX_CERT_SUMMARIES_def)

lemma add_first:
  "chain_core info = (0, z0 # z1 # zs, 0, 0, False, False, False) \<Longrightarrow> chain_core (add_summary s info) = (1, s # z1 # zs, 0, 0, False, False, False)"
  by (simp add: chain_core_def add_summary_def TLS_MAX_CERT_SUMMARIES_def)

lemma add_second:
  "chain_core info = (1, s0 # z1 # zs, 0, 0, False, False, False) \<Longrightarrow>
   chain_core (add_summary s info) = (2, s0 # s # zs, 1, if issuer_sha256 s0 = subject_sha256 s then 1 else 0, False, False, False)"
  by (simp add: chain_core_def add_summary_def TLS_MAX_CERT_SUMMARIES_def Let_def)

text \<open>The state of the walk over a Certificate message, with the certificates that are left of it.\<close>

lemma walk_entry:
  assumes "present m (body + p) (cert_entry c @ concat (map cert_entry cs))" "p + length (cert_entry c @ concat (map cert_entry cs)) = end0" "end0 < 16777216"
  obtains q where "chain_loop m body end0 p info = chain_certificate m (body + (p + 3)) (length c) info \<bind> chain_loop m body end0 q"
    "present m (body + (p + 3)) c" "present m (body + q) (concat (map cert_entry cs))" "q + length (concat (map cert_entry cs)) = end0"
proof (rule that [of "p + length (cert_entry c)"])
  show "chain_loop m body end0 p info = chain_certificate m (body + (p + 3)) (length c) info \<bind> chain_loop m body end0 (p + length (cert_entry c))"
    by (rule chain_loop_entry) (use assms in simp_all)
qed (use assms(1,2) in \<open>simp_all add: cert_entry_def add.assoc\<close>)

lemma message_start:
  assumes "present m body (cert_message cs)" "length (cert_message cs) < 16777216"
  shows "tls_parse_certificate m body (length (cert_message cs)) info =
    chain_loop m body (length (cert_message cs)) 3 (info\<lparr>certificate_chain_len := length (concat (map cert_entry cs))\<rparr>) \<bind>
      (\<lambda>info. Some (if certificate_count info > 0
               then snd (tls_verify_root_trust (snd (tls_verify_leaf_signature (info\<lparr>certificate_seen := True\<rparr>)))) else info))"
    "present m (body + 3) (concat (map cert_entry cs))" "3 + length (concat (map cert_entry cs)) = length (cert_message cs)"
proof -
  have g: "get_be24 m body = Some (length (concat (map cert_entry cs)))"
    by (rule get_be24_present) (use assms in \<open>simp_all add: cert_message_def\<close>)
  show "tls_parse_certificate m body (length (cert_message cs)) info =
    chain_loop m body (length (cert_message cs)) 3 (info\<lparr>certificate_chain_len := length (concat (map cert_entry cs))\<rparr>) \<bind>
      (\<lambda>info. Some (if certificate_count info > 0
               then snd (tls_verify_root_trust (snd (tls_verify_leaf_signature (info\<lparr>certificate_seen := True\<rparr>)))) else info))"
    using g by (simp add: tls_parse_certificate_def Let_def cert_message_def del: chain_loop.simps)
  show "present m (body + 3) (concat (map cert_entry cs))" "3 + length (concat (map cert_entry cs)) = length (cert_message cs)"
    using assms(1) by (simp_all add: cert_message_def)
qed

text \<open>C13: What the client accepts, conjunct by conjunct. For a Certificate message of exactly two RSA certificates in distinguished
  encoding with subject alternative names, whose other texts are arbitrary (\<open>x509_ok\<close>: modulus above 1 and at most 512 bytes, exponent
  below 2 to the 32, a signature of 1 to 512 bytes, 24-bit sizes), the policy accepts the parsed message if and only if all of the
  following hold. One of the DNS names of the leaf matches the host. The SHA-256 text of the leaf's issuer name equals that of the second
  certificate's subject name. The second certificate's public exponent is 65537. Both certificates are marked sha256WithRSAEncryption. The
  leaf carries a PKCS #1 v1.5 signature under the modulus of the second certificate, of 62 to 512 bytes. The SHA-256 text of the second
  certificate's issuer name is that of the built-in root, and it carries a signature under the built-in root modulus. Nothing else plays
  a part: not the dates, not the constraints on authorities, and names are compared by their hashes only. The example below is a
  refused chain, since an accepted one needs a signature by the real root.\<close>

theorem tls_chain_accepted_iff:
  assumes "present m body (cert_message [cert_der x0, cert_der x1])" "length (cert_message [cert_der x0, cert_der x1]) < 16777216"
    "x509_ok x0" "x509_ok x1"
  shows "\<exists>info. tls_parse_certificate m body (length (cert_message [cert_der x0, cert_der x1])) (chain_zero host) = Some info \<and>
    (tls_policy_failure info = None \<longleftrightarrow> (\<exists>c. (0x82, c) \<in> set (x_names x0) \<and> host_matches host c) \<and> chain_signed x0 x1)"
proof -
  let ?msg = "cert_message [cert_der x0, cert_der x1]" and ?i = "(chain_zero host)\<lparr>certificate_chain_len := length (concat (map cert_entry [cert_der x0, cert_der x1]))\<rparr>"
  note st = message_start [OF assms(1,2)]
  have i0: "chain_core ?i = (0, cert_summary_zero # cert_summary_zero # replicate 2 cert_summary_zero, 0, 0, False, False, False)" "certificate_count ?i = 0"
    "expected_host ?i = host" "\<not> leaf_identity_match ?i"
    using chain_zero_core [of host] by (simp_all add: chain_core_def numeral_eq_Suc)
  obtain q where w0: "chain_loop m body (length ?msg) 3 ?i = chain_certificate m (body + (3 + 3)) (length (cert_der x0)) ?i \<bind> chain_loop m body (length ?msg) q"
    and p0: "present m (body + (3 + 3)) (cert_der x0)" and r0: "present m (body + q) (concat (map cert_entry [cert_der x1]))"
      "q + length (concat (map cert_entry [cert_der x1])) = length ?msg"
    by (rule walk_entry [of m body 3 "cert_der x0" "[cert_der x1]" "length ?msg" ?i]) (use st(2,3) assms(2) in simp_all)
  obtain s0 i1 where c0: "summarizes x0 s0" "chain_certificate m (body + (3 + 3)) (length (cert_der x0)) ?i = Some i1"
    "chain_core i1 = chain_core (add_summary s0 ?i)" "certificate_count i1 = 1" "leaf_identity_parsed i1"
    "leaf_identity_match i1 \<longleftrightarrow> (\<exists>c. (0x82, c) \<in> set (x_names x0) \<and> host_matches host c)"
    using chain_certificate_first [OF p0 assms(3) i0(2)] i0(3,4) by auto
  have k1: "chain_core i1 = (1, s0 # cert_summary_zero # replicate 2 cert_summary_zero, 0, 0, False, False, False)"
    using add_first [OF i0(1)] c0(3) by simp
  obtain q' where w1: "chain_loop m body (length ?msg) q i1 = chain_certificate m (body + (q + 3)) (length (cert_der x1)) i1 \<bind> chain_loop m body (length ?msg) q'"
    and p1: "present m (body + (q + 3)) (cert_der x1)" and r1: "q' = length ?msg"
    by (rule walk_entry [of m body q "cert_der x1" "[]" "length ?msg" i1]) (use r0 assms(2) in simp_all)
  obtain s1 i2 where c1: "summarizes x1 s1" "chain_certificate m (body + (q + 3)) (length (cert_der x1)) i1 = Some i2"
    "chain_core i2 = chain_core (add_summary s1 i1)" "certificate_count i2 = 2" "same_identity i2 i1"
    using chain_certificate_later [OF p1 assms(4), of i1] c0(4) by (auto simp: numeral_2_eq_2)
  have k2: "chain_core i2 = (2, s0 # s1 # replicate 2 cert_summary_zero, 1, if issuer_sha256 s0 = subject_sha256 s1 then 1 else 0, False, False, False)"
    using add_second [OF k1] c1(3) by simp
  have "tls_parse_certificate m body (length ?msg) (chain_zero host) =
      Some (snd (tls_verify_root_trust (snd (tls_verify_leaf_signature (i2\<lparr>certificate_seen := True\<rparr>)))))"
    unfolding st(1) w0 using c0(2) w1 c1(2,4) r1 by (simp add: chain_loop_end del: chain_loop.simps)
  with policy_two [OF c0(1) c1(1) assms(3,4) k2] c0(5,6) c1(5) show ?thesis by (auto simp: same_identity_def)
qed

section \<open>The identity is taken from a certificate that need not be signed\<close>

text \<open>What anyone can write down for a host: a value with the fields of a leaf certificate, a name for the host and no signature. The tag of
  the algorithm field is wrong, so that no summary is made of it.\<close>

definition host_bytes :: "string \<Rightarrow> bytes" where
  "host_bytes host = map (\<lambda>c. of_nat (of_char c)) host"

definition forged :: "string \<Rightarrow> bytes" where
  "forged host = der_tlv 0x30 (der_tlv 0x30 (leaf_tbs [] [(0x02, [1]), (0x04, []), (0x30, [])] [] [] [(0x30, []), (0x30, [])] [] [(0x82, host_bytes host)]) @ [])"

lemma host_matches_self:
  assumes "host \<noteq> []" "hd host \<noteq> CHR ''*''"
  shows "host_matches host (host_bytes host)"
proof -
  have c: "char_of (unat (of_nat (of_char c) :: byte)) = c" for c :: char
    by (simp add: unat_of_nat take_bit_eq_mod)
  have "(of_nat (of_char (hd host)) :: byte) \<noteq> 0x2a"
  proof
    assume "(of_nat (of_char (hd host)) :: byte) = 0x2a"
    then have "hd host = char_of (unat (0x2a :: byte))" using c [of "hd host"] by simp
    also have "\<dots> = CHR ''*''" by code_simp
    finally show False using assms(2) by simp
  qed
  then have "\<not> (\<exists>b rest. host_bytes host = 0x2a # 0x2e # b # rest)" using assms(1) by (cases host) (auto simp: host_bytes_def)
  moreover have "lower (host_bytes host) = map lower_ascii host" by (simp add: lower_def host_bytes_def c)
  ultimately show ?thesis using assms(1) by (simp add: host_matches_def host_bytes_def)
qed

lemma forged_names:
  assumes "left_at m p (length (forged host)) 0 (forged host)" "length (forged host) < 16777216"
  shows "tls_parse_certificate_names m p (of_nat (length (forged host))) = Some None"
proof -
  let ?L = "length (forged host)" and ?e = "der_tlv 0xa3 (der_tlv 0x30 (concat (map extension_der ([] @ [(san_oid, False, san_der [(0x82, host_bytes host)])]))))"
  let ?rest = "der_tlv 0x04 [] @ der_tlv 0x30 [] @ der_tlv 0x30 (der_tlv 0x17 [] @ der_tlv 0x17 []) @ der_tlv 0x30 [] @ der_tlv 0x30 [] @ ?e"
  let ?tbs = "[] @ der_tlv 0x02 [1] @ ?rest" and ?c = "der_tlv 0x30 ([] @ der_tlv 0x02 [1] @ ?rest)"
  have f: "forged host = der_tlv 0x30 ?c" by (simp add: forged_def leaf_tbs_def)
  have "left_at m p ?L 0 (der_tlv 0x30 ?c @ [])" using assms(1) f by simp
  then obtain p1 q1 where r1: "asn1_read_tlv m p (of_nat ?L) (of_nat 0) = Some (Some (0x30, p1, of_nat (length ?c)), of_nat q1)"
    and l1: "left_at m p1 (length ?c) 0 ?c" "length ?c < ?L" by (rule read_next [OF _ assms(2)])
  have n: "length ?c < 16777216" using l1(2) assms(2) by simp
  have "left_at m p1 (length ?c) 0 (?c @ [])" using l1(1) by simp
  then obtain p2 q2 where r2: "asn1_read_tlv m p1 (of_nat (length ?c)) (of_nat 0) = Some (Some (0x30, p2, of_nat (length ?tbs)), of_nat q2)"
    and l2: "left_at m p2 (length ?tbs) 0 ?tbs" "length ?tbs < length ?c" "q2 = 0 + length ?c" by (rule read_next [OF _ n])
  have t: "length ?tbs < 16777216" using l2(2) n by simp
  have h: "\<exists>r. tls_sha256_bytes_hex m p1 (of_nat q2) = Some r"
    using left_at_bytes [OF l1(1)] sha256_buffer_fips [of ?c] l2(3) n
    by (auto simp: tls_sha256_bytes_hex_def sha256_buffer_def Let_def bind_eq_Some_conv)
  obtain q3 where r3: "skip_version m p2 (of_nat (length ?tbs)) = Some (Some (of_nat q3))"
    and l3: "left_at m p2 (length ?tbs) q3 (der_tlv 0x02 [1] @ ?rest)"
  proof (rule skip_version_left [OF l2(1) t])
    show "[] = ([] :: bytes) \<and> (\<exists>t c r. der_tlv 0x02 [1] @ ?rest = der_tlv t c @ r \<and> t \<noteq> 0xa0) \<or> (\<exists>v. [] = der_tlv 0xa0 v)"
      by (intro disjI1 conjI exI [of _ "0x02"] exI [of _ "[1]"] exI [of _ ?rest]) simp_all
  qed blast
  obtain p4 q4 where r4: "asn1_read_tlv m p2 (of_nat (length ?tbs)) (of_nat q3) = Some (Some (0x02, p4, of_nat (length [1 :: byte])), of_nat q4)"
    and l4: "left_at m p2 (length ?tbs) q4 ?rest" by (rule read_next [OF l3 t])
  obtain p5 q5 where r5: "asn1_read_tlv m p2 (of_nat (length ?tbs)) (of_nat q4) = Some (Some (0x04, p5, of_nat (length ([] :: bytes))), of_nat q5)"
    by (rule read_next [OF l4 t])
  have tbs: "parse_tbs m p2 (of_nat (length ?tbs)) s = Some None" for s
    using r3 r4 r5 by (simp add: parse_tbs_def or_fail_def read_any_def read_tagged_def)
  show ?thesis
    using r1 r2 h tbs by (auto simp: tls_parse_certificate_names_def or_fail_def read_tagged_def Let_def)
qed

lemma forged_certificate:
  assumes "present m p (forged host)" "length (forged host) < 16777216" "certificate_count info = 0" "expected_host info = host"
    "host \<noteq> []" "hd host \<noteq> CHR ''*''"
  shows "\<exists>info'. chain_certificate m p (length (forged host)) info = Some info' \<and> chain_core info' = chain_core info \<and>
    certificate_count info' = 1 \<and> leaf_identity_parsed info' \<and> leaf_identity_match info'"
proof -
  have l: "left_at m p (length (forged host)) 0 (forged host)" using assms(1) by (simp add: left_at_def)
  obtain hex where hex: "value_sha256 m p (of_nat (length (forged host))) = Some hex"
    using value_sha256_left [OF l assms(2)] by blast
  let ?i = "info\<lparr>leaf_certificate_len := length (forged host), leaf_certificate_sha256 := hex\<rparr>"
  obtain L where L: "L = length (forged host)" by simp
  obtain info1 where i: "tls_parse_leaf_identity m p (of_nat (length (forged host))) ?i = Some info1" "leaf_identity_parsed info1"
    "names_checked [(0x82, host_bytes host)] ?i info1"
    using leaf_identity_left [OF l [folded L, unfolded forged_def] assms(2) [folded L], of ?i] unfolding L by auto
  have c: "chain_core info1 = chain_core info" "certificate_count info1 = 0"
    using chain_core_more [of info1 ?i] i(3) assms(3) by (simp_all add: names_checked_def chain_core_def)
  have "leaf_identity_match info1" using i(3) host_matches_self [OF assms(5,6)] assms(4) by (auto simp: names_checked_def)
  moreover have "chain_certificate m p (length (forged host)) info = Some (info1\<lparr>certificate_count := 1\<rparr>)"
    using forged_names [OF l assms(2)] hex i(1) assms(3) c(2) by (simp add: chain_certificate_def Let_def)
  ultimately show ?thesis using c(1) i(2)
    by (intro exI [of _ "info1\<lparr>certificate_count := 1\<rparr>"]) (simp add: chain_core_def)
qed

text \<open>C14: The client accepts anyone's chain for any host. Put in front of the chain of some other site the unsigned value \<open>forged host\<close>: the policy now
  accepts the message for \<open>host\<close> if and only if the chain of that other site is signed, whatever names are in it. The first
  certificate gives the identity even when no summary can be made of it, and the signatures are checked on the summaries.\<close>

theorem tls_identity_not_bound:
  assumes "present m body (cert_message [forged host, cert_der x0, cert_der x1])" "length (cert_message [forged host, cert_der x0, cert_der x1]) < 16777216"
    "x509_ok x0" "x509_ok x1" "host \<noteq> []" "hd host \<noteq> CHR ''*''"
  shows "\<exists>info. tls_parse_certificate m body (length (cert_message [forged host, cert_der x0, cert_der x1])) (chain_zero host) = Some info \<and>
    (tls_policy_failure info = None \<longleftrightarrow> chain_signed x0 x1)"
proof -
  let ?msg = "cert_message [forged host, cert_der x0, cert_der x1]"
    and ?i = "(chain_zero host)\<lparr>certificate_chain_len := length (concat (map cert_entry [forged host, cert_der x0, cert_der x1]))\<rparr>"
  note st = message_start [OF assms(1,2)]
  have i0: "chain_core ?i = (0, cert_summary_zero # cert_summary_zero # replicate 2 cert_summary_zero, 0, 0, False, False, False)" "certificate_count ?i = 0"
    "expected_host ?i = host"
    using chain_zero_core [of host] by (simp_all add: chain_core_def numeral_eq_Suc)
  have fl: "length (forged host) < 16777216" using assms(2) by (simp add: cert_message_def length_cert_entry)
  obtain q0 where w: "chain_loop m body (length ?msg) 3 ?i = chain_certificate m (body + (3 + 3)) (length (forged host)) ?i \<bind> chain_loop m body (length ?msg) q0"
    and pf: "present m (body + (3 + 3)) (forged host)" and rf: "present m (body + q0) (concat (map cert_entry [cert_der x0, cert_der x1]))"
      "q0 + length (concat (map cert_entry [cert_der x0, cert_der x1])) = length ?msg"
    by (rule walk_entry [of m body 3 "forged host" "[cert_der x0, cert_der x1]" "length ?msg" ?i]) (use st(2,3) assms(2) in simp_all)
  obtain i0' where cf: "chain_certificate m (body + (3 + 3)) (length (forged host)) ?i = Some i0'" "chain_core i0' = chain_core ?i"
    "certificate_count i0' = 1" "leaf_identity_parsed i0'" "leaf_identity_match i0'"
    using forged_certificate [OF pf fl i0(2,3) assms(5,6)] by blast
  obtain q where w0: "chain_loop m body (length ?msg) q0 i0' = chain_certificate m (body + (q0 + 3)) (length (cert_der x0)) i0' \<bind> chain_loop m body (length ?msg) q"
    and p0: "present m (body + (q0 + 3)) (cert_der x0)" and r0: "present m (body + q) (concat (map cert_entry [cert_der x1]))"
      "q + length (concat (map cert_entry [cert_der x1])) = length ?msg"
    by (rule walk_entry [of m body q0 "cert_der x0" "[cert_der x1]" "length ?msg" i0']) (use rf assms(2) in simp_all)
  obtain s0 i1 where c0: "summarizes x0 s0" "chain_certificate m (body + (q0 + 3)) (length (cert_der x0)) i0' = Some i1"
    "chain_core i1 = chain_core (add_summary s0 i0')" "certificate_count i1 = 2" "same_identity i1 i0'"
    using chain_certificate_later [OF p0 assms(3), of i0'] cf(3) by (auto simp: numeral_2_eq_2)
  have k1: "chain_core i1 = (1, s0 # cert_summary_zero # replicate 2 cert_summary_zero, 0, 0, False, False, False)"
    using add_first [of i0'] cf(2) i0(1) c0(3) by simp
  obtain q' where w1: "chain_loop m body (length ?msg) q i1 = chain_certificate m (body + (q + 3)) (length (cert_der x1)) i1 \<bind> chain_loop m body (length ?msg) q'"
    and p1: "present m (body + (q + 3)) (cert_der x1)" and r1: "q' = length ?msg"
    by (rule walk_entry [of m body q "cert_der x1" "[]" "length ?msg" i1]) (use r0 assms(2) in simp_all)
  obtain s1 i2 where c1: "summarizes x1 s1" "chain_certificate m (body + (q + 3)) (length (cert_der x1)) i1 = Some i2"
    "chain_core i2 = chain_core (add_summary s1 i1)" "certificate_count i2 = 3" "same_identity i2 i1"
    using chain_certificate_later [OF p1 assms(4), of i1] c0(4) by (auto simp: numeral_2_eq_2 numeral_3_eq_3)
  have k2: "chain_core i2 = (2, s0 # s1 # replicate 2 cert_summary_zero, 1, if issuer_sha256 s0 = subject_sha256 s1 then 1 else 0, False, False, False)"
    using add_second [OF k1] c1(3) by simp
  have "tls_parse_certificate m body (length ?msg) (chain_zero host) =
      Some (snd (tls_verify_root_trust (snd (tls_verify_leaf_signature (i2\<lparr>certificate_seen := True\<rparr>)))))"
    unfolding st(1) w using cf(1) w0 c0(2) w1 c1(2,4) r1 by (simp add: chain_loop_end del: chain_loop.simps)
  with policy_two [OF c0(1) c1(1) assms(3,4) k2] cf(4,5) c0(5) c1(5) show ?thesis by (auto simp: same_identity_def)
qed

lemma demo_not_signed: "\<not> chain_signed demo_x509 demo_x509"
  by (simp add: chain_signed_def demo_x509_def be_nat_Cons)

lemma length_demo: "length (cert_der demo_x509) < 1000"
  by (simp add: demo_x509_def cert_der_def tbs_der_def tbs_body_def sig_der_def spki_der_def
      extensions_der_def extension_der_def san_der_def der_tlv_def der_length_def oid_defs san_oid_def)

theorem tls_chain_accepted_iff_witness:
  "x509_ok demo_x509 \<and> (\<exists>info. tls_parse_certificate (cert_message [cert_der demo_x509, cert_der demo_x509]) 0
     (length (cert_message [cert_der demo_x509, cert_der demo_x509])) (chain_zero ''a'') = Some info \<and> tls_policy_failure info \<noteq> None)"
proof -
  let ?msg = "cert_message [cert_der demo_x509, cert_der demo_x509]"
  have "present ?msg 0 ?msg" using present_all [of 0 "[]" ?msg "[]"] by simp
  moreover have "length ?msg < 16777216" using length_demo by (simp add: cert_message_def length_cert_entry)
  ultimately show ?thesis
    using tls_chain_accepted_iff [OF _ _ demo_x509_ok demo_x509_ok, of ?msg 0 "''a''"] demo_x509_ok demo_not_signed by auto
qed

theorem tls_identity_not_bound_witness:
  "host_matches ''b'' (host_bytes ''b'') \<and> (\<exists>info. tls_parse_certificate (cert_message [forged ''b'', cert_der demo_x509, cert_der demo_x509]) 0
     (length (cert_message [forged ''b'', cert_der demo_x509, cert_der demo_x509])) (chain_zero ''b'') = Some info \<and>
     (tls_policy_failure info = None) = chain_signed demo_x509 demo_x509)"
proof -
  let ?msg = "cert_message [forged ''b'', cert_der demo_x509, cert_der demo_x509]"
  have p: "present ?msg 0 ?msg" using present_all [of 0 "[]" ?msg "[]"] by simp
  have "length (forged ''b'') < 1000"
    by (simp add: forged_def leaf_tbs_def extension_der_def san_der_def der_tlv_def der_length_def san_oid_def host_bytes_def)
  then have "length ?msg < 16777216" using length_demo by (simp add: cert_message_def length_cert_entry)
  from tls_identity_not_bound [OF p this demo_x509_ok demo_x509_ok] host_matches_self [of "''b''"] show ?thesis by simp
qed

end
