(* ===== verification/Spec2Isabelle.thy ===== *)
theory Spec2Isabelle
  imports Cstring Kmalloc Sha256 Sha1 VfsRestore AesAuth X25519 RsaKeygen TcpServer NetWait TcpClient TlsVerify
begin

text \<open>
  A verification development for the kernel of Orizon OS, \<^verbatim>\<open>orizon-os-x86_64/kernel\<close>.

  \<^bold>\<open>The program.\<close> Orizon OS is a single-address-space kernel for \<open>x86_64\<close> written in C. At boot it sets up the hardware,
  a static heap, and a file system in memory whose data directories are saved to two slots of a data partition; on top of these run the
  drivers, a network stack with TLS, an SSH server, signed updates and a desktop. The parts modelled here are the ones all of this rests on:
  the C library and the heap, the file system with its snapshots, the cryptography used by TLS, SSH, Wi-Fi and the update check, and the
  network stack up to TCP with the certificates of TLS.
  They interact by calls: the file system allocates the contents of its files with \<^verbatim>\<open>kmalloc\<close> and copies with the
  string library, its snapshots go to the storage driver, RSA key generation and signatures use SHA-256, and PBKDF2, HMAC
  and key unwrapping use the hash and the block cipher. The network stack reads its configuration from a file, polls the Ethernet or Wi-Fi
  driver for frames, and offers connections to the SSH service (one listening port) and to the HTTP client.

  \<^bold>\<open>Theories and sources\<close> (all sources are under \<^verbatim>\<open>kernel/\<close>).
  \<^item> \<open>Prelude\<close>: the integer types of \<^verbatim>\<open>include/types.h\<close>, slices of byte buffers, big- and little-endian numbers.
  \<^item> \<open>Cstring\<close> (\<^verbatim>\<open>lib/string.c\<close>): memory is a function from addresses to bytes, so that overlap and writes outside a buffer are visible;
    \<^verbatim>\<open>snprintf\<close> interprets the format over a list of typed arguments.
  \<^item> \<open>Kmalloc\<close> (\<^verbatim>\<open>mm/kmalloc.c\<close>): block headers at addresses of the heap array, linked in address order, and the payload bytes. The abstraction
    is a list of blocks; the locale \<open>allocator\<close> states what a client may rely on and is interpreted on the model.
  \<^item> \<open>HashStream\<close>, \<open>Sha256\<close>, \<open>Sha1\<close> (\<^verbatim>\<open>lib/sha256.c\<close>, \<^verbatim>\<open>lib/sha1.c\<close>): the locale \<open>md_stream\<close> proves once that a buffered context computes
    the hash of the concatenated pieces; both contexts are interpretations.
  \<^item> \<open>VfsCore\<close>, \<open>VfsPersist\<close>, \<open>VfsApi\<close>, \<open>VfsTree\<close>, \<open>VfsSystem\<close>, \<open>VfsClear\<close>, \<open>VfsRestore\<close> (\<^verbatim>\<open>fs/vfs.c\<close>, \<^verbatim>\<open>include/vfs.h\<close>): one record holds the static variables
    of the file, the heap and the state of the disk. \<open>VfsCore\<close> has the inode table and path helpers, \<open>VfsPersist\<close> the snapshot format and its slots,
    \<open>VfsApi\<close> the public operations, \<open>VfsTree\<close> the agreement of parent indices with paths and what follows from it, \<open>VfsSystem\<close> the transition
    system of these operations and their refinement of a map from paths to files and directories, \<open>VfsClear\<close> the recursive emptying of a directory,
    and \<open>VfsRestore\<close> the default files and the replay of a snapshot.
  \<^item> \<open>Aes\<close>, \<open>AesModes\<close>, \<open>AesAuth\<close> (\<^verbatim>\<open>lib/aes_gcm.c\<close>): the block cipher; counter mode, GCM, key unwrapping and CCM with their error paths
    and what they leave in the output buffers; and the proofs against the standards.
  \<^item> \<open>X25519\<close> (\<^verbatim>\<open>lib/x25519.c\<close>): field elements as five 64-bit limbs, products on 128 bits, the ladder.
  \<^item> \<open>Rsa\<close>, \<open>RsaKeygen\<close> (\<^verbatim>\<open>lib/rsa.c\<close>, \<^verbatim>\<open>include/rsa.h\<close>): big-endian byte strings modulo a byte string, PKCS #1 v1.5 signatures, and key
    generation. The locale \<open>msb_loop\<close> covers the two loops that scan a number from its most significant bit.
  \<^item> \<open>NetPacket\<close>, \<open>NetWait\<close>, \<open>NetNames\<close>, \<open>TcpClient\<close>, \<open>TcpServer\<close> (\<^verbatim>\<open>drivers/netstack.c\<close>, \<^verbatim>\<open>include/netstack.h\<close>): \<open>NetPacket\<close> has the state of the
    stack, the packets it builds and the parsers of the packets it receives; \<open>NetWait\<close> the deadlines, the blocking waits and the DHCP messages;
    \<open>NetNames\<close> dotted addresses, the configuration file and DNS messages; \<open>TcpClient\<close> configuration, ping, name resolution and
    outgoing connections, whose loops are one loop around a handler of a frame (locale \<open>frame_handler\<close>, interpreted on every handler);
    \<open>TcpServer\<close> the polled server of the SSH service.
  \<^item> \<open>Asn1\<close>, \<open>TlsCert\<close>, \<open>TlsVerify\<close> (the certificates of the TLS client in \<^verbatim>\<open>drivers/netstack.c\<close>): \<open>Asn1\<close> has the DER reader over a memory, with lengths
    and offsets as 64-bit words, and the comparison of host names; \<open>TlsCert\<close> the summary of a certificate and the names of the leaf;
    \<open>TlsVerify\<close> the signatures, the root key, the Certificate message and the policy. The record \<^verbatim>\<open>tls_parse_info_t\<close> is \<open>tls_identity\<close> extended by
    \<open>tls_chain\<close>, for the fields these functions use; \<open>x509\<close> is what an authority encodes, and \<open>cert_der\<close> its encoding.

  \<^bold>\<open>Conventions.\<close> A definition has the name of the C function; loops and long branches have definitions of their own. A null pointer is \<open>None\<close>; a
  call that may not return has an option as its result, and \<open>None\<close> there means that it does not return or leaves a buffer. Error codes are kept as integers.
  Machine integers are words of the width of the code wherever they can wrap around; counters and lengths that the code keeps within a
  buffer are natural numbers. The storage driver is a record of functions on an arbitrary device state, an argument of every
  definition that reaches the disk; where a property needs the driver to behave, the hypothesis \<open>sector_device\<close> says that a sector reads back what was
  last written to it. The installer's and the update's effects on the file system come in through the same parameters. The link drivers, the timer, the log and
  the configuration file are likewise a record of functions on a device state; that the timer does not go back is the hypothesis
  of the properties which say that a wait ends.

  \<^bold>\<open>What is proved.\<close>
  \<^item> Heap: every state reached by allocating, releasing and writing keeps the block list well formed and disjoint; allocation is
    first fit, release coalesces fully, reallocation keeps the contents. The bound of these statements is the largest size that does not wrap around;
    beyond it, within 47 bytes of the largest number, rounding and the header wrap, which a theorem shows on an example.
  \<^item> Strings: moving memory is right for every overlap; formatted output stays within its buffer; \<^verbatim>\<open>strncpy\<close> writes one byte too many.
  \<^item> File system: in all reachable states the table is a tree, every parent index naming the node of the parent path and every walk to the parent
    ending at the root; refinement of creation, writing, deletion and renaming, reading back what was written,
    and that every operation returns; three defects are stated as theorems (stale handles, negative seeks, recursive deletion).
    Paths are compared as strings by the code, so the steps of the transition system that create a node take a path without empty components.
  \<^item> Snapshots: a save can be read back and decoded to the entries saved, it never touches the slot in use, the checksum detects a changed
    byte, and replaying arbitrary bytes empties the data directories and changes nothing outside them, provided no directory inside
    that has children has an index above the number of nodes outside; without that condition the recursive deletion can lose a file outside, which
    is also a theorem.
  \<^item> Hashes: streaming equals FIPS 180-4; HMAC and PBKDF2 equal their standards.
  \<^item> AES: decryption inverts encryption; GHASH multiplication, GCM, CCM and key unwrapping agree with SP 800-38D, RFC 3610 and RFC 3394, whose
    formulas are written out independently of the code.
  \<^item> X25519 is the function of RFC 7748, and no intermediate value overflows.
  \<^item> RSA: exponentiation and verification are exact, signing never returns a signature that does not verify, the primality test decides
    the strong-probable-prime condition, and key generation succeeds exactly if the two searches for a prime among the candidates of its seed find
    different ones, and then returns the key they determine.
  \<^item> Packets: no parser reads outside its buffer, whatever the bytes; a segment that is sent parses back to the same fields.
  \<^item> Names: a dotted address is accepted exactly when it has four numbers up to 255, a configuration file that is written reads back, and a DNS query
    carries the name asked for (a host of 495 to 497 characters overruns its buffer of 512 bytes: the model has those cells, and \<open>None\<close> for a store
    past them), and of a reply the first address is taken.
  \<^item> TCP: both the client and the server deliver a prefix of the peer's bytes, in order, under any loss, repetition and reordering of segments; a
    connection is reported only after the handshake; every call returns, except that \<^verbatim>\<open>tcp_recv_all\<close> is kept busy for ever by a peer that keeps
    sending, while the timer passes any deadline it had.
  \<^item> Certificates: a certificate in distinguished encoding is read as it was encoded, and a chain of two is accepted exactly if it names the host and is
    signed up to the built-in root. Two defects are theorems: a length that wraps around stops the client for ever, and an unsigned certificate in front of
    a chain makes that chain count for any host.

  \<^bold>\<open>Termination.\<close> No definition uses fuel. Loops with a bound are recursive functions with a measure; walks of a linked
  list, loops that wait for a terminator, and the removal of factors of two are partial functions whose totality on the reachable
  states is proved.

  \<^bold>\<open>Not modelled.\<close> Of \<^verbatim>\<open>netstack.c\<close>: the key schedule and the records of TLS, HTTP and the texts of the status reports. Interrupt tables, timer, ACPI, PCI, USB, storage and network controllers program devices, and their
  behaviour is that of the hardware. The desktop, the compositor and the terminal draw and lay out text. The system services
  (packages, reports, SSH commands) are command handlers over the parts above. The self tests compare outputs with constants.
\<close>

end
